(* ===== verification/Prelude.thy ===== *)
theory Prelude imports Main "HOL-Library.Word" begin

text \<open>
  Shared vocabulary of the development: machine integers, byte strings and their big- and
  little-endian values, and the two-outcome state operations in which every C function that
  "returns one on success and zero on error" is written.

  A C function of that kind takes its object by pointer, may change it even when it fails, and
  delivers its out-parameter only on success. It is a function from the object's state to a
  pair: \<open>(Some out, s')\<close> is "returned 1 with \<open>*out = out\<close>", \<open>(None, s')\<close> is "returned 0",
  and \<open>s'\<close> is what the object holds afterwards in either case.
\<close>

unbundle bit_operations_syntax

section \<open>Collections of rules\<close>

named_theorems op_simps \<open>unfolding of the sequencing combinators\<close>
named_theorems byte_simps \<open>byte strings and their values\<close>

section \<open>Machine integers\<close>

type_synonym u8 = "8 word"
type_synonym u16 = "16 word"
type_synonym u32 = "32 word"
type_synonym u64 = "64 word"

abbreviation size_limit :: nat where
  "size_limit \<equiv> 2 ^ 64"

abbreviation INT_MAX :: nat where "INT_MAX \<equiv> 2 ^ 31 - 1"

text \<open>Two size_t additions; \<open>size_add\<close> wraps as the C expression does.\<close>

definition size_add :: "nat \<Rightarrow> nat \<Rightarrow> nat" where
  "size_add a b = (a + b) mod size_limit"

lemma size_add_exact [simp]: "a + b < size_limit \<Longrightarrow> size_add a b = a + b"
  by (simp add: size_add_def)

lemma size_add_less: "size_add a b < size_limit"
  by (simp add: size_add_def)

text \<open>The C idiom \<open>if (a + b < a)\<close> detects exactly the additions that do not fit.\<close>

lemma size_add_overflow_iff:
  assumes "a < size_limit" and "b < size_limit"
  shows "size_add a b < a \<longleftrightarrow> size_limit \<le> a + b"
proof (cases "a + b < size_limit")
  case False
  then have "size_add a b = a + b - size_limit"
    using assms by (simp add: size_add_def mod_if)
  with False assms show ?thesis by linarith
qed simp

section \<open>Operations that succeed or fail\<close>

type_synonym ('s, 'a) op = "'s \<Rightarrow> 'a option \<times> 's"

definition op_return :: "'a \<Rightarrow> ('s, 'a) op" where
  "op_return a s = (Some a, s)"

definition op_fail :: "('s, 'a) op" where
  "op_fail s = (None, s)"

definition op_bind :: "('s, 'a) op \<Rightarrow> ('a \<Rightarrow> ('s, 'b) op) \<Rightarrow> ('s, 'b) op" where
  "op_bind m k s = (case m s of (None, s') \<Rightarrow> (None, s') | (Some a, s') \<Rightarrow> k a s')"

text \<open>\<open>if (!check) return 0;\<close>\<close>

definition op_check :: "bool \<Rightarrow> ('s, unit) op" where
  "op_check b s = (if b then Some () else None, s)"

lemma op_return_app [op_simps]: "op_return a s = (Some a, s)"
  by (simp add: op_return_def)

lemma op_fail_app [op_simps]: "op_fail s = (None, s)"
  by (simp add: op_fail_def)

lemma op_check_app [op_simps]: "op_check b s = (if b then Some () else None, s)"
  by (simp add: op_check_def)

lemma op_bind_Some [op_simps]: "m s = (Some a, s') \<Longrightarrow> op_bind m k s = k a s'"
  by (simp add: op_bind_def)

lemma op_bind_None [op_simps]: "m s = (None, s') \<Longrightarrow> op_bind m k s = (None, s')"
  by (simp add: op_bind_def)

lemma op_bind_eq_Some:
  "op_bind m k s = (Some b, s'') \<longleftrightarrow> (\<exists>a s'. m s = (Some a, s') \<and> k a s' = (Some b, s''))"
  by (auto simp: op_bind_def split: prod.splits option.splits)

lemma op_bind_SomeE:
  assumes "op_bind m k s = (Some b, s'')"
  obtains a s' where "m s = (Some a, s')" and "k a s' = (Some b, s'')"
  using assms by (auto simp: op_bind_eq_Some)

lemma op_bind_assoc: "op_bind (op_bind m k) h = op_bind m (\<lambda>a. op_bind (k a) h)"
  by (rule ext) (auto simp: op_bind_def split: prod.splits option.splits)

lemma op_bind_return [simp]: "op_bind (op_return a) k = k a"
  by (rule ext) (simp add: op_bind_def op_return_def)

lemma op_check_True [simp]: "op_bind (op_check True) k = k ()"
  by (rule ext) (simp add: op_bind_def op_check_def)

section \<open>Byte strings\<close>

lemma append_longer:
  "xs @ ys = us @ vs \<Longrightarrow> length us \<le> length xs \<Longrightarrow> \<exists>w. xs = us @ w \<and> vs = w @ ys"
  by (auto simp: append_eq_append_conv2)

section \<open>Byte strings as numbers\<close>

text \<open>Big-endian value, and the \<open>k\<close> big-endian bytes of a number.\<close>

definition be_val :: "u8 list \<Rightarrow> nat" where
  "be_val bs = foldl (\<lambda>a b. 256 * a + unat b) 0 bs"

definition byte :: "nat \<Rightarrow> u8" where
  "byte n = word_of_nat n"

fun be_bytes :: "nat \<Rightarrow> nat \<Rightarrow> u8 list" where
  "be_bytes 0 n = []"
| "be_bytes (Suc k) n = be_bytes k (n div 256) @ [byte n]"

text \<open>Little-endian value, and the \<open>k\<close> little-endian bytes of a number.\<close>

fun le_val :: "u8 list \<Rightarrow> nat" where
  "le_val [] = 0"
| "le_val (b # bs) = unat b + 256 * le_val bs"

fun le_bytes :: "nat \<Rightarrow> nat \<Rightarrow> u8 list" where
  "le_bytes 0 n = []"
| "le_bytes (Suc k) n = byte n # le_bytes k (n div 256)"

lemma unat_byte_less [simp]: "unat (b :: u8) < 256"
  using unsigned_less [of b] by simp

lemma unat_u32_less: "unat (v :: u32) < 2 ^ 32"
  using unsigned_less [of v] by simp

lemma unat_u64_less: "unat (v :: u64) < 2 ^ 64"
  using unsigned_less [of v] by simp

lemma sint_nonneg:
  assumes "0 \<le> sint (v :: u64)"
  shows "sint v = uint v"
proof -
  have wrap: "(u + 2 ^ 63) mod 2 ^ 64 - 2 ^ 63 = u"
    if "0 \<le> u" "u < 2 ^ 64" "0 \<le> (u + 2 ^ 63) mod 2 ^ 64 - (2 :: int) ^ 63" for u
  proof (cases "u < 2 ^ 63")
    case False
    have "(u + 2 ^ 63) mod 2 ^ 64 = (u - 2 ^ 63) mod (2 :: int) ^ 64"
      using mod_add_self2 [of "u - 2 ^ 63" "2 ^ 64"] by (simp add: add.commute)
    also have "\<dots> = u - 2 ^ 63" using that False by (intro mod_pos_pos_trivial) simp_all
    finally show ?thesis using that by simp
  qed (use that in simp)
  have s: "sint v = (uint v + 2 ^ 63) mod 2 ^ 64 - 2 ^ 63"
    using int_word_sint [of "uint v", where 'a = 64] by simp
  have "uint v < 2 ^ 64" using unsigned_less [of v, where 'a = int] by simp
  then show ?thesis using wrap [of "uint v"] assms by (simp only: s) simp
qed

lemma byte_digit_less:
  assumes "a < m"
  shows "256 * a + unat (b :: u8) < 256 * m"
proof -
  have digit: "a < m \<Longrightarrow> u < 256 \<Longrightarrow> 256 * a + u < 256 * m" for u :: nat
    by arith
  show ?thesis by (rule digit [OF assms unat_byte_less])
qed

lemma unat_byte [simp, byte_simps]: "unat (byte n) = n mod 256"
  by (simp add: byte_def unat_of_nat)

lemma byte_unat [simp]: "byte (unat b) = b"
  by (simp add: byte_def)

lemma byte_eq_iff: "byte m = byte n \<longleftrightarrow> m mod 256 = n mod 256"
  by (simp add: word_unat_eq_iff)

lemma eq_byte_iff: "b = byte n \<longleftrightarrow> unat b = n mod 256"
  by (simp add: word_unat_eq_iff)

lemma be_val_Nil [simp, byte_simps]: "be_val [] = 0"
  by (simp add: be_val_def)

lemma be_val_snoc [simp, byte_simps]: "be_val (bs @ [b]) = 256 * be_val bs + unat b"
  by (simp add: be_val_def)

lemma be_val_append: "be_val (xs @ ys) = be_val xs * 256 ^ length ys + be_val ys"
proof (induction ys rule: rev_induct)
  case (snoc y ys)
  have "be_val (xs @ ys @ [y]) = 256 * be_val (xs @ ys) + unat y"
    using be_val_snoc [of "xs @ ys" y] by simp
  with snoc show ?case by (simp add: algebra_simps)
qed simp

lemma be_val_Cons: "be_val (b # bs) = unat b * 256 ^ length bs + be_val bs"
  using be_val_append [of "[b]" bs] be_val_snoc [of "[]" b] by simp

lemma be_val_less: "be_val bs < 256 ^ length bs"
proof (induction bs rule: rev_induct)
  case (snoc b bs)
  then show ?case by (simp add: byte_digit_less)
qed simp

lemma length_be_bytes [simp, byte_simps]: "length (be_bytes k n) = k"
  by (induction k arbitrary: n) auto

lemma be_val_be_bytes [byte_simps]: "be_val (be_bytes k n) = n mod 256 ^ k"
proof (induction k arbitrary: n)
  case (Suc k)
  have "256 * ((n div 256) mod 256 ^ k) + n mod 256 = n mod (256 * 256 ^ k)"
    by (simp add: mod_mult2_eq)
  with Suc show ?case by simp
qed simp

lemma be_bytes_be_val [byte_simps]: "length bs = k \<Longrightarrow> be_bytes k (be_val bs) = bs"
proof (induction bs arbitrary: k rule: rev_induct)
  case (snoc b bs)
  have "(256 * be_val bs + unat b) div 256 = be_val bs"
    using unat_byte_less [of b] by linarith
  moreover have "byte (256 * be_val bs + unat b) = b"
    by (simp add: word_unat_eq_iff)
  ultimately show ?case using snoc by (cases k) simp_all
qed simp

lemma be_bytes_map: "be_bytes k n = map (\<lambda>i. byte (n div 256 ^ (k - Suc i))) [0..<k]"
proof (induction k arbitrary: n)
  case (Suc k)
  have "n div 256 div 256 ^ (k - Suc i) = n div 256 ^ (k - i)" if "i < k" for i
    using that by (simp add: div_mult2_eq [symmetric] power_Suc [symmetric] Suc_diff_Suc del: power_Suc)
  with Suc show ?case by simp
qed simp

lemma length_le_bytes [simp, byte_simps]: "length (le_bytes k n) = k"
  by (induction k arbitrary: n) auto

lemma le_val_le_bytes [byte_simps]: "le_val (le_bytes k n) = n mod 256 ^ k"
proof (induction k arbitrary: n)
  case (Suc k)
  have "n mod 256 + 256 * ((n div 256) mod 256 ^ k) = n mod (256 * 256 ^ k)"
    by (simp add: mod_mult2_eq)
  with Suc show ?case by simp
qed simp

lemma le_val_less: "le_val bs < 256 ^ length bs"
proof (induction bs)
  case (Cons b bs)
  then show ?case using byte_digit_less [of "le_val bs" _ b] by (simp add: add.commute)
qed simp

lemma le_val_append: "le_val (xs @ ys) = le_val xs + 256 ^ length xs * le_val ys"
  by (induction xs) (simp_all add: algebra_simps)

lemma le_bytes_le_val: "length bs = k \<Longrightarrow> le_bytes k (le_val bs) = bs"
proof (induction bs arbitrary: k)
  case (Cons b bs)
  have "(unat b + 256 * le_val bs) div 256 = le_val bs" using unat_byte_less [of b] by linarith
  moreover have "byte (unat b + 256 * le_val bs) = b" by (simp add: word_unat_eq_iff)
  ultimately show ?case using Cons by (cases k) simp_all
qed simp

section \<open>Shifts and masks as arithmetic\<close>

text \<open>
  The parsers and encoders assemble integers with \<open>v << k | w\<close> where \<open>w\<close> has its upper bits
  clear; on the naturals that is \<open>v * 2 ^ k + w\<close>, modulo the width.
\<close>

lemma shift_or_is_add:
  fixes v w :: "'a::len word"
  assumes "unat w < 2 ^ k"
  shows "push_bit k v OR w = push_bit k v + w"
proof -
  have w: "take_bit k w = w"
    using assms by (simp add: word_unat_eq_iff unsigned_take_bit_eq take_bit_nat_eq_self)
  have "push_bit k v AND w = 0"
  proof (rule bit_word_eqI)
    fix n
    have "bit w n \<Longrightarrow> n < k"
      using w by (metis bit_take_bit_iff)
    then show "bit (push_bit k v AND w) n \<longleftrightarrow> bit 0 n"
      by (auto simp: bit_and_iff bit_push_bit_iff)
  qed
  then show ?thesis by (rule disjunctive_add_eq_or [symmetric])
qed

lemma unat_drop_bit: "unat (drop_bit k (v :: 'a::len word)) = unat v div 2 ^ k"
  by (subst unsigned_drop_bit_eq) (simp add: drop_bit_eq_div take_bit_nat_eq_self)

lemma unat_push_bit:
  fixes v :: "'a::len word"
  assumes "unat v * 2 ^ k < 2 ^ LENGTH('a)"
  shows "unat (push_bit k v) = unat v * 2 ^ k"
  using assms by (subst unsigned_push_bit_eq) (simp add: push_bit_eq_mult take_bit_nat_eq_self)

lemma unat_shift_or:
  fixes v w :: "'a::len word"
  assumes "unat w < 2 ^ k" and "unat v * 2 ^ k + unat w < 2 ^ LENGTH('a)"
  shows "unat (push_bit k v OR w) = unat v * 2 ^ k + unat w"
proof -
  have "unat (push_bit k v) = unat v * 2 ^ k"
    using assms(2) by (intro unat_push_bit) linarith
  then show ?thesis
    using assms by (simp add: shift_or_is_add unat_word_ariths)
qed

lemma unat_ucast_up:
  fixes b :: "'a::len word"
  assumes "LENGTH('a) \<le> LENGTH('b)"
  shows "unat (ucast b :: 'b::len word) = unat b"
proof -
  have "unat b < 2 ^ LENGTH('b)"
    by (rule order_less_le_trans [OF unsigned_less]) (use assms in simp)
  then show ?thesis
    by (subst unsigned_ucast_eq) (simp add: take_bit_nat_eq_self)
qed

lemma unat_ucast_mod: "unat (ucast (b :: 'a::len word) :: 'b::len word) = unat b mod 2 ^ LENGTH('b)"
  by (subst unsigned_ucast_eq) (simp add: take_bit_eq_mod)

lemma unat_and_mask: "unat ((w :: 'a::len word) AND mask k) = unat w mod 2 ^ k"
  by (subst take_bit_eq_mask [symmetric], subst unsigned_take_bit_eq) (simp add: take_bit_eq_mod)

lemma and_exp_nonzero_iff:
  "(w :: 'a::len word) AND 2 ^ n \<noteq> 0 \<longleftrightarrow> odd (unat w div 2 ^ n)"
proof -
  have "bit w n \<longleftrightarrow> bit (unat w) n" by (simp add: bit_unsigned_iff)
  then show ?thesis by (simp add: and_exp_eq_0_iff_not_bit bit_iff_odd)
qed

text \<open>The two masks of the base-128 encodings, on bytes.\<close>

lemma unat_and_7f [simp]: "unat ((b :: u8) AND 0x7f) = unat b mod 128"
  using unat_and_mask [of b 7] by (simp add: mask_eq_exp_minus_1)

lemma and_80_iff [simp]: "(b :: u8) AND 0x80 = 0 \<longleftrightarrow> unat b < 128"
proof -
  have "odd (n div 128) \<longleftrightarrow> 128 \<le> n" if "n < 256" for n :: nat
  proof (cases "n < 128")
    case False
    then have "n div 128 = 1" using that by (intro div_nat_eqI) simp_all
    with False show ?thesis by simp
  qed simp
  from this [OF unat_byte_less] have "odd (unat b div 128) \<longleftrightarrow> 128 \<le> unat b" .
  then show ?thesis using and_exp_nonzero_iff [of b 7] by auto
qed

text \<open>A property of one byte can be checked on its 256 values.\<close>

lemma u8_all:
  assumes "\<forall>n \<in> set [0..<256]. P (word_of_nat n :: u8)"
  shows "P b"
  using bspec [OF assms, of "unat b"] by simp

end
