(* ===== verification/Mem.thy ===== *)
theory Mem imports Prelude begin

text \<open>
  \<open>crypto/mem.c\<close>: the allocator wrapper, the constant-time comparison, the FNV hash and the
  C-string helpers.

  The C library's \<open>malloc\<close> is not part of the repository. It is the parameter \<open>ma\<close> of every
  operation that allocates: \<open>ma n\<close> is the fresh block of \<open>n\<close> bytes (its initial contents are
  whatever they are) or \<open>None\<close> for NULL. \<open>malloc_spec\<close> is what the code relies on: a returned
  block has the requested size, and no block exceeds PTRDIFF_MAX bytes.

  A block of the wrapper carries the size word that \<open>OPENSSL_malloc\<close> stores in front of it.
\<close>

section \<open>Blocks\<close>

type_synonym malloc_fn = "nat \<Rightarrow> u8 list option"

definition malloc_spec :: "malloc_fn \<Rightarrow> bool" where
  "malloc_spec ma \<longleftrightarrow> (\<forall>n b. ma n = Some b \<longrightarrow> length b = n \<and> n < 2 ^ 63)"

text \<open>An allocator that serves every request up to PTRDIFF_MAX, used to instantiate theorems.\<close>

definition zero_malloc :: malloc_fn where
  "zero_malloc n = (if n < 2 ^ 63 then Some (replicate n 0) else None)"

lemma malloc_spec_zero_malloc [simp]: "malloc_spec zero_malloc"
  by (auto simp: malloc_spec_def zero_malloc_def split: if_splits)

text \<open>The allocator does not fail for sizes up to PTRDIFF_MAX.\<close>

definition malloc_total :: "malloc_fn \<Rightarrow> bool" where
  "malloc_total ma \<longleftrightarrow> malloc_spec ma \<and> (\<forall>n < 2 ^ 63. \<exists>b. ma n = Some b)"

lemma malloc_total_zero_malloc [simp]: "malloc_total zero_malloc"
  by (simp add: malloc_total_def zero_malloc_def)

record block =
  stored_size :: nat
  block_bytes :: "u8 list"

definition OPENSSL_MALLOC_PREFIX :: nat where
  "OPENSSL_MALLOC_PREFIX = 8"

definition OPENSSL_malloc :: "malloc_fn \<Rightarrow> nat \<Rightarrow> block option" where
  "OPENSSL_malloc ma sz =
     (case ma (size_add sz OPENSSL_MALLOC_PREFIX) of
        None \<Rightarrow> None
      | Some ptr \<Rightarrow>
          Some \<lparr>stored_size = sz, block_bytes = drop OPENSSL_MALLOC_PREFIX ptr\<rparr>)"

text \<open>
  \<open>OPENSSL_free\<close> hands the block back with its prefix, after erasing it. The result is what
  \<open>sdallocx\<close> receives: the memory's contents and the size.
\<close>

definition OPENSSL_cleanse :: "u8 list \<Rightarrow> nat \<Rightarrow> u8 list" where
  "OPENSSL_cleanse mem len = replicate len 0 @ drop len mem"

definition OPENSSL_free :: "block option \<Rightarrow> (u8 list \<times> nat) option" where
  "OPENSSL_free orig =
     (case orig of
        None \<Rightarrow> None
      | Some b \<Rightarrow>
          (let sz = stored_size b;
               ptr = le_bytes OPENSSL_MALLOC_PREFIX sz @ block_bytes b
           in Some (OPENSSL_cleanse ptr (sz + OPENSSL_MALLOC_PREFIX),
                    sz + OPENSSL_MALLOC_PREFIX)))"

definition OPENSSL_realloc :: "malloc_fn \<Rightarrow> block option \<Rightarrow> nat \<Rightarrow> block option" where
  "OPENSSL_realloc ma orig new_size =
     (case orig of
        None \<Rightarrow> OPENSSL_malloc ma new_size
      | Some b \<Rightarrow>
          (let old_size = stored_size b in
           case OPENSSL_malloc ma new_size of
             None \<Rightarrow> None
           | Some ret \<Rightarrow>
               (let to_copy = (if old_size < new_size then old_size else new_size)
                in Some (ret\<lparr>block_bytes :=
                      take to_copy (block_bytes b) @ drop to_copy (block_bytes ret)\<rparr>))))"

definition OPENSSL_memdup :: "malloc_fn \<Rightarrow> u8 list \<Rightarrow> block option" where
  "OPENSSL_memdup ma data =
     (if length data = 0 then None
      else case OPENSSL_malloc ma (length data) of
             None \<Rightarrow> None
           | Some ret \<Rightarrow>
               Some (ret\<lparr>block_bytes := data @ drop (length data) (block_bytes ret)\<rparr>))"

text \<open>
  The block really returned for a request: its usable length is the request as long as adding
  the prefix does not wrap; in the last eight sizes the sum wraps and the "block" is empty.
\<close>

lemma OPENSSL_malloc_cases:
  assumes "malloc_spec ma" and "n < size_limit" and "OPENSSL_malloc ma n = Some b"
  shows "stored_size b = n"
    and "length (block_bytes b) = (if n + 8 < size_limit then n else 0)"
    and "n + 8 < size_limit \<Longrightarrow> n + 8 < 2 ^ 63"
proof -
  from assms(3) obtain ptr where ptr: "ma (size_add n 8) = Some ptr"
    and b: "b = \<lparr>stored_size = n, block_bytes = drop 8 ptr\<rparr>"
    by (auto simp: OPENSSL_malloc_def OPENSSL_MALLOC_PREFIX_def split: option.splits)
  from assms(1) ptr have len: "length ptr = size_add n 8" "size_add n 8 < 2 ^ 63"
    by (auto simp: malloc_spec_def)
  show "stored_size b = n" using b by simp
  show "length (block_bytes b) = (if n + 8 < size_limit then n else 0)"
  proof (cases "n + 8 < size_limit")
    case False
    then have "size_add n 8 = n + 8 - size_limit"
      using assms(2) by (simp add: size_add_def mod_if)
    with False len b assms(2) show ?thesis by simp
  qed (use len b in simp)
  show "n + 8 < 2 ^ 63" if "n + 8 < size_limit"
    using that len(2) by simp
qed

lemma OPENSSL_malloc_total:
  assumes "malloc_total ma" and "n + 8 < 2 ^ 63"
  obtains b where "OPENSSL_malloc ma n = Some b"
proof -
  have sum: "size_add n 8 = n + 8" using assms(2) by simp
  from assms(1) have "\<forall>k < 2 ^ 63. \<exists>b. ma k = Some b"
    unfolding malloc_total_def by (rule conjunct2)
  with assms(2) obtain b where "ma (n + 8) = Some b" by blast
  then show ?thesis
    using that by (simp add: OPENSSL_malloc_def OPENSSL_MALLOC_PREFIX_def sum)
qed

lemma OPENSSL_realloc_spec:
  assumes "malloc_spec ma" and "n + 8 < size_limit"
    and "stored_size b = length (block_bytes b)" and "length (block_bytes b) \<le> n"
    and "OPENSSL_realloc ma (Some b) n = Some r"
  shows "stored_size r = n" and "length (block_bytes r) = n"
    and "take (length (block_bytes b)) (block_bytes r) = block_bytes b" and "n + 8 < 2 ^ 63"
proof -
  from assms(5) obtain m where m: "OPENSSL_malloc ma n = Some m"
    by (auto simp: OPENSSL_realloc_def Let_def split: option.splits)
  have m': "stored_size m = n" "length (block_bytes m) = n" "n + 8 < 2 ^ 63"
    using OPENSSL_malloc_cases [OF assms(1) _ m] assms(2) by auto
  have r: "r = m\<lparr>block_bytes := block_bytes b @ drop (length (block_bytes b)) (block_bytes m)\<rparr>"
    using assms m by (auto simp: OPENSSL_realloc_def Let_def split: if_splits)
  show "stored_size r = n" "length (block_bytes r) = n"
    "take (length (block_bytes b)) (block_bytes r) = block_bytes b"  "n + 8 < 2 ^ 63"
    using r m' assms(4) by simp_all
qed

lemma OPENSSL_realloc_total:
  assumes "malloc_total ma" and "n + 8 < 2 ^ 63"
  obtains r where "OPENSSL_realloc ma (Some b) n = Some r"
proof -
  obtain m where "OPENSSL_malloc ma n = Some m"
    using OPENSSL_malloc_total [OF assms] .
  then show ?thesis using that by (simp add: OPENSSL_realloc_def Let_def)
qed

section \<open>Comparison and hashing\<close>

text \<open>
  Both buffers are read for the same \<open>len\<close> bytes without an early exit; the result is the union
  of all differences.
\<close>

fun memcmp_acc :: "u8 list \<Rightarrow> u8 list \<Rightarrow> u8 \<Rightarrow> u8" where
  "memcmp_acc (a # as) (b # bs) x = memcmp_acc as bs (x OR (a XOR b))"
| "memcmp_acc _ _ x = x"

definition CRYPTO_memcmp :: "u8 list \<Rightarrow> u8 list \<Rightarrow> nat \<Rightarrow> u8" where
  "CRYPTO_memcmp a b len = memcmp_acc (take len a) (take len b) 0"

lemma memcmp_acc_zero_iff:
  "length a = length b \<Longrightarrow> memcmp_acc a b x = 0 \<longleftrightarrow> x = 0 \<and> a = b"
proof (induction a b x rule: memcmp_acc.induct)
  case (1 a as b bs x)
  have "x OR (a XOR b) = 0 \<longleftrightarrow> x = 0 \<and> a = b"
    by (auto simp: bit_eq_iff bit_or_iff bit_xor_iff)
  with 1 show ?case by auto
qed auto

text \<open>The C library's \<open>memcmp\<close>: the sign of the first difference, as unsigned bytes.\<close>

fun memcmp_sign :: "u8 list \<Rightarrow> u8 list \<Rightarrow> int" where
  "memcmp_sign (a # as) (b # bs) =
     (if a < b then -1 else if b < a then 1 else memcmp_sign as bs)"
| "memcmp_sign _ _ = 0"

definition OPENSSL_memcmp :: "u8 list \<Rightarrow> u8 list \<Rightarrow> nat \<Rightarrow> int" where
  "OPENSSL_memcmp a b n = (if n = 0 then 0 else memcmp_sign (take n a) (take n b))"

definition OPENSSL_memchr :: "u8 list \<Rightarrow> u8 \<Rightarrow> nat \<Rightarrow> bool" where
  "OPENSSL_memchr s c n = (if n = 0 then False else c \<in> set (take n s))"

fun hash32_loop :: "u8 list \<Rightarrow> u32 \<Rightarrow> u32" where
  "hash32_loop [] h = h"
| "hash32_loop (b # bs) h = hash32_loop bs ((h XOR ucast b) * 16777619)"

definition OPENSSL_hash32 :: "u8 list \<Rightarrow> u32" where
  "OPENSSL_hash32 bs = hash32_loop bs 2166136261"

section \<open>C strings\<close>

text \<open>
  A C string is the memory from its first byte on; \<open>cstr\<close> is the part before the terminator.
  The functions stop at the terminator, or, when the list ends, at the end of the memory that
  the model describes.
\<close>

definition cstr :: "u8 list \<Rightarrow> u8 list" where
  "cstr s = takeWhile (\<lambda>c. c \<noteq> 0) s"

definition c_strlen :: "u8 list \<Rightarrow> nat" where
  "c_strlen s = length (cstr s)"

fun OPENSSL_strnlen :: "u8 list \<Rightarrow> nat \<Rightarrow> nat" where
  "OPENSSL_strnlen (c # s) (Suc len) = (if c = 0 then 0 else Suc (OPENSSL_strnlen s len))"
| "OPENSSL_strnlen s len = 0"

definition OPENSSL_strdup :: "malloc_fn \<Rightarrow> u8 list option \<Rightarrow> block option" where
  "OPENSSL_strdup ma s =
     (case s of
        None \<Rightarrow> None
      | Some s \<Rightarrow>
          (let len = size_add (c_strlen s) 1 in
           case OPENSSL_malloc ma len of
             None \<Rightarrow> None
           | Some ret \<Rightarrow>
               Some (ret\<lparr>block_bytes := take len s @ drop len (block_bytes ret)\<rparr>)))"

definition OPENSSL_strndup :: "malloc_fn \<Rightarrow> u8 list option \<Rightarrow> nat \<Rightarrow> block option" where
  "OPENSSL_strndup ma str size0 =
     (case str of
        None \<Rightarrow> None
      | Some s \<Rightarrow>
          (let sz = OPENSSL_strnlen s size0;
               alloc_size = size_add sz 1
           in if alloc_size < sz then None
              else case OPENSSL_malloc ma alloc_size of
                     None \<Rightarrow> None
                   | Some ret \<Rightarrow>
                       Some (ret\<lparr>block_bytes :=
                          take sz s @ [0] @ drop (Suc sz) (block_bytes ret)\<rparr>)))"

definition OPENSSL_tolower :: "int \<Rightarrow> int" where
  "OPENSSL_tolower c = (if 65 \<le> c \<and> c \<le> 90 then c + (97 - 65) else c)"

text \<open>\<open>char\<close> is signed on the targets of this repository, hence \<open>sint\<close>.\<close>

fun OPENSSL_strcasecmp :: "u8 list \<Rightarrow> u8 list \<Rightarrow> int" where
  "OPENSSL_strcasecmp (a # as) (b # bs) =
     (let aa = OPENSSL_tolower (sint a); bb = OPENSSL_tolower (sint b) in
      if aa < bb then -1 else if bb < aa then 1 else if aa = 0 then 0
      else OPENSSL_strcasecmp as bs)"
| "OPENSSL_strcasecmp _ _ = 0"

fun OPENSSL_strncasecmp :: "u8 list \<Rightarrow> u8 list \<Rightarrow> nat \<Rightarrow> int" where
  "OPENSSL_strncasecmp (a # as) (b # bs) (Suc n) =
     (let aa = OPENSSL_tolower (sint a); bb = OPENSSL_tolower (sint b) in
      if aa < bb then -1 else if bb < aa then 1 else if aa = 0 then 0
      else OPENSSL_strncasecmp as bs n)"
| "OPENSSL_strncasecmp _ _ _ = 0"

text \<open>
  The copy loop of \<open>OPENSSL_strlcpy\<close> yields the bytes written, what is left of the source and
  the room left in the destination.
\<close>

fun strlcpy_loop :: "u8 list \<Rightarrow> nat \<Rightarrow> u8 list \<times> u8 list \<times> nat" where
  "strlcpy_loop [] dst_size = ([], [], dst_size)"
| "strlcpy_loop (c # src) dst_size =
     (if 1 < dst_size \<and> c \<noteq> 0
      then (case strlcpy_loop src (dst_size - 1) of (w, src', n) \<Rightarrow> (c # w, src', n))
      else ([], c # src, dst_size))"

definition OPENSSL_strlcpy :: "u8 list \<Rightarrow> u8 list \<Rightarrow> nat \<Rightarrow> nat \<times> u8 list" where
  "OPENSSL_strlcpy dst src dst_size =
     (case strlcpy_loop src dst_size of
        (w, src', n) \<Rightarrow>
          (length w + c_strlen src',
           if n \<noteq> 0 then w @ [0] @ drop (Suc (length w)) dst else w @ drop (length w) dst))"

fun OPENSSL_strlcat :: "u8 list \<Rightarrow> u8 list \<Rightarrow> nat \<Rightarrow> nat \<times> u8 list" where
  "OPENSSL_strlcat (c # dst) src (Suc dst_size) =
     (if c \<noteq> 0
      then (case OPENSSL_strlcat dst src dst_size of (l, dst') \<Rightarrow> (Suc l, c # dst'))
      else OPENSSL_strlcpy (c # dst) src (Suc dst_size))"
| "OPENSSL_strlcat dst src dst_size = OPENSSL_strlcpy dst src dst_size"

lemma strlcpy_loop_spec:
  assumes "strlcpy_loop src dst_size = (w, src', n)"
  shows "src = w @ src'" and "w = take (dst_size - 1) (cstr src)"
    and "n = dst_size - length w" and "c_strlen src = length w + c_strlen src'"
proof -
  have "src = w @ src' \<and> w = take (dst_size - 1) (cstr src) \<and> n = dst_size - length w
      \<and> c_strlen src = length w + c_strlen src'"
    using assms
  proof (induction src arbitrary: dst_size w src' n)
    case Nil
    then show ?case by (simp add: cstr_def)
  next
    case (Cons c src)
    show ?case
    proof (cases "1 < dst_size \<and> c \<noteq> 0")
      case True
      obtain w1 s1 n1 where rec: "strlcpy_loop src (dst_size - 1) = (w1, s1, n1)"
        by (cases "strlcpy_loop src (dst_size - 1)")
      obtain d where d: "dst_size = Suc (Suc d)"
        using True that [of "dst_size - 2"] by auto
      have out: "w = c # w1" "src' = s1" "n = n1"
        using True Cons.prems rec by auto
      have d': "dst_size - 1 = Suc d" "Suc d - 1 = d" using d by simp_all
      note IH = Cons.IH [OF rec, unfolded d']
      have cs: "cstr (c # src) = c # cstr src"
        using True by (simp add: cstr_def)
      show ?thesis
      proof (intro conjI)
        show "c # src = w @ src'"
          unfolding out append_Cons using IH by blast
        show "w = take (dst_size - 1) (cstr (c # src))"
          unfolding cs d' out take_Suc_Cons using IH by blast
        show "n = dst_size - length w"
          unfolding out d using IH [THEN conjunct2, THEN conjunct2, THEN conjunct1] by simp
        show "c_strlen (c # src) = length w + c_strlen src'"
          unfolding out c_strlen_def cs
          using IH [THEN conjunct2, THEN conjunct2, THEN conjunct2] by (simp add: c_strlen_def)
      qed
    next
      case False
      then have "c = 0 \<or> dst_size - 1 = 0" by auto
      then have "take (dst_size - 1) (cstr (c # src)) = []"
        by (auto simp: cstr_def)
      then show ?thesis using False Cons.prems by auto
    qed
  qed
  then show "src = w @ src'" "w = take (dst_size - 1) (cstr src)"
    "n = dst_size - length w" "c_strlen src = length w + c_strlen src'" by blast+
qed

lemma length_strlcpy_loop:
  "strlcpy_loop src dst_size = (w, src', n) \<Longrightarrow> length w \<le> dst_size - 1"
  by (drule strlcpy_loop_spec(2)) simp

lemma OPENSSL_strlcpy_eq:
  "OPENSSL_strlcpy dst src dst_size =
     (c_strlen src,
      (let w = take (dst_size - 1) (cstr src) in
       if dst_size = 0 then dst else w @ [0] @ drop (Suc (length w)) dst))"
proof -
  obtain w src' n where loop: "strlcpy_loop src dst_size = (w, src', n)"
    by (cases "strlcpy_loop src dst_size")
  note spec = strlcpy_loop_spec [OF loop] and len = length_strlcpy_loop [OF loop]
  have "n \<noteq> 0 \<longleftrightarrow> dst_size \<noteq> 0"
    using len spec(3) by auto
  then show ?thesis
    by (simp add: OPENSSL_strlcpy_def loop spec(4) Let_def flip: spec(2)) (use spec(2) in auto)
qed

lemma cstr_append_zero: "0 \<notin> set w \<Longrightarrow> cstr (w @ 0 # r) = w"
  by (induction w) (auto simp: cstr_def)

lemma zero_notin_cstr: "0 \<notin> set (cstr s)"
  by (auto simp: cstr_def dest: set_takeWhileD)

lemma zero_notin_take_cstr: "0 \<notin> set (take n (cstr s))"
  using zero_notin_cstr in_set_takeD by metis

end
