(* ===== verification/Cbs.thy ===== *)
theory Cbs imports Mem begin

text \<open>
  \<open>crypto/bytestring/cbs.c\<close>: the CBS byte-string reader and the DER parser on top of it.

  A CBS is a pointer and a length into memory it does not own and never writes; the model is
  the list of the bytes still to be read. Every parsing function is an operation on that list
  (see \<open>Prelude\<close>), with what the object holds after a failure as in the code. An out-parameter
  that the code writes before it fails is not observable in the model.
\<close>

section \<open>Reading bytes and integers\<close>

type_synonym cbs = "u8 list"

definition CBS_init :: "u8 list \<Rightarrow> nat \<Rightarrow> cbs" where
  "CBS_init data len = take len data"

definition CBS_len :: "cbs \<Rightarrow> nat" where
  "CBS_len cbs = length cbs"

definition CBS_data :: "cbs \<Rightarrow> u8 list" where
  "CBS_data cbs = cbs"

definition cbs_get :: "nat \<Rightarrow> (cbs, u8 list) op" where
  "cbs_get n cbs = (if length cbs < n then (None, cbs) else (Some (take n cbs), drop n cbs))"

definition CBS_skip :: "nat \<Rightarrow> (cbs, unit) op" where
  "CBS_skip len = op_bind (cbs_get len) (\<lambda>_. op_return ())"

text \<open>
  \<open>CBS_stow\<close> and \<open>CBS_strdup\<close> copy the contents out; they return the success flag and the new
  block (the old one, which they free, is dropped).
\<close>

definition CBS_stow :: "malloc_fn \<Rightarrow> cbs \<Rightarrow> bool \<times> block option \<times> nat" where
  "CBS_stow ma cbs =
     (if length cbs = 0 then (True, None, 0)
      else case OPENSSL_memdup ma cbs of
             None \<Rightarrow> (False, None, 0)
           | Some b \<Rightarrow> (True, Some b, length cbs))"

definition CBS_strdup :: "malloc_fn \<Rightarrow> cbs \<Rightarrow> bool \<times> block option" where
  "CBS_strdup ma cbs =
     (let p = OPENSSL_strndup ma (Some cbs) (length cbs) in (p \<noteq> None, p))"

definition CBS_contains_zero_byte :: "cbs \<Rightarrow> bool" where
  "CBS_contains_zero_byte cbs = OPENSSL_memchr cbs 0 (length cbs)"

definition CBS_mem_equal :: "cbs \<Rightarrow> u8 list \<Rightarrow> bool" where
  "CBS_mem_equal cbs data =
     (if length data \<noteq> length cbs then False else CRYPTO_memcmp cbs data (length data) = 0)"

fun be_loop :: "u8 list \<Rightarrow> u64 \<Rightarrow> u64" where
  "be_loop [] result = result"
| "be_loop (b # data) result = be_loop data (push_bit 8 result OR ucast b)"

definition cbs_get_u :: "nat \<Rightarrow> (cbs, u64) op" where
  "cbs_get_u len = op_bind (cbs_get len) (\<lambda>data. op_return (be_loop data 0))"

definition CBS_get_u8 :: "(cbs, u8) op" where
  "CBS_get_u8 = op_bind (cbs_get 1) (\<lambda>v. op_return (hd v))"

definition CRYPTO_bswap2 :: "u16 \<Rightarrow> u16" where
  "CRYPTO_bswap2 x = drop_bit 8 x OR push_bit 8 x"

definition CRYPTO_bswap4 :: "u32 \<Rightarrow> u32" where
  "CRYPTO_bswap4 x0 =
     (let x = drop_bit 16 x0 OR push_bit 16 x0
      in drop_bit 8 (x AND 0xff00ff00) OR push_bit 8 (x AND 0x00ff00ff))"

definition CRYPTO_bswap8 :: "u64 \<Rightarrow> u64" where
  "CRYPTO_bswap8 x =
     ucast (CRYPTO_bswap4 (ucast (drop_bit 32 x))) OR push_bit 32 (ucast (CRYPTO_bswap4 (ucast x)))"

definition CBS_get_u16 :: "(cbs, u16) op" where
  "CBS_get_u16 = op_bind (cbs_get_u 2) (\<lambda>v. op_return (ucast v))"

definition CBS_get_u16le :: "(cbs, u16) op" where
  "CBS_get_u16le = op_bind CBS_get_u16 (\<lambda>v. op_return (CRYPTO_bswap2 v))"

definition CBS_get_u24 :: "(cbs, u32) op" where
  "CBS_get_u24 = op_bind (cbs_get_u 3) (\<lambda>v. op_return (ucast v))"

definition CBS_get_u32 :: "(cbs, u32) op" where
  "CBS_get_u32 = op_bind (cbs_get_u 4) (\<lambda>v. op_return (ucast v))"

definition CBS_get_u32le :: "(cbs, u32) op" where
  "CBS_get_u32le = op_bind CBS_get_u32 (\<lambda>v. op_return (CRYPTO_bswap4 v))"

definition CBS_get_u64 :: "(cbs, u64) op" where
  "CBS_get_u64 = cbs_get_u 8"

definition CBS_get_u64le :: "(cbs, u64) op" where
  "CBS_get_u64le = op_bind (cbs_get_u 8) (\<lambda>v. op_return (CRYPTO_bswap8 v))"

definition CBS_get_last_u8 :: "(cbs, u8) op" where
  "CBS_get_last_u8 cbs =
     (if length cbs = 0 then (None, cbs)
      else (Some (cbs ! (length cbs - 1)), take (length cbs - 1) cbs))"

definition CBS_get_bytes :: "nat \<Rightarrow> (cbs, cbs) op" where
  "CBS_get_bytes len = op_bind (cbs_get len) (\<lambda>v. op_return (CBS_init v len))"

definition CBS_copy_bytes :: "nat \<Rightarrow> (cbs, u8 list) op" where
  "CBS_copy_bytes len = op_bind (cbs_get len) (\<lambda>v. op_return v)"

definition cbs_get_length_prefixed :: "nat \<Rightarrow> (cbs, cbs) op" where
  "cbs_get_length_prefixed len_len =
     op_bind (cbs_get_u len_len) (\<lambda>len. CBS_get_bytes (unat len))"

definition CBS_get_u8_length_prefixed :: "(cbs, cbs) op" where
  "CBS_get_u8_length_prefixed = cbs_get_length_prefixed 1"

definition CBS_get_u16_length_prefixed :: "(cbs, cbs) op" where
  "CBS_get_u16_length_prefixed = cbs_get_length_prefixed 2"

definition CBS_get_u24_length_prefixed :: "(cbs, cbs) op" where
  "CBS_get_u24_length_prefixed = cbs_get_length_prefixed 3"

section \<open>Tags\<close>

abbreviation CBS_ASN1_TAG_SHIFT :: nat where "CBS_ASN1_TAG_SHIFT \<equiv> 24"

definition CBS_ASN1_CONSTRUCTED :: u32 where
  "CBS_ASN1_CONSTRUCTED = push_bit CBS_ASN1_TAG_SHIFT 0x20"

definition CBS_ASN1_TAG_NUMBER_MASK :: u32 where
  "CBS_ASN1_TAG_NUMBER_MASK = push_bit (5 + CBS_ASN1_TAG_SHIFT) 1 - 1"

definition CBS_ASN1_BOOLEAN :: u32 where "CBS_ASN1_BOOLEAN = 0x1"

definition CBS_ASN1_INTEGER :: u32 where "CBS_ASN1_INTEGER = 0x2"

definition CBS_ASN1_OCTETSTRING :: u32 where "CBS_ASN1_OCTETSTRING = 0x4"

text \<open>
  A big-endian base-128 integer: the loop stops at the first byte with a clear high bit, refuses
  a value that would lose its top seven bits and a leading zero group.
\<close>

fun parse_base128_loop :: "cbs \<Rightarrow> u64 \<Rightarrow> u64 option \<times> cbs" where
  "parse_base128_loop [] v = (None, [])"
| "parse_base128_loop (b # cbs) v =
     (if drop_bit (64 - 7) v \<noteq> 0 then (None, cbs)
      else if v = 0 \<and> b = 0x80 then (None, cbs)
      else let v' = push_bit 7 v OR ucast (b AND 0x7f) in
           if b AND 0x80 \<noteq> 0 then parse_base128_loop cbs v' else (Some v', cbs))"

definition parse_base128_integer :: "(cbs, u64) op" where
  "parse_base128_integer cbs = parse_base128_loop cbs 0"

definition parse_asn1_tag :: "(cbs, u32) op" where
  "parse_asn1_tag =
     op_bind CBS_get_u8 (\<lambda>tag_byte.
       let tag = push_bit CBS_ASN1_TAG_SHIFT (ucast tag_byte AND 0xe0);
           tag_number = ucast tag_byte AND 0x1f
       in if tag_number = 0x1f
          then op_bind parse_base128_integer (\<lambda>v.
                 if ucast CBS_ASN1_TAG_NUMBER_MASK < v \<or> v < 0x1f then op_fail
                 else op_return (tag OR ucast v))
          else op_return (tag OR tag_number))"

section \<open>Elements\<close>

text \<open>
  The header is read from a copy, so a bad header leaves the input untouched. The result is the
  element with its header, the tag and the header's length.
\<close>

definition cbs_get_any_asn1_element :: "bool \<Rightarrow> (cbs, cbs \<times> u32 \<times> nat) op" where
  "cbs_get_any_asn1_element ber_ok cbs =
     (case parse_asn1_tag cbs of
        (None, _) \<Rightarrow> (None, cbs)
      | (Some tag, header) \<Rightarrow>
     (case CBS_get_u8 header of
        (None, _) \<Rightarrow> (None, cbs)
      | (Some length_byte, header) \<Rightarrow>
          (let header_len = CBS_len cbs - CBS_len header;
               get = (\<lambda>len hl. op_bind (CBS_get_bytes len) (\<lambda>out. op_return (out, tag, hl)) cbs)
           in
           if length_byte AND 0x80 = 0
           then get (size_add (unat length_byte) header_len) header_len
           else
             (let num_bytes = unat (length_byte AND 0x7f) in
              if ber_ok \<and> tag AND CBS_ASN1_CONSTRUCTED \<noteq> 0 \<and> num_bytes = 0
              then get header_len header_len
              else if num_bytes = 0 \<or> 4 < num_bytes then (None, cbs)
              else
                (case cbs_get_u num_bytes header of
                   (None, _) \<Rightarrow> (None, cbs)
                 | (Some len64, _) \<Rightarrow>
                     if len64 < 128 then (None, cbs)
                     else if drop_bit ((num_bytes - 1) * 8) len64 = 0 then (None, cbs)
                     else
                       (let len = unat len64 in
                        if size_add (size_add len header_len) num_bytes < len then (None, cbs)
                        else get (size_add len (size_add header_len num_bytes))
                               (size_add header_len num_bytes)))))))"

definition CBS_get_any_asn1_element :: "(cbs, cbs \<times> u32 \<times> nat) op" where
  "CBS_get_any_asn1_element = cbs_get_any_asn1_element False"

definition CBS_get_any_ber_asn1_element :: "(cbs, cbs \<times> u32 \<times> nat) op" where
  "CBS_get_any_ber_asn1_element = cbs_get_any_asn1_element True"

text \<open>\<open>CBS_skip\<close> on a local CBS.\<close>

definition skip_local :: "cbs \<Rightarrow> nat \<Rightarrow> ('s, cbs) op" where
  "skip_local out n =
     (case CBS_skip n out of (None, _) \<Rightarrow> op_fail | (Some _, out') \<Rightarrow> op_return out')"

definition CBS_get_any_asn1 :: "(cbs, cbs \<times> u32) op" where
  "CBS_get_any_asn1 =
     op_bind CBS_get_any_asn1_element (\<lambda>(out, tag, header_len).
       op_bind (skip_local out header_len) (\<lambda>contents. op_return (contents, tag)))"

definition cbs_get_asn1 :: "u32 \<Rightarrow> bool \<Rightarrow> (cbs, cbs) op" where
  "cbs_get_asn1 tag_value skip_header =
     op_bind CBS_get_any_asn1_element (\<lambda>(out, tag, header_len).
       if tag \<noteq> tag_value then op_fail
       else if skip_header then skip_local out header_len
       else op_return out)"

definition CBS_get_asn1 :: "u32 \<Rightarrow> (cbs, cbs) op" where
  "CBS_get_asn1 tag_value = cbs_get_asn1 tag_value True"

definition CBS_get_asn1_element :: "u32 \<Rightarrow> (cbs, cbs) op" where
  "CBS_get_asn1_element tag_value = cbs_get_asn1 tag_value False"

definition CBS_peek_asn1_tag :: "cbs \<Rightarrow> u32 \<Rightarrow> bool" where
  "CBS_peek_asn1_tag cbs tag_value =
     (if CBS_len cbs < 1 then False
      else case parse_asn1_tag cbs of
             (None, _) \<Rightarrow> False
           | (Some actual_tag, _) \<Rightarrow> tag_value = actual_tag)"

section \<open>Typed values\<close>

fun asn1_uint64_loop :: "u8 list \<Rightarrow> u64 \<Rightarrow> u64 option" where
  "asn1_uint64_loop [] out = Some out"
| "asn1_uint64_loop (b # data) out =
     (if drop_bit 56 out \<noteq> 0 then None
      else asn1_uint64_loop data (push_bit 8 out OR ucast b))"

definition CBS_get_asn1_uint64 :: "(cbs, u64) op" where
  "CBS_get_asn1_uint64 =
     op_bind (CBS_get_asn1 CBS_ASN1_INTEGER) (\<lambda>data.
       if length data = 0 then op_fail
       else if (data ! 0) AND 0x80 \<noteq> 0 then op_fail
       else if data ! 0 = 0 \<and> 1 < length data \<and> (data ! 1) AND 0x80 = 0 then op_fail
       else case asn1_uint64_loop data 0 of None \<Rightarrow> op_fail | Some v \<Rightarrow> op_return v)"

text \<open>
  An int64_t is its 64-bit word, read with \<open>sint\<close>. The union of the code lays the bytes out in
  little-endian order, the order of the targets of this repository.
\<close>

definition CBS_get_asn1_int64 :: "(cbs, u64) op" where
  "CBS_get_asn1_int64 =
     op_bind (CBS_get_asn1 CBS_ASN1_INTEGER) (\<lambda>data.
       let len = length data in
       if len = 0 \<or> 8 < len then op_fail
       else if 1 < len \<and> data ! 0 = 0 \<and> (data ! 1) AND 0x80 = 0 then op_fail
       else if 1 < len \<and> data ! 0 = 0xff \<and> (data ! 1) AND 0x80 \<noteq> 0 then op_fail
       else let is_negative = ((data ! 0) AND 0x80 \<noteq> 0);
                u = rev data @ replicate (8 - len) (if is_negative then 0xff else 0)
            in op_return (word_of_nat (le_val u)))"

definition CBS_get_asn1_bool :: "(cbs, bool) op" where
  "CBS_get_asn1_bool =
     op_bind (CBS_get_asn1 CBS_ASN1_BOOLEAN) (\<lambda>bytes.
       if length bytes \<noteq> 1 then op_fail
       else let value = hd bytes in
            if value \<noteq> 0 \<and> value \<noteq> 0xff then op_fail else op_return (value \<noteq> 0))"

section \<open>Optional elements\<close>

text \<open>The result is the element's contents, or \<open>None\<close> for "not present".\<close>

definition CBS_get_optional_asn1 :: "u32 \<Rightarrow> (cbs, cbs option) op" where
  "CBS_get_optional_asn1 tag cbs =
     (if CBS_peek_asn1_tag cbs tag
      then op_bind (CBS_get_asn1 tag) (\<lambda>out. op_return (Some out)) cbs
      else op_return None cbs)"

definition CBS_get_optional_asn1_octet_string :: "u32 \<Rightarrow> (cbs, cbs \<times> bool) op" where
  "CBS_get_optional_asn1_octet_string tag =
     op_bind (CBS_get_optional_asn1 tag) (\<lambda>present.
       case present of
         None \<Rightarrow> op_return ([], False)
       | Some child \<Rightarrow>
           (case CBS_get_asn1 CBS_ASN1_OCTETSTRING child of
              (None, _) \<Rightarrow> op_fail
            | (Some out, child') \<Rightarrow>
                if length child' \<noteq> 0 then op_fail else op_return (out, True)))"

definition CBS_get_optional_asn1_uint64 :: "u32 \<Rightarrow> u64 \<Rightarrow> (cbs, u64) op" where
  "CBS_get_optional_asn1_uint64 tag default_value =
     op_bind (CBS_get_optional_asn1 tag) (\<lambda>present.
       case present of
         None \<Rightarrow> op_return default_value
       | Some child \<Rightarrow>
           (case CBS_get_asn1_uint64 child of
              (None, _) \<Rightarrow> op_fail
            | (Some out, child') \<Rightarrow>
                if length child' \<noteq> 0 then op_fail else op_return out))"

definition CBS_get_optional_asn1_bool :: "u32 \<Rightarrow> int \<Rightarrow> (cbs, int) op" where
  "CBS_get_optional_asn1_bool tag default_value =
     op_bind (CBS_get_optional_asn1 tag) (\<lambda>present.
       case present of
         None \<Rightarrow> op_return default_value
       | Some child \<Rightarrow>
           (case CBS_get_asn1 CBS_ASN1_BOOLEAN child of
              (None, _) \<Rightarrow> op_fail
            | (Some child2, child') \<Rightarrow>
                if length child2 \<noteq> 1 \<or> length child' \<noteq> 0 then op_fail
                else if child2 ! 0 = 0 then op_return 0
                else if child2 ! 0 = 0xff then op_return 1
                else op_fail))"

section \<open>Bit strings\<close>

definition CBS_is_valid_asn1_bitstring :: "cbs \<Rightarrow> bool" where
  "CBS_is_valid_asn1_bitstring cbs =
     (case CBS_get_u8 cbs of
        (None, _) \<Rightarrow> False
      | (Some num_unused_bits, in_rest) \<Rightarrow>
          if 7 < num_unused_bits then False
          else if num_unused_bits = 0 then True
          else (case CBS_get_last_u8 in_rest of
                  (None, _) \<Rightarrow> False
                | (Some last_byte, _) \<Rightarrow>
                    last_byte AND (push_bit (unat num_unused_bits) 1 - 1) = 0))"

definition CBS_asn1_bitstring_has_bit :: "cbs \<Rightarrow> u32 \<Rightarrow> bool" where
  "CBS_asn1_bitstring_has_bit cbs bit_index =
     (if \<not> CBS_is_valid_asn1_bitstring cbs then False
      else let byte_num = unat (drop_bit 3 bit_index + 1);
               bit_num = 7 - unat (bit_index AND 7)
           in byte_num < CBS_len cbs \<and> (cbs ! byte_num) AND push_bit bit_num 1 \<noteq> 0)"

end
