(* ===== verification/Der.thy ===== *)
theory Der imports Cbs begin

text \<open>
  The distinguished encoding as a function, and the proof that the parser of \<open>Cbs\<close> is its
  inverse: it reads back every encoding, and what it accepts is an encoding. \<open>der_element\<close> is
  the abstract specification that the parser and the builder (\<open>Cbb\<close>) share.
\<close>

section \<open>The encoding\<close>

fun base128_hi :: "nat \<Rightarrow> u8 list" where
  "base128_hi n = (if n = 0 then [] else base128_hi (n div 128) @ [byte (128 + n mod 128)])"

declare base128_hi.simps [simp del]

definition base128 :: "nat \<Rightarrow> u8 list" where
  "base128 n = base128_hi (n div 128) @ [byte (n mod 128)]"

definition tag_bits :: "u32 \<Rightarrow> nat" where
  "tag_bits tag = unat tag div 2 ^ 29 * 32"

definition tag_number :: "u32 \<Rightarrow> nat" where
  "tag_number tag = unat tag mod 2 ^ 29"

definition der_tag :: "u32 \<Rightarrow> u8 list" where
  "der_tag tag =
     (if tag_number tag < 31 then [byte (tag_bits tag + tag_number tag)]
      else byte (tag_bits tag + 31) # base128 (tag_number tag))"

definition der_len_bytes :: "nat \<Rightarrow> nat" where
  "der_len_bytes n =
     (if n \<le> 0x7f then 0 else if n \<le> 0xff then 1 else if n \<le> 0xffff then 2
      else if n \<le> 0xffffff then 3 else 4)"

definition der_len :: "nat \<Rightarrow> u8 list" where
  "der_len n =
     (if n \<le> 0x7f then [byte n]
      else byte (128 + der_len_bytes n) # be_bytes (der_len_bytes n) n)"

definition der_header :: "u32 \<Rightarrow> nat \<Rightarrow> u8 list" where
  "der_header tag n = der_tag tag @ der_len n"

definition der_element :: "u32 \<Rightarrow> u8 list \<Rightarrow> u8 list" where
  "der_element tag contents = der_header tag (length contents) @ contents"

abbreviation der_max :: nat where "der_max \<equiv> 2 ^ 32"

lemma der_tag_not_Nil [simp]: "der_tag tag \<noteq> []"
  by (simp add: der_tag_def)

section \<open>Primitive readers\<close>

lemma cbs_get_append [simp]: "length xs = n \<Longrightarrow> cbs_get n (xs @ ys) = (Some xs, ys)"
  by (simp add: cbs_get_def)

lemma cbs_get_eq_Some:
  "cbs_get n s = (Some xs, s') \<longleftrightarrow> s = xs @ s' \<and> length xs = n"
  by (auto simp: cbs_get_def)

lemma cbs_get_eq_None: "cbs_get n s = (None, s') \<longleftrightarrow> length s < n \<and> s' = s"
  by (auto simp: cbs_get_def)

lemma CBS_get_u8_simps [simp]:
  "CBS_get_u8 [] = (None, [])" "CBS_get_u8 (b # s) = (Some b, s)"
  by (simp_all add: CBS_get_u8_def cbs_get_def op_bind_def op_return_def)

lemma CBS_get_u8_eq_Some: "CBS_get_u8 s = (Some b, s') \<longleftrightarrow> s = b # s'"
  by (cases s) auto

lemma CBS_get_bytes_append [simp]:
  "length xs = n \<Longrightarrow> CBS_get_bytes n (xs @ ys) = (Some xs, ys)"
  by (simp add: CBS_get_bytes_def op_bind_def op_return_def CBS_init_def)

lemma CBS_get_bytes_eq_Some:
  "CBS_get_bytes n s = (Some xs, s') \<longleftrightarrow> s = xs @ s' \<and> length xs = n"
  by (auto simp: CBS_get_bytes_def op_bind_eq_Some op_return_def CBS_init_def cbs_get_eq_Some)

lemma CBS_skip_eq_Some: "CBS_skip n s = (Some u, s') \<longleftrightarrow> n \<le> length s \<and> s' = drop n s"
  by (auto simp: CBS_skip_def op_bind_def op_return_def cbs_get_def)

lemma skip_local_append [simp]:
  "length h = n \<Longrightarrow> skip_local (h @ c) n s = (Some c, s)"
  by (auto simp: skip_local_def CBS_skip_def op_bind_def op_return_def cbs_get_def)

lemma unat_be_loop:
  assumes "unat r * 256 ^ length data + be_val data < 2 ^ 64"
  shows "unat (be_loop data r) = unat r * 256 ^ length data + be_val data"
  using assms
proof (induction data arbitrary: r)
  case (Cons b data)
  let ?w = "ucast b :: u64"
  have w: "unat ?w = unat b" by (rule unat_ucast_up) simp
  have split: "unat r * 256 ^ length (b # data) + be_val (b # data)
      = (unat r * 256 + unat b) * 256 ^ length data + be_val data"
    by (simp add: be_val_Cons algebra_simps)
  have "unat r * 256 + unat b \<le> (unat r * 256 + unat b) * 256 ^ length data"
    by simp
  with Cons.prems split have fits: "unat r * 256 + unat b < 2 ^ 64" by linarith
  have "unat (push_bit 8 r OR ?w) = unat r * 2 ^ 8 + unat ?w"
    by (rule unat_shift_or) (use fits w unat_byte_less [of b] in simp_all)
  then have step: "unat (push_bit 8 r OR ?w) = unat r * 256 + unat b"
    using w by simp
  have "unat (be_loop data (push_bit 8 r OR ?w))
      = (unat r * 256 + unat b) * 256 ^ length data + be_val data"
    using Cons.IH [of "push_bit 8 r OR ?w", unfolded step] Cons.prems [unfolded split] .
  then show ?case by (simp only: be_loop.simps split)
qed simp

lemma cbs_get_u_eq_Some:
  assumes "n \<le> 8"
  shows "cbs_get_u n s = (Some v, s') \<longleftrightarrow>
    (\<exists>xs. s = xs @ s' \<and> length xs = n \<and> unat v = be_val xs)"
proof -
  have "unat (be_loop xs 0) = be_val xs" if "length xs = n" for xs
  proof -
    have "be_val xs < 256 ^ n" using be_val_less [of xs] that by simp
    also have "(256 :: nat) ^ n \<le> 256 ^ 8" using assms by (intro power_increasing) simp_all
    finally show ?thesis using unat_be_loop [of 0 xs] by simp
  qed
  then show ?thesis
    by (auto simp: cbs_get_u_def op_bind_eq_Some op_return_def cbs_get_eq_Some word_unat_eq_iff)
qed

lemma cbs_get_u_append:
  assumes "length xs = n" and "n \<le> 8"
  shows "cbs_get_u n (xs @ s) = (Some (word_of_nat (be_val xs)), s)"
proof -
  have "be_val xs < 256 ^ n" using be_val_less [of xs] assms by simp
  also have "(256 :: nat) ^ n \<le> 256 ^ 8" using assms by (intro power_increasing) simp_all
  finally have "unat (word_of_nat (be_val xs) :: u64) = be_val xs"
    by (simp add: unat_of_nat)
  then show ?thesis using assms by (auto simp: cbs_get_u_eq_Some)
qed

section \<open>Base-128 integers\<close>

lemma base128_hi_0 [simp]: "base128_hi 0 = []"
  by (simp add: base128_hi.simps)

lemma base128_hi_step:
  assumes "v \<noteq> 0 \<or> d \<noteq> 0" and "d < 128"
  shows "base128_hi (v * 128 + d) = base128_hi v @ [byte (128 + d)]"
proof -
  have "(v * 128 + d) div 128 = v" "(v * 128 + d) mod 128 = d" "v * 128 + d \<noteq> 0"
    using assms by auto
  then show ?thesis by (subst base128_hi.simps) simp
qed

lemma base128_step: "d < 128 \<Longrightarrow> base128 (v * 128 + d) = base128_hi v @ [byte d]"
  by (simp add: base128_def)

text \<open>One step of the parser's loop, on the value as a natural number.\<close>

lemma parse_base128_digit:
  assumes "drop_bit 57 (v :: u64) = 0"
  shows "unat (push_bit 7 v OR ucast (b AND 0x7f :: u8)) = unat v * 128 + unat b mod 128"
    and "unat v < 2 ^ 57"
proof -
  have "unat v div 2 ^ 57 = 0"
    by (simp only: unat_drop_bit [symmetric] assms unsigned_0)
  then show lt: "unat v < 2 ^ 57" by (simp only: div_eq_0_iff) simp
  have w: "unat (ucast (b AND 0x7f) :: u64) = unat b mod 128"
    by (subst unat_ucast_up) simp_all
  have "unat (push_bit 7 v OR ucast (b AND 0x7f)) = unat v * 2 ^ 7 + unat (ucast (b AND 0x7f) :: u64)"
    by (rule unat_shift_or) (use lt w in simp_all)
  then show "unat (push_bit 7 v OR ucast (b AND 0x7f)) = unat v * 128 + unat b mod 128"
    by (simp add: w)
qed

lemma byte_high: "128 \<le> unat (b :: u8) \<Longrightarrow> byte (128 + unat b mod 128) = b"
proof (rule word_unat_eq_iff [THEN iffD2])
  assume b: "128 \<le> unat b"
  have high: "128 \<le> n \<Longrightarrow> n < 256 \<Longrightarrow> (128 + n mod 128) mod 256 = n" for n :: nat
    by (simp add: le_mod_geq)
  show "unat (byte (128 + unat b mod 128)) = unat b"
    unfolding unat_byte by (rule high [OF b unat_byte_less])
qed

lemma byte_low: "unat (b :: u8) < 128 \<Longrightarrow> byte (unat b mod 128) = b"
  by simp

lemma parse_base128_hi:
  assumes "m < 2 ^ 57"
  shows "parse_base128_loop (base128_hi m @ ys) 0 = parse_base128_loop ys (word_of_nat m)"
  using assms
proof (induction m arbitrary: ys rule: less_induct)
  case (less m)
  show ?case
  proof (cases "m = 0")
    case False
    let ?b = "byte (128 + m mod 128)" and ?v = "word_of_nat (m div 128) :: u64"
    have b: "unat ?b = 128 + m mod 128" by simp
    have v: "unat ?v = m div 128" using less.prems by (simp add: unat_of_nat)
    have small: "drop_bit 57 ?v = 0"
      using less.prems by (simp add: word_unat_eq_iff unat_drop_bit v)
    have "?v = 0 \<Longrightarrow> ?b \<noteq> 0x80"
      using False v b by (auto simp: word_unat_eq_iff div_eq_0_iff)
    moreover have "push_bit 7 ?v OR ucast (?b AND 0x7f) = word_of_nat m"
      using parse_base128_digit(1) [OF small, of ?b] less.prems
      by (simp add: word_unat_eq_iff b v unat_of_nat)
    moreover have "base128_hi m = base128_hi (m div 128) @ [?b]"
      using False by (subst base128_hi.simps) simp
    ultimately show ?thesis
      using less.IH [of "m div 128" "?b # ys"] less.prems False small b
      by (auto simp: Let_def)
  qed simp
qed

lemma parse_base128_base128 [simp]:
  assumes "n < 2 ^ 64"
  shows "parse_base128_integer (base128 n @ ys) = (Some (word_of_nat n), ys)"
proof -
  let ?b = "byte (n mod 128)" and ?v = "word_of_nat (n div 128) :: u64"
  have b: "unat ?b = n mod 128" by simp
  have v: "unat ?v = n div 128" using assms by (simp add: unat_of_nat)
  have small: "drop_bit 57 ?v = 0"
    using assms by (simp add: word_unat_eq_iff unat_drop_bit v)
  have "push_bit 7 ?v OR ucast (?b AND 0x7f) = word_of_nat n"
    using parse_base128_digit(1) [OF small, of ?b] assms
    by (simp add: word_unat_eq_iff b v unat_of_nat)
  moreover have "?b \<noteq> 0x80" using b by (auto simp: word_unat_eq_iff)
  moreover have "n div 128 < 2 ^ 57" using assms by simp
  ultimately show ?thesis
    using small b by (simp add: parse_base128_integer_def base128_def parse_base128_hi Let_def)
qed

lemma parse_base128_loop_sound:
  assumes "parse_base128_loop s v = (Some r, s')"
  shows "\<exists>pre. s = pre @ s' \<and> base128_hi (unat v) @ pre = base128 (unat r)"
  using assms
proof (induction s arbitrary: v)
  case (Cons b s)
  let ?v' = "push_bit 7 v OR ucast (b AND 0x7f)"
  from Cons.prems have small: "drop_bit 57 v = 0" and nz: "\<not> (v = 0 \<and> b = 0x80)"
    by (auto split: if_splits)
  note v' = parse_base128_digit(1) [OF small, of b]
  show ?case
  proof (cases "unat b < 128")
    case True
    with Cons.prems small nz have "r = ?v'" "s' = s" by (auto simp: Let_def)
    with True v' have "base128_hi (unat v) @ [b] = base128 (unat r)"
      by (simp add: base128_step)
    with \<open>s' = s\<close> show ?thesis by (intro exI [of _ "[b]"]) simp
  next
    case False
    with Cons.prems small nz have rec: "parse_base128_loop s ?v' = (Some r, s')"
      by (auto simp: Let_def split: if_splits)
    from Cons.IH [OF this] obtain pre
      where pre: "s = pre @ s'" "base128_hi (unat ?v') @ pre = base128 (unat r)" by blast
    have "unat v \<noteq> 0 \<or> unat b mod 128 \<noteq> 0"
      using nz False byte_high [of b] by (auto simp: word_unat_eq_iff)
    then have "base128_hi (unat ?v') = base128_hi (unat v) @ [b]"
      using v' False by (simp add: base128_hi_step byte_high)
    with pre show ?thesis by (intro exI [of _ "b # pre"]) simp
  qed
qed simp

lemma parse_base128_sound:
  "parse_base128_integer s = (Some r, s') \<Longrightarrow> s = base128 (unat r) @ s'"
  using parse_base128_loop_sound [of s 0 r s'] by (auto simp: parse_base128_integer_def)

section \<open>Tags\<close>

lemma tag_byte_high: "(ucast (b :: u8) :: u32) AND 0xe0 = push_bit 5 (ucast (drop_bit 5 b))"
  by (rule u8_all [of "\<lambda>b. ucast b AND 0xe0 = push_bit 5 (ucast (drop_bit 5 b))"]) code_simp

lemma unat_tag_byte_low: "unat ((ucast (b :: u8) :: u32) AND 0x1f) = unat b mod 32"
  using unat_and_mask [of "ucast b :: u32" 5] by (simp add: mask_eq_exp_minus_1 unat_ucast_up)

lemma unat_number_mask: "unat CBS_ASN1_TAG_NUMBER_MASK = 2 ^ 29 - 1"
  by (simp add: CBS_ASN1_TAG_NUMBER_MASK_def)

lemma div_less_8: "n < 256 \<Longrightarrow> n div 32 < (8 :: nat)"
  by simp

lemma unat_assemble_tag:
  assumes "unat v < 2 ^ 29"
  shows "unat (push_bit 24 (ucast (b :: u8) AND 0xe0) OR v :: u32) = unat b div 32 * 2 ^ 29 + unat v"
proof -
  let ?x = "ucast (drop_bit 5 b) :: u32"
  have x: "unat ?x = unat b div 32"
    by (subst unat_ucast_up) (simp_all add: unat_drop_bit)
  moreover have "unat b div 32 < 8"
    by (rule div_less_8 [OF unat_byte_less])
  ultimately have "unat (push_bit 29 ?x OR v) = unat ?x * 2 ^ 29 + unat v"
    using assms by (intro unat_shift_or) simp_all
  then show ?thesis by (simp add: tag_byte_high push_bit_push_bit x)
qed

text \<open>The tag that the parser assembles from the first byte and the number.\<close>

lemma assembled_tag:
  assumes "unat v < 2 ^ 29" and "tag = push_bit 24 (ucast (b :: u8) AND 0xe0) OR (v :: u32)"
  shows "tag_number tag = unat v" and "tag_bits tag = unat b div 32 * 32"
  using unat_assemble_tag [OF assms(1), of b] assms
  by (simp_all add: tag_number_def tag_bits_def)

lemma tag_bits_less: "tag_bits tag \<le> 224" "tag_bits tag mod 32 = 0" "tag_number tag < 2 ^ 29"
proof -
  have "unat tag < 2 ^ 32" using unsigned_less [of tag] by simp
  then have "unat tag div 2 ^ 29 < 8" by simp
  then show "tag_bits tag \<le> 224" by (simp add: tag_bits_def)
qed (simp_all add: tag_bits_def tag_number_def)

lemma unat_tag_split: "unat tag = tag_bits tag div 32 * 2 ^ 29 + tag_number tag"
  by (simp add: tag_bits_def tag_number_def)

lemma parse_asn1_tag_sound:
  assumes "parse_asn1_tag s = (Some tag, s')"
  shows "s = der_tag tag @ s'"
proof -
  from assms obtain b s1 where s: "s = b # s1"
    by (cases s) (auto simp: parse_asn1_tag_def op_bind_def)
  let ?bits = "push_bit 24 (ucast b AND 0xe0) :: u32" and ?low = "ucast b AND 0x1f :: u32"
  have byte_split: "unat b = unat b div 32 * 32 + unat b mod 32" by simp
  show ?thesis
  proof (cases "?low = 0x1f")
    case True
    with assms s obtain v where v: "parse_base128_integer s1 = (Some v, s')"
      and bound: "\<not> ucast CBS_ASN1_TAG_NUMBER_MASK < v" "\<not> v < 0x1f"
      and tag: "tag = ?bits OR ucast v"
      by (auto simp: parse_asn1_tag_def Let_def op_bind_def op_return_def op_fail_def
          split: prod.splits option.splits if_splits)
    have le: "unat v < 2 ^ 29"
      using bound(1) unat_ucast_up [of CBS_ASN1_TAG_NUMBER_MASK, where 'b = 64]
      by (simp add: word_less_nat_alt unat_number_mask)
    then have uv: "unat (ucast v :: u32) = unat v" by (simp add: unat_ucast_mod)
    have low: "unat b mod 32 = 31"
      using True unat_tag_byte_low [of b] by simp
    have ge: "31 \<le> unat v" using bound(2) by (simp add: word_less_nat_alt)
    have n: "tag_number tag = unat v" "tag_bits tag = unat b div 32 * 32"
      using assembled_tag [OF _ tag] le uv by simp_all
    have "byte (tag_bits tag + 31) = b"
      using byte_split low n(2) byte_unat [of b] by simp
    then show ?thesis
      using parse_base128_sound [OF v] n(1) ge s by (simp add: der_tag_def)
  next
    case False
    with assms s have tag: "tag = ?bits OR ?low" and s': "s' = s1"
      by (auto simp: parse_asn1_tag_def Let_def op_bind_def op_return_def)
    have low: "unat ?low = unat b mod 32" by (rule unat_tag_byte_low)
    have n: "tag_number tag = unat b mod 32" "tag_bits tag = unat b div 32 * 32"
      using assembled_tag [OF _ tag] low by simp_all
    have "unat b mod 32 \<noteq> 31" using False low by (auto simp: word_unat_eq_iff)
    then have "tag_number tag < 31" using n(1) by simp
    moreover have "byte (tag_bits tag + tag_number tag) = b"
      using n byte_split byte_unat [of b] by simp
    ultimately show ?thesis using s s' by (simp add: der_tag_def)
  qed
qed

lemma same_high:
  "r < 32 \<Longrightarrow> (32 * q + r) div 32 * 2 ^ 29 = 32 * q div 32 * (2 :: nat) ^ 29"
  by simp

lemma parse_asn1_tag_der_tag [simp]: "parse_asn1_tag (der_tag tag @ s) = (Some tag, s)"
proof -
  define n where "n = tag_number tag"
  define b where "b = byte (tag_bits tag + (if n < 31 then n else 31))"
  note bounds = tag_bits_less [of tag]
  obtain q where q: "tag_bits tag = 32 * q" using bounds(2) by auto
  have b: "unat b = tag_bits tag + (if n < 31 then n else 31)"
    using bounds by (simp add: b_def)
  have div32: "unat b div 32 * 2 ^ 29 = tag_bits tag div 32 * 2 ^ 29"
    unfolding b q by (rule same_high) simp
  have low: "unat (ucast b AND 0x1f :: u32) = (if n < 31 then n else 31)"
    using b q by (simp add: unat_tag_byte_low)
  have whole: "push_bit 24 (ucast b AND 0xe0) OR v = tag" if "unat v = n" for v :: u32
    using unat_assemble_tag [of v b] that bounds(3) unat_tag_split [of tag] div32
    by (simp add: n_def word_unat_eq_iff)
  show ?thesis
  proof (cases "n < 31")
    case True
    have "der_tag tag = [b]" using True by (simp add: der_tag_def b_def n_def)
    moreover have "ucast b AND 0x1f \<noteq> (0x1f :: u32)"
      using low True by (auto simp: word_unat_eq_iff)
    ultimately show ?thesis
      using whole [of "ucast b AND 0x1f"] low True
      by (simp add: parse_asn1_tag_def op_bind_def op_return_def Let_def)
  next
    case False
    have der: "der_tag tag = b # base128 n" using False by (simp add: der_tag_def b_def n_def)
    have is1f: "ucast b AND 0x1f = (0x1f :: u32)"
      using low False by (simp add: word_unat_eq_iff)
    let ?v = "word_of_nat n :: u64"
    have n29: "n < 2 ^ 29" using bounds(3) by (simp add: n_def)
    then have v: "unat ?v = n" by (simp add: unat_of_nat)
    have "\<not> ucast CBS_ASN1_TAG_NUMBER_MASK < ?v" "\<not> ?v < 0x1f"
      using v n29 False unat_ucast_up [of CBS_ASN1_TAG_NUMBER_MASK, where 'b = 64]
      by (simp_all add: word_less_nat_alt unat_number_mask)
    moreover have "unat (ucast ?v :: u32) = n"
      using v n29 by (simp add: unat_ucast_mod)
    moreover have "parse_base128_integer (base128 n @ s) = (Some ?v, s)"
      using n29 by (intro parse_base128_base128) simp
    ultimately show ?thesis
      using whole [of "ucast ?v"] is1f der
      by (simp add: parse_asn1_tag_def op_bind_def op_return_def Let_def)
  qed
qed

lemma parse_asn1_tag_iff: "parse_asn1_tag s = (Some tag, s') \<longleftrightarrow> s = der_tag tag @ s'"
  using parse_asn1_tag_sound by auto

lemma length_base128_hi: "n < 128 ^ k \<Longrightarrow> length (base128_hi n) \<le> k"
proof (induction k arbitrary: n)
  case (Suc k)
  then have "length (base128_hi (n div 128)) \<le> k"
    by (simp add: less_mult_imp_div_less mult.commute)
  then show ?case by (subst base128_hi.simps) simp
qed simp

lemma length_der_tag: "1 \<le> length (der_tag tag)" "length (der_tag tag) \<le> 6"
proof -
  have "tag_number tag div 128 < 128 ^ 4" using tag_bits_less(3) [of tag] by simp
  from length_base128_hi [OF this] have "length (base128 (tag_number tag)) \<le> 5"
    by (simp add: base128_def)
  then show "1 \<le> length (der_tag tag)" "length (der_tag tag) \<le> 6"
    by (simp_all add: der_tag_def)
qed

section \<open>Lengths\<close>

lemma der_len_bytes_eq:
  assumes "128 \<le> n" "256 ^ (k - 1) \<le> n" "n < 256 ^ k" "k \<noteq> 0" "k \<le> 4"
  shows "der_len_bytes n = k"
proof -
  from assms consider "k = 1" | "k = 2" | "k = 3" | "k = 4" by linarith
  then show ?thesis using assms by cases (auto simp: der_len_bytes_def)
qed

lemma der_len_bytes_bounds:
  assumes "127 < n" "n < der_max"
  shows "1 \<le> der_len_bytes n" "der_len_bytes n \<le> 4" "n < 256 ^ der_len_bytes n"
    "256 ^ (der_len_bytes n - 1) \<le> n"
  using assms by (auto simp: der_len_bytes_def)

lemma drop_bit_bytes_zero_iff:
  "drop_bit (k * 8) (v :: u64) = 0 \<longleftrightarrow> unat v < 256 ^ k"
  by (simp add: word_unat_eq_iff unat_drop_bit div_eq_0_iff power_mult mult.commute [of k])

section \<open>Elements\<close>

lemma length_der_element: "length (der_element tag c) = length (der_header tag (length c)) + length c"
  by (simp add: der_element_def)

lemma size_add_small: "a + b < 2 ^ 33 \<Longrightarrow> size_add a b = a + b"
  by simp

lemma der_len_long:
  assumes "127 < n"
  shows "der_len n = byte (128 + der_len_bytes n) # be_bytes (der_len_bytes n) n"
  using assms by (simp add: der_len_def)

lemma get_element_der_element:
  assumes "length c < der_max"
  shows "cbs_get_any_asn1_element ber_ok (der_element tag c @ s)
    = (Some (der_element tag c, tag, length (der_header tag (length c))), s)"
proof -
  define n where "n = length c"
  define T where "T = length (der_tag tag)"
  have T: "T \<le> 6" using length_der_tag by (simp add: T_def)
  have tag: "parse_asn1_tag (der_element tag c @ s) = (Some tag, der_len n @ c @ s)"
    by (simp add: der_element_def der_header_def n_def)
  have get: "CBS_get_bytes m (der_element tag c @ s) = (Some (der_element tag c), s)"
    if "m = T + length (der_len n) + n" for m
    by (rule CBS_get_bytes_append) (simp add: that T_def n_def length_der_element der_header_def)
  have hdr: "length (der_header tag n) = T + length (der_len n)"
    by (simp add: der_header_def T_def)
  show ?thesis
  proof (cases "n \<le> 127")
    case True
    then have l: "der_len n = [byte n]" by (simp add: der_len_def)
    have len: "CBS_len (der_element tag c @ s) - CBS_len (c @ s) = T + 1"
      by (simp add: CBS_len_def der_element_def der_header_def l T_def n_def [symmetric])
    show ?thesis
      unfolding cbs_get_any_asn1_element_def tag
      using True T get [of "n + (T + 1)"]
      by (simp add: l len hdr n_def [symmetric] Let_def op_bind_def op_return_def
          del: CBS_get_bytes_append)
  next
    case False
    define k where "k = der_len_bytes n"
    have k: "1 \<le> k" "k \<le> 4" "n < 256 ^ k" "256 ^ (k - 1) \<le> n"
      using der_len_bytes_bounds [of n] False assms by (simp_all add: k_def n_def)
    have l: "der_len n = byte (128 + k) # be_bytes k n"
      using False by (simp add: der_len_def k_def)
    have b: "unat (byte (128 + k)) = 128 + k" using k by simp
    have len: "CBS_len (der_element tag c @ s) - CBS_len (be_bytes k n @ c @ s) = T + 1"
      by (simp add: CBS_len_def der_element_def der_header_def l T_def n_def [symmetric])
    have num: "cbs_get_u k (be_bytes k n @ c @ s) = (Some (word_of_nat n), c @ s)"
      using cbs_get_u_append [of "be_bytes k n" k] k by (simp add: be_val_be_bytes)
    have un: "unat (word_of_nat n :: u64) = n"
      using assms by (simp add: n_def unat_of_nat)
    have "\<not> word_of_nat n < (128 :: u64)" using un False by (simp add: word_less_nat_alt)
    moreover have "drop_bit ((k - 1) * 8) (word_of_nat n :: u64) \<noteq> 0"
      using drop_bit_bytes_zero_iff [of "k - 1"] un k(4) by simp
    ultimately show ?thesis
      unfolding cbs_get_any_asn1_element_def tag
      using T k b un assms get [of "n + (T + 1 + k)"]
      by (simp add: l len hdr num n_def [symmetric] Let_def op_bind_def op_return_def
          del: CBS_get_bytes_append)
  qed
qed

lemma get_element_sound:
  assumes "cbs_get_any_asn1_element False s = (Some (out, tag, hl), s')"
  shows "\<exists>c. out = der_element tag c \<and> s = out @ s' \<and> length c < der_max
    \<and> hl = length (der_header tag (length c))"
proof -
  from assms obtain b s1 s2 where t: "parse_asn1_tag s = (Some tag, s1)" and s1: "s1 = b # s2"
    by (auto simp: cbs_get_any_asn1_element_def CBS_get_u8_eq_Some op_bind_def op_return_def Let_def
        split: prod.splits option.splits if_splits)
  define T where "T = length (der_tag tag)"
  have T: "T \<le> 6" using length_der_tag by (simp add: T_def)
  have s: "s = der_tag tag @ b # s2" using parse_asn1_tag_sound [OF t] s1 by simp
  have len: "CBS_len s - CBS_len s2 = T + 1" by (simp add: CBS_len_def s T_def)
  have body: "\<exists>c. out = der_element tag c \<and> s = out @ s' \<and> length c < der_max
      \<and> hl = length (der_header tag (length c))"
    if get: "CBS_get_bytes (n + (T + length (der_len n))) s = (Some out, s')"
      and pre: "b # s2 = der_len n @ s3" and small: "n < der_max"
      and hl: "hl = T + length (der_len n)" for n s3
  proof -
    from get have out: "s = out @ s'" "length out = n + (T + length (der_len n))"
      by (simp_all add: CBS_get_bytes_eq_Some)
    have eq: "out @ s' = (der_tag tag @ der_len n) @ s3"
      using out(1) s pre by simp
    have "length (der_tag tag @ der_len n) \<le> length out" using out(2) by (simp add: T_def)
    from append_longer [OF eq this] obtain c where c: "out = (der_tag tag @ der_len n) @ c"
      by blast
    then have "length c = n" using out(2) by (simp add: T_def)
    with c out(1) small hl show ?thesis
      by (auto simp: der_element_def der_header_def T_def)
  qed
  show ?thesis
  proof (cases "unat b < 128")
    case True
    then have l: "der_len (unat b) = [b]" by (simp add: der_len_def)
    have small: "unat b + (T + 1) < 2 ^ 33" using True T by simp
    have "CBS_get_bytes (unat b + (T + 1)) s = (Some out, s') \<and> hl = T + 1"
      using assms True size_add_small [OF small]
      unfolding cbs_get_any_asn1_element_def t s1
      by (auto simp: len Let_def op_bind_eq_Some op_return_def)
    with body [of "unat b" s2] l True show ?thesis by simp
  next
    case False
    let ?k = "unat b mod 128"
    obtain len64 s3 where num: "cbs_get_u ?k s2 = (Some len64, s3)"
      and k: "?k \<noteq> 0" "?k \<le> 4"
      and checks: "\<not> len64 < 128" "drop_bit ((?k - 1) * 8) len64 \<noteq> 0"
      and get: "op_bind (CBS_get_bytes (size_add (unat len64) (size_add (T + 1) ?k)))
          (\<lambda>out. op_return (out, tag, size_add (T + 1) ?k)) s = (Some (out, tag, hl), s')"
      using assms False unfolding cbs_get_any_asn1_element_def t s1
      by (auto simp: len Let_def split: prod.splits option.splits if_splits)
    from num k obtain xs where xs: "s2 = xs @ s3" "length xs = ?k" "unat len64 = be_val xs"
      using cbs_get_u_eq_Some [of ?k] by auto
    let ?n = "unat len64"
    have n: "128 \<le> ?n" "256 ^ (?k - 1) \<le> ?n" "?n < 256 ^ ?k"
      using checks drop_bit_bytes_zero_iff [of "?k - 1" len64] be_val_less [of xs] xs
      by (auto simp: word_less_nat_alt not_less)
    have "256 ^ ?k \<le> (256 :: nat) ^ 4" using k by (intro power_increasing) simp_all
    with n(3) have small: "?n < der_max" by simp
    have bytes: "der_len_bytes ?n = ?k" using n k by (intro der_len_bytes_eq)
    have l: "der_len ?n = b # xs"
      using n(1) xs bytes False by (simp add: der_len_long byte_high be_bytes_be_val)
    have sz: "size_add (T + 1) ?k = T + 1 + ?k"
      by (rule size_add_small) (use T k in simp)
    have sz': "size_add ?n (T + 1 + ?k) = ?n + (T + 1 + ?k)"
      by (rule size_add_small) (use T k small in simp)
    have "CBS_get_bytes (?n + (T + length (der_len ?n))) s = (Some out, s') \<and> hl = T + length (der_len ?n)"
      using get xs(2) unfolding sz sz' l by (auto simp: op_bind_eq_Some op_return_def add.assoc)
    then show ?thesis using body [of ?n s3] l xs small by simp
  qed
qed

lemma get_element_iff:
  "cbs_get_any_asn1_element False s = (Some (out, tag, hl), s') \<longleftrightarrow>
   (\<exists>c. length c < der_max \<and> out = der_element tag c \<and> hl = length (der_header tag (length c))
     \<and> s = out @ s')"
  using get_element_sound [of s out tag hl s'] get_element_der_element by blast

lemma element_contents:
  "out = der_element tag c \<Longrightarrow> skip_local out (length (der_header tag (length c))) s = (Some c, s)"
  by (simp add: der_element_def)

lemma bind_element:
  "length c < der_max \<Longrightarrow> op_bind CBS_get_any_asn1_element k (der_element tag c @ s)
     = k (der_element tag c, tag, length (der_header tag (length c))) s"
  by (simp add: CBS_get_any_asn1_element_def op_bind_def get_element_der_element)

lemma bind_elementE:
  assumes "op_bind CBS_get_any_asn1_element k s = (Some r, s')"
  obtains c tag s1 where "length c < der_max" and "s = der_element tag c @ s1"
    and "k (der_element tag c, tag, length (der_header tag (length c))) s1 = (Some r, s')"
  using assms by (auto simp: CBS_get_any_asn1_element_def op_bind_eq_Some get_element_iff)

lemma bind_contents:
  "op_bind (skip_local (der_element tag c) (length (der_header tag (length c)))) k s = k c s"
  by (simp add: op_bind_def element_contents)

lemma CBS_get_any_asn1_iff:
  "CBS_get_any_asn1 s = (Some (c, tag), s') \<longleftrightarrow> length c < der_max \<and> s = der_element tag c @ s'"
  by (auto simp: CBS_get_any_asn1_def bind_element op_return_def
      bind_contents elim!: bind_elementE)

lemma CBS_get_asn1_iff:
  "CBS_get_asn1 tag s = (Some c, s') \<longleftrightarrow> length c < der_max \<and> s = der_element tag c @ s'"
  by (auto simp: CBS_get_asn1_def cbs_get_asn1_def bind_element op_return_def op_fail_def
      element_contents elim!: bind_elementE split: if_splits)

lemma CBS_get_asn1_element_iff:
  "CBS_get_asn1_element tag s = (Some e, s') \<longleftrightarrow>
   (\<exists>c. length c < der_max \<and> e = der_element tag c \<and> s = e @ s')"
  by (auto simp: CBS_get_asn1_element_def cbs_get_asn1_def bind_element op_return_def op_fail_def
      elim!: bind_elementE split: if_splits)

section \<open>Property\<close>

text \<open>
  C1: the DER element parser accepts exactly the distinguished encodings of elements shorter
  than \<open>2 ^ 32\<close> bytes, whatever follows them: it reads an element with its header, its tag and
  its header length off the input if and only if the input starts with the encoding of some
  contents under that tag, and leaves the rest. In particular no input has two readings, and
  non-minimal tags and lengths, indefinite lengths and truncated elements are refused.
\<close>

theorem any_asn1_element_exact:
  "CBS_get_any_asn1_element s = (Some (out, tag, header_len), s') \<longleftrightarrow>
   (\<exists>c. length c < der_max \<and> out = der_element tag c
     \<and> header_len = length (der_header tag (length c)) \<and> s = out @ s')"
  by (simp add: CBS_get_any_asn1_element_def get_element_iff)

end
