(* ===== verification/Ordering.thy ===== *)
theory Ordering imports Main begin

text \<open>
  Comparison functions in the C convention, the C library's \<open>qsort\<close>, and the binary search of
  \<open>sk_find\<close> in the abstract. The locale \<open>cmp_order\<close> is what \<open>qsort\<close> and a binary search need of
  a comparison function; its lemmas are used for every comparison of the program.
\<close>

text \<open>
  \<open>qsort\<close> as insertion sort by the comparison. The C standard leaves the order of elements that
  compare equal open; this is one of the results it allows.
\<close>

fun qsort_insert :: "('a \<Rightarrow> 'a \<Rightarrow> int) \<Rightarrow> 'a \<Rightarrow> 'a list \<Rightarrow> 'a list" where
  "qsort_insert compar x [] = [x]"
| "qsort_insert compar x (y # ys) =
     (if compar x y \<le> 0 then x # y # ys else y # qsort_insert compar x ys)"

definition qsort :: "('a \<Rightarrow> 'a \<Rightarrow> int) \<Rightarrow> 'a list \<Rightarrow> 'a list" where
  "qsort compar xs = foldr (qsort_insert compar) xs []"

lemma qsort_simps [simp]:
  "qsort compar [] = []" "qsort compar (x # xs) = qsort_insert compar x (qsort compar xs)"
  by (simp_all add: qsort_def)

lemma set_qsort_insert [simp]: "set (qsort_insert compar x ys) = insert x (set ys)"
  by (induction ys) auto

lemma set_qsort [simp]: "set (qsort compar xs) = set xs"
  by (induction xs) auto

lemma length_qsort_insert [simp]: "length (qsort_insert compar x ys) = Suc (length ys)"
  by (induction ys) auto

lemma length_qsort [simp]: "length (qsort compar xs) = length xs"
  by (induction xs) auto

lemma count_qsort_insert: "count_list (qsort_insert compar x ys) z = count_list (x # ys) z"
  by (induction ys) auto

lemma count_qsort [simp]: "count_list (qsort compar xs) z = count_list xs z"
  by (induction xs) (simp_all add: count_qsort_insert)

text \<open>Everything below is relative to a set of elements that the comparison orders.\<close>

locale cmp_order =
  fixes cmp :: "'a \<Rightarrow> 'a \<Rightarrow> int" and A :: "'a set"
  assumes anti: "x \<in> A \<Longrightarrow> y \<in> A \<Longrightarrow> cmp x y \<le> 0 \<longleftrightarrow> 0 \<le> cmp y x"
    and trans: "x \<in> A \<Longrightarrow> y \<in> A \<Longrightarrow> z \<in> A \<Longrightarrow> cmp x y \<le> 0 \<Longrightarrow> cmp y z \<le> 0 \<Longrightarrow> cmp x z \<le> 0"
begin

abbreviation le :: "'a \<Rightarrow> 'a \<Rightarrow> bool" where "le x y \<equiv> cmp x y \<le> 0"

abbreviation in_order :: "'a list \<Rightarrow> bool" where "in_order xs \<equiv> sorted_wrt le xs"

lemma total: "x \<in> A \<Longrightarrow> y \<in> A \<Longrightarrow> le x y \<or> le y x"
  using anti by fastforce

lemma equal_iff: "x \<in> A \<Longrightarrow> y \<in> A \<Longrightarrow> cmp x y = 0 \<longleftrightarrow> le x y \<and> le y x"
  using anti by fastforce

lemma sorted_qsort_insert:
  "x \<in> A \<Longrightarrow> set ys \<subseteq> A \<Longrightarrow> in_order ys \<Longrightarrow> in_order (qsort_insert cmp x ys)"
proof (induction ys)
  case (Cons y ys)
  show ?case
  proof (cases "le x y")
    case True
    have "\<forall>z \<in> set ys. le x z"
      using Cons.prems True by (auto intro: trans [of x y])
    with True Cons.prems show ?thesis by simp
  next
    case False
    then have "le y x" using total Cons.prems by auto
    with False Cons show ?thesis by auto
  qed
qed simp

lemma sorted_qsort: "set xs \<subseteq> A \<Longrightarrow> in_order (qsort cmp xs)"
  by (induction xs) (simp_all add: sorted_qsort_insert)

text \<open>A sorted list is not changed.\<close>

lemma qsort_sorted: "set xs \<subseteq> A \<Longrightarrow> in_order xs \<Longrightarrow> qsort cmp xs = xs"
proof (induction xs)
  case (Cons x xs)
  then show ?case by (cases xs) auto
qed simp

text \<open>Comparisons of a fixed key with the elements of a sorted list change sign once.\<close>

lemma sorted_cmp:
  assumes "in_order xs" "set xs \<subseteq> A" "p \<in> A" "i \<le> j" "j < length xs"
  shows "cmp p (xs ! j) > 0 \<Longrightarrow> cmp p (xs ! i) > 0" "cmp p (xs ! i) < 0 \<Longrightarrow> cmp p (xs ! j) < 0"
proof -
  have A: "xs ! i \<in> A" "xs ! j \<in> A" using assms by auto
  have le: "le (xs ! i) (xs ! j)"
  proof (cases "i = j")
    case True
    then show ?thesis using total [OF A(1) A(1)] by simp
  next
    case False
    then show ?thesis using assms by (simp add: sorted_wrt_iff_nth_less)
  qed
  show "cmp p (xs ! j) > 0 \<Longrightarrow> cmp p (xs ! i) > 0"
    using le trans [OF assms(3) A] by linarith
  show "cmp p (xs ! i) < 0 \<Longrightarrow> cmp p (xs ! j) < 0"
  proof -
    assume "cmp p (xs ! i) < 0"
    then have "\<not> le (xs ! i) p" using anti [OF A(1) assms(3)] by linarith
    then have "\<not> le (xs ! j) p" using le trans [OF A assms(3)] by blast
    then show "cmp p (xs ! j) < 0" using anti [OF A(2) assms(3)] by linarith
  qed
qed

end

end
