(* ===== verification/Cbb.thy ===== *)
theory Cbb imports Der Ordering begin

text \<open>
  \<open>crypto/bytestring/cbb.c\<close>: the CBB builder, which appends to one growing buffer and fills in
  length prefixes when a length-prefixed child is closed.

  \<open>cbb_buffer\<close> is \<open>struct cbb_buffer_st\<close>; \<open>cb_buf\<close> is the memory of \<open>buf\<close>. The CBBs that write
  to one buffer form a chain: each has at most one open child. \<open>cbb\<close> is that chain: the shared
  base (\<open>None\<close> is NULL) and the open children, the child of the top-level CBB first. A CBB of
  the chain is named by its depth, 0 for the top-level one; a depth beyond the open children is
  a CBB that was flushed or never opened, whose own \<open>base\<close> is NULL. An out-pointer into the
  buffer is its offset.
\<close>

section \<open>State\<close>

record cbb_buffer =
  cb_buf :: "u8 list"
  cb_len :: nat
  cb_cap :: nat
  can_resize :: bool
  cb_error :: bool

record cbb_child =
  cbb_offset :: nat
  pending_len_len :: nat
  pending_is_asn1 :: bool

record cbb =
  cbb_base :: "cbb_buffer option"
  cbb_children :: "cbb_child list"

definition CBB_zero :: cbb where
  "CBB_zero = \<lparr>cbb_base = None, cbb_children = []\<rparr>"

definition sizeof_cbb_buffer :: nat where
  "sizeof_cbb_buffer = 32"

definition cbb_init :: "malloc_fn \<Rightarrow> cbb \<Rightarrow> u8 list \<Rightarrow> nat \<Rightarrow> cbb option" where
  "cbb_init ma cbb buf cap =
     (case OPENSSL_malloc ma sizeof_cbb_buffer of
        None \<Rightarrow> None
      | Some _ \<Rightarrow>
          Some (cbb\<lparr>cbb_base := Some \<lparr>cb_buf = buf, cb_len = 0, cb_cap = cap,
                                     can_resize = True, cb_error = False\<rparr>\<rparr>))"

definition CBB_init :: "malloc_fn \<Rightarrow> nat \<Rightarrow> cbb option" where
  "CBB_init ma initial_capacity =
     (case OPENSSL_malloc ma initial_capacity of
        None \<Rightarrow> if 0 < initial_capacity then None else cbb_init ma CBB_zero [] initial_capacity
      | Some buf \<Rightarrow> cbb_init ma CBB_zero (block_bytes buf) initial_capacity)"

definition CBB_init_fixed :: "malloc_fn \<Rightarrow> u8 list \<Rightarrow> nat \<Rightarrow> cbb option" where
  "CBB_init_fixed ma buf len =
     (case cbb_init ma CBB_zero buf len of
        None \<Rightarrow> None
      | Some cbb \<Rightarrow> Some (cbb\<lparr>cbb_base := map_option (\<lambda>b. b\<lparr>can_resize := False\<rparr>) (cbb_base cbb)\<rparr>))"

definition CBB_cleanup :: "nat \<Rightarrow> cbb \<Rightarrow> cbb" where
  "CBB_cleanup d cbb = (if d \<noteq> 0 then cbb else cbb\<lparr>cbb_base := None\<rparr>)"

section \<open>The buffer\<close>

definition cbb_buffer_reserve :: "malloc_fn \<Rightarrow> nat \<Rightarrow> (cbb_buffer, nat) op" where
  "cbb_buffer_reserve ma len base =
     (let newlen = size_add (cb_len base) len;
          err = (None, base\<lparr>cb_error := True\<rparr>) in
      if newlen < cb_len base then err
      else if cb_cap base < newlen then
        (let newcap = (cb_cap base * 2) mod size_limit in
         if \<not> can_resize base then err
         else
           let newcap = (if newcap < cb_cap base \<or> newcap < newlen then newlen else newcap) in
           case OPENSSL_realloc ma
                  (Some \<lparr>stored_size = cb_cap base, block_bytes = cb_buf base\<rparr>) newcap of
             None \<Rightarrow> err
           | Some newbuf \<Rightarrow>
               (Some (cb_len base), base\<lparr>cb_buf := block_bytes newbuf, cb_cap := newcap\<rparr>))
      else (Some (cb_len base), base))"

definition cbb_buffer_add :: "malloc_fn \<Rightarrow> nat \<Rightarrow> (cbb_buffer, nat) op" where
  "cbb_buffer_add ma len =
     op_bind (cbb_buffer_reserve ma len) (\<lambda>out base.
       (Some out, base\<lparr>cb_len := cb_len base + len\<rparr>))"

text \<open>\<open>for (i = len_len - 1; i < len_len; i--) { buf[i] = v; v >>= 8; }\<close>\<close>

fun store_be :: "nat \<Rightarrow> nat \<Rightarrow> nat \<Rightarrow> u8 list \<Rightarrow> u8 list \<times> nat" where
  "store_be 0 pos v buf = (buf, v)"
| "store_be (Suc i) pos v buf = store_be i pos (v div 256) (buf[pos + i := byte v])"

definition cbb_buffer_add_u :: "malloc_fn \<Rightarrow> nat \<Rightarrow> nat \<Rightarrow> (cbb_buffer, unit) op" where
  "cbb_buffer_add_u ma v len_len =
     (if len_len = 0 then op_return ()
      else op_bind (cbb_buffer_add ma len_len) (\<lambda>pos base.
        let (buf, v) = store_be len_len pos v (cb_buf base);
            base = base\<lparr>cb_buf := buf\<rparr> in
        if v \<noteq> 0 then (None, base\<lparr>cb_error := True\<rparr>) else (Some (), base)))"

text \<open>\<open>OPENSSL_memcpy\<close> of bytes to an offset, and \<open>OPENSSL_memmove\<close> within the buffer.\<close>

definition buf_write :: "nat \<Rightarrow> u8 list \<Rightarrow> cbb_buffer \<Rightarrow> cbb_buffer" where
  "buf_write pos xs base =
     base\<lparr>cb_buf := take pos (cb_buf base) @ xs @ drop (pos + length xs) (cb_buf base)\<rparr>"

definition buf_memmove :: "nat \<Rightarrow> nat \<Rightarrow> nat \<Rightarrow> cbb_buffer \<Rightarrow> cbb_buffer" where
  "buf_memmove dst src n base = buf_write dst (take n (drop src (cb_buf base))) base"

section \<open>Flushing\<close>

text \<open>The length prefix of an ASN.1 element: prefix size, first byte and what is left of \<open>len\<close>.\<close>

definition asn1_prefix :: "nat \<Rightarrow> nat \<times> u8 \<times> nat" where
  "asn1_prefix len =
     (if 0xffffff < len then (5, 0x80 OR 4, len)
      else if 0xffff < len then (4, 0x80 OR 3, len)
      else if 0xff < len then (3, 0x80 OR 2, len)
      else if 0x7f < len then (2, 0x80 OR 1, len)
      else (1, byte len, 0))"

text \<open>
  The results of the flush of a chain: the success flag, the children still open and the buffer.
  \<open>flush_err\<close> is the label \<open>err\<close>, \<open>flush_prefix\<close> the loop that writes the pending length prefix
  with the code after it, and \<open>flush_asn1\<close> the branch that finds room for a DER length.
\<close>

type_synonym flush_result = "bool \<times> cbb_child list \<times> cbb_buffer"

definition flush_err :: "cbb_child list \<Rightarrow> cbb_buffer \<Rightarrow> flush_result" where
  "flush_err chain base = (False, chain, base\<lparr>cb_error := True\<rparr>)"

definition flush_prefix :: "cbb_child \<Rightarrow> cbb_child list \<Rightarrow> nat \<Rightarrow> cbb_buffer \<Rightarrow> flush_result" where
  "flush_prefix child rest len base =
     (let (buf, len) = store_be (pending_len_len child) (cbb_offset child) len (cb_buf base);
          base = base\<lparr>cb_buf := buf\<rparr> in
      if len \<noteq> 0 then flush_err (child # rest) base else (True, [], base))"

definition flush_asn1 ::
  "malloc_fn \<Rightarrow> cbb_child \<Rightarrow> cbb_child list \<Rightarrow> nat \<Rightarrow> nat \<Rightarrow> cbb_buffer \<Rightarrow> flush_result"
where
  "flush_asn1 ma child rest child_start len base =
     (if 0xfffffffe < len then flush_err (child # rest) base
      else
        let (len_len, initial_length_byte, len) = asn1_prefix len;
            extra_bytes = len_len - 1;
            first = (\<lambda>base.
              flush_prefix (child\<lparr>cbb_offset := cbb_offset child + 1, pending_len_len := len_len - 1\<rparr>)
                rest len (base\<lparr>cb_buf := (cb_buf base)[cbb_offset child := initial_length_byte]\<rparr>)) in
        if len_len \<noteq> 1 then
          (case cbb_buffer_add ma extra_bytes base of
             (None, base) \<Rightarrow> flush_err (child # rest) base
           | (Some _, base) \<Rightarrow>
               first (buf_memmove (child_start + extra_bytes) child_start len base))
        else first base)"

text \<open>\<open>CBB_flush(cbb)\<close>, on the chain of the children below \<open>cbb\<close>.\<close>

fun cbb_flush_chain :: "malloc_fn \<Rightarrow> cbb_child list \<Rightarrow> cbb_buffer \<Rightarrow> flush_result" where
  "cbb_flush_chain ma [] base = (\<not> cb_error base, [], base)"
| "cbb_flush_chain ma (child # rest) base =
     (if cb_error base then (False, child # rest, base)
      else if pending_len_len child = 0 then (True, child # rest, base)
      else
        let child_start = size_add (cbb_offset child) (pending_len_len child);
            (ok, rest, base) = cbb_flush_chain ma rest base in
        if \<not> ok \<or> child_start < cbb_offset child \<or> cb_len base < child_start
        then flush_err (child # rest) base
        else
          let len = cb_len base - child_start in
          if pending_is_asn1 child then flush_asn1 ma child rest child_start len base
          else flush_prefix child rest len base)"

definition CBB_flush :: "malloc_fn \<Rightarrow> nat \<Rightarrow> (cbb, unit) op" where
  "CBB_flush ma d cbb =
     (case cbb_base cbb of
        None \<Rightarrow> (None, cbb)
      | Some base \<Rightarrow>
          if length (cbb_children cbb) < d then (None, cbb)
          else
            let (ok, rest, base) = cbb_flush_chain ma (drop d (cbb_children cbb)) base in
            (if ok then Some () else None,
             \<lparr>cbb_base = Some base, cbb_children = take d (cbb_children cbb) @ rest\<rparr>))"

text \<open>An operation on the shared base, through the pointer of the CBB at some depth.\<close>

definition on_base :: "(cbb_buffer, 'a) op \<Rightarrow> (cbb, 'a) op" where
  "on_base f cbb =
     (case cbb_base cbb of
        None \<Rightarrow> (None, cbb)
      | Some base \<Rightarrow>
          (case f base of (r, base') \<Rightarrow> (r, cbb\<lparr>cbb_base := Some base'\<rparr>)))"

section \<open>Finishing and inspecting\<close>

text \<open>
  \<open>CBB_finish\<close>: the two flags say whether \<open>out_data\<close> and \<open>out_len\<close> are non-NULL; the results
  are the buffer and the length stored through them.
\<close>

definition CBB_finish ::
  "malloc_fn \<Rightarrow> bool \<Rightarrow> bool \<Rightarrow> nat \<Rightarrow> (cbb, u8 list option \<times> nat option) op"
where
  "CBB_finish ma out_data out_len d =
     (if d \<noteq> 0 then op_fail
      else op_bind (CBB_flush ma d) (\<lambda>_ cbb.
        case cbb_base cbb of
          None \<Rightarrow> (None, cbb)
        | Some base \<Rightarrow>
            if can_resize base \<and> (\<not> out_data \<or> \<not> out_len) then (None, cbb)
            else (Some (if out_data then Some (cb_buf base) else None,
                        if out_len then Some (cb_len base) else None),
                  CBB_cleanup d cbb)))"

text \<open>The fields \<open>offset\<close> and \<open>pending_len_len\<close> of the CBB at depth \<open>d\<close>: both 0 at the top.\<close>

definition cbb_prefix_end :: "nat \<Rightarrow> cbb \<Rightarrow> nat" where
  "cbb_prefix_end d cbb =
     (if d = 0 then 0
      else cbb_offset (cbb_children cbb ! (d - 1)) + pending_len_len (cbb_children cbb ! (d - 1)))"

definition CBB_data :: "nat \<Rightarrow> cbb \<Rightarrow> u8 list" where
  "CBB_data d cbb =
     (case cbb_base cbb of None \<Rightarrow> [] | Some base \<Rightarrow> drop (cbb_prefix_end d cbb) (cb_buf base))"

definition CBB_len :: "nat \<Rightarrow> cbb \<Rightarrow> nat" where
  "CBB_len d cbb =
     (case cbb_base cbb of None \<Rightarrow> 0 | Some base \<Rightarrow> cb_len base - cbb_prefix_end d cbb)"

section \<open>Adding children\<close>

definition cbb_open_child :: "nat \<Rightarrow> cbb_child \<Rightarrow> cbb \<Rightarrow> cbb" where
  "cbb_open_child d child cbb = cbb\<lparr>cbb_children := take d (cbb_children cbb) @ [child]\<rparr>"

definition cbb_add_length_prefixed :: "malloc_fn \<Rightarrow> nat \<Rightarrow> nat \<Rightarrow> (cbb, unit) op" where
  "cbb_add_length_prefixed ma len_len d =
     op_bind (CBB_flush ma d) (\<lambda>_.
     op_bind (on_base (cbb_buffer_add ma len_len)) (\<lambda>offset.
     op_bind (on_base (\<lambda>b. (Some (), buf_write offset (replicate len_len 0) b))) (\<lambda>_ cbb.
       (Some (), cbb_open_child d
          \<lparr>cbb_offset = offset, pending_len_len = len_len, pending_is_asn1 = False\<rparr> cbb))))"

definition CBB_add_u8_length_prefixed :: "malloc_fn \<Rightarrow> nat \<Rightarrow> (cbb, unit) op" where
  "CBB_add_u8_length_prefixed ma = cbb_add_length_prefixed ma 1"

definition CBB_add_u16_length_prefixed :: "malloc_fn \<Rightarrow> nat \<Rightarrow> (cbb, unit) op" where
  "CBB_add_u16_length_prefixed ma = cbb_add_length_prefixed ma 2"

definition CBB_add_u24_length_prefixed :: "malloc_fn \<Rightarrow> nat \<Rightarrow> (cbb, unit) op" where
  "CBB_add_u24_length_prefixed ma = cbb_add_length_prefixed ma 3"

definition cbb_add_u :: "malloc_fn \<Rightarrow> nat \<Rightarrow> nat \<Rightarrow> nat \<Rightarrow> (cbb, unit) op" where
  "cbb_add_u ma len_len v d =
     op_bind (CBB_flush ma d) (\<lambda>_. on_base (cbb_buffer_add_u ma v len_len))"

definition CBB_add_u8 :: "malloc_fn \<Rightarrow> u8 \<Rightarrow> nat \<Rightarrow> (cbb, unit) op" where
  "CBB_add_u8 ma value = cbb_add_u ma 1 (unat value)"

text \<open>\<open>add_base128_integer\<close>: the number of groups, then the groups from the top.\<close>

fun base128_groups :: "nat \<Rightarrow> nat" where
  "base128_groups copy = (if 0 < copy then Suc (base128_groups (copy div 128)) else 0)"

declare base128_groups.simps [simp del]

definition base128_group :: "u64 \<Rightarrow> nat \<Rightarrow> u8" where
  "base128_group v i =
     (let b = ucast (drop_bit (7 * i) v) AND 0x7f in if i \<noteq> 0 then b OR 0x80 else b)"

fun base128_emit :: "malloc_fn \<Rightarrow> u64 \<Rightarrow> nat \<Rightarrow> nat \<Rightarrow> (cbb, unit) op" where
  "base128_emit ma v 0 d = op_return ()"
| "base128_emit ma v (Suc i) d =
     op_bind (CBB_add_u8 ma (base128_group v i) d) (\<lambda>_. base128_emit ma v i d)"

definition add_base128_integer :: "malloc_fn \<Rightarrow> u64 \<Rightarrow> nat \<Rightarrow> (cbb, unit) op" where
  "add_base128_integer ma v d =
     (let len_len = base128_groups (unat v);
          len_len = (if len_len = 0 then 1 else len_len)
      in base128_emit ma v len_len d)"

definition CBB_add_asn1 :: "malloc_fn \<Rightarrow> u32 \<Rightarrow> nat \<Rightarrow> (cbb, unit) op" where
  "CBB_add_asn1 ma tag d =
     op_bind (CBB_flush ma d) (\<lambda>_.
       let tag_bits = ucast (drop_bit CBS_ASN1_TAG_SHIFT tag) AND (0xe0 :: u8);
           tag_number = tag AND CBS_ASN1_TAG_NUMBER_MASK in
       op_bind
         (if 0x1f \<le> tag_number
          then op_bind (CBB_add_u8 ma (tag_bits OR 0x1f) d)
                 (\<lambda>_. add_base128_integer ma (ucast tag_number) d)
          else CBB_add_u8 ma (tag_bits OR ucast tag_number) d) (\<lambda>_.
       op_bind (on_base (\<lambda>b. (Some (cb_len b), b))) (\<lambda>offset.
       op_bind (CBB_add_u8 ma 0 d) (\<lambda>_ cbb.
         (Some (), cbb_open_child d
            \<lparr>cbb_offset = offset, pending_len_len = 1, pending_is_asn1 = True\<rparr> cbb)))))"

section \<open>Adding data\<close>

definition CBB_add_bytes :: "malloc_fn \<Rightarrow> u8 list \<Rightarrow> nat \<Rightarrow> (cbb, unit) op" where
  "CBB_add_bytes ma data d =
     op_bind (CBB_flush ma d) (\<lambda>_.
     op_bind (on_base (cbb_buffer_add ma (length data))) (\<lambda>dest.
     on_base (\<lambda>b. (Some (), buf_write dest data b))))"

definition CBB_add_space :: "malloc_fn \<Rightarrow> nat \<Rightarrow> nat \<Rightarrow> (cbb, nat) op" where
  "CBB_add_space ma len d =
     op_bind (CBB_flush ma d) (\<lambda>_. on_base (cbb_buffer_add ma len))"

definition CBB_reserve :: "malloc_fn \<Rightarrow> nat \<Rightarrow> nat \<Rightarrow> (cbb, nat) op" where
  "CBB_reserve ma len d =
     op_bind (CBB_flush ma d) (\<lambda>_. on_base (cbb_buffer_reserve ma len))"

text \<open>\<open>CBB_did_write\<close> of a CBB whose \<open>base\<close> is NULL is outside its contract; the model fails.\<close>

definition CBB_did_write :: "nat \<Rightarrow> nat \<Rightarrow> (cbb, unit) op" where
  "CBB_did_write len d cbb =
     (case cbb_base cbb of
        None \<Rightarrow> (None, cbb)
      | Some base \<Rightarrow>
          let newlen = size_add (cb_len base) len in
          if length (cbb_children cbb) \<noteq> d \<or> newlen < cb_len base \<or> cb_cap base < newlen
          then (None, cbb)
          else (Some (), cbb\<lparr>cbb_base := Some (base\<lparr>cb_len := newlen\<rparr>)\<rparr>))"

definition CBB_add_u16 :: "malloc_fn \<Rightarrow> u16 \<Rightarrow> nat \<Rightarrow> (cbb, unit) op" where
  "CBB_add_u16 ma value = cbb_add_u ma 2 (unat value)"

definition CBB_add_u16le :: "malloc_fn \<Rightarrow> u16 \<Rightarrow> nat \<Rightarrow> (cbb, unit) op" where
  "CBB_add_u16le ma value = CBB_add_u16 ma (CRYPTO_bswap2 value)"

definition CBB_add_u24 :: "malloc_fn \<Rightarrow> u32 \<Rightarrow> nat \<Rightarrow> (cbb, unit) op" where
  "CBB_add_u24 ma value = cbb_add_u ma 3 (unat value)"

definition CBB_add_u32 :: "malloc_fn \<Rightarrow> u32 \<Rightarrow> nat \<Rightarrow> (cbb, unit) op" where
  "CBB_add_u32 ma value = cbb_add_u ma 4 (unat value)"

definition CBB_add_u32le :: "malloc_fn \<Rightarrow> u32 \<Rightarrow> nat \<Rightarrow> (cbb, unit) op" where
  "CBB_add_u32le ma value = CBB_add_u32 ma (CRYPTO_bswap4 value)"

definition CBB_add_u64 :: "malloc_fn \<Rightarrow> u64 \<Rightarrow> nat \<Rightarrow> (cbb, unit) op" where
  "CBB_add_u64 ma value = cbb_add_u ma 8 (unat value)"

definition CBB_add_u64le :: "malloc_fn \<Rightarrow> u64 \<Rightarrow> nat \<Rightarrow> (cbb, unit) op" where
  "CBB_add_u64le ma value = CBB_add_u64 ma (CRYPTO_bswap8 value)"

definition CBB_discard_child :: "nat \<Rightarrow> cbb \<Rightarrow> cbb" where
  "CBB_discard_child d cbb =
     (if length (cbb_children cbb) \<le> d then cbb
      else cbb\<lparr>cbb_base := map_option (\<lambda>b. b\<lparr>cb_len := cbb_offset (cbb_children cbb ! d)\<rparr>) (cbb_base cbb),
               cbb_children := take d (cbb_children cbb)\<rparr>)"

section \<open>Adding ASN.1 values\<close>

fun asn1_uint64_emit :: "malloc_fn \<Rightarrow> u8 list \<Rightarrow> bool \<Rightarrow> nat \<Rightarrow> (cbb, bool) op" where
  "asn1_uint64_emit ma [] started d = op_return started"
| "asn1_uint64_emit ma (b # bs) started d =
     (if \<not> started \<and> b = 0 then asn1_uint64_emit ma bs started d
      else op_bind (if \<not> started \<and> b AND 0x80 \<noteq> 0 then CBB_add_u8 ma 0 d else op_return ()) (\<lambda>_.
           op_bind (CBB_add_u8 ma b d) (\<lambda>_.
           asn1_uint64_emit ma bs True d)))"

definition CBB_add_asn1_uint64 :: "malloc_fn \<Rightarrow> u64 \<Rightarrow> nat \<Rightarrow> (cbb, unit) op" where
  "CBB_add_asn1_uint64 ma value d =
     op_bind (CBB_add_asn1 ma CBS_ASN1_INTEGER d) (\<lambda>_.
     op_bind (asn1_uint64_emit ma (map (\<lambda>i. ucast (drop_bit (8 * (7 - i)) value)) [0..<8])
                False (Suc d)) (\<lambda>started.
     op_bind (if \<not> started then CBB_add_u8 ma 0 (Suc d) else op_return ()) (\<lambda>_.
     CBB_flush ma d)))"

text \<open>
  \<open>CBB_add_asn1_int64\<close>, its argument the 64-bit word of the int64_t; \<open>bytes\<close> is the union's
  little-endian view.
\<close>

fun skip_sign_bytes :: "u8 list \<Rightarrow> nat \<Rightarrow> nat" where
  "skip_sign_bytes bytes 0 = 0"
| "skip_sign_bytes bytes (Suc start) =
     (if bytes ! Suc start = 0xff \<and> (bytes ! start) AND 0x80 \<noteq> 0
      then skip_sign_bytes bytes start else Suc start)"

fun emit_down :: "malloc_fn \<Rightarrow> u8 list \<Rightarrow> nat \<Rightarrow> nat \<Rightarrow> (cbb, unit) op" where
  "emit_down ma bytes 0 d = op_return ()"
| "emit_down ma bytes (Suc i) d =
     op_bind (CBB_add_u8 ma (bytes ! i) d) (\<lambda>_. emit_down ma bytes i d)"

definition CBB_add_asn1_int64 :: "malloc_fn \<Rightarrow> u64 \<Rightarrow> nat \<Rightarrow> (cbb, unit) op" where
  "CBB_add_asn1_int64 ma value d =
     (if 0 \<le> sint value then CBB_add_asn1_uint64 ma value d
      else
        let bytes = le_bytes 8 (unat value);
            start = skip_sign_bytes bytes 7 in
        op_bind (CBB_add_asn1 ma CBS_ASN1_INTEGER d) (\<lambda>_.
        op_bind (emit_down ma bytes (Suc start) (Suc d)) (\<lambda>_.
        CBB_flush ma d)))"

definition CBB_add_asn1_octet_string :: "malloc_fn \<Rightarrow> u8 list \<Rightarrow> nat \<Rightarrow> (cbb, unit) op" where
  "CBB_add_asn1_octet_string ma data d =
     op_bind (CBB_add_asn1 ma CBS_ASN1_OCTETSTRING d) (\<lambda>_.
     op_bind (CBB_add_bytes ma data (Suc d)) (\<lambda>_.
     CBB_flush ma d))"

definition CBB_add_asn1_bool :: "malloc_fn \<Rightarrow> int \<Rightarrow> nat \<Rightarrow> (cbb, unit) op" where
  "CBB_add_asn1_bool ma value d =
     op_bind (CBB_add_asn1 ma CBS_ASN1_BOOLEAN d) (\<lambda>_.
     op_bind (CBB_add_u8 ma (if value \<noteq> 0 then 0xff else 0) (Suc d)) (\<lambda>_.
     CBB_flush ma d))"

section \<open>SET OF\<close>

definition compare_set_of_element :: "cbs \<Rightarrow> cbs \<Rightarrow> int" where
  "compare_set_of_element a b =
     (let a_len = CBS_len a; b_len = CBS_len b;
          min_len = (if a_len < b_len then a_len else b_len);
          ret = OPENSSL_memcmp (CBS_data a) (CBS_data b) min_len in
      if ret \<noteq> 0 then ret
      else if a_len = b_len then 0
      else if a_len < b_len then -1 else 1)"

text \<open>The elements of a byte string, or \<open>None\<close> if it is not a sequence of elements.\<close>

function parse_set_elements :: "cbs \<Rightarrow> cbs list option" where
  "parse_set_elements cbs =
     (if CBS_len cbs = 0 then Some []
      else case CBS_get_any_asn1_element cbs of
             (None, _) \<Rightarrow> None
           | (Some (out, _, _), cbs') \<Rightarrow>
               (case parse_set_elements cbs' of None \<Rightarrow> None | Some es \<Rightarrow> Some (out # es)))"
  by pat_completeness auto
termination
  apply (relation "measure length")
   apply simp
  apply (auto simp: CBS_get_any_asn1_element_def)
  apply (drule sym)
  apply (auto simp: get_element_iff der_element_def der_header_def)
  done

declare parse_set_elements.simps [simp del]

definition sizeof_CBS :: nat where
  "sizeof_CBS = 16"

fun add_elements :: "malloc_fn \<Rightarrow> cbs list \<Rightarrow> nat \<Rightarrow> (cbb, unit) op" where
  "add_elements ma [] d = op_return ()"
| "add_elements ma (e # es) d = op_bind (CBB_add_bytes ma e d) (\<lambda>_. add_elements ma es d)"

definition CBB_flush_asn1_set_of :: "malloc_fn \<Rightarrow> nat \<Rightarrow> (cbb, unit) op" where
  "CBB_flush_asn1_set_of ma d =
     op_bind (CBB_flush ma d) (\<lambda>_ cbb.
       let contents = CBS_init (CBB_data d cbb) (CBB_len d cbb) in
       case parse_set_elements contents of
         None \<Rightarrow> (None, cbb)
       | Some children \<Rightarrow>
           let num_children = length children in
           if num_children < 2 then (Some (), cbb)
           else if (size_limit - 1) div sizeof_CBS < num_children then (None, cbb)
           else if OPENSSL_memdup ma contents = None
             \<or> OPENSSL_malloc ma (num_children * sizeof_CBS) = None then (None, cbb)
           else
             op_bind (on_base (\<lambda>b. (Some (), b\<lparr>cb_len := cbb_prefix_end d cbb\<rparr>))) (\<lambda>_.
               add_elements ma (qsort compare_set_of_element children) d) cbb)"

end
