(* ===== verification/Asn1_Values.thy ===== *)
theory Asn1_Values imports Der begin

text \<open>
  The typed values of \<open>crypto/bytestring/cbs.c\<close>: what the readers of \<open>INTEGER\<close>, \<open>BOOLEAN\<close>,
  optional elements and bit strings accept, against the distinguished encoding of the value.
\<close>

section \<open>Integers\<close>

text \<open>
  The contents of a DER INTEGER: the shortest two's-complement form. \<open>be_sval\<close> is the signed
  value of a byte string; \<open>minimal\<close> is the pair of checks of \<open>cbs.c\<close> against a redundant first
  byte.
\<close>

lemma div_256_smaller:
  assumes "\<not> (-128 \<le> i \<and> i < (128 :: int))"
  shows "\<bar>i div 256\<bar> < \<bar>i\<bar>"
proof (cases "i < 0")
  case True
  then have "i div 256 < 0" by simp
  moreover have "i < i div 256" using True assms by linarith
  ultimately show ?thesis using True by linarith
next
  case False
  then have "0 \<le> i div 256" "i div 256 < i" using assms by linarith+
  with False show ?thesis by linarith
qed

function int_bytes :: "int \<Rightarrow> u8 list" where
  "int_bytes i =
     (if -128 \<le> i \<and> i < 128 then [byte (nat (i mod 256))]
      else int_bytes (i div 256) @ [byte (nat (i mod 256))])"
  by pat_completeness auto
termination
proof (relation "measure (\<lambda>i. nat \<bar>i\<bar>)")
  fix i :: int
  assume "\<not> (-128 \<le> i \<and> i < 128)"
  from div_256_smaller [OF this] show "(i div 256, i) \<in> measure (\<lambda>i. nat \<bar>i\<bar>)"
    by simp
qed simp

declare int_bytes.simps [simp del]

definition be_sval :: "u8 list \<Rightarrow> int" where
  "be_sval bs =
     int (be_val bs) - (if bs \<noteq> [] \<and> 128 \<le> unat (hd bs) then 256 ^ length bs else 0)"

definition minimal :: "u8 list \<Rightarrow> bool" where
  "minimal bs \<longleftrightarrow> bs \<noteq> [] \<and>
     (1 < length bs \<longrightarrow> \<not> (bs ! 0 = 0 \<and> unat (bs ! 1) < 128) \<and> \<not> (bs ! 0 = 0xff \<and> 128 \<le> unat (bs ! 1)))"

lemma unat_128: "unat (b :: u8) < 128 \<longleftrightarrow> uint b < 128"
  unfolding uint_nat by linarith

lemma uint_byte_less: "0 \<le> uint (b :: u8)" "uint b < 256"
  using unsigned_less [of b, where 'a = int] by simp_all

lemma be_sval_snoc: "bs \<noteq> [] \<Longrightarrow> be_sval (bs @ [b]) = 256 * be_sval bs + uint b"
  by (simp add: be_sval_def)

lemma be_sval_single: "be_sval [b] = (if uint b < 128 then uint b else uint b - 256)"
  using be_val_snoc [of "[]" b] by (simp add: be_sval_def not_less [symmetric] unat_128)

lemma int_bytes_short: "-128 \<le> i \<Longrightarrow> i < 128 \<Longrightarrow> int_bytes i = [byte (nat (i mod 256))]"
  by (subst int_bytes.simps) simp

lemma int_bytes_long:
  "\<not> (-128 \<le> i \<and> i < 128) \<Longrightarrow> int_bytes i = int_bytes (i div 256) @ [byte (nat (i mod 256))]"
  by (rule trans [OF int_bytes.simps if_not_P])

lemma int_bytes_not_Nil [simp]: "int_bytes i \<noteq> []"
  by (cases "-128 \<le> i \<and> i < 128") (simp_all add: int_bytes_short int_bytes_long)

lemma byte_values: "(a :: u8) = 0 \<longleftrightarrow> uint a = 0" "a = 0xff \<longleftrightarrow> uint a = 255"
proof -
  have ff: "unat (0xff :: u8) = 255" by simp
  show "a = 0xff \<longleftrightarrow> uint a = 255" unfolding word_unat_eq_iff uint_nat ff by linarith
  have z: "unat (0 :: u8) = 0" by simp
  show "a = 0 \<longleftrightarrow> uint a = 0" unfolding word_unat_eq_iff uint_nat z by linarith
qed

lemma int_bytes_single: "-128 \<le> be_sval [b] \<and> be_sval [b] < 128 \<and> int_bytes (be_sval [b]) = [b]"
proof -
  have r: "-128 \<le> s \<and> s < 128 \<and> s mod 256 = u"
    if "0 \<le> u" "u < 256" and s: "s = (if u < 128 then u else u - 256)" for u s :: int
  proof -
    have "(u - 256) mod 256 = u mod 256" "u mod 256 = u" using that by simp_all
    then show ?thesis using that by (cases "u < 128") simp_all
  qed
  have "-128 \<le> be_sval [b] \<and> be_sval [b] < 128 \<and> be_sval [b] mod 256 = uint b"
    by (rule r [OF uint_byte_less be_sval_single])
  then show ?thesis by (simp add: int_bytes_short)
qed

lemma be_sval_int_bytes [simp]: "be_sval (int_bytes i) = i"
proof (induction i rule: int_bytes.induct)
  case (1 i)
  let ?b = "byte (nat (i mod 256))"
  have b: "uint ?b = i mod 256" unfolding uint_nat unat_byte by simp
  show ?case
  proof (cases "-128 \<le> i \<and> i < 128")
    case True
    have short: "(if i mod 256 < 128 then i mod 256 else i mod 256 - 256) = i"
    proof (cases "0 \<le> i")
      case False
      then have "(i + 256) mod 256 = i + 256" using True by (intro mod_pos_pos_trivial) linarith+
      with False True show ?thesis by simp
    qed (use True in simp)
    have "be_sval [?b] = i"
      using short unfolding be_sval_single b .
    with True show ?thesis by (simp add: int_bytes_short)
  next
    case False
    then have "be_sval (int_bytes (i div 256)) = i div 256" by (rule "1.IH")
    with False b show ?thesis by (simp add: int_bytes_long be_sval_snoc)
  qed
qed

lemma int_bytes_snoc:
  assumes "\<not> (-128 \<le> 256 * i + uint b \<and> 256 * i + uint b < 128)"
  shows "int_bytes (256 * i + uint b) = int_bytes i @ [b]"
proof -
  have digit: "(256 * i + u) div 256 = i \<and> (256 * i + u) mod 256 = u" if "0 \<le> u" "u < 256" for u
    using that by simp
  show ?thesis
    using digit [OF uint_byte_less(1) uint_byte_less(2), of b] assms
    by (subst int_bytes.simps) simp
qed

lemma byte_sval_cases:
  assumes "0 \<le> u" "u < (256 :: int)"
  shows "(if u < 128 then u else u - 256) = 0 \<longleftrightarrow> u = 0"
    and "(if u < 128 then u else u - 256) = -1 \<longleftrightarrow> u = 255"
  using assms by auto

lemma minimal_iff: "minimal bs \<longleftrightarrow> bs = int_bytes (be_sval bs)"
proof (induction bs rule: rev_induct)
  case Nil
  show ?case using int_bytes_not_Nil [of "be_sval []"] by (metis minimal_def)
next
  case (snoc b bs)
  show ?case
  proof (cases "bs = []")
    case True
    then show ?thesis using int_bytes_single [of b] by (simp add: minimal_def)
  next
    case False
    let ?i = "be_sval bs"
    have val: "be_sval (bs @ [b]) = 256 * ?i + uint b" by (rule be_sval_snoc [OF False])
    define short where "short \<longleftrightarrow> -128 \<le> 256 * ?i + uint b \<and> 256 * ?i + uint b < 128"
    have step: "\<not> short \<Longrightarrow> int_bytes (256 * ?i + uint b) = int_bytes ?i @ [b]"
      unfolding short_def by (rule int_bytes_snoc)
    have one: "short \<Longrightarrow> length (int_bytes (256 * ?i + uint b)) = 1"
      by (simp add: short_def int_bytes_short)
    have eq: "bs @ [b] = int_bytes (be_sval (bs @ [b])) \<longleftrightarrow> \<not> short \<and> bs = int_bytes ?i"
      unfolding val using step one False by (cases short) (auto dest: arg_cong [where f = length])
    have shorts: "short \<longleftrightarrow> ?i = 0 \<and> uint b < 128 \<or> ?i = -1 \<and> 128 \<le> uint b"
      unfolding short_def using uint_byte_less [of b] by linarith
    show ?thesis
    proof (cases "length bs = 1")
      case True
      then obtain a where a: "bs = [a]" by (auto simp: length_Suc_conv)
      have "?i = 0 \<longleftrightarrow> a = 0" "?i = -1 \<longleftrightarrow> a = 0xff"
        unfolding a be_sval_single byte_values
        by (rule byte_sval_cases [OF uint_byte_less])+
      then show ?thesis
        using eq shorts int_bytes_single [of a] unat_128 [of b]
        by (auto simp: a minimal_def not_less)
    next
      case long: False
      with False have "1 < length bs" by (cases bs) auto
      then have "minimal (bs @ [b]) \<longleftrightarrow> minimal bs"
        by (auto simp: minimal_def nth_append)
      moreover have "\<not> short" if "bs = int_bytes ?i"
      proof
        assume short
        then have "length (int_bytes ?i) = 1" using shorts by (auto simp: int_bytes_short)
        with long that show False by simp
      qed
      ultimately show ?thesis using eq snoc.IH by blast
    qed
  qed
qed

lemma length_int_bytes:
  "-128 * 256 ^ k \<le> i \<Longrightarrow> i < 128 * 256 ^ k \<Longrightarrow> length (int_bytes i) \<le> Suc k"
proof (induction k arbitrary: i)
  case 0
  then show ?case by (simp add: int_bytes_short)
next
  case (Suc k)
  show ?case
  proof (cases "-128 \<le> i \<and> i < 128")
    case True
    then show ?thesis by (simp add: int_bytes_short)
  next
    case False
    have "-128 * 256 ^ k \<le> i div 256" "i div 256 < 128 * 256 ^ k"
      using Suc.prems by simp_all
    from Suc.IH [OF this] show ?thesis by (simp add: int_bytes_long [OF False])
  qed
qed

lemma uint64_loop:
  "asn1_uint64_loop data out = (if unat out * 256 ^ length data + be_val data < 2 ^ 64
     then Some (be_loop data out) else None)"
proof (induction data arbitrary: out)
  case Nil
  have "unat out < 2 ^ 64" using unsigned_less [of out] by simp
  then show ?case by simp
next
  case (Cons b data)
  let ?out' = "push_bit 8 out OR ucast b :: u64"
  have w: "unat (ucast b :: u64) = unat b" by (rule unat_ucast_up) simp
  have split: "unat out * 256 ^ length (b # data) + be_val (b # data)
      = (unat out * 256 + unat b) * 256 ^ length data + be_val data"
    by (simp add: be_val_Cons algebra_simps)
  have top: "drop_bit 56 out = 0 \<longleftrightarrow> unat out < 2 ^ 56"
    by (simp add: word_unat_eq_iff unat_drop_bit div_eq_0_iff)
  show ?case
  proof (cases "unat out < 2 ^ 56")
    case True
    have "unat ?out' = unat out * 2 ^ 8 + unat (ucast b :: u64)"
      using byte_digit_less [OF True, of b] w
      by (intro unat_shift_or) (simp_all add: mult.commute)
    then have "unat ?out' = unat out * 256 + unat b" using w by simp
    then show ?thesis using Cons.IH [of ?out'] True top by (simp only: split) simp
  next
    case False
    have "(2 :: nat) ^ 64 \<le> unat out * 256 + unat b" using False by simp
    also have "\<dots> \<le> (unat out * 256 + unat b) * 256 ^ length data" by simp
    finally show ?thesis using False top by (simp only: split) simp
  qed
qed

lemma bind_CBS_get_asn1_iff:
  "op_bind (CBS_get_asn1 tag) k s = (Some r, s') \<longleftrightarrow>
   (\<exists>c s1. length c < der_max \<and> s = der_element tag c @ s1 \<and> k c s1 = (Some r, s'))"
  by (auto simp: op_bind_eq_Some CBS_get_asn1_iff)

lemma be_sval_nonneg: "bs \<noteq> [] \<Longrightarrow> 0 \<le> be_sval bs \<longleftrightarrow> unat (hd bs) < 128"
proof -
  have "int (be_val bs) < 256 ^ length bs"
    using be_val_less [of bs] by (metis of_nat_less_iff of_nat_numeral of_nat_power)
  then show "bs \<noteq> [] \<Longrightarrow> 0 \<le> be_sval bs \<longleftrightarrow> unat (hd bs) < 128"
    by (auto simp: be_sval_def not_less)
qed

lemma uint64_contents:
  "minimal data \<and> unat (hd data) < 128 \<and> asn1_uint64_loop data 0 = Some v
     \<longleftrightarrow> data = int_bytes (int (unat v))" (is "?parse \<longleftrightarrow> ?bytes")
proof
  assume ?parse
  then have "data = int_bytes (be_sval data)" and "unat (hd data) < 128"
    and fits: "be_val data < 2 ^ 64" and v: "v = be_loop data 0"
    by (auto simp: minimal_iff [symmetric] uint64_loop split: if_splits)
  moreover have "unat v = be_val data" using unat_be_loop [of 0 data] fits v by simp
  ultimately show ?bytes by (simp add: be_sval_def)
next
  assume b: ?bytes
  then have s: "be_sval data = int (unat v)" and ne: "data \<noteq> []" by simp_all
  have "minimal data" unfolding minimal_iff s using b .
  moreover have h: "unat (hd data) < 128" using be_sval_nonneg [OF ne] s by simp
  moreover have v: "be_val data = unat v"
  proof -
    have "be_sval data = int (be_val data)" using h by (simp add: be_sval_def)
    with s show ?thesis by (simp only: of_nat_eq_iff)
  qed
  moreover have fits: "be_val data < 2 ^ 64" using v unsigned_less [of v] by simp
  moreover have "be_loop data 0 = v"
    using unat_be_loop [of 0 data] fits v by (simp add: word_unat_eq_iff)
  ultimately show ?parse by (simp add: uint64_loop)
qed

text \<open>The checks of the two integer parsers are \<open>minimal\<close>, and a sign test for the unsigned one.\<close>

lemma uint64_checks:
  "(length data \<noteq> 0 \<and> (data ! 0) AND 0x80 = 0 \<and>
     \<not> (data ! 0 = 0 \<and> 1 < length data \<and> (data ! 1) AND 0x80 = 0))
   \<longleftrightarrow> minimal data \<and> unat (hd data) < 128"
proof -
  have ff: "unat a < 128 \<Longrightarrow> a \<noteq> 0xff" for a :: u8 by auto
  show ?thesis
    by (cases data) (auto simp: minimal_def dest: ff)
qed

lemma CBS_get_asn1_uint64_iff:
  "CBS_get_asn1_uint64 s = (Some v, s') \<longleftrightarrow>
   s = der_element CBS_ASN1_INTEGER (int_bytes (int (unat v))) @ s'"
proof -
  have int: "(if length data = 0 then op_fail
       else if (data ! 0) AND 0x80 \<noteq> 0 then op_fail
       else if data ! 0 = 0 \<and> 1 < length data \<and> (data ! 1) AND 0x80 = 0 then op_fail
       else case asn1_uint64_loop data 0 of None \<Rightarrow> op_fail | Some v \<Rightarrow> op_return v) s1 = (Some v, s')
     \<longleftrightarrow> s1 = s' \<and> data = int_bytes (int (unat v))" for data s1
    using uint64_contents [of data v] uint64_checks [of data]
    by (auto simp: op_fail_def op_return_def split: option.splits if_splits)
  have "uint v < 2 ^ 64" using unsigned_less [of v, where 'a = int] by simp
  moreover have "- 128 * 256 ^ 8 \<le> uint v"
    by (rule order_trans [of _ 0]) simp_all
  ultimately have "length (int_bytes (uint v)) \<le> 9"
    using length_int_bytes [of 8 "uint v"] by simp
  then have "length (int_bytes (uint v)) < der_max" by simp
  then show ?thesis
    unfolding CBS_get_asn1_uint64_def bind_CBS_get_asn1_iff int by auto
qed

lemma le_val_rev: "le_val (rev bs) = be_val bs"
  by (induction bs) (simp_all add: le_val_append be_val_Cons)

lemma le_val_fill: "int (le_val (replicate n 0xff)) = 256 ^ n - 1" "le_val (replicate n 0) = 0"
  by (induction n) simp_all

lemma signed_digit_bounds:
  assumes u: "0 \<le> u" "u < 256" and t: "0 \<le> t" "t < (P :: int)"
  shows "- (128 * P) \<le> u * P + t - (if 128 \<le> u then 256 * P else 0)
    \<and> u * P + t - (if 128 \<le> u then 256 * P else 0) < 128 * P"
proof -
  have P: "0 \<le> P" using t by linarith
  show ?thesis
  proof (cases "128 \<le> u")
    case True
    have "128 * P \<le> u * P" by (rule mult_right_mono [OF True P])
    moreover have "u * P \<le> 255 * P" by (rule mult_right_mono [OF _ P]) (use u in linarith)
    ultimately show ?thesis unfolding if_P [OF True] using t by linarith
  next
    case False
    have "0 \<le> u * P" by (rule mult_nonneg_nonneg [OF u(1) P])
    moreover have "u * P \<le> 127 * P" by (rule mult_right_mono [OF _ P]) (use False in linarith)
    ultimately show ?thesis unfolding if_not_P [OF False] using t by linarith
  qed
qed

lemma be_sval_bounds:
  assumes "bs = b # t"
  shows "- (128 * 256 ^ length t) \<le> be_sval bs" "be_sval bs < 128 * 256 ^ length t"
proof -
  define P :: int where "P = 256 ^ length t"
  have t: "0 \<le> int (be_val t)" "int (be_val t) < P"
    using be_val_less [of t] unfolding P_def by (simp, metis of_nat_less_iff of_nat_numeral of_nat_power)
  have val: "be_sval bs = uint b * P + int (be_val t) - (if 128 \<le> uint b then 256 * P else 0)"
    using unat_128 [of b] by (auto simp: assms be_sval_def be_val_Cons P_def)
  show "- (128 * 256 ^ length t) \<le> be_sval bs" "be_sval bs < 128 * 256 ^ length t"
    unfolding val P_def [symmetric] using signed_digit_bounds [OF uint_byte_less t, of b] by blast+
qed

lemma sint_word_of_int:
  "- (2 ^ 63) \<le> x \<Longrightarrow> x < 2 ^ 63 \<Longrightarrow> sint (word_of_int x :: u64) = x"
  by (simp add: int_word_sint)

lemma word_of_nat_wrap:
  assumes "int n = (if neg then 2 ^ 64 else 0) + x"
  shows "(word_of_nat n :: u64) = word_of_int x"
proof -
  have "(word_of_int (2 ^ 64) :: u64) = 0" by simp
  moreover have "(word_of_nat n :: u64) = word_of_int ((if neg then 2 ^ 64 else 0) + x)"
    by (simp flip: assms)
  ultimately show ?thesis by (cases neg) (simp_all del: word_of_int_numeral)
qed

lemma int64_word:
  assumes "bs \<noteq> []" and "length bs \<le> 8"
  shows "sint (word_of_nat (le_val (rev bs @ replicate (8 - length bs)
      (if (bs ! 0) AND 0x80 \<noteq> 0 then 0xff else 0))) :: u64) = be_sval bs"
proof -
  let ?fill = "replicate (8 - length bs) (if (bs ! 0) AND 0x80 \<noteq> 0 then 0xff else (0 :: u8))"
  have less: "int (be_val bs) < 256 ^ length bs"
    using be_val_less [of bs] by (metis of_nat_less_iff of_nat_numeral of_nat_power)
  have hd: "bs ! 0 = hd bs" using assms(1) by (simp add: hd_conv_nth)
  have p: "(256 :: int) ^ length bs * 256 ^ (8 - length bs) = 2 ^ 64"
    using assms(2) by (simp flip: power_add)
  have "int (le_val (rev bs @ ?fill)) = (if 128 \<le> unat (hd bs) then 2 ^ 64 else 0) + be_sval bs"
  proof (cases "unat (hd bs) < 128")
    case True
    then show ?thesis using assms(1)
      by (simp add: hd le_val_append le_val_rev le_val_fill(2) be_sval_def)
  next
    case False
    have "int (le_val (rev bs @ replicate (8 - length bs) 0xff))
        = int (be_val bs) + 256 ^ length bs * (256 ^ (8 - length bs) - 1)"
      unfolding le_val_append le_val_rev of_nat_add of_nat_mult le_val_fill(1) by simp
    also have "\<dots> = int (be_val bs) + 2 ^ 64 - 256 ^ length bs"
      unfolding right_diff_distrib p by simp
    finally show ?thesis using False assms(1) by (simp add: hd be_sval_def)
  qed
  from word_of_nat_wrap [OF this]
  have "(word_of_nat (le_val (rev bs @ ?fill)) :: u64) = word_of_int (be_sval bs)" .
  moreover have "- (2 ^ 63) \<le> be_sval bs" "be_sval bs < 2 ^ 63"
  proof -
    obtain b t where bs: "bs = b # t" using assms(1) by (cases bs) auto
    have "(256 :: int) ^ length t \<le> 256 ^ 7"
      using assms(2) bs by (intro power_increasing) simp_all
    then show "- (2 ^ 63) \<le> be_sval bs" "be_sval bs < 2 ^ 63"
      using be_sval_bounds [OF bs] by simp_all
  qed
  ultimately show ?thesis by (simp add: sint_word_of_int)
qed

lemma int64_checks:
  "(let len = length data in
     \<not> (len = 0 \<or> 8 < len) \<and> \<not> (1 < len \<and> data ! 0 = 0 \<and> (data ! 1) AND 0x80 = 0)
     \<and> \<not> (1 < len \<and> data ! 0 = 0xff \<and> (data ! 1) AND 0x80 \<noteq> 0))
   \<longleftrightarrow> minimal data \<and> length data \<le> 8"
  by (auto simp: minimal_def Let_def)

lemma length_int64_bytes: "length (int_bytes (sint (v :: u64))) \<le> 8"
  using length_int_bytes [of 7 "sint v"] sint_greater_eq [of v] sint_less [of v] by simp

lemma length_uint64_bytes: "length (int_bytes (int (unat (v :: u64)))) \<le> 9"
proof -
  have "- 128 * 256 ^ 8 \<le> uint v" by (rule order_trans [of _ 0]) simp_all
  moreover have "uint v < 2 ^ 64" using unsigned_less [of v, where 'a = int] by simp
  ultimately show ?thesis using length_int_bytes [of 8 "uint v"] by simp
qed

lemma CBS_get_asn1_int64_iff:
  "CBS_get_asn1_int64 s = (Some v, s') \<longleftrightarrow>
   s = der_element CBS_ASN1_INTEGER (int_bytes (sint v)) @ s'"
proof -
  note short = length_int64_bytes [of v]
  define W :: "u8 list \<Rightarrow> u64" where "W data = word_of_nat (le_val (rev data @
    replicate (8 - length data) (if (data ! 0) AND 0x80 \<noteq> 0 then 0xff else 0)))" for data
  have W: "minimal data \<Longrightarrow> length data \<le> 8 \<Longrightarrow> W data = v \<longleftrightarrow> data = int_bytes (sint v)" for data
  proof -
    assume m: "minimal data" "length data \<le> 8"
    then have "sint (W data) = be_sval data"
      unfolding W_def by (intro int64_word) (simp_all add: minimal_def)
    moreover have "W data = v \<longleftrightarrow> sint (W data) = sint v" by (auto intro: signed_word_eqI)
    ultimately show "W data = v \<longleftrightarrow> data = int_bytes (sint v)"
      using m(1) be_sval_int_bytes [of "sint v"] by (auto simp: minimal_iff)
  qed
  have def': "CBS_get_asn1_int64 = op_bind (CBS_get_asn1 CBS_ASN1_INTEGER) (\<lambda>data.
      if minimal data \<and> length data \<le> 8 then op_return (W data) else op_fail)"
    unfolding CBS_get_asn1_int64_def int64_checks [symmetric] W_def
    by (auto simp: Let_def intro!: arg_cong [where f = "op_bind _"])
  show ?thesis
    unfolding def' using W short minimal_iff [of "int_bytes (sint v)"]
    by (auto simp: bind_CBS_get_asn1_iff op_return_def op_fail_def split: if_splits)
qed

section \<open>Booleans\<close>

definition bool_byte :: "bool \<Rightarrow> u8" where
  "bool_byte b = (if b then 0xff else 0)"

lemma CBS_get_asn1_bool_iff:
  "CBS_get_asn1_bool s = (Some v, s') \<longleftrightarrow>
   s = der_element CBS_ASN1_BOOLEAN [bool_byte v] @ s'"
proof -
  have "length c = 1 \<longleftrightarrow> (\<exists>b. c = [b])" for c :: cbs by (auto simp: length_Suc_conv)
  then show ?thesis
    by (auto simp: CBS_get_asn1_bool_def bind_CBS_get_asn1_iff op_return_def op_fail_def Let_def
        bool_byte_def split: if_splits)
qed

section \<open>Properties\<close>

text \<open>
  an INTEGER is read as an \<open>int64_t\<close> if and only if the input starts with the shortest
  two's-complement encoding of that value; so every 64-bit value has exactly one accepted
  encoding, redundant sign bytes are refused, and the sign extension of the code is right.
\<close>

theorem asn1_int64_exact:
  "CBS_get_asn1_int64 s = (Some v, s') \<longleftrightarrow>
   s = der_element CBS_ASN1_INTEGER (int_bytes (sint v)) @ s'"
  by (rule CBS_get_asn1_int64_iff)

text \<open>
  the unsigned reader accepts exactly the shortest two's-complement encodings of the numbers
  below \<open>2 ^ 64\<close>: no negative numbers, no redundant zero bytes, no overflow.
\<close>

theorem asn1_uint64_exact:
  "CBS_get_asn1_uint64 s = (Some v, s') \<longleftrightarrow>
   s = der_element CBS_ASN1_INTEGER (int_bytes (int (unat v))) @ s'"
  by (rule CBS_get_asn1_uint64_iff)

end
