(* ===== verification/Builder.thy ===== *)
theory Builder imports Cbb Asn1_Values begin

text \<open>
  What the CBB builder promises, and the proof that \<open>Cbb\<close> keeps it.

  The abstract builder is the bytes of the top-level CBB and the stack of open children with
  the bytes added to each so far. Touching a CBB first closes the children below it: \<open>sealed\<close> is
  the encoding of an open chain, \<open>None\<close> if a length does not fit its prefix. \<open>cbb_rep\<close> relates
  the chain of CBBs and its buffer to the abstract builder: the open prefixes are zero bytes in
  the buffer, at the offsets the children record.
\<close>

section \<open>The abstract builder\<close>

record layer =
  l_prefix :: nat
  l_asn1 :: bool
  l_bytes :: "u8 list"

type_synonym builder = "u8 list \<times> layer list"

definition seal :: "layer \<Rightarrow> u8 list \<Rightarrow> u8 list option" where
  "seal l c =
     (if l_asn1 l
      then (if 0xfffffffe < length c then None else Some (der_len (length c) @ c))
      else if length c < 256 ^ l_prefix l then Some (be_bytes (l_prefix l) (length c) @ c)
      else None)"

fun sealed :: "layer list \<Rightarrow> u8 list option" where
  "sealed [] = Some []"
| "sealed (l # ls) =
     (case sealed ls of None \<Rightarrow> None | Some t \<Rightarrow> seal l (l_bytes l @ t))"

fun add_top :: "u8 list \<Rightarrow> builder \<Rightarrow> builder" where
  "add_top xs (r, ls) =
     (if ls = [] then (r @ xs, [])
      else (r, butlast ls @ [(last ls)\<lparr>l_bytes := l_bytes (last ls) @ xs\<rparr>]))"

definition b_close :: "nat \<Rightarrow> builder \<Rightarrow> builder option" where
  "b_close d B =
     (if length (snd B) < d then None
      else case sealed (drop d (snd B)) of
             None \<Rightarrow> None
           | Some t \<Rightarrow> Some (add_top t (fst B, take d (snd B))))"

definition b_add :: "nat \<Rightarrow> u8 list \<Rightarrow> builder \<Rightarrow> builder option" where
  "b_add d xs B = map_option (add_top xs) (b_close d B)"

definition b_open :: "nat \<Rightarrow> nat \<Rightarrow> bool \<Rightarrow> builder \<Rightarrow> builder option" where
  "b_open d k asn1 B =
     map_option (\<lambda>(r, ls). (r, ls @ [\<lparr>l_prefix = k, l_asn1 = asn1, l_bytes = []\<rparr>])) (b_close d B)"

section \<open>Representation\<close>

definition raw :: "layer list \<Rightarrow> u8 list" where
  "raw ls = concat (map (\<lambda>l. replicate (l_prefix l) 0 @ l_bytes l) ls)"

fun children_at :: "nat \<Rightarrow> layer list \<Rightarrow> cbb_child list" where
  "children_at p [] = []"
| "children_at p (l # ls) =
     \<lparr>cbb_offset = p, pending_len_len = l_prefix l, pending_is_asn1 = l_asn1 l\<rparr>
     # children_at (p + l_prefix l + length (l_bytes l)) ls"

definition layer_ok :: "layer \<Rightarrow> bool" where
  "layer_ok l \<longleftrightarrow> 0 < l_prefix l \<and> l_prefix l \<le> 8 \<and> (l_asn1 l \<longrightarrow> l_prefix l = 1)"

definition buffer_ok :: "cbb_buffer \<Rightarrow> bool" where
  "buffer_ok b \<longleftrightarrow> \<not> cb_error b \<and> length (cb_buf b) = cb_cap b \<and> cb_len b \<le> cb_cap b
     \<and> cb_cap b + 8 < 2 ^ 63"

definition buffer_data :: "cbb_buffer \<Rightarrow> u8 list" where
  "buffer_data b = take (cb_len b) (cb_buf b)"

definition buffer_rep :: "cbb_buffer \<Rightarrow> u8 list \<Rightarrow> bool" where
  "buffer_rep b xs \<longleftrightarrow> buffer_ok b \<and> buffer_data b = xs"

definition cbb_rep :: "cbb \<Rightarrow> builder \<Rightarrow> bool" where
  "cbb_rep cbb B \<longleftrightarrow>
     (\<exists>b. cbb_base cbb = Some b \<and> buffer_rep b (fst B @ raw (snd B))
        \<and> cbb_children cbb = children_at (length (fst B)) (snd B) \<and> (\<forall>l \<in> set (snd B). layer_ok l))"

section \<open>The buffer operations\<close>

lemma buffer_rep_len: "buffer_rep b xs \<Longrightarrow> cb_len b = length xs"
  by (auto simp: buffer_rep_def buffer_ok_def buffer_data_def)

lemma buffer_repE:
  assumes "buffer_rep b xs"
  obtains junk where "cb_buf b = xs @ junk" "cb_len b = length xs" "cb_cap b = length xs + length junk"
    "cb_cap b + 8 < 2 ^ 63" "\<not> cb_error b"
proof
  show "cb_buf b = xs @ drop (cb_len b) (cb_buf b)" "cb_len b = length xs"
    "cb_cap b = length xs + length (drop (cb_len b) (cb_buf b))" "cb_cap b + 8 < 2 ^ 63" "\<not> cb_error b"
    using assms by (auto simp: buffer_rep_def buffer_ok_def buffer_data_def)
qed

lemma buffer_repI:
  assumes "cb_buf b = xs @ junk" "cb_len b = length xs" "cb_cap b = length xs + length junk"
    "cb_cap b + 8 < 2 ^ 63" "\<not> cb_error b"
  shows "buffer_rep b xs"
  using assms by (simp add: buffer_rep_def buffer_ok_def buffer_data_def)

text \<open>The requests the code can make without overflowing the allocator's size word.\<close>

lemma reserve_rep:
  assumes ma: "malloc_spec ma" and b: "buffer_rep b xs" and n: "length xs + n + 8 < size_limit"
    and run: "cbb_buffer_reserve ma n b = (Some p, b')"
  shows "p = length xs \<and> buffer_rep b' xs \<and> length xs + n \<le> cb_cap b'"
  using b
proof (rule buffer_repE)
  fix junk
  assume buf: "cb_buf b = xs @ junk" "cb_len b = length xs" "cb_cap b = length xs + length junk"
    "cb_cap b + 8 < 2 ^ 63" "\<not> cb_error b"
  have sum: "size_add (cb_len b) n = length xs + n" using n buf(2) by simp
  show ?thesis
  proof (cases "cb_cap b < length xs + n")
    case False
    with run sum buf b show ?thesis
      by (auto simp: cbb_buffer_reserve_def Let_def)
  next
    case True
    define newcap where "newcap = (if (cb_cap b * 2) mod size_limit < cb_cap b
        \<or> (cb_cap b * 2) mod size_limit < length xs + n
      then length xs + n else (cb_cap b * 2) mod size_limit)"
    have newcap: "length xs + n \<le> newcap" "newcap + 8 < size_limit"
      using buf(4) n by (auto simp: newcap_def)
    from run True sum obtain r where
      r: "OPENSSL_realloc ma (Some \<lparr>stored_size = cb_cap b, block_bytes = cb_buf b\<rparr>) newcap = Some r"
      and p: "p = cb_len b" and b': "b' = b\<lparr>cb_buf := block_bytes r, cb_cap := newcap\<rparr>"
      by (auto simp: cbb_buffer_reserve_def Let_def newcap_def split: if_splits option.splits)
    have r': "length (block_bytes r) = newcap" "take (cb_cap b) (block_bytes r) = xs @ junk"
      "newcap + 8 < 2 ^ 63"
      using OPENSSL_realloc_spec [OF ma newcap(2) _ _ r] buf newcap(1) True by simp_all
    have "block_bytes r = xs @ junk @ drop (cb_cap b) (block_bytes r)"
      using append_take_drop_id [of "cb_cap b" "block_bytes r"] r'(2) by simp
    then have "buffer_rep b' xs"
      using r' buf b' newcap(1) True by (intro buffer_repI [where junk = "junk @ drop (cb_cap b) (block_bytes r)"]) simp_all
    then show ?thesis using p b' buf(2) newcap(1) by simp
  qed
qed

lemma add_rep:
  assumes "malloc_spec ma" and "buffer_rep b xs" and "length xs + n + 8 < size_limit"
    and "cbb_buffer_add ma n b = (Some p, b')"
  shows "p = length xs \<and> (\<exists>ys. length ys = n \<and> buffer_rep b' (xs @ ys))"
proof -
  from assms(4) obtain b1 where r: "cbb_buffer_reserve ma n b = (Some p, b1)"
    and b': "b' = b1\<lparr>cb_len := cb_len b1 + n\<rparr>"
    by (auto simp: cbb_buffer_add_def op_bind_eq_Some)
  note r' = reserve_rep [OF assms(1,2,3) r]
  then have "buffer_rep b1 xs" by blast
  then show ?thesis
  proof (rule buffer_repE)
    fix junk
    assume j: "cb_buf b1 = xs @ junk" "cb_len b1 = length xs" "cb_cap b1 = length xs + length junk"
      "cb_cap b1 + 8 < 2 ^ 63" "\<not> cb_error b1"
    then have "buffer_rep b' (xs @ take n junk)"
      using b' r' by (intro buffer_repI [where junk = "drop n junk"]) simp_all
    moreover have "length (take n junk) = n" using r' j by simp
    ultimately show ?thesis using r' by blast
  qed
qed

lemma store_be_eq:
  "pos + k \<le> length buf \<Longrightarrow>
   store_be k pos v buf = (take pos buf @ be_bytes k v @ drop (pos + k) buf, v div 256 ^ k)"
proof (induction k arbitrary: v buf)
  case (Suc k)
  then have "store_be (Suc k) pos v buf = (take pos buf @ be_bytes k (v div 256) @
      drop (pos + k) (buf[pos + k := byte v]), v div 256 div 256 ^ k)"
    by simp
  moreover have "drop (pos + k) (buf[pos + k := byte v]) = byte v # drop (pos + Suc k) buf"
    using Suc.prems by (simp add: drop_update_swap Cons_nth_drop_Suc [symmetric])
  ultimately show ?case by (simp add: div_mult2_eq)
qed simp

lemma store_be_rep:
  assumes "buffer_rep b (xs @ ys @ zs)" and "length ys = k"
  shows "store_be k (length xs) v (cb_buf b) = (buf, v') \<Longrightarrow>
    v' = v div 256 ^ k \<and> buffer_rep (b\<lparr>cb_buf := buf\<rparr>) (xs @ be_bytes k v @ zs)"
  using assms(1)
proof (rule buffer_repE)
  fix junk
  assume st: "store_be k (length xs) v (cb_buf b) = (buf, v')"
    and j: "cb_buf b = (xs @ ys @ zs) @ junk" "cb_len b = length (xs @ ys @ zs)"
      "cb_cap b = length (xs @ ys @ zs) + length junk" "cb_cap b + 8 < 2 ^ 63" "\<not> cb_error b"
  have "buf = (xs @ be_bytes k v @ zs) @ junk" "v' = v div 256 ^ k"
    using st j(1) assms(2) by (simp_all add: store_be_eq)
  then show ?thesis using j assms(2) by (auto intro!: buffer_repI [where junk = junk])
qed

lemma buf_write_rep:
  assumes "buffer_rep b (xs @ ys @ zs)" and "length ys' = length ys"
  shows "buffer_rep (buf_write (length xs) ys' b) (xs @ ys' @ zs)"
  using assms(1)
proof (rule buffer_repE)
  fix junk
  assume j: "cb_buf b = (xs @ ys @ zs) @ junk" "cb_len b = length (xs @ ys @ zs)"
      "cb_cap b = length (xs @ ys @ zs) + length junk" "cb_cap b + 8 < 2 ^ 63" "\<not> cb_error b"
  have "cb_buf (buf_write (length xs) ys' b) = (xs @ ys' @ zs) @ junk"
    using j(1) assms(2) by (simp add: buf_write_def)
  then show ?thesis
    using j assms(2) by (intro buffer_repI [where junk = junk]) (simp_all add: buf_write_def)
qed

lemma update_rep:
  assumes "buffer_rep b (xs @ y # zs)"
  shows "buffer_rep (b\<lparr>cb_buf := (cb_buf b)[length xs := y']\<rparr>) (xs @ y' # zs)"
  using assms
proof (rule buffer_repE)
  fix junk
  assume j: "cb_buf b = (xs @ y # zs) @ junk" "cb_len b = length (xs @ y # zs)"
      "cb_cap b = length (xs @ y # zs) + length junk" "cb_cap b + 8 < 2 ^ 63" "\<not> cb_error b"
  then show ?thesis by (intro buffer_repI [where junk = junk]) (simp_all add: list_update_append)
qed

lemma memmove_rep:
  assumes b: "buffer_rep b (xs @ ys @ zs)" and n: "length zs = n"
  shows "buffer_rep (buf_memmove (length xs + n) (length xs) (length ys) b)
    (xs @ take n (ys @ zs) @ ys)"
proof -
  define u where "u = take n (ys @ zs)"
  define v where "v = drop n (ys @ zs)"
  have uv: "ys @ zs = u @ v" "length u = n" "length v = length ys"
    using n unfolding u_def v_def by (simp_all del: take_append drop_append)
  have src: "take (length ys) (drop (length xs) (cb_buf b)) = ys"
    using b by (rule buffer_repE) simp
  have "buffer_rep b ((xs @ u) @ v @ [])" using b uv(1) by simp
  from buf_write_rep [OF this uv(3) [symmetric]]
  have "buffer_rep (buf_write (length (xs @ u)) ys b) ((xs @ u) @ ys @ [])" .
  then show ?thesis using src uv(2) by (simp add: buf_memmove_def u_def [symmetric] del: take_append)
qed

section \<open>Closing children\<close>

lemma asn1_prefix_long:
  "0x7f < len \<Longrightarrow> asn1_prefix len = (Suc (der_len_bytes len), byte (128 + der_len_bytes len), len)"
  by (auto simp: asn1_prefix_def der_len_bytes_def word_unat_eq_iff)

lemma asn1_prefix_short: "len \<le> 0x7f \<Longrightarrow> asn1_prefix len = (1, byte len, 0)"
  by (simp add: asn1_prefix_def)

lemma flush_prefix_rep:
  assumes b: "buffer_rep b (pre @ hole @ c)" and hole: "length hole = pending_len_len child"
    and off: "cbb_offset child = length pre"
    and run: "flush_prefix child rest len b = (True, fs, b')"
  shows "fs = [] \<and> len < 256 ^ length hole \<and> buffer_rep b' (pre @ be_bytes (length hole) len @ c)"
proof -
  obtain buf v where st: "store_be (length hole) (length pre) len (cb_buf b) = (buf, v)"
    by (cases "store_be (length hole) (length pre) len (cb_buf b)")
  from run have "v = 0" "fs = []" "b' = b\<lparr>cb_buf := buf\<rparr>"
    by (auto simp: flush_prefix_def flush_err_def off hole [symmetric] st Let_def split: if_splits)
  with store_be_rep [OF b refl st] show ?thesis
    by (auto simp: div_eq_0_iff)
qed

lemma flush_asn1_rep:
  assumes ma: "malloc_spec ma" and b: "buffer_rep b (pre @ [0] @ c)"
    and child: "cbb_offset child = length pre" "child_start = length pre + 1"
    and run: "flush_asn1 ma child rest child_start (length c) b = (True, fs, b')"
  shows "fs = [] \<and> length c \<le> 0xfffffffe \<and> buffer_rep b' (pre @ der_len (length c) @ c)"
proof (cases "length c \<le> 0x7f")
  case True
  let ?b = "b\<lparr>cb_buf := (cb_buf b)[length pre := byte (length c)]\<rparr>"
  have fin: "flush_prefix (child\<lparr>cbb_offset := length pre + 1, pending_len_len := 0\<rparr>) rest 0 ?b
      = (True, fs, b')"
    using run True child by (simp add: flush_asn1_def asn1_prefix_short)
  have "buffer_rep ?b ((pre @ [byte (length c)]) @ [] @ c)"
    using update_rep [of b pre 0 c] b by simp
  from flush_prefix_rep [OF this _ _ fin] show ?thesis
    using True by (simp add: der_len_def)
next
  case False
  define n where "n = der_len_bytes (length c)"
  have small: "length c \<le> 0xfffffffe"
    using run by (auto simp: flush_asn1_def flush_err_def split: if_splits)
  then have n: "1 \<le> n" "n \<le> 4" using der_len_bytes_bounds [of "length c"] False by (simp_all add: n_def)
  let ?first = "byte (128 + n)"
  have cap: "length (pre @ [0] @ c) + n + 8 < size_limit"
    using buffer_repE [OF b, of ?thesis] b n(2) by (auto elim!: buffer_repE)
  obtain p b1 where add: "cbb_buffer_add ma n b = (Some p, b1)"
    and fin: "flush_prefix (child\<lparr>cbb_offset := length pre + 1, pending_len_len := n\<rparr>) rest (length c)
      ((buf_memmove (length pre + 1 + n) (length pre + 1) (length c) b1)
         \<lparr>cb_buf := (cb_buf (buf_memmove (length pre + 1 + n) (length pre + 1) (length c) b1))
            [length pre := ?first]\<rparr>) = (True, fs, b')"
    using run False small n child
    by (auto simp: flush_asn1_def asn1_prefix_long n_def [symmetric] flush_err_def Let_def
        split: prod.splits option.splits)
  from add_rep [OF ma b cap add] obtain ys where ys: "length ys = n"
    and "buffer_rep b1 ((pre @ [0] @ c) @ ys)" by blast
  then have b1: "buffer_rep b1 ((pre @ [0]) @ c @ ys)" by simp
  define b2 where "b2 = buf_memmove (length pre + 1 + n) (length pre + 1) (length c) b1"
  have "buffer_rep b2 (pre @ 0 # take n (c @ ys) @ c)"
    using memmove_rep [OF b1 ys] by (simp add: b2_def)
  from update_rep [OF this, of ?first]
  have "buffer_rep (b2\<lparr>cb_buf := (cb_buf b2)[length pre := ?first]\<rparr>)
      ((pre @ [?first]) @ take n (c @ ys) @ c)" by simp
  from flush_prefix_rep [OF this _ _ fin [folded b2_def]] ys
  show ?thesis using small False by (simp add: der_len_long n_def [symmetric])
qed

lemma raw_simps [simp]:
  "raw [] = []" "raw (l # ls) = replicate (l_prefix l) 0 @ l_bytes l @ raw ls"
  "raw (ls @ ms) = raw ls @ raw ms"
  by (simp_all add: raw_def)

lemma children_at_append:
  "children_at p (ls @ ms) = children_at p ls @ children_at (p + length (raw ls)) ms"
  by (induction ls arbitrary: p) (simp_all add: add.assoc)

lemma length_children_at [simp]: "length (children_at p ls) = length ls"
  by (induction ls arbitrary: p) simp_all

lemma flush_chain_rep:
  assumes ma: "malloc_spec ma"
  shows "buffer_rep b (pre @ raw ls) \<Longrightarrow> \<forall>l \<in> set ls. layer_ok l \<Longrightarrow>
    cbb_flush_chain ma (children_at (length pre) ls) b = (True, fs, b') \<Longrightarrow>
    fs = [] \<and> (\<exists>t. sealed ls = Some t \<and> buffer_rep b' (pre @ t))"
proof (induction ls arbitrary: b pre fs b')
  case (Cons l ls)
  let ?k = "l_prefix l"
  let ?child = "\<lparr>cbb_offset = length pre, pending_len_len = ?k, pending_is_asn1 = l_asn1 l\<rparr>"
  let ?pre = "pre @ replicate ?k 0 @ l_bytes l"
  have k: "?k \<noteq> 0" "?k \<le> 8" "l_asn1 l \<Longrightarrow> ?k = 1"
    using Cons.prems(2) by (auto simp: layer_ok_def)
  have b: "buffer_rep b (?pre @ raw ls)" using Cons.prems(1) by simp
  have at: "length pre + ?k + length (l_bytes l) = length ?pre" by simp
  have no_err: "\<not> cb_error b" and small: "length pre < 2 ^ 63"
    using b by (auto elim!: buffer_repE)
  have start: "size_add (length pre) ?k = length pre + ?k" using small k(2) by simp
  obtain ok rest b1 where rec: "cbb_flush_chain ma (children_at (length ?pre) ls) b = (ok, rest, b1)"
    by (cases "cbb_flush_chain ma (children_at (length ?pre) ls) b")
  have ok and run: "(if l_asn1 l
      then flush_asn1 ma ?child rest (length pre + ?k) (cb_len b1 - (length pre + ?k)) b1
      else flush_prefix ?child rest (cb_len b1 - (length pre + ?k)) b1) = (True, fs, b')"
    using Cons.prems(3) no_err k(1) unfolding children_at.simps at
    by (auto simp: rec start Let_def flush_err_def simp del: length_append split: if_splits)
  from Cons.IH [OF b _ rec [unfolded eqTrueI [OF \<open>ok\<close>]]] Cons.prems(2)
  obtain t where t: "sealed ls = Some t" and b1: "buffer_rep b1 (?pre @ t)" by auto
  define c where "c = l_bytes l @ t"
  have b1': "buffer_rep b1 (pre @ replicate ?k 0 @ c)" using b1 by (simp add: c_def)
  have len: "cb_len b1 - (length pre + ?k) = length c"
    using buffer_rep_len [OF b1'] by simp
  show ?case
  proof (cases "l_asn1 l")
    case True
    with run k len have "flush_asn1 ma ?child rest (length pre + 1) (length c) b1 = (True, fs, b')"
      by simp
    from flush_asn1_rep [OF ma _ _ _ this, of pre] b1' k(3) [OF True]
    show ?thesis using t True by (auto simp: seal_def c_def [symmetric])
  next
    case False
    with run len have fin: "flush_prefix ?child rest (length c) b1 = (True, fs, b')"
      by simp
    from flush_prefix_rep [OF b1' _ _ fin]
    show ?thesis using t False by (auto simp: seal_def c_def [symmetric])
  qed
qed simp

section \<open>Refinement of the operations\<close>

definition b_data :: "builder \<Rightarrow> u8 list" where
  "b_data B = fst B @ raw (snd B)"

definition b_children :: "builder \<Rightarrow> cbb_child list" where
  "b_children B = children_at (length (fst B)) (snd B)"

definition b_ok :: "builder \<Rightarrow> bool" where
  "b_ok B \<longleftrightarrow> (\<forall>l \<in> set (snd B). layer_ok l)"

lemma cbb_rep_alt: "cbb_rep cbb B \<longleftrightarrow>
  (\<exists>b. cbb_base cbb = Some b \<and> buffer_rep b (b_data B)) \<and> cbb_children cbb = b_children B \<and> b_ok B"
  by (auto simp: cbb_rep_def b_data_def b_children_def b_ok_def)

lemma add_top_facts [simp]:
  "b_data (add_top xs B) = b_data B @ xs" "b_children (add_top xs B) = b_children B"
  "b_ok (add_top xs B) = b_ok B" "length (snd (add_top xs B)) = length (snd B)"
proof -
  obtain r ls where B: "B = (r, ls)" by (cases B)
  show "b_data (add_top xs B) = b_data B @ xs" "b_children (add_top xs B) = b_children B"
    "b_ok (add_top xs B) = b_ok B" "length (snd (add_top xs B)) = length (snd B)"
    by (cases ls rule: rev_cases; simp add: B b_data_def b_children_def b_ok_def
        children_at_append layer_ok_def)+
qed

lemma add_top_Nil [simp]: "add_top [] B = B"
  by (cases B; cases "snd B" rule: rev_cases) auto

lemma add_top_append: "add_top ys (add_top xs B) = add_top (xs @ ys) B"
  by (cases B; cases "snd B" rule: rev_cases) auto

lemma b_close_length: "b_close d B = Some B' \<Longrightarrow> length (snd B') = d"
  by (auto simp: b_close_def split: if_splits option.splits)

lemma b_close_same [simp]: "length (snd B) = d \<Longrightarrow> b_close d B = Some B"
  by (simp add: b_close_def)

lemma b_add_length: "b_add d xs B = Some B' \<Longrightarrow> length (snd B') = d"
  by (auto simp: b_add_def dest: b_close_length simp del: add_top.simps)

lemma b_add_same [simp]: "length (snd B) = d \<Longrightarrow> b_add d xs B = Some (add_top xs B)"
  by (simp add: b_add_def)

lemma b_add_add: "b_add d xs B = Some B' \<Longrightarrow> b_add d ys B' = b_add d (xs @ ys) B"
proof -
  assume "b_add d xs B = Some B'"
  then obtain B1 where B1: "b_close d B = Some B1" "B' = add_top xs B1" by (auto simp: b_add_def)
  then have "b_close d B' = Some B'" using b_close_length [OF B1(1)] by simp
  with B1 show ?thesis by (simp add: b_add_def add_top_append del: add_top.simps)
qed

text \<open>An operation implements an abstract one when every success of it is one of the abstract.\<close>

definition refines :: "(cbb, 'a) op \<Rightarrow> (builder \<Rightarrow> builder option) \<Rightarrow> bool" where
  "refines f F \<longleftrightarrow> (\<forall>c B r c'. cbb_rep c B \<longrightarrow> f c = (Some r, c') \<longrightarrow>
     (\<exists>B'. F B = Some B' \<and> cbb_rep c' B'))"

lemma refinesI:
  "(\<And>c B r c'. cbb_rep c B \<Longrightarrow> f c = (Some r, c') \<Longrightarrow> \<exists>B'. F B = Some B' \<and> cbb_rep c' B') \<Longrightarrow> refines f F"
  by (simp add: refines_def)

lemma refinesD:
  assumes "refines f F" "cbb_rep c B" "f c = (Some r, c')"
  obtains B' where "F B = Some B'" "cbb_rep c' B'"
  using assms unfolding refines_def by blast

lemma refines_bind:
  assumes "refines f F" and "\<And>r. refines (k r) G"
  shows "refines (op_bind f k) (\<lambda>B. Option.bind (F B) G)"
proof (rule refinesI)
  fix c B r c'
  assume rep: "cbb_rep c B" and "op_bind f k c = (Some r, c')"
  then obtain a c1 where f: "f c = (Some a, c1)" and k: "k a c1 = (Some r, c')"
    by (rule_tac op_bind_SomeE)
  obtain B1 where B1: "F B = Some B1" "cbb_rep c1 B1" by (rule refinesD [OF assms(1) rep f])
  obtain B2 where "G B1 = Some B2" "cbb_rep c' B2" by (rule refinesD [OF assms(2) B1(2) k])
  with B1 show "\<exists>B'. Option.bind (F B) G = Some B' \<and> cbb_rep c' B'" by simp
qed

lemma refines_return [simp]: "refines (op_return r) Some"
  by (simp add: refines_def op_return_def)

lemma refines_fail [simp]: "refines op_fail F"
  by (simp add: refines_def op_fail_def)

text \<open>Two appends at one depth are the append of both.\<close>

lemma bind_b_add: "Option.bind (b_add d xs B) (b_add d ys) = b_add d (xs @ ys) B"
proof (cases "b_add d xs B")
  case None
  then have "b_close d B = None" by (simp add: b_add_def)
  with None show ?thesis by (simp add: b_add_def)
qed (simp add: b_add_add)

lemma refines_add_bind:
  "refines f (b_add d xs) \<Longrightarrow> (\<And>r. refines (k r) (b_add d ys)) \<Longrightarrow>
   refines (op_bind f k) (b_add d (xs @ ys))"
  using refines_bind [of f "b_add d xs" k "b_add d ys"] by (simp add: bind_b_add)

lemma CBB_flush_refines:
  assumes "malloc_spec ma"
  shows "refines (CBB_flush ma d) (b_close d)"
proof (rule refinesI)
  fix c B u c'
  assume rep: "cbb_rep c B" and run: "CBB_flush ma d c = (Some u, c')"
  obtain r ls where B: "B = (r, ls)" by (cases B)
  define hi where "hi = take d ls"
  define lo where "lo = drop d ls"
  have ls: "ls = hi @ lo" by (simp add: hi_def lo_def)
  from rep obtain b where b: "cbb_base c = Some b" "buffer_rep b ((r @ raw hi) @ raw lo)"
    and ch: "cbb_children c = children_at (length r) hi @ children_at (length (r @ raw hi)) lo"
    and ok: "\<forall>l \<in> set lo. layer_ok l" "b_ok (r, hi)"
    by (auto simp: cbb_rep_def B ls children_at_append b_ok_def)
  from run b(1) have d: "d \<le> length ls"
    by (auto simp: CBB_flush_def ch ls split: if_splits)
  then have hi: "length hi = d" by (simp add: hi_def)
  obtain okf rest b' where fl: "cbb_flush_chain ma (children_at (length (r @ raw hi)) lo) b = (okf, rest, b')"
    by (cases "cbb_flush_chain ma (children_at (length (r @ raw hi)) lo) b")
  have okf: "okf = True" and c': "c' = \<lparr>cbb_base = Some b', cbb_children = children_at (length r) hi @ rest\<rparr>"
    using run b(1) hi fl by (auto simp: CBB_flush_def ch split: if_splits)
  from flush_chain_rep [OF assms b(2) ok(1) fl [unfolded okf]]
  obtain t where t: "sealed lo = Some t" "buffer_rep b' ((r @ raw hi) @ t)" and rest: "rest = []"
    by blast
  have "b_close d B = Some (add_top t (r, hi))"
    using d t(1) by (simp add: b_close_def B lo_def hi_def)
  moreover have "b_data (r, hi) = r @ raw hi" "b_children (r, hi) = children_at (length r) hi"
    by (simp_all add: b_data_def b_children_def)
  ultimately show "\<exists>B'. b_close d B = Some B' \<and> cbb_rep c' B'"
    using t(2) ok(2) by (auto simp: cbb_rep_alt c' rest simp del: add_top.simps)
qed

declare add_top.simps [simp del]

lemma cbb_rep_append:
  assumes "cbb_rep c B" and "cbb_base c = Some b" and "buffer_rep b' (b_data B @ xs)"
  shows "cbb_rep (c\<lparr>cbb_base := Some b'\<rparr>) (add_top xs B)"
  using assms by (auto simp: cbb_rep_alt)

text \<open>
  An operation on the buffer that appends \<open>xs\<close> makes the operation on the CBB at depth \<open>d\<close>
  append \<open>xs\<close> to that CBB, once its children are closed.
\<close>

definition buffer_appends :: "(cbb_buffer, 'a) op \<Rightarrow> u8 list \<Rightarrow> bool" where
  "buffer_appends f xs \<longleftrightarrow>
     (\<forall>b zs r b'. buffer_rep b zs \<longrightarrow> f b = (Some r, b') \<longrightarrow> buffer_rep b' (zs @ xs))"

lemma on_base_refines:
  assumes "malloc_spec ma" and "buffer_appends f xs"
  shows "refines (op_bind (CBB_flush ma d) (\<lambda>_. on_base f)) (b_add d xs)"
proof (rule refinesI)
  fix c B r c'
  assume rep: "cbb_rep c B" and "op_bind (CBB_flush ma d) (\<lambda>_. on_base f) c = (Some r, c')"
  then obtain u c1 where fl: "CBB_flush ma d c = (Some u, c1)" and f: "on_base f c1 = (Some r, c')"
    by (rule_tac op_bind_SomeE)
  obtain B1 where B1: "b_close d B = Some B1" "cbb_rep c1 B1"
    by (rule refinesD [OF CBB_flush_refines [OF assms(1)] rep fl])
  then obtain b where b: "cbb_base c1 = Some b" "buffer_rep b (b_data B1)"
    by (auto simp: cbb_rep_alt)
  with f obtain b' where "f b = (Some r, b')" "c' = c1\<lparr>cbb_base := Some b'\<rparr>"
    by (auto simp: on_base_def split: prod.splits)
  with assms(2) b B1 show "\<exists>B'. b_add d xs B = Some B' \<and> cbb_rep c' B'"
    by (auto simp: buffer_appends_def b_add_def intro: cbb_rep_append)
qed

lemma buffer_add_u_appends:
  assumes "malloc_spec ma" and "k \<le> 8"
  shows "buffer_appends (cbb_buffer_add_u ma v k) (be_bytes k v)"
  unfolding buffer_appends_def
proof (intro allI impI)
  fix b zs r b'
  assume b: "buffer_rep b zs" and run: "cbb_buffer_add_u ma v k b = (Some r, b')"
  show "buffer_rep b' (zs @ be_bytes k v)"
  proof (cases "k = 0")
    case True
    with run b show ?thesis by (simp add: cbb_buffer_add_u_def op_return_def)
  next
    case False
    with run obtain p b1 where add: "cbb_buffer_add ma k b = (Some p, b1)"
      and fin: "(let (buf, v) = store_be k p v (cb_buf b1); base = b1\<lparr>cb_buf := buf\<rparr> in
        if v \<noteq> 0 then (None, base\<lparr>cb_error := True\<rparr>) else (Some (), base)) = (Some r, b')"
      by (auto simp: cbb_buffer_add_u_def op_bind_eq_Some)
    have "length zs + k + 8 < size_limit" using b assms(2) by (auto elim!: buffer_repE)
    from add_rep [OF assms(1) b this add] obtain ys where
      p: "p = length zs" and ys: "length ys = k" "buffer_rep b1 (zs @ ys @ [])" by auto
    obtain buf v' where st: "store_be k p v (cb_buf b1) = (buf, v')"
      by (cases "store_be k p v (cb_buf b1)")
    then have "b' = b1\<lparr>cb_buf := buf\<rparr>" using fin by (simp add: Let_def split: if_splits)
    with store_be_rep [OF ys(2) ys(1), of v buf v'] p st show ?thesis by simp
  qed
qed

lemma cbb_add_u_refines:
  "malloc_spec ma \<Longrightarrow> k \<le> 8 \<Longrightarrow> refines (cbb_add_u ma k v d) (b_add d (be_bytes k v))"
  unfolding cbb_add_u_def by (intro on_base_refines buffer_add_u_appends)

lemma CBB_add_u8_refines:
  "malloc_spec ma \<Longrightarrow> refines (CBB_add_u8 ma v d) (b_add d [v])"
  unfolding CBB_add_u8_def using cbb_add_u_refines [of ma 1 "unat v" d] by simp

lemma CBB_add_bytes_refines:
  assumes ma: "malloc_spec ma" and small: "length xs < 2 ^ 63"
  shows "refines (CBB_add_bytes ma xs d) (b_add d xs)"
proof -
  have on_bind: "op_bind (on_base f) (\<lambda>a. on_base (g a)) = on_base (op_bind f g)"
    for f :: "(cbb_buffer, nat) op" and g :: "nat \<Rightarrow> (cbb_buffer, unit) op"
    by (rule ext) (auto simp: op_bind_def on_base_def split: option.splits prod.splits)
  have "buffer_appends (op_bind (cbb_buffer_add ma (length xs)) (\<lambda>dest b. (Some (), buf_write dest xs b))) xs"
    unfolding buffer_appends_def
  proof (intro allI impI)
    fix b zs r b'
    assume b: "buffer_rep b zs"
      and "op_bind (cbb_buffer_add ma (length xs)) (\<lambda>dest b. (Some (), buf_write dest xs b)) b = (Some r, b')"
    then obtain p b1 where add: "cbb_buffer_add ma (length xs) b = (Some p, b1)"
      and b': "b' = buf_write p xs b1" by (auto simp: op_bind_eq_Some)
    have "length zs + length xs + 8 < size_limit" using b small by (auto elim!: buffer_repE)
    from add_rep [OF ma b this add] obtain ys where
      p: "p = length zs" and ys: "length ys = length xs" "buffer_rep b1 (zs @ ys @ [])" by auto
    from buf_write_rep [OF ys(2) ys(1) [symmetric]] show "buffer_rep b' (zs @ xs)"
      using p b' by simp
  qed
  then show ?thesis
    unfolding CBB_add_bytes_def on_bind by (rule on_base_refines [OF ma])
qed

section \<open>Opening children and adding values\<close>

text \<open>
  The common end of \<open>cbb_add_length_prefixed\<close> and \<open>CBB_add_asn1\<close>: the children below are
  closed, \<open>k\<close> zero bytes are reserved at \<open>offset\<close>, and a child is opened there.
\<close>

lemma open_child_rep:
  assumes "cbb_rep c B" and "cbb_base c = Some b" and "length (snd B) = d"
    and "buffer_rep b' (b_data B @ replicate k 0)" and "0 < k" "k \<le> 8" "asn1 \<longrightarrow> k = 1"
  shows "cbb_rep (cbb_open_child d \<lparr>cbb_offset = length (b_data B), pending_len_len = k,
      pending_is_asn1 = asn1\<rparr> (c\<lparr>cbb_base := Some b'\<rparr>))
    (fst B, snd B @ [\<lparr>l_prefix = k, l_asn1 = asn1, l_bytes = []\<rparr>])"
  using assms
  by (auto simp: cbb_rep_def cbb_open_child_def b_data_def children_at_append layer_ok_def)

lemma b_open_same:
  "length (snd B) = d \<Longrightarrow>
   b_open d k asn1 B = Some (fst B, snd B @ [\<lparr>l_prefix = k, l_asn1 = asn1, l_bytes = []\<rparr>])"
  by (simp add: b_open_def split: prod.split)

lemma b_open_close: "b_close d B = Some B' \<Longrightarrow> b_open d k asn1 B' = b_open d k asn1 B"
  using b_close_length [of d B B'] by (simp add: b_open_def)

lemma length_prefixed_refines:
  assumes ma: "malloc_spec ma" and k: "0 < k" "k \<le> 8"
  shows "refines (cbb_add_length_prefixed ma k d) (b_open d k False)"
proof (rule refinesI)
  fix c B r c'
  assume rep: "cbb_rep c B" and run: "cbb_add_length_prefixed ma k d c = (Some r, c')"
  then obtain u c1 where fl: "CBB_flush ma d c = (Some u, c1)"
    and rest: "op_bind (on_base (cbb_buffer_add ma k)) (\<lambda>offset.
     op_bind (on_base (\<lambda>b. (Some (), buf_write offset (replicate k 0) b))) (\<lambda>_ cbb.
       (Some (), cbb_open_child d
          \<lparr>cbb_offset = offset, pending_len_len = k, pending_is_asn1 = False\<rparr> cbb))) c1 = (Some r, c')"
    unfolding cbb_add_length_prefixed_def by (rule_tac op_bind_SomeE)
  obtain B1 where B1: "b_close d B = Some B1" "cbb_rep c1 B1"
    by (rule refinesD [OF CBB_flush_refines [OF ma] rep fl])
  then obtain b where b: "cbb_base c1 = Some b" "buffer_rep b (b_data B1)"
    by (auto simp: cbb_rep_alt)
  from rest b obtain p b1 where add: "cbb_buffer_add ma k b = (Some p, b1)"
    and c': "c' = cbb_open_child d \<lparr>cbb_offset = p, pending_len_len = k, pending_is_asn1 = False\<rparr>
      (c1\<lparr>cbb_base := Some (buf_write p (replicate k 0) b1)\<rparr>)"
    by (auto simp: op_bind_eq_Some on_base_def split: prod.splits)
  have "length (b_data B1) + k + 8 < size_limit" using b(2) k(2) by (auto elim!: buffer_repE)
  from add_rep [OF ma b(2) this add] obtain ys where p: "p = length (b_data B1)"
    and ys: "length ys = k" "buffer_rep b1 (b_data B1 @ ys @ [])" by auto
  have "buffer_rep (buf_write p (replicate k 0) b1) (b_data B1 @ replicate k 0)"
    using buf_write_rep [OF ys(2), of "replicate k 0"] ys(1) p by simp
  from open_child_rep [OF B1(2) b(1) _ this k, of d False] b_close_length [OF B1(1)]
  show "\<exists>B'. b_open d k False B = Some B' \<and> cbb_rep c' B'"
    using p c' by (simp add: b_open_close [OF B1(1), symmetric] b_open_same)
qed

text \<open>The builder's base-128 integers are the encoding of \<open>Der\<close>.\<close>

lemma base128_groups_step:
  "base128_groups n = (if n = 0 then 0 else Suc (base128_groups (n div 128)))"
  by (subst base128_groups.simps) simp

lemma unat_base128_group:
  "unat (base128_group v i) = unat v div 128 ^ i mod 128 + (if i = 0 then 0 else 128)"
proof -
  have shift: "unat (ucast (drop_bit (7 * i) v) AND (0x7f :: u8)) = unat v div 128 ^ i mod 128"
  proof -
    have "unat (ucast (drop_bit (7 * i) v) :: u8) = unat v div 128 ^ i mod 256"
      by (simp add: unat_ucast_mod unat_drop_bit power_mult)
    then show ?thesis by (simp add: mod_mod_cancel)
  qed
  let ?w = "ucast (drop_bit (7 * i) v) AND (0x7f :: u8)"
  have "unat (?w OR 0x80) = unat ?w + 128"
    using shift_or_is_add [of ?w 7 1] shift unat_shift_or [of ?w 7 1] by (simp add: or.commute)
  then show ?thesis using shift by (auto simp: base128_group_def Let_def)
qed

text \<open>The byte-by-byte loops all add a list of bytes.\<close>

fun add_u8s :: "malloc_fn \<Rightarrow> u8 list \<Rightarrow> nat \<Rightarrow> (cbb, unit) op" where
  "add_u8s ma [] d = op_return ()"
| "add_u8s ma (x # xs) d = op_bind (CBB_add_u8 ma x d) (\<lambda>_. add_u8s ma xs d)"

lemma base128_emit_eq: "base128_emit ma v k d = add_u8s ma (map (base128_group v) (rev [0..<k])) d"
  by (induction k) simp_all

lemma emit_down_eq: "emit_down ma bs k d = add_u8s ma (map ((!) bs) (rev [0..<k])) d"
  by (induction k) simp_all

lemma add_u8s_append:
  "add_u8s ma (xs @ ys) d = op_bind (add_u8s ma xs d) (\<lambda>_. add_u8s ma ys d)"
  by (induction xs) (simp_all add: op_bind_assoc)

lemma op_bind_return2 [simp]: "op_bind m op_return = m"
  by (rule ext) (auto simp: op_bind_def op_return_def split: prod.splits option.splits)

lemma add_u8s_refines:
  assumes ma: "malloc_spec ma"
  shows "xs \<noteq> [] \<Longrightarrow> refines (add_u8s ma xs d) (b_add d xs)"
proof (induction xs)
  case (Cons x xs)
  show ?case
  proof (cases "xs = []")
    case True
    then show ?thesis using CBB_add_u8_refines [OF ma] by simp
  next
    case False
    have "refines (add_u8s ma (x # xs) d) (b_add d ([x] @ xs))"
      unfolding add_u8s.simps
      by (intro refines_add_bind CBB_add_u8_refines [OF ma] Cons.IH False)
    then show ?thesis by simp
  qed
qed simp

lemma base128_groups_0 [simp]: "base128_groups 0 = 0"
  by (simp add: base128_groups_step)

lemma base128_groups_pos: "0 < n \<Longrightarrow> base128_groups n = Suc (base128_groups (n div 128))"
  using base128_groups_step [of n] by simp

lemma map_base128_hi:
  "map (\<lambda>i. byte (n div 128 ^ i mod 128 + 128)) (rev [0..<base128_groups n]) = base128_hi n"
proof (induction n rule: base128_groups.induct)
  case (1 n)
  show ?case
  proof (cases "n = 0")
    case False
    have up: "[0..<Suc k] = 0 # map Suc [0..<k]" for k
      by (simp add: map_Suc_upt upt_conv_Cons del: upt_Suc)
    have "map (\<lambda>i. byte (n div 128 ^ i mod 128 + 128)) (rev [0..<base128_groups n])
      = map (\<lambda>i. byte (n div 128 div 128 ^ i mod 128 + 128)) (rev [0..<base128_groups (n div 128)])
        @ [byte (n mod 128 + 128)]"
      using False by (simp add: base128_groups_pos up rev_map comp_def div_mult2_eq del: upt_Suc)
    also have "\<dots> = base128_hi n"
      using "1.IH" False by (subst base128_hi.simps) (simp add: add.commute)
    finally show ?thesis .
  qed simp
qed

lemma base128_emission:
  defines "k v \<equiv> (if base128_groups (unat v) = 0 then 1 else base128_groups (unat v))"
  shows "map (base128_group v) (rev [0..<k v]) = base128 (unat v)"
proof -
  have group: "base128_group v i = byte (unat v div 128 ^ i mod 128 + (if i = 0 then 0 else 128))" for i
    using unat_base128_group [of v i] by (simp add: eq_byte_iff)
  have k: "k v = Suc (base128_groups (unat v div 128))"
    by (simp add: k_def base128_groups_step [of "unat v"])
  have up: "[0..<Suc m] = 0 # map Suc [0..<m]" for m
    by (simp add: map_Suc_upt upt_conv_Cons del: upt_Suc)
  have "map (base128_group v) (rev [0..<k v])
      = map (\<lambda>i. byte (unat v div 128 div 128 ^ i mod 128 + 128)) (rev [0..<base128_groups (unat v div 128)])
        @ [byte (unat v mod 128)]"
    by (simp add: k up rev_map comp_def group div_mult2_eq del: upt_Suc)
  then show ?thesis by (simp add: map_base128_hi base128_def)
qed

lemma base128_not_Nil [simp]: "base128 n \<noteq> []"
  by (simp add: base128_def)

lemma add_base128_eq: "add_base128_integer ma v d = add_u8s ma (base128 (unat v)) d"
  unfolding add_base128_integer_def Let_def base128_emit_eq base128_emission ..

lemma and_e0: "(x :: u8) AND 0xe0 = push_bit 5 (drop_bit 5 x)"
  by (rule u8_all [of "\<lambda>x. x AND 0xe0 = push_bit 5 (drop_bit 5 x)"]) code_simp

lemma leading_bits:
  assumes "w < 32"
  shows "ucast (drop_bit CBS_ASN1_TAG_SHIFT tag) AND (0xe0 :: u8) OR word_of_nat w = byte (tag_bits tag + w)"
proof -
  let ?x = "ucast (drop_bit CBS_ASN1_TAG_SHIFT tag) :: u8"
  have "unat tag < 2 ^ 32" using unsigned_less [of tag] by simp
  then have "unat ?x = unat tag div 2 ^ 24"
    by (simp add: unat_ucast_mod unat_drop_bit less_mult_imp_div_less)
  then have x: "unat (drop_bit 5 ?x) = unat tag div 2 ^ 29"
    by (simp add: unat_drop_bit div_mult2_eq [symmetric])
  have "unat tag div 2 ^ 29 < 8" using \<open>unat tag < 2 ^ 32\<close> by (simp add: less_mult_imp_div_less)
  moreover have w: "unat (word_of_nat w :: u8) = w" using assms by (simp add: unat_of_nat)
  ultimately have "unat (push_bit 5 (drop_bit 5 ?x) OR word_of_nat w) = unat tag div 2 ^ 29 * 2 ^ 5 + w"
    using assms x unat_shift_or [of "word_of_nat w :: u8" 5 "drop_bit 5 ?x"] by simp
  then show ?thesis
    using assms tag_bits_less(1) [of tag] by (simp add: and_e0 eq_byte_iff tag_bits_def)
qed

lemma unat_tag_number: "unat (tag AND CBS_ASN1_TAG_NUMBER_MASK) = tag_number tag"
  using unat_and_mask [of tag 29]
  by (simp add: tag_number_def CBS_ASN1_TAG_NUMBER_MASK_def mask_eq_exp_minus_1)

lemma asn1_tag_emission:
  "(let tag_bits = ucast (drop_bit CBS_ASN1_TAG_SHIFT tag) AND (0xe0 :: u8);
        tag_number = tag AND CBS_ASN1_TAG_NUMBER_MASK in
    if 0x1f \<le> tag_number
    then op_bind (CBB_add_u8 ma (tag_bits OR 0x1f) d)
           (\<lambda>_. add_base128_integer ma (ucast tag_number) d)
    else CBB_add_u8 ma (tag_bits OR ucast tag_number) d) = add_u8s ma (der_tag tag) d"
proof -
  let ?n = "tag AND CBS_ASN1_TAG_NUMBER_MASK"
  have n: "unat (ucast ?n :: u64) = tag_number tag"
    using unat_tag_number [of tag] by (simp add: unat_ucast_up)
  show ?thesis
  proof (cases "tag_number tag < 31")
    case True
    have "(ucast ?n :: u8) = word_of_nat (tag_number tag)"
      using True by (simp add: word_unat_eq_iff unat_ucast_mod unat_tag_number unat_of_nat)
    then show ?thesis
      using True leading_bits [of "tag_number tag" tag]
      by (simp add: der_tag_def word_le_nat_alt unat_tag_number)
  next
    case False
    have "(0x1f :: u8) = word_of_nat 31" by simp
    then show ?thesis
      using False leading_bits [of 31 tag]
      by (simp add: der_tag_def word_le_nat_alt unat_tag_number add_base128_eq n)
  qed
qed

definition b_open_asn1 :: "nat \<Rightarrow> u32 \<Rightarrow> builder \<Rightarrow> builder option" where
  "b_open_asn1 d tag B = Option.bind (b_add d (der_tag tag) B) (b_open d 1 True)"

lemma bind_b_close: "Option.bind (b_close d B) (b_add d xs) = b_add d xs B"
proof (cases "b_close d B")
  case (Some B')
  then have "length (snd B') = d" by (rule b_close_length)
  with Some show ?thesis by (simp add: b_add_def)
qed (simp add: b_add_def)

lemma CBB_add_asn1_refines:
  assumes ma: "malloc_spec ma"
  shows "refines (CBB_add_asn1 ma tag d) (b_open_asn1 d tag)"
proof (rule refinesI)
  fix c B r c'
  assume rep: "cbb_rep c B" and run: "CBB_add_asn1 ma tag d c = (Some r, c')"
  have def': "CBB_add_asn1 ma tag d =
     op_bind (op_bind (CBB_flush ma d) (\<lambda>_. add_u8s ma (der_tag tag) d)) (\<lambda>_.
       op_bind (on_base (\<lambda>b. (Some (cb_len b), b))) (\<lambda>offset.
       op_bind (CBB_add_u8 ma 0 d) (\<lambda>_ cbb.
         (Some (), cbb_open_child d
            \<lparr>cbb_offset = offset, pending_len_len = 1, pending_is_asn1 = True\<rparr> cbb))))"
    unfolding CBB_add_asn1_def asn1_tag_emission [symmetric] Let_def op_bind_assoc ..
  have hd: "refines (op_bind (CBB_flush ma d) (\<lambda>_. add_u8s ma (der_tag tag) d)) (b_add d (der_tag tag))"
    using refines_bind [OF CBB_flush_refines [OF ma], of "\<lambda>_. add_u8s ma (der_tag tag) d"
        "b_add d (der_tag tag)" d] add_u8s_refines [OF ma, of "der_tag tag" d]
    by (simp add: bind_b_close)
  from run obtain u c1 where head: "op_bind (CBB_flush ma d) (\<lambda>_. add_u8s ma (der_tag tag) d) c = (Some u, c1)"
    and rest: "op_bind (on_base (\<lambda>b. (Some (cb_len b), b))) (\<lambda>offset.
       op_bind (CBB_add_u8 ma 0 d) (\<lambda>_ cbb.
         (Some (), cbb_open_child d
            \<lparr>cbb_offset = offset, pending_len_len = 1, pending_is_asn1 = True\<rparr> cbb))) c1 = (Some r, c')"
    unfolding def' by (rule op_bind_SomeE)
  obtain B1 where B1: "b_add d (der_tag tag) B = Some B1" "cbb_rep c1 B1"
    by (rule refinesD [OF hd rep head])
  then have len: "length (snd B1) = d" by (rule_tac b_add_length)
  from B1 obtain b where b: "cbb_base c1 = Some b" "buffer_rep b (b_data B1)"
    "cbb_children c1 = b_children B1" by (auto simp: cbb_rep_alt)
  have here: "on_base (\<lambda>b. (Some (cb_len b), b)) c1 = (Some (cb_len b), c1)"
    using b(1) by (cases c1) (simp add: on_base_def)
  from rest have "op_bind (CBB_add_u8 ma 0 d) (\<lambda>_ cbb.
         (Some (), cbb_open_child d
            \<lparr>cbb_offset = cb_len b, pending_len_len = 1, pending_is_asn1 = True\<rparr> cbb)) c1 = (Some r, c')"
    by (rule op_bind_SomeE) (simp add: here)
  then obtain u2 c2 where zero: "CBB_add_u8 ma 0 d c1 = (Some u2, c2)"
    and c': "c' = cbb_open_child d
      \<lparr>cbb_offset = cb_len b, pending_len_len = 1, pending_is_asn1 = True\<rparr> c2"
    by (rule op_bind_SomeE) auto
  obtain B2 where "b_add d [0] B1 = Some B2" "cbb_rep c2 B2"
    by (rule refinesD [OF CBB_add_u8_refines [OF ma] B1(2) zero])
  then obtain b2 where b2: "cbb_base c2 = Some b2" "buffer_rep b2 (b_data B1 @ [0])"
    "cbb_children c2 = b_children B1" using len by (auto simp: cbb_rep_alt)
  then have "c2 = c1\<lparr>cbb_base := Some b2\<rparr>" using b by simp
  with open_child_rep [OF B1(2) b(1) len, of b2 1 True] b2(2) c' buffer_rep_len [OF b(2)]
  show "\<exists>B'. b_open_asn1 d tag B = Some B' \<and> cbb_rep c' B'"
    by (simp add: b_open_asn1_def B1(1) b_open_same [OF len])
qed

text \<open>A whole element at depth \<open>d\<close>: open, fill, close.\<close>

lemma close_element:
  assumes "b_open_asn1 d tag B = Some B1" and "b_add (Suc d) xs B1 = Some B2"
    and "b_close d B2 = Some B3"
  shows "length xs \<le> 0xfffffffe \<and> b_add d (der_element tag xs) B = Some B3"
proof -
  from assms(1) obtain B0 where B0: "b_add d (der_tag tag) B = Some B0"
    and "b_open d 1 True B0 = Some B1" by (auto simp: b_open_asn1_def bind_eq_Some_conv)
  moreover have len: "length (snd B0) = d" using B0 by (rule b_add_length)
  ultimately have B1: "B1 = (fst B0, snd B0 @ [\<lparr>l_prefix = 1, l_asn1 = True, l_bytes = []\<rparr>])"
    by (simp add: b_open_same)
  then have B2: "B2 = (fst B0, snd B0 @ [\<lparr>l_prefix = 1, l_asn1 = True, l_bytes = xs\<rparr>])"
    using assms(2) len by (simp add: add_top.simps)
  have small: "length xs \<le> 0xfffffffe" and "B3 = add_top (der_len (length xs) @ xs) B0"
    using assms(3) len by (auto simp: B2 b_close_def seal_def split: if_splits)
  moreover have "b_add d (der_len (length xs) @ xs) B0 = Some (add_top (der_len (length xs) @ xs) B0)"
    using len by simp
  ultimately show ?thesis
    using b_add_add [OF B0] by (simp add: der_element_def der_header_def)
qed

lemma element_refines:
  assumes ma: "malloc_spec ma" and body: "refines body (b_add (Suc d) xs)"
  shows "refines (op_bind (CBB_add_asn1 ma tag d) (\<lambda>_. op_bind body (\<lambda>_. CBB_flush ma d)))
    (b_add d (der_element tag xs))"
proof (rule refinesI)
  fix c B r c'
  assume rep: "cbb_rep c B"
    and run: "op_bind (CBB_add_asn1 ma tag d) (\<lambda>_. op_bind body (\<lambda>_. CBB_flush ma d)) c = (Some r, c')"
  then obtain u1 c1 u2 c2 where 1: "CBB_add_asn1 ma tag d c = (Some u1, c1)"
    and 2: "body c1 = (Some u2, c2)" and 3: "CBB_flush ma d c2 = (Some r, c')"
    by (auto elim!: op_bind_SomeE)
  obtain B1 where B1: "b_open_asn1 d tag B = Some B1" "cbb_rep c1 B1"
    by (rule refinesD [OF CBB_add_asn1_refines [OF ma] rep 1])
  obtain B2 where B2: "b_add (Suc d) xs B1 = Some B2" "cbb_rep c2 B2"
    by (rule refinesD [OF body B1(2) 2])
  obtain B3 where B3: "b_close d B2 = Some B3" "cbb_rep c' B3"
    by (rule refinesD [OF CBB_flush_refines [OF ma] B2(2) 3])
  show "\<exists>B'. b_add d (der_element tag xs) B = Some B' \<and> cbb_rep c' B'"
    using close_element [OF B1(1) B2(1) B3(1)] B3(2) by blast
qed

section \<open>Integers\<close>

definition uint_contents :: "u8 list \<Rightarrow> u8 list" where
  "uint_contents bs =
     (let s = dropWhile ((=) 0) bs in
      if s = [] then [0] else if 128 \<le> unat (hd s) then 0 # s else s)"

lemma uint64_emit_started:
  "asn1_uint64_emit ma bs True d = op_bind (add_u8s ma bs d) (\<lambda>_. op_return True)"
  by (induction bs) (simp_all add: op_bind_assoc)

lemma uint64_emit:
  "op_bind (asn1_uint64_emit ma bs False d) (\<lambda>started.
     op_bind (if \<not> started then CBB_add_u8 ma 0 d else op_return ()) (\<lambda>_. k)) =
   op_bind (add_u8s ma (uint_contents bs) d) (\<lambda>_. k)"
proof (induction bs)
  case Nil
  then show ?case by (simp add: uint_contents_def)
next
  case (Cons b bs)
  show ?case
  proof (cases "b = 0")
    case True
    then have "uint_contents (b # bs) = uint_contents bs" by (simp add: uint_contents_def)
    with True Cons show ?thesis by simp
  next
    case False
    then have "uint_contents (b # bs) = (if 128 \<le> unat b then 0 # b # bs else b # bs)"
      by (simp add: uint_contents_def)
    with False show ?thesis
      by (simp add: uint64_emit_started op_bind_assoc not_less)
  qed
qed

lemma be_val_strip: "be_val (dropWhile ((=) 0) bs) = be_val bs"
  by (induction bs) (simp_all add: be_val_Cons)

lemma uint_contents_int_bytes: "uint_contents bs = int_bytes (int (be_val bs))"
proof -
  define s where "s = dropWhile ((=) 0) bs"
  have hd: "s \<noteq> [] \<Longrightarrow> hd s \<noteq> 0" unfolding s_def by (metis hd_dropWhile)
  have v: "be_val s = be_val bs" by (simp add: s_def be_val_strip)
  have "minimal (uint_contents bs) \<and> be_sval (uint_contents bs) = int (be_val bs)"
  proof (cases s)
    case Nil
    then have "uint_contents bs = [0]" by (simp add: uint_contents_def s_def [symmetric])
    then show ?thesis using v Nil by (simp add: minimal_def be_sval_single)
  next
    case (Cons x t)
    with hd have "x \<noteq> 0" by simp
    show ?thesis
    proof (cases "128 \<le> unat x")
      case True
      then have "uint_contents bs = 0 # s" by (simp add: uint_contents_def s_def [symmetric] Cons)
      moreover have "be_sval (0 # s) = int (be_val s)" by (simp add: be_sval_def be_val_Cons)
      ultimately show ?thesis using True v by (simp add: minimal_def Cons)
    next
      case False
      then have "uint_contents bs = s" by (simp add: uint_contents_def s_def [symmetric] Cons)
      moreover have "x \<noteq> 0xff" using False by auto
      moreover have "be_sval s = int (be_val s)" using False by (simp add: be_sval_def Cons)
      ultimately show ?thesis using v \<open>x \<noteq> 0\<close> by (simp add: minimal_def Cons)
    qed
  qed
  then have m: "minimal (uint_contents bs)" and val: "be_sval (uint_contents bs) = int (be_val bs)"
    by (rule conjunct1, rule conjunct2)
  from m show ?thesis unfolding minimal_iff val .
qed

lemma u64_be_bytes:
  "map (\<lambda>i. ucast (drop_bit (8 * (7 - i)) v)) [0..<8] = be_bytes 8 (unat (v :: u64))"
proof -
  have b: "(ucast (drop_bit (8 * k) v) :: u8) = byte (unat v div 256 ^ k)" for k
    by (simp add: eq_byte_iff unat_ucast_mod unat_drop_bit power_mult)
  have "8 - Suc i = 7 - i" for i by simp
  then show ?thesis by (simp only: b be_bytes_map)
qed

definition add_integer :: "malloc_fn \<Rightarrow> int \<Rightarrow> nat \<Rightarrow> (cbb, unit) op" where
  "add_integer ma i d = op_bind (CBB_add_asn1 ma CBS_ASN1_INTEGER d) (\<lambda>_.
      op_bind (add_u8s ma (int_bytes i) (Suc d)) (\<lambda>_. CBB_flush ma d))"

lemma CBB_add_asn1_uint64_eq: "CBB_add_asn1_uint64 ma v d = add_integer ma (int (unat v)) d"
proof -
  have "be_val (be_bytes 8 (unat v)) = unat v"
    using unat_u64_less [of v] by (simp add: be_val_be_bytes)
  then show ?thesis
    unfolding CBB_add_asn1_uint64_def u64_be_bytes uint64_emit uint_contents_int_bytes add_integer_def
    by simp
qed

lemma add_integer_refines:
  "malloc_spec ma \<Longrightarrow> refines (add_integer ma i d) (b_add d (der_element CBS_ASN1_INTEGER (int_bytes i)))"
  unfolding add_integer_def by (intro element_refines add_u8s_refines int_bytes_not_Nil)

text \<open>The negative numbers: dropping redundant sign bytes keeps the value.\<close>

lemma be_sval_sign:
  assumes "128 \<le> unat b"
  shows "be_sval (0xff # b # t) = be_sval (b # t)"
  using assms by (simp add: be_sval_def be_val_Cons)

lemma skip_sign_bytes_sval:
  assumes "n < length bs" and "128 \<le> unat (bs ! n)"
  defines "s \<equiv> skip_sign_bytes bs n"
  shows "s \<le> n \<and> be_sval (rev (take (Suc s) bs)) = be_sval (rev (take (Suc n) bs))
    \<and> minimal (rev (take (Suc s) bs))"
  using assms(1,2) unfolding s_def
proof (induction n)
  case 0
  then show ?case by (cases bs) (simp_all add: minimal_def)
next
  case (Suc n)
  have tk: "rev (take (Suc (Suc n)) bs) = bs ! Suc n # bs ! n # rev (take n bs)"
    "rev (take (Suc n) bs) = bs ! n # rev (take n bs)"
    using Suc.prems(1) by (simp_all add: take_Suc_conv_app_nth)
  show ?case
  proof (cases "bs ! Suc n = 0xff \<and> 128 \<le> unat (bs ! n)")
    case True
    then have "be_sval (rev (take (Suc (Suc n)) bs)) = be_sval (rev (take (Suc n) bs))"
      using be_sval_sign [of "bs ! n" "rev (take n bs)"] by (simp add: tk)
    then show ?thesis using Suc.IH Suc.prems(1) True by (simp add: not_less)
  next
    case False
    have "bs ! Suc n \<noteq> 0" using Suc.prems(2) by auto
    then have "minimal (rev (take (Suc (Suc n)) bs))" using False by (simp add: tk minimal_def)
    then show ?thesis using False by (auto simp: not_less)
  qed
qed

lemma sint_be_bytes: "be_sval (rev (le_bytes 8 (unat (v :: u64)))) = sint v"
proof -
  have len: "length (le_bytes 8 (unat v)) = 8" by simp
  have "sint (word_of_nat (le_val (le_bytes 8 (unat v))) :: u64) = be_sval (rev (le_bytes 8 (unat v)))"
    using int64_word [of "rev (le_bytes 8 (unat v))"] len by (auto simp: length_0_conv [symmetric] simp del: length_0_conv)
  moreover have "le_val (le_bytes 8 (unat v)) = unat v"
    using unat_u64_less [of v] by (simp add: le_val_le_bytes)
  ultimately show ?thesis by simp
qed

lemma int64_emission:
  assumes "sint (v :: u64) < 0"
  defines "bs \<equiv> le_bytes 8 (unat v)"
  shows "map ((!) bs) (rev [0..<Suc (skip_sign_bytes bs 7)]) = int_bytes (sint v)"
proof -
  define s where "s = skip_sign_bytes bs 7"
  have len: "length bs = 8" by (simp add: bs_def)
  have all: "rev (take (Suc 7) bs) = rev bs" using len by simp
  have ne: "rev bs \<noteq> []" using len by auto
  have "\<not> 0 \<le> be_sval (rev bs)" using assms(1) sint_be_bytes [of v] by (simp add: bs_def)
  then have "128 \<le> unat (hd (rev bs))" using be_sval_nonneg [OF ne] by simp
  moreover have "hd (rev bs) = bs ! 7" using len ne by (simp add: hd_rev last_conv_nth)
  ultimately have top: "128 \<le> unat (bs ! 7)" by simp
  have s: "s \<le> 7" "be_sval (rev (take (Suc s) bs)) = sint v" "minimal (rev (take (Suc s) bs))"
    using skip_sign_bytes_sval [of 7 bs] len top sint_be_bytes [of v] all
    by (simp_all add: s_def bs_def)
  have "map ((!) bs) [0..<Suc s] = take (Suc s) bs"
    using s(1) len by (intro nth_equalityI) (simp_all del: upt_Suc)
  then have "map ((!) bs) (rev [0..<Suc s]) = rev (take (Suc s) bs)"
    by (simp only: rev_map [symmetric])
  also have "\<dots> = int_bytes (sint v)" using s(3) unfolding minimal_iff s(2) .
  finally show ?thesis by (simp only: s_def)
qed

lemma CBB_add_asn1_int64_eq: "CBB_add_asn1_int64 ma v d = add_integer ma (sint v) d"
proof (cases "0 \<le> sint v")
  case True
  then have "sint v = int (unat v)" using sint_nonneg by simp
  then show ?thesis
    using CBB_add_asn1_uint64_eq [of ma v d] True by (simp add: CBB_add_asn1_int64_def)
next
  case False
  then show ?thesis
    using int64_emission [of v]
    by (simp add: CBB_add_asn1_int64_def add_integer_def Let_def emit_down_eq
        del: upt_Suc emit_down.simps)
qed

lemma CBB_add_asn1_octet_string_refines:
  "malloc_spec ma \<Longrightarrow> length xs < 2 ^ 63 \<Longrightarrow>
   refines (CBB_add_asn1_octet_string ma xs d) (b_add d (der_element CBS_ASN1_OCTETSTRING xs))"
  unfolding CBB_add_asn1_octet_string_def by (intro element_refines CBB_add_bytes_refines)

lemma CBB_add_asn1_bool_refines:
  assumes "malloc_spec ma"
  shows "refines (CBB_add_asn1_bool ma v d)
    (b_add d (der_element CBS_ASN1_BOOLEAN [bool_byte (v \<noteq> 0)]))"
  using element_refines [OF assms CBB_add_u8_refines [OF assms, of "if v \<noteq> 0 then 0xff else 0"]]
  by (auto simp: CBB_add_asn1_bool_def bool_byte_def)

section \<open>The operations succeed\<close>

text \<open>
  With an allocator that serves every request up to PTRDIFF_MAX, the operations of a growing CBB
  fail only where the abstract builder does: when a length does not fit its prefix. The bound on
  the data keeps every request of the doubling buffer below PTRDIFF_MAX.
\<close>

abbreviation max_data :: nat where "max_data \<equiv> 2 ^ 60"

definition growable :: "cbb \<Rightarrow> bool" where
  "growable c \<longleftrightarrow> (\<forall>b. cbb_base c = Some b \<longrightarrow> can_resize b)"

definition completes :: "(cbb, 'a) op \<Rightarrow> (builder \<Rightarrow> builder option) \<Rightarrow> bool" where
  "completes f F \<longleftrightarrow> (\<forall>c B B'. cbb_rep c B \<longrightarrow> growable c \<longrightarrow> F B = Some B' \<longrightarrow>
     length (b_data B') < max_data \<longrightarrow> (\<exists>r c'. f c = (Some r, c') \<and> growable c'))"

lemma completesI:
  "(\<And>c B B'. cbb_rep c B \<Longrightarrow> growable c \<Longrightarrow> F B = Some B' \<Longrightarrow> length (b_data B') < max_data \<Longrightarrow>
     \<exists>r c'. f c = (Some r, c') \<and> growable c') \<Longrightarrow> completes f F"
  by (simp add: completes_def)

lemma completesD:
  assumes "completes f F" "cbb_rep c B" "growable c" "F B = Some B'" "length (b_data B') < max_data"
  obtains r c' where "f c = (Some r, c')" "growable c'"
  using assms unfolding completes_def by blast

definition grows :: "(builder \<Rightarrow> builder option) \<Rightarrow> bool" where
  "grows F \<longleftrightarrow> (\<forall>B B'. b_ok B \<longrightarrow> F B = Some B' \<longrightarrow>
     b_ok B' \<and> length (b_data B) \<le> length (b_data B'))"

lemma growsD: "grows F \<Longrightarrow> b_ok B \<Longrightarrow> F B = Some B' \<Longrightarrow> b_ok B' \<and> length (b_data B) \<le> length (b_data B')"
  unfolding grows_def by blast

lemma completes_bind:
  assumes f: "completes f F" "refines f F" and k: "\<And>r. completes (k r) G" and "grows F" "grows G"
  shows "completes (op_bind f k) (\<lambda>B. Option.bind (F B) G)"
proof (rule completesI)
  fix c B B'
  assume rep: "cbb_rep c B" and g: "growable c" and "Option.bind (F B) G = Some B'"
    and small: "length (b_data B') < max_data"
  then obtain B1 where B1: "F B = Some B1" "G B1 = Some B'" by (auto simp: bind_eq_Some_conv)
  have "b_ok B" using rep by (simp add: cbb_rep_alt)
  then have "b_ok B1" using growsD [OF assms(4) _ B1(1)] by simp
  then have "length (b_data B1) \<le> length (b_data B')" using growsD [OF assms(5) _ B1(2)] by simp
  with small have "length (b_data B1) < max_data" by (rule_tac le_less_trans)
  then obtain a c1 where 1: "f c = (Some a, c1)" "growable c1"
    using completesD [OF f(1) rep g B1(1)] by blast
  have "cbb_rep c1 B1" using refinesD [OF f(2) rep 1(1)] B1(1) by (metis option.inject)
  from completesD [OF k this 1(2) B1(2) small] obtain r c' where "k a c1 = (Some r, c')" "growable c'"
    by blast
  then show "\<exists>r c'. op_bind f k c = (Some r, c') \<and> growable c'"
    using 1(1) by (simp add: op_bind_def)
qed

lemma reserve_completes:
  assumes ma: "malloc_total ma" and b: "buffer_rep b xs" "can_resize b"
    and n: "length xs + n < 2 ^ 61"
  obtains p b' where "cbb_buffer_reserve ma n b = (Some p, b')" "can_resize b'"
proof -
  have len: "cb_len b = length xs" using b(1) by (rule buffer_rep_len)
  have sum: "size_add (length xs) n = length xs + n" using n by simp
  define newcap where "newcap = (if (cb_cap b * 2) mod size_limit < cb_cap b
        \<or> (cb_cap b * 2) mod size_limit < length xs + n
      then length xs + n else (cb_cap b * 2) mod size_limit)"
  show thesis
  proof (cases "cb_cap b < length xs + n")
    case False
    with that sum b(2) len show ?thesis by (simp add: cbb_buffer_reserve_def Let_def)
  next
    case True
    then have "newcap + 8 < 2 ^ 63" using n by (simp add: newcap_def)
    then obtain r where
      "OPENSSL_realloc ma (Some \<lparr>stored_size = cb_cap b, block_bytes = cb_buf b\<rparr>) newcap = Some r"
      by (rule OPENSSL_realloc_total [OF ma])
    then have "cbb_buffer_reserve ma n b
        = (Some (cb_len b), b\<lparr>cb_buf := block_bytes r, cb_cap := newcap\<rparr>)"
      using True b(2)
      unfolding cbb_buffer_reserve_def Let_def len sum newcap_def [symmetric] by simp
    from that [OF this] b(2) show ?thesis by simp
  qed
qed

lemma add_completes:
  assumes "malloc_total ma" "buffer_rep b xs" "can_resize b" "length xs + n < 2 ^ 61"
  obtains p b' where "cbb_buffer_add ma n b = (Some p, b')" "can_resize b'"
proof -
  obtain p b' where "cbb_buffer_reserve ma n b = (Some p, b')" "can_resize b'"
    using reserve_completes [OF assms] .
  then show ?thesis using that by (simp add: cbb_buffer_add_def op_bind_def)
qed

lemma flush_prefix_completes:
  assumes b: "buffer_rep b (pre @ hole @ c)" and hole: "length hole = pending_len_len child"
    and off: "cbb_offset child = length pre" and fits: "len < 256 ^ length hole"
  shows "\<exists>b'. flush_prefix child rest len b = (True, [], b') \<and> can_resize b' = can_resize b"
proof -
  obtain buf v where st: "store_be (length hole) (length pre) len (cb_buf b) = (buf, v)"
    by (cases "store_be (length hole) (length pre) len (cb_buf b)")
  have "v = 0" using store_be_rep [OF b refl st] fits by simp
  then show ?thesis by (simp add: flush_prefix_def off hole [symmetric] st Let_def)
qed

lemma flush_asn1_completes:
  assumes ma: "malloc_total ma" and b: "buffer_rep b (pre @ [0] @ c)" and g: "can_resize b"
    and child: "cbb_offset child = length pre" "child_start = length pre + 1"
    and fits: "length c \<le> 0xfffffffe" "length pre < 2 ^ 60"
  shows "\<exists>b'. flush_asn1 ma child rest child_start (length c) b = (True, [], b') \<and> can_resize b'"
proof (cases "length c \<le> 0x7f")
  case True
  let ?b = "b\<lparr>cb_buf := (cb_buf b)[length pre := byte (length c)]\<rparr>"
  have "buffer_rep ?b ((pre @ [byte (length c)]) @ [] @ c)"
    using update_rep [of b pre 0 c] b by simp
  from flush_prefix_completes [OF this, of "child\<lparr>cbb_offset := length pre + 1, pending_len_len := 0\<rparr>" 0 rest]
  show ?thesis using True child g by (auto simp: flush_asn1_def asn1_prefix_short)
next
  case False
  have ma': "malloc_spec ma" using ma by (simp add: malloc_total_def)
  define n where "n = der_len_bytes (length c)"
  have n: "1 \<le> n" "n \<le> 4" "length c < 256 ^ n"
    using der_len_bytes_bounds [of "length c"] False fits by (simp_all add: n_def)
  let ?first = "byte (128 + n)"
  have "length (pre @ [0] @ c) + n < 2 ^ 61" using fits n by simp
  from add_completes [OF ma b g this]
  obtain p b1 where add: "cbb_buffer_add ma n b = (Some p, b1)" and g1: "can_resize b1" .
  have "length (pre @ [0] @ c) + n + 8 < size_limit" using fits n by simp
  from add_rep [OF ma' b this add] obtain ys where ys: "length ys = n"
    and "buffer_rep b1 ((pre @ [0] @ c) @ ys)" by blast
  then have b1: "buffer_rep b1 ((pre @ [0]) @ c @ ys)" by simp
  define b2 where "b2 = buf_memmove (length pre + 1 + n) (length pre + 1) (length c) b1"
  have "buffer_rep b2 (pre @ 0 # take n (c @ ys) @ c)"
    using memmove_rep [OF b1 ys] by (simp add: b2_def)
  from update_rep [OF this, of ?first]
  have "buffer_rep (b2\<lparr>cb_buf := (cb_buf b2)[length pre := ?first]\<rparr>)
      ((pre @ [?first]) @ take n (c @ ys) @ c)" by simp
  from flush_prefix_completes [OF this, of "child\<lparr>cbb_offset := length pre + 1, pending_len_len := n\<rparr>"
      "length c" rest] ys n(3) g1
  show ?thesis
    using False fits(1) n(1) child add
    by (auto simp: flush_asn1_def asn1_prefix_long n_def [symmetric] Let_def b2_def buf_memmove_def
        buf_write_def)
qed

lemma length_seal:
  "seal l c = Some t \<Longrightarrow> layer_ok l \<Longrightarrow> l_prefix l + length c \<le> length t"
  by (auto simp: seal_def layer_ok_def der_len_def split: if_splits)

lemma length_sealed:
  "sealed ls = Some t \<Longrightarrow> \<forall>l \<in> set ls. layer_ok l \<Longrightarrow> length (raw ls) \<le> length t"
proof (induction ls arbitrary: t)
  case (Cons l ls)
  then obtain u where u: "sealed ls = Some u" "seal l (l_bytes l @ u) = Some t"
    by (auto split: option.splits)
  then have "length (raw ls) \<le> length u" using Cons by auto
  moreover have "l_prefix l + length (l_bytes l @ u) \<le> length t"
    using length_seal [OF u(2)] Cons.prems(2) by simp
  ultimately show ?case by simp
qed simp

lemma flush_chain_completes:
  assumes ma: "malloc_total ma"
  shows "buffer_rep b (pre @ raw ls) \<Longrightarrow> can_resize b \<Longrightarrow> \<forall>l \<in> set ls. layer_ok l \<Longrightarrow>
    sealed ls = Some t \<Longrightarrow> length (pre @ t) < max_data \<Longrightarrow>
    \<exists>b'. cbb_flush_chain ma (children_at (length pre) ls) b = (True, [], b') \<and> can_resize b'"
proof (induction ls arbitrary: b pre t)
  case Nil
  then show ?case by (auto elim!: buffer_repE)
next
  case (Cons l ls)
  have ma': "malloc_spec ma" using ma by (simp add: malloc_total_def)
  let ?k = "l_prefix l"
  let ?child = "\<lparr>cbb_offset = length pre, pending_len_len = ?k, pending_is_asn1 = l_asn1 l\<rparr>"
  let ?pre = "pre @ replicate ?k 0 @ l_bytes l"
  have k: "?k \<noteq> 0" "?k \<le> 8" "l_asn1 l \<Longrightarrow> ?k = 1" "layer_ok l"
    using Cons.prems(3) by (auto simp: layer_ok_def)
  have b: "buffer_rep b (?pre @ raw ls)" using Cons.prems(1) by simp
  have at: "length pre + ?k + length (l_bytes l) = length ?pre" by simp
  have no_err: "\<not> cb_error b" using b by (auto elim!: buffer_repE)
  from Cons.prems(4) obtain u where u: "sealed ls = Some u" "seal l (l_bytes l @ u) = Some t"
    by (auto split: option.splits)
  have lt: "?k + length (l_bytes l @ u) \<le> length t" by (rule length_seal [OF u(2) k(4)])
  then have small: "length (?pre @ u) < max_data" using Cons.prems(5) by simp
  have start: "size_add (length pre) ?k = length pre + ?k" using small by simp
  from Cons.IH [OF b Cons.prems(2) _ u(1) small] Cons.prems(3)
  obtain b1 where rec: "cbb_flush_chain ma (children_at (length ?pre) ls) b = (True, [], b1)"
    and g1: "can_resize b1" by auto
  have ok: "\<forall>l \<in> set ls. layer_ok l" using Cons.prems(3) by simp
  define c where "c = l_bytes l @ u"
  have b1: "buffer_rep b1 (pre @ replicate ?k 0 @ c)"
    using flush_chain_rep [OF ma' b ok rec] u(1) by (simp add: c_def)
  have len: "cb_len b1 = length pre + ?k + length c"
    using buffer_rep_len [OF b1] by simp
  have run: "cbb_flush_chain ma (children_at (length pre) (l # ls)) b = (if l_asn1 l
      then flush_asn1 ma ?child [] (length pre + ?k) (length c) b1
      else flush_prefix ?child [] (length c) b1)"
    unfolding children_at.simps at
    using no_err k(1) by (simp add: rec start len del: length_append)
  show ?case
  proof (cases "l_asn1 l")
    case True
    have fit: "length c \<le> 0xfffffffe" using u(2) True by (auto simp: seal_def c_def split: if_splits)
    have b1': "buffer_rep b1 (pre @ [0] @ c)" using b1 k(3) [OF True] by simp
    have "length pre < 2 ^ 60" using small by simp
    from flush_asn1_completes [OF ma b1' g1 _ _ fit this, of ?child "length pre + ?k" "[]"]
    show ?thesis using run True k(3) by simp
  next
    case False
    have "length c < 256 ^ ?k" using u(2) False by (auto simp: seal_def c_def split: if_splits)
    then show ?thesis
      using flush_prefix_completes [OF b1, of ?child "length c" "[]"] run False g1 by auto
  qed
qed

lemma CBB_flush_completes:
  assumes ma: "malloc_total ma"
  shows "completes (CBB_flush ma d) (b_close d)"
proof (rule completesI)
  fix c B B'
  assume rep: "cbb_rep c B" and g: "growable c" and cl: "b_close d B = Some B'"
    and small: "length (b_data B') < max_data"
  obtain r ls where B: "B = (r, ls)" by (cases B)
  define hi where "hi = take d ls"
  define lo where "lo = drop d ls"
  have ls: "ls = hi @ lo" by (simp add: hi_def lo_def)
  from cl have d: "d \<le> length ls" by (auto simp: b_close_def B split: if_splits)
  from cl d obtain t where t: "sealed lo = Some t" and B': "B' = add_top t (r, hi)"
    by (auto simp: b_close_def B lo_def hi_def split: option.splits)
  from rep obtain b where b: "cbb_base c = Some b" "buffer_rep b ((r @ raw hi) @ raw lo)"
    and ch: "cbb_children c = children_at (length r) hi @ children_at (length (r @ raw hi)) lo"
    and ok: "\<forall>l \<in> set lo. layer_ok l"
    by (auto simp: cbb_rep_def B ls children_at_append)
  have "b_data B' = (r @ raw hi) @ t" by (simp add: B' b_data_def [of "(r, hi)"])
  with small have "length ((r @ raw hi) @ t) < max_data" by simp
  moreover have "can_resize b" using g b(1) by (simp add: growable_def)
  ultimately obtain b' where
    "cbb_flush_chain ma (children_at (length (r @ raw hi)) lo) b = (True, [], b')" "can_resize b'"
    using flush_chain_completes [OF ma b(2) _ ok t] by blast
  then show "\<exists>u c'. CBB_flush ma d c = (Some u, c') \<and> growable c'"
    using b(1) d by (simp add: CBB_flush_def ch hi_def lo_def growable_def)
qed

lemma b_add_data: "b_add d xs B = Some B' \<Longrightarrow>
    \<exists>B1. b_close d B = Some B1 \<and> B' = add_top xs B1"
  by (auto simp: b_add_def)

lemma buffer_completes_add:
  assumes ma: "malloc_total ma"
    and f: "\<And>b zs. buffer_rep b zs \<Longrightarrow> can_resize b \<Longrightarrow> length zs + length xs < 2 ^ 61 \<Longrightarrow>
      \<exists>r b'. f b = (Some r, b') \<and> can_resize b'"
  shows "completes (op_bind (CBB_flush ma d) (\<lambda>_. on_base f)) (b_add d xs)"
proof (rule completesI)
  fix c B B'
  assume rep: "cbb_rep c B" and g: "growable c" and "b_add d xs B = Some B'"
    and small: "length (b_data B') < max_data"
  then obtain B1 where B1: "b_close d B = Some B1" "B' = add_top xs B1" by (auto simp: b_add_def)
  have ma': "malloc_spec ma" using ma by (simp add: malloc_total_def)
  have s1: "length (b_data B1) + length xs < max_data" using small B1(2) by simp
  then have "length (b_data B1) < max_data" by simp
  from completesD [OF CBB_flush_completes [OF ma] rep g B1(1) this]
  obtain u c1 where fl: "CBB_flush ma d c = (Some u, c1)" and g1: "growable c1" .
  have "cbb_rep c1 B1"
    using refinesD [OF CBB_flush_refines [OF ma'] rep fl] B1(1) by (metis option.inject)
  then obtain b where b: "cbb_base c1 = Some b" "buffer_rep b (b_data B1)" by (auto simp: cbb_rep_alt)
  moreover have "can_resize b" using g1 b(1) by (simp add: growable_def)
  moreover have "length (b_data B1) + length xs < 2 ^ 61" using s1 by simp
  ultimately obtain r b' where "f b = (Some r, b')" "can_resize b'" using f by blast
  then show "\<exists>r c'. op_bind (CBB_flush ma d) (\<lambda>_. on_base f) c = (Some r, c') \<and> growable c'"
    using fl b(1) by (simp add: op_bind_def on_base_def growable_def)
qed

lemma cbb_add_u_completes:
  assumes ma: "malloc_total ma" and v: "v < 256 ^ k"
  shows "completes (cbb_add_u ma k v d) (b_add d (be_bytes k v))"
  unfolding cbb_add_u_def
proof (rule buffer_completes_add [OF ma])
  fix b zs
  assume b: "buffer_rep b zs" "can_resize b" and n: "length zs + length (be_bytes k v) < 2 ^ 61"
  have ma': "malloc_spec ma" using ma by (simp add: malloc_total_def)
  have n': "length zs + k < 2 ^ 61" using n by simp
  from add_completes [OF ma b n'] obtain p b1
    where add: "cbb_buffer_add ma k b = (Some p, b1)" and g: "can_resize b1" .
  have "length zs + k + 8 < size_limit" using n' by simp
  from add_rep [OF ma' b(1) this add] obtain ys where
    p: "p = length zs" and ys: "length ys = k" "buffer_rep b1 (zs @ ys @ [])" by auto
  obtain buf v' where st: "store_be k p v (cb_buf b1) = (buf, v')"
    by (cases "store_be k p v (cb_buf b1)")
  with store_be_rep [OF ys(2) ys(1), of v buf v'] p v have "v' = 0" by simp
  with add st g b show "\<exists>r b'. cbb_buffer_add_u ma v k b = (Some r, b') \<and> can_resize b'"
    by (simp add: cbb_buffer_add_u_def op_bind_def op_return_def Let_def)
qed

lemma CBB_add_u8_completes:
  "malloc_total ma \<Longrightarrow> completes (CBB_add_u8 ma v d) (b_add d [v])"
  using cbb_add_u_completes [of ma "unat v" 1 d] unat_byte_less [of v]
  by (simp add: CBB_add_u8_def)

lemma CBB_add_bytes_completes:
  assumes ma: "malloc_total ma"
  shows "completes (CBB_add_bytes ma xs d) (b_add d xs)"
proof -
  have on_bind: "op_bind (on_base f) (\<lambda>a. on_base (g a)) = on_base (op_bind f g)"
    for f :: "(cbb_buffer, nat) op" and g :: "nat \<Rightarrow> (cbb_buffer, unit) op"
    by (rule ext) (auto simp: op_bind_def on_base_def split: option.splits prod.splits)
  show ?thesis
    unfolding CBB_add_bytes_def on_bind
  proof (rule buffer_completes_add [OF ma])
    fix b zs
    assume b: "buffer_rep b zs" "can_resize b" "length zs + length xs < 2 ^ 61"
    from add_completes [OF ma b] obtain p b1
      where add: "cbb_buffer_add ma (length xs) b = (Some p, b1)" and g: "can_resize b1" .
    then show "\<exists>r b'. op_bind (cbb_buffer_add ma (length xs)) (\<lambda>dest b. (Some (), buf_write dest xs b)) b
        = (Some r, b') \<and> can_resize b'"
      by (simp add: op_bind_def buf_write_def)
  qed
qed

lemma b_close_grows: "grows (b_close d)"
  unfolding grows_def
proof (intro allI impI)
  fix B B'
  assume ok: "b_ok B" and cl: "b_close d B = Some B'"
  obtain r ls where B: "B = (r, ls)" by (cases B)
  from cl obtain t where t: "sealed (drop d ls) = Some t" and B': "B' = add_top t (r, take d ls)"
    by (auto simp: b_close_def B split: if_splits option.splits)
  have "\<forall>l \<in> set (drop d ls). layer_ok l" using ok by (auto simp: b_ok_def B dest: in_set_dropD)
  then have "length (raw (drop d ls)) \<le> length t" by (rule length_sealed [OF t])
  moreover have "b_data B = b_data (r, take d ls) @ raw (drop d ls)"
    using raw_simps(3) [of "take d ls" "drop d ls"] by (simp add: b_data_def B)
  moreover have "b_ok (r, take d ls)" using ok by (auto simp: b_ok_def B dest: in_set_takeD)
  ultimately show "b_ok B' \<and> length (b_data B) \<le> length (b_data B')" by (simp add: B')
qed

lemma b_add_grows: "grows (b_add d xs)"
  unfolding grows_def
proof (intro allI impI)
  fix B B'
  assume ok: "b_ok B" and "b_add d xs B = Some B'"
  then obtain B1 where "b_close d B = Some B1" "B' = add_top xs B1" by (auto simp: b_add_def)
  with growsD [OF b_close_grows ok this(1)]
  show "b_ok B' \<and> length (b_data B) \<le> length (b_data B')" by simp
qed

lemma b_open_asn1_data:
  assumes "b_open_asn1 d tag B = Some B1"
  obtains B0 where "b_add d (der_tag tag) B = Some B0" "length (snd B0) = d"
    "B1 = (fst B0, snd B0 @ [\<lparr>l_prefix = 1, l_asn1 = True, l_bytes = []\<rparr>])"
    "b_data B1 = b_data B0 @ [0]" "b_ok B1 = b_ok B0"
proof -
  from assms obtain B0 where B0: "b_add d (der_tag tag) B = Some B0"
    and "b_open d 1 True B0 = Some B1" by (auto simp: b_open_asn1_def bind_eq_Some_conv)
  moreover have len: "length (snd B0) = d" using B0 by (rule b_add_length)
  ultimately have B1: "B1 = (fst B0, snd B0 @ [\<lparr>l_prefix = 1, l_asn1 = True, l_bytes = []\<rparr>])"
    by (simp add: b_open_same)
  show thesis
    by (rule that [OF B0 len B1]) (simp_all add: B1 b_data_def b_ok_def layer_ok_def)
qed

lemma b_open_asn1_grows: "grows (b_open_asn1 d tag)"
  unfolding grows_def
proof (intro allI impI)
  fix B B1
  assume ok: "b_ok B" and "b_open_asn1 d tag B = Some B1"
  then show "b_ok B1 \<and> length (b_data B) \<le> length (b_data B1)"
    by (rule_tac b_open_asn1_data) (use growsD [OF b_add_grows ok] in fastforce)+
qed

lemma add_u8s_completes:
  assumes ma: "malloc_total ma"
  shows "xs \<noteq> [] \<Longrightarrow> completes (add_u8s ma xs d) (b_add d xs)"
proof (induction xs)
  case (Cons x xs)
  have ma': "malloc_spec ma" using ma by (simp add: malloc_total_def)
  show ?case
  proof (cases "xs = []")
    case True
    then show ?thesis using CBB_add_u8_completes [OF ma] by simp
  next
    case False
    have "completes (add_u8s ma (x # xs) d) (\<lambda>B. Option.bind (b_add d [x] B) (b_add d xs))"
      unfolding add_u8s.simps
      by (intro completes_bind CBB_add_u8_completes [OF ma] CBB_add_u8_refines [OF ma']
          Cons.IH False b_add_grows)
    then show ?thesis by (simp add: bind_b_add)
  qed
qed simp

lemma CBB_add_asn1_completes:
  assumes ma: "malloc_total ma"
  shows "completes (CBB_add_asn1 ma tag d) (b_open_asn1 d tag)"
proof (rule completesI)
  fix c B B1
  assume rep: "cbb_rep c B" and g: "growable c" and op: "b_open_asn1 d tag B = Some B1"
    and small: "length (b_data B1) < max_data"
  have ma': "malloc_spec ma" using ma by (simp add: malloc_total_def)
  define hd where "hd = op_bind (CBB_flush ma d) (\<lambda>_. add_u8s ma (der_tag tag) d)"
  have def': "CBB_add_asn1 ma tag d =
     op_bind hd (\<lambda>_.
       op_bind (on_base (\<lambda>b. (Some (cb_len b), b))) (\<lambda>offset.
       op_bind (CBB_add_u8 ma 0 d) (\<lambda>_ cbb.
         (Some (), cbb_open_child d
            \<lparr>cbb_offset = offset, pending_len_len = 1, pending_is_asn1 = True\<rparr> cbb))))"
    unfolding hd_def CBB_add_asn1_def asn1_tag_emission [symmetric] Let_def op_bind_assoc ..
  have hdr: "refines hd (b_add d (der_tag tag))" and hdc: "completes hd (b_add d (der_tag tag))"
    using refines_bind [OF CBB_flush_refines [OF ma'] add_u8s_refines [OF ma'], of "der_tag tag" d d]
      completes_bind [OF CBB_flush_completes [OF ma] CBB_flush_refines [OF ma']
        add_u8s_completes [OF ma] b_close_grows b_add_grows, of "der_tag tag" d d]
    by (simp_all add: bind_b_close hd_def)
  obtain B0 where B0: "b_add d (der_tag tag) B = Some B0" "length (snd B0) = d"
    "b_data B1 = b_data B0 @ [0]" using b_open_asn1_data [OF op] by metis
  then have "length (b_data B0) < max_data" using small by simp
  from completesD [OF hdc rep g B0(1) this] obtain u c1 where 1: "hd c = (Some u, c1)" "growable c1" .
  have rep1: "cbb_rep c1 B0" using refinesD [OF hdr rep 1(1)] B0(1) by (metis option.inject)
  then obtain b where b: "cbb_base c1 = Some b" by (auto simp: cbb_rep_alt)
  have here: "on_base (\<lambda>b. (Some (cb_len b), b)) c1 = (Some (cb_len b), c1)"
    using b by (cases c1) (simp add: on_base_def)
  have "b_add d [0] B0 = Some (add_top [0] B0)" using B0(2) by simp
  moreover have "length (b_data (add_top [0] B0)) < max_data" using small B0(3) by simp
  ultimately obtain v c2 where "CBB_add_u8 ma 0 d c1 = (Some v, c2)" "growable c2"
    using completesD [OF CBB_add_u8_completes [OF ma] rep1 1(2)] by blast
  then show "\<exists>r c'. CBB_add_asn1 ma tag d c = (Some r, c') \<and> growable c'"
    unfolding def' using 1(1) here by (simp add: op_bind_def growable_def cbb_open_child_def)
qed

section \<open>Whole elements and whole buffers\<close>

lemma b_element:
  assumes "length xs \<le> 0xfffffffe"
  shows "Option.bind (b_open_asn1 d tag B) (\<lambda>B. Option.bind (b_add (Suc d) xs B) (b_close d))
    = b_add d (der_element tag xs) B"
proof (cases "b_add d (der_tag tag) B")
  case None
  then have "b_close d B = None" by (simp add: b_add_def)
  then show ?thesis by (simp add: b_open_asn1_def b_add_def)
next
  case (Some B0)
  then have len: "length (snd B0) = d" by (rule b_add_length)
  define B1 where "B1 = (fst B0, snd B0 @ [\<lparr>l_prefix = 1, l_asn1 = True, l_bytes = []\<rparr>])"
  have op: "b_open_asn1 d tag B = Some B1"
    using Some len by (simp add: b_open_asn1_def b_open_same B1_def)
  define B2 where "B2 = add_top xs B1"
  have ad: "b_add (Suc d) xs B1 = Some B2" using len by (simp add: B1_def B2_def)
  have "B2 = (fst B0, snd B0 @ [\<lparr>l_prefix = 1, l_asn1 = True, l_bytes = xs\<rparr>])"
    by (simp add: B1_def B2_def add_top.simps)
  then obtain B3 where cl: "b_close d B2 = Some B3"
    using assms len by (simp add: b_close_def seal_def)
  show ?thesis using close_element [OF op ad cl] op ad cl by simp
qed

lemma element_completes:
  assumes ma: "malloc_total ma" and body: "completes body (b_add (Suc d) xs)"
    "refines body (b_add (Suc d) xs)" and small: "length xs \<le> 0xfffffffe"
  shows "completes (op_bind (CBB_add_asn1 ma tag d) (\<lambda>_. op_bind body (\<lambda>_. CBB_flush ma d)))
    (b_add d (der_element tag xs))"
proof -
  have ma': "malloc_spec ma" using ma by (simp add: malloc_total_def)
  have tail: "grows (\<lambda>B. Option.bind (b_add (Suc d) xs B) (b_close d))"
    unfolding grows_def
  proof (intro allI impI)
    fix B B'
    assume ok: "b_ok B" and "Option.bind (b_add (Suc d) xs B) (b_close d) = Some B'"
    then obtain B1 where B1: "b_add (Suc d) xs B = Some B1" "b_close d B1 = Some B'"
      by (auto simp: bind_eq_Some_conv)
    from growsD [OF b_add_grows ok B1(1)] growsD [OF b_close_grows _ B1(2)]
    show "b_ok B' \<and> length (b_data B) \<le> length (b_data B')" by auto
  qed
  have "completes (op_bind (CBB_add_asn1 ma tag d) (\<lambda>_. op_bind body (\<lambda>_. CBB_flush ma d)))
      (\<lambda>B. Option.bind (b_open_asn1 d tag B) (\<lambda>B. Option.bind (b_add (Suc d) xs B) (b_close d)))"
    by (intro completes_bind CBB_add_asn1_completes [OF ma] CBB_add_asn1_refines [OF ma']
        body CBB_flush_completes [OF ma] b_open_asn1_grows b_add_grows b_close_grows tail)
  then show ?thesis by (simp only: b_element [OF small])
qed

lemma add_integer_completes:
  assumes ma: "malloc_total ma" and len: "length (int_bytes i) \<le> 9"
  shows "completes (add_integer ma i d) (b_add d (der_element CBS_ASN1_INTEGER (int_bytes i)))"
proof -
  have "malloc_spec ma" using ma by (simp add: malloc_total_def)
  then show ?thesis unfolding add_integer_def
    by (intro element_completes ma add_u8s_completes add_u8s_refines int_bytes_not_Nil) (use len in simp_all)
qed

lemma CBB_add_asn1_octet_string_completes:
  assumes ma: "malloc_total ma" and len: "length xs \<le> 0xfffffffe"
  shows "completes (CBB_add_asn1_octet_string ma xs d) (b_add d (der_element CBS_ASN1_OCTETSTRING xs))"
proof -
  have "malloc_spec ma" using ma by (simp add: malloc_total_def)
  then show ?thesis unfolding CBB_add_asn1_octet_string_def
    by (intro element_completes ma CBB_add_bytes_completes CBB_add_bytes_refines len) (use len in simp_all)
qed

lemma length_der_element_bound: "length (der_element tag c) \<le> length c + 11"
proof -
  have "length (der_len (length c)) \<le> 5" by (auto simp: der_len_def der_len_bytes_def)
  then show ?thesis
    using length_der_tag(2) [of tag] by (simp add: length_der_element der_header_def)
qed

lemma CBB_init_rep:
  assumes "malloc_spec ma" and "n + 8 < size_limit" and "CBB_init ma n = Some c"
  shows "cbb_rep c ([], []) \<and> growable c"
proof -
  obtain buf where c: "c = \<lparr>cbb_base = Some \<lparr>cb_buf = buf, cb_len = 0, cb_cap = n, can_resize = True,
      cb_error = False\<rparr>, cbb_children = []\<rparr>" and "length buf = n" "n + 8 < 2 ^ 63"
    using assms OPENSSL_malloc_cases [OF assms(1), of n]
    by (auto simp: CBB_init_def cbb_init_def CBB_zero_def split: option.splits if_splits)
  then have "buffer_rep \<lparr>cb_buf = buf, cb_len = 0, cb_cap = n, can_resize = True, cb_error = False\<rparr> []"
    by (intro buffer_repI [where junk = buf]) simp_all
  then show ?thesis by (simp add: cbb_rep_def c growable_def)
qed

lemma CBB_init_total:
  assumes "malloc_total ma" and "n + 8 < 2 ^ 63"
  obtains c where "CBB_init ma n = Some c"
proof -
  obtain b where b: "OPENSSL_malloc ma n = Some b"
    using OPENSSL_malloc_total [OF assms] .
  have "sizeof_cbb_buffer + 8 < 2 ^ 63" by (simp add: sizeof_cbb_buffer_def)
  then obtain b' where "OPENSSL_malloc ma sizeof_cbb_buffer = Some b'"
    using OPENSSL_malloc_total [OF assms(1)] by blast
  with b that show ?thesis by (simp add: CBB_init_def cbb_init_def)
qed

lemma b_close_0: "b_close 0 (r, ls) = map_option (\<lambda>t. (r @ t, [])) (sealed ls)"
  by (auto simp: b_close_def add_top.simps split: option.splits)

text \<open>What \<open>CBB_finish\<close> hands out is the abstract builder with everything closed.\<close>

lemma CBB_finish_rep:
  assumes "malloc_spec ma" and "cbb_rep c B" and "CBB_finish ma True True 0 c = (Some out, c')"
  shows "\<exists>buf t. out = (Some buf, Some (length t)) \<and> b_close 0 B = Some (t, [])
    \<and> take (length t) buf = t \<and> cbb_base c' = None"
proof -
  from assms(3) obtain u c1 where fl: "CBB_flush ma 0 c = (Some u, c1)"
    and fin: "(case cbb_base c1 of None \<Rightarrow> (None, c1) | Some base \<Rightarrow>
        (Some (Some (cb_buf base), Some (cb_len base)), CBB_cleanup 0 c1)) = (Some out, c')"
    unfolding CBB_finish_def by (auto elim!: op_bind_SomeE split: option.splits)
  obtain B1 where B1: "b_close 0 B = Some B1" "cbb_rep c1 B1"
    by (rule refinesD [OF CBB_flush_refines [OF assms(1)] assms(2) fl])
  have "snd B1 = []" using b_close_length [OF B1(1)] by simp
  then obtain t where t: "B1 = (t, [])" by (cases B1) simp
  from B1(2) obtain b where b: "cbb_base c1 = Some b" "buffer_rep b t"
    by (auto simp: cbb_rep_alt t b_data_def)
  from b(2) have "take (length t) (cb_buf b) = t" "cb_len b = length t" by (auto elim!: buffer_repE)
  then show ?thesis using fin b(1) B1(1) t by (auto simp: CBB_cleanup_def)
qed

lemma CBB_finish_completes:
  assumes ma: "malloc_total ma" and rep: "cbb_rep c B" and g: "growable c"
    and cl: "b_close 0 B = Some (t, [])" and small: "length t < max_data"
  obtains buf c' where "CBB_finish ma True True 0 c = (Some (Some buf, Some (length t)), c')"
    "take (length t) buf = t"
proof -
  have "length (b_data (t, [])) < max_data" using small by (simp add: b_data_def)
  from completesD [OF CBB_flush_completes [OF ma] rep g cl this]
  obtain u c1 where fl: "CBB_flush ma 0 c = (Some u, c1)" .
  have "malloc_spec ma" using ma by (simp add: malloc_total_def)
  from refinesD [OF CBB_flush_refines [OF this] rep fl] cl obtain b where
    b: "cbb_base c1 = Some b" "buffer_rep b t"
    by (auto simp: cbb_rep_alt b_data_def)
  then have "CBB_finish ma True True 0 c = (Some (Some (cb_buf b), Some (length t)), CBB_cleanup 0 c1)"
    using fl by (simp add: CBB_finish_def op_bind_def buffer_rep_len)
  moreover have "take (length t) (cb_buf b) = t" using b(2) by (auto elim!: buffer_repE)
  ultimately show thesis by (rule that)
qed

text \<open>A buffer from start to finish: initialise, add, hand out.\<close>

lemma build_element:
  assumes ma: "malloc_total ma" and n: "n + 8 < 2 ^ 63"
    and f: "refines f (b_add 0 xs)" "completes f (b_add 0 xs)" and small: "length xs < max_data"
  shows "\<exists>c0 r c1 buf c2. CBB_init ma n = Some c0 \<and> f c0 = (Some r, c1)
    \<and> CBB_finish ma True True 0 c1 = (Some (Some buf, Some (length xs)), c2) \<and> take (length xs) buf = xs"
proof -
  have ma': "malloc_spec ma" using ma by (simp add: malloc_total_def)
  obtain c0 where c0: "CBB_init ma n = Some c0" using CBB_init_total [OF ma n] .
  have rep: "cbb_rep c0 ([], [])" "growable c0" using CBB_init_rep [OF ma' _ c0] n by simp_all
  have add: "b_add 0 xs ([], []) = Some (xs, [])" by (simp add: add_top.simps)
  have "length (b_data (xs, [])) < max_data" using small by (simp add: b_data_def)
  from completesD [OF f(2) rep add this] obtain r c1 where c1: "f c0 = (Some r, c1)" "growable c1" .
  have "cbb_rep c1 (xs, [])" using refinesD [OF f(1) rep(1) c1(1)] add by (metis option.inject)
  from CBB_finish_completes [OF ma this c1(2) _ small]
  obtain buf c2 where "CBB_finish ma True True 0 c1 = (Some (Some buf, Some (length xs)), c2)"
    "take (length xs) buf = xs" by (auto simp: b_close_0)
  with c0 c1(1) show ?thesis by blast
qed

section \<open>Properties\<close>

text \<open>
  A growing CBB implements an abstract operation: where the abstract builder is stuck the code
  returns zero, otherwise it succeeds and the new state represents the new abstract builder.
\<close>

definition implements :: "(cbb, 'a) op \<Rightarrow> (builder \<Rightarrow> builder option) \<Rightarrow> bool" where
  "implements f F \<longleftrightarrow> (\<forall>c B. cbb_rep c B \<longrightarrow> growable c \<longrightarrow>
     (case F B of
        None \<Rightarrow> fst (f c) = None
      | Some B' \<Rightarrow> length (b_data B') < max_data \<longrightarrow>
          (\<exists>r c'. f c = (Some r, c') \<and> cbb_rep c' B' \<and> growable c')))"

lemma implementsI:
  assumes r: "refines f F" and c: "completes f F"
  shows "implements f F"
  unfolding implements_def
proof (intro allI impI)
  fix c B
  assume rep: "cbb_rep c B" and g: "growable c"
  show "case F B of None \<Rightarrow> fst (f c) = None | Some B' \<Rightarrow> length (b_data B') < max_data \<longrightarrow>
          (\<exists>r c'. f c = (Some r, c') \<and> cbb_rep c' B' \<and> growable c')"
  proof (cases "F B")
    case None
    then have "f c \<noteq> (Some x, c')" for x c' using refinesD [OF r rep] by (metis option.distinct(1))
    then show ?thesis using None by (cases "f c"; cases "fst (f c)") auto
  next
    case (Some B')
    show ?thesis
      unfolding Some option.case
    proof (intro impI)
      assume "length (b_data B') < max_data"
      from completesD [OF c rep g Some this] obtain x c' where run: "f c = (Some x, c')" "growable c'" .
      from refinesD [OF r rep run(1)] Some have "cbb_rep c' B'" by (metis option.inject)
      with run show "\<exists>r c'. f c = (Some r, c') \<and> cbb_rep c' B' \<and> growable c'" by blast
    qed
  qed
qed

lemma implementsD:
  assumes "implements f F" "cbb_rep c B" "growable c" "F B = Some B'" "length (b_data B') < max_data"
  obtains r c' where "f c = (Some r, c')" "cbb_rep c' B'" "growable c'"
  using assms unfolding implements_def by fastforce

text \<open>
  C4: flushing a CBB closes every child below it. The children's contents, nested to any depth,
  are replaced in the buffer by their encodings: the fixed-width prefixes are filled in, the
  contents of an ASN.1 child longer than 127 bytes are moved up to make room for the long
  length, and an unrepresentable length is an error.
\<close>

theorem cbb_flush_implements:
  assumes "malloc_total ma"
  shows "implements (CBB_flush ma d) (b_close d)"
  using assms by (intro implementsI CBB_flush_refines CBB_flush_completes) (simp_all add: malloc_total_def)

text \<open>The two bytes \<open>00 05\<close> with a child open at offset 0 become the length-prefixed \<open>01 05\<close>.\<close>

lemma cbb_flush_implements_witness:
  "implements (CBB_flush zero_malloc 0) (b_close 0)
   \<and> b_close 0 ([], [\<lparr>l_prefix = 1, l_asn1 = True, l_bytes = [5]\<rparr>]) = Some ([1, 5], [])"
  using cbb_flush_implements [of zero_malloc 0]
  by (simp add: b_close_0 seal_def der_len_def byte_def)

text \<open>
  opening an ASN.1 child writes the DER identifier octets of the tag, in the short or the
  high-tag-number form, and pushes an empty child with a one-byte length to be filled in.
\<close>

theorem cbb_add_asn1_implements:
  assumes "malloc_total ma"
  shows "implements (CBB_add_asn1 ma tag d) (b_open_asn1 d tag)"
  using assms
  by (intro implementsI CBB_add_asn1_refines CBB_add_asn1_completes) (simp_all add: malloc_total_def)

lemma cbb_add_asn1_implements_witness:
  "implements (CBB_add_asn1 zero_malloc 0x30 0) (b_open_asn1 0 0x30)"
  by (rule cbb_add_asn1_implements) simp

end
