(* ===== verification/Set_Of.thy ===== *)
theory Set_Of imports Builder "HOL-Library.Multiset" begin

text \<open>
  The order of the elements of an ASN.1 SET OF, and \<open>CBB_flush_asn1_set_of\<close>: it sorts the elements of
  the contents of a CBB in place.
\<close>

section \<open>The order of elements\<close>

fun lex_compare :: "u8 list \<Rightarrow> u8 list \<Rightarrow> int" where
  "lex_compare [] [] = 0"
| "lex_compare [] (y # ys) = -1"
| "lex_compare (x # xs) [] = 1"
| "lex_compare (x # xs) (y # ys) = (if x < y then -1 else if y < x then 1 else lex_compare xs ys)"

lemma memcmp_sign_Nil [simp]: "memcmp_sign [] b = 0" "memcmp_sign a [] = 0"
  by (cases a; cases b; simp)+

lemma OPENSSL_memcmp_take: "OPENSSL_memcmp a b n = memcmp_sign (take n a) (take n b)"
  by (simp add: OPENSSL_memcmp_def)

lemma compare_set_of_element_Cons:
  "compare_set_of_element (x # xs) (y # ys) =
     (if x < y then -1 else if y < x then 1 else compare_set_of_element xs ys)"
  by (cases "length xs" "length ys" rule: linorder_cases)
     (simp_all add: compare_set_of_element_def Let_def OPENSSL_memcmp_take CBS_len_def CBS_data_def)

lemma compare_set_of_element_lex: "compare_set_of_element a b = lex_compare a b"
proof (induction a b rule: lex_compare.induct)
  case (4 x xs y ys)
  then show ?case by (simp add: compare_set_of_element_Cons)
qed (simp_all add: compare_set_of_element_def Let_def OPENSSL_memcmp_def CBS_len_def CBS_data_def)

lemma lex_compare_anti: "lex_compare a b \<le> 0 \<longleftrightarrow> 0 \<le> lex_compare b a"
  by (induction a b rule: lex_compare.induct) (auto dest: less_asym)

lemma lex_compare_trans: "lex_compare a b \<le> 0 \<Longrightarrow> lex_compare b c \<le> 0 \<Longrightarrow> lex_compare a c \<le> 0"
proof (induction a b arbitrary: c rule: lex_compare.induct)
  case (1 c)
  then show ?case by simp
next
  case (2 y ys c)
  then show ?case by (cases c) auto
next
  case (3 x xs c)
  then show ?case by simp
next
  case (4 x xs y ys c)
  then show ?case by (cases c) (auto split: if_splits)
qed

interpretation set_of: cmp_order compare_set_of_element UNIV
proof unfold_locales
  show "compare_set_of_element x y \<le> 0 \<longleftrightarrow> 0 \<le> compare_set_of_element y x" for x y
    unfolding compare_set_of_element_lex by (rule lex_compare_anti)
  show "compare_set_of_element x y \<le> 0 \<Longrightarrow> compare_set_of_element y z \<le> 0 \<Longrightarrow> compare_set_of_element x z \<le> 0" for x y z
    unfolding compare_set_of_element_lex by (rule lex_compare_trans)
qed

section \<open>The top of the builder\<close>

fun top_bytes :: "builder \<Rightarrow> u8 list" where
  "top_bytes (r, ls) = (if ls = [] then r else l_bytes (last ls))"

fun set_top :: "u8 list \<Rightarrow> builder \<Rightarrow> builder" where
  "set_top xs (r, ls) = (if ls = [] then (xs, []) else (r, butlast ls @ [(last ls)\<lparr>l_bytes := xs\<rparr>]))"

lemma builder_cases:
  obtains (base) r where "B = (r, [])" | (child) r ls l where "B = (r, ls @ [l])"
  by (cases B; cases "snd B" rule: rev_cases) auto

lemma b_data_top: "\<exists>pre. b_data B = pre @ top_bytes B \<and> b_data (set_top xs B) = pre @ xs"
  by (cases B rule: builder_cases) (auto simp: b_data_def)

lemma set_top_facts:
  "b_children (set_top xs B) = b_children B" "b_ok (set_top xs B) = b_ok B"
  "length (snd (set_top xs B)) = length (snd B)"
  by (rule builder_cases [of B]; simp add: b_children_def b_ok_def children_at_append layer_ok_def)+

lemma add_set_top: "add_top ys (set_top xs B) = set_top (xs @ ys) B"
  by (rule builder_cases [of B]) (simp_all add: add_top.simps)

lemma set_top_top: "set_top (top_bytes B) B = B"
  by (rule builder_cases [of B]) simp_all

lemma set_top_data:
  "b_data (set_top [] B) = take (length (b_data B) - length (top_bytes B)) (b_data B)"
  "drop (length (b_data B) - length (top_bytes B)) (b_data B) = top_bytes B"
proof -
  obtain pre where "b_data B = pre @ top_bytes B" "b_data (set_top [] B) = pre" using b_data_top [of B "[]"] by auto
  then show "b_data (set_top [] B) = take (length (b_data B) - length (top_bytes B)) (b_data B)"
    "drop (length (b_data B) - length (top_bytes B)) (b_data B) = top_bytes B" by simp_all
qed

lemma prefix_end_rep:
  assumes "cbb_rep c B" "length (snd B) = d"
  shows "cbb_prefix_end d c = length (b_data B) - length (top_bytes B)"
proof (cases B rule: builder_cases)
  case (base r)
  then show ?thesis using assms(2) by (simp add: cbb_prefix_end_def b_data_def)
next
  case (child r ls l)
  have ch: "cbb_children c = children_at (length r) (ls @ [l])" using assms(1) by (simp add: cbb_rep_alt b_children_def child)
  then have "cbb_children c ! (d - 1) = \<lparr>cbb_offset = length r + length (raw ls), pending_len_len = l_prefix l, pending_is_asn1 = l_asn1 l\<rparr>"
    using assms(2) child by (auto simp: children_at_append nth_append)
  then show ?thesis using assms(2) child by (auto simp: cbb_prefix_end_def b_data_def)
qed

lemma contents_rep:
  assumes "cbb_rep c B" "length (snd B) = d"
  shows "CBS_init (CBB_data d c) (CBB_len d c) = top_bytes B"
proof -
  from assms(1) obtain b where b: "cbb_base c = Some b" "buffer_rep b (b_data B)" by (auto simp: cbb_rep_alt)
  have "CBS_init (CBB_data d c) (CBB_len d c) = drop (cbb_prefix_end d c) (buffer_data b)"
    using b(1) by (simp add: CBS_init_def CBB_data_def CBB_len_def buffer_data_def drop_take)
  also have "\<dots> = drop (cbb_prefix_end d c) (b_data B)" using b(2) by (simp add: buffer_rep_def)
  also have "\<dots> = top_bytes B" unfolding prefix_end_rep [OF assms] by (rule set_top_data(2))
  finally show ?thesis .
qed

section \<open>Elements\<close>

definition is_element :: "u8 list \<Rightarrow> bool" where
  "is_element e \<longleftrightarrow> (\<exists>tag c. length c < der_max \<and> e = der_element tag c)"

lemma parse_set_elements_sound:
  "parse_set_elements s = Some es \<Longrightarrow> concat es = s \<and> (\<forall>e \<in> set es. is_element e)"
proof (induction s arbitrary: es rule: parse_set_elements.induct)
  case (1 s)
  show ?case
  proof (cases "s = []")
    case True
    then show ?thesis using 1(2) by (simp add: parse_set_elements.simps CBS_len_def)
  next
    case False
    then obtain out tag hl s' es' where get: "CBS_get_any_asn1_element s = (Some (out, tag, hl), s')"
      and rest: "parse_set_elements s' = Some es'" and es: "es = out # es'"
      using 1(2) by (subst (asm) parse_set_elements.simps) (auto simp: CBS_len_def split: prod.splits option.splits)
    have "concat es' = s' \<and> (\<forall>e \<in> set es'. is_element e)"
      by (rule 1(1) [OF _ get [symmetric] refl refl refl rest]) (use False in \<open>simp add: CBS_len_def\<close>)
    moreover have "is_element out" "s = out @ s'"
      using get by (auto simp: CBS_get_any_asn1_element_def get_element_iff is_element_def)
    ultimately show ?thesis using es by simp
  qed
qed

lemma parse_set_elements_complete:
  "\<forall>e \<in> set es. is_element e \<Longrightarrow> parse_set_elements (concat es) = Some es"
proof (induction es)
  case Nil
  then show ?case by (simp add: parse_set_elements.simps CBS_len_def)
next
  case (Cons e es)
  then obtain tag c where c: "length c < der_max" "e = der_element tag c" by (auto simp: is_element_def)
  then have "CBS_get_any_asn1_element (e @ concat es) = (Some (e, tag, length (der_header tag (length c))), concat es)"
    by (simp add: CBS_get_any_asn1_element_def get_element_der_element)
  moreover have "e \<noteq> []" using c(2) by (simp add: der_element_def der_header_def)
  ultimately show ?case using Cons by (subst parse_set_elements.simps) (simp add: CBS_len_def)
qed

lemma length_set_elements: "\<forall>e \<in> set es. is_element e \<Longrightarrow> 2 * length es \<le> length (concat es)"
proof (induction es)
  case (Cons e es)
  have "0 < length (der_tag tag)" "0 < length (der_len n)" for tag n by (simp_all add: der_len_def)
  then have "2 \<le> length (der_header tag n)" for tag n unfolding der_header_def length_append
    by (metis Suc_leI add_mono one_add_one One_nat_def)
  then have "2 \<le> length (der_element tag c)" for tag c unfolding der_element_def length_append by (rule trans_le_add1)
  then have "2 \<le> length e" using Cons.prems by (auto simp: is_element_def)
  then show ?case using Cons by auto
qed simp

definition sort_contents :: "u8 list \<Rightarrow> u8 list option" where
  "sort_contents c = map_option (\<lambda>es. concat (qsort compare_set_of_element es)) (parse_set_elements c)"

definition b_sort :: "nat \<Rightarrow> builder \<Rightarrow> builder option" where
  "b_sort d B = Option.bind (b_close d B) (\<lambda>B. map_option (\<lambda>xs. set_top xs B) (sort_contents (top_bytes B)))"

section \<open>Sorting in place\<close>

lemma rewind_rep:
  assumes "cbb_rep c B" "length (snd B) = d" "growable c"
  shows "\<exists>c'. on_base (\<lambda>b. (Some (), b\<lparr>cb_len := cbb_prefix_end d c\<rparr>)) c = (Some (), c') \<and> cbb_rep c' (set_top [] B) \<and> growable c'"
proof -
  from assms(1) obtain b where b: "cbb_base c = Some b" "buffer_rep b (b_data B)" and r: "cbb_children c = b_children B" "b_ok B"
    by (auto simp: cbb_rep_alt)
  let ?p = "length (b_data B) - length (top_bytes B)" and ?b = "b\<lparr>cb_len := cbb_prefix_end d c\<rparr>"
  have p: "cbb_prefix_end d c = ?p" by (rule prefix_end_rep [OF assms(1,2)])
  have "take ?p (b_data B) = take ?p (cb_buf b)" and "?p \<le> cb_len b"
    using b(2) buffer_rep_len [OF b(2)] by (auto simp: buffer_rep_def buffer_data_def) (metis min.absorb1 diff_le_self take_take)
  then have "buffer_rep ?b (b_data (set_top [] B))"
    using b(2) p by (auto simp: buffer_rep_def buffer_ok_def buffer_data_def set_top_data(1))
  then show ?thesis
    using b(1) r assms(3) by (intro exI [of _ "c\<lparr>cbb_base := Some ?b\<rparr>"]) (simp add: on_base_def cbb_rep_alt set_top_facts growable_def)
qed

lemma add_elements_rep:
  assumes "malloc_total ma"
  shows "cbb_rep c B \<Longrightarrow> length (snd B) = d \<Longrightarrow> growable c \<Longrightarrow> length (b_data B) + length (concat es) < max_data \<Longrightarrow>
    \<exists>c'. add_elements ma es d c = (Some (), c') \<and> cbb_rep c' (add_top (concat es) B) \<and> growable c'"
proof (induction es arbitrary: c B)
  case Nil
  then show ?case by (simp add: op_return_def)
next
  case (Cons e es)
  have ms: "malloc_spec ma" using assms by (simp add: malloc_total_def)
  have "implements (CBB_add_bytes ma e d) (b_add d e)"
    by (intro implementsI CBB_add_bytes_refines CBB_add_bytes_completes assms ms) (use Cons.prems(4) in simp)
  moreover have "b_add d e B = Some (add_top e B)" "length (b_data (add_top e B)) < max_data"
    using Cons.prems by (simp_all add: add_top_facts)
  ultimately obtain u c1 where c1: "CBB_add_bytes ma e d c = (Some u, c1)" "cbb_rep c1 (add_top e B)" "growable c1"
    by (rule implementsD [OF _ Cons.prems(1,3)])
  obtain c' where "add_elements ma es d c1 = (Some (), c')" "cbb_rep c' (add_top (concat es) (add_top e B))" "growable c'"
    using Cons.IH [OF c1(2) _ c1(3)] Cons.prems by (auto simp: add_top_facts)
  then show ?case using c1(1) by (simp add: op_bind_def add_top_append)
qed

lemma sum_list_qsort_insert: "sum_list (map length (qsort_insert cmp x ys)) = length x + sum_list (map length ys)"
  by (induction ys) auto

lemma sort_contents_bytes:
  assumes "parse_set_elements c = Some es"
  shows "length (concat (qsort compare_set_of_element es)) = length c" "2 * length es \<le> length c"
proof -
  have "length (concat (qsort compare_set_of_element es)) = sum_list (map length (qsort compare_set_of_element es))"
    by (simp add: length_concat)
  also have "\<dots> = sum_list (map length es)" by (induction es) (simp_all add: sum_list_qsort_insert)
  finally show "length (concat (qsort compare_set_of_element es)) = length c"
    using parse_set_elements_sound [OF assms] by (metis length_concat)
  show "2 * length es \<le> length c" using parse_set_elements_sound [OF assms] length_set_elements by auto
qed

lemma set_of_after_flush:
  assumes ma: "malloc_total ma" and c: "cbb_rep c B" "growable c" and d: "length (snd B) = d" and small: "length (b_data B) < max_data"
    and fl: "CBB_flush ma d c0 = (Some u, c)"
  shows "case sort_contents (top_bytes B) of None \<Rightarrow> fst (CBB_flush_asn1_set_of ma d c0) = None
    | Some xs \<Rightarrow> \<exists>c'. CBB_flush_asn1_set_of ma d c0 = (Some (), c') \<and> cbb_rep c' (set_top xs B) \<and> growable c'"
proof (cases "parse_set_elements (top_bytes B)")
  case None
  then show ?thesis
    using fl by (simp add: CBB_flush_asn1_set_of_def op_bind_def contents_rep [OF c(1) d] sort_contents_def)
next
  case (Some es)
  note sound = parse_set_elements_sound [OF Some] and len = sort_contents_bytes [OF Some]
  show ?thesis
  proof (cases "length es < 2")
    case True
    then have "concat (qsort compare_set_of_element es) = top_bytes B" using sound by (cases es) (auto simp: length_Suc_conv less_Suc_eq)
    then show ?thesis
      using fl c True Some by (simp add: CBB_flush_asn1_set_of_def op_bind_def contents_rep [OF c(1) d] sort_contents_def set_top_top Let_def)
  next
    case False
    have top: "length (top_bytes B) < max_data" using small b_data_top [of B "[]"] by auto
    have "length (top_bytes B) + 8 < 2 ^ 63" using top by simp
    then obtain m1 where m1: "OPENSSL_malloc ma (length (top_bytes B)) = Some m1" using OPENSSL_malloc_total [OF ma] by blast
    have "length es * sizeof_CBS + 8 < 2 ^ 63" using len(2) top by (simp add: sizeof_CBS_def) presburger
    then obtain m2 where m2: "OPENSSL_malloc ma (length es * sizeof_CBS) = Some m2" using OPENSSL_malloc_total [OF ma] by blast
    have ne: "top_bytes B \<noteq> []" using len(2) False by auto
    have few: "\<not> (size_limit - 1) div sizeof_CBS < length es" using len(2) top by (simp add: sizeof_CBS_def)
    obtain c1 where c1: "on_base (\<lambda>b. (Some (), b\<lparr>cb_len := cbb_prefix_end d c\<rparr>)) c = (Some (), c1)" "cbb_rep c1 (set_top [] B)" "growable c1"
      using rewind_rep [OF c(1) d c(2)] by blast
    let ?xs = "concat (qsort compare_set_of_element es)"
    have "length (b_data (set_top [] B)) + length ?xs < max_data"
      using b_data_top [of B "[]"] len(1) small by auto
    from add_elements_rep [OF ma c1(2) _ c1(3) this] d obtain c' where
      c': "add_elements ma (qsort compare_set_of_element es) d c1 = (Some (), c')" "cbb_rep c' (set_top ?xs B)" "growable c'"
      by (auto simp: set_top_facts add_set_top)
    have "CBB_flush_asn1_set_of ma d c0 = (Some (), c')"
      using fl Some False few m1 m2 ne c1(1) c'(1)
      by (simp add: CBB_flush_asn1_set_of_def op_bind_def contents_rep [OF c(1) d] Let_def OPENSSL_memdup_def)
    then show ?thesis using c' Some by (simp add: sort_contents_def)
  qed
qed

lemma mset_qsort_insert: "mset (qsort_insert cmp x ys) = add_mset x (mset ys)"
  by (induction ys) auto

lemma sort_contents_sorted:
  assumes "sort_contents c = Some xs"
  shows "\<exists>es ys. parse_set_elements c = Some es \<and> parse_set_elements xs = Some ys \<and> mset ys = mset es \<and>
    sorted_wrt (\<lambda>a b. compare_set_of_element a b \<le> 0) ys"
proof -
  obtain es where es: "parse_set_elements c = Some es" "xs = concat (qsort compare_set_of_element es)"
    using assms by (auto simp: sort_contents_def)
  have "parse_set_elements xs = Some (qsort compare_set_of_element es)"
    unfolding es(2) using parse_set_elements_sound [OF es(1)] by (intro parse_set_elements_complete) simp
  moreover have "mset (qsort compare_set_of_element es) = mset es"
    by (induction es) (simp_all add: mset_qsort_insert)
  moreover have "sorted_wrt (\<lambda>a b. compare_set_of_element a b \<le> 0) (qsort compare_set_of_element es)"
    by (rule set_of.sorted_qsort) simp
  ultimately show ?thesis using es(1) by blast
qed

section \<open>Properties\<close>

text \<open>
  C16: \<open>CBB_flush_asn1_set_of\<close> closes the children of the CBB and fails, or replaces its contents by the same
  DER elements in ascending order, in place; it fails exactly when a child cannot be closed or the contents are not
  a sequence of elements.
\<close>

theorem cbb_flush_set_of_sorts:
  assumes "malloc_total ma" "cbb_rep c B" "growable c"
  shows "case b_close d B of None \<Rightarrow> fst (CBB_flush_asn1_set_of ma d c) = None
    | Some B1 \<Rightarrow> (length (b_data B1) < max_data \<longrightarrow>
        (case parse_set_elements (top_bytes B1) of
           None \<Rightarrow> fst (CBB_flush_asn1_set_of ma d c) = None
         | Some es \<Rightarrow> \<exists>c' xs ys. CBB_flush_asn1_set_of ma d c = (Some (), c') \<and> cbb_rep c' (set_top xs B1) \<and>
             parse_set_elements xs = Some ys \<and> mset ys = mset es \<and>
             sorted_wrt (\<lambda>a b. compare_set_of_element a b \<le> 0) ys))"
proof (cases "b_close d B")
  case None
  have "CBB_flush ma d c \<noteq> (Some u, c')" for u c'
    using refinesD [OF CBB_flush_refines assms(2)] None assms(1) by (metis malloc_total_def option.distinct(1))
  then show ?thesis using None by (cases "CBB_flush ma d c"; cases "fst (CBB_flush ma d c)") (auto simp: CBB_flush_asn1_set_of_def op_bind_def)
next
  case (Some B1)
  have imp: "implements (CBB_flush ma d) (b_close d)"
    using assms(1) by (intro implementsI CBB_flush_refines CBB_flush_completes) (simp_all add: malloc_total_def)
  show ?thesis
    unfolding Some option.case
  proof (intro impI)
    assume small: "length (b_data B1) < max_data"
    obtain u c1 where c1: "CBB_flush ma d c = (Some u, c1)" "cbb_rep c1 B1" "growable c1"
      by (rule implementsD [OF imp assms(2,3) Some small])
    have after: "case sort_contents (top_bytes B1) of None \<Rightarrow> fst (CBB_flush_asn1_set_of ma d c) = None
      | Some xs \<Rightarrow> \<exists>c'. CBB_flush_asn1_set_of ma d c = (Some (), c') \<and> cbb_rep c' (set_top xs B1) \<and> growable c'"
      by (rule set_of_after_flush [OF assms(1) c1(2,3) b_close_length [OF Some] small c1(1)])
    show "case parse_set_elements (top_bytes B1) of
           None \<Rightarrow> fst (CBB_flush_asn1_set_of ma d c) = None
         | Some es \<Rightarrow> \<exists>c' xs ys. CBB_flush_asn1_set_of ma d c = (Some (), c') \<and> cbb_rep c' (set_top xs B1) \<and>
             parse_set_elements xs = Some ys \<and> mset ys = mset es \<and>
             sorted_wrt (\<lambda>a b. compare_set_of_element a b \<le> 0) ys"
    proof (cases "sort_contents (top_bytes B1)")
      case None
      then show ?thesis using after by (simp add: sort_contents_def)
    next
      case (Some xs)
      then obtain c' where c': "CBB_flush_asn1_set_of ma d c = (Some (), c')" "cbb_rep c' (set_top xs B1)" using after by auto
      obtain es ys where "parse_set_elements (top_bytes B1) = Some es" "parse_set_elements xs = Some ys" "mset ys = mset es"
        "sorted_wrt (\<lambda>a b. compare_set_of_element a b \<le> 0) ys" using sort_contents_sorted [OF Some] by blast
      then show ?thesis using c' by simp blast
    qed
  qed
qed

lemma cbb_flush_set_of_sorts_witness:
  "b_close 0 ([2, 1, 9, 2, 1, 5], []) = Some ([2, 1, 9, 2, 1, 5], []) \<and>
   (\<exists>c. cbb_rep c ([2, 1, 9, 2, 1, 5], []) \<and> (\<exists>c' xs ys. CBB_flush_asn1_set_of zero_malloc 0 c = (Some (), c') \<and>
      cbb_rep c' (set_top xs ([2, 1, 9, 2, 1, 5], [])) \<and> parse_set_elements xs = Some ys \<and> mset ys = mset [[2, 1, 9], [2, 1, 5]] \<and>
      sorted_wrt (\<lambda>a b. compare_set_of_element a b \<le> 0) ys))"
proof -
  let ?c = "\<lparr>cbb_base = Some \<lparr>cb_buf = [2, 1, 9, 2, 1, 5], cb_len = 6, cb_cap = 6, can_resize = True, cb_error = False\<rparr>, cbb_children = []\<rparr>"
  let ?B = "([2, 1, 9, 2, 1, 5], []) :: builder"
  have c: "cbb_rep ?c ?B" by (simp add: cbb_rep_def buffer_rep_def buffer_ok_def buffer_data_def)
  have "parse_set_elements (concat [[2, 1, 9], [2, 1, 5]]) = Some [[2, 1, 9], [2, 1, 5]]"
  proof (rule parse_set_elements_complete, intro ballI)
    fix e :: "u8 list" assume "e \<in> set [[2, 1, 9], [2, 1, 5]]"
    moreover have "der_element 2 [9] = [2, 1, 9]" "der_element 2 [5] = [2, 1, 5]" 
      by (simp_all add: der_element_def der_header_def der_tag_def der_len_def byte_def tag_number_def tag_bits_def)
    ultimately have "e = der_element 2 [9] \<or> e = der_element 2 [5]" by auto
    moreover have "is_element (der_element 2 [x])" for x unfolding is_element_def by (rule exI [of _ 2], rule exI [of _ "[x]"]) simp
    ultimately show "is_element e" by blast
  qed
  then show ?thesis
    using c cbb_flush_set_of_sorts [of zero_malloc ?c ?B 0] by (auto simp: growable_def b_data_def)
qed

end
