(* ===== verification/ConstTime.thy ===== *)
theory ConstTime imports Prelude begin

text \<open>
  The constant-time helpers of \<open>crypto/internal.h\<close>: comparisons as masks and selection by mask,
  on 64-bit words (\<open>crypto_word_t\<close> of the 64-bit targets). \<open>value_barrier_w\<close> returns its argument
  and is left out. The lemmas replace each by the conditional that it stands for.
\<close>

definition constant_time_msb_w :: "u64 \<Rightarrow> u64" where
  "constant_time_msb_w a = 0 - drop_bit 63 a"

definition constant_time_lt_w :: "u64 \<Rightarrow> u64 \<Rightarrow> u64" where
  "constant_time_lt_w a b = constant_time_msb_w (a XOR ((a XOR b) OR ((a - b) XOR a)))"

definition constant_time_lt_8 :: "u64 \<Rightarrow> u64 \<Rightarrow> u8" where
  "constant_time_lt_8 a b = ucast (constant_time_lt_w a b)"

definition constant_time_ge_w :: "u64 \<Rightarrow> u64 \<Rightarrow> u64" where
  "constant_time_ge_w a b = NOT (constant_time_lt_w a b)"

definition constant_time_ge_8 :: "u64 \<Rightarrow> u64 \<Rightarrow> u8" where
  "constant_time_ge_8 a b = ucast (constant_time_ge_w a b)"

definition constant_time_is_zero_w :: "u64 \<Rightarrow> u64" where
  "constant_time_is_zero_w a = constant_time_msb_w (NOT a AND (a - 1))"

definition constant_time_is_zero_8 :: "u64 \<Rightarrow> u8" where
  "constant_time_is_zero_8 a = ucast (constant_time_is_zero_w a)"

definition constant_time_eq_w :: "u64 \<Rightarrow> u64 \<Rightarrow> u64" where
  "constant_time_eq_w a b = constant_time_is_zero_w (a XOR b)"

definition constant_time_eq_8 :: "u64 \<Rightarrow> u64 \<Rightarrow> u8" where
  "constant_time_eq_8 a b = ucast (constant_time_eq_w a b)"

definition constant_time_select_w :: "u64 \<Rightarrow> u64 \<Rightarrow> u64 \<Rightarrow> u64" where
  "constant_time_select_w m a b = (m AND a) OR (NOT m AND b)"

definition constant_time_select_8 :: "u8 \<Rightarrow> u8 \<Rightarrow> u8 \<Rightarrow> u8" where
  "constant_time_select_8 m a b =
     ucast (constant_time_select_w (ucast m) (ucast a) (ucast b))"

section \<open>The masks\<close>

lemma bit_63_iff: "bit (a :: u64) 63 \<longleftrightarrow> 2 ^ 63 \<le> unat a"
proof -
  have "bit a 63 \<longleftrightarrow> odd (unat a div 2 ^ 63)"
  proof -
    have "bit a 63 \<longleftrightarrow> bit (unat a) 63" by (simp add: bit_unsigned_iff)
    then show ?thesis by (simp only: bit_iff_odd [of "unat a"])
  qed
  moreover have "odd (n div 2 ^ 63) \<longleftrightarrow> 2 ^ 63 \<le> n" if "n < 2 ^ 64" for n :: nat
  proof (cases "n < 2 ^ 63")
    case False
    then have "n div 2 ^ 63 = 1" using that by (intro div_nat_eqI) simp_all
    with False show ?thesis by simp
  qed simp
  ultimately show ?thesis using unat_u64_less by simp
qed

lemma msb_mask: "constant_time_msb_w a = (if bit a 63 then - 1 else 0)"
proof -
  have "unat (drop_bit 63 a) = (if 2 ^ 63 \<le> unat a then 1 else 0)"
  proof (cases "unat a < 2 ^ 63")
    case False
    then have "unat a div 2 ^ 63 = 1"
      using unat_u64_less [of a] by (intro div_nat_eqI) simp_all
    with False show ?thesis by (simp add: unat_drop_bit)
  qed (simp add: unat_drop_bit)
  then have "drop_bit 63 a = (if bit a 63 then 1 else 0)"
    by (simp add: bit_63_iff word_unat_eq_iff)
  then show ?thesis by (simp add: constant_time_msb_w_def)
qed

lemma lt_w_mask: "constant_time_lt_w a b = (if a < b then - 1 else 0)"
proof -
  let ?x = "bit a 63" and ?y = "bit b 63"
  note xy = bit_63_iff [of a] bit_63_iff [of b] bit_63_iff [of "a - b"]
  have sub: "unat (a - b) = (if unat b \<le> unat a then unat a - unat b else unat a + 2 ^ 64 - unat b)"
    using unat_sub_if' [of a b] by simp
  have "bit (a - b) 63 \<longleftrightarrow> unat a < unat b" if "?x = ?y"
    using that sub unat_u64_less [of a] unat_u64_less [of b] unfolding xy by auto
  moreover have "?y \<longleftrightarrow> unat a < unat b" if "?x \<noteq> ?y" using that unfolding xy by linarith
  moreover have "bit (a XOR ((a XOR b) OR ((a - b) XOR a))) 63 \<longleftrightarrow>
      (if ?x = ?y then bit (a - b) 63 else ?y)"
    by (auto simp: bit_simps)
  ultimately show ?thesis
    by (simp add: constant_time_lt_w_def msb_mask word_less_nat_alt)
qed

lemma is_zero_w_mask: "constant_time_is_zero_w a = (if a = 0 then - 1 else 0)"
proof (cases "a = 0")
  case True
  have "bit (NOT 0 AND (0 - 1 :: u64)) 63" by (simp add: bit_simps)
  with True show ?thesis by (simp only: constant_time_is_zero_w_def msb_mask if_True refl)
next
  case False
  then have "0 < unat a" by (simp add: unat_gt_0)
  then have "unat (a - 1) = unat a - 1" by (intro unat_minus_one False)
  then have "bit (a - 1) 63 \<Longrightarrow> bit a 63"
    using bit_63_iff [of a] bit_63_iff [of "a - 1"] by simp
  then have "\<not> bit (NOT a AND (a - 1)) 63" by (auto simp: bit_simps)
  with False show ?thesis by (simp add: constant_time_is_zero_w_def msb_mask)
qed

lemma eq_w_mask: "constant_time_eq_w a b = (if a = b then - 1 else 0)"
proof -
  have "a XOR b = 0 \<longleftrightarrow> a = b" by (auto simp: bit_eq_iff bit_simps)
  then show ?thesis by (simp add: constant_time_eq_w_def is_zero_w_mask)
qed

lemma mask_8: "ucast (if c then - 1 else 0 :: u64) = (if c then - 1 else 0 :: u8)"
  by (rule bit_word_eqI) (simp add: bit_simps)

lemma ct_masks_8:
  "constant_time_lt_8 a b = (if a < b then - 1 else 0)"
  "constant_time_ge_8 a b = (if a < b then 0 else - 1)"
  "constant_time_is_zero_8 a = (if a = 0 then - 1 else 0)"
  "constant_time_eq_8 a b = (if a = b then - 1 else 0)"
  using mask_8 [of "a < b"] mask_8 [of "a = 0"] mask_8 [of "a = b"] mask_8 [of "\<not> a < b"]
  by (auto simp: constant_time_lt_8_def constant_time_ge_8_def constant_time_ge_w_def
      constant_time_is_zero_8_def constant_time_eq_8_def lt_w_mask is_zero_w_mask eq_w_mask)

lemma select_w_mask:
  "constant_time_select_w (if c then - 1 else 0) a b = (if c then a else b)"
  by (simp add: constant_time_select_w_def)

lemma ucast_u8_u64 [simp]: "ucast (ucast (a :: u8) :: u64) = a"
  by (rule bit_word_eqI) (auto simp: bit_simps dest: bit_imp_le_length)

text \<open>An 8-bit mask is widened with zeros; the upper bits of the choice are dropped again.\<close>

lemma select_8_mask:
  "constant_time_select_8 (if c then - 1 else 0) a b = (if c then a else b)"
proof (cases c)
  case True
  have "(ucast ((ucast (- 1 :: u8) AND ucast a) OR (NOT (ucast (- 1 :: u8)) AND ucast b) :: u64) :: u8) = a"
    by (rule bit_word_eqI) (auto simp: bit_simps)
  with True show ?thesis by (simp add: constant_time_select_8_def constant_time_select_w_def)
qed (simp add: constant_time_select_8_def constant_time_select_w_def)

end
