(* ===== verification/Base64.thy ===== *)
theory Base64 imports ConstTime begin

text \<open>
  \<open>crypto/base64/base64.c\<close>: the constant-time base64 codec, one-shot and streaming.

  An output pointer is the list of the bytes written through it. \<open>EVP_EncodeBlock\<close> ends its
  output with a NUL that the returned length does not count; the streaming encoder also keeps a
  NUL after what it has written, which is not part of the list.
\<close>

section \<open>Single characters\<close>

definition constant_time_lt_args_8 :: "u8 \<Rightarrow> u8 \<Rightarrow> u8" where
  "constant_time_lt_args_8 a b = ucast (constant_time_msb_w (ucast a - ucast b))"

definition constant_time_in_range_8 :: "u8 \<Rightarrow> u8 \<Rightarrow> u8 \<Rightarrow> u8" where
  "constant_time_in_range_8 a lo hi = constant_time_lt_args_8 (a - lo) (hi - lo + 1)"

definition conv_bin2ascii :: "u8 \<Rightarrow> u8" where
  "conv_bin2ascii a =
     (let a = a AND 0x3f;
          ret = constant_time_select_8 (constant_time_eq_8 (ucast a) 62) 43 47;
          ret = constant_time_select_8 (constant_time_lt_args_8 a 62) (a - 52 + 48) ret;
          ret = constant_time_select_8 (constant_time_lt_args_8 a 52) (a - 26 + 97) ret;
          ret = constant_time_select_8 (constant_time_lt_args_8 a 26) (a + 65) ret
      in ret)"

definition base64_ascii_to_bin :: "u8 \<Rightarrow> u8" where
  "base64_ascii_to_bin a =
     (let is_upper = constant_time_in_range_8 a 65 90;
          is_lower = constant_time_in_range_8 a 97 122;
          is_digit = constant_time_in_range_8 a 48 57;
          is_plus = constant_time_eq_8 (ucast a) 43;
          is_slash = constant_time_eq_8 (ucast a) 47;
          is_equals = constant_time_eq_8 (ucast a) 61;
          ret = 0xff;
          ret = constant_time_select_8 is_upper (a - 65) ret;
          ret = constant_time_select_8 is_lower (a - 97 + 26) ret;
          ret = constant_time_select_8 is_digit (a - 48 + 52) ret;
          ret = constant_time_select_8 is_plus 62 ret;
          ret = constant_time_select_8 is_slash 63 ret;
          ret = constant_time_select_8 is_equals 0 ret
      in ret)"

section \<open>Encoding\<close>

definition EVP_EncodedLength :: "nat \<Rightarrow> nat option" where
  "EVP_EncodedLength len =
     (if size_add len 2 < len then None
      else
        let len = size_add len 2 div 3 in
        if len * 4 mod size_limit div 4 \<noteq> len then None
        else
          let len = len * 4 mod size_limit in
          if size_add len 1 < len then None else Some (size_add len 1))"

text \<open>The loop of \<open>EVP_EncodeBlock\<close>: the characters written, without the NUL.\<close>

fun encode_block :: "u8 list \<Rightarrow> u8 list" where
  "encode_block [] = []"
| "encode_block [s0] =
     (let l = push_bit 16 (ucast s0 :: u32) in
      [conv_bin2ascii (ucast (drop_bit 18 l)), conv_bin2ascii (ucast (drop_bit 12 l)), 61, 61])"
| "encode_block [s0, s1] =
     (let l = push_bit 16 (ucast s0 :: u32) OR push_bit 8 (ucast s1) in
      [conv_bin2ascii (ucast (drop_bit 18 l)), conv_bin2ascii (ucast (drop_bit 12 l)),
       conv_bin2ascii (ucast (drop_bit 6 l)), 61])"
| "encode_block (s0 # s1 # s2 # src) =
     (let l = push_bit 16 (ucast s0 :: u32) OR push_bit 8 (ucast s1) OR ucast s2 in
      [conv_bin2ascii (ucast (drop_bit 18 l)), conv_bin2ascii (ucast (drop_bit 12 l)),
       conv_bin2ascii (ucast (drop_bit 6 l)), conv_bin2ascii (ucast l)] @ encode_block src)"

definition EVP_EncodeBlock :: "u8 list \<Rightarrow> u8 list \<times> nat" where
  "EVP_EncodeBlock src = (encode_block src @ [0], length (encode_block src))"

text \<open>\<open>ctx_data\<close> is the 48-byte array \<open>data\<close>.\<close>

record EVP_ENCODE_CTX =
  data_used :: nat
  ctx_data :: "u8 list"
  eof_seen :: bool
  error_encountered :: bool

definition EVP_EncodeInit :: EVP_ENCODE_CTX where
  "EVP_EncodeInit = \<lparr>data_used = 0, ctx_data = replicate 48 0, eof_seen = False,
     error_encountered = False\<rparr>"

definition ctx_store :: "EVP_ENCODE_CTX \<Rightarrow> nat \<Rightarrow> u8 list \<Rightarrow> u8 list" where
  "ctx_store ctx pos xs = take pos (ctx_data ctx) @ xs @ drop (pos + length xs) (ctx_data ctx)"

text \<open>
  The loop over whole lines: the characters written, the total, and the rest of the input.
  \<open>None\<close> for the total is the early return on overflow.
\<close>

function encode_lines :: "u8 list \<Rightarrow> nat \<Rightarrow> u8 list \<times> nat option \<times> u8 list" where
  "encode_lines inp tot =
     (if length inp < 48 then ([], Some tot, inp)
      else
        let encoded = snd (EVP_EncodeBlock (take 48 inp));
            line = encode_block (take 48 inp) @ [10] in
        if size_add tot (encoded + 1) < tot then (line, None, drop 48 inp)
        else case encode_lines (drop 48 inp) (size_add tot (encoded + 1)) of
               (out, t, rest) \<Rightarrow> (line @ out, t, rest))"
  by pat_completeness auto
termination by (relation "measure (\<lambda>(inp, _). length inp)") auto

declare encode_lines.simps [simp del]

text \<open>\<open>EVP_EncodeUpdate\<close>: the characters written, \<open>*out_len\<close> and the new context.\<close>

definition EVP_EncodeUpdate :: "EVP_ENCODE_CTX \<Rightarrow> u8 list \<Rightarrow> u8 list \<times> nat \<times> EVP_ENCODE_CTX" where
  "EVP_EncodeUpdate ctx inp =
     (if length inp = 0 then ([], 0, ctx)
      else if length inp < 48 - data_used ctx then
        ([], 0, ctx\<lparr>ctx_data := ctx_store ctx (data_used ctx) inp,
                     data_used := data_used ctx + length inp\<rparr>)
      else
        let todo = 48 - data_used ctx;
            (out, tot, inp, ctx) =
              (if data_used ctx \<noteq> 0 then
                 let ctx = ctx\<lparr>ctx_data := ctx_store ctx (data_used ctx) (take todo inp)\<rparr>;
                     out = encode_block (ctx_data ctx) @ [10] in
                 (out, length out, drop todo inp, ctx\<lparr>data_used := 0\<rparr>)
               else ([], 0, inp, ctx));
            (out2, tot, inp) = encode_lines inp tot in
        case tot of
          None \<Rightarrow> (out @ out2, 0, ctx)
        | Some tot \<Rightarrow>
            (out @ out2, if INT_MAX < tot then 0 else tot,
             ctx\<lparr>ctx_data := ctx_store ctx 0 inp, data_used := length inp\<rparr>))"

definition EVP_EncodeFinal :: "EVP_ENCODE_CTX \<Rightarrow> u8 list \<times> nat \<times> EVP_ENCODE_CTX" where
  "EVP_EncodeFinal ctx =
     (if data_used ctx = 0 then ([], 0, ctx)
      else
        let out = encode_block (take (data_used ctx) (ctx_data ctx)) @ [10] in
        (out, length out, ctx\<lparr>data_used := 0\<rparr>))"

section \<open>Decoding\<close>

definition EVP_DecodedLength :: "nat \<Rightarrow> nat option" where
  "EVP_DecodedLength len = (if len mod 4 \<noteq> 0 then None else Some (len div 4 * 3))"

definition EVP_DecodeInit :: EVP_ENCODE_CTX where
  "EVP_DecodeInit = \<lparr>data_used = 0, ctx_data = replicate 48 0, eof_seen = False,
     error_encountered = False\<rparr>"

definition base64_decode_quad :: "u8 list \<Rightarrow> u8 list option" where
  "base64_decode_quad inp =
     (let a = base64_ascii_to_bin (inp ! 0);
          b = base64_ascii_to_bin (inp ! 1);
          c = base64_ascii_to_bin (inp ! 2);
          d = base64_ascii_to_bin (inp ! 3) in
      if a = 0xff \<or> b = 0xff \<or> c = 0xff \<or> d = 0xff then None
      else
        let v = push_bit 18 (ucast a :: u32) OR push_bit 12 (ucast b) OR push_bit 6 (ucast c) OR ucast d;
            padding_pattern = (inp ! 0 = 61, inp ! 1 = 61, inp ! 2 = 61, inp ! 3 = 61) in
        if padding_pattern = (False, False, False, False)
        then Some [ucast (drop_bit 16 v), ucast (drop_bit 8 v), ucast v]
        else if padding_pattern = (False, False, False, True)
        then Some [ucast (drop_bit 16 v), ucast (drop_bit 8 v)]
        else if padding_pattern = (False, False, True, True)
        then Some [ucast (drop_bit 16 v)]
        else None)"

definition is_space :: "u8 \<Rightarrow> bool" where
  "is_space c \<longleftrightarrow> c = 32 \<or> c = 9 \<or> c = 13 \<or> c = 10"

text \<open>The loop of \<open>EVP_DecodeUpdate\<close>: the bytes written, whether it ran through, the context.\<close>

fun decode_loop :: "u8 list \<Rightarrow> EVP_ENCODE_CTX \<Rightarrow> u8 list \<times> bool \<times> EVP_ENCODE_CTX" where
  "decode_loop [] ctx = ([], True, ctx)"
| "decode_loop (c # inp) ctx =
     (if is_space c then decode_loop inp ctx
      else if eof_seen ctx then ([], False, ctx\<lparr>error_encountered := True\<rparr>)
      else
        let ctx = ctx\<lparr>ctx_data := (ctx_data ctx)[data_used ctx := c], data_used := data_used ctx + 1\<rparr> in
        if data_used ctx = 4 then
          (case base64_decode_quad (ctx_data ctx) of
             None \<Rightarrow> ([], False, ctx\<lparr>error_encountered := True\<rparr>)
           | Some bytes \<Rightarrow>
               let ctx = ctx\<lparr>data_used := 0\<rparr>;
                   ctx = (if length bytes < 3 then ctx\<lparr>eof_seen := True\<rparr> else ctx) in
               (case decode_loop inp ctx of (out, ok, ctx) \<Rightarrow> (bytes @ out, ok, ctx)))
        else decode_loop inp ctx)"

text \<open>The result: the return value, the bytes written, \<open>*out_len\<close> and the context.\<close>

definition EVP_DecodeUpdate ::
  "EVP_ENCODE_CTX \<Rightarrow> u8 list \<Rightarrow> int \<times> u8 list \<times> nat \<times> EVP_ENCODE_CTX"
where
  "EVP_DecodeUpdate ctx inp =
     (if error_encountered ctx then (-1, [], 0, ctx)
      else case decode_loop inp ctx of
             (out, ok, ctx) \<Rightarrow>
               if \<not> ok then (-1, out, 0, ctx)
               else if INT_MAX < length out then (-1, out, 0, ctx\<lparr>error_encountered := True\<rparr>)
               else (if eof_seen ctx then 0 else 1, out, length out, ctx))"

definition EVP_DecodeFinal :: "EVP_ENCODE_CTX \<Rightarrow> int" where
  "EVP_DecodeFinal ctx = (if error_encountered ctx \<or> data_used ctx \<noteq> 0 then -1 else 1)"

function decode_quads :: "u8 list \<Rightarrow> u8 list option" where
  "decode_quads inp =
     (if length inp = 0 then Some []
      else case base64_decode_quad inp of
             None \<Rightarrow> None
           | Some bytes \<Rightarrow>
               if length bytes \<noteq> 3 \<and> length inp \<noteq> 4 then None
               else map_option ((@) bytes) (decode_quads (drop 4 inp)))"
  by pat_completeness auto
termination by (relation "measure length") auto

declare decode_quads.simps [simp del]

definition EVP_DecodeBase64 :: "nat \<Rightarrow> u8 list \<Rightarrow> u8 list option" where
  "EVP_DecodeBase64 max_out inp =
     (if length inp mod 4 \<noteq> 0 then None
      else case EVP_DecodedLength (length inp) of
             None \<Rightarrow> None
           | Some max_len \<Rightarrow> if max_out < max_len then None else decode_quads inp)"

text \<open>\<open>EVP_DecodeBlock\<close>: the bytes written with the padding put back; their number is the result.\<close>

definition EVP_DecodeBlock :: "u8 list \<Rightarrow> u8 list option" where
  "EVP_DecodeBlock src =
     (let src = dropWhile (\<lambda>c. c = 32 \<or> c = 9) src;
          src = rev (dropWhile is_space (rev src)) in
      case EVP_DecodedLength (length src) of
        None \<Rightarrow> None
      | Some dst_len \<Rightarrow>
          if INT_MAX < dst_len then None
          else case EVP_DecodeBase64 dst_len src of
                 None \<Rightarrow> None
               | Some out \<Rightarrow> Some (out @ replicate ((3 - length out mod 3) mod 3) 0))"

end
