(* ===== verification/Base64_Codec.thy ===== *)
theory Base64_Codec imports Base64 begin

text \<open>
  What the base64 codec of \<open>Base64\<close> computes: the alphabet as arithmetic on numbers, the quads, the
  line-by-line reference encoder \<open>enc_stream\<close>, and the round trips of the one-shot and the
  streaming interface.
\<close>

section \<open>The alphabet\<close>

lemma lt_args_mask: "constant_time_lt_args_8 a b = (if a < b then - 1 else 0)"
proof -
  have u: "unat (ucast a :: u64) = unat a" "unat (ucast b :: u64) = unat b"
    by (simp_all add: unat_ucast_up)
  have wrap: "d = (if y \<le> x then x - y else x + 2 ^ 64 - y) \<Longrightarrow> x < 256 \<Longrightarrow> y < 256 \<Longrightarrow>
      2 ^ 63 \<le> d \<longleftrightarrow> x < y" for d x y :: nat by auto
  have "unat (ucast a - ucast b :: u64)
      = (if unat b \<le> unat a then unat a - unat b else unat a + 2 ^ 64 - unat b)"
    using unat_sub_if' [of "ucast a :: u64" "ucast b"] u by simp
  from wrap [OF this unat_byte_less unat_byte_less]
  have "bit (ucast a - ucast b :: u64) 63 \<longleftrightarrow> a < b"
    by (simp only: bit_63_iff word_less_nat_alt)
  then show ?thesis
    unfolding constant_time_lt_args_8_def msb_mask using mask_8 [of "a < b"] by simp
qed

lemma eq_args_mask: "unat c < 256 \<Longrightarrow>
    constant_time_eq_8 (ucast (a :: u8)) c = (if unat a = unat c then - 1 else 0)"
  by (simp add: ct_masks_8 word_unat_eq_iff unat_ucast_up)

lemma in_range_mask:
  assumes "unat lo \<le> unat hi" and "unat hi - unat lo < 255"
  shows "constant_time_in_range_8 a lo hi = (if unat lo \<le> unat a \<and> unat a \<le> unat hi then - 1 else 0)"
proof -
  have "unat (hi - lo) = unat hi - unat lo" using assms(1) unat_sub_if' [of hi lo] by simp
  then have w: "unat (hi - lo + 1) = unat hi - unat lo + 1"
    using assms(2) by (simp add: unat_word_ariths)
  have wrap: "d = (if y \<le> x then x - y else x + 256 - y) \<Longrightarrow> y \<le> z \<Longrightarrow> z < 256 \<Longrightarrow>
      d < z - y + 1 \<longleftrightarrow> y \<le> x \<and> x \<le> z" for d x y z :: nat by auto
  have "unat (a - lo) = (if unat lo \<le> unat a then unat a - unat lo else unat a + 256 - unat lo)"
    using unat_sub_if' [of a lo] by simp
  from wrap [OF this assms(1) unat_byte_less]
  have "a - lo < hi - lo + 1 \<longleftrightarrow> unat lo \<le> unat a \<and> unat a \<le> unat hi"
    by (simp only: word_less_nat_alt w)
  then show ?thesis by (simp add: constant_time_in_range_8_def lt_args_mask)
qed

text \<open>The two conversions on numbers.\<close>

definition alphabet :: "nat \<Rightarrow> nat" where
  "alphabet n =
     (if n < 26 then n + 65 else if n < 52 then n - 26 + 97 else if n < 62 then n - 52 + 48
      else if n = 62 then 43 else 47)"

definition unalphabet :: "nat \<Rightarrow> nat" where
  "unalphabet n =
     (if 65 \<le> n \<and> n \<le> 90 then n - 65 else if 97 \<le> n \<and> n \<le> 122 then n - 97 + 26
      else if 48 \<le> n \<and> n \<le> 57 then n - 48 + 52 else if n = 43 then 62 else if n = 47 then 63
      else if n = 61 then 0 else 255)"

lemma word_sub_const:
  "k \<le> unat (a :: u8) \<Longrightarrow> a - word_of_nat k = byte (unat a - k)"
  by (simp add: byte_def of_nat_diff)

lemma conv_bin2ascii_alphabet: "conv_bin2ascii a = byte (alphabet (unat a mod 64))"
proof -
  define x where "x = a AND 0x3f"
  have n: "unat x = unat a mod 64"
    using unat_and_mask [of a 6] by (simp add: x_def mask_eq_exp_minus_1)
  have plus: "x + word_of_nat k = byte (unat x + k)" for k
    by (simp add: byte_def)
  have minus: "k \<le> unat x \<Longrightarrow> x - word_of_nat k + word_of_nat m = byte (unat x - k + m)" for k m
    by (simp add: byte_def of_nat_diff)
  show ?thesis
    unfolding conv_bin2ascii_def Let_def x_def [symmetric] lt_args_mask
    using plus [of 65] minus [of 26 97] minus [of 52 48]
    by (simp add: eq_args_mask select_8_mask alphabet_def n [symmetric] word_less_nat_alt byte_def)
qed

lemma base64_ascii_to_bin_unalphabet: "base64_ascii_to_bin a = byte (unalphabet (unat a))"
proof -
  have minus: "k \<le> unat a \<Longrightarrow> a - word_of_nat k + word_of_nat m = byte (unat a - k + m)" for k m
    by (simp add: byte_def of_nat_diff)
  have range: "constant_time_in_range_8 a 65 90 = (if 65 \<le> unat a \<and> unat a \<le> 90 then - 1 else 0)"
    "constant_time_in_range_8 a 97 122 = (if 97 \<le> unat a \<and> unat a \<le> 122 then - 1 else 0)"
    "constant_time_in_range_8 a 48 57 = (if 48 \<le> unat a \<and> unat a \<le> 57 then - 1 else 0)"
    using in_range_mask [of 65 90 a] in_range_mask [of 97 122 a] in_range_mask [of 48 57 a]
    by simp_all
  show ?thesis
    unfolding base64_ascii_to_bin_def Let_def range
    using minus [of 65 0] minus [of 97 26] minus [of 48 52]
    by (simp add: eq_args_mask select_8_mask unalphabet_def byte_def)
qed

lemma unalphabet_alphabet:
  assumes "n < 64"
  shows "unalphabet (alphabet n) = n" "alphabet n < 123" "alphabet n \<noteq> 61" "alphabet n \<noteq> 32"
    "alphabet n \<noteq> 9" "alphabet n \<noteq> 13" "alphabet n \<noteq> 10"
  using assms by (auto simp: alphabet_def unalphabet_def)

lemma bin_ascii:
  "unat (base64_ascii_to_bin (conv_bin2ascii a)) = unat a mod 64" "conv_bin2ascii a \<noteq> 61"
  "\<not> is_space (conv_bin2ascii a)"
proof -
  note alpha = unalphabet_alphabet [of "unat a mod 64", OF mod_less_divisor]
  have u: "unat (conv_bin2ascii a) = alphabet (unat a mod 64)"
    using alpha by (simp add: conv_bin2ascii_alphabet)
  show "unat (base64_ascii_to_bin (conv_bin2ascii a)) = unat a mod 64"
    using alpha by (simp add: base64_ascii_to_bin_unalphabet u)
  show "conv_bin2ascii a \<noteq> 61" "\<not> is_space (conv_bin2ascii a)"
    using alpha u by (auto simp: is_space_def)
qed

section \<open>Quads\<close>

text \<open>The number that four 6-bit digits or three bytes spell.\<close>

definition val3 :: "u8 \<Rightarrow> u8 \<Rightarrow> u8 \<Rightarrow> nat" where
  "val3 x y z = unat x * 65536 + unat y * 256 + unat z"

definition sextet :: "nat \<Rightarrow> u8" where
  "sextet n = byte (alphabet (n mod 64))"

lemma unat_val3:
  "unat (push_bit 16 (ucast x) OR push_bit 8 (ucast y) OR ucast z :: u32) = val3 x y z"
proof -
  have u: "unat (ucast b :: u32) = unat b" for b :: u8 by (simp add: unat_ucast_up)
  have one: "unat (push_bit 8 (ucast x) OR ucast y :: u32) = unat x * 256 + unat y"
    using unat_shift_or [of "ucast y :: u32" 8 "ucast x"] byte_digit_less [OF unat_byte_less [of x], of y]
    by (simp add: u mult.commute)
  have "push_bit 16 (ucast x) OR push_bit 8 (ucast y) OR ucast z
      = push_bit 8 (push_bit 8 (ucast x) OR ucast y) OR (ucast z :: u32)"
    by (simp add: push_bit_or push_bit_push_bit or.assoc)
  moreover have "(unat x * 256 + unat y) * 256 + unat z < 2 ^ 32"
    using byte_digit_less [OF unat_byte_less [of x], of y]
      byte_digit_less [of "unat x * 256 + unat y" 65536 z] by (simp add: mult.commute)
  ultimately show ?thesis
    using unat_shift_or [of "ucast z :: u32" 8 "push_bit 8 (ucast x) OR ucast y"]
    by (simp add: u one val3_def)
qed

lemma val3_less: "val3 x y z < 2 ^ 24"
  using byte_digit_less [OF unat_byte_less [of x], of y]
    byte_digit_less [of "unat x * 256 + unat y" 65536 z] by (simp add: val3_def mult.commute)

lemma conv_sextet: "conv_bin2ascii (ucast (drop_bit k (l :: u32))) = sextet (unat l div 2 ^ k)"
  by (simp add: conv_bin2ascii_alphabet sextet_def unat_ucast_mod unat_drop_bit mod_mod_cancel)

lemma conv_sextet_0: "conv_bin2ascii (ucast (l :: u32)) = sextet (unat l)"
  using conv_sextet [of 0 l] by simp

lemma encode_block_3:
  "encode_block (x # y # z # src) =
     [sextet (val3 x y z div 2 ^ 18), sextet (val3 x y z div 2 ^ 12), sextet (val3 x y z div 2 ^ 6),
      sextet (val3 x y z)] @ encode_block src"
  by (simp only: encode_block.simps Let_def conv_sextet_0 unat_drop_bit unat_val3)

lemma encode_block_1:
  "encode_block [x] = [sextet (val3 x 0 0 div 2 ^ 18), sextet (val3 x 0 0 div 2 ^ 12), 61, 61]"
  using unat_val3 [of x 0 0] by (simp only: encode_block.simps Let_def conv_sextet) simp

lemma encode_block_2:
  "encode_block [x, y] = [sextet (val3 x y 0 div 2 ^ 18), sextet (val3 x y 0 div 2 ^ 12),
     sextet (val3 x y 0 div 2 ^ 6), 61]"
  using unat_val3 [of x y 0] by (simp only: encode_block.simps Let_def conv_sextet) simp

declare encode_block.simps (2-4) [simp del]

lemma unat_val4:
  fixes a b c d :: u8
  assumes "unat a < 64" "unat b < 64" "unat c < 64" "unat d < 64"
  shows "unat (push_bit 18 (ucast a) OR push_bit 12 (ucast b) OR push_bit 6 (ucast c) OR ucast d :: u32)
    = unat a * 2 ^ 18 + unat b * 2 ^ 12 + unat c * 2 ^ 6 + unat d"
proof -
  have u: "unat (ucast b :: u32) = unat b" for b :: u8 by (simp add: unat_ucast_up)
  let ?x = "push_bit 6 (ucast a) OR ucast b :: u32"
  let ?y = "push_bit 6 ?x OR ucast c"
  have x: "unat ?x = unat a * 64 + unat b"
    using unat_shift_or [of "ucast b :: u32" 6 "ucast a"] assms by (simp add: u)
  have y: "unat ?y = (unat a * 64 + unat b) * 64 + unat c"
    using unat_shift_or [of "ucast c :: u32" 6 ?x] assms by (simp add: u x)
  have "push_bit 18 (ucast a) OR push_bit 12 (ucast b) OR push_bit 6 (ucast c) OR ucast d
      = push_bit 6 ?y OR (ucast d :: u32)"
    by (simp add: push_bit_or push_bit_push_bit or.assoc)
  moreover have "unat (push_bit 6 ?y OR ucast d) = unat ?y * 2 ^ 6 + unat (ucast d :: u32)"
    by (rule unat_shift_or) (use assms y u in simp_all)
  moreover have "unat ?y * 2 ^ 6 + unat (ucast d :: u32)
      = unat a * 2 ^ 18 + unat b * 2 ^ 12 + unat c * 2 ^ 6 + unat d"
    unfolding y u by simp
  ultimately show ?thesis by (simp only:)
qed

lemma bin_sextet: "unat (base64_ascii_to_bin (sextet n)) = n mod 64" "sextet n \<noteq> 61"
  "\<not> is_space (sextet n)"
proof -
  have "sextet n = conv_bin2ascii (byte (n mod 64))"
    by (simp add: sextet_def conv_bin2ascii_alphabet)
  then show "unat (base64_ascii_to_bin (sextet n)) = n mod 64" "sextet n \<noteq> 61"
    "\<not> is_space (sextet n)"
    using bin_ascii [of "byte (n mod 64)"] by simp_all
qed

lemma bin_sextet_valid: "base64_ascii_to_bin (sextet n) \<noteq> 0xff"
  using bin_sextet(1) [of n] by auto

lemma bin_equals: "base64_ascii_to_bin 61 = 0" "\<not> is_space 61"
  by (simp_all add: base64_ascii_to_bin_unalphabet unalphabet_def byte_def is_space_def)

lemma split24:
  assumes "n < 2 ^ 24"
  shows "n div 262144 mod 64 * 262144 + n div 4096 mod 64 * 4096 + n div 64 mod 64 * 64 + n mod 64 = (n :: nat)"
proof -
  have step: "m = 64 * (m div 64) + m mod 64" for m :: nat by simp
  have "n div 262144 mod 64 = n div 262144" using assms by simp
  moreover have "n div 4096 = 64 * (n div 262144) + n div 4096 mod 64"
    using step [of "n div 4096"] by (simp add: div_mult2_eq [symmetric])
  moreover have "n div 64 = 64 * (n div 4096) + n div 64 mod 64"
    using step [of "n div 64"] by (simp add: div_mult2_eq [symmetric])
  ultimately show ?thesis using step [of n] by linarith
qed

lemma val3_bytes:
  "byte (val3 x y z div 2 ^ 16) = x" "byte (val3 x y z div 2 ^ 8) = y" "byte (val3 x y z) = z"
proof -
  have lt: "unat y * 256 + unat z < 65536" using byte_digit_less [OF unat_byte_less [of y], of z] by simp
  have "val3 x y z = unat x * 65536 + (unat y * 256 + unat z)" by (simp add: val3_def)
  then have "val3 x y z div 65536 = unat x" using lt by simp
  then show "byte (val3 x y z div 2 ^ 16) = x" by simp
  have low: "u < 256 \<Longrightarrow> (m * 256 + u) div 256 = m" for m u :: nat by simp
  have "val3 x y z = (unat x * 256 + unat y) * 256 + unat z" by (simp add: val3_def)
  then have "val3 x y z div 256 = unat x * 256 + unat y" by (simp only: low [OF unat_byte_less])
  then show "byte (val3 x y z div 2 ^ 8) = y"
    using byte_eq_iff [of "unat x * 256 + unat y" "unat y"] by simp
  have low': "u < 256 \<Longrightarrow> (m * 256 + u) mod 256 = u" for m u :: nat by simp
  have "val3 x y z mod 256 = unat z"
    by (simp only: \<open>val3 x y z = (unat x * 256 + unat y) * 256 + unat z\<close> low' [OF unat_byte_less])
  then show "byte (val3 x y z) = z" by (simp add: eq_byte_iff [symmetric] word_unat_eq_iff)
qed
lemma decode_quad_val:
  assumes "unat (base64_ascii_to_bin p) < 64" "unat (base64_ascii_to_bin q) < 64"
    "unat (base64_ascii_to_bin r) < 64" "unat (base64_ascii_to_bin s) < 64"
    and v: "v = unat (base64_ascii_to_bin p) * 262144 + unat (base64_ascii_to_bin q) * 4096
    + unat (base64_ascii_to_bin r) * 64 + unat (base64_ascii_to_bin s)"
  shows "base64_decode_quad (p # q # r # s # rest) =
    (if p = 61 \<or> q = 61 then None
     else if s \<noteq> 61 then (if r = 61 then None else Some [byte (v div 2 ^ 16), byte (v div 2 ^ 8), byte v])
     else if r \<noteq> 61 then Some [byte (v div 2 ^ 16), byte (v div 2 ^ 8)]
     else Some [byte (v div 2 ^ 16)])"
proof -
  define w :: u32 where "w = push_bit 18 (ucast (base64_ascii_to_bin p))
    OR push_bit 12 (ucast (base64_ascii_to_bin q)) OR push_bit 6 (ucast (base64_ascii_to_bin r))
    OR ucast (base64_ascii_to_bin s)"
  have w: "unat w = v" using unat_val4 [OF assms(1-4)] by (simp add: w_def v)
  have bytes: "(ucast (drop_bit k w) :: u8) = byte (v div 2 ^ k)" for k
    by (simp add: eq_byte_iff unat_ucast_mod unat_drop_bit w)
  have last: "(ucast w :: u8) = byte v" using bytes [of 0] by simp
  have ok: "base64_ascii_to_bin p \<noteq> 0xff" "base64_ascii_to_bin q \<noteq> 0xff"
    "base64_ascii_to_bin r \<noteq> 0xff" "base64_ascii_to_bin s \<noteq> 0xff"
    using assms(1-4) by auto
  have nth: "(p # q # r # s # rest) ! 0 = p" "(p # q # r # s # rest) ! 1 = q"
    "(p # q # r # s # rest) ! 2 = r" "(p # q # r # s # rest) ! 3 = s"
    by simp_all
  show ?thesis
    unfolding base64_decode_quad_def Let_def nth w_def [symmetric] bytes last by (simp add: ok)
qed

lemma decode_quad_3:
  "base64_decode_quad (encode_block [x, y, z] @ rest) = Some [x, y, z]"
proof -
  define n where "n = val3 x y z"
  have n: "n < 2 ^ 24" unfolding n_def by (rule val3_less)
  have "base64_decode_quad (sextet (n div 262144) # sextet (n div 4096) # sextet (n div 64) # sextet n # rest)
      = Some [byte (n div 2 ^ 16), byte (n div 2 ^ 8), byte n]"
    by (rule trans [OF decode_quad_val [where v = n]]) (simp_all only: bin_sextet split24 [OF n], simp_all)
  then show ?thesis by (simp add: encode_block_3 n_def [symmetric]) (simp add: n_def val3_bytes [simplified])
qed

lemma decode_quad_2: "base64_decode_quad (encode_block [x, y] @ rest) = Some [x, y]"
proof -
  define n where "n = val3 x y 0"
  have n: "n < 2 ^ 24" unfolding n_def by (rule val3_less)
  have "n = 64 * (unat x * 1024 + unat y * 4)" by (simp add: n_def val3_def)
  then have z: "n mod 64 = 0" by simp
  have v: "n = n div 262144 mod 64 * 262144 + n div 4096 mod 64 * 4096 + n div 64 mod 64 * 64 + 0"
    using split24 [OF n] z by linarith
  have "base64_decode_quad (sextet (n div 262144) # sextet (n div 4096) # sextet (n div 64) # 61 # rest)
      = Some [byte (n div 2 ^ 16), byte (n div 2 ^ 8)]"
    by (rule trans [OF decode_quad_val [where v = n]])
      (simp_all only: bin_sextet bin_equals unsigned_0 v [symmetric], simp_all)
  then show ?thesis by (simp add: encode_block_2 n_def [symmetric]) (simp add: n_def val3_bytes [simplified])
qed

lemma decode_quad_1: "base64_decode_quad (encode_block [x] @ rest) = Some [x]"
proof -
  define n where "n = val3 x 0 0"
  have n: "n < 2 ^ 24" unfolding n_def by (rule val3_less)
  have n': "n = 64 * (64 * (unat x * 16))" by (simp add: n_def val3_def)
  then have z: "n mod 64 = 0" "n div 64 mod 64 = 0" by simp_all
  have v: "n = n div 262144 mod 64 * 262144 + n div 4096 mod 64 * 4096 + 0 * 64 + 0"
    using split24 [OF n] z by linarith
  have "base64_decode_quad (sextet (n div 262144) # sextet (n div 4096) # 61 # 61 # rest)
      = Some [byte (n div 2 ^ 16)]"
    by (rule trans [OF decode_quad_val [where v = n]])
      (simp_all only: bin_sextet bin_equals unsigned_0 v [symmetric], simp_all)
  then show ?thesis by (simp add: encode_block_1 n_def [symmetric]) (simp add: n_def val3_bytes [simplified])
qed

section \<open>Round trip\<close>

lemma length_encode_block: "length (encode_block xs) = 4 * ((length xs + 2) div 3)"
proof (induction xs rule: encode_block.induct)
  case (4 s0 s1 s2 src)
  moreover have "(5 + m) div 3 = Suc (Suc (Suc m) div 3)" for m :: nat by arith
  ultimately show ?case by (simp add: encode_block_3)
qed (simp_all add: encode_block_1 encode_block_2)

lemma encode_block_append3:
  "length a = 3 \<Longrightarrow> encode_block (a @ xs) = encode_block a @ encode_block xs"
  by (auto simp: length_Suc_conv numeral_3_eq_3 encode_block_3)

lemma length_encode_3 [simp]: "length (encode_block [x, y, z]) = 4"
  by (simp add: encode_block_3)

lemma decode_quads_encode: "decode_quads (encode_block xs) = Some xs"
proof (induction xs rule: encode_block.induct)
  case 1
  then show ?case by (simp add: decode_quads.simps)
next
  case (2 x)
  have "length (encode_block [x]) = 4" by (simp add: encode_block_1)
  then show ?case
    using decode_quad_1 [of x "[]"] decode_quads.simps [of "encode_block [x]"]
      decode_quads.simps [of "[]"] by simp
next
  case (3 x y)
  have "length (encode_block [x, y]) = 4" by (simp add: encode_block_2)
  then show ?case
    using decode_quad_2 [of x y "[]"] decode_quads.simps [of "encode_block [x, y]"]
      decode_quads.simps [of "[]"] by simp
next
  case (4 x y z xs)
  have e: "encode_block (x # y # z # xs) = encode_block [x, y, z] @ encode_block xs"
    using encode_block_append3 [of "[x, y, z]" xs] by simp
  show ?case
    unfolding e using decode_quad_3 [of x y z "encode_block xs"] "4.IH"
    by (subst decode_quads.simps) simp
qed

section \<open>Streaming encoder\<close>

text \<open>What has been written after some input, and what is still buffered.\<close>

function enc_stream :: "u8 list \<Rightarrow> u8 list \<times> u8 list" where
  "enc_stream xs =
     (if length xs < 48 then ([], xs)
      else case enc_stream (drop 48 xs) of
             (out, rest) \<Rightarrow> (encode_block (take 48 xs) @ [10] @ out, rest))"
  by pat_completeness auto
termination by (relation "measure length") auto

declare enc_stream.simps [simp del]

definition enc_final :: "u8 list \<Rightarrow> u8 list" where
  "enc_final rest = (if rest = [] then [] else encode_block rest @ [10])"

lemma enc_stream_short [simp]: "length xs < 48 \<Longrightarrow> enc_stream xs = ([], xs)"
  by (simp add: enc_stream.simps)

lemma enc_stream_line:
  assumes "length line = 48"
  shows "enc_stream (line @ xs) = (encode_block line @ [10] @ fst (enc_stream xs), snd (enc_stream xs))"
  using assms enc_stream.simps [of "line @ xs"] by (simp split: prod.split)

lemma length_enc_stream: "length (fst (enc_stream xs)) = 65 * (length xs div 48)" "length (snd (enc_stream xs)) < 48"
proof (induction xs rule: enc_stream.induct)
  case (1 xs)
  show "length (fst (enc_stream xs)) = 65 * (length xs div 48)" "length (snd (enc_stream xs)) < 48"
  proof (atomize (full), cases "length xs < 48")
    case False
    have x: "xs = take 48 xs @ drop 48 xs" "length (take 48 xs) = 48" using False by simp_all
    have "length (encode_block (take 48 xs)) = 64" using x(2) by (simp only: length_encode_block) simp
    then show "length (fst (enc_stream xs)) = 65 * (length xs div 48) \<and> length (snd (enc_stream xs)) < 48"
      using "1.IH" [OF False] enc_stream_line [OF x(2), of "drop 48 xs"] False by (simp add: le_div_geq)
  qed simp
qed

lemma encode_lines_spec:
  assumes "tot + 65 * (length inp div 48) < size_limit"
  shows "encode_lines inp tot =
    (fst (enc_stream inp), Some (tot + 65 * (length inp div 48)), snd (enc_stream inp))"
  using assms
proof (induction inp tot rule: encode_lines.induct)
  case (1 inp tot)
  show ?case
  proof (cases "length inp < 48")
    case True
    then show ?thesis by (simp add: encode_lines.simps)
  next
    case False
    have x: "inp = take 48 inp @ drop 48 inp" "length (take 48 inp) = 48" using False by simp_all
    have enc: "snd (EVP_EncodeBlock (take 48 inp)) = 64"
      using x(2) by (simp only: EVP_EncodeBlock_def snd_conv length_encode_block) simp
    have q: "length inp div 48 = Suc (length (drop 48 inp) div 48)"
      using False by (simp add: le_div_geq)
    have add: "size_add tot 65 = tot + 65" using "1.prems" q by simp
    have rec: "encode_lines (drop 48 inp) (tot + 65) = (fst (enc_stream (drop 48 inp)),
        Some (tot + 65 + 65 * (length (drop 48 inp) div 48)), snd (enc_stream (drop 48 inp)))"
      using "1.IH" [OF False refl refl] "1.prems" q by (simp add: enc add)
    show ?thesis
      using False enc_stream_line [OF x(2), of "drop 48 inp"] q
      by (subst encode_lines.simps) (simp add: Let_def enc add rec)
  qed
qed

definition ctx_ok :: "EVP_ENCODE_CTX \<Rightarrow> bool" where
  "ctx_ok ctx \<longleftrightarrow> data_used ctx < 48 \<and> length (ctx_data ctx) = 48"

definition pending :: "EVP_ENCODE_CTX \<Rightarrow> u8 list" where
  "pending ctx = take (data_used ctx) (ctx_data ctx)"

lemma ctx_store_pending:
  assumes "pos + length xs \<le> length (ctx_data ctx)"
  shows "take (pos + length xs) (ctx_store ctx pos xs) = take pos (ctx_data ctx) @ xs"
    and "length (ctx_store ctx pos xs) = length (ctx_data ctx)"
  using assms by (simp_all add: ctx_store_def)

lemma EVP_EncodeUpdate_spec:
  assumes ok: "ctx_ok ctx" and small: "length inp < 2 ^ 60"
  defines "st \<equiv> enc_stream (pending ctx @ inp)"
  shows "\<exists>ctx'. EVP_EncodeUpdate ctx inp
      = (fst st, if INT_MAX < length (fst st) then 0 else length (fst st), ctx')
    \<and> ctx_ok ctx' \<and> pending ctx' = snd st"
proof -
  define u where "u = data_used ctx"
  have u: "u < 48" "length (ctx_data ctx) = 48" "length (pending ctx) = u"
    using ok by (simp_all add: ctx_ok_def u_def pending_def)
  consider "inp = []" | "inp \<noteq> []" "length inp < 48 - u" | "48 - u \<le> length inp" by fastforce
  then show ?thesis
  proof cases
    case 1
    then show ?thesis using ok u by (simp add: EVP_EncodeUpdate_def st_def)
  next
    case 2
    then have "u + length inp < 48" by simp
    then show ?thesis
      using 2 u ctx_store_pending [of u inp ctx] 
      by (simp add: EVP_EncodeUpdate_def st_def ctx_ok_def u_def [symmetric] pending_def)
  next
    case 3
    have ne: "inp \<noteq> []" using 3 u by auto
    define todo where "todo = 48 - u"
    define line where "line = pending ctx @ take todo inp"
    have line: "length line = 48" using 3 u by (simp add: line_def todo_def)
    have split: "pending ctx @ inp = line @ drop todo inp" by (simp add: line_def)
    show ?thesis
    proof (cases "u = 0")
      case True
      have len: "0 + 65 * (length inp div 48) < size_limit" using small by simp
      have "length (snd (enc_stream inp)) \<le> 48"
        using length_enc_stream(2) [of inp] by (rule less_imp_le)
      then show ?thesis
        using True 3 ne u ctx_store_pending [of 0 "snd (enc_stream inp)" ctx]
        by (simp add: EVP_EncodeUpdate_def st_def u_def [symmetric] encode_lines_spec [OF len]
            length_enc_stream pending_def ctx_ok_def)
    next
      case False
      have store: "ctx_store ctx u (take todo inp) = line"
        using 3 u by (simp add: ctx_store_def line_def pending_def u_def todo_def)
      have el: "length (encode_block line) = 64" using line by (simp only: length_encode_block) simp
      have len: "65 + 65 * (length (drop todo inp) div 48) < size_limit" using small by simp
      define st' where "st' = enc_stream (drop todo inp)"
      have st: "fst st = encode_block line @ [10] @ fst st'" "snd st = snd st'"
        by (simp_all add: st_def split enc_stream_line [OF line] st'_def)
      have l: "length (snd st') < 48" "length (fst st') = 65 * (length (drop todo inp) div 48)"
        by (simp_all only: st'_def length_enc_stream)
      have fst_len: "length (fst st) = 65 + 65 * (length (drop todo inp) div 48)"
        by (simp add: st el l)
      have cs: "take (length (snd st')) (ctx_store c 0 (snd st')) = snd st'"
        "length (ctx_store c 0 (snd st')) = 48" if "length (ctx_data c) = 48" for c
        using ctx_store_pending [of 0 "snd st'" c] that l(1) by simp_all
      show ?thesis
        unfolding fst_len
        using False 3 ne u line l st
        by (simp add: EVP_EncodeUpdate_def u_def [symmetric] todo_def [symmetric] store el Let_def
            encode_lines_spec [OF len] st'_def [symmetric] pending_def ctx_ok_def cs)
    qed
  qed
qed

lemma EVP_EncodeFinal_spec:
  "ctx_ok ctx \<Longrightarrow> fst (EVP_EncodeFinal ctx) = enc_final (pending ctx)"
  by (auto simp: EVP_EncodeFinal_def enc_final_def pending_def ctx_ok_def Let_def)

section \<open>Streaming decoder\<close>

definition dec_ready :: "EVP_ENCODE_CTX \<Rightarrow> bool" where
  "dec_ready ctx \<longleftrightarrow> data_used ctx = 0 \<and> \<not> eof_seen ctx \<and> \<not> error_encountered ctx
     \<and> length (ctx_data ctx) = 48"

lemma decode_loop_quad:
  assumes "dec_ready ctx" and "\<not> is_space p" "\<not> is_space q" "\<not> is_space r" "\<not> is_space s"
    and "\<And>rest. base64_decode_quad (p # q # r # s # rest) = Some bytes"
  obtains ctx' where "decode_loop (p # q # r # s # inp) ctx
      = (case decode_loop inp ctx' of (out, ok, c) \<Rightarrow> (bytes @ out, ok, c))"
    "data_used ctx' = 0" "eof_seen ctx' = (length bytes < 3)" "\<not> error_encountered ctx'"
    "length (ctx_data ctx') = 48"
proof -
  from assms(1) obtain x0 x1 x2 x3 d where d: "ctx_data ctx = x0 # x1 # x2 # x3 # d" "length d = 44"
    by (auto simp: dec_ready_def eval_nat_numeral length_Suc_conv)
  define ctx1 where "ctx1 = ctx\<lparr>ctx_data := p # q # r # s # d, data_used := 0\<rparr>"
  define ctx' where "ctx' = (if length bytes < 3 then ctx1\<lparr>eof_seen := True\<rparr> else ctx1)"
  have "decode_loop (p # q # r # s # inp) ctx
      = (case decode_loop inp ctx' of (out, ok, c) \<Rightarrow> (bytes @ out, ok, c))"
    using assms d by (simp add: dec_ready_def Let_def ctx'_def ctx1_def)
  with that [of ctx'] assms(1) d show thesis by (simp add: ctx'_def ctx1_def dec_ready_def)
qed

lemma encode_block_chars:
  "\<exists>p q r s. encode_block [x, y, z] = [p, q, r, s] \<and> \<not> is_space p \<and> \<not> is_space q \<and> \<not> is_space r \<and> \<not> is_space s"
  "\<exists>p q r s. encode_block [x, y] = [p, q, r, s] \<and> \<not> is_space p \<and> \<not> is_space q \<and> \<not> is_space r \<and> \<not> is_space s"
  "\<exists>p q r s. encode_block [x] = [p, q, r, s] \<and> \<not> is_space p \<and> \<not> is_space q \<and> \<not> is_space r \<and> \<not> is_space s"
  by (simp_all add: encode_block_1 encode_block_2 encode_block_3 bin_sextet bin_equals)

text \<open>Encoded characters of a block that is not the last one, then anything.\<close>

lemma decode_loop_block:
  assumes "length xs = 3 * k" and "dec_ready ctx"
  shows "\<exists>ctx'. dec_ready ctx' \<and> decode_loop (encode_block xs @ inp) ctx
    = (case decode_loop inp ctx' of (out, ok, c) \<Rightarrow> (xs @ out, ok, c))"
  using assms
proof (induction k arbitrary: xs ctx)
  case 0
  then show ?case by (auto split: prod.splits)
next
  case (Suc k)
  then obtain x y z ys where xs: "xs = x # y # z # ys" and ys: "length ys = 3 * k"
    by (auto simp: length_Suc_conv numeral_3_eq_3 eval_nat_numeral)
  obtain p q r s where e: "encode_block [x, y, z] = [p, q, r, s]"
    and sp: "\<not> is_space p" "\<not> is_space q" "\<not> is_space r" "\<not> is_space s"
    using encode_block_chars(1) [of x y z] by blast
  have quad: "base64_decode_quad (p # q # r # s # rest) = Some [x, y, z]" for rest
    using decode_quad_3 [of x y z rest] by (simp add: e)
  obtain ctx1 where 1: "decode_loop (p # q # r # s # encode_block ys @ inp) ctx
      = (case decode_loop (encode_block ys @ inp) ctx1 of (out, ok, c) \<Rightarrow> ([x, y, z] @ out, ok, c))"
    and "data_used ctx1 = 0" "eof_seen ctx1 = (length [x, y, z] < 3)" "\<not> error_encountered ctx1"
      "length (ctx_data ctx1) = 48"
    by (rule decode_loop_quad [OF Suc.prems(2) sp quad])
  then have "dec_ready ctx1" by (simp add: dec_ready_def)
  from Suc.IH [OF ys this] obtain ctx2 where 2: "dec_ready ctx2"
    "decode_loop (encode_block ys @ inp) ctx1 = (case decode_loop inp ctx2 of (out, ok, c) \<Rightarrow> (ys @ out, ok, c))"
    by blast
  have "encode_block xs @ inp = p # q # r # s # encode_block ys @ inp"
    using encode_block_append3 [of "[x, y, z]" ys] by (simp add: xs e)
  then show ?case using 1 2 by (auto simp: xs split: prod.splits)
qed

lemma decode_loop_lines:
  "dec_ready ctx \<Longrightarrow> \<exists>ctx'. dec_ready ctx' \<and> decode_loop (fst (enc_stream xs) @ inp) ctx
    = (case decode_loop inp ctx' of (out, ok, c) \<Rightarrow> (take (length xs div 48 * 48) xs @ out, ok, c))"
proof (induction xs arbitrary: ctx rule: enc_stream.induct)
  case (1 xs)
  show ?case
  proof (cases "length xs < 48")
    case True
    then show ?thesis using 1(2) by (auto split: prod.splits)
  next
    case False
    have x: "xs = take 48 xs @ drop 48 xs" "length (take 48 xs) = 48" using False by simp_all
    have "fst (enc_stream xs) = encode_block (take 48 xs) @ [10] @ fst (enc_stream (drop 48 xs))"
      using enc_stream_line [OF x(2), of "drop 48 xs"] by simp
    moreover obtain ctx1 where 1: "dec_ready ctx1"
      "decode_loop (encode_block (take 48 xs) @ [10] @ fst (enc_stream (drop 48 xs)) @ inp) ctx
      = (case decode_loop ([10] @ fst (enc_stream (drop 48 xs)) @ inp) ctx1 of (out, ok, c) \<Rightarrow> (take 48 xs @ out, ok, c))"
      using decode_loop_block [of "take 48 xs" 16 ctx "[10] @ fst (enc_stream (drop 48 xs)) @ inp"]
        x(2) "1.prems" by auto
    moreover obtain ctx2 where 2: "dec_ready ctx2" "decode_loop (fst (enc_stream (drop 48 xs)) @ inp) ctx1
      = (case decode_loop inp ctx2 of (out, ok, c) \<Rightarrow>
          (take (length (drop 48 xs) div 48 * 48) (drop 48 xs) @ out, ok, c))"
      using "1.IH" [OF False 1(1)] by blast
    moreover have "take (length xs div 48 * 48) xs
        = take 48 xs @ take (length (drop 48 xs) div 48 * 48) (drop 48 xs)"
      using False by (simp add: le_div_geq take_add)
    ultimately show ?thesis by (auto simp: is_space_def split: prod.splits)
  qed
qed

lemma enc_stream_rest: "snd (enc_stream xs) = drop (length xs div 48 * 48) xs"
proof (induction xs rule: enc_stream.induct)
  case (1 xs)
  show ?case
  proof (cases "length xs < 48")
    case False
    have x: "xs = take 48 xs @ drop 48 xs" "length (take 48 xs) = 48" using False by simp_all
    then have "snd (enc_stream xs) = drop (length (drop 48 xs) div 48 * 48) (drop 48 xs)"
      using enc_stream_line [OF x(2), of "drop 48 xs"] "1.IH" [OF False] by simp
    then show ?thesis using False by (simp add: le_div_geq add.commute)
  qed simp
qed

lemma encode_block_append:
  "length a = 3 * k \<Longrightarrow> encode_block (a @ b) = encode_block a @ encode_block b"
proof (induction k arbitrary: a)
  case (Suc k)
  then obtain x y z c where a: "a = x # y # z # c" and c: "length c = 3 * k"
    by (auto simp: length_Suc_conv eval_nat_numeral)
  show ?case using Suc.IH [OF c] by (simp add: a encode_block_3)
qed simp

lemma decode_loop_final:
  assumes "dec_ready ctx"
  shows "\<exists>ctx'. decode_loop (enc_final r) ctx = (r, True, ctx') \<and> data_used ctx' = 0
    \<and> \<not> error_encountered ctx' \<and> eof_seen ctx' = (length r mod 3 \<noteq> 0)"
proof (cases "r = []")
  case True
  then show ?thesis using assms by (auto simp: enc_final_def dec_ready_def)
next
  case False
  define a where "a = take (length r div 3 * 3) r"
  define b where "b = drop (length r div 3 * 3) r"
  have r: "r = a @ b" by (simp add: a_def b_def)
  have a: "length a = 3 * (length r div 3)" by (simp add: a_def mult.commute)
  have b: "length b = length r mod 3" by (simp add: b_def minus_div_mult_eq_mod)
  from decode_loop_block [OF a assms, of "encode_block b @ [10]"] obtain ctx1 where 1: "dec_ready ctx1"
    "decode_loop (encode_block r @ [10]) ctx = (case decode_loop (encode_block b @ [10]) ctx1 of
        (out, ok, c) \<Rightarrow> (a @ out, ok, c))"
    using encode_block_append [OF a, of b] by (auto simp: r)
  have nl: "decode_loop [10] c = ([], True, c)" for c by (simp add: is_space_def)
  have "length b < 3" using b by simp
  then consider "b = []" | x where "b = [x]" | x y where "b = [x, y]"
    by (cases b; cases "tl b"; cases "tl (tl b)") auto
  then have "\<exists>ctx'. decode_loop (encode_block b @ [10]) ctx1 = (b, True, ctx') \<and> data_used ctx' = 0
    \<and> \<not> error_encountered ctx' \<and> eof_seen ctx' = (b \<noteq> [])"
  proof cases
    case 1
    then show ?thesis using \<open>dec_ready ctx1\<close> nl by (auto simp: dec_ready_def)
  next
    case (2 x)
    obtain p q u v where e: "encode_block [x] = [p, q, u, v]"
      and sp: "\<not> is_space p" "\<not> is_space q" "\<not> is_space u" "\<not> is_space v"
      using encode_block_chars(3) [of x] by blast
    have quad: "base64_decode_quad (p # q # u # v # rest) = Some [x]" for rest
      using decode_quad_1 [of x rest] by (simp add: e)
    obtain ctx' where "decode_loop (p # q # u # v # [10]) ctx1
        = (case decode_loop [10] ctx' of (out, ok, c) \<Rightarrow> ([x] @ out, ok, c))"
      "data_used ctx' = 0" "eof_seen ctx' = (length [x] < 3)" "\<not> error_encountered ctx'"
      by (rule decode_loop_quad [OF \<open>dec_ready ctx1\<close> sp quad])
    then show ?thesis by (simp add: 2 e nl del: decode_loop.simps)
  next
    case (3 x y)
    obtain p q u v where e: "encode_block [x, y] = [p, q, u, v]"
      and sp: "\<not> is_space p" "\<not> is_space q" "\<not> is_space u" "\<not> is_space v"
      using encode_block_chars(2) [of x y] by blast
    have quad: "base64_decode_quad (p # q # u # v # rest) = Some [x, y]" for rest
      using decode_quad_2 [of x y rest] by (simp add: e)
    obtain ctx' where "decode_loop (p # q # u # v # [10]) ctx1
        = (case decode_loop [10] ctx' of (out, ok, c) \<Rightarrow> ([x, y] @ out, ok, c))"
      "data_used ctx' = 0" "eof_seen ctx' = (length [x, y] < 3)" "\<not> error_encountered ctx'"
      by (rule decode_loop_quad [OF \<open>dec_ready ctx1\<close> sp quad])
    then show ?thesis by (simp add: 3 e nl del: decode_loop.simps)
  qed
  then obtain ctx' where "decode_loop (encode_block b @ [10]) ctx1 = (b, True, ctx')" "data_used ctx' = 0"
    "\<not> error_encountered ctx'" "eof_seen ctx' = (b \<noteq> [])" by blast
  moreover have "b \<noteq> [] \<longleftrightarrow> length r mod 3 \<noteq> 0" using b by (simp flip: length_0_conv)
  ultimately show ?thesis using 1(2) False by (simp add: enc_final_def r [symmetric])
qed

text \<open>
  A whole session: updates with the chunks, then the final call. The caller keeps what each call reports in \<open>*out_len\<close>,
  the first bytes of what it wrote; a decoder stops at an error and otherwise goes on. The results of a decoder are the
  return values of its updates, the data and the return value of the final call.
\<close>

fun encode_session :: "EVP_ENCODE_CTX \<Rightarrow> u8 list list \<Rightarrow> u8 list" where
  "encode_session ctx [] = (case EVP_EncodeFinal ctx of (out, n, _) \<Rightarrow> take n out)"
| "encode_session ctx (chunk # chunks) =
     (case EVP_EncodeUpdate ctx chunk of (out, n, ctx') \<Rightarrow> take n out @ encode_session ctx' chunks)"

fun decode_session :: "EVP_ENCODE_CTX \<Rightarrow> u8 list list \<Rightarrow> int list \<times> u8 list \<times> int" where
  "decode_session ctx [] = ([], [], EVP_DecodeFinal ctx)"
| "decode_session ctx (chunk # chunks) =
     (case EVP_DecodeUpdate ctx chunk of (r, out, n, ctx') \<Rightarrow>
        if r = -1 then ([r], [], -1)
        else case decode_session ctx' chunks of (rs, data, fin) \<Rightarrow> (r # rs, take n out @ data, fin))"

definition enc_all :: "u8 list \<Rightarrow> u8 list" where
  "enc_all xs = fst (enc_stream xs) @ enc_final (snd (enc_stream xs))"

lemma enc_stream_append:
  "enc_stream (xs @ ys) = (fst (enc_stream xs) @ fst (enc_stream (snd (enc_stream xs) @ ys)),
     snd (enc_stream (snd (enc_stream xs) @ ys)))"
proof (induction xs rule: enc_stream.induct)
  case (1 xs)
  show ?case
  proof (cases "length xs < 48")
    case False
    have x: "xs = take 48 xs @ drop 48 xs" "length (take 48 xs) = 48" using False by simp_all
    have "enc_stream (xs @ ys) = enc_stream (take 48 xs @ (drop 48 xs @ ys))"
      by (simp flip: append_assoc)
    then show ?thesis
      using "1.IH" [OF False] enc_stream_line [OF x(2), of "drop 48 xs"]
        enc_stream_line [OF x(2), of "drop 48 xs @ ys"] by simp
  qed simp
qed

lemma encode_session_spec:
  "ctx_ok ctx \<Longrightarrow> 2 * length (pending ctx @ concat chunks) \<le> INT_MAX \<Longrightarrow>
   encode_session ctx chunks = enc_all (pending ctx @ concat chunks)"
proof (induction chunks arbitrary: ctx)
  case Nil
  have "fst (snd (EVP_EncodeFinal ctx)) = length (fst (EVP_EncodeFinal ctx))"
    by (simp add: EVP_EncodeFinal_def Let_def)
  moreover have "length (pending ctx) < 48" using Nil(1) by (simp add: ctx_ok_def pending_def)
  ultimately show ?case using EVP_EncodeFinal_spec [OF Nil(1)] by (cases "EVP_EncodeFinal ctx") (simp add: enc_all_def)
next
  case (Cons c chunks)
  let ?st = "enc_stream (pending ctx @ c)"
  have small: "length c < 2 ^ 60" using Cons.prems(2) by simp
  have len: "length (fst ?st) = 65 * ((length (pending ctx) + length c) div 48)"
    by (simp only: length_enc_stream length_append)
  have "48 * ((length (pending ctx) + length c) div 48) \<le> length (pending ctx) + length c" by simp
  then have "length (fst ?st) \<le> 2 * (length (pending ctx) + length c)" unfolding len by simp
  then have out: "\<not> INT_MAX < length (fst ?st)" using Cons.prems(2) by simp
  obtain ctx' where up: "EVP_EncodeUpdate ctx c = (fst ?st, length (fst ?st), ctx')"
    and ok: "ctx_ok ctx'" and p: "pending ctx' = snd ?st"
    using EVP_EncodeUpdate_spec [OF Cons.prems(1) small] unfolding if_not_P [OF out] by blast
  have "length (snd ?st) \<le> length (pending ctx @ c)" by (simp add: enc_stream_rest)
  then have "2 * length (pending ctx' @ concat chunks) \<le> INT_MAX" using Cons.prems(2) by (simp add: p)
  with Cons.IH [OF ok] have
    "encode_session ctx' chunks = enc_all (pending ctx' @ concat chunks)" by simp
  then show ?case
    using up enc_stream_append [of "pending ctx @ c" "concat chunks"] by (simp add: enc_all_def p)
qed

text \<open>The decoding loop over two pieces of input, and over the chunks of a session.\<close>

lemma decode_loop_append:
  "decode_loop (xs @ ys) ctx = (case decode_loop xs ctx of (out, ok, c) \<Rightarrow>
     if ok then (case decode_loop ys c of (out2, ok2, c2) \<Rightarrow> (out @ out2, ok2, c2)) else (out, False, c))"
proof (induction xs arbitrary: ctx)
  case (Cons x xs)
  show ?case by (auto simp: Let_def Cons.IH split: prod.splits option.splits)
qed (auto split: prod.splits)

lemma decode_loop_no_error: "decode_loop xs ctx = (out, True, c) \<Longrightarrow> error_encountered c = error_encountered ctx"
proof (induction xs arbitrary: ctx out)
  case (Cons x xs)
  from Cons.prems Cons.IH show ?case by (fastforce simp: Let_def split: if_splits prod.splits option.splits)
qed simp

lemma decode_session_spec:
  "decode_loop (concat chunks) ctx = (data, True, c) \<Longrightarrow> \<not> error_encountered ctx \<Longrightarrow> length data \<le> INT_MAX \<Longrightarrow>
   \<exists>rs. decode_session ctx chunks = (rs, data, EVP_DecodeFinal c) \<and> length rs = length chunks
     \<and> set rs \<subseteq> {0, 1} \<and> (chunks \<noteq> [] \<longrightarrow> last rs = (if eof_seen c then 0 else 1))"
proof (induction chunks arbitrary: ctx data)
  case (Cons x chunks)
  obtain out c1 where 1: "decode_loop x ctx = (out, True, c1)"
    using Cons.prems(1) by (auto simp: decode_loop_append split: prod.splits if_splits)
  obtain data' where 2: "decode_loop (concat chunks) c1 = (data', True, c)" and data: "data = out @ data'"
    using Cons.prems(1) 1 by (auto simp: decode_loop_append split: prod.splits)
  have ne: "\<not> error_encountered c1" using decode_loop_no_error [OF 1] Cons.prems(2) by simp
  obtain rs where rs: "decode_session c1 chunks = (rs, data', EVP_DecodeFinal c)" "length rs = length chunks" "set rs \<subseteq> {0, 1}"
    "chunks \<noteq> [] \<longrightarrow> last rs = (if eof_seen c then 0 else 1)"
    using Cons.IH [OF 2 ne] Cons.prems(3) data by auto
  have up: "EVP_DecodeUpdate ctx x = (if eof_seen c1 then 0 else 1, out, length out, c1)"
    using 1 Cons.prems(2,3) data by (simp add: EVP_DecodeUpdate_def)
  have "chunks = [] \<Longrightarrow> c1 = c" using 2 by simp
  then show ?case using rs up by (auto simp: data)
qed simp

lemma decode_loop_enc_all:
  assumes "dec_ready ctx"
  shows "\<exists>ctx'. decode_loop (enc_all xs) ctx = (xs, True, ctx') \<and> data_used ctx' = 0
    \<and> \<not> error_encountered ctx' \<and> eof_seen ctx' = (length xs mod 3 \<noteq> 0)"
proof -
  obtain ctx1 where 1: "dec_ready ctx1" "decode_loop (enc_all xs) ctx
      = (case decode_loop (enc_final (snd (enc_stream xs))) ctx1 of
          (out, ok, c) \<Rightarrow> (take (length xs div 48 * 48) xs @ out, ok, c))"
    using decode_loop_lines [OF assms] by (auto simp: enc_all_def)
  have "length (snd (enc_stream xs)) = length xs mod 48"
    by (simp add: enc_stream_rest minus_div_mult_eq_mod)
  then have "length (snd (enc_stream xs)) mod 3 = length xs mod 3" by (simp add: mod_mod_cancel)
  with decode_loop_final [OF 1(1), of "snd (enc_stream xs)"] 1(2) show ?thesis
    by (auto simp: enc_stream_rest)
qed

section \<open>Properties\<close>

text \<open>
  the one-shot decoder inverts the block encoder, padding included, whenever its output
  buffer is as large as \<open>EVP_DecodedLength\<close> asks for.
\<close>

theorem base64_block_roundtrip:
  assumes "(length xs + 2) div 3 * 3 \<le> max_out"
  shows "EVP_DecodeBase64 max_out (take (snd (EVP_EncodeBlock xs)) (fst (EVP_EncodeBlock xs))) = Some xs"
  using assms
  by (simp add: EVP_EncodeBlock_def EVP_DecodeBase64_def EVP_DecodedLength_def length_encode_block
      decode_quads_encode)

lemma base64_block_roundtrip_witness:
  "EVP_DecodeBase64 6 (take (snd (EVP_EncodeBlock [1, 2, 3, 250])) (fst (EVP_EncodeBlock [1, 2, 3, 250])))
     = Some [1, 2, 3, 250]"
  by (rule base64_block_roundtrip) simp

text \<open>
  C3: streaming. However the data is cut into chunks, what the updates and the final call of the encoder report as
  written is the base64 text of the whole, line by line; and however that text is cut into chunks, a decoder never
  fails, what its updates report as written is the data, and \<open>EVP_DecodeFinal\<close> accepts. The last update returns zero
  when the text ends with padding and one otherwise: a short last line without padding is not reported. The
  data is at most half of \<open>INT_MAX\<close> bytes, so that no call has more than \<open>INT_MAX\<close> bytes to report.
\<close>

theorem base64_stream_roundtrip:
  assumes "2 * length (concat chunks) \<le> INT_MAX" and "concat texts = encode_session EVP_EncodeInit chunks"
  shows "encode_session EVP_EncodeInit chunks = enc_all (concat chunks)
    \<and> (\<exists>rs. decode_session EVP_DecodeInit texts = (rs, concat chunks, 1) \<and> length rs = length texts \<and> set rs \<subseteq> {0, 1}
      \<and> (texts \<noteq> [] \<longrightarrow> last rs = (if length (concat chunks) mod 3 = 0 then 1 else 0)))"
proof -
  have "ctx_ok EVP_EncodeInit" "pending EVP_EncodeInit = []"
    by (simp_all add: ctx_ok_def pending_def EVP_EncodeInit_def)
  with encode_session_spec [of EVP_EncodeInit chunks] assms(1)
  have enc: "encode_session EVP_EncodeInit chunks = enc_all (concat chunks)" by simp
  have "dec_ready EVP_DecodeInit" by (simp add: dec_ready_def EVP_DecodeInit_def)
  from decode_loop_enc_all [OF this, of "concat chunks"] obtain ctx where
    1: "decode_loop (concat texts) EVP_DecodeInit = (concat chunks, True, ctx)" and c: "data_used ctx = 0"
    "\<not> error_encountered ctx" "eof_seen ctx = (length (concat chunks) mod 3 \<noteq> 0)"
    unfolding assms(2) enc by blast
  have "\<not> error_encountered EVP_DecodeInit" by (simp add: EVP_DecodeInit_def)
  from decode_session_spec [OF 1 this] assms(1) obtain rs where
    "decode_session EVP_DecodeInit texts = (rs, concat chunks, EVP_DecodeFinal ctx)" "length rs = length texts" "set rs \<subseteq> {0, 1}"
    "texts \<noteq> [] \<longrightarrow> last rs = (if eof_seen ctx then 0 else 1)" by auto
  then show ?thesis using enc c by (simp add: EVP_DecodeFinal_def)
qed

text \<open>Three bytes: one short line, no padding.\<close>

lemma base64_stream_roundtrip_witness:
  "\<exists>rs. decode_session EVP_DecodeInit [encode_session EVP_EncodeInit [[1, 2], [], [3]]] = (rs, [1, 2, 3], 1) \<and> last rs = 1"
  using base64_stream_roundtrip [of "[[1, 2], [], [3]]" "[encode_session EVP_EncodeInit [[1, 2], [], [3]]]"] by auto

end
