(* ===== verification/Buf.thy ===== *)
theory Buf imports Mem begin

text \<open>
  \<open>crypto/buf/buf.c\<close>: the growing byte buffer \<open>BUF_MEM\<close>. \<open>buf_data\<close> is the block the buffer owns
  (NULL as \<open>None\<close>); its contents are the first \<open>buf_length\<close> bytes. The pushes to the error queue
  are not modelled.
\<close>

section \<open>The code\<close>

record buf_mem =
  buf_length :: nat
  buf_data :: "block option"
  buf_max :: nat

definition sizeof_BUF_MEM :: nat where
  "sizeof_BUF_MEM = 24"

definition BUF_MEM_new :: "malloc_fn \<Rightarrow> buf_mem option" where
  "BUF_MEM_new ma =
     (case OPENSSL_malloc ma sizeof_BUF_MEM of
        None \<Rightarrow> None
      | Some _ \<Rightarrow> Some \<lparr>buf_length = 0, buf_data = None, buf_max = 0\<rparr>)"

text \<open>What \<open>BUF_MEM_free\<close> gives back to the allocator for the data.\<close>

definition BUF_MEM_free :: "buf_mem option \<Rightarrow> (u8 list \<times> nat) option" where
  "BUF_MEM_free buf = (case buf of None \<Rightarrow> None | Some b \<Rightarrow> OPENSSL_free (buf_data b))"

definition BUF_MEM_reserve :: "malloc_fn \<Rightarrow> buf_mem \<Rightarrow> nat \<Rightarrow> bool \<times> buf_mem" where
  "BUF_MEM_reserve ma buf cap =
     (if cap \<le> buf_max buf then (True, buf)
      else
        let n = size_add cap 3 in
        if n < cap then (False, buf)
        else
          let n = n div 3;
              alloc_size = n * 4 mod size_limit in
          if alloc_size div 4 \<noteq> n then (False, buf)
          else case OPENSSL_realloc ma (buf_data buf) alloc_size of
                 None \<Rightarrow> (False, buf)
               | Some new_buf \<Rightarrow> (True, buf\<lparr>buf_data := Some new_buf, buf_max := alloc_size\<rparr>))"

text \<open>Writing \<open>src\<close> at offset \<open>off\<close> of the buffer's block.\<close>

definition buf_store :: "buf_mem \<Rightarrow> nat \<Rightarrow> u8 list \<Rightarrow> buf_mem" where
  "buf_store buf off src =
     buf\<lparr>buf_data := map_option (\<lambda>b. b\<lparr>block_bytes :=
       take off (block_bytes b) @ src @ drop (off + length src) (block_bytes b)\<rparr>) (buf_data buf)\<rparr>"

definition BUF_MEM_grow :: "malloc_fn \<Rightarrow> buf_mem \<Rightarrow> nat \<Rightarrow> nat \<times> buf_mem" where
  "BUF_MEM_grow ma buf len =
     (let (ok, b) = BUF_MEM_reserve ma buf len in
      if \<not> ok then (0, b)
      else
        let b = (if buf_length b < len then buf_store b (buf_length b) (replicate (len - buf_length b) 0)
                 else b) in
        (len, b\<lparr>buf_length := len\<rparr>))"

definition BUF_MEM_grow_clean :: "malloc_fn \<Rightarrow> buf_mem \<Rightarrow> nat \<Rightarrow> nat \<times> buf_mem" where
  "BUF_MEM_grow_clean ma buf len = BUF_MEM_grow ma buf len"

definition BUF_MEM_append :: "malloc_fn \<Rightarrow> buf_mem \<Rightarrow> u8 list \<Rightarrow> bool \<times> buf_mem" where
  "BUF_MEM_append ma buf inp =
     (let len = length inp in
      if len = 0 then (True, buf)
      else
        let new_len = size_add (buf_length buf) len in
        if new_len < len then (False, buf)
        else
          let (ok, b) = BUF_MEM_reserve ma buf new_len in
          if \<not> ok then (False, b)
          else (True, (buf_store b (buf_length b) inp)\<lparr>buf_length := new_len\<rparr>))"

section \<open>The invariant\<close>

text \<open>
  The block has \<open>max\<close> bytes and the length is within it; a buffer without a block has no room.
\<close>

definition buf_ok :: "buf_mem \<Rightarrow> bool" where
  "buf_ok buf \<longleftrightarrow> buf_length buf \<le> buf_max buf \<and>
     (case buf_data buf of
        None \<Rightarrow> buf_max buf = 0
      | Some b \<Rightarrow> stored_size b = buf_max buf \<and> length (block_bytes b) = buf_max buf)"

definition buf_bytes :: "buf_mem \<Rightarrow> u8 list" where
  "buf_bytes buf = (case buf_data buf of None \<Rightarrow> [] | Some b \<Rightarrow> take (buf_length buf) (block_bytes b))"

lemma length_buf_bytes: "buf_ok buf \<Longrightarrow> length (buf_bytes buf) = buf_length buf"
  by (auto simp: buf_ok_def buf_bytes_def split: option.splits)

lemma BUF_MEM_new_ok: "BUF_MEM_new ma = Some buf \<Longrightarrow> buf_ok buf \<and> buf_bytes buf = []"
  by (auto simp: BUF_MEM_new_def buf_ok_def buf_bytes_def split: option.splits)

text \<open>The capacity computed for a request is above it and below twice it.\<close>

lemma reserve_size:
  fixes cap :: nat
  shows "cap < (cap + 3) div 3 * 4" "(cap + 3) div 3 * 4 \<le> cap + cap div 3 + 4"
  by presburger+

lemma BUF_MEM_reserve_spec:
  assumes "malloc_spec ma" "buf_ok buf" "cap < 2 ^ 63"
  shows "BUF_MEM_reserve ma buf cap = (False, buf) \<or>
    (\<exists>buf'. BUF_MEM_reserve ma buf cap = (True, buf') \<and> buf_ok buf' \<and> cap \<le> buf_max buf' \<and>
       buf_length buf' = buf_length buf \<and> buf_bytes buf' = buf_bytes buf \<and> (buf_max buf' = 0 \<or> buf_data buf' \<noteq> None))"
proof (cases "cap \<le> buf_max buf")
  case True
  then show ?thesis using assms(2) by (auto simp: BUF_MEM_reserve_def buf_ok_def split: option.splits)
next
  case False
  define sz where "sz = (cap + 3) div 3 * 4"
  have sz: "cap < sz" "sz + 8 < size_limit" "sz mod size_limit = sz" "sz div 4 = (cap + 3) div 3"
    using reserve_size [of cap] assms(3) by (auto simp: sz_def)
  have add: "size_add cap 3 = cap + 3" using assms(3) by (simp add: size_add_def)
  show ?thesis
  proof (cases "OPENSSL_realloc ma (buf_data buf) sz")
    case None
    then show ?thesis
      using False add sz by (auto simp: BUF_MEM_reserve_def Let_def sz_def [symmetric])
  next
    case (Some new)
    have new: "stored_size new = sz \<and> length (block_bytes new) = sz
        \<and> take (buf_length buf) (block_bytes new) = buf_bytes buf"
    proof (cases "buf_data buf")
      case None
      then show ?thesis
        using OPENSSL_malloc_cases(1,2) [OF assms(1) _, of sz new] Some sz(2) assms(2)
        by (auto simp: OPENSSL_realloc_def buf_bytes_def buf_ok_def)
    next
      case b: (Some b)
      have "stored_size b = length (block_bytes b)" "length (block_bytes b) \<le> sz"
          "buf_length buf \<le> length (block_bytes b)"
        using assms(2) b sz(1) False by (auto simp: buf_ok_def)
      note r = OPENSSL_realloc_spec(1-3) [OF assms(1) sz(2) this(1,2) Some [unfolded b]] this(3)
      have "take (buf_length buf) (block_bytes new)
          = take (buf_length buf) (take (length (block_bytes b)) (block_bytes new))"
        using r(4) by (simp add: min_def)
      then show ?thesis using r b by (simp add: buf_bytes_def)
    qed
    then show ?thesis
      using False add sz Some assms(2)
      by (auto simp: BUF_MEM_reserve_def Let_def sz_def [symmetric] buf_ok_def buf_bytes_def [of "buf_data_update _ _"]
          buf_bytes_def [of "buf_max_update _ _"])
  qed
qed


lemma buf_store_spec:
  assumes "buf_ok buf" "off + length src \<le> buf_max buf" "off \<le> buf_length buf" "src \<noteq> []"
  shows "buf_ok ((buf_store buf off src)\<lparr>buf_length := off + length src\<rparr>)"
    and "buf_bytes ((buf_store buf off src)\<lparr>buf_length := off + length src\<rparr>) = take off (buf_bytes buf) @ src"
proof -
  obtain b where b: "buf_data buf = Some b" "stored_size b = buf_max buf" "length (block_bytes b) = buf_max buf"
    using assms by (auto simp: buf_ok_def split: option.splits)
  moreover have "0 < length src" using assms(4) by simp
  then have "off < buf_max buf" using assms(2) by linarith
  ultimately show "buf_ok ((buf_store buf off src)\<lparr>buf_length := off + length src\<rparr>)"
    "buf_bytes ((buf_store buf off src)\<lparr>buf_length := off + length src\<rparr>) = take off (buf_bytes buf) @ src"
    using assms by (auto simp: buf_ok_def buf_store_def buf_bytes_def min_def)
qed

section \<open>Properties\<close>

text \<open>C10: \<open>BUF_MEM_append\<close> implements appending to a byte string: on a buffer that meets its
  invariant (a block of \<open>max\<close> bytes that holds the length) it either fails and leaves the buffer as
  it was, or the contents grow by exactly the input and the invariant still holds, so that nothing
  is written past the block.\<close>

theorem BUF_MEM_append_implements:
  assumes "malloc_spec ma" "buf_ok buf" "buf_length buf + length inp < 2 ^ 63"
  shows "BUF_MEM_append ma buf inp = (False, buf) \<or>
    (\<exists>buf'. BUF_MEM_append ma buf inp = (True, buf') \<and> buf_ok buf' \<and> buf_bytes buf' = buf_bytes buf @ inp)"
proof (cases "inp = []")
  case True
  then show ?thesis using assms(2) by (simp add: BUF_MEM_append_def)
next
  case False
  have add: "size_add (buf_length buf) (length inp) = buf_length buf + length inp"
    using assms(3) by (simp add: size_add_def)
  consider "BUF_MEM_reserve ma buf (buf_length buf + length inp) = (False, buf)"
    | b where "BUF_MEM_reserve ma buf (buf_length buf + length inp) = (True, b)" "buf_ok b"
        "buf_length b = buf_length buf" "buf_bytes b = buf_bytes buf" "buf_length buf + length inp \<le> buf_max b"
    using BUF_MEM_reserve_spec [OF assms] by blast
  then show ?thesis
  proof cases
    case 2
    note s = buf_store_spec [OF 2(2), of "buf_length buf" inp]
    show ?thesis
      using s 2 False add length_buf_bytes [OF assms(2)]
      by (simp add: BUF_MEM_append_def Let_def)
  qed (use False add in \<open>simp add: BUF_MEM_append_def Let_def\<close>)
qed

lemma BUF_MEM_append_implements_witness:
  "\<exists>buf buf'. BUF_MEM_new zero_malloc = Some buf \<and> BUF_MEM_append zero_malloc buf [1, 2, 3] = (True, buf')
     \<and> buf_bytes buf' = [1, 2, 3]"
proof -
  let ?buf = "\<lparr>buf_length = 0, buf_data = None, buf_max = 0\<rparr>"
  have new: "BUF_MEM_new zero_malloc = Some ?buf"
    by (simp add: BUF_MEM_new_def zero_malloc_def OPENSSL_malloc_def sizeof_BUF_MEM_def size_add_def
        OPENSSL_MALLOC_PREFIX_def)
  then have ok: "buf_ok ?buf" "buf_bytes ?buf = []" using BUF_MEM_new_ok by auto
  have "fst (BUF_MEM_append zero_malloc ?buf [1, 2, 3])"
    by (simp add: BUF_MEM_append_def BUF_MEM_reserve_def Let_def OPENSSL_realloc_def zero_malloc_def
        OPENSSL_malloc_def size_add_def OPENSSL_MALLOC_PREFIX_def)
  with BUF_MEM_append_implements [OF malloc_spec_zero_malloc ok(1), of "[1, 2, 3]"] ok(2)
  obtain buf' where "BUF_MEM_append zero_malloc ?buf [1, 2, 3] = (True, buf')" "buf_bytes buf' = [1, 2, 3]"
    by auto
  then show ?thesis using new by blast
qed

text \<open>\<open>BUF_MEM_grow\<close> changes the length as it says: a shorter length truncates, a longer one
  pads with zero bytes (never with what the allocator left in the block); on failure the result is 0
  and the buffer unchanged.\<close>

theorem BUF_MEM_grow_implements:
  assumes "malloc_spec ma" "buf_ok buf" "len < 2 ^ 63"
  shows "BUF_MEM_grow ma buf len = (0, buf) \<or>
    (\<exists>buf'. BUF_MEM_grow ma buf len = (len, buf') \<and> buf_ok buf' \<and>
       buf_bytes buf' = take len (buf_bytes buf) @ replicate (len - buf_length buf) 0)"
proof -
  consider "BUF_MEM_reserve ma buf len = (False, buf)"
    | b where "BUF_MEM_reserve ma buf len = (True, b)" "buf_ok b"
        "buf_length b = buf_length buf" "buf_bytes b = buf_bytes buf" "len \<le> buf_max b"
    using BUF_MEM_reserve_spec [OF assms] by blast
  then show ?thesis
  proof cases
    case 2
    show ?thesis
    proof (cases "buf_length buf < len")
      case True
      then have "replicate (len - buf_length buf) 0 \<noteq> ([] :: u8 list)" by simp
      note s = buf_store_spec [OF 2(2) _ _ this, of "buf_length buf"]
      show ?thesis
        using s 2 True length_buf_bytes [OF assms(2)]
        by (simp add: BUF_MEM_grow_def Let_def)
    next
      case False
      then have "buf_bytes (b\<lparr>buf_length := len\<rparr>) = take len (buf_bytes b)" "buf_ok (b\<lparr>buf_length := len\<rparr>)"
        using 2(2,3) by (auto simp: buf_ok_def buf_bytes_def min_def split: option.splits)
      then show ?thesis using 2 False by (simp add: BUF_MEM_grow_def Let_def)
    qed
  qed (simp add: BUF_MEM_grow_def Let_def)
qed

lemma BUF_MEM_grow_implements_witness:
  "\<exists>buf'. BUF_MEM_grow zero_malloc \<lparr>buf_length = 0, buf_data = None, buf_max = 0\<rparr> 3 = (3, buf')
     \<and> buf_bytes buf' = [0, 0, 0]"
proof -
  let ?buf = "\<lparr>buf_length = 0, buf_data = None, buf_max = 0\<rparr>"
  have ok: "buf_ok ?buf" "buf_bytes ?buf = []" by (simp_all add: buf_ok_def buf_bytes_def)
  have "fst (BUF_MEM_grow zero_malloc ?buf 3) = 3"
    by (simp add: BUF_MEM_grow_def BUF_MEM_reserve_def Let_def OPENSSL_realloc_def zero_malloc_def
        OPENSSL_malloc_def size_add_def OPENSSL_MALLOC_PREFIX_def)
  with BUF_MEM_grow_implements [OF malloc_spec_zero_malloc ok(1), of 3] ok(2)
  show ?thesis by (auto simp: numeral_3_eq_3)
qed

text \<open>The overflow checks of \<open>BUF_MEM_reserve\<close> do not see the prefix that the allocator
  wrapper adds: for this request they pass, the wrapper asks \<open>malloc\<close> for 0 bytes, and the buffer
  claims a capacity of 2^64 - 8 bytes with an empty block.\<close>

theorem BUF_MEM_reserve_wraps:
  "\<exists>buf b. BUF_MEM_reserve zero_malloc \<lparr>buf_length = 0, buf_data = None, buf_max = 0\<rparr> 13835058055282163703 = (True, buf)
     \<and> buf_max buf = 2 ^ 64 - 8 \<and> buf_data buf = Some b \<and> block_bytes b = []"
  by (simp add: BUF_MEM_reserve_def Let_def OPENSSL_realloc_def zero_malloc_def
      OPENSSL_malloc_def size_add_def OPENSSL_MALLOC_PREFIX_def)

end
