(* ===== verification/Stack.thy ===== *)
theory Stack imports Ordering Mem begin

text \<open>
  \<open>crypto/stack/stack.c\<close>: the growing array of pointers behind every \<open>STACK_OF(T)\<close>.

  A \<open>void *\<close> element is an \<open>'a option\<close>, \<open>None\<close> for NULL; a \<open>_STACK *\<close> is a \<open>stack option\<close>. A
  comparison function is a value of the type \<open>'c\<close> of function pointers, called through the
  type-specific wrapper that the operations are given. The slots of a fresh array hold NULL in
  the model; the code writes each slot before it reads it.
\<close>

section \<open>Arrays of pointers\<close>

definition sizeof_ptr :: nat where
  "sizeof_ptr = 8"

definition ptr_array :: "block \<Rightarrow> 'a option list" where
  "ptr_array b = replicate (length (block_bytes b) div sizeof_ptr) None"

text \<open>\<open>OPENSSL_realloc\<close> of an array: the old slots that fit, then fresh ones.\<close>

definition realloc_ptrs :: "malloc_fn \<Rightarrow> 'a option list \<Rightarrow> nat \<Rightarrow> 'a option list option" where
  "realloc_ptrs ma old sz =
     map_option (\<lambda>b. take (sz div sizeof_ptr) old @ drop (length old) (ptr_array b)) (OPENSSL_malloc ma sz)"

section \<open>The stack\<close>

record ('a, 'c) stack =
  sk_num_field :: nat
  sk_data :: "'a option list"
  sk_sorted :: bool
  sk_num_alloc :: nat
  sk_comp :: "'c option"

definition kMinSize :: nat where
  "kMinSize = 4"

definition sizeof_STACK :: nat where
  "sizeof_STACK = 40"

definition sk_new :: "malloc_fn \<Rightarrow> 'c option \<Rightarrow> ('a, 'c) stack option" where
  "sk_new ma cmp_func =
     (case OPENSSL_malloc ma sizeof_STACK of
        None \<Rightarrow> None
      | Some _ \<Rightarrow>
          (case OPENSSL_malloc ma (sizeof_ptr * kMinSize) of
             None \<Rightarrow> None
           | Some b \<Rightarrow>
               Some \<lparr>sk_num_field = 0, sk_data = ptr_array b, sk_sorted = False,
                     sk_num_alloc = kMinSize, sk_comp = cmp_func\<rparr>))"

definition sk_new_null :: "malloc_fn \<Rightarrow> ('a, 'c) stack option" where
  "sk_new_null ma = sk_new ma None"

definition sk_num :: "('a, 'c) stack option \<Rightarrow> nat" where
  "sk_num sk = (case sk of None \<Rightarrow> 0 | Some s \<Rightarrow> sk_num_field s)"

definition sk_zero :: "('a, 'c) stack option \<Rightarrow> ('a, 'c) stack option" where
  "sk_zero sk =
     (case sk of
        None \<Rightarrow> None
      | Some s \<Rightarrow>
          if sk_num_field s = 0 then Some s
          else Some (s\<lparr>sk_data := replicate (sk_num_field s) None @ drop (sk_num_field s) (sk_data s),
                       sk_num_field := 0, sk_sorted := False\<rparr>))"

definition sk_value :: "('a, 'c) stack option \<Rightarrow> nat \<Rightarrow> 'a option" where
  "sk_value sk i =
     (case sk of None \<Rightarrow> None | Some s \<Rightarrow> if sk_num_field s \<le> i then None else sk_data s ! i)"

definition sk_set ::
  "('a, 'c) stack option \<Rightarrow> nat \<Rightarrow> 'a option \<Rightarrow> 'a option \<times> ('a, 'c) stack option"
where
  "sk_set sk i value =
     (case sk of
        None \<Rightarrow> (None, None)
      | Some s \<Rightarrow>
          if sk_num_field s \<le> i then (None, Some s)
          else (value, Some (s\<lparr>sk_data := (sk_data s)[i := value]\<rparr>)))"

text \<open>
  \<open>sk_pop_free_ex\<close>: the elements handed to \<open>free_func\<close>, in order; \<open>sk_pop_free\<close> calls it with
  the wrapper that applies the function.
\<close>

definition sk_pop_free_ex :: "('a, 'c) stack option \<Rightarrow> 'a list" where
  "sk_pop_free_ex sk =
     (case sk of
        None \<Rightarrow> []
      | Some s \<Rightarrow> map the (filter (\<lambda>x. x \<noteq> None) (map (\<lambda>i. sk_data s ! i) [0..<sk_num_field s])))"

definition sk_pop_free :: "('a, 'c) stack option \<Rightarrow> 'a list" where
  "sk_pop_free sk = sk_pop_free_ex sk"

text \<open>\<open>sk_insert\<close>: the new length or 0. The doubling and its overflow checks, then the move.\<close>

definition sk_grow :: "malloc_fn \<Rightarrow> ('a, 'c) stack \<Rightarrow> ('a, 'c) stack option" where
  "sk_grow ma s =
     (if sk_num_alloc s \<le> size_add (sk_num_field s) 1 then
        let bad = (\<lambda>new_alloc alloc_size. new_alloc < sk_num_alloc s \<or> alloc_size div sizeof_ptr \<noteq> new_alloc);
            new_alloc = sk_num_alloc s * 2 mod size_limit;
            alloc_size = new_alloc * sizeof_ptr mod size_limit;
            (new_alloc, alloc_size) =
              (if bad new_alloc alloc_size
               then (size_add (sk_num_alloc s) 1, size_add (sk_num_alloc s) 1 * sizeof_ptr mod size_limit)
               else (new_alloc, alloc_size)) in
        if bad new_alloc alloc_size then None
        else case realloc_ptrs ma (sk_data s) alloc_size of
               None \<Rightarrow> None
             | Some data \<Rightarrow> Some (s\<lparr>sk_data := data, sk_num_alloc := new_alloc\<rparr>)
      else Some s)"

definition array_move :: "nat \<Rightarrow> nat \<Rightarrow> nat \<Rightarrow> 'b list \<Rightarrow> 'b list" where
  "array_move dst src n xs = take dst xs @ take n (drop src xs) @ drop (dst + n) xs"

definition sk_insert ::
  "malloc_fn \<Rightarrow> ('a, 'c) stack option \<Rightarrow> 'a option \<Rightarrow> nat \<Rightarrow> nat \<times> ('a, 'c) stack option"
where
  "sk_insert ma sk p pos =
     (case sk of
        None \<Rightarrow> (0, None)
      | Some s0 \<Rightarrow>
          (case sk_grow ma s0 of
             None \<Rightarrow> (0, Some s0)
           | Some s \<Rightarrow>
               let n = sk_num_field s;
                   data =
                     (if n \<le> pos then (sk_data s)[n := p]
                      else (array_move (pos + 1) pos (n - pos) (sk_data s))[pos := p]) in
               (n + 1, Some (s\<lparr>sk_data := data, sk_num_field := n + 1, sk_sorted := False\<rparr>))))"

definition sk_delete :: "('a, 'c) stack option \<Rightarrow> nat \<Rightarrow> 'a option \<times> ('a, 'c) stack option" where
  "sk_delete sk pos =
     (case sk of
        None \<Rightarrow> (None, None)
      | Some s \<Rightarrow>
          if sk_num_field s \<le> pos then (None, Some s)
          else
            let n = sk_num_field s;
                data =
                  (if pos \<noteq> n - 1 then array_move pos (pos + 1) (n - pos - 1) (sk_data s)
                   else sk_data s) in
            (sk_data s ! pos, Some (s\<lparr>sk_data := data, sk_num_field := n - 1\<rparr>)))"

text \<open>The linear searches: the first index from \<open>i\<close> below \<open>num\<close> that satisfies the test.\<close>

fun scan :: "('b \<Rightarrow> bool) \<Rightarrow> 'b list \<Rightarrow> nat \<Rightarrow> nat option" where
  "scan P [] i = None"
| "scan P (x # xs) i = (if P x then Some i else scan P xs (Suc i))"

definition sk_delete_ptr :: "('a, 'c) stack option \<Rightarrow> 'a option \<Rightarrow> 'a option \<times> ('a, 'c) stack option" where
  "sk_delete_ptr sk p =
     (case sk of
        None \<Rightarrow> (None, None)
      | Some s \<Rightarrow>
          (case scan (\<lambda>x. x = p) (take (sk_num_field s) (sk_data s)) 0 of
             Some i \<Rightarrow> sk_delete sk i
           | None \<Rightarrow> (None, sk)))"

definition sk_is_sorted :: "('a, 'c) stack option \<Rightarrow> bool" where
  "sk_is_sorted sk = (case sk of None \<Rightarrow> True | Some s \<Rightarrow> sk_sorted s)"

function bsearch :: "('b \<Rightarrow> 'b \<Rightarrow> int) \<Rightarrow> 'b list \<Rightarrow> 'b \<Rightarrow> nat \<Rightarrow> nat \<Rightarrow> nat option" where
  "bsearch cmp data p lo hi =
     (if lo < hi then
        let mid = lo + (hi - lo - 1) div 2;
            r = cmp p (data ! mid) in
        if 0 < r then bsearch cmp data p (mid + 1) hi
        else if r < 0 then bsearch cmp data p lo mid
        else if hi - lo = 1 then Some mid
        else bsearch cmp data p lo (mid + 1)
      else None)"
  by pat_completeness auto
termination by (relation "measure (\<lambda>(cmp, data, p, lo, hi). hi - lo)") auto

declare bsearch.simps [simp del]

text \<open>\<open>sk_find\<close>: \<open>Some i\<close> is "returned 1 with \<open>*out_index = i\<close>".\<close>

definition sk_find ::
  "('c \<Rightarrow> 'a option \<Rightarrow> 'a option \<Rightarrow> int) \<Rightarrow> ('a, 'c) stack option \<Rightarrow> 'a option \<Rightarrow> nat option"
where
  "sk_find call_cmp_func sk p =
     (case sk of
        None \<Rightarrow> None
      | Some s \<Rightarrow>
          (case sk_comp s of
             None \<Rightarrow> scan (\<lambda>x. x = p) (take (sk_num_field s) (sk_data s)) 0
           | Some cmp_func \<Rightarrow>
               if p = None then None
               else if \<not> sk_is_sorted sk
               then scan (\<lambda>elem. call_cmp_func cmp_func p elem = 0) (take (sk_num_field s) (sk_data s)) 0
               else bsearch (call_cmp_func cmp_func) (sk_data s) p 0 (sk_num_field s)))"

definition sk_shift :: "('a, 'c) stack option \<Rightarrow> 'a option \<times> ('a, 'c) stack option" where
  "sk_shift sk =
     (case sk of
        None \<Rightarrow> (None, None)
      | Some s \<Rightarrow> if sk_num_field s = 0 then (None, sk) else sk_delete sk 0)"

text \<open>\<open>sk_push\<close> reads \<open>sk->num\<close> before any check, so its stack is not NULL.\<close>

definition sk_push :: "malloc_fn \<Rightarrow> ('a, 'c) stack \<Rightarrow> 'a option \<Rightarrow> nat \<times> ('a, 'c) stack option" where
  "sk_push ma s p = sk_insert ma (Some s) p (sk_num_field s)"

definition sk_pop :: "('a, 'c) stack option \<Rightarrow> 'a option \<times> ('a, 'c) stack option" where
  "sk_pop sk =
     (case sk of
        None \<Rightarrow> (None, None)
      | Some s \<Rightarrow> if sk_num_field s = 0 then (None, sk) else sk_delete sk (sk_num_field s - 1))"

definition sk_dup :: "malloc_fn \<Rightarrow> ('a, 'c) stack option \<Rightarrow> ('a, 'c) stack option" where
  "sk_dup ma sk =
     (case sk of
        None \<Rightarrow> None
      | Some s \<Rightarrow>
          (case sk_new ma (sk_comp s) of
             None \<Rightarrow> None
           | Some ret \<Rightarrow>
               (case realloc_ptrs ma (sk_data ret) (sizeof_ptr * sk_num_alloc s mod size_limit) of
                  None \<Rightarrow> None
                | Some d \<Rightarrow>
                    Some (ret\<lparr>sk_data := take (sk_num_field s) (sk_data s) @ drop (sk_num_field s) d,
                              sk_num_field := sk_num_field s, sk_sorted := sk_sorted s,
                              sk_num_alloc := sk_num_alloc s, sk_comp := sk_comp s\<rparr>))))"

definition sk_sort ::
  "('c \<Rightarrow> 'a option \<Rightarrow> 'a option \<Rightarrow> int) \<Rightarrow> ('a, 'c) stack option \<Rightarrow> ('a, 'c) stack option"
where
  "sk_sort call_cmp_func sk =
     (case sk of
        None \<Rightarrow> None
      | Some s \<Rightarrow>
          (case sk_comp s of
             None \<Rightarrow> Some s
           | Some cmp_func \<Rightarrow>
               if sk_sorted s then Some s
               else
                 let n = sk_num_field s;
                     data = (if 2 \<le> n then qsort (call_cmp_func cmp_func) (take n (sk_data s)) @ drop n (sk_data s)
                             else sk_data s) in
                 Some (s\<lparr>sk_data := data, sk_sorted := True\<rparr>)))"

definition sk_set_cmp_func :: "('a, 'c) stack \<Rightarrow> 'c option \<Rightarrow> 'c option \<times> ('a, 'c) stack" where
  "sk_set_cmp_func s cmp_func =
     (sk_comp s, (if sk_comp s \<noteq> cmp_func then s\<lparr>sk_sorted := False\<rparr> else s)\<lparr>sk_comp := cmp_func\<rparr>)"

text \<open>
  The copies of \<open>sk_deep_copy\<close>, in order; on a failed copy the copies made so far, which the
  code hands to \<open>free_func\<close>.
\<close>

fun copy_elements :: "('a \<Rightarrow> 'a option) \<Rightarrow> 'a option list \<Rightarrow> 'a option list \<Rightarrow> 'a list + 'a option list" where
  "copy_elements copy_func [] copied = Inr copied"
| "copy_elements copy_func (None # xs) copied = copy_elements copy_func xs (copied @ [None])"
| "copy_elements copy_func (Some x # xs) copied =
     (case copy_func x of
        None \<Rightarrow> Inl (map the (filter (\<lambda>y. y \<noteq> None) copied))
      | Some y \<Rightarrow> copy_elements copy_func xs (copied @ [Some y]))"

definition sk_deep_copy ::
  "malloc_fn \<Rightarrow> ('a \<Rightarrow> 'a option) \<Rightarrow> ('a, 'c) stack option \<Rightarrow> 'a list + ('a, 'c) stack option"
where
  "sk_deep_copy ma copy_func sk =
     (case sk_dup ma sk of
        None \<Rightarrow> Inr None
      | Some ret \<Rightarrow>
          (case copy_elements copy_func (take (sk_num_field ret) (sk_data ret)) [] of
             Inl freed \<Rightarrow> Inl freed
           | Inr copied \<Rightarrow>
               Inr (Some (ret\<lparr>sk_data := copied @ drop (sk_num_field ret) (sk_data ret)\<rparr>))))"


section \<open>Arrays\<close>

lemma malloc_ptr_array:
  assumes "malloc_spec ma" "OPENSSL_malloc ma (8 * n) = Some b" "8 * n < size_limit - 8"
  shows "length (ptr_array b) = n" "n < 2 ^ 60"
proof -
  have n: "8 * n < size_limit" "8 * n + 8 < size_limit" using assms(3) by auto
  have "length (block_bytes b) = 8 * n" "8 * n + 8 < 2 ^ 63"
    using OPENSSL_malloc_cases(2,3) [OF assms(1) n(1) assms(2)] n(2) by auto
  then show "length (ptr_array b) = n" "n < 2 ^ 60" by (auto simp: ptr_array_def sizeof_ptr_def)
qed

lemma realloc_ptrs_spec:
  assumes "malloc_spec ma" "realloc_ptrs ma old (8 * n) = Some d" "8 * n < size_limit - 8"
    and "length old \<le> n"
  shows "length d = n" "take (length old) d = old" "n < 2 ^ 60"
proof -
  from assms(2) obtain b where b: "OPENSSL_malloc ma (8 * n) = Some b"
    and d: "d = take n old @ drop (length old) (ptr_array b)"
    by (auto simp: realloc_ptrs_def sizeof_ptr_def)
  note p = malloc_ptr_array [OF assms(1) b assms(3)]
  show "n < 2 ^ 60" by (rule p(2))
  show "take (length old) d = old" using d assms(4) by simp
  show "length d = n" using d assms(4) by (simp add: p(1))
qed

lemma array_move_up:
  assumes "i < n" "n < length xs"
  shows "take (Suc n) ((array_move (i + 1) i (n - i) xs)[i := p]) = take i xs @ p # drop i (take n xs)"
proof -
  have "take (i + 1) xs = take i xs @ [xs ! i]" using assms by (simp add: take_Suc_conv_app_nth)
  then have "(array_move (i + 1) i (n - i) xs)[i := p] = take i xs @ p # drop i (take n xs) @ drop (n + 1) xs"
    using assms by (simp add: array_move_def list_update_append drop_take)
  then show ?thesis using assms by (simp add: Suc_diff_le)
qed

lemma array_move_down:
  assumes "i < n" "n \<le> length xs"
  shows "take (n - 1) (array_move i (i + 1) (n - i - 1) xs) = take i xs @ drop (Suc i) (take n xs)"
  using assms by (simp add: array_move_def drop_take)

lemma length_array_move [simp]:
  "dst + n \<le> length xs \<Longrightarrow> src + n \<le> length xs \<Longrightarrow> length (array_move dst src n xs) = length xs"
  by (auto simp: array_move_def min_def)

section \<open>The invariant\<close>

text \<open>
  The array has \<open>num_alloc\<close> slots, one of which is always free, so that \<open>sk_insert\<close> has a slot to
  write; \<open>elements\<close> is the sequence a stack stands for.
\<close>

definition stack_ok :: "('a, 'c) stack \<Rightarrow> bool" where
  "stack_ok s \<longleftrightarrow> sk_num_field s < sk_num_alloc s \<and> length (sk_data s) = sk_num_alloc s
     \<and> sk_num_alloc s < 2 ^ 60"

definition elements :: "('a, 'c) stack \<Rightarrow> 'a option list" where
  "elements s = take (sk_num_field s) (sk_data s)"

lemma length_elements: "stack_ok s \<Longrightarrow> length (elements s) = sk_num_field s"
  by (simp add: stack_ok_def elements_def)

lemma elements_nth: "i < sk_num_field s \<Longrightarrow> elements s ! i = sk_data s ! i"
  by (simp add: elements_def)

lemma sk_new_spec:
  assumes "malloc_spec ma" "sk_new ma c = Some s"
  shows "stack_ok s" "elements s = []"
proof -
  from assms(2) obtain b where b: "OPENSSL_malloc ma (8 * 4) = Some b"
    and s: "s = \<lparr>sk_num_field = 0, sk_data = ptr_array b, sk_sorted = False, sk_num_alloc = 4, sk_comp = c\<rparr>"
    by (auto simp: sk_new_def sizeof_ptr_def kMinSize_def split: option.splits)
  from malloc_ptr_array(1) [OF assms(1) b] s show "stack_ok s" "elements s = []"
    by (auto simp: stack_ok_def elements_def)
qed

lemma sk_grow_spec:
  assumes "malloc_spec ma" "stack_ok s" "sk_grow ma s = Some s'"
  shows "stack_ok s'" "sk_num_field s + 1 < sk_num_alloc s'" "sk_num_field s' = sk_num_field s"
    and "elements s' = elements s" "sk_sorted s' = sk_sorted s" "sk_comp s' = sk_comp s"
proof -
  have a: "sk_num_alloc s < 2 ^ 60" "sk_num_field s < sk_num_alloc s"
      "length (sk_data s) = sk_num_alloc s"
    using assms(2) by (auto simp: stack_ok_def)
  then have fits: "sk_num_alloc s * 2 < size_limit" "sk_num_alloc s * 2 * 8 < size_limit"
      "sk_num_field s + 1 < size_limit" by auto
  have *: "stack_ok s' \<and> sk_num_field s + 1 < sk_num_alloc s' \<and> sk_num_field s' = sk_num_field s
      \<and> elements s' = elements s \<and> sk_sorted s' = sk_sorted s \<and> sk_comp s' = sk_comp s"
  proof (cases "sk_num_alloc s \<le> sk_num_field s + 1")
    case True
    then obtain d where d: "realloc_ptrs ma (sk_data s) (8 * (sk_num_alloc s * 2)) = Some d"
      and s': "s' = s\<lparr>sk_data := d, sk_num_alloc := sk_num_alloc s * 2\<rparr>"
      using assms(3) fits
      by (auto simp: sk_grow_def Let_def size_add_def sizeof_ptr_def mult.commute mult.left_commute
          split: option.splits)
    have "8 * (sk_num_alloc s * 2) < size_limit - 8" "length (sk_data s) \<le> sk_num_alloc s * 2"
      using a by auto
    note r = realloc_ptrs_spec [OF assms(1) d this]
    have "take (sk_num_field s) d = take (sk_num_field s) (take (length (sk_data s)) d)"
      using a by (simp add: min_def)
    then have "take (sk_num_field s) d = take (sk_num_field s) (sk_data s)" using r(2) by simp
    then show ?thesis using s' r(1,3) a True by (simp add: stack_ok_def elements_def)
  next
    case False
    then show ?thesis using assms(2,3) fits by (auto simp: sk_grow_def size_add_def)
  qed
  then show "stack_ok s'" "sk_num_field s + 1 < sk_num_alloc s'" "sk_num_field s' = sk_num_field s"
    "elements s' = elements s" "sk_sorted s' = sk_sorted s" "sk_comp s' = sk_comp s" by auto
qed

lemma sk_grow_total:
  assumes "malloc_total ma" "stack_ok s" "sk_num_alloc s < 2 ^ 59 - 1"
  shows "sk_grow ma s \<noteq> None"
proof -
  obtain b where "OPENSSL_malloc ma (sk_num_alloc s * 2 * 8) = Some b"
    by (rule OPENSSL_malloc_total [OF assms(1)]) (use assms(3) in auto)
  then show ?thesis
    using assms(2,3)
    by (auto simp: sk_grow_def realloc_ptrs_def stack_ok_def Let_def size_add_def sizeof_ptr_def)
qed

section \<open>Insertion and deletion\<close>

definition insert_at :: "nat \<Rightarrow> 'b \<Rightarrow> 'b list \<Rightarrow> 'b list" where
  "insert_at i x xs = take i xs @ x # drop i xs"

definition delete_at :: "nat \<Rightarrow> 'b list \<Rightarrow> 'b list" where
  "delete_at i xs = take i xs @ drop (Suc i) xs"

lemma sk_insert_cases:
  assumes "malloc_spec ma" "stack_ok s"
  shows "sk_insert ma (Some s) p i = (0, Some s) \<or>
    (\<exists>s'. sk_insert ma (Some s) p i = (sk_num_field s + 1, Some s') \<and> stack_ok s' \<and>
      elements s' = insert_at i p (elements s) \<and> \<not> sk_sorted s' \<and> sk_comp s' = sk_comp s)"
proof (cases "sk_grow ma s")
  case None
  then show ?thesis by (simp add: sk_insert_def)
next
  case (Some g)
  note g = sk_grow_spec [OF assms Some]
  define data where "data = (if sk_num_field s \<le> i then (sk_data g)[sk_num_field s := p]
      else (array_move (i + 1) i (sk_num_field s - i) (sk_data g))[i := p])"
  define s' where "s' = g\<lparr>sk_data := data, sk_num_field := sk_num_field s + 1, sk_sorted := False\<rparr>"
  have len: "sk_num_field s < length (sk_data g)" "length (sk_data g) = sk_num_alloc g"
    using g by (auto simp: stack_ok_def)
  have "take (Suc (sk_num_field s)) data = insert_at i p (take (sk_num_field s) (sk_data g))"
    using len(1) array_move_up [of i "sk_num_field s" "sk_data g" p]
    by (auto simp: data_def insert_at_def take_Suc_conv_app_nth min_def)
  moreover have "length data = length (sk_data g)" using len(1) by (auto simp: data_def)
  ultimately have "stack_ok s'" "elements s' = insert_at i p (elements s)"
    using g len by (auto simp: s'_def stack_ok_def elements_def)
  moreover have "sk_insert ma (Some s) p i = (sk_num_field s + 1, Some s')"
    using Some g(3) by (simp add: sk_insert_def s'_def data_def Let_def)
  ultimately show ?thesis using g(6) by (auto simp: s'_def)
qed

lemma sk_delete_eq:
  assumes "stack_ok s" "i < sk_num_field s"
  obtains s' where "sk_delete (Some s) i = (elements s ! i, Some s')" "stack_ok s'"
    "elements s' = delete_at i (elements s)" "sk_sorted s' = sk_sorted s" "sk_comp s' = sk_comp s"
proof -
  define data where "data = (if i \<noteq> sk_num_field s - 1
      then array_move i (i + 1) (sk_num_field s - i - 1) (sk_data s) else sk_data s)"
  define s' where "s' = s\<lparr>sk_data := data, sk_num_field := sk_num_field s - 1\<rparr>"
  have len: "sk_num_field s \<le> length (sk_data s)" using assms(1) by (auto simp: stack_ok_def)
  have "take (sk_num_field s - 1) data = delete_at i (elements s)"
    using array_move_down [OF assms(2) len] assms(2) len
    by (auto simp: data_def delete_at_def elements_def min_def)
  moreover have "length data = length (sk_data s)"
    using len assms(2) by (auto simp: data_def)
  ultimately have "stack_ok s'" "elements s' = delete_at i (elements s)"
    using assms by (auto simp: s'_def stack_ok_def elements_def)
  then show ?thesis
    using assms elements_nth [OF assms(2)]
    by (intro that [of s']) (simp_all add: sk_delete_def s'_def data_def Let_def)
qed


section \<open>Searching\<close>

lemma scan_None: "scan P xs i = None \<longleftrightarrow> (\<forall>x \<in> set xs. \<not> P x)"
  by (induction xs arbitrary: i) auto

lemma scan_SomeD:
  "scan P xs i = Some k \<Longrightarrow> i \<le> k \<and> k - i < length xs \<and> P (xs ! (k - i)) \<and> (\<forall>j < k - i. \<not> P (xs ! j))"
proof (induction xs arbitrary: i)
  case (Cons x xs)
  show ?case
  proof (cases "P x")
    case False
    with Cons.prems have "scan P xs (Suc i) = Some k" by simp
    from Cons.IH [OF this] obtain d where d: "k = Suc i + d" "d < length xs" "P (xs ! d)"
      "\<forall>j < d. \<not> P (xs ! j)" by (auto simp: le_iff_add)
    then show ?thesis using False by (auto simp: nth_Cons split: nat.splits)
  qed (use Cons.prems in simp)
qed simp

lemma scan_first:
  assumes "k < length xs" "P (xs ! k)" "\<And>j. j < k \<Longrightarrow> \<not> P (xs ! j)"
  shows "scan P xs 0 = Some k"
proof (cases "scan P xs 0")
  case None
  then show ?thesis using assms(1,2) by (auto simp: scan_None)
next
  case (Some m)
  from scan_SomeD [OF this] assms have "\<not> m < k" "\<not> k < m" by auto
  then show ?thesis using Some by simp
qed

context cmp_order begin

text \<open>
  The interval \<open>[lo, hi)\<close> always holds the first match, if there is one; each step shrinks it.
\<close>

lemma bsearch_scan:
  assumes "in_order xs" "set xs \<subseteq> A" "p \<in> A" "hi \<le> length xs"
    and "\<And>k. scan (\<lambda>e. cmp p e = 0) xs 0 = Some k \<Longrightarrow> lo \<le> k \<and> k < hi"
  shows "bsearch cmp (xs @ rest) p lo hi = scan (\<lambda>e. cmp p e = 0) xs 0"
  using assms(4,5)
proof (induction "hi - lo" arbitrary: lo hi rule: less_induct)
  case (less lo hi)
  let ?P = "\<lambda>e. cmp p e = 0"
  show ?case
  proof (cases "lo < hi")
    case False
    then have "scan ?P xs 0 = None" using less.prems(2) by (cases "scan ?P xs 0") fastforce+
    then show ?thesis using False by (simp add: bsearch.simps)
  next
    case True
    define mid where "mid = lo + (hi - lo - 1) div 2"
    have mid: "lo \<le> mid" "mid < hi" "mid < length xs" using True less.prems(1) by (auto simp: mid_def)
    then have nth: "(xs @ rest) ! mid = xs ! mid" by (simp add: nth_append)
    have step: "bsearch cmp (xs @ rest) p lo hi =
        (if 0 < cmp p (xs ! mid) then bsearch cmp (xs @ rest) p (mid + 1) hi
         else if cmp p (xs ! mid) < 0 then bsearch cmp (xs @ rest) p lo mid
         else if hi - lo = 1 then Some mid else bsearch cmp (xs @ rest) p lo (mid + 1))"
      using True nth unfolding mid_def by (subst bsearch.simps) (simp add: Let_def)
    consider (low) "0 < cmp p (xs ! mid)" | (high) "cmp p (xs ! mid) < 0" | (eq) "cmp p (xs ! mid) = 0"
      by linarith
    then show ?thesis
    proof cases
      case low
      have "mid + 1 \<le> k \<and> k < hi" if k: "scan ?P xs 0 = Some k" for k
      proof -
        have "\<not> k \<le> mid"
          using sorted_cmp(1) [OF assms(1-3) _ mid(3), of k] low scan_SomeD [OF k] by auto
        then show ?thesis using less.prems(2) [OF k] by simp
      qed
      then show ?thesis
        using less.hyps [of hi "mid + 1"] less.prems(1) mid low True nth
        by (simp add: step)
    next
      case high
      have "lo \<le> k \<and> k < mid" if k: "scan ?P xs 0 = Some k" for k
      proof -
        have "\<not> mid \<le> k"
          using sorted_cmp(2) [OF assms(1-3), of mid k] high scan_SomeD [OF k] by auto
        then show ?thesis using less.prems(2) [OF k] by simp
      qed
      then show ?thesis
        using less.hyps [of mid lo] less.prems(1) mid high True nth
        by (simp add: step)
    next
      case eq
      obtain m where m: "scan ?P xs 0 = Some m"
        using eq mid(3) by (cases "scan ?P xs 0") (auto simp: scan_None)
      have "m \<le> mid" using scan_SomeD [OF m] eq mid(3) by (metis diff_zero leI)
      show ?thesis
      proof (cases "hi - lo = 1")
        case one: True
        then have "mid = lo" "m = mid" using mid less.prems(2) [OF m] by auto
        then show ?thesis using one eq m
          by (simp add: step)
      next
        case False
        then have less_mid: "mid + 1 - lo < hi - lo" using mid by (auto simp: mid_def)
        have "lo \<le> k \<and> k < mid + 1" if k: "scan ?P xs 0 = Some k" for k
          using k m \<open>m \<le> mid\<close> less.prems(2) [OF k] by simp
        then show ?thesis
          using less.hyps [of "mid + 1" lo] less.prems(1) mid less_mid eq False
          by (simp add: step)
      qed
    qed
  qed
qed

end


section \<open>Histories of a stack\<close>

text \<open>
  The stacks that the operations can build from a fresh one out of elements of \<open>A\<close>. \<open>sk_set\<close> is
  left out: it is the one operation that does not keep the \<open>sorted\<close> flag true (below).
\<close>

inductive built ::
  "malloc_fn \<Rightarrow> ('c \<Rightarrow> 'a option \<Rightarrow> 'a option \<Rightarrow> int) \<Rightarrow> 'a option set \<Rightarrow> ('a, 'c) stack \<Rightarrow> bool"
  for ma call_cmp_func A
where
  new: "sk_new ma c = Some s \<Longrightarrow> built ma call_cmp_func A s"
| insert: "built ma call_cmp_func A s \<Longrightarrow> p \<in> A \<Longrightarrow> sk_insert ma (Some s) p i = (r, Some s') \<Longrightarrow>
    built ma call_cmp_func A s'"
| delete: "built ma call_cmp_func A s \<Longrightarrow> sk_delete (Some s) i = (x, Some s') \<Longrightarrow>
    built ma call_cmp_func A s'"
| zero: "built ma call_cmp_func A s \<Longrightarrow> sk_zero (Some s) = Some s' \<Longrightarrow> built ma call_cmp_func A s'"
| sort: "built ma call_cmp_func A s \<Longrightarrow> sk_sort call_cmp_func (Some s) = Some s' \<Longrightarrow>
    built ma call_cmp_func A s'"
| set_cmp: "built ma call_cmp_func A s \<Longrightarrow> sk_set_cmp_func s c = (old, s') \<Longrightarrow>
    built ma call_cmp_func A s'"
| dup: "built ma call_cmp_func A s \<Longrightarrow> sk_dup ma (Some s) = Some s' \<Longrightarrow> built ma call_cmp_func A s'"

definition flag_ok :: "('c \<Rightarrow> 'a option \<Rightarrow> 'a option \<Rightarrow> int) \<Rightarrow> ('a, 'c) stack \<Rightarrow> bool" where
  "flag_ok call_cmp_func s \<longleftrightarrow> (sk_sorted s \<longrightarrow> (\<forall>c. sk_comp s = Some c \<longrightarrow>
     sorted_wrt (\<lambda>x y. call_cmp_func c x y \<le> 0) (elements s)))"

lemma sorted_wrt_delete_at: "sorted_wrt R xs \<Longrightarrow> sorted_wrt R (delete_at i xs)"
proof -
  assume *: "sorted_wrt R xs"
  have "sorted_wrt R (take i xs @ drop i xs)" using * by simp
  moreover have "drop (Suc i) xs = tl (drop i xs)" by (simp add: drop_Suc drop_tl)
  ultimately show "sorted_wrt R (delete_at i xs)"
    unfolding delete_at_def by (cases "drop i xs") (auto simp: sorted_wrt_append)
qed

lemma set_insert_at [simp]: "set (insert_at i x xs) = insert x (set xs)"
  unfolding insert_at_def using set_append [of "take i xs" "drop i xs"] by auto

lemma set_delete_at: "set (delete_at i xs) \<subseteq> set xs"
  unfolding delete_at_def by (auto dest: in_set_takeD in_set_dropD)

lemma sk_dup_eq:
  assumes "malloc_spec ma" "stack_ok s" "sk_dup ma (Some s) = Some s'"
  shows "stack_ok s'" "elements s' = elements s" "sk_sorted s' = sk_sorted s" "sk_comp s' = sk_comp s"
proof -
  have a: "sk_num_alloc s < 2 ^ 60" "sk_num_field s < sk_num_alloc s"
      "length (sk_data s) = sk_num_alloc s" and m: "8 * sk_num_alloc s mod size_limit = 8 * sk_num_alloc s"
    using assms(2) by (auto simp: stack_ok_def)
  from assms(3) m obtain ret :: "('a, 'b) stack" and d where ret: "sk_new ma (sk_comp s) = Some ret"
    and d: "realloc_ptrs ma (sk_data ret) (8 * sk_num_alloc s) = Some d"
    and s': "s' = ret\<lparr>sk_data := take (sk_num_field s) (sk_data s) @ drop (sk_num_field s) d,
      sk_num_field := sk_num_field s, sk_sorted := sk_sorted s, sk_num_alloc := sk_num_alloc s,
      sk_comp := sk_comp s\<rparr>"
    by (auto simp: sk_dup_def sizeof_ptr_def split: option.splits)
  from d obtain b where b: "OPENSSL_malloc ma (8 * sk_num_alloc s) = Some b"
    and d_eq: "d = take (sk_num_alloc s) (sk_data ret) @ drop (length (sk_data ret)) (ptr_array b)"
    by (auto simp: realloc_ptrs_def sizeof_ptr_def)
  have "8 * sk_num_alloc s < size_limit - 8" using a by auto
  note p = malloc_ptr_array(1) [OF assms(1) b this]
  have "length d = sk_num_alloc s"
    using d_eq by (simp add: p min_def)
  then show "stack_ok s'" "elements s' = elements s" "sk_sorted s' = sk_sorted s" "sk_comp s' = sk_comp s"
    using s' a by (auto simp: stack_ok_def elements_def)
qed

lemma sk_sort_eq:
  assumes "stack_ok s" "sk_sort call_cmp_func (Some s) = Some s'"
  shows "stack_ok s'" "sk_comp s' = sk_comp s"
    and "elements s' = (case sk_comp s of
           Some c \<Rightarrow> if sk_sorted s then elements s else qsort (call_cmp_func c) (elements s)
         | None \<Rightarrow> elements s)"
    and "sk_comp s \<noteq> None \<Longrightarrow> sk_sorted s'" "sk_comp s = None \<Longrightarrow> s' = s"
proof -
  have small: "qsort f xs = xs" if "length xs \<le> 1" for f :: "'a option \<Rightarrow> 'a option \<Rightarrow> int" and xs
    using that by (cases xs rule: remdups_adj.cases) auto
  have len: "sk_num_field s \<le> length (sk_data s)" using assms(1) by (auto simp: stack_ok_def)
  show "stack_ok s'" "sk_comp s' = sk_comp s" "sk_comp s \<noteq> None \<Longrightarrow> sk_sorted s'"
    "sk_comp s = None \<Longrightarrow> s' = s"
    using assms by (auto simp: sk_sort_def stack_ok_def Let_def split: option.splits if_splits)
  show "elements s' = (case sk_comp s of
      Some c \<Rightarrow> if sk_sorted s then elements s else qsort (call_cmp_func c) (elements s)
    | None \<Rightarrow> elements s)"
    using assms len small
    by (auto simp: sk_sort_def elements_def Let_def split: option.splits if_splits)
qed

lemma built_ok:
  assumes "malloc_spec ma" "\<And>c. cmp_order (call_cmp_func c) A" "built ma call_cmp_func A s"
  shows "stack_ok s \<and> set (elements s) \<subseteq> A \<and> flag_ok call_cmp_func s"
  using assms(3)
proof (induction rule: built.induct)
  case (new c s)
  then show ?case using sk_new_spec [OF assms(1) new] by (auto simp: flag_ok_def)
next
  case (insert s p i r s')
  then show ?case
    using sk_insert_cases [OF assms(1), of s p i] by (auto simp: flag_ok_def)
next
  case (delete s i x s')
  show ?case
  proof (cases "i < sk_num_field s")
    case True
    from delete.IH have ok: "stack_ok s" by simp
    from sk_delete_eq [OF ok True] delete show ?thesis
      by (smt (verit, best) flag_ok_def option.inject prod.inject set_delete_at sorted_wrt_delete_at subset_trans)
  next
    case False
    then show ?thesis using delete by (simp add: sk_delete_def)
  qed
next
  case (zero s s')
  then show ?case
    by (auto simp: sk_zero_def stack_ok_def elements_def flag_ok_def split: if_splits)
next
  case (sort s s')
  then have ok: "stack_ok s" by simp
  note so = sk_sort_eq [OF ok sort.hyps(2)]
  show ?case
  proof (cases "sk_comp s")
    case None
    then show ?thesis using so(5) sort.IH by simp
  next
    case (Some c)
    show ?thesis
      using so Some sort.IH cmp_order.sorted_qsort [OF assms(2)] by (auto simp: flag_ok_def)
  qed
next
  case (set_cmp s c old s')
  then show ?case
    by (auto simp: sk_set_cmp_func_def stack_ok_def elements_def flag_ok_def split: if_splits)
next
  case (dup s s')
  then have ok: "stack_ok s" by simp
  from sk_dup_eq [OF assms(1) ok dup.hyps(2)] dup.IH show ?case by (auto simp: flag_ok_def)
qed


lemma copy_elements_Inl:
  assumes "copy_elements f xs acc = Inl freed"
  shows "\<exists>done x rest. xs = done @ Some x # rest \<and> f x = None \<and>
    map Some freed = map Some (map the (filter (\<lambda>e. e \<noteq> None) acc)) @ map f (map the (filter (\<lambda>e. e \<noteq> None) done))"
  using assms
proof (induction f xs acc rule: copy_elements.induct)
  case (2 f xs acc)
  then obtain ys x rest where "xs = ys @ Some x # rest" "f x = None"
    "map Some freed = map Some (map the (filter (\<lambda>e. e \<noteq> None) acc)) @ map f (map the (filter (\<lambda>e. e \<noteq> None) ys))"
    by auto
  then show ?case by (intro exI [of _ "None # ys"]) simp
next
  case (3 f x xs acc)
  show ?case
  proof (cases "f x")
    case None
    then show ?thesis using 3 by (intro exI [of _ "[]"]) auto
  next
    case (Some y)
    with 3 obtain ys z rest where "xs = ys @ Some z # rest" "f z = None"
      "map Some freed = map Some (map the (filter (\<lambda>e. e \<noteq> None) (acc @ [Some y])))
         @ map f (map the (filter (\<lambda>e. e \<noteq> None) ys))"
      by auto
    then show ?thesis using Some by (intro exI [of _ "Some x # ys"]) simp
  qed
qed simp

lemma copy_elements_acc:
  "copy_elements f xs acc = Inr ys \<Longrightarrow> \<exists>zs. ys = acc @ zs \<and>
     list_all2 (\<lambda>x y. (case x of None \<Rightarrow> y = None | Some a \<Rightarrow> y = f a \<and> y \<noteq> None)) xs zs"
proof (induction f xs acc rule: copy_elements.induct)
  case (2 f xs acc)
  then obtain zs where "ys = (acc @ [None]) @ zs"
    "list_all2 (\<lambda>x y. (case x of None \<Rightarrow> y = None | Some a \<Rightarrow> y = f a \<and> y \<noteq> None)) xs zs" by auto
  then show ?case by (intro exI [of _ "None # zs"]) simp
next
  case (3 f x xs acc)
  then obtain y where y: "f x = Some y" by (auto split: option.splits)
  with 3 obtain zs where "ys = (acc @ [Some y]) @ zs"
    "list_all2 (\<lambda>x y. (case x of None \<Rightarrow> y = None | Some a \<Rightarrow> y = f a \<and> y \<noteq> None)) xs zs" by auto
  then show ?case using y by (intro exI [of _ "Some y # zs"]) simp
qed simp

lemma copy_elements_Inr:
  "copy_elements f xs [] = Inr ys \<Longrightarrow>
     list_all2 (\<lambda>x y. (case x of None \<Rightarrow> y = None | Some a \<Rightarrow> y = f a \<and> y \<noteq> None)) xs ys"
  using copy_elements_acc [of f xs "[]" ys] by simp

section \<open>Properties\<close>

text \<open>C8: On a stack that meets its invariant (a free slot in an array of \<open>num_alloc\<close> slots),
  \<open>sk_insert\<close> either fails and leaves the stack as it was, or inserts the element at the given
  index (at the end when the index is past it), returns the new length, drops the \<open>sorted\<close> flag and
  keeps the invariant, whatever sizes the reallocation needed; while memory lasts it does not fail.\<close>

theorem sk_insert_implements:
  assumes "malloc_spec ma" "stack_ok s"
  shows "(sk_insert ma (Some s) p i = (0, Some s) \<and> (malloc_total ma \<longrightarrow> 2 ^ 59 - 1 \<le> sk_num_alloc s)) \<or>
      (\<exists>s'. sk_insert ma (Some s) p i = (length (elements s) + 1, Some s') \<and> stack_ok s' \<and>
        elements s' = insert_at i p (elements s) \<and> \<not> sk_sorted s' \<and> sk_comp s' = sk_comp s)"
proof -
  have "fst (sk_insert ma (Some s) p i) \<noteq> 0" if "malloc_total ma" "\<not> 2 ^ 59 - 1 \<le> sk_num_alloc s"
    using sk_grow_total [OF that(1) assms(2)] that(2) by (auto simp: sk_insert_def Let_def)
  then show ?thesis
    using sk_insert_cases [OF assms, of p i] length_elements [OF assms(2)] by fastforce
qed

lemma sk_insert_implements_witness:
  "\<exists>s s'. sk_new zero_malloc (None :: unit option) = Some s
     \<and> sk_insert zero_malloc (Some s) (Some (7 :: nat)) 3 = (1, Some s') \<and> elements s' = [Some 7]"
proof -
  obtain s :: "(nat, unit) stack" where s: "sk_new zero_malloc None = Some s" "sk_num_alloc s = 4"
    by (simp add: sk_new_def zero_malloc_def OPENSSL_malloc_def sizeof_STACK_def size_add_def
        sizeof_ptr_def kMinSize_def OPENSSL_MALLOC_PREFIX_def)
  note new = sk_new_spec [OF malloc_spec_zero_malloc s(1)]
  from sk_insert_implements [OF malloc_spec_zero_malloc new(1), of "Some 7" 3] s(2) new(2)
  obtain s' where "sk_insert zero_malloc (Some s) (Some 7) 3 = (1, Some s')" "elements s' = [Some 7]"
    by (auto simp: insert_at_def)
  then show ?thesis using s(1) by blast
qed

text \<open>Binary search equals linear search. On every stack that the operations other than
  \<open>sk_set\<close> can build from elements that the comparison orders, \<open>sk_find\<close> returns the index of the
  first element equal to \<open>p\<close> (by the comparison function, by pointer equality when there is none),
  whether the \<open>sorted\<close> flag sends it to the binary search or not, and it always returns.\<close>

theorem sk_find_first_match:
  assumes "malloc_spec ma" "\<And>c. cmp_order (call_cmp_func c) A" "built ma call_cmp_func A s" "p \<in> A" "p \<noteq> None"
  shows "sk_find call_cmp_func (Some s) p =
    (case sk_comp s of
       None \<Rightarrow> scan (\<lambda>e. e = p) (elements s) 0
     | Some c \<Rightarrow> scan (\<lambda>e. call_cmp_func c p e = 0) (elements s) 0)"
proof (cases "sk_comp s")
  case None
  then show ?thesis by (simp add: sk_find_def elements_def)
next
  case (Some c)
  have ok: "stack_ok s" "set (elements s) \<subseteq> A" "flag_ok call_cmp_func s"
    using built_ok [OF assms(1-3)] by auto
  have split: "sk_data s = elements s @ drop (sk_num_field s) (sk_data s)"
    by (simp add: elements_def)
  show ?thesis
  proof (cases "sk_sorted s")
    case True
    then have sorted: "sorted_wrt (\<lambda>x y. call_cmp_func c x y \<le> 0) (elements s)"
      using ok(3) Some by (simp add: flag_ok_def)
    have "bsearch (call_cmp_func c) (sk_data s) p 0 (sk_num_field s)
        = scan (\<lambda>e. call_cmp_func c p e = 0) (elements s) 0"
      using cmp_order.bsearch_scan [OF assms(2) sorted ok(2) assms(4), of "sk_num_field s" 0]
        length_elements [OF ok(1)] scan_SomeD [of _ "elements s" 0]
      by (subst split) fastforce
    with assms(5) show ?thesis using Some True by (cases p) (auto simp: sk_find_def sk_is_sorted_def)
  next
    case False
    with assms(5) show ?thesis
      using Some by (cases p) (auto simp: sk_find_def sk_is_sorted_def elements_def)
  qed
qed


text \<open>A comparison of small numbers, for the concrete runs.\<close>

definition nat_cmp :: "unit \<Rightarrow> nat option \<Rightarrow> nat option \<Rightarrow> int" where
  "nat_cmp _ x y = int (the x) - int (the y)"

definition stack_of_list :: "nat list \<Rightarrow> (nat, unit) stack" where
  "stack_of_list xs = \<lparr>sk_num_field = length xs, sk_data = map Some xs @ [None], sk_sorted = False,
     sk_num_alloc = length xs + 1, sk_comp = Some ()\<rparr>"

interpretation nat_order: cmp_order "nat_cmp c" "range Some"
  by unfold_locales (auto simp: nat_cmp_def)

lemma sk_find_first_match_witness:
  "\<exists>s. sk_new zero_malloc (Some ()) = Some s \<and> (\<exists>s1 s2. sk_insert zero_malloc (Some s) (Some 5) 0 = (1, Some s1)
     \<and> sk_sort nat_cmp (Some s1) = Some s2 \<and> sk_find nat_cmp (Some s2) (Some 5) = Some 0)"
proof -
  obtain s :: "(nat, unit) stack" where s: "sk_new zero_malloc (Some ()) = Some s" "sk_num_alloc s = 4" "sk_comp s = Some ()"
    by (simp add: sk_new_def zero_malloc_def OPENSSL_malloc_def sizeof_STACK_def size_add_def
        sizeof_ptr_def kMinSize_def OPENSSL_MALLOC_PREFIX_def)
  have b: "built zero_malloc nat_cmp (range Some) s" by (rule built.new [OF s(1)])
  have ok: "stack_ok s" "elements s = []" using sk_new_spec [OF malloc_spec_zero_malloc s(1)] by auto
  obtain s1 where s1: "sk_insert zero_malloc (Some s) (Some 5) 0 = (1, Some s1)" "stack_ok s1"
      "elements s1 = [Some 5]" "sk_comp s1 = Some ()"
    using sk_insert_cases [OF malloc_spec_zero_malloc ok(1), of "Some 5" 0] ok(2)
      sk_grow_total [OF malloc_total_zero_malloc ok(1)] s length_elements [OF ok(1)]
    by (auto simp: insert_at_def sk_insert_def Let_def)
  have b1: "built zero_malloc nat_cmp (range Some) s1"
    by (rule built.insert [OF b _ s1(1)]) simp
  obtain s2 where s2: "sk_sort nat_cmp (Some s1) = Some s2"
    using s1(4) by (cases "sk_sorted s1") (auto simp: sk_sort_def Let_def)
  have b2: "built zero_malloc nat_cmp (range Some) s2" by (rule built.sort [OF b1 s2])
  have "elements s2 = [Some 5]" "sk_comp s2 = Some ()"
    using sk_sort_eq [OF s1(2) s2] s1(3,4) by (auto split: if_splits)
  then have "sk_find nat_cmp (Some s2) (Some 5) = Some 0"
    using sk_find_first_match [OF malloc_spec_zero_malloc nat_order.cmp_order_axioms b2, of "Some 5"]
    by (simp add: nat_cmp_def)
  with s(1) s1(1) s2 show ?thesis by blast
qed

text \<open>The same does not hold after \<open>sk_set\<close>: the stack 1, 2, 3, sorted and then changed to
  9, 2, 3 by \<open>sk_set\<close>, still carries the flag that says its elements ascend, and \<open>sk_find\<close> does not
  find the 9 at index 0.\<close>

theorem sk_set_keeps_stale_flag:
  "\<exists>s. snd (sk_set (sk_sort nat_cmp (Some (stack_of_list [1, 2, 3]))) 0 (Some 9)) = Some s
     \<and> elements s = [Some 9, Some 2, Some 3] \<and> sk_sorted s
     \<and> sk_find nat_cmp (Some s) (Some 9) = None"
  by (simp add: sk_set_def sk_sort_def stack_of_list_def elements_def sk_find_def sk_is_sorted_def
      bsearch.simps nat_cmp_def)

text \<open>C9: \<open>sk_deep_copy\<close> either copies every element, in order and NULL for NULL, into a new stack
  of the same length, flag and comparison function, or hands exactly the copies it had made to the
  free function, those of the elements before the first that could not be copied; or it fails
  before it copied anything.\<close>

theorem sk_deep_copy_copies_or_frees:
  assumes "malloc_spec ma" "stack_ok s"
  shows "case sk_deep_copy ma f (Some s) of
      Inr (Some t) \<Rightarrow> stack_ok t \<and> sk_sorted t = sk_sorted s \<and> sk_comp t = sk_comp s \<and>
        list_all2 (\<lambda>x y. (case x of None \<Rightarrow> y = None | Some a \<Rightarrow> y = f a \<and> y \<noteq> None)) (elements s) (elements t)
    | Inr None \<Rightarrow> sk_dup ma (Some s) = None
    | Inl freed \<Rightarrow> (\<exists>done x rest. elements s = done @ Some x # rest \<and> f x = None \<and>
        map Some freed = map f (map the (filter (\<lambda>e. e \<noteq> None) done)))"
proof (cases "sk_dup ma (Some s)")
  case None
  then show ?thesis by (simp add: sk_deep_copy_def)
next
  case (Some d)
  note d = sk_dup_eq [OF assms Some]
  show ?thesis
  proof (cases "copy_elements f (elements d) []")
    case (Inl freed)
    then show ?thesis
      using Some d(2) copy_elements_Inl [OF Inl]
      by (auto simp: sk_deep_copy_def elements_def)
  next
    case (Inr ys)
    note c = copy_elements_Inr [OF Inr]
    have len: "length ys = sk_num_field d"
      using list_all2_lengthD [OF c] length_elements [OF d(1)] by simp
    then show ?thesis
      using Some d c Inr by (auto simp: sk_deep_copy_def elements_def stack_ok_def)
  qed
qed

lemma sk_deep_copy_copies_or_frees_witness:
  "sk_deep_copy zero_malloc (\<lambda>x. if x < 9 then Some (x + 1) else None) (Some (stack_of_list [1, 9, 2])) = Inl [2]
   \<and> (\<exists>done x rest. elements (stack_of_list [1, 9, 2]) = done @ Some x # rest \<and> \<not> x < (9 :: nat))"
proof -
  let ?f = "\<lambda>x :: nat. if x < 9 then Some (x + 1) else None"
  have ok: "stack_ok (stack_of_list [1, 9, 2])" by (simp add: stack_ok_def stack_of_list_def)
  have "sk_deep_copy zero_malloc ?f (Some (stack_of_list [1, 9, 2])) = Inl [2]"
    by (simp add: sk_deep_copy_def sk_dup_def sk_new_def realloc_ptrs_def zero_malloc_def
        OPENSSL_malloc_def sizeof_STACK_def size_add_def sizeof_ptr_def kMinSize_def
        OPENSSL_MALLOC_PREFIX_def stack_of_list_def ptr_array_def)
  with sk_deep_copy_copies_or_frees [OF malloc_spec_zero_malloc ok, of ?f]
  show ?thesis by (auto split: if_splits)
qed

end
