(* ===== verification/Lhash.thy ===== *)
theory Lhash imports Stack "HOL-Library.Multiset" begin

text \<open>
  \<open>crypto/lhash/lhash.c\<close>: the chained hash table \<open>LHASH_OF(T)\<close>.

  A chain is the list of its items, so the pointer to a \<open>next\<close> field that
  \<open>get_next_ptr_and_hash\<close> returns is a bucket and a position in its chain. The hash and comparison
  functions are values that the helpers \<open>call_hash_func\<close> and \<open>call_cmp_func\<close> call. The callback of
  \<open>lh_doall_arg\<close> works on its argument and not on the table.
\<close>

section \<open>The code\<close>

record 'd lhash_item =
  item_data :: 'd
  item_hash :: u32

record ('d, 'h, 'c) lhash =
  num_items :: u64
  buckets :: "'d lhash_item list list"
  num_buckets :: nat
  callback_depth :: u32
  lh_comp :: 'c
  lh_hash :: 'h

definition kMinNumBuckets :: nat where
  "kMinNumBuckets = 16"

definition kMaxAverageChainLength :: nat where
  "kMaxAverageChainLength = 2"

definition kMinAverageChainLength :: nat where
  "kMinAverageChainLength = 1"

definition sizeof_LHASH :: nat where
  "sizeof_LHASH = 48"

definition sizeof_LHASH_ITEM :: nat where
  "sizeof_LHASH_ITEM = 24"

text \<open>A zeroed array of empty chains in a fresh block.\<close>

definition bucket_array :: "block \<Rightarrow> 'd lhash_item list list" where
  "bucket_array b = replicate (length (block_bytes b) div sizeof_ptr) []"

definition lh_new :: "malloc_fn \<Rightarrow> 'h \<Rightarrow> 'c \<Rightarrow> ('d, 'h, 'c) lhash option" where
  "lh_new ma hash cmp_func =
     (case OPENSSL_malloc ma sizeof_LHASH of
        None \<Rightarrow> None
      | Some _ \<Rightarrow>
          (case OPENSSL_malloc ma (sizeof_ptr * kMinNumBuckets) of
             None \<Rightarrow> None
           | Some b \<Rightarrow>
               Some \<lparr>num_items = 0, buckets = bucket_array b, num_buckets = kMinNumBuckets,
                     callback_depth = 0, lh_comp = cmp_func, lh_hash = hash\<rparr>))"

definition lh_num_items :: "('d, 'h, 'c) lhash \<Rightarrow> u64" where
  "lh_num_items lh = num_items lh"

text \<open>The items \<open>lh_free\<close> releases, in order.\<close>

definition lh_free :: "('d, 'h, 'c) lhash option \<Rightarrow> 'd lhash_item list" where
  "lh_free lh =
     (case lh of
        None \<Rightarrow> []
      | Some l \<Rightarrow> concat (map (\<lambda>i. buckets l ! i) [0..<num_buckets l]))"

text \<open>The walk along a chain: the number of items passed before one that matches.\<close>

fun chain_walk :: "('d \<Rightarrow> bool) \<Rightarrow> 'd lhash_item list \<Rightarrow> nat" where
  "chain_walk matches [] = 0"
| "chain_walk matches (cur # rest) = (if matches (item_data cur) then 0 else Suc (chain_walk matches rest))"

definition get_next_ptr_and_hash ::
  "('d, 'h, 'c) lhash \<Rightarrow> 'd \<Rightarrow> ('h \<Rightarrow> 'd \<Rightarrow> u32) \<Rightarrow> ('c \<Rightarrow> 'd \<Rightarrow> 'd \<Rightarrow> int) \<Rightarrow> u32 \<times> nat \<times> nat"
where
  "get_next_ptr_and_hash lh data call_hash_func call_cmp_func =
     (let hash = call_hash_func (lh_hash lh) data;
          b = unat hash mod num_buckets lh in
      (hash, b, chain_walk (\<lambda>cur. call_cmp_func (lh_comp lh) cur data = 0) (buckets lh ! b)))"

definition get_next_ptr_by_key ::
  "('d, 'h, 'c) lhash \<Rightarrow> 'k \<Rightarrow> u32 \<Rightarrow> ('k \<Rightarrow> 'd \<Rightarrow> int) \<Rightarrow> nat \<times> nat"
where
  "get_next_ptr_by_key lh key key_hash cmp_key =
     (let b = unat key_hash mod num_buckets lh in
      (b, chain_walk (\<lambda>cur. cmp_key key cur = 0) (buckets lh ! b)))"

text \<open>What a pointer to a \<open>next\<close> field points to.\<close>

definition deref :: "('d, 'h, 'c) lhash \<Rightarrow> nat \<times> nat \<Rightarrow> 'd lhash_item option" where
  "deref lh ptr = (case ptr of (b, i) \<Rightarrow> if i < length (buckets lh ! b) then Some (buckets lh ! b ! i) else None)"

definition lh_retrieve ::
  "('d, 'h, 'c) lhash \<Rightarrow> 'd \<Rightarrow> ('h \<Rightarrow> 'd \<Rightarrow> u32) \<Rightarrow> ('c \<Rightarrow> 'd \<Rightarrow> 'd \<Rightarrow> int) \<Rightarrow> 'd option"
where
  "lh_retrieve lh data call_hash_func call_cmp_func =
     map_option item_data (deref lh (snd (get_next_ptr_and_hash lh data call_hash_func call_cmp_func)))"

definition lh_retrieve_key ::
  "('d, 'h, 'c) lhash \<Rightarrow> 'k \<Rightarrow> u32 \<Rightarrow> ('k \<Rightarrow> 'd \<Rightarrow> int) \<Rightarrow> 'd option"
where
  "lh_retrieve_key lh key key_hash cmp_key =
     map_option item_data (deref lh (get_next_ptr_by_key lh key key_hash cmp_key))"

text \<open>Moving the items over, each to the head of its new chain.\<close>

definition move_item :: "nat \<Rightarrow> 'd lhash_item \<Rightarrow> 'd lhash_item list list \<Rightarrow> 'd lhash_item list list" where
  "move_item n cur new_buckets =
     (let new_bucket = unat (item_hash cur) mod n in
      new_buckets[new_bucket := cur # new_buckets ! new_bucket])"

fun move_chain :: "nat \<Rightarrow> 'd lhash_item list \<Rightarrow> 'd lhash_item list list \<Rightarrow> 'd lhash_item list list" where
  "move_chain n [] new_buckets = new_buckets"
| "move_chain n (cur # next) new_buckets = move_chain n next (move_item n cur new_buckets)"

fun move_buckets :: "nat \<Rightarrow> 'd lhash_item list list \<Rightarrow> 'd lhash_item list list \<Rightarrow> 'd lhash_item list list" where
  "move_buckets n [] new_buckets = new_buckets"
| "move_buckets n (b # bs) new_buckets = move_buckets n bs (move_chain n b new_buckets)"

definition lh_rebucket :: "malloc_fn \<Rightarrow> ('d, 'h, 'c) lhash \<Rightarrow> nat \<Rightarrow> ('d, 'h, 'c) lhash" where
  "lh_rebucket ma lh new_num_buckets =
     (let alloc_size = sizeof_ptr * new_num_buckets mod size_limit in
      if alloc_size div sizeof_ptr \<noteq> new_num_buckets then lh
      else case OPENSSL_malloc ma alloc_size of
             None \<Rightarrow> lh
           | Some b \<Rightarrow>
               lh\<lparr>num_buckets := new_num_buckets,
                  buckets := move_buckets new_num_buckets (take (num_buckets lh) (buckets lh)) (bucket_array b)\<rparr>)"

definition lh_maybe_resize :: "malloc_fn \<Rightarrow> ('d, 'h, 'c) lhash \<Rightarrow> ('d, 'h, 'c) lhash" where
  "lh_maybe_resize ma lh =
     (if 0 < callback_depth lh then lh
      else
        let avg_chain_length = unat (num_items lh) div num_buckets lh in
        if kMaxAverageChainLength < avg_chain_length then
          let new_num_buckets = num_buckets lh * 2 mod size_limit in
          if num_buckets lh < new_num_buckets then lh_rebucket ma lh new_num_buckets else lh
        else if avg_chain_length < kMinAverageChainLength \<and> kMinNumBuckets < num_buckets lh then
          let new_num_buckets = num_buckets lh div 2;
              new_num_buckets = (if new_num_buckets < kMinNumBuckets then kMinNumBuckets else new_num_buckets) in
          lh_rebucket ma lh new_num_buckets
        else lh)"

text \<open>
  The three writes through a pointer to a \<open>next\<close> field: \<open>(*next_ptr)->data = data\<close>, then
  \<open>*next_ptr = item\<close> at the end of a chain, and \<open>*next_ptr = item->next\<close>, with the count.
\<close>

definition set_item_data :: "('d, 'h, 'c) lhash \<Rightarrow> nat \<Rightarrow> nat \<Rightarrow> 'd \<Rightarrow> ('d, 'h, 'c) lhash" where
  "set_item_data lh b i data =
     lh\<lparr>buckets := (buckets lh)[b := (buckets lh ! b)[i := (buckets lh ! b ! i)\<lparr>item_data := data\<rparr>]]\<rparr>"

definition link_item :: "('d, 'h, 'c) lhash \<Rightarrow> nat \<Rightarrow> 'd lhash_item \<Rightarrow> ('d, 'h, 'c) lhash" where
  "link_item lh b item =
     lh\<lparr>buckets := (buckets lh)[b := buckets lh ! b @ [item]], num_items := num_items lh + 1\<rparr>"

definition unlink_item :: "('d, 'h, 'c) lhash \<Rightarrow> nat \<Rightarrow> nat \<Rightarrow> ('d, 'h, 'c) lhash" where
  "unlink_item lh b i =
     lh\<lparr>buckets := (buckets lh)[b := take i (buckets lh ! b) @ drop (i + 1) (buckets lh ! b)],
        num_items := num_items lh - 1\<rparr>"

text \<open>The result, \<open>*old_data\<close> and the table.\<close>

definition lh_insert ::
  "malloc_fn \<Rightarrow> ('d, 'h, 'c) lhash \<Rightarrow> 'd \<Rightarrow> ('h \<Rightarrow> 'd \<Rightarrow> u32) \<Rightarrow> ('c \<Rightarrow> 'd \<Rightarrow> 'd \<Rightarrow> int) \<Rightarrow>
   bool \<times> 'd option \<times> ('d, 'h, 'c) lhash"
where
  "lh_insert ma lh data call_hash_func call_cmp_func =
     (let (hash, b, i) = get_next_ptr_and_hash lh data call_hash_func call_cmp_func in
      case deref lh (b, i) of
        Some item \<Rightarrow> (True, Some (item_data item), set_item_data lh b i data)
      | None \<Rightarrow>
          (case OPENSSL_malloc ma sizeof_LHASH_ITEM of
             None \<Rightarrow> (False, None, lh)
           | Some _ \<Rightarrow>
               (True, None, lh_maybe_resize ma (link_item lh b \<lparr>item_data = data, item_hash = hash\<rparr>))))"

definition lh_delete ::
  "malloc_fn \<Rightarrow> ('d, 'h, 'c) lhash \<Rightarrow> 'd \<Rightarrow> ('h \<Rightarrow> 'd \<Rightarrow> u32) \<Rightarrow> ('c \<Rightarrow> 'd \<Rightarrow> 'd \<Rightarrow> int) \<Rightarrow>
   'd option \<times> ('d, 'h, 'c) lhash"
where
  "lh_delete ma lh data call_hash_func call_cmp_func =
     (let (_, b, i) = get_next_ptr_and_hash lh data call_hash_func call_cmp_func in
      case deref lh (b, i) of
        None \<Rightarrow> (None, lh)
      | Some item \<Rightarrow> (Some (item_data item), lh_maybe_resize ma (unlink_item lh b i)))"

text \<open>\<open>UINT_MAX\<close> saturates the depth counter.\<close>

definition lh_doall_arg ::
  "malloc_fn \<Rightarrow> ('d, 'h, 'c) lhash option \<Rightarrow> ('d \<Rightarrow> 'a \<Rightarrow> 'a) \<Rightarrow> 'a \<Rightarrow> 'a \<times> ('d, 'h, 'c) lhash option"
where
  "lh_doall_arg ma lh func arg =
     (case lh of
        None \<Rightarrow> (arg, None)
      | Some l \<Rightarrow>
          let l = (if callback_depth l < 0xFFFFFFFF then l\<lparr>callback_depth := callback_depth l + 1\<rparr> else l);
              arg = fold (\<lambda>cur. func (item_data cur)) (concat (map (\<lambda>i. buckets l ! i) [0..<num_buckets l])) arg;
              l = (if callback_depth l < 0xFFFFFFFF then l\<lparr>callback_depth := callback_depth l - 1\<rparr> else l) in
          (arg, Some (lh_maybe_resize ma l)))"

definition lh_strhash :: "u8 list option \<Rightarrow> u32" where
  "lh_strhash c = (case c of None \<Rightarrow> 0 | Some s \<Rightarrow> OPENSSL_hash32 (take (c_strlen s) s))"

section \<open>What a table stands for\<close>

text \<open>The elements of a table, without order.\<close>

definition contents :: "('d, 'h, 'c) lhash \<Rightarrow> 'd multiset" where
  "contents lh = image_mset item_data (mset (concat (buckets lh)))"

text \<open>Every item sits in the bucket its hash selects, and no chain holds two equal elements.\<close>

definition lh_ok :: "('h \<Rightarrow> 'd \<Rightarrow> u32) \<Rightarrow> ('c \<Rightarrow> 'd \<Rightarrow> 'd \<Rightarrow> int) \<Rightarrow> ('d, 'h, 'c) lhash \<Rightarrow> bool" where
  "lh_ok call_hash_func call_cmp_func lh \<longleftrightarrow>
     length (buckets lh) = num_buckets lh \<and> kMinNumBuckets \<le> num_buckets lh \<and> num_buckets lh < 2 ^ 60 \<and>
     num_items lh = of_nat (size (contents lh)) \<and>
     (\<forall>i < num_buckets lh. \<forall>it \<in> set (buckets lh ! i).
        item_hash it = call_hash_func (lh_hash lh) (item_data it) \<and> unat (item_hash it) mod num_buckets lh = i) \<and>
     (\<forall>x. size (filter_mset (\<lambda>y. call_cmp_func (lh_comp lh) y x = 0) (contents lh)) \<le> 1)"


text \<open>Inserting the elements of a list, in order; \<open>None\<close> when an insertion fails.\<close>

fun lh_insert_all ::
  "malloc_fn \<Rightarrow> ('d, 'h, 'c) lhash \<Rightarrow> 'd list \<Rightarrow> ('h \<Rightarrow> 'd \<Rightarrow> u32) \<Rightarrow> ('c \<Rightarrow> 'd \<Rightarrow> 'd \<Rightarrow> int) \<Rightarrow>
   ('d, 'h, 'c) lhash option"
where
  "lh_insert_all ma lh [] call_hash_func call_cmp_func = Some lh"
| "lh_insert_all ma lh (d # ds) call_hash_func call_cmp_func =
     (let (done, _, lh') = lh_insert ma lh d call_hash_func call_cmp_func in
      if done then lh_insert_all ma lh' ds call_hash_func call_cmp_func else None)"

section \<open>Chains and buckets\<close>

lemma mset_exchange:
  fixes X :: "'b multiset"
  assumes "X + M = T + C" "C + {#a#} = M + {#b#}"
  shows "X + {#a#} = T + {#b#}"
proof -
  have "X + {#a#} + M = (X + M) + {#a#}" by simp
  also have "\<dots> = T + (C + {#a#})" by (simp add: assms(1))
  also have "\<dots> = T + (M + {#b#})" by (simp only: assms(2))
  also have "\<dots> = T + {#b#} + M" by simp
  finally show ?thesis by simp
qed

lemma mset_replace: "add_mset a X = add_mset x C \<Longrightarrow> C = add_mset a K \<Longrightarrow> X = add_mset x K"
  by (simp add: add_mset_commute [of x a])

lemma filter_none_iff: "filter_mset P M = {#} \<longleftrightarrow> (\<forall>y \<in># M. \<not> P y)"
  by (induction M) auto

lemma filter_none_rest: "filter_mset P M = {#} \<Longrightarrow> filter_mset (\<lambda>y. \<not> P y) M = M"
  by (induction M) (auto split: if_splits)

lemma mset_concat_update:
  "b < length bs \<Longrightarrow> mset (concat (bs[b := ch])) + mset (bs ! b) = mset (concat bs) + mset ch"
proof (induction bs arbitrary: b)
  case (Cons c bs)
  then show ?case by (cases b) (auto simp: ac_simps)
qed simp

lemma chain_walk_less:
  "chain_walk P ch < length ch \<Longrightarrow>
     P (item_data (ch ! chain_walk P ch)) \<and> (\<forall>it \<in> set (take (chain_walk P ch) ch). \<not> P (item_data it))"
  by (induction ch) auto

lemma chain_walk_end: "length ch \<le> chain_walk P ch \<Longrightarrow> it \<in> set ch \<Longrightarrow> \<not> P (item_data it)"
  by (induction ch) (auto split: if_splits)

text \<open>An array of \<open>n\<close> chains in which every item is in the chain of its hash.\<close>

definition placed :: "nat \<Rightarrow> 'd lhash_item list list \<Rightarrow> bool" where
  "placed n bs \<longleftrightarrow> length bs = n \<and> (\<forall>i < n. \<forall>it \<in> set (bs ! i). unat (item_hash it) mod n = i)"

lemma placed_move_item:
  assumes "placed n bs" "0 < n"
  shows "placed n (move_item n cur bs)" "mset (concat (move_item n cur bs)) = add_mset cur (mset (concat bs))"
proof -
  let ?b = "unat (item_hash cur) mod n"
  have b: "?b < length bs" using assms by (simp add: placed_def)
  show "placed n (move_item n cur bs)"
    using assms b by (auto simp: placed_def move_item_def Let_def nth_list_update)
  show "mset (concat (move_item n cur bs)) = add_mset cur (mset (concat bs))"
    using mset_concat_update [OF b, of "cur # bs ! ?b"] by (simp add: move_item_def Let_def)
qed

lemma placed_move_chain:
  "placed n bs \<Longrightarrow> 0 < n \<Longrightarrow>
     placed n (move_chain n ch bs) \<and> mset (concat (move_chain n ch bs)) = mset ch + mset (concat bs)"
  by (induction ch arbitrary: bs) (simp_all add: placed_move_item)

lemma placed_move_buckets:
  "placed n bs \<Longrightarrow> 0 < n \<Longrightarrow>
     placed n (move_buckets n cs bs) \<and> mset (concat (move_buckets n cs bs)) = mset (concat cs) + mset (concat bs)"
  by (induction cs arbitrary: bs) (simp_all add: placed_move_chain)

lemma placed_bucket_array: "length (block_bytes b) = 8 * n \<Longrightarrow> placed n (bucket_array b)"
  by (simp add: placed_def bucket_array_def sizeof_ptr_def)

lemma concat_bucket_array [simp]: "concat (bucket_array b) = []"
  by (simp add: bucket_array_def)

section \<open>Tables under a lawful comparison\<close>

text \<open>
  What the table needs of its two functions: the comparison is an equivalence and equal elements
  have the same hash.
\<close>

locale hash_fns =
  fixes call_hash_func :: "'h \<Rightarrow> 'd \<Rightarrow> u32" and call_cmp_func :: "'c \<Rightarrow> 'd \<Rightarrow> 'd \<Rightarrow> int"
  assumes refl: "call_cmp_func c x x = 0"
    and sym: "call_cmp_func c x y = 0 \<Longrightarrow> call_cmp_func c y x = 0"
    and trans: "call_cmp_func c x y = 0 \<Longrightarrow> call_cmp_func c y z = 0 \<Longrightarrow> call_cmp_func c x z = 0"
    and hash: "call_cmp_func c x y = 0 \<Longrightarrow> call_hash_func h x = call_hash_func h y"
begin

abbreviation ok :: "('d, 'h, 'c) lhash \<Rightarrow> bool" where "ok \<equiv> lh_ok call_hash_func call_cmp_func"

abbreviation same :: "('d, 'h, 'c) lhash \<Rightarrow> 'd \<Rightarrow> 'd \<Rightarrow> bool" where
  "same lh y x \<equiv> call_cmp_func (lh_comp lh) y x = 0"

lemma ok_placed: "ok lh \<Longrightarrow> placed (num_buckets lh) (buckets lh)"
  unfolding lh_ok_def placed_def by metis

lemma ok_hashes: "ok lh \<Longrightarrow> it \<in> set (concat (buckets lh)) \<Longrightarrow> item_hash it = call_hash_func (lh_hash lh) (item_data it)"
  by (auto simp: lh_ok_def in_set_conv_nth [of _ "buckets lh"])

text \<open>The invariant from its parts, for a table with new buckets.\<close>

lemma okI:
  assumes "placed (num_buckets lh) (buckets lh)" "kMinNumBuckets \<le> num_buckets lh" "num_buckets lh < 2 ^ 60"
    and "num_items lh = of_nat (size (contents lh))"
    and "\<And>it. it \<in> set (concat (buckets lh)) \<Longrightarrow> item_hash it = call_hash_func (lh_hash lh) (item_data it)"
    and "\<And>x. size (filter_mset (\<lambda>y. same lh y x) (contents lh)) \<le> 1"
  shows "ok lh"
proof -
  have "item_hash it = call_hash_func (lh_hash lh) (item_data it)"
    if "i < num_buckets lh" "it \<in> set (buckets lh ! i)" for i it
    using that assms(1) by (intro assms(5)) (auto simp: placed_def)
  then show ?thesis using assms unfolding lh_ok_def placed_def by blast
qed

lemma rebucket_ok:
  assumes "malloc_spec ma" "ok lh" "kMinNumBuckets \<le> n" "n < 2 ^ 61 - 1"
  shows "ok (lh_rebucket ma lh n) \<and> contents (lh_rebucket ma lh n) = contents lh
    \<and> lh_comp (lh_rebucket ma lh n) = lh_comp lh \<and> lh_hash (lh_rebucket ma lh n) = lh_hash lh"
proof (cases "lh_rebucket ma lh n = lh")
  case False
  have len: "length (buckets lh) = num_buckets lh" using assms(2) by (simp add: lh_ok_def)
  have n: "0 < n" using assms(3) by (simp add: kMinNumBuckets_def)
  from assms(4) have sz: "8 * n mod size_limit = 8 * n" "8 * n < size_limit" "8 * n + 8 < size_limit"
    by auto
  from False obtain b where b: "OPENSSL_malloc ma (8 * n) = Some b"
    and lh': "lh_rebucket ma lh n = lh\<lparr>num_buckets := n, buckets := move_buckets n (buckets lh) (bucket_array b)\<rparr>"
    using sz len by (auto simp: lh_rebucket_def Let_def sizeof_ptr_def split: if_splits option.splits)
  note m = OPENSSL_malloc_cases [OF assms(1) sz(2) b]
  have bytes: "length (block_bytes b) = 8 * n" "n < 2 ^ 60" using m(2,3) sz(3) by auto
  note pl = placed_move_buckets [OF placed_bucket_array [OF bytes(1)] n, of "buckets lh"]
  have ms: "mset (concat (move_buckets n (buckets lh) (bucket_array b))) = mset (concat (buckets lh))"
    using pl by simp
  have set_eq: "set (concat (buckets (lh_rebucket ma lh n))) = set (concat (buckets lh))"
    using mset_eq_setD [OF ms] by (simp add: lh')
  from ms have con: "contents (lh_rebucket ma lh n) = contents lh" by (simp add: contents_def lh')
  have "ok (lh_rebucket ma lh n)"
  proof (rule okI)
    show "placed (num_buckets (lh_rebucket ma lh n)) (buckets (lh_rebucket ma lh n))"
      using pl by (simp add: lh')
    show "num_buckets (lh_rebucket ma lh n) < 2 ^ 60" "kMinNumBuckets \<le> num_buckets (lh_rebucket ma lh n)"
      using bytes(2) assms(3) by (simp_all add: lh')
    show "num_items (lh_rebucket ma lh n) = of_nat (size (contents (lh_rebucket ma lh n)))"
      using assms(2) con by (simp add: lh_ok_def lh')
    show "size (filter_mset (\<lambda>y. same (lh_rebucket ma lh n) y x) (contents (lh_rebucket ma lh n))) \<le> 1" for x
      using assms(2) con by (simp add: lh_ok_def lh')
    show "item_hash it = call_hash_func (lh_hash (lh_rebucket ma lh n)) (item_data it)"
      if "it \<in> set (concat (buckets (lh_rebucket ma lh n)))" for it
      using ok_hashes [OF assms(2) that [unfolded set_eq]] by (simp add: lh')
  qed
  then show ?thesis using con by (simp add: lh')
qed (use assms(2) in simp)

lemma maybe_resize_ok:
  assumes "malloc_spec ma" "ok lh"
  shows "ok (lh_maybe_resize ma lh) \<and> contents (lh_maybe_resize ma lh) = contents lh
    \<and> lh_comp (lh_maybe_resize ma lh) = lh_comp lh \<and> lh_hash (lh_maybe_resize ma lh) = lh_hash lh"
proof -
  have n: "kMinNumBuckets \<le> num_buckets lh" "num_buckets lh < 2 ^ 60"
    using assms(2) by (auto simp: lh_ok_def)
  then have "num_buckets lh * 2 mod size_limit = num_buckets lh * 2" by simp
  then show ?thesis
    using assms n rebucket_ok [OF assms, of "num_buckets lh * 2"] rebucket_ok [OF assms, of kMinNumBuckets]
      rebucket_ok [OF assms, of "num_buckets lh div 2"]
    by (auto simp: lh_maybe_resize_def Let_def kMinNumBuckets_def)
qed

text \<open>
  Where the walk stops: at the one element equal to the key, or at the end of the chain when the
  whole table has none.
\<close>

lemma walk_found:
  assumes "ok lh" "get_next_ptr_and_hash lh x call_hash_func call_cmp_func = (hs, b, i)"
    and "deref lh (b, i) = Some item"
  shows "same lh (item_data item) x" "b < num_buckets lh" "i < length (buckets lh ! b)" "buckets lh ! b ! i = item"
    and "contents lh = add_mset (item_data item) (filter_mset (\<lambda>y. \<not> same lh y x) (contents lh))"
    and "item \<in> set (concat (buckets lh))"
proof -
  let ?P = "\<lambda>cur. same lh cur x"
  have b: "b < num_buckets lh" "b < length (buckets lh)" and i: "i = chain_walk ?P (buckets lh ! b)"
    using assms(1,2) by (auto simp: get_next_ptr_and_hash_def Let_def lh_ok_def kMinNumBuckets_def)
  show "b < num_buckets lh" by (rule b)
  show il: "i < length (buckets lh ! b)" and nth: "buckets lh ! b ! i = item"
    using assms(3) by (auto simp: deref_def split: if_splits)
  show same: "same lh (item_data item) x"
    using chain_walk_less [of ?P "buckets lh ! b"] i il nth by auto
  show in_table: "item \<in> set (concat (buckets lh))" using nth_mem [OF il] nth_mem [OF b(2)] nth by auto
  from in_table have mem: "item_data item \<in># contents lh" by (simp add: contents_def)
  then obtain R where R: "contents lh = add_mset (item_data item) R" by (metis insert_DiffM)
  have "size (filter_mset ?P (contents lh)) \<le> 1" using assms(1) by (simp add: lh_ok_def)
  then have "filter_mset ?P R = {#}" using R same by simp
  then have "filter_mset (\<lambda>y. \<not> ?P y) R = R" by (rule filter_none_rest)
  then show "contents lh = add_mset (item_data item) (filter_mset (\<lambda>y. \<not> ?P y) (contents lh))"
    using R same by simp
qed

lemma walk_end:
  assumes "ok lh" "get_next_ptr_and_hash lh x call_hash_func call_cmp_func = (hs, b, i)" "deref lh (b, i) = None"
  shows "b < num_buckets lh" "hs = call_hash_func (lh_hash lh) x" "unat hs mod num_buckets lh = b"
    and "filter_mset (\<lambda>y. same lh y x) (contents lh) = {#}"
proof -
  let ?P = "\<lambda>cur. same lh cur x"
  show hs: "b < num_buckets lh" "hs = call_hash_func (lh_hash lh) x" "unat hs mod num_buckets lh = b"
    using assms(1,2) by (auto simp: get_next_ptr_and_hash_def Let_def lh_ok_def kMinNumBuckets_def)
  have i: "i = chain_walk ?P (buckets lh ! b)" "length (buckets lh ! b) \<le> i"
    using assms(2,3) by (auto simp: get_next_ptr_and_hash_def Let_def deref_def split: if_splits)
  have "\<not> ?P y" if "y \<in># contents lh" for y
  proof
    assume P: "?P y"
    from that obtain it where it: "it \<in> set (concat (buckets lh))" "y = item_data it"
      by (auto simp: contents_def)
    then obtain k where k: "k < length (buckets lh)" "it \<in> set (buckets lh ! k)"
      by (auto simp: in_set_conv_nth [of _ "buckets lh"])
    have "item_hash it = hs" using ok_hashes [OF assms(1) it(1)] hash [OF P] hs(2) it(2) by simp
    moreover have "unat (item_hash it) mod num_buckets lh = k"
      using ok_placed [OF assms(1)] k by (auto simp: placed_def)
    ultimately have "it \<in> set (buckets lh ! b)" using k hs(3) by simp
    with chain_walk_end [of "buckets lh ! b" ?P it] i P it(2) show False by simp
  qed
  then show "filter_mset ?P (contents lh) = {#}" by (simp add: filter_none_iff)
qed

lemma retrieve_iff:
  assumes "ok lh"
  shows "lh_retrieve lh x call_hash_func call_cmp_func = Some d \<longleftrightarrow> d \<in># contents lh \<and> same lh d x"
proof -
  obtain hs b i where g: "get_next_ptr_and_hash lh x call_hash_func call_cmp_func = (hs, b, i)"
    by (metis prod_cases3)
  show ?thesis
  proof (cases "deref lh (b, i)")
    case None
    have "d \<in># contents lh \<and> same lh d x \<longleftrightarrow> d \<in># filter_mset (\<lambda>y. same lh y x) (contents lh)" by auto
    then show ?thesis using walk_end(4) [OF assms g None] None g by (simp add: lh_retrieve_def)
  next
    case (Some item)
    note w = walk_found [OF assms g Some]
    have "d \<in># contents lh \<and> same lh d x \<longleftrightarrow> d = item_data item"
      using w(1) by (subst w(5)) auto
    then show ?thesis using Some g by (auto simp: lh_retrieve_def)
  qed
qed

lemma unique_add:
  assumes "ok lh"
  shows "size (filter_mset (\<lambda>y. same lh y z) (add_mset x (filter_mset (\<lambda>y. \<not> same lh y x) (contents lh)))) \<le> 1"
proof (cases "same lh x z")
  case True
  have "\<not> same lh y z" if "\<not> same lh y x" for y
    using that trans [OF _ sym [OF True]] by blast
  then have none: "filter_mset (\<lambda>y. same lh y z) (filter_mset (\<lambda>y. \<not> same lh y x) (contents lh)) = {#}"
    by (simp add: filter_none_iff)
  show ?thesis
    by (subst filter_mset_add_mset, subst none) (simp only: True if_True size_single simp_thms order_refl)
next
  case False
  have "size (filter_mset (\<lambda>y. same lh y z) (filter_mset (\<lambda>y. \<not> same lh y x) (contents lh)))
      \<le> size (filter_mset (\<lambda>y. same lh y z) (contents lh))"
    by (intro size_mset_mono multiset_filter_mono multiset_filter_subset)
  also have "\<dots> \<le> 1" using assms by (simp add: lh_ok_def)
  finally show ?thesis using False by simp
qed

lemma set_item_data_ok:
  assumes "ok lh" "get_next_ptr_and_hash lh x call_hash_func call_cmp_func = (hs, b, i)"
    and "deref lh (b, i) = Some item"
  shows "ok (set_item_data lh b i x)"
    and "contents (set_item_data lh b i x) = add_mset x (filter_mset (\<lambda>y. \<not> same lh y x) (contents lh))"
proof -
  note w = walk_found [OF assms]
  have len: "length (buckets lh) = num_buckets lh" using assms(1) by (simp add: lh_ok_def)
  define ch where "ch = (buckets lh ! b)[i := item\<lparr>item_data := x\<rparr>]"
  have lh': "set_item_data lh b i x = lh\<lparr>buckets := (buckets lh)[b := ch]\<rparr>"
    using w(4) by (simp add: set_item_data_def ch_def)
  have "mset ch + {#item#} = mset (buckets lh ! b) + {#item\<lparr>item_data := x\<rparr>#}"
    using w(3,4) nth_mem [OF w(3)] by (simp add: ch_def mset_update)
  then have "mset (concat ((buckets lh)[b := ch])) + {#item#} = mset (concat (buckets lh)) + {#item\<lparr>item_data := x\<rparr>#}"
    using w(2) len by (intro mset_exchange [OF mset_concat_update]) simp_all
  then have "image_mset item_data (mset (concat ((buckets lh)[b := ch])) + {#item#})
      = image_mset item_data (mset (concat (buckets lh)) + {#item\<lparr>item_data := x\<rparr>#})" by simp
  then have "add_mset (item_data item) (contents (set_item_data lh b i x)) = add_mset x (contents lh)"
    by (simp add: contents_def lh')
  then show con: "contents (set_item_data lh b i x) = add_mset x (filter_mset (\<lambda>y. \<not> same lh y x) (contents lh))"
    by (rule mset_replace [OF _ w(5)])
  have size: "size (contents lh) = size (contents (set_item_data lh b i x))" by (subst w(5)) (simp add: con)
  have hash_eq: "item_hash item = call_hash_func (lh_hash lh) x"
    using ok_hashes [OF assms(1) w(6)] hash [OF w(1)] by simp
  have items: "it \<in> set (concat (buckets lh)) \<or> it = item\<lparr>item_data := x\<rparr>"
    if "it \<in> set (concat ((buckets lh)[b := ch]))" for it
    using that w(2) len nth_mem [of b "buckets lh"]
    by (auto simp: ch_def dest!: set_update_subset_insert [THEN subsetD])
  show "ok (set_item_data lh b i x)"
  proof (rule okI)
    show "placed (num_buckets (set_item_data lh b i x)) (buckets (set_item_data lh b i x))"
      using ok_placed [OF assms(1)] w(2,3,4)
      by (auto simp: placed_def lh' ch_def nth_list_update dest!: set_update_subset_insert [THEN subsetD])
    show "num_items (set_item_data lh b i x) = of_nat (size (contents (set_item_data lh b i x)))"
      using assms(1) size by (simp add: lh_ok_def set_item_data_def)
    show "size (filter_mset (\<lambda>y. same (set_item_data lh b i x) y z) (contents (set_item_data lh b i x))) \<le> 1" for z
      using unique_add [OF assms(1)] con by (simp add: set_item_data_def)
    show "item_hash it = call_hash_func (lh_hash (set_item_data lh b i x)) (item_data it)"
      if "it \<in> set (concat (buckets (set_item_data lh b i x)))" for it
      using items [of it] that ok_hashes [OF assms(1), of it] hash_eq by (auto simp: lh')
  qed (use assms(1) in \<open>auto simp: set_item_data_def lh_ok_def\<close>)
qed

lemma link_item_ok:
  assumes "ok lh" "get_next_ptr_and_hash lh x call_hash_func call_cmp_func = (hs, b, i)" "deref lh (b, i) = None"
  defines "item \<equiv> \<lparr>item_data = x, item_hash = hs\<rparr>"
  shows "ok (link_item lh b item)" "contents (link_item lh b item) = add_mset x (contents lh)"
    and "filter_mset (\<lambda>y. \<not> same lh y x) (contents lh) = contents lh"
proof -
  note w = walk_end [OF assms(1-3)]
  have len: "length (buckets lh) = num_buckets lh" using assms(1) by (simp add: lh_ok_def)
  show keep: "filter_mset (\<lambda>y. \<not> same lh y x) (contents lh) = contents lh"
    by (rule filter_none_rest [OF w(4)])
  have ms: "mset (concat (buckets (link_item lh b item))) = add_mset item (mset (concat (buckets lh)))"
    using mset_concat_update [of b "buckets lh" "buckets lh ! b @ [item]"] w(1) len
    by (simp add: link_item_def)
  then show con: "contents (link_item lh b item) = add_mset x (contents lh)"
    by (simp add: contents_def item_def)
  have set: "set (concat (buckets (link_item lh b item))) = insert item (set (concat (buckets lh)))"
    using arg_cong [OF ms, of set_mset] by simp
  show "ok (link_item lh b item)"
  proof (rule okI)
    show "placed (num_buckets (link_item lh b item)) (buckets (link_item lh b item))"
      using ok_placed [OF assms(1)] w by (auto simp: placed_def link_item_def item_def nth_list_update)
    show "num_items (link_item lh b item) = of_nat (size (contents (link_item lh b item)))"
      using assms(1) con by (simp add: lh_ok_def link_item_def)
    show "size (filter_mset (\<lambda>y. same (link_item lh b item) y z) (contents (link_item lh b item))) \<le> 1" for z
      using unique_add [OF assms(1), of z x] con keep by (simp add: link_item_def)
    show "item_hash it = call_hash_func (lh_hash (link_item lh b item)) (item_data it)"
      if "it \<in> set (concat (buckets (link_item lh b item)))" for it
      using that ok_hashes [OF assms(1), of it] w(2) unfolding set by (auto simp: link_item_def item_def)
  qed (use assms(1) in \<open>auto simp: link_item_def lh_ok_def\<close>)
qed

lemma unlink_item_ok:
  assumes "ok lh" "get_next_ptr_and_hash lh x call_hash_func call_cmp_func = (hs, b, i)"
    and "deref lh (b, i) = Some item"
  shows "ok (unlink_item lh b i)"
    and "contents (unlink_item lh b i) = filter_mset (\<lambda>y. \<not> same lh y x) (contents lh)"
    and "contents lh = add_mset (item_data item) (contents (unlink_item lh b i))"
proof -
  note w = walk_found [OF assms]
  have len: "length (buckets lh) = num_buckets lh" using assms(1) by (simp add: lh_ok_def)
  define ch where "ch = take i (buckets lh ! b) @ drop (i + 1) (buckets lh ! b)"
  have bs: "buckets (unlink_item lh b i) = (buckets lh)[b := ch]" by (simp add: unlink_item_def ch_def)
  have "buckets lh ! b = take i (buckets lh ! b) @ item # drop (i + 1) (buckets lh ! b)"
    using w(3,4) id_take_nth_drop [OF w(3)] by simp
  then have "mset (buckets lh ! b) = add_mset item (mset ch)"
    by (metis ch_def mset.simps(2) mset_append union_mset_add_mset_right)
  then have ms: "add_mset item (mset (concat ((buckets lh)[b := ch]))) = mset (concat (buckets lh))"
    using mset_concat_update [of b "buckets lh" ch] w(2) len by simp
  then show c: "contents lh = add_mset (item_data item) (contents (unlink_item lh b i))"
    by (metis contents_def image_mset_add_mset bs)
  then show con: "contents (unlink_item lh b i) = filter_mset (\<lambda>y. \<not> same lh y x) (contents lh)"
    using w(5) by (metis add_mset_add_mset_same_iff)
  have sub: "set (concat (buckets (unlink_item lh b i))) \<subseteq> set (concat (buckets lh))"
    using arg_cong [OF ms, of set_mset] by (auto simp: bs)
  show "ok (unlink_item lh b i)"
  proof (rule okI)
    show "placed (num_buckets (unlink_item lh b i)) (buckets (unlink_item lh b i))"
      using ok_placed [OF assms(1)] w(2)
      by (auto simp: placed_def unlink_item_def nth_list_update dest!: in_set_takeD in_set_dropD)
    have "num_items lh = of_nat (Suc (size (contents (unlink_item lh b i))))"
      using assms(1) arg_cong [OF c, of size] by (simp add: lh_ok_def)
    moreover have "num_items (unlink_item lh b i) = num_items lh - 1" by (simp add: unlink_item_def)
    ultimately show "num_items (unlink_item lh b i) = of_nat (size (contents (unlink_item lh b i)))" by simp
    have "size (filter_mset (\<lambda>y. same lh y z) (contents (unlink_item lh b i))) \<le> 1" for z
    proof -
      have "size (filter_mset (\<lambda>y. same lh y z) (contents (unlink_item lh b i)))
          \<le> size (filter_mset (\<lambda>y. same lh y z) (contents lh))"
        unfolding con by (intro size_mset_mono multiset_filter_mono multiset_filter_subset)
      also have "\<dots> \<le> 1" using assms(1) by (simp add: lh_ok_def)
      finally show ?thesis .
    qed
    then show "size (filter_mset (\<lambda>y. same (unlink_item lh b i) y z) (contents (unlink_item lh b i))) \<le> 1" for z
      by (simp add: unlink_item_def)
    show "item_hash it = call_hash_func (lh_hash (unlink_item lh b i)) (item_data it)"
      if "it \<in> set (concat (buckets (unlink_item lh b i)))" for it
      using ok_hashes [OF assms(1) subsetD [OF sub that]] by (simp add: unlink_item_def)
  qed (use assms(1) in \<open>auto simp: unlink_item_def lh_ok_def\<close>)
qed

lemma insert_spec:
  assumes "malloc_spec ma" "ok lh"
  shows "(lh_insert ma lh x call_hash_func call_cmp_func = (False, None, lh) \<and> OPENSSL_malloc ma sizeof_LHASH_ITEM = None) \<or>
    (\<exists>lh'. lh_insert ma lh x call_hash_func call_cmp_func = (True, lh_retrieve lh x call_hash_func call_cmp_func, lh')
       \<and> ok lh' \<and> contents lh' = add_mset x (filter_mset (\<lambda>y. \<not> same lh y x) (contents lh))
       \<and> lh_comp lh' = lh_comp lh \<and> lh_hash lh' = lh_hash lh)"
proof -
  obtain hs b i where g: "get_next_ptr_and_hash lh x call_hash_func call_cmp_func = (hs, b, i)"
    by (metis prod_cases3)
  show ?thesis
  proof (cases "deref lh (b, i)")
    case (Some item)
    from set_item_data_ok [OF assms(2) g Some] show ?thesis
      using Some g by (simp add: lh_insert_def set_item_data_def lh_retrieve_def)
  next
    case None
    note l = link_item_ok [OF assms(2) g None]
    have f: "lh_comp (link_item lh b it) = lh_comp lh" "lh_hash (link_item lh b it) = lh_hash lh" for it
      by (simp_all add: link_item_def)
    note r = maybe_resize_ok [OF assms(1) l(1), unfolded l(2) f]
    show ?thesis
      using r l(3) None g
      by (cases "OPENSSL_malloc ma sizeof_LHASH_ITEM") (simp_all add: lh_insert_def lh_retrieve_def)
  qed
qed

lemma delete_spec:
  assumes "malloc_spec ma" "ok lh"
  obtains lh' where "lh_delete ma lh x call_hash_func call_cmp_func = (lh_retrieve lh x call_hash_func call_cmp_func, lh')"
    "ok lh'" "contents lh' = filter_mset (\<lambda>y. \<not> same lh y x) (contents lh)"
    "lh_comp lh' = lh_comp lh" "lh_hash lh' = lh_hash lh"
proof -
  obtain hs b i where g: "get_next_ptr_and_hash lh x call_hash_func call_cmp_func = (hs, b, i)"
    by (metis prod_cases3)
  show ?thesis
  proof (cases "deref lh (b, i)")
    case None
    then show ?thesis
      using g filter_none_rest [OF walk_end(4) [OF assms(2) g None]] assms(2)
      by (intro that [of lh]) (simp_all add: lh_delete_def lh_retrieve_def)
  next
    case (Some item)
    note u = unlink_item_ok [OF assms(2) g Some]
    have f: "lh_comp (unlink_item lh b i) = lh_comp lh" "lh_hash (unlink_item lh b i) = lh_hash lh"
      by (simp_all add: unlink_item_def)
    note r = maybe_resize_ok [OF assms(1) u(1), unfolded u(2) f]
    show ?thesis
      using r Some g by (intro that [of "lh_maybe_resize ma (unlink_item lh b i)"])
        (simp_all add: lh_delete_def lh_retrieve_def)
  qed
qed

text \<open>Lookups after an insertion and after a deletion.\<close>

lemma same_cong: "call_cmp_func c d x = 0 \<Longrightarrow> call_cmp_func c y d = 0 \<longleftrightarrow> call_cmp_func c y x = 0"
  using trans [of c y d x] trans [OF _ sym, of c y x d] by blast

lemma same_commute: "call_cmp_func c x y = 0 \<longleftrightarrow> call_cmp_func c y x = 0"
  using sym by blast

lemma retrieve_insert:
  assumes "malloc_spec ma" "ok lh" "lh_insert ma lh d call_hash_func call_cmp_func = (True, old, lh')"
  shows "ok lh'" "lh_comp lh' = lh_comp lh" "lh_hash lh' = lh_hash lh"
    and "old = lh_retrieve lh d call_hash_func call_cmp_func"
    and "lh_retrieve lh' x call_hash_func call_cmp_func =
      (if same lh d x then Some d else lh_retrieve lh x call_hash_func call_cmp_func)"
proof -
  have s: "ok lh' \<and> contents lh' = add_mset d (filter_mset (\<lambda>y. \<not> same lh y d) (contents lh))
      \<and> lh_comp lh' = lh_comp lh \<and> lh_hash lh' = lh_hash lh \<and> old = lh_retrieve lh d call_hash_func call_cmp_func"
    using insert_spec [OF assms(1,2), of d] assms(3) by auto
  then show "ok lh'" "lh_comp lh' = lh_comp lh" "lh_hash lh' = lh_hash lh"
    "old = lh_retrieve lh d call_hash_func call_cmp_func" by auto
  have mem: "e \<in># contents lh' \<longleftrightarrow> e = d \<or> e \<in># contents lh \<and> \<not> same lh e d" for e
    by (subst s [THEN conjunct2, THEN conjunct1]) auto
  have comp_eq: "lh_comp lh' = lh_comp lh" and ok': "ok lh'" using s by blast+
  have "lh_retrieve lh' x call_hash_func call_cmp_func = Some e \<longleftrightarrow>
      (if same lh d x then Some d else lh_retrieve lh x call_hash_func call_cmp_func) = Some e" for e
  proof (cases "same lh d x")
    case True
    have "lh_retrieve lh' x call_hash_func call_cmp_func = Some e \<longleftrightarrow> e \<in># contents lh' \<and> same lh e x"
      using retrieve_iff [OF ok', of x e] comp_eq by simp
    also have "\<dots> \<longleftrightarrow> e = d \<and> same lh d x \<or> e \<in># contents lh \<and> \<not> same lh e d \<and> same lh e x"
      unfolding mem by blast
    also have "\<dots> \<longleftrightarrow> e = d" using True same_cong [OF True, of e] by blast
    finally show ?thesis using True by auto
  next
    case False
    have "\<not> same lh e d" if "same lh e x" for e
    proof
      assume "same lh e d"
      then have "same lh d x" using trans [OF sym that] by blast
      with False show False by simp
    qed
    then have "e \<in># contents lh' \<and> same lh e x \<longleftrightarrow> e \<in># contents lh \<and> same lh e x"
      using False unfolding mem by blast
    then show ?thesis using retrieve_iff [OF ok', of x e] retrieve_iff [OF assms(2), of x e] comp_eq False by simp
  qed
  then show "lh_retrieve lh' x call_hash_func call_cmp_func =
      (if same lh d x then Some d else lh_retrieve lh x call_hash_func call_cmp_func)"
    by (metis option.exhaust)
qed

lemma retrieve_delete:
  assumes "malloc_spec ma" "ok lh" "lh_delete ma lh d call_hash_func call_cmp_func = (old, lh')"
  shows "ok lh'" "lh_comp lh' = lh_comp lh" "lh_hash lh' = lh_hash lh"
    and "old = lh_retrieve lh d call_hash_func call_cmp_func"
    and "lh_retrieve lh' x call_hash_func call_cmp_func =
      (if same lh d x then None else lh_retrieve lh x call_hash_func call_cmp_func)"
proof -
  have s: "ok lh' \<and> contents lh' = filter_mset (\<lambda>y. \<not> same lh y d) (contents lh)
      \<and> lh_comp lh' = lh_comp lh \<and> lh_hash lh' = lh_hash lh \<and> old = lh_retrieve lh d call_hash_func call_cmp_func"
    using delete_spec [OF assms(1,2), of d] assms(3) by (metis prod.inject)
  then show "ok lh'" "lh_comp lh' = lh_comp lh" "lh_hash lh' = lh_hash lh"
    "old = lh_retrieve lh d call_hash_func call_cmp_func" by auto
  have mem: "e \<in># contents lh' \<longleftrightarrow> e \<in># contents lh \<and> \<not> same lh e d" for e
    by (subst s [THEN conjunct2, THEN conjunct1]) auto
  have comp_eq: "lh_comp lh' = lh_comp lh" and ok': "ok lh'" using s by blast+
  have "same lh e d \<longleftrightarrow> same lh d x" if "same lh e x" for e
    using same_cong [OF sym [OF that], of d] same_commute by simp
  then have "e \<in># contents lh' \<and> same lh e x \<longleftrightarrow> \<not> same lh d x \<and> e \<in># contents lh \<and> same lh e x" for e
    unfolding mem by blast
  then have "lh_retrieve lh' x call_hash_func call_cmp_func = Some e \<longleftrightarrow>
      (if same lh d x then None else lh_retrieve lh x call_hash_func call_cmp_func) = Some e" for e
    using retrieve_iff [OF ok', of x e] retrieve_iff [OF assms(2), of x e] comp_eq by simp
  then show "lh_retrieve lh' x call_hash_func call_cmp_func =
      (if same lh d x then None else lh_retrieve lh x call_hash_func call_cmp_func)"
    by (metis option.exhaust)
qed

lemma new_ok:
  assumes "malloc_spec ma" "lh_new ma h c = Some lh"
  shows "ok lh" "contents lh = {#}" "lh_comp lh = c" "lh_hash lh = h" "callback_depth lh = 0" "num_buckets lh = 16"
proof -
  obtain b where b: "OPENSSL_malloc ma (8 * 16) = Some b"
    and lh: "lh = \<lparr>num_items = 0, buckets = bucket_array b, num_buckets = 16, callback_depth = 0,
      lh_comp = c, lh_hash = h\<rparr>"
    using assms(2) by (auto simp: lh_new_def sizeof_ptr_def kMinNumBuckets_def split: option.splits)
  then show con: "contents lh = {#}" "lh_comp lh = c" "lh_hash lh = h" "callback_depth lh = 0" "num_buckets lh = 16"
    by (simp_all add: contents_def)
  have "length (block_bytes b) = 8 * 16" using OPENSSL_malloc_cases(2) [OF assms(1) _ b] by simp
  from placed_bucket_array [OF this] show "ok lh"
    by (intro okI) (use lh con in \<open>auto simp: kMinNumBuckets_def bucket_array_def\<close>)
qed

text \<open>Inserting a list: the last element equal to the key wins.\<close>

lemma retrieve_insert_all:
  assumes "malloc_spec ma" "ok lh" "lh_insert_all ma lh ds call_hash_func call_cmp_func = Some lh'"
  shows "ok lh' \<and> lh_comp lh' = lh_comp lh \<and> lh_hash lh' = lh_hash lh \<and>
    lh_retrieve lh' x call_hash_func call_cmp_func =
      (case find (\<lambda>d. same lh d x) (rev ds) of
         Some d \<Rightarrow> Some d | None \<Rightarrow> lh_retrieve lh x call_hash_func call_cmp_func)"
  using assms(2,3)
proof (induction ds arbitrary: lh)
  case (Cons d ds)
  from Cons.prems obtain old lh1 where
      i: "lh_insert ma lh d call_hash_func call_cmp_func = (True, old, lh1)"
    and r: "lh_insert_all ma lh1 ds call_hash_func call_cmp_func = Some lh'"
    by (auto split: prod.splits if_splits)
  note s = retrieve_insert [OF assms(1) Cons.prems(1) i]
  have "find P (ys @ [d]) = (case find P ys of Some y \<Rightarrow> Some y | None \<Rightarrow> if P d then Some d else None)"
    for P and ys :: "'d list"
    by (induction ys) auto
  then show ?case
    using Cons.IH [OF s(1) r] s(2,3,5) by (auto split: option.splits)
qed simp

lemma insert_all_total:
  assumes "malloc_total ma" "ok lh"
  shows "lh_insert_all ma lh ds call_hash_func call_cmp_func \<noteq> None"
  using assms(2)
proof (induction ds arbitrary: lh)
  case (Cons d ds)
  have spec: "malloc_spec ma" using assms(1) by (simp add: malloc_total_def)
  have "OPENSSL_malloc ma sizeof_LHASH_ITEM \<noteq> None"
    using OPENSSL_malloc_total [OF assms(1), of sizeof_LHASH_ITEM]
    by (fastforce simp: sizeof_LHASH_ITEM_def)
  then obtain old lh1 where i: "lh_insert ma lh d call_hash_func call_cmp_func = (True, old, lh1)"
    using insert_spec [OF spec Cons.prems, of d] by auto
  from Cons.IH [OF retrieve_insert(1) [OF spec Cons.prems i]] i show ?case by simp
qed simp

end


section \<open>The table of short names\<close>

text \<open>
  \<open>crypto/obj/obj.c\<close> keeps its objects in tables keyed by a C string: the hash is \<open>lh_strhash\<close> of
  the name and the comparison \<open>strcmp\<close> of the names, which is the sign of the first difference with
  the terminator included. An object is modelled by its \<open>sn\<close> field.
\<close>

record asn1_object =
  sn :: "u8 list"
  nid :: int

definition hash_short_name :: "unit \<Rightarrow> asn1_object \<Rightarrow> u32" where
  "hash_short_name _ obj = lh_strhash (Some (sn obj))"

definition cmp_short_name :: "unit \<Rightarrow> asn1_object \<Rightarrow> asn1_object \<Rightarrow> int" where
  "cmp_short_name _ a b = memcmp_sign (cstr (sn a) @ [0]) (cstr (sn b) @ [0])"

lemma memcmp_sign_cstr: "memcmp_sign (cstr a @ [0]) (cstr b @ [0]) = 0 \<longleftrightarrow> cstr a = cstr b"
proof -
  have "0 \<notin> set (xs :: u8 list) \<Longrightarrow> 0 \<notin> set ys \<Longrightarrow> memcmp_sign (xs @ [0]) (ys @ [0]) = 0 \<longleftrightarrow> xs = ys" for xs ys
  proof (induction xs arbitrary: ys)
    case Nil
    then show ?case by (cases ys) (auto simp: word_gt_0)
  next
    case (Cons x xs)
    then show ?case by (cases ys) (auto simp: word_gt_0)
  qed
  moreover have "0 \<notin> set (cstr s)" for s by (auto simp: cstr_def dest: set_takeWhileD)
  ultimately show ?thesis by blast
qed

lemma take_c_strlen: "take (c_strlen s) s = cstr s"
  by (simp add: c_strlen_def cstr_def takeWhile_eq_take [symmetric])

interpretation short_names: hash_fns hash_short_name cmp_short_name
  by unfold_locales (auto simp: cmp_short_name_def hash_short_name_def lh_strhash_def memcmp_sign_cstr take_c_strlen)

section \<open>Properties\<close>

text \<open>C5: \<open>lh_insert\<close> refines the update of a map. Under a comparison that is an equivalence
  compatible with the hash, an insertion that succeeds makes every key equal to the new element find
  it and leaves every other lookup as it was, whether the element replaced another or the table was
  resized on the way; it reports the element it replaced and keeps the invariant. One that fails
  leaves the table as it was.\<close>

theorem lh_insert_refines_map:
  assumes "hash_fns hf cf" "malloc_spec ma" "lh_ok hf cf lh"
  shows "case lh_insert ma lh d hf cf of (done, old, lh') \<Rightarrow>
      (\<not> done \<longrightarrow> lh' = lh \<and> old = None) \<and>
      (done \<longrightarrow> lh_ok hf cf lh' \<and> old = lh_retrieve lh d hf cf \<and>
        (\<forall>x. lh_retrieve lh' x hf cf = (if cf (lh_comp lh) d x = 0 then Some d else lh_retrieve lh x hf cf)))"
    (is "?ins")
proof -
  obtain dn old lh' where i: "lh_insert ma lh d hf cf = (dn, old, lh')" by (metis prod_cases3)
  show ?ins
  proof (cases dn)
    case True
    with i have "lh_insert ma lh d hf cf = (True, old, lh')" by simp
    from hash_fns.retrieve_insert [OF assms this] True show ?thesis by (simp add: i)
  next
    case False
    then show ?thesis using hash_fns.insert_spec [OF assms, of d] i by auto
  qed
qed

text \<open>C6: \<open>lh_delete\<close> refines the deletion of a map: it returns the element equal to the key, which
  no lookup finds any more, and every other lookup is as before, whether the table shrank or not.\<close>

theorem lh_delete_refines_map:
  assumes "hash_fns hf cf" "malloc_spec ma" "lh_ok hf cf lh"
  shows "case lh_delete ma lh d hf cf of (old, lh') \<Rightarrow>
      lh_ok hf cf lh' \<and> old = lh_retrieve lh d hf cf \<and>
      (\<forall>x. lh_retrieve lh' x hf cf = (if cf (lh_comp lh) d x = 0 then None else lh_retrieve lh x hf cf))"
proof -
  obtain old lh' where i: "lh_delete ma lh d hf cf = (old, lh')" by (metis prod.exhaust)
  from hash_fns.retrieve_delete [OF assms i] show ?thesis by (simp add: i)
qed

text \<open>A fresh table of names and the objects of the concrete runs.\<close>

definition name_A :: asn1_object where "name_A = \<lparr>sn = [65, 0], nid = 1\<rparr>"

definition name_B :: asn1_object where "name_B = \<lparr>sn = [66, 0], nid = 2\<rparr>"

lemma name_table:
  obtains lh :: "(asn1_object, unit, unit) lhash"
  where "lh_new zero_malloc () () = Some lh" "lh_ok hash_short_name cmp_short_name lh"
    "contents lh = {#}" "num_buckets lh = 16" "callback_depth lh = 0"
proof -
  obtain lh :: "(asn1_object, unit, unit) lhash" where lh: "lh_new zero_malloc () () = Some lh"
    by (simp add: lh_new_def zero_malloc_def OPENSSL_malloc_def sizeof_LHASH_def size_add_def
        sizeof_ptr_def kMinNumBuckets_def OPENSSL_MALLOC_PREFIX_def)
  from short_names.new_ok [OF malloc_spec_zero_malloc lh] show ?thesis by (intro that [OF lh])
qed

lemma name_insert:
  assumes "lh_ok hash_short_name cmp_short_name lh"
  obtains old lh' where "lh_insert zero_malloc lh x hash_short_name cmp_short_name = (True, old, lh')"
proof -
  have "OPENSSL_malloc zero_malloc sizeof_LHASH_ITEM \<noteq> None"
    by (simp add: zero_malloc_def OPENSSL_malloc_def sizeof_LHASH_ITEM_def size_add_def OPENSSL_MALLOC_PREFIX_def)
  then show ?thesis
    using short_names.insert_spec [OF malloc_spec_zero_malloc assms, of x] by (auto intro: that)
qed

lemma name_A_neq_B: "cmp_short_name c name_A name_B \<noteq> 0" "cmp_short_name c name_A name_A = 0"
  by (simp_all add: cmp_short_name_def name_A_def name_B_def cstr_def)

lemma lh_insert_refines_map_witness:
  "\<exists>lh old lh'. lh_new zero_malloc () () = Some lh
     \<and> lh_insert zero_malloc lh name_A hash_short_name cmp_short_name = (True, old, lh')
     \<and> lh_retrieve lh' name_A hash_short_name cmp_short_name = Some name_A"
proof -
  obtain lh :: "(asn1_object, unit, unit) lhash" where lh: "lh_new zero_malloc () () = Some lh"
    "lh_ok hash_short_name cmp_short_name lh" by (rule name_table)
  obtain old lh' where i: "lh_insert zero_malloc lh name_A hash_short_name cmp_short_name = (True, old, lh')"
    by (rule name_insert [OF lh(2)])
  show ?thesis
    using lh_insert_refines_map [OF short_names.hash_fns_axioms malloc_spec_zero_malloc lh(2), of name_A]
      lh(1) i name_A_neq_B(2) by auto
qed

lemma lh_delete_refines_map_witness:
  "\<exists>lh lh1 lh2 old. lh_new zero_malloc () () = Some lh
     \<and> lh_insert zero_malloc lh name_A hash_short_name cmp_short_name = (True, old, lh1)
     \<and> lh_delete zero_malloc lh1 name_A hash_short_name cmp_short_name = (Some name_A, lh2)
     \<and> lh_retrieve lh2 name_A hash_short_name cmp_short_name = None"
proof -
  obtain lh :: "(asn1_object, unit, unit) lhash" where lh: "lh_new zero_malloc () () = Some lh"
    "lh_ok hash_short_name cmp_short_name lh" by (rule name_table)
  obtain old lh1 where i: "lh_insert zero_malloc lh name_A hash_short_name cmp_short_name = (True, old, lh1)"
    by (rule name_insert [OF lh(2)])
  note r = short_names.retrieve_insert [OF malloc_spec_zero_malloc lh(2) i]
  obtain old2 lh2 where d: "lh_delete zero_malloc lh1 name_A hash_short_name cmp_short_name = (old2, lh2)"
    by (metis prod.exhaust)
  have "old2 = Some name_A \<and> lh_retrieve lh2 name_A hash_short_name cmp_short_name = None"
    using lh_delete_refines_map [OF short_names.hash_fns_axioms malloc_spec_zero_malloc r(1), of name_A]
      d r(5) [of name_A] name_A_neq_B(2) by simp
  then show ?thesis using lh(1) i d by blast
qed


text \<open>The load of a table whose resizing is not suppressed stays below three items per bucket.\<close>

definition load_ok :: "('d, 'h, 'c) lhash \<Rightarrow> bool" where
  "load_ok lh \<longleftrightarrow> callback_depth lh = 0 \<and> size (contents lh) < 3 * num_buckets lh"

lemma rebucket_grows:
  assumes "malloc_total ma" "length (buckets lh) = num_buckets lh" "n < 2 ^ 59"
  obtains b where "lh_rebucket ma lh n =
    lh\<lparr>num_buckets := n, buckets := move_buckets n (buckets lh) (bucket_array b)\<rparr>"
proof -
  have sz: "8 * n mod size_limit = 8 * n" "8 * n + 8 < 2 ^ 63" using assms(3) by auto
  obtain b where "OPENSSL_malloc ma (8 * n) = Some b"
    by (rule OPENSSL_malloc_total [OF assms(1) sz(2)])
  then show ?thesis
    using sz(1) assms(2) by (intro that [of b]) (simp add: lh_rebucket_def Let_def sizeof_ptr_def)
qed

lemma maybe_resize_load:
  assumes "hash_fns hf cf" "malloc_total ma" "lh_ok hf cf lh" "callback_depth lh = 0"
    and "size (contents lh) \<le> 3 * num_buckets lh" "num_buckets lh < 2 ^ 58"
  shows "load_ok (lh_maybe_resize ma lh)"
proof -
  have spec: "malloc_spec ma" using assms(2) by (simp add: malloc_total_def)
  have n: "16 \<le> num_buckets lh" "length (buckets lh) = num_buckets lh"
    using assms(3) by (auto simp: lh_ok_def kMinNumBuckets_def)
  have "size (contents lh) < 2 ^ 64" using assms(5,6) by auto
  then have items: "unat (num_items lh) = size (contents lh)"
    using assms(3) by (simp add: lh_ok_def unsigned_of_nat take_bit_nat_eq_self)
  have keep: "contents (lh_maybe_resize ma lh) = contents lh"
    using hash_fns.maybe_resize_ok [OF assms(1) spec assms(3)] by simp
  consider (grow) "2 < size (contents lh) div num_buckets lh"
    | (shrink) "size (contents lh) div num_buckets lh < 1" "16 < num_buckets lh"
    | (stay) "\<not> 2 < size (contents lh) div num_buckets lh"
        "\<not> (size (contents lh) div num_buckets lh < 1 \<and> 16 < num_buckets lh)"
    by blast
  then show ?thesis
  proof cases
    case grow
    obtain b where b: "lh_rebucket ma lh (num_buckets lh * 2) =
        lh\<lparr>num_buckets := num_buckets lh * 2, buckets := move_buckets (num_buckets lh * 2) (buckets lh) (bucket_array b)\<rparr>"
      using rebucket_grows [OF assms(2) n(2), of "num_buckets lh * 2"] assms(6) by auto
    have r: "lh_maybe_resize ma lh = lh_rebucket ma lh (num_buckets lh * 2)"
      using grow items assms(4,6) n(1)
      by (simp add: lh_maybe_resize_def kMaxAverageChainLength_def Let_def)
    show ?thesis
      unfolding load_ok_def keep using assms(4,5) n(1) by (simp add: r b)
  next
    case shrink
    define m where "m = (if num_buckets lh div 2 < 16 then 16 else num_buckets lh div 2)"
    have m: "m < 2 ^ 59" "num_buckets lh \<le> 2 * m + 1" "16 \<le> m" using assms(6) n(1) by (auto simp: m_def)
    obtain b where b: "lh_rebucket ma lh m = lh\<lparr>num_buckets := m, buckets := move_buckets m (buckets lh) (bucket_array b)\<rparr>"
      using rebucket_grows [OF assms(2) n(2) m(1)] by auto
    have "lh_maybe_resize ma lh = lh_rebucket ma lh m"
      using shrink items assms(4)
      by (simp add: lh_maybe_resize_def kMaxAverageChainLength_def kMinAverageChainLength_def
          kMinNumBuckets_def Let_def m_def)
    moreover have "size (contents lh) < num_buckets lh"
      using shrink(1) n(1) by (simp add: div_eq_0_iff)
    ultimately show ?thesis
      unfolding load_ok_def keep using assms(4) m by (simp add: b)
  next
    case stay
    then have "lh_maybe_resize ma lh = lh"
      using items assms(4)
      by (auto simp: lh_maybe_resize_def kMaxAverageChainLength_def kMinAverageChainLength_def
          kMinNumBuckets_def Let_def)
    moreover have "size (contents lh) < 3 * num_buckets lh"
      using stay(1) n(1) div_less_iff_less_mult [of "num_buckets lh" "size (contents lh)" 3] by simp
    ultimately show ?thesis using assms(4) by (simp add: load_ok_def)
  qed
qed


text \<open>While memory lasts, resizing keeps the chains short: a table outside a \<open>lh_doall_arg\<close> that
  has fewer than three items per bucket has fewer than three per bucket after any insertion or
  deletion.\<close>

theorem lh_load_bounded:
  assumes "hash_fns hf cf" "malloc_total ma" "lh_ok hf cf lh" "load_ok lh" "num_buckets lh < 2 ^ 58"
  shows "load_ok (snd (snd (lh_insert ma lh d hf cf))) \<and> load_ok (snd (lh_delete ma lh d hf cf))"
proof -
  note ld = assms(4) [unfolded load_ok_def]
  obtain hs b i where g: "get_next_ptr_and_hash lh d hf cf = (hs, b, i)" by (metis prod_cases3)
  show ?thesis
  proof (cases "deref lh (b, i)")
    case (Some item)
    note w = hash_fns.walk_found(5) [OF assms(1,3) g Some]
    note s = hash_fns.set_item_data_ok [OF assms(1,3) g Some]
    note u = hash_fns.unlink_item_ok [OF assms(1,3) g Some]
    have "size (contents (set_item_data lh b i d)) = size (contents lh)"
      using arg_cong [OF w, of size] by (simp add: s(2))
    then have "load_ok (set_item_data lh b i d)" using ld by (simp add: load_ok_def set_item_data_def)
    moreover have "load_ok (lh_maybe_resize ma (unlink_item lh b i))"
      using ld arg_cong [OF u(3), of size] assms(5)
      by (intro maybe_resize_load [OF assms(1,2) u(1)]) (simp_all add: unlink_item_def)
    ultimately show ?thesis using g Some by (simp add: lh_insert_def lh_delete_def)
  next
    case None
    note l = hash_fns.link_item_ok [OF assms(1,3) g None]
    have "load_ok (lh_maybe_resize ma (link_item lh b \<lparr>item_data = d, item_hash = hs\<rparr>))"
      using ld arg_cong [OF l(2), of size] assms(5)
      by (intro maybe_resize_load [OF assms(1,2) l(1)]) (simp_all add: link_item_def)
    then show ?thesis
      using g None assms(4) by (simp add: lh_insert_def lh_delete_def split: option.splits)
  qed
qed

lemma lh_load_bounded_witness:
  "\<exists>lh. lh_new zero_malloc () () = Some lh
     \<and> load_ok (snd (snd (lh_insert zero_malloc lh name_A hash_short_name cmp_short_name)))"
proof -
  obtain lh :: "(asn1_object, unit, unit) lhash" where lh: "lh_new zero_malloc () () = Some lh"
    "lh_ok hash_short_name cmp_short_name lh" "contents lh = {#}" "num_buckets lh = 16" "callback_depth lh = 0"
    by (rule name_table)
  have "load_ok lh" using lh by (simp add: load_ok_def)
  from lh_load_bounded [OF short_names.hash_fns_axioms malloc_total_zero_malloc lh(2) this] lh(1,4)
  show ?thesis by auto
qed

text \<open>C7: A table of names built from nothing: while memory lasts all insertions succeed, and the
  lookup of a name gives the last object inserted under it, or nothing when there was none,
  however often the table was resized.\<close>

theorem lh_names_lookup:
  assumes "malloc_total ma"
  shows "\<exists>lh lh'. lh_new ma () () = Some lh
    \<and> lh_insert_all ma lh objs hash_short_name cmp_short_name = Some lh'
    \<and> (\<forall>key. lh_retrieve lh' key hash_short_name cmp_short_name = find (\<lambda>o1. cstr (sn o1) = cstr (sn key)) (rev objs))"
proof -
  have spec: "malloc_spec ma" using assms by (simp add: malloc_total_def)
  have "OPENSSL_malloc ma sizeof_LHASH \<noteq> None" "OPENSSL_malloc ma (sizeof_ptr * kMinNumBuckets) \<noteq> None"
    using OPENSSL_malloc_total [OF assms, of sizeof_LHASH] OPENSSL_malloc_total [OF assms, of "sizeof_ptr * kMinNumBuckets"]
    by (fastforce simp: sizeof_LHASH_def sizeof_ptr_def kMinNumBuckets_def)+
  then obtain lh :: "(asn1_object, unit, unit) lhash" where lh: "lh_new ma () () = Some lh"
    by (auto simp: lh_new_def)
  note n = short_names.new_ok [OF spec lh]
  obtain lh' where lh': "lh_insert_all ma lh objs hash_short_name cmp_short_name = Some lh'"
    using short_names.insert_all_total [OF assms n(1), of objs] by auto
  have none: "lh_retrieve lh key hash_short_name cmp_short_name = None" for key
    using short_names.retrieve_iff [OF n(1), of key] n(2) by (metis empty_iff option.exhaust set_mset_empty)
  have "lh_retrieve lh' key hash_short_name cmp_short_name = find (\<lambda>o1. cstr (sn o1) = cstr (sn key)) (rev objs)" for key
    using short_names.retrieve_insert_all [OF spec n(1) lh', of key] none
    by (simp add: cmp_short_name_def memcmp_sign_cstr split: option.splits)
  then show ?thesis using lh lh' by blast
qed

lemma lh_names_lookup_witness:
  "\<exists>lh lh'. lh_new zero_malloc () () = Some lh
    \<and> lh_insert_all zero_malloc lh [name_A, name_B] hash_short_name cmp_short_name = Some lh'
    \<and> lh_retrieve lh' name_A hash_short_name cmp_short_name = Some name_A"
proof -
  have "find (\<lambda>o1. cstr (sn o1) = cstr (sn name_A)) (rev [name_A, name_B]) = Some name_A"
    by (simp add: name_A_def name_B_def cstr_def)
  then show ?thesis
    using lh_names_lookup [OF malloc_total_zero_malloc, of "[name_A, name_B]"] by auto
qed

end
