(* ===== verification/Pb_Stream.thy ===== *)
theory Pb_Stream imports Prelude begin

text \<open>
  \<open>nanopb/pb_encode.c\<close> and \<open>nanopb/pb_decode.c\<close>: the streams and the wire format of protocol
  buffers, as the pod builds them (\<open>PB_FIELD_32BIT\<close>, \<open>PB_ENABLE_MALLOC\<close>, 64-bit integers).

  An operation on a stream is an \<open>op\<close>: returning false is \<open>None\<close>, and the stream it leaves is kept in
  both cases. An input stream reads from memory (\<open>Buf_read\<close>, the bytes from \<open>stream->state\<close> on) or
  through a user callback with its state. An output stream writes through \<open>ocallback\<close>, or only counts
  when that is NULL. \<open>uint_fast8_t\<close> is an 8-bit type on the platforms of the pod.
\<close>

section \<open>Output streams\<close>

record 's pb_ostream =
  ocallback :: "('s \<Rightarrow> u8 list \<Rightarrow> bool \<times> 's) option"
  ostate :: 's
  max_size :: nat
  bytes_written :: nat
  oerrmsg :: "string option"

text \<open>\<open>PB_SET_ERROR\<close> keeps the first message.\<close>

definition pb_oerror :: "string \<Rightarrow> ('s pb_ostream, 'a) op" where
  "pb_oerror msg s = (None, s\<lparr>oerrmsg := (case oerrmsg s of None \<Rightarrow> Some msg | Some m \<Rightarrow> Some m)\<rparr>)"

text \<open>The state of a buffer stream: the memory and the offset of the next byte.\<close>

definition buf_write :: "u8 list \<times> nat \<Rightarrow> u8 list \<Rightarrow> bool \<times> (u8 list \<times> nat)" where
  "buf_write st buf =
     (case st of (mem, dest) \<Rightarrow>
        (True, (take dest mem @ buf @ drop (dest + length buf) mem, dest + length buf)))"

definition pb_ostream_from_buffer :: "u8 list \<Rightarrow> nat \<Rightarrow> (u8 list \<times> nat) pb_ostream" where
  "pb_ostream_from_buffer buf bufsize =
     \<lparr>ocallback = Some buf_write, ostate = (buf, 0), max_size = bufsize, bytes_written = 0, oerrmsg = None\<rparr>"

definition PB_OSTREAM_SIZING :: "unit pb_ostream" where
  "PB_OSTREAM_SIZING =
     \<lparr>ocallback = None, ostate = (), max_size = 0, bytes_written = 0, oerrmsg = None\<rparr>"

text \<open>\<open>pb_write\<close> of \<open>count\<close> bytes at \<open>buf\<close>; the memory is not read when there is no callback.\<close>

definition pb_write :: "u8 list \<Rightarrow> nat \<Rightarrow> ('s pb_ostream, unit) op" where
  "pb_write buf count s =
     (if 0 < count then
        (case ocallback s of
           None \<Rightarrow> (Some (), s\<lparr>bytes_written := size_add (bytes_written s) count\<rparr>)
         | Some callback \<Rightarrow>
             if size_add (bytes_written s) count < bytes_written s \<or> max_size s < size_add (bytes_written s) count
             then pb_oerror ''stream full'' s
             else
               (case callback (ostate s) (take count buf) of
                  (ok, st) \<Rightarrow>
                    if ok then (Some (), s\<lparr>ostate := st, bytes_written := size_add (bytes_written s) count\<rparr>)
                    else pb_oerror ''io error'' (s\<lparr>ostate := st\<rparr>)))
      else (Some (), s\<lparr>bytes_written := size_add (bytes_written s) count\<rparr>))"

section \<open>Encoding helpers\<close>

text \<open>The loop of \<open>pb_encode_varint\<close>: seven bits per byte, the continuation bit set in all.\<close>

function varint_groups :: "u64 \<Rightarrow> u8 list" where
  "varint_groups value =
     (if value = 0 then [] else (ucast (value AND 0x7F) OR 0x80) # varint_groups (drop_bit 7 value))"
  by pat_completeness auto
termination
proof (relation "measure unat")
  show "(drop_bit 7 v, v) \<in> measure unat" if "v \<noteq> 0" for v :: u64
  proof -
    have "0 < unat v" using that by (simp add: unat_gt_0)
    then have "unat v div 2 ^ 7 < unat v" by simp
    then show ?thesis by (simp add: unat_drop_bit)
  qed
qed simp

declare varint_groups.simps [simp del]

definition varint_buffer :: "u64 \<Rightarrow> u8 list" where
  "varint_buffer value =
     (if value \<le> 0x7F then [ucast value]
      else let buffer = varint_groups value; i = length buffer in
           buffer[i - 1 := buffer ! (i - 1) AND 0x7F])"

definition pb_encode_varint :: "u64 \<Rightarrow> ('s pb_ostream, unit) op" where
  "pb_encode_varint value = pb_write (varint_buffer value) (length (varint_buffer value))"

text \<open>A signed 64-bit value is the word of its two's complement.\<close>

definition pb_encode_svarint :: "u64 \<Rightarrow> ('s pb_ostream, unit) op" where
  "pb_encode_svarint value =
     pb_encode_varint (if sint value < 0 then NOT (push_bit 1 value) else push_bit 1 value)"

definition pb_encode_fixed32 :: "u32 \<Rightarrow> ('s pb_ostream, unit) op" where
  "pb_encode_fixed32 val =
     pb_write [ucast (val AND 0xFF), ucast (drop_bit 8 val AND 0xFF), ucast (drop_bit 16 val AND 0xFF),
       ucast (drop_bit 24 val AND 0xFF)] 4"

definition pb_encode_fixed64 :: "u64 \<Rightarrow> ('s pb_ostream, unit) op" where
  "pb_encode_fixed64 val =
     pb_write [ucast (val AND 0xFF), ucast (drop_bit 8 val AND 0xFF), ucast (drop_bit 16 val AND 0xFF),
       ucast (drop_bit 24 val AND 0xFF), ucast (drop_bit 32 val AND 0xFF), ucast (drop_bit 40 val AND 0xFF),
       ucast (drop_bit 48 val AND 0xFF), ucast (drop_bit 56 val AND 0xFF)] 8"

definition PB_WT_VARINT :: u32 where "PB_WT_VARINT = 0"
definition PB_WT_64BIT :: u32 where "PB_WT_64BIT = 1"
definition PB_WT_STRING :: u32 where "PB_WT_STRING = 2"
definition PB_WT_32BIT :: u32 where "PB_WT_32BIT = 5"

lemmas wire_type_defs = PB_WT_VARINT_def PB_WT_64BIT_def PB_WT_STRING_def PB_WT_32BIT_def

definition pb_encode_tag :: "u32 \<Rightarrow> u32 \<Rightarrow> ('s pb_ostream, unit) op" where
  "pb_encode_tag wiretype field_number =
     pb_encode_varint (push_bit 3 (ucast field_number) OR ucast wiretype)"

definition pb_encode_string :: "u8 list \<Rightarrow> nat \<Rightarrow> ('s pb_ostream, unit) op" where
  "pb_encode_string buffer sz = op_bind (pb_encode_varint (of_nat sz)) (\<lambda>_. pb_write buffer sz)"

section \<open>Input streams\<close>

datatype 's pb_source =
    Buf_read "u8 list"
  | Callback "'s \<Rightarrow> nat \<Rightarrow> u8 list option \<times> 's" 's

record 's pb_istream =
  isource :: "'s pb_source"
  bytes_left :: nat
  errmsg :: "string option"

definition pb_error :: "string \<Rightarrow> ('s pb_istream, 'a) op" where
  "pb_error msg s = (None, s\<lparr>errmsg := (case errmsg s of None \<Rightarrow> Some msg | Some m \<Rightarrow> Some m)\<rparr>)"

text \<open>
  \<open>stream->callback(stream, buf, count)\<close>: the bytes it stores and its new state. What a callback has stored in \<open>buf\<close>
  before it fails is not modelled: a caller keeps its memory then.
\<close>

definition call_source :: "nat \<Rightarrow> ('s pb_istream, u8 list) op" where
  "call_source count s =
     (case isource s of
        Buf_read source \<Rightarrow> (Some (take count source), s\<lparr>isource := Buf_read (drop count source)\<rparr>)
      | Callback f st \<Rightarrow> (case f st count of (r, st') \<Rightarrow> (r, s\<lparr>isource := Callback f st'\<rparr>)))"

text \<open>\<open>pb_read\<close> into a buffer: the bytes read.\<close>

definition pb_read :: "nat \<Rightarrow> ('s pb_istream, u8 list) op" where
  "pb_read count s =
     (if count = 0 then (Some [], s)
      else if bytes_left s < count then pb_error ''end-of-stream'' s
      else
        (case call_source count s of
           (None, s') \<Rightarrow> pb_error ''io error'' s'
         | (Some bs, s') \<Rightarrow> (Some bs, s'\<lparr>bytes_left := bytes_left s' - count\<rparr>)))"

text \<open>\<open>pb_read\<close> with a NULL buffer: a callback is asked for the bytes in pieces of 16.\<close>

function pb_skip :: "nat \<Rightarrow> 's pb_istream \<Rightarrow> unit option \<times> 's pb_istream" where
  "pb_skip count s =
     (case isource s of
        Buf_read _ \<Rightarrow> op_bind (pb_read count) (\<lambda>_. op_return ()) s
      | Callback _ _ \<Rightarrow>
          if 16 < count then
            (case pb_read 16 s of
               (None, s') \<Rightarrow> (None, s')
             | (Some _, s') \<Rightarrow> pb_skip (count - 16) s')
          else op_bind (pb_read count) (\<lambda>_. op_return ()) s)"
  by pat_completeness auto
termination by (relation "measure fst") auto

declare pb_skip.simps [simp del]

definition pb_readbyte :: "('s pb_istream, u8) op" where
  "pb_readbyte s =
     (if bytes_left s = 0 then pb_error ''end-of-stream'' s
      else
        (case call_source 1 s of
           (None, s') \<Rightarrow> pb_error ''io error'' s'
         | (Some bs, s') \<Rightarrow> (Some (hd bs), s'\<lparr>bytes_left := bytes_left s' - 1\<rparr>)))"

definition pb_istream_from_buffer :: "u8 list \<Rightarrow> nat \<Rightarrow> 's pb_istream" where
  "pb_istream_from_buffer buf bufsize = \<lparr>isource = Buf_read buf, bytes_left = bufsize, errmsg = None\<rparr>"

lemma bytes_left_pb_error [simp]: "pb_error msg s = (r, s') \<Longrightarrow> bytes_left s' = bytes_left s"
  by (auto simp: pb_error_def)

lemma call_source_left: "call_source n s = (r, s') \<Longrightarrow> bytes_left s' = bytes_left s"
  by (auto simp: call_source_def split: pb_source.splits prod.splits)

lemma pb_error_fails [simp]: "pb_error msg s \<noteq> (Some r, s')"
  by (simp add: pb_error_def)

lemma pb_readbyte_left:
  assumes "pb_readbyte s = (Some b, s')"
  shows "bytes_left s' < bytes_left s"
proof -
  obtain cs t where c: "call_source 1 s = (cs, t)" by (rule prod.exhaust)
  show ?thesis
  proof (cases "bytes_left s = 0")
    case True
    then show ?thesis using assms by (simp add: pb_readbyte_def)
  next
    case False
    then obtain bs where "cs = Some bs" "s' = t\<lparr>bytes_left := bytes_left t - 1\<rparr>"
      using assms c unfolding pb_readbyte_def by (cases cs) simp_all
    then show ?thesis using call_source_left [OF c] False by simp
  qed
qed

lemma pb_read_left:
  assumes "pb_read n s = (Some bs, s')"
  shows "bytes_left s' = bytes_left s - n" "n \<le> bytes_left s"
proof -
  obtain cs t where c: "call_source n s = (cs, t)" by (rule prod.exhaust)
  have "bytes_left s' = bytes_left s - n \<and> n \<le> bytes_left s"
  proof (cases "n = 0 \<or> bytes_left s < n")
    case True
    then show ?thesis using assms by (auto simp: pb_read_def split: if_splits)
  next
    case False
    then obtain bs where "cs = Some bs" "s' = t\<lparr>bytes_left := bytes_left t - n\<rparr>"
      using assms c unfolding pb_read_def by (cases cs) simp_all
    then show ?thesis using call_source_left [OF c] False by simp
  qed
  then show "bytes_left s' = bytes_left s - n" "n \<le> bytes_left s" by auto
qed

lemma pb_read_1_left: "pb_read (Suc 0) s = (Some bs, s') \<Longrightarrow> bytes_left s' < bytes_left s"
  using pb_read_left [of "Suc 0" s bs s'] by simp

section \<open>Decoding helpers\<close>

text \<open>The loop of \<open>pb_decode_varint32_eof\<close> after a first byte with the continuation bit.\<close>

function varint32_loop :: "u8 \<Rightarrow> u32 \<Rightarrow> 's pb_istream \<Rightarrow> u32 option \<times> 's pb_istream" where
  "varint32_loop bitpos result s =
     (case pb_readbyte s of
        (None, s) \<Rightarrow> (None, s)
      | (Some byt, s) \<Rightarrow>
          let sign_extension = (if bitpos < 63 then 0xFF else 0x01) in
          if 32 \<le> bitpos \<and> byt AND 0x7F \<noteq> 0 \<and> (drop_bit 31 result = 0 \<or> byt \<noteq> sign_extension)
          then pb_error ''varint overflow'' s
          else
            let result = (if 32 \<le> bitpos then result
                          else result OR push_bit (unat bitpos) (ucast (byt AND 0x7F)));
                bitpos = bitpos + 7 in
            if byt AND 0x80 \<noteq> 0 then varint32_loop bitpos result s
            else if bitpos = 35 \<and> byt AND 0x70 \<noteq> 0 then pb_error ''varint overflow'' s
            else (Some result, s))"
  by pat_completeness auto
termination by (relation "measure (\<lambda>(_, _, s). bytes_left s)") (auto dest: pb_readbyte_left [OF sym])

declare varint32_loop.simps [simp del]

text \<open>The result, \<open>*eof\<close> as it was given or set, and the stream.\<close>

definition pb_decode_varint32_eof :: "bool \<Rightarrow> 's pb_istream \<Rightarrow> u32 option \<times> bool \<times> 's pb_istream" where
  "pb_decode_varint32_eof eof s =
     (case pb_readbyte s of
        (None, s) \<Rightarrow> (None, if bytes_left s = 0 then True else eof, s)
      | (Some byt, s) \<Rightarrow>
          if byt AND 0x80 = 0 then (Some (ucast byt), eof, s)
          else (case varint32_loop 7 (ucast (byt AND 0x7F)) s of (r, s) \<Rightarrow> (r, eof, s)))"

definition pb_decode_varint32 :: "('s pb_istream, u32) op" where
  "pb_decode_varint32 s = (case pb_decode_varint32_eof False s of (r, _, s) \<Rightarrow> (r, s))"

function varint_loop :: "u8 \<Rightarrow> u64 \<Rightarrow> 's pb_istream \<Rightarrow> u64 option \<times> 's pb_istream" where
  "varint_loop bitpos result s =
     (if 64 \<le> bitpos then pb_error ''varint overflow'' s
      else
        (case pb_readbyte s of
           (None, s) \<Rightarrow> (None, s)
         | (Some byt, s) \<Rightarrow>
             let result = result OR push_bit (unat bitpos) (ucast (byt AND 0x7F));
                 bitpos = bitpos + 7 in
             if byt AND 0x80 \<noteq> 0 then varint_loop bitpos result s else (Some result, s)))"
  by pat_completeness auto
termination by (relation "measure (\<lambda>(_, _, s). bytes_left s)") (auto dest: pb_readbyte_left [OF sym])

declare varint_loop.simps [simp del]

definition pb_decode_varint :: "('s pb_istream, u64) op" where
  "pb_decode_varint = varint_loop 0 0"

function pb_skip_varint :: "'s pb_istream \<Rightarrow> unit option \<times> 's pb_istream" where
  "pb_skip_varint s =
     (case pb_read 1 s of
        (None, s) \<Rightarrow> (None, s)
      | (Some bs, s) \<Rightarrow> if hd bs AND 0x80 \<noteq> 0 then pb_skip_varint s else (Some (), s))"
  by pat_completeness auto
termination by (relation "measure bytes_left") (auto dest: pb_read_1_left [OF sym])

declare pb_skip_varint.simps [simp del]

definition pb_skip_string :: "('s pb_istream, unit) op" where
  "pb_skip_string = op_bind pb_decode_varint32 (\<lambda>length. pb_skip (unat length))"

text \<open>The result with the tag and the wire type, \<open>*eof\<close> and the stream.\<close>

definition pb_decode_tag :: "'s pb_istream \<Rightarrow> (u32 \<times> u32) option \<times> bool \<times> 's pb_istream" where
  "pb_decode_tag s =
     (case pb_decode_varint32_eof False s of
        (None, eof, s) \<Rightarrow> (None, eof, s)
      | (Some temp, eof, s) \<Rightarrow>
          if temp = 0 then (None, True, s) else (Some (temp AND 7, drop_bit 3 temp), eof, s))"

definition pb_skip_field :: "u32 \<Rightarrow> ('s pb_istream, unit) op" where
  "pb_skip_field wire_type =
     (if wire_type = PB_WT_VARINT then pb_skip_varint
      else if wire_type = PB_WT_64BIT then pb_skip 8
      else if wire_type = PB_WT_STRING then pb_skip_string
      else if wire_type = PB_WT_32BIT then pb_skip 4
      else pb_error ''invalid wire_type'')"

text \<open>\<open>read_raw_value\<close>: the bytes stored in the buffer of \<open>room\<close> bytes.\<close>

fun raw_varint :: "nat \<Rightarrow> u8 list \<Rightarrow> ('s pb_istream, u8 list) op" where
  "raw_varint 0 acc s = (None, s)"
| "raw_varint (Suc room) acc s =
     (case pb_read 1 s of
        (None, s) \<Rightarrow> (None, s)
      | (Some bs, s) \<Rightarrow> if hd bs AND 0x80 \<noteq> 0 then raw_varint room (acc @ bs) s else (Some (acc @ bs), s))"

definition read_raw_value :: "u32 \<Rightarrow> nat \<Rightarrow> ('s pb_istream, u8 list) op" where
  "read_raw_value wire_type room =
     (if wire_type = PB_WT_VARINT then raw_varint room []
      else if wire_type = PB_WT_64BIT then pb_read 8
      else if wire_type = PB_WT_32BIT then pb_read 4
      else pb_error ''invalid wire_type'')"

text \<open>The substream, and the parent without the substream's bytes.\<close>

definition pb_make_string_substream :: "('s pb_istream, 's pb_istream) op" where
  "pb_make_string_substream =
     op_bind pb_decode_varint32 (\<lambda>sz s.
       if bytes_left s < unat sz then pb_error ''parent stream too short'' s
       else (Some (s\<lparr>bytes_left := unat sz\<rparr>), s\<lparr>bytes_left := bytes_left s - unat sz\<rparr>))"

definition pb_close_string_substream :: "'s pb_istream \<Rightarrow> ('s pb_istream, unit) op" where
  "pb_close_string_substream substream s =
     (case (if bytes_left substream = 0 then (Some (), substream)
            else pb_skip (bytes_left substream) substream) of
        (None, _) \<Rightarrow> (None, s)
      | (Some _, sub) \<Rightarrow> (Some (), s\<lparr>isource := isource sub, errmsg := errmsg sub\<rparr>))"

definition pb_decode_svarint :: "('s pb_istream, u64) op" where
  "pb_decode_svarint =
     op_bind pb_decode_varint (\<lambda>value.
       op_return (if value AND 1 \<noteq> 0 then NOT (drop_bit 1 value) else drop_bit 1 value))"

definition pb_decode_fixed32 :: "('s pb_istream, u32) op" where
  "pb_decode_fixed32 =
     op_bind (pb_read 4) (\<lambda>bytes.
       op_return (push_bit 0 (ucast (bytes ! 0)) OR push_bit 8 (ucast (bytes ! 1)) OR
         push_bit 16 (ucast (bytes ! 2)) OR push_bit 24 (ucast (bytes ! 3))))"

definition pb_decode_fixed64 :: "('s pb_istream, u64) op" where
  "pb_decode_fixed64 =
     op_bind (pb_read 8) (\<lambda>bytes.
       op_return (push_bit 0 (ucast (bytes ! 0)) OR push_bit 8 (ucast (bytes ! 1)) OR
         push_bit 16 (ucast (bytes ! 2)) OR push_bit 24 (ucast (bytes ! 3)) OR
         push_bit 32 (ucast (bytes ! 4)) OR push_bit 40 (ucast (bytes ! 5)) OR
         push_bit 48 (ucast (bytes ! 6)) OR push_bit 56 (ucast (bytes ! 7))))"

end
