(* ===== verification/Pb_Wire.thy ===== *)
theory Pb_Wire imports Pb_Stream begin

text \<open>
  The wire format of protocol buffers as byte strings, and that the encoders and decoders of nanopb
  write and read it: what an encoder emits into a buffer, what a decoder parses from one, and that
  no reader leaves the buffer it was given.
\<close>

section \<open>Writing to a buffer\<close>

text \<open>
  A buffer stream: the offset is the number of bytes written and the limit is within the memory.
\<close>

definition buffer_ok :: "(u8 list \<times> nat) pb_ostream \<Rightarrow> bool" where
  "buffer_ok s \<longleftrightarrow> ocallback s = Some buf_write \<and> snd (ostate s) = bytes_written s \<and>
     bytes_written s \<le> max_size s \<and> max_size s \<le> length (fst (ostate s)) \<and>
     length (fst (ostate s)) < 2 ^ 63"

definition obytes :: "(u8 list \<times> nat) pb_ostream \<Rightarrow> u8 list" where
  "obytes s = take (bytes_written s) (fst (ostate s))"

text \<open>
  \<open>extends s s' bs\<close>: the stream wrote \<open>bs\<close> and nothing else changed in the memory.
\<close>

definition extends :: "(u8 list \<times> nat) pb_ostream \<Rightarrow> (u8 list \<times> nat) pb_ostream \<Rightarrow> u8 list \<Rightarrow> bool" where
  "extends s s' bs \<longleftrightarrow> buffer_ok s' \<and> obytes s' = obytes s @ bs \<and> max_size s' = max_size s \<and>
     drop (bytes_written s') (fst (ostate s')) = drop (bytes_written s') (fst (ostate s))"

text \<open>
  An encoder that emits \<open>bs\<close>: with room it succeeds and writes exactly that; without, it fails,
  having written a part.
\<close>

definition emits :: "((u8 list \<times> nat) pb_ostream, unit) op \<Rightarrow> u8 list \<Rightarrow> bool" where
  "emits m bs \<longleftrightarrow> (\<forall>s. buffer_ok s \<longrightarrow>
     (if bytes_written s + length bs \<le> max_size s then \<exists>s'. m s = (Some (), s') \<and> extends s s' bs
      else \<exists>s' k. m s = (None, s') \<and> extends s s' (take k bs)))"

lemma length_obytes: "buffer_ok s \<Longrightarrow> length (obytes s) = bytes_written s"
  by (simp add: buffer_ok_def obytes_def)

lemma extends_written: "buffer_ok s \<Longrightarrow> extends s s' bs \<Longrightarrow> bytes_written s' = bytes_written s + length bs"
  using length_obytes [of s] length_obytes [of s'] by (simp add: extends_def)

lemma extends_refl: "buffer_ok s \<Longrightarrow> extends s (s\<lparr>oerrmsg := e\<rparr>) []"
  by (simp add: extends_def buffer_ok_def obytes_def)

lemma extends_trans:
  assumes "buffer_ok s" "extends s t bs" "extends t u cs"
  shows "extends s u (bs @ cs)"
proof -
  have t: "buffer_ok t" using assms(2) by (simp add: extends_def)
  note w = extends_written [OF assms(1,2)] extends_written [OF t assms(3)]
  have "drop (bytes_written u) (fst (ostate t)) = drop (length cs) (drop (bytes_written t) (fst (ostate t)))"
    using w by (simp add: add.commute)
  also have "\<dots> = drop (bytes_written u) (fst (ostate s))"
    using assms(2) w by (simp add: extends_def add.commute)
  finally show ?thesis using assms(2,3) by (simp add: extends_def)
qed

lemma emits_pb_write:
  assumes n: "n \<le> length bs" "n < size_limit"
  shows "emits (pb_write bs n) (take n bs)"
proof (unfold emits_def, intro allI impI)
  fix s assume s: "buffer_ok s"
  obtain mem where st: "ostate s = (mem, bytes_written s)"
    using s by (cases "ostate s") (simp add: buffer_ok_def)
  have b: "bytes_written s \<le> max_size s" "max_size s \<le> length mem" "length mem < 2 ^ 63"
      "ocallback s = Some buf_write"
    using s st by (auto simp: buffer_ok_def)
  show "if bytes_written s + length (take n bs) \<le> max_size s
      then \<exists>s'. pb_write bs n s = (Some (), s') \<and> extends s s' (take n bs)
      else \<exists>s' k. pb_write bs n s = (None, s') \<and> extends s s' (take k (take n bs))"
  proof (cases "bytes_written s + n \<le> max_size s")
    case True
    then have add: "size_add (bytes_written s) n = bytes_written s + n" using b by simp
    let ?mem = "take (bytes_written s) mem @ take n bs @ drop (bytes_written s + n) mem"
    let ?s = "s\<lparr>ostate := (?mem, bytes_written s + n), bytes_written := bytes_written s + n\<rparr>"
    have len: "length ?mem = length mem" using n b True by simp
    have "pb_write bs n s = (Some (), ?s)"
      using True b st n add by (auto simp: pb_write_def buf_write_def)
    moreover have "extends s ?s (take n bs)"
      unfolding extends_def buffer_ok_def obytes_def using b n st len True by simp
    ultimately show ?thesis using True n by auto
  next
    case False
    have "\<not> size_add (bytes_written s) n \<le> max_size s \<or> size_add (bytes_written s) n < bytes_written s"
      using False b size_add_overflow_iff [of "bytes_written s" n, OF _ n(2)]
      by (cases "bytes_written s + n < size_limit") (auto simp: size_add_def)
    then have "pb_write bs n s = pb_oerror ''stream full'' s"
      using False b by (auto simp: pb_write_def)
    then show ?thesis
      using False n extends_refl [OF s] by (auto simp: pb_oerror_def intro: exI [of _ 0])
  qed
qed

lemma emits_whole: "length bs = n \<Longrightarrow> n < size_limit \<Longrightarrow> emits (pb_write bs n) bs"
  using emits_pb_write [of n bs] by simp

lemma emits_bind:
  assumes "emits m bs" "emits k cs"
  shows "emits (op_bind m (\<lambda>_. k)) (bs @ cs)"
proof (unfold emits_def, intro allI impI)
  fix s assume s: "buffer_ok s"
  show "if bytes_written s + length (bs @ cs) \<le> max_size s
      then \<exists>s'. op_bind m (\<lambda>_. k) s = (Some (), s') \<and> extends s s' (bs @ cs)
      else \<exists>s' j. op_bind m (\<lambda>_. k) s = (None, s') \<and> extends s s' (take j (bs @ cs))"
  proof (cases "bytes_written s + length bs \<le> max_size s")
    case True
    then obtain t where t: "m s = (Some (), t)" "extends s t bs"
      using assms(1) [unfolded emits_def, rule_format, OF s] by auto
    then have okt: "buffer_ok t" "max_size t = max_size s" by (auto simp: extends_def)
    note w = extends_written [OF s t(2)]
    from assms(2) okt(1) have "if bytes_written t + length cs \<le> max_size t
        then \<exists>s'. k t = (Some (), s') \<and> extends t s' cs
        else \<exists>s' j. k t = (None, s') \<and> extends t s' (take j cs)"
      unfolding emits_def by blast
    then show ?thesis
      using t okt(2) w extends_trans [OF s t(2)]
      apply (auto simp: op_bind_def split: if_splits)
      subgoal for u j by (rule exI [of _ "length bs + j"]) simp
      done
  next
    case False
    then obtain s' j where "m s = (None, s')" "extends s s' (take j bs)"
      using assms(1) [unfolded emits_def, rule_format, OF s] by auto
    then show ?thesis
      using False by (auto simp: op_bind_def min_def intro!: exI [of _ "min j (length bs)"])
  qed
qed


lemma emits_ext: "emits m bs \<Longrightarrow> m = k \<Longrightarrow> bs = cs \<Longrightarrow> emits k cs"
  by simp

section \<open>Reading from a buffer\<close>

text \<open>The stream over a buffer of which \<open>n\<close> bytes are readable.\<close>

definition input :: "u8 list \<Rightarrow> nat \<Rightarrow> string option \<Rightarrow> 's pb_istream" where
  "input xs n e = \<lparr>isource = Buf_read xs, bytes_left = n, errmsg = e\<rparr>"

text \<open>A decoder that parses \<open>bs\<close> into \<open>v\<close>: from every buffer that starts with \<open>bs\<close>, and the rest is left.\<close>

definition parses :: "('s pb_istream, 'a) op \<Rightarrow> u8 list \<Rightarrow> 'a \<Rightarrow> bool" where
  "parses m bs v \<longleftrightarrow> (\<forall>rest n e. length bs \<le> n \<longrightarrow> n \<le> length bs + length rest \<longrightarrow>
     m (input (bs @ rest) n e) = (Some v, input rest (n - length bs) e))"

lemma parses_bind: "parses m bs v \<Longrightarrow> parses (k v) cs w \<Longrightarrow> parses (op_bind m k) (bs @ cs) w"
  by (simp add: parses_def op_bind_def)

lemma parses_return: "parses (op_return v) [] v"
  by (simp add: parses_def op_return_def)

lemma parses_map: "parses m bs v \<Longrightarrow> parses (op_bind m (\<lambda>x. op_return (f x))) bs (f v)"
  using parses_bind [OF _ parses_return, of m bs v "\<lambda>x. op_return (f x)"] by (simp add: parses_def op_bind_def op_return_def)

lemma parses_pb_read: "length bs = n \<Longrightarrow> parses (pb_read n) bs bs"
  by (auto simp: parses_def pb_read_def input_def call_source_def)

lemma pb_skip_input: "pb_skip n (input xs l e) = op_bind (pb_read n) (\<lambda>_. op_return ()) (input xs l e)"
  by (subst pb_skip.simps) (simp add: input_def)

lemma parses_pb_skip: "length bs = n \<Longrightarrow> parses (pb_skip n) bs ()"
  using parses_map [OF parses_pb_read, of bs n "\<lambda>_. ()"] by (simp add: parses_def pb_skip_input)

lemma pb_readbyte_input: "0 < n \<Longrightarrow> pb_readbyte (input (b # xs) n e) = (Some b, input xs (n - 1) e)"
  by (simp add: pb_readbyte_def input_def call_source_def)

text \<open>
  A reader stays in its buffer: with at most as many bytes readable as the buffer holds, it only
  ever moves forward over readable bytes, whether it succeeds or fails.
\<close>

definition moves :: "'s pb_istream \<Rightarrow> 's pb_istream \<Rightarrow> bool" where
  "moves s s' \<longleftrightarrow> (\<forall>xs n e. s = input xs n e \<longrightarrow> n \<le> length xs \<longrightarrow>
     (\<exists>k e'. k \<le> n \<and> s' = input (drop k xs) (n - k) e'))"

lemma moves_refl: "moves s s"
  unfolding moves_def by (auto intro!: exI [of _ 0])

lemma moves_trans: "moves s t \<Longrightarrow> moves t u \<Longrightarrow> moves s u"
proof (unfold moves_def, intro allI impI)
  fix xs n e
  assume a: "\<forall>xs n e. s = input xs n e \<longrightarrow> n \<le> length xs \<longrightarrow> (\<exists>k e'. k \<le> n \<and> t = input (drop k xs) (n - k) e')"
    and b: "\<forall>xs n e. t = input xs n e \<longrightarrow> n \<le> length xs \<longrightarrow> (\<exists>k e'. k \<le> n \<and> u = input (drop k xs) (n - k) e')"
    and s: "s = input xs n e" "n \<le> length xs"
  from a s obtain k f where k: "k \<le> n" "t = input (drop k xs) (n - k) f" by blast
  moreover have "n - k \<le> length (drop k xs)" using s(2) k by simp
  ultimately obtain j g where j: "j \<le> n - k" "u = input (drop j (drop k xs)) (n - k - j) g"
    using b by blast
  show "\<exists>k e'. k \<le> n \<and> u = input (drop k xs) (n - k) e'"
    using j k by (intro exI [of _ "k + j"] exI [of _ g]) (simp add: add.commute)
qed

definition in_bounds :: "('s pb_istream, 'a) op \<Rightarrow> bool" where
  "in_bounds m \<longleftrightarrow> (\<forall>s. moves s (snd (m s)))"

lemma in_bounds_bind: "in_bounds m \<Longrightarrow> (\<And>v. in_bounds (k v)) \<Longrightarrow> in_bounds (op_bind m k)"
  unfolding in_bounds_def op_bind_def
  by (auto split: prod.splits option.splits) (metis moves_trans snd_conv)+

lemma in_bounds_return [simp]: "in_bounds (op_return v)"
  by (simp add: in_bounds_def op_return_def moves_refl)

lemma in_bounds_error [simp]: "in_bounds (pb_error msg)"
  by (auto simp: in_bounds_def moves_def pb_error_def input_def intro!: exI [of _ 0])

lemma pb_error_input: "\<exists>e'. pb_error msg (input xs n e) = (None, input xs n e')"
  by (simp add: pb_error_def input_def)

lemma in_boundsI:
  assumes "\<And>xs n e. n \<le> length xs \<Longrightarrow> \<exists>k e' r. k \<le> n \<and> m (input xs n e) = (r, input (drop k xs) (n - k) e')"
  shows "in_bounds m"
  unfolding in_bounds_def moves_def by (metis assms snd_conv)

lemma in_bounds_pb_read [simp]: "in_bounds (pb_read n)"
proof (rule in_boundsI)
  fix xs :: "u8 list" and l and e assume l: "l \<le> length xs"
  consider "n = 0" | "0 < n" "l < n" | "0 < n" "n \<le> l" by linarith
  then show "\<exists>k e' r. k \<le> l \<and> pb_read n (input xs l e :: 'a pb_istream) = (r, input (drop k xs) (l - k) e')"
  proof cases
    case 1
    then show ?thesis by (intro exI [of _ 0] exI) (simp add: pb_read_def)
  next
    case 2
    then have "pb_read n (input xs l e :: 'a pb_istream) = pb_error ''end-of-stream'' (input xs l e)"
      by (simp add: pb_read_def input_def)
    then show ?thesis using pb_error_input [of "''end-of-stream''" xs l e] by (intro exI [of _ 0]) auto
  next
    case 3
    then show ?thesis by (intro exI [of _ n] exI) (auto simp: pb_read_def input_def call_source_def)
  qed
qed

lemma in_bounds_pb_readbyte [simp]: "in_bounds pb_readbyte"
proof (rule in_boundsI)
  fix xs :: "u8 list" and l and e assume l: "l \<le> length xs"
  show "\<exists>k e' r. k \<le> l \<and> pb_readbyte (input xs l e :: 'a pb_istream) = (r, input (drop k xs) (l - k) e')"
  proof (cases "l = 0")
    case True
    then have "pb_readbyte (input xs l e :: 'a pb_istream) = pb_error ''end-of-stream'' (input xs l e)"
      by (simp add: pb_readbyte_def input_def)
    then show ?thesis using pb_error_input [of "''end-of-stream''" xs l e] by (intro exI [of _ 0]) auto
  next
    case False
    then show ?thesis
      using l pb_readbyte_input [of l "hd xs" "tl xs" e] by (intro exI [of _ 1]) (cases xs; auto)
  qed
qed


section \<open>Varints\<close>

text \<open>The canonical encoding of a number, the byte strings of the format, and what they denote.\<close>

fun varint_bytes :: "nat \<Rightarrow> u8 list" where
  "varint_bytes n = (if n < 128 then [byte n] else byte (n mod 128 + 128) # varint_bytes (n div 128))"

declare varint_bytes.simps [simp del]

fun is_varint :: "u8 list \<Rightarrow> bool" where
  "is_varint [] = False"
| "is_varint (b # bs) = (if bs = [] then unat b < 128 else 128 \<le> unat b \<and> is_varint bs)"

fun varint_val :: "u8 list \<Rightarrow> nat" where
  "varint_val [] = 0"
| "varint_val (b # bs) = unat b mod 128 + 128 * varint_val bs"

lemma varint_bytes_not_Nil [simp]: "varint_bytes n \<noteq> []"
  by (subst varint_bytes.simps) simp

lemma unat_continued: "unat (byte (n mod 128 + 128)) = n mod 128 + 128"
proof -
  have "n mod 128 + 128 < 256" by simp
  then show ?thesis by (simp only: unat_byte mod_less)
qed

lemma is_varint_bytes [simp]: "is_varint (varint_bytes n)"
proof (induction n rule: varint_bytes.induct)
  case (1 n)
  show ?case
  proof (cases "n < 128")
    case True
    then show ?thesis by (subst varint_bytes.simps) simp
  next
    case False
    then show ?thesis using 1 [OF False]
      by (subst varint_bytes.simps) (simp add: unat_continued del: unat_byte)
  qed
qed

lemma varint_val_bytes [simp]: "varint_val (varint_bytes n) = n"
proof (induction n rule: varint_bytes.induct)
  case (1 n)
  show ?case
  proof (cases "n < 128")
    case True
    then show ?thesis by (subst varint_bytes.simps) simp
  next
    case False
    then show ?thesis using 1 [OF False]
      by (subst varint_bytes.simps) (simp add: unat_continued del: unat_byte)
  qed
qed

lemma length_varint_bytes: "n < 128 ^ Suc k \<Longrightarrow> length (varint_bytes n) \<le> Suc k"
proof (induction k arbitrary: n)
  case 0
  then show ?case by (subst varint_bytes.simps) simp
next
  case (Suc k)
  show ?case
  proof (cases "n < 128")
    case False
    have "n div 128 < 128 ^ Suc k" using Suc.prems by (simp add: div_less_iff_less_mult mult.commute)
    then show ?thesis using Suc.IH [of "n div 128"] False by (subst varint_bytes.simps) simp
  qed (subst varint_bytes.simps, simp)
qed

lemma length_varint_u64: "length (varint_bytes (unat (v :: u64))) \<le> 10"
  using length_varint_bytes [of "unat v" 9] unat_u64_less [of v] by simp

lemma unat_or_80: "unat b < 128 \<Longrightarrow> unat ((b :: u8) OR 0x80) = unat b + 128"
  using unat_shift_or [of b 7 "1 :: u8"] by (simp add: or.commute)

lemma unat_u64_7f: "unat (ucast ((v :: u64) AND 0x7F) :: u8) = unat v mod 128"
proof -
  have "unat (v AND 0x7F) = unat v mod 128"
    using unat_and_mask [of v 7] by (simp add: mask_eq_exp_minus_1)
  then show ?thesis by (simp add: unat_ucast_mod)
qed

lemma varint_groups_last:
  "v \<noteq> 0 \<Longrightarrow> varint_groups v \<noteq> [] \<and>
     (varint_groups v)[length (varint_groups v) - 1 := last (varint_groups v) AND 0x7F] = varint_bytes (unat v)"
proof (induction v rule: varint_groups.induct)
  case (1 v)
  let ?b = "ucast (v AND 0x7F) OR 0x80 :: u8"
  have b: "unat ?b = unat v mod 128 + 128"
    using unat_u64_7f [of v] by (subst unat_or_80) simp_all
  have next_val: "unat (drop_bit 7 v) = unat v div 128" by (simp add: unat_drop_bit)
  have groups: "varint_groups v = ?b # varint_groups (drop_bit 7 v)"
    using 1(2) by (subst varint_groups.simps) simp
  show ?case
  proof (cases "drop_bit 7 v = 0")
    case True
    then have small: "unat v < 128" using next_val by (simp add: div_eq_0_iff)
    have "varint_groups v = [?b]" using groups True by (simp add: varint_groups.simps [of 0])
    moreover have "?b AND 0x7F = byte (unat v)"
      using small b by (simp add: eq_byte_iff)
    ultimately show ?thesis using small by (simp add: varint_bytes.simps [of "unat v"])
  next
    case False
    then have "\<not> unat v < 128" using next_val by (metis div_less unsigned_0 unsigned_word_eqI)
    moreover have "?b = byte (unat v mod 128 + 128)" using b by (simp add: eq_byte_iff)
    moreover obtain g gs where "varint_groups (drop_bit 7 v) = g # gs"
      using 1(1) [OF 1(2) False] by (cases "varint_groups (drop_bit 7 v)") auto
    ultimately show ?thesis
      using 1(1) [OF 1(2) False] next_val by (simp add: groups varint_bytes.simps [of "unat v"])
  qed
qed


lemma varint_buffer_eq: "varint_buffer v = varint_bytes (unat v)"
proof (cases "v \<le> 0x7F")
  case True
  then have "unat v < 128" by (simp add: word_le_nat_alt)
  then show ?thesis
    using True by (simp add: varint_buffer_def varint_bytes.simps [of "unat v"] eq_byte_iff unat_ucast_mod)
next
  case False
  then have "v \<noteq> 0" by auto
  from varint_groups_last [OF this] have ne: "varint_groups v \<noteq> []"
    and eq: "(varint_groups v)[length (varint_groups v) - 1 := last (varint_groups v) AND 0x7F] = varint_bytes (unat v)"
    by blast+
  show ?thesis
    using False eq [unfolded last_conv_nth [OF ne]] by (simp add: varint_buffer_def Let_def)
qed

lemma or_push_bit:
  assumes "r < 2 ^ k"
  shows "(of_nat r :: 'a::len word) OR push_bit k w = of_nat (r + 2 ^ k * unat w)"
proof -
  have "\<not> bit (of_nat r :: 'a word) n" if "k \<le> n" for n
  proof -
    have "r < 2 ^ n" using assms that by (meson less_le_trans one_le_numeral power_increasing)
    then have "\<not> bit r n" by (simp add: bit_iff_odd)
    then show ?thesis by (simp add: bit_of_nat_iff)
  qed
  then have "of_nat r AND push_bit k w = (0 :: 'a word)"
    by (intro bit_word_eqI) (auto simp: bit_and_iff bit_push_bit_iff)
  then have "(of_nat r :: 'a word) OR push_bit k w = of_nat r + push_bit k w"
    by (rule disjunctive_add_eq_or [symmetric])
  then show ?thesis by (simp add: push_bit_eq_mult mult.commute)
qed

lemma unat_bitpos: "i \<le> 10 \<Longrightarrow> unat (of_nat (7 * i) :: u8) = 7 * i"
  by (subst unsigned_of_nat) (simp add: take_bit_nat_eq_self)

lemma bitpos_end: "i \<le> 10 \<Longrightarrow> (64 \<le> (of_nat (7 * i) :: u8)) = (i = 10)"
  by (simp only: word_le_nat_alt unat_bitpos) auto

lemma varint_step:
  assumes "r < 128 ^ i"
  shows "(of_nat r :: u64) OR push_bit (7 * i) (ucast ((b :: u8) AND 0x7F)) = of_nat (r + 128 ^ i * (unat b mod 128))"
    and "r + 128 ^ i * (unat b mod 128) < 128 ^ Suc i"
proof -
  have p: "(128 :: nat) ^ i = 2 ^ (7 * i)" by (simp add: power_mult)
  have "unat (ucast (b AND 0x7F) :: u64) = unat b mod 128" by (simp add: unat_ucast_up)
  then show "(of_nat r :: u64) OR push_bit (7 * i) (ucast (b AND 0x7F)) = of_nat (r + 128 ^ i * (unat b mod 128))"
    using or_push_bit [of r "7 * i" "ucast (b AND 0x7F) :: u64"] assms by (simp only: p)
  have "128 ^ i * (unat b mod 128) \<le> 128 ^ i * 127" by (intro mult_left_mono) simp_all
  then have "r + 128 ^ i * (unat b mod 128) < 128 ^ i + 128 ^ i * 127" using assms by linarith
  then show "r + 128 ^ i * (unat b mod 128) < 128 ^ Suc i" by simp
qed

lemma varint_loop_iff:
  "i \<le> 10 \<Longrightarrow> r < 128 ^ i \<Longrightarrow> n \<le> length xs \<Longrightarrow>
   varint_loop (of_nat (7 * i)) (of_nat r) (input xs n e) = (Some v, s') \<longleftrightarrow>
     (\<exists>bs rest. xs = bs @ rest \<and> is_varint bs \<and> length bs \<le> n \<and> length bs + i \<le> 10 \<and>
        v = of_nat (r + 128 ^ i * varint_val bs) \<and> s' = input rest (n - length bs) e)"
proof (induction xs arbitrary: i r n)
  case Nil
  then show ?case
    by (subst varint_loop.simps) (auto simp: pb_readbyte_def input_def pb_error_def)
next
  case (Cons b xs)
  show ?case
  proof (cases "i = 10 \<or> n = 0")
    case True
    have "is_varint bs \<Longrightarrow> 0 < length bs" for bs by (cases bs) auto
    moreover have "varint_loop (of_nat (7 * i)) (of_nat r) (input (b # xs) n e) \<noteq> (Some v, s')"
      using True Cons.prems bitpos_end [of i]
      by (subst varint_loop.simps) (auto simp: pb_readbyte_def input_def pb_error_def)
    ultimately show ?thesis using True Cons.prems(1) by fastforce
  next
    case False
    then have i: "Suc i \<le> 10" "i \<le> 10" and n: "0 < n" "n - 1 \<le> length xs" using Cons.prems by auto
    have pos: "of_nat (7 * i) + 7 = (of_nat (7 * Suc i) :: u8)" by simp
    note st = varint_step [OF Cons.prems(2), of b]
    have step: "varint_loop (of_nat (7 * i)) (of_nat r) (input (b # xs) n e) =
        (if unat b < 128 then (Some (of_nat (r + 128 ^ i * (unat b mod 128))), input xs (n - 1) e)
         else varint_loop (of_nat (7 * Suc i)) (of_nat (r + 128 ^ i * (unat b mod 128))) (input xs (n - 1) e))"
      unfolding varint_loop.simps [of "of_nat (7 * i)" "of_nat r"] bitpos_end [OF i(2)]
        pb_readbyte_input [OF n(1)] unat_bitpos [OF i(2)] prod.case option.case Let_def st(1) pos and_80_iff
      using False by (cases "unat b < 128") simp_all
    show ?thesis
    proof (cases "unat b < 128")
      case small: True
      have "(\<exists>bs rest. b # xs = bs @ rest \<and> is_varint bs \<and> length bs \<le> n \<and> length bs + i \<le> 10 \<and>
          v = of_nat (r + 128 ^ i * varint_val bs) \<and> s' = input rest (n - length bs) e) \<longleftrightarrow>
          v = of_nat (r + 128 ^ i * (unat b mod 128)) \<and> s' = input xs (n - 1) e" (is "?L \<longleftrightarrow> ?R")
      proof
        assume ?L
        then obtain bs rest where bs: "b # xs = bs @ rest" "is_varint bs"
          "v = of_nat (r + 128 ^ i * varint_val bs)" "s' = input rest (n - length bs) e" by blast
        then have "bs = [b]" using small by (cases bs) (auto split: if_splits)
        then show ?R using bs by simp
      next
        assume ?R
        then show ?L using small i n by (intro exI [of _ "[b]"] exI [of _ xs]) simp
      qed
      then show ?thesis using step small by auto
    next
      case big: False
      have val: "r + 128 ^ i * (unat b mod 128) + 128 ^ Suc i * m = r + 128 ^ i * (unat b mod 128 + 128 * m)" for m
        by (simp add: algebra_simps)
      have eq: "(\<exists>bs rest. b # xs = bs @ rest \<and> is_varint bs \<and> length bs \<le> n \<and> length bs + i \<le> 10 \<and>
          v = of_nat (r + 128 ^ i * varint_val bs) \<and> s' = input rest (n - length bs) e) \<longleftrightarrow>
          (\<exists>bs rest. xs = bs @ rest \<and> is_varint bs \<and> length bs \<le> n - 1 \<and> length bs + Suc i \<le> 10 \<and>
          v = of_nat (r + 128 ^ i * (unat b mod 128) + 128 ^ Suc i * varint_val bs) \<and> s' = input rest (n - 1 - length bs) e)"
        (is "?L \<longleftrightarrow> ?R")
      proof
        assume ?L
        then obtain bs rest where bs: "b # xs = bs @ rest" "is_varint bs" "length bs \<le> n" "length bs + i \<le> 10"
          "v = of_nat (r + 128 ^ i * varint_val bs)" "s' = input rest (n - length bs) e" by blast
        from bs(1,2) obtain cs where cs: "bs = b # cs" by (cases bs) auto
        have "v = of_nat (r + 128 ^ i * (unat b mod 128) + 128 ^ Suc i * varint_val cs)"
          using bs(5) by (simp only: cs val varint_val.simps)
        moreover have "is_varint cs" using big bs(2) cs by (simp split: if_splits)
        moreover have "length cs \<le> n - 1" "length cs + Suc i \<le> 10" "n - 1 - length cs = n - length bs"
          using bs(3,4) cs by simp_all
        moreover have "xs = cs @ rest" using bs(1) cs by simp
        ultimately show ?R using bs(6) by metis
      next
        assume ?R
        then obtain cs rest where cs: "xs = cs @ rest" "is_varint cs" "length cs \<le> n - 1" "length cs + Suc i \<le> 10"
          "v = of_nat (r + 128 ^ i * (unat b mod 128) + 128 ^ Suc i * varint_val cs)"
          "s' = input rest (n - 1 - length cs) e" by blast
        have "v = of_nat (r + 128 ^ i * varint_val (b # cs))" by (simp only: cs(5) val varint_val.simps)
        moreover have "is_varint (b # cs)" using big cs(2) by (cases cs) simp_all
        moreover have "length (b # cs) \<le> n" "length (b # cs) + i \<le> 10" "n - length (b # cs) = n - 1 - length cs"
          using cs(3,4) n by simp_all
        moreover have "b # xs = (b # cs) @ rest" using cs(1) by simp
        ultimately show ?L using cs(6) by metis
      qed
      show ?thesis
        by (simp only: step if_not_P [OF big] Cons.IH [OF i(1) st(2) n(2)] eq)
    qed
  qed
qed


lemma parses_varint:
  assumes "is_varint bs" "length bs \<le> 10"
  shows "parses pb_decode_varint bs (of_nat (varint_val bs))"
proof (unfold parses_def, intro allI impI)
  fix rest :: "u8 list" and n and e
  assume n: "length bs \<le> n" "n \<le> length bs + length rest"
  have "varint_loop (of_nat (7 * 0)) (of_nat 0) (input (bs @ rest) n e) =
      (Some (of_nat (varint_val bs)), input rest (n - length bs) e)"
    using varint_loop_iff [of 0 0 n "bs @ rest"] assms n by fastforce
  then show "pb_decode_varint (input (bs @ rest) n e) = (Some (of_nat (varint_val bs)), input rest (n - length bs) e)"
    by (simp add: pb_decode_varint_def)
qed

lemma emits_varint: "emits (pb_encode_varint v) (varint_bytes (unat v))"
  unfolding pb_encode_varint_def varint_buffer_eq
  by (rule emits_ext [OF emits_pb_write]) (use length_varint_u64 [of v] in auto)

lemma parses_varint_bytes: "parses pb_decode_varint (varint_bytes (unat v)) v"
  using parses_varint [OF is_varint_bytes length_varint_u64, of v] by simp

section \<open>32-bit varints\<close>

text \<open>
  The loop on the groups of a number from bit position \<open>7 * i\<close>, \<open>i < 5\<close>, when the number fits in
  32 bits.
\<close>

lemma varint32_loop_eq:
  "1 \<le> i \<Longrightarrow> i \<le> 4 \<Longrightarrow> r < 128 ^ i \<Longrightarrow> r + 128 ^ i * m < 2 ^ 32 \<Longrightarrow>
   length (varint_bytes m) \<le> n \<Longrightarrow> n \<le> length (varint_bytes m) + length rest \<Longrightarrow>
   varint32_loop (of_nat (7 * i)) (of_nat r) (input (varint_bytes m @ rest) n e) =
     (Some (of_nat (r + 128 ^ i * m)), input rest (n - length (varint_bytes m)) e)"
proof (induction m arbitrary: i r n rule: varint_bytes.induct)
  case (1 m)
  have p: "(128 :: nat) ^ i = 2 ^ (7 * i)" by (simp add: power_mult)
  have pos: "unat (of_nat (7 * i) :: u8) = 7 * i" using 1(3) by (intro unat_bitpos) simp
  have small: "\<not> 32 \<le> (of_nat (7 * i) :: u8)"
    using 1(3) by (simp only: word_le_nat_alt pos) simp
  have next_pos: "of_nat (7 * i) + 7 = (of_nat (7 * Suc i) :: u8)" by simp
  have or: "(of_nat r :: u32) OR push_bit (7 * i) (ucast (b AND 0x7F)) = of_nat (r + 128 ^ i * (unat b mod 128))"
    for b :: u8
    using or_push_bit [of r "7 * i" "ucast (b AND 0x7F) :: u32"] 1(4) by (simp only: p) (simp add: unat_ucast_up)
  have lim: "(of_nat (7 * Suc i) :: u8) = 35 \<longleftrightarrow> i = 4"
  proof -
    have "unat (of_nat (7 * Suc i) :: u8) = 7 * Suc i" using 1(3) by (intro unat_bitpos) simp
    then show ?thesis by (simp only: word_unat_eq_iff) auto
  qed
  obtain b bs where b: "varint_bytes m = b # bs" by (cases "varint_bytes m") auto
  have n: "0 < n" using 1(6) b by simp
  have step: "varint32_loop (of_nat (7 * i)) (of_nat r) (input (varint_bytes m @ rest) n e) =
      (if 128 \<le> unat b then
         varint32_loop (of_nat (7 * Suc i)) (of_nat (r + 128 ^ i * (unat b mod 128))) (input (bs @ rest) (n - 1) e)
       else if i = 4 \<and> b AND 0x70 \<noteq> 0 then pb_error ''varint overflow'' (input (bs @ rest) (n - 1) e)
       else (Some (of_nat (r + 128 ^ i * (unat b mod 128))), input (bs @ rest) (n - 1) e))"
    unfolding varint32_loop.simps [of "of_nat (7 * i)" "of_nat r"] b append_Cons
      pb_readbyte_input [OF n] prod.case option.case Let_def pos or next_pos and_80_iff not_less lim
    using small by (simp only: if_False simp_thms)
  show ?case
  proof (cases "m < 128")
    case True
    then have bm: "b = byte m" "bs = []" using b by (simp_all add: varint_bytes.simps [of m])
    have "b AND 0x70 = 0" if "i = 4"
    proof -
      have "m < 16" using 1(5) that by simp
      then have "take_bit 4 b = b" using bm by (simp add: word_unat_eq_iff unsigned_take_bit_eq take_bit_nat_eq_self)
      then have "b AND 0x70 = take_bit 4 b AND 0x70" by simp
      also have "\<dots> = b AND (0x0F AND 0x70)" by (simp add: take_bit_eq_mask mask_eq_exp_minus_1 and.assoc)
      finally show ?thesis by simp
    qed
    then have zero: "\<not> (i = 4 \<and> b AND 0x70 \<noteq> 0)" by blast
    have m: "unat b mod 128 = m" "\<not> 128 \<le> unat b" using bm True by simp_all
    have "length (varint_bytes m) = 1" using b bm(2) by simp
    then show ?thesis by (simp only: step bm(2) append_Nil if_not_P [OF zero] if_not_P [OF m(2)] m(1))
  next
    case False
    then have bm: "unat b = m mod 128 + 128" "bs = varint_bytes (m div 128)"
      using b by (simp_all add: varint_bytes.simps [of m] unat_continued del: unat_byte) (auto simp: unat_continued simp del: unat_byte)
    have r': "r + 128 ^ i * (m mod 128) < 128 ^ Suc i"
      using varint_step(2) [OF 1(4), of "byte (m mod 128)"] by simp
    have val: "r + 128 ^ i * (m mod 128) + 128 ^ Suc i * (m div 128) = r + 128 ^ i * m"
    proof -
      have "m = m mod 128 + 128 * (m div 128)" by simp
      then have "128 ^ i * m = 128 ^ i * (m mod 128) + 128 ^ i * (128 * (m div 128))"
        by (metis add_mult_distrib2)
      then show ?thesis by simp
    qed
    have i: "Suc i \<le> 4"
    proof (rule ccontr)
      assume "\<not> Suc i \<le> 4"
      then have "i = 4" using 1(3) by simp
      then show False using 1(5) False by simp
    qed
    have m7: "unat b mod 128 = m mod 128" using bm(1) by simp
    have len: "length (varint_bytes (m div 128)) \<le> n - 1" "n - 1 \<le> length (varint_bytes (m div 128)) + length rest"
      using 1(6,7) b bm(2) by auto
    have big: "128 \<le> unat b" using bm(1) by simp
    have left: "n - length (varint_bytes m) = n - 1 - length (varint_bytes (m div 128))" using b bm(2) by simp
    have ih: "varint32_loop (of_nat (7 * Suc i)) (of_nat (r + 128 ^ i * (m mod 128))) (input (varint_bytes (m div 128) @ rest) (n - 1) e :: 'a pb_istream)
        = (Some (of_nat (r + 128 ^ i * m)), input rest (n - 1 - length (varint_bytes (m div 128))) e)"
      using 1(1) [OF False _ i r' _ len] 1(5) by (simp only: val)
    show ?thesis by (simp only: step if_P [OF big] m7 bm(2) ih left)
  qed
qed


text \<open>The first byte decides between the quick case and the loop.\<close>

lemma pb_decode_varint32_input:
  "0 < n \<Longrightarrow> pb_decode_varint32 (input (b # xs) n e) =
     (if unat b < 128 then (Some (ucast b), input xs (n - 1) e)
      else varint32_loop 7 (ucast (b AND 0x7F)) (input xs (n - 1) e))"
  by (simp add: pb_decode_varint32_def pb_decode_varint32_eof_def pb_readbyte_input split: prod.split)

lemma ucast_byte: "n < 256 \<Longrightarrow> (ucast (byte n) :: u32) = of_nat n"
  by (simp add: word_unat_eq_iff unat_ucast_up unsigned_of_nat take_bit_nat_eq_self)

lemma parses_varint32: "parses pb_decode_varint32 (varint_bytes (unat (v :: u32))) v"
proof (unfold parses_def, intro allI impI)
  fix rest :: "u8 list" and n e
  let ?m = "unat v"
  assume n: "length (varint_bytes ?m) \<le> n" "n \<le> length (varint_bytes ?m) + length rest"
  show "pb_decode_varint32 (input (varint_bytes ?m @ rest) n e) = (Some v, input rest (n - length (varint_bytes ?m)) e :: 'a pb_istream)"
  proof (cases "?m < 128")
    case True
    then have "varint_bytes ?m = [byte ?m]" by (simp add: varint_bytes.simps [of ?m])
    moreover have "(ucast (byte ?m) :: u32) = v" using True by (simp add: ucast_byte)
    ultimately show ?thesis using n True by (simp add: pb_decode_varint32_input)
  next
    case False
    then have vb: "varint_bytes ?m = byte (?m mod 128 + 128) # varint_bytes (?m div 128)"
      by (simp add: varint_bytes.simps [of ?m])
    have low: "(ucast (byte (?m mod 128 + 128) AND 0x7F) :: u32) = of_nat (?m mod 128)"
      by (simp add: word_unat_eq_iff unat_ucast_up unat_continued unsigned_of_nat take_bit_nat_eq_self del: unat_byte)
    have val: "?m mod 128 + 128 ^ 1 * (?m div 128) = ?m" by simp
    have "varint32_loop (of_nat (7 * 1)) (of_nat (?m mod 128)) (input (varint_bytes (?m div 128) @ rest) (n - 1) e :: 'a pb_istream)
        = (Some (of_nat (?m mod 128 + 128 ^ 1 * (?m div 128))), input rest (n - 1 - length (varint_bytes (?m div 128))) e)"
      by (rule varint32_loop_eq) (use n vb unat_u32_less [of v] in auto)
    then have "varint32_loop 7 (of_nat (?m mod 128)) (input (varint_bytes (?m div 128) @ rest) (n - 1) e :: 'a pb_istream)
        = (Some v, input rest (n - 1 - length (varint_bytes (?m div 128))) e)"
      unfolding val by simp
    moreover have "0 < n" "n - length (varint_bytes ?m) = n - 1 - length (varint_bytes (?m div 128))"
      using n vb by simp_all
    moreover have "\<not> unat (byte (?m mod 128 + 128)) < 128" by (simp add: unat_continued del: unat_byte)
    ultimately show ?thesis by (simp only: vb append_Cons pb_decode_varint32_input if_False low)
  qed
qed

section \<open>Zigzag and fixed-width integers\<close>

lemma zigzag_roundtrip:
  fixes v :: u64
  defines "z \<equiv> if sint v < 0 then NOT (push_bit 1 v) else push_bit 1 v"
  shows "(if z AND 1 \<noteq> 0 then NOT (drop_bit 1 z) else drop_bit 1 z) = v"
proof -
  have msb: "sint v < 0 \<longleftrightarrow> bit v 63" using bit_last_iff [of v] by simp
  have one: "w AND 1 \<noteq> 0 \<longleftrightarrow> bit w 0" for w :: u64
    using and_exp_eq_0_iff_not_bit [of w 0] by simp
  have push: "bit (push_bit 1 v) n \<longleftrightarrow> 0 < n \<and> n < 64 \<and> bit v (n - 1)" for n
    unfolding bit_push_bit_iff possible_bit_word by auto
  have z: "bit z n \<longleftrightarrow> n < 64 \<and> (if bit v 63 then n = 0 \<or> \<not> bit v (n - 1) else 0 < n \<and> bit v (n - 1))" for n
    unfolding z_def msb
    by (cases "bit v 63"; simp only: if_True if_False bit_not_iff push possible_bit_word simp_thms) auto
  have drop: "bit (drop_bit (Suc 0) z) n \<longleftrightarrow> bit z (Suc n)" for n by (simp add: bit_drop_bit_eq)
  have "bit (if z AND 1 \<noteq> 0 then NOT (drop_bit 1 z) else drop_bit 1 z) n \<longleftrightarrow> bit v n" if "n < 64" for n
    unfolding one z using that
    by (cases "n = 63") (auto simp: bit_not_iff drop z)
  then show ?thesis by (intro bit_word_eqI) simp
qed

lemma parses_svarint: "parses pb_decode_svarint (varint_bytes (unat (if sint v < 0 then NOT (push_bit 1 v) else push_bit 1 v))) v"
  unfolding pb_decode_svarint_def
  using parses_map [OF parses_varint_bytes [of "if sint v < 0 then NOT (push_bit 1 v) else push_bit 1 v"],
      where f = "\<lambda>value. if value AND 1 \<noteq> 0 then NOT (drop_bit 1 value) else drop_bit 1 value"]
  by (simp only: zigzag_roundtrip)


lemma byte_of_word: "ucast (drop_bit k (v :: 'a::len word) AND 0xFF) = byte (unat v div 2 ^ k)"
proof -
  have "unat (drop_bit k v AND 0xFF) = unat (drop_bit k v) mod 256"
    using unat_and_mask [of "drop_bit k v" 8] by (simp add: mask_eq_exp_minus_1)
  then show ?thesis by (simp add: eq_byte_iff unat_ucast_mod unat_drop_bit)
qed

lemma le_bytes_map: "le_bytes k n = map (\<lambda>i. byte (n div 2 ^ (8 * i))) [0..<k]"
proof (induction k arbitrary: n)
  case (Suc k)
  have "n div 256 div 2 ^ (8 * i) = n div 2 ^ (8 * Suc i)" for i
    by (simp add: div_mult2_eq [symmetric] power_add mult.commute)
  then show ?case using Suc [of "n div 256"] by (simp add: map_upt_Suc del: upt_Suc)
qed simp

lemma fixed_bytes:
  "[ucast (v AND 0xFF), ucast (drop_bit 8 v AND 0xFF), ucast (drop_bit 16 v AND 0xFF),
    ucast (drop_bit 24 v AND 0xFF)] = le_bytes 4 (unat (v :: 'a::len word))"
  "[ucast (v AND 0xFF), ucast (drop_bit 8 v AND 0xFF), ucast (drop_bit 16 v AND 0xFF),
    ucast (drop_bit 24 v AND 0xFF), ucast (drop_bit 32 v AND 0xFF), ucast (drop_bit 40 v AND 0xFF),
    ucast (drop_bit 48 v AND 0xFF), ucast (drop_bit 56 v AND 0xFF)] = le_bytes 8 (unat v)"
  using byte_of_word [of 0 v] by (simp_all add: byte_of_word le_bytes_map upt_rec)

lemma emits_fixed32: "emits (pb_encode_fixed32 v) (le_bytes 4 (unat v))"
  unfolding pb_encode_fixed32_def fixed_bytes by (rule emits_whole) simp_all

lemma emits_fixed64: "emits (pb_encode_fixed64 v) (le_bytes 8 (unat v))"
  unfolding pb_encode_fixed64_def fixed_bytes by (rule emits_whole) simp_all

lemma or_push_byte:
  fixes x :: "'a::len word" and b :: u8
  assumes "x = of_nat r" "r < 2 ^ k" "8 \<le> LENGTH('a)"
  shows "x OR push_bit k (ucast b) = of_nat (r + 2 ^ k * unat b)" "r + 2 ^ k * unat b < 2 ^ (k + 8)"
proof -
  show "x OR push_bit k (ucast b) = of_nat (r + 2 ^ k * unat b)"
  proof -
    have "unat (ucast b :: 'a word) = unat b" using assms(3) by (intro unat_ucast_up) simp
    then show ?thesis using or_push_bit [OF assms(2), of "ucast b :: 'a word"] assms(1) by (simp only:)
  qed
  have "unat b \<le> 255" using unat_byte_less [of b] by linarith
  then have "2 ^ k * unat b \<le> 2 ^ k * 255" by (rule mult_left_mono) simp
  then have "r + 2 ^ k * unat b < 2 ^ k + 2 ^ k * 255" using assms(2) by linarith
  also have "\<dots> = 2 ^ (k + 8)" by (simp add: power_add)
  finally show "r + 2 ^ k * unat b < 2 ^ (k + 8)" .
qed

text \<open>The word of the bytes, least significant first, from bit \<open>k\<close> on.\<close>

fun or_bytes :: "nat \<Rightarrow> u8 list \<Rightarrow> 'a::len word \<Rightarrow> 'a word" where
  "or_bytes k [] x = x"
| "or_bytes k (b # bs) x = or_bytes (k + 8) bs (x OR push_bit k (ucast b))"

lemma or_bytes_eq:
  "r < 2 ^ k \<Longrightarrow> 8 \<le> LENGTH('a) \<Longrightarrow> or_bytes k bs (of_nat r :: 'a::len word) = of_nat (r + 2 ^ k * le_val bs)"
proof (induction bs arbitrary: k r)
  case (Cons b bs)
  note s = or_push_byte [OF refl Cons.prems, of b]
  have "r + 2 ^ k * unat b + 2 ^ (k + 8) * le_val bs = r + 2 ^ k * le_val (b # bs)"
    by (simp add: power_add algebra_simps)
  then show ?case by (simp only: or_bytes.simps s(1) Cons.IH [OF s(2) Cons.prems(2)])
qed simp

lemma le_word32:
  "push_bit 0 (ucast (b0 :: u8) :: u32) OR push_bit 8 (ucast (b1 :: u8)) OR push_bit 16 (ucast (b2 :: u8)) OR
     push_bit 24 (ucast (b3 :: u8)) = of_nat (le_val [b0, b1, b2, b3])"
  using or_bytes_eq [of 0 0 "[b0, b1, b2, b3]", where 'a = 32]
  by (simp only: or_bytes.simps or.assoc add_0 power_0 mult_1 of_nat_0 or.left_neutral) simp


lemma le_word64:
  "push_bit 0 (ucast (b0 :: u8) :: u64) OR push_bit 8 (ucast (b1 :: u8)) OR push_bit 16 (ucast (b2 :: u8)) OR
     push_bit 24 (ucast (b3 :: u8)) OR push_bit 32 (ucast (b4 :: u8)) OR push_bit 40 (ucast (b5 :: u8)) OR
     push_bit 48 (ucast (b6 :: u8)) OR push_bit 56 (ucast (b7 :: u8)) = of_nat (le_val [b0, b1, b2, b3, b4, b5, b6, b7])"
  using or_bytes_eq [of 0 0 "[b0, b1, b2, b3, b4, b5, b6, b7]", where 'a = 64]
  by (simp only: or_bytes.simps or.assoc add_0 power_0 mult_1 of_nat_0 or.left_neutral) simp

lemma length_4E: "length xs = 4 \<Longrightarrow> \<exists>a b c d. xs = [a, b, c, d]"
  by (auto simp: numeral_eq_Suc length_Suc_conv)

lemma length_8E: "length xs = 8 \<Longrightarrow> \<exists>a b c d e f g h. xs = [a, b, c, d, e, f, g, h]"
  by (auto simp: numeral_eq_Suc length_Suc_conv)

lemma parses_fixed32: "parses pb_decode_fixed32 (le_bytes 4 (unat v)) v"
proof -
  obtain a b c d where l: "le_bytes 4 (unat v) = [a, b, c, d]" using length_4E [of "le_bytes 4 (unat v)"] by auto
  then have "of_nat (le_val [a, b, c, d]) = v"
    using le_val_le_bytes [of 4 "unat v"] unat_u32_less [of v] by simp
  then show ?thesis
    unfolding pb_decode_fixed32_def l
    using parses_map [OF parses_pb_read, of "[a, b, c, d]" 4 "\<lambda>bytes. push_bit 0 (ucast (bytes ! 0)) OR push_bit 8 (ucast (bytes ! 1)) OR
         push_bit 16 (ucast (bytes ! 2)) OR push_bit 24 (ucast (bytes ! 3)) :: u32"]
    by (simp only: le_word32 nth_Cons_0 nth_Cons_numeral nth_Cons_Suc) (simp add: le_word32)
qed


lemma parses_fixed64: "parses pb_decode_fixed64 (le_bytes 8 (unat v)) v"
proof -
  obtain a b c d e f g h where l: "le_bytes 8 (unat v) = [a, b, c, d, e, f, g, h]"
    using length_8E [of "le_bytes 8 (unat v)"] by auto
  then have "of_nat (le_val [a, b, c, d, e, f, g, h]) = v"
    using le_val_le_bytes [of 8 "unat v"] unat_u64_less [of v] by simp
  then show ?thesis
    unfolding pb_decode_fixed64_def l
    using parses_map [OF parses_pb_read, of "[a, b, c, d, e, f, g, h]" 8
        "\<lambda>bytes. push_bit 0 (ucast (bytes ! 0)) OR push_bit 8 (ucast (bytes ! 1)) OR
         push_bit 16 (ucast (bytes ! 2)) OR push_bit 24 (ucast (bytes ! 3)) OR push_bit 32 (ucast (bytes ! 4)) OR
         push_bit 40 (ucast (bytes ! 5)) OR push_bit 48 (ucast (bytes ! 6)) OR push_bit 56 (ucast (bytes ! 7)) :: u64"]
    by (simp only: le_word64 nth_Cons_0 nth_Cons_numeral nth_Cons_Suc) (simp add: le_word64)
qed

section \<open>Tags, strings and skipping\<close>

lemma unat_of_nat_u32: "k < 2 ^ 32 \<Longrightarrow> unat (of_nat k :: u32) = k"
  by (subst unsigned_of_nat) (simp add: take_bit_nat_eq_self)

lemma parsesD:
  "parses m bs v \<Longrightarrow> length bs \<le> n \<Longrightarrow> n \<le> length bs + length rest \<Longrightarrow>
     m (input (bs @ rest) n e) = (Some v, input rest (n - length bs) e)"
  by (simp add: parses_def)

lemma tag_value:
  assumes "unat (wt :: u32) < 8" "unat (fn :: u32) < 2 ^ 29"
  shows "unat (push_bit 3 (ucast fn :: u64) OR ucast wt) = 8 * unat fn + unat wt"
  using unat_shift_or [of "ucast wt :: u64" 3 "ucast fn"] assms by (simp add: unat_ucast_up)

lemma emits_tag:
  assumes "unat wt < 8" "unat fn < 2 ^ 29"
  shows "emits (pb_encode_tag wt fn) (varint_bytes (8 * unat fn + unat wt))"
  unfolding pb_encode_tag_def using emits_varint [of "push_bit 3 (ucast fn) OR ucast wt"]
  by (simp only: tag_value [OF assms])

lemma varint32_eof_iff:
  "pb_decode_varint32 s = (Some v, s') \<longleftrightarrow> pb_decode_varint32_eof eof s = (Some v, eof, s')"
  by (auto simp: pb_decode_varint32_def pb_decode_varint32_eof_def split: prod.splits option.splits if_splits)

lemma decode_tag:
  assumes "unat wt < 8" "unat fn < 2 ^ 29" "fn \<noteq> 0"
    and "length (varint_bytes (8 * unat fn + unat wt)) \<le> n" "n \<le> length (varint_bytes (8 * unat fn + unat wt)) + length rest"
  shows "pb_decode_tag (input (varint_bytes (8 * unat fn + unat wt) @ rest) n e) =
    (Some (wt, fn), False, input rest (n - length (varint_bytes (8 * unat fn + unat wt))) e)"
proof -
  let ?t = "of_nat (8 * unat fn + unat wt) :: u32"
  have t: "unat ?t = 8 * unat fn + unat wt" using assms(1,2) by (intro unat_of_nat_u32) simp
  have "pb_decode_varint32 (input (varint_bytes (unat ?t) @ rest) n e) = (Some ?t, input rest (n - length (varint_bytes (unat ?t))) e :: 'a pb_istream)"
    using parses_varint32 [of ?t] assms(4,5) unfolding parses_def t by blast
  then have d: "pb_decode_varint32_eof False (input (varint_bytes (8 * unat fn + unat wt) @ rest) n e) =
      (Some ?t, False, input rest (n - length (varint_bytes (8 * unat fn + unat wt))) e :: 'a pb_istream)"
    unfolding t varint32_eof_iff [of _ _ _ False] .
  have "0 < unat fn" using assms(3) by (simp add: unat_gt_0)
  then have "?t \<noteq> 0" using t by (metis add_is_0 mult_is_0 neq0_conv unsigned_0 zero_neq_numeral)
  moreover have "?t AND 7 = wt"
    using unat_and_mask [of ?t 3] t assms(1) by (simp add: word_unat_eq_iff mask_eq_exp_minus_1)
  moreover have "drop_bit 3 ?t = fn"
    using t assms(1) by (simp add: word_unat_eq_iff unat_drop_bit)
  ultimately show ?thesis by (simp add: pb_decode_tag_def d)
qed

lemma emits_string: "length bs < size_limit \<Longrightarrow> emits (pb_encode_string bs (length bs)) (varint_bytes (length bs) @ bs)"
  unfolding pb_encode_string_def
  using emits_bind [OF emits_varint [of "of_nat (length bs)"] emits_whole [OF refl]]
  by (simp add: unsigned_of_nat take_bit_nat_eq_self)

lemma parses_len: "k < 2 ^ 32 \<Longrightarrow> parses pb_decode_varint32 (varint_bytes k) (of_nat k)"
  using parses_varint32 [of "of_nat k"] by (simp add: unsigned_of_nat take_bit_nat_eq_self)

lemma parses_skip_string: "length bs < 2 ^ 32 \<Longrightarrow> parses pb_skip_string (varint_bytes (length bs) @ bs) ()"
  unfolding pb_skip_string_def
  by (rule parses_bind [OF parses_len parses_pb_skip]) (simp_all add: unsigned_of_nat take_bit_nat_eq_self)

lemma parses_skip_varint: "is_varint bs \<Longrightarrow> parses pb_skip_varint bs ()"
proof (induction bs)
  case (Cons b bs)
  have "pb_skip_varint (input ((b # bs) @ rest) n e) = (Some (), input rest (n - length (b # bs)) e :: 'a pb_istream)"
    if n: "length (b # bs) \<le> n" "n \<le> length (b # bs) + length rest" for rest n e
  proof -
    have r: "pb_read 1 (input (b # bs @ rest) n e) = (Some [b], input (bs @ rest) (n - 1) e :: 'a pb_istream)"
      using n by (simp add: pb_read_def input_def call_source_def)
    show ?thesis
    proof (cases "bs = []")
      case True
      then show ?thesis using Cons.prems r by (subst pb_skip_varint.simps) simp
    next
      case False
      then have "is_varint bs" "\<not> unat b < 128" using Cons.prems by auto
      then show ?thesis
        using Cons.IH n r by (subst pb_skip_varint.simps) (auto simp: parses_def)
    qed
  qed
  then show ?case by (simp add: parses_def)
qed simp

lemma make_substream:
  assumes "length bs < 2 ^ 32" "length (varint_bytes (length bs)) + length bs \<le> n"
    and "n \<le> length (varint_bytes (length bs)) + length bs + length rest"
  shows "pb_make_string_substream (input (varint_bytes (length bs) @ bs @ rest) n e) =
    (Some (input (bs @ rest) (length bs) e), input (bs @ rest) (n - length (varint_bytes (length bs)) - length bs) e)"
proof -
  have "pb_decode_varint32 (input (varint_bytes (length bs) @ bs @ rest) n e) =
      (Some (of_nat (length bs)), input (bs @ rest) (n - length (varint_bytes (length bs))) e :: 'a pb_istream)"
    using assms(2,3) by (intro parsesD [OF parses_len [OF assms(1)]]) simp_all
  moreover have "unat (of_nat (length bs) :: u32) = length bs"
    using assms(1) by (simp add: unsigned_of_nat take_bit_nat_eq_self)
  ultimately show ?thesis
    using assms(2) by (simp add: pb_make_string_substream_def op_bind_def input_def)
qed


section \<open>No reader leaves its buffer\<close>

lemma in_boundsD: "in_bounds m \<Longrightarrow> moves s (snd (m s))"
  by (simp add: in_bounds_def)

lemma in_bounds_pb_skip [simp]: "in_bounds (pb_skip n)"
proof (rule in_boundsI)
  fix xs :: "u8 list" and l and e assume l: "l \<le> length xs"
  have "in_bounds (op_bind (pb_read n) (\<lambda>_. op_return ()) :: ('a pb_istream, unit) op)"
    by (intro in_bounds_bind) simp_all
  then obtain k e' where "k \<le> l" "snd (pb_skip n (input xs l e)) = (input (drop k xs) (l - k) e' :: 'a pb_istream)"
    using l unfolding in_bounds_def moves_def pb_skip_input by blast
  then show "\<exists>k e' r. k \<le> l \<and> pb_skip n (input xs l e :: 'a pb_istream) = (r, input (drop k xs) (l - k) e')"
    by (metis prod.collapse)
qed

lemma moves_varint_loop: "moves s (snd (varint_loop p r s))"
proof (induction p r s rule: varint_loop.induct)
  case (1 p r s)
  have b: "moves s (snd (pb_readbyte s))" by (rule in_boundsD [OF in_bounds_pb_readbyte])
  have e: "moves s (snd (pb_error ''varint overflow'' s :: u64 option \<times> _))"
    by (rule in_boundsD [OF in_bounds_error])
  obtain a t where rb: "pb_readbyte s = (a, t)" by (rule prod.exhaust)
  show ?case
    using 1 b e rb moves_trans [of s t]
    by (subst varint_loop.simps) (auto simp: Let_def split: option.split)
qed

lemma moves_varint32_loop: "moves s (snd (varint32_loop p r s))"
proof (induction p r s rule: varint32_loop.induct)
  case (1 p r s)
  have b: "moves s (snd (pb_readbyte s))" by (rule in_boundsD [OF in_bounds_pb_readbyte])
  have e: "moves t (snd (pb_error ''varint overflow'' t :: u32 option \<times> _))" for t :: "'a pb_istream"
    by (rule in_boundsD [OF in_bounds_error])
  obtain a t where rb: "pb_readbyte s = (a, t)" by (rule prod.exhaust)
  then have st: "moves s t" using b by simp
  show ?case
  proof (cases a)
    case None
    then show ?thesis using rb st by (subst varint32_loop.simps) simp
  next
    case (Some y)
    then show ?thesis
      using 1 [OF rb [symmetric] Some refl] rb st e [of t] moves_trans [OF st]
      by (subst varint32_loop.simps) (auto simp: Let_def)
  qed
qed

lemma in_bounds_varint [simp]: "in_bounds pb_decode_varint" "in_bounds pb_decode_varint32"
proof -
  show "in_bounds (pb_decode_varint :: ('a pb_istream, u64) op)"
    by (simp add: in_bounds_def pb_decode_varint_def moves_varint_loop)
  have "moves s (snd (pb_decode_varint32 s))" for s :: "'b pb_istream"
  proof -
    obtain a t where rb: "pb_readbyte s = (a, t)" by (rule prod.exhaust)
    have "moves s t" using in_bounds_pb_readbyte rb unfolding in_bounds_def by (metis snd_conv)
    then show ?thesis
      using rb moves_trans [OF _ moves_varint32_loop, of s t]
      by (auto simp: pb_decode_varint32_def pb_decode_varint32_eof_def split: option.splits prod.splits)
         (metis snd_conv)+
  qed
  then show "in_bounds (pb_decode_varint32 :: ('b pb_istream, u32) op)" by (simp add: in_bounds_def)
qed


end
