(* ===== verification/Pb_Codec.thy ===== *)
theory Pb_Codec imports Pb_Wire begin

text \<open>
  The properties of the wire layer of nanopb: exact acceptance, round trips, staying within the
  buffer, skipping, substreams, and two inputs on which the 32-bit reader is not exact.
\<close>

lemma in_bounds_svarint [simp]: "in_bounds pb_decode_svarint"
  unfolding pb_decode_svarint_def by (intro in_bounds_bind) simp_all

lemma in_bounds_fixed [simp]: "in_bounds pb_decode_fixed32" "in_bounds pb_decode_fixed64"
  unfolding pb_decode_fixed32_def pb_decode_fixed64_def by (intro in_bounds_bind; simp)+

lemma in_bounds_skip_varint [simp]: "in_bounds pb_skip_varint"
proof -
  have "moves s (snd (pb_skip_varint s))" for s :: "'a pb_istream"
  proof (induction s rule: pb_skip_varint.induct)
    case (1 s)
    obtain a t where rb: "pb_read 1 s = (a, t)" by (rule prod.exhaust)
    have st: "moves s t" using in_boundsD [OF in_bounds_pb_read, of s 1] rb by simp
    then show ?case
      using 1 [OF rb [symmetric]] rb moves_trans [OF st]
      by (subst pb_skip_varint.simps) (auto split: option.split)
  qed
  then show ?thesis by (simp add: in_bounds_def)
qed

lemma in_bounds_skip_string [simp]: "in_bounds pb_skip_string"
  unfolding pb_skip_string_def by (intro in_bounds_bind) simp_all

lemma in_bounds_skip_field [simp]: "in_bounds (pb_skip_field wt)"
  by (simp add: pb_skip_field_def)

lemma in_bounds_raw_varint: "moves s (snd (raw_varint room acc s))"
proof (induction room acc s rule: raw_varint.induct)
  case (2 room acc s)
  obtain a t where rb: "pb_read 1 s = (a, t)" by (rule prod.exhaust)
  have st: "moves s t" using in_boundsD [OF in_bounds_pb_read, of s 1] rb by simp
  then show ?case
    using 2 [OF rb [symmetric]] rb moves_trans [OF st]
    by (auto split: option.split)
qed (simp add: moves_refl)

lemma in_bounds_raw_value [simp]: "in_bounds (read_raw_value wt room)"
proof -
  have "in_bounds (raw_varint room [] :: ('a pb_istream, u8 list) op)"
    by (simp add: in_bounds_def in_bounds_raw_varint)
  then show ?thesis unfolding read_raw_value_def by (simp split: if_split)
qed

lemma moves_decode_tag: "moves s (snd (snd (pb_decode_tag s)))"
proof -
  have "snd (snd (pb_decode_varint32_eof False s)) = snd (pb_decode_varint32 s)"
    by (simp add: pb_decode_varint32_def split: prod.splits)
  then have "moves s (snd (snd (pb_decode_varint32_eof False s)))"
    using in_boundsD [OF in_bounds_varint(2), of s] by simp
  then show ?thesis by (auto simp: pb_decode_tag_def split: prod.splits option.splits)
qed

text \<open>Making a substream moves the parent over the whole string, which it can hold.\<close>

lemma moves_make_substream:
  fixes sub :: "'s pb_istream"
  assumes "pb_make_string_substream (input xs n e) = (Some sub, s')" "n \<le> length xs"
  shows "\<exists>k m f. k + m \<le> n \<and> sub = input (drop k xs) m f \<and> s' = input (drop k xs) (n - k - m) f"
proof -
  obtain r and t :: "'s pb_istream" where d: "pb_decode_varint32 (input xs n e) = (r, t)" by (rule prod.exhaust)
  then obtain v where v: "r = Some v" using assms(1) by (cases r) (auto simp: pb_make_string_substream_def op_bind_def)
  have "moves (input xs n e) t" using in_boundsD [OF in_bounds_varint(2), of "input xs n e :: 's pb_istream"] d by simp
  then obtain k f where k: "k \<le> n" "t = input (drop k xs) (n - k) f"
    using assms(2) unfolding moves_def by blast
  have "\<not> n - k < unat v" "sub = input (drop k xs) (unat v) f" "s' = input (drop k xs) (n - k - unat v) f"
    using assms(1) d v k
    by (auto simp: pb_make_string_substream_def op_bind_def input_def split: if_splits)
  then show ?thesis using k(1) by (intro exI [of _ k] exI [of _ "unat v"] exI [of _ f]) auto
qed

lemma readbyte_end: "\<exists>f. pb_readbyte (input xs 0 e :: 's pb_istream) = (None, input xs 0 f)"
proof -
  have "pb_readbyte (input xs 0 e :: 's pb_istream) = pb_error ''end-of-stream'' (input xs 0 e)"
    by (simp add: pb_readbyte_def input_def)
  then show ?thesis using pb_error_input [of "''end-of-stream''" xs 0 e] by simp
qed

lemma decode_tag_end: "fst (snd (pb_decode_tag (input xs 0 e :: 's pb_istream)))"
proof -
  obtain f where "pb_readbyte (input xs 0 e :: 's pb_istream) = (None, input xs 0 f)"
    using readbyte_end by blast
  then show ?thesis by (simp add: pb_decode_tag_def pb_decode_varint32_eof_def input_def)
qed

text \<open>A sizing stream: no callback, only the count.\<close>

definition counts :: "('s pb_ostream, unit) op \<Rightarrow> nat \<Rightarrow> bool" where
  "counts m n \<longleftrightarrow> (\<forall>s. ocallback s = None \<longrightarrow>
     m s = (Some (), s\<lparr>bytes_written := size_add (bytes_written s) n\<rparr>))"

lemma counts_pb_write: "counts (pb_write bs n) n"
  by (simp add: counts_def pb_write_def)

lemma counts_bind:
  assumes "counts m a" "counts k b"
  shows "counts (op_bind m (\<lambda>_. k)) (a + b)"
  using assms by (simp add: counts_def op_bind_def size_add_def mod_add_left_eq add.assoc)

lemma counts_varint: "counts (pb_encode_varint v) (length (varint_bytes (unat v)))"
  unfolding pb_encode_varint_def varint_buffer_eq by (rule counts_pb_write)

lemma pb_skip_all:
  assumes "m \<le> length xs"
  shows "pb_skip m (input xs m e :: 's pb_istream) = (Some (), input (drop m xs) 0 e)"
  unfolding pb_skip_input using assms by (simp add: op_bind_def op_return_def pb_read_def input_def call_source_def)

lemma close_substream:
  assumes "m \<le> length xs"
  shows "pb_close_string_substream (input xs m f) (input ys n e :: 's pb_istream) = (Some (), input (drop m xs) n f)"
proof (cases "m = 0")
  case True
  then show ?thesis by (simp add: pb_close_string_substream_def input_def)
next
  case False
  then show ?thesis
    by (simp add: pb_close_string_substream_def pb_skip_all [OF assms, unfolded input_def] input_def)
qed

section \<open>The 32-bit reader\<close>

text \<open>
  What \<open>pb_decode_varint32\<close> accepts among the varints of at most ten bytes: the bits beyond 32 are checked in a last fifth
  byte; a byte further on must be zero padding or, if bit 31 is set, the sign extension of a 64-bit number.
\<close>

definition high_byte_ok :: "nat \<Rightarrow> nat \<Rightarrow> u8 \<Rightarrow> bool" where
  "high_byte_ok t i b \<longleftrightarrow> unat b mod 128 = 0 \<or> (bit t 31 \<and> b = (if i < 9 then 0xFF else 0x01))"

definition varint32_ok :: "nat \<Rightarrow> nat \<Rightarrow> u8 list \<Rightarrow> bool" where
  "varint32_ok t i bs \<longleftrightarrow> (i + length bs = 5 \<longrightarrow> t < 2 ^ 32) \<and> (\<forall>j < length bs. 5 \<le> i + j \<longrightarrow> high_byte_ok t (i + j) (bs ! j))"

lemma varint32_ok_Cons:
  "bs \<noteq> [] \<Longrightarrow> varint32_ok t i (b # bs) \<longleftrightarrow> (5 \<le> i \<longrightarrow> high_byte_ok t i b) \<and> varint32_ok t (Suc i) bs"
  by (auto simp: varint32_ok_def less_Suc_eq_0_disj)

lemma byte_70: "b AND 0x70 = 0 \<longleftrightarrow> unat (b :: u8) mod 128 < 16"
  by (rule u8_all [of "\<lambda>b. b AND 0x70 = 0 \<longleftrightarrow> unat b mod 128 < 16"]) code_simp

lemma byte_7F: "b AND 0x7F = 0 \<longleftrightarrow> unat (b :: u8) mod 128 = 0"
  by (rule u8_all [of "\<lambda>b. b AND 0x7F = 0 \<longleftrightarrow> unat b mod 128 = 0"]) code_simp

text \<open>One group: the result of the code is the low 32 bits of the groups read so far.\<close>

lemma low_word: "5 \<le> i \<Longrightarrow> (of_nat (rr + 128 ^ i * v) :: u32) = of_nat rr"
proof -
  assume "5 \<le> i"
  then obtain k where k: "i = 5 + k" using le_Suc_ex [of 5 i] by auto
  have e: "rr + 128 ^ i * v = rr + 2 ^ 32 * (8 * 128 ^ k * v)" by (simp add: k power_add)
  have z: "(of_nat (2 ^ 32) :: u32) = 0" by simp
  show ?thesis unfolding e by (simp only: of_nat_add of_nat_mult [of "2 ^ 32"] z mult_zero_left add_0_right)
qed

lemma group_low_bits:
  assumes "rr < 128 ^ i"
  shows "(if i < 5 then (of_nat rr :: u32) OR push_bit (7 * i) (ucast (b AND 0x7F :: u8)) else of_nat rr)
    = of_nat (rr + 128 ^ i * (unat b mod 128))"
proof (cases "i < 5")
  case True
  then show ?thesis
    using or_push_bit [of rr "7 * i" "ucast (b AND 0x7F) :: u32"] assms by (simp add: power_mult unat_ucast_up)
qed (use low_word [of i rr] in simp)

lemma top_bit: "drop_bit 31 w = 0 \<longleftrightarrow> \<not> bit (w :: u32) 31"
proof -
  have "drop_bit 31 w = of_bool (bit w 31)" by (rule bit_word_eqI, case_tac n) (auto simp: bit_simps dest: bit_imp_le_length)
  then show ?thesis by simp
qed

lemma bit_low_word: "5 \<le> i \<Longrightarrow> drop_bit 31 (of_nat rr :: u32) = 0 \<longleftrightarrow> \<not> bit (rr + 128 ^ i * v) 31"
  using low_word [of i rr v] bit_of_nat_iff [of "rr + 128 ^ i * v" 31, where 'a = u32] by (simp add: top_bit)

lemma fst_pb_error: "fst (pb_error msg s) = None"
  by (simp add: pb_error_def)

text \<open>The loop on the groups from the \<open>i\<close>-th.\<close>

lemma varint32_loop_groups:
  "is_varint bs \<Longrightarrow> 1 \<le> i \<Longrightarrow> i + length bs \<le> 10 \<Longrightarrow> rr < 128 ^ i \<Longrightarrow>
   (if varint32_ok (rr + 128 ^ i * varint_val bs) i bs
    then varint32_loop (of_nat (7 * i)) (of_nat rr) (input (bs @ rest) (length (bs @ rest)) e :: 's pb_istream)
      = (Some (of_nat (rr + 128 ^ i * varint_val bs)), input rest (length rest) e :: 's pb_istream)
    else fst (varint32_loop (of_nat (7 * i)) (of_nat rr) (input (bs @ rest) (length (bs @ rest)) e :: 's pb_istream)) = None)"
proof (induction bs arbitrary: i rr)
  case (Cons b bs)
  define t where "t = rr + 128 ^ i * varint_val (b # bs)"
  define r' where "r' = rr + 128 ^ i * (unat b mod 128)"
  have i: "i \<le> 9" using Cons.prems(3) by simp
  have pos: "unat (of_nat (7 * i) :: u8) = 7 * i" using i by (intro unat_bitpos) simp
  have big: "32 \<le> (of_nat (7 * i) :: u8) \<longleftrightarrow> 5 \<le> i" "(of_nat (7 * i) :: u8) < 63 \<longleftrightarrow> i < 9"
    using i by (simp_all only: word_le_nat_alt word_less_nat_alt pos) auto
  have next_pos: "of_nat (7 * i) + 7 = (of_nat (7 * Suc i) :: u8)" by simp
  have lim: "(of_nat (7 * Suc i) :: u8) = 35 \<longleftrightarrow> i = 4"
  proof -
    have "unat (of_nat (7 * Suc i) :: u8) = 7 * Suc i" using i by (intro unat_bitpos) simp
    then show ?thesis by (simp only: word_unat_eq_iff) auto
  qed
  have t: "t = r' + 128 ^ Suc i * varint_val bs" by (simp add: t_def r'_def algebra_simps)
  have "128 ^ i * (unat b mod 128) \<le> 128 ^ i * 127" by (intro mult_le_mono2) simp
  then have "r' < 128 ^ i + 128 ^ i * 127" unfolding r'_def by (rule add_less_le_mono [OF Cons.prems(4)])
  then have r': "r' < 128 ^ Suc i" by simp
  have group: "(if 5 \<le> i then of_nat rr else (of_nat rr :: u32) OR push_bit (7 * i) (ucast (b AND 0x7F))) = of_nat r'"
    using group_low_bits [OF Cons.prems(4), of b] by (simp add: r'_def not_less [symmetric] split: if_splits)
  have check: "5 \<le> i \<and> b AND 0x7F \<noteq> 0 \<and> (drop_bit 31 (of_nat rr :: u32) = 0 \<or> b \<noteq> (if i < 9 then 0xFF else 0x01))
      \<longleftrightarrow> \<not> (5 \<le> i \<longrightarrow> high_byte_ok t i b)"
    using bit_low_word [of i rr "varint_val (b # bs)"] by (auto simp: high_byte_ok_def byte_7F t_def simp del: varint_val.simps)
  have step: "varint32_loop (of_nat (7 * i)) (of_nat rr) (input ((b # bs) @ rest) (length ((b # bs) @ rest)) e) =
      (if \<not> (5 \<le> i \<longrightarrow> high_byte_ok t i b) then pb_error ''varint overflow'' (input (bs @ rest) (length (bs @ rest)) e)
       else if 128 \<le> unat b then varint32_loop (of_nat (7 * Suc i)) (of_nat r') (input (bs @ rest) (length (bs @ rest)) e)
       else if i = 4 \<and> b AND 0x70 \<noteq> 0 then pb_error ''varint overflow'' (input (bs @ rest) (length (bs @ rest)) e)
       else (Some (of_nat r'), input (bs @ rest) (length (bs @ rest)) e))"
  proof -
    have rb: "pb_readbyte (input ((b # bs) @ rest) (length ((b # bs) @ rest)) e) = (Some b, input (bs @ rest) (length (bs @ rest)) e)"
      by (simp add: pb_readbyte_input)
    show ?thesis
      unfolding varint32_loop.simps [of "of_nat (7 * i)" "of_nat rr"] rb prod.case option.case Let_def pos big next_pos and_80_iff not_less lim
        check group ..
  qed
  show ?case
  proof (cases "bs = []")
    case True
    then have b: "unat b < 128" using Cons.prems(1) by simp
    then have tt: "t = r'" using True by (simp add: t)
    have "i = 4 \<Longrightarrow> t < 2 ^ 32 \<longleftrightarrow> unat b < 16"
    proof -
      assume "i = 4"
      then have "t = rr + 268435456 * unat b" "rr < 268435456" using b Cons.prems(4) by (simp_all add: tt r'_def)
      then have "t < 4294967296 \<longleftrightarrow> unat b < 16" by (intro iffI) linarith+
      then show ?thesis by simp
    qed
    then have ok: "varint32_ok t i (b # bs) \<longleftrightarrow> (5 \<le> i \<longrightarrow> high_byte_ok t i b) \<and> \<not> (i = 4 \<and> b AND 0x70 \<noteq> 0)"
      using True b by (auto simp: varint32_ok_def byte_70)
    have nb: "\<not> 128 \<le> unat b" using b by simp
    show ?thesis
      unfolding step t_def [symmetric] ok if_not_P [OF nb] unfolding tt True append_Nil
      by (cases "5 \<le> i \<longrightarrow> high_byte_ok r' i b"; cases "i = 4"; cases "b AND 0x70 = 0") (auto simp: fst_pb_error)
  next
    case False
    then have b: "128 \<le> unat b" "is_varint bs" using Cons.prems(1) by simp_all
    have IH: "if varint32_ok t (Suc i) bs
      then varint32_loop (of_nat (7 * Suc i)) (of_nat r') (input (bs @ rest) (length (bs @ rest)) e :: 's pb_istream) = (Some (of_nat t), input rest (length rest) e :: 's pb_istream)
      else fst (varint32_loop (of_nat (7 * Suc i)) (of_nat r') (input (bs @ rest) (length (bs @ rest)) e :: 's pb_istream)) = None"
      unfolding t by (rule Cons.IH [OF b(2) _ _ r']) (use Cons.prems(3) in simp_all)
    show ?thesis
    proof (cases "5 \<le> i \<longrightarrow> high_byte_ok t i b")
      case True
      then have ok: "(5 \<le> i \<longrightarrow> high_byte_ok t i b) = True" by simp
      show ?thesis unfolding step t_def [symmetric] varint32_ok_Cons [OF False] if_P [OF b(1)] ok
        unfolding simp_thms not_True_eq_False if_False by (rule IH)
    next
      case no: False
      then show ?thesis unfolding step t_def [symmetric] varint32_ok_Cons [OF False] by (simp add: fst_pb_error)
    qed
  qed
qed simp

section \<open>Properties\<close>

text \<open>C11: \<open>pb_decode_varint\<close> accepts exactly the varints of the format. On a buffer of which \<open>n\<close>
  bytes are readable it succeeds if and only if the readable bytes start with a varint (continuation
  bits set in all bytes but the last) of at most ten bytes; the result is the number its groups
  denote modulo 2^64, and the stream continues right after it.\<close>

theorem varint_decode_exact:
  "pb_decode_varint (input (take n xs) (length (take n xs)) e) = (Some v, s') \<longleftrightarrow>
    (\<exists>bs rest. take n xs = bs @ rest \<and> is_varint bs \<and> length bs \<le> 10 \<and>
       v = of_nat (varint_val bs) \<and> s' = input rest (length rest) e)"
proof -
  have "pb_decode_varint (input ys (length ys) e) = (Some v, s') \<longleftrightarrow>
      (\<exists>bs rest. ys = bs @ rest \<and> is_varint bs \<and> length bs \<le> 10 \<and>
         v = of_nat (varint_val bs) \<and> s' = input rest (length rest) e)" for ys
  proof -
    have "varint_loop (of_nat (7 * 0)) (of_nat 0) (input ys (length ys) e) = (Some v, s') \<longleftrightarrow>
        (\<exists>bs rest. ys = bs @ rest \<and> is_varint bs \<and> length bs \<le> length ys \<and> length bs + 0 \<le> 10 \<and>
           v = of_nat (0 + 128 ^ 0 * varint_val bs) \<and> s' = input rest (length ys - length bs) e)"
      by (rule varint_loop_iff) simp_all
    also have "\<dots> \<longleftrightarrow> (\<exists>bs rest. ys = bs @ rest \<and> is_varint bs \<and> length bs \<le> 10 \<and>
         v = of_nat (varint_val bs) \<and> s' = input rest (length rest) e)"
      by (intro iff_exI) auto
    finally show ?thesis by (simp add: pb_decode_varint_def)
  qed
  then show ?thesis .
qed

text \<open>C12: Varint round trip: into any buffer with room \<open>pb_encode_varint\<close> writes the canonical varint
  of its argument, of one to ten bytes, and fails with no room; \<open>pb_decode_varint\<close> reads the argument
  back from it, and so does \<open>pb_decode_varint32\<close> for every 32-bit argument.\<close>

theorem varint_roundtrip:
  "emits (pb_encode_varint v) (varint_bytes (unat v)) \<and>
   parses pb_decode_varint (varint_bytes (unat v)) v \<and>
   parses pb_decode_varint32 (varint_bytes (unat w)) w \<and>
   0 < length (varint_bytes (unat v)) \<and> length (varint_bytes (unat v)) \<le> 10"
  using emits_varint parses_varint_bytes parses_varint32 length_varint_u64 by auto

text \<open>Signed integers survive the zigzag encoding: what \<open>pb_encode_svarint\<close> writes
  \<open>pb_decode_svarint\<close> reads back, for every 64-bit value.\<close>

theorem svarint_roundtrip:
  "\<exists>bs. emits (pb_encode_svarint v) bs \<and> parses pb_decode_svarint bs v"
  unfolding pb_encode_svarint_def using emits_varint parses_svarint by blast

text \<open>The fixed-width encoders write the little-endian bytes of their argument, and the decoders
  read it back.\<close>

theorem fixed_roundtrip:
  "emits (pb_encode_fixed32 v) (le_bytes 4 (unat v)) \<and> parses pb_decode_fixed32 (le_bytes 4 (unat v)) v \<and>
   emits (pb_encode_fixed64 w) (le_bytes 8 (unat w)) \<and> parses pb_decode_fixed64 (le_bytes 8 (unat w)) w"
  using emits_fixed32 parses_fixed32 emits_fixed64 parses_fixed64 by blast

text \<open>Tags: for a field number below 2^29 other than 0 and a three-bit wire type,
  \<open>pb_decode_tag\<close> reads back what \<open>pb_encode_tag\<close> wrote, without the end-of-message flag, which it
  raises on an exhausted stream.\<close>

theorem tag_roundtrip:
  assumes "unat wt < 8" "unat fn < 2 ^ 29" "fn \<noteq> 0"
  shows "\<exists>bs. emits (pb_encode_tag wt fn) bs \<and>
    (\<forall>rest. pb_decode_tag (input (bs @ rest) (length (bs @ rest)) e) = (Some (wt, fn), False, input rest (length rest) e)) \<and>
    fst (snd (pb_decode_tag (input rest2 0 e)))"
proof (intro exI [of _ "varint_bytes (8 * unat fn + unat wt)"] conjI allI)
  show "emits (pb_encode_tag wt fn) (varint_bytes (8 * unat fn + unat wt))" by (rule emits_tag [OF assms(1,2)])
  show "pb_decode_tag (input (varint_bytes (8 * unat fn + unat wt) @ rest) (length (varint_bytes (8 * unat fn + unat wt) @ rest)) e)
      = (Some (wt, fn), False, input rest (length rest) e)" for rest
    by (subst decode_tag [OF assms]) simp_all
  show "fst (snd (pb_decode_tag (input rest2 0 e)))" by (rule decode_tag_end)
qed

lemma tag_roundtrip_witness:
  "\<exists>bs. emits (pb_encode_tag PB_WT_STRING 3) bs \<and>
    (\<forall>rest. pb_decode_tag (input (bs @ rest) (length (bs @ rest)) None :: unit pb_istream)
       = (Some (PB_WT_STRING, 3), False, input rest (length rest) None))"
  using tag_roundtrip [of PB_WT_STRING 3 None "[]"] by (auto simp: wire_type_defs)


text \<open>C13: No reader of the wire format leaves its buffer: started on a buffer with at most as many
  readable bytes as it holds, each one ends on the same buffer, moved forward by no more than the
  readable bytes, on success and on every error alike.\<close>

theorem readers_in_bounds:
  "in_bounds (pb_read n) \<and> in_bounds (pb_skip n) \<and> in_bounds pb_decode_varint \<and> in_bounds pb_decode_varint32 \<and>
   in_bounds pb_decode_svarint \<and> in_bounds pb_decode_fixed32 \<and> in_bounds pb_decode_fixed64 \<and>
   in_bounds (pb_skip_field wt) \<and> in_bounds (read_raw_value wt n) \<and>
   moves s (snd (snd (pb_decode_tag s)))"
  by (simp add: moves_decode_tag)

text \<open>A field that is not wanted is skipped exactly: for each wire type \<open>pb_skip_field\<close> passes over
  what the encoder of that type writes, and leaves the stream at the byte after it; a wire type the
  format does not have is an error.\<close>

theorem skip_field_exact:
  "parses (pb_skip_field PB_WT_VARINT) (varint_bytes (unat v)) () \<and>
   parses (pb_skip_field PB_WT_64BIT) (le_bytes 8 n) () \<and>
   parses (pb_skip_field PB_WT_STRING) (varint_bytes (length (take (2 ^ 32 - 1) bs)) @ take (2 ^ 32 - 1) bs) () \<and>
   parses (pb_skip_field PB_WT_32BIT) (le_bytes 4 n) () \<and>
   (wt \<notin> {PB_WT_VARINT, PB_WT_64BIT, PB_WT_STRING, PB_WT_32BIT} \<longrightarrow> fst (pb_skip_field wt s) = None)"
proof (intro conjI impI)
  show "parses (pb_skip_field PB_WT_VARINT) (varint_bytes (unat v)) ()"
    using parses_skip_varint [OF is_varint_bytes] by (simp add: pb_skip_field_def)
  show "parses (pb_skip_field PB_WT_64BIT) (le_bytes 8 n) ()" "parses (pb_skip_field PB_WT_32BIT) (le_bytes 4 n) ()"
    by (simp_all add: pb_skip_field_def wire_type_defs parses_pb_skip)
  have "length (take (2 ^ 32 - 1) bs) < 2 ^ 32" by simp
  then show "parses (pb_skip_field PB_WT_STRING) (varint_bytes (length (take (2 ^ 32 - 1) bs)) @ take (2 ^ 32 - 1) bs) ()"
    by (simp add: pb_skip_field_def wire_type_defs parses_skip_string del: length_take)
  show "fst (pb_skip_field wt s) = None" if "wt \<notin> {PB_WT_VARINT, PB_WT_64BIT, PB_WT_STRING, PB_WT_32BIT}"
    using that by (simp add: pb_skip_field_def pb_error_def)
qed

lemma skip_field_exact_witness: "fst (pb_skip_field 3 (input [] 0 None :: unit pb_istream)) = None"
  by (rule skip_field_exact [of 0 0 "[]" 3, THEN conjunct2, THEN conjunct2, THEN conjunct2, THEN conjunct2, THEN mp])
     (simp add: wire_type_defs)

text \<open>C14: Strings and substreams: \<open>pb_encode_string\<close> writes the length and the bytes; the substream
  that \<open>pb_make_string_substream\<close> makes holds exactly those bytes; and whatever a reader does with the
  substream, even if it fails half-way, closing it leaves the parent at the byte after the string.\<close>

theorem substream_isolates:
  assumes "length bs < 2 ^ 32" "in_bounds m"
  shows "\<exists>sub parent f. emits (pb_encode_string bs (length bs)) (varint_bytes (length bs) @ bs) \<and>
    pb_make_string_substream (input (varint_bytes (length bs) @ bs @ rest) (length (varint_bytes (length bs) @ bs @ rest)) e)
      = (Some sub, parent) \<and>
    fst (pb_read (length bs) sub) = Some bs \<and>
    pb_close_string_substream (snd (m sub)) parent = (Some (), input rest (length rest) f)"
proof -
  let ?sub = "input (bs @ rest) (length bs) e :: 'a pb_istream"
  let ?parent = "input (bs @ rest) (length rest) e :: 'a pb_istream"
  have make: "pb_make_string_substream (input (varint_bytes (length bs) @ bs @ rest)
      (length (varint_bytes (length bs) @ bs @ rest)) e) = (Some ?sub, ?parent)"
    by (subst make_substream [OF assms(1)]) simp_all
  have "moves ?sub (snd (m ?sub))" by (rule in_boundsD [OF assms(2)])
  moreover have "length bs \<le> length (bs @ rest)" by simp
  ultimately obtain k f where k: "k \<le> length bs" "snd (m ?sub) = input (drop k (bs @ rest)) (length bs - k) f"
    unfolding moves_def by blast
  have "pb_close_string_substream (snd (m ?sub)) ?parent = (Some (), input rest (length rest) f)"
    unfolding k(2) using k(1) by (subst close_substream) simp_all
  moreover have "fst (pb_read (length bs) ?sub) = Some bs"
    by (subst parsesD [OF parses_pb_read [OF refl]]) simp_all
  moreover have "emits (pb_encode_string bs (length bs)) (varint_bytes (length bs) @ bs)"
    by (rule emits_string) (use assms(1) in simp)
  ultimately show ?thesis using make by blast
qed

lemma substream_isolates_witness:
  "\<exists>sub parent f. pb_make_string_substream (input (varint_bytes (length [7, 8 :: u8]) @ [7, 8] @ [9])
      (length (varint_bytes (length [7, 8 :: u8]) @ [7, 8] @ [9])) None) = (Some (sub :: unit pb_istream), parent) \<and>
    pb_close_string_substream (snd (pb_decode_fixed32 sub)) parent = (Some (), input [9] (length [9 :: u8]) f)"
proof -
  have "length [7, 8 :: u8] < 2 ^ 32" by simp
  from substream_isolates [OF this, of "pb_decode_fixed32 :: (unit pb_istream, u32) op" "[9]" None]
  show ?thesis using in_bounds_fixed(1) by blast
qed

text \<open>Sizing streams agree with buffers: the number of bytes a stream without a callback counts for
  a varint, a tag, a fixed-width integer or a string is the number of bytes written to a buffer.\<close>

theorem sizing_exact:
  "counts (pb_encode_varint v) (length (varint_bytes (unat v))) \<and>
   (\<exists>n. counts (pb_encode_tag wt fn) n \<and> (\<exists>bs. emits (pb_encode_tag wt fn) bs \<and> length bs = n)) \<and>
   counts (pb_encode_fixed32 a) 4 \<and> counts (pb_encode_fixed64 b) 8 \<and>
   (let bs = take (2 ^ 32) xs in
    counts (pb_encode_string bs (length bs)) (length (varint_bytes (length bs)) + length bs) \<and>
    emits (pb_encode_string bs (length bs)) (varint_bytes (length bs) @ bs))"
proof (intro conjI)
  show "\<exists>n. counts (pb_encode_tag wt fn) n \<and> (\<exists>bs. emits (pb_encode_tag wt fn) bs \<and> length bs = n)"
    unfolding pb_encode_tag_def using counts_varint emits_varint by blast
  have "length (take (2 ^ 32) xs) < size_limit" by simp
  moreover have "counts (pb_encode_string bs (length bs)) (length (varint_bytes (length bs)) + length bs)"
    if "length bs < size_limit" for bs
    unfolding pb_encode_string_def
    using counts_bind [OF counts_varint [of "of_nat (length bs)"] counts_pb_write [of bs "length bs"]] that
    by (simp add: unsigned_of_nat take_bit_nat_eq_self)
  ultimately show "let bs = take (2 ^ 32) xs in
    counts (pb_encode_string bs (length bs)) (length (varint_bytes (length bs)) + length bs) \<and>
    emits (pb_encode_string bs (length bs)) (varint_bytes (length bs) @ bs)"
    unfolding Let_def using emits_string by blast
qed (simp_all add: counts_varint pb_encode_fixed32_def pb_encode_fixed64_def counts_pb_write)

text \<open>
  C15: What the 32-bit reader does on every varint of at most ten bytes: the result is always the low 32 bits of the
  number, and it is refused exactly when bits beyond 32 are set in a fifth byte that is the last one, or a later byte is
  neither zero padding nor the sign extension of a number with bit 31. So the reader misses overflows: a number whose
  groups from the sixth on are zero padding is accepted with any bits 32 to 34.
\<close>

theorem varint32_misses_overflow:
  assumes "is_varint bs" "length bs \<le> 10"
  shows "(if varint32_ok (varint_val bs) 0 bs
      then pb_decode_varint32 (input (bs @ rest) (length (bs @ rest)) e :: 's pb_istream) = (Some (of_nat (varint_val bs)), input rest (length rest) e :: 's pb_istream)
      else fst (pb_decode_varint32 (input (bs @ rest) (length (bs @ rest)) e :: 's pb_istream)) = None)
    \<and> (5 < length bs \<and> (\<forall>b \<in> set (drop 5 bs). unat b mod 128 = 0) \<longrightarrow> varint32_ok (varint_val bs) 0 bs)"
proof
  obtain b cs where bs: "bs = b # cs" using assms(1) by (cases bs) auto
  show "if varint32_ok (varint_val bs) 0 bs
      then pb_decode_varint32 (input (bs @ rest) (length (bs @ rest)) e :: 's pb_istream) = (Some (of_nat (varint_val bs)), input rest (length rest) e :: 's pb_istream)
      else fst (pb_decode_varint32 (input (bs @ rest) (length (bs @ rest)) e :: 's pb_istream)) = None"
  proof (cases "cs = []")
    case True
    then have "unat b < 128" using assms(1) bs by simp
    moreover have "(ucast b :: u32) = of_nat (unat b)" by simp
    ultimately show ?thesis using True by (simp add: bs pb_decode_varint32_input varint32_ok_def del: of_nat_unat)
  next
    case False
    then have b: "128 \<le> unat b" "is_varint cs" using assms(1) bs by simp_all
    have v: "unat b mod 128 + 128 ^ 1 * varint_val cs = varint_val bs" by (simp add: bs)
    have low: "(ucast (b AND 0x7F) :: u32) = of_nat (unat b mod 128)"
      using group_low_bits [of 0 0 b] by simp
    have ok: "varint32_ok (varint_val bs) 0 bs \<longleftrightarrow> varint32_ok (varint_val bs) 1 cs" unfolding bs varint32_ok_Cons [OF False] by simp
    have run: "pb_decode_varint32 (input (bs @ rest) (length (bs @ rest)) e :: 's pb_istream)
        = varint32_loop (of_nat (7 * 1)) (of_nat (unat b mod 128)) (input (cs @ rest) (length (cs @ rest)) e :: 's pb_istream)"
      using b(1) by (simp add: bs pb_decode_varint32_input low)
    have "if varint32_ok (unat b mod 128 + 128 ^ 1 * varint_val cs) 1 cs
      then varint32_loop (of_nat (7 * 1)) (of_nat (unat b mod 128)) (input (cs @ rest) (length (cs @ rest)) e :: 's pb_istream)
        = (Some (of_nat (unat b mod 128 + 128 ^ 1 * varint_val cs)), input rest (length rest) e :: 's pb_istream)
      else fst (varint32_loop (of_nat (7 * 1)) (of_nat (unat b mod 128)) (input (cs @ rest) (length (cs @ rest)) e :: 's pb_istream)) = None"
      using assms(2) bs by (intro varint32_loop_groups b(2)) simp_all
    then show ?thesis unfolding v ok run .
  qed
  have "unat (bs ! j) mod 128 = 0" if "\<forall>b \<in> set (drop 5 bs). unat b mod 128 = 0" "5 \<le> j" "j < length bs" for j
    using that nth_mem [of "j - 5" "drop 5 bs"] by simp
  then show "5 < length bs \<and> (\<forall>b \<in> set (drop 5 bs). unat b mod 128 = 0) \<longrightarrow> varint32_ok (varint_val bs) 0 bs"
    by (auto simp: varint32_ok_def high_byte_ok_def)
qed

text \<open>Six bytes: the varint of 0x700000000, which \<open>pb_decode_varint\<close> reads correctly, is accepted as 0.\<close>

theorem varint32_misses_overflow_witness:
  "pb_decode_varint32 (input [0x80, 0x80, 0x80, 0x80, 0xF0, 0x00] 6 None) = (Some 0, input [] 0 None)
    \<and> varint_val [0x80, 0x80, 0x80, 0x80, 0xF0, 0x00] = 0x700000000"
proof -
  have v: "is_varint [0x80, 0x80, 0x80, 0x80, 0xF0, 0x00]" "length [0x80, 0x80, 0x80, 0x80, 0xF0, 0x00 :: u8] \<le> 10" by simp_all
  note t = varint32_misses_overflow [OF v, of "[]" None]
  have ok: "varint32_ok (varint_val [0x80, 0x80, 0x80, 0x80, 0xF0, 0x00]) 0 [0x80, 0x80, 0x80, 0x80, 0xF0, 0x00]"
    by (rule mp [OF conjunct2 [OF t]]) simp
  have z: "(of_nat 0x700000000 :: u32) = 0" by (simp only: word_unat_eq_iff unsigned_of_nat take_bit_eq_mod) simp
  have n: "varint_val [0x80, 0x80, 0x80, 0x80, 0xF0, 0x00] = 0x700000000" by simp
  have l: "length [0x80, 0x80, 0x80, 0x80, 0xF0, 0x00 :: u8] = 6" "length ([] :: u8 list) = 0" by simp_all
  show ?thesis using conjunct1 [OF t, unfolded if_P [OF ok]] unfolding append_Nil2 l n z by blast
qed

text \<open>Nor does it bound the length of a varint: the bit position is an 8-bit counter that wraps after
  37 bytes, so that 37 bytes of padding before a last byte 1 are read as the number 8.\<close>

theorem varint32_position_wraps:
  "pb_decode_varint32 (input (replicate 37 0x80 @ [1]) 38 None) = (Some 8, input [] 0 None)"
proof -
  have "replicate 37 (0x80 :: u8) = [0x80, 0x80, 0x80, 0x80, 0x80, 0x80, 0x80, 0x80, 0x80, 0x80, 0x80, 0x80, 0x80,
      0x80, 0x80, 0x80, 0x80, 0x80, 0x80, 0x80, 0x80, 0x80, 0x80, 0x80, 0x80, 0x80, 0x80, 0x80, 0x80, 0x80, 0x80,
      0x80, 0x80, 0x80, 0x80, 0x80, 0x80]"
    by (simp add: numeral_eq_Suc)
  then show ?thesis
    by (simp add: pb_decode_varint32_def pb_decode_varint32_eof_def varint32_loop.simps pb_readbyte_input)
qed

end
