(* ===== verification/Pb_Scalar.thy ===== *)
theory Pb_Scalar imports Pb_Wire begin

text \<open>
  The field encoders and decoders of nanopb for scalars, byte strings and strings
  (\<open>pb_enc_*\<close>, \<open>pb_dec_*\<close>), \<open>pb_encode_tag_for_field\<close> and \<open>allocate_field\<close>.

  A field of a message structure is the memory it occupies, a list of bytes with integers stored
  least significant byte first. For a field of pointer type the memory is the allocated block, \<open>None\<close>
  for NULL. A decoder returns its result, the memory it leaves and the stream.
\<close>

section \<open>Field descriptors\<close>

record pb_field =
  ftag :: u32
  ftype :: u8
  fdata_size :: nat
  farray_size :: nat

definition PB_ATYPE :: "u8 \<Rightarrow> u8" where "PB_ATYPE x = x AND 0xC0"
definition PB_HTYPE :: "u8 \<Rightarrow> u8" where "PB_HTYPE x = x AND 0x30"
definition PB_LTYPE :: "u8 \<Rightarrow> u8" where "PB_LTYPE x = x AND 0x0F"

definition PB_ATYPE_STATIC :: u8 where "PB_ATYPE_STATIC = 0x00"
definition PB_ATYPE_POINTER :: u8 where "PB_ATYPE_POINTER = 0x80"

definition PB_LTYPE_BOOL :: u8 where "PB_LTYPE_BOOL = 0x00"
definition PB_LTYPE_VARINT :: u8 where "PB_LTYPE_VARINT = 0x01"
definition PB_LTYPE_UVARINT :: u8 where "PB_LTYPE_UVARINT = 0x02"
definition PB_LTYPE_SVARINT :: u8 where "PB_LTYPE_SVARINT = 0x03"
definition PB_LTYPE_FIXED32 :: u8 where "PB_LTYPE_FIXED32 = 0x04"
definition PB_LTYPE_FIXED64 :: u8 where "PB_LTYPE_FIXED64 = 0x05"
definition PB_LTYPE_BYTES :: u8 where "PB_LTYPE_BYTES = 0x06"
definition PB_LTYPE_STRING :: u8 where "PB_LTYPE_STRING = 0x07"
definition PB_LTYPE_SUBMESSAGE :: u8 where "PB_LTYPE_SUBMESSAGE = 0x08"
definition PB_LTYPE_FIXED_LENGTH_BYTES :: u8 where "PB_LTYPE_FIXED_LENGTH_BYTES = 0x0A"

lemmas ltype_defs = PB_LTYPE_BOOL_def PB_LTYPE_VARINT_def PB_LTYPE_UVARINT_def PB_LTYPE_SVARINT_def
  PB_LTYPE_FIXED32_def PB_LTYPE_FIXED64_def PB_LTYPE_BYTES_def PB_LTYPE_STRING_def PB_LTYPE_SUBMESSAGE_def
  PB_LTYPE_FIXED_LENGTH_BYTES_def

definition pb_encode_tag_for_field :: "pb_field \<Rightarrow> ('s pb_ostream, unit) op" where
  "pb_encode_tag_for_field field =
     (let ltype = PB_LTYPE (ftype field) in
      if ltype = PB_LTYPE_BOOL \<or> ltype = PB_LTYPE_VARINT \<or> ltype = PB_LTYPE_UVARINT \<or> ltype = PB_LTYPE_SVARINT
      then pb_encode_tag PB_WT_VARINT (ftag field)
      else if ltype = PB_LTYPE_FIXED32 then pb_encode_tag PB_WT_32BIT (ftag field)
      else if ltype = PB_LTYPE_FIXED64 then pb_encode_tag PB_WT_64BIT (ftag field)
      else if ltype = PB_LTYPE_BYTES \<or> ltype = PB_LTYPE_STRING \<or> ltype = PB_LTYPE_SUBMESSAGE
           \<or> ltype = PB_LTYPE_FIXED_LENGTH_BYTES
      then pb_encode_tag PB_WT_STRING (ftag field)
      else pb_oerror ''invalid field type'')"

section \<open>Integers in memory\<close>

definition load_unsigned :: "nat \<Rightarrow> u8 list \<Rightarrow> u64" where
  "load_unsigned k mem = of_nat (le_val (take k mem))"

definition load_signed :: "nat \<Rightarrow> u8 list \<Rightarrow> u64" where
  "load_signed k mem = signed_take_bit (8 * k - 1) (load_unsigned k mem)"

definition store :: "nat \<Rightarrow> u64 \<Rightarrow> u8 list \<Rightarrow> u8 list" where
  "store k v dest = le_bytes k (unat v) @ drop k dest"

text \<open>Conversion to a signed integer of \<open>k\<close> bytes.\<close>

definition cast_signed :: "nat \<Rightarrow> u64 \<Rightarrow> u64" where
  "cast_signed k v = signed_take_bit (8 * k - 1) v"

definition int_size :: "nat \<Rightarrow> bool" where
  "int_size k \<longleftrightarrow> k = 1 \<or> k = 2 \<or> k = 4 \<or> k = 8"

section \<open>Encoders\<close>

definition safe_read_bool :: "u8 list \<Rightarrow> bool" where
  "safe_read_bool p = (\<exists>b \<in> set (take 1 p). b \<noteq> 0)"

definition pb_enc_bool :: "u8 list \<Rightarrow> ('s pb_ostream, unit) op" where
  "pb_enc_bool src = pb_encode_varint (if safe_read_bool src then 1 else 0)"

definition pb_enc_varint :: "pb_field \<Rightarrow> u8 list \<Rightarrow> ('s pb_ostream, unit) op" where
  "pb_enc_varint field src =
     (if int_size (fdata_size field) then pb_encode_varint (load_signed (fdata_size field) src)
      else pb_oerror ''invalid data_size'')"

definition pb_enc_uvarint :: "pb_field \<Rightarrow> u8 list \<Rightarrow> ('s pb_ostream, unit) op" where
  "pb_enc_uvarint field src =
     (if int_size (fdata_size field) then pb_encode_varint (load_unsigned (fdata_size field) src)
      else pb_oerror ''invalid data_size'')"

definition pb_enc_svarint :: "pb_field \<Rightarrow> u8 list \<Rightarrow> ('s pb_ostream, unit) op" where
  "pb_enc_svarint field src =
     (if int_size (fdata_size field) then pb_encode_svarint (load_signed (fdata_size field) src)
      else pb_oerror ''invalid data_size'')"

definition pb_enc_fixed32 :: "u8 list \<Rightarrow> ('s pb_ostream, unit) op" where
  "pb_enc_fixed32 src = pb_encode_fixed32 (of_nat (le_val (take 4 src)))"

definition pb_enc_fixed64 :: "u8 list \<Rightarrow> ('s pb_ostream, unit) op" where
  "pb_enc_fixed64 src = pb_encode_fixed64 (of_nat (le_val (take 8 src)))"

text \<open>
  A \<open>pb_bytes_array_t\<close> is its four-byte \<open>size\<close> and then the bytes, at the offset of \<open>bytes\<close>.
\<close>

definition offsetof_bytes :: nat where
  "offsetof_bytes = 4"

definition PB_BYTES_ARRAY_T_ALLOCSIZE :: "nat \<Rightarrow> nat" where
  "PB_BYTES_ARRAY_T_ALLOCSIZE n = size_add n offsetof_bytes"

definition pb_enc_bytes :: "pb_field \<Rightarrow> u8 list option \<Rightarrow> ('s pb_ostream, unit) op" where
  "pb_enc_bytes field src =
     (case src of
        None \<Rightarrow> pb_encode_string [] 0
      | Some bytes \<Rightarrow>
          let sz = le_val (take 4 bytes);
              allocsize = PB_BYTES_ARRAY_T_ALLOCSIZE sz in
          if allocsize < sz \<or> (PB_ATYPE (ftype field) = PB_ATYPE_STATIC \<and> fdata_size field < allocsize)
          then pb_oerror ''bytes size exceeded''
          else pb_encode_string (drop offsetof_bytes bytes) sz)"

text \<open>The \<open>strnlen\<close> loop.\<close>

fun strnlen_loop :: "nat \<Rightarrow> u8 list \<Rightarrow> nat" where
  "strnlen_loop 0 p = 0"
| "strnlen_loop (Suc room) [] = 0"
| "strnlen_loop (Suc room) (c # p) = (if c = 0 then 0 else Suc (strnlen_loop room p))"

definition pb_enc_string :: "pb_field \<Rightarrow> u8 list option \<Rightarrow> ('s pb_ostream, unit) op" where
  "pb_enc_string field src =
     (let room = (if PB_ATYPE (ftype field) = PB_ATYPE_POINTER then 2 ^ 64 - 1 else fdata_size field) in
      case src of
        None \<Rightarrow> pb_encode_string [] 0
      | Some p \<Rightarrow> pb_encode_string p (strnlen_loop (min room (length p)) p))"

definition pb_enc_fixed_length_bytes :: "pb_field \<Rightarrow> u8 list \<Rightarrow> ('s pb_ostream, unit) op" where
  "pb_enc_fixed_length_bytes field src = pb_encode_string src (fdata_size field)"

section \<open>Decoders\<close>

text \<open>An error that leaves the memory as given.\<close>

definition dec_error :: "string \<Rightarrow> 'm \<Rightarrow> 's pb_istream \<Rightarrow> bool \<times> 'm \<times> 's pb_istream" where
  "dec_error msg dest s = (case pb_error msg s :: unit option \<times> _ of (_, s') \<Rightarrow> (False, dest, s'))"

definition pb_dec_bool :: "u8 list \<Rightarrow> 's pb_istream \<Rightarrow> bool \<times> u8 list \<times> 's pb_istream" where
  "pb_dec_bool dest s =
     (case pb_decode_varint32 s of
        (None, s) \<Rightarrow> (False, dest, s)
      | (Some v, s) \<Rightarrow> (True, (if v \<noteq> 0 then 1 else 0) # drop 1 dest, s))"

definition pb_decode_bool :: "u8 list \<Rightarrow> 's pb_istream \<Rightarrow> bool \<times> u8 list \<times> 's pb_istream" where
  "pb_decode_bool dest s = pb_dec_bool dest s"

text \<open>Storing \<open>clamped\<close> and failing when it is not \<open>v\<close>.\<close>

definition store_checked ::
  "nat \<Rightarrow> u64 \<Rightarrow> u64 \<Rightarrow> u8 list \<Rightarrow> 's pb_istream \<Rightarrow> bool \<times> u8 list \<times> 's pb_istream"
where
  "store_checked k clamped v dest s =
     (let dest = store k clamped dest in
      if clamped \<noteq> v then dec_error ''integer too large'' dest s else (True, dest, s))"

definition pb_dec_varint :: "pb_field \<Rightarrow> u8 list \<Rightarrow> 's pb_istream \<Rightarrow> bool \<times> u8 list \<times> 's pb_istream" where
  "pb_dec_varint field dest s =
     (case pb_decode_varint s of
        (None, s) \<Rightarrow> (False, dest, s)
      | (Some v, s) \<Rightarrow>
          let svalue = (if fdata_size field = 8 then v else cast_signed 4 v) in
          if int_size (fdata_size field)
          then store_checked (fdata_size field) (cast_signed (fdata_size field) svalue) svalue dest s
          else dec_error ''invalid data_size'' dest s)"

definition pb_dec_uvarint :: "pb_field \<Rightarrow> u8 list \<Rightarrow> 's pb_istream \<Rightarrow> bool \<times> u8 list \<times> 's pb_istream" where
  "pb_dec_uvarint field dest s =
     (case pb_decode_varint s of
        (None, s) \<Rightarrow> (False, dest, s)
      | (Some v, s) \<Rightarrow>
          if int_size (fdata_size field)
          then store_checked (fdata_size field) (take_bit (8 * fdata_size field) v) v dest s
          else dec_error ''invalid data_size'' dest s)"

definition pb_dec_svarint :: "pb_field \<Rightarrow> u8 list \<Rightarrow> 's pb_istream \<Rightarrow> bool \<times> u8 list \<times> 's pb_istream" where
  "pb_dec_svarint field dest s =
     (case pb_decode_svarint s of
        (None, s) \<Rightarrow> (False, dest, s)
      | (Some v, s) \<Rightarrow>
          if int_size (fdata_size field)
          then store_checked (fdata_size field) (cast_signed (fdata_size field) v) v dest s
          else dec_error ''invalid data_size'' dest s)"

definition pb_dec_fixed32 :: "u8 list \<Rightarrow> 's pb_istream \<Rightarrow> bool \<times> u8 list \<times> 's pb_istream" where
  "pb_dec_fixed32 dest s =
     (case pb_decode_fixed32 s of
        (None, s) \<Rightarrow> (False, dest, s)
      | (Some v, s) \<Rightarrow> (True, store 4 (ucast v) dest, s))"

definition pb_dec_fixed64 :: "u8 list \<Rightarrow> 's pb_istream \<Rightarrow> bool \<times> u8 list \<times> 's pb_istream" where
  "pb_dec_fixed64 dest s =
     (case pb_decode_fixed64 s of
        (None, s) \<Rightarrow> (False, dest, s)
      | (Some v, s) \<Rightarrow> (True, store 8 v dest, s))"

text \<open>
  The C library's \<open>realloc\<close> (\<open>pb_realloc\<close>) is a parameter: the block it returns has the requested
  size and starts with what fits of the old block.
\<close>

type_synonym realloc_fn = "u8 list option \<Rightarrow> nat \<Rightarrow> u8 list option"

definition realloc_spec :: "realloc_fn \<Rightarrow> bool" where
  "realloc_spec re \<longleftrightarrow> (\<forall>p n b. re p n = Some b \<longrightarrow> length b = n \<and>
     (\<forall>old. p = Some old \<longrightarrow> take (length old) b = take n old))"

definition allocate_field :: "realloc_fn \<Rightarrow> u8 list option \<Rightarrow> nat \<Rightarrow> nat \<Rightarrow> ('s pb_istream, u8 list) op" where
  "allocate_field re ptr data_size array_size s =
     (if data_size = 0 \<or> array_size = 0 then pb_error ''invalid size'' s
      else if (2 ^ 32 \<le> data_size \<or> 2 ^ 32 \<le> array_size) \<and> (2 ^ 64 - 1) div array_size < data_size
      then pb_error ''size too large'' s
      else
        (case re ptr (array_size * data_size mod size_limit) of
           None \<Rightarrow> pb_error ''realloc failed'' s
         | Some p \<Rightarrow> (Some p, s)))"

text \<open>Writing \<open>bs\<close> at an offset of the memory.\<close>

definition write_at :: "nat \<Rightarrow> u8 list \<Rightarrow> u8 list \<Rightarrow> u8 list" where
  "write_at off bs mem = take off mem @ bs @ drop (off + length bs) mem"

text \<open>
  The block of a bytes or string field of \<open>alloc_size\<close> bytes: newly allocated for a pointer field,
  after the check that the stream holds the data; the field's own memory otherwise.
\<close>

definition dec_block ::
  "realloc_fn \<Rightarrow> pb_field \<Rightarrow> string \<Rightarrow> u32 \<Rightarrow> nat \<Rightarrow> u8 list option \<Rightarrow> ('s pb_istream, u8 list) op"
where
  "dec_block re field msg sz alloc_size dest s =
     (if PB_ATYPE (ftype field) = PB_ATYPE_POINTER then
        if bytes_left s < unat sz then pb_error ''end-of-stream'' s
        else allocate_field re dest alloc_size 1 s
      else if fdata_size field < alloc_size then pb_error msg s
      else (Some (the dest), s))"

definition pb_dec_bytes ::
  "realloc_fn \<Rightarrow> pb_field \<Rightarrow> u8 list option \<Rightarrow> 's pb_istream \<Rightarrow> bool \<times> u8 list option \<times> 's pb_istream"
where
  "pb_dec_bytes re field dest s =
     (case pb_decode_varint32 s of
        (None, s) \<Rightarrow> (False, dest, s)
      | (Some sz, s) \<Rightarrow>
          let alloc_size = PB_BYTES_ARRAY_T_ALLOCSIZE (unat sz) in
          if alloc_size < unat sz then dec_error ''size too large'' dest s
          else
            (case dec_block re field ''bytes overflow'' sz alloc_size dest s of
               (None, s) \<Rightarrow> (False, dest, s)
             | (Some bdest, s) \<Rightarrow>
                 let bdest = write_at 0 (le_bytes 4 (unat sz)) bdest in
                 (case pb_read (unat sz) s of
                    (None, s) \<Rightarrow> (False, Some bdest, s)
                  | (Some bs, s) \<Rightarrow> (True, Some (write_at offsetof_bytes bs bdest), s))))"

text \<open>\<open>size + 1\<close> is computed in 32 bits.\<close>

definition pb_dec_string ::
  "realloc_fn \<Rightarrow> pb_field \<Rightarrow> u8 list option \<Rightarrow> 's pb_istream \<Rightarrow> bool \<times> u8 list option \<times> 's pb_istream"
where
  "pb_dec_string re field dest s =
     (case pb_decode_varint32 s of
        (None, s) \<Rightarrow> (False, dest, s)
      | (Some sz, s) \<Rightarrow>
          let alloc_size = unat (sz + 1) in
          if alloc_size < unat sz then dec_error ''size too large'' dest s
          else
            (case dec_block re field ''string overflow'' sz alloc_size dest s of
               (None, s) \<Rightarrow> (False, dest, s)
             | (Some d, s) \<Rightarrow>
                 (case pb_read (unat sz) s of
                    (None, s) \<Rightarrow> (False, Some (write_at (unat sz) [0] d), s)
                  | (Some bs, s) \<Rightarrow> (True, Some (write_at (unat sz) [0] (write_at 0 bs d)), s))))"

definition pb_dec_fixed_length_bytes ::
  "pb_field \<Rightarrow> u8 list \<Rightarrow> 's pb_istream \<Rightarrow> bool \<times> u8 list \<times> 's pb_istream"
where
  "pb_dec_fixed_length_bytes field dest s =
     (case pb_decode_varint32 s of
        (None, s) \<Rightarrow> (False, dest, s)
      | (Some sz, s) \<Rightarrow>
          if sz = 0 then (True, write_at 0 (replicate (fdata_size field) 0) dest, s)
          else if unat sz \<noteq> fdata_size field then dec_error ''incorrect fixed length bytes size'' dest s
          else
            (case pb_read (fdata_size field) s of
               (None, s) \<Rightarrow> (False, dest, s)
             | (Some bs, s) \<Rightarrow> (True, write_at 0 bs dest, s)))"

end
