(* ===== verification/Pb_Fields.thy ===== *)
theory Pb_Fields imports Pb_Scalar begin

text \<open>
  Correctness of nanopb's field encoders and decoders: every scalar, byte string and string is decoded to
  the memory it was encoded from, the decoders reject what does not fit and write inside the field.
\<close>

section \<open>Integers in memory\<close>

lemma le_bytes_mod: "le_bytes k (n mod 256 ^ k) = le_bytes k n"
proof (induction k arbitrary: n)
  case (Suc k)
  have "n mod (256 * 256 ^ k) div 256 = (n div 256) mod 256 ^ k"
    by (metis div_mult2_eq mod_mult2_eq div_mult_mod_eq mult.commute nonzero_mult_div_cancel_left
        add.commute div_mult_self1 mod_div_trivial add_0 zero_neq_numeral)
  moreover have "byte (n mod (256 * 256 ^ k)) = byte n" by (simp add: byte_eq_iff mod_mult_self2_is_0 mod_mod_cancel)
  ultimately show ?case using Suc [of "n div 256"] by simp
qed simp

lemma int_size_bits: "int_size k \<Longrightarrow> 8 * k \<le> 64" "int_size k \<Longrightarrow> 8 * k = Suc (8 * k - 1)"
  by (auto simp: int_size_def)

lemma store_low:
  assumes "length src = k" "int_size k" "take_bit (8 * k) v = take_bit (8 * k) (load_unsigned k src)"
  shows "store k v dest = src @ drop k dest"
proof -
  have p: "(256 :: nat) ^ k = 2 ^ (8 * k)" by (simp add: power_mult)
  have "le_val src < 2 ^ (8 * k)" using le_val_less [of src] assms(1) p by simp
  moreover have "(2 :: nat) ^ (8 * k) \<le> 2 ^ 64" using int_size_bits(1) [OF assms(2)] by (intro power_increasing) simp_all
  ultimately have small: "le_val src < 2 ^ (8 * k)" "le_val src < 2 ^ 64" by linarith+
  have low: "unat w mod 2 ^ (8 * k) = unat (take_bit (8 * k) w)" for w :: u64
    by (subst unsigned_take_bit_eq) (rule take_bit_eq_mod [symmetric])
  have "unat v mod 2 ^ (8 * k) = unat (load_unsigned k src) mod 2 ^ (8 * k)"
    unfolding low assms(3) ..
  also have "\<dots> = le_val src"
    using small assms(1) by (simp add: load_unsigned_def unsigned_of_nat take_bit_eq_mod)
  finally have "le_bytes k (unat v) = src"
    using le_bytes_mod [of k "unat v"] le_bytes_le_val [OF assms(1)] by (simp only: p)
  then show ?thesis by (simp add: store_def)
qed

lemma take_bit_cast_signed: "int_size k \<Longrightarrow> take_bit (8 * k) (cast_signed k v) = take_bit (8 * k) v"
  using int_size_bits(2) [of k] by (simp add: cast_signed_def take_bit_signed_take_bit)

lemma cast_signed_idem: "cast_signed k (cast_signed k v) = cast_signed k v"
  by (simp add: cast_signed_def)

lemma cast_signed_8: "cast_signed 8 v = v"
proof (rule bit_word_eqI)
  fix n assume "n < LENGTH(64)"
  then have "min 63 n = n" by simp
  then show "bit (cast_signed 8 v) n = bit v n" using \<open>n < LENGTH(64)\<close> by (simp add: cast_signed_def bit_signed_take_bit_iff)
qed

lemma signed_narrow:
  assumes "int_size k" "k \<noteq> 8"
  shows "cast_signed k (cast_signed 4 (cast_signed k v)) = cast_signed k v" "cast_signed 4 (cast_signed k v) = cast_signed k v"
proof -
  have k: "8 * k - 1 \<le> 31" using assms by (auto simp: int_size_def)
  then show "cast_signed 4 (cast_signed k v) = cast_signed k v"
    by (simp add: cast_signed_def min_def)
  then show "cast_signed k (cast_signed 4 (cast_signed k v)) = cast_signed k v"
    by (simp add: cast_signed_idem)
qed

section \<open>Round trips\<close>

text \<open>A decoder of a field that reads \<open>bs\<close> and leaves the memory \<open>mem dest\<close>.\<close>

definition dec_parses ::
  "('m \<Rightarrow> 's pb_istream \<Rightarrow> bool \<times> 'm \<times> 's pb_istream) \<Rightarrow> u8 list \<Rightarrow> ('m \<Rightarrow> 'm) \<Rightarrow> bool"
where
  "dec_parses m bs f \<longleftrightarrow> (\<forall>dest rest n e. length bs \<le> n \<longrightarrow> n \<le> length bs + length rest \<longrightarrow>
     m dest (input (bs @ rest) n e) = (True, f dest, input rest (n - length bs) e))"

lemma store_checked_ok: "c = v \<Longrightarrow> store_checked k c v dest s = (True, store k c dest, s)"
  by (simp add: store_checked_def)

lemma dec_parses_step:
  assumes "parses d bs v" "\<And>dest s. k v dest s = (True, f dest, s)"
  shows "dec_parses (\<lambda>dest s. case d s of (None, s) \<Rightarrow> (False, dest, s) | (Some v, s) \<Rightarrow> k v dest s) bs f"
  unfolding dec_parses_def using parsesD [OF assms(1)] assms(2) by simp

lemma dec_parses_ext: "dec_parses m bs f \<Longrightarrow> (\<And>dest s. m dest s = m' dest s) \<Longrightarrow> dec_parses m' bs f"
  by (simp add: dec_parses_def)

lemma dec_varint_parses:
  assumes "int_size k" "length src = k" "fdata_size f = k"
  shows "dec_parses (pb_dec_varint f) (varint_bytes (unat (load_signed k src))) (\<lambda>dest. src @ drop k dest)"
proof -
  let ?v = "load_signed k src"
  have v: "?v = cast_signed k (load_unsigned k src)" by (simp add: load_signed_def cast_signed_def)
  let ?sv = "if k = 8 then ?v else cast_signed 4 ?v"
  have sv: "?sv = ?v" unfolding v using signed_narrow(2) [OF assms(1)] by (cases "k = 8") simp_all
  have "cast_signed k ?v = ?v" unfolding v by (rule cast_signed_idem)
  moreover have "store k ?v dest = src @ drop k dest" for dest
    using take_bit_cast_signed [OF assms(1)] v by (intro store_low [OF assms(2,1)]) simp
  ultimately show ?thesis
    unfolding pb_dec_varint_def
    by (intro dec_parses_step [OF parses_varint_bytes]) (use assms sv in \<open>simp add: store_checked_ok\<close>)
qed

lemma dec_uvarint_parses:
  assumes "int_size k" "length src = k" "fdata_size f = k"
  shows "dec_parses (pb_dec_uvarint f) (varint_bytes (unat (load_unsigned k src))) (\<lambda>dest. src @ drop k dest)"
proof -
  have "le_val src < 256 ^ k" using le_val_less [of src] assms(2) by simp
  then have "le_val src < 2 ^ (8 * k)" by (simp add: power_mult)
  then have "take_bit (8 * k) (load_unsigned k src) = load_unsigned k src"
    using assms(2) by (simp add: load_unsigned_def take_bit_of_nat take_bit_nat_eq_self)
  moreover have "store k (load_unsigned k src) dest = src @ drop k dest" for dest
    by (rule store_low [OF assms(2,1)]) simp
  ultimately show ?thesis
    unfolding pb_dec_uvarint_def
    by (intro dec_parses_step [OF parses_varint_bytes]) (use assms in \<open>simp add: store_checked_ok\<close>)
qed

lemma dec_svarint_parses:
  assumes "int_size k" "length src = k" "fdata_size f = k"
  shows "dec_parses (pb_dec_svarint f)
      (varint_bytes (unat (if sint (load_signed k src) < 0 then NOT (push_bit 1 (load_signed k src)) else push_bit 1 (load_signed k src))))
      (\<lambda>dest. src @ drop k dest)"
proof -
  let ?v = "load_signed k src"
  have v: "?v = cast_signed k (load_unsigned k src)" by (simp add: load_signed_def cast_signed_def)
  have "cast_signed k ?v = ?v" unfolding v by (rule cast_signed_idem)
  moreover have "store k ?v dest = src @ drop k dest" for dest
    using take_bit_cast_signed [OF assms(1)] v by (intro store_low [OF assms(2,1)]) simp
  ultimately show ?thesis
    unfolding pb_dec_svarint_def
    by (intro dec_parses_step [OF parses_svarint]) (use assms in \<open>simp add: store_checked_ok\<close>)
qed

lemma enc_svarint_emits:
  assumes "int_size k" "length src = k" "fdata_size f = k"
  shows "emits (pb_enc_svarint f src)
      (varint_bytes (unat (if sint (load_signed k src) < 0 then NOT (push_bit 1 (load_signed k src)) else push_bit 1 (load_signed k src))))"
  unfolding pb_enc_svarint_def pb_encode_svarint_def assms(3) Let_def by (simp only: assms(1) if_True emits_varint)

lemma fixed_le_val:
  "length src = 4 \<Longrightarrow> le_bytes 4 (unat (of_nat (le_val src) :: u32)) = src"
  "length src' = 8 \<Longrightarrow> le_bytes 8 (unat (of_nat (le_val src') :: u64)) = src'"
  using le_val_less [of src] le_val_less [of src'] le_bytes_le_val [of src 4] le_bytes_le_val [of src' 8]
  by (simp_all add: unsigned_of_nat take_bit_nat_eq_self)

lemma enc_fixed_emits:
  "length src = 4 \<Longrightarrow> emits (pb_enc_fixed32 src) src"
  "length src' = 8 \<Longrightarrow> emits (pb_enc_fixed64 src') src'"
  using emits_fixed32 [of "of_nat (le_val src)"] emits_fixed64 [of "of_nat (le_val src')"]
  by (simp_all add: pb_enc_fixed32_def pb_enc_fixed64_def fixed_le_val)

lemma dec_fixed_parses:
  "length src = 4 \<Longrightarrow> dec_parses pb_dec_fixed32 src (\<lambda>dest. src @ drop 4 dest)"
  "length src' = 8 \<Longrightarrow> dec_parses pb_dec_fixed64 src' (\<lambda>dest. src' @ drop 8 dest)"
proof -
  assume l: "length src = 4"
  have p: "parses pb_decode_fixed32 src (of_nat (le_val src))"
    using parses_fixed32 [of "of_nat (le_val src)"] unfolding fixed_le_val(1) [OF l] .
  have "store 4 (ucast (of_nat (le_val src) :: u32)) dest = src @ drop 4 dest" for dest
    unfolding store_def using fixed_le_val(1) [OF l] by (simp add: unat_ucast_up)
  then show "dec_parses pb_dec_fixed32 src (\<lambda>dest. src @ drop 4 dest)"
    unfolding pb_dec_fixed32_def by (intro dec_parses_step [OF p]) simp
next
  assume l: "length src' = 8"
  have p: "parses pb_decode_fixed64 src' (of_nat (le_val src'))"
    using parses_fixed64 [of "of_nat (le_val src')"] unfolding fixed_le_val(2) [OF l] .
  have "store 8 (of_nat (le_val src') :: u64) dest = src' @ drop 8 dest" for dest
    unfolding store_def using fixed_le_val(2) [OF l] by simp
  then show "dec_parses pb_dec_fixed64 src' (\<lambda>dest. src' @ drop 8 dest)"
    unfolding pb_dec_fixed64_def by (intro dec_parses_step [OF p]) simp
qed

lemma load_unsigned_1: "load_unsigned 1 [b] = ucast b"
  by (simp add: load_unsigned_def)

lemma dec_bool_parses: "dec_parses pb_dec_bool (varint_bytes (unat (v :: u32))) (\<lambda>dest. (if v \<noteq> 0 then 1 else 0) # drop 1 dest)"
  unfolding pb_dec_bool_def by (rule dec_parses_step [OF parses_varint32]) simp

lemma bool_field_roundtrip:
  "\<exists>bs. emits (pb_enc_bool [b]) bs \<and> dec_parses pb_dec_bool bs (\<lambda>dest. (if b = 0 then 0 else 1) # drop 1 dest)"
proof (intro exI conjI)
  let ?v = "if b = 0 then 0 else 1 :: u32"
  have "varint_bytes (unat (if safe_read_bool [b] then 1 else 0 :: u64)) = varint_bytes (unat ?v)"
    by (simp add: safe_read_bool_def)
  then show "emits (pb_enc_bool [b]) (varint_bytes (unat ?v))"
    unfolding pb_enc_bool_def using emits_varint [of "if safe_read_bool [b] then 1 else 0"] by simp
  show "dec_parses pb_dec_bool (varint_bytes (unat ?v)) (\<lambda>dest. (if b = 0 then 0 else 1) # drop 1 dest)"
    using dec_bool_parses [of ?v] by (cases "b = 0") simp_all
qed

section \<open>Byte strings and strings\<close>

lemma strnlen_no_nul: "0 \<notin> set p \<Longrightarrow> strnlen_loop n (p @ 0 # q) = min n (length p)"
  by (induction p arbitrary: n) (case_tac n; simp)+

lemma strnlen_le: "strnlen_loop n p \<le> min n (length p)"
  by (induction n p rule: strnlen_loop.induct) auto

lemma length_write_at [simp]: "off + length bs \<le> length m \<Longrightarrow> length (write_at off bs m) = length m"
  by (simp add: write_at_def)


lemma take_write_at: "off \<le> length m \<Longrightarrow> take (off + length bs) (write_at off bs m) = take off m @ bs"
  by (simp add: write_at_def)

lemma pb_read_input:
  "pb_read c (input xs n e :: 's pb_istream) =
     (if c \<le> n then (Some (take c xs), input (drop c xs) (n - c) e) else pb_error ''end-of-stream'' (input xs n e))"
  by (auto simp: pb_read_def input_def call_source_def)

lemma bytes_left_input [simp]: "bytes_left (input xs n e) = n"
  by (simp add: input_def)

lemma varint32_input:
  assumes "n \<le> length xs"
  shows "\<exists>r k e'. k \<le> n \<and> pb_decode_varint32 (input xs n e :: 's pb_istream) = (r, input (drop k xs) (n - k) e')"
proof -
  have "moves (input xs n e) (snd (pb_decode_varint32 (input xs n e :: 's pb_istream)))"
    by (rule in_boundsD [OF in_bounds_varint(2)])
  then obtain k e' where "k \<le> n" "snd (pb_decode_varint32 (input xs n e :: 's pb_istream)) = input (drop k xs) (n - k) e'"
    using assms unfolding moves_def by blast
  then show ?thesis by (metis prod.collapse)
qed

lemma dec_error_input: "\<exists>e'. dec_error msg d (input xs n e :: 's pb_istream) = (False, d, input xs n e')"
  by (simp add: dec_error_def pb_error_def input_def)

lemma dec_block_static:
  assumes "PB_ATYPE (ftype f) \<noteq> PB_ATYPE_POINTER"
  shows "dec_block re f msg sz alloc (Some d) (input xs n e :: 's pb_istream) =
     (if fdata_size f < alloc then pb_error msg (input xs n e) else (Some d, input xs n e))"
  using assms by (simp add: dec_block_def)

text \<open>
  What a decoder into the field's own memory keeps: the stream moves forward inside the readable bytes
  and the memory keeps its length; \<open>Q\<close> relates the memory and the bytes read on success.
\<close>

definition writes_inside ::
  "(u8 list \<Rightarrow> u8 list \<Rightarrow> bool) \<Rightarrow> u8 list \<Rightarrow> u8 list \<Rightarrow> nat \<Rightarrow> bool \<times> u8 list option \<times> 's pb_istream \<Rightarrow> bool"
where
  "writes_inside Q d xs n r \<longleftrightarrow> (\<exists>ok d' k e'. r = (ok, Some d', input (drop k xs) (n - k) e') \<and> k \<le> n \<and>
     length d' = length d \<and> (ok \<longrightarrow> Q (take k xs) d'))"

lemma writes_insideI:
  "r = (ok, Some d', input (drop k xs) (n - k) e') \<Longrightarrow> k \<le> n \<Longrightarrow> length d' = length d \<Longrightarrow>
     (ok \<Longrightarrow> Q (take k xs) d') \<Longrightarrow> writes_inside Q d xs n r"
  unfolding writes_inside_def by blast

lemma unat_plus_one:
  fixes x :: u32
  assumes "\<not> unat (x + 1) < unat x"
  shows "unat (x + 1) = unat x + 1"
proof -
  have "1 + x \<noteq> 0"
  proof
    assume z: "1 + x = 0"
    then have "unat x = 0" using assms by (simp add: add.commute)
    then show False using z by (simp add: unsigned_eq_0_iff)
  qed
  then show ?thesis using unatSuc [of x] by (simp add: add.commute)
qed

lemma allocsize_u32: "PB_BYTES_ARRAY_T_ALLOCSIZE (unat (sz :: u32)) = unat sz + 4"
  using unat_u32_less [of sz]
  by (simp add: PB_BYTES_ARRAY_T_ALLOCSIZE_def offsetof_bytes_def size_add_def)

lemma step_if:
  "(case (if c then pb_error msg s else (Some v, s')) of (None, t) \<Rightarrow> (False, d, t) | (Some x, t) \<Rightarrow> g x t) =
     (if c then dec_error msg d s else g v s')"
  "(case (if c then (Some v, s') else pb_error msg s) of (None, t) \<Rightarrow> (False, d, t) | (Some x, t) \<Rightarrow> g x t) =
     (if c then g v s' else dec_error msg d s)"
  "(case pb_error msg s of (None, t) \<Rightarrow> (False, d, t) | (Some x, t) \<Rightarrow> g x t) = dec_error msg d s"
  by (simp_all add: dec_error_def pb_error_def)

lemma pb_dec_string_after:
  assumes "PB_ATYPE (ftype f) \<noteq> PB_ATYPE_POINTER" "pb_decode_varint32 s = (Some sz, input ys m e)"
  shows "pb_dec_string re f (Some d) s =
     (if unat (sz + 1) < unat sz then dec_error ''size too large'' (Some d) (input ys m e)
      else if fdata_size f < unat (sz + 1) then dec_error ''string overflow'' (Some d) (input ys m e)
      else if unat sz \<le> m
      then (True, Some (write_at (unat sz) [0] (write_at 0 (take (unat sz) ys) d)), input (drop (unat sz) ys) (m - unat sz) e)
      else dec_error ''end-of-stream'' (Some (write_at (unat sz) [0] d)) (input ys m e))"
  unfolding pb_dec_string_def assms(2) prod.case option.case Let_def dec_block_static [OF assms(1)] pb_read_input step_if ..

lemma pb_dec_bytes_after:
  assumes "PB_ATYPE (ftype f) \<noteq> PB_ATYPE_POINTER" "pb_decode_varint32 s = (Some sz, input ys m e)"
  shows "pb_dec_bytes re f (Some d) s =
     (if unat sz + 4 < unat sz then dec_error ''size too large'' (Some d) (input ys m e)
      else if fdata_size f < unat sz + 4 then dec_error ''bytes overflow'' (Some d) (input ys m e)
      else if unat sz \<le> m
      then (True, Some (write_at offsetof_bytes (take (unat sz) ys) (write_at 0 (le_bytes 4 (unat sz)) d)),
            input (drop (unat sz) ys) (m - unat sz) e)
      else dec_error ''end-of-stream'' (Some (write_at 0 (le_bytes 4 (unat sz)) d)) (input ys m e))"
  unfolding pb_dec_bytes_def assms(2) prod.case option.case Let_def allocsize_u32 dec_block_static [OF assms(1)] pb_read_input step_if ..

lemma writes_inside_error:
  assumes "k \<le> n" "length d1 = length d"
  shows "writes_inside Q d xs n (dec_error msg (Some d1) (input (drop k xs) (n - k) e :: 's pb_istream))"
proof -
  have "\<exists>e'. dec_error msg (Some d1) (input (drop k xs) (n - k) e :: 's pb_istream) = (False, Some d1, input (drop k xs) (n - k) e')"
    by (rule dec_error_input)
  then show ?thesis using assms writes_insideI by blast
qed

lemma pb_dec_string_inside:
  assumes st: "PB_ATYPE (ftype f) \<noteq> PB_ATYPE_POINTER" and d: "length d = fdata_size f" and n: "n \<le> length xs"
  shows "writes_inside (\<lambda>bs d'. \<exists>s. (\<exists>p. bs = p @ s) \<and> (\<exists>q. d' = s @ 0 # q)) d xs n
           (pb_dec_string re f (Some d) (input xs n e :: 's pb_istream))" (is "writes_inside ?Q d xs n ?r")
proof -
  obtain r k e1 where k: "k \<le> n" and v: "pb_decode_varint32 (input xs n e :: 's pb_istream) = (r, input (drop k xs) (n - k) e1)"
    using varint32_input [OF n] by blast
  show ?thesis
  proof (cases r)
    case None
    then show ?thesis using v k by (intro writes_insideI [of _ False d k]) (simp_all add: pb_dec_string_def)
  next
    case (Some sz)
    let ?a = "unat (sz + 1)" and ?s = "input (drop k xs) (n - k) e1 :: 's pb_istream"
    let ?bs = "take (unat sz) (drop k xs)"
    note r = pb_dec_string_after [OF st v [unfolded Some], of re d]
    have sz: "?a = unat sz + 1" if "\<not> ?a < unat sz" using that by (rule unat_plus_one)
    show ?thesis
    proof (cases "\<not> ?a < unat sz \<and> \<not> fdata_size f < ?a \<and> unat sz \<le> n - k")
      case True
      then have le: "unat sz + 1 \<le> length d" "k + unat sz \<le> n" and bl: "length ?bs = unat sz" using sz n d k by auto
      have "write_at (unat sz) [0] (write_at 0 ?bs d) = ?bs @ 0 # drop (unat sz + 1) d"
        using bl le by (simp add: write_at_def)
      moreover have "take (k + unat sz) xs = take k xs @ ?bs" by (rule take_add)
      ultimately have q: "?Q (take (k + unat sz) xs) (write_at (unat sz) [0] (write_at 0 ?bs d))" by blast
      have "?r = (True, Some (write_at (unat sz) [0] (write_at 0 ?bs d)), input (drop (k + unat sz) xs) (n - (k + unat sz)) e1)"
        unfolding r using True by (simp only: simp_thms if_True if_False drop_drop diff_diff_left add.commute)
      then show ?thesis by (rule writes_insideI) (use le bl q in simp_all)
    next
      case False
      then show ?thesis unfolding r using k d sz by (simp only: split: if_split) (auto intro!: writes_inside_error)
    qed
  qed
qed

lemma pb_dec_bytes_inside:
  assumes st: "PB_ATYPE (ftype f) \<noteq> PB_ATYPE_POINTER" and d: "length d = fdata_size f" and n: "n \<le> length xs"
  shows "writes_inside (\<lambda>bs d'. \<exists>s. (\<exists>p. bs = p @ s) \<and> (\<exists>q. d' = le_bytes 4 (length s) @ s @ q)) d xs n
           (pb_dec_bytes re f (Some d) (input xs n e :: 's pb_istream))" (is "writes_inside ?Q d xs n ?r")
proof -
  obtain r k e1 where k: "k \<le> n" and v: "pb_decode_varint32 (input xs n e :: 's pb_istream) = (r, input (drop k xs) (n - k) e1)"
    using varint32_input [OF n] by blast
  show ?thesis
  proof (cases r)
    case None
    then show ?thesis using v k by (intro writes_insideI [of _ False d k]) (simp_all add: pb_dec_bytes_def)
  next
    case (Some sz)
    let ?s = "input (drop k xs) (n - k) e1 :: 's pb_istream" and ?b = "write_at 0 (le_bytes 4 (unat sz)) d"
    let ?bs = "take (unat sz) (drop k xs)"
    note r = pb_dec_bytes_after [OF st v [unfolded Some], of re d]
    show ?thesis
    proof (cases "\<not> fdata_size f < unat sz + 4 \<and> unat sz \<le> n - k")
      case True
      then have le: "unat sz + 4 \<le> length d" "k + unat sz \<le> n" and bl: "length ?bs = unat sz" using n d k by auto
      have w: "write_at offsetof_bytes ?bs ?b = le_bytes 4 (length ?bs) @ ?bs @ drop (unat sz + 4) d"
        unfolding bl using bl le by (simp add: write_at_def offsetof_bytes_def add.commute)
      have "?Q (take (k + unat sz) xs) (write_at offsetof_bytes ?bs ?b)" unfolding w take_add by blast
      moreover have "?r = (True, Some (write_at offsetof_bytes ?bs ?b), input (drop (k + unat sz) xs) (n - (k + unat sz)) e1)"
        unfolding r using True by (simp only: simp_thms if_True if_False drop_drop diff_diff_left add.commute not_add_less1)
      ultimately show ?thesis
        by (intro writes_insideI [of _ True _ "k + unat sz"]) (use le bl in \<open>simp_all add: offsetof_bytes_def\<close>)
    next
      case False
      then show ?thesis unfolding r using k d by (simp only: split: if_split) (auto intro!: writes_inside_error)
    qed
  qed
qed

text \<open>
  What a decoder of a pointer field keeps: the stream stays inside the readable bytes, and the pointer is unchanged or
  points to a block of \<open>realloc\<close> that no write has left.
\<close>

definition writes_allocated ::
  "(u8 list \<Rightarrow> u8 list \<Rightarrow> bool) \<Rightarrow> realloc_fn \<Rightarrow> u8 list option \<Rightarrow> u8 list \<Rightarrow> nat \<Rightarrow> bool \<times> u8 list option \<times> 's pb_istream \<Rightarrow> bool"
where
  "writes_allocated Q re dest xs n r \<longleftrightarrow> (\<exists>ok dest' k e'. r = (ok, dest', input (drop k xs) (n - k) e') \<and> k \<le> n \<and>
     (\<not> ok \<and> dest' = dest \<or>
      (\<exists>b d'. re dest (length b) = Some b \<and> dest' = Some d' \<and> length d' = length b \<and> (ok \<longrightarrow> Q (take k xs) d'))))"

lemma writes_allocated_error:
  "k \<le> n \<Longrightarrow> writes_allocated Q re dest xs n (dec_error msg dest (input (drop k xs) (n - k) e :: 's pb_istream))"
  using dec_error_input [of msg dest "drop k xs" "n - k" e] unfolding writes_allocated_def by blast

lemma writes_allocatedI:
  "r = (ok, Some d', input (drop k xs) (n - k) e') \<Longrightarrow> k \<le> n \<Longrightarrow> re dest m = Some b \<Longrightarrow> length b = m \<Longrightarrow> length d' = m \<Longrightarrow>
     Q (take k xs) d' \<Longrightarrow> writes_allocated Q re dest xs n r"
  unfolding writes_allocated_def by blast

lemma dec_block_pointer:
  assumes "PB_ATYPE (ftype f) = PB_ATYPE_POINTER" "0 < alloc" "alloc < size_limit"
  shows "dec_block re f msg sz alloc dest (input ys m e :: 's pb_istream) =
     (if m < unat sz then pb_error ''end-of-stream'' (input ys m e)
      else case re dest alloc of None \<Rightarrow> pb_error ''realloc failed'' (input ys m e) | Some b \<Rightarrow> (Some b, input ys m e))"
  using assms by (simp add: dec_block_def allocate_field_def)

lemma pb_dec_string_pointer:
  assumes "PB_ATYPE (ftype f) = PB_ATYPE_POINTER" "pb_decode_varint32 s = (Some sz, input ys m e)" "\<not> unat (sz + 1) < unat sz"
  shows "pb_dec_string re f dest s =
     (if m < unat sz then dec_error ''end-of-stream'' dest (input ys m e)
      else case re dest (unat (sz + 1)) of None \<Rightarrow> dec_error ''realloc failed'' dest (input ys m e)
        | Some b \<Rightarrow> (True, Some (write_at (unat sz) [0] (write_at 0 (take (unat sz) ys) b)), input (drop (unat sz) ys) (m - unat sz) e))"
proof -
  have a: "0 < unat (sz + 1)" "unat (sz + 1) < size_limit" using unat_plus_one [OF assms(3)] unat_u32_less [of "sz + 1"] by simp_all
  note run = pb_dec_string_def assms(2) prod.case option.case Let_def if_not_P [OF assms(3)] dec_block_pointer [OF assms(1) a]
  show ?thesis
  proof (cases "m < unat sz")
    case True
    show ?thesis unfolding run if_P [OF True] step_if ..
  next
    case False
    then have m: "unat sz \<le> m" by simp
    show ?thesis unfolding run if_not_P [OF False]
      by (cases "re dest (unat (sz + 1))") (simp_all only: option.case prod.case step_if pb_read_input if_P [OF m])
  qed
qed

lemma pb_dec_bytes_pointer:
  assumes "PB_ATYPE (ftype f) = PB_ATYPE_POINTER" "pb_decode_varint32 s = (Some sz, input ys m e)"
  shows "pb_dec_bytes re f dest s =
     (if m < unat sz then dec_error ''end-of-stream'' dest (input ys m e)
      else case re dest (unat sz + 4) of None \<Rightarrow> dec_error ''realloc failed'' dest (input ys m e)
        | Some b \<Rightarrow> (True, Some (write_at offsetof_bytes (take (unat sz) ys) (write_at 0 (le_bytes 4 (unat sz)) b)),
            input (drop (unat sz) ys) (m - unat sz) e))"
proof -
  have a: "0 < unat sz + 4" "unat sz + 4 < size_limit" "\<not> unat sz + 4 < unat sz" using unat_u32_less [of sz] by simp_all
  note run = pb_dec_bytes_def assms(2) prod.case option.case Let_def allocsize_u32 if_not_P [OF a(3)] dec_block_pointer [OF assms(1) a(1,2)]
  show ?thesis
  proof (cases "m < unat sz")
    case True
    show ?thesis unfolding run if_P [OF True] step_if ..
  next
    case False
    then have m: "unat sz \<le> m" by simp
    show ?thesis unfolding run if_not_P [OF False]
      by (cases "re dest (unat sz + 4)") (simp_all only: option.case prod.case step_if pb_read_input if_P [OF m])
  qed
qed

text \<open>Both decoders of pointer fields: \<open>w\<close> is what they store in the block.\<close>

lemma decoded_block_inside:
  assumes n: "n \<le> length xs" and k: "k \<le> n" and re: "realloc_spec re"
    and r: "r = (if m < unat sz then dec_error m1 dest (input (drop k xs) m e)
      else case re dest alloc of None \<Rightarrow> dec_error m2 dest (input (drop k xs) m e)
        | Some b \<Rightarrow> (True, Some (w (take (unat sz) (drop k xs)) b), input (drop (unat sz) (drop k xs)) (m - unat sz) e :: 's pb_istream))"
    and m: "m = n - k"
    and w: "\<And>bs b. length bs = unat sz \<Longrightarrow> length b = alloc \<Longrightarrow> length (w bs b) = alloc \<and> (\<forall>p. Q (p @ bs) (w bs b))"
  shows "writes_allocated Q re dest xs n r"
proof (cases "m < unat sz")
  case True
  then show ?thesis using r m k by (simp add: writes_allocated_error)
next
  case False
  show ?thesis
  proof (cases "re dest alloc")
    case None
    then show ?thesis using r False m k by (simp add: writes_allocated_error)
  next
    case (Some b)
    let ?bs = "take (unat sz) (drop k xs)"
    have bs: "length ?bs = unat sz" using False n m by simp
    have lb: "length b = alloc" using re Some by (simp add: realloc_spec_def)
    have "Q (take k xs @ ?bs) (w ?bs b)" "length (w ?bs b) = alloc" using w [OF bs lb] by blast+
    moreover have "take k xs @ ?bs = take (k + unat sz) xs" by (rule take_add [symmetric])
    ultimately show ?thesis
      using r False Some m k lb by (intro writes_allocatedI [of _ True "w ?bs b" "k + unat sz" xs n e re dest alloc b]) (simp_all add: add.commute)
  qed
qed

lemma pb_dec_string_allocated:
  assumes pt: "PB_ATYPE (ftype f) = PB_ATYPE_POINTER" and re: "realloc_spec re" and n: "n \<le> length xs"
  shows "writes_allocated (\<lambda>bs d'. \<exists>s. (\<exists>p. bs = p @ s) \<and> d' = s @ [0]) re dest xs n
           (pb_dec_string re f dest (input xs n e :: 's pb_istream))"
proof -
  obtain r k e1 where k: "k \<le> n" and v: "pb_decode_varint32 (input xs n e :: 's pb_istream) = (r, input (drop k xs) (n - k) e1)"
    using varint32_input [OF n] by blast
  show ?thesis
  proof (cases r)
    case None
    then have "pb_dec_string re f dest (input xs n e :: 's pb_istream) = (False, dest, input (drop k xs) (n - k) e1)"
      using v by (simp add: pb_dec_string_def)
    then show ?thesis using k unfolding writes_allocated_def by blast
  next
    case (Some sz)
    show ?thesis
    proof (cases "unat (sz + 1) < unat sz")
      case True
      then show ?thesis using v Some k by (simp add: pb_dec_string_def writes_allocated_error)
    next
      case False
      note sz = unat_plus_one [OF False]
      show ?thesis unfolding pb_dec_string_pointer [OF pt v [unfolded Some] False]
      proof (rule decoded_block_inside [OF n k re refl refl, where w = "\<lambda>bs b. write_at (unat sz) [0] (write_at 0 bs b)"])
        fix bs b :: "u8 list" assume l: "length bs = unat sz" "length b = unat (sz + 1)"
        then have "write_at (unat sz) [0] (write_at 0 bs b) = bs @ [0]" using sz by (simp add: write_at_def)
        then show "length (write_at (unat sz) [0] (write_at 0 bs b)) = unat (sz + 1) \<and>
          (\<forall>p. \<exists>s. (\<exists>q. p @ bs = q @ s) \<and> write_at (unat sz) [0] (write_at 0 bs b) = s @ [0])" using l sz by auto
      qed
    qed
  qed
qed

lemma pb_dec_bytes_allocated:
  assumes pt: "PB_ATYPE (ftype f) = PB_ATYPE_POINTER" and re: "realloc_spec re" and n: "n \<le> length xs"
  shows "writes_allocated (\<lambda>bs d'. \<exists>s. (\<exists>p. bs = p @ s) \<and> d' = le_bytes 4 (length s) @ s) re dest xs n
           (pb_dec_bytes re f dest (input xs n e :: 's pb_istream))"
proof -
  obtain r k e1 where k: "k \<le> n" and v: "pb_decode_varint32 (input xs n e :: 's pb_istream) = (r, input (drop k xs) (n - k) e1)"
    using varint32_input [OF n] by blast
  show ?thesis
  proof (cases r)
    case None
    then have "pb_dec_bytes re f dest (input xs n e :: 's pb_istream) = (False, dest, input (drop k xs) (n - k) e1)"
      using v by (simp add: pb_dec_bytes_def)
    then show ?thesis using k unfolding writes_allocated_def by blast
  next
    case (Some sz)
    show ?thesis unfolding pb_dec_bytes_pointer [OF pt v [unfolded Some]]
    proof (rule decoded_block_inside [OF n k re refl refl, where w = "\<lambda>bs b. write_at offsetof_bytes bs (write_at 0 (le_bytes 4 (unat sz)) b)"])
      fix bs b :: "u8 list" assume l: "length bs = unat sz" "length b = unat sz + 4"
      then have "write_at offsetof_bytes bs (write_at 0 (le_bytes 4 (unat sz)) b) = le_bytes 4 (length bs) @ bs"
        by (simp add: write_at_def offsetof_bytes_def)
      then show "length (write_at offsetof_bytes bs (write_at 0 (le_bytes 4 (unat sz)) b)) = unat sz + 4 \<and>
        (\<forall>p. \<exists>s. (\<exists>q. p @ bs = q @ s) \<and> write_at offsetof_bytes bs (write_at 0 (le_bytes 4 (unat sz)) b) = le_bytes 4 (length s) @ s)"
        using l by auto
    qed
  qed
qed

lemma pb_dec_fixed_length_bytes_inside:
  assumes d: "length d = fdata_size f" and n: "n \<le> length xs"
  shows "writes_inside (\<lambda>bs d'. d' = replicate (length d) 0 \<or> (\<exists>p. bs = p @ d')) d xs n
           (case pb_dec_fixed_length_bytes f d (input xs n e :: 's pb_istream) of (ok, d', s) \<Rightarrow> (ok, Some d', s))"
    (is "writes_inside ?Q d xs n ?r")
proof -
  obtain r k e1 where k: "k \<le> n" and v: "pb_decode_varint32 (input xs n e :: 's pb_istream) = (r, input (drop k xs) (n - k) e1)"
    using varint32_input [OF n] by blast
  have some: "(case dec_error m d s of (ok, d', s) \<Rightarrow> (ok, Some d', s)) = dec_error m (Some d) s" for m and s :: "'s pb_istream"
    by (simp add: dec_error_def pb_error_def)
  show ?thesis
  proof (cases r)
    case None
    then show ?thesis using v k by (intro writes_insideI [of _ False d k]) (simp_all add: pb_dec_fixed_length_bytes_def)
  next
    case (Some sz)
    let ?s = "input (drop k xs) (n - k) e1 :: 's pb_istream" and ?m = "length d"
    let ?bs = "take ?m (drop k xs)"
    consider "sz = 0" | "sz \<noteq> 0" "unat sz \<noteq> ?m" | "sz \<noteq> 0" "unat sz = ?m" "?m \<le> n - k" | "sz \<noteq> 0" "unat sz = ?m" "\<not> ?m \<le> n - k" by blast
    then show ?thesis
    proof cases
      case 1
      then have "?r = (True, Some (replicate ?m 0), ?s)" using v Some d by (simp add: pb_dec_fixed_length_bytes_def write_at_def)
      then show ?thesis by (rule writes_insideI) (use k in simp_all)
    next
      case 2
      then have "?r = dec_error ''incorrect fixed length bytes size'' (Some d) ?s"
        unfolding pb_dec_fixed_length_bytes_def v Some prod.case option.case d [symmetric] some [symmetric] by (simp only: if_False if_True simp_thms)
      then show ?thesis using k by (simp only: writes_inside_error)
    next
      case 3
      then have bl: "length ?bs = ?m" using n k by simp
      then have "?r = (True, Some ?bs, input (drop (k + ?m) xs) (n - (k + ?m)) e1)"
        using v Some 3 by (simp add: pb_dec_fixed_length_bytes_def d [symmetric] pb_read_input write_at_def add.commute)
      moreover have q: "?Q (take (k + ?m) xs) ?bs" unfolding take_add by blast
      ultimately show ?thesis by (intro writes_insideI [of _ True ?bs "k + ?m"]) (use 3 k bl in simp_all)
    next
      case 4
      then have "?r = dec_error ''end-of-stream'' (Some d) ?s"
        unfolding pb_dec_fixed_length_bytes_def v Some prod.case option.case d [symmetric] some [symmetric] pb_read_input
        by (simp only: if_False if_True simp_thms step_if)
      then show ?thesis using k by (simp only: writes_inside_error)
    qed
  qed
qed

lemma emits_string_part: "k \<le> length p \<Longrightarrow> k < size_limit \<Longrightarrow> emits (pb_encode_string p k) (varint_bytes k @ take k p)"
  unfolding pb_encode_string_def
  using emits_bind [OF emits_varint [of "of_nat k"] emits_pb_write [of k p]]
  by (simp add: unsigned_of_nat take_bit_nat_eq_self)

lemma write_two: "length b = k \<Longrightarrow> k + length a \<le> length d \<Longrightarrow> write_at k a (write_at 0 b d) = b @ a @ drop (k + length a) d"
  by (simp add: write_at_def add.commute)

lemma string_field_roundtrip:
  assumes st: "PB_ATYPE (ftype f) \<noteq> PB_ATYPE_POINTER" and p: "0 \<notin> set p" "length p < fdata_size f"
    and small: "length p < 2 ^ 32 - 1"
  shows "emits (pb_enc_string f (Some (p @ 0 # q))) (varint_bytes (length p) @ p)"
    and "length d = fdata_size f \<Longrightarrow> length (varint_bytes (length p) @ p) \<le> n \<Longrightarrow>
      n \<le> length (varint_bytes (length p) @ p) + length rest \<Longrightarrow>
      pb_dec_string re f (Some d) (input ((varint_bytes (length p) @ p) @ rest) n e :: 's pb_istream) =
        (True, Some (p @ 0 # drop (length p + 1) d), input rest (n - length (varint_bytes (length p) @ p)) e)"
proof -
  have "strnlen_loop (min (fdata_size f) (length (p @ 0 # q))) (p @ 0 # q) = length p"
    using strnlen_no_nul [OF p(1)] p(2) by simp
  then show "emits (pb_enc_string f (Some (p @ 0 # q))) (varint_bytes (length p) @ p)"
    using emits_string_part [of "length p" "p @ 0 # q"] st small by (simp add: pb_enc_string_def)
  assume d: "length d = fdata_size f" and n: "length (varint_bytes (length p) @ p) \<le> n"
    "n \<le> length (varint_bytes (length p) @ p) + length rest"
  have v: "pb_decode_varint32 (input (varint_bytes (length p) @ (p @ rest)) n e :: 's pb_istream) =
     (Some (of_nat (length p)), input (p @ rest) (n - length (varint_bytes (length p))) e)"
    by (rule parsesD [OF parses_len]) (use n small in simp_all)
  have le: "length p \<le> n - length (varint_bytes (length p))" using n by simp
  have u: "unat (of_nat (length p) :: u32) = length p" "unat (of_nat (length p) + 1 :: u32) = length p + 1"
    using small unat_of_nat_u32 [of "length p"] unat_of_nat_u32 [of "length p + 1"] by (simp_all add: add.commute)
  have "write_at (length p) [0] (write_at 0 p d) = p @ 0 # drop (length p + 1) d"
    using write_two [of p "length p" "[0]" d] d p by simp
  then show "pb_dec_string re f (Some d) (input ((varint_bytes (length p) @ p) @ rest) n e :: 's pb_istream) =
        (True, Some (p @ 0 # drop (length p + 1) d), input rest (n - length (varint_bytes (length p) @ p)) e)"
    using pb_dec_string_after [OF st v, of re d] u p d le unfolding append_assoc
    by (simp only: if_False not_add_less1 not_less if_True) (simp add: not_le)
qed

lemma bytes_field_roundtrip:
  assumes st: "PB_ATYPE (ftype f) = PB_ATYPE_STATIC" and p: "length p + 4 \<le> fdata_size f" and small: "length p < 2 ^ 32"
  shows "emits (pb_enc_bytes f (Some (le_bytes 4 (length p) @ p @ q))) (varint_bytes (length p) @ p)"
    and "length d = fdata_size f \<Longrightarrow> length (varint_bytes (length p) @ p) \<le> n \<Longrightarrow>
      n \<le> length (varint_bytes (length p) @ p) + length rest \<Longrightarrow>
      pb_dec_bytes re f (Some d) (input ((varint_bytes (length p) @ p) @ rest) n e :: 's pb_istream) =
        (True, Some (le_bytes 4 (length p) @ p @ drop (length p + 4) d), input rest (n - length (varint_bytes (length p) @ p)) e)"
proof -
  have st': "PB_ATYPE (ftype f) \<noteq> PB_ATYPE_POINTER" using st by (simp add: PB_ATYPE_STATIC_def PB_ATYPE_POINTER_def)
  have "le_val (take 4 (le_bytes 4 (length p) @ p @ q)) = length p"
    using le_val_le_bytes [of 4 "length p"] small by simp
  moreover have "PB_BYTES_ARRAY_T_ALLOCSIZE (length p) = length p + 4"
    using small by (simp add: PB_BYTES_ARRAY_T_ALLOCSIZE_def offsetof_bytes_def size_add_def)
  ultimately show "emits (pb_enc_bytes f (Some (le_bytes 4 (length p) @ p @ q))) (varint_bytes (length p) @ p)"
    using emits_string_part [of "length p" "p @ q"] p small by (simp add: pb_enc_bytes_def offsetof_bytes_def)
  assume d: "length d = fdata_size f" and n: "length (varint_bytes (length p) @ p) \<le> n"
    "n \<le> length (varint_bytes (length p) @ p) + length rest"
  have v: "pb_decode_varint32 (input (varint_bytes (length p) @ (p @ rest)) n e :: 's pb_istream) =
     (Some (of_nat (length p)), input (p @ rest) (n - length (varint_bytes (length p))) e)"
    by (rule parsesD [OF parses_len]) (use n small in simp_all)
  have le: "length p \<le> n - length (varint_bytes (length p))" using n by simp
  have u: "unat (of_nat (length p) :: u32) = length p" by (rule unat_of_nat_u32 [OF small])
  have "write_at 4 p (write_at 0 (le_bytes 4 (length p)) d) = le_bytes 4 (length p) @ p @ drop (length p + 4) d"
    using write_two [of "le_bytes 4 (length p)" 4 p d] d p by (simp add: add.commute)
  then show "pb_dec_bytes re f (Some d) (input ((varint_bytes (length p) @ p) @ rest) n e :: 's pb_istream) =
        (True, Some (le_bytes 4 (length p) @ p @ drop (length p + 4) d), input rest (n - length (varint_bytes (length p) @ p)) e)"
    using pb_dec_bytes_after [OF st' v, of re d] u p d le unfolding append_assoc
    by (simp only: if_False not_add_less1 not_less offsetof_bytes_def if_True) (simp add: not_le)
qed

section \<open>Integers that do not fit\<close>

lemma store_take: "store k v dest = le_bytes k (unat v mod 256 ^ k) @ drop k dest"
  by (simp add: store_def le_bytes_mod)

lemma unat_take_bytes: "unat (take_bit (8 * k) v) = unat v mod 256 ^ k"
  by (subst unsigned_take_bit_eq) (simp add: take_bit_eq_mod power_mult)

lemma store_checked_input:
  "\<exists>e'. store_checked k c v dest (input xs n e :: 's pb_istream) = (c = v, store k c dest, input xs n e')"
  using dec_error_input [of _ "store k c dest" xs n e] by (cases "c = v") (auto simp: store_checked_def)

section \<open>Properties\<close>

text \<open>
  C17: every scalar field is decoded to the bytes it was encoded from, and what follows it in the stream is
  left: \<open>pb_enc_varint\<close>, \<open>pb_enc_uvarint\<close> and \<open>pb_enc_svarint\<close> at every field size, and the fixed-size
  fields and booleans at theirs.
\<close>

theorem scalar_field_roundtrip:
  assumes "int_size k" "length src = k" "fdata_size f = k"
  shows "(\<exists>bs. emits (pb_enc_varint f src) bs \<and> dec_parses (pb_dec_varint f) bs (\<lambda>dest. src @ drop k dest)) \<and>
    (\<exists>bs. emits (pb_enc_uvarint f src) bs \<and> dec_parses (pb_dec_uvarint f) bs (\<lambda>dest. src @ drop k dest)) \<and>
    (\<exists>bs. emits (pb_enc_svarint f src) bs \<and> dec_parses (pb_dec_svarint f) bs (\<lambda>dest. src @ drop k dest)) \<and>
    (k = 4 \<longrightarrow> (\<exists>bs. emits (pb_enc_fixed32 src) bs \<and> dec_parses pb_dec_fixed32 bs (\<lambda>dest. src @ drop k dest))) \<and>
    (k = 8 \<longrightarrow> (\<exists>bs. emits (pb_enc_fixed64 src) bs \<and> dec_parses pb_dec_fixed64 bs (\<lambda>dest. src @ drop k dest))) \<and>
    (k = 1 \<longrightarrow> (\<exists>bs. emits (pb_enc_bool src) bs \<and>
       dec_parses pb_dec_bool bs (\<lambda>dest. (if hd src = 0 then 0 else 1) # drop 1 dest)))"
proof (intro conjI impI)
  show "\<exists>bs. emits (pb_enc_varint f src) bs \<and> dec_parses (pb_dec_varint f) bs (\<lambda>dest. src @ drop k dest)"
    using emits_varint dec_varint_parses [OF assms] assms by (auto simp: pb_enc_varint_def)
  show "\<exists>bs. emits (pb_enc_uvarint f src) bs \<and> dec_parses (pb_dec_uvarint f) bs (\<lambda>dest. src @ drop k dest)"
    using emits_varint dec_uvarint_parses [OF assms] assms by (auto simp: pb_enc_uvarint_def)
  show "\<exists>bs. emits (pb_enc_svarint f src) bs \<and> dec_parses (pb_dec_svarint f) bs (\<lambda>dest. src @ drop k dest)"
    using enc_svarint_emits [OF assms] dec_svarint_parses [OF assms] by blast
  show "\<exists>bs. emits (pb_enc_fixed32 src) bs \<and> dec_parses pb_dec_fixed32 bs (\<lambda>dest. src @ drop k dest)" if "k = 4"
    using enc_fixed_emits(1) dec_fixed_parses(1) assms that by auto
  show "\<exists>bs. emits (pb_enc_fixed64 src) bs \<and> dec_parses pb_dec_fixed64 bs (\<lambda>dest. src @ drop k dest)" if "k = 8"
    using enc_fixed_emits(2) dec_fixed_parses(2) assms that by auto
  show "\<exists>bs. emits (pb_enc_bool src) bs \<and> dec_parses pb_dec_bool bs (\<lambda>dest. (if hd src = 0 then 0 else 1) # drop 1 dest)" if "k = 1"
    using bool_field_roundtrip [of "hd src"] assms(2) that by (cases src) auto
qed

lemma scalar_field_roundtrip_witness:
  "\<exists>bs. emits (pb_enc_varint (\<lparr>ftag = 1, ftype = 1, fdata_size = 2, farray_size = 0\<rparr>) [0xFE, 0xFF]) bs \<and>
     dec_parses (pb_dec_varint (\<lparr>ftag = 1, ftype = 1, fdata_size = 2, farray_size = 0\<rparr>)) bs (\<lambda>dest. [0xFE, 0xFF] @ drop 2 dest)"
  by (rule scalar_field_roundtrip [of 2, THEN conjunct1]) (simp_all add: int_size_def)

text \<open>
  an unsigned field of \<open>k\<close> bytes accepts exactly the values below \<open>256 ^ k\<close>; for the others
  \<open>pb_dec_uvarint\<close> fails after it has stored the low bytes.
\<close>

theorem uvarint_field_range:
  assumes "int_size k" "fdata_size f = k" and n: "length (varint_bytes (unat (v :: u64))) \<le> n" "n \<le> length (varint_bytes (unat v)) + length rest"
  shows "\<exists>e'. pb_dec_uvarint f dest (input (varint_bytes (unat v) @ rest) n e :: 's pb_istream) =
    (unat v < 256 ^ k, le_bytes k (unat v) @ drop k dest, input rest (n - length (varint_bytes (unat v))) e')"
proof -
  have "(take_bit (8 * k) v = v) = (unat v mod 256 ^ k = unat v)"
    by (metis unat_take_bytes word_unat_eq_iff)
  also have "\<dots> = (unat v < 256 ^ k)" by (metis mod_less mod_less_divisor zero_less_power zero_less_numeral)
  finally have eq: "(take_bit (8 * k) v = v) = (unat v < 256 ^ k)" .
  have st: "store k (take_bit (8 * k) v) dest = le_bytes k (unat v) @ drop k dest"
    by (simp add: store_def unat_take_bytes le_bytes_mod)
  show ?thesis
    using store_checked_input [of k "take_bit (8 * k) v" v dest rest "n - length (varint_bytes (unat v))" e] assms(1,2)
    by (simp add: pb_dec_uvarint_def parsesD [OF parses_varint_bytes n] eq st Let_def)
qed

lemma uvarint_field_range_witness:
  "\<exists>e'. pb_dec_uvarint (\<lparr>ftag = 1, ftype = 2, fdata_size = 1, farray_size = 0\<rparr>) [7]
     (input (varint_bytes (unat (300 :: u64)) @ []) 2 None :: unit pb_istream) =
     (unat (300 :: u64) < 256 ^ 1, le_bytes 1 (unat (300 :: u64)) @ drop 1 [7], input [] (2 - length (varint_bytes (unat (300 :: u64)))) e')"
  by (rule uvarint_field_range) (simp_all add: int_size_def varint_bytes.simps)

text \<open>
  a signed field of four bytes accepts every 64-bit value: \<open>pb_dec_varint\<close> converts it to \<open>int32_t\<close>
  before its overflow check, so the low 32 bits are stored and the check cannot fail.
\<close>

theorem int32_field_truncates:
  assumes "fdata_size f = 4" and n: "length (varint_bytes (unat (v :: u64))) \<le> n" "n \<le> length (varint_bytes (unat v)) + length rest"
  shows "pb_dec_varint f dest (input (varint_bytes (unat v) @ rest) n e :: 's pb_istream) =
    (True, le_bytes 4 (unat v) @ drop 4 dest, input rest (n - length (varint_bytes (unat v))) e)"
proof -
  have "take_bit (8 * 4) (cast_signed 4 v) = take_bit (8 * 4) v" by (rule take_bit_cast_signed) (simp add: int_size_def)
  then have "unat (cast_signed 4 v) mod 256 ^ 4 = unat v mod 256 ^ 4" by (metis unat_take_bytes)
  then have "store 4 (cast_signed 4 v) dest = le_bytes 4 (unat v) @ drop 4 dest" by (metis store_take store_def)
  then show ?thesis
    using assms(1) by (simp add: pb_dec_varint_def parsesD [OF parses_varint_bytes n] int_size_def cast_signed_idem store_checked_ok)
qed

lemma int32_field_truncates_witness:
  "pb_dec_varint (\<lparr>ftag = 1, ftype = 1, fdata_size = 4, farray_size = 0\<rparr>) [9, 9, 9, 9]
     (input (varint_bytes (unat (0x100000001 :: u64)) @ []) 5 None :: unit pb_istream) =
     (True, le_bytes 4 (unat (0x100000001 :: u64)) @ drop 4 [9, 9, 9, 9], input [] (5 - length (varint_bytes (unat (0x100000001 :: u64)))) None)"
  by (rule int32_field_truncates) (simp_all add: varint_bytes.simps)

text \<open>
  C18: a string without NUL that fits the field with its terminator, and a byte string that fits with its size,
  are encoded with their length and decoded, into any earlier contents of the field, to the same bytes,
  terminated or preceded by the size; the string or byte string may fill the field to its last byte.
\<close>

theorem text_field_roundtrip:
  assumes "PB_ATYPE (ftype f) = PB_ATYPE_STATIC" "length p < 2 ^ 32 - 1" "length d = fdata_size f"
    and "length (varint_bytes (length p) @ p) \<le> n" "n \<le> length (varint_bytes (length p) @ p) + length rest"
  shows "(0 \<notin> set p \<and> length p + 1 \<le> fdata_size f \<longrightarrow>
      emits (pb_enc_string f (Some (p @ 0 # q))) (varint_bytes (length p) @ p) \<and>
      pb_dec_string re f (Some d) (input ((varint_bytes (length p) @ p) @ rest) n e :: 's pb_istream) =
        (True, Some (p @ 0 # drop (length p + 1) d), input rest (n - length (varint_bytes (length p) @ p)) e)) \<and>
    (length p + 4 \<le> fdata_size f \<longrightarrow>
      emits (pb_enc_bytes f (Some (le_bytes 4 (length p) @ p @ q))) (varint_bytes (length p) @ p) \<and>
      pb_dec_bytes re f (Some d) (input ((varint_bytes (length p) @ p) @ rest) n e :: 's pb_istream) =
        (True, Some (le_bytes 4 (length p) @ p @ drop (length p + 4) d), input rest (n - length (varint_bytes (length p) @ p)) e))"
proof -
  have st: "PB_ATYPE (ftype f) \<noteq> PB_ATYPE_POINTER" using assms(1) by (simp add: PB_ATYPE_STATIC_def PB_ATYPE_POINTER_def)
  have l: "length p < fdata_size f" if "length p + 1 \<le> fdata_size f" using that by simp
  have l32: "length p < 2 ^ 32" using assms(2) by simp
  show ?thesis
    using string_field_roundtrip [OF st _ l assms(2)] bytes_field_roundtrip [OF assms(1) _ l32] assms(3-5) by blast
qed

text \<open>A string that fills its field of three bytes.\<close>

lemma text_field_roundtrip_witness:
  "pb_dec_string (\<lambda>_ _. None) (\<lparr>ftag = 1, ftype = 7, fdata_size = 3, farray_size = 0\<rparr>) (Some (replicate 3 0xFF))
      (input ((varint_bytes (length [104, 105 :: u8]) @ [104, 105]) @ [8]) 4 None :: unit pb_istream) =
     (True, Some ([104, 105] @ 0 # drop (length [104, 105 :: u8] + 1) (replicate 3 0xFF)),
      input [8] (4 - length (varint_bytes (length [104, 105 :: u8]) @ [104, 105 :: u8])) None)"
  by (rule text_field_roundtrip [of "\<lparr>ftag = 1, ftype = 7, fdata_size = 3, farray_size = 0\<rparr>" "[104, 105]" "replicate 3 0xFF" 4 "[8]",
        THEN conjunct1, rule_format, THEN conjunct2])
     (simp_all add: PB_ATYPE_def PB_ATYPE_STATIC_def varint_bytes.simps)

text \<open>
  C19: from every buffer, and whatever length it announces, the decoders of strings, byte strings and
  fixed-length byte strings read inside the readable bytes. They write inside the field or, for a pointer field, inside
  the block they have allocated; a string they accept is terminated inside that memory, and what they store is the end
  of what they read. A pointer is replaced only by a block of the size the contents need.
\<close>

theorem text_decoders_write_inside:
  assumes "n \<le> length xs" "realloc_spec re"
  shows "if PB_ATYPE (ftype f) = PB_ATYPE_POINTER then
      writes_allocated (\<lambda>bs d'. \<exists>s. (\<exists>p. bs = p @ s) \<and> d' = s @ [0]) re dest xs n
        (pb_dec_string re f dest (input xs n e :: 's pb_istream)) \<and>
      writes_allocated (\<lambda>bs d'. \<exists>s. (\<exists>p. bs = p @ s) \<and> d' = le_bytes 4 (length s) @ s) re dest xs n
        (pb_dec_bytes re f dest (input xs n e :: 's pb_istream))
    else length d = fdata_size f \<longrightarrow>
      writes_inside (\<lambda>bs d'. \<exists>s. (\<exists>p. bs = p @ s) \<and> (\<exists>q. d' = s @ 0 # q)) d xs n
        (pb_dec_string re f (Some d) (input xs n e :: 's pb_istream)) \<and>
      writes_inside (\<lambda>bs d'. \<exists>s. (\<exists>p. bs = p @ s) \<and> (\<exists>q. d' = le_bytes 4 (length s) @ s @ q)) d xs n
        (pb_dec_bytes re f (Some d) (input xs n e :: 's pb_istream)) \<and>
      writes_inside (\<lambda>bs d'. d' = replicate (length d) 0 \<or> (\<exists>p. bs = p @ d')) d xs n
        (case pb_dec_fixed_length_bytes f d (input xs n e :: 's pb_istream) of (ok, d', s) \<Rightarrow> (ok, Some d', s))"
proof (cases "PB_ATYPE (ftype f) = PB_ATYPE_POINTER")
  case True
  show ?thesis unfolding if_P [OF True] by (intro conjI pb_dec_string_allocated [OF True] pb_dec_bytes_allocated [OF True] assms)
next
  case False
  show ?thesis unfolding if_not_P [OF False]
    by (intro impI conjI pb_dec_string_inside [OF False] pb_dec_bytes_inside [OF False] pb_dec_fixed_length_bytes_inside assms) assumption+
qed

text \<open>A pointer field that is NULL, and an input of three bytes.\<close>

lemma text_decoders_write_inside_witness:
  "writes_allocated (\<lambda>bs d'. \<exists>s. (\<exists>p. bs = p @ s) \<and> d' = s @ [0]) (\<lambda>p n. if p = None then Some (replicate n 0) else None) None [2, 104, 105] 3
      (pb_dec_string (\<lambda>p n. if p = None then Some (replicate n 0) else None) (\<lparr>ftag = 1, ftype = 0x87, fdata_size = 8, farray_size = 0\<rparr>) None
         (input [2, 104, 105] 3 None :: unit pb_istream))"
proof -
  have p: "(3 :: nat) \<le> length [2, 104, 105 :: u8]" "realloc_spec (\<lambda>p n. if p = None then Some (replicate n 0) else None)" by (simp_all add: realloc_spec_def)
  have a: "PB_ATYPE (ftype \<lparr>ftag = 1, ftype = 0x87, fdata_size = 8, farray_size = 0\<rparr>) = PB_ATYPE_POINTER"
    by (simp add: PB_ATYPE_def PB_ATYPE_POINTER_def)
  note t = text_decoders_write_inside [OF p, of "\<lparr>ftag = 1, ftype = 0x87, fdata_size = 8, farray_size = 0\<rparr>" None None "[]"]
  show ?thesis by (rule conjunct1 [OF t [unfolded if_P [OF a]]])
qed

text \<open>
  a block \<open>allocate_field\<close> stores has the size of \<open>array_size\<close> items of \<open>data_size\<close> bytes, computed
  without wrap-around, and the stream is unchanged.
\<close>

theorem allocate_field_size:
  assumes "allocate_field re ptr ds as s = (Some b, s')" "realloc_spec re" "ds < size_limit" "as < size_limit"
  shows "length b = as * ds \<and> as * ds < size_limit \<and> 0 < as * ds \<and> s' = s"
proof -
  have nz: "ds \<noteq> 0" "as \<noteq> 0" using assms(1) by (auto simp: allocate_field_def split: if_splits option.splits)
  have ok: "\<not> ((2 ^ 32 \<le> ds \<or> 2 ^ 32 \<le> as) \<and> (2 ^ 64 - 1) div as < ds)"
    using assms(1) nz by (auto simp: allocate_field_def split: if_splits option.splits)
  have "as * ds < size_limit"
  proof (cases "2 ^ 32 \<le> ds \<or> 2 ^ 32 \<le> as")
    case True
    then have "ds \<le> (2 ^ 64 - 1) div as" using ok by linarith
    then have "as * ds \<le> as * ((2 ^ 64 - 1) div as)" by (rule mult_le_mono2)
    also have "\<dots> \<le> 2 ^ 64 - 1" by (rule times_div_less_eq_dividend)
    finally show ?thesis by simp
  next
    case False
    then have "as * ds < 2 ^ 32 * 2 ^ 32" using nz by (intro mult_strict_mono) auto
    then show ?thesis by simp
  qed
  moreover have "re ptr (as * ds mod size_limit) = Some b" "s' = s"
    using assms(1) nz ok by (auto simp: allocate_field_def split: if_splits option.splits)
  ultimately show ?thesis using assms(2) nz by (auto simp: realloc_spec_def)
qed

lemma allocate_field_size_witness:
  "length (replicate 12 (0 :: u8)) = 3 * 4 \<and> 3 * 4 < size_limit \<and> (0 :: nat) < 3 * 4 \<and>
     (input [] 0 None :: unit pb_istream) = input [] 0 None"
  by (rule allocate_field_size [of "\<lambda>p n. if p = None then Some (replicate n 0) else None" None])
     (simp_all add: allocate_field_def realloc_spec_def)

end
