(* ===== verification/Bn_Words.thy ===== *)
theory Bn_Words imports Prelude begin

text \<open>
  The word-array arithmetic of \<open>crypto/fipsmodule/bn/generic.c\<close>, for 64-bit words and the 128-bit
  \<open>BN_ULLONG\<close>. An array is the list of its words, least significant word first; \<open>wval\<close> is the number
  it stands for. The loops of the code are unrolled by four; the recursions here make one step at a time.
  Every word is read before the word of the result at its index is written, so the result may share its memory
  with an argument.
\<close>

type_synonym u128 = "128 word"

fun wval :: "u64 list \<Rightarrow> nat" where
  "wval [] = 0"
| "wval (w # ws) = unat w + 2 ^ 64 * wval ws"

section \<open>Operations\<close>

definition Lw :: "u128 \<Rightarrow> u64" where "Lw t = ucast t"
definition Hw :: "u128 \<Rightarrow> u64" where "Hw t = ucast (drop_bit 64 t)"

text \<open>\<open>mul_add\<close>, \<open>mul\<close> and \<open>sqr\<close> give the low and the high word.\<close>

definition mul_add :: "u64 \<Rightarrow> u64 \<Rightarrow> u64 \<Rightarrow> u64 \<Rightarrow> u64 \<times> u64" where
  "mul_add r a w c = (let t = ucast w * ucast a + ucast r + ucast c in (Lw t, Hw t))"

definition mul :: "u64 \<Rightarrow> u64 \<Rightarrow> u64 \<Rightarrow> u64 \<times> u64" where
  "mul a w c = (let t = ucast w * ucast a + ucast c in (Lw t, Hw t))"

definition sqr :: "u64 \<Rightarrow> u64 \<times> u64" where
  "sqr a = (let t = ucast a * ucast a in (Lw t, Hw t))"

fun mul_add_loop :: "u64 list \<Rightarrow> u64 list \<Rightarrow> u64 \<Rightarrow> u64 \<Rightarrow> u64 list \<times> u64" where
  "mul_add_loop (r # rp) (a # ap) w c1 =
     (let (r', c1) = mul_add r a w c1; (rs, c1) = mul_add_loop rp ap w c1 in (r' # rs, c1))"
| "mul_add_loop _ _ w c1 = ([], c1)"

definition bn_mul_add_words :: "u64 list \<Rightarrow> u64 list \<Rightarrow> u64 \<Rightarrow> u64 list \<times> u64" where
  "bn_mul_add_words rp ap w = mul_add_loop rp ap w 0"

fun mul_loop :: "u64 list \<Rightarrow> u64 \<Rightarrow> u64 \<Rightarrow> u64 list \<times> u64" where
  "mul_loop [] w c1 = ([], c1)"
| "mul_loop (a # ap) w c1 =
     (let (r, c1) = mul a w c1; (rs, c1) = mul_loop ap w c1 in (r # rs, c1))"

definition bn_mul_words :: "u64 list \<Rightarrow> u64 \<Rightarrow> u64 list \<times> u64" where
  "bn_mul_words ap w = mul_loop ap w 0"

fun bn_sqr_words :: "u64 list \<Rightarrow> u64 list" where
  "bn_sqr_words [] = []"
| "bn_sqr_words (a # as) = (let (r0, r1) = sqr a in r0 # r1 # bn_sqr_words as)"

fun add_loop :: "u128 \<Rightarrow> u64 list \<Rightarrow> u64 list \<Rightarrow> u64 list \<times> u128" where
  "add_loop ll (a # as) (b # bs) =
     (let ll = ll + (ucast a + ucast b);
          r = ucast ll;
          (rs, ll) = add_loop (drop_bit 64 ll) as bs in (r # rs, ll))"
| "add_loop ll _ _ = ([], ll)"

definition bn_add_words :: "u64 list \<Rightarrow> u64 list \<Rightarrow> u64 list \<times> u64" where
  "bn_add_words a b = (case add_loop 0 a b of (r, ll) \<Rightarrow> (r, ucast ll))"

fun sub_loop :: "u64 \<Rightarrow> u64 list \<Rightarrow> u64 list \<Rightarrow> u64 list \<times> u64" where
  "sub_loop c (t1 # a) (t2 # b) =
     (let r = t1 - t2 - c;
          c = (if t1 \<noteq> t2 then (if t1 < t2 then 1 else 0) else c);
          (rs, c) = sub_loop c a b in (r # rs, c))"
| "sub_loop c _ _ = ([], c)"

definition bn_sub_words :: "u64 list \<Rightarrow> u64 list \<Rightarrow> u64 list \<times> u64" where
  "bn_sub_words a b = sub_loop 0 a b"

text \<open>The three-word accumulator of the comba multiplications.\<close>

type_synonym comba = "u64 \<times> u64 \<times> u64"

definition mul_add_c :: "u64 \<Rightarrow> u64 \<Rightarrow> comba \<Rightarrow> comba" where
  "mul_add_c a b c =
     (case c of (c0, c1, c2) \<Rightarrow>
        let t = ucast a * ucast b + ucast c0;
            c0 = Lw t;
            hi = Hw t;
            c1 = c1 + hi in
        (c0, c1, if c1 < hi then c2 + 1 else c2))"

definition mul_add_c2 :: "u64 \<Rightarrow> u64 \<Rightarrow> comba \<Rightarrow> comba" where
  "mul_add_c2 a b c =
     (case c of (c0, c1, c2) \<Rightarrow>
        let t = ucast a * ucast b;
            tt = t + ucast c0;
            c0 = Lw tt;
            hi = Hw tt;
            c1 = c1 + hi;
            c2 = (if c1 < hi then c2 + 1 else c2);
            t = t + ucast c0;
            c0 = Lw t;
            hi = Hw t;
            c1 = c1 + hi in
        (c0, c1, if c1 < hi then c2 + 1 else c2))"

text \<open>
  A comba multiplication is a sequence of columns, each a list of products to add; after a column its low word is
  stored and the accumulator moves down a word. The last word stored is the low word of what remains.
\<close>

fun comba_columns :: "('p \<Rightarrow> comba \<Rightarrow> comba) \<Rightarrow> 'p list list \<Rightarrow> comba \<Rightarrow> u64 list" where
  "comba_columns add [] c = [fst c]"
| "comba_columns add (col # cols) c =
     (case fold add col c of (c0, c1, c2) \<Rightarrow> c0 # comba_columns add cols (c1, c2, 0))"

definition bn_mul_comba8 :: "u64 list \<Rightarrow> u64 list \<Rightarrow> u64 list" where
  "bn_mul_comba8 a b = comba_columns (\<lambda>(i, j). mul_add_c (a ! i) (b ! j))
     [[(0, 0)],
      [(0, 1), (1, 0)],
      [(2, 0), (1, 1), (0, 2)],
      [(0, 3), (1, 2), (2, 1), (3, 0)],
      [(4, 0), (3, 1), (2, 2), (1, 3), (0, 4)],
      [(0, 5), (1, 4), (2, 3), (3, 2), (4, 1), (5, 0)],
      [(6, 0), (5, 1), (4, 2), (3, 3), (2, 4), (1, 5), (0, 6)],
      [(0, 7), (1, 6), (2, 5), (3, 4), (4, 3), (5, 2), (6, 1), (7, 0)],
      [(7, 1), (6, 2), (5, 3), (4, 4), (3, 5), (2, 6), (1, 7)],
      [(2, 7), (3, 6), (4, 5), (5, 4), (6, 3), (7, 2)],
      [(7, 3), (6, 4), (5, 5), (4, 6), (3, 7)],
      [(4, 7), (5, 6), (6, 5), (7, 4)],
      [(7, 5), (6, 6), (5, 7)],
      [(6, 7), (7, 6)],
      [(7, 7)]] (0, 0, 0)"

definition bn_mul_comba4 :: "u64 list \<Rightarrow> u64 list \<Rightarrow> u64 list" where
  "bn_mul_comba4 a b = comba_columns (\<lambda>(i, j). mul_add_c (a ! i) (b ! j))
     [[(0, 0)],
      [(0, 1), (1, 0)],
      [(2, 0), (1, 1), (0, 2)],
      [(0, 3), (1, 2), (2, 1), (3, 0)],
      [(3, 1), (2, 2), (1, 3)],
      [(2, 3), (3, 2)],
      [(3, 3)]] (0, 0, 0)"

text \<open>\<open>sqr_add_c (a, i)\<close> adds the square of a word and \<open>sqr_add_c2 (a, i, j)\<close> a product twice.\<close>

datatype sqr_term = sqr_add_c nat | sqr_add_c2 nat nat

fun add_sqr_term :: "u64 list \<Rightarrow> sqr_term \<Rightarrow> comba \<Rightarrow> comba" where
  "add_sqr_term a (sqr_add_c i) = mul_add_c (a ! i) (a ! i)"
| "add_sqr_term a (sqr_add_c2 i j) = mul_add_c2 (a ! i) (a ! j)"

definition bn_sqr_comba8 :: "u64 list \<Rightarrow> u64 list" where
  "bn_sqr_comba8 a = comba_columns (add_sqr_term a)
     [[sqr_add_c 0],
      [sqr_add_c2 1 0],
      [sqr_add_c 1, sqr_add_c2 2 0],
      [sqr_add_c2 3 0, sqr_add_c2 2 1],
      [sqr_add_c 2, sqr_add_c2 3 1, sqr_add_c2 4 0],
      [sqr_add_c2 5 0, sqr_add_c2 4 1, sqr_add_c2 3 2],
      [sqr_add_c 3, sqr_add_c2 4 2, sqr_add_c2 5 1, sqr_add_c2 6 0],
      [sqr_add_c2 7 0, sqr_add_c2 6 1, sqr_add_c2 5 2, sqr_add_c2 4 3],
      [sqr_add_c 4, sqr_add_c2 5 3, sqr_add_c2 6 2, sqr_add_c2 7 1],
      [sqr_add_c2 7 2, sqr_add_c2 6 3, sqr_add_c2 5 4],
      [sqr_add_c 5, sqr_add_c2 6 4, sqr_add_c2 7 3],
      [sqr_add_c2 7 4, sqr_add_c2 6 5],
      [sqr_add_c 6, sqr_add_c2 7 5],
      [sqr_add_c2 7 6],
      [sqr_add_c 7]] (0, 0, 0)"

definition bn_sqr_comba4 :: "u64 list \<Rightarrow> u64 list" where
  "bn_sqr_comba4 a = comba_columns (add_sqr_term a)
     [[sqr_add_c 0],
      [sqr_add_c2 1 0],
      [sqr_add_c 1, sqr_add_c2 2 0],
      [sqr_add_c2 3 0, sqr_add_c2 2 1],
      [sqr_add_c 2, sqr_add_c2 3 1],
      [sqr_add_c2 3 2],
      [sqr_add_c 3]] (0, 0, 0)"

section \<open>Words and numbers\<close>

lemma wval_append: "wval (xs @ ys) = wval xs + 2 ^ (64 * length xs) * wval ys"
  by (induction xs) (simp_all add: algebra_simps power_add)

lemma wval_less: "wval ws < 2 ^ (64 * length ws)"
proof (induction ws)
  case (Cons w ws)
  have "unat w < 2 ^ 64" using unsigned_less [of w] by simp
  moreover have "wval ws + 1 \<le> 2 ^ (64 * length ws)" using Cons by simp
  then have "2 ^ 64 * (wval ws + 1) \<le> (2 ^ 64 :: nat) * 2 ^ (64 * length ws)" by (rule mult_le_mono2)
  ultimately show ?case by (simp add: power_add)
qed simp

lemma unat_less_64: "unat (w :: u64) < 2 ^ 64"
  using unsigned_less [of w] by simp

lemma unat_Lw: "unat (Lw t) = unat t mod 2 ^ 64"
  by (simp add: Lw_def unat_ucast_mod)

lemma unat_Hw: "unat (Hw t) = unat t div 2 ^ 64"
proof -
  have "unat t < 2 ^ 128" using unsigned_less [of t] by simp
  then have "unat t div 2 ^ 64 < 2 ^ 64" by (simp add: less_mult_imp_div_less)
  then show ?thesis by (simp add: Hw_def unat_ucast_mod unat_drop_bit)
qed

lemma product_le: "unat (a :: u64) * unat (b :: u64) \<le> (2 ^ 64 - 1) * (2 ^ 64 - 1)"
  using unat_less_64 [of a] unat_less_64 [of b] by (intro mult_le_mono) linarith+

lemma ucast_128 [simp]: "unat (ucast (a :: u64) :: u128) = unat a"
  by (rule unat_ucast_up) simp

lemma unat_add_exact: "unat x + unat y < 2 ^ LENGTH('a) \<Longrightarrow> unat (x + y :: 'a::len word) = unat x + unat y"
  by (rule unat_add_lem [THEN iffD1])

lemma unat_mult_exact: "unat x * unat y < 2 ^ LENGTH('a) \<Longrightarrow> unat (x * y :: 'a::len word) = unat x * unat y"
  by (rule unat_mult_lem [THEN iffD1])

lemma unat_product: "unat (ucast (a :: u64) * ucast (b :: u64) :: u128) = unat a * unat b"
  using product_le [of a b] by (subst unat_mult_exact) simp_all

lemma unat_product_1: "unat (ucast (a :: u64) * ucast (b :: u64) + ucast (c :: u64) :: u128) = unat a * unat b + unat c"
  using product_le [of a b] unat_less_64 [of c] by (subst unat_add_exact) (simp_all add: unat_product)

lemma unat_product_2:
  "unat (ucast (a :: u64) * ucast (b :: u64) + ucast (r :: u64) + ucast (c :: u64) :: u128) = unat a * unat b + unat r + unat c"
  using product_le [of a b] unat_less_64 [of c] unat_less_64 [of r]
  by (subst unat_add_exact) (simp_all add: unat_product_1)

text \<open>The low and the high word of a double word make up its value.\<close>

lemma Lw_Hw: "unat (Lw t) + 2 ^ 64 * unat (Hw t) = unat t"
  unfolding unat_Lw unat_Hw by (rule mod_mult_div_eq)

text \<open>One step of a loop over words: \<open>lo\<close> is stored, \<open>hi\<close> carried into the rest.\<close>

lemma limb_step:
  fixes B :: nat
  assumes "lo + B * hi = s" "rest + P * c = x + hi"
  shows "lo + B * rest + B * P * c = s + B * x"
proof -
  have "lo + B * rest + B * P * c = lo + B * (rest + P * c)" by (simp only: distrib_left mult.assoc add.assoc)
  then show ?thesis unfolding assms(2) using assms(1) by (simp only: distrib_left add.assoc add.commute add.left_commute)
qed

lemma base_Suc: "(2 :: nat) ^ (64 * Suc n) = 2 ^ 64 * 2 ^ (64 * n)"
  by (simp only: mult_Suc_right power_add)

section \<open>Multiplication by a word\<close>

lemma mul_add_value: "mul_add r a w c = (lo, hi) \<Longrightarrow> unat lo + 2 ^ 64 * unat hi = unat r + unat a * unat w + unat c"
  using Lw_Hw [of "ucast w * ucast a + ucast r + ucast c"] unfolding unat_product_2
  by (auto simp: mul_add_def Let_def mult.commute)

lemma mul_value: "mul a w c = (lo, hi) \<Longrightarrow> unat lo + 2 ^ 64 * unat hi = unat a * unat w + unat c"
  using Lw_Hw [of "ucast w * ucast a + ucast c"] unfolding unat_product_1
  by (auto simp: mul_def Let_def mult.commute)

lemma sqr_value: "sqr a = (lo, hi) \<Longrightarrow> unat lo + 2 ^ 64 * unat hi = unat a * unat a"
  using Lw_Hw [of "ucast a * ucast a"] unfolding unat_product by (auto simp: sqr_def Let_def)

lemma mul_add_loop_value:
  "length rp = length ap \<Longrightarrow> mul_add_loop rp ap w c = (rs, c') \<Longrightarrow>
     length rs = length rp \<and> wval rs + 2 ^ (64 * length rp) * unat c' = wval rp + wval ap * unat w + unat c"
proof (induction rp ap w c arbitrary: rs c' rule: mul_add_loop.induct)
  case (1 r rp a ap w c)
  obtain lo hi where s: "mul_add r a w c = (lo, hi)" by fastforce
  obtain rs1 where l: "mul_add_loop rp ap w hi = (rs1, c')" "rs = lo # rs1" using 1(3) s by (auto simp: Let_def split: prod.splits)
  have IH: "length rs1 = length rp" "wval rs1 + 2 ^ (64 * length rp) * unat c' = (wval rp + wval ap * unat w) + unat hi"
    using 1(1) [OF _ _ _ l(1)] 1(2) s by auto
  have "wval rs + 2 ^ (64 * length (r # rp)) * unat c' = unat r + unat a * unat w + unat c + 2 ^ 64 * (wval rp + wval ap * unat w)"
    unfolding l(2) wval.simps length_Cons base_Suc by (rule limb_step [OF mul_add_value [OF s] IH(2)])
  also have "\<dots> = wval (r # rp) + wval (a # ap) * unat w + unat c"
    unfolding wval.simps by (simp only: distrib_left distrib_right ac_simps)
  finally show ?case using IH(1) l(2) by simp
qed auto

lemma mul_loop_value:
  "mul_loop ap w c = (rs, c') \<Longrightarrow> length rs = length ap \<and> wval rs + 2 ^ (64 * length ap) * unat c' = wval ap * unat w + unat c"
proof (induction ap w c arbitrary: rs c' rule: mul_loop.induct)
  case (2 a ap w c)
  obtain lo hi where s: "mul a w c = (lo, hi)" by fastforce
  obtain rs1 where l: "mul_loop ap w hi = (rs1, c')" "rs = lo # rs1" using 2(2) s by (auto simp: Let_def split: prod.splits)
  have IH: "length rs1 = length ap" "wval rs1 + 2 ^ (64 * length ap) * unat c' = wval ap * unat w + unat hi"
    using 2(1) [OF _ _ l(1)] s by auto
  have "wval rs + 2 ^ (64 * length (a # ap)) * unat c' = unat a * unat w + unat c + 2 ^ 64 * (wval ap * unat w)"
    unfolding l(2) wval.simps length_Cons base_Suc by (rule limb_step [OF mul_value [OF s] IH(2)])
  also have "\<dots> = wval (a # ap) * unat w + unat c" unfolding wval.simps by (simp only: distrib_left distrib_right ac_simps)
  finally show ?case using IH(1) l(2) by simp
qed simp

text \<open>The number with the squares of the words of another in its pairs of words.\<close>

fun squares :: "u64 list \<Rightarrow> nat" where
  "squares [] = 0"
| "squares (a # as) = unat a * unat a + 2 ^ 64 * (2 ^ 64 * squares as)"

lemma sqr_words_value: "length (bn_sqr_words as) = 2 * length as \<and> wval (bn_sqr_words as) = squares as"
proof (induction as)
  case (Cons a as)
  obtain lo hi where s: "sqr a = (lo, hi)" by fastforce
  have "wval (bn_sqr_words (a # as)) = (unat lo + 2 ^ 64 * unat hi) + 2 ^ 64 * (2 ^ 64 * wval (bn_sqr_words as))"
    by (simp only: s bn_sqr_words.simps Let_def prod.case wval.simps distrib_left ac_simps)
  then show ?case using Cons s unfolding sqr_value [OF s] by simp
qed simp

section \<open>Addition and subtraction\<close>

lemma add_loop_value:
  "length as = length bs \<Longrightarrow> unat ll \<le> 1 \<Longrightarrow> add_loop ll as bs = (rs, ll') \<Longrightarrow>
     length rs = length as \<and> unat ll' \<le> 1 \<and> wval rs + 2 ^ (64 * length as) * unat ll' = wval as + wval bs + unat ll"
proof (induction ll as bs arbitrary: rs ll' rule: add_loop.induct)
  case (1 ll a as b bs)
  let ?ll = "ll + (ucast a + ucast b)"
  have s: "unat ?ll = unat ll + unat a + unat b"
  proof -
    have "unat (ucast a + ucast b :: u128) = unat a + unat b"
      using unat_less_64 [of a] unat_less_64 [of b] by (subst unat_add_exact) simp_all
    then show ?thesis using unat_less_64 [of a] unat_less_64 [of b] 1(3) by (subst unat_add_exact) simp_all
  qed
  have small: "unat (drop_bit 64 ?ll) \<le> 1"
    unfolding unat_drop_bit s using unat_less_64 [of a] unat_less_64 [of b] 1(3) by simp
  obtain rs1 where l: "add_loop (drop_bit 64 ?ll) as bs = (rs1, ll')" "rs = ucast ?ll # rs1"
    using 1(4) by (auto simp: Let_def split: prod.splits)
  have IH: "length rs1 = length as" "unat ll' \<le> 1"
    "wval rs1 + 2 ^ (64 * length as) * unat ll' = wval as + wval bs + unat ?ll div 2 ^ 64"
    using 1(1) [OF refl refl _ small l(1)] 1(2) by (auto simp: unat_drop_bit)
  have step: "unat (ucast ?ll :: u64) + 2 ^ 64 * (unat ?ll div 2 ^ 64) = unat ll + unat a + unat b"
    unfolding unat_ucast_mod s [symmetric] by simp
  have "wval rs + 2 ^ (64 * length (a # as)) * unat ll' = unat ll + unat a + unat b + 2 ^ 64 * (wval as + wval bs)"
    unfolding l(2) wval.simps length_Cons base_Suc by (rule limb_step [OF step IH(3)])
  also have "\<dots> = wval (a # as) + wval (b # bs) + unat ll" unfolding wval.simps by (simp only: distrib_left distrib_right ac_simps)
  finally show ?case using IH(1,2) l(2) by simp
qed auto

lemma bn_add_words_value:
  assumes "length a = length b" "bn_add_words a b = (r, c)"
  shows "length r = length a" "unat c \<le> 1" "wval r + 2 ^ (64 * length a) * unat c = wval a + wval b"
proof -
  obtain ll where l: "add_loop 0 a b = (r, ll)" "c = ucast ll" using assms(2) by (auto simp: bn_add_words_def split: prod.splits)
  note v = add_loop_value [OF assms(1) _ l(1)]
  have "unat c = unat ll" using v l(2) by (simp add: unat_ucast_mod)
  then show "length r = length a" "unat c \<le> 1" "wval r + 2 ^ (64 * length a) * unat c = wval a + wval b" using v by simp_all
qed

lemma sub_step:
  fixes t1 t2 c :: u64
  assumes "unat c \<le> 1"
  defines "c' \<equiv> (if t1 \<noteq> t2 then (if t1 < t2 then 1 else 0) else c)"
  shows "unat (t1 - t2 - c) + unat t2 + unat c = unat t1 + 2 ^ 64 * unat c' \<and> unat c' \<le> 1"
proof -
  have d: "unat (t1 - t2 - c) = (unat t1 + (2 ^ 64 - unat t2) + (2 ^ 64 - unat c)) mod 2 ^ 64"
  proof -
    have "t1 - t2 - c = of_nat (unat t1 + (2 ^ 64 - unat t2) + (2 ^ 64 - unat c))"
      using unat_less_64 [of t2] assms(1) by (simp add: of_nat_diff)
    then show ?thesis by (simp only: unsigned_of_nat) (simp add: take_bit_eq_mod)
  qed
  have l: "unat t1 < 2 ^ 64" "unat t2 < 2 ^ 64" by (rule unat_less_64)+
  consider "t1 = t2" | "t1 \<noteq> t2" "unat t1 < unat t2" | "t1 \<noteq> t2" "unat t2 < unat t1" by (metis linorder_neqE_nat word_unat_eq_iff)
  then show ?thesis
  proof cases
    case 1
    then have "unat (t1 - t2 - c) = (2 ^ 64 + (2 ^ 64 - unat c)) mod 2 ^ 64" unfolding d using l by simp
    then show ?thesis using 1 assms(1) by (auto simp: c'_def le_Suc_eq)
  next
    case 2
    then have "unat t1 + (2 ^ 64 - unat t2) + (2 ^ 64 - unat c) = 2 ^ 64 + (unat t1 + 2 ^ 64 - unat t2 - unat c)" using l assms(1) by simp
    moreover have "unat t1 + 2 ^ 64 - unat t2 - unat c < 2 ^ 64" using 2 l by simp
    ultimately have "unat (t1 - t2 - c) = unat t1 + 2 ^ 64 - unat t2 - unat c" unfolding d by simp
    then show ?thesis using 2 l assms(1) by (simp add: c'_def word_less_nat_alt)
  next
    case 3
    then have "unat t1 + (2 ^ 64 - unat t2) + (2 ^ 64 - unat c) = 2 ^ 64 + (2 ^ 64 + (unat t1 - unat t2 - unat c))" using l assms(1) by simp
    moreover have "unat t1 - unat t2 - unat c < 2 ^ 64" using l by simp
    ultimately have "unat (t1 - t2 - c) = unat t1 - unat t2 - unat c" unfolding d by (simp only: mod_add_self1 mod_less)
    then show ?thesis using 3 l assms(1) by (simp add: c'_def word_less_nat_alt)
  qed
qed

lemma sub_loop_value:
  "length a = length b \<Longrightarrow> unat c \<le> 1 \<Longrightarrow> sub_loop c a b = (rs, c') \<Longrightarrow>
     length rs = length a \<and> unat c' \<le> 1 \<and> wval rs + wval b + unat c = wval a + 2 ^ (64 * length a) * unat c'"
proof (induction c a b arbitrary: rs c' rule: sub_loop.induct)
  case (1 c t1 a t2 b)
  let ?c = "if t1 \<noteq> t2 then (if t1 < t2 then 1 else 0) else c"
  obtain rs1 where l: "sub_loop ?c a b = (rs1, c')" "rs = (t1 - t2 - c) # rs1" using 1(4) by (auto simp: Let_def split: prod.splits)
  note s = sub_step [OF 1(3), of t1 t2]
  have IH: "length rs1 = length a" "unat c' \<le> 1" "wval rs1 + wval b + unat ?c = wval a + 2 ^ (64 * length a) * unat c'"
    using 1(1) [OF refl refl _ _ l(1)] 1(2) s by auto
  have "wval rs + wval (t2 # b) + unat c = (unat (t1 - t2 - c) + unat t2 + unat c) + 2 ^ 64 * (wval rs1 + wval b)"
    unfolding l(2) wval.simps by (simp only: distrib_left distrib_right ac_simps)
  also have "\<dots> = unat t1 + 2 ^ 64 * (wval rs1 + wval b + unat ?c)"
    using s by (simp only: distrib_left distrib_right ac_simps)
  also have "\<dots> = wval (t1 # a) + 2 ^ (64 * length (t1 # a)) * unat c'"
    unfolding IH(3) wval.simps length_Cons base_Suc by (simp only: distrib_left distrib_right ac_simps)
  finally show ?case using IH(1,2) l(2) by simp
qed auto

lemma bn_sub_words_value:
  assumes "length a = length b" "bn_sub_words a b = (r, c)"
  shows "length r = length a" "unat c \<le> 1" "wval r + wval b = wval a + 2 ^ (64 * length a) * unat c"
  using sub_loop_value [OF assms(1), of 0 r c] assms(2) by (auto simp: bn_sub_words_def)


section \<open>Comba multiplication\<close>

fun cval :: "comba \<Rightarrow> nat" where
  "cval (c0, c1, c2) = unat c0 + 2 ^ 64 * (unat c1 + 2 ^ 64 * unat c2)"

lemma carry_value: "unat (x + y) + 2 ^ 64 * (if x + y < y then 1 else 0) = unat (x :: u64) + unat y"
proof (cases "unat x + unat y < 2 ^ 64")
  case True
  then have "unat (x + y) = unat x + unat y" by (subst unat_add_exact) simp_all
  then show ?thesis by (simp add: word_less_nat_alt)
next
  case False
  have l: "unat x < 2 ^ 64" "unat y < 2 ^ 64" by (rule unat_less_64)+
  have "unat (x + y) = (unat x + unat y) mod 2 ^ 64" by (simp add: unat_word_ariths)
  also have "\<dots> = unat x + unat y - 2 ^ 64" using False l by (subst mod_if) (simp add: mod_if)
  finally show ?thesis using False l by (simp add: word_less_nat_alt)
qed

lemma comba_carry:
  fixes hi c1 c2 :: u64
  assumes "lo + 2 ^ 64 * unat hi = s" "s + 2 ^ 64 * (unat c1 + 2 ^ 64 * unat c2) < 2 ^ 192"
  shows "lo + 2 ^ 64 * (unat (c1 + hi) + 2 ^ 64 * unat (if c1 + hi < hi then c2 + 1 else c2)) = s + 2 ^ 64 * (unat c1 + 2 ^ 64 * unat (c2 :: u64))"
proof -
  define k :: nat where "k = (if c1 + hi < hi then 1 else 0)"
  have "unat (c1 + hi) + 2 ^ 64 * k = unat c1 + unat hi" unfolding k_def by (rule carry_value)
  then have tot: "lo + 2 ^ 64 * (unat (c1 + hi) + 2 ^ 64 * (unat c2 + k)) = s + 2 ^ 64 * (unat c1 + 2 ^ 64 * unat c2)"
    using assms(1) by algebra
  then have "lo + 2 ^ 64 * (unat (c1 + hi) + 2 ^ 64 * (unat c2 + k)) < 2 ^ 192" using assms(2) by simp
  then have "unat c2 + k < 2 ^ 64" by simp
  then have "unat (if c1 + hi < hi then c2 + 1 else c2) = unat c2 + k" by (auto simp: unat_add_exact k_def)
  then show ?thesis using tot by simp
qed

lemma mul_add_c_value:
  assumes "cval c + unat a * unat b < 2 ^ 192"
  shows "cval (mul_add_c a b c) = cval c + unat a * unat b"
proof -
  obtain c0 c1 c2 where c: "c = (c0, c1, c2)" by (cases c)
  let ?t = "ucast a * ucast b + ucast c0 :: u128"
  have s: "unat (Lw ?t) + 2 ^ 64 * unat (Hw ?t) = unat a * unat b + unat c0" unfolding Lw_Hw unat_product_1 ..
  have "cval (mul_add_c a b c) = (unat a * unat b + unat c0) + 2 ^ 64 * (unat c1 + 2 ^ 64 * unat c2)"
    unfolding c mul_add_c_def prod.case Let_def cval.simps
    by (rule comba_carry [OF s]) (use assms c in simp)
  then show ?thesis using c by simp
qed

text \<open>The doubled product is added twice.\<close>

lemma mul_add_c2_twice: "mul_add_c2 a b c = mul_add_c a b (mul_add_c a b c)"
  by (cases c) (simp add: mul_add_c2_def mul_add_c_def Let_def)

lemma fold_columns:
  assumes "\<And>p c. p \<in> set col \<Longrightarrow> cval c + f p < 2 ^ 192 \<Longrightarrow> cval (add p c) = cval c + f p"
    and "cval c + sum_list (map f col) < 2 ^ 192"
  shows "cval (fold add col c) = cval c + sum_list (map f col)"
  using assms
proof (induction col arbitrary: c)
  case (Cons p col)
  then have "cval (add p c) = cval c + f p" by simp
  then show ?case using Cons.IH [of "add p c"] Cons.prems by simp
qed simp

fun columns_sum :: "nat list \<Rightarrow> nat" where
  "columns_sum [] = 0"
| "columns_sum (s # ss) = s + 2 ^ 64 * columns_sum ss"

lemma comba_columns_value:
  assumes "\<And>p c. cval c + f p < 2 ^ 192 \<Longrightarrow> cval (add p c) = cval c + f p"
  shows "\<forall>col \<in> set cols. sum_list (map f col) \<le> 2 ^ 140 \<Longrightarrow> cval c \<le> 2 ^ 128 \<Longrightarrow>
    length (comba_columns add cols c) = Suc (length cols) \<and>
    (\<exists>rest. wval (comba_columns add cols c) + 2 ^ (64 * Suc (length cols)) * rest = cval c + columns_sum (map (\<lambda>col. sum_list (map f col)) cols))"
proof (induction cols arbitrary: c)
  case Nil
  obtain c0 c1 c2 where "c = (c0, c1, c2)" by (cases c)
  then show ?case by (auto intro: exI [of _ "unat c1 + 2 ^ 64 * unat c2"])
next
  case (Cons col cols)
  let ?s = "sum_list (map f col)"
  obtain c0 c1 c2 where c: "fold add col c = (c0, c1, c2)" by (cases "fold add col c")
  have small: "cval c + ?s < 2 ^ 192" using Cons.prems by simp
  have v: "unat c0 + 2 ^ 64 * cval (c1, c2, 0) = cval c + ?s"
    using fold_columns [OF assms small] c by simp
  then have "2 ^ 64 * cval (c1, c2, 0) < 2 ^ 192" using small by linarith
  then have "cval (c1, c2, 0) \<le> 2 ^ 128" by simp
  then obtain rest where l: "length (comba_columns add cols (c1, c2, 0)) = Suc (length cols)"
    and r: "wval (comba_columns add cols (c1, c2, 0)) + 2 ^ (64 * Suc (length cols)) * rest =
      columns_sum (map (\<lambda>col. sum_list (map f col)) cols) + cval (c1, c2, 0)"
    using Cons.IH [of "(c1, c2, 0)"] Cons.prems(1) by (auto simp: add.commute)
  have "wval (comba_columns add (col # cols) c) + 2 ^ (64 * Suc (length (col # cols))) * rest
      = (cval c + ?s) + 2 ^ 64 * columns_sum (map (\<lambda>col. sum_list (map f col)) cols)"
    unfolding comba_columns.simps c prod.case wval.simps length_Cons base_Suc [of "Suc (length cols)"] by (rule limb_step [OF v r])
  then show ?case using l c by (auto intro!: exI [of _ rest])
qed

lemma poly4:
  fixes B :: nat
  shows "(a0 + B * (a1 + B * (a2 + B * a3))) * (b0 + B * (b1 + B * (b2 + B * b3))) =
    a0 * b0 + B * (a0 * b1 + a1 * b0 + B * (a2 * b0 + a1 * b1 + a0 * b2 + B * (a0 * b3 + a1 * b2 + a2 * b1 + a3 * b0 + B * (
    a3 * b1 + a2 * b2 + a1 * b3 + B * (a2 * b3 + a3 * b2 + B * (a3 * b3))))))"
  by algebra

lemma poly8:
  fixes B :: nat
  shows "(a0 + B * (a1 + B * (a2 + B * (a3 + B * (a4 + B * (a5 + B * (a6 + B * a7))))))) * (b0 + B * (b1 + B * (b2 + B * (b3 + B * (b4 + B * (b5 + B * (b6 + B * b7))))))) =
    a0 * b0 + B * (a0 * b1 + a1 * b0 + B * (a2 * b0 + a1 * b1 + a0 * b2 + B * (a0 * b3 + a1 * b2 + a2 * b1 + a3 * b0 + B * (
    a4 * b0 + a3 * b1 + a2 * b2 + a1 * b3 + a0 * b4 + B * (a0 * b5 + a1 * b4 + a2 * b3 + a3 * b2 + a4 * b1 + a5 * b0 + B * (
    a6 * b0 + a5 * b1 + a4 * b2 + a3 * b3 + a2 * b4 + a1 * b5 + a0 * b6 + B * (a0 * b7 + a1 * b6 + a2 * b5 + a3 * b4 + a4 * b3 + a5 * b2 + a6 * b1 + a7 * b0 + B * (
    a7 * b1 + a6 * b2 + a5 * b3 + a4 * b4 + a3 * b5 + a2 * b6 + a1 * b7 + B * (a2 * b7 + a3 * b6 + a4 * b5 + a5 * b4 + a6 * b3 + a7 * b2 + B * (
    a7 * b3 + a6 * b4 + a5 * b5 + a4 * b6 + a3 * b7 + B * (a4 * b7 + a5 * b6 + a6 * b5 + a7 * b4 + B * (a7 * b5 + a6 * b6 + a5 * b7 + B * (a6 * b7 + a7 * b6 + B * (a7 * b7))))))))))))))"
  by algebra

lemma comba_exact:
  assumes "\<And>p c. cval c + f p < 2 ^ 192 \<Longrightarrow> cval (add p c) = cval c + f p"
    and "\<forall>col \<in> set cols. sum_list (map f col) \<le> 2 ^ 140"
    and "columns_sum (map (\<lambda>col. sum_list (map f col)) cols) = v" "v < 2 ^ (64 * Suc (length cols))"
  shows "length (comba_columns add cols (0, 0, 0)) = Suc (length cols) \<and> wval (comba_columns add cols (0, 0, 0)) = v"
proof -
  obtain rest where r: "length (comba_columns add cols (0, 0, 0)) = Suc (length cols)"
    "wval (comba_columns add cols (0, 0, 0)) + 2 ^ (64 * Suc (length cols)) * rest = v"
    using comba_columns_value [OF assms(1,2), of "(0, 0, 0)"] assms(3) by auto
  then have "2 ^ (64 * Suc (length cols)) * rest < 2 ^ (64 * Suc (length cols)) * 1" using assms(4) by linarith
  then have "rest = 0" by simp
  then show ?thesis using r by simp
qed


lemma sum_list_le_bound: "(\<And>p. p \<in> set col \<Longrightarrow> f p \<le> (M :: nat)) \<Longrightarrow> sum_list (map f col) \<le> length col * M"
proof (induction col)
  case (Cons p col)
  then have "f p \<le> M" "sum_list (map f col) \<le> length col * M" by simp_all
  then show ?case by simp
qed simp

lemma columns_bounded:
  assumes "\<And>p. f p \<le> (2 :: nat) ^ 129" "\<forall>col \<in> set cols. length col \<le> 8"
  shows "\<forall>col \<in> set cols. sum_list (map f col) \<le> 2 ^ 140"
proof
  fix col assume "col \<in> set cols"
  then have "length col * 2 ^ 129 \<le> 8 * (2 :: nat) ^ 129" using assms(2) by (intro mult_le_mono1) simp
  moreover have "sum_list (map f col) \<le> length col * 2 ^ 129" by (rule sum_list_le_bound) (rule assms(1))
  ultimately show "sum_list (map f col) \<le> 2 ^ 140" by simp
qed

lemma product_less: "unat (a :: u64) * unat (b :: u64) \<le> 2 ^ 128"
  using product_le [of a b] by (rule order_trans) simp

lemma list4: "length a = 4 \<Longrightarrow> \<exists>a0 a1 a2 a3. a = [a0, a1, a2, a3]"
  by (auto simp: length_Suc_conv numeral_eq_Suc)

lemma list8: "length a = 8 \<Longrightarrow> \<exists>a0 a1 a2 a3 a4 a5 a6 a7. a = [a0, a1, a2, a3, a4, a5, a6, a7]"
  by (auto simp: length_Suc_conv numeral_eq_Suc)

lemma nth8:
  "[a0, a1, a2, a3, a4, a5, a6, a7] ! 0 = a0" "[a0, a1, a2, a3, a4, a5, a6, a7] ! 1 = a1" "[a0, a1, a2, a3, a4, a5, a6, a7] ! 2 = a2"
  "[a0, a1, a2, a3, a4, a5, a6, a7] ! 3 = a3" "[a0, a1, a2, a3, a4, a5, a6, a7] ! 4 = a4" "[a0, a1, a2, a3, a4, a5, a6, a7] ! 5 = a5"
  "[a0, a1, a2, a3, a4, a5, a6, a7] ! 6 = a6" "[a0, a1, a2, a3, a4, a5, a6, a7] ! 7 = a7"
  by simp_all

lemma nth4: "[a0, a1, a2, a3] ! 0 = a0" "[a0, a1, a2, a3] ! 1 = a1" "[a0, a1, a2, a3] ! 2 = a2" "[a0, a1, a2, a3] ! 3 = a3"
  by simp_all

lemmas columns_simps = columns_sum.simps list.map sum_list_simps prod.case add_0_right mult_0_right wval.simps

definition mul_term :: "u64 list \<Rightarrow> u64 list \<Rightarrow> nat \<times> nat \<Rightarrow> nat" where
  "mul_term a b p = (case p of (i, j) \<Rightarrow> unat (a ! i) * unat (b ! j))"

lemma mul_term_value: "cval c + mul_term a b p < 2 ^ 192 \<Longrightarrow>
    cval ((case p of (i, j) \<Rightarrow> mul_add_c (a ! i) (b ! j)) c) = cval c + mul_term a b p"
  by (cases p) (simp add: mul_term_def mul_add_c_value)

lemma mul_term_le: "mul_term a b p \<le> 2 ^ 129"
  unfolding mul_term_def by (cases p) (use product_less [of "a ! fst p" "b ! snd p"] in simp)

lemma product_fits: "length a = n \<Longrightarrow> length b = n \<Longrightarrow> wval a * wval b < 2 ^ (64 * (2 * n))"
proof -
  assume l: "length a = n" "length b = n"
  have "wval a * wval b < 2 ^ (64 * n) * 2 ^ (64 * n)"
    using wval_less [of a] wval_less [of b] l by (intro mult_strict_mono) simp_all
  also have "(2 :: nat) ^ (64 * n) * 2 ^ (64 * n) = 2 ^ (64 * (2 * n))" by (simp only: power_add [symmetric]) (simp add: algebra_simps)
  finally show ?thesis .
qed

lemma comba_product:
  assumes "\<And>p c. cval c + f p < 2 ^ 192 \<Longrightarrow> cval (add p c) = cval c + f p" "\<And>p. f p \<le> (2 :: nat) ^ 129"
    and "\<forall>col \<in> set cols. length col \<le> 8" "columns_sum (map (\<lambda>col. sum_list (map f col)) cols) = wval a * wval b"
    and "length a = n" "length b = n" "Suc (length cols) = 2 * n"
  shows "length (comba_columns add cols (0, 0, 0)) = 2 * n \<and> wval (comba_columns add cols (0, 0, 0)) = wval a * wval b"
  using comba_exact [OF assms(1) columns_bounded [OF assms(2,3)] assms(4)] product_fits [OF assms(5,6)]
  unfolding assms(7) by simp

lemma mul_comba4_value:
  assumes "length a = 4" "length b = 4"
  shows "length (bn_mul_comba4 a b) = 2 * 4 \<and> wval (bn_mul_comba4 a b) = wval a * wval b"
proof -
  obtain a0 a1 a2 a3 where a: "a = [a0, a1, a2, a3]" using list4 [OF assms(1)] by blast
  obtain b0 b1 b2 b3 where b: "b = [b0, b1, b2, b3]" using list4 [OF assms(2)] by blast
  show ?thesis
    unfolding bn_mul_comba4_def
  proof (rule comba_product [OF mul_term_value mul_term_le _ _ assms])
    show "columns_sum (map (\<lambda>col. sum_list (map (mul_term a b) col))
       [[(0, 0)], [(0, 1), (1, 0)], [(2, 0), (1, 1), (0, 2)], [(0, 3), (1, 2), (2, 1), (3, 0)],
        [(3, 1), (2, 2), (1, 3)], [(2, 3), (3, 2)], [(3, 3)]]) = wval a * wval b"
      unfolding columns_simps mul_term_def a b nth4 poly4 by (simp only: add.assoc)
  qed simp_all
qed

lemma mul_comba8_value:
  assumes "length a = 8" "length b = 8"
  shows "length (bn_mul_comba8 a b) = 2 * 8 \<and> wval (bn_mul_comba8 a b) = wval a * wval b"
proof -
  obtain a0 a1 a2 a3 a4 a5 a6 a7 where a: "a = [a0, a1, a2, a3, a4, a5, a6, a7]" using list8 [OF assms(1)] by blast
  obtain b0 b1 b2 b3 b4 b5 b6 b7 where b: "b = [b0, b1, b2, b3, b4, b5, b6, b7]" using list8 [OF assms(2)] by blast
  show ?thesis
    unfolding bn_mul_comba8_def
  proof (rule comba_product [OF mul_term_value mul_term_le _ _ assms])
    show "columns_sum (map (\<lambda>col. sum_list (map (mul_term a b) col))
     [[(0, 0)],
      [(0, 1), (1, 0)],
      [(2, 0), (1, 1), (0, 2)],
      [(0, 3), (1, 2), (2, 1), (3, 0)],
      [(4, 0), (3, 1), (2, 2), (1, 3), (0, 4)],
      [(0, 5), (1, 4), (2, 3), (3, 2), (4, 1), (5, 0)],
      [(6, 0), (5, 1), (4, 2), (3, 3), (2, 4), (1, 5), (0, 6)],
      [(0, 7), (1, 6), (2, 5), (3, 4), (4, 3), (5, 2), (6, 1), (7, 0)],
      [(7, 1), (6, 2), (5, 3), (4, 4), (3, 5), (2, 6), (1, 7)],
      [(2, 7), (3, 6), (4, 5), (5, 4), (6, 3), (7, 2)],
      [(7, 3), (6, 4), (5, 5), (4, 6), (3, 7)],
      [(4, 7), (5, 6), (6, 5), (7, 4)],
      [(7, 5), (6, 6), (5, 7)],
      [(6, 7), (7, 6)],
      [(7, 7)]]) = wval a * wval b"
      unfolding columns_simps mul_term_def a b nth8 poly8 by (simp only: add.assoc)
  qed simp_all
qed

text \<open>Squares: the value of a term.\<close>

fun sqr_value_of :: "u64 list \<Rightarrow> sqr_term \<Rightarrow> nat" where
  "sqr_value_of a (sqr_add_c i) = unat (a ! i) * unat (a ! i)"
| "sqr_value_of a (sqr_add_c2 i j) = 2 * (unat (a ! i) * unat (a ! j))"

lemma add_sqr_term_value: "cval c + sqr_value_of a t < 2 ^ 192 \<Longrightarrow> cval (add_sqr_term a t c) = cval c + sqr_value_of a t"
  by (cases t) (simp_all add: mul_add_c2_twice mul_add_c_value)

lemma sqr_value_of_le: "sqr_value_of a t \<le> 2 ^ 129"
proof (cases t)
  case (sqr_add_c i)
  then show ?thesis using product_less [of "a ! i" "a ! i"] by simp
next
  case (sqr_add_c2 i j)
  then show ?thesis using product_less [of "a ! i" "a ! j"] by simp
qed

lemma sqr_comba4_value:
  assumes "length a = 4"
  shows "length (bn_sqr_comba4 a) = 2 * 4 \<and> wval (bn_sqr_comba4 a) = wval a * wval a"
proof -
  obtain a0 a1 a2 a3 where a: "a = [a0, a1, a2, a3]" using list4 [OF assms(1)] by blast
  show ?thesis
    unfolding bn_sqr_comba4_def
  proof (rule comba_product [OF add_sqr_term_value sqr_value_of_le _ _ assms assms])
    show "columns_sum (map (\<lambda>col. sum_list (map (sqr_value_of a) col))
     [[sqr_add_c 0], [sqr_add_c2 1 0], [sqr_add_c 1, sqr_add_c2 2 0], [sqr_add_c2 3 0, sqr_add_c2 2 1],
      [sqr_add_c 2, sqr_add_c2 3 1], [sqr_add_c2 3 2], [sqr_add_c 3]]) = wval a * wval a"
      unfolding columns_simps sqr_value_of.simps a nth4 by algebra
  qed simp_all
qed

lemma sqr_comba8_value:
  assumes "length a = 8"
  shows "length (bn_sqr_comba8 a) = 2 * 8 \<and> wval (bn_sqr_comba8 a) = wval a * wval a"
proof -
  obtain a0 a1 a2 a3 a4 a5 a6 a7 where a: "a = [a0, a1, a2, a3, a4, a5, a6, a7]" using list8 [OF assms(1)] by blast
  show ?thesis
    unfolding bn_sqr_comba8_def
  proof (rule comba_product [OF add_sqr_term_value sqr_value_of_le _ _ assms assms])
    show "columns_sum (map (\<lambda>col. sum_list (map (sqr_value_of a) col))
     [[sqr_add_c 0],
      [sqr_add_c2 1 0],
      [sqr_add_c 1, sqr_add_c2 2 0],
      [sqr_add_c2 3 0, sqr_add_c2 2 1],
      [sqr_add_c 2, sqr_add_c2 3 1, sqr_add_c2 4 0],
      [sqr_add_c2 5 0, sqr_add_c2 4 1, sqr_add_c2 3 2],
      [sqr_add_c 3, sqr_add_c2 4 2, sqr_add_c2 5 1, sqr_add_c2 6 0],
      [sqr_add_c2 7 0, sqr_add_c2 6 1, sqr_add_c2 5 2, sqr_add_c2 4 3],
      [sqr_add_c 4, sqr_add_c2 5 3, sqr_add_c2 6 2, sqr_add_c2 7 1],
      [sqr_add_c2 7 2, sqr_add_c2 6 3, sqr_add_c2 5 4],
      [sqr_add_c 5, sqr_add_c2 6 4, sqr_add_c2 7 3],
      [sqr_add_c2 7 4, sqr_add_c2 6 5],
      [sqr_add_c 6, sqr_add_c2 7 5],
      [sqr_add_c2 7 6],
      [sqr_add_c 7]]) = wval a * wval a"
      unfolding columns_simps sqr_value_of.simps a nth8 by algebra
  qed simp_all
qed

section \<open>Properties\<close>

text \<open>
  Addition, subtraction, multiplication by a word and multiply-and-add of word arrays are exact: the words
  written and the carry or borrow returned are the whole result, for every length and every operand.
\<close>

theorem bn_words_exact:
  assumes "length a = length b"
  shows "(case bn_add_words a b of (r, c) \<Rightarrow>
      length r = length a \<and> unat c \<le> 1 \<and> wval r + 2 ^ (64 * length a) * unat c = wval a + wval b) \<and>
    (case bn_sub_words a b of (r, c) \<Rightarrow>
      length r = length a \<and> unat c \<le> 1 \<and> wval r + wval b = wval a + 2 ^ (64 * length a) * unat c) \<and>
    (case bn_mul_words a w of (r, c) \<Rightarrow>
      length r = length a \<and> wval r + 2 ^ (64 * length a) * unat c = wval a * unat w) \<and>
    (case bn_mul_add_words a b w of (r, c) \<Rightarrow>
      length r = length a \<and> wval r + 2 ^ (64 * length a) * unat c = wval a + wval b * unat w)"
proof (intro conjI)
  show "case bn_add_words a b of (r, c) \<Rightarrow>
      length r = length a \<and> unat c \<le> 1 \<and> wval r + 2 ^ (64 * length a) * unat c = wval a + wval b"
    using bn_add_words_value [OF assms] by (auto split: prod.split)
  show "case bn_sub_words a b of (r, c) \<Rightarrow>
      length r = length a \<and> unat c \<le> 1 \<and> wval r + wval b = wval a + 2 ^ (64 * length a) * unat c"
    using bn_sub_words_value [OF assms] by (auto split: prod.split)
  show "case bn_mul_words a w of (r, c) \<Rightarrow>
      length r = length a \<and> wval r + 2 ^ (64 * length a) * unat c = wval a * unat w"
    using mul_loop_value [of a w 0] by (auto simp: bn_mul_words_def split: prod.split)
  show "case bn_mul_add_words a b w of (r, c) \<Rightarrow>
      length r = length a \<and> wval r + 2 ^ (64 * length a) * unat c = wval a + wval b * unat w"
    using mul_add_loop_value [OF assms, of w 0] by (auto simp: bn_mul_add_words_def split: prod.split)
qed

theorem bn_words_exact_witness:
  "case bn_add_words [- 1, - 1] [1, 0 :: u64] of (r, c) \<Rightarrow>
     length r = length [- 1, - 1 :: u64] \<and> unat c \<le> 1
     \<and> wval r + 2 ^ (64 * length [- 1, - 1 :: u64]) * unat c = wval [- 1, - 1] + wval [1, 0]"
  by (rule bn_words_exact [of "[- 1, - 1]" "[1, 0]", THEN conjunct1]) simp

text \<open>
  The unrolled column-wise multiplications and squarings of four and eight words are the exact products: no
  column sum overflows the three words that accumulate it, and every partial product is in its column.
\<close>

theorem comba_exact_product:
  "(length a = 4 \<and> length b = 4 \<longrightarrow>
      wval (bn_mul_comba4 a b) = wval a * wval b \<and> wval (bn_sqr_comba4 a) = wval a * wval a) \<and>
   (length a = 8 \<and> length b = 8 \<longrightarrow>
      wval (bn_mul_comba8 a b) = wval a * wval b \<and> wval (bn_sqr_comba8 a) = wval a * wval a)"
  by (simp add: mul_comba4_value mul_comba8_value sqr_comba4_value sqr_comba8_value)

theorem comba_exact_product_witness:
  "wval (bn_mul_comba4 [1, 2, 3, - 1] [5, - 1, 7, 8]) = wval [1, 2, 3, - 1] * wval [5, - 1, 7, 8]"
  by (rule comba_exact_product [THEN conjunct1, rule_format, THEN conjunct1]) simp

end
