(* ===== verification/Bn.thy ===== *)
theory Bn imports Bn_Words Mem ConstTime begin

text \<open>
  Big numbers (\<open>crypto/fipsmodule/bn\<close>: \<open>bn.c\<close>, \<open>cmp.c\<close>, \<open>add.c\<close>, \<open>shift.c\<close>, \<open>bytes.c\<close>).

  \<open>bignum\<close> is \<open>struct bignum_st\<close>: \<open>bn_d\<close> is the memory of \<open>d\<close>, whose length is \<open>dmax\<close>; the words beyond
  \<open>width\<close> are allocated and not part of the number; \<open>bn_static\<close> is the flag \<open>BN_FLG_STATIC_DATA\<close>. An operation
  that writes a result is an operation on the state of \<open>r\<close>. The code allows \<open>r\<close> to be one of the arguments:
  then the argument is the old state of \<open>r\<close>, of which every word is read before it is overwritten. The error
  queue is left out: an operation that fails returns no result.
\<close>

record bignum =
  bn_d :: "u64 list"
  bn_width :: nat
  bn_neg :: bool
  bn_static :: bool

type_synonym 'a bn_op = "(bignum, 'a) op"

section \<open>Allocation\<close>

definition BN_init :: bignum where
  "BN_init = \<lparr>bn_d = [], bn_width = 0, bn_neg = False, bn_static = False\<rparr>"

definition sizeof_BIGNUM :: nat where
  "sizeof_BIGNUM = 24"

definition BN_new :: "malloc_fn \<Rightarrow> bignum option" where
  "BN_new ma = (case OPENSSL_malloc ma sizeof_BIGNUM of None \<Rightarrow> None | Some _ \<Rightarrow> Some BN_init)"

text \<open>The words of a block.\<close>

definition block_words :: "nat \<Rightarrow> u8 list \<Rightarrow> u64 list" where
  "block_words n bytes = map (\<lambda>i. of_nat (le_val (take 8 (drop (8 * i) bytes)))) [0..<n]"

definition bn_max_words :: nat where
  "bn_max_words = 0x7fffffff div (4 * 64)"

definition bn_wexpand :: "malloc_fn \<Rightarrow> nat \<Rightarrow> unit bn_op" where
  "bn_wexpand ma words bn =
     (if words \<le> length (bn_d bn) then (Some (), bn)
      else if bn_max_words < words then (None, bn)
      else if bn_static bn then (None, bn)
      else
        (case OPENSSL_malloc ma (8 * words) of
           None \<Rightarrow> (None, bn)
         | Some a \<Rightarrow>
             (Some (), bn\<lparr>bn_d := take (bn_width bn) (bn_d bn) @ drop (bn_width bn) (block_words words (block_bytes a))\<rparr>)))"

definition bn_expand :: "malloc_fn \<Rightarrow> nat \<Rightarrow> unit bn_op" where
  "bn_expand ma bits bn =
     (if size_add bits 63 < bits then (None, bn) else bn_wexpand ma (size_add bits 63 div 64) bn)"

section \<open>Basic operations\<close>

definition put_words :: "nat \<Rightarrow> u64 list \<Rightarrow> u64 list \<Rightarrow> u64 list" where
  "put_words off ws d = take off d @ ws @ drop (off + length ws) d"

definition BN_copy :: "malloc_fn \<Rightarrow> bignum \<Rightarrow> unit bn_op" where
  "BN_copy ma src = op_bind (bn_wexpand ma (bn_width src)) (\<lambda>_ dest.
     (Some (), dest\<lparr>bn_d := put_words 0 (take (bn_width src) (bn_d src)) (bn_d dest),
                    bn_width := bn_width src, bn_neg := bn_neg src\<rparr>))"

definition BN_dup :: "malloc_fn \<Rightarrow> bignum option \<Rightarrow> bignum option" where
  "BN_dup ma src =
     (case src of
        None \<Rightarrow> None
      | Some src \<Rightarrow>
          (case BN_new ma of
             None \<Rightarrow> None
           | Some copy \<Rightarrow> (case BN_copy ma src copy of (None, _) \<Rightarrow> None | (Some _, copy) \<Rightarrow> Some copy)))"

definition BN_clear :: "bignum \<Rightarrow> bignum" where
  "BN_clear bn = bn\<lparr>bn_d := replicate (length (bn_d bn)) 0, bn_width := 0, bn_neg := False\<rparr>"

definition BN_value_one :: bignum where
  "BN_value_one = \<lparr>bn_d = [1], bn_width = 1, bn_neg = False, bn_static = True\<rparr>"

text \<open>One block of \<open>BN_num_bits_word\<close>: whether the upper part of \<open>l\<close>, above bit \<open>k\<close>, is non-zero.\<close>

definition num_bits_step :: "nat \<Rightarrow> u64 \<times> nat \<Rightarrow> u64 \<times> nat" where
  "num_bits_step k lb =
     (case lb of (l, bits) \<Rightarrow>
        let x = drop_bit k l;
            msk = 0 - x;
            msk = 0 - drop_bit 63 msk in
        (l XOR ((x XOR l) AND msk), bits + unat (of_nat k AND msk)))"

definition BN_num_bits_word :: "u64 \<Rightarrow> nat" where
  "BN_num_bits_word l =
     snd (fold num_bits_step [32, 16, 8, 4, 2, 1] (l, if l \<noteq> 0 then 1 else 0))"

fun minimal_width_from :: "u64 list \<Rightarrow> nat \<Rightarrow> nat" where
  "minimal_width_from d 0 = 0"
| "minimal_width_from d (Suc n) = (if d ! n = 0 then minimal_width_from d n else Suc n)"

definition bn_minimal_width :: "bignum \<Rightarrow> nat" where
  "bn_minimal_width bn = minimal_width_from (bn_d bn) (bn_width bn)"

definition bn_set_minimal_width :: "bignum \<Rightarrow> bignum" where
  "bn_set_minimal_width bn =
     (let bn = bn\<lparr>bn_width := bn_minimal_width bn\<rparr> in
      if bn_width bn = 0 then bn\<lparr>bn_neg := False\<rparr> else bn)"

definition BN_num_bits :: "bignum \<Rightarrow> nat" where
  "BN_num_bits bn =
     (let width = bn_minimal_width bn in
      if width = 0 then 0 else (width - 1) * 64 + BN_num_bits_word (bn_d bn ! (width - 1)))"

definition BN_num_bytes :: "bignum \<Rightarrow> nat" where
  "BN_num_bytes bn = (BN_num_bits bn + 7) div 8"

definition BN_zero :: "bignum \<Rightarrow> bignum" where
  "BN_zero bn = bn\<lparr>bn_width := 0, bn_neg := False\<rparr>"

definition BN_set_word :: "malloc_fn \<Rightarrow> u64 \<Rightarrow> unit bn_op" where
  "BN_set_word ma v bn =
     (if v = 0 then (Some (), BN_zero bn)
      else op_bind (bn_wexpand ma 1) (\<lambda>_ bn.
        (Some (), bn\<lparr>bn_neg := False, bn_d := (bn_d bn)[0 := v], bn_width := 1\<rparr>)) bn)"

definition BN_one :: "malloc_fn \<Rightarrow> unit bn_op" where
  "BN_one ma = BN_set_word ma 1"

definition BN_set_u64 :: "malloc_fn \<Rightarrow> u64 \<Rightarrow> unit bn_op" where
  "BN_set_u64 ma v = BN_set_word ma v"

definition bn_set_words :: "malloc_fn \<Rightarrow> u64 list \<Rightarrow> unit bn_op" where
  "bn_set_words ma words = op_bind (bn_wexpand ma (length words)) (\<lambda>_ bn.
     (Some (), bn\<lparr>bn_d := put_words 0 words (bn_d bn), bn_width := length words, bn_neg := False\<rparr>))"

text \<open>The words from an index on are OR-ed together.\<close>

definition or_words :: "u64 list \<Rightarrow> u64 \<Rightarrow> u64" where
  "or_words ws msk = foldl (OR) msk ws"

definition bn_fits_in_words :: "bignum \<Rightarrow> nat \<Rightarrow> bool" where
  "bn_fits_in_words bn num \<longleftrightarrow> or_words (drop num (take (bn_width bn) (bn_d bn))) 0 = 0"

definition bn_copy_words :: "nat \<Rightarrow> bignum \<Rightarrow> u64 list option" where
  "bn_copy_words num bn =
     (if bn_neg bn then None
      else if num < bn_width bn \<and> \<not> bn_fits_in_words bn num then None
      else let width = (if num < bn_width bn then num else bn_width bn) in
        Some (take width (bn_d bn) @ replicate (num - width) 0))"

definition bn_resize_words :: "malloc_fn \<Rightarrow> nat \<Rightarrow> unit bn_op" where
  "bn_resize_words ma words bn =
     (if bn_width bn \<le> words then
        op_bind (bn_wexpand ma words) (\<lambda>_ bn.
          (Some (), bn\<lparr>bn_d := put_words (bn_width bn) (replicate (words - bn_width bn) 0) (bn_d bn), bn_width := words\<rparr>)) bn
      else if \<not> bn_fits_in_words bn words then (None, bn)
      else (Some (), bn\<lparr>bn_width := words\<rparr>))"

definition bn_select_words :: "u64 \<Rightarrow> u64 list \<Rightarrow> u64 list \<Rightarrow> u64 list" where
  "bn_select_words msk a b = map2 (constant_time_select_w msk) a b"

section \<open>Comparison\<close>

definition constant_time_select_int :: "u64 \<Rightarrow> int \<Rightarrow> int \<Rightarrow> int" where
  "constant_time_select_int msk a b =
     sint (ucast (constant_time_select_w msk (word_of_int a) (word_of_int b)) :: u32)"

fun cmp_common :: "u64 list \<Rightarrow> u64 list \<Rightarrow> int \<Rightarrow> int" where
  "cmp_common (a # as) (b # bs) ret =
     (let eq = constant_time_eq_w a b;
          lt = constant_time_lt_w a b in
      cmp_common as bs (constant_time_select_int eq ret (constant_time_select_int lt (-1) 1)))"
| "cmp_common _ _ ret = ret"

definition bn_cmp_words_consttime :: "u64 list \<Rightarrow> u64 list \<Rightarrow> int" where
  "bn_cmp_words_consttime a b =
     (let ret = cmp_common a b 0 in
      if length a < length b
      then constant_time_select_int (constant_time_is_zero_w (or_words (drop (length a) b) 0)) ret (-1)
      else if length b < length a
      then constant_time_select_int (constant_time_is_zero_w (or_words (drop (length b) a) 0)) ret 1
      else ret)"

definition bn_words :: "bignum \<Rightarrow> u64 list" where
  "bn_words bn = take (bn_width bn) (bn_d bn)"

definition BN_ucmp :: "bignum \<Rightarrow> bignum \<Rightarrow> int" where
  "BN_ucmp a b = bn_cmp_words_consttime (bn_words a) (bn_words b)"

definition BN_cmp :: "bignum option \<Rightarrow> bignum option \<Rightarrow> int" where
  "BN_cmp a b =
     (case (a, b) of
        (Some a, Some b) \<Rightarrow>
          if bn_neg a \<noteq> bn_neg b then (if bn_neg a then -1 else 1)
          else let ret = BN_ucmp a b in if bn_neg a then - ret else ret
      | (Some _, None) \<Rightarrow> -1
      | (None, Some _) \<Rightarrow> 1
      | (None, None) \<Rightarrow> 0)"

definition bn_less_than_words :: "u64 list \<Rightarrow> u64 list \<Rightarrow> bool" where
  "bn_less_than_words a b \<longleftrightarrow> bn_cmp_words_consttime a b < 0"

definition BN_abs_is_word :: "bignum \<Rightarrow> u64 \<Rightarrow> bool" where
  "BN_abs_is_word bn w \<longleftrightarrow>
     (if bn_width bn = 0 then w = 0
      else or_words (drop 1 (bn_words bn)) (bn_d bn ! 0 XOR w) = 0)"

definition BN_cmp_word :: "bignum \<Rightarrow> u64 \<Rightarrow> int" where
  "BN_cmp_word a b =
     BN_cmp (Some a) (Some \<lparr>bn_d = [b], bn_width = (if 0 < b then 1 else 0), bn_neg = False, bn_static = True\<rparr>)"

definition BN_is_zero :: "bignum \<Rightarrow> bool" where
  "BN_is_zero bn \<longleftrightarrow> bn_fits_in_words bn 0"

definition BN_is_one :: "bignum \<Rightarrow> bool" where
  "BN_is_one bn \<longleftrightarrow> \<not> bn_neg bn \<and> BN_abs_is_word bn 1"

definition BN_is_word :: "bignum \<Rightarrow> u64 \<Rightarrow> bool" where
  "BN_is_word bn w \<longleftrightarrow> BN_abs_is_word bn w \<and> (w = 0 \<or> \<not> bn_neg bn)"

definition BN_is_odd :: "bignum \<Rightarrow> bool" where
  "BN_is_odd bn \<longleftrightarrow> 0 < bn_width bn \<and> bn_d bn ! 0 AND 1 = 1"

definition BN_is_negative :: "bignum \<Rightarrow> bool" where
  "BN_is_negative bn = bn_neg bn"

definition BN_set_negative :: "bool \<Rightarrow> bignum \<Rightarrow> bignum" where
  "BN_set_negative sign bn = bn\<lparr>bn_neg := sign \<and> \<not> BN_is_zero bn\<rparr>"

definition BN_is_pow2 :: "bignum \<Rightarrow> bool" where
  "BN_is_pow2 bn \<longleftrightarrow>
     (let width = bn_minimal_width bn in
      \<not> (width = 0 \<or> bn_neg bn)
      \<and> (\<forall>w \<in> set (take (width - 1) (bn_d bn)). w = 0)
      \<and> bn_d bn ! (width - 1) AND (bn_d bn ! (width - 1) - 1) = 0)"

definition BN_equal_consttime :: "bignum \<Rightarrow> bignum \<Rightarrow> bool" where
  "BN_equal_consttime a b \<longleftrightarrow>
     (let msk = or_words (drop (bn_width a) (bn_words b)) 0;
          msk = or_words (drop (bn_width b) (bn_words a)) msk;
          msk = or_words (map2 (XOR) (bn_words a) (bn_words b)) msk;
          msk = msk OR (if bn_neg a \<noteq> bn_neg b then 1 else 0) in
      msk = 0)"

section \<open>The number a bignum stands for\<close>

definition bn_mag :: "bignum \<Rightarrow> nat" where
  "bn_mag bn = wval (bn_words bn)"

definition bn_value :: "bignum \<Rightarrow> int" where
  "bn_value bn = (if bn_neg bn then - int (bn_mag bn) else int (bn_mag bn))"

definition bn_ok :: "bignum \<Rightarrow> bool" where
  "bn_ok bn \<longleftrightarrow> bn_width bn \<le> length (bn_d bn)"

lemma length_bn_words [simp]: "bn_ok bn \<Longrightarrow> length (bn_words bn) = bn_width bn"
  by (simp add: bn_ok_def bn_words_def)

lemma wval_zero_iff: "wval ws = 0 \<longleftrightarrow> (\<forall>w \<in> set ws. w = 0)"
  by (induction ws) (auto simp: unat_eq_0)

lemma wval_replicate [simp]: "wval (replicate n 0) = 0"
  by (induction n) simp_all

lemma or_words_zero_iff: "or_words ws m = 0 \<longleftrightarrow> m = 0 \<and> (\<forall>w \<in> set ws. w = 0)"
proof (induction ws arbitrary: m)
  case (Cons w ws)
  have "m OR w = 0 \<longleftrightarrow> m = 0 \<and> w = 0" by (auto simp: bit_eq_iff bit_or_iff)
  then show ?case using Cons [of "m OR w"] by (auto simp: or_words_def)
qed (simp add: or_words_def)

lemma or_words_wval: "or_words ws 0 = 0 \<longleftrightarrow> wval ws = 0"
  by (simp add: or_words_zero_iff wval_zero_iff)

lemma wval_take_drop: "wval ws = wval (take n ws) + 2 ^ (64 * length (take n ws)) * wval (drop n ws)"
  using wval_append [of "take n ws" "drop n ws"] by simp

lemma low_part_iff: "lo < P \<Longrightarrow> lo + P * h < P \<longleftrightarrow> (h :: nat) = 0"
  by (cases h) simp_all

lemma fits_iff: "bn_ok bn \<Longrightarrow> bn_fits_in_words bn num \<longleftrightarrow> bn_mag bn < 2 ^ (64 * num)"
proof (cases "num < bn_width bn")
  case True
  assume ok: "bn_ok bn"
  have l: "length (take num (bn_words bn)) = num" using True ok by simp
  have v: "bn_mag bn = wval (take num (bn_words bn)) + 2 ^ (64 * num) * wval (drop num (bn_words bn))"
    unfolding bn_mag_def using wval_take_drop [of "bn_words bn" num] l by simp
  have "wval (take num (bn_words bn)) < 2 ^ (64 * num)" using wval_less [of "take num (bn_words bn)"] l by simp
  then have "bn_mag bn < 2 ^ (64 * num) \<longleftrightarrow> wval (drop num (bn_words bn)) = 0"
    unfolding v by (rule low_part_iff)
  then show ?thesis by (simp add: bn_fits_in_words_def or_words_wval bn_words_def)
next
  case False
  assume ok: "bn_ok bn"
  have "bn_mag bn < 2 ^ (64 * bn_width bn)" using wval_less [of "bn_words bn"] ok by (simp add: bn_mag_def)
  also have "(2 :: nat) ^ (64 * bn_width bn) \<le> 2 ^ (64 * num)" using False by (intro power_increasing) simp_all
  finally show ?thesis using False by (simp add: bn_fits_in_words_def or_words_def)
qed

lemma is_zero_iff: "bn_ok bn \<Longrightarrow> BN_is_zero bn \<longleftrightarrow> bn_mag bn = 0"
  by (simp add: BN_is_zero_def fits_iff)

section \<open>Minimal width\<close>

lemma minimal_width_from:
  "n \<le> length d \<Longrightarrow> minimal_width_from d n \<le> n \<and> wval (take (minimal_width_from d n) d) = wval (take n d)
     \<and> (minimal_width_from d n \<noteq> 0 \<longrightarrow> d ! (minimal_width_from d n - 1) \<noteq> 0)"
proof (induction n)
  case (Suc n)
  then have "take (Suc n) d = take n d @ [d ! n]" by (simp add: take_Suc_conv_app_nth)
  then show ?case using Suc by (auto simp: wval_append)
qed simp

lemma set_minimal_width:
  assumes "bn_ok bn"
  shows "bn_ok (bn_set_minimal_width bn) \<and> bn_mag (bn_set_minimal_width bn) = bn_mag bn
    \<and> bn_value (bn_set_minimal_width bn) = bn_value bn \<and> bn_width (bn_set_minimal_width bn) \<le> bn_width bn"
proof -
  note m = minimal_width_from [of "bn_width bn" "bn_d bn"]
  have mag: "bn_mag (bn_set_minimal_width bn) = bn_mag bn"
    using m assms by (auto simp: bn_set_minimal_width_def Let_def bn_mag_def bn_words_def bn_ok_def bn_minimal_width_def)
  moreover have "bn_value (bn_set_minimal_width bn) = bn_value bn"
  proof (cases "bn_minimal_width bn = 0")
    case True
    then have "bn_mag bn = 0" using m assms by (simp add: bn_mag_def bn_words_def bn_ok_def bn_minimal_width_def)
    then show ?thesis using mag by (simp add: bn_value_def)
  next
    case False
    then have "bn_neg (bn_set_minimal_width bn) = bn_neg bn" by (simp add: bn_set_minimal_width_def Let_def)
    then show ?thesis using mag by (simp add: bn_value_def)
  qed
  ultimately show ?thesis
    using m assms by (auto simp: bn_set_minimal_width_def Let_def bn_ok_def bn_minimal_width_def)
qed

section \<open>Allocation\<close>

lemma length_block_words [simp]: "length (block_words n bs) = n"
  by (simp add: block_words_def)

lemma wexpand:
  assumes "bn_ok bn" "bn_wexpand ma n bn = (Some u, bn')"
  shows "bn_ok bn'" "n \<le> length (bn_d bn')" "bn_words bn' = bn_words bn" "bn_width bn' = bn_width bn"
    "bn_neg bn' = bn_neg bn" "bn_static bn' = bn_static bn"
  using assms by (auto simp: bn_wexpand_def bn_ok_def bn_words_def split: if_splits option.splits)

lemma wexpand_total:
  assumes "malloc_total ma" "\<not> bn_static bn" "n \<le> bn_max_words"
  shows "\<exists>bn'. bn_wexpand ma n bn = (Some (), bn')"
proof -
  have "8 * n + 8 < 2 ^ 63" using assms(3) by (simp add: bn_max_words_def)
  then obtain b where "OPENSSL_malloc ma (8 * n) = Some b" by (rule OPENSSL_malloc_total [OF assms(1)])
  then show ?thesis using assms by (auto simp: bn_wexpand_def not_less)
qed

section \<open>Comparison\<close>

lemma ucast_all_ones: "ucast (- 1 :: u64) = (- 1 :: u32)"
  by (rule bit_word_eqI) (simp add: bit_simps)

lemma select_int_mask:
  assumes "a \<in> {-1, 0, 1}" "b \<in> {-1, 0, 1}"
  shows "constant_time_select_int (if c then - 1 else 0) a b = (if c then a else b)"
  using assms by (cases c) (auto simp: constant_time_select_int_def constant_time_select_w_def ucast_all_ones)

lemmas select_int = select_int_mask [where c = True, unfolded if_True] select_int_mask [where c = False, unfolded if_False]

lemma wval_Cons_less:
  "wval (a # as) < wval (b # bs) \<longleftrightarrow> wval as < wval bs \<or> (wval as = wval bs \<and> a < b)"
proof -
  have l: "unat a < 2 ^ 64" "unat b < 2 ^ 64" by (rule unat_less_64)+
  consider "wval as < wval bs" | "wval as = wval bs" | "wval bs < wval as" by linarith
  then show ?thesis
  proof cases
    case 1
    then have "2 ^ 64 * (wval as + 1) \<le> 2 ^ 64 * wval bs" by (intro mult_le_mono2) simp
    then show ?thesis using 1 l by simp
  next
    case 2
    then show ?thesis by (simp add: word_less_nat_alt)
  next
    case 3
    then have "2 ^ 64 * (wval bs + 1) \<le> 2 ^ 64 * wval as" by (intro mult_le_mono2) simp
    then show ?thesis using 3 l by simp
  qed
qed

lemma wval_Cons_eq: "wval (a # as) = wval (b # bs) \<longleftrightarrow> wval as = wval bs \<and> a = b"
  using wval_Cons_less [of a as b bs] wval_Cons_less [of b bs a as] by (metis less_irrefl linorder_neqE wval.simps(2))

definition cmp_result :: "nat \<Rightarrow> nat \<Rightarrow> int \<Rightarrow> int" where
  "cmp_result m n ret = (if m < n then -1 else if n < m then 1 else ret)"

lemma cmp_common_value:
  "length as = length bs \<Longrightarrow> ret \<in> {-1, 0, 1} \<Longrightarrow> cmp_common as bs ret = cmp_result (wval as) (wval bs) ret"
proof (induction as bs ret rule: cmp_common.induct)
  case (1 a as b bs ret)
  let ?r = "if a = b then ret else if a < b then -1 else 1"
  have "constant_time_select_int (constant_time_eq_w a b) ret (constant_time_select_int (constant_time_lt_w a b) (-1) 1) = ?r"
    using 1(3) by (simp add: eq_w_mask lt_w_mask select_int_mask)
  then have "cmp_common (a # as) (b # bs) ret = cmp_common as bs ?r" by (simp add: Let_def)
  also have "\<dots> = cmp_result (wval as) (wval bs) ?r"
    using 1(1) [OF refl refl] 1(2,3) \<open>constant_time_select_int _ _ _ = ?r\<close> by simp
  also have "\<dots> = cmp_result (wval (a # as)) (wval (b # bs)) ret"
    unfolding cmp_result_def wval_Cons_less by (auto simp: not_less dest: less_imp_not_less)
  finally show ?case .
qed (simp_all add: cmp_result_def)

lemma cmp_common_take: "cmp_common as bs ret = cmp_common (take n as) (take n bs) ret" if "min (length as) (length bs) \<le> n"
  using that
proof (induction as bs ret arbitrary: n rule: cmp_common.induct)
  case (1 a as b bs ret)
  then obtain m where "n = Suc m" by (cases n) auto
  then show ?case using 1(1) [OF refl refl, of m] 1(2) by (simp add: Let_def)
qed (auto simp: take_Cons' split: nat.splits)

lemma cmp_words_value: "bn_cmp_words_consttime a b = cmp_result (wval a) (wval b) 0"
proof -
  let ?n = "min (length a) (length b)"
  have c: "cmp_common a b 0 = cmp_result (wval (take ?n a)) (wval (take ?n b)) 0"
    unfolding cmp_common_take [of a b ?n, OF order_refl] by (rule cmp_common_value) simp_all
  have r: "cmp_result m n 0 \<in> {-1, 0, 1}" for m n by (simp add: cmp_result_def)
  consider "length a = length b" | "length a < length b" | "length b < length a" by linarith
  then show ?thesis
  proof cases
    case 1
    then show ?thesis using c by (simp add: bn_cmp_words_consttime_def)
  next
    case 2
    have v: "wval b = wval (take (length a) b) + 2 ^ (64 * length a) * wval (drop (length a) b)"
      using wval_take_drop [of b "length a"] 2 by simp
    show ?thesis
    proof (cases "wval (drop (length a) b) = 0")
      case True
      then show ?thesis using 2 c v r by (simp add: bn_cmp_words_consttime_def is_zero_w_mask or_words_wval select_int)
    next
      case False
      then have "(2 :: nat) ^ (64 * length a) * 1 \<le> 2 ^ (64 * length a) * wval (drop (length a) b)" by (intro mult_le_mono2) simp
      then have "wval a < wval b" using wval_less [of a] v by linarith
      then show ?thesis using False 2 c r by (simp add: bn_cmp_words_consttime_def is_zero_w_mask or_words_wval select_int cmp_result_def)
    qed
  next
    case 3
    have v: "wval a = wval (take (length b) a) + 2 ^ (64 * length b) * wval (drop (length b) a)"
      using wval_take_drop [of a "length b"] 3 by simp
    show ?thesis
    proof (cases "wval (drop (length b) a) = 0")
      case True
      then show ?thesis using 3 c v r by (simp add: bn_cmp_words_consttime_def is_zero_w_mask or_words_wval select_int)
    next
      case False
      then have "(2 :: nat) ^ (64 * length b) * 1 \<le> 2 ^ (64 * length b) * wval (drop (length b) a)" by (intro mult_le_mono2) simp
      then have "wval b < wval a" using wval_less [of b] v by linarith
      then show ?thesis using False 3 c r by (simp add: bn_cmp_words_consttime_def is_zero_w_mask or_words_wval select_int cmp_result_def)
    qed
  qed
qed

lemma ucmp_value: "BN_ucmp a b = cmp_result (bn_mag a) (bn_mag b) 0"
  by (simp add: BN_ucmp_def cmp_words_value bn_mag_def)

section \<open>Number of bits\<close>

lemma num_bits_step:
  assumes "unat l < 2 ^ (2 * k)" "k \<in> {32, 16, 8, 4, 2, 1}"
  shows "num_bits_step k (l, bits) = (if unat l < 2 ^ k then (l, bits) else (drop_bit k l, bits + k))"
proof -
  let ?x = "drop_bit k l"
  have x: "unat ?x = unat l div 2 ^ k" by (rule unat_drop_bit)
  then have xk: "unat ?x < 2 ^ k" using assms(1) by (simp add: less_mult_imp_div_less mult_2 power_add)
  show ?thesis
  proof (cases "unat l < 2 ^ k")
    case True
    then have "?x = 0" using x by (simp add: unat_eq_0)
    then show ?thesis using True by (simp add: num_bits_step_def)
  next
    case False
    then have "0 < unat ?x" using x by (simp add: div_greater_zero_iff)
    moreover have "unat ?x < 2 ^ 32" using xk assms(2) by (auto intro: less_le_trans)
    moreover from \<open>0 < unat ?x\<close> have "?x \<noteq> 0" by auto
    then have "unat (- ?x) + unat ?x = 2 ^ 64"
      using sub_step [of 0 0 ?x] by (auto simp: word_neq_0_conv)
    ultimately have "2 ^ 63 \<le> unat (- ?x)" by simp
    then have "bit (- ?x) 63" by (simp add: bit_63_iff)
    then have m: "0 - drop_bit 63 (0 - ?x) = - 1" using msb_mask [of "- ?x"] by (simp add: constant_time_msb_w_def)
    have "l XOR (?x XOR l) = ?x" by (rule bit_word_eqI) (auto simp: bit_simps)
    moreover have "unat (of_nat k :: u64) = k" using assms(2) by auto
    ultimately show ?thesis using False m by (simp add: num_bits_step_def Let_def)
  qed
qed

text \<open>Halving the search: \<open>l\<close> is the top of the number \<open>v\<close>, shifted by \<open>s\<close> bits that are counted.\<close>

definition bits_found :: "nat \<Rightarrow> nat \<Rightarrow> nat \<Rightarrow> u64 \<times> nat \<Rightarrow> bool" where
  "bits_found v b m lb \<longleftrightarrow> (case lb of (l, bits) \<Rightarrow>
     \<exists>s. bits = b + s \<and> unat l < 2 ^ m \<and> unat l * 2 ^ s \<le> v \<and> v < (unat l + 1) * 2 ^ s \<and> (v = 0 \<or> 0 < unat l))"

lemma bits_found_step:
  assumes "bits_found v b (2 * k) lb" "k \<in> {32, 16, 8, 4, 2, 1}"
  shows "bits_found v b k (num_bits_step k lb)"
proof -
  obtain l bits where lb: "lb = (l, bits)" by (cases lb)
  obtain s where s: "bits = b + s" "unat l < 2 ^ (2 * k)" "unat l * 2 ^ s \<le> v" "v < (unat l + 1) * 2 ^ s" "v = 0 \<or> 0 < unat l"
    using assms(1) by (auto simp: bits_found_def lb)
  let ?q = "unat l div 2 ^ k" and ?r = "unat l mod 2 ^ k"
  have l: "unat l = ?q * 2 ^ k + ?r" by (rule div_mult_mod_eq [symmetric])
  have r: "?r + 1 \<le> 2 ^ k" by (simp add: Suc_le_eq)
  show ?thesis
  proof (cases "unat l < 2 ^ k")
    case True
    then show ?thesis unfolding lb num_bits_step [OF s(2) assms(2)] using s by (auto simp: bits_found_def)
  next
    case False
    have "?q * 2 ^ k \<le> unat l" by (metis div_times_less_eq_dividend)
    then have "?q * 2 ^ k * 2 ^ s \<le> unat l * 2 ^ s" by (rule mult_le_mono1)
    then have lo: "?q * 2 ^ (s + k) \<le> v" using s(3) by (simp only: power_add ac_simps)
    have "(?q + 1) * 2 ^ k = ?q * 2 ^ k + 2 ^ k" by (simp only: distrib_right nat_mult_1)
    then have "unat l + 1 \<le> (?q + 1) * 2 ^ k" using l r by linarith
    then have "(unat l + 1) * 2 ^ s \<le> (?q + 1) * 2 ^ k * 2 ^ s" by (rule mult_le_mono1)
    then have hi: "v < (?q + 1) * 2 ^ (s + k)" using s(4) by (simp only: power_add ac_simps)
    have "?q < 2 ^ k" using s(2) by (simp add: less_mult_imp_div_less mult_2 power_add)
    moreover have "0 < ?q" using False by (simp add: div_greater_zero_iff)
    ultimately show ?thesis
      unfolding lb num_bits_step [OF s(2) assms(2)] bits_found_def using False s(1) lo hi
      by (auto simp: unat_drop_bit intro!: exI [of _ "s + k"])
  qed
qed

lemma num_bits_word_value:
  "unat l < 2 ^ BN_num_bits_word l \<and> (l \<noteq> 0 \<longrightarrow> 2 ^ (BN_num_bits_word l - 1) \<le> unat l \<and> 0 < BN_num_bits_word l)"
proof -
  let ?b = "if l \<noteq> 0 then 1 else 0 :: nat"
  have "bits_found (unat l) ?b (2 * 32) (l, ?b)" using unat_less_64 [of l] by (auto simp: bits_found_def intro!: exI [of _ 0])
  then have "bits_found (unat l) ?b (2 * 16) (num_bits_step 32 (l, ?b))" using bits_found_step [of "unat l" ?b 32] by simp
  then have "bits_found (unat l) ?b (2 * 8) (num_bits_step 16 (num_bits_step 32 (l, ?b)))" using bits_found_step [of "unat l" ?b 16] by simp
  then have "bits_found (unat l) ?b (2 * 4) (num_bits_step 8 (num_bits_step 16 (num_bits_step 32 (l, ?b))))"
    using bits_found_step [of "unat l" ?b 8] by simp
  then have "bits_found (unat l) ?b (2 * 2) (num_bits_step 4 (num_bits_step 8 (num_bits_step 16 (num_bits_step 32 (l, ?b)))))"
    using bits_found_step [of "unat l" ?b 4] by simp
  then have "bits_found (unat l) ?b (2 * 1) (num_bits_step 2 (num_bits_step 4 (num_bits_step 8 (num_bits_step 16 (num_bits_step 32 (l, ?b))))))"
    using bits_found_step [of "unat l" ?b 2] by simp
  then have "bits_found (unat l) ?b 1 (fold num_bits_step [32, 16, 8, 4, 2, 1] (l, ?b))"
    using bits_found_step [of "unat l" ?b 1] by simp
  then obtain l' s where f: "fold num_bits_step [32, 16, 8, 4, 2, 1] (l, ?b) = (l', ?b + s)" "unat l' < 2 ^ 1"
    "unat l' * 2 ^ s \<le> unat l" "unat l < (unat l' + 1) * 2 ^ s" "unat l = 0 \<or> 0 < unat l'"
    by (cases "fold num_bits_step [32, 16, 8, 4, 2, 1] (l, ?b)") (auto simp: bits_found_def)
  then have n: "BN_num_bits_word l = ?b + s" by (simp only: BN_num_bits_word_def snd_conv)
  show ?thesis
  proof (cases "l = 0")
    case True
    then show ?thesis by simp
  next
    case False
    then have "unat l' = 1" using f(2,5) by (auto simp: unat_eq_0)
    then show ?thesis using n f(3,4) False by simp
  qed
qed

lemma num_bits_value:
  assumes "bn_ok bn"
  shows "bn_mag bn < 2 ^ BN_num_bits bn \<and> (bn_mag bn \<noteq> 0 \<longrightarrow> 2 ^ (BN_num_bits bn - 1) \<le> bn_mag bn)"
proof -
  let ?w = "bn_minimal_width bn" and ?d = "bn_d bn"
  have m: "?w \<le> bn_width bn" "wval (take ?w ?d) = bn_mag bn" "?w \<noteq> 0 \<longrightarrow> ?d ! (?w - 1) \<noteq> 0"
    using minimal_width_from [of "bn_width bn" ?d] assms by (simp_all add: bn_minimal_width_def bn_mag_def bn_words_def bn_ok_def)
  show ?thesis
  proof (cases "?w = 0")
    case True
    then show ?thesis using m(2) by (simp add: BN_num_bits_def)
  next
    case False
    define t where "t = ?d ! (?w - 1)"
    define lo where "lo = wval (take (?w - 1) ?d)"
    define e where "e = 64 * (?w - 1)"
    have t: "t \<noteq> 0" using m(3) False by (simp add: t_def)
    have len: "?w \<le> length ?d" using m(1) assms by (simp add: bn_ok_def)
    then have "take ?w ?d = take (?w - 1) ?d @ [t]" using False take_Suc_conv_app_nth [of "?w - 1" ?d] by (simp add: t_def)
    moreover have l: "length (take (?w - 1) ?d) = ?w - 1" using len by simp
    ultimately have v: "bn_mag bn = lo + 2 ^ e * unat t"
      using m(2) wval_append [of "take (?w - 1) ?d" "[t]"] unfolding l by (simp add: lo_def e_def)
    have lo: "lo < 2 ^ e" using wval_less [of "take (?w - 1) ?d"] unfolding l lo_def e_def .
    let ?b = "BN_num_bits_word t"
    have b: "unat t < 2 ^ ?b" "2 ^ (?b - 1) \<le> unat t" "0 < ?b" using num_bits_word_value [of t] t by simp_all
    have n: "BN_num_bits bn = e + ?b" using False by (simp add: BN_num_bits_def Let_def e_def t_def mult.commute)
    have "2 ^ e * (unat t + 1) \<le> 2 ^ e * 2 ^ ?b" using b(1) by (intro mult_le_mono2) simp
    then have "bn_mag bn < 2 ^ BN_num_bits bn" unfolding n v power_add using lo by (simp only: distrib_left mult_1_right)
    moreover have "2 ^ e * 2 ^ (?b - 1) \<le> 2 ^ e * unat t" using b(2) by (rule mult_le_mono2)
    then have "2 ^ (e + (?b - 1)) \<le> bn_mag bn" unfolding v power_add by (rule trans_le_add2)
    then have "2 ^ (BN_num_bits bn - 1) \<le> bn_mag bn" using b(3) by (simp add: n)
    ultimately show ?thesis by simp
  qed
qed

text \<open>Without a negative zero, \<open>BN_cmp\<close> is the sign of the difference.\<close>

definition bn_normal :: "bignum \<Rightarrow> bool" where
  "bn_normal bn \<longleftrightarrow> bn_ok bn \<and> (bn_neg bn \<longrightarrow> bn_mag bn \<noteq> 0)"

lemma cmp_value:
  "bn_normal a \<Longrightarrow> bn_normal b \<Longrightarrow> BN_cmp (Some a) (Some b) = sgn (bn_value a - bn_value b)"
  by (auto simp: BN_cmp_def ucmp_value bn_value_def bn_normal_def cmp_result_def)

lemma cmp_word_value:
  assumes "bn_normal a"
  shows "BN_cmp_word a w = sgn (bn_value a - int (unat w))"
proof -
  let ?b = "\<lparr>bn_d = [w], bn_width = (if 0 < w then 1 else 0), bn_neg = False, bn_static = True\<rparr>"
  have "bn_normal ?b" "bn_value ?b = int (unat w)"
    by (auto simp: bn_normal_def bn_ok_def bn_value_def bn_mag_def bn_words_def word_neq_0_conv [symmetric])
  then show ?thesis using cmp_value [OF assms] by (simp add: BN_cmp_word_def)
qed

section \<open>Properties\<close>

text \<open>
  The comparisons are the order of the integers: without a negative zero, \<open>BN_cmp\<close> and \<open>BN_cmp_word\<close>
  return the sign of the difference, whatever the widths and leading zero words of the operands.
\<close>

theorem bn_cmp_exact:
  assumes "bn_normal a" "bn_normal b"
  shows "BN_cmp (Some a) (Some b) = sgn (bn_value a - bn_value b) \<and> BN_cmp_word a w = sgn (bn_value a - int (unat w))"
  using cmp_value [OF assms] cmp_word_value [OF assms(1)] by simp

theorem bn_cmp_exact_witness:
  "BN_cmp (Some \<lparr>bn_d = [3, 0], bn_width = 2, bn_neg = True, bn_static = False\<rparr>)
     (Some \<lparr>bn_d = [5], bn_width = 1, bn_neg = False, bn_static = False\<rparr>) = - 1"
  using bn_cmp_exact [of "\<lparr>bn_d = [3, 0], bn_width = 2, bn_neg = True, bn_static = False\<rparr>"
      "\<lparr>bn_d = [5], bn_width = 1, bn_neg = False, bn_static = False\<rparr>" 0]
  by (simp add: bn_normal_def bn_ok_def bn_value_def bn_mag_def bn_words_def)

text \<open>
  \<open>BN_num_bits\<close>, computed without branches by halving, is the position of the highest bit set.
\<close>

theorem bn_num_bits_exact:
  assumes "bn_ok bn"
  shows "bn_mag bn < 2 ^ BN_num_bits bn \<and> (bn_mag bn \<noteq> 0 \<longrightarrow> 2 ^ (BN_num_bits bn - 1) \<le> bn_mag bn)"
  by (rule num_bits_value [OF assms])

theorem bn_num_bits_exact_witness:
  "bn_mag \<lparr>bn_d = [7, 1, 0], bn_width = 3, bn_neg = True, bn_static = False\<rparr>
     < 2 ^ BN_num_bits \<lparr>bn_d = [7, 1, 0], bn_width = 3, bn_neg = True, bn_static = False\<rparr>"
  using bn_num_bits_exact [of "\<lparr>bn_d = [7, 1, 0], bn_width = 3, bn_neg = True, bn_static = False\<rparr>"]
  by (simp add: bn_ok_def)

end
