(* ===== verification/Bn_Arith.thy ===== *)
theory Bn_Arith imports Bn begin

text \<open>Addition and subtraction of big numbers (\<open>crypto/fipsmodule/bn/add.c\<close>).\<close>

section \<open>Operations\<close>

text \<open>The loops that carry and borrow into the words of the longer number.\<close>

fun add_carry :: "u64 \<Rightarrow> u64 list \<Rightarrow> u64 list \<times> u64" where
  "add_carry carry [] = ([], carry)"
| "add_carry carry (a # as) =
     (let tmp = carry + a; (rs, c) = add_carry (if tmp < a then 1 else 0) as in (tmp # rs, c))"

fun sub_borrow :: "u64 \<Rightarrow> u64 list \<Rightarrow> u64 list \<times> u64" where
  "sub_borrow borrow [] = ([], borrow)"
| "sub_borrow borrow (a # as) =
     (let r = a - borrow; (rs, c) = sub_borrow (if a < r then 1 else 0) as in (r # rs, c))"

definition bn_uadd_consttime :: "malloc_fn \<Rightarrow> bignum \<Rightarrow> bignum \<Rightarrow> unit bn_op" where
  "bn_uadd_consttime ma a b =
     (let (a, b) = (if bn_width a < bn_width b then (b, a) else (a, b));
          mx = bn_width a;
          mn = bn_width b in
      op_bind (bn_wexpand ma (mx + 1)) (\<lambda>_ r.
        let (lo, carry) = bn_add_words (take mn (bn_d a)) (take mn (bn_d b));
            (hi, carry) = add_carry carry (drop mn (take mx (bn_d a))) in
        (Some (), r\<lparr>bn_width := mx + 1, bn_d := put_words 0 (lo @ hi @ [carry]) (bn_d r)\<rparr>)))"

definition BN_uadd :: "malloc_fn \<Rightarrow> bignum \<Rightarrow> bignum \<Rightarrow> unit bn_op" where
  "BN_uadd ma a b = op_bind (bn_uadd_consttime ma a b) (\<lambda>_ r. (Some (), bn_set_minimal_width r))"

definition bn_usub_consttime :: "malloc_fn \<Rightarrow> bignum \<Rightarrow> bignum \<Rightarrow> unit bn_op" where
  "bn_usub_consttime ma a b =
     (if bn_width a < bn_width b \<and> \<not> bn_fits_in_words b (bn_width a) then op_fail
      else
        let b_width = (if bn_width a < bn_width b then bn_width a else bn_width b) in
        op_bind (bn_wexpand ma (bn_width a)) (\<lambda>_ r.
          let (lo, borrow) = bn_sub_words (take b_width (bn_d a)) (take b_width (bn_d b));
              (hi, borrow) = sub_borrow borrow (drop b_width (take (bn_width a) (bn_d a)));
              r = r\<lparr>bn_d := put_words 0 (lo @ hi) (bn_d r)\<rparr> in
          if borrow \<noteq> 0 then (None, r)
          else (Some (), r\<lparr>bn_width := bn_width a, bn_neg := False\<rparr>)))"

definition BN_usub :: "malloc_fn \<Rightarrow> bignum \<Rightarrow> bignum \<Rightarrow> unit bn_op" where
  "BN_usub ma a b = op_bind (bn_usub_consttime ma a b) (\<lambda>_ r. (Some (), bn_set_minimal_width r))"

definition set_neg :: "bool \<Rightarrow> unit bn_op" where
  "set_neg n r = (Some (), r\<lparr>bn_neg := n\<rparr>)"

text \<open>The difference of two magnitudes, with its sign.\<close>

definition sub_magnitudes :: "malloc_fn \<Rightarrow> bignum \<Rightarrow> bignum \<Rightarrow> unit bn_op" where
  "sub_magnitudes ma a b =
     (if BN_ucmp a b < 0 then op_bind (BN_usub ma b a) (\<lambda>_. set_neg True)
      else op_bind (BN_usub ma a b) (\<lambda>_. set_neg False))"

definition BN_add :: "malloc_fn \<Rightarrow> bignum \<Rightarrow> bignum \<Rightarrow> unit bn_op" where
  "BN_add ma a b =
     (let a_neg = bn_neg a in
      if a_neg \<noteq> bn_neg b then
        (let (a, b) = (if a_neg then (b, a) else (a, b)) in sub_magnitudes ma a b)
      else (\<lambda>r. case BN_uadd ma a b r of (ret, r) \<Rightarrow> (ret, r\<lparr>bn_neg := a_neg\<rparr>)))"

definition BN_sub :: "malloc_fn \<Rightarrow> bignum \<Rightarrow> bignum \<Rightarrow> unit bn_op" where
  "BN_sub ma a b =
     (let (a, b, add, neg) =
        (if bn_neg a then (if bn_neg b then (b, a, False, False) else (a, b, True, True))
         else if bn_neg b then (a, b, True, False) else (a, b, False, False)) in
      if add then op_bind (BN_uadd ma a b) (\<lambda>_. set_neg neg) else sub_magnitudes ma a b)"

fun add_word_loop :: "u64 \<Rightarrow> u64 list \<Rightarrow> u64 list \<times> u64" where
  "add_word_loop w [] = ([], w)"
| "add_word_loop w (a # as) =
     (if w = 0 then (a # as, 0)
      else let l = a + w; (rs, w) = add_word_loop (if l < w then 1 else 0) as in (l # rs, w))"

text \<open>\<open>BN_add_word\<close> from the loop on, for a number that is not negative.\<close>

definition add_word_nonneg :: "malloc_fn \<Rightarrow> u64 \<Rightarrow> unit bn_op" where
  "add_word_nonneg ma w a =
     (let (ws, w) = add_word_loop w (bn_words a);
          i = bn_width a;
          a = a\<lparr>bn_d := put_words 0 ws (bn_d a)\<rparr> in
      if w \<noteq> 0 then
        op_bind (bn_wexpand ma (i + 1)) (\<lambda>_ a. (Some (), a\<lparr>bn_width := i + 1, bn_d := (bn_d a)[i := w]\<rparr>)) a
      else (Some (), a))"

text \<open>The loop of \<open>BN_sub_word\<close> and the index it stops at.\<close>

fun sub_word_loop :: "u64 \<Rightarrow> u64 list \<Rightarrow> u64 list \<times> nat" where
  "sub_word_loop w [] = ([], 0)"
| "sub_word_loop w (a # as) =
     (if w \<le> a then ((a - w) # as, 0)
      else let (rs, i) = sub_word_loop 1 as in ((a - w) # rs, Suc i))"

definition sub_word_nonneg :: "u64 \<Rightarrow> unit bn_op" where
  "sub_word_nonneg w a =
     (if bn_minimal_width a = 1 \<and> bn_d a ! 0 < w
      then (Some (), a\<lparr>bn_d := (bn_d a)[0 := w - bn_d a ! 0], bn_neg := True\<rparr>)
      else
        let (ws, i) = sub_word_loop w (bn_words a);
            a = a\<lparr>bn_d := put_words 0 ws (bn_d a)\<rparr> in
        (Some (), if bn_d a ! i = 0 \<and> i = bn_width a - 1 then a\<lparr>bn_width := bn_width a - 1\<rparr> else a))"

definition BN_add_word :: "malloc_fn \<Rightarrow> u64 \<Rightarrow> unit bn_op" where
  "BN_add_word ma w a =
     (if w = 0 then (Some (), a)
      else if BN_is_zero a then BN_set_word ma w a
      else if bn_neg a then
        op_bind (sub_word_nonneg w) (\<lambda>i a.
          (Some i, if \<not> BN_is_zero a then a\<lparr>bn_neg := \<not> bn_neg a\<rparr> else a)) (a\<lparr>bn_neg := False\<rparr>)
      else add_word_nonneg ma w a)"

definition BN_sub_word :: "malloc_fn \<Rightarrow> u64 \<Rightarrow> unit bn_op" where
  "BN_sub_word ma w a =
     (if w = 0 then (Some (), a)
      else if BN_is_zero a then
        op_bind (BN_set_word ma w) (\<lambda>_ a. (Some (), BN_set_negative True a)) a
      else if bn_neg a then
        (case add_word_nonneg ma w (a\<lparr>bn_neg := False\<rparr>) of (i, a) \<Rightarrow> (i, a\<lparr>bn_neg := True\<rparr>))
      else sub_word_nonneg w a)"

section \<open>Carrying and borrowing\<close>

lemma add_carry_value:
  "unat carry \<le> 1 \<Longrightarrow> add_carry carry as = (rs, c) \<Longrightarrow>
     length rs = length as \<and> unat c \<le> 1 \<and> wval rs + 2 ^ (64 * length as) * unat c = wval as + unat carry"
proof (induction carry as arbitrary: rs c rule: add_carry.induct)
  case (2 carry a as)
  let ?c = "if carry + a < a then 1 else 0 :: u64"
  obtain rs1 where l: "add_carry ?c as = (rs1, c)" "rs = (carry + a) # rs1" using 2(3) by (auto simp: Let_def split: prod.splits)
  have IH: "length rs1 = length as" "unat c \<le> 1" "wval rs1 + 2 ^ (64 * length as) * unat c = wval as + unat ?c"
    using 2(1) [OF refl _ l(1)] by auto
  have step: "unat (carry + a) + 2 ^ 64 * unat ?c = unat carry + unat a" using carry_value [of carry a] by auto
  have "wval rs + 2 ^ (64 * length (a # as)) * unat c = unat carry + unat a + 2 ^ 64 * wval as"
    unfolding l(2) wval.simps length_Cons base_Suc by (rule limb_step [OF step IH(3)])
  then show ?case using IH(1,2) l(2) by simp
qed auto

lemma sub_borrow_value:
  "unat borrow \<le> 1 \<Longrightarrow> sub_borrow borrow as = (rs, c) \<Longrightarrow>
     length rs = length as \<and> unat c \<le> 1 \<and> wval rs + unat borrow = wval as + 2 ^ (64 * length as) * unat c"
proof (induction borrow as arbitrary: rs c rule: sub_borrow.induct)
  case (2 borrow a as)
  let ?r = "a - borrow"
  let ?c = "if a < ?r then 1 else 0 :: u64"
  obtain rs1 where l: "sub_borrow ?c as = (rs1, c)" "rs = ?r # rs1" using 2(3) by (auto simp: Let_def split: prod.splits)
  have IH: "length rs1 = length as" "unat c \<le> 1" "wval rs1 + unat ?c = wval as + 2 ^ (64 * length as) * unat c"
    using 2(1) [OF refl _ l(1)] by auto
  have step: "unat ?r + unat borrow = unat a + 2 ^ 64 * unat ?c"
  proof (cases "borrow = 0")
    case False
    then have "unat borrow = unat (1 :: u64)" using 2(2) by (simp add: le_Suc_eq unat_eq_0)
    then have b: "borrow = 1" by (simp only: word_unat_eq_iff)
    show ?thesis
    proof (cases "a = 0")
      case True
      have "unat (- 1 :: u64) = 2 ^ 64 - 1" by (simp add: unsigned_minus_1_eq_mask mask_eq_exp_minus_1)
      then show ?thesis using b True by (simp add: word_less_nat_alt)
    next
      case False
      then have "unat ?r = unat a - 1" "0 < unat a" using b by (simp_all add: unat_minus_one unat_eq_0 neq0_conv [symmetric] del: neq0_conv)
      then show ?thesis using b by (auto simp: word_less_nat_alt)
    qed
  qed simp
  have "wval rs + unat borrow = (unat ?r + unat borrow) + 2 ^ 64 * wval rs1" unfolding l(2) wval.simps by simp
  also have "\<dots> = unat a + 2 ^ 64 * (wval rs1 + unat ?c)" unfolding step by (simp only: distrib_left distrib_right ac_simps)
  also have "\<dots> = wval (a # as) + 2 ^ (64 * length (a # as)) * unat c"
    unfolding IH(3) wval.simps length_Cons base_Suc by (simp only: distrib_left distrib_right ac_simps)
  finally show ?case using IH(1,2) l(2) by simp
qed auto

section \<open>Storing a result\<close>

lemma put_words_0: "length ws \<le> length d \<Longrightarrow> length (put_words 0 ws d) = length d \<and> take (length ws) (put_words 0 ws d) = ws"
  by (simp add: put_words_def)

lemma stored:
  assumes "length ws = n" "n \<le> length (bn_d r)"
  shows "bn_ok (r\<lparr>bn_d := put_words 0 ws (bn_d r), bn_width := n\<rparr>)"
    "bn_words (r\<lparr>bn_d := put_words 0 ws (bn_d r), bn_width := n\<rparr>) = ws"
  using put_words_0 [of ws "bn_d r"] assms by (auto simp: bn_ok_def bn_words_def)

lemma take_words: "n \<le> bn_width a \<Longrightarrow> take n (bn_d a) = take n (bn_words a)"
  by (simp add: bn_words_def)

section \<open>Magnitudes\<close>

lemma uadd_words:
  assumes "length bw \<le> length aw" "bn_add_words (take (length bw) aw) bw = (lo, c1)" "add_carry c1 (drop (length bw) aw) = (hi, c)"
  shows "length (lo @ hi @ [c]) = length aw + 1 \<and> wval (lo @ hi @ [c]) = wval aw + wval bw"
proof -
  let ?n = "length bw"
  have l: "length (take ?n aw) = ?n" using assms(1) by simp
  have lo: "length lo = ?n" "unat c1 \<le> 1" "wval lo + 2 ^ (64 * ?n) * unat c1 = wval (take ?n aw) + wval bw"
    using bn_add_words_value [OF l assms(2)] l by simp_all
  have hi: "length hi = length aw - ?n" "wval hi + 2 ^ (64 * (length aw - ?n)) * unat c = wval (drop ?n aw) + unat c1"
    using add_carry_value [OF lo(2) assms(3)] by simp_all
  have "wval (lo @ hi @ [c]) = wval lo + 2 ^ (64 * ?n) * (wval hi + 2 ^ (64 * (length aw - ?n)) * unat c)"
    using lo(1) hi(1) by (simp add: wval_append)
  also have "\<dots> = (wval lo + 2 ^ (64 * ?n) * unat c1) + 2 ^ (64 * ?n) * wval (drop ?n aw)"
    unfolding hi(2) by (simp only: distrib_left distrib_right ac_simps)
  also have "\<dots> = wval aw + wval bw" unfolding lo(3) using wval_take_drop [of aw ?n] l by simp
  finally show ?thesis using lo(1) hi(1) assms(1) by simp
qed

lemma uadd_consttime:
  assumes "bn_ok a" "bn_ok b" "bn_ok r" "bn_uadd_consttime ma a b r = (Some u, r')"
  shows "bn_ok r' \<and> bn_mag r' = bn_mag a + bn_mag b \<and> bn_neg r' = bn_neg r"
proof -
  define x where "x = (if bn_width a < bn_width b then b else a)"
  define y where "y = (if bn_width a < bn_width b then a else b)"
  have ok: "bn_ok x" "bn_ok y" "bn_width y \<le> bn_width x" and sum: "bn_mag x + bn_mag y = bn_mag a + bn_mag b"
    using assms(1,2) by (auto simp: x_def y_def)
  have eq: "(if bn_width a < bn_width b then (b, a) else (a, b)) = (x, y)" by (simp add: x_def y_def)
  let ?n = "bn_width y"
  have ly: "length (bn_words y) = ?n" "length (bn_words x) = bn_width x" using ok by simp_all
  obtain lo c1 where lo: "bn_add_words (take ?n (bn_words x)) (bn_words y) = (lo, c1)" by fastforce
  obtain hi c where hi: "add_carry c1 (drop ?n (bn_words x)) = (hi, c)" by fastforce
  have w: "take ?n (bn_d x) = take ?n (bn_words x)" "take ?n (bn_d y) = bn_words y" "drop ?n (take (bn_width x) (bn_d x)) = drop ?n (bn_words x)"
    using ok(3) by (simp_all add: bn_words_def)
  obtain r1 where r1: "bn_wexpand ma (bn_width x + 1) r = (Some (), r1)"
    and r': "r' = r1\<lparr>bn_width := bn_width x + 1, bn_d := put_words 0 (lo @ hi @ [c]) (bn_d r1)\<rparr>"
    using assms(4) unfolding bn_uadd_consttime_def eq Let_def prod.case w lo hi by (auto simp: op_bind_eq_Some)
  have e: "bn_width x + 1 \<le> length (bn_d r1)" "bn_neg r1 = bn_neg r" using wexpand [OF assms(3) r1] by simp_all
  have v: "length (lo @ hi @ [c]) = bn_width x + 1" "wval (lo @ hi @ [c]) = bn_mag x + bn_mag y"
    using uadd_words [of "bn_words y" "bn_words x" lo c1 hi c] ly ok(3) lo hi by (simp_all add: bn_mag_def)
  have "r' = r1\<lparr>bn_d := put_words 0 (lo @ hi @ [c]) (bn_d r1), bn_width := bn_width x + 1\<rparr>" by (simp add: r')
  then show ?thesis using stored [OF v(1) e(1)] v(2) e(2) sum by (simp add: bn_mag_def)
qed

lemma usub_words:
  assumes "length bw \<le> length aw" "bn_sub_words (take (length bw) aw) bw = (lo, c1)" "sub_borrow c1 (drop (length bw) aw) = (hi, c)"
  shows "length (lo @ hi) = length aw \<and> unat c \<le> 1 \<and> wval (lo @ hi) + wval bw = wval aw + 2 ^ (64 * length aw) * unat c"
proof -
  let ?n = "length bw" and ?m = "length aw - length bw"
  have l: "length (take ?n aw) = ?n" using assms(1) by simp
  have lo: "length lo = ?n" "unat c1 \<le> 1" "wval lo + wval bw = wval (take ?n aw) + 2 ^ (64 * ?n) * unat c1"
    using bn_sub_words_value [OF l assms(2)] l by simp_all
  have hi: "length hi = ?m" "unat c \<le> 1" "wval hi + unat c1 = wval (drop ?n aw) + 2 ^ (64 * ?m) * unat c"
    using sub_borrow_value [OF lo(2) assms(3)] by simp_all
  have "wval (lo @ hi) + wval bw = (wval lo + wval bw) + 2 ^ (64 * ?n) * wval hi"
    using lo(1) by (simp add: wval_append)
  also have "\<dots> = wval (take ?n aw) + 2 ^ (64 * ?n) * (wval hi + unat c1)"
    unfolding lo(3) by (simp only: distrib_left distrib_right ac_simps)
  also have "\<dots> = (wval (take ?n aw) + 2 ^ (64 * ?n) * wval (drop ?n aw)) + 2 ^ (64 * ?n) * 2 ^ (64 * ?m) * unat c"
    unfolding hi(3) by (simp only: distrib_left distrib_right ac_simps)
  also have "(2 :: nat) ^ (64 * ?n) * 2 ^ (64 * ?m) = 2 ^ (64 * length aw)"
    using assms(1) by (simp add: power_add [symmetric] distrib_left [symmetric])
  also have "wval (take ?n aw) + 2 ^ (64 * ?n) * wval (drop ?n aw) = wval aw" using wval_take_drop [of aw ?n] l by simp
  finally show ?thesis using lo(1) hi(1,2) assms(1) by simp
qed

lemma usub_consttime:
  assumes "bn_ok a" "bn_ok b" "bn_ok r"
  shows "bn_usub_consttime ma a b r = (Some u, r') \<Longrightarrow>
      bn_ok r' \<and> bn_mag b \<le> bn_mag a \<and> bn_mag r' = bn_mag a - bn_mag b \<and> \<not> bn_neg r'"
    and "bn_mag b \<le> bn_mag a \<Longrightarrow> bn_wexpand ma (bn_width a) r = (Some v, r1) \<Longrightarrow> \<exists>r'. bn_usub_consttime ma a b r = (Some (), r')"
proof -
  let ?n = "if bn_width a < bn_width b then bn_width a else bn_width b"
  define bw where "bw = take ?n (bn_words b)"
  have lb: "length bw = ?n" "length (bn_words a) = bn_width a" "length bw \<le> length (bn_words a)" using assms by (auto simp: bw_def)
  obtain lo c1 where lo: "bn_sub_words (take ?n (bn_words a)) bw = (lo, c1)" by fastforce
  obtain hi c where hi: "sub_borrow c1 (drop ?n (bn_words a)) = (hi, c)" by fastforce
  have w: "take ?n (bn_d a) = take ?n (bn_words a)" "take ?n (bn_d b) = bw" "drop ?n (take (bn_width a) (bn_d a)) = drop ?n (bn_words a)"
    by (simp_all add: bn_words_def bw_def)
  have v: "length (lo @ hi) = bn_width a" "unat c \<le> 1" "wval (lo @ hi) + wval bw = bn_mag a + 2 ^ (64 * bn_width a) * unat c"
    using usub_words [OF lb(3), of lo c1 hi c] lb lo hi by (simp_all add: bn_mag_def)
  have fits: "wval bw = bn_mag b" if "\<not> (bn_width a < bn_width b \<and> \<not> bn_fits_in_words b (bn_width a))"
  proof (cases "bn_width a < bn_width b")
    case True
    have "bn_fits_in_words b (bn_width a)" using that True by simp
    then have "wval (drop (bn_width a) (bn_words b)) = 0" by (simp add: bn_fits_in_words_def or_words_wval bn_words_def)
    then show ?thesis using wval_take_drop [of "bn_words b" "bn_width a"] True by (simp add: bw_def bn_mag_def)
  next
    case False
    then show ?thesis using assms(2) by (simp add: bw_def bn_mag_def)
  qed
  have run: "bn_usub_consttime ma a b r =
     (if bn_width a < bn_width b \<and> \<not> bn_fits_in_words b (bn_width a) then (None, r)
      else case bn_wexpand ma (bn_width a) r of
        (None, r1) \<Rightarrow> (None, r1)
      | (Some _, r1) \<Rightarrow>
          if c \<noteq> 0 then (None, r1\<lparr>bn_d := put_words 0 (lo @ hi) (bn_d r1)\<rparr>)
          else (Some (), r1\<lparr>bn_d := put_words 0 (lo @ hi) (bn_d r1), bn_width := bn_width a, bn_neg := False\<rparr>))"
    by (simp only: bn_usub_consttime_def Let_def w lo hi prod.case op_bind_def op_fail_def if_distrib [of "\<lambda>f. f r"] cong: if_cong)
  { assume "bn_usub_consttime ma a b r = (Some u, r')"
    then obtain r1 where r1: "bn_wexpand ma (bn_width a) r = (Some (), r1)" and c: "c = 0"
      and ft: "\<not> (bn_width a < bn_width b \<and> \<not> bn_fits_in_words b (bn_width a))"
      and r': "r' = r1\<lparr>bn_d := put_words 0 (lo @ hi) (bn_d r1), bn_width := bn_width a\<rparr>\<lparr>bn_neg := False\<rparr>"
      unfolding run by (auto split: if_splits prod.splits option.splits)
    have e: "bn_width a \<le> length (bn_d r1)" using wexpand [OF assms(3) r1] by simp
    have "bn_ok r'" "bn_words r' = lo @ hi" using stored [OF v(1) e] by (simp_all add: r' bn_ok_def bn_words_def)
    moreover have "wval (lo @ hi) + bn_mag b = bn_mag a" using v(3) c fits [OF ft] by simp
    ultimately show "bn_ok r' \<and> bn_mag b \<le> bn_mag a \<and> bn_mag r' = bn_mag a - bn_mag b \<and> \<not> bn_neg r'"
      by (simp add: bn_mag_def r') }
  { assume le: "bn_mag b \<le> bn_mag a" and r1: "bn_wexpand ma (bn_width a) r = (Some v, r1)"
    have "bn_mag a < 2 ^ (64 * bn_width a)" using wval_less [of "bn_words a"] lb by (simp add: bn_mag_def)
    then have ft: "\<not> (bn_width a < bn_width b \<and> \<not> bn_fits_in_words b (bn_width a))" using fits_iff [OF assms(2)] le by simp
    have "c = 0"
    proof (rule ccontr)
      assume "c \<noteq> 0"
      then have "unat c = 1" using v(2) by (simp add: le_Suc_eq unat_eq_0)
      then have "wval (lo @ hi) + bn_mag b = bn_mag a + 2 ^ (64 * bn_width a)" using v(3) fits [OF ft] by simp
      moreover have "wval (lo @ hi) < 2 ^ (64 * bn_width a)" using wval_less [of "lo @ hi"] unfolding v(1) .
      ultimately show False using le by linarith
    qed
    then show "\<exists>r'. bn_usub_consttime ma a b r = (Some (), r')" unfolding run using r1 ft by auto }
qed

section \<open>Sums and differences\<close>

text \<open>Room for the result: it may be allocated and its size is in range.\<close>

definition bn_room :: "bignum \<Rightarrow> nat \<Rightarrow> bool" where
  "bn_room r n \<longleftrightarrow> n \<le> length (bn_d r) \<or> (\<not> bn_static r \<and> n \<le> bn_max_words)"

lemma wexpand_room:
  assumes "malloc_total ma" "bn_room r n"
  obtains r1 where "bn_wexpand ma n r = (Some (), r1)"
proof (cases "n \<le> length (bn_d r)")
  case True
  then show ?thesis using that by (simp add: bn_wexpand_def)
next
  case False
  then show ?thesis using that wexpand_total [OF assms(1)] assms(2) by (auto simp: bn_room_def)
qed

lemma bn_room_mono: "bn_room r n \<Longrightarrow> m \<le> n \<Longrightarrow> bn_room r m"
  by (auto simp: bn_room_def)

lemma op_bind_runs: "m s = (Some a, s1) \<Longrightarrow> \<exists>s'. k a s1 = (Some (), s') \<Longrightarrow> \<exists>s'. op_bind m k s = (Some (), s')"
  by (simp add: op_bind_def)

lemma uadd_runs:
  assumes "bn_wexpand ma (max (bn_width a) (bn_width b) + 1) r = (Some v, r1)"
  shows "\<exists>r'. bn_uadd_consttime ma a b r = (Some (), r')"
proof -
  define x where "x = (if bn_width a < bn_width b then b else a)"
  define y where "y = (if bn_width a < bn_width b then a else b)"
  have eq: "(if bn_width a < bn_width b then (b, a) else (a, b)) = (x, y)" and mx: "max (bn_width a) (bn_width b) = bn_width x"
    by (auto simp: x_def y_def)
  show ?thesis
    unfolding bn_uadd_consttime_def eq Let_def prod.case
    by (rule op_bind_runs, rule assms [unfolded mx]) (simp split: prod.split)
qed

lemma BN_uadd_run:
  assumes "malloc_total ma" "bn_ok a" "bn_ok b" "bn_ok r" "bn_room r (max (bn_width a) (bn_width b) + 1)"
  obtains r' where "BN_uadd ma a b r = (Some (), r')" "bn_ok r'" "bn_mag r' = bn_mag a + bn_mag b"
proof -
  obtain r1 where "bn_wexpand ma (max (bn_width a) (bn_width b) + 1) r = (Some (), r1)" by (rule wexpand_room [OF assms(1,5)])
  then obtain r2 where r2: "bn_uadd_consttime ma a b r = (Some (), r2)" using uadd_runs by blast
  then have "BN_uadd ma a b r = (Some (), bn_set_minimal_width r2)" by (simp add: BN_uadd_def op_bind_def)
  then show ?thesis
    using that [of "bn_set_minimal_width r2"] uadd_consttime [OF assms(2,3,4) r2] set_minimal_width [of r2] by simp
qed

lemma BN_usub_run:
  assumes "malloc_total ma" "bn_ok a" "bn_ok b" "bn_ok r" "bn_room r (bn_width a)" "bn_mag b \<le> bn_mag a"
  obtains r' where "BN_usub ma a b r = (Some (), r')" "bn_ok r'" "bn_mag r' = bn_mag a - bn_mag b"
proof -
  obtain r1 where "bn_wexpand ma (bn_width a) r = (Some (), r1)" by (rule wexpand_room [OF assms(1,5)])
  then obtain r2 where r2: "bn_usub_consttime ma a b r = (Some (), r2)" using usub_consttime(2) [OF assms(2,3,4,6)] by blast
  then have "BN_usub ma a b r = (Some (), bn_set_minimal_width r2)" by (simp add: BN_usub_def op_bind_def)
  then show ?thesis
    using that [of "bn_set_minimal_width r2"] usub_consttime(1) [OF assms(2,3,4) r2] set_minimal_width [of r2] by simp
qed

lemma bn_value_set_neg: "bn_value (r\<lparr>bn_neg := n\<rparr>) = (if n then - int (bn_mag r) else int (bn_mag r))"
  "bn_ok (r\<lparr>bn_neg := n\<rparr>) = bn_ok r"
  by (simp_all add: bn_value_def bn_mag_def bn_words_def bn_ok_def)

lemma sub_magnitudes_run:
  assumes "malloc_total ma" "bn_ok a" "bn_ok b" "bn_ok r" "bn_room r (max (bn_width a) (bn_width b) + 1)"
  obtains r' where "sub_magnitudes ma a b r = (Some (), r')" "bn_ok r'" "bn_value r' = int (bn_mag a) - int (bn_mag b)"
proof (cases "bn_mag a < bn_mag b")
  case True
  have "bn_room r (bn_width b)" by (rule bn_room_mono [OF assms(5)]) simp
  then obtain r' where "BN_usub ma b a r = (Some (), r')" "bn_ok r'" "bn_mag r' = bn_mag b - bn_mag a"
    using BN_usub_run [OF assms(1,3,2,4), of thesis] True by auto
  then show ?thesis using that [of "r'\<lparr>bn_neg := True\<rparr>"] True
    by (simp add: sub_magnitudes_def ucmp_value cmp_result_def op_bind_def set_neg_def bn_value_set_neg of_nat_diff)
next
  case False
  have "bn_room r (bn_width a)" by (rule bn_room_mono [OF assms(5)]) simp
  then obtain r' where "BN_usub ma a b r = (Some (), r')" "bn_ok r'" "bn_mag r' = bn_mag a - bn_mag b"
    using BN_usub_run [OF assms(1,2,3,4), of thesis] False by auto
  then show ?thesis using that [of "r'\<lparr>bn_neg := False\<rparr>"] False
    by (simp add: sub_magnitudes_def ucmp_value cmp_result_def op_bind_def set_neg_def bn_value_set_neg of_nat_diff)
qed

section \<open>Adding and subtracting a word\<close>

lemma add_word_loop_value:
  "add_word_loop w as = (rs, w') \<Longrightarrow> length rs = length as \<and> wval rs + 2 ^ (64 * length as) * unat w' = wval as + unat w"
proof (induction w as arbitrary: rs w' rule: add_word_loop.induct)
  case (2 w a as)
  show ?case
  proof (cases "w = 0")
    case False
    let ?w = "if a + w < w then 1 else 0 :: u64"
    obtain rs1 where l: "add_word_loop ?w as = (rs1, w')" "rs = (a + w) # rs1"
      using 2(2) False by (auto simp: Let_def split: prod.splits)
    have IH: "length rs1 = length as" "wval rs1 + 2 ^ (64 * length as) * unat w' = wval as + unat ?w"
      using 2(1) [OF False refl l(1)] by auto
    have step: "unat (a + w) + 2 ^ 64 * unat ?w = unat a + unat w" using carry_value [of a w] by auto
    have "wval rs + 2 ^ (64 * length (a # as)) * unat w' = unat a + unat w + 2 ^ 64 * wval as"
      unfolding l(2) wval.simps length_Cons base_Suc by (rule limb_step [OF step IH(2)])
    then show ?thesis using IH(1) l(2) by simp
  qed (use 2 in auto)
qed auto

lemma put_all:
  assumes "bn_ok a" "length ws = bn_width a"
  shows "bn_ok (a\<lparr>bn_d := put_words 0 ws (bn_d a)\<rparr>)" "bn_words (a\<lparr>bn_d := put_words 0 ws (bn_d a)\<rparr>) = ws"
  using stored [OF assms(2), of a] assms(1) by (simp_all add: bn_ok_def bn_words_def)

lemma add_word_nonneg_value:
  assumes "malloc_total ma" "bn_ok a" "bn_room a (bn_width a + 1)"
  obtains a' where "add_word_nonneg ma w a = (Some (), a')" "bn_ok a'" "bn_mag a' = bn_mag a + unat w" "bn_neg a' = bn_neg a"
proof -
  obtain ws w' where l: "add_word_loop w (bn_words a) = (ws, w')" by fastforce
  have v: "length ws = bn_width a" "wval ws + 2 ^ (64 * bn_width a) * unat w' = bn_mag a + unat w"
    using add_word_loop_value [OF l] assms(2) by (simp_all add: bn_mag_def)
  let ?a = "a\<lparr>bn_d := put_words 0 ws (bn_d a)\<rparr>"
  note p = put_all [OF assms(2) v(1)]
  show ?thesis
  proof (cases "w' = 0")
    case True
    have "add_word_nonneg ma w a = (Some (), ?a)" by (simp add: add_word_nonneg_def l True)
    then show ?thesis using that p v(2) True by (simp add: bn_mag_def)
  next
    case False
    have "bn_room ?a (bn_width a + 1)"
      using assms(2,3) put_words_0 [of ws "bn_d a"] v(1) by (simp add: bn_room_def bn_ok_def)
    then obtain a1 where a1: "bn_wexpand ma (bn_width a + 1) ?a = (Some (), a1)" by (rule wexpand_room [OF assms(1)])
    note e = wexpand [OF p(1) a1]
    let ?r = "a1\<lparr>bn_width := bn_width a + 1, bn_d := (bn_d a1)[bn_width a := w']\<rparr>"
    have t: "take (bn_width a) (bn_d a1) = ws" using e(3,4) p(2) by (simp add: bn_words_def)
    have w: "bn_words ?r = ws @ [w']"
      using e(2) t by (simp add: bn_words_def take_Suc_conv_app_nth)
    have "bn_mag ?r = bn_mag a + unat w" unfolding bn_mag_def w wval_append using v by (simp add: bn_mag_def)
    moreover have "add_word_nonneg ma w a = (Some (), ?r)" using a1 False by (simp add: add_word_nonneg_def l op_bind_def Let_def)
    ultimately show ?thesis using that e by (simp add: bn_ok_def)
  qed
qed

lemma sub_word_loop_value:
  "unat w \<le> wval as \<Longrightarrow> w \<noteq> 0 \<Longrightarrow> sub_word_loop w as = (rs, i) \<Longrightarrow>
     length rs = length as \<and> i < length as \<and> wval rs + unat w = wval as"
proof (induction w as arbitrary: rs i rule: sub_word_loop.induct)
  case (1 w)
  then show ?case by (simp add: unat_eq_0)
next
  case (2 w a as)
  show ?case
  proof (cases "w \<le> a")
    case True
    then have "unat (a - w) + unat w = unat a" by (simp add: unat_sub word_le_nat_alt)
    then show ?thesis using 2(4) True by auto
  next
    case False
    obtain rs1 j where l: "sub_word_loop 1 as = (rs1, j)" "rs = (a - w) # rs1" "i = Suc j"
      using 2(4) False by (auto split: prod.splits)
    have s: "unat (a - w) + unat w = unat a + 2 ^ 64"
      using sub_step [of 0 a w] False by (auto split: if_splits)
    have "wval as \<noteq> 0"
    proof
      assume "wval as = 0"
      then have "unat w \<le> unat a" using 2(2) by simp
      then show False using False by (simp add: word_le_nat_alt)
    qed
    then have IH: "length rs1 = length as" "j < length as" "wval rs1 + 1 = wval as"
      using 2(1) [OF False _ _ l(1)] by auto
    have "wval rs + unat w = (unat (a - w) + unat w) + 2 ^ 64 * wval rs1" by (simp add: l(2))
    also have "\<dots> = unat a + 2 ^ 64 * (wval rs1 + 1)" unfolding s by (simp only: distrib_left distrib_right mult_1_left mult_1_right ac_simps)
    also have "\<dots> = wval (a # as)" unfolding IH(3) by simp
    finally show ?thesis using IH(1,2) l(2,3) by simp
  qed
qed

lemma sub_word_nonneg_value:
  assumes "bn_ok a" "\<not> bn_neg a" "bn_mag a \<noteq> 0" "w \<noteq> 0"
  obtains a' where "sub_word_nonneg w a = (Some (), a')" "bn_ok a'" "bn_value a' = int (bn_mag a) - int (unat w)"
proof -
  note m = minimal_width_from [of "bn_width a" "bn_d a"]
  have m: "bn_minimal_width a \<le> bn_width a" "wval (take (bn_minimal_width a) (bn_d a)) = bn_mag a"
    using m assms(1) by (simp_all add: bn_minimal_width_def bn_mag_def bn_words_def bn_ok_def)
  have "bn_width a \<noteq> 0" using assms(3) by (intro notI) (simp add: bn_mag_def bn_words_def)
  then have w0: "0 < bn_width a" "0 < length (bn_d a)" using assms(1) by (simp_all add: bn_ok_def del: length_greater_0_conv)
  then obtain d0 ds where d: "bn_d a = d0 # ds" by (cases "bn_d a") auto
  then have nth0: "bn_d a ! 0 = d0" by simp
  obtain n where n: "bn_width a = Suc n" using w0 by (cases "bn_width a") auto
  have mag: "bn_mag a = unat d0 + 2 ^ 64 * wval (take n ds)" by (simp add: bn_mag_def bn_words_def d n)
  show ?thesis
  proof (cases "bn_minimal_width a = 1 \<and> d0 < w")
    case True
    then have "bn_mag a = unat d0" using m(2) d by simp
    then have z: "wval (take n ds) = 0" "bn_mag a = unat d0" using mag by simp_all
    let ?a = "a\<lparr>bn_d := (w - d0) # ds, bn_neg := True\<rparr>"
    have "bn_mag ?a = unat (w - d0)" using z by (simp add: bn_mag_def bn_words_def n)
    also have "\<dots> = unat w - unat d0" using True by (simp add: unat_sub word_le_nat_alt word_less_nat_alt)
    finally have "bn_value ?a = int (bn_mag a) - int (unat w)" using z(2) True by (simp add: bn_value_def word_less_nat_alt of_nat_diff)
    moreover have "sub_word_nonneg w a = (Some (), ?a)" using True by (simp add: sub_word_nonneg_def d)
    ultimately show ?thesis using that assms(1) d by (simp add: bn_ok_def)
  next
    case False
    have le: "unat w \<le> wval (bn_words a)"
    proof (cases "wval (take n ds) = 0")
      case True
      then have "\<forall>x \<in> set (take n ds). x = 0" by (simp add: wval_zero_iff)
      have "bn_minimal_width a \<noteq> 0" using m(2) assms(3) by (metis take0 wval.simps(1))
      moreover have "\<not> 1 < bn_minimal_width a"
      proof
        assume gt: "1 < bn_minimal_width a"
        then have "(bn_d a) ! (bn_minimal_width a - 1) \<noteq> 0"
          using minimal_width_from [of "bn_width a" "bn_d a"] assms(1) by (simp add: bn_minimal_width_def bn_ok_def)
        moreover obtain k where k: "bn_minimal_width a = Suc (Suc k)" using less_imp_Suc_add [OF gt] by auto
        have "Suc k \<le> n" using m(1) k n by simp
        then have "ds ! k \<in> set (take n ds)" using assms(1) n d by (auto simp: in_set_conv_nth bn_ok_def intro!: exI [of _ k])
        ultimately show False using \<open>\<forall>x \<in> set (take n ds). x = 0\<close> d k by simp
      qed
      ultimately have "bn_minimal_width a = 1" by simp
      then have "\<not> d0 < w" using False by simp
      then show ?thesis using mag True by (simp add: bn_mag_def [symmetric] word_less_nat_alt)
    next
      case False
      then have "(2 :: nat) ^ 64 * 1 \<le> 2 ^ 64 * wval (take n ds)" by (intro mult_le_mono2) simp
      then show ?thesis using mag unat_less_64 [of w] by (simp add: bn_mag_def)
    qed
    obtain ws i where l: "sub_word_loop w (bn_words a) = (ws, i)" by fastforce
    have v: "length ws = bn_width a" "i < bn_width a" "wval ws + unat w = bn_mag a"
      using sub_word_loop_value [OF le assms(4) l] assms(1) by (simp_all add: bn_mag_def)
    let ?a = "a\<lparr>bn_d := put_words 0 ws (bn_d a)\<rparr>"
    note p = put_all [OF assms(1) v(1)]
    let ?r = "if bn_d ?a ! i = 0 \<and> i = bn_width a - 1 then ?a\<lparr>bn_width := bn_width a - 1\<rparr> else ?a"
    have "sub_word_nonneg w a = (Some (), ?r)" 
      unfolding sub_word_nonneg_def if_not_P [OF False [folded nth0]] l Let_def prod.case by auto
    moreover have "bn_mag ?r = wval ws"
    proof (cases "bn_d ?a ! i = 0 \<and> i = bn_width a - 1")
      case True
      have nth: "bn_d ?a ! i = ws ! i" using v(1,2) by (simp add: put_words_def nth_append)
      have ws: "ws = take n ws @ [ws ! n]" using v(1) n by (metis lessI take_Suc_conv_app_nth take_all_iff le_refl)
      have tk: "take n (put_words 0 ws (bn_d a)) = take n ws" using v(1) n by (simp add: put_words_def)
      have "ws ! n = 0" using True nth n by auto
      then have "wval ws = wval (take n ws)" using ws wval_append [of "take n ws" "[ws ! n]"] by simp
      then show ?thesis using True n tk by (auto simp: bn_mag_def bn_words_def)
    next
      case False
      then show ?thesis using p(2) by (auto simp: bn_mag_def)
    qed
    moreover have "bn_ok ?r" using p(1) by (auto simp: bn_ok_def)
    moreover have "bn_neg ?r = False" using assms(2) by simp
    moreover have "int (wval ws) + int (unat w) = int (bn_mag a)" by (simp only: of_nat_add [symmetric] v(3))
    ultimately have "sub_word_nonneg w a = (Some (), ?r)" "bn_ok ?r" "bn_value ?r = int (bn_mag a) - int (unat w)"
      unfolding bn_value_def by simp_all
    then show ?thesis by (rule that)
  qed
qed

lemma nonneg_value: "bn_value z = int n \<Longrightarrow> bn_mag z \<noteq> 0 \<Longrightarrow> \<not> bn_neg z"
  by (auto simp: bn_value_def)

lemma set_word_value:
  assumes "malloc_total ma" "bn_ok a" "bn_room a 1"
  obtains a' where "BN_set_word ma w a = (Some (), a')" "bn_ok a'" "bn_value a' = int (unat w)"
proof (cases "w = 0")
  case True
  then show ?thesis using that [of "BN_zero a"]
    by (simp add: BN_set_word_def BN_zero_def bn_ok_def bn_value_def bn_mag_def bn_words_def)
next
  case False
  obtain a1 where a1: "bn_wexpand ma 1 a = (Some (), a1)" by (rule wexpand_room [OF assms(1,3)])
  then obtain x xs where "bn_d a1 = x # xs" using wexpand(2) [OF assms(2) a1] by (cases "bn_d a1") auto
  then show ?thesis using that False a1
    by (simp add: BN_set_word_def op_bind_def bn_ok_def bn_value_def bn_mag_def bn_words_def)
qed

lemma signed_sum_run:
  assumes "malloc_total ma" "bn_ok a" "bn_ok b" "bn_ok r" "bn_room r (max (bn_width a) (bn_width b) + 1)"
  shows "\<exists>r'. BN_add ma a b r = (Some (), r') \<and> bn_ok r' \<and> bn_value r' = bn_value a + bn_value b"
    "\<exists>r'. BN_sub ma a b r = (Some (), r') \<and> bn_ok r' \<and> bn_value r' = bn_value a - bn_value b"
proof -
  obtain u where u: "BN_uadd ma a b r = (Some (), u)" "bn_ok u" "bn_mag u = bn_mag a + bn_mag b" by (rule BN_uadd_run [OF assms])
  obtain ab where ab: "sub_magnitudes ma a b r = (Some (), ab)" "bn_ok ab" "bn_value ab = int (bn_mag a) - int (bn_mag b)"
    by (rule sub_magnitudes_run [OF assms])
  obtain ba where ba: "sub_magnitudes ma b a r = (Some (), ba)" "bn_ok ba" "bn_value ba = int (bn_mag b) - int (bn_mag a)"
    by (rule sub_magnitudes_run [OF assms(1,3,2,4)]) (use assms(5) in \<open>simp_all add: max.commute\<close>)
  have v: "bn_value x = (if bn_neg x then - int (bn_mag x) else int (bn_mag x))" for x by (simp add: bn_value_def)
  show "\<exists>r'. BN_add ma a b r = (Some (), r') \<and> bn_ok r' \<and> bn_value r' = bn_value a + bn_value b"
    "\<exists>r'. BN_sub ma a b r = (Some (), r') \<and> bn_ok r' \<and> bn_value r' = bn_value a - bn_value b"
    by (cases "bn_neg a"; cases "bn_neg b")
       (simp_all add: BN_add_def BN_sub_def u ab ba op_bind_def set_neg_def bn_value_set_neg v [of a] v [of b])
qed

lemma add_sub_word_zero:
  assumes "malloc_total ma" "bn_ok a" "bn_room a (bn_width a + 1)" "w = 0 \<or> BN_is_zero a"
  shows "(\<exists>a'. BN_add_word ma w a = (Some (), a') \<and> bn_ok a' \<and> bn_value a' = bn_value a + int (unat w)) \<and>
    (\<exists>a'. BN_sub_word ma w a = (Some (), a') \<and> bn_ok a' \<and> bn_value a' = bn_value a - int (unat w))"
proof -
  obtain z where z: "BN_set_word ma w a = (Some (), z)" "bn_ok z" "bn_value z = int (unat w)"
    by (rule set_word_value [OF assms(1,2) bn_room_mono [OF assms(3)]]) simp
  show ?thesis
  proof (cases "w = 0")
    case True
    then show ?thesis using assms(2) by (simp add: BN_add_word_def BN_sub_word_def)
  next
    case False
    then have 0: "BN_is_zero a" "bn_value a = 0"
      using assms(4) is_zero_iff [OF assms(2)] by (auto simp: bn_value_def)
    have "bn_mag z \<noteq> 0" using z(3) False by (intro notI) (simp add: bn_value_def uint_0_iff split: if_splits)
    then have "\<not> BN_is_zero z" "\<not> bn_neg z" using is_zero_iff [OF z(2)] z(3) nonneg_value [of z "unat w"] by auto
    then have "BN_set_negative True z = z\<lparr>bn_neg := True\<rparr>" "bn_value z = int (bn_mag z)"
      by (simp_all add: BN_set_negative_def bn_value_def)
    then show ?thesis using False 0 z
      by (simp add: BN_add_word_def BN_sub_word_def op_bind_def bn_value_set_neg)
  qed
qed

section \<open>Properties\<close>

text \<open>
  C21: \<open>BN_add\<close> and \<open>BN_sub\<close> compute the exact sum and difference of signed numbers of any width, and succeed
  whenever the result can be allocated.
\<close>

theorem bn_add_sub_exact:
  assumes "malloc_total ma" "bn_ok a" "bn_ok b" "bn_ok r" "bn_room r (max (bn_width a) (bn_width b) + 1)"
  shows "(\<exists>r'. BN_add ma a b r = (Some (), r') \<and> bn_ok r' \<and> bn_value r' = bn_value a + bn_value b) \<and>
    (\<exists>r'. BN_sub ma a b r = (Some (), r') \<and> bn_ok r' \<and> bn_value r' = bn_value a - bn_value b)"
  using signed_sum_run [OF assms] by blast

text \<open>
  \<open>BN_add_word\<close> and \<open>BN_sub_word\<close> compute the exact sum and difference with a word in place, for numbers of
  either sign: carries run into a new word, borrows change the sign.
\<close>

theorem bn_add_sub_word_exact:
  assumes "malloc_total ma" "bn_ok a" "bn_room a (bn_width a + 1)"
  shows "(\<exists>a'. BN_add_word ma w a = (Some (), a') \<and> bn_ok a' \<and> bn_value a' = bn_value a + int (unat w)) \<and>
    (\<exists>a'. BN_sub_word ma w a = (Some (), a') \<and> bn_ok a' \<and> bn_value a' = bn_value a - int (unat w))"
proof (cases "w = 0 \<or> BN_is_zero a")
  case True
  then show ?thesis by (rule add_sub_word_zero [OF assms])
next
  case False
  define p where "p = a\<lparr>bn_neg := False\<rparr>"
  have p: "bn_ok p" "bn_mag p = bn_mag a" "\<not> bn_neg p" "bn_width p = bn_width a" "bn_room p (bn_width p + 1)"
    using assms(2,3) by (simp_all add: p_def bn_ok_def bn_mag_def bn_words_def bn_room_def)
  have m: "bn_mag p \<noteq> 0" using False p(2) is_zero_iff [OF assms(2)] by simp
  have wn: "w \<noteq> 0" using False by simp
  have np: "p = a" if "\<not> bn_neg a" using that by (simp add: p_def)
  obtain u where u: "add_word_nonneg ma w p = (Some (), u)" "bn_ok u" "bn_mag u = bn_mag p + unat w" "bn_neg u = bn_neg p"
    by (rule add_word_nonneg_value [OF assms(1) p(1,5)])
  obtain d where d: "sub_word_nonneg w p = (Some (), d)" "bn_ok d" "bn_value d = int (bn_mag p) - int (unat w)"
    by (rule sub_word_nonneg_value [OF p(1,3) m wn])
  define e where "e = (if BN_is_zero d then d else d\<lparr>bn_neg := \<not> bn_neg d\<rparr>)"
  have e: "bn_ok e" "bn_value e = - bn_value d"
    using d(2) is_zero_iff [OF d(2)] by (auto simp: e_def bn_value_set_neg bn_value_def bn_mag_def bn_words_def)
  show ?thesis
  proof (cases "bn_neg a")
    case True
    have "BN_add_word ma w a = (Some (), e)" using True False d by (simp add: BN_add_word_def p_def [symmetric] op_bind_def e_def)
    moreover have "BN_sub_word ma w a = (Some (), u\<lparr>bn_neg := True\<rparr>)" using True False u by (simp add: BN_sub_word_def p_def [symmetric])
    ultimately show ?thesis using e d(3) u(2,3) p(2) True by (simp add: bn_value_set_neg) (simp add: bn_value_def)
  next
    case False
    then have "BN_add_word ma w a = (Some (), u)" "BN_sub_word ma w a = (Some (), d)"
      using \<open>\<not> (w = 0 \<or> BN_is_zero a)\<close> u d np by (simp_all add: BN_add_word_def BN_sub_word_def)
    then show ?thesis using u d p(2,3) False by (simp add: bn_value_def [of u] bn_value_def [of a])
  qed
qed

theorem bn_add_sub_exact_witness:
  "\<exists>r'. BN_sub zero_malloc \<lparr>bn_d = [3], bn_width = 1, bn_neg = False, bn_static = False\<rparr>
      \<lparr>bn_d = [0, 1], bn_width = 2, bn_neg = False, bn_static = False\<rparr> BN_init = (Some (), r') \<and> bn_value r' = 3 - 2 ^ 64"
proof -
  let ?a = "\<lparr>bn_d = [3], bn_width = 1, bn_neg = False, bn_static = False\<rparr>"
  let ?b = "\<lparr>bn_d = [0, 1], bn_width = 2, bn_neg = False, bn_static = False\<rparr>"
  have ok: "bn_ok ?a" "bn_ok ?b" "bn_ok BN_init" "bn_room BN_init (max (bn_width ?a) (bn_width ?b) + 1)"
    by (simp_all add: bn_ok_def BN_init_def bn_room_def bn_max_words_def)
  have "bn_value ?a - bn_value ?b = 3 - 2 ^ 64" by (simp add: bn_value_def bn_mag_def bn_words_def)
  then show ?thesis using bn_add_sub_exact [OF malloc_total_zero_malloc ok] by auto
qed

theorem bn_add_sub_word_exact_witness:
  "\<exists>r. BN_sub_word zero_malloc 7 \<lparr>bn_d = [3], bn_width = 1, bn_neg = False, bn_static = False\<rparr> = (Some (), r) \<and>
     bn_value r = - 4"
proof -
  let ?a = "\<lparr>bn_d = [3], bn_width = 1, bn_neg = False, bn_static = False\<rparr>"
  have ok: "bn_ok ?a" "bn_room ?a (bn_width ?a + 1)" by (simp_all add: bn_ok_def bn_room_def bn_max_words_def)
  have "bn_value ?a - int (unat (7 :: u64)) = - 4" by (simp add: bn_value_def bn_mag_def bn_words_def)
  then show ?thesis using bn_add_sub_word_exact [OF malloc_total_zero_malloc ok, of 7] by auto
qed

end
