(* ===== verification/Bn_Ctx.thy ===== *)
theory Bn_Ctx imports Bn Stack begin

text \<open>
  The pool of temporary numbers (\<open>crypto/fipsmodule/bn/ctx.c\<close>): \<open>BN_CTX_start\<close> opens a frame,
  \<open>BN_CTX_get\<close> hands out the next number of the pool and \<open>BN_CTX_end\<close> takes the frame's numbers back.

  A pointer that \<open>BN_CTX_get\<close> returns is the index of its slot in the pool; \<open>on_slot\<close> runs an operation of a
  caller on the number behind it. The error queue is left out.
\<close>

section \<open>The stack of frames\<close>

record bn_stack =
  bs_indexes :: "nat list"
  bs_depth :: nat
  bs_size :: nat

definition BN_CTX_START_FRAMES :: nat where
  "BN_CTX_START_FRAMES = 32"

definition BN_STACK_init :: bn_stack where
  "BN_STACK_init = \<lparr>bs_indexes = [], bs_depth = 0, bs_size = 0\<rparr>"

definition BN_STACK_push :: "malloc_fn \<Rightarrow> nat \<Rightarrow> bn_stack \<Rightarrow> bn_stack option" where
  "BN_STACK_push ma idx st =
     (let grown =
        (if bs_depth st = bs_size st then
           let new_size = (if bs_size st \<noteq> 0 then bs_size st * 3 mod size_limit div 2 else BN_CTX_START_FRAMES) in
           if new_size \<le> bs_size st \<or> (size_limit - 1) div 8 < new_size then None
           else case OPENSSL_malloc ma (new_size * 8) of
                  None \<Rightarrow> None
                | Some b \<Rightarrow>
                    Some (st\<lparr>bs_indexes := take (bs_size st) (bs_indexes st)
                               @ map unat (drop (bs_size st) (block_words new_size (block_bytes b))),
                             bs_size := new_size\<rparr>)
         else Some st) in
      case grown of
        None \<Rightarrow> None
      | Some st \<Rightarrow> Some (st\<lparr>bs_indexes := (bs_indexes st)[bs_depth st := idx], bs_depth := bs_depth st + 1\<rparr>))"

definition BN_STACK_pop :: "bn_stack \<Rightarrow> nat \<times> bn_stack" where
  "BN_STACK_pop st = (let st = st\<lparr>bs_depth := bs_depth st - 1\<rparr> in (bs_indexes st ! bs_depth st, st))"

section \<open>The pool\<close>

record bn_ctx =
  ctx_bignums :: "(bignum, unit) stack option"
  ctx_stack :: bn_stack
  ctx_used :: nat
  ctx_error :: bool
  ctx_defer_error :: bool

definition sizeof_BN_CTX :: nat where
  "sizeof_BN_CTX = 48"

definition BN_CTX_new :: "malloc_fn \<Rightarrow> bn_ctx option" where
  "BN_CTX_new ma =
     (case OPENSSL_malloc ma sizeof_BN_CTX of
        None \<Rightarrow> None
      | Some _ \<Rightarrow>
          Some \<lparr>ctx_bignums = None, ctx_stack = BN_STACK_init, ctx_used = 0, ctx_error = False, ctx_defer_error = False\<rparr>)"

text \<open>The numbers that \<open>BN_CTX_free\<close> frees.\<close>

definition BN_CTX_free :: "bn_ctx option \<Rightarrow> bignum list" where
  "BN_CTX_free ctx = (case ctx of None \<Rightarrow> [] | Some c \<Rightarrow> sk_pop_free (ctx_bignums c))"

definition BN_CTX_start :: "malloc_fn \<Rightarrow> bn_ctx \<Rightarrow> bn_ctx" where
  "BN_CTX_start ma ctx =
     (if ctx_error ctx then ctx
      else case BN_STACK_push ma (ctx_used ctx) (ctx_stack ctx) of
             None \<Rightarrow> ctx\<lparr>ctx_error := True, ctx_defer_error := True\<rparr>
           | Some st \<Rightarrow> ctx\<lparr>ctx_stack := st\<rparr>)"

definition BN_CTX_get :: "malloc_fn \<Rightarrow> (bn_ctx, nat) op" where
  "BN_CTX_get ma ctx =
     (if ctx_error ctx then (None, ctx\<lparr>ctx_defer_error := False\<rparr>)
      else
        case (if ctx_bignums ctx = None then sk_new_null ma else ctx_bignums ctx) of
          None \<Rightarrow> (None, ctx\<lparr>ctx_error := True\<rparr>)
        | Some sk \<Rightarrow>
            let ctx = ctx\<lparr>ctx_bignums := Some sk\<rparr>;
                pushed =
                  (if ctx_used ctx = sk_num (Some sk) then
                     case BN_new ma of
                       None \<Rightarrow> None
                     | Some bn \<Rightarrow> (case sk_push ma sk (Some bn) of (n, sk) \<Rightarrow> if n = 0 then None else sk)
                   else Some sk) in
            case pushed of
              None \<Rightarrow> (None, ctx\<lparr>ctx_error := True\<rparr>)
            | Some sk \<Rightarrow>
                let ret = ctx_used ctx;
                    sk = snd (sk_set (Some sk) ret (map_option BN_zero (sk_value (Some sk) ret))) in
                (Some ret, ctx\<lparr>ctx_bignums := sk, ctx_used := ctx_used ctx + 1\<rparr>))"

definition BN_CTX_end :: "bn_ctx \<Rightarrow> bn_ctx" where
  "BN_CTX_end ctx =
     (if ctx_error ctx then ctx
      else case BN_STACK_pop (ctx_stack ctx) of (u, st) \<Rightarrow> ctx\<lparr>ctx_stack := st, ctx_used := u\<rparr>)"

definition on_slot :: "nat \<Rightarrow> (bignum, 'a) op \<Rightarrow> (bn_ctx, 'a) op" where
  "on_slot i m ctx =
     (case sk_value (ctx_bignums ctx) i of
        None \<Rightarrow> (None, ctx)
      | Some bn \<Rightarrow>
          (case m bn of (x, bn') \<Rightarrow> (x, ctx\<lparr>ctx_bignums := snd (sk_set (ctx_bignums ctx) i (Some bn'))\<rparr>)))"

section \<open>Invariant\<close>

definition slot :: "bn_ctx \<Rightarrow> nat \<Rightarrow> bignum option" where
  "slot ctx i = sk_value (ctx_bignums ctx) i"

text \<open>The saved values of \<open>used\<close>, outermost frame first.\<close>

definition frames :: "bn_ctx \<Rightarrow> nat list" where
  "frames ctx = take (bs_depth (ctx_stack ctx)) (bs_indexes (ctx_stack ctx))"

definition stack_wf :: "bn_stack \<Rightarrow> bool" where
  "stack_wf st \<longleftrightarrow> bs_depth st \<le> bs_size st \<and> length (bs_indexes st) = bs_size st"

definition ctx_ok :: "bn_ctx \<Rightarrow> bool" where
  "ctx_ok ctx \<longleftrightarrow> stack_wf (ctx_stack ctx)
     \<and> (case ctx_bignums ctx of None \<Rightarrow> ctx_used ctx = 0 | Some sk \<Rightarrow> stack_ok sk \<and> ctx_used ctx \<le> sk_num_field sk)
     \<and> (\<forall>i < sk_num (ctx_bignums ctx). \<exists>bn. slot ctx i = Some bn \<and> bn_ok bn)
     \<and> (\<forall>u \<in> set (frames ctx). u \<le> ctx_used ctx)
     \<and> sorted (frames ctx)"

lemma BN_STACK_push:
  assumes "stack_wf st" "BN_STACK_push ma idx st = Some st'"
  shows "stack_wf st' \<and> take (bs_depth st') (bs_indexes st') = take (bs_depth st) (bs_indexes st) @ [idx]"
  using assms
  by (auto simp: BN_STACK_push_def stack_wf_def Let_def take_Suc_conv_app_nth split: if_splits option.splits)

lemma frames_start:
  assumes "ctx_ok ctx" "\<not> ctx_error (BN_CTX_start ma ctx)"
  shows "ctx_ok (BN_CTX_start ma ctx) \<and> frames (BN_CTX_start ma ctx) = frames ctx @ [ctx_used ctx]
    \<and> ctx_used (BN_CTX_start ma ctx) = ctx_used ctx \<and> (\<forall>i. slot (BN_CTX_start ma ctx) i = slot ctx i)"
proof -
  obtain st where st: "BN_STACK_push ma (ctx_used ctx) (ctx_stack ctx) = Some st" "\<not> ctx_error ctx"
    using assms(2) by (auto simp: BN_CTX_start_def split: if_splits option.splits)
  have "stack_wf (ctx_stack ctx)" using assms(1) by (simp add: ctx_ok_def)
  note p = BN_STACK_push [OF this st(1)]
  have s: "BN_CTX_start ma ctx = ctx\<lparr>ctx_stack := st\<rparr>" using st by (simp add: BN_CTX_start_def)
  show ?thesis using p assms(1) unfolding s
    by (auto simp: ctx_ok_def frames_def slot_def sorted_append split: option.splits)
qed

lemma frames_end:
  assumes "ctx_ok ctx" "frames ctx = fs @ [u]" "\<not> ctx_error ctx"
  shows "ctx_ok (BN_CTX_end ctx) \<and> frames (BN_CTX_end ctx) = fs \<and> ctx_used (BN_CTX_end ctx) = u
    \<and> (\<forall>i. slot (BN_CTX_end ctx) i = slot ctx i) \<and> \<not> ctx_error (BN_CTX_end ctx)"
proof -
  let ?st = "ctx_stack ctx"
  have d: "bs_depth ?st \<le> length (bs_indexes ?st)" using assms(1) by (simp add: ctx_ok_def stack_wf_def)
  have "length (fs @ [u]) = bs_depth ?st" using assms(2) [symmetric] d by (simp add: frames_def)
  then obtain n where n: "bs_depth ?st = Suc n" "length fs = n" by auto
  have "take n (bs_indexes ?st) @ [bs_indexes ?st ! n] = fs @ [u]"
    using assms(2) d n by (simp add: frames_def take_Suc_conv_app_nth)
  then have f: "take n (bs_indexes ?st) = fs" "bs_indexes ?st ! n = u" by simp_all
  have e: "BN_CTX_end ctx = ctx\<lparr>ctx_stack := ?st\<lparr>bs_depth := n\<rparr>, ctx_used := u\<rparr>"
    using assms(3) n f(2) by (simp add: BN_CTX_end_def BN_STACK_pop_def Let_def)
  have "u \<le> ctx_used ctx" "sorted (fs @ [u])" using assms(1,2) by (auto simp: ctx_ok_def)
  then show ?thesis using assms(1,3) f(1) n(1) unfolding e
    by (auto simp: ctx_ok_def frames_def slot_def stack_wf_def sorted_append split: option.splits)
qed


lemma slot_Some: "slot (ctx\<lparr>ctx_bignums := Some sk, ctx_used := u\<rparr>) i = (if i < sk_num_field sk then sk_data sk ! i else None)"
  by (simp add: slot_def sk_value_def)

lemma elements_data: "stack_ok s \<Longrightarrow> i < sk_num_field s \<Longrightarrow> sk_data s ! i = elements s ! i"
  by (simp add: elements_def)

text \<open>The pool after a number has been added where one is missing.\<close>

definition pool_step :: "(bignum, unit) stack \<Rightarrow> nat \<Rightarrow> (bignum, unit) stack \<Rightarrow> bool" where
  "pool_step sk u sk' \<longleftrightarrow> stack_ok sk' \<and> u < sk_num_field sk' \<and> sk_num_field sk \<le> sk_num_field sk'
     \<and> (\<forall>i < sk_num_field sk. sk_data sk' ! i = sk_data sk ! i)
     \<and> (\<forall>i. sk_num_field sk \<le> i \<and> i < sk_num_field sk' \<longrightarrow> sk_data sk' ! i = Some BN_init)"

lemma pool_push:
  assumes "malloc_spec ma" "stack_ok sk" "sk_push ma sk (Some BN_init) = (n, Some sk')" "n \<noteq> 0"
  shows "pool_step sk (sk_num_field sk) sk'"
proof -
  have e: "stack_ok sk'" "elements sk' = insert_at (sk_num_field sk) (Some BN_init) (elements sk)"
    using sk_insert_cases [OF assms(1,2), of "Some BN_init" "sk_num_field sk"] assms(3,4) by (auto simp: sk_push_def)
  have l: "length (elements sk) = sk_num_field sk" "length (elements sk') = sk_num_field sk'"
    using assms(2) e(1) by (simp_all add: length_elements)
  have e2: "elements sk' = elements sk @ [Some BN_init]" using e(2) l(1) by (simp add: insert_at_def)
  have n: "sk_num_field sk' = Suc (sk_num_field sk)" using e2 l by simp
  have nth: "sk_data sk' ! i = (elements sk @ [Some BN_init]) ! i" if "i < Suc (sk_num_field sk)" for i
    using elements_nth [of i sk'] that e2 n by simp
  show ?thesis
    unfolding pool_step_def
    using e(1) n nth l(1) elements_nth [of _ sk] by (auto simp: nth_append less_Suc_eq)
qed

lemma get_step:
  assumes "malloc_spec ma" "ctx_ok ctx" "BN_CTX_get ma ctx = (r, ctx')" "\<not> ctx_error ctx'"
  shows "r = Some (ctx_used ctx) \<and> ctx_ok ctx' \<and> ctx_used ctx' = ctx_used ctx + 1 \<and> frames ctx' = frames ctx
    \<and> (\<forall>j < ctx_used ctx. slot ctx' j = slot ctx j)
    \<and> (\<exists>bn. slot ctx' (ctx_used ctx) = Some bn \<and> bn_width bn = 0 \<and> \<not> bn_neg bn)"
proof -
  let ?u = "ctx_used ctx"
  obtain sk0 where sk0: "(if ctx_bignums ctx = None then sk_new_null ma else ctx_bignums ctx) = Some sk0" "\<not> ctx_error ctx"
    using assms(3,4) by (auto simp: BN_CTX_get_def Let_def split: if_splits option.splits)
  have ok0: "stack_ok sk0" "?u \<le> sk_num_field sk0" "\<forall>i < sk_num_field sk0. sk_data sk0 ! i = slot ctx i"
      "\<forall>i < sk_num_field sk0. \<exists>bn. sk_data sk0 ! i = Some bn \<and> bn_ok bn"
  proof -
    have new: "stack_ok sk0 \<and> sk_num_field sk0 = 0" if "sk_new_null ma = Some sk0"
      using sk_new_spec [OF assms(1), of None sk0] length_elements [of sk0] that by (simp add: sk_new_null_def)
    show "stack_ok sk0" "?u \<le> sk_num_field sk0" "\<forall>i < sk_num_field sk0. sk_data sk0 ! i = slot ctx i"
      "\<forall>i < sk_num_field sk0. \<exists>bn. sk_data sk0 ! i = Some bn \<and> bn_ok bn"
      using sk0(1) new assms(2) by (auto simp: ctx_ok_def slot_def sk_value_def sk_num_def split: if_splits)
  qed
  obtain sk1 where sk1: "pool_step sk0 ?u sk1"
    and run: "r = Some ?u" "ctx' = ctx\<lparr>ctx_bignums := snd (sk_set (Some sk1) ?u (map_option BN_zero (sk_value (Some sk1) ?u))), ctx_used := ?u + 1\<rparr>"
  proof (cases "?u = sk_num_field sk0")
    case True
    then obtain n sk1 where p: "sk_push ma sk0 (Some BN_init) = (n, Some sk1)" "n \<noteq> 0"
      "(r, ctx') = (Some ?u, ctx\<lparr>ctx_bignums := snd (sk_set (Some sk1) ?u (map_option BN_zero (sk_value (Some sk1) ?u))), ctx_used := ?u + 1\<rparr>)"
      using assms(3,4) sk0
      by (auto simp: BN_CTX_get_def Let_def sk_num_def BN_new_def split: option.splits prod.splits if_splits)
    then show ?thesis using that [of sk1] pool_push [OF assms(1) ok0(1) p(1,2)] True by simp
  next
    case False
    then have "pool_step sk0 ?u sk0" using ok0 by (auto simp: pool_step_def)
    then show ?thesis using that [of sk0] assms(3,4) sk0 False by (auto simp: BN_CTX_get_def Let_def sk_num_def)
  qed
  define sk2 where "sk2 = sk1\<lparr>sk_data := (sk_data sk1)[?u := map_option BN_zero (sk_data sk1 ! ?u)]\<rparr>"
  have p: "stack_ok sk1" "?u < sk_num_field sk1" "sk_num_field sk0 \<le> sk_num_field sk1"
      "\<forall>i < sk_num_field sk0. sk_data sk1 ! i = sk_data sk0 ! i"
      "\<forall>i. sk_num_field sk0 \<le> i \<and> i < sk_num_field sk1 \<longrightarrow> sk_data sk1 ! i = Some BN_init"
    using sk1 by (simp_all add: pool_step_def)
  have c: "ctx' = ctx\<lparr>ctx_bignums := Some sk2, ctx_used := ?u + 1\<rparr>"
    using run(2) p(2) by (simp add: sk_set_def sk_value_def sk2_def)
  have filled: "\<exists>bn. sk_data sk1 ! i = Some bn \<and> bn_ok bn" if "i < sk_num_field sk1" for i
  proof (cases "i < sk_num_field sk0")
    case False
    then show ?thesis using p(5) that by (simp add: bn_ok_def BN_init_def)
  qed (use p(4) ok0(4) in simp)
  have len: "?u < length (sk_data sk1)" using p(1,2) by (simp add: stack_ok_def)
  have "stack_ok sk2" using p(1) by (simp add: stack_ok_def sk2_def)
  moreover have nth: "sk_data sk2 ! i = (if i = ?u then map_option BN_zero (sk_data sk1 ! ?u) else sk_data sk1 ! i)" for i
    using len by (simp add: sk2_def)
  moreover have n2: "sk_num_field sk2 = sk_num_field sk1" by (simp add: sk2_def)
  moreover have "\<exists>bn. sk_data sk2 ! i = Some bn \<and> bn_ok bn" if "i < sk_num_field sk1" for i
    using filled [OF that] by (auto simp: nth bn_ok_def BN_zero_def)
  moreover have "\<forall>j < ?u. sk_data sk2 ! j = slot ctx j" using ok0(2,3) p(4) by (simp add: nth)
  moreover obtain bn where "sk_data sk1 ! ?u = Some bn" using filled [OF p(2)] by blast
  ultimately show ?thesis
    using assms(2) run(1) p(2) unfolding c
    by (auto simp: ctx_ok_def slot_Some sk_num_def frames_def BN_zero_def nth slot_def sk_value_def)
qed


lemma on_slot_step:
  assumes "ctx_ok ctx" "\<And>bn. bn_ok bn \<Longrightarrow> bn_ok (snd (m bn))" "on_slot i m ctx = (r, ctx')"
  shows "ctx_ok ctx' \<and> ctx_used ctx' = ctx_used ctx \<and> frames ctx' = frames ctx \<and> ctx_error ctx' = ctx_error ctx
    \<and> (\<forall>j. j \<noteq> i \<longrightarrow> slot ctx' j = slot ctx j)"
proof (cases "slot ctx i")
  case None
  then show ?thesis using assms(1,3) by (auto simp: on_slot_def slot_def)
next
  case (Some bn)
  then obtain sk where sk: "ctx_bignums ctx = Some sk" "i < sk_num_field sk" "sk_data sk ! i = Some bn"
    by (auto simp: slot_def sk_value_def split: option.splits if_splits)
  have ok: "stack_ok sk" "ctx_used ctx \<le> sk_num_field sk" "bn_ok bn"
    "\<forall>i < sk_num_field sk. \<exists>bn. sk_data sk ! i = Some bn \<and> bn_ok bn"
    using assms(1) sk by (auto simp: ctx_ok_def slot_def sk_value_def sk_num_def)
  have len: "i < length (sk_data sk)" using ok(1) sk(2) by (simp add: stack_ok_def)
  have c: "ctx' = ctx\<lparr>ctx_bignums := Some (sk\<lparr>sk_data := (sk_data sk)[i := Some (snd (m bn))]\<rparr>)\<rparr>"
    using assms(3) sk by (auto simp: on_slot_def sk_value_def sk_set_def split: prod.splits)
  have st: "stack_ok (sk\<lparr>sk_data := (sk_data sk)[i := Some (snd (m bn))]\<rparr>)" using ok(1) by (simp add: stack_ok_def)
  show ?thesis
    using assms(1) ok assms(2) [OF ok(3)] st sk(1) len unfolding c
    by (auto simp: ctx_ok_def frames_def slot_def sk_value_def sk_num_def nth_list_update)
qed

section \<open>Runs\<close>

text \<open>
  What a function does with the pool between its own \<open>BN_CTX_start\<close> and \<open>BN_CTX_end\<close>: it gets temporaries, it
  works on those of its frame (the slots from \<open>base\<close> on), and it calls functions that do the same.
\<close>

inductive ctx_run :: "malloc_fn \<Rightarrow> nat \<Rightarrow> bn_ctx \<Rightarrow> bn_ctx \<Rightarrow> bool" for ma where
  stop: "ctx_run ma base ctx ctx"
| get_number: "BN_CTX_get ma ctx = (r, ctx1) \<Longrightarrow> ctx_run ma base ctx1 ctx2 \<Longrightarrow> ctx_run ma base ctx ctx2"
| work: "base \<le> i \<Longrightarrow> i < ctx_used ctx \<Longrightarrow> (\<And>bn. bn_ok bn \<Longrightarrow> bn_ok (snd (m bn))) \<Longrightarrow> on_slot i m ctx = (r :: unit option, ctx1) \<Longrightarrow>
    ctx_run ma base ctx1 ctx2 \<Longrightarrow> ctx_run ma base ctx ctx2"
| call: "ctx_run ma (ctx_used ctx) (BN_CTX_start ma ctx) ctx1 \<Longrightarrow> ctx_run ma base (BN_CTX_end ctx1) ctx2 \<Longrightarrow>
    ctx_run ma base ctx ctx2"

inductive_cases ctx_runE: "ctx_run ma base ctx ctx'"

lemma error_stays:
  "ctx_error ctx \<Longrightarrow> ctx_error (snd (BN_CTX_get ma ctx))"
  "ctx_error ctx \<Longrightarrow> ctx_error (BN_CTX_start ma ctx)"
  "ctx_error (BN_CTX_end ctx) = ctx_error ctx"
  "ctx_error (snd (on_slot i m ctx)) = ctx_error ctx"
  by (auto simp: BN_CTX_get_def BN_CTX_start_def BN_CTX_end_def on_slot_def split: option.splits prod.splits)

lemma ctx_run_error: "ctx_run ma base ctx ctx' \<Longrightarrow> ctx_error ctx \<Longrightarrow> ctx_error ctx'"
proof (induction rule: ctx_run.induct)
  case (get_number ctx r ctx1 base ctx2)
  then show ?case using error_stays(1) [of ctx ma] by simp
next
  case (work base i ctx m r ctx1 ctx2)
  then show ?case using error_stays(4) [of i m ctx] by simp
qed (simp_all add: error_stays)

text \<open>What an operation that fails leaves behind.\<close>

lemma get_failed:
  assumes "malloc_spec ma" "ctx_ok ctx" "BN_CTX_get ma ctx = (r, ctx')" "ctx_error ctx'"
  shows "r = None \<and> ctx_ok ctx' \<and> ctx_used ctx' = ctx_used ctx \<and> frames ctx' = frames ctx \<and> (\<forall>i. slot ctx' i = slot ctx i)"
proof -
  have new: "stack_ok sk \<and> sk_num_field sk = 0" if "sk_new_null ma = Some sk" for sk :: "(bignum, unit) stack"
    using sk_new_spec [OF assms(1), of None sk] length_elements [of sk] that by (simp add: sk_new_null_def)
  have same: "ctx_ok c \<and> ctx_used c = ctx_used ctx \<and> frames c = frames ctx \<and> (\<forall>i. slot c i = slot ctx i)"
    if "c = ctx\<lparr>ctx_defer_error := False\<rparr> \<or> c = ctx\<lparr>ctx_error := True\<rparr>" for c
    using assms(2) that by (auto simp: ctx_ok_def frames_def slot_def split: option.splits)
  have filled: "ctx_ok c \<and> ctx_used c = ctx_used ctx \<and> frames c = frames ctx \<and> (\<forall>i. slot c i = slot ctx i)"
    if "c = ctx\<lparr>ctx_bignums := Some sk, ctx_error := True\<rparr>" "(if ctx_bignums ctx = None then sk_new_null ma else ctx_bignums ctx) = Some sk" for c sk
    using assms(2) new that(2) unfolding that(1)
    by (auto simp: ctx_ok_def frames_def slot_def sk_value_def sk_num_def split: option.splits if_splits)
  have failed: "r = None \<and> (ctx' = ctx\<lparr>ctx_defer_error := False\<rparr> \<or> ctx' = ctx\<lparr>ctx_error := True\<rparr>
      \<or> (\<exists>sk. ctx' = ctx\<lparr>ctx_bignums := Some sk, ctx_error := True\<rparr>
           \<and> (if ctx_bignums ctx = None then sk_new_null ma else ctx_bignums ctx) = Some sk))"
    using assms(3,4) by (auto simp: BN_CTX_get_def Let_def split: if_splits option.splits)
  then show ?thesis
    using same [of ctx'] filled [of ctx'] by metis
qed

lemma start_failed:
  assumes "ctx_error (BN_CTX_start ma ctx)"
  shows "\<exists>e d. BN_CTX_start ma ctx = ctx\<lparr>ctx_error := e, ctx_defer_error := d\<rparr>"
proof -
  have "BN_CTX_start ma ctx = ctx\<lparr>ctx_error := True, ctx_defer_error := ctx_defer_error (BN_CTX_start ma ctx)\<rparr>"
    using assms by (cases ctx) (auto simp: BN_CTX_start_def split: option.splits if_splits)
  then show ?thesis by blast
qed

text \<open>Once an operation has failed no frame is opened or closed and no number is handed out.\<close>

lemma after_error:
  assumes "ctx_error ctx"
  shows "BN_CTX_start ma ctx = ctx" "BN_CTX_end ctx = ctx" "BN_CTX_get ma ctx = (None, ctx\<lparr>ctx_defer_error := False\<rparr>)"
  using assms by (simp_all add: BN_CTX_start_def BN_CTX_end_def BN_CTX_get_def)

lemma ctx_run_after_error:
  "ctx_run ma base ctx ctx' \<Longrightarrow> ctx_error ctx \<Longrightarrow> ctx_used ctx' = ctx_used ctx \<and> ctx_stack ctx' = ctx_stack ctx"
proof (induction rule: ctx_run.induct)
  case (get_number ctx r ctx1 base ctx2)
  then show ?case using after_error(3) [of ctx ma] by auto
next
  case (work base i ctx m r ctx1 ctx2)
  have "ctx_used ctx1 = ctx_used ctx \<and> ctx_stack ctx1 = ctx_stack ctx \<and> ctx_error ctx1 = ctx_error ctx"
    using work(4) by (auto simp: on_slot_def split: option.splits prod.splits)
  then show ?case using work by simp
next
  case (call ctx ctx1 base ctx2)
  note e = after_error [OF call(5)]
  have c1: "ctx_used ctx1 = ctx_used ctx \<and> ctx_stack ctx1 = ctx_stack ctx" using call(3,5) by (simp add: e)
  have "ctx_error ctx1" using ctx_run_error [OF call(1)] call(5) by (simp add: e)
  then show ?case using c1 call(4) by (simp add: after_error(2))
qed simp

text \<open>What a run keeps of the state it started from.\<close>

definition run_keeps :: "nat \<Rightarrow> bn_ctx \<Rightarrow> bn_ctx \<Rightarrow> bool" where
  "run_keeps base ctx ctx' \<longleftrightarrow> ctx_ok ctx' \<and> (\<exists>gs. frames ctx' = frames ctx @ gs) \<and> ctx_used ctx \<le> ctx_used ctx'
     \<and> (\<forall>j < base. slot ctx' j = slot ctx j) \<and> (\<not> ctx_error ctx' \<longrightarrow> \<not> ctx_error ctx \<and> frames ctx' = frames ctx)"

lemma run_keeps_trans:
  "run_keeps base ctx ctx1 \<Longrightarrow> run_keeps base ctx1 ctx2 \<Longrightarrow> run_keeps base ctx ctx2"
  unfolding run_keeps_def by auto

lemma get_keeps:
  assumes "malloc_spec ma" "ctx_ok ctx" "BN_CTX_get ma ctx = (r, ctx')" "base \<le> ctx_used ctx"
  shows "run_keeps base ctx ctx'"
proof (cases "ctx_error ctx'")
  case True
  then show ?thesis using get_failed [OF assms(1-3) True] by (simp add: run_keeps_def)
next
  case False
  have "\<not> ctx_error ctx" using error_stays(1) [of ctx ma] False assms(3) by auto
  then show ?thesis using get_step [OF assms(1-3) False] assms(4) by (simp add: run_keeps_def)
qed

text \<open>The frame of a callee: from \<open>BN_CTX_start\<close> to \<open>BN_CTX_end\<close>, whether an operation fails or not.\<close>

lemma frame_keeps:
  assumes "ctx_ok ctx" "ctx_ok (BN_CTX_start ma ctx) \<Longrightarrow> run_keeps (ctx_used ctx) (BN_CTX_start ma ctx) ctx1"
  shows "run_keeps (ctx_used ctx) ctx (BN_CTX_end ctx1)
    \<and> (if ctx_error ctx1 then BN_CTX_end ctx1 = ctx1 else ctx_used (BN_CTX_end ctx1) = ctx_used ctx)"
proof (cases "ctx_error (BN_CTX_start ma ctx)")
  case True
  then obtain e d where s: "BN_CTX_start ma ctx = ctx\<lparr>ctx_error := e, ctx_defer_error := d\<rparr>" using start_failed by blast
  have same: "ctx_ok (BN_CTX_start ma ctx)" "frames (BN_CTX_start ma ctx) = frames ctx" "ctx_used (BN_CTX_start ma ctx) = ctx_used ctx"
    "slot (BN_CTX_start ma ctx) i = slot ctx i" for i
    using assms(1) unfolding s by (auto simp: ctx_ok_def frames_def slot_def split: option.splits)
  have k: "run_keeps (ctx_used ctx) (BN_CTX_start ma ctx) ctx1" by (rule assms(2) [OF same(1)])
  then have "ctx_error ctx1" using True by (auto simp: run_keeps_def)
  then show ?thesis using k same True by (auto simp: run_keeps_def after_error(2))
next
  case False
  note s = frames_start [OF assms(1) False]
  have k: "run_keeps (ctx_used ctx) (BN_CTX_start ma ctx) ctx1" using assms(2) s by blast
  have nerr: "\<not> ctx_error ctx" using False error_stays(2) by blast
  show ?thesis
  proof (cases "ctx_error ctx1")
    case True
    then show ?thesis using k s by (auto simp: run_keeps_def after_error(2) [OF True])
  next
    case e1: False
    then have f: "ctx_ok ctx1" "frames ctx1 = frames ctx @ [ctx_used ctx]" using k s by (simp_all add: run_keeps_def)
    show ?thesis using frames_end [OF f e1] k s nerr e1 by (simp add: run_keeps_def)
  qed
qed

lemma run_keeps_base: "run_keeps b ctx ctx' \<Longrightarrow> base \<le> b \<Longrightarrow> run_keeps base ctx ctx'"
  by (auto simp: run_keeps_def)

lemma ctx_run_keeps:
  assumes "malloc_spec ma"
  shows "ctx_run ma base ctx ctx' \<Longrightarrow> base \<le> ctx_used ctx \<Longrightarrow> ctx_ok ctx \<Longrightarrow> run_keeps base ctx ctx'"
proof (induction rule: ctx_run.induct)
  case (stop base ctx)
  then show ?case by (simp add: run_keeps_def)
next
  case (get_number ctx r ctx1 base ctx2)
  have k: "run_keeps base ctx ctx1" by (rule get_keeps [OF assms get_number(5,1,4)])
  then have "run_keeps base ctx1 ctx2" using get_number(3,4) by (simp add: run_keeps_def)
  then show ?case using k run_keeps_trans by blast
next
  case (work base i ctx m r ctx1 ctx2)
  have k: "run_keeps base ctx ctx1" using on_slot_step [OF work(8,3,4)] work(1) by (simp add: run_keeps_def)
  then have "run_keeps base ctx1 ctx2" using work(6,7) by (simp add: run_keeps_def)
  then show ?case using k run_keeps_trans by blast
next
  case (call ctx ctx1 base ctx2)
  have start: "ctx_used (BN_CTX_start ma ctx) = ctx_used ctx" by (simp add: BN_CTX_start_def split: option.splits)
  have k: "run_keeps base ctx (BN_CTX_end ctx1)"
    using frame_keeps [OF call(6), of ma ctx1] call(3,5) start run_keeps_base by auto
  then have "run_keeps base (BN_CTX_end ctx1) ctx2" using call(4,5) by (simp add: run_keeps_def)
  then show ?case using k run_keeps_trans by blast
qed

section \<open>Properties\<close>

text \<open>
  C22: A function that opens a frame, gets temporaries, works on its own temporaries and calls others that do the
  same never touches its caller's temporaries and keeps the caller's frames. When no operation on the pool has failed,
  \<open>BN_CTX_end\<close> leaves the pool as it was: the same frames and the same numbers in use. When one has failed,
  \<open>BN_CTX_end\<close> does nothing, so the numbers in use and the frames are those of the failing operation: from then on
  no number is handed out and no later run changes either.
\<close>

theorem bn_ctx_frame_isolated:
  assumes "malloc_spec ma" "ctx_ok ctx" "ctx_run ma (ctx_used ctx) (BN_CTX_start ma ctx) ctx1"
  shows "ctx_ok (BN_CTX_end ctx1) \<and> (\<forall>j < ctx_used ctx. slot (BN_CTX_end ctx1) j = slot ctx j)
    \<and> (\<exists>gs. frames (BN_CTX_end ctx1) = frames ctx @ gs) \<and> ctx_used ctx \<le> ctx_used (BN_CTX_end ctx1)
    \<and> (if ctx_error ctx1 then
        BN_CTX_end ctx1 = ctx1 \<and> fst (BN_CTX_get ma ctx1) = None
        \<and> (\<forall>base ctx2. ctx_run ma base ctx1 ctx2 \<longrightarrow> ctx_error ctx2 \<and> ctx_used ctx2 = ctx_used ctx1 \<and> frames ctx2 = frames ctx1)
      else
        \<not> ctx_error (BN_CTX_end ctx1) \<and> frames (BN_CTX_end ctx1) = frames ctx \<and> ctx_used (BN_CTX_end ctx1) = ctx_used ctx)"
proof -
  have start: "ctx_used ctx \<le> ctx_used (BN_CTX_start ma ctx)" by (simp add: BN_CTX_start_def split: option.splits)
  have k: "run_keeps (ctx_used ctx) ctx (BN_CTX_end ctx1)"
      "if ctx_error ctx1 then BN_CTX_end ctx1 = ctx1 else ctx_used (BN_CTX_end ctx1) = ctx_used ctx"
    using frame_keeps [OF assms(2) ctx_run_keeps [OF assms(1,3) start]] by simp_all
  show ?thesis
  proof (cases "ctx_error ctx1")
    case True
    have "ctx_error ctx2 \<and> ctx_used ctx2 = ctx_used ctx1 \<and> frames ctx2 = frames ctx1" if "ctx_run ma base ctx1 ctx2" for base ctx2
      using ctx_run_error [OF that True] ctx_run_after_error [OF that True] by (simp add: frames_def)
    then show ?thesis using k True after_error [OF True] by (auto simp: run_keeps_def)
  next
    case False
    then show ?thesis using k error_stays(3) [of ctx1] by (simp add: run_keeps_def)
  qed
qed

text \<open>A new pool from which one number is taken.\<close>

theorem bn_ctx_frame_isolated_witness:
  "\<exists>ctx ctx1. BN_CTX_new zero_malloc = Some ctx \<and> ctx1 = snd (BN_CTX_get zero_malloc (BN_CTX_start zero_malloc ctx)) \<and>
     ctx_used ctx1 = 1 \<and> ctx_used (BN_CTX_end ctx1) = 0"
proof -
  let ?c = "\<lparr>ctx_bignums = None, ctx_stack = BN_STACK_init, ctx_used = 0, ctx_error = False, ctx_defer_error = False\<rparr>"
  let ?s = "BN_CTX_start zero_malloc ?c"
  define c1 where "c1 = snd (BN_CTX_get zero_malloc ?s)"
  have new: "BN_CTX_new zero_malloc = Some ?c"
    by (simp add: BN_CTX_new_def OPENSSL_malloc_def zero_malloc_def size_add_def OPENSSL_MALLOC_PREFIX_def sizeof_BN_CTX_def)
  have ok: "ctx_ok ?c" by (simp add: ctx_ok_def stack_wf_def BN_STACK_init_def frames_def sk_num_def)
  have s: "ctx_bignums ?s = None" "ctx_used ?s = 0" "\<not> ctx_error ?s"
    by (simp_all add: BN_CTX_start_def BN_STACK_push_def BN_STACK_init_def BN_CTX_START_FRAMES_def Let_def
        OPENSSL_malloc_def zero_malloc_def size_add_def OPENSSL_MALLOC_PREFIX_def)
  have e: "\<not> ctx_error c1" "ctx_used c1 = 1"
    unfolding c1_def using s
    by (simp_all add: BN_CTX_get_def Let_def sk_new_null_def sk_new_def OPENSSL_malloc_def zero_malloc_def size_add_def
        OPENSSL_MALLOC_PREFIX_def sizeof_STACK_def sizeof_ptr_def kMinSize_def ptr_array_def sk_num_def BN_new_def
        sizeof_BIGNUM_def sk_push_def sk_insert_def sk_grow_def)
  have run: "ctx_run zero_malloc (ctx_used ?c) ?s c1"
    unfolding c1_def by (rule get_number [OF surjective_pairing stop])
  have "ctx_used (BN_CTX_end c1) = ctx_used ?c"
    using bn_ctx_frame_isolated [OF malloc_spec_zero_malloc ok run] e(1) by simp
  then show ?thesis using new e(2) c1_def by auto
qed

end
