(* ===== verification/Bn_Shift.thy ===== *)
theory Bn_Shift imports Bn_Arith Bn_Ctx begin

text \<open>
  Shifts and bit operations of big numbers (\<open>crypto/fipsmodule/bn/shift.c\<close>). A C \<open>int\<close> argument is an \<open>int\<close>; the
  word loops are over lists of words, written where the code writes them.
\<close>

section \<open>Left shifts\<close>

text \<open>The two loops of \<open>BN_lshift\<close>, from the highest word down.\<close>

fun lshift_move :: "nat \<Rightarrow> u64 list \<Rightarrow> nat \<Rightarrow> u64 list \<Rightarrow> u64 list" where
  "lshift_move nw f 0 t = t"
| "lshift_move nw f (Suc i) t = lshift_move nw f i (t[nw + i := f ! i])"

fun lshift_loop :: "nat \<Rightarrow> nat \<Rightarrow> u64 list \<Rightarrow> nat \<Rightarrow> u64 list \<Rightarrow> u64 list" where
  "lshift_loop lb nw f 0 t = t"
| "lshift_loop lb nw f (Suc i) t =
     (let l = f ! i;
          t = t[nw + i + 1 := t ! (nw + i + 1) OR drop_bit (64 - lb) l] in
      lshift_loop lb nw f i (t[nw + i := push_bit lb l]))"

definition BN_lshift :: "malloc_fn \<Rightarrow> bignum \<Rightarrow> int \<Rightarrow> unit bn_op" where
  "BN_lshift ma a n r =
     (if n < 0 then (None, r)
      else
        let nw = nat n div 64 in
        op_bind (bn_wexpand ma (bn_width a + nw + 1)) (\<lambda>_ r.
          let lb = nat n mod 64;
              t = (bn_d r)[bn_width a + nw := 0];
              t = (if lb = 0 then lshift_move nw (bn_words a) (bn_width a) t
                   else lshift_loop lb nw (bn_words a) (bn_width a) t);
              t = put_words 0 (replicate nw 0) t in
          (Some (), bn_set_minimal_width (r\<lparr>bn_d := t, bn_width := bn_width a + nw + 1\<rparr>))) (r\<lparr>bn_neg := bn_neg a\<rparr>))"

fun lshift1_loop :: "u64 \<Rightarrow> u64 list \<Rightarrow> u64 list \<times> u64" where
  "lshift1_loop c [] = ([], c)"
| "lshift1_loop c (t # ts) = (let (rs, c') = lshift1_loop (drop_bit 63 t) ts in ((push_bit 1 t OR c) # rs, c'))"

definition BN_lshift1 :: "malloc_fn \<Rightarrow> bignum \<Rightarrow> unit bn_op" where
  "BN_lshift1 ma a r =
     op_bind (bn_wexpand ma (bn_width a + 1)) (\<lambda>_ r.
       let (rs, c) = lshift1_loop 0 (bn_words a);
           r = r\<lparr>bn_d := put_words 0 rs (bn_d r), bn_width := bn_width a\<rparr> in
       (Some (), if c \<noteq> 0 then r\<lparr>bn_d := (bn_d r)[bn_width a := 1], bn_width := bn_width a + 1\<rparr> else r))
     (r\<lparr>bn_neg := bn_neg a\<rparr>)"

section \<open>Right shifts\<close>

definition bn_rshift_words :: "u64 list \<Rightarrow> nat \<Rightarrow> u64 list" where
  "bn_rshift_words a shift =
     (let num = length a;
          shift_bits = shift mod 64;
          shift_words = shift div 64 in
      if num \<le> shift_words then replicate num 0
      else if shift_bits = 0 then drop shift_words a @ replicate shift_words 0
      else map (\<lambda>i. drop_bit shift_bits (a ! i) OR push_bit (64 - shift_bits) (a ! (i + 1))) [shift_words..<num - 1]
             @ [drop_bit shift_bits (a ! (num - 1))] @ replicate shift_words 0)"

definition BN_rshift :: "malloc_fn \<Rightarrow> bignum \<Rightarrow> int \<Rightarrow> unit bn_op" where
  "BN_rshift ma a n =
     (if n < 0 then op_fail
      else op_bind (bn_wexpand ma (bn_width a)) (\<lambda>_ r.
        (Some (), bn_set_minimal_width (r\<lparr>bn_d := put_words 0 (bn_rshift_words (bn_words a) (nat n)) (bn_d r),
                                         bn_neg := bn_neg a, bn_width := bn_width a\<rparr>))))"

text \<open>
  The loop of \<open>bn_rshift_secret_shift\<close> on the words of the result: the number is shifted by each power of two that
  is in \<open>n\<close>, as long as the power's index is below the bit length of \<open>max_bits\<close>.
\<close>

function secret_shift_loop :: "nat \<Rightarrow> u32 \<Rightarrow> nat \<Rightarrow> u64 list \<Rightarrow> u64 list" where
  "secret_shift_loop max_bits n i r =
     (if max_bits div 2 ^ i = 0 then r
      else
        let msk = ucast (drop_bit i n AND 1);
            msk = 0 - msk in
        secret_shift_loop max_bits n (i + 1) (bn_select_words msk (bn_rshift_words r (2 ^ i)) r))"
  by auto

termination
proof (relation "measure (\<lambda>(max_bits, n, i, r). max_bits - i)", goal_cases)
  case (2 max_bits n i r)
  have "i < 2 ^ i" by (rule less_exp)
  then have "i < max_bits" using 2 by (metis div_less le_less_trans linorder_not_le less_or_eq_imp_le)
  then show ?case by simp
qed simp

declare secret_shift_loop.simps [simp del]

definition bn_rshift_secret_shift :: "malloc_fn \<Rightarrow> bignum \<Rightarrow> u32 \<Rightarrow> (bignum \<times> bn_ctx, unit) op" where
  "bn_rshift_secret_shift ma a n = (\<lambda>(r, ctx).
     let ctx = BN_CTX_start ma ctx in
     case BN_CTX_get ma ctx of
       (None, ctx) \<Rightarrow> (None, r, BN_CTX_end ctx)
     | (Some tmp, ctx) \<Rightarrow>
         (case BN_copy ma a r of
            (None, r) \<Rightarrow> (None, r, BN_CTX_end ctx)
          | (Some _, r) \<Rightarrow>
              (case on_slot tmp (bn_wexpand ma (bn_width r)) ctx of
                 (None, ctx) \<Rightarrow> (None, r, BN_CTX_end ctx)
               | (Some _, ctx) \<Rightarrow>
                   let ws = secret_shift_loop (64 * bn_width r) n 0 (bn_words r) in
                   (Some (), r\<lparr>bn_d := put_words 0 ws (bn_d r)\<rparr>, BN_CTX_end ctx))))"

definition bn_rshift1_words :: "u64 list \<Rightarrow> u64 list" where
  "bn_rshift1_words a =
     (let num = length a in
      if num = 0 then []
      else map (\<lambda>i. drop_bit 1 (a ! i) OR push_bit 63 (a ! (i + 1))) [0..<num - 1] @ [drop_bit 1 (a ! (num - 1))])"

definition BN_rshift1 :: "malloc_fn \<Rightarrow> bignum \<Rightarrow> unit bn_op" where
  "BN_rshift1 ma a =
     op_bind (bn_wexpand ma (bn_width a)) (\<lambda>_ r.
       (Some (), bn_set_minimal_width (r\<lparr>bn_d := put_words 0 (bn_rshift1_words (bn_words a)) (bn_d r),
                                        bn_width := bn_width a, bn_neg := bn_neg a\<rparr>)))"

section \<open>Bits\<close>

definition BN_set_bit :: "malloc_fn \<Rightarrow> int \<Rightarrow> unit bn_op" where
  "BN_set_bit ma n a =
     (if n < 0 then (None, a)
      else
        let i = nat n div 64;
            j = nat n mod 64 in
        op_bind
          (if bn_width a \<le> i then
             op_bind (bn_wexpand ma (i + 1)) (\<lambda>_ a.
               (Some (), a\<lparr>bn_d := put_words (bn_width a) (replicate (i + 1 - bn_width a) 0) (bn_d a), bn_width := i + 1\<rparr>))
           else op_return ())
          (\<lambda>_ a. (Some (), a\<lparr>bn_d := (bn_d a)[i := bn_d a ! i OR push_bit j 1]\<rparr>)) a)"

definition BN_clear_bit :: "int \<Rightarrow> unit bn_op" where
  "BN_clear_bit n a =
     (if n < 0 then (None, a)
      else
        let i = nat n div 64;
            j = nat n mod 64 in
        if bn_width a \<le> i then (None, a)
        else (Some (), bn_set_minimal_width (a\<lparr>bn_d := (bn_d a)[i := bn_d a ! i AND NOT (push_bit j 1)]\<rparr>)))"

definition bn_is_bit_set_words :: "u64 list \<Rightarrow> nat \<Rightarrow> bool" where
  "bn_is_bit_set_words a b =
     (let i = b div 64;
          j = b mod 64 in
      if length a \<le> i then False else drop_bit j (a ! i) AND 1 = 1)"

definition BN_is_bit_set :: "bignum \<Rightarrow> int \<Rightarrow> bool" where
  "BN_is_bit_set a n = (if n < 0 then False else bn_is_bit_set_words (bn_words a) (nat n))"

definition BN_mask_bits :: "int \<Rightarrow> unit bn_op" where
  "BN_mask_bits n a =
     (if n < 0 then (None, a)
      else
        let w = nat n div 64;
            b = nat n mod 64 in
        if bn_width a \<le> w then (Some (), a)
        else
          let a = (if b = 0 then a\<lparr>bn_width := w\<rparr>
                   else a\<lparr>bn_width := w + 1, bn_d := (bn_d a)[w := bn_d a ! w AND NOT (push_bit b (- 1))]\<rparr>) in
          (Some (), bn_set_minimal_width a))"

text \<open>One halving step of \<open>bn_count_low_zero_bits_word\<close>.\<close>

definition low_zero_step :: "nat \<Rightarrow> u64 \<times> nat \<Rightarrow> u64 \<times> nat" where
  "low_zero_step k = (\<lambda>(l, bits).
     let msk = constant_time_is_zero_w (push_bit (64 - k) l) in
     (constant_time_select_w msk (drop_bit k l) l, bits + unat (of_nat k AND msk)))"

definition bn_count_low_zero_bits_word :: "u64 \<Rightarrow> nat" where
  "bn_count_low_zero_bits_word l = snd (fold low_zero_step [32, 16, 8, 4, 2, 1] (l, 0))"

fun low_zero_loop :: "nat \<Rightarrow> u64 list \<Rightarrow> u64 \<Rightarrow> u64 \<Rightarrow> u64" where
  "low_zero_loop i [] saw_nonzero ret = ret"
| "low_zero_loop i (d # ds) saw_nonzero ret =
     (let nonzero = NOT (constant_time_is_zero_w d);
          first_nonzero = NOT saw_nonzero AND nonzero;
          saw_nonzero = saw_nonzero OR nonzero;
          bits = bn_count_low_zero_bits_word d in
      low_zero_loop (i + 1) ds saw_nonzero (ret OR (first_nonzero AND of_nat (i * 64 + bits))))"

definition BN_count_low_zero_bits :: "bignum \<Rightarrow> nat" where
  "BN_count_low_zero_bits bn = unat (low_zero_loop 0 (bn_words bn) 0 0)"

section \<open>Shifted words\<close>

lemma push_split:
  assumes "s \<le> 64"
  shows "unat (push_bit s l) + 2 ^ 64 * (unat l div 2 ^ (64 - s)) = 2 ^ s * unat (l :: u64)"
proof -
  have p: "(2 :: nat) ^ 64 = 2 ^ s * 2 ^ (64 - s)" using assms by (simp add: power_add [symmetric])
  have "unat (push_bit s l) = 2 ^ s * unat l mod 2 ^ 64"
    by (simp only: unsigned_push_bit_eq) (simp add: take_bit_eq_mod push_bit_eq_mult mult.commute)
  moreover have "2 ^ s * unat l div 2 ^ 64 = unat l div 2 ^ (64 - s)" unfolding p by simp
  ultimately show ?thesis using mod_mult_div_eq [of "2 ^ s * unat l" "2 ^ 64"] by simp
qed

lemma unat_or_disjoint:
  assumes "a AND b = 0"
  shows "unat (a OR b) = unat a + unat (b :: u64)"
proof -
  have "unat a AND unat b = 0" using assms by (simp add: unsigned_and_eq [symmetric])
  then show ?thesis unfolding unsigned_or_eq by (simp only: disjunctive_add_eq_or)
qed

lemma or_push_drop:
  assumes "s \<le> 64"
  shows "push_bit s x AND drop_bit (64 - s) l = (0 :: u64)"
proof (rule bit_word_eqI)
  fix n
  show "bit (push_bit s x AND drop_bit (64 - s) l) n = bit (0 :: u64) n"
    using bit_imp_le_length [of l "64 - s + n"] assms by (auto simp: bit_simps)
qed

lemma unat_push_or_drop:
  "s \<le> 64 \<Longrightarrow> unat (push_bit s x OR drop_bit (64 - s) l) = unat (push_bit s x) + unat (l :: u64) div 2 ^ (64 - s)"
  by (simp add: unat_or_disjoint [OF or_push_drop] unat_drop_bit)

lemma lshift_move_eq:
  "length pre = nw \<Longrightarrow> length xs = i \<Longrightarrow> i \<le> length f \<Longrightarrow> lshift_move nw f i (pre @ xs @ post) = pre @ take i f @ post"
proof (induction i arbitrary: xs post)
  case (Suc i)
  then obtain ys y where xs: "xs = ys @ [y]" "length ys = i" by (metis length_Suc_conv_rev)
  have "(pre @ xs @ post)[nw + i := f ! i] = pre @ ys @ f ! i # post" using Suc(2) xs by (simp add: list_update_append)
  then show ?case using Suc xs(2) by (simp add: take_Suc_conv_app_nth)
qed simp

lemma lshift_loop_eq:
  assumes "lb \<le> 64" "length pre = nw"
  shows "length xs = i \<Longrightarrow> i \<le> length f \<Longrightarrow>
    \<exists>ys. lshift_loop lb nw f i (pre @ xs @ push_bit lb x # post) = pre @ ys @ post \<and> length ys = Suc i
      \<and> wval ys = 2 ^ lb * wval (take i f) + 2 ^ (64 * i) * unat (push_bit lb x)"
proof (induction i arbitrary: xs x post)
  case 0
  then show ?case by (intro exI [of _ "[push_bit lb x]"]) simp
next
  case (Suc i)
  let ?l = "f ! i"
  let ?hi = "push_bit lb x OR drop_bit (64 - lb) ?l"
  obtain zs z where xs: "xs = zs @ [z]" "length zs = i" using Suc(2) by (metis length_Suc_conv_rev)
  have t: "(pre @ xs @ push_bit lb x # post)[nw + i + 1 := (pre @ xs @ push_bit lb x # post) ! (nw + i + 1) OR drop_bit (64 - lb) ?l,
      nw + i := push_bit lb ?l] = pre @ zs @ push_bit lb ?l # ?hi # post"
    using assms(2) xs by (simp add: list_update_append nth_append)
  obtain ys where ys: "lshift_loop lb nw f i (pre @ zs @ push_bit lb ?l # ?hi # post) = pre @ ys @ ?hi # post"
    "length ys = Suc i" "wval ys = 2 ^ lb * wval (take i f) + 2 ^ (64 * i) * unat (push_bit lb ?l)"
    using Suc(1) [OF xs(2), of ?l "?hi # post"] Suc(3) by auto
  have "wval (ys @ [?hi]) = wval ys + 2 ^ (64 * i) * (2 ^ 64 * unat ?hi)"
    by (simp add: wval_append ys(2) power_add)
  also have "\<dots> = 2 ^ lb * wval (take i f) + 2 ^ (64 * i) * (unat (push_bit lb ?l) + 2 ^ 64 * (unat ?l div 2 ^ (64 - lb)))
      + 2 ^ (64 * i) * (2 ^ 64 * unat (push_bit lb x))"
    unfolding ys(3) unat_push_or_drop [OF assms(1)] by (simp only: distrib_left distrib_right ac_simps)
  also have "\<dots> = 2 ^ lb * (wval (take i f) + 2 ^ (64 * i) * unat ?l) + 2 ^ (64 * Suc i) * unat (push_bit lb x)"
    unfolding push_split [OF assms(1)] base_Suc by (simp only: distrib_left distrib_right ac_simps)
  also have "wval (take i f) + 2 ^ (64 * i) * unat ?l = wval (take (Suc i) f)"
    using Suc(3) by (simp add: take_Suc_conv_app_nth wval_append)
  finally show ?case
    using ys(1,2) t by (intro exI [of _ "ys @ [?hi]"]) (simp add: Let_def)
qed


lemma lshift_words_value:
  assumes "length f + nw < length t" "lb = n mod 64" "nw = n div 64"
  shows "\<exists>ys. put_words 0 (replicate nw 0)
      (if lb = 0 then lshift_move nw f (length f) (t[length f + nw := 0]) else lshift_loop lb nw f (length f) (t[length f + nw := 0]))
      = ys @ drop (length f + nw + 1) t \<and> length ys = length f + nw + 1 \<and> wval ys = 2 ^ n * wval f"
proof -
  define pre where "pre = take nw t"
  define xs where "xs = take (length f) (drop nw t)"
  let ?post = "drop (length f + nw + 1) t"
  have l: "length pre = nw" "length xs = length f" using assms(1) by (simp_all add: pre_def xs_def)
  have "t = pre @ xs @ drop (length f + nw) t"
    unfolding pre_def xs_def by (simp only: append_assoc [symmetric] take_add [symmetric] add.commute [of _ nw] append_take_drop_id)
  also have "drop (length f + nw) t = t ! (length f + nw) # ?post" using assms(1) by (simp add: Cons_nth_drop_Suc)
  finally have "t = (pre @ xs) @ t ! (length f + nw) # ?post" by simp
  moreover have "length f + nw = length (pre @ xs)" using l by simp
  ultimately have "t[length f + nw := 0] = (pre @ xs) @ 0 # ?post" using list_update_length by metis
  then have t: "t[length f + nw := 0] = pre @ xs @ push_bit lb 0 # ?post" by simp
  have n: "64 * nw + lb = n" using assms(2,3) by simp
  show ?thesis
  proof (cases "lb = 0")
    case True
    have "lshift_move nw f (length f) (t[length f + nw := 0]) = pre @ f @ 0 # ?post"
      unfolding t using lshift_move_eq [OF l(1,2), of f "0 # ?post"] by simp
    then show ?thesis using l n True
      by (intro exI [of _ "replicate nw 0 @ f @ [0]"]) (simp add: put_words_def wval_append)
  next
    case False
    have lb: "lb \<le> 64" unfolding assms(2) by (rule less_imp_le [OF mod_less_divisor]) simp
    obtain ys where ys: "lshift_loop lb nw f (length f) (t[length f + nw := 0]) = pre @ ys @ ?post" "length ys = Suc (length f)"
      "wval ys = 2 ^ lb * wval f"
      using lshift_loop_eq [OF lb l(1,2), of f 0 ?post] unfolding t by auto
    have "wval (replicate nw 0 @ ys) = 2 ^ (64 * nw + lb) * wval f" using ys(3) by (simp add: wval_append power_add)
    then show ?thesis using l ys False unfolding n
      by (intro exI [of _ "replicate nw 0 @ ys"]) (simp add: put_words_def)
  qed
qed

lemma bn_ok_set_neg [simp]: "bn_ok (r\<lparr>bn_neg := b\<rparr>) = bn_ok r" "bn_words (r\<lparr>bn_neg := b\<rparr>) = bn_words r"
  by (simp_all add: bn_ok_def bn_words_def)

lemma signed_value: "bn_value r = (if bn_neg r then - 1 else 1) * int (bn_mag r)"
  by (simp add: bn_value_def)

lemma lshift_run:
  assumes "malloc_total ma" "bn_ok a" "bn_ok r" "0 \<le> n" "bn_room r (bn_width a + nat n div 64 + 1)"
  obtains r' where "BN_lshift ma a n r = (Some (), r')" "bn_ok r'" "bn_value r' = 2 ^ nat n * bn_value a"
proof -
  let ?r = "r\<lparr>bn_neg := bn_neg a\<rparr>" and ?nw = "nat n div 64" and ?lb = "nat n mod 64"
  let ?k = "bn_width a + ?nw + 1"
  have "bn_room ?r ?k" using assms(5) by (simp add: bn_room_def)
  then obtain r1 where r1: "bn_wexpand ma ?k ?r = (Some (), r1)" by (rule wexpand_room [OF assms(1)])
  have ok: "bn_ok ?r" using assms(3) by simp
  note e = wexpand [OF ok r1]
  let ?t = "(bn_d r1)[bn_width a + ?nw := 0]"
  let ?u = "if ?lb = 0 then lshift_move ?nw (bn_words a) (bn_width a) ?t else lshift_loop ?lb ?nw (bn_words a) (bn_width a) ?t"
  obtain ys where ys: "put_words 0 (replicate ?nw 0) ?u = ys @ drop ?k (bn_d r1)" "length ys = ?k" "wval ys = 2 ^ nat n * bn_mag a"
    using lshift_words_value [of "bn_words a" ?nw "bn_d r1" ?lb "nat n"] e(2)
    unfolding length_bn_words [OF assms(2)] bn_mag_def by auto
  let ?s = "r1\<lparr>bn_d := put_words 0 (replicate ?nw 0) ?u, bn_width := ?k\<rparr>"
  have s: "bn_ok ?s" "bn_words ?s = ys" "bn_neg ?s = bn_neg a" using ys(1,2) e(2,5) by (simp_all add: bn_ok_def bn_words_def)
  have "BN_lshift ma a n r = (Some (), bn_set_minimal_width ?s)"
    using assms(4) r1 by (simp add: BN_lshift_def Let_def op_bind_def)
  moreover have "bn_value ?s = 2 ^ nat n * bn_value a"
    unfolding signed_value s(3) unfolding bn_mag_def s(2) ys(3) by (simp add: bn_mag_def)
  ultimately show ?thesis using that set_minimal_width [OF s(1)] by simp
qed



lemma lshift1_loop_value:
  "unat c \<le> 1 \<Longrightarrow> lshift1_loop c ts = (rs, c') \<Longrightarrow>
     length rs = length ts \<and> unat c' \<le> 1 \<and> wval rs + 2 ^ (64 * length ts) * unat c' = 2 * wval ts + unat c"
proof (induction ts arbitrary: c rs c')
  case (Cons t ts)
  obtain rs1 where l: "lshift1_loop (drop_bit 63 t) ts = (rs1, c')" "rs = (push_bit 1 t OR c) # rs1"
    using Cons(3) by (auto split: prod.splits)
  have d: "unat (drop_bit 63 t) \<le> 1"
    using unat_less_64 [of t] by (simp add: unat_drop_bit less_mult_imp_div_less [of _ 2, simplified] less_Suc_eq_le [symmetric])
  note IH = Cons(1) [OF d l(1)]
  have c: "c = drop_bit (64 - 1) (push_bit 63 c)"
  proof (rule bit_word_eqI)
    fix n assume "n < LENGTH(64)"
    have "c = 0 \<or> c = 1" using Cons(2) by (metis le_Suc_eq le_zero_eq One_nat_def unat_1 unat_eq_zero word_unat_eq_iff)
    then show "bit c n = bit (drop_bit (64 - 1) (push_bit 63 c)) n" by (auto simp: bit_simps)
  qed
  have "push_bit 1 t AND c = 0" using or_push_drop [of 1 t "push_bit 63 c"] c by simp
  then have step: "unat (push_bit 1 t OR c) + 2 ^ 64 * unat (drop_bit 63 t) = 2 * unat t + unat c"
    using push_split [of 1 t] by (simp add: unat_or_disjoint unat_drop_bit)
  have "wval rs + 2 ^ (64 * length (t # ts)) * unat c' = (unat (push_bit 1 t OR c)) + 2 ^ 64 * (wval rs1 + 2 ^ (64 * length ts) * unat c')"
    unfolding l(2) wval.simps length_Cons base_Suc by (simp only: distrib_left distrib_right ac_simps)
  also have "\<dots> = (unat (push_bit 1 t OR c) + 2 ^ 64 * unat (drop_bit 63 t)) + 2 ^ 64 * (2 * wval ts)"
    using IH by (simp add: distrib_left)
  also have "\<dots> = 2 * wval (t # ts) + unat c" unfolding step wval.simps by (simp only: distrib_left distrib_right ac_simps)
  finally show ?case using IH l(2) by simp
qed auto

lemma lshift1_run:
  assumes "malloc_total ma" "bn_ok a" "bn_ok r" "bn_room r (bn_width a + 1)"
  obtains r' where "BN_lshift1 ma a r = (Some (), r')" "bn_ok r'" "bn_value r' = 2 * bn_value a"
proof -
  let ?r = "r\<lparr>bn_neg := bn_neg a\<rparr>" and ?k = "bn_width a + 1"
  have "bn_room ?r ?k" using assms(4) by (simp add: bn_room_def)
  then obtain r1 where r1: "bn_wexpand ma ?k ?r = (Some (), r1)" by (rule wexpand_room [OF assms(1)])
  have ok: "bn_ok ?r" using assms(3) by simp
  note e = wexpand [OF ok r1]
  obtain rs c where l: "lshift1_loop 0 (bn_words a) = (rs, c)" by fastforce
  have v: "length rs = bn_width a" "unat c \<le> 1" "wval rs + 2 ^ (64 * bn_width a) * unat c = 2 * bn_mag a"
    using lshift1_loop_value [OF _ l] assms(2) by (simp_all add: bn_mag_def)
  let ?u = "r1\<lparr>bn_d := put_words 0 rs (bn_d r1), bn_width := bn_width a\<rparr>"
  let ?s = "if c \<noteq> 0 then ?u\<lparr>bn_d := (bn_d ?u)[bn_width a := 1], bn_width := bn_width a + 1\<rparr> else ?u"
  have run: "BN_lshift1 ma a r = (Some (), ?s)" using r1 by (simp add: BN_lshift1_def op_bind_def l Let_def)
  have u: "bn_ok ?u" "bn_words ?u = rs" using stored [OF v(1), of r1] e(2) by simp_all
  have "bn_ok ?s \<and> bn_mag ?s = 2 * bn_mag a \<and> bn_neg ?s = bn_neg a"
  proof (cases "c = 0")
    case True
    then show ?thesis using u v(3) e(5) by (simp add: bn_mag_def)
  next
    case False
    then have c: "unat c = 1" using v(2) by (simp add: le_Suc_eq unat_eq_0)
    have pd: "length (put_words 0 rs (bn_d r1)) = length (bn_d r1)" "take (bn_width a) (put_words 0 rs (bn_d r1)) = rs"
      using put_words_0 [of rs "bn_d r1"] v(1) e(2) by simp_all
    have "bn_words ?s = rs @ [1]" using False pd e(2) by (simp add: bn_words_def take_Suc_conv_app_nth)
    then show ?thesis using False v(1,3) c e(2,5) pd(1) by (simp add: bn_ok_def bn_mag_def wval_append)
  qed
  then show ?thesis using that [OF run] by (simp add: signed_value)
qed

section \<open>Right shifts\<close>

lemma drop_bit_zero_high: "s \<le> 64 \<Longrightarrow> unat (drop_bit s x OR push_bit (64 - s) y)
   = unat (x :: u64) div 2 ^ s + 2 ^ (64 - s) * (unat y mod 2 ^ s)"
proof -
  assume s: "s \<le> 64"
  have "drop_bit s x OR push_bit (64 - s) y = push_bit (64 - s) y OR drop_bit (64 - (64 - s)) x" using s by (simp add: or.commute)
  moreover have "unat (push_bit (64 - s) y) = 2 ^ (64 - s) * (unat y mod 2 ^ s)"
  proof -
    have p: "(2 :: nat) ^ 64 = 2 ^ (64 - s) * 2 ^ s" using s by (simp add: power_add [symmetric])
    have "unat (push_bit (64 - s) y) = 2 ^ (64 - s) * unat y mod 2 ^ 64"
      by (simp only: unsigned_push_bit_eq) (simp add: take_bit_eq_mod push_bit_eq_mult mult.commute)
    then show ?thesis unfolding p by (simp only: mult_mod_right)
  qed
  ultimately show ?thesis using unat_push_or_drop [of "64 - s" y x] s by simp
qed

fun shr_words :: "nat \<Rightarrow> u64 list \<Rightarrow> u64 list" where
  "shr_words s (x # y # ys) = (drop_bit s x OR push_bit (64 - s) y) # shr_words s (y # ys)"
| "shr_words s [x] = [drop_bit s x]"
| "shr_words s [] = []"

lemma shr_words_map:
  "xs \<noteq> [] \<Longrightarrow> map (\<lambda>i. drop_bit s (xs ! i) OR push_bit (64 - s) (xs ! (i + 1))) [0..<length xs - 1] @ [drop_bit s (xs ! (length xs - 1))] = shr_words s xs"
proof (induction s xs rule: shr_words.induct)
  case (1 s x y ys)
  have "[0..<length (x # y # ys) - 1] = 0 # map Suc [0..<length ys]" by (simp add: upt_conv_Cons map_Suc_upt del: upt_Suc)
  then show ?case using 1 by (simp add: comp_def del: upt_Suc)
qed simp_all

lemma length_shr_words [simp]: "length (shr_words s xs) = length xs"
  by (induction s xs rule: shr_words.induct) simp_all

lemma shr_words_value: "0 < s \<Longrightarrow> s < 64 \<Longrightarrow> wval (shr_words s xs) = wval xs div 2 ^ s"
proof (induction s xs rule: shr_words.induct)
  case (1 s x y ys)
  define W where "W = wval (y # ys)"
  have p: "(2 :: nat) ^ 64 = 2 ^ s * 2 ^ (64 - s)" using 1(3) by (simp add: power_add [symmetric])
  have "W = unat y + 2 ^ s * (2 ^ (64 - s) * wval ys)" unfolding W_def wval.simps p by simp
  then have m: "unat y mod 2 ^ s = W mod 2 ^ s" by simp
  have "wval (shr_words s (x # y # ys)) = unat x div 2 ^ s + 2 ^ (64 - s) * (W mod 2 ^ s) + 2 ^ s * 2 ^ (64 - s) * (W div 2 ^ s)"
    using 1 drop_bit_zero_high [of s x y] unfolding p [symmetric] by (simp add: W_def m)
  also have "\<dots> = unat x div 2 ^ s + 2 ^ (64 - s) * (2 ^ s * (W div 2 ^ s) + W mod 2 ^ s)"
    by (simp only: distrib_left ac_simps)
  also have "\<dots> = (unat x + 2 ^ s * (2 ^ (64 - s) * W)) div 2 ^ s" by simp
  also have "\<dots> = wval (x # y # ys) div 2 ^ s" unfolding wval.simps(2) [of x] W_def [symmetric] p by (simp only: mult.assoc)
  finally show ?case .
qed (simp_all add: unat_drop_bit)

lemma rshift_words_value:
  "length (bn_rshift_words a n) = length a \<and> wval (bn_rshift_words a n) = wval a div 2 ^ n"
proof (cases "length a \<le> n div 64")
  case True
  have "wval a < 2 ^ (64 * length a)" by (rule wval_less)
  also have "\<dots> \<le> 2 ^ n" using True by (intro power_increasing) linarith+
  finally show ?thesis using True by (simp add: bn_rshift_words_def Let_def)
next
  case False
  let ?w = "n div 64" and ?s = "n mod 64"
  let ?b = "drop ?w a"
  have n: "n = 64 * ?w + ?s" by simp
  have "wval a = wval (take ?w a) + 2 ^ (64 * ?w) * wval ?b" "wval (take ?w a) < 2 ^ (64 * ?w)"
    using wval_take_drop [of a ?w] wval_less [of "take ?w a"] False by simp_all
  then have d: "wval a div 2 ^ (64 * ?w) = wval ?b" by simp
  have dn: "wval a div 2 ^ n = wval ?b div 2 ^ ?s"
    using d by (subst n) (simp only: power_add div_mult2_eq)
  show ?thesis
  proof (cases "?s = 0")
    case True
    then show ?thesis using False dn by (simp add: bn_rshift_words_def Let_def wval_append)
  next
    case s: False
    have ne: "?b \<noteq> []" using False by simp
    have u: "[?w..<length a - 1] = map (\<lambda>i. i + ?w) [0..<length ?b - 1]"
      using False by (simp add: map_add_upt)
    have "bn_rshift_words a n = shr_words ?s ?b @ replicate ?w 0"
      unfolding shr_words_map [OF ne, symmetric] bn_rshift_words_def Let_def u
      using False s by (simp add: add.commute del: upt_Suc)
    moreover have "?s < 64" by simp
    ultimately show ?thesis using shr_words_value [of ?s ?b] s False dn by (simp add: wval_append)
  qed
qed


lemma rshift1_words_value: "length (bn_rshift1_words a) = length a \<and> wval (bn_rshift1_words a) = wval a div 2"
proof (cases "a = []")
  case False
  then have "bn_rshift1_words a = shr_words 1 a"
    using shr_words_map [OF False, of 1] by (simp add: bn_rshift1_words_def Let_def del: upt_Suc)
  then show ?thesis using shr_words_value [of 1 a] by simp
qed (simp add: bn_rshift1_words_def)

lemma stored_signed:
  assumes "bn_d s = put_words 0 ws d" "bn_width s = n" "length ws = n" "n \<le> length d" "wval ws = m"
  shows "bn_ok (bn_set_minimal_width s) \<and> bn_value (bn_set_minimal_width s) = (if bn_neg s then - int m else int m)"
proof -
  have "bn_ok s" "bn_words s = ws" using put_words_0 [of ws d] assms by (simp_all add: bn_ok_def bn_words_def)
  then show ?thesis using set_minimal_width [of s] assms(5) by (simp add: bn_value_def bn_mag_def)
qed

text \<open>The quotient by a power of two, rounded towards zero.\<close>

definition shifted :: "bignum \<Rightarrow> nat \<Rightarrow> int" where
  "shifted a n = (if bn_neg a then - int (bn_mag a div 2 ^ n) else int (bn_mag a div 2 ^ n))"

lemma rshift_value:
  assumes "bn_ok a" "bn_ok r" "BN_rshift ma a n r = (Some u, r')"
  shows "bn_ok r' \<and> bn_value r' = shifted a (nat n)"
proof -
  obtain r1 where r1: "bn_wexpand ma (bn_width a) r = (Some (), r1)"
    and r': "r' = bn_set_minimal_width (r1\<lparr>bn_d := put_words 0 (bn_rshift_words (bn_words a) (nat n)) (bn_d r1),
        bn_neg := bn_neg a, bn_width := bn_width a\<rparr>)"
    using assms(3) by (auto simp: BN_rshift_def op_bind_eq_Some op_fail_def split: if_splits)
  note e = wexpand [OF assms(2) r1]
  have v: "length (bn_rshift_words (bn_words a) (nat n)) = bn_width a" "wval (bn_rshift_words (bn_words a) (nat n)) = bn_mag a div 2 ^ nat n"
    using rshift_words_value [of "bn_words a" "nat n"] assms(1) by (simp_all add: bn_mag_def)
  show ?thesis using stored_signed [OF _ _ v(1) e(2) v(2)] unfolding r' by (simp add: shifted_def)
qed

lemma rshift_run:
  assumes "malloc_total ma" "bn_ok a" "bn_ok r" "0 \<le> n" "bn_room r (bn_width a)"
  obtains r' where "BN_rshift ma a n r = (Some (), r')" "bn_ok r'" "bn_value r' = shifted a (nat n)"
proof -
  obtain r1 where "bn_wexpand ma (bn_width a) r = (Some (), r1)" by (rule wexpand_room [OF assms(1,5)])
  then obtain r' where "BN_rshift ma a n r = (Some (), r')" using assms(4) by (auto simp: BN_rshift_def op_bind_def)
  then show ?thesis using that rshift_value [OF assms(2,3)] by blast
qed

lemma rshift1_run:
  assumes "malloc_total ma" "bn_ok a" "bn_ok r" "bn_room r (bn_width a)"
  obtains r' where "BN_rshift1 ma a r = (Some (), r')" "bn_ok r'" "bn_value r' = shifted a 1"
proof -
  obtain r1 where r1: "bn_wexpand ma (bn_width a) r = (Some (), r1)" by (rule wexpand_room [OF assms(1,4)])
  note e = wexpand [OF assms(3) r1]
  have v: "length (bn_rshift1_words (bn_words a)) = bn_width a" "wval (bn_rshift1_words (bn_words a)) = bn_mag a div 2 ^ 1"
    using rshift1_words_value [of "bn_words a"] assms(2) by (simp_all add: bn_mag_def)
  let ?s = "r1\<lparr>bn_d := put_words 0 (bn_rshift1_words (bn_words a)) (bn_d r1), bn_width := bn_width a, bn_neg := bn_neg a\<rparr>"
  have "BN_rshift1 ma a r = (Some (), bn_set_minimal_width ?s)" using r1 by (simp add: BN_rshift1_def op_bind_def)
  then show ?thesis using that stored_signed [OF _ _ v(1) e(2) v(2), of ?s] by (simp add: shifted_def)
qed

section \<open>The shift by a secret amount\<close>

lemma select_words_mask: "length a = length b \<Longrightarrow> bn_select_words (if c then - 1 else 0) a b = (if c then a else b)"
  by (induction a b rule: list_induct2) (auto simp: bn_select_words_def select_w_mask)

lemma div_power_shift: "(m :: nat) div 2 ^ a div 2 ^ b = m div 2 ^ (a + b)"
  by (simp add: power_add div_mult2_eq)



lemma secret_mask: "(0 :: u64) - ucast (drop_bit i n AND 1 :: u32) = (if bit n i then - 1 else 0)"
  by (simp add: bit_iff_odd_drop_bit and_one_eq mod_2_eq_odd)

text \<open>The number of bits of \<open>max_bits\<close>, which bounds the powers that the loop tries.\<close>

definition bits_of :: "nat \<Rightarrow> nat \<Rightarrow> bool" where
  "bits_of m k \<longleftrightarrow> m < 2 ^ k \<and> (\<forall>j. m < 2 ^ j \<longrightarrow> k \<le> j)"

lemma secret_shift_loop_value:
  "bits_of max_bits k \<Longrightarrow> i \<le> k \<Longrightarrow> length (secret_shift_loop max_bits n i r) = length r
    \<and> wval (secret_shift_loop max_bits n i r) = wval r div 2 ^ (unat n mod 2 ^ k div 2 ^ i * 2 ^ i)"
proof (induction max_bits n i r rule: secret_shift_loop.induct)
  case (1 max_bits n i r)
  let ?q = "unat n mod 2 ^ k div 2 ^ i"
  show ?case
  proof (cases "max_bits div 2 ^ i = 0")
    case True
    then have "max_bits < 2 ^ i" by (simp add: div_eq_0_iff)
    then have "i = k" using 1(2,3) by (simp add: bits_of_def le_antisym)
    then show ?thesis using True by (simp add: secret_shift_loop.simps [of max_bits])
  next
    case False
    have "i < k"
    proof (rule ccontr)
      assume "\<not> i < k"
      then have "(2 :: nat) ^ k \<le> 2 ^ i" by (intro power_increasing) simp_all
      then have "max_bits < 2 ^ i" using 1(2) unfolding bits_of_def by linarith
      then show False using False by simp
    qed
    let ?r = "if bit n i then bn_rshift_words r (2 ^ i) else r"
    have sel: "bn_select_words (0 - ucast (drop_bit i n AND 1)) (bn_rshift_words r (2 ^ i)) r = ?r"
      unfolding secret_mask using rshift_words_value [of r "2 ^ i"] by (intro select_words_mask) simp
    then have run: "secret_shift_loop max_bits n i r = secret_shift_loop max_bits n (i + 1) ?r"
      using False by (subst secret_shift_loop.simps) (simp only: Let_def if_False)
    have "2 ^ k = 2 ^ i * (2 * 2 ^ (k - Suc i) :: nat)"
      using \<open>i < k\<close> by (simp add: power_add [symmetric] power_Suc [symmetric] del: power_Suc)
    then have "?q = unat n div 2 ^ i mod (2 * 2 ^ (k - Suc i))" by (simp add: mod_mult2_eq)
    then have "odd ?q \<longleftrightarrow> odd (unat n div 2 ^ i)" by (simp add: dvd_mod_iff)
    moreover have "bit (unat n) i = bit n i" by (simp add: bit_unsigned_iff)
    ultimately have odd: "odd ?q \<longleftrightarrow> bit n i" by (simp add: bit_iff_odd [of "unat n"])
    have IH: "length (secret_shift_loop max_bits n (i + 1) ?r) = length ?r
      \<and> wval (secret_shift_loop max_bits n (i + 1) ?r) = wval ?r div 2 ^ (unat n mod 2 ^ k div 2 ^ (i + 1) * 2 ^ (i + 1))"
      using 1(1) [OF False refl refl 1(2)] \<open>i < k\<close> unfolding sel by simp
    have "?q * 2 ^ i = ?q mod 2 * 2 ^ i + ?q div 2 * 2 * 2 ^ i" by (simp add: distrib_right [symmetric])
    also have "?q div 2 * 2 * 2 ^ i = unat n mod 2 ^ k div 2 ^ (i + 1) * 2 ^ (i + 1)"
      by (simp add: div_mult2_eq [symmetric] mult.commute mult.left_commute)
    also have "?q mod 2 * 2 ^ i = (if bit n i then 2 ^ i else 0)" using odd by (simp add: mod_2_eq_odd)
    finally show ?thesis using IH rshift_words_value [of r "2 ^ i"] unfolding run by (auto simp: div_power_shift)
  qed
qed


text \<open>A successful shift by a secret amount, whatever the pool.\<close>

lemma copy_value:
  assumes "bn_ok src" "bn_ok r" "BN_copy ma src r = (Some u, r')"
  shows "bn_ok r' \<and> bn_words r' = bn_words src \<and> bn_width r' = bn_width src \<and> bn_neg r' = bn_neg src"
proof -
  obtain r1 where r1: "bn_wexpand ma (bn_width src) r = (Some (), r1)"
    and r': "r' = r1\<lparr>bn_d := put_words 0 (bn_words src) (bn_d r1), bn_width := bn_width src\<rparr>\<lparr>bn_neg := bn_neg src\<rparr>"
    using assms(3) by (auto simp: BN_copy_def op_bind_eq_Some bn_words_def)
  have "bn_width src \<le> length (bn_d r1)" using wexpand [OF assms(2) r1] by simp
  then show ?thesis using stored [of "bn_words src" "bn_width src" r1] assms(1) r' by simp
qed

lemma secret_shift_value:
  assumes "bn_ok a" "bn_ok r" "bits_of (64 * bn_width a) k" "bn_rshift_secret_shift ma a n (r, ctx) = (Some u, r', ctx')"
  shows "bn_ok r' \<and> bn_value r' = shifted a (unat n mod 2 ^ k)"
proof -
  obtain tmp ctx1 ctx2 r1 where c: "BN_copy ma a r = (Some (), r1)"
    and r': "r' = r1\<lparr>bn_d := put_words 0 (secret_shift_loop (64 * bn_width r1) n 0 (bn_words r1)) (bn_d r1)\<rparr>"
    using assms(4) by (auto simp: bn_rshift_secret_shift_def Let_def split: option.splits prod.splits)
  note v = copy_value [OF assms(1,2) c]
  let ?ws = "secret_shift_loop (64 * bn_width a) n 0 (bn_words a)"
  have l: "length ?ws = bn_width a" "wval ?ws = bn_mag a div 2 ^ (unat n mod 2 ^ k)"
    using secret_shift_loop_value [OF assms(3), of 0 n "bn_words a"] assms(1) by (simp_all add: bn_mag_def)
  have "bn_ok r' \<and> bn_words r' = ?ws \<and> bn_neg r' = bn_neg a"
    using put_all [of r1 ?ws] v l(1) r' by simp
  then show ?thesis using l(2) by (simp add: bn_value_def bn_mag_def shifted_def)
qed

section \<open>Bits of the number\<close>

lemma bit_low_high:
  assumes "x < 2 ^ 64"
  shows "bit (x + 2 ^ 64 * y :: nat) n = (if n < 64 then bit x n else bit y (n - 64))"
proof (cases "n < 64")
  case True
  have "(2 :: nat) ^ 64 = 2 ^ n * (2 * 2 ^ (63 - n))" using True by (simp add: power_add [symmetric] power_Suc [symmetric] del: power_Suc)
  then obtain c where c: "2 ^ 64 * y = 2 ^ n * (2 * c)" by (metis mult.assoc)
  have "(x + 2 ^ 64 * y) div 2 ^ n = x div 2 ^ n + 2 * c" unfolding c by simp
  then show ?thesis using True by (simp only: bit_iff_odd if_True) simp
next
  case False
  then have "(2 :: nat) ^ n = 2 ^ 64 * 2 ^ (n - 64)" by (simp only: power_add [symmetric]) simp
  moreover have "(x + 2 ^ 64 * y) div 2 ^ 64 = y" using assms by simp
  ultimately have "(x + 2 ^ 64 * y) div 2 ^ n = y div 2 ^ (n - 64)" by (simp only: div_mult2_eq)
  then show ?thesis using False by (simp only: bit_iff_odd if_False)
qed

lemma bit_wval: "bit (wval ws) n \<longleftrightarrow> n div 64 < length ws \<and> bit (ws ! (n div 64)) (n mod 64)"
proof (induction ws arbitrary: n)
  case (Cons w ws)
  have b: "bit (wval (w # ws)) n = (if n < 64 then bit (unat w) n else bit (wval ws) (n - 64))"
    unfolding wval.simps by (rule bit_low_high [OF unat_less_64])
  show ?case
  proof (cases "n < 64")
    case True
    then show ?thesis unfolding b by (simp add: bit_unsigned_iff)
  next
    case False
    then have "n div 64 = Suc ((n - 64) div 64)" "n mod 64 = (n - 64) mod 64" by (simp_all add: le_div_geq le_mod_geq)
    then show ?thesis unfolding b using False Cons by simp
  qed
qed simp

lemma bit_mag: "bn_ok a \<Longrightarrow> bit (bn_mag a) n \<longleftrightarrow> n div 64 < bn_width a \<and> bit (bn_d a ! (n div 64)) (n mod 64)"
  by (auto simp: bn_mag_def bit_wval bn_words_def bn_ok_def)

lemma is_bit_set_value: "bn_ok a \<Longrightarrow> BN_is_bit_set a n \<longleftrightarrow> 0 \<le> n \<and> bit (bn_mag a) (nat n)"
  by (auto simp: BN_is_bit_set_def bn_is_bit_set_words_def Let_def bn_mag_def bit_wval bit_iff_odd_drop_bit [of _ "_ mod _"] odd_iff_mod_2_eq_one and_one_eq)

lemma word_index: "n div 64 = m div 64 \<and> n mod 64 = m mod 64 \<longleftrightarrow> n = (m :: nat)"
  by (metis div_mult_mod_eq)

lemma mod_64_less: "(n :: nat) mod 64 < 64"
  by simp

lemma div_mod_less: "m < n \<longleftrightarrow> m div 64 < n div 64 \<or> m div 64 = n div 64 \<and> m mod 64 < (n mod 64 :: nat)"
proof -
  have *: "64 * a + b < 64 * c + d \<longleftrightarrow> a < c \<or> a = c \<and> b < d" if "b < 64" "d < 64" for a b c d :: nat
    using that by (cases a c rule: linorder_cases) auto
  show ?thesis using * [OF mod_64_less mod_64_less, of "m div 64" m "n div 64" n] by simp
qed

lemma set_bit_value:
  assumes "bn_ok a" "0 \<le> n" "BN_set_bit ma n a = (Some u, a')"
  shows "bn_ok a' \<and> bn_mag a' = set_bit (nat n) (bn_mag a) \<and> bn_neg a' = bn_neg a"
proof -
  let ?i = "nat n div 64" and ?j = "nat n mod 64"
  obtain b where b: "bn_ok b" "bn_mag b = bn_mag a" "bn_neg b = bn_neg a" "?i < bn_width b"
    and a': "a' = b\<lparr>bn_d := (bn_d b)[?i := bn_d b ! ?i OR push_bit ?j 1]\<rparr>"
  proof (cases "bn_width a \<le> ?i")
    case True
    obtain a1 where a1: "bn_wexpand ma (?i + 1) a = (Some (), a1)"
      and r: "a' = (let b = a1\<lparr>bn_d := put_words (bn_width a1) (replicate (?i + 1 - bn_width a1) 0) (bn_d a1), bn_width := ?i + 1\<rparr>
          in b\<lparr>bn_d := (bn_d b)[?i := bn_d b ! ?i OR push_bit ?j 1]\<rparr>)"
      using assms(2,3) True by (auto simp: BN_set_bit_def op_bind_eq_Some Let_def)
    note e = wexpand [OF assms(1) a1]
    let ?b = "a1\<lparr>bn_d := put_words (bn_width a1) (replicate (?i + 1 - bn_width a1) 0) (bn_d a1), bn_width := ?i + 1\<rparr>"
    have len: "length (put_words (bn_width a1) (replicate (?i + 1 - bn_width a1) 0) (bn_d a1)) = length (bn_d a1)"
      using e(1,2) by (simp add: put_words_def bn_ok_def)
    have "bn_words ?b = bn_words a1 @ replicate (?i + 1 - bn_width a1) 0"
      using e(1,2) by (simp add: bn_words_def put_words_def bn_ok_def e(4) min_absorb2 [OF le_SucI [OF True]])
    then have "bn_mag ?b = bn_mag a" using e(3) by (simp add: bn_mag_def wval_append)
    moreover have "bn_ok ?b" using len e(2) by (simp add: bn_ok_def)
    ultimately show ?thesis using that [of ?b] r e(5) by (simp add: Let_def)
  next
    case False
    then have "a' = a\<lparr>bn_d := (bn_d a)[?i := bn_d a ! ?i OR push_bit ?j 1]\<rparr>"
      using assms(2,3) by (simp add: BN_set_bit_def op_bind_def op_return_def Let_def)
    then show ?thesis using that [of a] assms(1) False by simp
  qed
  have len: "?i < length (bn_d b)" using b(1,4) by (simp add: bn_ok_def)
  have ok: "bn_ok a'" using b(1) by (simp add: a' bn_ok_def)
  have "bn_mag a' = set_bit (nat n) (bn_mag b)"
  proof (rule bit_eqI)
    fix m
    show "bit (bn_mag a') m = bit (set_bit (nat n) (bn_mag b)) m"
      using len b(4) word_index [of m "nat n"] mod_64_less [of m]
      unfolding bit_mag [OF ok] bit_set_bit_iff bit_mag [OF b(1)] unfolding a' by (auto simp: nth_list_update bit_simps)
  qed
  then show ?thesis using ok b(2,3) by (simp add: a')
qed

lemma clear_bit_value:
  assumes "bn_ok a" "0 \<le> n"
  shows "case BN_clear_bit n a of
      (None, a') \<Rightarrow> a' = a \<and> \<not> bit (bn_mag a) (nat n)
    | (Some _, a') \<Rightarrow> bn_ok a' \<and> bn_mag a' = unset_bit (nat n) (bn_mag a)"
proof (cases "bn_width a \<le> nat n div 64")
  case True
  then show ?thesis using assms by (simp add: BN_clear_bit_def Let_def bit_mag)
next
  case False
  let ?i = "nat n div 64" and ?j = "nat n mod 64"
  let ?b = "a\<lparr>bn_d := (bn_d a)[?i := bn_d a ! ?i AND NOT (push_bit ?j 1)]\<rparr>"
  have len: "?i < length (bn_d a)" using False assms(1) by (simp add: bn_ok_def)
  have ok: "bn_ok ?b" using assms(1) by (simp add: bn_ok_def)
  have "bn_mag ?b = unset_bit (nat n) (bn_mag a)"
  proof (rule bit_eqI)
    fix m
    show "bit (bn_mag ?b) m = bit (unset_bit (nat n) (bn_mag a)) m"
      using len False word_index [of m "nat n"] mod_64_less [of m]
      unfolding bit_mag [OF ok] bit_unset_bit_iff bit_mag [OF assms(1)] by (auto simp: nth_list_update bit_simps)
  qed
  then show ?thesis using assms(2) False set_minimal_width [OF ok] by (simp add: BN_clear_bit_def Let_def)
qed

lemma mask_bits_value:
  assumes "bn_ok a" "0 \<le> n"
  shows "\<exists>a'. BN_mask_bits n a = (Some (), a') \<and> bn_ok a' \<and> bn_mag a' = bn_mag a mod 2 ^ nat n"
proof (cases "bn_width a \<le> nat n div 64")
  case True
  have "bn_mag a < 2 ^ (64 * bn_width a)" using wval_less [of "bn_words a"] assms(1) by (simp add: bn_mag_def)
  also have "\<dots> \<le> 2 ^ nat n" using True by (intro power_increasing) linarith+
  finally show ?thesis using True assms by (simp add: BN_mask_bits_def Let_def)
next
  case False
  let ?w = "nat n div 64" and ?b = "nat n mod 64"
  let ?a = "if ?b = 0 then a\<lparr>bn_width := ?w\<rparr> else a\<lparr>bn_width := ?w + 1, bn_d := (bn_d a)[?w := bn_d a ! ?w AND NOT (push_bit ?b (- 1))]\<rparr>"
  have len: "?w < length (bn_d a)" using False assms(1) by (simp add: bn_ok_def)
  have ok: "bn_ok ?a" using len by (simp add: bn_ok_def)
  have "bn_mag ?a = take_bit (nat n) (bn_mag a)"
  proof (rule bit_eqI)
    fix m
    show "bit (bn_mag ?a) m = bit (take_bit (nat n) (bn_mag a)) m"
      unfolding bit_mag [OF ok] bit_take_bit_iff bit_mag [OF assms(1)] div_mod_less [of m]
      using len False mod_64_less [of m] by (auto simp: nth_list_update bit_simps)
  qed
  then show ?thesis using assms(2) False set_minimal_width [OF ok] by (simp add: BN_mask_bits_def Let_def take_bit_eq_mod)
qed

section \<open>Trailing zero bits\<close>

definition low_found :: "u64 \<Rightarrow> nat \<Rightarrow> u64 \<times> nat \<Rightarrow> bool" where
  "low_found w m = (\<lambda>(l, bits). unat w = 2 ^ bits * unat l \<and> \<not> 2 ^ m dvd unat l)"

lemma push_zero_iff: "k \<le> 64 \<Longrightarrow> push_bit (64 - k) (l :: u64) = 0 \<longleftrightarrow> 2 ^ k dvd unat l"
proof -
  assume k: "k \<le> 64"
  have p: "(2 :: nat) ^ 64 = 2 ^ (64 - k) * 2 ^ k" using k by (simp only: power_add [symmetric]) simp
  have "unat (push_bit (64 - k) l) = 2 ^ (64 - k) * unat l mod 2 ^ 64"
    by (simp only: unsigned_push_bit_eq) (simp add: take_bit_eq_mod push_bit_eq_mult mult.commute)
  then have "unat (push_bit (64 - k) l) = 2 ^ (64 - k) * (unat l mod 2 ^ k)" unfolding p by (simp only: mult_mod_right)
  then have "unat (push_bit (64 - k) l) = 0 \<longleftrightarrow> unat l mod 2 ^ k = 0" by simp
  then show ?thesis by (simp add: unat_eq_0 dvd_eq_mod_eq_0)
qed

lemma low_zero_step:
  assumes "low_found w (2 * k) s" "k \<le> 32"
  shows "low_found w k (low_zero_step k s)"
proof -
  obtain l bits where s: "s = (l, bits)" by (cases s)
  have k: "unat (of_nat k :: u64) = k" using assms(2) by (simp add: unat_of_nat)
  have v: "unat w = 2 ^ bits * unat l" "\<not> 2 ^ (2 * k) dvd unat l" using assms(1) by (simp_all add: s low_found_def)
  show ?thesis
  proof (cases "2 ^ k dvd unat l")
    case True
    then obtain q where q: "unat l = 2 ^ k * q" by blast
    have "\<not> 2 ^ k dvd q" using v(2) unfolding q mult_2 power_add by simp
    then show ?thesis
      using True push_zero_iff [of k l] assms(2) v(1) q k
      by (simp add: s low_found_def low_zero_step_def Let_def is_zero_w_mask select_w_mask unat_drop_bit power_add)
  next
    case False
    then show ?thesis
      using push_zero_iff [of k l] assms(2) v(1) by (simp add: s low_found_def low_zero_step_def Let_def is_zero_w_mask select_w_mask)
  qed
qed

lemma count_word_value:
  assumes "w \<noteq> 0"
  shows "\<exists>q. unat w = 2 ^ bn_count_low_zero_bits_word w * q \<and> odd q"
proof -
  have "0 < unat w" using assms by (simp add: unat_eq_0 neq0_conv [symmetric] del: neq0_conv)
  then have "low_found w (2 * 32) (w, 0)" using unat_less_64 [of w] by (auto simp: low_found_def dest: dvd_imp_le)
  then have "low_found w (2 * 16) (low_zero_step 32 (w, 0))" using low_zero_step [of w 32] by simp
  then have "low_found w (2 * 8) (low_zero_step 16 (low_zero_step 32 (w, 0)))" using low_zero_step [of w 16] by simp
  then have "low_found w (2 * 4) (low_zero_step 8 (low_zero_step 16 (low_zero_step 32 (w, 0))))" using low_zero_step [of w 8] by simp
  then have "low_found w (2 * 2) (low_zero_step 4 (low_zero_step 8 (low_zero_step 16 (low_zero_step 32 (w, 0)))))"
    using low_zero_step [of w 4] by simp
  then have "low_found w (2 * 1) (low_zero_step 2 (low_zero_step 4 (low_zero_step 8 (low_zero_step 16 (low_zero_step 32 (w, 0))))))"
    using low_zero_step [of w 2] by simp
  then have "low_found w 1 (fold low_zero_step [32, 16, 8, 4, 2, 1] (w, 0))" using low_zero_step [of w 1] by simp
  then show ?thesis unfolding bn_count_low_zero_bits_word_def low_found_def by (auto split: prod.splits)
qed

lemma count_word_less: "w \<noteq> 0 \<Longrightarrow> bn_count_low_zero_bits_word w < 64"
proof (rule ccontr)
  assume "w \<noteq> 0" and n: "\<not> bn_count_low_zero_bits_word w < 64"
  then obtain q where q: "unat w = 2 ^ bn_count_low_zero_bits_word w * q" "odd q" using count_word_value by blast
  have "(2 :: nat) ^ 64 * 1 \<le> 2 ^ bn_count_low_zero_bits_word w * q"
    using n q(2) by (intro mult_le_mono power_increasing) (auto simp: Suc_le_eq odd_pos)
  then show False using q(1) unat_less_64 [of w] by linarith
qed

lemma low_zero_loop_done: "low_zero_loop i ds (- 1) ret = ret"
  by (induction ds arbitrary: i) (simp_all add: Let_def)

lemma low_zero_loop_value:
  "64 * (i + length ds) < 2 ^ 64 \<Longrightarrow>
    (if wval ds = 0 then low_zero_loop i ds 0 0 = 0
     else \<exists>k q. unat (low_zero_loop i ds 0 0) = 64 * i + k \<and> wval ds = 2 ^ k * q \<and> odd q)"
proof (induction ds arbitrary: i)
  case (Cons d ds)
  show ?case
  proof (cases "d = 0")
    case True
    have s: "low_zero_loop i (d # ds) 0 0 = low_zero_loop (i + 1) ds 0 0" using True by (simp add: Let_def is_zero_w_mask)
    have IH: "if wval ds = 0 then low_zero_loop (i + 1) ds 0 0 = 0
        else \<exists>k q. unat (low_zero_loop (i + 1) ds 0 0) = 64 * (i + 1) + k \<and> wval ds = 2 ^ k * q \<and> odd q"
      by (rule Cons(1)) (use Cons(2) in simp)
    show ?thesis
    proof (cases "wval ds = 0")
      case False
      then obtain k q where "unat (low_zero_loop (i + 1) ds 0 0) = 64 * (i + 1) + k" "wval ds = 2 ^ k * q" "odd q" using IH by auto
      then have "unat (low_zero_loop i (d # ds) 0 0) = 64 * i + (64 + k)" "wval (d # ds) = 2 ^ (64 + k) * q" "odd q"
        unfolding s wval.simps by (simp_all add: True power_add)
      then show ?thesis using False by (metis add_is_0 mult_eq_0_iff power_not_zero wval.simps(2) zero_neq_numeral)
    qed (use IH s True in simp)
  next
    case False
    let ?b = "bn_count_low_zero_bits_word d"
    obtain q where q: "unat d = 2 ^ ?b * q" "odd q" using count_word_value [OF False] by blast
    note b = count_word_less [OF False]
    have s: "low_zero_loop i (d # ds) 0 0 = of_nat (i * 64 + ?b)" using False by (simp add: Let_def is_zero_w_mask low_zero_loop_done)
    have "i * 64 + ?b < 2 ^ 64" using Cons(2) b by simp
    then have u: "unat (low_zero_loop i (d # ds) 0 0) = 64 * i + ?b" unfolding s by (simp only: unat_of_nat) (simp add: mult.commute)
    have "(2 :: nat) ^ 64 = 2 ^ ?b * (2 * 2 ^ (63 - ?b))"
      using b by (simp only: power_add [symmetric] power_Suc [symmetric]) simp
    then have "wval (d # ds) = 2 ^ ?b * (q + 2 * (2 ^ (63 - ?b) * wval ds))" unfolding wval.simps q(1) by (simp only: distrib_left ac_simps)
    moreover have "odd (q + 2 * (2 ^ (63 - ?b) * wval ds))" using q(2) by simp
    moreover have "wval (d # ds) \<noteq> 0" using False by (simp add: unat_eq_0)
    ultimately show ?thesis using u by auto
  qed
qed simp

section \<open>Properties\<close>

text \<open>
  C23: The shifts are exact for every sign, width and distance: left shifts multiply by the power of two, right shifts
  divide rounding towards zero, and the result always fits.
\<close>

theorem bn_shift_exact:
  assumes "malloc_total ma" "bn_ok a" "bn_ok r" "0 \<le> n" "bn_room r (bn_width a + nat n div 64 + 1)"
  shows "(\<exists>r'. BN_lshift ma a n r = (Some (), r') \<and> bn_ok r' \<and> bn_value r' = 2 ^ nat n * bn_value a)
    \<and> (\<exists>r'. BN_rshift ma a n r = (Some (), r') \<and> bn_ok r' \<and> bn_value r' = shifted a (nat n))
    \<and> (\<exists>r'. BN_lshift1 ma a r = (Some (), r') \<and> bn_ok r' \<and> bn_value r' = 2 * bn_value a)
    \<and> (\<exists>r'. BN_rshift1 ma a r = (Some (), r') \<and> bn_ok r' \<and> bn_value r' = shifted a 1)"
proof -
  have "bn_room r (bn_width a + 1)" "bn_room r (bn_width a)" by (rule bn_room_mono [OF assms(5)], simp)+
  note room = this
  show ?thesis
  proof (intro conjI)
    show "\<exists>r'. BN_lshift ma a n r = (Some (), r') \<and> bn_ok r' \<and> bn_value r' = 2 ^ nat n * bn_value a"
      by (rule lshift_run [OF assms]) blast
    show "\<exists>r'. BN_rshift ma a n r = (Some (), r') \<and> bn_ok r' \<and> bn_value r' = shifted a (nat n)"
      by (rule rshift_run [OF assms(1,2,3,4) room(2)]) blast
    show "\<exists>r'. BN_lshift1 ma a r = (Some (), r') \<and> bn_ok r' \<and> bn_value r' = 2 * bn_value a"
      by (rule lshift1_run [OF assms(1,2,3) room(1)]) blast
    show "\<exists>r'. BN_rshift1 ma a r = (Some (), r') \<and> bn_ok r' \<and> bn_value r' = shifted a 1"
      by (rule rshift1_run [OF assms(1,2,3) room(2)]) blast
  qed
qed

text \<open>
  \<open>bn_rshift_secret_shift\<close> is the same shift as \<open>BN_rshift\<close> up to the distance whose bits its loop covers: the
  distance is reduced modulo the power of two above the bit width of the number.
\<close>

theorem bn_secret_shift_reduces:
  assumes "bn_ok a" "bn_ok r" "bits_of (64 * bn_width a) k" "bn_rshift_secret_shift ma a n (r, ctx) = (Some u, r', ctx')"
    "BN_rshift ma a (int (unat n)) s = (Some v, s')" "bn_ok s"
  shows "bn_value r' = shifted a (unat n mod 2 ^ k) \<and> bn_value s' = shifted a (unat n) \<and> (unat n < 2 ^ k \<longrightarrow> bn_value r' = bn_value s')"
  using secret_shift_value [OF assms(1,2,3,4)] rshift_value [OF assms(1,6,5)] by simp


text \<open>
  The bit operations act on the binary representation of the magnitude: \<open>BN_is_bit_set\<close> reads the bit,
  \<open>BN_set_bit\<close> and \<open>BN_clear_bit\<close> change it and no other, \<open>BN_mask_bits\<close> keeps the low bits, and
  \<open>BN_count_low_zero_bits\<close>, computed without branches, is the exponent of two in the number.
\<close>

theorem bn_bits_exact:
  assumes "bn_ok a" "0 \<le> n" "64 * bn_width a < 2 ^ 64"
  shows "BN_is_bit_set a n = bit (bn_mag a) (nat n)
    \<and> (\<forall>u a'. BN_set_bit ma n a = (Some u, a') \<longrightarrow> bn_ok a' \<and> bn_mag a' = set_bit (nat n) (bn_mag a))
    \<and> (case BN_clear_bit n a of
         (None, a') \<Rightarrow> a' = a \<and> \<not> bit (bn_mag a) (nat n)
       | (Some _, a') \<Rightarrow> bn_ok a' \<and> bn_mag a' = unset_bit (nat n) (bn_mag a))
    \<and> (\<exists>a'. BN_mask_bits n a = (Some (), a') \<and> bn_ok a' \<and> bn_mag a' = bn_mag a mod 2 ^ nat n)
    \<and> (bn_mag a \<noteq> 0 \<longrightarrow> (\<exists>q. bn_mag a = 2 ^ BN_count_low_zero_bits a * q \<and> odd q))"
proof -
  have "bn_mag a \<noteq> 0 \<longrightarrow> (\<exists>q. bn_mag a = 2 ^ BN_count_low_zero_bits a * q \<and> odd q)"
    using low_zero_loop_value [of 0 "bn_words a"] assms(1,3) by (auto simp: bn_mag_def BN_count_low_zero_bits_def)
  then show ?thesis
    using is_bit_set_value [OF assms(1), of n] set_bit_value [OF assms(1,2)] clear_bit_value [OF assms(1,2)]
      mask_bits_value [OF assms(1,2)] assms(2) by auto
qed

theorem bn_bits_exact_witness:
  "BN_is_bit_set \<lparr>bn_d = [0, 4], bn_width = 2, bn_neg = False, bn_static = False\<rparr> 66"
proof -
  let ?a = "\<lparr>bn_d = [0, 4], bn_width = 2, bn_neg = False, bn_static = False\<rparr>"
  have ok: "bn_ok ?a" "(0 :: int) \<le> 66" "64 * bn_width ?a < 2 ^ 64" by (simp_all add: bn_ok_def)
  have "bit (bn_mag ?a) (nat 66)" unfolding bit_mag [OF ok(1)] by simp
  then show ?thesis using bn_bits_exact [OF ok, of zero_malloc] by simp
qed

theorem bn_shift_exact_witness:
  "\<exists>r'. BN_lshift zero_malloc \<lparr>bn_d = [3], bn_width = 1, bn_neg = True, bn_static = False\<rparr> 70 BN_init = (Some (), r')
     \<and> bn_value r' = - (3 * 2 ^ 70)"
proof -
  let ?a = "\<lparr>bn_d = [3], bn_width = 1, bn_neg = True, bn_static = False\<rparr>"
  have ok: "bn_ok ?a" "bn_ok BN_init" "(0 :: int) \<le> 70" "bn_room BN_init (bn_width ?a + nat 70 div 64 + 1)"
    by (simp_all add: bn_ok_def BN_init_def bn_room_def bn_max_words_def)
  have "2 ^ nat 70 * bn_value ?a = - (3 * 2 ^ 70)" by (simp add: bn_value_def bn_mag_def bn_words_def)
  then show ?thesis using bn_shift_exact [OF malloc_total_zero_malloc ok] by auto
qed

text \<open>One word shifted by 128: the secret shift leaves the number as it is, the plain shift clears it.\<close>

theorem bn_secret_shift_reduces_witness:
  "\<exists>ctx r' ctx' s'. BN_CTX_new zero_malloc = Some ctx
     \<and> bn_rshift_secret_shift zero_malloc \<lparr>bn_d = [5], bn_width = 1, bn_neg = False, bn_static = False\<rparr> 128 (BN_init, ctx)
         = (Some (), r', ctx')
     \<and> BN_rshift zero_malloc \<lparr>bn_d = [5], bn_width = 1, bn_neg = False, bn_static = False\<rparr> 128 BN_init = (Some (), s')
     \<and> bn_value r' = 5 \<and> bn_value s' = 0"
proof -
  let ?a = "\<lparr>bn_d = [5], bn_width = 1, bn_neg = False, bn_static = False\<rparr>"
  let ?c = "\<lparr>ctx_bignums = None, ctx_stack = BN_STACK_init, ctx_used = 0, ctx_error = False, ctx_defer_error = False\<rparr>"
  let ?s = "BN_CTX_start zero_malloc ?c"
  have alloc: "OPENSSL_malloc zero_malloc n = Some \<lparr>stored_size = n, block_bytes = replicate n 0\<rparr>" if "n < 1000" for n
    using that by (simp add: OPENSSL_malloc_def zero_malloc_def size_add_def OPENSSL_MALLOC_PREFIX_def)
  have new: "BN_CTX_new zero_malloc = Some ?c" by (simp add: BN_CTX_new_def alloc sizeof_BN_CTX_def)
  have s: "ctx_bignums ?s = None" "ctx_used ?s = 0" "\<not> ctx_error ?s"
    by (simp_all add: BN_CTX_start_def BN_STACK_push_def BN_STACK_init_def BN_CTX_START_FRAMES_def Let_def alloc)
  obtain ctx1 sk where get: "BN_CTX_get zero_malloc ?s = (Some 0, ctx1)" and sk: "ctx_bignums ctx1 = Some sk" "0 < sk_num_field sk" "sk_data sk ! 0 = Some (BN_zero BN_init)"
    using s by (simp add: BN_CTX_get_def Let_def sk_new_null_def sk_new_def alloc sizeof_STACK_def sizeof_ptr_def
        kMinSize_def ptr_array_def sk_num_def BN_new_def sizeof_BIGNUM_def sk_push_def sk_insert_def sk_grow_def sk_set_def sk_value_def)
  have ok: "bn_ok ?a" "bn_ok BN_init" "bn_room BN_init (bn_width ?a)"
    by (simp_all add: bn_ok_def BN_init_def bn_room_def bn_max_words_def)
  have we: "\<exists>b. bn_wexpand zero_malloc 1 bn = (Some (), b)" if "\<not> bn_static bn" for bn
    using wexpand_total [OF malloc_total_zero_malloc that, of 1] by (simp add: bn_max_words_def)
  obtain r1 where cp: "BN_copy zero_malloc ?a BN_init = (Some (), r1)" using we [of BN_init] by (auto simp: BN_copy_def op_bind_def BN_init_def)
  have w1: "bn_width r1 = 1" using copy_value [OF ok(1,2) cp] by simp
  obtain ctx2 where os: "on_slot 0 (bn_wexpand zero_malloc (bn_width r1)) ctx1 = (Some (), ctx2)"
    using sk we [of "BN_zero BN_init"] by (auto simp: w1 on_slot_def sk_value_def BN_zero_def BN_init_def)
  obtain r' ctx' where run: "bn_rshift_secret_shift zero_malloc ?a 128 (BN_init, ?c) = (Some (), r', ctx')"
    by (simp only: bn_rshift_secret_shift_def Let_def prod.case get option.case cp os)
  have "nat (int (unat (128 :: u32))) = 128" by simp
  obtain s' where sh: "BN_rshift zero_malloc ?a (int (unat (128 :: u32))) BN_init = (Some (), s')"
    by (rule rshift_run [OF malloc_total_zero_malloc ok(1,2) _ ok(3), of "int (unat (128 :: u32))"]) simp_all
  have k: "bits_of (64 * bn_width ?a) 7"
  proof -
    have "7 \<le> j" if "(64 :: nat) < 2 ^ j" for j
    proof (rule ccontr)
      assume "\<not> 7 \<le> j"
      then have "(2 :: nat) ^ j \<le> 2 ^ 6" by (intro power_increasing) simp_all
      then show False using that by simp
    qed
    then show ?thesis by (simp add: bits_of_def)
  qed
  have "bn_value r' = 5 \<and> bn_value s' = 0"
    using bn_secret_shift_reduces [OF ok(1,2) k run sh ok(2)] by (simp add: shifted_def bn_mag_def bn_words_def)
  then show ?thesis using new run sh by auto
qed

end
