(* ===== verification/Bn_Bytes.thy ===== *)
theory Bn_Bytes imports Bn_Shift begin

text \<open>
  Big numbers and byte strings (\<open>crypto/fipsmodule/bn/bytes.c\<close>): big- and little-endian conversion in both
  directions. The code reads and writes the words of a number as memory on a little-endian machine; \<open>word_bytes\<close> is
  that memory.
\<close>

section \<open>Operations\<close>

definition word_bytes :: "u64 list \<Rightarrow> u8 list" where
  "word_bytes ws = concat (map (\<lambda>w. le_bytes 8 (unat w)) ws)"

text \<open>The loop of \<open>BN_bin2bn\<close>: \<open>m\<close> counts the bytes that the current word still needs, \<open>num_words\<close> the words.\<close>

fun bin2bn_loop :: "u8 list \<Rightarrow> u64 \<Rightarrow> nat \<Rightarrow> nat \<Rightarrow> u64 list \<Rightarrow> u64 list" where
  "bin2bn_loop [] word m num_words d = d"
| "bin2bn_loop (b # bs) word m num_words d =
     (let word = push_bit 8 word OR ucast b in
      if m = 0 then bin2bn_loop bs 0 7 (num_words - 1) (d[num_words - 1 := word])
      else bin2bn_loop bs word (m - 1) num_words d)"

text \<open>\<open>BN_bin2bn\<close> and \<open>BN_le2bn\<close> into a number of the caller, then with the choice between it and a fresh one.\<close>

definition bin2bn_into :: "malloc_fn \<Rightarrow> u8 list \<Rightarrow> unit bn_op" where
  "bin2bn_into ma inp ret =
     (let len = length inp in
      if len = 0 then (Some (), ret\<lparr>bn_width := 0\<rparr>)
      else
        let num_words = (len - 1) div 8 + 1;
            m = (len - 1) mod 8 in
        op_bind (bn_wexpand ma num_words) (\<lambda>_ ret.
          (Some (), ret\<lparr>bn_width := num_words, bn_neg := False, bn_d := bin2bn_loop inp 0 m num_words (bn_d ret)\<rparr>)) ret)"

definition le2bn_into :: "malloc_fn \<Rightarrow> u8 list \<Rightarrow> unit bn_op" where
  "le2bn_into ma inp ret =
     (let len = length inp in
      if len = 0 then (Some (), ret\<lparr>bn_width := 0, bn_neg := False\<rparr>)
      else
        let num_words = (len - 1) div 8 + 1 in
        op_bind (bn_wexpand ma num_words) (\<lambda>_ ret.
          let d = (bn_d ret)[num_words - 1 := 0] in
          (Some (), ret\<lparr>bn_width := num_words,
                       bn_d := block_words (length d) (inp @ drop len (word_bytes d))\<rparr>)) ret)"

definition into_number :: "malloc_fn \<Rightarrow> unit bn_op \<Rightarrow> bignum option \<Rightarrow> bignum option" where
  "into_number ma m ret =
     (case (case ret of None \<Rightarrow> BN_new ma | Some r \<Rightarrow> Some r) of
        None \<Rightarrow> None
      | Some r \<Rightarrow> (case m r of (None, _) \<Rightarrow> None | (Some _, r') \<Rightarrow> Some r'))"

definition BN_bin2bn :: "malloc_fn \<Rightarrow> u8 list \<Rightarrow> bignum option \<Rightarrow> bignum option" where
  "BN_bin2bn ma inp ret = into_number ma (bin2bn_into ma inp) ret"

definition BN_le2bn :: "malloc_fn \<Rightarrow> u8 list \<Rightarrow> bignum option \<Rightarrow> bignum option" where
  "BN_le2bn ma inp ret = into_number ma (le2bn_into ma inp) ret"

text \<open>The bytes that \<open>BN_bn2bin\<close> writes; their number is its result.\<close>

definition BN_bn2bin :: "bignum \<Rightarrow> u8 list" where
  "BN_bn2bin inp = map (\<lambda>i. ucast (drop_bit (8 * (i mod 8)) (bn_d inp ! (i div 8)))) (rev [0..<BN_num_bytes inp])"

definition fits_in_bytes :: "u8 list \<Rightarrow> nat \<Rightarrow> bool" where
  "fits_in_bytes bytes len \<longleftrightarrow> fold (\<lambda>b msk. msk OR b) (drop len bytes) 0 = 0"

text \<open>The buffer of \<open>len\<close> bytes that the padded conversions fill, or \<open>None\<close> when the number does not fit.\<close>

definition BN_bn2le_padded :: "nat \<Rightarrow> bignum \<Rightarrow> u8 list option" where
  "BN_bn2le_padded len inp =
     (let bytes = word_bytes (bn_words inp);
          num_bytes = bn_width inp * 8 in
      if len < num_bytes \<and> \<not> fits_in_bytes bytes len then None
      else
        let num_bytes = (if len < num_bytes then len else num_bytes) in
        Some (take num_bytes bytes @ replicate (len - num_bytes) 0))"

definition BN_bn2bin_padded :: "nat \<Rightarrow> bignum \<Rightarrow> u8 list option" where
  "BN_bn2bin_padded len inp =
     (let bytes = word_bytes (bn_words inp);
          num_bytes = bn_width inp * 8 in
      if len < num_bytes \<and> \<not> fits_in_bytes bytes len then None
      else
        let num_bytes = (if len < num_bytes then len else num_bytes) in
        Some (replicate (len - num_bytes) 0 @ map (\<lambda>i. bytes ! i) (rev [0..<num_bytes])))"

definition BN_get_word :: "bignum \<Rightarrow> u64" where
  "BN_get_word bn =
     (let w = bn_minimal_width bn in if w = 0 then 0 else if w = 1 then bn_d bn ! 0 else - 1)"

definition BN_get_u64 :: "bignum \<Rightarrow> u64 option" where
  "BN_get_u64 bn =
     (let w = bn_minimal_width bn in if w = 0 then Some 0 else if w = 1 then Some (bn_d bn ! 0) else None)"

section \<open>Words as memory\<close>

lemma le_val_zeros [simp]: "le_val (replicate n 0) = 0"
  by (induction n) simp_all

lemma le_val_zero_iff: "le_val bs = 0 \<longleftrightarrow> (\<forall>b \<in> set bs. b = 0)"
  by (induction bs) (auto simp: unat_eq_0)

lemma le_val_be_val: "le_val bs = be_val (rev bs)"
  by (induction bs) simp_all

lemma length_word_bytes [simp]: "length (word_bytes ws) = 8 * length ws"
  by (induction ws) (simp_all add: word_bytes_def)

lemma word_bytes_append [simp]: "word_bytes (xs @ ys) = word_bytes xs @ word_bytes ys"
  by (simp add: word_bytes_def)

lemma le_bytes_0: "le_bytes n 0 = replicate n 0"
  by (induction n) (simp_all add: byte_def)

lemma word_bytes_0 [simp]: "word_bytes [0] = replicate 8 0"
  by (simp add: word_bytes_def le_bytes_0)

lemma power_256: "(256 :: nat) ^ n = 2 ^ (8 * n)"
  by (simp add: power_mult)

lemma le_val_word_bytes: "le_val (word_bytes ws) = wval ws"
proof (induction ws)
  case (Cons w ws)
  have "unat w < 256 ^ 8" using unat_less_64 [of w] by simp
  then have "le_val (le_bytes 8 (unat w)) = unat w" by (simp add: le_val_le_bytes)
  moreover have "word_bytes (w # ws) = le_bytes 8 (unat w) @ word_bytes ws" by (simp add: word_bytes_def)
  ultimately show ?case using Cons by (simp add: le_val_append)
qed (simp add: word_bytes_def)

lemma block_words_Suc:
  "8 \<le> length bs \<Longrightarrow> block_words (Suc n) bs = of_nat (le_val (take 8 bs)) # block_words n (drop 8 bs)"
  by (simp add: block_words_def upt_conv_Cons map_Suc_upt [symmetric] comp_def add.commute del: upt_Suc)

lemma wval_block_words: "length bs = 8 * n \<Longrightarrow> wval (block_words n bs) = le_val bs"
proof (induction n arbitrary: bs)
  case (Suc n)
  have t: "unat (of_nat (le_val (take 8 bs)) :: u64) = le_val (take 8 bs)"
    using le_val_less [of "take 8 bs"] Suc(2) by (simp add: unat_of_nat)
  have "wval (block_words (Suc n) bs) = le_val (take 8 bs) + 2 ^ 64 * le_val (drop 8 bs)"
    using Suc by (simp add: block_words_Suc t)
  also have "\<dots> = le_val (take 8 bs @ drop 8 bs)" using Suc(2) by (simp add: le_val_append del: append_take_drop_id)
  finally show ?case by simp
qed (simp add: block_words_def)

lemma take_block_words: "n \<le> m \<Longrightarrow> take n (block_words m bs) = block_words n (take (8 * n) bs)"
proof -
  assume "n \<le> m"
  then have "take n [0..<m] = [0..<n]" by (simp add: take_upt)
  moreover have "take 8 (drop (8 * i) (take (8 * n) bs)) = take 8 (drop (8 * i) bs)" if "i < n" for i
    using that by (simp add: drop_take min_def)
  ultimately show ?thesis by (simp add: block_words_def take_map)
qed

lemma fits_in_bytes_iff: "fits_in_bytes bs len \<longleftrightarrow> le_val bs < 256 ^ len"
proof -
  have "fold (\<lambda>b msk. msk OR b) xs m = 0 \<longleftrightarrow> m = 0 \<and> (\<forall>b \<in> set xs. b = 0)" for xs and m :: u8
    by (induction xs arbitrary: m) (auto simp: or_eq_0_iff)
  then have z: "fits_in_bytes bs len \<longleftrightarrow> le_val (drop len bs) = 0" by (simp add: fits_in_bytes_def le_val_zero_iff)
  show ?thesis
  proof (cases "length bs \<le> len")
    case True
    have "le_val bs < 256 ^ length bs" by (rule le_val_less)
    also have "\<dots> \<le> 256 ^ len" using True by (intro power_increasing) simp_all
    finally show ?thesis using True z by simp
  next
    case False
    have v: "le_val bs = le_val (take len bs) + 256 ^ len * le_val (drop len bs)"
      using le_val_append [of "take len bs" "drop len bs"] False by simp
    have "le_val (take len bs) < 256 ^ len" using le_val_less [of "take len bs"] False by simp
    then show ?thesis unfolding z v by (rule low_part_iff [symmetric])
  qed
qed

section \<open>From bytes to numbers\<close>

lemma push_8_or: "unat w < 2 ^ 56 \<Longrightarrow> unat (push_bit 8 w OR ucast (b :: u8) :: u64) = 256 * unat w + unat b"
proof -
  assume w: "unat w < 2 ^ 56"
  have d: "push_bit 8 w AND ucast b = (0 :: u64)"
    by (rule bit_word_eqI) (auto simp: bit_simps dest: bit_imp_le_length)
  have "unat (push_bit 8 w) = 256 * unat w"
    using push_split [of 8 w] w by simp
  then show ?thesis using unat_or_disjoint [OF d] by (simp add: unat_ucast_up)
qed


definition bin2bn_at :: "u8 list \<Rightarrow> u64 \<Rightarrow> nat \<Rightarrow> nat \<Rightarrow> bool" where
  "bin2bn_at bs word m k \<longleftrightarrow>
     (if bs = [] then k = 0 \<and> word = 0
      else 0 < k \<and> m \<le> 7 \<and> length bs = 8 * (k - 1) + m + 1 \<and> unat word < 256 ^ (7 - m))"

lemma bin2bn_loop_value:
  "bin2bn_at bs word m k \<Longrightarrow> k \<le> length d \<Longrightarrow>
     length (bin2bn_loop bs word m k d) = length d \<and> drop k (bin2bn_loop bs word m k d) = drop k d
     \<and> wval (take k (bin2bn_loop bs word m k d)) = unat word * 256 ^ length bs + be_val bs"
proof (induction bs word m k d rule: bin2bn_loop.induct)
  case (2 b bs word m k d)
  let ?w = "push_bit 8 word OR ucast b"
  have at: "0 < k" "m \<le> 7" "length bs = 8 * (k - 1) + m" "unat word < 256 ^ (7 - m)"
    using 2(3) by (simp_all add: bin2bn_at_def)
  have "(256 :: nat) ^ (7 - m) \<le> 256 ^ 7" by (intro power_increasing) simp_all
  then have "unat word < 2 ^ 56" using at(4) by simp
  then have w: "unat ?w = 256 * unat word + unat b" by (rule push_8_or)
  show ?case
  proof (cases "m = 0")
    case True
    let ?d = "d[k - 1 := ?w]" and ?r = "bin2bn_loop bs 0 7 (k - 1) (d[k - 1 := ?w])"
    obtain n where n: "k = Suc n" using at(1) by (cases k) auto
    have "bin2bn_at bs 0 7 (k - 1)" using at(3) True n by (cases n) (auto simp: bin2bn_at_def)
    then have IH: "length ?r = length d" "drop (k - 1) ?r = drop (k - 1) ?d" "wval (take (k - 1) ?r) = be_val bs"
      using 2(1) [OF refl True] 2(4) by auto
    have nth: "?r ! n = ?w"
      using arg_cong [OF IH(2), of "\<lambda>xs. xs ! 0"] 2(4) IH(1) n by simp
    have "take k ?r = take n ?r @ [?w]" using 2(4) IH(1) n nth by (simp add: take_Suc_conv_app_nth)
    then have "wval (take k ?r) = be_val bs + 2 ^ (64 * n) * unat ?w"
      using IH(1,3) 2(4) n by (simp add: wval_append)
    also have "(2 :: nat) ^ (64 * n) = 256 ^ length bs" using at(3) True n by (simp add: power_256)
    also have "be_val bs + 256 ^ length bs * unat ?w = unat word * 256 ^ length (b # bs) + be_val (b # bs)"
      unfolding w be_val_Cons by (simp add: algebra_simps)
    moreover have "drop k ?r = drop k d"
      using arg_cong [OF IH(2), of "drop 1"] n by simp
    ultimately show ?thesis using True IH(1) by (simp add: Let_def)
  next
    case False
    have p: "(256 :: nat) ^ (7 - (m - 1)) = 256 * 256 ^ (7 - m)" using False at(2) by (simp add: Suc_diff_le power_Suc [symmetric] del: power_Suc)
    have "unat ?w < 256 ^ (7 - (m - 1))" unfolding w p using byte_digit_less [OF at(4), of b] .
    then have "bin2bn_at bs ?w (m - 1) k" using at False by (auto simp: bin2bn_at_def)
    then have IH: "length (bin2bn_loop bs ?w (m - 1) k d) = length d" "drop k (bin2bn_loop bs ?w (m - 1) k d) = drop k d"
      "wval (take k (bin2bn_loop bs ?w (m - 1) k d)) = unat ?w * 256 ^ length bs + be_val bs"
      using 2(2) [OF refl False] 2(4) by auto
    have "unat ?w * 256 ^ length bs + be_val bs = unat word * 256 ^ length (b # bs) + be_val (b # bs)"
      unfolding w be_val_Cons by (simp add: algebra_simps)
    then show ?thesis using False IH by (simp add: Let_def)
  qed
qed (simp add: bin2bn_at_def)

lemma bin2bn_value:
  assumes "bn_ok ret" "bin2bn_into ma inp ret = (Some u, r)"
  shows "bn_ok r \<and> bn_mag r = be_val inp \<and> bn_neg r = (bn_neg ret \<and> inp = [])"
proof (cases "inp = []")
  case True
  then show ?thesis using assms by (auto simp: bin2bn_into_def bn_ok_def bn_mag_def bn_words_def)
next
  case False
  define k where "k = (length inp - 1) div 8 + 1"
  define m where "m = (length inp - 1) mod 8"
  obtain r1 where r1: "bn_wexpand ma k ret = (Some (), r1)"
    and r: "r = r1\<lparr>bn_width := k, bn_neg := False, bn_d := bin2bn_loop inp 0 m k (bn_d r1)\<rparr>"
    using assms(2) False by (auto simp: bin2bn_into_def Let_def op_bind_eq_Some k_def m_def)
  note e = wexpand [OF assms(1) r1]
  have "length inp = 8 * (k - 1) + m + 1" using False by (simp add: k_def m_def)
  moreover have "m \<le> 7" "0 < k" unfolding m_def k_def by simp_all
  ultimately have "bin2bn_at inp 0 m k" using False by (simp add: bin2bn_at_def)
  note v = bin2bn_loop_value [OF this e(2)]
  then show ?thesis using False e(2) by (simp add: r bn_ok_def bn_mag_def bn_words_def)
qed

lemma le2bn_value:
  assumes "bn_ok ret" "le2bn_into ma inp ret = (Some u, r)"
  shows "bn_ok r \<and> bn_mag r = le_val inp \<and> bn_neg r = (bn_neg ret \<and> inp \<noteq> [])"
proof (cases "inp = []")
  case True
  then show ?thesis using assms by (auto simp: le2bn_into_def bn_ok_def bn_mag_def bn_words_def)
next
  case False
  define k where "k = (length inp - 1) div 8 + 1"
  obtain r1 where r1: "bn_wexpand ma k ret = (Some (), r1)"
    and r: "r = r1\<lparr>bn_width := k, bn_d := block_words (length (bn_d r1)) (inp @ drop (length inp) (word_bytes ((bn_d r1)[k - 1 := 0])))\<rparr>"
    using assms(2) False by (auto simp: le2bn_into_def Let_def op_bind_eq_Some k_def)
  note e = wexpand [OF assms(1) r1]
  have "length inp - 1 = 8 * (k - 1) + (length inp - 1) mod 8" "(length inp - 1) mod 8 < 8" "0 < length inp" "0 < k"
    using False by (simp_all add: k_def)
  then have k: "8 * (k - 1) < length inp" "length inp \<le> 8 * k" "0 < k" by linarith+
  let ?d = "(bn_d r1)[k - 1 := 0]"
  have "word_bytes ?d = word_bytes (take (k - 1) ?d) @ replicate 8 0 @ word_bytes (drop k ?d)"
  proof -
    have "?d = take (k - 1) ?d @ [0] @ drop k ?d" using e(2) k(3) id_take_nth_drop [of "k - 1" ?d] by simp
    then have "word_bytes ?d = word_bytes (take (k - 1) ?d @ [0] @ drop k ?d)" by (rule arg_cong)
    then show ?thesis by (simp only: word_bytes_append word_bytes_0)
  qed
  then have "take (8 * k) (inp @ drop (length inp) (word_bytes ?d)) = inp @ replicate (8 * k - length inp) 0"
    using k e(2) by (simp add: drop_append take_append min_def)
  moreover have "le_val (inp @ replicate (8 * k - length inp) 0) = le_val inp" by (simp add: le_val_append)
  ultimately have "wval (take k (bn_d r)) = le_val inp"
    using e(2) k(2) by (simp add: r take_block_words wval_block_words)
  then show ?thesis using False e(2,5) by (simp add: r bn_ok_def bn_mag_def bn_words_def)
qed


section \<open>From numbers to bytes\<close>

lemma zero_num_bits:
  assumes "bn_ok bn" "bn_mag bn = 0"
  shows "bn_minimal_width bn = 0"
proof (rule ccontr)
  assume n: "bn_minimal_width bn \<noteq> 0"
  let ?m = "bn_minimal_width bn"
  have m: "?m \<le> bn_width bn" "wval (take ?m (bn_d bn)) = 0" "bn_d bn ! (?m - 1) \<noteq> 0"
    using minimal_width_from [of "bn_width bn" "bn_d bn"] assms n by (simp_all add: bn_minimal_width_def bn_ok_def bn_mag_def bn_words_def)
  have "bn_d bn ! (?m - 1) = take ?m (bn_d bn) ! (?m - 1)" using n by simp
  also have "\<dots> \<in> set (take ?m (bn_d bn))" using n m(1) assms(1) by (intro nth_mem) (simp add: bn_ok_def)
  finally show False using m(2,3) by (simp add: wval_zero_iff)
qed

lemma num_bytes_bounds:
  assumes "bn_ok bn"
  shows "bn_mag bn < 256 ^ BN_num_bytes bn" "BN_num_bytes bn \<le> 8 * bn_width bn"
proof -
  note v = num_bits_value [OF assms]
  have "(2 :: nat) ^ BN_num_bits bn \<le> 2 ^ (8 * BN_num_bytes bn)" unfolding BN_num_bytes_def by (intro power_increasing) simp_all
  then show "bn_mag bn < 256 ^ BN_num_bytes bn" unfolding power_256 using v by linarith
  have "BN_num_bits bn \<le> 64 * bn_width bn"
  proof (cases "bn_mag bn = 0")
    case True
    then show ?thesis using zero_num_bits [OF assms] by (simp add: BN_num_bits_def)
  next
    case False
    have "(2 :: nat) ^ (BN_num_bits bn - 1) \<le> bn_mag bn" using v False by blast
    also have "\<dots> < 2 ^ (64 * bn_width bn)" using wval_less [of "bn_words bn"] assms by (simp add: bn_mag_def)
    finally have "BN_num_bits bn - 1 < 64 * bn_width bn" by simp
    then show ?thesis by simp
  qed
  then show "BN_num_bytes bn \<le> 8 * bn_width bn" by (simp add: BN_num_bytes_def)
qed

lemma bit_byte: "m < 8 \<Longrightarrow> bit (byte n) m = bit n m"
proof -
  assume m: "m < 8"
  have "bit (unat (byte n)) m = bit (byte n) m" using m by (simp only: bit_unsigned_iff) simp
  moreover have "unat (byte n) = take_bit 8 n" by (simp add: take_bit_eq_mod)
  ultimately show ?thesis using m by (simp add: bit_take_bit_iff)
qed

lemma nth_byte:
  assumes "bn_ok bn" "i < 8 * bn_width bn"
  shows "ucast (drop_bit (8 * (i mod 8)) (bn_d bn ! (i div 8))) = byte (bn_mag bn div 256 ^ i)"
proof (rule bit_word_eqI)
  fix m assume m: "m < LENGTH(8)"
  have "bit (byte (bn_mag bn div 256 ^ i)) m = bit (bn_mag bn) (8 * i + m)"
    using m by (simp add: bit_byte power_256 drop_bit_eq_div [symmetric] bit_drop_bit_eq)
  also have "\<dots> = bit (bn_d bn ! (i div 8)) (8 * (i mod 8) + m)"
  proof -
    have e: "8 * i + m = (8 * (i mod 8) + m) + 64 * (i div 8)" using mult_div_mod_eq [of 8 i] by linarith
    have "8 * (i mod 8) + m < 64" using mod_less_divisor [of 8 i] m by simp
    then have "(8 * i + m) div 64 = i div 8" "(8 * i + m) mod 64 = 8 * (i mod 8) + m" unfolding e by simp_all
    moreover have "i div 8 < bn_width bn" using assms(2) by (simp add: less_mult_imp_div_less)
    ultimately show ?thesis using assms(1) by (simp add: bit_mag)
  qed
  finally show "bit (ucast (drop_bit (8 * (i mod 8)) (bn_d bn ! (i div 8))) :: u8) m = bit (byte (bn_mag bn div 256 ^ i)) m"
    using m by (simp add: bit_ucast_iff bit_drop_bit_eq)
qed

lemma bn2bin_value: "bn_ok bn \<Longrightarrow> BN_bn2bin bn = be_bytes (BN_num_bytes bn) (bn_mag bn)"
proof -
  assume ok: "bn_ok bn"
  have "rev [0..<n] = map (\<lambda>i. n - Suc i) [0..<n]" for n by (rule nth_equalityI) (simp_all add: rev_nth)
  then show ?thesis
    unfolding BN_bn2bin_def be_bytes_map
    using num_bytes_bounds(2) [OF ok] nth_byte [OF ok] by (simp add: comp_def)
qed

lemma be_bytes_rev: "be_bytes k n = rev (le_bytes k n)"
proof -
  have "be_val (rev (le_bytes k n)) = n mod 256 ^ k" by (simp add: le_val_be_val [symmetric] le_val_le_bytes)
  moreover have "be_bytes k (n mod 256 ^ k) = be_bytes k n"
    using be_bytes_be_val [of "be_bytes k n" k] by (simp add: be_val_be_bytes)
  ultimately show ?thesis using be_bytes_be_val [of "rev (le_bytes k n)" k] by simp
qed

lemma le_padded_value:
  assumes "bn_ok bn"
  shows "BN_bn2le_padded len bn = (if bn_mag bn < 256 ^ len then Some (le_bytes len (bn_mag bn)) else None)"
proof -
  let ?b = "word_bytes (bn_words bn)"
  have b: "le_val ?b = bn_mag bn" "length ?b = 8 * bn_width bn" using assms by (simp_all add: le_val_word_bytes bn_mag_def)
  show ?thesis
  proof (cases "len < bn_width bn * 8")
    case True
    show ?thesis
    proof (cases "bn_mag bn < 256 ^ len")
      case fit: True
      have "le_val ?b = le_val (take len ?b) + 256 ^ len * le_val (drop len ?b)"
        using le_val_append [of "take len ?b" "drop len ?b"] True b(2) by simp
      moreover have "le_val (take len ?b) < 256 ^ len" using le_val_less [of "take len ?b"] True b(2) by simp
      ultimately have "le_val (take len ?b) = bn_mag bn" using fit b(1) low_part_iff [of "le_val (take len ?b)" "256 ^ len"] by simp
      then have "take len ?b = le_bytes len (bn_mag bn)" using le_bytes_le_val [of "take len ?b" len] True b(2) by simp
      then show ?thesis using True fit b(1) by (simp add: BN_bn2le_padded_def Let_def fits_in_bytes_iff)
    qed (simp add: BN_bn2le_padded_def Let_def fits_in_bytes_iff True b(1))
  next
    case False
    have "bn_mag bn < 256 ^ (8 * bn_width bn)" using le_val_less [of ?b] b by simp
    also have "\<dots> \<le> 256 ^ len" using False by (intro power_increasing) simp_all
    finally have fit: "bn_mag bn < 256 ^ len" .
    have "le_val (?b @ replicate (len - bn_width bn * 8) 0) = bn_mag bn" using b(1) by (simp add: le_val_append)
    then have "?b @ replicate (len - bn_width bn * 8) 0 = le_bytes len (bn_mag bn)"
      using le_bytes_le_val [of "?b @ replicate (len - bn_width bn * 8) 0" len] False b(2) by (simp add: mult.commute)
    then show ?thesis using False fit b(2) by (simp add: BN_bn2le_padded_def Let_def mult.commute)
  qed
qed

lemma map_nth_rev: "n \<le> length bs \<Longrightarrow> map ((!) bs) (rev [0..<n]) = rev (take n bs)"
  by (rule nth_equalityI) (simp_all add: rev_nth)

lemma bin_padded_le: "bn_ok bn \<Longrightarrow> BN_bn2bin_padded len bn = map_option rev (BN_bn2le_padded len bn)"
  by (auto simp: BN_bn2bin_padded_def BN_bn2le_padded_def Let_def map_nth_rev mult.commute)


lemma bin_padded_value:
  "bn_ok bn \<Longrightarrow> BN_bn2bin_padded len bn = (if bn_mag bn < 256 ^ len then Some (be_bytes len (bn_mag bn)) else None)"
  by (simp add: bin_padded_le le_padded_value be_bytes_rev)

lemma num_words_le: "inp \<noteq> [] \<Longrightarrow> length inp \<le> 8 * n \<Longrightarrow> (length inp - 1) div 8 + 1 \<le> n"
  by (cases inp) (auto simp: less_mult_imp_div_less Suc_le_eq)

lemma into_runs:
  assumes "malloc_total ma" "bn_room ret n" "length inp \<le> 8 * n"
  shows "\<exists>r. bin2bn_into ma inp ret = (Some (), r)" "\<exists>r. le2bn_into ma inp ret = (Some (), r)"
proof -
  let ?k = "(length inp - 1) div 8 + 1"
  have "inp \<noteq> [] \<longrightarrow> (\<exists>r1. bn_wexpand ma ?k ret = (Some (), r1))"
    using wexpand_room [OF assms(1) bn_room_mono [OF assms(2) num_words_le [OF _ assms(3)]]] by blast
  then show "\<exists>r. bin2bn_into ma inp ret = (Some (), r)" "\<exists>r. le2bn_into ma inp ret = (Some (), r)"
    by (auto simp: bin2bn_into_def le2bn_into_def Let_def op_bind_def split: option.splits prod.splits)
qed

lemma new_number:
  assumes "malloc_total ma" "n \<le> bn_max_words"
  shows "BN_new ma = Some BN_init" "bn_room BN_init n" "bn_ok BN_init"
proof -
  obtain b where "OPENSSL_malloc ma sizeof_BIGNUM = Some b" 
    using OPENSSL_malloc_total [OF assms(1), of sizeof_BIGNUM] by (auto simp: sizeof_BIGNUM_def)
  then show "BN_new ma = Some BN_init" by (simp add: BN_new_def)
qed (use assms in \<open>simp_all add: bn_room_def BN_init_def bn_ok_def\<close>)

section \<open>Properties\<close>

text \<open>
  C24: Writing a number as bytes is exact: \<open>BN_bn2bin\<close> writes the big-endian magnitude in as many bytes as it needs,
  and the padded conversions fill a buffer of any length, or fail exactly when the magnitude does not fit.
\<close>

theorem bn_to_bytes_exact:
  assumes "bn_ok bn"
  shows "BN_bn2bin bn = be_bytes (BN_num_bytes bn) (bn_mag bn) \<and> bn_mag bn < 256 ^ BN_num_bytes bn
    \<and> BN_bn2bin_padded len bn = (if bn_mag bn < 256 ^ len then Some (be_bytes len (bn_mag bn)) else None)
    \<and> BN_bn2le_padded len bn = (if bn_mag bn < 256 ^ len then Some (le_bytes len (bn_mag bn)) else None)"
  using bn2bin_value [OF assms] num_bytes_bounds(1) [OF assms] bin_padded_value [OF assms] le_padded_value [OF assms] by blast

theorem bn_to_bytes_exact_witness:
  "BN_bn2bin_padded 1 \<lparr>bn_d = [256], bn_width = 1, bn_neg = False, bn_static = False\<rparr> = None"
  using bn_to_bytes_exact [of "\<lparr>bn_d = [256], bn_width = 1, bn_neg = False, bn_static = False\<rparr>" 1]
  by (simp add: bn_ok_def bn_mag_def bn_words_def)

text \<open>
  C25: Numbers survive a round trip through bytes: reading back what \<open>BN_bn2bin\<close> or a padded conversion wrote gives a
  number of the same magnitude, and every byte string reads as its big- or little-endian value.
\<close>

theorem bn_bytes_roundtrip:
  assumes "malloc_total ma" "bn_ok bn" "bn_width bn \<le> bn_max_words" "length inp \<le> 8 * bn_max_words"
  shows "(\<exists>r. BN_bin2bn ma (BN_bn2bin bn) None = Some r \<and> bn_ok r \<and> bn_value r = int (bn_mag bn))
    \<and> (\<exists>r. BN_bin2bn ma inp None = Some r \<and> bn_ok r \<and> bn_value r = int (be_val inp) \<and>
          (length inp \<le> len \<longrightarrow> BN_bn2bin_padded len r = Some (replicate (len - length inp) 0 @ inp)))
    \<and> (\<exists>r. BN_le2bn ma inp None = Some r \<and> bn_ok r \<and> bn_value r = int (le_val inp) \<and>
          (length inp \<le> len \<longrightarrow> BN_bn2le_padded len r = Some (inp @ replicate (len - length inp) 0)))"
proof -
  note new = new_number [OF assms(1) order_refl]
  have bin: "\<exists>r. BN_bin2bn ma bs None = Some r \<and> bn_ok r \<and> bn_mag r = be_val bs \<and> \<not> bn_neg r" if len: "length bs \<le> 8 * bn_max_words" for bs
  proof -
    obtain r where r: "bin2bn_into ma bs BN_init = (Some (), r)" using into_runs(1) [OF assms(1) new(2) len] by blast
    then have "BN_bin2bn ma bs None = Some r" by (simp add: BN_bin2bn_def into_number_def new(1))
    then show ?thesis using bin2bn_value [OF new(3) r] by (auto simp: BN_init_def)
  qed
  obtain l where l: "le2bn_into ma inp BN_init = (Some (), l)" using into_runs(2) [OF assms(1) new(2) assms(4)] by blast
  then have le: "BN_le2bn ma inp None = Some l" by (simp add: BN_le2bn_def into_number_def new(1))
  have lv: "bn_ok l" "bn_mag l = le_val inp" "\<not> bn_neg l" using le2bn_value [OF new(3) l] by (auto simp: BN_init_def)
  have fit: "m < 256 ^ len" if "length inp \<le> len" "m < 256 ^ length inp" for m :: nat
    using that power_increasing [of "length inp" len "256 :: nat"] by linarith
  have "length (BN_bn2bin bn) \<le> 8 * bn_max_words"
    using num_bytes_bounds(2) [OF assms(2)] assms(3) by (simp add: bn2bin_value [OF assms(2)])
  from bin [OF this] obtain r1 where r1: "BN_bin2bn ma (BN_bn2bin bn) None = Some r1" "bn_ok r1" "bn_mag r1 = be_val (BN_bn2bin bn)" "\<not> bn_neg r1" by blast
  have "be_val (BN_bn2bin bn) = bn_mag bn" using num_bytes_bounds(1) [OF assms(2)] by (simp add: bn2bin_value [OF assms(2)] be_val_be_bytes)
  then have one: "\<exists>r. BN_bin2bn ma (BN_bn2bin bn) None = Some r \<and> bn_ok r \<and> bn_value r = int (bn_mag bn)" using r1 by (simp add: bn_value_def)
  obtain r2 where r2: "BN_bin2bn ma inp None = Some r2" "bn_ok r2" "bn_mag r2 = be_val inp" "\<not> bn_neg r2" using bin [OF assms(4)] by blast
  have "BN_bn2bin_padded len r2 = Some (replicate (len - length inp) 0 @ inp)" if "length inp \<le> len"
  proof -
    have z: "be_val (replicate (len - length inp) 0 @ inp) = be_val inp"
      using le_val_zeros [of "len - length inp"] by (simp add: be_val_append le_val_be_val)
    have "be_bytes len (be_val inp) = replicate (len - length inp) 0 @ inp"
      using be_bytes_be_val [of "replicate (len - length inp) 0 @ inp" len] that unfolding z by simp
    then show ?thesis using fit [OF that be_val_less] by (simp add: bin_padded_value [OF r2(2)] r2(3))
  qed
  moreover have "BN_bn2le_padded len l = Some (inp @ replicate (len - length inp) 0)" if "length inp \<le> len"
  proof -
    have z: "le_val (inp @ replicate (len - length inp) 0) = le_val inp" by (simp add: le_val_append)
    have "le_bytes len (le_val inp) = inp @ replicate (len - length inp) 0"
      using le_bytes_le_val [of "inp @ replicate (len - length inp) 0" len] that unfolding z by simp
    then show ?thesis using fit [OF that le_val_less] by (simp add: le_padded_value [OF lv(1)] lv(2))
  qed
  ultimately show ?thesis using one r2 le lv by (auto simp: bn_value_def)
qed

theorem bn_bytes_roundtrip_witness:
  "\<exists>r. BN_bin2bn zero_malloc [1, 2, 3, 4, 5, 6, 7, 8, 9] None = Some r \<and> bn_value r = int (be_val [1, 2, 3, 4, 5, 6, 7, 8, 9])"
proof -
  have len: "length [1, 2, 3, 4, 5, 6, 7, 8, 9 :: u8] \<le> 8 * bn_max_words" "bn_width BN_init \<le> bn_max_words" "bn_ok BN_init"
    by (simp_all add: bn_max_words_def BN_init_def bn_ok_def)
  show ?thesis using bn_bytes_roundtrip [OF malloc_total_zero_malloc len(3,2,1), of 0] by blast
qed

text \<open>
  C0: \<open>BN_le2bn\<close> into an existing negative number leaves the sign: the result is minus the value of the bytes.
  \<open>BN_bin2bn\<close> clears the sign, except for an empty input, which leaves a negative zero.
\<close>

theorem le2bn_keeps_stale_sign:
  assumes "bn_ok ret" "bn_neg ret"
  shows "(BN_le2bn ma inp (Some ret) = Some r \<and> inp \<noteq> [] \<longrightarrow> bn_value r = - int (le_val inp))
    \<and> (BN_bin2bn ma inp (Some ret) = Some r \<and> inp \<noteq> [] \<longrightarrow> bn_value r = int (be_val inp))
    \<and> (BN_bin2bn ma [] (Some ret) = Some r \<longrightarrow> bn_width r = 0 \<and> bn_neg r)"
proof -
  have "bin2bn_into ma [] ret = (Some (), ret\<lparr>bn_width := 0\<rparr>)" by (simp add: bin2bn_into_def)
  then have "BN_bin2bn ma [] (Some ret) = Some r \<longrightarrow> bn_width r = 0 \<and> bn_neg r"
    using assms(2) by (auto simp: BN_bin2bn_def into_number_def)
  then show ?thesis
    using bin2bn_value [OF assms(1), of ma inp "()" r] le2bn_value [OF assms(1), of ma inp "()" r] assms(2)
    by (auto simp: BN_bin2bn_def BN_le2bn_def into_number_def bn_value_def split: option.splits prod.splits)
qed

theorem le2bn_keeps_stale_sign_witness:
  "\<exists>r. BN_le2bn zero_malloc [5] (Some \<lparr>bn_d = [7], bn_width = 1, bn_neg = True, bn_static = False\<rparr>) = Some r \<and> bn_value r = - 5"
proof -
  let ?a = "\<lparr>bn_d = [7], bn_width = 1, bn_neg = True, bn_static = False\<rparr>"
  have ok: "bn_ok ?a" "bn_neg ?a" by (simp_all add: bn_ok_def)
  obtain r where r: "BN_le2bn zero_malloc [5] (Some ?a) = Some r"
    by (simp add: BN_le2bn_def into_number_def le2bn_into_def bn_wexpand_def op_bind_def)
  show ?thesis using r le2bn_keeps_stale_sign [OF ok, of zero_malloc "[5]" r] by simp
qed

end
