(* ===== verification/Bn_Mul_Words.thy ===== *)
theory Bn_Mul_Words imports Bn_Bytes begin

text \<open>
  Multiplication and squaring of arrays of words (the static functions of \<open>crypto/fipsmodule/bn/mul.c\<close>): the
  schoolbook routines and Karatsuba's recursive algorithm.

  An array argument is the list of its words. The scratch array \<open>t\<close> of the recursive functions holds
  intermediate results only; the model names each of them instead. The loops that the code unrolls four times are
  written as loops.
\<close>

section \<open>Schoolbook multiplication\<close>

text \<open>\<open>|a - b|\<close> of two arrays of the same length.\<close>

definition bn_abs_sub_words :: "u64 list \<Rightarrow> u64 list \<Rightarrow> u64 list" where
  "bn_abs_sub_words a b =
     (let (tmp, borrow) = bn_sub_words a b;
          (r, _) = bn_sub_words b a in
      bn_select_words (0 - borrow) r tmp)"

text \<open>The rows after the first: \<open>r\<close> is the part of the result from the current word on that is written so far.\<close>

fun mul_rows :: "u64 list \<Rightarrow> u64 list \<Rightarrow> u64 list \<Rightarrow> u64 list" where
  "mul_rows a (r # rs) (b # bs) = (let (ws, c) = bn_mul_add_words rs a b in r # mul_rows a (ws @ [c]) bs)"
| "mul_rows a rs bs = rs"

definition mul_all_rows :: "u64 list \<Rightarrow> u64 list \<Rightarrow> u64 list" where
  "mul_all_rows a b =
     (case b of
        [] \<Rightarrow> replicate (length a) 0
      | b0 # bs \<Rightarrow> (let (ws, c) = bn_mul_words a b0 in mul_rows a (ws @ [c]) bs))"

definition bn_mul_normal :: "u64 list \<Rightarrow> u64 list \<Rightarrow> u64 list" where
  "bn_mul_normal a b =
     (let (a, b) = (if length a < length b then (b, a) else (a, b)) in mul_all_rows a b)"

section \<open>Subtraction of arrays of different lengths\<close>

text \<open>The two loops over the words that only one array has.\<close>

fun sub_part_neg :: "u64 \<Rightarrow> u64 list \<Rightarrow> u64 list \<times> u64" where
  "sub_part_neg c [] = ([], c)"
| "sub_part_neg c (t # ts) = (let (rs, c') = sub_part_neg (if t \<noteq> 0 then 1 else c) ts in ((0 - t - c) # rs, c'))"

fun sub_part_pos :: "u64 \<Rightarrow> u64 list \<Rightarrow> u64 list \<times> u64" where
  "sub_part_pos c [] = ([], c)"
| "sub_part_pos c (t # ts) =
     (if c = 0 then (t # ts, c)
      else let (rs, c') = sub_part_pos (if t \<noteq> 0 then 0 else c) ts in ((t - c) # rs, c'))"

definition bn_sub_part_words :: "u64 list \<Rightarrow> u64 list \<Rightarrow> nat \<Rightarrow> int \<Rightarrow> u64 list \<times> u64" where
  "bn_sub_part_words a b cl dl =
     (let (r, c) = bn_sub_words (take cl a) (take cl b) in
      if dl = 0 then (r, c)
      else
        let (rs, c) = (if dl < 0 then sub_part_neg c (take (nat (- dl)) (drop cl b))
                       else sub_part_pos c (take (nat dl) (drop cl a))) in
        (r @ rs, c))"

definition bn_abs_sub_part_words :: "u64 list \<Rightarrow> u64 list \<Rightarrow> nat \<Rightarrow> int \<Rightarrow> u64 list \<times> u64" where
  "bn_abs_sub_part_words a b cl dl =
     (let (tmp, borrow) = bn_sub_part_words a b cl dl;
          (r, _) = bn_sub_part_words b a cl (- dl);
          borrow = 0 - borrow in
      (bn_select_words borrow r tmp, borrow))"

section \<open>Karatsuba multiplication\<close>

text \<open>
  Propagation of a carry to the end of the result. The carry out of the last word, which the code asserts to be zero, is
  dropped; that the result is the exact product shows it to be zero.
\<close>

fun carry_words :: "u64 \<Rightarrow> u64 list \<Rightarrow> u64 list" where
  "carry_words c [] = []"
| "carry_words c (old # rs) = (let r = old + c in r # carry_words (if r < old then 1 else 0) rs)"

text \<open>
  The second half of \<open>bn_mul_recursive\<close>, which \<open>bn_mul_part_recursive\<close> repeats: the middle term from the products of
  the low halves, of the high halves and of the differences with its sign mask, and the sum of the three.
\<close>

definition karatsuba_join :: "nat \<Rightarrow> u64 list \<Rightarrow> u64 list \<Rightarrow> u64 list \<Rightarrow> u64 \<Rightarrow> u64 list" where
  "karatsuba_join n r01 r23 t23 neg =
     (let n2 = n * 2;
          r = r01 @ r23;
          (t01, c) = bn_add_words r01 r23;
          (dif, b) = bn_sub_words t01 t23;
          c_neg = c - b;
          (sum, k) = bn_add_words t01 t23;
          c_pos = c + k;
          t23 = bn_select_words neg dif sum;
          c = constant_time_select_w neg c_neg c_pos;
          (mid, k) = bn_add_words (take n2 (drop n r)) t23;
          c = c + k in
      take n r @ mid @ carry_words c (drop (n + n2) r))"

text \<open>The array \<open>a\<close> has \<open>n2 + dna\<close> words, \<open>b\<close> has \<open>n2 + dnb\<close>; \<open>n2\<close> is a power of two.\<close>

function bn_mul_recursive :: "nat \<Rightarrow> u64 list \<Rightarrow> u64 list \<Rightarrow> u64 list" where
  "bn_mul_recursive n2 a b =
     (if n2 = 8 \<and> length a = n2 \<and> length b = n2 then bn_mul_comba8 a b
      else if n2 < 16 then bn_mul_normal a b @ replicate (2 * n2 - length a - length b) 0
      else
        let n = n2 div 2;
            tna = length a - n;
            tnb = length b - n;
            (t0, neg) = bn_abs_sub_part_words (take n a) (drop n a) tna (int n - int tna);
            (t1, neg') = bn_abs_sub_part_words (drop n b) (take n b) tnb (int tnb - int n);
            full = (length a = n2 \<and> length b = n2);
            mult = (\<lambda>x y. if n = 4 \<and> full then bn_mul_comba4 x y
                          else if n = 8 \<and> full then bn_mul_comba8 x y
                          else bn_mul_recursive n x y) in
        karatsuba_join n (mult (take n a) (take n b)) (mult (drop n a) (drop n b)) (mult t0 t1) (neg XOR neg'))"
  by auto

termination by (relation "measure (\<lambda>(n2, a, b). n2)") auto

declare bn_mul_recursive.simps [simp del]

text \<open>The loop that halves \<open>i\<close>, and which of the two functions it calls.\<close>

function part_split :: "nat \<Rightarrow> nat \<Rightarrow> nat \<Rightarrow> nat \<times> bool" where
  "part_split i tna tnb =
     (let i = i div 2 in
      if i < tna \<or> i < tnb then (i, True)
      else if i = tna \<or> i = tnb then (i, False)
      else part_split i tna tnb)"
  by auto

termination by (relation "measure (\<lambda>(i, tna, tnb). i)") auto

declare part_split.simps [simp del]

text \<open>
  \<open>bn_mul_part_recursive\<close> on the old contents \<open>r\<close> of the result array of \<open>4 * n\<close> words; \<open>a\<close> has \<open>n + tna\<close> words,
  \<open>b\<close> has \<open>n + tnb\<close>. For \<open>n < 8\<close> the code clears \<open>2 * n - tna - tnb\<close> bytes behind the product.
\<close>

definition clear_bytes :: "nat \<Rightarrow> u64 list \<Rightarrow> u64 list" where
  "clear_bytes k ws = block_words (length ws) (replicate k 0 @ drop k (word_bytes ws))"

lemma part_split_less: "0 < i \<Longrightarrow> fst (part_split i tna tnb) < i"
proof (induction i tna tnb rule: part_split.induct)
  case (1 i tna tnb)
  then show ?case by (subst part_split.simps) (force simp: Let_def)
qed

lemma part_split_smaller: "(j, e) = part_split i tna tnb \<Longrightarrow> 0 < i \<Longrightarrow> j < i"
  using part_split_less [of i tna tnb] by (metis fst_conv)

function bn_mul_part_recursive :: "nat \<Rightarrow> u64 list \<Rightarrow> u64 list \<Rightarrow> u64 list \<Rightarrow> u64 list" where
  "bn_mul_part_recursive n a b r =
     (let n2 = n * 2;
          tna = length a - n;
          tnb = length b - n in
      if n < 8 then
        bn_mul_normal a b @ clear_bytes (n2 - tna - tnb) (drop (n2 + tna + tnb) r)
      else
        let (t0, neg) = bn_abs_sub_part_words (take n a) (drop n a) tna (int n - int tna);
            (t1, neg') = bn_abs_sub_part_words (drop n b) (take n b) tnb (int tnb - int n);
            mult = (\<lambda>x y. if n = 8 then bn_mul_comba8 x y else bn_mul_recursive n x y);
            a1 = drop n a;
            b1 = drop n b;
            zeros = replicate n2 0;
            high =
              (if n = 8 \<or> tna < 16 \<and> tnb < 16 then bn_mul_normal a1 b1 @ replicate (n2 - tna - tnb) 0
               else
                 (case part_split n tna tnb of
                    (i, True) \<Rightarrow> bn_mul_part_recursive i a1 b1 (take (4 * i) zeros) @ drop (4 * i) zeros
                  | (i, False) \<Rightarrow> bn_mul_recursive i a1 b1 @ drop (2 * i) zeros)) in
        karatsuba_join n (mult (take n a) (take n b)) high (mult t0 t1) (neg XOR neg'))"
  by auto

termination
proof (relation "measure (\<lambda>(n, a, b, r). n)", goal_cases)
  case (2 n a b r)
  then show ?case by (auto dest: part_split_smaller)
qed simp

declare bn_mul_part_recursive.simps [simp del]

text \<open>\<open>bn_mul_small\<close> aborts when the result array does not have the length of the product.\<close>

definition bn_mul_small :: "nat \<Rightarrow> u64 list \<Rightarrow> u64 list \<Rightarrow> u64 list option" where
  "bn_mul_small num_r a b =
     (if num_r \<noteq> length a + length b then None
      else if length a = 8 \<and> length b = 8 then Some (bn_mul_comba8 a b)
      else Some (bn_mul_normal a b))"

section \<open>Squaring\<close>

text \<open>The products \<open>a[i] * a[j]\<close> with \<open>i < j\<close>, row by row; each row fixes two words of the result.\<close>

fun sqr_rows :: "u64 list \<Rightarrow> u64 list \<Rightarrow> u64 list" where
  "sqr_rows rp (x # y # ap) =
     (let (ws, c) = bn_mul_add_words rp (y # ap) x in
      take 2 (ws @ [c]) @ sqr_rows (drop 2 (ws @ [c])) (y # ap))"
| "sqr_rows rp ap = []"

definition sqr_cross :: "u64 list \<Rightarrow> u64 list" where
  "sqr_cross a =
     (case a of
        x # y # ap \<Rightarrow>
          (let (ws, c) = bn_mul_words (y # ap) x in
           take 2 (ws @ [c]) @ sqr_rows (drop 2 (ws @ [c])) (y # ap))
      | _ \<Rightarrow> [])"

definition bn_sqr_normal :: "u64 list \<Rightarrow> u64 list" where
  "bn_sqr_normal a =
     (if a = [] then []
      else
        let r = [0] @ sqr_cross a @ [0];
            (r, _) = bn_add_words r r;
            tmp = bn_sqr_words a;
            (r, _) = bn_add_words r tmp in
        r)"

function bn_sqr_recursive :: "nat \<Rightarrow> u64 list \<Rightarrow> u64 list" where
  "bn_sqr_recursive n2 a =
     (if n2 = 4 then bn_sqr_comba4 a
      else if n2 = 8 then bn_sqr_comba8 a
      else if n2 < 16 then bn_sqr_normal a
      else
        let n = n2 div 2;
            t0 = bn_abs_sub_words (take n a) (drop n a);
            t23 = bn_sqr_recursive n t0;
            r01 = bn_sqr_recursive n (take n a);
            r23 = bn_sqr_recursive n (drop n a);
            r = r01 @ r23;
            (t01, c) = bn_add_words r01 r23;
            (t23, b) = bn_sub_words t01 t23;
            c = c - b;
            (mid, k) = bn_add_words (take n2 (drop n r)) t23;
            c = c + k in
        take n r @ mid @ carry_words c (drop (n + n2) r))"
  by auto

termination by (relation "measure fst") auto

declare bn_sqr_recursive.simps [simp del]

definition BN_SMALL_MAX_WORDS :: nat where
  "BN_SMALL_MAX_WORDS = 9"

definition bn_sqr_small :: "nat \<Rightarrow> u64 list \<Rightarrow> u64 list option" where
  "bn_sqr_small num_r a =
     (if num_r \<noteq> 2 * length a \<or> BN_SMALL_MAX_WORDS < length a then None
      else if length a = 4 then Some (bn_sqr_comba4 a)
      else if length a = 8 then Some (bn_sqr_comba8 a)
      else Some (bn_sqr_normal a))"

section \<open>Schoolbook values\<close>

text \<open>The weight of the word after \<open>n\<close> words.\<close>

abbreviation weight :: "nat \<Rightarrow> nat" where
  "weight n \<equiv> 2 ^ (64 * n)"

lemma weight_add: "weight (m + n) = weight m * weight n"
  by (simp add: distrib_left power_add)

lemma mul_rows_value:
  "length rs = Suc (length a) \<Longrightarrow> length (mul_rows a rs bs) = length rs + length bs
     \<and> wval (mul_rows a rs bs) = wval rs + 2 ^ 64 * (wval a * wval bs)"
proof (induction bs arbitrary: rs)
  case (Cons b bs)
  then obtain r rs' where rs: "rs = r # rs'" "length rs' = length a" by (cases rs) auto
  obtain ws c where w: "bn_mul_add_words rs' a b = (ws, c)" by fastforce
  have v: "length ws = length a" "wval ws + weight (length a) * unat c = wval rs' + wval a * unat b"
    using mul_add_loop_value [of rs' a b 0 ws c] w rs(2) by (simp_all add: bn_mul_add_words_def)
  have IH: "length (mul_rows a (ws @ [c]) bs) = Suc (length a) + length bs"
    "wval (mul_rows a (ws @ [c]) bs) = wval rs' + wval a * unat b + 2 ^ 64 * (wval a * wval bs)"
    using Cons(1) [of "ws @ [c]"] v by (simp_all add: wval_append)
  have "wval (mul_rows a rs (b # bs)) = unat r + 2 ^ 64 * (wval rs' + wval a * unat b + 2 ^ 64 * (wval a * wval bs))"
    using IH(2) by (simp add: rs(1) w)
  also have "\<dots> = wval rs + 2 ^ 64 * (wval a * wval (b # bs))"
    unfolding rs(1) wval.simps by (simp only: distrib_left distrib_right ac_simps)
  finally show ?case using IH(1) by (simp add: rs w)
qed (cases rs; simp)

lemma mul_all_rows_value:
  "length (mul_all_rows a b) = length a + length b \<and> wval (mul_all_rows a b) = wval a * wval b"
proof (cases b)
  case (Cons b0 bs)
  obtain ws c where w: "bn_mul_words a b0 = (ws, c)" by fastforce
  have v: "length ws = length a" "wval ws + weight (length a) * unat c = wval a * unat b0"
    using mul_loop_value [of a b0 0 ws c] w by (simp_all add: bn_mul_words_def)
  show ?thesis using mul_rows_value [of "ws @ [c]" a bs] v
    by (simp add: mul_all_rows_def Cons w wval_append distrib_left mult.left_commute)
qed (simp add: mul_all_rows_def)

lemma mul_normal_value:
  "length (bn_mul_normal a b) = length a + length b \<and> wval (bn_mul_normal a b) = wval a * wval b"
  using mul_all_rows_value [of a b] mul_all_rows_value [of b a] by (simp add: bn_mul_normal_def mult.commute add.commute)

section \<open>Values of differences\<close>

lemma sub_part_neg_loop: "sub_part_neg c ts = sub_loop c (replicate (length ts) 0) ts"
proof (induction c ts rule: sub_part_neg.induct)
  case (2 c t ts)
  have "(if 0 \<noteq> t then (if 0 < t then 1 else 0) else c) = (if t \<noteq> 0 then 1 else c)" by (simp add: word_neq_0_conv)
  then show ?case using 2 by (simp add: Let_def)
qed simp

lemma sub_loop_0: "sub_loop 0 ts (replicate (length ts) 0) = (ts, 0)"
  by (induction ts) (simp_all add: Let_def)

lemma sub_part_pos_loop: "sub_part_pos c ts = sub_loop c ts (replicate (length ts) 0)"
proof (induction c ts rule: sub_part_pos.induct)
  case (2 c t ts)
  show ?case
  proof (cases "c = 0")
    case True
    then show ?thesis using sub_loop_0 [of "t # ts"] by simp
  next
    case False
    have "(if t \<noteq> 0 then (if t < 0 then 1 else 0) else c) = (if t \<noteq> 0 then 0 else c)" by simp
    then show ?thesis using 2 False by (simp add: Let_def)
  qed
qed simp

text \<open>The arguments of \<open>bn_sub_part_words\<close> fit its calling convention.\<close>

definition parts :: "u64 list \<Rightarrow> u64 list \<Rightarrow> nat \<Rightarrow> int \<Rightarrow> bool" where
  "parts a b cl dl \<longleftrightarrow> length a = cl + nat dl \<and> length b = cl + nat (- dl)"

lemma sub_part_words_value:
  assumes "parts a b cl dl" "bn_sub_part_words a b cl dl = (r, c)"
  shows "length r = cl + nat \<bar>dl\<bar> \<and> unat c \<le> 1 \<and> wval r + wval b = wval a + weight (length r) * unat c"
proof -
  have la: "length a = cl + nat dl" "length b = cl + nat (- dl)" using assms(1) by (simp_all add: parts_def)
  obtain r0 c0 where s: "bn_sub_words (take cl a) (take cl b) = (r0, c0)" by fastforce
  have l: "length (take cl a) = cl" "length (take cl b) = cl" using la by simp_all
  have v0: "length r0 = cl" "unat c0 \<le> 1" "wval r0 + wval (take cl b) = wval (take cl a) + weight cl * unat c0"
    using bn_sub_words_value [OF _ s] l by simp_all
  define as where "as = drop cl a @ replicate (nat (- dl)) 0"
  define bs where "bs = drop cl b @ replicate (nat dl) 0"
  have n: "length as = nat \<bar>dl\<bar>" "length bs = nat \<bar>dl\<bar>" using la by (auto simp: as_def bs_def)
  have wa: "wval a = wval (take cl a) + weight cl * wval as" "wval b = wval (take cl b) + weight cl * wval bs"
    using wval_take_drop [of a cl] wval_take_drop [of b cl] l by (simp_all add: as_def bs_def wval_append)
  obtain rs where rs: "r = r0 @ rs" "sub_loop c0 as bs = (rs, c)"
  proof (cases "dl = 0")
    case True
    then show ?thesis using that [of "[]"] assms(2) s n by (simp add: bn_sub_part_words_def)
  next
    case False
    show ?thesis
    proof (cases "dl < 0")
      case True
      have "as = replicate (nat (- dl)) 0" "bs = drop cl b" "take (nat (- dl)) (drop cl b) = drop cl b"
        using True la by (simp_all add: as_def bs_def)
      then show ?thesis using that assms(2) s True la(2) sub_part_neg_loop [of c0 "drop cl b"]
        by (auto simp: bn_sub_part_words_def Let_def split: prod.splits)
    next
      case pos: False
      have "bs = replicate (nat dl) 0" "as = drop cl a" "take (nat dl) (drop cl a) = drop cl a"
        using pos la by (simp_all add: as_def bs_def)
      then show ?thesis using that assms(2) s pos False la(1) sub_part_pos_loop [of c0 "drop cl a"]
        by (auto simp: bn_sub_part_words_def Let_def split: prod.splits)
    qed
  qed
  have v: "length rs = nat \<bar>dl\<bar>" "unat c \<le> 1" "wval rs + wval bs + unat c0 = wval as + weight (nat \<bar>dl\<bar>) * unat c"
    using sub_loop_value [OF _ v0(2) rs(2)] n by simp_all
  have "wval r + wval b = (wval r0 + wval (take cl b)) + weight cl * (wval rs + wval bs)"
    unfolding wa rs(1) wval_append v0(1) by (simp only: distrib_left distrib_right ac_simps)
  also have "\<dots> = wval (take cl a) + weight cl * (wval rs + wval bs + unat c0)"
    unfolding v0(3) by (simp only: distrib_left distrib_right ac_simps)
  also have "\<dots> = wval a + weight (cl + nat \<bar>dl\<bar>) * unat c"
    unfolding v(3) wa weight_add by (simp only: distrib_left distrib_right ac_simps)
  finally show ?thesis using v(1,2) v0(1) rs(1) by simp
qed

lemma mask_cases: "unat c \<le> 1 \<Longrightarrow> (0 :: u64) - c = (if c = 0 then 0 else - 1)"
  by (auto simp: le_Suc_eq unat_eq_0) (simp add: word_unat_eq_iff)

text \<open>The absolute difference and the mask of its sign.\<close>

definition abs_diff :: "nat \<Rightarrow> nat \<Rightarrow> nat" where
  "abs_diff m n = (m - n) + (n - m)"

lemma borrow_iff:
  assumes "r + b = a + W * c" "r < W" "c \<le> 1" "b < W" "a < W"
  shows "c = (if a < b then 1 else 0 :: nat)" "\<not> a < b \<Longrightarrow> r = a - b"
  using assms by (auto simp: le_Suc_eq)

lemma wval_less_le: "length ws \<le> n \<Longrightarrow> wval ws < weight n"
proof -
  assume "length ws \<le> n"
  then have "(2 :: nat) ^ (64 * length ws) \<le> weight n" by (intro power_increasing) simp_all
  then show ?thesis using wval_less [of ws] by linarith
qed

lemma abs_sub_part_value:
  assumes "parts a b cl dl" "bn_abs_sub_part_words a b cl dl = (r, m)"
  shows "length r = cl + nat \<bar>dl\<bar> \<and> wval r = abs_diff (wval a) (wval b) \<and> m = (if wval a < wval b then - 1 else 0)"
proof -
  have p2: "parts b a cl (- dl)" using assms(1) by (simp add: parts_def)
  obtain s x where s: "bn_sub_part_words a b cl dl = (s, x)" by fastforce
  obtain t y where t: "bn_sub_part_words b a cl (- dl) = (t, y)" by fastforce
  let ?n = "cl + nat \<bar>dl\<bar>"
  note vs = sub_part_words_value [OF assms(1) s] and vt = sub_part_words_value [OF p2 t]
  have "length a \<le> ?n" "length b \<le> ?n" using assms(1) by (auto simp: parts_def)
  then have lt: "wval a < weight ?n" "wval b < weight ?n" by (simp_all only: wval_less_le)
  have rl: "wval s < weight ?n" "wval t < weight ?n" using wval_less [of s] wval_less [of t] vs vt by simp_all
  have x: "unat x = (if wval a < wval b then 1 else 0)" "\<not> wval a < wval b \<Longrightarrow> wval s = wval a - wval b"
    using borrow_iff [of "wval s" "wval b" "wval a" "weight ?n" "unat x"] vs lt rl by auto
  have y: "\<not> wval b < wval a \<Longrightarrow> wval t = wval b - wval a"
    using borrow_iff [of "wval t" "wval a" "wval b" "weight ?n" "unat y"] vt lt rl by auto
  have m: "0 - x = (if wval a < wval b then - 1 else 0)"
    using x(1) mask_cases [of x] by (auto split: if_splits)
  have "length t = length s" using vs vt by simp
  then have r: "r = (if wval a < wval b then t else s)" "m = (if wval a < wval b then - 1 else 0)"
    using assms(2) select_words_mask [of t s "wval a < wval b"]
    by (auto simp: bn_abs_sub_part_words_def s t Let_def m [simplified])
  then show ?thesis using vs vt x(2) y by (auto simp: abs_diff_def)
qed

lemma abs_sub_words_value:
  assumes "length a = length b"
  shows "length (bn_abs_sub_words a b) = length a \<and> wval (bn_abs_sub_words a b) = abs_diff (wval a) (wval b)"
proof -
  obtain s x where s: "bn_sub_words a b = (s, x)" by fastforce
  obtain t y where t: "bn_sub_words b a = (t, y)" by fastforce
  have e: "bn_abs_sub_part_words a b (length a) 0 = (bn_abs_sub_words a b, 0 - x)"
    using assms s t by (simp add: bn_abs_sub_words_def bn_abs_sub_part_words_def bn_sub_part_words_def Let_def)
  have p: "parts a b (length a) 0" using assms by (simp add: parts_def)
  from abs_sub_part_value [OF p e] show ?thesis by simp
qed

section \<open>The sum of the three products\<close>

lemma low_div_mod: "x < B \<Longrightarrow> (x + B * z) div B = z" "x < B \<Longrightarrow> (x + B * z) mod B = (x :: nat)"
  by simp_all

lemma carry_words_value:
  "length (carry_words c rs) = length rs \<and> wval (carry_words c rs) = (wval rs + unat c) mod weight (length rs)"
proof (induction c rs rule: carry_words.induct)
  case (2 c old rs)
  let ?c = "if old + c < old then 1 else 0 :: u64"
  have step: "unat (old + c) + 2 ^ 64 * unat ?c = unat old + unat c"
    using carry_value [of c old] by (auto simp: add.commute)
  have "wval (old # rs) + unat c = (unat old + unat c) + 2 ^ 64 * wval rs" by simp
  also have "\<dots> = unat (old + c) + 2 ^ 64 * (wval rs + unat ?c)"
    unfolding step [symmetric] by (simp only: distrib_left distrib_right ac_simps)
  finally have "(wval (old # rs) + unat c) mod weight (length (old # rs))
      = (unat (old + c) + 2 ^ 64 * (wval rs + unat ?c)) mod (2 ^ 64 * weight (length rs))"
    unfolding length_Cons base_Suc by (rule arg_cong)
  also have "\<dots> = 2 ^ 64 * ((unat (old + c) + 2 ^ 64 * (wval rs + unat ?c)) div 2 ^ 64 mod weight (length rs))
      + (unat (old + c) + 2 ^ 64 * (wval rs + unat ?c)) mod 2 ^ 64"
    by (rule mod_mult2_eq)
  also have "\<dots> = unat (old + c) + 2 ^ 64 * ((wval rs + unat ?c) mod weight (length rs))"
    unfolding low_div_mod [OF unat_less_64] by (rule add.commute)
  finally show ?case using 2 by (simp add: Let_def)
qed simp

lemma unat_add_small: "unat (a :: u64) + unat b < 2 ^ 64 \<Longrightarrow> unat (a + b) = unat a + unat b"
  by (rule unat_add_exact) simp

lemma split_three: "xs = take n xs @ take m (drop n xs) @ drop (n + m) xs"
  by (metis add.commute append_take_drop_id drop_drop)

lemma karatsuba_join_value:
  assumes l: "length r01 = 2 * n" "length r23 = 2 * n" "length t = 2 * n"
    and mid: "if neg then wval r01 + wval r23 = m + wval t else wval r01 + wval r23 + wval t = m"
    and fits: "wval r01 + weight n * m + weight (2 * n) * wval r23 < weight (4 * n)"
  shows "length (karatsuba_join n r01 r23 t (if neg then - 1 else 0)) = 4 * n
    \<and> wval (karatsuba_join n r01 r23 t (if neg then - 1 else 0)) = wval r01 + weight n * m + weight (2 * n) * wval r23"
proof -
  let ?W = "weight (2 * n)" and ?r = "r01 @ r23"
  obtain t01 c where c: "bn_add_words r01 r23 = (t01, c)" by fastforce
  note vc = bn_add_words_value [OF _ c]
  have vc: "length t01 = 2 * n" "unat c \<le> 1" "wval t01 + ?W * unat c = wval r01 + wval r23" using vc l by simp_all
  obtain df b where b: "bn_sub_words t01 t = (df, b)" by fastforce
  note vb = bn_sub_words_value [OF _ b]
  have vb: "length df = 2 * n" "unat b \<le> 1" "wval df + wval t = wval t01 + ?W * unat b" using vb l vc(1) by simp_all
  obtain sm k where k: "bn_add_words t01 t = (sm, k)" by fastforce
  note vk = bn_add_words_value [OF _ k]
  have vk: "length sm = 2 * n" "unat k \<le> 1" "wval sm + ?W * unat k = wval t01 + wval t" using vk l vc(1) by simp_all
  define md where "md = (if neg then df else sm)"
  define C where "C = (if neg then c - b else c + k)"
  have lt: "wval df < ?W" using wval_less [of df] vb(1) by simp
  have md: "length md = 2 * n" "unat C \<le> 2" "wval md + ?W * unat C = m"
  proof -
    show "length md = 2 * n" using vb(1) vk(1) by (simp add: md_def)
    have "unat C \<le> 2 \<and> wval md + ?W * unat C = m"
    proof (cases neg)
      case True
      have e: "wval df + ?W * unat c = m + ?W * unat b" using vc(3) vb(3) mid True by simp
      have le: "unat b \<le> unat c"
      proof (rule ccontr)
        assume "\<not> unat b \<le> unat c"
        then have "unat c = 0" "unat b = 1" using vb(2) by simp_all
        then show False using e lt by simp
      qed
      then have "unat C = unat c - unat b" using True by (simp add: C_def unat_sub word_le_nat_alt)
      moreover have "wval df + ?W * (unat c - unat b) = m" using e le by (simp add: diff_mult_distrib2)
      ultimately show ?thesis using True vc(2) by (simp add: md_def)
    next
      case False
      have "unat C = unat c + unat k" using False vc(2) vk(2) by (simp add: C_def unat_add_small)
      moreover have "wval sm + ?W * (unat c + unat k) = m" using vc(3) vk(3) mid False by (simp add: distrib_left)
      ultimately show ?thesis using False vc(2) vk(2) by (simp add: md_def)
    qed
    then show "unat C \<le> 2" "wval md + ?W * unat C = m" by simp_all
  qed
  define lo where "lo = take n ?r"
  define mr where "mr = take (n * 2) (drop n ?r)"
  define hi where "hi = drop (n + n * 2) ?r"
  have ll: "length lo = n" "length mr = 2 * n" "length hi = n" using l by (simp_all add: lo_def mr_def hi_def)
  have "?r = lo @ mr @ hi" unfolding lo_def mr_def hi_def by (rule split_three)
  then have "wval ?r = wval (lo @ mr @ hi)" by (rule arg_cong)
  then have R: "wval r01 + ?W * wval r23 = wval lo + weight n * (wval mr + ?W * wval hi)"
    using l ll by (simp add: wval_append)
  obtain ms k' where k': "bn_add_words mr md = (ms, k')" by fastforce
  note vk' = bn_add_words_value [OF _ k']
  have vk': "length ms = 2 * n" "unat k' \<le> 1" "wval ms + ?W * unat k' = wval mr + wval md" using vk' ll md(1) by simp_all
  have C': "unat (C + k') = unat C + unat k'" using md(2) vk'(2) by (simp add: unat_add_small)
  have sel: "bn_select_words (if neg then - 1 else 0) df sm = md" using select_words_mask [of df sm neg] vb(1) vk(1) by (simp add: md_def)
  have selc: "constant_time_select_w (if neg then - 1 else 0) (c - b) (c + k) = C" by (simp add: select_w_mask C_def)
  have run: "karatsuba_join n r01 r23 t (if neg then - 1 else 0) = lo @ ms @ carry_words (C + k') hi"
    unfolding karatsuba_join_def Let_def c b k prod.case sel selc mr_def [symmetric] k' lo_def [symmetric] hi_def [symmetric] by (rule refl)
  have tot: "wval r01 + weight n * m + ?W * wval r23 = wval lo + weight n * (wval ms + ?W * (wval hi + unat (C + k')))"
  proof -
    have "wval r01 + weight n * m + ?W * wval r23 = wval lo + weight n * (wval mr + ?W * wval hi) + weight n * (wval md + ?W * unat C)"
      unfolding md(3) using R by simp
    also have "\<dots> = wval lo + weight n * ((wval mr + wval md) + ?W * (wval hi + unat C))" by (simp only: distrib_left distrib_right ac_simps)
    also have "\<dots> = wval lo + weight n * (wval ms + ?W * (wval hi + unat (C + k')))"
      unfolding vk'(3) [symmetric] C' by (simp only: distrib_left distrib_right ac_simps)
    finally show ?thesis .
  qed
  have "wval hi + unat (C + k') < weight n"
  proof (rule ccontr)
    assume "\<not> wval hi + unat (C + k') < weight n"
    then have "weight n * (?W * weight n) \<le> weight n * (?W * (wval hi + unat (C + k')))" by (intro mult_le_mono2) simp
    moreover have "weight n * (?W * weight n) = weight (4 * n)" by (simp only: weight_add [symmetric]) simp
    ultimately show False using fits tot by (simp add: distrib_left)
  qed
  then have "wval (carry_words (C + k') hi) = wval hi + unat (C + k')" using carry_words_value [of "C + k'" hi] ll(3) by simp
  then show ?thesis using carry_words_value [of "C + k'" hi] ll vk'(1) unfolding run tot by (simp add: wval_append)
qed


section \<open>Karatsuba's algorithm\<close>

text \<open>The middle term from the difference of the halves, for either sign.\<close>

lemma middle_term:
  fixes a0 a1 b0 b1 :: nat
  shows "if (a0 < a1) \<noteq> (b1 < b0)
    then a0 * b0 + a1 * b1 = (a0 * b1 + a1 * b0) + abs_diff a0 a1 * abs_diff b1 b0
    else a0 * b0 + a1 * b1 + abs_diff a0 a1 * abs_diff b1 b0 = a0 * b1 + a1 * b0"
proof -
  have "int (abs_diff a0 a1) = (if a0 < a1 then int a1 - int a0 else int a0 - int a1)"
    "int (abs_diff b1 b0) = (if b1 < b0 then int b0 - int b1 else int b1 - int b0)"
    by (auto simp: abs_diff_def)
  then have "if (a0 < a1) \<noteq> (b1 < b0)
    then int a0 * int b0 + int a1 * int b1 = (int a0 * int b1 + int a1 * int b0) + int (abs_diff a0 a1) * int (abs_diff b1 b0)
    else int a0 * int b0 + int a1 * int b1 + int (abs_diff a0 a1) * int (abs_diff b1 b0) = int a0 * int b1 + int a1 * int b0"
    by (auto simp: algebra_simps)
  then show ?thesis by (simp only: of_nat_mult [symmetric] of_nat_add [symmetric] of_nat_eq_iff)
qed

lemma halves: "n \<le> length a \<Longrightarrow> wval a = wval (take n a) + weight n * wval (drop n a)"
  using wval_take_drop [of a n] by simp

lemma mask_xor: "(if p then - 1 else 0 :: u64) XOR (if q then - 1 else 0) = (if p \<noteq> q then - 1 else 0)"
  by simp

text \<open>The three products joined: both recursive functions end with it.\<close>

lemma karatsuba_value:
  assumes a: "n \<le> length a" "length a \<le> 2 * n" and b: "n \<le> length b" "length b \<le> 2 * n"
    and d0: "bn_abs_sub_part_words (take n a) (drop n a) (length a - n) (int n - int (length a - n)) = (t0, m0)"
    and d1: "bn_abs_sub_part_words (drop n b) (take n b) (length b - n) (int (length b - n) - int n) = (t1, m1)"
    and low: "length lo = 2 * n \<and> wval lo = wval (take n a) * wval (take n b)"
    and high: "length hi = 2 * n \<and> wval hi = wval (drop n a) * wval (drop n b)"
    and dif: "length md = 2 * n \<and> wval md = wval t0 * wval t1"
  shows "length (karatsuba_join n lo hi md (m0 XOR m1)) = 4 * n \<and> wval (karatsuba_join n lo hi md (m0 XOR m1)) = wval a * wval b"
proof -
  let ?a0 = "wval (take n a)" and ?a1 = "wval (drop n a)" and ?b0 = "wval (take n b)" and ?b1 = "wval (drop n b)"
  have pa: "parts (take n a) (drop n a) (length a - n) (int n - int (length a - n))" using a by (simp add: parts_def)
  have pb: "parts (drop n b) (take n b) (length b - n) (int (length b - n) - int n)" using b by (simp add: parts_def)
  have v0: "wval t0 = abs_diff ?a0 ?a1" "m0 = (if ?a0 < ?a1 then - 1 else 0)" using abs_sub_part_value [OF pa d0] by simp_all
  have v1: "wval t1 = abs_diff ?b1 ?b0" "m1 = (if ?b1 < ?b0 then - 1 else 0)" using abs_sub_part_value [OF pb d1] by simp_all
  let ?neg = "(?a0 < ?a1) \<noteq> (?b1 < ?b0)"
  have m: "m0 XOR m1 = (if ?neg then - 1 else 0)" unfolding v0(2) v1(2) by (rule mask_xor)
  have mid: "if ?neg then wval lo + wval hi = (?a0 * ?b1 + ?a1 * ?b0) + wval md else wval lo + wval hi + wval md = ?a0 * ?b1 + ?a1 * ?b0"
    using middle_term [of ?a0 ?a1 ?b1 ?b0] low high dif v0(1) v1(1) by simp
  have "wval a * wval b = (?a0 + weight n * ?a1) * (?b0 + weight n * ?b1)" using halves a(1) b(1) by metis
  also have "\<dots> = ?a0 * ?b0 + weight n * (?a0 * ?b1 + ?a1 * ?b0) + weight n * weight n * (?a1 * ?b1)"
    by (simp only: distrib_left distrib_right ac_simps)
  also have "weight n * weight n = weight (2 * n)" by (simp only: weight_add [symmetric] mult_2)
  finally have prod: "wval lo + weight n * (?a0 * ?b1 + ?a1 * ?b0) + weight (2 * n) * wval hi = wval a * wval b"
    using low high by simp
  have "wval a * wval b < weight (2 * n) * weight (2 * n)"
    by (rule mult_strict_mono' [OF wval_less_le [OF a(2)] wval_less_le [OF b(2)]]) simp_all
  then have fits: "wval lo + weight n * (?a0 * ?b1 + ?a1 * ?b0) + weight (2 * n) * wval hi < weight (4 * n)"
    unfolding prod by (simp only: weight_add [symmetric]) simp
  show ?thesis using karatsuba_join_value [of lo n hi md ?neg, OF _ _ _ mid fits] low high dif unfolding m prod by simp
qed

lemma abs_sub_part_length:
  assumes "n \<le> length a" "length a \<le> 2 * n"
  shows "length (fst (bn_abs_sub_part_words (take n a) (drop n a) (length a - n) (int n - int (length a - n)))) = n"
    "length (fst (bn_abs_sub_part_words (drop n a) (take n a) (length a - n) (int (length a - n) - int n))) = n"
proof -
  have pa: "parts (take n a) (drop n a) (length a - n) (int n - int (length a - n))" using assms by (simp add: parts_def)
  have pb: "parts (drop n a) (take n a) (length a - n) (int (length a - n) - int n)" using assms by (simp add: parts_def)
  show "length (fst (bn_abs_sub_part_words (take n a) (drop n a) (length a - n) (int n - int (length a - n)))) = n"
    using abs_sub_part_value [OF pa surjective_pairing] assms by simp
  show "length (fst (bn_abs_sub_part_words (drop n a) (take n a) (length a - n) (int (length a - n) - int n))) = n"
    using abs_sub_part_value [OF pb surjective_pairing] assms by simp
qed

text \<open>The arguments that the comment at \<open>bn_mul_recursive\<close> allows.\<close>

definition recursive_args :: "nat \<Rightarrow> u64 list \<Rightarrow> u64 list \<Rightarrow> bool" where
  "recursive_args n2 a b \<longleftrightarrow> (\<exists>k. n2 = 2 ^ k) \<and> length a \<le> n2 \<and> n2 \<le> length a + 8 \<and> length b \<le> n2 \<and> n2 \<le> length b + 8"

lemma mul_recursive_value:
  "recursive_args n2 a b \<Longrightarrow> length (bn_mul_recursive n2 a b) = 2 * n2 \<and> wval (bn_mul_recursive n2 a b) = wval a * wval b"
proof (induction n2 arbitrary: a b rule: less_induct)
  case (less n2)
  have l: "length a \<le> n2" "n2 \<le> length a + 8" "length b \<le> n2" "n2 \<le> length b + 8" using less(2) by (simp_all add: recursive_args_def)
  show ?case
  proof (cases "n2 = 8 \<and> length a = n2 \<and> length b = n2")
    case True
    then show ?thesis using mul_comba8_value [of a b] by (simp add: bn_mul_recursive.simps [of 8])
  next
    case n8: False
    show ?thesis
    proof (cases "n2 < 16")
      case True
      then show ?thesis using mul_normal_value [of a b] l n8
        by (subst (1 2) bn_mul_recursive.simps) (auto simp: wval_append)
    next
      case False
      define n where "n = n2 div 2"
      obtain k where k: "n2 = 2 ^ k" using less(2) by (auto simp: recursive_args_def)
      have "k \<noteq> 0" using k False by (intro notI) simp
      then obtain k' where k': "k = Suc k'" by (cases k) auto
      then have n: "n2 = 2 * n" "n = 2 ^ k'" "8 \<le> n" using k False by (simp_all add: n_def)
      define full where "full \<longleftrightarrow> length a = n2 \<and> length b = n2"
      define mult where "mult = (\<lambda>x y. if n = 4 \<and> full then bn_mul_comba4 x y else if n = 8 \<and> full then bn_mul_comba8 x y else bn_mul_recursive n x y)"
      obtain t0 m0 where d0: "bn_abs_sub_part_words (take n a) (drop n a) (length a - n) (int n - int (length a - n)) = (t0, m0)" by fastforce
      obtain t1 m1 where d1: "bn_abs_sub_part_words (drop n b) (take n b) (length b - n) (int (length b - n) - int n) = (t1, m1)" by fastforce
      have run: "bn_mul_recursive n2 a b = karatsuba_join n (mult (take n a) (take n b)) (mult (drop n a) (drop n b)) (mult t0 t1) (m0 XOR m1)"
        using n8 False d0 d1 unfolding bn_mul_recursive.simps [of n2] Let_def n_def [symmetric] full_def mult_def by simp
      have la: "n \<le> length a" "length a \<le> 2 * n" "n \<le> length b" "length b \<le> 2 * n" using l n by simp_all
      have lt: "length t0 = n" "length t1 = n" using abs_sub_part_length(1) [OF la(1,2)] abs_sub_part_length(2) [OF la(3,4)] d0 d1 by simp_all
      have mult: "length (mult x y) = 2 * n \<and> wval (mult x y) = wval x * wval y"
        if "length x \<le> n" "n \<le> length x + 8" "length y \<le> n" "n \<le> length y + 8" "full \<longrightarrow> length x = n \<and> length y = n" for x y
      proof (cases "n = 8 \<and> full")
        case True
        then show ?thesis using mul_comba8_value [of x y] that n by (simp add: mult_def)
      next
        case no8: False
        have "recursive_args n x y" using that n by (auto simp: recursive_args_def)
        moreover have "n < n2" using n by simp
        ultimately show ?thesis using less(1) no8 n by (auto simp: mult_def)
      qed
      have "length (bn_mul_recursive n2 a b) = 4 * n \<and> wval (bn_mul_recursive n2 a b) = wval a * wval b"
        unfolding run
        by (rule karatsuba_value [OF la d0 d1 mult mult mult]) (use l n(1,3) lt in \<open>auto simp: full_def\<close>)
      then show ?thesis using n(1) by simp
    qed
  qed
qed


text \<open>The arguments that the comment at \<open>bn_mul_part_recursive\<close> allows, for the sizes that its callers use.\<close>

definition part_args :: "nat \<Rightarrow> u64 list \<Rightarrow> u64 list \<Rightarrow> bool" where
  "part_args n a b \<longleftrightarrow> (\<exists>k. n = 2 ^ k) \<and> 8 \<le> n \<and> n \<le> length a \<and> length a < 2 * n \<and> n \<le> length b \<and> length b < 2 * n
     \<and> length a \<le> length b + 1 \<and> length b \<le> length a + 1"

lemma part_split_spec:
  assumes "16 \<le> tna \<or> 16 \<le> tnb" "tna \<le> tnb + 1" "tnb \<le> tna + 1"
  shows "tna < 2 ^ k \<and> tnb < 2 ^ k \<and> part_split (2 ^ k) tna tnb = (i, again) \<Longrightarrow>
    (\<exists>j. i = 2 ^ j) \<and> 8 \<le> i \<and> 2 * i \<le> 2 ^ k \<and> (if again then i \<le> tna \<and> tna < 2 * i \<and> i \<le> tnb \<and> tnb < 2 * i else tna \<le> i \<and> tnb \<le> i \<and> (i = tna \<or> i = tnb))"
proof (induction k)
  case 0
  then show ?case using assms(1) by simp
next
  case (Suc k)
  have half: "2 ^ Suc k div 2 = (2 :: nat) ^ k" by simp
  have p: "part_split (2 ^ Suc k) tna tnb = (if 2 ^ k < tna \<or> 2 ^ k < tnb then (2 ^ k, True)
      else if 2 ^ k = tna \<or> 2 ^ k = tnb then (2 ^ k, False) else part_split (2 ^ k) tna tnb)"
    by (subst part_split.simps) (simp only: Let_def half)
  have big: "8 \<le> (2 :: nat) ^ k"
  proof (rule ccontr)
    assume "\<not> 8 \<le> (2 :: nat) ^ k"
    then have "(2 :: nat) ^ Suc k < 16" by simp
    then show False using Suc(2) assms(1) by linarith
  qed
  show ?case
  proof (cases "2 ^ k < tna \<or> 2 ^ k < tnb")
    case True
    then have "i = 2 ^ k" "again" using Suc(2) p by auto
    moreover have "tna < 2 * 2 ^ k" "tnb < 2 * 2 ^ k" using Suc(2) by simp_all
    ultimately show ?thesis using True big assms(2,3) by auto
  next
    case no: False
    show ?thesis
    proof (cases "2 ^ k = tna \<or> 2 ^ k = tnb")
      case True
      then have "i = 2 ^ k" "\<not> again" using Suc(2) p no by auto
      then show ?thesis using True no big by auto
    next
      case False
      then have "tna < 2 ^ k \<and> tnb < 2 ^ k \<and> part_split (2 ^ k) tna tnb = (i, again)" using no Suc(2) p by auto
      from Suc(1) [OF this] show ?thesis by auto
    qed
  qed
qed

lemma mul_part_recursive_value:
  "part_args n a b \<Longrightarrow> length r = 4 * n \<Longrightarrow>
     length (bn_mul_part_recursive n a b r) = 4 * n \<and> wval (bn_mul_part_recursive n a b r) = wval a * wval b"
proof (induction n arbitrary: a b r rule: less_induct)
  case (less n)
  obtain k where k: "n = 2 ^ k" using less(2) by (auto simp: part_args_def)
  have l: "8 \<le> n" "n \<le> length a" "length a \<le> 2 * n" "n \<le> length b" "length b \<le> 2 * n" and lt2: "length a < 2 * n" "length b < 2 * n"
    and near: "length a \<le> length b + 1" "length b \<le> length a + 1"
    using less(2) by (simp_all add: part_args_def)
  define tna where "tna = length a - n"
  define tnb where "tnb = length b - n"
  define mult where "mult = (\<lambda>x y. if n = 8 then bn_mul_comba8 x y else bn_mul_recursive n x y)"
  define zeros where "zeros = replicate (n * 2) (0 :: u64)"
  define high where "high = (if n = 8 \<or> tna < 16 \<and> tnb < 16 then bn_mul_normal (drop n a) (drop n b) @ replicate (n * 2 - tna - tnb) 0
      else (case part_split n tna tnb of
              (i, True) \<Rightarrow> bn_mul_part_recursive i (drop n a) (drop n b) (take (4 * i) zeros) @ drop (4 * i) zeros
            | (i, False) \<Rightarrow> bn_mul_recursive i (drop n a) (drop n b) @ drop (2 * i) zeros))"
  obtain t0 m0 where d0: "bn_abs_sub_part_words (take n a) (drop n a) tna (int n - int tna) = (t0, m0)" by fastforce
  obtain t1 m1 where d1: "bn_abs_sub_part_words (drop n b) (take n b) tnb (int tnb - int n) = (t1, m1)" by fastforce
  have run: "bn_mul_part_recursive n a b r = karatsuba_join n (mult (take n a) (take n b)) high (mult t0 t1) (m0 XOR m1)"
    using l(1) d0 d1 unfolding bn_mul_part_recursive.simps [of n] Let_def tna_def [symmetric] tnb_def [symmetric] zeros_def [symmetric]
      high_def [symmetric] mult_def by simp
  have lt: "length t0 = n" "length t1 = n"
    using abs_sub_part_length(1) [OF l(2,3)] abs_sub_part_length(2) [OF l(4,5)] d0 d1 by (simp_all add: tna_def tnb_def)
  have mult: "length (mult x y) = 2 * n \<and> wval (mult x y) = wval x * wval y" if "length x = n" "length y = n" for x y
    using mul_comba8_value [of x y] mul_recursive_value [of n x y] that k by (auto simp: mult_def recursive_args_def)
  have tn: "length (drop n a) = tna" "length (drop n b) = tnb" "tna < n" "tnb < n" "tna \<le> tnb + 1" "tnb \<le> tna + 1"
    using l lt2 near by (auto simp: tna_def tnb_def)
  have high: "length high = 2 * n \<and> wval high = wval (drop n a) * wval (drop n b)"
  proof (cases "n = 8 \<or> tna < 16 \<and> tnb < 16")
    case True
    then show ?thesis using mul_normal_value [of "drop n a" "drop n b"] tn by (simp add: high_def wval_append)
  next
    case False
    obtain i again where s: "part_split n tna tnb = (i, again)" by fastforce
    have i: "(\<exists>j. i = 2 ^ j) \<and> 8 \<le> i \<and> 2 * i \<le> n \<and> (if again then i \<le> tna \<and> tna < 2 * i \<and> i \<le> tnb \<and> tnb < 2 * i
        else tna \<le> i \<and> tnb \<le> i \<and> (i = tna \<or> i = tnb))"
      using part_split_spec [of tna tnb k i again] s False tn unfolding k by auto
    show ?thesis
    proof (cases again)
      case True
      have "part_args i (drop n a) (drop n b)" using i True tn by (auto simp: part_args_def)
      moreover have "i < n" using i l(1) by linarith
      moreover have "length (take (4 * i) zeros) = 4 * i" using i by (simp add: zeros_def)
      ultimately have "length (bn_mul_part_recursive i (drop n a) (drop n b) (take (4 * i) zeros)) = 4 * i
        \<and> wval (bn_mul_part_recursive i (drop n a) (drop n b) (take (4 * i) zeros)) = wval (drop n a) * wval (drop n b)"
        using less(1) by blast
      then show ?thesis using False True s i by (auto simp: high_def zeros_def wval_append)
    next
      case no: False
      have "recursive_args i (drop n a) (drop n b)" using i no tn by (auto simp: recursive_args_def)
      then have "length (bn_mul_recursive i (drop n a) (drop n b)) = 2 * i \<and> wval (bn_mul_recursive i (drop n a) (drop n b)) = wval (drop n a) * wval (drop n b)"
        by (rule mul_recursive_value)
      then show ?thesis using False no s i by (auto simp: high_def zeros_def wval_append)
    qed
  qed
  have "length (take n a) = n" "length (take n b) = n" using l by simp_all
  then show ?case
    unfolding run using karatsuba_value [OF l(2-5) d0 [unfolded tna_def] d1 [unfolded tnb_def] mult high mult] lt by simp
qed


section \<open>Values of squares\<close>

fun cross_sum :: "u64 list \<Rightarrow> nat" where
  "cross_sum [] = 0"
| "cross_sum (x # xs) = unat x * wval xs + 2 ^ 64 * (2 ^ 64 * cross_sum xs)"

lemma square_split: "wval a * wval a = squares a + 2 * (2 ^ 64 * cross_sum a)"
proof (induction a)
  case (Cons x xs)
  have "wval (x # xs) * wval (x # xs) = unat x * unat x + 2 * (2 ^ 64 * (unat x * wval xs)) + 2 ^ 64 * (2 ^ 64 * (wval xs * wval xs))"
    unfolding wval.simps mult_2 by (simp only: distrib_left distrib_right ac_simps)
  also have "\<dots> = squares (x # xs) + 2 * (2 ^ 64 * cross_sum (x # xs))"
    unfolding Cons squares.simps cross_sum.simps mult_2 by (simp only: distrib_left distrib_right ac_simps)
  finally show ?case .
qed simp

lemma take_drop_2: "2 \<le> length xs \<Longrightarrow> wval xs = wval (take 2 xs) + 2 ^ 64 * (2 ^ 64 * wval (drop 2 xs))"
proof -
  assume "2 \<le> length xs"
  then have "wval xs = wval (take 2 xs) + weight 2 * wval (drop 2 xs)" by (rule halves)
  then show ?thesis by simp
qed

lemma row_value:
  assumes "2 \<le> length out" "length rest = 2 * length ap - 2" "wval rest = wval (drop 2 out) + cross_sum ap" "length out = Suc (length ap)" "ap \<noteq> []"
  shows "length (take 2 out @ rest) = 2 * Suc (length ap) - 2 \<and> wval (take 2 out @ rest) = wval out + 2 ^ 64 * (2 ^ 64 * cross_sum ap)"
proof -
  have "wval (take 2 out @ rest) = wval (take 2 out) + 2 ^ 64 * (2 ^ 64 * (wval (drop 2 out) + cross_sum ap))"
    using assms(1,3) by (simp add: wval_append)
  also have "\<dots> = wval out + 2 ^ 64 * (2 ^ 64 * cross_sum ap)"
    unfolding take_drop_2 [OF assms(1)] by (simp only: distrib_left distrib_right ac_simps)
  finally show ?thesis using assms by (cases ap) simp_all
qed

lemma sqr_rows_value:
  "length rp + 1 = length as \<Longrightarrow> length (sqr_rows rp as) = 2 * length as - 2 \<and> wval (sqr_rows rp as) = wval rp + cross_sum as"
proof (induction rp as rule: sqr_rows.induct)
  case (1 rp x y ap)
  obtain ws c where w: "bn_mul_add_words rp (y # ap) x = (ws, c)" by fastforce
  have v: "length ws = length rp" "wval ws + weight (length rp) * unat c = wval rp + wval (y # ap) * unat x"
    using mul_add_loop_value [of rp "y # ap" x 0 ws c] w 1(2) by (simp_all add: bn_mul_add_words_def)
  have IH: "length (sqr_rows (drop 2 (ws @ [c])) (y # ap)) = 2 * length (y # ap) - 2"
    "wval (sqr_rows (drop 2 (ws @ [c])) (y # ap)) = wval (drop 2 (ws @ [c])) + cross_sum (y # ap)"
    using 1(1) [OF w [symmetric] refl] v(1) 1(2) by auto
  have o: "2 \<le> length (ws @ [c])" "length (ws @ [c]) = Suc (length (y # ap))" using v(1) 1(2) by simp_all
  have "sqr_rows rp (x # y # ap) = take 2 (ws @ [c]) @ sqr_rows (drop 2 (ws @ [c])) (y # ap)" by (simp add: w)
  moreover have "wval (ws @ [c]) = wval rp + unat x * wval (y # ap)" using v by (simp add: wval_append mult.commute)
  ultimately show ?case using row_value [OF o(1) IH o(2)] by simp
qed simp_all

lemma sqr_cross_value:
  "a \<noteq> [] \<Longrightarrow> length (sqr_cross a) = 2 * length a - 2 \<and> wval (sqr_cross a) = cross_sum a"
proof -
  assume ne: "a \<noteq> []"
  consider x where "a = [x]" | x y ap where "a = x # y # ap" using ne by (metis list.exhaust)
  then show ?thesis
  proof cases
    case 2
    obtain ws c where w: "bn_mul_words (y # ap) x = (ws, c)" by fastforce
    have v: "length ws = length (y # ap)" "wval ws + weight (length (y # ap)) * unat c = wval (y # ap) * unat x"
      using mul_loop_value [of "y # ap" x 0 ws c] w by (simp_all add: bn_mul_words_def)
    have o: "2 \<le> length (ws @ [c])" "length (ws @ [c]) = Suc (length (y # ap))" using v(1) by simp_all
    have tl: "length (sqr_rows (drop 2 (ws @ [c])) (y # ap)) = 2 * length (y # ap) - 2"
      "wval (sqr_rows (drop 2 (ws @ [c])) (y # ap)) = wval (drop 2 (ws @ [c])) + cross_sum (y # ap)"
      using sqr_rows_value [of "drop 2 (ws @ [c])" "y # ap"] v(1) by simp_all
    have "sqr_cross a = take 2 (ws @ [c]) @ sqr_rows (drop 2 (ws @ [c])) (y # ap)" by (simp add: sqr_cross_def 2 w)
    moreover have "wval (ws @ [c]) = unat x * wval (y # ap)" using v by (simp add: wval_append mult.commute)
    ultimately show ?thesis using row_value [OF o(1) tl o(2)] by (simp add: 2)
  qed (simp add: sqr_cross_def)
qed

lemma exact_add:
  assumes "length x = n" "length y = n" "wval x + wval y < weight n" "bn_add_words x y = (z, c)"
  shows "length z = n \<and> wval z = wval x + wval y"
proof -
  have v: "length z = n" "wval z + weight n * unat c = wval x + wval y" using bn_add_words_value [OF _ assms(4)] assms(1,2) by simp_all
  have "unat c = 0" using v(2) assms(3) by (cases "unat c") simp_all
  then show ?thesis using v by simp
qed

lemma sqr_normal_value: "length (bn_sqr_normal a) = 2 * length a \<and> wval (bn_sqr_normal a) = wval a * wval a"
proof (cases "a = []")
  case True
  then show ?thesis by (simp add: bn_sqr_normal_def)
next
  case False
  let ?n = "2 * length a"
  note x = sqr_cross_value [OF False]
  define r where "r = [0] @ sqr_cross a @ [0]"
  obtain m where "length a = Suc m" using False by (cases a) auto
  then have r: "length r = ?n" "wval r = 2 ^ 64 * cross_sum a" using x by (simp_all add: r_def wval_append)
  have "wval a * wval a < weight (length a) * weight (length a)" by (rule mult_strict_mono' [OF wval_less wval_less]) simp_all
  also have "weight (length a) * weight (length a) = weight ?n" by (simp only: weight_add [symmetric] mult_2)
  finally have lt: "wval a * wval a < weight ?n" .
  obtain r2 c where r2: "bn_add_words r r = (r2, c)" by fastforce
  have v2: "length r2 = ?n \<and> wval r2 = wval r + wval r"
    by (rule exact_add [OF r(1,1) _ r2]) (use lt square_split [of a] r(2) in linarith)
  obtain r3 d where r3: "bn_add_words r2 (bn_sqr_words a) = (r3, d)" by fastforce
  have v3: "length r3 = ?n \<and> wval r3 = wval r2 + wval (bn_sqr_words a)"
    by (rule exact_add [OF _ _ _ r3]) (use v2 lt square_split [of a] r(2) sqr_words_value [of a] in linarith)+
  have "bn_sqr_normal a = r3" using False r2 r3 unfolding bn_sqr_normal_def r_def [symmetric] by (simp add: Let_def)
  then show ?thesis using v3 v2 r(2) square_split [of a] sqr_words_value [of a] by simp
qed


lemma square_difference: "a * a + b * b = 2 * (a * b) + abs_diff a b * abs_diff (a :: nat) b"
proof -
  have "int (abs_diff a b) = \<bar>int a - int b\<bar>" by (auto simp: abs_diff_def)
  then have "int (abs_diff a b) * int (abs_diff a b) = (int a - int b) * (int a - int b)" by (simp add: abs_mult_self_eq)
  then have "int a * int a + int b * int b = 2 * (int a * int b) + int (abs_diff a b) * int (abs_diff a b)" by (simp add: algebra_simps)
  then have "int (a * a + b * b) = int (2 * (a * b) + abs_diff a b * abs_diff a b)" by simp
  then show ?thesis by (simp only: of_nat_eq_iff)
qed

lemma square_join:
  assumes "length r01 = 2 * n" "length r23 = 2 * n" "length t23 = 2 * n"
    and "bn_add_words r01 r23 = (t01, c)" "bn_sub_words t01 t23 = (df, b)"
    and "bn_add_words (take (n * 2) (drop n (r01 @ r23))) df = (md, k)"
  shows "take n (r01 @ r23) @ md @ carry_words (c - b + k) (drop (n + n * 2) (r01 @ r23)) = karatsuba_join n r01 r23 t23 (- 1)"
proof -
  have t: "length t01 = 2 * n" using bn_add_words_value(1) [OF _ assms(4)] assms(1,2) by simp
  obtain sm x where x: "bn_add_words t01 t23 = (sm, x)" by fastforce
  have l: "length df = length sm"
    using bn_sub_words_value(1) [OF _ assms(5)] bn_add_words_value(1) [OF _ x] t assms(3) by simp
  have "bn_select_words (- 1) df sm = df" using select_words_mask [OF l, of True] by simp
  then show ?thesis
    unfolding karatsuba_join_def Let_def assms(4,5) x prod.case using assms(6) by (simp add: select_w_mask [of True, simplified])
qed

lemma sqr_recursive_value:
  "n2 = 2 ^ k \<Longrightarrow> length a = n2 \<Longrightarrow> length (bn_sqr_recursive n2 a) = 2 * n2 \<and> wval (bn_sqr_recursive n2 a) = wval a * wval a"
proof (induction k arbitrary: n2 a)
  case 0
  then show ?case using sqr_normal_value [of a] by (simp add: bn_sqr_recursive.simps [of "Suc 0"])
next
  case (Suc k)
  show ?case
  proof (cases "n2 < 16")
    case True
    then show ?thesis
      using Suc(3) sqr_comba4_value [of a] sqr_comba8_value [of a] sqr_normal_value [of a]
      by (simp add: bn_sqr_recursive.simps [of n2 a])
  next
    case False
    define n where "n = n2 div 2"
    have n: "n = 2 ^ k" "n2 = n * 2" using Suc(2) by (simp_all add: n_def)
    let ?a0 = "take n a" and ?a1 = "drop n a"
    have l: "length ?a0 = n" "length ?a1 = n" using Suc(3) n(2) by simp_all
    define t0 where "t0 = bn_abs_sub_words ?a0 ?a1"
    have t0: "length t0 = n" "wval t0 = abs_diff (wval ?a0) (wval ?a1)" using abs_sub_words_value [of ?a0 ?a1] l by (simp_all add: t0_def)
    note v01 = Suc(1) [OF n(1) l(1)] and v23 = Suc(1) [OF n(1) l(2)] and vt = Suc(1) [OF n(1) t0(1)]
    define r01 where "r01 = bn_sqr_recursive n ?a0"
    define r23 where "r23 = bn_sqr_recursive n ?a1"
    define t23 where "t23 = bn_sqr_recursive n t0"
    obtain t01 c where c: "bn_add_words r01 r23 = (t01, c)" by fastforce
    obtain df b where b: "bn_sub_words t01 t23 = (df, b)" by fastforce
    obtain md x where x: "bn_add_words (take (n * 2) (drop n (r01 @ r23))) df = (md, x)" by fastforce
    have lr: "length r01 = 2 * n" "length r23 = 2 * n" "length t23 = 2 * n" using v01 v23 vt by (simp_all add: r01_def r23_def t23_def)
    have "bn_sqr_recursive n2 a = take n (r01 @ r23) @ md @ carry_words (c - b + x) (drop (n + n * 2) (r01 @ r23))"
      using False c b x
      unfolding bn_sqr_recursive.simps [of n2 a] Let_def n_def [symmetric] t0_def [symmetric] r01_def [symmetric] r23_def [symmetric] t23_def [symmetric]
      by (simp add: n(2))
    then have run: "bn_sqr_recursive n2 a = karatsuba_join n r01 r23 t23 (- 1)" using square_join [OF lr c b x] by simp
    have mid: "if True then wval r01 + wval r23 = 2 * (wval ?a0 * wval ?a1) + wval t23 else wval r01 + wval r23 + wval t23 = 2 * (wval ?a0 * wval ?a1)"
      using square_difference [of "wval ?a0" "wval ?a1"] v01 v23 vt t0(2) by (simp add: r01_def r23_def t23_def)
    have "wval a = wval ?a0 + weight n * wval ?a1" using Suc(3) n(2) by (intro halves) simp
    then have "wval a * wval a = wval ?a0 * wval ?a0 + weight n * (2 * (wval ?a0 * wval ?a1)) + weight n * weight n * (wval ?a1 * wval ?a1)"
      by (simp only: distrib_left distrib_right mult_2 ac_simps)
    then have tot: "wval r01 + weight n * (2 * (wval ?a0 * wval ?a1)) + weight (2 * n) * wval r23 = wval a * wval a"
      using v01 v23 by (simp add: r01_def r23_def weight_add [symmetric] mult_2 [symmetric])
    have "wval a * wval a < weight (2 * n) * weight (2 * n)"
      by (rule mult_strict_mono' [OF wval_less_le wval_less_le]) (use Suc(3) n(2) in simp_all)
    then have fits: "wval r01 + weight n * (2 * (wval ?a0 * wval ?a1)) + weight (2 * n) * wval r23 < weight (4 * n)"
      unfolding tot by (simp only: weight_add [symmetric]) simp
    show ?thesis using karatsuba_join_value [OF lr mid fits] unfolding run tot by (simp add: n(2))
  qed
qed


section \<open>Properties\<close>

lemma wval_inject: "length xs = length ys \<Longrightarrow> wval xs = wval ys \<Longrightarrow> xs = ys"
  by (induction xs ys rule: list_induct2) (simp_all add: wval_Cons_eq del: wval.simps)

lemma same_value: "length xs = n \<and> wval xs = v \<Longrightarrow> length ys = n \<and> wval ys = v \<Longrightarrow> xs = ys"
  by (rule wval_inject) simp_all

text \<open>
  C20: Karatsuba's recursive multiplication and squaring, with their signed differences, carries and uneven halves,
  give word for word what the schoolbook routines give, which is the exact product, for all argument sizes that
  the callers use.
\<close>

theorem karatsuba_equals_schoolbook:
  "(recursive_args n a b \<longrightarrow>
      bn_mul_recursive n a b = bn_mul_normal a b @ replicate (2 * n - length a - length b) 0)
   \<and> (part_args n a b \<and> length r = 4 * n \<longrightarrow>
      bn_mul_part_recursive n a b r = bn_mul_normal a b @ replicate (4 * n - length a - length b) 0)
   \<and> (length c = 2 ^ k \<longrightarrow> bn_sqr_recursive (2 ^ k) c = bn_sqr_normal c \<and> bn_sqr_normal c = bn_mul_normal c c)
   \<and> wval (bn_mul_normal a b) = wval a * wval b"
proof (intro conjI impI)
  show "wval (bn_mul_normal a b) = wval a * wval b" using mul_normal_value by blast
next
  assume "recursive_args n a b"
  moreover from this have "length a \<le> n" "length b \<le> n" by (simp_all add: recursive_args_def)
  ultimately show "bn_mul_recursive n a b = bn_mul_normal a b @ replicate (2 * n - length a - length b) 0"
    using mul_normal_value [of a b] by (intro same_value [OF mul_recursive_value]) (auto simp: wval_append)
next
  assume p: "part_args n a b \<and> length r = 4 * n"
  then have "length a \<le> 2 * n" "length b \<le> 2 * n" by (simp_all add: part_args_def)
  then show "bn_mul_part_recursive n a b r = bn_mul_normal a b @ replicate (4 * n - length a - length b) 0"
    using mul_normal_value [of a b] p by (intro same_value [OF mul_part_recursive_value]) (auto simp: wval_append)
next
  assume "length c = 2 ^ k"
  then show "bn_sqr_recursive (2 ^ k) c = bn_sqr_normal c"
    using same_value [OF sqr_recursive_value [OF refl, of c k], of "bn_sqr_normal c"] sqr_normal_value [of c] by simp
next
  show "bn_sqr_normal c = bn_mul_normal c c"
    using same_value [OF sqr_normal_value [of c], of "bn_mul_normal c c"] mul_normal_value [of c c] by simp
qed

theorem karatsuba_equals_schoolbook_witness:
  "bn_mul_recursive 16 (replicate 16 (- 1)) (replicate 15 7) = bn_mul_normal (replicate 16 (- 1)) (replicate 15 7) @ [0]"
proof -
  have "\<exists>k. (16 :: nat) = 2 ^ k" by (intro exI [of _ 4]) simp
  then have "recursive_args 16 (replicate 16 (- 1)) (replicate 15 7)" by (simp add: recursive_args_def)
  then show ?thesis
    using karatsuba_equals_schoolbook [of 16 "replicate 16 (- 1)" "replicate 15 7"] by simp
qed

text \<open>
  For \<open>n < 8\<close>, which its callers never use, \<open>bn_mul_part_recursive\<close> clears bytes instead of words: what the result
  array held before shows through.
\<close>

lemma part_recursive_small_keeps_old_words:
  "drop 3 (bn_mul_part_recursive 1 [2] [3] [0, 0, 0, 9]) = [9]"
proof -
  have "word_bytes [0, 9] = replicate 8 0 @ word_bytes [9]" using word_bytes_append [of "[0]" "[9]"] by simp
  then have "drop 2 (word_bytes [0, 9]) = replicate 6 0 @ word_bytes [9]" by simp
  then have b: "replicate 2 0 @ drop 2 (word_bytes [0, 9]) = replicate 8 0 @ word_bytes [9]"
    using replicate_add [of 2 6 "0 :: u8"] by simp
  have "clear_bytes 2 [0, 9] = block_words (Suc (Suc 0)) (replicate 8 0 @ word_bytes [9])" unfolding clear_bytes_def b by simp
  also have "\<dots> = [0, of_nat (le_val (word_bytes [9]))]" by (simp add: block_words_Suc) (simp add: block_words_def)
  also have "le_val (word_bytes [9]) = 9" by (simp add: le_val_word_bytes)
  finally have "clear_bytes 2 [0, 9] = [0, 9]" by simp
  moreover have "length (bn_mul_normal [2] [3]) = 2" using mul_normal_value [of "[2]" "[3]"] by simp
  ultimately show ?thesis by (simp add: bn_mul_part_recursive.simps)
qed

end
