(* ===== verification/Bn_Knuth.thy ===== *)
theory Bn_Knuth imports Bn_Mul_Words begin

text \<open>
  The long division of \<open>div.c\<close> on arrays of words: the estimate of a digit of the quotient from two words of the
  divisor, its correction, and the loop over the digits. The variant is the one with \<open>BN_ULLONG\<close> that divides a
  double word.
\<close>

unbundle bit_operations_syntax

section \<open>Operations\<close>

definition bn_div_rem_words :: "u64 \<Rightarrow> u64 \<Rightarrow> u64 \<Rightarrow> u64 \<times> u64" where
  "bn_div_rem_words n0 n1 d0 =
     (let n = push_bit 64 (ucast n0 :: u128) OR ucast n1;
          q = ucast (n div ucast d0) in
      (q, n1 - q * d0))"

text \<open>
  The loop that corrects the estimate. It ends when the product of the estimate with the second word of the divisor
  fits, or when the remainder leaves the word; \<open>None\<close> stands for a loop that goes on after \<open>fuel\<close> rounds.
\<close>

fun qhat_loop :: "nat \<Rightarrow> u64 \<Rightarrow> u64 \<Rightarrow> u64 \<Rightarrow> u64 \<Rightarrow> u64 \<Rightarrow> u128 \<Rightarrow> u64 option" where
  "qhat_loop 0 d0 d1 u2 q rm t2 = None"
| "qhat_loop (Suc fuel) d0 d1 u2 q rm t2 =
     (if t2 \<le> push_bit 64 (ucast rm) OR ucast u2 then Some q
      else
        let q = q - 1;
            rm = rm + d0 in
        if rm < d0 then Some q else qhat_loop fuel d0 d1 u2 q rm (t2 - ucast d1))"

definition div_fuel :: nat where
  "div_fuel = 2"

text \<open>Without fuel left the estimate is taken as it is; \<open>qhat_loop_terminates\<close> shows that this never happens.\<close>

definition qhat :: "u64 \<Rightarrow> u64 \<Rightarrow> u64 \<Rightarrow> u64 \<Rightarrow> u64 \<Rightarrow> u64" where
  "qhat d0 d1 n0 n1 u2 =
     (if n0 = d0 then - 1
      else
        let (q, rm) = bn_div_rem_words n0 n1 d0 in
        case qhat_loop div_fuel d0 d1 u2 q rm (ucast d1 * ucast q) of Some q \<Rightarrow> q | None \<Rightarrow> q)"

text \<open>One digit: \<open>k\<close> is the index of the lowest word of the part of the numerator that is divided.\<close>

definition div_digit :: "u64 list \<Rightarrow> nat \<Rightarrow> u64 list \<Rightarrow> u64 \<times> u64 list" where
  "div_digit sdiv k d =
     (let n = length sdiv;
          d0 = sdiv ! (n - 1);
          d1 = (if n = 1 then 0 else sdiv ! (n - 2));
          q = qhat d0 d1 (d ! (k + n)) (d ! (k + n - 1)) (d ! (k + n - 2));
          (ws, l0) = bn_mul_words sdiv q;
          (win, borrow) = bn_sub_words (take (n + 1) (drop k d)) (ws @ [l0]) in
      if borrow \<noteq> 0 then
        let (lo, c) = bn_add_words (take n win) sdiv in
        (q - 1, put_words k (lo @ [if c \<noteq> 0 then win ! n + 1 else win ! n]) d)
      else (q, put_words k win d))"

fun div_loop :: "u64 list \<Rightarrow> nat \<Rightarrow> u64 list \<Rightarrow> u64 list \<times> u64 list" where
  "div_loop sdiv 0 d = ([], d)"
| "div_loop sdiv (Suc k) d =
     (let (q, d) = div_digit sdiv (Suc k) d;
          (qs, d) = div_loop sdiv k d in
      (qs @ [q], d))"

section \<open>The estimate\<close>

lemma unat_double: "unat (push_bit 64 (ucast (h :: u64) :: u128) OR ucast (l :: u64)) = unat h * 2 ^ 64 + unat l"
proof -
  have l: "unat (ucast l :: u128) < 2 ^ 64" using unat_less_64 [of l] by simp
  have "unat (push_bit 64 (ucast h :: u128)) = unat h * 2 ^ 64"
    using unat_less_64 [of h] by (simp add: unat_push_bit)
  then show ?thesis unfolding shift_or_is_add [OF l] using unat_less_64 [of l] unat_less_64 [of h]
    by (subst unat_add_exact) simp_all
qed

lemma div_rem_words_value:
  assumes "n0 < d0" "bn_div_rem_words n0 n1 d0 = (q, rm)"
  shows "unat q = (unat n0 * 2 ^ 64 + unat n1) div unat d0" "unat rm = (unat n0 * 2 ^ 64 + unat n1) mod unat d0"
proof -
  let ?n = "unat n0 * 2 ^ 64 + unat n1"
  have d: "0 < unat d0" "unat n0 < unat d0" using assms(1) by (auto simp: word_less_nat_alt)
  have "unat n0 * 2 ^ 64 + unat n1 < unat d0 * 2 ^ 64"
  proof -
    have "(unat n0 + 1) * 2 ^ 64 \<le> unat d0 * 2 ^ 64" using d by (intro mult_le_mono1) simp
    then show ?thesis using unat_less_64 [of n1] by (simp only: distrib_right)
  qed
  then have lt: "?n div unat d0 < 2 ^ 64" using d(1) by (simp only: div_less_iff_less_mult mult.commute)
  have "unat ((push_bit 64 (ucast n0 :: u128) OR ucast n1) div ucast d0) = ?n div unat d0"
    unfolding unat_div unat_double by simp
  then have q: "unat q = ?n div unat d0"
    using assms(2) lt by (auto simp: bn_div_rem_words_def Let_def unat_ucast_mod)
  then show "unat q = ?n div unat d0" .
  have rm: "rm = n1 - q * d0" using assms(2) by (auto simp: bn_div_rem_words_def Let_def)
  have "?n = unat q * unat d0 + ?n mod unat d0" unfolding q by (simp only: div_mult_mod_eq)
  then have "of_nat ?n = (of_nat (unat q * unat d0 + ?n mod unat d0) :: u64)" by (rule arg_cong)
  then have "of_nat ?n = (q * d0 + of_nat (?n mod unat d0) :: u64)" by (simp only: of_nat_add of_nat_mult of_nat_unat ucast_id)
  moreover have "of_nat ?n = (n1 :: u64)" using unat_less_64 [of n1] by (simp only: word_unat_eq_iff unat_of_nat) simp
  ultimately have "rm = of_nat (?n mod unat d0)" unfolding rm by (simp add: algebra_simps)
  moreover have "?n mod unat d0 < 2 ^ 64" using mod_less_divisor [OF d(1), of ?n] unat_less_64 [of d0] by linarith
  ultimately show "unat rm = ?n mod unat d0" by (simp add: unat_of_nat)
qed

text \<open>
  Each round of the loop keeps \<open>q * d0 + rm\<close>; the estimate only goes down where it was too large for the three
  highest words, and it ends at one that is not.
\<close>

lemma round_exact:
  fixes q d0 d1 rm u2 B :: nat
  assumes "q * d0 + rm = X"
  shows "q * (d0 * B + d1) \<le> X * B + u2 \<longleftrightarrow> q * d1 \<le> rm * B + u2"
proof -
  have "q * (d0 * B + d1) = q * d0 * B + q * d1" by (simp only: distrib_left mult.assoc)
  moreover have "X * B + u2 = q * d0 * B + (rm * B + u2)" unfolding assms [symmetric] by (simp only: distrib_right add.assoc)
  ultimately show ?thesis by simp
qed

lemma product_less_square: "q < (B :: nat) \<Longrightarrow> d < B \<Longrightarrow> q * d \<le> B * B"
  by (intro mult_le_mono) simp_all

lemma qhat_loop_value:
  assumes "unat q * unat d0 + unat rm = X" "unat t2 = unat q * unat d1" "2 ^ 64 \<le> unat rm + fuel * unat d0"
  obtains q' where "qhat_loop fuel d0 d1 u2 q rm t2 = Some q'" "unat q' \<le> unat q"
    "unat q' * (unat d0 * 2 ^ 64 + unat d1) \<le> X * 2 ^ 64 + unat u2"
    "unat q' < unat q \<longrightarrow> X * 2 ^ 64 + unat u2 < (unat q' + 1) * (unat d0 * 2 ^ 64 + unat d1)"
proof -
  let ?V = "unat d0 * 2 ^ 64 + unat d1"
  have "\<exists>q'. qhat_loop fuel d0 d1 u2 q rm t2 = Some q' \<and> unat q' \<le> unat q \<and> unat q' * ?V \<le> X * 2 ^ 64 + unat u2
      \<and> (unat q' < unat q \<longrightarrow> X * 2 ^ 64 + unat u2 < (unat q' + 1) * ?V)"
    using assms
  proof (induction fuel arbitrary: q rm t2)
    case 0
    then show ?case using unat_less_64 [of rm] by simp
  next
    case (Suc fuel)
    have cond: "t2 \<le> push_bit 64 (ucast rm) OR ucast u2 \<longleftrightarrow> unat q * ?V \<le> X * 2 ^ 64 + unat u2"
      unfolding round_exact [OF Suc(2)] word_le_nat_alt unat_double Suc(3) by simp
    show ?case
    proof (cases "t2 \<le> push_bit 64 (ucast rm) OR ucast u2")
      case True
      then have "qhat_loop (Suc fuel) d0 d1 u2 q rm t2 = Some q" by simp
      then show ?thesis using cond True by blast
    next
      case False
      then have big: "X * 2 ^ 64 + unat u2 < unat q * ?V" using cond by simp
      then have q0: "0 < unat q" by (cases "unat q") simp_all
      then have "q \<noteq> 0" by auto
      then have q1: "unat (q - 1) = unat q - 1" by (simp add: unat_minus_one)
      then have Q: "unat q = unat (q - 1) + 1" using q0 by simp
      have inv: "unat (q - 1) * unat d0 + (unat rm + unat d0) = X" using Suc(2) unfolding Q by (simp add: algebra_simps)
      have step: "qhat_loop (Suc fuel) d0 d1 u2 q rm t2 =
          (if rm + d0 < d0 then Some (q - 1) else qhat_loop fuel d0 d1 u2 (q - 1) (rm + d0) (t2 - ucast d1))"
        using False by (simp add: Let_def)
      show ?thesis
      proof (cases "unat rm + unat d0 < 2 ^ 64")
        case fits: True
        then have u: "unat (rm + d0) = unat rm + unat d0" by (simp add: unat_add_exact)
        then have nw: "\<not> rm + d0 < d0" by (simp add: word_less_nat_alt)
        have "unat d1 \<le> unat t2" unfolding Suc(3) Q by simp
        then have "unat (t2 - ucast d1) = unat t2 - unat d1" by (subst unat_sub) (simp_all add: word_le_nat_alt)
        then have t: "unat (t2 - ucast d1) = unat (q - 1) * unat d1" unfolding Suc(3) Q by simp
        obtain q' where q': "qhat_loop fuel d0 d1 u2 (q - 1) (rm + d0) (t2 - ucast d1) = Some q'" "unat q' \<le> unat (q - 1)"
          "unat q' * ?V \<le> X * 2 ^ 64 + unat u2" "unat q' < unat (q - 1) \<longrightarrow> X * 2 ^ 64 + unat u2 < (unat q' + 1) * ?V"
          using Suc(1) [of "q - 1" "rm + d0" "t2 - ucast d1"] inv t Suc(4) u by auto
        have "X * 2 ^ 64 + unat u2 < (unat q' + 1) * ?V"
        proof (cases "unat q' = unat (q - 1)")
          case True
          show ?thesis using big unfolding Q True .
        next
          case False
          then show ?thesis using q'(2,4) by simp
        qed
        moreover have "unat q' \<le> unat q" using q'(2) unfolding Q by simp
        ultimately show ?thesis unfolding step using q'(1,3) nw by auto
      next
        case over: False
        then have "rm + d0 < d0"
          using unat_less_64 [of rm] unat_less_64 [of d0]
          by (simp add: word_less_nat_alt unat_word_ariths(1) mod_if) linarith
        moreover have "unat (q - 1) * ?V \<le> X * 2 ^ 64 + unat u2"
        proof -
          have "unat (q - 1) * unat d1 \<le> 2 ^ 64 * 2 ^ 64"
            by (rule product_less_square) (use unat_less_64 in auto)
          also have "2 ^ 64 * 2 ^ 64 \<le> (unat rm + unat d0) * 2 ^ 64" using over by (intro mult_le_mono1) simp
          finally show ?thesis unfolding round_exact [OF inv] by linarith
        qed
        ultimately show ?thesis unfolding step using big Q by auto
      qed
    qed
  qed
  then show ?thesis using that by blast
qed

text \<open>
  \<open>V\<close> is the divisor with the two highest words \<open>d0\<close> and \<open>d1\<close>, and \<open>U\<close> the part of the numerator with the three
  highest words \<open>n0\<close>, \<open>n1\<close> and \<open>u2\<close>; \<open>P\<close> is the weight of the words below.
\<close>

lemma estimate_not_small:
  fixes q V2 U3 P V U v u :: nat
  assumes "V = V2 * P + v" "U = U3 * P + u" "u < P" "U3 < (q + 1) * V2"
  shows "U div V \<le> q"
proof -
  have "(U3 + 1) * P \<le> (q + 1) * V2 * P" using assms(4) by (intro mult_le_mono1) simp
  then have "U < (q + 1) * V2 * P" using assms(2,3) by simp
  also have "\<dots> \<le> (q + 1) * V" unfolding assms(1) by (simp only: distrib_left mult.assoc le_add1)
  finally have "U div V < q + 1" by (rule less_mult_imp_div_less)
  then show ?thesis by simp
qed

lemma estimate_not_large:
  fixes q V2 U3 P V U v u :: nat
  assumes "V = V2 * P + v" "U = U3 * P + u" "v < P" "q * V2 \<le> U3" "q * P \<le> V" "0 < q"
  shows "q \<le> U div V + 1"
proof -
  have "q * V < q * (V2 * P + P)" using assms(1,3,6) by (intro mult_strict_left_mono) simp_all
  also have "\<dots> = q * V2 * P + q * P" by (simp add: distrib_left)
  also have "\<dots> \<le> U + V"
  proof (rule add_mono)
    have "q * V2 * P \<le> U3 * P" by (rule mult_le_mono1 [OF assms(4)])
    then show "q * V2 * P \<le> U" unfolding assms(2) by (rule trans_le_add1)
  qed (rule assms(5))
  finally have lt: "q * V < U + V" .
  obtain p where p: "q = Suc p" using assms(6) gr0_conv_Suc by blast
  have "p * V \<le> U" using lt unfolding p mult_Suc by linarith
  moreover have "0 < V"
  proof -
    have "1 * P \<le> q * P" using assms(6) by (intro mult_le_mono1) linarith
    then show ?thesis using assms(3,5) by linarith
  qed
  ultimately have "p \<le> U div V" by (simp only: less_eq_div_iff_mult_less_eq)
  then show ?thesis using p by linarith
qed

lemma estimate_at_top:
  fixes B d0 d1 P v V U :: nat
  assumes "V = (d0 * B + d1) * P + v" "v < P" "d0 * B * B * P \<le> U" "d1 < B" "B \<le> 2 * d0"
  shows "B - 1 \<le> U div V + 1"
proof -
  have "V \<le> (d0 * B + d1 + 1) * P" using assms(1,2) by simp
  also have "\<dots> \<le> (d0 + 1) * B * P" using assms(4) by (intro mult_le_mono1) simp
  finally have "(B - 2) * V \<le> (B - 2) * ((d0 + 1) * B * P)" by (rule mult_le_mono2)
  also have "\<dots> = (B - 2) * (d0 + 1) * (B * P)" by (simp only: ac_simps)
  also have "(B - 2) * (d0 + 1) \<le> d0 * B"
  proof (cases "B < 2")
    case False
    then obtain c where "B = c + 2" by (metis le_add_diff_inverse2 not_less)
    then show ?thesis using assms(5) by (simp add: algebra_simps)
  qed simp
  finally have "(B - 2) * V \<le> U" using assms(3) by (simp add: mult.assoc)
  moreover have "0 < V"
  proof -
    have "0 < d0" using assms(4,5) by simp
    then show ?thesis using assms(1,2,4) by simp
  qed
  ultimately have "B - 2 \<le> U div V" by (simp add: less_eq_div_iff_mult_less_eq)
  then show ?thesis by simp
qed

lemma qhat_bounds:
  assumes "V = (unat d0 * 2 ^ 64 + unat d1) * P + v" "v < P"
    "U = (unat n0 * 2 ^ 64 * 2 ^ 64 + unat n1 * 2 ^ 64 + unat u2) * P + u" "u < P"
    "U < V * 2 ^ 64" "2 ^ 63 \<le> unat d0"
  shows "U div V \<le> unat (qhat d0 d1 n0 n1 u2) \<and> unat (qhat d0 d1 n0 n1 u2) \<le> U div V + 1"
proof -
  let ?B = "2 ^ 64 :: nat"
  let ?V2 = "unat d0 * ?B + unat d1" and ?X = "unat n0 * ?B + unat n1"
  have X: "unat n0 * ?B * ?B + unat n1 * ?B + unat u2 = ?X * ?B + unat u2" by (simp only: distrib_right)
  have U: "U = (?X * ?B + unat u2) * P + u" unfolding assms(3) X ..
  have d0: "?B \<le> 2 * unat d0" "0 < unat d0" using assms(6) by simp_all
  have VP: "?B * P \<le> V"
  proof -
    have "1 * ?B \<le> unat d0 * ?B" using d0(2) by (intro mult_le_mono1) simp
    then have "?B * P \<le> ?V2 * P" by (intro mult_le_mono1) (rule trans_le_add1, simp only: mult_1_left)
    then show ?thesis unfolding assms(1) by (rule trans_le_add1)
  qed
  show ?thesis
  proof (cases "n0 = d0")
    case True
    have q: "unat (qhat d0 d1 n0 n1 u2) = ?B - 1" using True by (simp add: qhat_def unsigned_minus_1_eq_mask mask_eq_exp_minus_1)
    have "unat d0 * ?B * ?B * P \<le> U" unfolding assms(3) True by (rule trans_le_add1, rule mult_le_mono1) (simp only: add.assoc le_add1)
    then have "?B - 1 \<le> U div V + 1" by (rule estimate_at_top [OF assms(1,2) _ unat_less_64 d0(1)])
    moreover have "U div V < ?B" using assms(5) by (simp only: less_mult_imp_div_less mult.commute)
    ultimately show ?thesis unfolding q by linarith
  next
    case False
    have "n0 < d0"
    proof (rule ccontr)
      assume "\<not> n0 < d0"
      then have "unat d0 + 1 \<le> unat n0" using False by (metis Suc_eq_plus1 Suc_leI linorder_neqE word_less_nat_alt)
      then have "(unat d0 + 1) * ?B * ?B * P \<le> unat n0 * ?B * ?B * P" by (intro mult_le_mono1)
      moreover have "unat n0 * ?B * ?B * P \<le> U"
        unfolding assms(3) by (rule trans_le_add1, rule mult_le_mono1) (simp only: add.assoc le_add1)
      moreover have "V \<le> (unat d0 + 1) * ?B * P"
      proof -
        have "V \<le> (?V2 + 1) * P" using assms(1,2) by (simp only: distrib_right)
        also have "\<dots> \<le> (unat d0 + 1) * ?B * P"
          by (rule mult_le_mono1) (use unat_less_64 [of d1] in \<open>simp only: distrib_right\<close>)
        finally show ?thesis .
      qed
      then have "V * ?B \<le> (unat d0 + 1) * ?B * P * ?B" by (rule mult_le_mono1)
      moreover have "(unat d0 + 1) * ?B * P * ?B = (unat d0 + 1) * ?B * ?B * P" by (simp only: ac_simps)
      ultimately show False using assms(5) by linarith
    qed
    obtain q0 rm where qr: "bn_div_rem_words n0 n1 d0 = (q0, rm)" by fastforce
    note v = div_rem_words_value [OF \<open>n0 < d0\<close> qr]
    have inv: "unat q0 * unat d0 + unat rm = ?X" unfolding v by (simp only: div_mult_mod_eq)
    have t2: "unat (ucast d1 * ucast q0 :: u128) = unat q0 * unat d1" by (simp add: unat_product mult.commute)
    have fuel: "?B \<le> unat rm + div_fuel * unat d0" using d0(1) by (simp add: div_fuel_def)
    obtain q where q: "qhat_loop div_fuel d0 d1 u2 q0 rm (ucast d1 * ucast q0) = Some q" "unat q \<le> unat q0"
      "unat q * ?V2 \<le> ?X * ?B + unat u2" "unat q < unat q0 \<longrightarrow> ?X * ?B + unat u2 < (unat q + 1) * ?V2"
      by (rule qhat_loop_value [OF inv t2 fuel])
    have qq: "qhat d0 d1 n0 n1 u2 = q" using False qr q(1) by (simp add: qhat_def)
    have "?X * ?B + unat u2 < (unat q + 1) * ?V2"
    proof (cases "unat q < unat q0")
      case True
      then show ?thesis using q(4) by blast
    next
      case False
      then have e: "unat q = unat q0" using q(2) by simp
      have "?X < (unat q + 1) * unat d0" unfolding e inv [symmetric] using mod_less_divisor [OF d0(2), of ?X] v(2) by (simp only: distrib_right)
      then have "(?X + 1) * ?B \<le> (unat q + 1) * unat d0 * ?B" by (intro mult_le_mono1) simp
      moreover have "(unat q + 1) * unat d0 * ?B \<le> (unat q + 1) * ?V2" by (simp only: distrib_left mult.assoc le_add1)
      ultimately show ?thesis using unat_less_64 [of u2] by (simp only: distrib_right)
    qed
    then have lo: "U div V \<le> unat q" by (rule estimate_not_small [OF assms(1) U assms(4)])
    have "unat q \<le> U div V + 1"
    proof (cases "unat q = 0")
      case False
      have "unat q * P \<le> V" by (rule order.trans [OF mult_le_mono1 VP]) (use unat_less_64 [of q] in simp)
      then show ?thesis by (rule estimate_not_large [OF assms(1) U assms(2) q(3)]) (use False in simp)
    qed simp
    then show ?thesis unfolding qq using lo by blast
  qed
qed

section \<open>One digit\<close>

lemma wval_nth:
  assumes "i < length ws"
  shows "wval ws = wval (take i ws) + weight i * (unat (ws ! i) + 2 ^ 64 * wval (drop (Suc i) ws))"
proof -
  have "drop i ws = ws ! i # drop (Suc i) ws" using assms by (simp add: Cons_nth_drop_Suc)
  then show ?thesis using wval_take_drop [of ws i] assms by simp
qed

text \<open>The divisor is in \<open>sdiv\<close> and the part of the numerator in \<open>w\<close>, which has one word more.\<close>

lemma subtract_and_correct:
  assumes "length w = length sdiv + 1" "V = wval sdiv" "U = wval w" "0 < V"
    "U div V \<le> unat q" "unat q \<le> U div V + 1"
    "bn_mul_words sdiv q = (ws, l0)" "bn_sub_words w (ws @ [l0]) = (win, borrow)"
    "res = (if borrow \<noteq> 0 then
              case bn_add_words (take (length sdiv) win) sdiv of (lo, c) \<Rightarrow>
                (q - 1, lo @ [if c \<noteq> 0 then win ! length sdiv + 1 else win ! length sdiv])
            else (q, win))"
  shows "unat (fst res) = U div V \<and> length (snd res) = length sdiv + 1 \<and> wval (snd res) = U mod V"
proof -
  let ?n = "length sdiv" and ?B = "2 ^ 64 :: nat"
  have m: "length ws = ?n" "wval ws + weight ?n * unat l0 = V * unat q"
    using mul_loop_value [of sdiv q 0 ws l0] assms(2,7) by (simp_all add: bn_mul_words_def)
  have p: "wval (ws @ [l0]) = V * unat q" using m by (simp add: wval_append)
  have l: "length w = length (ws @ [l0])" using m assms(1) by simp
  note s = bn_sub_words_value [OF l assms(8)]
  have sub: "wval win + V * unat q = U + weight (?n + 1) * unat borrow" using s(3) p assms(1,3) by simp
  have lw: "length win = ?n + 1" using s(1) assms(1) by simp
  have UQ: "U = V * (U div V) + U mod V" by (simp only: mult_div_mod_eq)
  show ?thesis
  proof (cases "borrow = 0")
    case True
    then have "V * unat q \<le> U" using sub by simp
    then have "unat q \<le> U div V" using assms(4) by (simp add: less_eq_div_iff_mult_less_eq mult.commute)
    then have q: "unat q = U div V" using assms(5) by simp
    have "wval win + V * (U div V) = U" using sub True unfolding q by simp
    then have "wval win = U mod V" using UQ by linarith
    then show ?thesis unfolding assms(9) using True q lw by simp
  next
    case False
    have "unat borrow \<noteq> 0" using False by (simp add: unat_eq_0)
    then have b1: "unat borrow = 1" using s(2) by simp
    have wl: "wval win < weight (?n + 1)" using wval_less [of win] unfolding lw .
    have "U < V * unat q" using sub wl b1 by simp
    moreover have "V * (U div V) \<le> U" by (rule times_div_less_eq_dividend)
    ultimately have "V * (U div V) < V * unat q" by (rule le_less_trans [rotated])
    then have "U div V < unat q" by simp
    then have q: "unat q = U div V + 1" using assms(6) by simp
    then have "q \<noteq> 0" by auto
    then have q1: "unat (q - 1) = U div V" using q by (simp add: unat_minus_one)
    obtain lo c where add: "bn_add_words (take ?n win) sdiv = (lo, c)" by fastforce
    have la: "length (take ?n win) = length sdiv" using lw by simp
    note a = bn_add_words_value [OF la add]
    let ?t = "win ! ?n"
    have win: "wval win = wval (take ?n win) + weight ?n * unat ?t" using wval_nth [of ?n win] lw by simp
    have "wval win + (V * (U div V) + V) = U + weight (?n + 1)" using sub unfolding b1 q by (simp only: distrib_left mult_1_right)
    then have "wval win + V = U mod V + weight (?n + 1)" using UQ by linarith
    then have "wval lo + weight ?n * (unat c + unat ?t) = U mod V + weight ?n * ?B"
    proof -
      have "wval lo + weight ?n * unat c = wval (take ?n win) + V" using a(3) unfolding la assms(2) .
      moreover have "weight (?n + 1) = weight ?n * ?B" by (simp only: weight_add mult_1_right)
      ultimately show ?thesis using \<open>wval win + V = _\<close> win unfolding distrib_left by linarith
    qed
    moreover have lo: "wval lo < weight ?n" using wval_less [of lo] a(1) la by simp
    moreover have r: "U mod V < weight ?n"
      using mod_less_divisor [OF assms(4), of U] wval_less [of sdiv] assms(2) by simp
    ultimately have "wval lo = U mod V" "unat c + unat ?t = ?B"
      using low_div_mod [OF lo, of "unat c + unat ?t"] low_div_mod [OF r, of ?B] by metis+
    moreover have "(if c \<noteq> 0 then ?t + 1 else ?t) = 0"
    proof -
      have "unat c = 1" "unat ?t = ?B - 1" using calculation(2) a(2) unat_less_64 [of ?t] by linarith+
      then have "c \<noteq> 0" "?t = - 1" by (auto simp: word_unat_eq_iff unsigned_minus_1_eq_mask mask_eq_exp_minus_1)
      then show ?thesis by simp
    qed
    ultimately show ?thesis unfolding assms(9) add using False q1 a(1) la by (simp add: wval_append)
  qed
qed

lemma qhat_digit:
  assumes "length w = length sdiv + 1" "0 < length sdiv" "2 ^ 63 \<le> unat (last sdiv)" "wval w < wval sdiv * 2 ^ 64" "n = length sdiv"
    "n \<noteq> 1 \<Longrightarrow> u2 = w ! (n - 2)"
    "q = qhat (sdiv ! (n - 1)) (if n = 1 then 0 else sdiv ! (n - 2)) (w ! n) (w ! (n - 1)) u2"
  shows "wval w div wval sdiv \<le> unat q \<and> unat q \<le> wval w div wval sdiv + 1"
proof (cases "n = 1")
  case True
  then obtain d where d: "sdiv = [d]" using assms(5) by (metis length_0_conv length_Suc_conv One_nat_def)
  obtain a b where w: "w = [a, b]" using assms(1) d by (auto simp: length_Suc_conv)
  have d63: "2 ^ 63 \<le> unat d" using assms(3) d by simp
  have U: "wval w = (unat b * 2 ^ 64 + unat a) * 1 + 0" and V: "wval sdiv = unat d" using d w by simp_all
  have "unat b * 2 ^ 64 < unat d * 2 ^ 64" using assms(4) unfolding V U by simp
  then have lt: "b < d" by (simp add: word_less_nat_alt)
  obtain q0 rm where r: "bn_div_rem_words b a d = (q0, rm)" by fastforce
  have "qhat_loop div_fuel d 0 u2 q0 rm (ucast (0 :: u64) * ucast q0) = Some q0" by (simp add: div_fuel_def eval_nat_numeral)
  then have "q = q0" using assms(7) True d w lt r by (auto simp: qhat_def)
  then have "unat q = wval w div wval sdiv" using div_rem_words_value(1) [OF lt r] unfolding U V by simp
  then show ?thesis by simp
next
  case False
  have "0 < n" using assms(2) unfolding assms(5) .
  then have n2: "2 \<le> n" using False by linarith
  then obtain m where m: "n = m + 2" using le_Suc_ex by (metis add.commute)
  have ls: "length sdiv = m + 2" "length w = m + 3" using m assms(1,5) by simp_all
  have V: "wval sdiv = (unat (sdiv ! (m + 1)) * 2 ^ 64 + unat (sdiv ! m)) * weight m + wval (take m sdiv)"
    using wval_nth [of m sdiv] wval_nth [of 0 "drop (Suc m) sdiv"] ls by (simp add: algebra_simps)
  have U: "wval w = (unat (w ! (m + 2)) * 2 ^ 64 * 2 ^ 64 + unat (w ! (m + 1)) * 2 ^ 64 + unat (w ! m)) * weight m + wval (take m w)"
    using wval_nth [of m w] wval_nth [of 0 "drop (Suc m) w"] wval_nth [of 0 "drop (Suc (Suc m)) w"] ls by (simp add: algebra_simps)
  have last: "last sdiv = sdiv ! (m + 1)" using ls by (subst last_conv_nth) auto
  have "q = qhat (sdiv ! (m + 1)) (sdiv ! m) (w ! (m + 2)) (w ! (m + 1)) (w ! m)"
    unfolding assms(7) using assms(6) False m by simp
  then show ?thesis
    using qhat_bounds [OF V _ U _ assms(4)] wval_less [of "take m sdiv"] wval_less [of "take m w"] ls assms(3) last
    by simp
qed

lemma div_digit_value:
  assumes "0 < length sdiv" "2 ^ 63 \<le> unat (last sdiv)" "1 \<le> k" "k + length sdiv < length d"
    "wval (drop (Suc k) d) < wval sdiv" "div_digit sdiv k d = (q, d')"
  shows "unat q = wval (drop k d) div wval sdiv" "length d' = length d" "take k d' = take k d"
    "wval (drop k d') = wval (drop k d) mod wval sdiv"
proof -
  let ?n = "length sdiv" and ?V = "wval sdiv" and ?U = "wval (drop k d)"
  define w where "w = take (?n + 1) (drop k d)"
  have lw: "length w = ?n + 1" using assms(4) by (simp add: w_def)
  have U: "?U = unat (d ! k) + 2 ^ 64 * wval (drop (Suc k) d)"
    using wval_nth [of 0 "drop k d"] assms(4) by simp
  have "(wval (drop (Suc k) d) + 1) * 2 ^ 64 \<le> ?V * 2 ^ 64" using assms(5) by (intro mult_le_mono1) simp
  then have UV: "?U < ?V * 2 ^ 64" unfolding U using unat_less_64 [of "d ! k"] by (simp only: distrib_right ac_simps)
  moreover have "?V * 2 ^ 64 \<le> weight ?n * 2 ^ 64" using wval_less [of sdiv] by (intro mult_le_mono1) simp
  then have "?V * 2 ^ 64 \<le> weight (?n + 1)" by (simp only: weight_add mult_1_right)
  ultimately have "?U < weight (?n + 1)" by (rule less_le_trans)
  moreover have split: "?U = wval w + weight (?n + 1) * wval (drop (?n + 1) (drop k d))"
    using wval_take_drop [of "drop k d" "?n + 1"] lw by (simp add: w_def)
  moreover have "wval w < weight (?n + 1)" using wval_less [of w] unfolding lw .
  ultimately have top: "wval (drop (?n + 1) (drop k d)) = 0" by (metis low_part_iff)
  then have wU: "wval w = ?U" using split by simp
  have V0: "0 < ?V" using UV by (cases ?V) simp_all
  have kn: "k + ?n - 1 = k + (?n - 1)" using assms(1) by linarith
  have nth: "d ! (k + ?n) = w ! ?n" "d ! (k + ?n - 1) = w ! (?n - 1)"
    using assms(1,4) unfolding kn by (simp_all add: w_def)
  have nth2: "?n \<noteq> 1 \<Longrightarrow> d ! (k + ?n - 2) = w ! (?n - 2)"
  proof -
    assume "?n \<noteq> 1"
    then have "k + ?n - 2 = k + (?n - 2)" using assms(1) by linarith
    then show ?thesis using assms(4) by (simp add: w_def)
  qed
  define qq where "qq = qhat (sdiv ! (?n - 1)) (if ?n = 1 then 0 else sdiv ! (?n - 2)) (w ! ?n) (w ! (?n - 1)) (d ! (k + ?n - 2))"
  have b: "?U div ?V \<le> unat qq" "unat qq \<le> ?U div ?V + 1"
    using qhat_digit [OF lw assms(1,2) _ refl nth2 qq_def] UV unfolding wU by simp_all
  obtain ws l0 where mul: "bn_mul_words sdiv qq = (ws, l0)" by fastforce
  obtain win borrow where sub: "bn_sub_words w (ws @ [l0]) = (win, borrow)" by fastforce
  define res where "res = (if borrow \<noteq> 0 then
              case bn_add_words (take ?n win) sdiv of (lo, c) \<Rightarrow> (qq - 1, lo @ [if c \<noteq> 0 then win ! ?n + 1 else win ! ?n])
            else (qq, win))"
  note v = subtract_and_correct [OF lw refl wU [symmetric] V0 b mul sub res_def]
  have r: "div_digit sdiv k d = (fst res, put_words k (snd res) d)"
    unfolding div_digit_def Let_def nth w_def [symmetric] qq_def [symmetric] mul prod.case sub res_def
    by (simp split: prod.split)
  then have q: "q = fst res" and d': "d' = put_words k (snd res) d" using assms(6) by simp_all
  show "unat q = ?U div ?V" using v q by simp
  have lk: "length (take k d) = k" using assms(4) by simp
  show "length d' = length d" "take k d' = take k d"
    unfolding d' put_words_def using v assms(4) lk by simp_all
  have "drop k d' = snd res @ drop (k + (?n + 1)) d" unfolding d' put_words_def using v lk by simp
  moreover have "wval (drop (k + (?n + 1)) d) = 0" using top by (simp add: add.commute)
  ultimately show "wval (drop k d') = ?U mod ?V" using v by (simp add: wval_append)
qed

section \<open>All digits\<close>

lemma div_loop_value:
  assumes "0 < length sdiv" "2 ^ 63 \<le> unat (last sdiv)" "k + length sdiv < length d" "wval (drop (Suc k) d) < wval sdiv"
    "div_loop sdiv k d = (qs, d')"
  shows "length qs = k \<and> length d' = length d \<and> take 1 d' = take 1 d
    \<and> wval qs = wval (drop 1 d) div wval sdiv \<and> wval (drop 1 d') = wval (drop 1 d) mod wval sdiv"
  using assms(3-5)
proof (induction k arbitrary: d qs d')
  case 0
  then show ?case by simp
next
  case (Suc k)
  let ?V = "wval sdiv"
  obtain q d1 where s: "div_digit sdiv (Suc k) d = (q, d1)" by fastforce
  obtain qs1 where r: "div_loop sdiv k d1 = (qs1, d')" "qs = qs1 @ [q]"
    using Suc(4) s by (auto simp: Let_def split: prod.splits)
  note v = div_digit_value [OF assms(1,2) _ Suc(2,3) s]
  have V0: "0 < ?V" using Suc(3) by simp
  have "wval (drop (Suc k) d1) < ?V" using v(4) V0 by simp
  then have IH: "length qs1 = k" "length d' = length d1" "take 1 d' = take 1 d1"
    "wval qs1 = wval (drop 1 d1) div ?V" "wval (drop 1 d') = wval (drop 1 d1) mod ?V"
    using Suc(1) [OF _ _ r(1)] Suc(2) v(2) by auto
  have ex: "wval (drop 1 x) = wval (take k (drop 1 x)) + weight k * wval (drop (Suc k) x)" if "Suc k < length x" for x
    using wval_take_drop [of "drop 1 x" k] that by simp
  have "take k (drop 1 d1) = drop 1 (take (Suc k) d1)" by (simp add: drop_take)
  also have "\<dots> = take k (drop 1 d)" using v(3) by (simp add: drop_take)
  finally have t: "take k (drop 1 d1) = take k (drop 1 d)" .
  let ?U = "wval (drop (Suc k) d)"
  have lk: "Suc k < length d" using Suc(2) by simp
  have "wval (drop 1 d) = wval (drop 1 d1) + weight k * (?V * unat q)"
  proof -
    have "?U = ?U mod ?V + ?V * unat q" using v(1) by simp
    then have "weight k * ?U = weight k * (?U mod ?V) + weight k * (?V * unat q)" by (metis distrib_left)
    then show ?thesis using ex [OF lk] ex [of d1] lk v(2,4) t by simp
  qed
  then have e: "wval (drop 1 d) = wval (drop 1 d1) + weight k * unat q * ?V" by (simp only: ac_simps)
  have "wval qs = wval (drop 1 d) div ?V" unfolding r(2) wval_append IH(1,4) e using V0 by simp
  moreover have "wval (drop 1 d') = wval (drop 1 d) mod ?V" unfolding IH(5) e by simp
  moreover have "take 1 d1 = take 1 d" using arg_cong [OF v(3), of "take 1"] by simp
  ultimately show ?case using IH v(2) r(2) by simp
qed

section \<open>Properties\<close>

lemma qhat_loop_more_fuel: "qhat_loop fuel d0 d1 u2 q rm t2 = Some q' \<Longrightarrow> qhat_loop (fuel + k) d0 d1 u2 q rm t2 = Some q'"
  by (induction fuel d0 d1 u2 q rm t2 rule: qhat_loop.induct) (auto simp: Let_def split: if_splits)

text \<open>
  C27: The loop that corrects the estimate of a digit ends for a normalised divisor: two rounds are enough from any
  estimate that the division of a double word gives, and a larger bound changes nothing.
\<close>

theorem qhat_loop_terminates:
  assumes "n0 < d0" "2 ^ 63 \<le> unat d0" "bn_div_rem_words n0 n1 d0 = (q, rm)"
  shows "\<exists>q'. \<forall>fuel \<ge> 2. qhat_loop fuel d0 d1 u2 q rm (ucast d1 * ucast q) = Some q'"
proof -
  note v = div_rem_words_value [OF assms(1,3)]
  have inv: "unat q * unat d0 + unat rm = unat n0 * 2 ^ 64 + unat n1" unfolding v by (simp only: div_mult_mod_eq)
  have t2: "unat (ucast d1 * ucast q :: u128) = unat q * unat d1" by (simp add: unat_product mult.commute)
  have fuel: "2 ^ 64 \<le> unat rm + 2 * unat d0" using assms(2) by simp
  obtain q' where q': "qhat_loop 2 d0 d1 u2 q rm (ucast d1 * ucast q) = Some q'" by (rule qhat_loop_value [OF inv t2 fuel])
  have "qhat_loop fuel d0 d1 u2 q rm (ucast d1 * ucast q) = Some q'" if "2 \<le> fuel" for fuel
    using qhat_loop_more_fuel [OF q', of "fuel - 2"] unfolding le_add_diff_inverse [OF that] .
  then show ?thesis by blast
qed

theorem qhat_loop_terminates_witness:
  "\<exists>q'. \<forall>fuel \<ge> 2. qhat_loop fuel (2 ^ 63) 1 0 0 1 (ucast (1 :: u64) * ucast (0 :: u64)) = Some q'"
  by (rule qhat_loop_terminates [of 0 _ 1]) (simp_all add: bn_div_rem_words_def)

text \<open>
  C28: The digit loop is long division: for a divisor whose highest bit is set and a numerator whose part above the
  loop is smaller than the divisor, it gives the words of the quotient and leaves the remainder in place.
\<close>

theorem knuth_division_exact:
  assumes "sdiv \<noteq> []" "2 ^ 63 \<le> unat (last sdiv)" "k + length sdiv < length d" "wval (drop (Suc k) d) < wval sdiv"
  shows "\<exists>qs d'. div_loop sdiv k d = (qs, d') \<and> length qs = k \<and> take 1 d' = take 1 d
    \<and> wval qs = wval (drop 1 d) div wval sdiv \<and> wval (drop 1 d') = wval (drop 1 d) mod wval sdiv"
proof -
  obtain qs d' where "div_loop sdiv k d = (qs, d')" by fastforce
  moreover have "0 < length sdiv" using assms(1) by simp
  ultimately show ?thesis using div_loop_value [OF _ assms(2-4)] by blast
qed

theorem knuth_division_exact_witness:
  "\<exists>qs d'. div_loop [5, 2 ^ 63] 1 [0, 3, 7, 0] = (qs, d') \<and> length qs = 1 \<and> take 1 d' = [0]
    \<and> wval qs = wval [3, 7, 0] div wval [5, 2 ^ 63] \<and> wval (drop 1 d') = wval [3, 7, 0] mod wval [5, 2 ^ 63]"
  using knuth_division_exact [of "[5, 2 ^ 63]" 1 "[0, 3, 7, 0]"] by simp

end
