(* ===== verification/Bn_Pool.thy ===== *)
theory Bn_Pool imports Bn_Ctx Bn_Arith begin

text \<open>
  Operations that use the pool of temporary numbers: the state is the result and the pool. A scratch array that an
  operation takes from the pool is asked for as in the code; what it holds afterwards is left out.
\<close>

section \<open>Operations on a number and the pool\<close>

type_synonym 'a pool_op = "(bignum \<times> bn_ctx, 'a) op"

definition put_slot :: "nat \<Rightarrow> bignum \<Rightarrow> bn_ctx \<Rightarrow> bn_ctx" where
  "put_slot i bn ctx = ctx\<lparr>ctx_bignums := snd (sk_set (ctx_bignums ctx) i (Some bn))\<rparr>"

text \<open>An operation whose result is the number in a slot.\<close>

definition with_slot :: "nat \<Rightarrow> 'a pool_op \<Rightarrow> (bn_ctx, 'a) op" where
  "with_slot i m ctx =
     (case slot ctx i of
        None \<Rightarrow> (None, ctx)
      | Some bn \<Rightarrow> (case m (bn, ctx) of (x, bn', ctx') \<Rightarrow> (x, put_slot i bn' ctx')))"

text \<open>Operations on one part of the state.\<close>

definition on_number :: "'a bn_op \<Rightarrow> 'a pool_op" where
  "on_number m = (\<lambda>(r, ctx). case m r of (x, r) \<Rightarrow> (x, r, ctx))"

definition on_pool :: "(bn_ctx, 'a) op \<Rightarrow> 'a pool_op" where
  "on_pool m = (\<lambda>(r, ctx). case m ctx of (x, ctx) \<Rightarrow> (x, r, ctx))"

text \<open>The code between \<open>BN_CTX_start\<close> and \<open>BN_CTX_end\<close>: every path, errors included, ends the frame.\<close>

definition in_frame :: "malloc_fn \<Rightarrow> 'a pool_op \<Rightarrow> 'a pool_op" where
  "in_frame ma m = (\<lambda>(r, ctx). case m (r, BN_CTX_start ma ctx) of (x, r, ctx) \<Rightarrow> (x, r, BN_CTX_end ctx))"

text \<open>The result is computed in a temporary number and then copied.\<close>

definition via_temp :: "malloc_fn \<Rightarrow> unit pool_op \<Rightarrow> unit pool_op" where
  "via_temp ma m = (\<lambda>(r, ctx).
     case BN_CTX_get ma ctx of
       (None, ctx) \<Rightarrow> (None, r, ctx)
     | (Some i, ctx) \<Rightarrow>
         (case with_slot i m ctx of
            (None, ctx) \<Rightarrow> (None, r, ctx)
          | (Some _, ctx) \<Rightarrow>
              (case slot ctx i of
                 None \<Rightarrow> (None, r, ctx)
               | Some rr \<Rightarrow> (case BN_copy ma rr r of (x, r) \<Rightarrow> (x, r, ctx)))))"

text \<open>A temporary that is only scratch space of \<open>n\<close> words.\<close>

definition scratch :: "malloc_fn \<Rightarrow> nat \<Rightarrow> (bn_ctx, unit) op" where
  "scratch ma n = op_bind (BN_CTX_get ma) (\<lambda>i. on_slot i (bn_wexpand ma n))"

section \<open>Pools with room\<close>

text \<open>
  A pool with at most \<open>e\<close> open frames and numbers in use, whose arrays are of ordinary size. An array grows only when
  what is in use fills it, so as long as \<open>e\<close> is at most \<open>pool_max\<close> and the allocator does not fail, opening a frame and
  getting a number succeed; closing the frame gives both back.
\<close>

abbreviation pool_max :: nat where
  "pool_max \<equiv> 1048576"

definition ctx_fit :: "nat \<Rightarrow> bn_ctx \<Rightarrow> bool" where
  "ctx_fit e ctx \<longleftrightarrow> ctx_ok ctx \<and> \<not> ctx_error ctx \<and> bs_depth (ctx_stack ctx) + ctx_used ctx \<le> e
     \<and> bs_size (ctx_stack ctx) < 2 ^ 40 \<and> bs_size (ctx_stack ctx) \<noteq> 1
     \<and> (\<forall>sk. ctx_bignums ctx = Some sk \<longrightarrow> sk_num_alloc sk < 2 ^ 40)
     \<and> (\<forall>i bn. slot ctx i = Some bn \<longrightarrow> \<not> bn_static bn)"

lemma ctx_fit_mono: "ctx_fit e ctx \<Longrightarrow> e \<le> e' \<Longrightarrow> ctx_fit e' ctx"
  by (simp add: ctx_fit_def)

lemma push_total:
  assumes "malloc_total ma" "stack_wf st" "bs_size st < 2 ^ 40" "bs_size st \<noteq> 1" "bs_depth st \<le> pool_max"
  obtains st' where "BN_STACK_push ma idx st = Some st'" "bs_size st' < 2 ^ 40" "bs_size st' \<noteq> 1" "bs_depth st' = bs_depth st + 1"
proof (cases "bs_depth st = bs_size st")
  case True
  define n where "n = (if bs_size st \<noteq> 0 then bs_size st * 3 mod size_limit div 2 else BN_CTX_START_FRAMES)"
  have "bs_size st * 3 mod size_limit = bs_size st * 3" using assms(3) by (intro mod_less) simp
  then have n: "n < 2 ^ 40" "bs_size st < n" "n \<noteq> 1"
    using assms(4,5) True by (auto simp: n_def BN_CTX_START_FRAMES_def)
  have "n * 8 + 8 < 2 ^ 63" using n(1) by simp
  then obtain m where m: "OPENSSL_malloc ma (n * 8) = Some m" by (rule OPENSSL_malloc_total [OF assms(1)])
  have "n \<le> (size_limit - 1) div 8" using n(1) by simp
  then show ?thesis
    using that n True m unfolding BN_STACK_push_def Let_def n_def [symmetric] by (simp add: not_le [symmetric])
next
  case False
  then show ?thesis using that assms(3,4) by (simp add: BN_STACK_push_def)
qed

lemma start_fit:
  assumes "malloc_total ma" "ctx_fit e ctx" "e \<le> pool_max"
  shows "ctx_fit (Suc e) (BN_CTX_start ma ctx)" "frames (BN_CTX_start ma ctx) = frames ctx @ [ctx_used ctx]"
    "ctx_used (BN_CTX_start ma ctx) = ctx_used ctx" "slot (BN_CTX_start ma ctx) i = slot ctx i"
proof -
  have c: "ctx_ok ctx" "\<not> ctx_error ctx" "bs_size (ctx_stack ctx) < 2 ^ 40" "bs_size (ctx_stack ctx) \<noteq> 1"
    "bs_depth (ctx_stack ctx) \<le> pool_max" using assms(2,3) by (simp_all add: ctx_fit_def)
  have "stack_wf (ctx_stack ctx)" using c(1) by (simp add: ctx_ok_def)
  then obtain st where st: "BN_STACK_push ma (ctx_used ctx) (ctx_stack ctx) = Some st" "bs_size st < 2 ^ 40" "bs_size st \<noteq> 1"
    "bs_depth st = bs_depth (ctx_stack ctx) + 1"
    using push_total [OF assms(1) _ c(3-5)] by blast
  have s: "BN_CTX_start ma ctx = ctx\<lparr>ctx_stack := st\<rparr>" using st(1) c(2) by (simp add: BN_CTX_start_def)
  then have ne: "\<not> ctx_error (BN_CTX_start ma ctx)" using c(2) by simp
  note f = frames_start [OF c(1) ne]
  show "ctx_fit (Suc e) (BN_CTX_start ma ctx)" using assms(2) f ne st(2-4) unfolding ctx_fit_def by (simp add: s)
  show "frames (BN_CTX_start ma ctx) = frames ctx @ [ctx_used ctx]" "ctx_used (BN_CTX_start ma ctx) = ctx_used ctx"
    "slot (BN_CTX_start ma ctx) i = slot ctx i"
    using f by simp_all
qed

lemma end_fit:
  assumes "ctx_fit e ctx" "frames ctx = fs @ [u]"
  shows "ctx_fit e (BN_CTX_end ctx)" "frames (BN_CTX_end ctx) = fs" "ctx_used (BN_CTX_end ctx) = u" "slot (BN_CTX_end ctx) i = slot ctx i"
proof -
  have c: "ctx_ok ctx" "\<not> ctx_error ctx" using assms(1) by (simp_all add: ctx_fit_def)
  note f = frames_end [OF c(1) assms(2) c(2)]
  show "frames (BN_CTX_end ctx) = fs" "ctx_used (BN_CTX_end ctx) = u" "slot (BN_CTX_end ctx) i = slot ctx i" using f by simp_all
  have u: "u \<le> ctx_used ctx" using c(1) assms(2) by (simp add: ctx_ok_def)
  have "bs_size (ctx_stack (BN_CTX_end ctx)) = bs_size (ctx_stack ctx)" "ctx_bignums (BN_CTX_end ctx) = ctx_bignums ctx"
    "bs_depth (ctx_stack (BN_CTX_end ctx)) \<le> bs_depth (ctx_stack ctx)"
    using c(2) by (simp_all add: BN_CTX_end_def BN_STACK_pop_def Let_def)
  then show "ctx_fit e (BN_CTX_end ctx)" using assms(1) f u by (simp add: ctx_fit_def)
qed

lemma malloc_small: "malloc_total ma \<Longrightarrow> n < 1000 \<Longrightarrow> \<exists>b. OPENSSL_malloc ma n = Some b"
proof -
  assume ma: "malloc_total ma" and "n < 1000"
  then have "n + 8 < 2 ^ 63" by simp
  then show ?thesis by (rule OPENSSL_malloc_total [OF ma]) blast
qed

lemma new_total: "malloc_total ma \<Longrightarrow> BN_new ma = Some BN_init"
  using malloc_small [of ma sizeof_BIGNUM] by (auto simp: BN_new_def sizeof_BIGNUM_def)

lemma sk_new_total:
  assumes "malloc_total ma"
  obtains sk where "sk_new_null ma = Some sk" "sk_num_alloc sk = 4" "sk_num_field sk = 0"
proof -
  have "sizeof_STACK < 1000" "sizeof_ptr * kMinSize < 1000" by (simp_all add: sizeof_STACK_def sizeof_ptr_def kMinSize_def)
  then obtain b c where "OPENSSL_malloc ma sizeof_STACK = Some b" "OPENSSL_malloc ma (sizeof_ptr * kMinSize) = Some c"
    using malloc_small [OF assms] by metis
  then show ?thesis using that by (simp add: sk_new_null_def sk_new_def kMinSize_def)
qed

lemma grow_room:
  assumes "sk_grow ma s = Some s'" "stack_ok s" "sk_num_alloc s < 2 ^ 40"
  shows "sk_num_alloc s' \<le> max (sk_num_alloc s) (2 * sk_num_field s + 3)"
proof -
  have n: "sk_num_field s < sk_num_alloc s" using assms(2) by (simp add: stack_ok_def)
  then have "size_add (sk_num_field s) 1 = sk_num_field s + 1" using assms(3) by (simp add: size_add_def)
  moreover have "sk_num_alloc s' \<le> 2 * sk_num_alloc s + 1"
    using assms(1,3) by (auto simp: sk_grow_def Let_def size_add_def split: if_splits option.splits)
  ultimately show ?thesis
    using assms(1) n by (cases "sk_num_alloc s \<le> sk_num_field s + 1") (auto simp: sk_grow_def)
qed

lemma slot_ctx: "slot ctx i = (case ctx_bignums ctx of None \<Rightarrow> None | Some sk \<Rightarrow> if sk_num_field sk \<le> i then None else sk_data sk ! i)"
  by (simp add: slot_def sk_value_def)

text \<open>The pool that \<open>BN_CTX_get\<close> takes the number from.\<close>

lemma pool_total:
  assumes "malloc_total ma" "ctx_fit e ctx" "e \<le> pool_max"
  obtains sk0 sk where
    "(if ctx_bignums ctx = None then sk_new_null ma else ctx_bignums ctx) = Some sk0"
    "(if ctx_used ctx = sk_num (Some sk0) then
        case BN_new ma of
          None \<Rightarrow> None
        | Some bn \<Rightarrow> (case sk_push ma sk0 (Some bn) of (n, sk) \<Rightarrow> if n = 0 then None else sk)
      else Some sk0) = Some sk"
    "sk_num_alloc sk < 2 ^ 40" "\<And>i bn. i < sk_num_field sk \<Longrightarrow> sk_data sk ! i = Some bn \<Longrightarrow> \<not> bn_static bn"
proof -
  have c: "ctx_ok ctx" "ctx_used ctx \<le> pool_max" "\<And>sk. ctx_bignums ctx = Some sk \<Longrightarrow> sk_num_alloc sk < 2 ^ 40"
      "\<And>i bn. slot ctx i = Some bn \<Longrightarrow> \<not> bn_static bn"
    using assms(2,3) by (auto simp: ctx_fit_def)
  have ms: "malloc_spec ma" using assms(1) by (simp add: malloc_total_def)
  obtain sk0 where sk0: "(if ctx_bignums ctx = None then sk_new_null ma else ctx_bignums ctx) = Some sk0"
    "sk_num_alloc sk0 < 2 ^ 40" "stack_ok sk0" "ctx_used ctx \<le> sk_num_field sk0"
    "\<And>i bn. i < sk_num_field sk0 \<Longrightarrow> sk_data sk0 ! i = Some bn \<Longrightarrow> \<not> bn_static bn"
  proof (cases "ctx_bignums ctx")
    case None
    obtain sk :: "(bignum, unit) stack" where sk: "sk_new_null ma = Some sk" "sk_num_alloc sk = 4" "sk_num_field sk = 0"
      by (rule sk_new_total [OF assms(1)])
    have "stack_ok sk" using sk_new_spec(1) [OF ms] sk(1) unfolding sk_new_null_def by blast
    moreover have "ctx_used ctx = 0" using c(1) None by (simp add: ctx_ok_def)
    ultimately show ?thesis using that [of sk] sk None by simp
  next
    case (Some sk)
    then have "stack_ok sk" "ctx_used ctx \<le> sk_num_field sk" using c(1) by (simp_all add: ctx_ok_def)
    moreover have "\<not> bn_static bn" if "i < sk_num_field sk" "sk_data sk ! i = Some bn" for i bn
      using c(4) [of i bn] that Some by (simp add: slot_ctx)
    ultimately show ?thesis using that Some c(3) by simp
  qed
  show ?thesis
  proof (cases "ctx_used ctx = sk_num_field sk0")
    case False
    then show ?thesis using that [OF sk0(1), of sk0] sk0(2,5) by (simp add: sk_num_def)
  next
    case True
    have "sk_num_alloc sk0 < 2 ^ 59 - 1" using sk0(2) by simp
    then obtain g where g: "sk_grow ma sk0 = Some g" using sk_grow_total [OF assms(1) sk0(3)] by blast
    obtain n sk where p: "sk_push ma sk0 (Some BN_init) = (n, Some sk)" "n \<noteq> 0" "sk_num_alloc sk = sk_num_alloc g"
      using g by (simp add: sk_push_def sk_insert_def Let_def)
    have st: "pool_step sk0 (sk_num_field sk0) sk" by (rule pool_push [OF ms sk0(3) p(1,2)])
    have "sk_num_alloc sk < 2 ^ 40"
      using grow_room [OF g sk0(3,2)] sk0(2) p(3) True c(2) by simp
    moreover have "\<not> bn_static bn" if "i < sk_num_field sk" "sk_data sk ! i = Some bn" for i bn
    proof (cases "i < sk_num_field sk0")
      case True
      then have "sk_data sk0 ! i = Some bn" using st that by (simp add: pool_step_def)
      then show ?thesis using sk0(5) True by blast
    next
      case False
      then have "Some bn = Some BN_init" using st that by (simp add: pool_step_def)
      then show ?thesis by (simp add: BN_init_def)
    qed
    ultimately show ?thesis
      using that [OF sk0(1), of sk] True p new_total [OF assms(1)] by (simp add: sk_num_def)
  qed
qed

lemma get_fit:
  assumes "malloc_total ma" "ctx_fit e ctx" "e \<le> pool_max"
  obtains ctx' where "BN_CTX_get ma ctx = (Some (ctx_used ctx), ctx')" "ctx_fit (Suc e) ctx'" "frames ctx' = frames ctx"
    "ctx_used ctx' = ctx_used ctx + 1" "\<forall>j < ctx_used ctx. slot ctx' j = slot ctx j"
    "\<exists>bn. slot ctx' (ctx_used ctx) = Some bn \<and> bn_ok bn \<and> bn_width bn = 0 \<and> \<not> bn_neg bn \<and> \<not> bn_static bn"
proof -
  have c: "ctx_ok ctx" "\<not> ctx_error ctx" "bs_depth (ctx_stack ctx) + ctx_used ctx \<le> e" "bs_size (ctx_stack ctx) < 2 ^ 40" "bs_size (ctx_stack ctx) \<noteq> 1"
    using assms(2) by (simp_all add: ctx_fit_def)
  have ms: "malloc_spec ma" using assms(1) by (simp add: malloc_total_def)
  obtain sk0 sk where sk: "(if ctx_bignums ctx = None then sk_new_null ma else ctx_bignums ctx) = Some sk0"
    "(if ctx_used ctx = sk_num (Some sk0) then
        case BN_new ma of
          None \<Rightarrow> None
        | Some bn \<Rightarrow> (case sk_push ma sk0 (Some bn) of (n, sk) \<Rightarrow> if n = 0 then None else sk)
      else Some sk0) = Some sk"
    "sk_num_alloc sk < 2 ^ 40" "\<And>i bn. i < sk_num_field sk \<Longrightarrow> sk_data sk ! i = Some bn \<Longrightarrow> \<not> bn_static bn"
    by (rule pool_total [OF assms]) blast
  let ?u = "ctx_used ctx"
  define sk2 where "sk2 = snd (sk_set (Some sk) ?u (map_option BN_zero (sk_value (Some sk) ?u)))"
  define ctx' where "ctx' = ctx\<lparr>ctx_bignums := sk2, ctx_used := ?u + 1\<rparr>"
  have run: "BN_CTX_get ma ctx = (Some ?u, ctx')"
    using sk(1,2) c(2) by (simp add: BN_CTX_get_def Let_def sk2_def ctx'_def)
  have e: "\<not> ctx_error ctx'" using c(2) by (simp add: ctx'_def)
  note g = get_step [OF ms c(1) run e]
  obtain s2 where s2: "sk2 = Some s2" "sk_num_alloc s2 = sk_num_alloc sk" "sk_num_field s2 = sk_num_field sk"
    "\<forall>i < sk_num_field sk. sk_data s2 ! i = sk_data sk ! i \<or> sk_data s2 ! i = map_option BN_zero (sk_data sk ! i)"
  proof (cases "sk_num_field sk \<le> ?u")
    case True
    then show ?thesis using that [of sk] by (simp add: sk2_def sk_set_def)
  next
    case False
    have "sk_data s2 ! i = sk_data sk ! i \<or> sk_data s2 ! i = map_option BN_zero (sk_data sk ! i)"
      if "s2 = sk\<lparr>sk_data := (sk_data sk)[?u := map_option BN_zero (sk_data sk ! ?u)]\<rparr>" for s2 i
      using that by (cases "i = ?u"; cases "?u < length (sk_data sk)") (simp_all add: list_update_beyond not_less)
    then show ?thesis using that [of "sk\<lparr>sk_data := (sk_data sk)[?u := map_option BN_zero (sk_data sk ! ?u)]\<rparr>"] False
      by (simp add: sk2_def sk_set_def sk_value_def)
  qed
  have ns: "\<not> bn_static bn" if "slot ctx' i = Some bn" for i bn
  proof -
    have i: "i < sk_num_field sk" "sk_data s2 ! i = Some bn" using that s2(1,3) by (simp_all add: slot_ctx ctx'_def split: if_splits)
    then have "Some bn = sk_data sk ! i \<or> Some bn = map_option BN_zero (sk_data sk ! i)" using s2(4) by fastforce
    then obtain old where "sk_data sk ! i = Some old" "bn_static bn = bn_static old"
      by (cases "sk_data sk ! i") (auto simp: BN_zero_def)
    then show ?thesis using sk(4) [OF i(1)] by simp
  qed
  have "ctx_fit (Suc e) ctx'"
    unfolding ctx_fit_def using g e c(3,4,5) ns s2(1,2) sk(3) by (simp add: ctx'_def)
  moreover obtain bn where bn: "slot ctx' ?u = Some bn" "bn_width bn = 0" "\<not> bn_neg bn" using g by blast
  moreover have "bn_ok bn" using bn(2) by (simp add: bn_ok_def)
  ultimately show ?thesis using that [OF run] g ns by blast
qed

text \<open>Writing to a number of the pool.\<close>

lemma put_fit:
  assumes "ctx_fit e ctx" "slot ctx i = Some old" "bn_ok bn" "\<not> bn_static bn"
  shows "ctx_fit e (put_slot i bn ctx)" "frames (put_slot i bn ctx) = frames ctx" "ctx_used (put_slot i bn ctx) = ctx_used ctx"
    "slot (put_slot i bn ctx) j = (if j = i then Some bn else slot ctx j)"
proof -
  have c: "ctx_ok ctx" using assms(1) by (simp add: ctx_fit_def)
  have os: "on_slot i (\<lambda>_. (Some (), bn)) ctx = (Some (), put_slot i bn ctx)"
    using assms(2) by (simp add: on_slot_def slot_def put_slot_def)
  have s: "ctx_ok (put_slot i bn ctx) \<and> ctx_used (put_slot i bn ctx) = ctx_used ctx \<and> frames (put_slot i bn ctx) = frames ctx
    \<and> ctx_error (put_slot i bn ctx) = ctx_error ctx \<and> (\<forall>j. j \<noteq> i \<longrightarrow> slot (put_slot i bn ctx) j = slot ctx j)"
    by (rule on_slot_step [OF c _ os]) (simp add: assms(3))
  then show "frames (put_slot i bn ctx) = frames ctx" "ctx_used (put_slot i bn ctx) = ctx_used ctx" by simp_all
  obtain sk where sk: "ctx_bignums ctx = Some sk" "i < sk_num_field sk" using assms(2) by (auto simp: slot_ctx split: option.splits if_splits)
  then have "stack_ok sk" using c by (simp add: ctx_ok_def)
  then have len: "i < length (sk_data sk)" using sk(2) by (simp add: stack_ok_def)
  have p: "put_slot i bn ctx = ctx\<lparr>ctx_bignums := Some (sk\<lparr>sk_data := (sk_data sk)[i := Some bn]\<rparr>)\<rparr>"
    using sk by (simp add: put_slot_def sk_set_def)
  then have i: "slot (put_slot i bn ctx) i = Some bn" using sk len by (simp add: slot_ctx)
  then show sl: "slot (put_slot i bn ctx) j = (if j = i then Some bn else slot ctx j)" for j using s by simp
  have "\<not> bn_static x" if "slot (put_slot i bn ctx) k = Some x" for k x
    using that assms(1,4) unfolding sl by (auto simp: ctx_fit_def split: if_splits)
  then show "ctx_fit e (put_slot i bn ctx)"
    using assms(1) s unfolding ctx_fit_def by (simp add: p sk(1))
qed

section \<open>Runs that succeed\<close>

text \<open>What an operation within a frame keeps of the pool.\<close>

definition pool_same :: "nat \<Rightarrow> bn_ctx \<Rightarrow> bn_ctx \<Rightarrow> bool" where
  "pool_same e ctx ctx' \<longleftrightarrow> ctx_fit e ctx' \<and> frames ctx' = frames ctx \<and> ctx_used ctx \<le> ctx_used ctx'
     \<and> (\<forall>j < ctx_used ctx. slot ctx' j = slot ctx j)"

lemma pool_same_refl: "ctx_fit e ctx \<Longrightarrow> pool_same e ctx ctx"
  by (simp add: pool_same_def)

lemma pool_same_trans: "pool_same e ctx ctx1 \<Longrightarrow> pool_same e' ctx1 ctx2 \<Longrightarrow> pool_same e' ctx ctx2"
  by (auto simp: pool_same_def)

text \<open>The operation succeeds, the result satisfies \<open>Q\<close>, and at most \<open>k\<close> times an array of the pool doubles.\<close>

definition runs :: "nat \<Rightarrow> 'a pool_op \<Rightarrow> bignum \<Rightarrow> (bignum \<Rightarrow> bool) \<Rightarrow> bool" where
  "runs k m r Q \<longleftrightarrow> (\<forall>e ctx. ctx_fit e ctx \<and> e + k \<le> pool_max \<longrightarrow>
     (\<exists>x r' ctx'. m (r, ctx) = (Some x, r', ctx') \<and> Q r' \<and> pool_same (e + k) ctx ctx'))"

lemma runsD:
  assumes "runs k m r Q" "ctx_fit e ctx" "e + k \<le> pool_max"
  obtains x r' ctx' where "m (r, ctx) = (Some x, r', ctx')" "Q r'" "pool_same (e + k) ctx ctx'"
  using assms unfolding runs_def by blast

lemma runs_mono:
  assumes "runs k m r Q" "k \<le> k'"
  shows "runs k' m r Q"
  unfolding runs_def
proof (intro allI impI, elim conjE)
  fix e ctx assume c: "ctx_fit e ctx" "e + k' \<le> pool_max"
  have "ctx_fit (e + (k' - k)) ctx" by (rule ctx_fit_mono [OF c(1)]) simp
  moreover have "e + (k' - k) + k = e + k'" using assms(2) by simp
  ultimately show "\<exists>x r' ctx'. m (r, ctx) = (Some x, r', ctx') \<and> Q r' \<and> pool_same (e + k') ctx ctx'"
    using assms(1) c(2) unfolding runs_def by metis
qed

lemma runs_weaken: "runs k m r Q \<Longrightarrow> (\<And>r'. Q r' \<Longrightarrow> Q' r') \<Longrightarrow> runs k m r Q'"
  unfolding runs_def by meson

lemma runs_number: "m r = (Some x, r') \<Longrightarrow> Q r' \<Longrightarrow> runs 0 (on_number m) r Q"
  by (auto simp: runs_def on_number_def intro: pool_same_refl)

lemma runs_bind_number:
  "m r = (Some x, r') \<Longrightarrow> runs k (f x) r' Q \<Longrightarrow> runs k (op_bind (on_number m) f) r Q"
  by (simp add: runs_def on_number_def op_bind_def)

lemma runs_return: "Q r \<Longrightarrow> runs 0 (op_return x) r Q"
  by (auto simp: runs_def op_return_def intro: pool_same_refl)

lemma runs_if: "(b \<Longrightarrow> runs k m r Q) \<Longrightarrow> (\<not> b \<Longrightarrow> runs k m' r Q) \<Longrightarrow> runs k (if b then m else m') r Q"
  by simp

text \<open>Work on a number of the own frame.\<close>

lemma put_same:
  assumes "pool_same e ctx ctx1" "slot ctx1 i = Some old" "ctx_used ctx \<le> i" "bn_ok bn" "\<not> bn_static bn"
  shows "pool_same e ctx (put_slot i bn ctx1)"
proof -
  have "ctx_fit e ctx1" using assms(1) by (simp add: pool_same_def)
  note p = put_fit [OF this assms(2,4,5)]
  show ?thesis using assms(1,3) p(1-3) p(4) unfolding pool_same_def by auto
qed

lemma get_same:
  assumes "malloc_total ma" "ctx_fit e ctx" "e \<le> pool_max"
  obtains ctx' bn where "BN_CTX_get ma ctx = (Some (ctx_used ctx), ctx')" "pool_same (Suc e) ctx ctx'"
    "ctx_used ctx' = ctx_used ctx + 1"
    "slot ctx' (ctx_used ctx) = Some bn" "bn_ok bn" "bn_width bn = 0" "\<not> bn_neg bn" "\<not> bn_static bn"
proof -
  obtain ctx' where c: "BN_CTX_get ma ctx = (Some (ctx_used ctx), ctx')" "ctx_fit (Suc e) ctx'" "frames ctx' = frames ctx"
    "ctx_used ctx' = ctx_used ctx + 1" "\<forall>j < ctx_used ctx. slot ctx' j = slot ctx j"
    "\<exists>bn. slot ctx' (ctx_used ctx) = Some bn \<and> bn_ok bn \<and> bn_width bn = 0 \<and> \<not> bn_neg bn \<and> \<not> bn_static bn"
    by (rule get_fit [OF assms])
  then show ?thesis using that unfolding pool_same_def by (metis le_add1)
qed

lemma on_slot_put: "slot ctx i = Some bn \<Longrightarrow> m bn = (x, bn') \<Longrightarrow> on_slot i m ctx = (x, put_slot i bn' ctx)"
  by (simp add: on_slot_def slot_def put_slot_def)

lemma scratch_same:
  assumes "malloc_total ma" "ctx_fit e ctx" "e \<le> pool_max" "n \<le> bn_max_words"
  obtains ctx' where "scratch ma n ctx = (Some (), ctx')" "pool_same (Suc e) ctx ctx'"
proof -
  obtain ctx1 bn where c: "BN_CTX_get ma ctx = (Some (ctx_used ctx), ctx1)" "pool_same (Suc e) ctx ctx1"
    "slot ctx1 (ctx_used ctx) = Some bn" "bn_ok bn" "\<not> bn_static bn"
    by (rule get_same [OF assms(1-3)]) blast
  obtain bn' where w: "bn_wexpand ma n bn = (Some (), bn')" using wexpand_total [OF assms(1) c(5) assms(4)] by blast
  have "pool_same (Suc e) ctx (put_slot (ctx_used ctx) bn' ctx1)"
    by (rule put_same [OF c(2,3) order_refl]) (use wexpand [OF c(4) w] c(5) in simp_all)
  then show ?thesis using that on_slot_put [of ctx1 "ctx_used ctx" bn "bn_wexpand ma n", OF c(3) w] c(1) by (simp add: scratch_def op_bind_def)
qed

lemma runs_scratch:
  assumes "malloc_total ma" "n \<le> bn_max_words" "runs k (f ()) r Q"
  shows "runs (Suc k) (op_bind (on_pool (scratch ma n)) f) r Q"
  unfolding runs_def
proof (intro allI impI, elim conjE)
  fix e ctx assume c: "ctx_fit e ctx" "e + Suc k \<le> pool_max"
  obtain ctx1 where g: "scratch ma n ctx = (Some (), ctx1)" "pool_same (Suc e) ctx ctx1"
    by (rule scratch_same [OF assms(1) c(1) _ assms(2)]) (use c(2) in simp)
  obtain x r' ctx2 where f: "f () (r, ctx1) = (Some x, r', ctx2)" "Q r'" "pool_same (Suc e + k) ctx1 ctx2"
    by (rule runsD [OF assms(3), of "Suc e" ctx1]) (use g(2) c(2) in \<open>simp_all add: pool_same_def\<close>)
  show "\<exists>x r' ctx'. op_bind (on_pool (scratch ma n)) f (r, ctx) = (Some x, r', ctx') \<and> Q r' \<and> pool_same (e + Suc k) ctx ctx'"
    using f g(1) pool_same_trans [OF g(2) f(3)] by (simp add: op_bind_def on_pool_def)
qed

lemma runs_via_temp:
  assumes "malloc_total ma"
    "\<And>bn. bn_ok bn \<Longrightarrow> bn_width bn = 0 \<Longrightarrow> \<not> bn_static bn \<Longrightarrow> runs k m bn (\<lambda>rr. bn_ok rr \<and> \<not> bn_static rr \<and> P rr)"
    "\<And>rr. bn_ok rr \<Longrightarrow> P rr \<Longrightarrow> \<exists>r'. BN_copy ma rr r = (Some (), r') \<and> Q r'"
  shows "runs (Suc k) (via_temp ma m) r Q"
  unfolding runs_def
proof (intro allI impI, elim conjE)
  fix e ctx assume c: "ctx_fit e ctx" "e + Suc k \<le> pool_max"
  obtain ctx1 bn where g: "BN_CTX_get ma ctx = (Some (ctx_used ctx), ctx1)" "pool_same (Suc e) ctx ctx1" "ctx_used ctx1 = ctx_used ctx + 1"
    "slot ctx1 (ctx_used ctx) = Some bn" "bn_ok bn" "bn_width bn = 0" "\<not> bn_static bn"
    by (rule get_same [OF assms(1) c(1)]) (use c(2) in auto)
  obtain x rr ctx2 where m: "m (bn, ctx1) = (Some x, rr, ctx2)" "bn_ok rr" "\<not> bn_static rr" "P rr" "pool_same (Suc e + k) ctx1 ctx2"
    by (rule runsD [OF assms(2) [OF g(5,6,7)], of "Suc e" ctx1]) (use g(2) c(2) in \<open>auto simp: pool_same_def\<close>)
  have s2: "slot ctx2 (ctx_used ctx) = Some bn" using m(5) g(3,4) by (simp add: pool_same_def)
  define ctx3 where "ctx3 = put_slot (ctx_used ctx) rr ctx2"
  have p: "pool_same (e + Suc k) ctx ctx3"
    unfolding ctx3_def by (rule put_same [OF _ s2 order_refl m(2,3)]) (use pool_same_trans [OF g(2) m(5)] in simp)
  have s3: "slot ctx3 (ctx_used ctx) = Some rr"
    using put_fit(4) [OF _ s2 m(2,3), of "Suc e + k"] m(5) unfolding ctx3_def pool_same_def by simp
  obtain r' where r': "BN_copy ma rr r = (Some (), r')" "Q r'" using assms(3) [OF m(2,4)] by blast
  have "via_temp ma m (r, ctx) = (Some (), r', ctx3)"
    using g(1,4) m(1) s3 r'(1) by (simp add: via_temp_def with_slot_def ctx3_def)
  then show "\<exists>x r' ctx'. via_temp ma m (r, ctx) = (Some x, r', ctx') \<and> Q r' \<and> pool_same (e + Suc k) ctx ctx'" using r'(2) p by blast
qed

text \<open>A whole function: after \<open>BN_CTX_end\<close> the pool is as the caller left it.\<close>

definition pool_restored :: "nat \<Rightarrow> bn_ctx \<Rightarrow> bn_ctx \<Rightarrow> bool" where
  "pool_restored e ctx ctx' \<longleftrightarrow> pool_same e ctx ctx' \<and> ctx_used ctx' = ctx_used ctx"

text \<open>What is in use is what was in use before, so nothing is lost by a call however often it is made.\<close>

lemma pool_restored_fit:
  assumes "ctx_fit e ctx" "pool_restored e' ctx ctx'"
  shows "ctx_fit e ctx'" "pool_restored e ctx ctx'"
proof -
  have c: "ctx_fit e' ctx'" "frames ctx' = frames ctx" "ctx_used ctx' = ctx_used ctx"
    using assms(2) by (simp_all add: pool_restored_def pool_same_def)
  have "length (frames c) = bs_depth (ctx_stack c)" if "ctx_ok c" for c
    using that by (simp add: frames_def ctx_ok_def stack_wf_def)
  then have "bs_depth (ctx_stack ctx') = bs_depth (ctx_stack ctx)"
    using c(1,2) assms(1) unfolding ctx_fit_def by metis
  then show f: "ctx_fit e ctx'" using c assms(1) by (simp add: ctx_fit_def)
  then show "pool_restored e ctx ctx'" using assms(2) by (simp add: pool_restored_def pool_same_def)
qed

lemma frame_restored:
  assumes "malloc_total ma" "ctx_fit e ctx" "e \<le> pool_max" "pool_same e' (BN_CTX_start ma ctx) ctx1"
  shows "pool_restored e' ctx (BN_CTX_end ctx1)"
proof -
  note s = start_fit [OF assms(1-3)]
  have p: "ctx_fit e' ctx1" "frames ctx1 = frames ctx @ [ctx_used ctx]" "\<forall>j < ctx_used ctx. slot ctx1 j = slot ctx j"
    using assms(4) s(2-4) by (simp_all add: pool_same_def)
  show ?thesis using end_fit [OF p(1,2)] p(3) by (simp add: pool_restored_def pool_same_def)
qed

lemma runs_frame:
  assumes "malloc_total ma" "runs k m r Q" "ctx_fit e ctx" "e + Suc k \<le> pool_max"
  obtains x r' ctx' where "in_frame ma m (r, ctx) = (Some x, r', ctx')" "Q r'" "pool_restored (e + Suc k) ctx ctx'"
proof -
  have e: "e \<le> pool_max" using assms(4) by simp
  obtain x r' ctx1 where m: "m (r, BN_CTX_start ma ctx) = (Some x, r', ctx1)" "Q r'" "pool_same (Suc e + k) (BN_CTX_start ma ctx) ctx1"
    by (rule runsD [OF assms(2) start_fit(1) [OF assms(1,3) e]]) (use assms(4) in simp)
  have "pool_restored (Suc e + k) ctx (BN_CTX_end ctx1)" by (rule frame_restored [OF assms(1,3) e m(3)])
  then show ?thesis using that m by (simp add: in_frame_def)
qed

end
