(* ===== verification/Bn_Mul.thy ===== *)
theory Bn_Mul imports Bn_Pool Bn_Mul_Words begin

unbundle bit_operations_syntax

text \<open>
  Multiplication and squaring of numbers (\<open>mul.c\<close>): the choice of the routine, the sign, the temporaries from the
  pool, and the copy when the result is one of the factors (\<open>aliased\<close>).
\<close>

section \<open>Operations\<close>

definition store_words :: "malloc_fn \<Rightarrow> nat \<Rightarrow> nat \<Rightarrow> (u64 list \<Rightarrow> u64 list) \<Rightarrow> unit bn_op" where
  "store_words ma n width f = op_bind (bn_wexpand ma n) (\<lambda>_ rr.
     (Some (), rr\<lparr>bn_d := put_words 0 (f (bn_d rr)) (bn_d rr), bn_width := width\<rparr>))"

definition bn_abs_sub_consttime :: "malloc_fn \<Rightarrow> bignum \<Rightarrow> bignum \<Rightarrow> unit pool_op" where
  "bn_abs_sub_consttime ma a b =
     (let cl = (if bn_width a < bn_width b then bn_width a else bn_width b);
          dl = int (bn_width a) - int (bn_width b);
          r_len = (if bn_width a < bn_width b then bn_width b else bn_width a) in
      in_frame ma
        (op_bind (on_pool (BN_CTX_get ma)) (\<lambda>tmp.
         op_bind (on_number (bn_wexpand ma r_len)) (\<lambda>_.
         op_bind (on_pool (on_slot tmp (bn_wexpand ma r_len))) (\<lambda>_.
         on_number (\<lambda>r.
           (Some (), r\<lparr>bn_d := put_words 0 (fst (bn_abs_sub_part_words (bn_words a) (bn_words b) cl dl)) (bn_d r),
                       bn_width := r_len\<rparr>)))))))"

definition mul_number :: "malloc_fn \<Rightarrow> bignum \<Rightarrow> bignum \<Rightarrow> unit pool_op" where
  "mul_number ma a b =
     (let al = bn_width a;
          bl = bn_width b;
          top = al + bl in
      op_bind (on_number (set_neg (bn_neg a \<noteq> bn_neg b))) (\<lambda>_.
        if al = bl \<and> al = 8 then
          on_number (store_words ma 16 16 (\<lambda>_. bn_mul_comba8 (bn_words a) (bn_words b)))
        else if 16 \<le> al \<and> 16 \<le> bl \<and> al \<le> bl + 1 \<and> bl \<le> al + 1 then
          (let j = 2 ^ (BN_num_bits_word (of_nat (if bl \<le> al then al else bl)) - 1) in
           if j < al \<or> j < bl then
             op_bind (on_pool (scratch ma (j * 8))) (\<lambda>_.
               on_number (store_words ma (j * 4) top (\<lambda>d.
                 bn_mul_part_recursive j (bn_words a) (bn_words b) (take (4 * j) d))))
           else
             op_bind (on_pool (scratch ma (j * 4))) (\<lambda>_.
               on_number (store_words ma (j * 2) top (\<lambda>_. bn_mul_recursive j (bn_words a) (bn_words b)))))
        else
          on_number (store_words ma top top (\<lambda>_. bn_mul_normal (bn_words a) (bn_words b)))))"

definition bn_mul_impl :: "malloc_fn \<Rightarrow> bool \<Rightarrow> bignum \<Rightarrow> bignum \<Rightarrow> unit pool_op" where
  "bn_mul_impl ma aliased a b =
     (if bn_width a = 0 \<or> bn_width b = 0 then on_number (\<lambda>r. (Some (), BN_zero r))
      else in_frame ma (if aliased then via_temp ma (mul_number ma a b) else mul_number ma a b))"

definition BN_mul :: "malloc_fn \<Rightarrow> bool \<Rightarrow> bignum \<Rightarrow> bignum \<Rightarrow> unit pool_op" where
  "BN_mul ma aliased a b =
     op_bind (bn_mul_impl ma aliased a b) (\<lambda>_. on_number (\<lambda>r. (Some (), bn_set_minimal_width r)))"

definition bn_mul_consttime :: "malloc_fn \<Rightarrow> bool \<Rightarrow> bignum \<Rightarrow> bignum \<Rightarrow> unit pool_op" where
  "bn_mul_consttime ma aliased a b = (if bn_neg a \<or> bn_neg b then op_fail else bn_mul_impl ma aliased a b)"

definition BN_mul_word :: "malloc_fn \<Rightarrow> u64 \<Rightarrow> unit bn_op" where
  "BN_mul_word ma w bn =
     (if bn_width bn = 0 then (Some (), bn)
      else if w = 0 then (Some (), BN_zero bn)
      else
        let (ws, ll) = bn_mul_words (bn_words bn) w;
            bn = bn\<lparr>bn_d := put_words 0 ws (bn_d bn)\<rparr> in
        if ll \<noteq> 0 then
          op_bind (bn_wexpand ma (bn_width bn + 1)) (\<lambda>_ bn.
            (Some (), bn\<lparr>bn_d := (bn_d bn)[bn_width bn := ll], bn_width := bn_width bn + 1\<rparr>)) bn
        else (Some (), bn))"

definition sqr_number :: "malloc_fn \<Rightarrow> bignum \<Rightarrow> unit pool_op" where
  "sqr_number ma a =
     (let al = bn_width a;
          mx = 2 * al;
          ws = bn_words a;
          fin = (\<lambda>r. on_number (\<lambda>rr. (Some (), rr\<lparr>bn_d := put_words 0 r (bn_d rr), bn_neg := False, bn_width := mx\<rparr>))) in
      op_bind (on_pool (BN_CTX_get ma)) (\<lambda>tmp.
      op_bind (on_number (bn_wexpand ma mx)) (\<lambda>_.
        if al = 4 then fin (bn_sqr_comba4 ws)
        else if al = 8 then fin (bn_sqr_comba8 ws)
        else if al < 16 then fin (bn_sqr_normal ws)
        else if al AND (al - 1) = 0 then
          op_bind (on_pool (on_slot tmp (bn_wexpand ma (al * 4)))) (\<lambda>_. fin (bn_sqr_recursive al ws))
        else op_bind (on_pool (on_slot tmp (bn_wexpand ma mx))) (\<lambda>_. fin (bn_sqr_normal ws)))))"

text \<open>\<open>rr\<close> and \<open>tmp\<close> are tested after both calls of \<open>BN_CTX_get\<close>: when the first fails the second is made as well.\<close>

definition get_both :: "malloc_fn \<Rightarrow> 'a pool_op \<Rightarrow> 'a pool_op" where
  "get_both ma m = (\<lambda>(r, ctx).
     case BN_CTX_get ma ctx of
       (None, ctx) \<Rightarrow> (None, r, snd (BN_CTX_get ma ctx))
     | (Some _, _) \<Rightarrow> m (r, ctx))"

definition bn_sqr_consttime :: "malloc_fn \<Rightarrow> bool \<Rightarrow> bignum \<Rightarrow> unit pool_op" where
  "bn_sqr_consttime ma aliased a =
     (if bn_width a = 0 then on_number (\<lambda>r. (Some (), r\<lparr>bn_width := 0, bn_neg := False\<rparr>))
      else in_frame ma (if aliased then get_both ma (via_temp ma (sqr_number ma a)) else sqr_number ma a))"

definition BN_sqr :: "malloc_fn \<Rightarrow> bool \<Rightarrow> bignum \<Rightarrow> unit pool_op" where
  "BN_sqr ma aliased a =
     op_bind (bn_sqr_consttime ma aliased a) (\<lambda>_. on_number (\<lambda>r. (Some (), bn_set_minimal_width r)))"

section \<open>Scratch space\<close>

text \<open>A temporary that is taken before the result is expanded and expanded later, or not at all.\<close>

lemma runs_tmp:
  assumes "malloc_total ma" "m r = (Some x, r1)" "runs k f r1 Q"
    "\<And>i. (\<exists>n \<le> bn_max_words. g i x = op_bind (on_pool (on_slot i (bn_wexpand ma n))) (\<lambda>_. f)) \<or> g i x = f"
  shows "runs (Suc k) (op_bind (on_pool (BN_CTX_get ma)) (\<lambda>i. op_bind (on_number m) (g i))) r Q"
  unfolding runs_def
proof (intro allI impI, elim conjE)
  fix e ctx assume c: "ctx_fit e ctx" "e + Suc k \<le> pool_max"
  have e: "e \<le> pool_max" using c(2) by simp
  let ?i = "ctx_used ctx"
  obtain ctx1 bn where g: "BN_CTX_get ma ctx = (Some ?i, ctx1)" "pool_same (Suc e) ctx ctx1" "slot ctx1 ?i = Some bn" "bn_ok bn" "\<not> bn_static bn"
    by (rule get_same [OF assms(1) c(1) e]) blast
  obtain ctx2 where two: "pool_same (Suc e) ctx ctx2 \<and> g ?i x (r1, ctx1) = f (r1, ctx2)"
  proof (cases "g ?i x = f")
    case True
    then show ?thesis using that g(2) by simp
  next
    case False
    then obtain n where n: "g ?i x = op_bind (on_pool (on_slot ?i (bn_wexpand ma n))) (\<lambda>_. f)" "n \<le> bn_max_words"
      using assms(4) [of ?i] by blast
    obtain bn' where w: "bn_wexpand ma n bn = (Some (), bn')" using wexpand_total [OF assms(1) g(5) n(2)] by blast
    have p: "on_slot ?i (bn_wexpand ma n) ctx1 = (Some (), put_slot ?i bn' ctx1)"
      by (rule on_slot_put [where m = "bn_wexpand ma n", OF g(3) w])
    have "pool_same (Suc e) ctx (put_slot ?i bn' ctx1)"
      by (rule put_same [OF g(2,3) order_refl]) (use wexpand [OF g(4) w] g(5) in simp_all)
    then show ?thesis using that n(1) p by (simp add: op_bind_def on_pool_def)
  qed
  obtain y r' ctx3 where f: "f (r1, ctx2) = (Some y, r', ctx3)" "Q r'" "pool_same (Suc e + k) ctx2 ctx3"
    by (rule runsD [OF assms(3), of "Suc e" ctx2]) (use two c(2) in \<open>simp_all add: pool_same_def\<close>)
  have "pool_same (e + Suc k) ctx ctx3" using pool_same_trans [OF conjunct1 [OF two] f(3)] by simp
  moreover have "op_bind (on_pool (BN_CTX_get ma)) (\<lambda>i. op_bind (on_number m) (g i)) (r, ctx) = (Some y, r', ctx3)"
    using g(1) assms(2) two f(1) by (simp add: op_bind_def on_pool_def on_number_def)
  ultimately show "\<exists>x r' ctx'. op_bind (on_pool (BN_CTX_get ma)) (\<lambda>i. op_bind (on_number m) (g i)) (r, ctx) = (Some x, r', ctx')
      \<and> Q r' \<and> pool_same (e + Suc k) ctx ctx'"
    using f(2) by blast
qed

section \<open>Products\<close>

lemma store_words_value:
  assumes "malloc_total ma" "bn_ok r" "bn_room r n" "width \<le> n"
    "\<And>d. n \<le> length d \<Longrightarrow> length (f d) \<le> n \<and> width \<le> length (f d) \<and> wval (f d) = m" "m < 2 ^ (64 * width)"
  obtains r' where "store_words ma n width f r = (Some (), r')" "bn_ok r'" "bn_mag r' = m" "bn_neg r' = bn_neg r"
    "bn_static r' = bn_static r" "bn_width r' = width"
proof -
  obtain r1 where r1: "bn_wexpand ma n r = (Some (), r1)" by (rule wexpand_room [OF assms(1,3)])
  note w = wexpand [OF assms(2) r1]
  define ws where "ws = f (bn_d r1)"
  have f: "length ws \<le> n" "width \<le> length ws" "wval ws = m" using assms(5) [OF w(2)] by (simp_all add: ws_def)
  define r' where "r' = r1\<lparr>bn_d := put_words 0 ws (bn_d r1), bn_width := width\<rparr>"
  have p: "length (put_words 0 ws (bn_d r1)) = length (bn_d r1)" "take (length ws) (put_words 0 ws (bn_d r1)) = ws"
    using put_words_0 [of ws "bn_d r1"] f(1) w(2) by simp_all
  have t: "bn_words r' = take width ws"
    using arg_cong [OF p(2), of "take width"] f(2) by (simp add: r'_def bn_words_def min_absorb1)
  have "wval ws = wval (take width ws) + 2 ^ (64 * width) * wval (drop width ws)"
    using wval_append [of "take width ws" "drop width ws"] f(2) by simp
  moreover have "wval (drop width ws) = 0"
  proof (rule ccontr)
    assume "wval (drop width ws) \<noteq> 0"
    then have "2 ^ (64 * width) * 1 \<le> (2 :: nat) ^ (64 * width) * wval (drop width ws)" by (intro mult_le_mono2) simp
    then show False using calculation assms(6) f(3) by linarith
  qed
  ultimately have "wval (take width ws) = m" using f(3) by simp
  moreover have "bn_ok r'" using p(1) f w(2) by (simp add: r'_def bn_ok_def)
  moreover have "store_words ma n width f r = (Some (), r')" using r1 by (simp add: store_words_def op_bind_def r'_def ws_def)
  ultimately show ?thesis using that t w by (simp add: r'_def bn_mag_def)
qed

lemma num_bits_of_nat:
  assumes "0 < n" "n < 2 ^ 63"
  shows "2 ^ (BN_num_bits_word (of_nat n) - 1) \<le> n \<and> n < 2 * 2 ^ (BN_num_bits_word (of_nat n) - 1)"
proof -
  let ?b = "BN_num_bits_word (of_nat n)"
  have u: "unat (of_nat n :: u64) = n" using assms(2) by (simp add: unat_of_nat)
  then have nz: "(of_nat n :: u64) \<noteq> 0" using assms(1) by auto
  note v = num_bits_word_value [of "of_nat n"]
  have "n < 2 ^ ?b" "2 ^ (?b - 1) \<le> n" "0 < ?b" using v nz u by simp_all
  moreover have "(2 :: nat) ^ ?b = 2 * 2 ^ (?b - 1)" using calculation(3) by (simp add: power_eq_if)
  ultimately show ?thesis by simp
qed

lemma and_pred_pow2:
  fixes n :: nat
  shows "0 < n \<Longrightarrow> n AND (n - 1) = 0 \<Longrightarrow> \<exists>k. n = 2 ^ k"
proof (induction n rule: less_induct)
  case (less n)
  have r: "n AND (n - 1) = of_bool (odd n \<and> odd (n - 1)) + 2 * (n div 2 AND (n - 1) div 2)" by (rule and_rec)
  show ?case
  proof (cases "even n")
    case True
    then obtain m where m: "n = 2 * m" by blast
    then have "n div 2 = m" "(n - 1) div 2 = m - 1" "0 < m" "m < n" using less(2) by presburger+
    then have "m AND (m - 1) = 0" using r less(3) by simp
    then obtain k where "m = 2 ^ k" using less(1) [of m] \<open>0 < m\<close> \<open>m < n\<close> by blast
    then have "n = 2 ^ Suc k" using m by simp
    then show ?thesis by blast
  next
    case False
    then have "(n - 1) div 2 = n div 2" by presburger
    then have "n div 2 = 0" using r less(3) by simp
    then have "n = 2 ^ 0" using less(2) by simp
    then show ?thesis by blast
  qed
qed

lemma wval_product_less: "length a = m \<Longrightarrow> length b = n \<Longrightarrow> wval a * wval b < 2 ^ (64 * (m + n))"
  using mult_strict_mono' [of "wval a" "2 ^ (64 * m)" "wval b" "2 ^ (64 * n)"] wval_less [of a] wval_less [of b]
  by (simp add: distrib_left power_add)

text \<open>The sign of a product.\<close>

lemma product_value:
  assumes "bn_mag r = bn_mag a * bn_mag b" "bn_neg r = (bn_neg a \<noteq> bn_neg b)"
  shows "bn_value r = bn_value a * bn_value b"
  using assms by (auto simp: bn_value_def)

lemma words_length [simp]: "bn_ok a \<Longrightarrow> length (bn_words a) = bn_width a"
  by (simp add: bn_words_def bn_ok_def)

lemma runs_store:
  assumes "malloc_total ma" "bn_ok r" "\<not> bn_static r" "n \<le> bn_max_words" "width \<le> n"
    "\<And>d. n \<le> length d \<Longrightarrow> length (f d) \<le> n \<and> width \<le> length (f d) \<and> wval (f d) = m" "m < 2 ^ (64 * width)"
  shows "runs 0 (on_number (store_words ma n width f)) r
    (\<lambda>rr. bn_ok rr \<and> \<not> bn_static rr \<and> bn_mag rr = m \<and> bn_neg rr = bn_neg r \<and> bn_width rr = width)"
proof -
  have "bn_room r n" using assms(3,4) by (simp add: bn_room_def)
  obtain r' where "store_words ma n width f r = (Some (), r')" "bn_ok r'" "bn_mag r' = m" "bn_neg r' = bn_neg r"
    "bn_static r' = bn_static r" "bn_width r' = width"
    by (rule store_words_value [where f = f, OF assms(1,2) \<open>bn_room r n\<close> assms(5-7)])
  then show ?thesis using assms(3) by (intro runs_number [where x = "()" and r' = r']) simp_all
qed

text \<open>What a product routine leaves in the result.\<close>

definition product_of :: "bignum \<Rightarrow> bignum \<Rightarrow> bignum \<Rightarrow> bool" where
  "product_of a b r \<longleftrightarrow> bn_mag r = bn_mag a * bn_mag b \<and> bn_neg r = (bn_neg a \<noteq> bn_neg b)
     \<and> bn_width r = bn_width a + bn_width b"

lemma mul_number_runs:
  assumes "malloc_total ma" "bn_ok a" "bn_ok b" "bn_ok r" "\<not> bn_static r" "8 * max (bn_width a) (bn_width b) \<le> bn_max_words"
    "0 < bn_width a" "0 < bn_width b"
  shows "runs 1 (mul_number ma a b) r (\<lambda>rr. bn_ok rr \<and> \<not> bn_static rr \<and> product_of a b rr)"
proof -
  let ?al = "bn_width a" and ?bl = "bn_width b" and ?A = "bn_words a" and ?B = "bn_words b"
  let ?r = "r\<lparr>bn_neg := bn_neg a \<noteq> bn_neg b\<rparr>"
  let ?Q = "\<lambda>rr. bn_ok rr \<and> \<not> bn_static rr \<and> product_of a b rr"
  have ok: "bn_ok ?r" "\<not> bn_static ?r" using assms(4,5) by simp_all
  have l: "length ?A = ?al" "length ?B = ?bl" using assms(2,3) by simp_all
  have p: "wval ?A * wval ?B < 2 ^ (64 * (?al + ?bl))" by (rule wval_product_less [OF l])
  have fin: "runs k (on_number (store_words ma n (?al + ?bl) f)) ?r ?Q"
    if "n \<le> bn_max_words" "?al + ?bl \<le> n"
      "\<And>d. n \<le> length d \<Longrightarrow> length (f d) \<le> n \<and> ?al + ?bl \<le> length (f d) \<and> wval (f d) = wval ?A * wval ?B" for n f k
    by (rule runs_mono [OF runs_weaken [OF runs_store [OF assms(1) ok that p]]]) (simp_all add: product_of_def bn_mag_def)
  define j :: nat where "j = 2 ^ (BN_num_bits_word (of_nat (max ?al ?bl)) - 1)"
  have "bn_max_words = 8388607" by (simp add: bn_max_words_def)
  then have "max ?al ?bl \<le> 8388607" using assms(6) by linarith
  then have mx: "max ?al ?bl < 2 ^ 63" by (rule le_less_trans) simp
  have j: "j \<le> max ?al ?bl" "max ?al ?bl < 2 * j" "\<exists>k. j = 2 ^ k"
    using num_bits_of_nat [OF _ mx] assms(7) by (auto simp: j_def)
  have mxe: "(if ?bl \<le> ?al then ?al else ?bl) = max ?al ?bl" by simp
  show ?thesis
    unfolding mul_number_def Let_def mxe j_def [symmetric]
  proof (rule runs_bind_number [where x = "()" and r' = ?r])
    show "set_neg (bn_neg a \<noteq> bn_neg b) r = (Some (), ?r)" by (simp add: set_neg_def)
  next
    show "runs 1 (if ?al = ?bl \<and> ?al = 8 then on_number (store_words ma 16 16 (\<lambda>_. bn_mul_comba8 ?A ?B))
        else if 16 \<le> ?al \<and> 16 \<le> ?bl \<and> ?al \<le> ?bl + 1 \<and> ?bl \<le> ?al + 1 then
          (if j < ?al \<or> j < ?bl then
             op_bind (on_pool (scratch ma (j * 8))) (\<lambda>_.
               on_number (store_words ma (j * 4) (?al + ?bl) (\<lambda>d. bn_mul_part_recursive j ?A ?B (take (4 * j) d))))
           else
             op_bind (on_pool (scratch ma (j * 4))) (\<lambda>_.
               on_number (store_words ma (j * 2) (?al + ?bl) (\<lambda>_. bn_mul_recursive j ?A ?B))))
        else on_number (store_words ma (?al + ?bl) (?al + ?bl) (\<lambda>_. bn_mul_normal ?A ?B))) ?r ?Q"
    proof (intro runs_if)
      assume c: "?al = ?bl \<and> ?al = 8"
      then have t: "?al + ?bl = 16" by simp
      show "runs 1 (on_number (store_words ma 16 16 (\<lambda>_. bn_mul_comba8 ?A ?B))) ?r ?Q"
        by (rule fin [of 16 "\<lambda>_. bn_mul_comba8 ?A ?B" 1, unfolded t])
           (use mul_comba8_value [of ?A ?B] l c in \<open>simp_all add: bn_max_words_def\<close>)
    next
      assume c: "\<not> (?al = ?bl \<and> ?al = 8)" "16 \<le> ?al \<and> 16 \<le> ?bl \<and> ?al \<le> ?bl + 1 \<and> ?bl \<le> ?al + 1" "j < ?al \<or> j < ?bl"
      have a: "part_args j ?A ?B" unfolding part_args_def l using c(2,3) j by auto
      have "runs 0 (on_number (store_words ma (j * 4) (?al + ?bl) (\<lambda>d. bn_mul_part_recursive j ?A ?B (take (4 * j) d)))) ?r ?Q"
      proof (rule fin)
        show "j * 4 \<le> bn_max_words" "?al + ?bl \<le> j * 4" using j(1,2) assms(6) by simp_all
      next
        fix d :: "u64 list" assume "j * 4 \<le> length d"
        then show "length (bn_mul_part_recursive j ?A ?B (take (4 * j) d)) \<le> j * 4 \<and>
            ?al + ?bl \<le> length (bn_mul_part_recursive j ?A ?B (take (4 * j) d)) \<and>
            wval (bn_mul_part_recursive j ?A ?B (take (4 * j) d)) = wval ?A * wval ?B"
          using mul_part_recursive_value [OF a, of "take (4 * j) d"] j(2) by simp
      qed
      then show "runs 1 (op_bind (on_pool (scratch ma (j * 8))) (\<lambda>_.
          on_number (store_words ma (j * 4) (?al + ?bl) (\<lambda>d. bn_mul_part_recursive j ?A ?B (take (4 * j) d))))) ?r ?Q"
        using runs_scratch [OF assms(1), of "j * 8" 0 "\<lambda>_. on_number (store_words ma (j * 4) (?al + ?bl) (\<lambda>d. bn_mul_part_recursive j ?A ?B (take (4 * j) d)))"]
          j(1) assms(6) by simp
    next
      assume c: "\<not> (?al = ?bl \<and> ?al = 8)" "16 \<le> ?al \<and> 16 \<le> ?bl \<and> ?al \<le> ?bl + 1 \<and> ?bl \<le> ?al + 1" "\<not> (j < ?al \<or> j < ?bl)"
      have a: "recursive_args j ?A ?B" unfolding recursive_args_def l using c(2,3) j by auto
      have "runs 0 (on_number (store_words ma (j * 2) (?al + ?bl) (\<lambda>_. bn_mul_recursive j ?A ?B))) ?r ?Q"
        by (rule fin) (use mul_recursive_value [OF a] c(3) j(1) assms(6) in simp_all)
      then show "runs 1 (op_bind (on_pool (scratch ma (j * 4))) (\<lambda>_.
          on_number (store_words ma (j * 2) (?al + ?bl) (\<lambda>_. bn_mul_recursive j ?A ?B)))) ?r ?Q"
        using runs_scratch [OF assms(1), of "j * 4" 0 "\<lambda>_. on_number (store_words ma (j * 2) (?al + ?bl) (\<lambda>_. bn_mul_recursive j ?A ?B))"]
          j(1) assms(6) by simp
    next
      show "runs 1 (on_number (store_words ma (?al + ?bl) (?al + ?bl) (\<lambda>_. bn_mul_normal ?A ?B))) ?r ?Q"
        by (rule fin) (use mul_normal_value [of ?A ?B] l assms(6) in simp_all)
    qed
  qed
qed

text \<open>The same when the result is a factor and is computed in a temporary.\<close>

lemma copy_total:
  assumes "malloc_total ma" "bn_ok src" "bn_ok r" "bn_room r (bn_width src)"
  obtains r' where "BN_copy ma src r = (Some (), r')" "bn_ok r'" "bn_words r' = bn_words src" "bn_neg r' = bn_neg src"
    "bn_width r' = bn_width src" "bn_static r' = bn_static r"
proof -
  obtain r1 where r1: "bn_wexpand ma (bn_width src) r = (Some (), r1)" by (rule wexpand_room [OF assms(1,4)])
  then obtain r' where "BN_copy ma src r = (Some (), r')" "bn_static r' = bn_static r1" by (simp add: BN_copy_def op_bind_def)
  moreover have "bn_static r1 = bn_static r" using wexpand [OF assms(3) r1] by simp
  ultimately show ?thesis using that copy_value [OF assms(2,3)] by metis
qed

lemma runs_alias:
  assumes "malloc_total ma" "bn_ok r" "\<not> bn_static r" "w \<le> bn_max_words" "k' = Suc k"
    "\<And>bn. bn_ok bn \<Longrightarrow> \<not> bn_static bn \<Longrightarrow> runs k m bn (\<lambda>rr. bn_ok rr \<and> \<not> bn_static rr \<and> P rr)"
    "\<And>rr. P rr \<Longrightarrow> bn_width rr \<le> w"
    "\<And>rr r'. P rr \<Longrightarrow> bn_words r' = bn_words rr \<Longrightarrow> bn_neg r' = bn_neg rr \<Longrightarrow> bn_width r' = bn_width rr \<Longrightarrow> P r'"
  shows "runs k' (if aliased then via_temp ma m else m) r (\<lambda>rr. bn_ok rr \<and> \<not> bn_static rr \<and> P rr)"
proof (cases aliased)
  case True
  have "runs (Suc k) (via_temp ma m) r (\<lambda>rr. bn_ok rr \<and> \<not> bn_static rr \<and> P rr)"
  proof (rule runs_via_temp [OF assms(1)])
    fix bn assume "bn_ok bn" "\<not> bn_static bn"
    then show "runs k m bn (\<lambda>rr. bn_ok rr \<and> \<not> bn_static rr \<and> P rr)" by (rule assms(6))
  next
    fix rr assume rr: "bn_ok rr" "P rr"
    have "bn_room r (bn_width rr)" using assms(3,4,7) rr(2) by (fastforce simp: bn_room_def)
    then obtain r' where "BN_copy ma rr r = (Some (), r')" "bn_ok r'" "bn_words r' = bn_words rr" "bn_neg r' = bn_neg rr"
      "bn_width r' = bn_width rr" "bn_static r' = bn_static r"
      by (rule copy_total [OF assms(1) rr(1) assms(2)])
    then show "\<exists>r'. BN_copy ma rr r = (Some (), r') \<and> bn_ok r' \<and> \<not> bn_static r' \<and> P r'"
      using assms(3) assms(8) [OF rr(2)] by blast
  qed
  then show ?thesis using True assms(5) by simp
next
  case False
  have "runs k m r (\<lambda>rr. bn_ok rr \<and> \<not> bn_static rr \<and> P rr)" by (rule assms(6) [OF assms(2,3)])
  then show ?thesis using False assms(5) runs_mono by fastforce
qed

lemma product_of_words:
  "product_of a b rr \<Longrightarrow> bn_words r' = bn_words rr \<Longrightarrow> bn_neg r' = bn_neg rr \<Longrightarrow> bn_width r' = bn_width rr \<Longrightarrow> product_of a b r'"
  by (simp add: product_of_def bn_mag_def)

lemma mul_impl_run:
  assumes "malloc_total ma" "bn_ok a" "bn_ok b" "bn_ok r" "\<not> bn_static r" "8 * max (bn_width a) (bn_width b) \<le> bn_max_words"
    "ctx_fit e ctx" "e + 3 \<le> pool_max"
  obtains r' ctx' where "bn_mul_impl ma aliased a b (r, ctx) = (Some (), r', ctx')" "bn_ok r'" "bn_value r' = bn_value a * bn_value b"
    "pool_restored (e + 3) ctx ctx'" "\<not> bn_static r'" "bn_width r' \<le> bn_width a + bn_width b"
    "bn_neg a = bn_neg b \<longrightarrow> \<not> bn_neg r'"
proof (cases "bn_width a = 0 \<or> bn_width b = 0")
  case True
  then have "bn_value a * bn_value b = 0" by (auto simp: bn_value_def bn_mag_def bn_words_def)
  moreover have "bn_ok (BN_zero r)" "bn_value (BN_zero r) = 0" by (simp_all add: BN_zero_def bn_ok_def bn_value_def bn_mag_def bn_words_def)
  moreover have "pool_restored (e + 3) ctx ctx" using ctx_fit_mono [OF assms(7), of "e + 3"] by (simp add: pool_restored_def pool_same_def)
  ultimately show ?thesis using that [of "BN_zero r" ctx] True assms(5) by (simp add: bn_mul_impl_def on_number_def BN_zero_def)
next
  case False
  have n: "runs 1 (mul_number ma a b) bn (\<lambda>rr. bn_ok rr \<and> \<not> bn_static rr \<and> product_of a b rr)" if "bn_ok bn" "\<not> bn_static bn" for bn
    by (rule mul_number_runs [OF assms(1-3) that assms(6)]) (use False in simp_all)
  have "runs 2 (if aliased then via_temp ma (mul_number ma a b) else mul_number ma a b) r (\<lambda>rr. bn_ok rr \<and> \<not> bn_static rr \<and> product_of a b rr)"
  proof (rule runs_alias [OF assms(1,4,5) _ _ n])
    show "bn_width a + bn_width b \<le> bn_max_words" using assms(6) by linarith
  qed (simp_all add: product_of_words, simp add: product_of_def)
  then obtain x r' ctx' where f: "in_frame ma (if aliased then via_temp ma (mul_number ma a b) else mul_number ma a b) (r, ctx) = (Some x, r', ctx')"
    "bn_ok r' \<and> \<not> bn_static r' \<and> product_of a b r'" "pool_restored (e + Suc 2) ctx ctx'"
    by (rule runs_frame [OF assms(1) _ assms(7)]) (use assms(8) in auto)
  then show ?thesis
    using that [of r' ctx'] False product_value [of r' a b] by (simp add: bn_mul_impl_def product_of_def eval_nat_numeral)
qed

lemma sqr_number_runs:
  assumes "malloc_total ma" "bn_ok a" "bn_ok r" "\<not> bn_static r" "8 * bn_width a \<le> bn_max_words" "0 < bn_width a"
  shows "runs 1 (sqr_number ma a) r (\<lambda>rr. bn_ok rr \<and> \<not> bn_static rr \<and> product_of a a rr)"
proof -
  let ?al = "bn_width a" and ?A = "bn_words a"
  define sq where "sq = (if ?al = 4 then bn_sqr_comba4 ?A else if ?al = 8 then bn_sqr_comba8 ?A
      else if ?al < 16 then bn_sqr_normal ?A else if ?al AND (?al - 1) = 0 then bn_sqr_recursive ?al ?A else bn_sqr_normal ?A)"
  have l: "length ?A = ?al" using assms(2) by simp
  have sq: "length sq = 2 * ?al \<and> wval sq = wval ?A * wval ?A"
    unfolding sq_def
    using sqr_comba4_value [of ?A] sqr_comba8_value [of ?A] sqr_normal_value [of ?A] and_pred_pow2 [OF assms(6)]
      sqr_recursive_value [of ?al _ ?A] l by auto
  define fin where "fin = on_number (\<lambda>rr. (Some (), rr\<lparr>bn_d := put_words 0 sq (bn_d rr), bn_neg := False, bn_width := 2 * ?al\<rparr>))"
  define g where "g = (\<lambda>i (_ :: unit). if ?al < 16 then fin
    else if ?al AND (?al - 1) = 0 then op_bind (on_pool (on_slot i (bn_wexpand ma (?al * 4)))) (\<lambda>_. fin)
    else op_bind (on_pool (on_slot i (bn_wexpand ma (2 * ?al)))) (\<lambda>_. fin))"
  have eq: "sqr_number ma a = op_bind (on_pool (BN_CTX_get ma)) (\<lambda>i. op_bind (on_number (bn_wexpand ma (2 * ?al))) (g i))"
    unfolding sqr_number_def Let_def g_def fin_def sq_def by (intro arg_cong2 [where f = op_bind] ext refl) simp
  have room: "bn_room r (2 * ?al)" using assms(4,5) by (simp add: bn_room_def)
  obtain r1 where r1: "bn_wexpand ma (2 * ?al) r = (Some (), r1)" by (rule wexpand_room [OF assms(1) room])
  note w = wexpand [OF assms(3) r1]
  define r2 where "r2 = r1\<lparr>bn_d := put_words 0 sq (bn_d r1), bn_width := 2 * ?al\<rparr>"
  have s: "bn_ok r2" "bn_words r2 = sq" using stored [of sq "2 * ?al" r1] sq w(2) by (simp_all add: r2_def)
  have fin: "runs 0 fin r1 (\<lambda>rr. bn_ok rr \<and> \<not> bn_static rr \<and> product_of a a rr)"
    unfolding fin_def
  proof (rule runs_number)
    have "r1\<lparr>bn_d := put_words 0 sq (bn_d r1), bn_neg := False, bn_width := 2 * ?al\<rparr> = r2\<lparr>bn_neg := False\<rparr>" by (simp add: r2_def)
    moreover have "\<not> bn_static (r2\<lparr>bn_neg := False\<rparr>)" "bn_width (r2\<lparr>bn_neg := False\<rparr>) = 2 * ?al" using w(6) assms(4) by (simp_all add: r2_def)
    ultimately show "bn_ok (r1\<lparr>bn_d := put_words 0 sq (bn_d r1), bn_neg := False, bn_width := 2 * ?al\<rparr>) \<and>
        \<not> bn_static (r1\<lparr>bn_d := put_words 0 sq (bn_d r1), bn_neg := False, bn_width := 2 * ?al\<rparr>) \<and>
        product_of a a (r1\<lparr>bn_d := put_words 0 sq (bn_d r1), bn_neg := False, bn_width := 2 * ?al\<rparr>)"
      using s sq by (simp add: product_of_def bn_mag_def)
  qed simp
  have four: "?al * 4 \<le> bn_max_words" and two: "2 * ?al \<le> bn_max_words" using assms(5) by simp_all
  have "(\<exists>n \<le> bn_max_words. g i () = op_bind (on_pool (on_slot i (bn_wexpand ma n))) (\<lambda>_. fin)) \<or> g i () = fin" for i
    unfolding g_def using four two by (metis (no_types))
  then have "runs (Suc 0) (sqr_number ma a) r (\<lambda>rr. bn_ok rr \<and> \<not> bn_static rr \<and> product_of a a rr)"
    unfolding eq by (rule runs_tmp [where m = "bn_wexpand ma (2 * ?al)" and x = "()" and g = g, OF assms(1) r1 fin])
  then show ?thesis by simp
qed

lemma runs_get_both:
  assumes "malloc_total ma" "runs (Suc k) m r Q"
  shows "runs (Suc k) (get_both ma m) r Q"
  unfolding runs_def
proof (intro allI impI, elim conjE)
  fix e ctx assume c: "ctx_fit e ctx" "e + Suc k \<le> pool_max"
  have e: "e \<le> pool_max" using c(2) by simp
  obtain ctx1 where "BN_CTX_get ma ctx = (Some (ctx_used ctx), ctx1)" by (rule get_fit [OF assms(1) c(1) e]) blast
  then have "get_both ma m (r, ctx) = m (r, ctx)" by (simp add: get_both_def)
  then show "\<exists>x r' ctx'. get_both ma m (r, ctx) = (Some x, r', ctx') \<and> Q r' \<and> pool_same (e + Suc k) ctx ctx'"
    using runsD [OF assms(2) c] by metis
qed

lemma sqr_consttime_run:
  assumes "malloc_total ma" "bn_ok a" "bn_ok r" "\<not> bn_static r" "8 * bn_width a \<le> bn_max_words" "ctx_fit e ctx" "e + 3 \<le> pool_max"
  obtains r' ctx' where "bn_sqr_consttime ma aliased a (r, ctx) = (Some (), r', ctx')" "bn_ok r'" "bn_value r' = bn_value a * bn_value a"
    "pool_restored (e + 3) ctx ctx'" "\<not> bn_static r'" "bn_width r' \<le> bn_width a + bn_width a"
    "\<not> bn_neg r'"
proof (cases "bn_width a = 0")
  case True
  let ?r = "r\<lparr>bn_width := 0, bn_neg := False\<rparr>"
  have "bn_value a * bn_value a = 0" using True by (auto simp: bn_value_def bn_mag_def bn_words_def)
  moreover have "bn_ok ?r" "bn_value ?r = 0" by (simp_all add: bn_ok_def bn_value_def bn_mag_def bn_words_def)
  moreover have "pool_restored (e + 3) ctx ctx" using ctx_fit_mono [OF assms(6), of "e + 3"] by (simp add: pool_restored_def pool_same_def)
  ultimately show ?thesis using that [of ?r ctx] True assms(4) by (simp add: bn_sqr_consttime_def on_number_def)
next
  case False
  have n: "runs 1 (sqr_number ma a) bn (\<lambda>rr. bn_ok rr \<and> \<not> bn_static rr \<and> product_of a a rr)" if "bn_ok bn" "\<not> bn_static bn" for bn
    by (rule sqr_number_runs [OF assms(1,2) that assms(5)]) (use False in simp)
  have "runs 2 (if aliased then via_temp ma (sqr_number ma a) else sqr_number ma a) r (\<lambda>rr. bn_ok rr \<and> \<not> bn_static rr \<and> product_of a a rr)"
  proof (rule runs_alias [OF assms(1,3,4) _ _ n])
    show "bn_width a + bn_width a \<le> bn_max_words" using assms(5) by linarith
  qed (simp_all add: product_of_words, simp add: product_of_def)
  then have "runs 2 (if aliased then get_both ma (via_temp ma (sqr_number ma a)) else sqr_number ma a) r (\<lambda>rr. bn_ok rr \<and> \<not> bn_static rr \<and> product_of a a rr)"
    using runs_get_both [OF assms(1), of 1] by (simp add: eval_nat_numeral split: if_splits)
  then obtain x r' ctx' where f: "in_frame ma (if aliased then get_both ma (via_temp ma (sqr_number ma a)) else sqr_number ma a) (r, ctx) = (Some x, r', ctx')"
    "bn_ok r' \<and> \<not> bn_static r' \<and> product_of a a r'" "pool_restored (e + Suc 2) ctx ctx'"
    by (rule runs_frame [OF assms(1) _ assms(6)]) (use assms(7) in auto)
  then show ?thesis
    using that [of r' ctx'] False product_value [of r' a a] by (simp add: bn_sqr_consttime_def product_of_def eval_nat_numeral)
qed

text \<open>The exported functions.\<close>

lemma normalised:
  "m (r, ctx) = (Some (), r', ctx') \<Longrightarrow>
     op_bind m (\<lambda>_. on_number (\<lambda>r. (Some (), bn_set_minimal_width r))) (r, ctx) = (Some (), bn_set_minimal_width r', ctx')"
  by (simp add: op_bind_def on_number_def)

lemma BN_mul_run:
  assumes "malloc_total ma" "bn_ok a" "bn_ok b" "bn_ok r" "\<not> bn_static r" "8 * max (bn_width a) (bn_width b) \<le> bn_max_words"
    "ctx_fit e ctx" "e + 3 \<le> pool_max"
  obtains r' ctx' where "BN_mul ma aliased a b (r, ctx) = (Some (), r', ctx')" "bn_ok r'" "bn_value r' = bn_value a * bn_value b"
    "pool_restored (e + 3) ctx ctx'" "\<not> bn_static r'" "bn_width r' \<le> bn_width a + bn_width b"
proof -
  obtain r' ctx' where m: "bn_mul_impl ma aliased a b (r, ctx) = (Some (), r', ctx')" "bn_ok r'" "bn_value r' = bn_value a * bn_value b"
    "pool_restored (e + 3) ctx ctx'" "\<not> bn_static r'" "bn_width r' \<le> bn_width a + bn_width b"
    by (rule mul_impl_run [OF assms]) blast
  show ?thesis using that [OF _ _ _ m(4)] normalised [where m = "bn_mul_impl ma aliased a b", OF m(1)] set_minimal_width [OF m(2)] m(3,5,6)
    by (simp add: BN_mul_def bn_set_minimal_width_def Let_def split: if_splits)
qed

lemma BN_sqr_run:
  assumes "malloc_total ma" "bn_ok a" "bn_ok r" "\<not> bn_static r" "8 * bn_width a \<le> bn_max_words" "ctx_fit e ctx" "e + 3 \<le> pool_max"
  obtains r' ctx' where "BN_sqr ma aliased a (r, ctx) = (Some (), r', ctx')" "bn_ok r'" "bn_value r' = bn_value a * bn_value a"
    "pool_restored (e + 3) ctx ctx'" "\<not> bn_static r'" "bn_width r' \<le> bn_width a + bn_width a"
proof -
  obtain r' ctx' where m: "bn_sqr_consttime ma aliased a (r, ctx) = (Some (), r', ctx')" "bn_ok r'" "bn_value r' = bn_value a * bn_value a"
    "pool_restored (e + 3) ctx ctx'" "\<not> bn_static r'" "bn_width r' \<le> bn_width a + bn_width a"
    by (rule sqr_consttime_run [OF assms]) blast
  show ?thesis using that [OF _ _ _ m(4)] normalised [where m = "bn_sqr_consttime ma aliased a", OF m(1)] set_minimal_width [OF m(2)] m(3,5,6)
    by (simp add: BN_sqr_def bn_set_minimal_width_def Let_def split: if_splits)
qed

lemma mul_word_run:
  assumes "malloc_total ma" "bn_ok a" "bn_room a (bn_width a + 1)"
  obtains a' where "BN_mul_word ma w a = (Some (), a')" "bn_ok a'" "bn_value a' = int (unat w) * bn_value a"
proof (cases "bn_width a = 0 \<or> w = 0")
  case True
  have "bn_ok (BN_zero a)" "bn_value (BN_zero a) = 0" by (simp_all add: BN_zero_def bn_ok_def bn_value_def bn_mag_def bn_words_def)
  moreover have "bn_value a = 0" if "bn_width a = 0" using that by (simp add: bn_value_def bn_mag_def bn_words_def)
  ultimately show ?thesis using that True assms(2) by (cases "bn_width a = 0") (simp_all add: BN_mul_word_def)
next
  case False
  obtain ws ll where m: "bn_mul_words (bn_words a) w = (ws, ll)" by fastforce
  have v: "length ws = bn_width a" "wval ws + 2 ^ (64 * bn_width a) * unat ll = bn_mag a * unat w"
    using mul_loop_value [of "bn_words a" w 0 ws ll] m assms(2) by (simp_all add: bn_mul_words_def bn_mag_def)
  define a1 where "a1 = a\<lparr>bn_d := put_words 0 ws (bn_d a)\<rparr>"
  have p: "length (put_words 0 ws (bn_d a)) = length (bn_d a)" "take (bn_width a) (put_words 0 ws (bn_d a)) = ws"
    using put_words_0 [of ws "bn_d a"] v(1) assms(2) by (simp_all add: bn_ok_def)
  have a1: "bn_ok a1" "bn_words a1 = ws" "bn_width a1 = bn_width a" "bn_neg a1 = bn_neg a" "bn_room a1 (bn_width a + 1)"
    using p assms(2,3) by (simp_all add: a1_def bn_ok_def bn_words_def bn_room_def)
  show ?thesis
  proof (cases "ll = 0")
    case True
    then have "BN_mul_word ma w a = (Some (), a1)" using False m by (simp add: BN_mul_word_def a1_def)
    then show ?thesis using that a1 v(2) True by (simp add: bn_value_def bn_mag_def)
  next
    case nz: False
    obtain a2 where a2: "bn_wexpand ma (bn_width a + 1) a1 = (Some (), a2)" by (rule wexpand_room [OF assms(1) a1(5)])
    note w = wexpand [OF a1(1) a2]
    define a3 where "a3 = a2\<lparr>bn_d := (bn_d a2)[bn_width a2 := ll], bn_width := bn_width a2 + 1\<rparr>"
    have "take (bn_width a2) (bn_d a2) = ws" using w(3) a1(2) by (simp add: bn_words_def)
    then have "bn_words a3 = ws @ [ll]" using w(2,4) a1(3) by (simp add: a3_def bn_words_def take_Suc_conv_app_nth)
    moreover have "bn_ok a3" using w(2,4) a1(3) by (simp add: a3_def bn_ok_def)
    moreover have "bn_neg a3 = bn_neg a" using w(5) a1(4) by (simp add: a3_def)
    moreover have "BN_mul_word ma w a = (Some (), a3)"
      using False m nz a2 a1(3) by (simp add: BN_mul_word_def op_bind_def a3_def a1_def [symmetric])
    moreover have "bn_mag a3 = bn_mag a * unat w" using calculation(1) v by (simp add: bn_mag_def wval_append)
    ultimately show ?thesis using that by (simp add: bn_value_def)
  qed
qed

lemma abs_sub_run:
  assumes "malloc_total ma" "bn_ok a" "bn_ok b" "bn_ok r" "\<not> bn_static r" "bn_width a \<le> bn_max_words" "bn_width b \<le> bn_max_words"
    "ctx_fit e ctx" "e + 2 \<le> pool_max"
  obtains r' ctx' where "bn_abs_sub_consttime ma a b (r, ctx) = (Some (), r', ctx')" "bn_ok r'"
    "bn_mag r' = abs_diff (bn_mag a) (bn_mag b)" "pool_restored (e + 2) ctx ctx'"
proof -
  let ?cl = "if bn_width a < bn_width b then bn_width a else bn_width b"
  let ?dl = "int (bn_width a) - int (bn_width b)"
  let ?len = "if bn_width a < bn_width b then bn_width b else bn_width a"
  define ws where "ws = fst (bn_abs_sub_part_words (bn_words a) (bn_words b) ?cl ?dl)"
  have "parts (bn_words a) (bn_words b) ?cl ?dl" using assms(2,3) by (auto simp: parts_def)
  moreover obtain r0 m where r0: "bn_abs_sub_part_words (bn_words a) (bn_words b) ?cl ?dl = (r0, m)" by fastforce
  ultimately have "length r0 = ?cl + (nat ?dl + nat (- ?dl))" "wval r0 = abs_diff (bn_mag a) (bn_mag b)"
    using abs_sub_part_value [of "bn_words a" "bn_words b" ?cl ?dl r0 m] by (simp_all add: bn_mag_def)
  moreover have "?cl + (nat ?dl + nat (- ?dl)) = ?len" by (cases "bn_width a < bn_width b") (simp_all add: nat_diff_distrib)
  ultimately have ws: "length ws = ?len" "wval ws = abs_diff (bn_mag a) (bn_mag b)" unfolding ws_def r0 by simp_all
  have room: "bn_room r ?len" using assms(5-7) by (simp add: bn_room_def)
  obtain r1 where r1: "bn_wexpand ma ?len r = (Some (), r1)" by (rule wexpand_room [OF assms(1) room])
  note w = wexpand [OF assms(4) r1]
  define fin where "fin = on_number (\<lambda>r. (Some (), r\<lparr>bn_d := put_words 0 ws (bn_d r), bn_width := ?len\<rparr>))"
  have "runs 0 fin r1 (\<lambda>r'. bn_ok r' \<and> bn_mag r' = abs_diff (bn_mag a) (bn_mag b))"
    unfolding fin_def by (rule runs_number [OF refl]) (use stored [of ws ?len r1] ws w(2) in \<open>simp add: bn_mag_def\<close>)
  then have "runs (Suc 0) (op_bind (on_pool (BN_CTX_get ma)) (\<lambda>i. op_bind (on_number (bn_wexpand ma ?len))
      (\<lambda>_. op_bind (on_pool (on_slot i (bn_wexpand ma ?len))) (\<lambda>_. fin)))) r (\<lambda>r'. bn_ok r' \<and> bn_mag r' = abs_diff (bn_mag a) (bn_mag b))"
    by (rule runs_tmp [where m = "bn_wexpand ma ?len" and x = "()" and
          g = "\<lambda>i _. op_bind (on_pool (on_slot i (bn_wexpand ma ?len))) (\<lambda>_. fin)", OF assms(1) r1])
       (use assms(6,7) in auto)
  then obtain x r' ctx' where f: "bn_abs_sub_consttime ma a b (r, ctx) = (Some x, r', ctx')"
    "bn_ok r' \<and> bn_mag r' = abs_diff (bn_mag a) (bn_mag b)" "pool_restored (e + Suc (Suc 0)) ctx ctx'"
    unfolding bn_abs_sub_consttime_def Let_def fin_def ws_def
    by (rule runs_frame [OF assms(1) _ assms(8)]) (use assms(9) in auto)
  then show ?thesis using that by (simp add: eval_nat_numeral)
qed

section \<open>Properties\<close>

text \<open>
  C26: While memory lasts, \<open>BN_mul\<close> and \<open>BN_sqr\<close> give the signed product whatever routine the widths select and
  whether or not the result is one of the factors, \<open>BN_mul_word\<close> multiplies in place, and the pool is given back as
  it was: the same frames, the same numbers in use with the same contents.
\<close>

theorem bn_mul_exact:
  assumes "malloc_total ma" "bn_ok a" "bn_ok b" "bn_ok r" "\<not> bn_static r" "8 * max (bn_width a) (bn_width b) \<le> bn_max_words"
    "ctx_fit e ctx" "e + 3 \<le> pool_max"
  shows "(\<exists>r' ctx'. BN_mul ma aliased a b (r, ctx) = (Some (), r', ctx') \<and> bn_ok r' \<and> bn_value r' = bn_value a * bn_value b
            \<and> pool_restored (e + 3) ctx ctx')
    \<and> (\<exists>r' ctx'. BN_sqr ma aliased a (r, ctx) = (Some (), r', ctx') \<and> bn_ok r' \<and> bn_value r' = bn_value a * bn_value a
            \<and> pool_restored (e + 3) ctx ctx')
    \<and> (bn_width r < bn_max_words \<longrightarrow> (\<exists>r'. BN_mul_word ma w r = (Some (), r') \<and> bn_ok r' \<and> bn_value r' = int (unat w) * bn_value r))"
proof (intro conjI impI)
  have m: "8 * bn_width a \<le> bn_max_words" using assms(6) by simp
  show "\<exists>r' ctx'. BN_mul ma aliased a b (r, ctx) = (Some (), r', ctx') \<and> bn_ok r' \<and> bn_value r' = bn_value a * bn_value b
            \<and> pool_restored (e + 3) ctx ctx'"
    by (rule BN_mul_run [OF assms]) blast
  show "\<exists>r' ctx'. BN_sqr ma aliased a (r, ctx) = (Some (), r', ctx') \<and> bn_ok r' \<and> bn_value r' = bn_value a * bn_value a
            \<and> pool_restored (e + 3) ctx ctx'"
    by (rule BN_sqr_run [OF assms(1,2,4,5) m assms(7,8)]) blast
next
  assume "bn_width r < bn_max_words"
  then have "bn_room r (bn_width r + 1)" using assms(5) by (simp add: bn_room_def)
  then show "\<exists>r'. BN_mul_word ma w r = (Some (), r') \<and> bn_ok r' \<and> bn_value r' = int (unat w) * bn_value r"
    by (rule mul_word_run [OF assms(1,4)]) blast
qed

lemma fresh_pool_fit:
  "ctx_fit 6 \<lparr>ctx_bignums = None, ctx_stack = BN_STACK_init, ctx_used = 0, ctx_error = False, ctx_defer_error = False\<rparr>"
  by (simp add: ctx_fit_def ctx_ok_def stack_wf_def BN_STACK_init_def frames_def sk_num_def slot_ctx)

theorem bn_mul_exact_witness:
  "\<exists>r ctx. BN_mul zero_malloc True \<lparr>bn_d = [7], bn_width = 1, bn_neg = True, bn_static = False\<rparr>
      \<lparr>bn_d = [6, 0], bn_width = 2, bn_neg = False, bn_static = False\<rparr>
      (\<lparr>bn_d = [7], bn_width = 1, bn_neg = True, bn_static = False\<rparr>,
       \<lparr>ctx_bignums = None, ctx_stack = BN_STACK_init, ctx_used = 0, ctx_error = False, ctx_defer_error = False\<rparr>)
    = (Some (), r, ctx) \<and> bn_value r = - 42 \<and> ctx_used ctx = 0"
proof -
  let ?a = "\<lparr>bn_d = [7], bn_width = 1, bn_neg = True, bn_static = False\<rparr>"
  let ?b = "\<lparr>bn_d = [6, 0], bn_width = 2, bn_neg = False, bn_static = False\<rparr>"
  let ?c = "\<lparr>ctx_bignums = None, ctx_stack = BN_STACK_init, ctx_used = 0, ctx_error = False, ctx_defer_error = False\<rparr>"
  have p: "bn_ok ?a" "bn_ok ?b" "\<not> bn_static ?a" "8 * max (bn_width ?a) (bn_width ?b) \<le> bn_max_words" "6 + 3 \<le> pool_max"
    by (simp_all add: bn_ok_def bn_max_words_def)
  note m = conjunct1 [OF bn_mul_exact [OF malloc_total_zero_malloc p(1,2,1,3,4) fresh_pool_fit p(5), where aliased = True]]
  have "bn_value ?a * bn_value ?b = - 42" by (simp add: bn_value_def bn_mag_def bn_words_def)
  moreover have "ctx_used ctx = 0" if "pool_restored (6 + 3) ?c ctx" for ctx using that by (simp add: pool_restored_def)
  ultimately show ?thesis using m by metis
qed

end
