(* ===== verification/Bn_Div.thy ===== *)
theory Bn_Div imports Bn_Knuth Bn_Mul "HOL-Library.Signed_Division" begin

text \<open>
  Division of numbers (\<open>div.c\<close>): the normalisation shifts, the temporaries of the pool, the digit loop and the signs.
  A result that is not asked for is \<open>None\<close>; \<open>same\<close> says that the quotient is stored in the numerator itself.
\<close>

section \<open>Operations\<close>

text \<open>Several temporaries in a row.\<close>

fun ctx_gets :: "malloc_fn \<Rightarrow> nat \<Rightarrow> (bn_ctx, nat list) op" where
  "ctx_gets ma 0 = op_return []"
| "ctx_gets ma (Suc n) =
     op_bind (BN_CTX_get ma) (\<lambda>i. op_bind (ctx_gets ma n) (\<lambda>is. op_return (i # is)))"

definition slot_number :: "bn_ctx \<Rightarrow> nat \<Rightarrow> bignum" where
  "slot_number ctx i = (case slot ctx i of Some bn \<Rightarrow> bn | None \<Rightarrow> BN_init)"

fun put_slots :: "nat list \<Rightarrow> bignum list \<Rightarrow> bn_ctx \<Rightarrow> bn_ctx" where
  "put_slots (i # is) (bn # bns) ctx = put_slots is bns (put_slot i bn ctx)"
| "put_slots _ _ ctx = ctx"

text \<open>The numbers that the division works on.\<close>

record div_nums =
  dv_res :: bignum
  dv_tmp :: bignum
  dv_snum :: bignum
  dv_sdiv :: bignum
  dv_rem :: "bignum option"

type_synonym 'a div_op = "(div_nums, 'a) op"

definition on_res :: "'a bn_op \<Rightarrow> 'a div_op" where
  "on_res m st = (case m (dv_res st) of (x, n) \<Rightarrow> (x, st\<lparr>dv_res := n\<rparr>))"

definition on_tmp :: "'a bn_op \<Rightarrow> 'a div_op" where
  "on_tmp m st = (case m (dv_tmp st) of (x, n) \<Rightarrow> (x, st\<lparr>dv_tmp := n\<rparr>))"

definition on_snum :: "'a bn_op \<Rightarrow> 'a div_op" where
  "on_snum m st = (case m (dv_snum st) of (x, n) \<Rightarrow> (x, st\<lparr>dv_snum := n\<rparr>))"

definition on_sdiv :: "'a bn_op \<Rightarrow> 'a div_op" where
  "on_sdiv m st = (case m (dv_sdiv st) of (x, n) \<Rightarrow> (x, st\<lparr>dv_sdiv := n\<rparr>))"

text \<open>The divisor and the numerator, shifted so that the highest bit of the divisor is set.\<close>

definition shift_abs :: "malloc_fn \<Rightarrow> bignum \<Rightarrow> nat \<Rightarrow> unit bn_op" where
  "shift_abs ma a n = op_bind (BN_lshift ma a (int n)) (\<lambda>_ r. (Some (), (bn_set_minimal_width r)\<lparr>bn_neg := False\<rparr>))"

definition pad_numerator :: "malloc_fn \<Rightarrow> nat \<Rightarrow> unit bn_op" where
  "pad_numerator ma w snum =
     (if bn_width snum \<le> w + 1 then
        op_bind (bn_wexpand ma (w + 2)) (\<lambda>_ snum.
          (Some (), snum\<lparr>bn_d := put_words (bn_width snum) (replicate (w + 2 - bn_width snum) 0) (bn_d snum), bn_width := w + 2\<rparr>)) snum
      else
        op_bind (bn_wexpand ma (bn_width snum + 1)) (\<lambda>_ snum.
          (Some (), snum\<lparr>bn_d := (bn_d snum)[bn_width snum := 0], bn_width := bn_width snum + 1\<rparr>)) snum)"

definition divide_digits :: "malloc_fn \<Rightarrow> bool \<Rightarrow> unit div_op" where
  "divide_digits ma neg st =
     (let div_n = bn_width (dv_sdiv st);
          loop = bn_width (dv_snum st) - div_n in
      op_bind (on_res (op_bind (set_neg neg) (\<lambda>_. bn_wexpand ma (loop + 1)))) (\<lambda>_.
      op_bind (on_res (\<lambda>res. (Some (), res\<lparr>bn_width := loop - 1\<rparr>))) (\<lambda>_.
      op_bind (on_tmp (bn_wexpand ma (div_n + 1))) (\<lambda>_ st.
        let res = dv_res st;
            res = (if bn_width res = 0 then res\<lparr>bn_neg := False\<rparr> else res);
            snum = dv_snum st;
            (qs, d) = div_loop (bn_words (dv_sdiv st)) (loop - 1) (bn_words snum) in
        (Some (), st\<lparr>dv_res := res\<lparr>bn_d := put_words 0 qs (bn_d res)\<rparr>,
                    dv_snum := bn_set_minimal_width (snum\<lparr>bn_d := put_words 0 d (bn_d snum)\<rparr>)\<rparr>)))) st)"

definition store_remainder :: "malloc_fn \<Rightarrow> nat \<Rightarrow> (div_nums \<Rightarrow> bool) \<Rightarrow> unit div_op" where
  "store_remainder ma shift neg st =
     (case dv_rem st of
        None \<Rightarrow> (Some (), st)
      | Some rm \<Rightarrow>
          (case BN_rshift ma (dv_snum st) (int shift) rm of
             (None, rm) \<Rightarrow> (None, st\<lparr>dv_rem := Some rm\<rparr>)
           | (Some _, rm) \<Rightarrow>
               (Some (), st\<lparr>dv_rem := Some (if BN_is_zero rm then rm else rm\<lparr>bn_neg := neg st\<rparr>)\<rparr>)))"

definition div_numbers :: "malloc_fn \<Rightarrow> bool \<Rightarrow> bignum \<Rightarrow> bignum \<Rightarrow> unit div_op" where
  "div_numbers ma same num dvs =
     (let shift = 64 - BN_num_bits dvs mod 64 in
      op_bind (on_sdiv (shift_abs ma dvs shift)) (\<lambda>_.
      op_bind (on_snum (shift_abs ma num (shift + 64))) (\<lambda>_.
      op_bind (\<lambda>st. on_snum (pad_numerator ma (bn_width (dv_sdiv st))) st) (\<lambda>_.
      op_bind (divide_digits ma (bn_neg num \<noteq> bn_neg dvs)) (\<lambda>_.
      op_bind (store_remainder ma (shift + 64) (\<lambda>st. if same then bn_neg (dv_res st) else bn_neg num)) (\<lambda>_.
      on_res (\<lambda>res. (Some (), bn_set_minimal_width res))))))))"

definition top_word_zero :: "bignum \<Rightarrow> bool" where
  "top_word_zero a \<longleftrightarrow> 0 < bn_minimal_width a \<and> bn_d a ! (bn_minimal_width a - 1) = 0"

definition BN_div :: "malloc_fn \<Rightarrow> bool \<Rightarrow> bignum \<Rightarrow> bignum \<Rightarrow> (bignum option \<times> bignum option \<times> bn_ctx, unit) op" where
  "BN_div ma same num dvs = (\<lambda>(quotient, rm, ctx).
     if top_word_zero num \<or> top_word_zero dvs then (None, quotient, rm, ctx)
     else if BN_is_zero dvs then (None, quotient, rm, ctx)
     else
       (case ctx_gets ma (if quotient = None then 4 else 3) (BN_CTX_start ma ctx) of
          (None, ctx) \<Rightarrow> (None, quotient, rm, BN_CTX_end ctx)
        | (Some slots, ctx) \<Rightarrow>
            let st = \<lparr>dv_res = (case quotient of None \<Rightarrow> slot_number ctx (slots ! 3) | Some q \<Rightarrow> q),
                      dv_tmp = slot_number ctx (slots ! 0), dv_snum = slot_number ctx (slots ! 1),
                      dv_sdiv = slot_number ctx (slots ! 2), dv_rem = rm\<rparr>;
                (x, st) = div_numbers ma same num dvs st;
                ctx = put_slots slots [dv_tmp st, dv_snum st, dv_sdiv st, dv_res st] ctx in
            (x, map_option (\<lambda>_. dv_res st) quotient, dv_rem st, BN_CTX_end ctx)))"

definition BN_mod :: "malloc_fn \<Rightarrow> bignum \<Rightarrow> bignum \<Rightarrow> unit pool_op" where
  "BN_mod ma m d = (\<lambda>(r, ctx).
     case BN_div ma False m d (None, Some r, ctx) of
       (x, _, rm, ctx) \<Rightarrow> (x, case rm of Some r \<Rightarrow> r | None \<Rightarrow> r, ctx))"

definition BN_nnmod :: "malloc_fn \<Rightarrow> bignum \<Rightarrow> bignum \<Rightarrow> unit pool_op" where
  "BN_nnmod ma m d =
     op_bind (BN_mod ma m d) (\<lambda>_. on_number (\<lambda>r.
       if \<not> bn_neg r then (Some (), r) else (if bn_neg d then BN_sub else BN_add) ma r d r))"

section \<open>Temporaries\<close>

lemma gets_same:
  assumes "malloc_total ma" "ctx_fit e ctx" "e + n \<le> pool_max"
  obtains ctx' where "ctx_gets ma n ctx = (Some [ctx_used ctx..<ctx_used ctx + n], ctx')" "pool_same (e + n) ctx ctx'"
    "\<forall>i. ctx_used ctx \<le> i \<and> i < ctx_used ctx + n \<longrightarrow>
       (\<exists>bn. slot ctx' i = Some bn \<and> bn_ok bn \<and> \<not> bn_static bn \<and> bn_width bn = 0 \<and> \<not> bn_neg bn)"
proof -
  have "\<exists>ctx'. ctx_gets ma n ctx = (Some [ctx_used ctx..<ctx_used ctx + n], ctx') \<and> pool_same (e + n) ctx ctx' \<and>
    (\<forall>i. ctx_used ctx \<le> i \<and> i < ctx_used ctx + n \<longrightarrow>
       (\<exists>bn. slot ctx' i = Some bn \<and> bn_ok bn \<and> \<not> bn_static bn \<and> bn_width bn = 0 \<and> \<not> bn_neg bn))"
    using assms(2,3)
  proof (induction n arbitrary: e ctx)
    case 0
    then show ?case by (auto simp: op_return_def pool_same_refl)
  next
    case (Suc n)
    let ?u = "ctx_used ctx"
    obtain ctx1 bn where g: "BN_CTX_get ma ctx = (Some ?u, ctx1)" "pool_same (Suc e) ctx ctx1" "ctx_used ctx1 = ?u + 1"
      "slot ctx1 ?u = Some bn" "bn_ok bn" "bn_width bn = 0" "\<not> bn_neg bn" "\<not> bn_static bn"
      by (rule get_same [OF assms(1) Suc(2)]) (use Suc(3) in auto)
    obtain ctx2 where i: "ctx_gets ma n ctx1 = (Some [ctx_used ctx1..<ctx_used ctx1 + n], ctx2)" "pool_same (Suc e + n) ctx1 ctx2"
      "\<forall>i. ctx_used ctx1 \<le> i \<and> i < ctx_used ctx1 + n \<longrightarrow>
         (\<exists>bn. slot ctx2 i = Some bn \<and> bn_ok bn \<and> \<not> bn_static bn \<and> bn_width bn = 0 \<and> \<not> bn_neg bn)"
      using Suc(1) [of "Suc e" ctx1] g(2) Suc(3) by (auto simp: pool_same_def)
    have "ctx_gets ma (Suc n) ctx = (Some [?u..<?u + Suc n], ctx2)"
      using g(1,3) i(1) by (simp add: op_bind_def op_return_def upt_conv_Cons)
    moreover have "pool_same (e + Suc n) ctx ctx2" using pool_same_trans [OF g(2) i(2)] by simp
    moreover have "slot ctx2 ?u = Some bn" using i(2) g(3,4) by (simp add: pool_same_def)
    moreover have "\<exists>bn. slot ctx2 j = Some bn \<and> bn_ok bn \<and> \<not> bn_static bn \<and> bn_width bn = 0 \<and> \<not> bn_neg bn"
      if "?u \<le> j \<and> j < ?u + Suc n" for j
    proof (cases "j = ?u")
      case True
      then show ?thesis using calculation(3) g(5-8) by simp
    next
      case False
      then have "ctx_used ctx1 \<le> j \<and> j < ctx_used ctx1 + n" using that g(3) by simp
      then show ?thesis using i(3) by blast
    qed
    ultimately show ?case by blast
  qed
  then show ?thesis using that by blast
qed

lemma put_slots_same:
  assumes "pool_same e ctx ctx1" "\<forall>i \<in> set is. ctx_used ctx \<le> i \<and> slot ctx1 i \<noteq> None" "\<forall>bn \<in> set bns. bn_ok bn \<and> \<not> bn_static bn"
  shows "pool_same e ctx (put_slots is bns ctx1)"
  using assms
proof (induction "is" bns ctx1 rule: put_slots.induct)
  case (1 i "is" bn bns ctx1)
  obtain old where o: "slot ctx1 i = Some old" using 1(3) by auto
  have p: "pool_same e ctx (put_slot i bn ctx1)" by (rule put_same [OF 1(2) o]) (use 1(3,4) in simp_all)
  have "ctx_fit e ctx1" using 1(2) by (simp add: pool_same_def)
  then have "slot (put_slot i bn ctx1) j \<noteq> None" if "slot ctx1 j \<noteq> None" for j
    using put_fit(4) [OF _ o, of e bn j] 1(4) that by simp
  then show ?case using 1(1) [OF p] 1(3,4) by simp
qed simp_all

section \<open>Normalised operands\<close>

lemma wexpand_static: "bn_wexpand ma n bn = (x, bn') \<Longrightarrow> bn_static bn' = bn_static bn"
  by (auto simp: bn_wexpand_def split: if_splits option.splits)

lemma set_minimal_static [simp]: "bn_static (bn_set_minimal_width bn) = bn_static bn"
  by (simp add: bn_set_minimal_width_def Let_def)

lemma minimal_width_le: "minimal_width_from d n \<le> n" "bn_width (bn_set_minimal_width bn) \<le> bn_width bn"
proof -
  show le: "minimal_width_from d n \<le> n" for d n by (induction n) simp_all
  show "bn_width (bn_set_minimal_width bn) \<le> bn_width bn"
    using le by (simp add: bn_set_minimal_width_def Let_def bn_minimal_width_def)
qed

lemma minimal_normal:
  assumes "bn_ok bn"
  shows "bn_normal (bn_set_minimal_width bn)"
proof -
  note m = minimal_width_from [of "bn_width bn" "bn_d bn"] and s = set_minimal_width [OF assms]
  have "bn_mag bn \<noteq> 0" if "bn_minimal_width bn \<noteq> 0"
  proof
    assume "bn_mag bn = 0"
    then have "wval (take (bn_minimal_width bn) (bn_d bn)) = 0"
      using m assms by (simp add: bn_minimal_width_def bn_mag_def bn_words_def bn_ok_def)
    moreover have "bn_minimal_width bn - 1 < length (bn_d bn)" "bn_minimal_width bn \<le> length (bn_d bn)"
      using m that assms by (simp_all add: bn_minimal_width_def bn_ok_def) linarith+
    ultimately have "bn_d bn ! (bn_minimal_width bn - 1) = 0"
      using wval_nth [of "bn_minimal_width bn - 1" "take (bn_minimal_width bn) (bn_d bn)"] that by (simp add: unat_eq_0)
    then show False using m that assms by (simp add: bn_minimal_width_def bn_ok_def)
  qed
  then show ?thesis using s by (auto simp: bn_normal_def bn_set_minimal_width_def Let_def split: if_splits)
qed

text \<open>A number of minimal width is as large as its highest word says.\<close>

lemma minimal_large:
  assumes "bn_ok bn" "bn_width (bn_set_minimal_width bn) = Suc w"
  shows "weight w \<le> bn_mag bn"
proof -
  let ?w = "bn_minimal_width bn"
  have w: "?w = Suc w" using assms(2) by (simp add: bn_set_minimal_width_def Let_def split: if_splits)
  have m: "?w \<le> bn_width bn" "wval (take ?w (bn_d bn)) = bn_mag bn" "bn_d bn ! (?w - 1) \<noteq> 0"
    using minimal_width_from [of "bn_width bn" "bn_d bn"] assms(1) w
    by (simp_all add: bn_minimal_width_def bn_mag_def bn_words_def bn_ok_def)
  have l: "w < length (bn_d bn)" using m(1) w assms(1) by (simp add: bn_ok_def)
  have "bn_mag bn = wval (take w (take ?w (bn_d bn))) + weight w * (unat (bn_d bn ! w) + 2 ^ 64 * wval (drop (Suc w) (take ?w (bn_d bn))))"
    using wval_nth [of w "take ?w (bn_d bn)"] m(2) l w by simp
  moreover have "1 \<le> unat (bn_d bn ! w)" using m(3) w by (simp add: Suc_le_eq unat_gt_0)
  then have "weight w * 1 \<le> weight w * (unat (bn_d bn ! w) + 2 ^ 64 * wval (drop (Suc w) (take ?w (bn_d bn))))"
    by (intro mult_le_mono2) (rule trans_le_add1)
  ultimately show ?thesis by linarith
qed

lemma lshift_keeps:
  assumes "BN_lshift ma a n r = (Some (), r')" "bn_ok a" "bn_ok r"
  shows "bn_static r' = bn_static r" "bn_width r' \<le> bn_width a + nat n div 64 + 1"
proof -
  let ?r = "r\<lparr>bn_neg := bn_neg a\<rparr>" and ?k = "bn_width a + nat n div 64 + 1"
  obtain r1 where r1: "bn_wexpand ma ?k ?r = (Some (), r1)" using assms(1) by (auto simp: BN_lshift_def op_bind_eq_Some Let_def split: if_splits)
  obtain t where t: "r' = bn_set_minimal_width (r1\<lparr>bn_d := t, bn_width := ?k\<rparr>)"
    using assms(1) r1 by (auto simp: BN_lshift_def op_bind_def Let_def split: if_splits)
  show "bn_static r' = bn_static r" unfolding t using wexpand_static [OF r1] by simp
  show "bn_width r' \<le> ?k" unfolding t
    using minimal_width_le(2) [of "r1\<lparr>bn_d := t, bn_width := ?k\<rparr>"] by simp
qed

lemma shift_abs_run:
  assumes "malloc_total ma" "bn_ok a" "bn_ok r" "\<not> bn_static r" "bn_width a + n div 64 + 1 \<le> bn_max_words"
  obtains r' where "shift_abs ma a n r = (Some (), r')" "bn_ok r'" "\<not> bn_static r'" "\<not> bn_neg r'" "bn_mag r' = 2 ^ n * bn_mag a"
    "bn_width r' \<le> bn_width a + n div 64 + 1" "\<forall>w. bn_width r' = Suc w \<longrightarrow> weight w \<le> bn_mag r'"
proof -
  have room: "bn_room r (bn_width a + nat (int n) div 64 + 1)" using assms(4,5) by (simp add: bn_room_def)
  obtain x where x: "BN_lshift ma a (int n) r = (Some (), x)" "bn_ok x" "bn_value x = 2 ^ nat (int n) * bn_value a"
    by (rule lshift_run [OF assms(1-3) _ room]) simp_all
  note k = lshift_keeps [OF x(1) assms(2,3)]
  note m = set_minimal_width [OF x(2)]
  have "\<bar>bn_value x\<bar> = 2 ^ n * \<bar>bn_value a\<bar>" unfolding x(3) by (simp add: abs_mult)
  moreover have "\<bar>bn_value y\<bar> = int (bn_mag y)" for y by (simp add: bn_value_def)
  ultimately have mag: "bn_mag x = 2 ^ n * bn_mag a" by (metis of_nat_eq_iff of_nat_mult of_nat_numeral of_nat_power)
  define r' where "r' = (bn_set_minimal_width x)\<lparr>bn_neg := False\<rparr>"
  have magr: "bn_mag r' = bn_mag x" using m by (simp add: r'_def bn_mag_def)
  have "shift_abs ma a n r = (Some (), r')" using x(1) by (simp add: shift_abs_def op_bind_def r'_def)
  moreover have "bn_ok r'" "\<not> bn_static r'" "\<not> bn_neg r'" using m k(1) assms(4) by (simp_all add: r'_def)
  moreover have "bn_width r' \<le> bn_width a + n div 64 + 1" using m k(2) by (simp add: r'_def)
  moreover have "weight w \<le> bn_mag r'" if "bn_width r' = Suc w" for w
    using minimal_large [OF x(2), of w] that magr by (simp add: r'_def)
  ultimately show ?thesis using that magr mag by simp
qed

text \<open>A magnitude whose bit length is a multiple of the word size fills its highest word.\<close>

lemma normalised_top:
  assumes "wval ws < weight (length ws)" "length ws = Suc w" "weight w \<le> wval ws" "wval ws < weight k" "weight k \<le> 2 * wval ws" "0 < k"
  shows "2 ^ 63 \<le> unat (last ws)" "length ws = k"
proof -
  obtain j where j: "k = Suc j" using assms(6) gr0_conv_Suc by blast
  have "weight w < weight k" using assms(3,4) by (rule le_less_trans)
  then have "w \<le> j" unfolding j using power_strict_increasing_iff [of "2 :: nat" "64 * w" "64 * Suc j"] by simp
  moreover have "j \<le> w"
  proof (rule ccontr)
    assume "\<not> j \<le> w"
    then have "64 * Suc w + 1 < 64 * k" unfolding j by simp
    then have "(2 :: nat) ^ (64 * Suc w + 1) < weight k" by (rule power_strict_increasing) simp
    then have "2 * weight (Suc w) < weight k" by (simp only: power_add power_one_right mult.commute)
    then show False using assms(1,5) unfolding assms(2) by linarith
  qed
  ultimately show l: "length ws = k" using assms(2) j by simp
  have "wval ws = wval (take w ws) + weight w * unat (ws ! w)" using wval_nth [of w ws] assms(2) by simp
  moreover have "wval (take w ws) < weight w" using wval_less [of "take w ws"] assms(2) by simp
  ultimately have "wval ws < weight w * (unat (ws ! w) + 1)" by simp
  moreover have "k = w + 1" using l assms(2) by simp
  then have "weight k = weight w * 2 ^ 64" by (simp only: weight_add mult_1_right)
  ultimately have "weight w * 2 ^ 64 < 2 * (weight w * (unat (ws ! w) + 1))" using assms(5) by linarith
  then have "weight w * 2 ^ 64 < weight w * (2 * (unat (ws ! w) + 1))" by (simp only: ac_simps)
  then have "2 ^ 64 < 2 * (unat (ws ! w) + 1)" by (simp only: nat_mult_less_cancel1 mult_less_cancel1)
  then have "2 ^ 63 \<le> unat (ws ! w)" by simp
  moreover have "last ws = ws ! w" using assms(2) by (subst last_conv_nth) auto
  ultimately show "2 ^ 63 \<le> unat (last ws)" by simp
qed

lemma pad_run:
  assumes "malloc_total ma" "bn_ok x" "\<not> bn_static x" "max (w + 2) (bn_width x + 1) \<le> bn_max_words"
  obtains x' j where "pad_numerator ma w x = (Some (), x')" "bn_ok x'" "\<not> bn_static x'" "bn_neg x' = bn_neg x"
    "bn_words x' = bn_words x @ replicate j 0" "1 \<le> j" "bn_width x' = bn_width x + j" "w + 2 \<le> bn_width x'"
    "bn_width x' \<le> max (w + 2) (bn_width x + 1)"
proof -
  have b: "w + 2 \<le> bn_max_words" "bn_width x + 1 \<le> bn_max_words" using assms(4) unfolding max.bounded_iff by blast+
  show ?thesis
  proof (cases "bn_width x \<le> w + 1")
    case True
    let ?j = "w + 2 - bn_width x"
    have room: "bn_room x (w + 2)" using assms(3) b by (simp add: bn_room_def)
    obtain y where y: "bn_wexpand ma (w + 2) x = (Some (), y)" by (rule wexpand_room [OF assms(1) room])
    note e = wexpand [OF assms(2) y]
    define x' where "x' = y\<lparr>bn_d := put_words (bn_width x) (replicate ?j 0) (bn_d y), bn_width := w + 2\<rparr>"
    have l: "bn_width x + ?j = w + 2" "bn_width x \<le> length (bn_d y)" using True e(2) by simp_all
    have d: "bn_d x' = bn_words x @ replicate ?j 0 @ drop (w + 2) (bn_d y)"
      using l e(3,4) by (simp add: x'_def put_words_def bn_words_def)
    have lx: "length (bn_words x) = bn_width x" using assms(2) by simp
    have "take (w + 2) (bn_d x') = bn_words x @ replicate ?j 0" unfolding d using lx l(1) by simp
    then have wd: "bn_words x' = bn_words x @ replicate ?j 0" by (simp add: bn_words_def x'_def)
    moreover have "bn_ok x'" using arg_cong [OF d, of length] lx l(1) e(2) by (simp add: bn_ok_def x'_def)
    moreover have "pad_numerator ma w x = (Some (), x')" using True y e(4) by (simp add: pad_numerator_def op_bind_def x'_def)
    ultimately show ?thesis using that [of x' ?j] True e(5,6) assms(3) by (simp add: x'_def)
  next
    case False
    have room: "bn_room x (bn_width x + 1)" using assms(3) b by (simp add: bn_room_def)
    obtain y where y: "bn_wexpand ma (bn_width x + 1) x = (Some (), y)" by (rule wexpand_room [OF assms(1) room])
    note e = wexpand [OF assms(2) y]
    define x' where "x' = y\<lparr>bn_d := (bn_d y)[bn_width y := 0], bn_width := bn_width y + 1\<rparr>"
    have "bn_words x' = take (bn_width y) (bn_d y) @ [0]" using e(2,4) by (simp add: x'_def bn_words_def take_Suc_conv_app_nth)
    then have "bn_words x' = bn_words x @ replicate 1 0" using e(3) by (simp add: bn_words_def)
    moreover have "bn_ok x'" using e(2,4) by (simp add: bn_ok_def x'_def)
    moreover have "pad_numerator ma w x = (Some (), x')" using False y by (simp add: pad_numerator_def op_bind_def x'_def)
    ultimately show ?thesis using that [of x' 1] False e(4-6) assms(3) by (simp add: x'_def)
  qed
qed

section \<open>The quotient and the remainder\<close>

text \<open>The digit loop on the shifted operands, in terms of the operands.\<close>

lemma scaled_division:
  assumes "bn_ok dvr" "bn_mag dvr = 2 ^ s * v" "0 < v" "2 ^ (b - 1) \<le> v" "v < 2 ^ b" "s = 64 - b mod 64" "0 < b"
    "\<forall>w. bn_width dvr = Suc w \<longrightarrow> weight w \<le> bn_mag dvr"
    "ws = xs @ replicate j 0" "1 \<le> j" "length ws = bn_width dvr + 1 + k" "1 \<le> k" "wval xs = 2 ^ (s + 64) * u"
    "div_loop (bn_words dvr) k ws = (qs, d)"
  shows "length qs = k" "length d = length ws" "wval qs = u div v" "wval d = 2 ^ (s + 64) * (u mod v)"
proof -
  let ?sd = "bn_words dvr"
  have lsd: "length ?sd = bn_width dvr" using assms(1) by simp
  have mag: "wval ?sd = 2 ^ s * v" using assms(2) by (simp add: bn_mag_def)
  have s64: "s + b = 64 * (b div 64 + 1)"
    using assms(6) by presburger
  have up: "wval ?sd < weight (b div 64 + 1)"
  proof -
    have "2 ^ s * v < 2 ^ s * 2 ^ b" using assms(5) by simp
    then show ?thesis unfolding mag s64 [symmetric] by (simp only: power_add)
  qed
  have lo: "weight (b div 64 + 1) \<le> 2 * wval ?sd"
  proof -
    have "(2 :: nat) ^ b = 2 * 2 ^ (b - 1)" using assms(7) by (simp add: power_eq_if)
    then have "2 ^ b \<le> 2 * v" using assms(4) by simp
    then have "2 ^ s * 2 ^ b \<le> 2 ^ s * (2 * v)" by (rule mult_le_mono2)
    then show ?thesis unfolding mag s64 [symmetric] power_add by (simp only: ac_simps)
  qed
  have pos: "0 < wval ?sd" using mag assms(3) by simp
  then obtain w where w: "bn_width dvr = Suc w"
    using lsd by (cases "bn_width dvr") auto
  have wl: "weight w \<le> wval ?sd" using assms(8) w by (simp add: bn_mag_def)
  have ll: "wval ?sd < weight (length ?sd)" by (rule wval_less)
  note top = normalised_top(1) [OF ll lsd [unfolded w] wl up lo]
  have kl: "k + length ?sd < length ws" using assms(11) lsd by simp
  have lws: "ws \<noteq> []" using assms(11) by auto
  have "last ws = 0" using assms(9,10) lws by (cases j) (simp_all add: replicate_append_same [symmetric])
  moreover have "drop (Suc k) ws \<noteq> []" using assms(11) w by simp
  ultimately have z: "drop (Suc k) ws = butlast (drop (Suc k) ws) @ [0]" by (metis append_butlast_last_id last_drop drop_eq_Nil not_le)
  have "length (butlast (drop (Suc k) ws)) = w" using assms(11) w by simp
  then have "wval (drop (Suc k) ws) < weight w" using wval_less [of "butlast (drop (Suc k) ws)"] by (subst z) (simp add: wval_append)
  then have hi: "wval (drop (Suc k) ws) < wval ?sd" using wl by linarith
  have l0: "0 < length ?sd" using lsd w by simp
  have v: "length qs = k" "length d = length ws" "take 1 d = take 1 ws"
    "wval qs = wval (drop 1 ws) div wval ?sd" "wval (drop 1 d) = wval (drop 1 ws) mod wval ?sd"
    using div_loop_value [OF l0 top kl hi assms(14)] assms(7) by auto
  show "length qs = k" "length d = length ws" by (rule v(1), rule v(2))
  have "wval ws = wval xs" unfolding assms(9) by (simp add: wval_append)
  then have ws: "wval ws = 2 ^ 64 * (2 ^ s * u)" unfolding assms(13) by (simp only: power_add mult.assoc mult.left_commute)
  have split: "wval x = unat (x ! 0) + 2 ^ 64 * wval (drop 1 x)" if "x \<noteq> []" for x using wval_nth [of 0 x] that by simp
  have "2 ^ 64 dvd wval ws" unfolding ws by simp
  then have "2 ^ 64 dvd unat (ws ! 0)" using split [OF lws] by (simp only: dvd_add_left_iff dvd_triv_left)
  then have z0: "unat (ws ! 0) = 0" using unat_less_64 [of "ws ! 0"] by (meson dvd_imp_le not_le neq0_conv)
  then have d1: "wval (drop 1 ws) = 2 ^ s * u" using split [OF lws] ws by simp
  show "wval qs = u div v" unfolding v(4) d1 mag by simp
  have dn: "d \<noteq> []" using v(2) lws by auto
  have "d ! 0 = ws ! 0" using v(3) dn lws by (metis nth_take zero_less_one)
  then have d0: "wval d = 2 ^ 64 * wval (drop 1 d)" using split [OF dn] z0 by simp
  have "wval (drop 1 d) = 2 ^ s * (u mod v)" unfolding v(5) d1 mag by (rule mult_mod_right [symmetric])
  then show "wval d = 2 ^ (s + 64) * (u mod v)" unfolding d0 by (simp only: power_add mult.assoc mult.left_commute)
qed

definition usable :: "bignum \<Rightarrow> bool" where
  "usable bn \<longleftrightarrow> bn_ok bn \<and> \<not> bn_static bn \<and> bn_width bn < bn_max_words"

definition with_sign :: "bool \<Rightarrow> nat \<Rightarrow> int" where
  "with_sign neg m = (if neg then - int m else int m)"

lemma mag_of_value: "bn_value r = with_sign neg m \<Longrightarrow> bn_mag r = m"
  by (auto simp: bn_value_def with_sign_def split: if_splits)

lemma rshift_keeps:
  assumes "BN_rshift ma a n r = (Some (), r')"
  shows "bn_static r' = bn_static r" "bn_width r' \<le> bn_width a" "bn_ok a \<Longrightarrow> bn_ok r \<Longrightarrow> bn_normal r'"
proof -
  obtain r1 where r1: "bn_wexpand ma (bn_width a) r = (Some (), r1)"
    using assms by (auto simp: BN_rshift_def op_bind_eq_Some op_fail_def split: if_splits)
  obtain t neg where t: "r' = bn_set_minimal_width (r1\<lparr>bn_d := t, bn_neg := neg, bn_width := bn_width a\<rparr>)"
    using assms r1 by (auto simp: BN_rshift_def op_bind_def op_fail_def split: if_splits)
  show "bn_static r' = bn_static r" unfolding t using wexpand_static [OF r1] by simp
  show "bn_width r' \<le> bn_width a" unfolding t
    using minimal_width_le(2) [of "r1\<lparr>bn_d := t, bn_neg := neg, bn_width := bn_width a\<rparr>"] by simp
  show "bn_normal r'" if ok: "bn_ok a" "bn_ok r"
  proof -
    have "\<not> n < 0" using assms by (auto simp: BN_rshift_def op_fail_def)
    then have r': "r' = bn_set_minimal_width (r1\<lparr>bn_d := put_words 0 (bn_rshift_words (bn_words a) (nat n)) (bn_d r1),
        bn_neg := bn_neg a, bn_width := bn_width a\<rparr>)"
      using assms r1 by (simp add: BN_rshift_def op_bind_def)
    have "bn_width a \<le> length (bn_d r1)" using wexpand [OF ok(2) r1] by simp
    then show ?thesis unfolding r' by (intro minimal_normal) (simp add: bn_ok_def put_words_def)
  qed
qed

lemma store_remainder_run:
  assumes "malloc_total ma" "\<And>rm. dv_rem st = Some rm \<Longrightarrow> usable rm" "bn_ok (dv_snum st)" "\<not> bn_neg (dv_snum st)"
    "bn_mag (dv_snum st) = 2 ^ n * m" "bn_width (dv_snum st) < bn_max_words"
  obtains rm' where "store_remainder ma n neg st = (Some (), st\<lparr>dv_rem := rm'\<rparr>)" "(dv_rem st = None) = (rm' = None)"
    "\<forall>rm. rm' = Some rm \<longrightarrow> usable rm \<and> bn_normal rm \<and> bn_value rm = with_sign (neg st) m"
proof (cases "dv_rem st")
  case None
  then have "st\<lparr>dv_rem := None\<rparr> = st" by (cases st) simp
  then show ?thesis using that [of None] None by (simp add: store_remainder_def)
next
  case (Some rm)
  then have u: "bn_ok rm" "\<not> bn_static rm" using assms(2) by (simp_all add: usable_def)
  have room: "bn_room rm (bn_width (dv_snum st))" using u(2) assms(6) by (simp add: bn_room_def)
  obtain x where x: "BN_rshift ma (dv_snum st) (int n) rm = (Some (), x)" "bn_ok x" "bn_value x = shifted (dv_snum st) (nat (int n))"
    by (rule rshift_run [where n = "int n", OF assms(1,3) u(1) _ room]) simp_all
  have vx: "bn_value x = int m" using x(3) assms(4,5) by (simp add: shifted_def)
  then have mx: "bn_mag x = m" using mag_of_value [of x False m] by (simp add: with_sign_def)
  define y where "y = (if BN_is_zero x then x else x\<lparr>bn_neg := neg st\<rparr>)"
  have "bn_value y = with_sign (neg st) m"
  proof (cases "m = 0")
    case True
    then have "BN_is_zero x" using is_zero_iff [OF x(2)] mx by simp
    then show ?thesis using vx True by (simp add: y_def with_sign_def)
  next
    case False
    then have "\<not> BN_is_zero x" using is_zero_iff [OF x(2)] mx by simp
    then show ?thesis using mx by (simp add: y_def with_sign_def bn_value_def bn_mag_def)
  qed
  moreover have "usable y" using x(2) rshift_keeps [OF x(1)] u(2) assms(6) by (simp add: usable_def y_def)
  moreover have "bn_normal y"
    using rshift_keeps(3) [OF x(1) assms(3) u(1)] is_zero_iff [OF x(2)] by (auto simp: y_def bn_normal_def bn_mag_def bn_words_def)
  ultimately show ?thesis using that [of "Some y"] Some x(1) by (simp add: store_remainder_def y_def)
qed

lemma on_parts:
  "m (dv_res st) = (x, n) \<Longrightarrow> on_res m st = (x, st\<lparr>dv_res := n\<rparr>)"
  "m (dv_tmp st) = (x, n) \<Longrightarrow> on_tmp m st = (x, st\<lparr>dv_tmp := n\<rparr>)"
  "m (dv_snum st) = (x, n) \<Longrightarrow> on_snum m st = (x, st\<lparr>dv_snum := n\<rparr>)"
  "m (dv_sdiv st) = (x, n) \<Longrightarrow> on_sdiv m st = (x, st\<lparr>dv_sdiv := n\<rparr>)"
  by (simp_all add: on_res_def on_tmp_def on_snum_def on_sdiv_def)

lemma op_bind_step: "m s = (Some a, s1) \<Longrightarrow> op_bind m f s = f a s1"
  by (simp add: op_bind_def)

lemma divide_digits_run:
  assumes "malloc_total ma" "usable (dv_res st)" "usable (dv_tmp st)" "usable (dv_snum st)"
    "bn_width (dv_snum st) = bn_width (dv_sdiv st) + 1 + k" "1 \<le> k" "bn_width (dv_snum st) < bn_max_words"
    "bn_width (dv_sdiv st) + 1 \<le> bn_max_words" "k + 2 \<le> bn_max_words"
    "div_loop (bn_words (dv_sdiv st)) k (bn_words (dv_snum st)) = (qs, d)" "length qs = k" "length d = bn_width (dv_snum st)"
  obtains res tmp snum where "divide_digits ma neg st = (Some (), st\<lparr>dv_res := res, dv_tmp := tmp, dv_snum := snum\<rparr>)"
    "usable res" "usable tmp" "usable snum" "bn_value res = with_sign neg (wval qs)" "bn_neg res = neg" "bn_mag snum = wval d"
    "bn_neg (dv_snum st) \<or> \<not> bn_neg snum" "bn_width snum \<le> bn_width (dv_snum st)"
proof -
  let ?res = "dv_res st" and ?tmp = "dv_tmp st" and ?snum = "dv_snum st" and ?n = "bn_width (dv_sdiv st)"
  have loop: "bn_width ?snum - ?n = k + 1" using assms(5) by simp
  have u: "bn_ok ?res" "\<not> bn_static ?res" "bn_ok ?tmp" "\<not> bn_static ?tmp" "bn_ok ?snum" "\<not> bn_static ?snum"
    using assms(2-4) by (simp_all add: usable_def)
  have rr: "bn_room (?res\<lparr>bn_neg := neg\<rparr>) (k + 1 + 1)" using u(2) assms(9) by (simp add: bn_room_def)
  obtain r1 where r1: "bn_wexpand ma (k + 1 + 1) (?res\<lparr>bn_neg := neg\<rparr>) = (Some (), r1)" by (rule wexpand_room [OF assms(1) rr])
  have rt: "bn_room ?tmp (?n + 1)" using u(4) assms(8) by (simp add: bn_room_def)
  obtain t1 where t1: "bn_wexpand ma (?n + 1) ?tmp = (Some (), t1)" by (rule wexpand_room [OF assms(1) rt])
  have okn: "bn_ok (?res\<lparr>bn_neg := neg\<rparr>)" using u(1) by simp
  note e = wexpand [OF okn r1] and et = wexpand [OF u(3) t1]
  define res where "res = r1\<lparr>bn_width := k, bn_d := put_words 0 qs (bn_d r1)\<rparr>"
  define snum where "snum = bn_set_minimal_width (?snum\<lparr>bn_d := put_words 0 d (bn_d ?snum)\<rparr>)"
  have lq: "k \<le> length (bn_d r1)" using e(2) by simp
  have res': "res = r1\<lparr>bn_d := put_words 0 qs (bn_d r1), bn_width := k\<rparr>" by (simp add: res_def)
  have "bn_ok res" "bn_words res = qs" unfolding res' by (rule stored [OF assms(11) lq])+
  then have R: "usable res" "bn_value res = with_sign neg (wval qs)" "bn_neg res = neg"
    using e(5,6) u(2) assms(9) by (simp_all add: usable_def res_def bn_value_def bn_mag_def with_sign_def)
  have ld: "bn_width ?snum \<le> length (bn_d ?snum)" using u(5) by (simp add: bn_ok_def)
  have s0: "bn_ok (?snum\<lparr>bn_d := put_words 0 d (bn_d ?snum)\<rparr>)" "bn_words (?snum\<lparr>bn_d := put_words 0 d (bn_d ?snum)\<rparr>) = d"
    using put_words_0 [of d "bn_d ?snum"] assms(12) ld by (simp_all add: bn_ok_def bn_words_def)
  note m = set_minimal_width [OF s0(1)]
  have S: "usable snum" "bn_mag snum = wval d" "bn_width snum \<le> bn_width ?snum"
    using m s0(2) u(6) assms(7) by (simp_all add: snum_def usable_def bn_mag_def)
  have N: "bn_neg ?snum \<or> \<not> bn_neg snum" by (simp add: snum_def bn_set_minimal_width_def Let_def)
  have "divide_digits ma neg st = (Some (), st\<lparr>dv_res := res, dv_tmp := t1, dv_snum := snum\<rparr>)"
    using r1 t1 assms(6,10)
    by (simp add: divide_digits_def Let_def loop on_res_def on_tmp_def op_bind_def set_neg_def res_def snum_def)
  then show ?thesis using that [OF _ R(1) _ S(1) R(2,3) S(2) N S(3)] et(1,4,6) u(4) assms(3) by (simp add: usable_def)
qed

section \<open>Running the division\<close>

lemma bits_bound:
  assumes "bn_ok dvs" "bn_mag dvs \<noteq> 0"
  shows "bn_mag dvs < 2 ^ BN_num_bits dvs" "2 ^ (BN_num_bits dvs - 1) \<le> bn_mag dvs" "0 < BN_num_bits dvs"
proof -
  show b: "bn_mag dvs < 2 ^ BN_num_bits dvs" "2 ^ (BN_num_bits dvs - 1) \<le> bn_mag dvs"
    using num_bits_value [OF assms(1)] assms(2) by simp_all
  show "0 < BN_num_bits dvs" using b(1) assms(2) by (cases "BN_num_bits dvs") simp_all
qed

definition room_to_divide :: "bignum \<Rightarrow> bool" where
  "room_to_divide bn \<longleftrightarrow> bn_width bn + 8 \<le> bn_max_words"

lemma div_numbers_run:
  assumes "malloc_total ma" "bn_ok num" "bn_ok dvs" "bn_mag dvs \<noteq> 0" "room_to_divide num" "room_to_divide dvs"
    "usable (dv_res st)" "usable (dv_tmp st)" "usable (dv_snum st)" "usable (dv_sdiv st)" "\<And>rm. dv_rem st = Some rm \<Longrightarrow> usable rm"
  obtains st' where "div_numbers ma same num dvs st = (Some (), st')" "usable (dv_res st')" "usable (dv_tmp st')" "usable (dv_snum st')"
    "usable (dv_sdiv st')" "bn_normal (dv_res st')" "bn_value (dv_res st') = with_sign (bn_neg num \<noteq> bn_neg dvs) (bn_mag num div bn_mag dvs)"
    "(dv_rem st = None) = (dv_rem st' = None)"
    "\<forall>rm. dv_rem st' = Some rm \<longrightarrow> usable rm \<and> bn_normal rm \<and>
       bn_value rm = with_sign (if same then bn_neg num \<noteq> bn_neg dvs else bn_neg num) (bn_mag num mod bn_mag dvs)"
proof -
  let ?b = "BN_num_bits dvs" and ?neg = "bn_neg num \<noteq> bn_neg dvs"
  define s where "s = 64 - ?b mod 64"
  note b = bits_bound [OF assms(3,4)]
  have s: "s div 64 \<le> 1" "(s + 64) div 64 \<le> 2" by (simp_all add: s_def)
  have r: "bn_width num + 8 \<le> bn_max_words" "bn_width dvs + 8 \<le> bn_max_words" using assms(5,6) by (simp_all add: room_to_divide_def)
  have u: "bn_ok (dv_sdiv st)" "\<not> bn_static (dv_sdiv st)" "bn_ok (dv_snum st)" "\<not> bn_static (dv_snum st)"
    using assms(9,10) by (simp_all add: usable_def)
  obtain sd where sd: "shift_abs ma dvs s (dv_sdiv st) = (Some (), sd)" "bn_ok sd" "\<not> bn_static sd" "\<not> bn_neg sd" "bn_mag sd = 2 ^ s * bn_mag dvs"
    "bn_width sd \<le> bn_width dvs + s div 64 + 1" "\<forall>w. bn_width sd = Suc w \<longrightarrow> weight w \<le> bn_mag sd"
    by (rule shift_abs_run [OF assms(1,3) u(1,2), of s]) (use r s in simp)
  obtain sn where sn: "shift_abs ma num (s + 64) (dv_snum st) = (Some (), sn)" "bn_ok sn" "\<not> bn_static sn" "\<not> bn_neg sn" "bn_mag sn = 2 ^ (s + 64) * bn_mag num"
    "bn_width sn \<le> bn_width num + (s + 64) div 64 + 1"
    by (rule shift_abs_run [OF assms(1,2) u(3,4), of "s + 64"]) (use r s in simp)
  have mx: "max (bn_width sd + 2) (bn_width sn + 1) \<le> bn_max_words" using sd(6) sn(6) s r by simp
  obtain sp j where sp: "pad_numerator ma (bn_width sd) sn = (Some (), sp)" "bn_ok sp" "\<not> bn_static sp" "bn_neg sp = bn_neg sn"
    "bn_words sp = bn_words sn @ replicate j 0" "1 \<le> j" "bn_width sp = bn_width sn + j" "bn_width sd + 2 \<le> bn_width sp"
    "bn_width sp \<le> max (bn_width sd + 2) (bn_width sn + 1)"
    by (rule pad_run [OF assms(1) sn(2,3) mx])
  define k where "k = bn_width sp - bn_width sd - 1"
  have k: "bn_width sp = bn_width sd + 1 + k" "1 \<le> k" using sp(8) by (simp_all add: k_def)
  have wb: "bn_width sp < bn_max_words" "bn_width sd + 1 \<le> bn_max_words" "k + 2 \<le> bn_max_words"
    using sp(9) sd(6) sn(6) s r by (simp_all add: k_def)
  obtain qs d where q: "div_loop (bn_words sd) k (bn_words sp) = (qs, d)" by fastforce
  have pos: "0 < bn_mag dvs" using assms(4) by simp
  have lw: "length (bn_words sp) = bn_width sd + 1 + k" using sp(2) k(1) by simp
  have mw: "wval (bn_words sn) = 2 ^ (s + 64) * bn_mag num" using sn(5) by (simp add: bn_mag_def)
  note v = scaled_division [OF sd(2,5) pos b(2,1) s_def b(3) sd(7) sp(5,6) lw k(2) mw q]
  let ?st = "st\<lparr>dv_sdiv := sd, dv_snum := sp\<rparr>"
  have sel: "usable (dv_res ?st)" "usable (dv_tmp ?st)" "usable (dv_snum ?st)" "dv_snum ?st = sp" "dv_sdiv ?st = sd"
    using assms(7,8) sp(2,3) wb(1) by (simp_all add: usable_def)
  have ld: "length d = bn_width sp" using v(2) lw k(1) by simp
  obtain res tmp sn2 where dd: "divide_digits ma ?neg ?st = (Some (), ?st\<lparr>dv_res := res, dv_tmp := tmp, dv_snum := sn2\<rparr>)"
    "usable res" "usable tmp" "usable sn2" "bn_value res = with_sign ?neg (wval qs)" "bn_neg res = ?neg" "bn_mag sn2 = wval d"
    "bn_neg sp \<or> \<not> bn_neg sn2" "bn_width sn2 \<le> bn_width sp"
    by (rule divide_digits_run [OF assms(1) sel(1-3), unfolded sel(4,5), OF k wb q v(1) ld])
  let ?st2 = "?st\<lparr>dv_res := res, dv_tmp := tmp, dv_snum := sn2\<rparr>"
  let ?sg = "\<lambda>st. if same then bn_neg (dv_res st) else bn_neg num"
  have s2: "dv_snum ?st2 = sn2" "dv_rem ?st2 = dv_rem st" by simp_all
  have ru: "usable rm" if "dv_rem ?st2 = Some rm" for rm using assms(11) that by simp
  have o2: "bn_ok sn2" using dd(4) by (simp add: usable_def)
  have n2: "\<not> bn_neg sn2" using dd(8) sp(4) sn(4) by simp
  have m2: "bn_mag sn2 = 2 ^ (s + 64) * (bn_mag num mod bn_mag dvs)" using dd(7) v(4) by simp
  have w2: "bn_width sn2 < bn_max_words" using dd(9) wb(1) by linarith
  obtain rm' where rm: "store_remainder ma (s + 64) ?sg ?st2 = (Some (), ?st2\<lparr>dv_rem := rm'\<rparr>)" "(dv_rem ?st2 = None) = (rm' = None)"
    "\<forall>rm. rm' = Some rm \<longrightarrow> usable rm \<and> bn_normal rm \<and> bn_value rm = with_sign (?sg ?st2) (bn_mag num mod bn_mag dvs)"
    by (rule store_remainder_run [where neg = ?sg and st = ?st2, unfolded s2(1), OF assms(1) ru o2 n2 m2 w2])
  define st' where "st' = ?st2\<lparr>dv_rem := rm', dv_res := bn_set_minimal_width res\<rparr>"
  have run: "div_numbers ma same num dvs st = (Some (), st')"
    unfolding div_numbers_def Let_def s_def [symmetric]
    using sd(1) sn(1) sp(1) dd(1) rm(1)
    by (simp add: op_bind_def on_sdiv_def on_snum_def on_res_def st'_def)
  have us: "usable (dv_res st')" "usable (dv_tmp st')" "usable (dv_snum st')" "usable (dv_sdiv st')"
    using set_minimal_width [of res] dd(2-4) sd(2,3) wb(2) by (simp_all add: st'_def usable_def)
  have nq: "bn_normal (dv_res st')" using minimal_normal [of res] dd(2) by (simp add: st'_def usable_def)
  have vq: "bn_value (dv_res st') = with_sign ?neg (bn_mag num div bn_mag dvs)"
    using set_minimal_width [of res] dd(2,5) v(3) by (simp add: st'_def usable_def)
  have n: "(dv_rem st = None) = (dv_rem st' = None)" using rm(2) by (simp add: st'_def)
  have "\<forall>rm. dv_rem st' = Some rm \<longrightarrow> usable rm \<and> bn_normal rm \<and>
       bn_value rm = with_sign (if same then ?neg else bn_neg num) (bn_mag num mod bn_mag dvs)"
    using rm(3) dd(6) by (simp add: st'_def)
  then show ?thesis by (rule that [OF run us nq vq n])
qed

lemma no_top_word_zero: "bn_ok bn \<Longrightarrow> \<not> top_word_zero bn"
  using minimal_width_from [of "bn_width bn" "bn_d bn"] by (auto simp: top_word_zero_def bn_minimal_width_def bn_ok_def)

lemma pool_same_mono: "pool_same e ctx ctx' \<Longrightarrow> e \<le> e' \<Longrightarrow> pool_same e' ctx ctx'"
  using ctx_fit_mono by (auto simp: pool_same_def)

text \<open>The results that a division stores, where they are asked for.\<close>

definition stores :: "bignum option \<Rightarrow> int \<Rightarrow> bignum option \<Rightarrow> bool" where
  "stores old v new \<longleftrightarrow> (case (old, new) of
     (None, None) \<Rightarrow> True
   | (Some _, Some r) \<Rightarrow> usable r \<and> bn_normal r \<and> bn_value r = v
   | _ \<Rightarrow> False)"

definition usable_opt :: "bignum option \<Rightarrow> bool" where
  "usable_opt r \<longleftrightarrow> (case r of None \<Rightarrow> True | Some r \<Rightarrow> usable r)"

lemma BN_div_run:
  assumes "malloc_total ma" "bn_ok num" "bn_ok dvs" "bn_mag dvs \<noteq> 0" "room_to_divide num" "room_to_divide dvs"
    "usable_opt quot" "usable_opt rm" "ctx_fit e ctx" "e + 5 \<le> pool_max"
  obtains q' rm' ctx' where "BN_div ma same num dvs (quot, rm, ctx) = (Some (), q', rm', ctx')"
    "stores quot (with_sign (bn_neg num \<noteq> bn_neg dvs) (bn_mag num div bn_mag dvs)) q'"
    "stores rm (with_sign (if same then bn_neg num \<noteq> bn_neg dvs else bn_neg num) (bn_mag num mod bn_mag dvs)) rm'"
    "pool_restored (e + 5) ctx ctx'"
proof -
  let ?n = "if quot = None then 4 else 3 :: nat" and ?c = "BN_CTX_start ma ctx" and ?u = "ctx_used ctx"
  have e: "e \<le> pool_max" "Suc e + ?n \<le> pool_max" using assms(10) by simp_all
  note sf = start_fit [OF assms(1,9) e(1)]
  obtain c1 where g: "ctx_gets ma ?n ?c = (Some [?u..<?u + ?n], c1)" "pool_same (Suc e + ?n) ?c c1"
    "\<forall>i. ?u \<le> i \<and> i < ?u + ?n \<longrightarrow>
       (\<exists>bn. slot c1 i = Some bn \<and> bn_ok bn \<and> \<not> bn_static bn \<and> bn_width bn = 0 \<and> \<not> bn_neg bn)"
    by (rule gets_same [OF assms(1) sf(1) e(2), unfolded sf(3)])
  have us: "usable (slot_number c1 i)" if "?u \<le> i" "i < ?u + ?n" for i
    using g(3) that by (fastforce simp: slot_number_def usable_def bn_max_words_def)
  define st where "st = \<lparr>dv_res = (case quot of None \<Rightarrow> slot_number c1 ([?u..<?u + ?n] ! 3) | Some q \<Rightarrow> q),
      dv_tmp = slot_number c1 ([?u..<?u + ?n] ! 0), dv_snum = slot_number c1 ([?u..<?u + ?n] ! 1),
      dv_sdiv = slot_number c1 ([?u..<?u + ?n] ! 2), dv_rem = rm\<rparr>"
  have u3: "usable (dv_tmp st)" "usable (dv_snum st)" "usable (dv_sdiv st)" using us by (simp_all add: st_def)
  have ur: "usable (dv_res st)" using us assms(7) by (cases quot) (simp_all add: st_def usable_opt_def)
  have um: "\<And>rm. dv_rem st = Some rm \<Longrightarrow> usable rm" using assms(8) by (simp add: st_def usable_opt_def)
  obtain st' where d: "div_numbers ma same num dvs st = (Some (), st')" "usable (dv_res st')" "usable (dv_tmp st')" "usable (dv_snum st')"
    "usable (dv_sdiv st')" "bn_normal (dv_res st')" "bn_value (dv_res st') = with_sign (bn_neg num \<noteq> bn_neg dvs) (bn_mag num div bn_mag dvs)"
    "(dv_rem st = None) = (dv_rem st' = None)"
    "\<forall>rm. dv_rem st' = Some rm \<longrightarrow> usable rm \<and> bn_normal rm \<and>
       bn_value rm = with_sign (if same then bn_neg num \<noteq> bn_neg dvs else bn_neg num) (bn_mag num mod bn_mag dvs)"
    by (rule div_numbers_run [OF assms(1-6) ur u3 um])
  define c2 where "c2 = put_slots [?u..<?u + ?n] [dv_tmp st', dv_snum st', dv_sdiv st', dv_res st'] c1"
  have "pool_same (Suc e + ?n) ?c c2" unfolding c2_def
  proof (rule put_slots_same [OF g(2)])
    show "\<forall>i \<in> set [?u..<?u + ?n]. ctx_used ?c \<le> i \<and> slot c1 i \<noteq> None" using g(3) sf(3) by fastforce
    show "\<forall>bn \<in> set [dv_tmp st', dv_snum st', dv_sdiv st', dv_res st']. bn_ok bn \<and> \<not> bn_static bn"
      using d(2-5) by (simp add: usable_def)
  qed
  then have "pool_same (e + 5) ?c c2" by (rule pool_same_mono) simp
  then have p: "pool_restored (e + 5) ctx (BN_CTX_end c2)" by (rule frame_restored [OF assms(1,9) e(1)])
  have "\<not> BN_is_zero dvs" using is_zero_iff [OF assms(3)] assms(4) by simp
  then have run: "BN_div ma same num dvs (quot, rm, ctx) = (Some (), map_option (\<lambda>_. dv_res st') quot, dv_rem st', BN_CTX_end c2)"
    using no_top_word_zero [OF assms(2)] no_top_word_zero [OF assms(3)] g(1)
    by (simp only: BN_div_def prod.case if_False Let_def st_def [symmetric] d(1) c2_def [symmetric] option.case simp_thms)
  have rr: "stores rm (with_sign (if same then bn_neg num \<noteq> bn_neg dvs else bn_neg num) (bn_mag num mod bn_mag dvs)) (dv_rem st')"
    using d(8,9) by (cases rm; cases "dv_rem st'") (simp_all add: stores_def st_def)
  show ?thesis
    by (rule that [OF run _ rr p]) (use d(2,6,7) in \<open>cases quot; simp add: stores_def\<close>)
qed

lemma value_signed: "bn_value a = with_sign (bn_neg a) (bn_mag a)"
  by (simp add: bn_value_def with_sign_def)

lemma signed_abs: "\<bar>with_sign n k\<bar> = int k" "with_sign a k = with_sign b k \<longleftrightarrow> k = 0 \<or> a = b"
  by (auto simp: with_sign_def)

lemma signed_division:
  "with_sign a m sdiv with_sign b n = with_sign (a \<noteq> b) (m div n)" "with_sign a m smod with_sign b n = with_sign a (m mod n)"
  by (cases "m = 0"; cases "n = 0"; simp add: with_sign_def signed_divide_int_def signed_modulo_int_def sgn_if zdiv_int zmod_int)+

text \<open>The number is asked for, so it is there.\<close>

lemma BN_mod_run:
  assumes "malloc_total ma" "bn_ok m" "bn_ok d" "bn_mag d \<noteq> 0" "room_to_divide m" "room_to_divide d" "usable r" "ctx_fit e ctx" "e + 5 \<le> pool_max"
  obtains r' ctx' where "BN_mod ma m d (r, ctx) = (Some (), r', ctx')" "usable r'" "bn_normal r'" "bn_value r' = bn_value m smod bn_value d"
    "pool_restored (e + 5) ctx ctx'"
proof -
  have u: "usable_opt None" "usable_opt (Some r)" using assms(7) by (simp_all add: usable_opt_def)
  obtain q' rm' ctx' where d: "BN_div ma False m d (None, Some r, ctx) = (Some (), q', rm', ctx')"
    "stores (Some r) (with_sign (if False then bn_neg m \<noteq> bn_neg d else bn_neg m) (bn_mag m mod bn_mag d)) rm'" "pool_restored (e + 5) ctx ctx'"
    by (rule BN_div_run [where same = False, OF assms(1-6) u assms(8,9)])
  obtain r' where r': "rm' = Some r'" "usable r'" "bn_normal r'" "bn_value r' = with_sign (bn_neg m) (bn_mag m mod bn_mag d)"
    using d(2) by (auto simp: stores_def split: option.splits)
  show ?thesis
    by (rule that [OF _ r'(2,3) _ d(3)])
       (use d(1) r'(1,4) in \<open>simp_all add: BN_mod_def value_signed [of m] value_signed [of d] signed_division\<close>)
qed

text \<open>From the remainder with the sign of the dividend to the least residue.\<close>

lemma residue_of_remainder:
  fixes x y :: int
  assumes "y \<noteq> 0"
  shows "x mod \<bar>y\<bar> = (if x smod y < 0 then x smod y + \<bar>y\<bar> else x smod y)"
proof -
  have r: "0 \<le> \<bar>x\<bar> mod \<bar>y\<bar>" "\<bar>x\<bar> mod \<bar>y\<bar> < \<bar>y\<bar>" using assms by simp_all
  have m: "x smod y = sgn x * (\<bar>x\<bar> mod \<bar>y\<bar>)" by (rule signed_modulo_int_def)
  show ?thesis
  proof (cases "x < 0")
    case False
    then show ?thesis using m r by (cases "x = 0") simp_all
  next
    case True
    then have s: "x smod y = - (- x mod \<bar>y\<bar>)" using m by simp
    then show ?thesis using r True zmod_zminus1_eq_if [of "- x" "\<bar>y\<bar>"] by auto
  qed
qed

text \<open>Sums keep the allocation flag and grow by at most a word.\<close>

lemma uadd_keeps:
  assumes "BN_uadd ma a b r = (Some u, r')"
  shows "bn_static r' = bn_static r \<and> bn_width r' \<le> max (bn_width a) (bn_width b) + 1"
proof -
  let ?k = "max (bn_width a) (bn_width b) + 1"
  obtain r1 t where r1: "bn_wexpand ma ?k r = (Some (), r1)" "r' = bn_set_minimal_width (r1\<lparr>bn_width := ?k, bn_d := t\<rparr>)"
    using assms by (auto simp: BN_uadd_def bn_uadd_consttime_def op_bind_eq_Some Let_def max_def split_beta split: if_splits)
  show ?thesis using wexpand_static [OF r1(1)] minimal_width_le(2) [of "r1\<lparr>bn_width := ?k, bn_d := t\<rparr>"] by (simp add: r1(2))
qed

lemma usub_keeps:
  assumes "BN_usub ma a b r = (Some u, r')"
  shows "bn_static r' = bn_static r \<and> bn_width r' \<le> bn_width a"
proof -
  obtain r1 t where r1: "bn_wexpand ma (bn_width a) r = (Some (), r1)"
    "r' = bn_set_minimal_width (r1\<lparr>bn_d := t, bn_width := bn_width a, bn_neg := False\<rparr>)"
    using assms by (auto simp: BN_usub_def bn_usub_consttime_def op_bind_eq_Some op_fail_def Let_def split_beta split: if_splits)
  show ?thesis using wexpand_static [OF r1(1)] minimal_width_le(2) [of "r1\<lparr>bn_d := t, bn_width := bn_width a, bn_neg := False\<rparr>"] by (simp add: r1(2))
qed

lemma sub_magnitudes_keeps:
  assumes "sub_magnitudes ma a b r = (Some u, r')"
  shows "bn_static r' = bn_static r \<and> bn_width r' \<le> max (bn_width a) (bn_width b)"
  using assms by (auto simp: sub_magnitudes_def op_bind_eq_Some set_neg_def split: if_splits dest!: usub_keeps)

lemma sum_keeps:
  "BN_add ma a b r = (Some u, r') \<Longrightarrow> bn_static r' = bn_static r \<and> bn_width r' \<le> max (bn_width a) (bn_width b) + 1"
  "BN_sub ma a b r = (Some u, r') \<Longrightarrow> bn_static r' = bn_static r \<and> bn_width r' \<le> max (bn_width a) (bn_width b) + 1"
  by (fastforce simp: BN_add_def BN_sub_def op_bind_eq_Some set_neg_def Let_def split: if_splits prod.splits dest!: uadd_keeps sub_magnitudes_keeps)+

lemma lshift1_keeps:
  assumes "BN_lshift1 ma a r = (Some u, r')"
  shows "bn_static r' = bn_static r \<and> bn_width r' \<le> bn_width a + 1"
  using assms by (auto simp: BN_lshift1_def op_bind_eq_Some Let_def split_beta split: if_splits dest!: wexpand_static)

lemma BN_nnmod_run:
  assumes "malloc_total ma" "bn_ok m" "bn_ok d" "bn_mag d \<noteq> 0" "room_to_divide m" "room_to_divide d" "usable r" "ctx_fit e ctx" "e + 5 \<le> pool_max"
  obtains r' ctx' where "BN_nnmod ma m d (r, ctx) = (Some (), r', ctx')" "usable r'" "bn_value r' = bn_value m mod \<bar>bn_value d\<bar>"
    "pool_restored (e + 5) ctx ctx'"
proof -
  obtain r1 ctx' where b: "BN_mod ma m d (r, ctx) = (Some (), r1, ctx')" "usable r1" "bn_normal r1" "bn_value r1 = bn_value m smod bn_value d"
    "pool_restored (e + 5) ctx ctx'"
    by (rule BN_mod_run [OF assms])
  have nz: "bn_value d \<noteq> 0" using assms(4) by (simp add: bn_value_def)
  have neg: "bn_neg r1 \<longleftrightarrow> bn_value r1 < 0" using b(3) by (auto simp: bn_normal_def bn_value_def)
  note v = residue_of_remainder [OF nz, of "bn_value m", folded b(4), folded neg]
  have ok: "bn_ok r1" using b(2) by (simp add: usable_def)
  have "bn_room r1 (max (bn_width r1) (bn_width d) + 1)" using b(2) assms(6) by (auto simp: usable_def room_to_divide_def bn_room_def)
  note s = signed_sum_run [OF assms(1) ok assms(3) ok this]
  have "\<exists>r'. (if \<not> bn_neg r1 then (Some (), r1) else (if bn_neg d then BN_sub else BN_add) ma r1 d r1) = (Some (), r') \<and> usable r'
      \<and> bn_value r' = bn_value m mod \<bar>bn_value d\<bar>"
  proof (cases "bn_neg r1")
    case False
    then show ?thesis using v b(2) by simp
  next
    case True
    have u: "usable r'" if "sub_magnitudes ma d r1 r1 = (Some (), r')" "bn_ok r'" for r'
      using sub_magnitudes_keeps [OF that(1)] that(2) b(2) assms(6) by (auto simp: usable_def room_to_divide_def)
    show ?thesis
    proof (cases "bn_neg d")
      case True
      then obtain r' where r': "BN_sub ma r1 d r1 = (Some (), r')" "bn_ok r'" "bn_value r' = bn_value r1 - bn_value d" using s(2) by blast
      have "usable r'" using u [of r'] r'(1,2) True \<open>bn_neg r1\<close> by (simp add: BN_sub_def)
      then show ?thesis using v r'(1,3) True \<open>bn_neg r1\<close> by (simp add: bn_value_def [of d])
    next
      case False
      then obtain r' where r': "BN_add ma r1 d r1 = (Some (), r')" "bn_ok r'" "bn_value r' = bn_value r1 + bn_value d" using s(1) by blast
      have "usable r'" using u [of r'] r'(1,2) False \<open>bn_neg r1\<close> by (simp add: BN_add_def)
      then show ?thesis using v r'(1,3) False \<open>bn_neg r1\<close> by (simp add: bn_value_def [of d])
    qed
  qed
  then show ?thesis using that [OF _ _ _ b(5)] b(1) by (auto simp: BN_nnmod_def op_bind_def on_number_def)
qed

section \<open>Properties\<close>

text \<open>
  C29: \<open>BN_div\<close> fails on a zero divisor and touches nothing; for every other divisor, while memory lasts, it gives the
  truncated quotient and the remainder with the numerator's sign, both well-formed and without a negative zero, for
  whichever of the two results is asked for, and gives the pool back as it was.
\<close>

theorem bn_div_exact:
  assumes "malloc_total ma" "bn_ok num" "bn_ok dvs" "room_to_divide num" "room_to_divide dvs" "usable_opt quot" "usable_opt rm"
    "ctx_fit e ctx" "e + 5 \<le> pool_max"
  shows "if bn_value dvs = 0 then BN_div ma False num dvs (quot, rm, ctx) = (None, quot, rm, ctx)
    else \<exists>q' rm' ctx'. BN_div ma False num dvs (quot, rm, ctx) = (Some (), q', rm', ctx')
      \<and> stores quot (bn_value num sdiv bn_value dvs) q' \<and> stores rm (bn_value num smod bn_value dvs) rm' \<and> pool_restored (e + 5) ctx ctx'"
proof (cases "bn_mag dvs = 0")
  case True
  then have "bn_value dvs = 0" "BN_is_zero dvs" using is_zero_iff [OF assms(3)] by (simp_all add: bn_value_def)
  then show ?thesis by (simp add: BN_div_def)
next
  case False
  obtain q' rm' ctx' where d: "BN_div ma False num dvs (quot, rm, ctx) = (Some (), q', rm', ctx')"
    "stores quot (with_sign (bn_neg num \<noteq> bn_neg dvs) (bn_mag num div bn_mag dvs)) q'"
    "stores rm (with_sign (if False then bn_neg num \<noteq> bn_neg dvs else bn_neg num) (bn_mag num mod bn_mag dvs)) rm'" "pool_restored (e + 5) ctx ctx'"
    by (rule BN_div_run [where same = False, OF assms(1-3) False assms(4-9)])
  have "bn_value dvs \<noteq> 0" using False by (simp add: bn_value_def)
  then show ?thesis using d by (simp add: value_signed [of num] value_signed [of dvs] signed_division)
qed

text \<open>
  C40: When the quotient overwrites the numerator, \<open>BN_div\<close> reads the numerator's sign after it has stored the
  quotient's: the quotient is right, but the remainder has the quotient's sign, which is the numerator's only for a
  positive divisor or a remainder of zero.
\<close>

theorem bn_div_in_place_sign:
  assumes "malloc_total ma" "usable num" "bn_ok dvs" "room_to_divide num" "room_to_divide dvs" "usable rm" "bn_value dvs \<noteq> 0"
    "ctx_fit e ctx" "e + 5 \<le> pool_max"
  shows "\<exists>q' rm' ctx'. BN_div ma True num dvs (Some num, Some rm, ctx) = (Some (), Some q', Some rm', ctx')
      \<and> bn_value q' = bn_value num sdiv bn_value dvs
      \<and> \<bar>bn_value rm'\<bar> = \<bar>bn_value num smod bn_value dvs\<bar>
      \<and> (bn_value rm' = bn_value num smod bn_value dvs \<longleftrightarrow> 0 < bn_value dvs \<or> bn_value dvs dvd bn_value num)"
proof -
  have ok: "bn_ok num" "usable_opt (Some num)" "usable_opt (Some rm)" "bn_mag dvs \<noteq> 0"
    using assms(2,6,7) by (auto simp: usable_def usable_opt_def bn_value_def split: if_splits)
  obtain q' rm' ctx' where d: "BN_div ma True num dvs (Some num, Some rm, ctx) = (Some (), q', rm', ctx')"
    "stores (Some num) (with_sign (bn_neg num \<noteq> bn_neg dvs) (bn_mag num div bn_mag dvs)) q'"
    "stores (Some rm) (with_sign (if True then bn_neg num \<noteq> bn_neg dvs else bn_neg num) (bn_mag num mod bn_mag dvs)) rm'" "pool_restored (e + 5) ctx ctx'"
    by (rule BN_div_run [where same = True, OF assms(1) ok(1) assms(3) ok(4) assms(4,5) ok(2,3) assms(8,9)])
  obtain q r where v: "q' = Some q" "rm' = Some r" "bn_value q = with_sign (bn_neg num \<noteq> bn_neg dvs) (bn_mag num div bn_mag dvs)"
    "bn_value r = with_sign (bn_neg num \<noteq> bn_neg dvs) (bn_mag num mod bn_mag dvs)"
    using d(2,3) by (auto simp: stores_def split: option.splits)
  have "bn_value dvs dvd bn_value num \<longleftrightarrow> bn_mag num mod bn_mag dvs = 0"
    by (auto simp: bn_value_def mod_eq_0_iff_dvd)
  moreover have "0 < bn_value dvs \<longleftrightarrow> \<not> bn_neg dvs" using ok(4) by (simp add: bn_value_def)
  ultimately show ?thesis using d(1) v
    by (auto simp: value_signed [of num] value_signed [of dvs] signed_division signed_abs)
qed

text \<open>
  \<open>BN_nnmod\<close> gives the least non-negative residue modulo the magnitude of the divisor, whatever the signs, and
  fails on a zero divisor.
\<close>

theorem bn_nnmod_exact:
  assumes "malloc_total ma" "bn_ok m" "bn_ok d" "room_to_divide m" "room_to_divide d" "usable r" "ctx_fit e ctx" "e + 5 \<le> pool_max"
  shows "if bn_value d = 0 then BN_nnmod ma m d (r, ctx) = (None, r, ctx)
    else \<exists>r' ctx'. BN_nnmod ma m d (r, ctx) = (Some (), r', ctx') \<and> bn_ok r' \<and> bn_value r' = bn_value m mod \<bar>bn_value d\<bar>
      \<and> pool_restored (e + 5) ctx ctx'"
proof (cases "bn_mag d = 0")
  case True
  then have "bn_value d = 0" "BN_is_zero d" using is_zero_iff [OF assms(3)] by (simp_all add: bn_value_def)
  then show ?thesis by (simp add: BN_nnmod_def BN_mod_def BN_div_def op_bind_def)
next
  case False
  obtain r' ctx' where "BN_nnmod ma m d (r, ctx) = (Some (), r', ctx')" "usable r'" "bn_value r' = bn_value m mod \<bar>bn_value d\<bar>"
    "pool_restored (e + 5) ctx ctx'"
    by (rule BN_nnmod_run [OF assms(1-3) False assms(4-8)])
  then show ?thesis using False by (simp add: bn_value_def usable_def)
qed

text \<open>Concrete inputs: \<open>7 = (-2) * (-3) + 1\<close>, in place and not, and \<open>-7 = 3 * (-3) + 2\<close>.\<close>

lemma fresh_numbers:
  "bn_ok \<lparr>bn_d = [w], bn_width = 1, bn_neg = n, bn_static = False\<rparr>" "room_to_divide \<lparr>bn_d = [w], bn_width = 1, bn_neg = n, bn_static = False\<rparr>"
  "usable \<lparr>bn_d = [w], bn_width = 1, bn_neg = n, bn_static = False\<rparr>" "usable BN_init"
  "bn_value \<lparr>bn_d = [w], bn_width = 1, bn_neg = n, bn_static = False\<rparr> = with_sign n (unat w)"
  by (simp_all add: bn_ok_def room_to_divide_def usable_def bn_max_words_def BN_init_def value_signed bn_mag_def bn_words_def)

theorem bn_div_exact_witness:
  "\<exists>q r ctx. BN_div zero_malloc False \<lparr>bn_d = [7], bn_width = 1, bn_neg = False, bn_static = False\<rparr>
      \<lparr>bn_d = [2], bn_width = 1, bn_neg = True, bn_static = False\<rparr>
      (Some BN_init, Some BN_init, \<lparr>ctx_bignums = None, ctx_stack = BN_STACK_init, ctx_used = 0, ctx_error = False, ctx_defer_error = False\<rparr>)
    = (Some (), Some q, Some r, ctx) \<and> bn_value q = - 3 \<and> bn_value r = 1 \<and> ctx_used ctx = 0"
proof -
  let ?a = "\<lparr>bn_d = [7], bn_width = 1, bn_neg = False, bn_static = False\<rparr>"
  let ?b = "\<lparr>bn_d = [2], bn_width = 1, bn_neg = True, bn_static = False\<rparr>"
  let ?c = "\<lparr>ctx_bignums = None, ctx_stack = BN_STACK_init, ctx_used = 0, ctx_error = False, ctx_defer_error = False\<rparr>"
  have u: "usable_opt (Some BN_init)" "6 + 5 \<le> pool_max" using fresh_numbers(4) by (simp_all add: usable_opt_def)
  note d = bn_div_exact [where num = ?a and dvs = ?b, OF malloc_total_zero_malloc fresh_numbers(1,1) fresh_numbers(2,2) u(1,1) fresh_pool_fit u(2)]
  have v: "bn_value ?a = 7" "bn_value ?b = - 2" by (simp_all only: fresh_numbers(5), simp_all add: with_sign_def)
  have z: "bn_value ?b \<noteq> 0" "bn_value ?a sdiv bn_value ?b = - 3" "bn_value ?a smod bn_value ?b = 1"
    unfolding v by (simp_all add: signed_divide_int_def signed_modulo_int_def)
  have "ctx_used ctx = 0" if "pool_restored (6 + 5) ?c ctx" for ctx using that by (simp add: pool_restored_def)
  moreover obtain q' rm' ctx where r: "BN_div zero_malloc False ?a ?b (Some BN_init, Some BN_init, ?c) = (Some (), q', rm', ctx)"
    "stores (Some BN_init) (- 3) q'" "stores (Some BN_init) 1 rm'" "pool_restored (6 + 5) ?c ctx"
    using d z by auto
  ultimately show ?thesis unfolding stores_def by (auto split: option.splits)
qed

theorem bn_div_in_place_sign_witness:
  "\<exists>q r ctx. BN_div zero_malloc True \<lparr>bn_d = [7], bn_width = 1, bn_neg = False, bn_static = False\<rparr>
      \<lparr>bn_d = [2], bn_width = 1, bn_neg = True, bn_static = False\<rparr>
      (Some \<lparr>bn_d = [7], bn_width = 1, bn_neg = False, bn_static = False\<rparr>, Some BN_init,
       \<lparr>ctx_bignums = None, ctx_stack = BN_STACK_init, ctx_used = 0, ctx_error = False, ctx_defer_error = False\<rparr>)
    = (Some (), Some q, Some r, ctx) \<and> bn_value q = - 3 \<and> bn_value r = - 1"
proof -
  let ?a = "\<lparr>bn_d = [7], bn_width = 1, bn_neg = False, bn_static = False\<rparr>"
  let ?b = "\<lparr>bn_d = [2], bn_width = 1, bn_neg = True, bn_static = False\<rparr>"
  have v: "bn_value ?a = 7" "bn_value ?b = - 2" by (simp_all only: fresh_numbers(5), simp_all add: with_sign_def)
  have z: "bn_value ?b \<noteq> 0" "bn_value ?a sdiv bn_value ?b = - 3" "bn_value ?a smod bn_value ?b = 1"
    unfolding v by (simp_all add: signed_divide_int_def signed_modulo_int_def)
  have nd: "\<not> (0 < bn_value ?b \<or> bn_value ?b dvd bn_value ?a)" unfolding v by (simp add: dvd_eq_mod_eq_0)
  obtain q r ctx where d: "BN_div zero_malloc True ?a ?b (Some ?a, Some BN_init, \<lparr>ctx_bignums = None, ctx_stack = BN_STACK_init, ctx_used = 0, ctx_error = False, ctx_defer_error = False\<rparr>)
      = (Some (), Some q, Some r, ctx)" "bn_value q = - 3" "\<bar>bn_value r\<bar> = 1" "bn_value r \<noteq> 1"
    using bn_div_in_place_sign [where num = ?a and dvs = ?b, OF malloc_total_zero_malloc fresh_numbers(3,1,2,2,4) z(1) fresh_pool_fit, unfolded z] nd
    by auto
  then show ?thesis by force
qed

theorem bn_nnmod_exact_witness:
  "\<exists>r ctx. BN_nnmod zero_malloc \<lparr>bn_d = [7], bn_width = 1, bn_neg = True, bn_static = False\<rparr>
      \<lparr>bn_d = [3], bn_width = 1, bn_neg = True, bn_static = False\<rparr>
      (BN_init, \<lparr>ctx_bignums = None, ctx_stack = BN_STACK_init, ctx_used = 0, ctx_error = False, ctx_defer_error = False\<rparr>)
    = (Some (), r, ctx) \<and> bn_value r = 2"
proof -
  let ?a = "\<lparr>bn_d = [7], bn_width = 1, bn_neg = True, bn_static = False\<rparr>"
  let ?b = "\<lparr>bn_d = [3], bn_width = 1, bn_neg = True, bn_static = False\<rparr>"
  have v: "bn_value ?a = - 7" "bn_value ?b = - 3" by (simp_all only: fresh_numbers(5), simp_all add: with_sign_def)
  have z: "bn_value ?b \<noteq> 0" "bn_value ?a mod \<bar>bn_value ?b\<bar> = 2" unfolding v by simp_all
  show ?thesis
    using bn_nnmod_exact [where m = ?a and d = ?b, OF malloc_total_zero_malloc fresh_numbers(1,1,2,2,4) fresh_pool_fit] z by auto
qed

end
