(* ===== verification/Bn_Reduce.thy ===== *)
theory Bn_Reduce imports Bn_Div begin

text \<open>
  Reduction of word arrays without branches (\<open>div.c\<close>): one conditional subtraction, sums and differences modulo a
  number, and the long division in binary that \<open>bn_div_consttime\<close> does with them.
\<close>

section \<open>Operations\<close>

definition bn_reduce_once :: "u64 list \<Rightarrow> u64 \<Rightarrow> u64 list \<Rightarrow> u64 list \<times> u64" where
  "bn_reduce_once a carry m =
     (let (r, borrow) = bn_sub_words a m;
          carry = carry - borrow in
      (bn_select_words carry a r, carry))"

definition bn_reduce_once_in_place :: "u64 list \<Rightarrow> u64 \<Rightarrow> u64 list \<Rightarrow> u64 list \<times> u64" where
  "bn_reduce_once_in_place r carry m =
     (let (tmp, borrow) = bn_sub_words r m;
          carry = carry - borrow in
      (bn_select_words carry r tmp, carry))"

definition bn_mod_sub_words :: "u64 list \<Rightarrow> u64 list \<Rightarrow> u64 list \<Rightarrow> u64 list" where
  "bn_mod_sub_words a b m =
     (let (r, borrow) = bn_sub_words a b;
          (tmp, _) = bn_add_words r m in
      bn_select_words (0 - borrow) tmp r)"

definition bn_mod_add_words :: "u64 list \<Rightarrow> u64 list \<Rightarrow> u64 list \<Rightarrow> u64 list" where
  "bn_mod_add_words a b m =
     (let (r, carry) = bn_add_words a b in fst (bn_reduce_once_in_place r carry m))"

text \<open>The bits of one word of the numerator, from the highest of the low \<open>bit\<close> ones down.\<close>

fun div_bits :: "u64 list \<Rightarrow> u64 \<Rightarrow> nat \<Rightarrow> u64 \<times> u64 list \<Rightarrow> u64 \<times> u64 list" where
  "div_bits dvs w 0 qr = qr"
| "div_bits dvs w (Suc i) (q, r) =
     (let (r, carry) = bn_add_words r r;
          r = r[0 := r ! 0 OR (drop_bit i w AND 1)];
          (r, subtracted) = bn_reduce_once_in_place r carry dvs in
      div_bits dvs w i (q OR push_bit i (NOT subtracted AND 1), r))"

text \<open>The words of the numerator from the highest down.\<close>

fun div_binary :: "u64 list \<Rightarrow> u64 list \<Rightarrow> u64 list \<Rightarrow> u64 list \<times> u64 list" where
  "div_binary dvs [] r = ([], r)"
| "div_binary dvs (w # ws) r =
     (let (qs, r) = div_binary dvs ws r;
          (q, r) = div_bits dvs w 64 (0, r) in
      (q # qs, r))"

section \<open>The conditional subtraction\<close>

lemma reduce_once_value:
  assumes "length a = length m" "wval a + weight (length m) * unat carry < 2 * wval m" "bn_reduce_once a carry m = (r, c)"
  shows "length r = length m" "wval r = (wval a + weight (length m) * unat carry) mod wval m"
    "c = (if wval a + weight (length m) * unat carry < wval m then - 1 else 0)"
proof -
  let ?W = "weight (length m)" and ?x = "wval a + weight (length m) * unat carry"
  obtain s b where s: "bn_sub_words a m = (s, b)" by fastforce
  note v = bn_sub_words_value [OF assms(1) s]
  have lt: "wval m < ?W" "wval s < ?W" using wval_less [of m] wval_less [of s] v(1) assms(1) by simp_all
  have W: "wval s + wval m = wval a + ?W * unat b" using v(3) assms(1) by simp
  have rc: "r = bn_select_words (carry - b) a s" "c = carry - b" using assms(3) s by (auto simp: bn_reduce_once_def Let_def)
  have cb: "unat carry \<le> 1"
  proof (rule ccontr)
    assume "\<not> unat carry \<le> 1"
    then have "?W * 2 \<le> ?W * unat carry" by (intro mult_le_mono2) simp
    then show False using assms(2) lt(1) by linarith
  qed
  show l: "length r = length m" unfolding rc(1) using assms(1) v(1) by (simp add: bn_select_words_def)
  have eq: "carry = b" if "wval m \<le> ?x"
  proof -
    have "?W * unat b = wval s + wval m - wval a" using W by linarith
    have "unat carry = unat b"
    proof (cases "unat carry = 0")
      case True
      have "\<not> 1 \<le> unat b"
      proof
        assume "1 \<le> unat b"
        then have "?W * 1 \<le> ?W * unat b" by (rule mult_le_mono2)
        moreover have "wval m \<le> wval a" using that True by simp
        ultimately show False using W lt(2) by linarith
      qed
      then show ?thesis using True by simp
    next
      case False
      then have c1: "unat carry = 1" using cb by linarith
      then have "wval a + ?W < 2 * wval m" using assms(2) by simp
      then have "wval a < wval m" using lt(1) by linarith
      then have "unat b \<noteq> 0" using W by (intro notI) simp
      then show ?thesis using c1 v(2) by linarith
    qed
    then show ?thesis by (simp add: word_unat_eq_iff)
  qed
  have ne: "carry = 0 \<and> b = 1" if "?x < wval m"
  proof -
    have "unat carry = 0"
    proof (rule ccontr)
      assume "unat carry \<noteq> 0"
      then have "?W * 1 \<le> ?W * unat carry" by (intro mult_le_mono2) simp
      then show False using that lt(1) by linarith
    qed
    moreover have "unat b \<noteq> 0" using W that by (intro notI) simp
    ultimately have "unat carry = unat (0 :: u64)" "unat b = unat (1 :: u64)" using v(2) by simp_all
    then show ?thesis by (simp only: word_unat_eq_iff)
  qed
  show "c = (if ?x < wval m then - 1 else 0)" unfolding rc(2) using eq ne by (auto simp: not_less)
  then have "r = bn_select_words (if ?x < wval m then - 1 else 0) a s" unfolding rc by simp
  moreover have "length a = length s" using v(1) by simp
  ultimately have sel: "r = (if ?x < wval m then a else s)" by (simp only: select_words_mask)
  show "wval r = ?x mod wval m"
  proof (cases "?x < wval m")
    case True
    then show ?thesis using sel ne by simp
  next
    case False
    then have "wval s + wval m = ?x" using eq W by simp
    moreover have "wval s < wval m" using calculation assms(2) by linarith
    ultimately have "?x mod wval m = wval s" by (metis mod_add_self2 mod_less)
    then show ?thesis using sel False by simp
  qed
qed

lemma in_place_same: "bn_reduce_once_in_place = bn_reduce_once"
  by (intro ext) (simp add: bn_reduce_once_def bn_reduce_once_in_place_def)

lemma mod_add_words_value:
  assumes "length a = length m" "length b = length m" "wval a < wval m" "wval b < wval m"
  shows "length (bn_mod_add_words a b m) = length m" "wval (bn_mod_add_words a b m) = (wval a + wval b) mod wval m"
proof -
  obtain s c where s: "bn_add_words a b = (s, c)" by fastforce
  obtain r c' where r: "bn_reduce_once s c m = (r, c')" by fastforce
  have l: "length a = length b" using assms by simp
  note v = bn_add_words_value [OF l s]
  have x: "wval s + weight (length m) * unat c = wval a + wval b" using v(3) assms(1) by simp
  have ls: "length s = length m" using v(1) assms(1) by simp
  have lt: "wval s + weight (length m) * unat c < 2 * wval m" using x assms(3,4) by linarith
  note q = reduce_once_value [OF ls lt r]
  have "bn_mod_add_words a b m = r" using s r by (simp add: bn_mod_add_words_def in_place_same)
  then show "length (bn_mod_add_words a b m) = length m" "wval (bn_mod_add_words a b m) = (wval a + wval b) mod wval m"
    using q(1,2) x by simp_all
qed

lemma mod_sub_words_value:
  assumes "length a = length m" "length b = length m" "wval a < wval m" "wval b < wval m"
  shows "length (bn_mod_sub_words a b m) = length m" "int (wval (bn_mod_sub_words a b m)) = (int (wval a) - int (wval b)) mod int (wval m)"
proof -
  let ?W = "weight (length m)"
  obtain s c where s: "bn_sub_words a b = (s, c)" by fastforce
  obtain t d where t: "bn_add_words s m = (t, d)" by fastforce
  have l: "length a = length b" using assms by simp
  note v = bn_sub_words_value [OF l s]
  have ls: "length s = length m" using v(1) assms(1) by simp
  note u = bn_add_words_value [OF ls t]
  have S: "wval s + wval b = wval a + ?W * unat c" using v(3) assms(1) by simp
  have T: "wval t + ?W * unat d = wval s + wval m" using u(3) ls by simp
  have lt: "wval m < ?W" "wval s < ?W" "wval t < ?W" using wval_less [of m] wval_less [of s] wval_less [of t] ls u(1) by simp_all
  have c01: "c = 0 \<or> c = 1" using v(2) by (metis le_neq_implies_less less_one unat_1 unat_eq_0 word_unat_eq_iff)
  have m: "0 - c = (if c = 1 then - 1 else 0)" using c01 by auto
  have sel: "bn_mod_sub_words a b m = (if c = 1 then t else s)"
    using s t select_words_mask [of t s "c = 1"] u(1) by (simp add: bn_mod_sub_words_def m [simplified])
  then show "length (bn_mod_sub_words a b m) = length m" using ls u(1) by simp
  show "int (wval (bn_mod_sub_words a b m)) = (int (wval a) - int (wval b)) mod int (wval m)"
  proof (cases "c = 1")
    case False
    then have "wval s + wval b = wval a" using S c01 by auto
    then have "int (wval a) - int (wval b) = int (wval s)" "wval s < wval m" using assms(3) by linarith+
    then show ?thesis using sel False by simp
  next
    case True
    then have S1: "wval s + wval b = wval a + ?W" using S by simp
    have "wval a < wval b" using S1 lt(2) by linarith
    have "wval t + ?W * unat d = (wval a + wval m - wval b) + ?W" using T S1 assms(4) by linarith
    moreover have "unat d = 1"
    proof -
      have "unat d \<noteq> 0" using calculation lt(3) assms(4) by (intro notI) simp
      then show ?thesis using u(2) by linarith
    qed
    ultimately have "wval t + wval b = wval a + wval m" using assms(4) by simp
    then have "int (wval a) - int (wval b) + int (wval m) = int (wval t)" "wval t < wval m" using \<open>wval a < wval b\<close> by linarith+
    then show ?thesis using sel True by (metis mod_add_self2 mod_pos_pos_trivial of_nat_0_le_iff of_nat_less_iff)
  qed
qed

section \<open>Long division in binary\<close>

text \<open>One more digit of the numerator.\<close>

lemma digit_step:
  fixes x y m B :: nat
  assumes "0 < m"
  shows "(x * B + y) div m = (x div m) * B + ((x mod m) * B + y) div m" "(x * B + y) mod m = ((x mod m) * B + y) mod m"
proof -
  have "x * B + y = (m * (x div m) + x mod m) * B + y" by simp
  also have "\<dots> = m * ((x div m) * B) + ((x mod m) * B + y)" by (simp only: distrib_right mult.assoc add.assoc)
  finally have e: "x * B + y = ((x mod m) * B + y) + m * ((x div m) * B)" by (simp only: add.commute)
  show "(x * B + y) div m = (x div m) * B + ((x mod m) * B + y) div m" unfolding e using assms by (simp only: div_mult_self2 add.commute)
  show "(x * B + y) mod m = ((x mod m) * B + y) mod m" unfolding e by (simp only: mod_mult_self2)
qed

lemma or_low_bit:
  assumes "even (unat (x :: u64))"
  shows "unat (x OR (drop_bit i w AND 1)) = unat x + (unat w div 2 ^ i) mod 2"
proof -
  have b: "unat (drop_bit i w AND 1) = (unat w div 2 ^ i) mod 2"
    by (simp add: and_one_eq unat_drop_bit unat_mod)
  show ?thesis
  proof (cases "(unat w div 2 ^ i) mod 2 = 0")
    case True
    then have "drop_bit i w AND 1 = 0" using b by (simp add: unat_eq_0)
    then show ?thesis using True by simp
  next
    case False
    then have "drop_bit i w AND 1 = 1" using b by (simp add: word_unat_eq_iff)
    moreover have "unat (x OR 1) = unat x OR 1" by (simp add: unsigned_or_eq)
    ultimately show ?thesis using False assms by (simp only: or_one_eq) simp
  qed
qed

lemma or_quotient_bit:
  assumes "unat (q :: u64) mod 2 ^ Suc i = 0" "unat q + 2 ^ Suc i \<le> 2 ^ 64" "unat (b :: u64) \<le> 1"
  shows "unat (q OR push_bit i b) = unat q + 2 ^ i * unat b"
proof -
  have i: "(2 :: nat) ^ Suc i \<le> 2 ^ 64" using assms(2) by linarith
  have p: "unat (push_bit i b) = 2 ^ i * unat b"
  proof -
    have "2 ^ i * unat b \<le> 2 ^ i * 1" using assms(3) by (rule mult_le_mono2)
    moreover have "(2 :: nat) ^ Suc i = 2 * 2 ^ i" "(0 :: nat) < 2 ^ i" by simp_all
    ultimately have "2 ^ i * unat b < 2 ^ 64" using i by linarith
    then show ?thesis by (simp add: unat_push_bit mult.commute)
  qed
  have pl: "unat (push_bit i b) < 2 ^ Suc i" using assms(3) unfolding p by (cases "unat b") simp_all
  have q: "push_bit (Suc i) (drop_bit (Suc i) q) = q"
  proof -
    have "unat (take_bit (Suc i) q) = 0" using assms(1) by (subst unsigned_take_bit_eq) (simp only: take_bit_eq_mod)
    then have "take_bit (Suc i) q = 0" by (simp only: unat_eq_0)
    then show ?thesis using bits_ident [of "Suc i" q] by simp
  qed
  have "q OR push_bit i b = q + push_bit i b" using shift_or_is_add [OF pl, of "drop_bit (Suc i) q"] unfolding q .
  moreover have "unat q + unat (push_bit i b) < 2 ^ LENGTH(64)" using pl assms(2) by simp
  ultimately show ?thesis using p by (simp add: unat_add_exact)
qed

lemma div_bits_value:
  assumes "length r = length m" "wval r < wval m" "unat q mod 2 ^ k = 0" "unat q + 2 ^ k \<le> 2 ^ 64" "div_bits m w k (q, r) = (q', r')"
  shows "length r' = length m \<and> wval r' = (wval r * 2 ^ k + unat w mod 2 ^ k) mod wval m
    \<and> unat q' = unat q + (wval r * 2 ^ k + unat w mod 2 ^ k) div wval m"
  using assms
proof (induction k arbitrary: q r)
  case 0
  then show ?case by simp
next
  case (Suc i)
  obtain s c where s: "bn_add_words r r = (s, c)" by fastforce
  define b where "b = (unat w div 2 ^ i) mod 2"
  define t where "t = s[0 := s ! 0 OR (drop_bit i w AND 1)]"
  obtain r2 sub where r2: "bn_reduce_once t c m = (r2, sub)" by fastforce
  let ?x = "wval r * 2 + b"
  note v = bn_add_words_value [OF refl s]
  obtain s0 ss where ss: "s = s0 # ss"
    using v(1) Suc.prems(1,2) by (cases s; cases m) auto
  have S: "wval s + weight (length m) * unat c = 2 * wval r" using v(3) Suc.prems(1) by simp
  have "even (unat s0)"
  proof -
    have "length m = Suc (length ss)" using v(1) Suc.prems(1) ss by simp
    then have W: "weight (length m) = 2 * (2 ^ 63 * weight (length ss))" by (simp only: base_Suc) simp
    have "unat s0 + 2 * (2 ^ 63 * wval ss) + 2 * (2 ^ 63 * weight (length ss) * unat c) = 2 * wval r"
      using S unfolding ss W by simp
    then have "even (unat s0 + 2 * (2 ^ 63 * wval ss) + 2 * (2 ^ 63 * weight (length ss) * unat c))" by (simp only: dvd_triv_left)
    then show ?thesis by (simp only: dvd_add_left_iff dvd_triv_left)
  qed
  then have "wval t = wval s + b" unfolding t_def ss b_def by (simp add: or_low_bit)
  then have T: "wval t + weight (length m) * unat c = ?x" using S by simp
  have b1: "b \<le> 1" by (simp add: b_def)
  have lt: "wval t + weight (length m) * unat c < 2 * wval m" unfolding T using Suc.prems(2) b1 by linarith
  have l: "length t = length m" using v(1) Suc.prems(1) by (simp add: t_def)
  note red = reduce_once_value [OF l lt r2, unfolded T]
  have xm: "?x < 2 * wval m" using lt T by simp
  define d where "d = (NOT sub AND 1)"
  have d: "unat d = ?x div wval m"
  proof (cases "?x < wval m")
    case True
    then show ?thesis using red(3) by (simp add: d_def)
  next
    case False
    then have "?x div wval m = 1" using xm by (simp add: div_nat_eqI)
    then show ?thesis using red(3) False by (simp add: d_def)
  qed
  have dle: "unat d \<le> 1" unfolding d using xm Suc.prems(2) by (simp add: less_Suc_eq_le [symmetric] div_less_iff_less_mult)
  note q1 = or_quotient_bit [OF Suc.prems(3,4) dle]
  have h1: "unat (q OR push_bit i d) mod 2 ^ i = 0"
  proof -
    have "(2 :: nat) ^ i dvd unat q" using Suc.prems(3) by (metis dvd_eq_mod_eq_0 dvd_trans le_imp_power_dvd le_SucI order_refl)
    then show ?thesis unfolding q1 by simp
  qed
  have h2: "unat (q OR push_bit i d) + 2 ^ i \<le> 2 ^ 64"
  proof -
    have "2 ^ i * unat d \<le> 2 ^ i * 1" using dle by (rule mult_le_mono2)
    moreover have "(2 :: nat) ^ Suc i = 2 ^ i + 2 ^ i" by simp
    ultimately show ?thesis unfolding q1 using Suc.prems(4) by linarith
  qed
  have h3: "wval r2 < wval m" unfolding red(2) using Suc.prems(2) by simp
  have h4: "div_bits m w i (q OR push_bit i d, r2) = (q', r')"
    using Suc.prems(5) s r2 by (simp add: in_place_same t_def d_def)
  have ih: "length r' = length m" "wval r' = (wval r2 * 2 ^ i + unat w mod 2 ^ i) mod wval m"
    "unat q' = unat (q OR push_bit i d) + (wval r2 * 2 ^ i + unat w mod 2 ^ i) div wval m"
    using Suc.IH [OF red(1) h3 h1 h2 h4] by simp_all
  have "unat w mod 2 ^ Suc i = 2 ^ i * b + unat w mod 2 ^ i" unfolding b_def by (simp only: power_Suc2 mod_mult2_eq)
  then have X: "wval r * 2 ^ Suc i + unat w mod 2 ^ Suc i = ?x * 2 ^ i + unat w mod 2 ^ i"
    by (simp only: power_Suc distrib_left distrib_right mult.assoc mult.commute mult.left_commute add.assoc)
  have pos: "0 < wval m" using Suc.prems(2) by linarith
  note ds = digit_step [OF pos, of ?x "2 ^ i" "unat w mod 2 ^ i"]
  show ?case unfolding X ds using ih q1 unfolding red(2) d by (simp only: mult.commute add.assoc)
qed

lemma div_binary_value:
  assumes "length r = length m" "wval r < wval m" "div_binary m ws r = (qs, r')"
  shows "length qs = length ws \<and> length r' = length m \<and> wval r' = (wval r * weight (length ws) + wval ws) mod wval m
    \<and> wval qs = (wval r * weight (length ws) + wval ws) div wval m"
  using assms
proof (induction ws arbitrary: qs r')
  case Nil
  then show ?case by simp
next
  case (Cons w ws)
  obtain qs0 r0 where b: "div_binary m ws r = (qs0, r0)" by fastforce
  obtain q r1 where d: "div_bits m w 64 (0, r0) = (q, r1)" by fastforce
  let ?y = "wval r * weight (length ws) + wval ws"
  note ih = Cons.IH [OF Cons.prems(1,2) b]
  have pos: "0 < wval m" using Cons.prems(2) by linarith
  have lt: "wval r0 < wval m" using ih pos by simp
  have w: "unat w mod 2 ^ 64 = unat w" using unat_less_64 [of w] by (rule mod_less)
  have v: "length r1 = length m \<and> wval r1 = (wval r0 * 2 ^ 64 + unat w) mod wval m \<and> unat q = 0 + (wval r0 * 2 ^ 64 + unat w) div wval m"
    using div_bits_value [OF _ lt _ _ d] ih unfolding w by simp
  have Y: "wval r * weight (length (w # ws)) + wval (w # ws) = ?y * 2 ^ 64 + unat w"
    unfolding length_Cons base_Suc wval.simps by (simp only: distrib_left distrib_right mult.assoc mult.commute mult.left_commute add.assoc add.commute)
  have e: "qs = q # qs0" "r' = r1" using Cons.prems(3) b d by auto
  show ?case unfolding Y digit_step [OF pos, of ?y] e using ih v by (simp add: mult.commute)
qed

end
