(* ===== verification/Bn_Div_Word.thy ===== *)
theory Bn_Div_Word imports Bn_Div begin

text \<open>
  Division by a word and by a power of two (\<open>div.c\<close>).
\<close>

section \<open>Operations\<close>

text \<open>The words of the quotient from the highest down, with the remainder of the words above.\<close>

fun div_word_loop :: "u64 \<Rightarrow> u64 list \<Rightarrow> u64 list \<times> u64" where
  "div_word_loop w [] = ([], 0)"
| "div_word_loop w (l # ls) =
     (let (ds, ret) = div_word_loop w ls;
          (d, _) = bn_div_rem_words ret l w in
      (d # ds, l - d * w))"

definition BN_div_word :: "malloc_fn \<Rightarrow> u64 \<Rightarrow> bignum \<Rightarrow> u64 \<times> bignum" where
  "BN_div_word ma w a =
     (if w = 0 then (- 1, a)
      else if bn_width a = 0 then (0, a)
      else
        let j = 64 - BN_num_bits_word w;
            w = push_bit j w in
        case BN_lshift ma a (int j) a of
          (None, a) \<Rightarrow> (- 1, a)
        | (Some _, a) \<Rightarrow>
            let (ds, ret) = div_word_loop w (bn_words a) in
            (drop_bit j ret, bn_set_minimal_width (a\<lparr>bn_d := put_words 0 ds (bn_d a)\<rparr>)))"

fun mod_word_loop :: "u64 \<Rightarrow> u64 list \<Rightarrow> u128" where
  "mod_word_loop w [] = 0"
| "mod_word_loop w (l # ls) = (push_bit 64 (mod_word_loop w ls) OR ucast l) mod ucast w"

definition BN_mod_word :: "bignum \<Rightarrow> u64 \<Rightarrow> u64" where
  "BN_mod_word a w = (if w = 0 then - 1 else ucast (mod_word_loop w (bn_words a)))"

text \<open>The bits of the highest of \<open>n\<close> words that are above bit \<open>e\<close> are cleared.\<close>

definition mask_top :: "nat \<Rightarrow> nat \<Rightarrow> u64 list \<Rightarrow> u64 list" where
  "mask_top e n d = (if e mod 64 \<noteq> 0 then d[n - 1 := d ! (n - 1) AND (push_bit (e mod 64) 1 - 1)] else d)"

definition BN_mod_pow2 :: "malloc_fn \<Rightarrow> bignum \<Rightarrow> nat \<Rightarrow> unit bn_op" where
  "BN_mod_pow2 ma a e r =
     (if e = 0 \<or> bn_width a = 0 then (Some (), BN_zero r)
      else
        let num_words = 1 + (e - 1) div 64 in
        if bn_width a < num_words then BN_copy ma a r
        else
          op_bind (bn_wexpand ma num_words) (\<lambda>_ r.
            (Some (), bn_set_minimal_width
               (r\<lparr>bn_d := mask_top e num_words (put_words 0 (take num_words (bn_d a)) (bn_d r)), bn_neg := bn_neg a, bn_width := num_words\<rparr>))) r)"

definition BN_nnmod_pow2 :: "malloc_fn \<Rightarrow> bignum \<Rightarrow> nat \<Rightarrow> unit bn_op" where
  "BN_nnmod_pow2 ma a e =
     op_bind (BN_mod_pow2 ma a e) (\<lambda>_ r.
       if BN_is_zero r \<or> \<not> bn_neg r then (Some (), r)
       else
         let num_words = 1 + (e - 1) div 64 in
         op_bind (bn_wexpand ma num_words) (\<lambda>_ r.
           let ws = bn_words r @ replicate (num_words - bn_width r) 0;
               d = mask_top e num_words (put_words 0 (map (\<lambda>w. NOT w) ws) (bn_d r));
               r = bn_set_minimal_width (r\<lparr>bn_neg := False, bn_width := num_words, bn_d := d\<rparr>) in
           BN_add ma r BN_value_one r) r)"

section \<open>Words\<close>

lemma div_word_loop_value:
  assumes "w \<noteq> 0" "div_word_loop w ls = (ds, ret)"
  shows "length ds = length ls" "wval ds = wval ls div unat w" "unat ret = wval ls mod unat w"
proof -
  have "length ds = length ls \<and> wval ls = unat w * wval ds + unat ret \<and> unat ret < unat w"
    using assms
  proof (induction ls arbitrary: ds ret)
    case Nil
    then show ?case by (simp add: unat_gt_0)
  next
    case (Cons l ls)
    obtain ds0 r0 where r: "div_word_loop w ls = (ds0, r0)" by fastforce
    obtain d m where d: "bn_div_rem_words r0 l w = (d, m)" by fastforce
    note i = Cons.IH [OF Cons.prems(1) r]
    have lt: "r0 < w" using i by (simp add: word_less_nat_alt)
    note v = div_rem_words_value [OF lt d]
    have ret: "ret = m" "ds = d # ds0" using Cons.prems(2) r d by (auto simp: bn_div_rem_words_def Let_def)
    have split: "unat r0 * 2 ^ 64 + unat l = unat w * unat d + unat m" unfolding v by (simp only: mult_div_mod_eq)
    have "wval (l # ls) = unat l + 2 ^ 64 * (unat w * wval ds0 + unat r0)" using i by simp
    also have "\<dots> = (unat r0 * 2 ^ 64 + unat l) + unat w * (2 ^ 64 * wval ds0)"
      by (simp only: distrib_left distrib_right add.assoc add.commute add.left_commute mult.assoc mult.commute mult.left_commute)
    also have "\<dots> = unat w * (unat d + 2 ^ 64 * wval ds0) + unat m" unfolding split by (simp only: distrib_left add.commute add.left_commute)
    finally have "wval (l # ls) = unat w * wval ds + unat ret" by (simp only: ret wval.simps)
    moreover have "unat m < unat w" unfolding v using Cons.prems(1) by (simp add: unat_gt_0)
    ultimately show ?case using i by (simp add: ret)
  qed
  then show "length ds = length ls" "wval ds = wval ls div unat w" "unat ret = wval ls mod unat w"
    by (simp_all add: unat_gt_0)
qed

lemma mod_prefix: "((a :: nat) mod n * b + c) mod n = (a * b + c) mod n"
  by (metis mod_add_left_eq mod_mult_left_eq)

lemma mod_word_loop_value: "w \<noteq> 0 \<Longrightarrow> unat (mod_word_loop w ls) = wval ls mod unat w"
proof (induction ls)
  case (Cons l ls)
  have "wval ls mod unat w < unat w" using Cons.prems by (simp add: unat_gt_0)
  then have "wval ls mod unat w < 2 ^ 64" using unat_less_64 [of w] by (rule less_trans)
  then have s: "mod_word_loop w ls = ucast (of_nat (wval ls mod unat w) :: u64)" using Cons
    by (simp add: word_unat_eq_iff unat_of_nat)
  have u: "unat (of_nat (wval ls mod unat w) :: u64) = wval ls mod unat w" using \<open>wval ls mod unat w < 2 ^ 64\<close> by (simp add: unat_of_nat)
  have "unat (mod_word_loop w (l # ls)) = (wval ls mod unat w * 2 ^ 64 + unat l) mod unat w"
    unfolding mod_word_loop.simps s unat_mod unat_double u by simp
  also have "\<dots> = (wval ls * 2 ^ 64 + unat l) mod unat w" by (rule mod_prefix)
  also have "wval ls * 2 ^ 64 + unat l = wval (l # ls)" by (simp only: wval.simps add.commute mult.commute)
  finally show ?case .
qed simp

lemma shifted_word:
  assumes "w \<noteq> 0" "j = 64 - BN_num_bits_word w"
  shows "unat (push_bit j w) = 2 ^ j * unat w" "push_bit j w \<noteq> 0"
proof -
  let ?b = "BN_num_bits_word w"
  have b: "unat w < 2 ^ ?b" "2 ^ (?b - 1) \<le> unat w" "0 < ?b" using num_bits_word_value [of w] assms(1) by auto
  have "?b \<le> 64"
  proof (rule ccontr)
    assume "\<not> ?b \<le> 64"
    then have "(2 :: nat) ^ 64 \<le> 2 ^ (?b - 1)" by (intro power_increasing) simp_all
    then show False using b(2) unat_less_64 [of w] by linarith
  qed
  then have "(2 :: nat) ^ j * 2 ^ ?b = 2 ^ 64" unfolding assms(2) power_add [symmetric] by simp
  moreover have "2 ^ j * unat w < 2 ^ j * 2 ^ ?b" using b(1) by simp
  ultimately have lt: "2 ^ j * unat w < 2 ^ 64" by linarith
  then show v: "unat (push_bit j w) = 2 ^ j * unat w"
    by (simp add: unat_push_bit mult.commute)
  then have "unat (push_bit j w) \<noteq> 0" using assms(1) by (simp add: unat_eq_0)
  then show "push_bit j w \<noteq> 0" by auto
qed

section \<open>Division by a word\<close>

lemma div_word_run:
  assumes "malloc_total ma" "bn_ok a" "bn_room a (bn_width a + 1)" "w \<noteq> 0"
  shows "\<exists>a'. BN_div_word ma w a = (of_nat (bn_mag a mod unat w), a') \<and> bn_ok a' \<and> bn_value a' = bn_value a sdiv int (unat w)"
proof (cases "bn_width a = 0")
  case True
  then have "bn_mag a = 0" by (simp add: bn_mag_def bn_words_def)
  then show ?thesis using True assms by (simp add: BN_div_word_def bn_value_def)
next
  case False
  define j where "j = 64 - BN_num_bits_word w"
  have jl: "j < 64" using num_bits_word_value [of w] assms(4) by (auto simp: j_def)
  note sw = shifted_word [OF assms(4) j_def]
  have room: "bn_room a (bn_width a + nat (int j) div 64 + 1)" using assms(3) jl by simp
  obtain x where x: "BN_lshift ma a (int j) a = (Some (), x)" "bn_ok x" "bn_value x = 2 ^ nat (int j) * bn_value a"
    by (rule lshift_run [where n = "int j", OF assms(1,2,2) _ room]) simp_all
  have mag: "bn_mag x = 2 ^ j * bn_mag a"
    using mag_of_value [of x "bn_neg a" "2 ^ j * bn_mag a"] x(3) by (simp add: value_signed [of a] with_sign_def)
  obtain ds ret where l: "div_word_loop (push_bit j w) (bn_words x) = (ds, ret)" by fastforce
  note v = div_word_loop_value [OF sw(2) l]
  have q: "wval ds = bn_mag a div unat w" using v(2) mag unfolding bn_mag_def [of x, symmetric] sw(1) by simp
  have "unat ret = 2 ^ j * (bn_mag a mod unat w)" using v(3) mag unfolding bn_mag_def [of x, symmetric] sw(1) by (simp only: mult_mod_right)
  then have "unat (drop_bit j ret) = bn_mag a mod unat w" by (simp add: unat_drop_bit)
  then have rt: "drop_bit j ret = of_nat (bn_mag a mod unat w)" by (metis of_nat_unat ucast_id)
  have ld: "length ds \<le> length (bn_d x)" "length ds = bn_width x" using v(1) x(2) by (simp_all add: bn_ok_def)
  define y where "y = x\<lparr>bn_d := put_words 0 ds (bn_d x)\<rparr>"
  have y: "bn_ok y" "bn_words y = ds" "bn_neg y = bn_neg x"
    using put_words_0 [OF ld(1)] ld(2) x(2) by (simp_all add: y_def bn_ok_def bn_words_def)
  have "bn_value y = with_sign (bn_neg x) (bn_mag a div unat w)"
    using y q by (simp add: value_signed [of y] bn_mag_def)
  also have "\<dots> = with_sign (bn_neg a) (bn_mag a div unat w)"
  proof (cases "bn_mag a = 0")
    case False
    have "bn_neg x = bn_neg a" using x(3) False mag by (cases "bn_neg x"; cases "bn_neg a") (simp_all add: bn_value_def)
    then show ?thesis by simp
  qed (simp add: with_sign_def)
  also have "\<dots> = bn_value a sdiv int (unat w)"
    using signed_division(1) [of "bn_neg a" "bn_mag a" False "unat w"] by (simp add: value_signed [of a] with_sign_def [of False])
  finally have "bn_value y = bn_value a sdiv int (unat w)" .
  moreover have "BN_div_word ma w a = (of_nat (bn_mag a mod unat w), bn_set_minimal_width y)"
    using assms(4) False x(1) l rt by (simp add: BN_div_word_def Let_def j_def [symmetric] y_def)
  ultimately show ?thesis using set_minimal_width [OF y(1)] by simp
qed

lemma mod_word_run:
  assumes "bn_ok a" "w \<noteq> 0"
  shows "BN_mod_word a w = of_nat (bn_mag a mod unat w)"
proof -
  have "unat (mod_word_loop w (bn_words a)) = bn_mag a mod unat w" using mod_word_loop_value [OF assms(2)] by (simp add: bn_mag_def)
  then have "(of_nat (unat (mod_word_loop w (bn_words a))) :: u64) = of_nat (bn_mag a mod unat w)" by (rule arg_cong)
  moreover have "(of_nat (unat x) :: u64) = ucast x" for x :: u128 by (simp add: unsigned_of_nat unsigned_ucast_eq)
  ultimately show ?thesis using assms(2) by (simp add: BN_mod_word_def)
qed

section \<open>Division by a power of two\<close>

lemma mask_top_value:
  assumes "n = 1 + (e - 1) div 64" "0 < e" "n \<le> length d"
  shows "length (mask_top e n d) = length d" "wval (take n (mask_top e n d)) = wval (take n d) mod 2 ^ e"
proof -
  show "length (mask_top e n d) = length d" by (simp add: mask_top_def)
  have n: "e mod 64 = 0 \<Longrightarrow> n = e div 64" "e mod 64 \<noteq> 0 \<Longrightarrow> n = e div 64 + 1"
    using assms(1,2) div_Suc [of "e - 1" 64] by simp_all
  have "wval (take n (mask_top e n d)) = take_bit e (wval (take n d))"
  proof (rule bit_eqI)
    fix m
    show "bit (wval (take n (mask_top e n d))) m = bit (take_bit e (wval (take n d))) m"
    proof (cases "e mod 64 = 0")
      case True
      then show ?thesis using n(1) assms(3) mod_64_less [of m]
        unfolding bit_take_bit_iff bit_wval div_mod_less [of m e] by (auto simp: mask_top_def)
    next
      case False
      have "mask_top e n d = d[e div 64 := d ! (e div 64) AND mask (e mod 64)]"
        using False n(2) [OF False] by (simp add: mask_top_def mask_eq_exp_minus_1 push_bit_eq_mult)
      then show ?thesis using n(2) [OF False] assms(3) mod_64_less [of m]
        unfolding bit_take_bit_iff bit_wval div_mod_less [of m e] by (auto simp: nth_list_update bit_simps split: if_splits)
    qed
  qed
  then show "wval (take n (mask_top e n d)) = wval (take n d) mod 2 ^ e" by (simp add: take_bit_eq_mod)
qed

lemma mod_pow2_run:
  assumes "malloc_total ma" "bn_ok a" "bn_ok r" "bn_room r (1 + (e - 1) div 64)"
  obtains r' where "BN_mod_pow2 ma a e r = (Some (), r')" "bn_ok r'" "bn_value r' = with_sign (bn_neg a) (bn_mag a mod 2 ^ e)"
    "bn_static r' = bn_static r" "bn_width r' \<le> 1 + (e - 1) div 64"
proof (cases "e = 0 \<or> bn_width a = 0")
  case True
  then have "bn_mag a mod 2 ^ e = 0" by (auto simp: bn_mag_def bn_words_def)
  moreover have "bn_value (BN_zero r) = 0" "bn_ok (BN_zero r)" by (simp_all add: BN_zero_def bn_ok_def bn_value_def bn_mag_def bn_words_def)
  ultimately show ?thesis using that [of "BN_zero r"] True by (simp add: BN_mod_pow2_def with_sign_def BN_zero_def)
next
  case False
  let ?n = "1 + (e - 1) div 64"
  have e: "0 < e" using False by simp
  show ?thesis
  proof (cases "bn_width a < ?n")
    case True
    obtain r1 where r1: "bn_wexpand ma (bn_width a) r = (Some (), r1)"
      by (rule wexpand_room [OF assms(1) bn_room_mono [OF assms(4) less_imp_le [OF True]]])
    then obtain r' where r': "BN_copy ma a r = (Some (), r')" "bn_static r' = bn_static r1" by (simp add: BN_copy_def op_bind_def)
    note c = copy_value [OF assms(2,3) r'(1)]
    have "bn_mag a < 2 ^ (64 * bn_width a)" using wval_less [of "bn_words a"] assms(2) by (simp add: bn_mag_def)
    also have "(2 :: nat) ^ (64 * bn_width a) \<le> 2 ^ e" using True e by (intro power_increasing) linarith+
    finally have "bn_value r' = with_sign (bn_neg a) (bn_mag a mod 2 ^ e)" using c by (simp add: value_signed [of r'] bn_mag_def)
    then show ?thesis using that [of r'] r' c True False wexpand_static [OF r1] by (simp add: BN_mod_pow2_def)
  next
    case nc: False
    obtain r1 where r1: "bn_wexpand ma ?n r = (Some (), r1)" by (rule wexpand_room [OF assms(1,4)])
    note w = wexpand [OF assms(3) r1]
    let ?p = "put_words 0 (take ?n (bn_d a)) (bn_d r1)"
    have lt: "length (take ?n (bn_d a)) = ?n" using nc assms(2) by (simp add: bn_ok_def)
    have lp: "length ?p = length (bn_d r1)" "take ?n ?p = take ?n (bn_d a)"
      using put_words_0 [of "take ?n (bn_d a)" "bn_d r1"] lt w(2) by simp_all
    have le: "?n \<le> length ?p" using lp(1) w(2) by simp
    note m = mask_top_value [OF refl e le]
    define x where "x = r1\<lparr>bn_d := mask_top e ?n ?p, bn_neg := bn_neg a, bn_width := ?n\<rparr>"
    have ok: "bn_ok x" using m(1) le by (simp add: x_def bn_ok_def)
    have "bn_mag x = wval (take ?n (bn_d a)) mod 2 ^ e" using m(2) lp(2) by (simp add: x_def bn_mag_def bn_words_def)
    also have "wval (take ?n (bn_d a)) mod 2 ^ e = bn_mag a mod 2 ^ e"
    proof -
      have "take ?n (bn_d a) = take ?n (bn_words a)" using nc by (intro take_words) simp
      moreover have "length (take ?n (bn_words a)) = ?n" using nc assms(2) by simp
      moreover have "(2 :: nat) ^ e dvd weight ?n" using dividend_less_times_div [of 64 "e - 1"] e by (intro le_imp_power_dvd) simp
      then obtain c where "weight ?n = 2 ^ e * c" by (rule dvdE)
      ultimately have "bn_mag a = wval (take ?n (bn_d a)) + 2 ^ e * (c * wval (drop ?n (bn_words a)))"
        unfolding bn_mag_def by (subst wval_take_drop [of _ ?n]) (simp only: mult.assoc)
      then show ?thesis by (simp only: mod_mult_self2)
    qed
    finally have mag: "bn_mag x = bn_mag a mod 2 ^ e" .
    have "BN_mod_pow2 ma a e r = (Some (), bn_set_minimal_width x)"
      using False nc r1 by (simp add: BN_mod_pow2_def op_bind_def x_def)
    moreover have "bn_value x = with_sign (bn_neg a) (bn_mag a mod 2 ^ e)" using mag by (simp add: value_signed [of x]) (simp add: x_def)
    moreover have "bn_static x = bn_static r" "bn_width x = ?n" using wexpand_static [OF r1] by (simp_all add: x_def)
    ultimately show ?thesis using that [of "bn_set_minimal_width x"] set_minimal_width [OF ok] by simp
  qed
qed

lemma unat_not: "unat (NOT w) + unat w + 1 = 2 ^ 64" for w :: u64
proof -
  have "NOT w = - 1 - w" by (simp add: not_eq_complement)
  moreover have "unat (- 1 - w) = unat (- 1 :: u64) - unat w" by (rule unat_sub) simp
  moreover have "unat (- 1 :: u64) = 2 ^ 64 - 1" by (simp add: unsigned_minus_1_eq_mask mask_eq_exp_minus_1)
  ultimately show ?thesis using unat_less_64 [of w] by simp
qed

lemma wval_not: "wval (map (\<lambda>w. NOT w) ws) + wval ws + 1 = weight (length ws)"
proof (induction ws)
  case (Cons w ws)
  have n: "unat (NOT w) + unat w + 1 = 2 ^ 64" by (rule unat_not)
  have "wval (map (\<lambda>w. NOT w) (w # ws)) + wval (w # ws) + 1 = (unat (NOT w) + unat w + 1) + 2 ^ 64 * (wval (map (\<lambda>w. NOT w) ws) + wval ws)"
    by (simp add: distrib_left)
  also have "\<dots> = 2 ^ 64 * (wval (map (\<lambda>w. NOT w) ws) + wval ws + 1)" unfolding n by (simp only: distrib_left mult_1_right add.assoc add.commute add.left_commute)
  finally show ?case unfolding Cons by (simp only: base_Suc length_Cons)
qed simp

text \<open>The complement of a number below \<open>2 ^ e\<close>.\<close>

lemma complement_mod:
  fixes x :: nat
  assumes "y + x + 1 = 2 ^ k" "x < 2 ^ e" "e \<le> k"
  shows "y mod 2 ^ e = 2 ^ e - 1 - x"
proof -
  obtain c where c: "(2 :: nat) ^ k = 2 ^ e * Suc c"
  proof -
    have "(2 :: nat) ^ k = 2 ^ e * 2 ^ (k - e)" using assms(3) by (simp add: power_add [symmetric])
    moreover have "(2 :: nat) ^ (k - e) = Suc (2 ^ (k - e) - 1)" by simp
    ultimately show ?thesis using that by metis
  qed
  have "y = 2 ^ e * c + (2 ^ e - 1 - x)" using assms(1,2) unfolding c by (simp only: mult_Suc_right)
  moreover have "2 ^ e - 1 - x < (2 :: nat) ^ e" using assms(2) by linarith
  ultimately show ?thesis by (simp only: mod_mult_self4 mod_less)
qed

lemma nnmod_pow2_run:
  assumes "malloc_total ma" "bn_ok a" "bn_ok r" "\<not> bn_static r" "2 + (e - 1) div 64 \<le> bn_max_words"
  shows "\<exists>r'. BN_nnmod_pow2 ma a e r = (Some (), r') \<and> bn_ok r' \<and> bn_value r' = bn_value a mod 2 ^ e"
proof -
  let ?n = "1 + (e - 1) div 64" and ?x = "bn_mag a mod 2 ^ e"
  have room: "bn_room r ?n" using assms(4,5) by (simp add: bn_room_def)
  obtain r1 where r1: "BN_mod_pow2 ma a e r = (Some (), r1)" "bn_ok r1" "bn_value r1 = with_sign (bn_neg a) ?x"
    "bn_static r1 = bn_static r" "bn_width r1 \<le> ?n"
    by (rule mod_pow2_run [OF assms(1-3) room])
  have mag: "bn_mag r1 = ?x" by (rule mag_of_value [OF r1(3)])
  have va: "bn_value a mod 2 ^ e = (if bn_neg a then - int (bn_mag a) mod 2 ^ e else int ?x)"
    by (simp add: bn_value_def zmod_int)
  show ?thesis
  proof (cases "BN_is_zero r1 \<or> \<not> bn_neg r1")
    case True
    have "bn_value r1 = bn_value a mod 2 ^ e"
    proof (cases "?x = 0")
      case True
      then have "(2 :: int) ^ e dvd int (bn_mag a)" by (metis dvd_eq_mod_eq_0 int_dvd_int_iff of_nat_numeral of_nat_power)
      then have "(2 :: int) ^ e dvd bn_value a" by (simp add: bn_value_def)
      then show ?thesis using True r1(3) by (simp add: with_sign_def)
    next
      case False
      then have "\<not> bn_neg r1" using True is_zero_iff [OF r1(2)] mag by simp
      then have "\<not> bn_neg a" using r1(3) mag False by (auto simp: bn_value_def with_sign_def split: if_splits)
      then show ?thesis using va r1(3) by (simp add: with_sign_def)
    qed
    then show ?thesis using True r1(1,2) by (simp add: BN_nnmod_pow2_def op_bind_def)
  next
    case False
    then have nz: "0 < ?x" "bn_neg r1" using is_zero_iff [OF r1(2)] mag by simp_all
    then have na: "bn_neg a" using r1(3) mag by (auto simp: bn_value_def with_sign_def split: if_splits)
    have e: "0 < e" using nz(1) by (cases e) simp_all
    have room1: "bn_room r1 ?n" using assms(4,5) r1(4) by (simp add: bn_room_def)
    obtain r2 where r2: "bn_wexpand ma ?n r1 = (Some (), r2)" by (rule wexpand_room [OF assms(1) room1])
    note w = wexpand [OF r1(2) r2]
    define ws where "ws = bn_words r2 @ replicate (?n - bn_width r2) 0"
    have "length (bn_words r2) = bn_width r2" using w(1) by simp
    then have ws: "length ws = ?n" "wval ws = ?x" using w(3,4) r1(5) mag by (simp_all only: ws_def wval_append bn_mag_def) simp_all
    let ?p = "put_words 0 (map (\<lambda>w. NOT w) ws) (bn_d r2)"
    have p: "length ?p = length (bn_d r2)" "take ?n ?p = map (\<lambda>w. NOT w) ws"
      using put_words_0 [of "map (\<lambda>w. NOT w) ws" "bn_d r2"] ws(1) w(2) by simp_all
    have le: "?n \<le> length ?p" using p(1) w(2) by simp
    note m = mask_top_value [OF refl e le]
    define r3 where "r3 = r2\<lparr>bn_neg := False, bn_width := ?n, bn_d := mask_top e ?n ?p\<rparr>"
    have ok3: "bn_ok r3" using m(1) le by (simp add: r3_def bn_ok_def)
    have "wval (map (\<lambda>w. NOT w) ws) + ?x + 1 = weight ?n" using wval_not [of ws] ws by simp
    moreover have "e \<le> 64 * ?n" using dividend_less_times_div [of 64 "e - 1"] e by simp
    ultimately have "wval (map (\<lambda>w. NOT w) ws) mod 2 ^ e = 2 ^ e - 1 - ?x" by (intro complement_mod) simp_all
    then have m3: "bn_mag r3 = 2 ^ e - 1 - ?x" using m(2) p(2) by (simp add: r3_def bn_mag_def bn_words_def)
    define r4 where "r4 = bn_set_minimal_width r3"
    note s4 = set_minimal_width [OF ok3, folded r4_def]
    have one: "bn_ok BN_value_one" "bn_width BN_value_one = 1" "bn_value BN_value_one = 1"
      by (simp_all add: BN_value_one_def bn_ok_def bn_value_def bn_mag_def bn_words_def)
    have "\<not> bn_static r4" "bn_width r3 = ?n" using assms(4) r1(4) wexpand_static [OF r2] by (simp_all add: r4_def r3_def)
    then have "bn_room r4 (max (bn_width r4) (bn_width BN_value_one) + 1)"
      using s4 assms(5) one(2) by (auto simp: bn_room_def)
    then obtain r' where r': "BN_add ma r4 BN_value_one r4 = (Some (), r')" "bn_ok r'" "bn_value r' = bn_value r4 + bn_value BN_value_one"
      using signed_sum_run(1) [OF assms(1) _ one(1), of r4 r4] s4 by auto
    have "bn_value r4 = int (2 ^ e - 1 - ?x)" using s4 m3 by (simp add: bn_value_def [of r3]) (simp add: r3_def)
    moreover have "?x < 2 ^ e" by simp
    ultimately have "bn_value r' = 2 ^ e - int ?x" using r'(3) one(3) by (simp add: of_nat_diff)
    also have "\<dots> = - int (bn_mag a) mod 2 ^ e"
    proof -
      have x: "int (bn_mag a) mod 2 ^ e = int ?x" by (simp add: zmod_int)
      then have "int (bn_mag a) mod 2 ^ e \<noteq> 0" using nz(1) by linarith
      then show ?thesis unfolding zmod_zminus1_eq_if x [symmetric] by simp
    qed
    finally have "bn_value r' = bn_value a mod 2 ^ e" using va na by simp
    moreover have "BN_nnmod_pow2 ma a e r = (Some (), r')"
      using False r1(1) r2 r'(1) by (simp add: BN_nnmod_pow2_def op_bind_def Let_def r4_def r3_def ws_def)
    ultimately show ?thesis using r'(2) by blast
  qed
qed

text \<open>When the remainder of the magnitude is the residue of the number.\<close>

lemma negative_residue: "int (m mod n) = - int m mod int n \<longleftrightarrow> n dvd 2 * m"
proof -
  have "int (m mod n) = - int m mod int n \<longleftrightarrow> int m mod int n = - int m mod int n" by (simp add: zmod_int)
  also have "\<dots> \<longleftrightarrow> int n dvd int m - - int m" by (rule mod_eq_dvd_iff)
  also have "\<dots> \<longleftrightarrow> int n dvd int (2 * m)" by simp
  finally show ?thesis by (simp only: of_nat_dvd_iff)
qed

lemma magnitude_residue:
  fixes w :: u64
  assumes "bn_ok a" "w \<noteq> 0"
  shows "int (unat (of_nat (bn_mag a mod unat w) :: u64)) = bn_value a mod int (unat w) \<longleftrightarrow> \<not> bn_neg a \<or> unat w dvd 2 * bn_mag a"
proof -
  have "0 < unat w" using assms(2) by (simp add: unat_gt_0)
  then have "bn_mag a mod unat w < unat w" by (rule mod_less_divisor)
  also have "unat w < 2 ^ LENGTH(64)" by (rule unsigned_less)
  finally have "unat (of_nat (bn_mag a mod unat w) :: u64) = bn_mag a mod unat w" by (rule of_nat_inverse [OF refl])
  then show ?thesis using negative_residue [of "bn_mag a" "unat w"] by (auto simp: bn_value_def zmod_int)
qed

section \<open>Properties\<close>

text \<open>
  C30: \<open>BN_div_word\<close> leaves the quotient rounded towards zero and returns the remainder of the magnitude, also for a
  negative numerator, where the remainder of the number is the negative of it (-37 by 10 leaves -3 and returns 7, and
  -37 = 10 * -3 - 7); \<open>BN_mod_word\<close> returns the same word, which for a negative number is the residue of the number
  only if \<open>w\<close> divides twice the magnitude. \<open>BN_mod_pow2\<close> gives the remainder with the numerator's sign and
  \<open>BN_nnmod_pow2\<close> the least non-negative residue. The divisor zero gives the error value of both word divisions.
\<close>

theorem bn_div_word_exact:
  assumes "malloc_total ma" "bn_ok a" "bn_ok r" "\<not> bn_static a" "\<not> bn_static r" "bn_width a < bn_max_words" "e div 64 + 2 \<le> bn_max_words"
  shows "(if w = 0 then BN_div_word ma w a = (- 1, a) \<and> BN_mod_word a w = - 1
      else (\<exists>a'. BN_div_word ma w a = (of_nat (bn_mag a mod unat w), a') \<and> bn_ok a' \<and> bn_value a' = bn_value a sdiv int (unat w))
        \<and> BN_mod_word a w = of_nat (bn_mag a mod unat w)
        \<and> (int (unat (BN_mod_word a w)) = bn_value a mod int (unat w) \<longleftrightarrow> \<not> bn_neg a \<or> unat w dvd 2 * bn_mag a))
    \<and> (\<exists>r'. BN_mod_pow2 ma a e r = (Some (), r') \<and> bn_ok r' \<and> bn_value r' = bn_value a smod 2 ^ e)
    \<and> (\<exists>r'. BN_nnmod_pow2 ma a e r = (Some (), r') \<and> bn_ok r' \<and> bn_value r' = bn_value a mod 2 ^ e)"
proof (intro conjI)
  have ra: "bn_room a (bn_width a + 1)" using assms(4,6) by (simp add: bn_room_def)
  show "if w = 0 then BN_div_word ma w a = (- 1, a) \<and> BN_mod_word a w = - 1
      else (\<exists>a'. BN_div_word ma w a = (of_nat (bn_mag a mod unat w), a') \<and> bn_ok a' \<and> bn_value a' = bn_value a sdiv int (unat w))
        \<and> BN_mod_word a w = of_nat (bn_mag a mod unat w)
        \<and> (int (unat (BN_mod_word a w)) = bn_value a mod int (unat w) \<longleftrightarrow> \<not> bn_neg a \<or> unat w dvd 2 * bn_mag a)"
  proof (cases "w = 0")
    case True
    then show ?thesis by (simp add: BN_div_word_def BN_mod_word_def)
  next
    case False
    have m: "BN_mod_word a w = of_nat (bn_mag a mod unat w)" using mod_word_run [OF assms(2)] False by (simp add: BN_mod_word_def)
    have d: "\<exists>a'. BN_div_word ma w a = (of_nat (bn_mag a mod unat w), a') \<and> bn_ok a' \<and> bn_value a' = bn_value a sdiv int (unat w)"
      using div_word_run [OF assms(1,2) ra False] .
    show ?thesis unfolding if_not_P [OF False] m using d magnitude_residue [OF assms(2) False] by blast
  qed
  have "(e - 1) div 64 \<le> e div 64" by (intro div_le_mono) simp
  then have n: "2 + (e - 1) div 64 \<le> bn_max_words" using assms(7) by linarith
  then have rr: "bn_room r (1 + (e - 1) div 64)" using assms(5) by (simp add: bn_room_def)
  obtain r' where r': "BN_mod_pow2 ma a e r = (Some (), r')" "bn_ok r'" "bn_value r' = with_sign (bn_neg a) (bn_mag a mod 2 ^ e)"
    by (rule mod_pow2_run [OF assms(1-3) rr])
  moreover have "with_sign (bn_neg a) (bn_mag a mod 2 ^ e) = bn_value a smod 2 ^ e"
    using signed_division(2) [of "bn_neg a" "bn_mag a" False "2 ^ e"] by (simp add: value_signed [of a] with_sign_def [of False])
  ultimately show "\<exists>r'. BN_mod_pow2 ma a e r = (Some (), r') \<and> bn_ok r' \<and> bn_value r' = bn_value a smod 2 ^ e" by auto
  show "\<exists>r'. BN_nnmod_pow2 ma a e r = (Some (), r') \<and> bn_ok r' \<and> bn_value r' = bn_value a mod 2 ^ e"
    by (rule nnmod_pow2_run [OF assms(1-3,5) n])
qed

theorem bn_div_word_exact_witness:
  "\<exists>a' r'. BN_div_word zero_malloc 10 \<lparr>bn_d = [37], bn_width = 1, bn_neg = True, bn_static = False\<rparr> = (7, a') \<and> bn_value a' = - 3
    \<and> BN_nnmod_pow2 zero_malloc \<lparr>bn_d = [37], bn_width = 1, bn_neg = True, bn_static = False\<rparr> 5 BN_init = (Some (), r') \<and> bn_value r' = 27"
proof -
  let ?a = "\<lparr>bn_d = [37], bn_width = 1, bn_neg = True, bn_static = False\<rparr>"
  have v: "bn_value ?a = - 37" "bn_mag ?a = 37" by (simp_all add: bn_value_def bn_mag_def bn_words_def)
  have s: "\<not> bn_static ?a" "\<not> bn_static BN_init" "bn_ok BN_init" "bn_width ?a < bn_max_words" "5 div 64 + 2 \<le> bn_max_words"
    by (simp_all add: BN_init_def bn_ok_def bn_max_words_def)
  have z: "(10 :: u64) \<noteq> 0" "bn_value ?a sdiv int (unat (10 :: u64)) = - 3" "bn_mag ?a mod unat (10 :: u64) = 7" "bn_value ?a mod 2 ^ 5 = 27"
    unfolding v by (simp_all add: signed_divide_int_def)
  note d = bn_div_word_exact [where a = ?a and r = BN_init and e = 5 and w = 10, OF malloc_total_zero_malloc fresh_numbers(1) s(3,1,2,4,5),
    unfolded z if_not_P [OF z(1)]]
  then show ?thesis by auto
qed

end
