(* ===== verification/Bn_Mod.thy ===== *)
theory Bn_Mod imports Bn_Reduce Bn_Div_Word begin

text \<open>
  Arithmetic modulo a number (\<open>div.c\<close>): the operations that reduce with \<open>BN_nnmod\<close>, those that work on operands below
  the modulus without branches, and the division without branches.
\<close>

section \<open>Operations\<close>

text \<open>A call whose failure is looked at later.\<close>

definition try_op :: "('s, 'a) op \<Rightarrow> ('s, 'a option) op" where
  "try_op m s = (case m s of (x, s) \<Rightarrow> (Some x, s))"

definition bn_scratch_space_from_ctx :: "malloc_fn \<Rightarrow> nat \<Rightarrow> (bn_ctx, nat) op" where
  "bn_scratch_space_from_ctx ma width =
     op_bind (BN_CTX_get ma) (\<lambda>ret.
     op_bind (on_slot ret (op_bind (bn_wexpand ma width) (\<lambda>_ bn. (Some (), bn\<lparr>bn_neg := False, bn_width := width\<rparr>)))) (\<lambda>_.
     op_return ret))"

definition bn_resized_from_ctx :: "malloc_fn \<Rightarrow> bignum \<Rightarrow> nat \<Rightarrow> (bn_ctx, bignum) op" where
  "bn_resized_from_ctx ma bn width =
     (if width \<le> bn_width bn then op_return bn
      else
        op_bind (bn_scratch_space_from_ctx ma width) (\<lambda>ret.
        op_bind (on_slot ret (op_bind (BN_copy ma bn) (\<lambda>_. bn_resize_words ma width))) (\<lambda>_ ctx.
        (Some (slot_number ctx ret), ctx))))"

text \<open>The common text of \<open>bn_mod_add_consttime\<close> and \<open>bn_mod_sub_consttime\<close>; \<open>f\<close> is the operation on the words.\<close>

definition mod_consttime ::
  "malloc_fn \<Rightarrow> (u64 list \<Rightarrow> u64 list \<Rightarrow> u64 list \<Rightarrow> u64 list) \<Rightarrow> bignum \<Rightarrow> bignum \<Rightarrow> bignum \<Rightarrow> unit pool_op" where
  "mod_consttime ma f a b m =
     (let n = bn_width m in
      in_frame ma
        (op_bind (on_pool (try_op (bn_resized_from_ctx ma a n))) (\<lambda>a.
         op_bind (on_pool (try_op (bn_resized_from_ctx ma b n))) (\<lambda>b.
         op_bind (on_pool (try_op (bn_scratch_space_from_ctx ma n))) (\<lambda>tmp.
         case (a, b, tmp) of
           (Some a, Some b, Some _) \<Rightarrow>
             op_bind (on_number (bn_wexpand ma n)) (\<lambda>_. on_number (\<lambda>r.
               (Some (), r\<lparr>bn_d := put_words 0 (f (take n (bn_d a)) (take n (bn_d b)) (bn_words m)) (bn_d r),
                          bn_width := n, bn_neg := False\<rparr>)))
         | _ \<Rightarrow> op_fail)))))"

definition bn_mod_add_consttime :: "malloc_fn \<Rightarrow> bignum \<Rightarrow> bignum \<Rightarrow> bignum \<Rightarrow> unit pool_op" where
  "bn_mod_add_consttime ma = mod_consttime ma bn_mod_add_words"

definition bn_mod_sub_consttime :: "malloc_fn \<Rightarrow> bignum \<Rightarrow> bignum \<Rightarrow> bignum \<Rightarrow> unit pool_op" where
  "bn_mod_sub_consttime ma = mod_consttime ma bn_mod_sub_words"

definition bn_mod_lshift1_consttime :: "malloc_fn \<Rightarrow> bignum \<Rightarrow> bignum \<Rightarrow> unit pool_op" where
  "bn_mod_lshift1_consttime ma a m = bn_mod_add_consttime ma a a m"

fun mod_doublings :: "malloc_fn \<Rightarrow> bignum \<Rightarrow> nat \<Rightarrow> unit pool_op" where
  "mod_doublings ma m 0 = op_return ()"
| "mod_doublings ma m (Suc n) =
     op_bind (\<lambda>(r, ctx). bn_mod_lshift1_consttime ma r m (r, ctx)) (\<lambda>_. mod_doublings ma m n)"

definition bn_mod_lshift_consttime :: "malloc_fn \<Rightarrow> bignum \<Rightarrow> int \<Rightarrow> bignum \<Rightarrow> unit pool_op" where
  "bn_mod_lshift_consttime ma a n m = op_bind (on_number (BN_copy ma a)) (\<lambda>_. mod_doublings ma m (nat n))"

text \<open>A context of its own for one operation.\<close>

definition with_new_ctx :: "malloc_fn \<Rightarrow> unit pool_op \<Rightarrow> unit bn_op" where
  "with_new_ctx ma m r =
     (case BN_CTX_new ma of
        None \<Rightarrow> (None, r)
      | Some ctx \<Rightarrow> (case m (r, ctx) of (x, r, ctx) \<Rightarrow> (x, r)))"

definition BN_mod_add_quick :: "malloc_fn \<Rightarrow> bignum \<Rightarrow> bignum \<Rightarrow> bignum \<Rightarrow> unit bn_op" where
  "BN_mod_add_quick ma a b m = with_new_ctx ma (bn_mod_add_consttime ma a b m)"

definition BN_mod_sub_quick :: "malloc_fn \<Rightarrow> bignum \<Rightarrow> bignum \<Rightarrow> bignum \<Rightarrow> unit bn_op" where
  "BN_mod_sub_quick ma a b m = with_new_ctx ma (bn_mod_sub_consttime ma a b m)"

definition BN_mod_lshift_quick :: "malloc_fn \<Rightarrow> bignum \<Rightarrow> int \<Rightarrow> bignum \<Rightarrow> unit bn_op" where
  "BN_mod_lshift_quick ma a n m = with_new_ctx ma (bn_mod_lshift_consttime ma a n m)"

definition BN_mod_lshift1_quick :: "malloc_fn \<Rightarrow> bignum \<Rightarrow> bignum \<Rightarrow> unit bn_op" where
  "BN_mod_lshift1_quick ma a m = with_new_ctx ma (bn_mod_lshift1_consttime ma a m)"

text \<open>The operations on any numbers. The result holds the number that \<open>BN_nnmod\<close> reduces in place.\<close>

definition nnmod_in_place :: "malloc_fn \<Rightarrow> bignum \<Rightarrow> unit pool_op" where
  "nnmod_in_place ma m = (\<lambda>(r, ctx). BN_nnmod ma r m (r, ctx))"

definition BN_mod_add :: "malloc_fn \<Rightarrow> bignum \<Rightarrow> bignum \<Rightarrow> bignum \<Rightarrow> unit pool_op" where
  "BN_mod_add ma a b m = op_bind (on_number (BN_add ma a b)) (\<lambda>_. nnmod_in_place ma m)"

definition BN_mod_sub :: "malloc_fn \<Rightarrow> bignum \<Rightarrow> bignum \<Rightarrow> bignum \<Rightarrow> unit pool_op" where
  "BN_mod_sub ma a b m = op_bind (on_number (BN_sub ma a b)) (\<lambda>_. nnmod_in_place ma m)"

definition BN_mod_lshift1 :: "malloc_fn \<Rightarrow> bignum \<Rightarrow> bignum \<Rightarrow> unit pool_op" where
  "BN_mod_lshift1 ma a m = op_bind (on_number (BN_lshift1 ma a)) (\<lambda>_. nnmod_in_place ma m)"

text \<open>\<open>same\<close> says that the two factors are one number.\<close>

definition BN_mod_mul :: "malloc_fn \<Rightarrow> bool \<Rightarrow> bignum \<Rightarrow> bignum \<Rightarrow> bignum \<Rightarrow> unit pool_op" where
  "BN_mod_mul ma same a b m =
     in_frame ma (\<lambda>(r, ctx).
       case BN_CTX_get ma ctx of
         (None, ctx) \<Rightarrow> (None, r, ctx)
       | (Some t, ctx) \<Rightarrow>
           (case with_slot t (if same then BN_sqr ma False a else BN_mul ma False a b) ctx of
              (None, ctx) \<Rightarrow> (None, r, ctx)
            | (Some _, ctx) \<Rightarrow> BN_nnmod ma (slot_number ctx t) m (r, ctx)))"

definition BN_mod_sqr :: "malloc_fn \<Rightarrow> bool \<Rightarrow> bignum \<Rightarrow> bignum \<Rightarrow> unit pool_op" where
  "BN_mod_sqr ma aliased a m = op_bind (BN_sqr ma aliased a) (\<lambda>_ (r, ctx). BN_mod ma r m (r, ctx))"

definition BN_mod_lshift :: "malloc_fn \<Rightarrow> bignum \<Rightarrow> int \<Rightarrow> bignum \<Rightarrow> unit pool_op" where
  "BN_mod_lshift ma a n m =
     op_bind (BN_nnmod ma a m) (\<lambda>_ (r, ctx).
       case (if bn_neg m then map_option (\<lambda>x. x\<lparr>bn_neg := False\<rparr>) (BN_dup ma (Some m)) else Some m) of
         None \<Rightarrow> (None, r, ctx)
       | Some abs_m \<Rightarrow> bn_mod_lshift_consttime ma r n abs_m (r, ctx))"

text \<open>Division without branches: the numbers that hold the quotient, the remainder and the scratch space.\<close>

definition div_ct_numbers :: "malloc_fn \<Rightarrow> bignum \<Rightarrow> bignum \<Rightarrow> (bignum \<times> bignum \<times> bignum, unit) op" where
  "div_ct_numbers ma num dvs = (\<lambda>(q, r, tmp).
     case bn_wexpand ma (bn_width num) q of
       (None, q) \<Rightarrow> (None, q, r, tmp)
     | (Some _, q) \<Rightarrow>
         (case bn_wexpand ma (bn_width dvs) r of
            (None, r) \<Rightarrow> (None, q, r, tmp)
          | (Some _, r) \<Rightarrow>
              (case bn_wexpand ma (bn_width dvs) tmp of
                 (None, tmp) \<Rightarrow> (None, q, r, tmp)
               | (Some _, tmp) \<Rightarrow>
                   let (qs, rs) = div_binary (bn_words dvs) (bn_words num) (replicate (bn_width dvs) 0) in
                   (Some (),
                    q\<lparr>bn_d := put_words 0 qs (bn_d q), bn_width := bn_width num, bn_neg := False\<rparr>,
                    r\<lparr>bn_d := put_words 0 rs (bn_d r), bn_width := bn_width dvs, bn_neg := False\<rparr>, tmp))))"

text \<open>A result that is not asked for, or that is an operand, is computed in a temporary and then copied.\<close>

definition copy_out :: "malloc_fn \<Rightarrow> bool \<Rightarrow> bignum \<Rightarrow> (bignum option, unit) op" where
  "copy_out ma from_temp x out =
     (case out of
        None \<Rightarrow> (Some (), None)
      | Some out \<Rightarrow> if from_temp then (case BN_copy ma x out of (ret, out) \<Rightarrow> (ret, Some out)) else (Some (), Some x))"

definition bn_div_consttime ::
  "malloc_fn \<Rightarrow> bool \<Rightarrow> bool \<Rightarrow> bignum \<Rightarrow> bignum \<Rightarrow> (bignum option \<times> bignum option \<times> bn_ctx, unit) op" where
  "bn_div_consttime ma q_is_operand r_is_operand num dvs = (\<lambda>(quotient, remainder, ctx).
     if bn_neg num \<or> bn_neg dvs then (None, quotient, remainder, ctx)
     else if BN_is_zero dvs then (None, quotient, remainder, ctx)
     else
       let q_temp = (quotient = None \<or> q_is_operand);
           r_temp = (remainder = None \<or> r_is_operand);
           nq = (if q_temp then 1 else 0);
           nr = (if r_temp then 1 else 0) in
       (case ctx_gets ma (nq + nr + 1) (BN_CTX_start ma ctx) of
          (None, ctx) \<Rightarrow> (None, quotient, remainder, BN_CTX_end ctx)
        | (Some slots, ctx) \<Rightarrow>
            let q = (if q_temp then slot_number ctx (slots ! 0) else the quotient);
                r = (if r_temp then slot_number ctx (slots ! nq) else the remainder);
                (x, q, r, tmp) = div_ct_numbers ma num dvs (q, r, slot_number ctx (slots ! (nq + nr)));
                ctx = put_slots slots ((if q_temp then [q] else []) @ (if r_temp then [r] else []) @ [tmp]) ctx in
            if x = None then
              (None, if q_temp then quotient else Some q, if r_temp then remainder else Some r, BN_CTX_end ctx)
            else
              (case copy_out ma q_temp q quotient of
                 (None, quotient) \<Rightarrow> (None, quotient, if r_temp then remainder else Some r, BN_CTX_end ctx)
               | (Some _, quotient) \<Rightarrow>
                   (case copy_out ma r_temp r remainder of
                      (x, remainder) \<Rightarrow> (x, quotient, remainder, BN_CTX_end ctx)))))"

section \<open>Numbers of the context at a given width\<close>

lemma scratch_space_same:
  assumes "malloc_total ma" "ctx_fit e ctx" "e \<le> pool_max" "n \<le> bn_max_words"
  obtains ctx' bn where "bn_scratch_space_from_ctx ma n ctx = (Some (ctx_used ctx), ctx')" "pool_same (Suc e) ctx ctx'"
    "slot ctx' (ctx_used ctx) = Some bn" "bn_ok bn" "\<not> bn_static bn"
proof -
  obtain ctx1 bn where c: "BN_CTX_get ma ctx = (Some (ctx_used ctx), ctx1)" "pool_same (Suc e) ctx ctx1"
    "slot ctx1 (ctx_used ctx) = Some bn" "bn_ok bn" "\<not> bn_static bn"
    by (rule get_same [OF assms(1-3)]) blast
  obtain bn1 where w1: "bn_wexpand ma n bn = (Some (), bn1)" using wexpand_total [OF assms(1) c(5) assms(4)] by blast
  note w = wexpand [OF c(4) w1]
  define bn2 where "bn2 = bn1\<lparr>bn_neg := False, bn_width := n\<rparr>"
  have b: "bn_ok bn2" "\<not> bn_static bn2" using w c(5) by (simp_all add: bn2_def bn_ok_def)
  have "op_bind (bn_wexpand ma n) (\<lambda>_ bn. (Some (), bn\<lparr>bn_neg := False, bn_width := n\<rparr>)) bn = (Some (), bn2)"
    using w1 by (simp add: op_bind_def bn2_def)
  note sl = on_slot_put [where m = "op_bind (bn_wexpand ma n) (\<lambda>_ bn. (Some (), bn\<lparr>bn_neg := False, bn_width := n\<rparr>))", OF c(3) this]
  have "bn_scratch_space_from_ctx ma n ctx = (Some (ctx_used ctx), put_slot (ctx_used ctx) bn2 ctx1)"
    by (simp only: bn_scratch_space_from_ctx_def op_bind_def [of "BN_CTX_get ma"] op_bind_def [of "on_slot _ _"] c(1) sl prod.case option.case op_return_def)
  moreover have "pool_same (Suc e) ctx (put_slot (ctx_used ctx) bn2 ctx1)" by (rule put_same [OF c(2,3) order_refl b])
  moreover have "slot (put_slot (ctx_used ctx) bn2 ctx1) (ctx_used ctx) = Some bn2"
    using put_fit(4) [OF _ c(3) b, of "Suc e"] c(2) by (simp add: pool_same_def)
  ultimately show ?thesis using that b by blast
qed

lemma resized_same:
  assumes "malloc_total ma" "ctx_fit e ctx" "e \<le> pool_max" "n \<le> bn_max_words" "bn_ok bn" "bn_mag bn < weight n"
  obtains ctx' bn' where "bn_resized_from_ctx ma bn n ctx = (Some bn', ctx')" "pool_same (Suc e) ctx ctx'"
    "length (take n (bn_d bn')) = n" "wval (take n (bn_d bn')) = bn_mag bn"
proof (cases "n \<le> bn_width bn")
  case True
  have l: "length (take n (bn_d bn)) = n" using True assms(5) by (simp add: bn_ok_def)
  have "wval (take n (bn_d bn)) = bn_mag bn"
  proof -
    have tk: "take n (bn_d bn) = take n (bn_words bn)" using True by (rule take_words)
    have ln: "length (take n (bn_words bn)) = n" using True assms(5) by simp
    have "bn_mag bn = wval (take n (bn_words bn)) + weight n * wval (drop n (bn_words bn))"
      using wval_take_drop [of "bn_words bn" n] ln by (simp add: bn_mag_def)
    moreover have "wval (take n (bn_words bn)) < weight n" using wval_less [of "take n (bn_words bn)"] ln by simp
    ultimately show ?thesis using assms(6) low_part_iff unfolding tk by (metis add_0_right mult_0_right)
  qed
  moreover have "pool_same (Suc e) ctx ctx" by (rule pool_same_refl [OF ctx_fit_mono [OF assms(2)]]) simp
  ultimately show ?thesis using that [OF _ _ l] True by (simp add: bn_resized_from_ctx_def op_return_def)
next
  case False
  obtain ctx1 x where s: "bn_scratch_space_from_ctx ma n ctx = (Some (ctx_used ctx), ctx1)" "pool_same (Suc e) ctx ctx1"
    "slot ctx1 (ctx_used ctx) = Some x" "bn_ok x" "\<not> bn_static x"
    by (rule scratch_space_same [OF assms(1-4)])
  have rx: "bn_room x (bn_width bn)" using False assms(4) s(5) by (simp add: bn_room_def)
  obtain y where y: "BN_copy ma bn x = (Some (), y)" "bn_ok y" "bn_words y = bn_words bn" "bn_width y = bn_width bn" "bn_static y = bn_static x"
    by (rule copy_total [OF assms(1,5) s(4) rx])
  have ry: "bn_room y n" using assms(4) s(5) y(5) by (simp add: bn_room_def)
  obtain z0 where z0: "bn_wexpand ma n y = (Some (), z0)" by (rule wexpand_room [OF assms(1) ry])
  note w = wexpand [OF y(2) z0]
  let ?z = "replicate (n - bn_width bn) 0"
  define z where "z = z0\<lparr>bn_d := put_words (bn_width z0) ?z (bn_d z0), bn_width := n\<rparr>"
  have le: "bn_width bn + (n - bn_width bn) = n" "bn_width bn \<le> n" "n \<le> length (bn_d z0)" "bn_width z0 = bn_width bn" using False w y(4) by simp_all
  have d: "bn_d z = bn_words bn @ ?z @ drop n (bn_d z0)"
    using le w(3) y(3) by (simp add: z_def put_words_def bn_words_def)
  have lb: "length (bn_words bn) = bn_width bn" using assms(5) by simp
  have t: "take n (bn_d z) = bn_words bn @ ?z" unfolding d using lb le(1,2) by simp
  have okz: "bn_ok z" using arg_cong [OF d, of length] lb le by (simp add: bn_ok_def z_def)
  have nsz: "\<not> bn_static z" using w s(5) y(5) by (simp add: z_def)
  have "bn_resize_words ma n y = (Some (), z)" using False y(4) z0 le(4) by (simp add: bn_resize_words_def op_bind_def z_def)
  then have "op_bind (BN_copy ma bn) (\<lambda>_. bn_resize_words ma n) x = (Some (), z)" using y(1) by (simp add: op_bind_def)
  then have run: "on_slot (ctx_used ctx) (op_bind (BN_copy ma bn) (\<lambda>_. bn_resize_words ma n)) ctx1 = (Some (), put_slot (ctx_used ctx) z ctx1)"
    by (rule on_slot_put [OF s(3)])
  have sz: "slot (put_slot (ctx_used ctx) z ctx1) (ctx_used ctx) = Some z"
    using put_fit(4) [OF _ s(3) okz nsz, of "Suc e"] s(2) by (simp add: pool_same_def)
  have "bn_resized_from_ctx ma bn n ctx = (Some z, put_slot (ctx_used ctx) z ctx1)"
    using False s(1) run sz by (simp add: bn_resized_from_ctx_def op_bind_def slot_number_def)
  moreover have "pool_same (Suc e) ctx (put_slot (ctx_used ctx) z ctx1)" by (rule put_same [OF s(2,3) order_refl okz nsz])
  moreover have "length (take n (bn_d z)) = n" "wval (take n (bn_d z)) = bn_mag bn"
    unfolding t using lb le(2) by (simp_all add: wval_append bn_mag_def)
  ultimately show ?thesis by (rule that)
qed

section \<open>Operations on operands below the modulus\<close>

text \<open>What \<open>mod_consttime\<close> relies on of the operation on the words: \<open>g\<close> is the number it computes.\<close>

locale residue_words =
  fixes f :: "u64 list \<Rightarrow> u64 list \<Rightarrow> u64 list \<Rightarrow> u64 list" and g :: "nat \<Rightarrow> nat \<Rightarrow> nat \<Rightarrow> nat"
  assumes f_length: "length a = length m \<Longrightarrow> length b = length m \<Longrightarrow> wval a < wval m \<Longrightarrow> wval b < wval m \<Longrightarrow> length (f a b m) = length m"
    and f_value: "length a = length m \<Longrightarrow> length b = length m \<Longrightarrow> wval a < wval m \<Longrightarrow> wval b < wval m \<Longrightarrow> wval (f a b m) = g (wval a) (wval b) (wval m)"
begin

lemma consttime_runs:
  assumes "malloc_total ma" "bn_ok a" "bn_ok b" "bn_ok m" "bn_mag a < bn_mag m" "bn_mag b < bn_mag m" "bn_width m \<le> bn_max_words"
    "bn_ok r" "bn_room r (bn_width m)" "ctx_fit e ctx" "e + 4 \<le> pool_max"
  obtains r' ctx' where "mod_consttime ma f a b m (r, ctx) = (Some (), r', ctx')" "bn_ok r'" "bn_width r' = bn_width m"
    "bn_value r' = int (g (bn_mag a) (bn_mag b) (bn_mag m))" "bn_static r' = bn_static r" "pool_restored (e + 4) ctx ctx'"
proof -
  let ?n = "bn_width m" and ?c = "BN_CTX_start ma ctx"
  have e: "e \<le> pool_max" "Suc e \<le> pool_max" "Suc (Suc e) \<le> pool_max" "Suc (Suc (Suc e)) \<le> pool_max" using assms(11) by simp_all
  have mw: "bn_mag m < weight ?n" using wval_less [of "bn_words m"] assms(4) by (simp add: bn_mag_def)
  have aw: "bn_mag a < weight ?n" "bn_mag b < weight ?n" using assms(5,6) mw by linarith+
  note sf = start_fit(1) [OF assms(1,10) e(1)]
  obtain c1 a' where a: "bn_resized_from_ctx ma a ?n ?c = (Some a', c1)" "pool_same (Suc (Suc e)) ?c c1" "length (take ?n (bn_d a')) = ?n" "wval (take ?n (bn_d a')) = bn_mag a"
    by (rule resized_same [OF assms(1) sf e(2) assms(7,2) aw(1)])
  have f1: "ctx_fit (Suc (Suc e)) c1" using a(2) by (simp add: pool_same_def)
  obtain c2 b' where b: "bn_resized_from_ctx ma b ?n c1 = (Some b', c2)" "pool_same (Suc (Suc (Suc e))) c1 c2" "length (take ?n (bn_d b')) = ?n" "wval (take ?n (bn_d b')) = bn_mag b"
    by (rule resized_same [OF assms(1) f1 e(3) assms(7,3) aw(2)])
  have f2: "ctx_fit (Suc (Suc (Suc e))) c2" using b(2) by (simp add: pool_same_def)
  obtain c3 t i where t: "bn_scratch_space_from_ctx ma ?n c2 = (Some i, c3)" "pool_same (Suc (Suc (Suc (Suc e)))) c2 c3"
    by (rule scratch_space_same [OF assms(1) f2 e(4) assms(7)])
  obtain r1 where r1: "bn_wexpand ma ?n r = (Some (), r1)" by (rule wexpand_room [OF assms(1,9)])
  note w = wexpand [OF assms(8) r1]
  define ws where "ws = f (take ?n (bn_d a')) (take ?n (bn_d b')) (bn_words m)"
  have lm: "length (bn_words m) = ?n" using assms(4) by simp
  have v: "length ws = ?n" "wval ws = g (bn_mag a) (bn_mag b) (bn_mag m)"
    using f_length [of "take ?n (bn_d a')" "bn_words m" "take ?n (bn_d b')"] f_value [of "take ?n (bn_d a')" "bn_words m" "take ?n (bn_d b')"]
      a(3,4) b(3,4) lm assms(5,6) by (simp_all add: ws_def bn_mag_def)
  define r' where "r' = r1\<lparr>bn_d := put_words 0 ws (bn_d r1), bn_width := ?n, bn_neg := False\<rparr>"
  have le: "?n \<le> length (bn_d r1)" using w by simp
  have ok: "bn_ok r'" "bn_words r' = ws"
    using put_words_0 [of ws "bn_d r1"] v(1) le by (simp_all add: r'_def bn_ok_def bn_words_def)
  have p: "pool_same (e + 4) ?c c3" using pool_same_trans [OF pool_same_trans [OF a(2) b(2)] t(2)] by (simp add: eval_nat_numeral)
  have "mod_consttime ma f a b m (r, ctx) = (Some (), r', BN_CTX_end c3)"
    using r1 by (simp add: mod_consttime_def Let_def in_frame_def op_bind_def on_pool_def on_number_def try_op_def a(1) b(1) t(1) r'_def ws_def)
  moreover have "bn_value r' = int (g (bn_mag a) (bn_mag b) (bn_mag m))" using ok v by (simp add: bn_value_def bn_mag_def) (simp add: r'_def)
  moreover have "bn_static r' = bn_static r" "bn_width r' = ?n" using w by (simp_all add: r'_def)
  ultimately show ?thesis using that ok(1) frame_restored [OF assms(1,10) e(1) p] by blast
qed

end

interpretation madd: residue_words bn_mod_add_words "\<lambda>a b m. (a + b) mod m"
  by unfold_locales (simp_all add: mod_add_words_value)

interpretation msub: residue_words bn_mod_sub_words "\<lambda>a b m. nat ((int a - int b) mod int m)"
  by unfold_locales (simp_all add: mod_sub_words_value(1), metis mod_sub_words_value(2) nat_int)

section \<open>Operations that reduce\<close>

lemma pool_restored_trans:
  "pool_restored e ctx ctx1 \<Longrightarrow> pool_restored e' ctx1 ctx2 \<Longrightarrow> pool_restored e' ctx ctx2"
  by (auto simp: pool_restored_def pool_same_def)

lemma nnmod_in_place_run:
  assumes "malloc_total ma" "bn_ok m" "bn_mag m \<noteq> 0" "room_to_divide m" "usable r" "room_to_divide r" "ctx_fit e ctx" "e + 5 \<le> pool_max"
  obtains r' ctx' where "nnmod_in_place ma m (r, ctx) = (Some (), r', ctx')" "usable r'" "bn_value r' = bn_value r mod \<bar>bn_value m\<bar>"
    "pool_restored (e + 5) ctx ctx'"
proof -
  have ok: "bn_ok r" using assms(5) by (simp add: usable_def)
  obtain r' ctx' where n: "BN_nnmod ma r m (r, ctx) = (Some (), r', ctx')" "usable r'" "bn_value r' = bn_value r mod \<bar>bn_value m\<bar>"
    "pool_restored (e + 5) ctx ctx'"
    by (rule BN_nnmod_run [OF assms(1) ok assms(2,3,6,4,5,7,8)])
  show ?thesis by (rule that [OF _ n(2-4)]) (simp add: nnmod_in_place_def n(1))
qed

text \<open>Room for a sum to be reduced.\<close>

definition room_to_add :: "bignum \<Rightarrow> bool" where
  "room_to_add bn \<longleftrightarrow> bn_width bn + 9 \<le> bn_max_words"

lemma room_add_divide: "room_to_add bn \<Longrightarrow> room_to_divide bn"
  by (simp add: room_to_add_def room_to_divide_def)

lemma reduce_run:
  assumes "malloc_total ma" "bn_ok m" "bn_mag m \<noteq> 0" "room_to_divide m" "ctx_fit e ctx" "e + 5 \<le> pool_max"
    "f r = (Some (), r1)" "bn_ok r1" "bn_static r1 = bn_static r" "\<not> bn_static r" "bn_width r1 + 8 \<le> bn_max_words"
  shows "\<exists>r' ctx'. op_bind (on_number f) (\<lambda>_. nnmod_in_place ma m) (r, ctx) = (Some (), r', ctx') \<and> usable r'
    \<and> bn_value r' = bn_value r1 mod \<bar>bn_value m\<bar> \<and> pool_restored (e + 5) ctx ctx'"
proof -
  have u: "usable r1" "room_to_divide r1" using assms(8-11) by (simp_all add: usable_def room_to_divide_def)
  show ?thesis
    by (rule nnmod_in_place_run [OF assms(1-4) u assms(5,6)]) (simp add: op_bind_def on_number_def assms(7))
qed

lemma mod_sum_run:
  assumes "malloc_total ma" "bn_ok a" "bn_ok b" "bn_ok m" "bn_mag m \<noteq> 0" "room_to_add a" "room_to_add b" "room_to_divide m" "usable r"
    "ctx_fit e ctx" "e + 5 \<le> pool_max"
  shows "\<exists>r' ctx'. BN_mod_add ma a b m (r, ctx) = (Some (), r', ctx') \<and> usable r'
      \<and> bn_value r' = (bn_value a + bn_value b) mod \<bar>bn_value m\<bar> \<and> pool_restored (e + 5) ctx ctx'"
    "\<exists>r' ctx'. BN_mod_sub ma a b m (r, ctx) = (Some (), r', ctx') \<and> usable r'
      \<and> bn_value r' = (bn_value a - bn_value b) mod \<bar>bn_value m\<bar> \<and> pool_restored (e + 5) ctx ctx'"
proof -
  have u: "bn_ok r" "\<not> bn_static r" using assms(9) by (simp_all add: usable_def)
  have mx: "max (bn_width a) (bn_width b) + 9 \<le> bn_max_words" using assms(6,7) by (simp add: room_to_add_def)
  then have room: "bn_room r (max (bn_width a) (bn_width b) + 1)" using u(2) by (simp add: bn_room_def)
  note s = signed_sum_run [OF assms(1-3) u(1) room]
  obtain x where x: "BN_add ma a b r = (Some (), x)" "bn_ok x" "bn_value x = bn_value a + bn_value b" using s(1) by blast
  have wx: "bn_width x + 8 \<le> bn_max_words" using sum_keeps(1) [OF x(1)] mx by linarith
  show "\<exists>r' ctx'. BN_mod_add ma a b m (r, ctx) = (Some (), r', ctx') \<and> usable r'
      \<and> bn_value r' = (bn_value a + bn_value b) mod \<bar>bn_value m\<bar> \<and> pool_restored (e + 5) ctx ctx'"
    unfolding BN_mod_add_def x(3) [symmetric]
    by (rule reduce_run [where f = "BN_add ma a b", OF assms(1,4,5,8,10,11) x(1,2) conjunct1 [OF sum_keeps(1) [OF x(1)]] u(2) wx])
  obtain y where y: "BN_sub ma a b r = (Some (), y)" "bn_ok y" "bn_value y = bn_value a - bn_value b" using s(2) by blast
  have wy: "bn_width y + 8 \<le> bn_max_words" using sum_keeps(2) [OF y(1)] mx by linarith
  show "\<exists>r' ctx'. BN_mod_sub ma a b m (r, ctx) = (Some (), r', ctx') \<and> usable r'
      \<and> bn_value r' = (bn_value a - bn_value b) mod \<bar>bn_value m\<bar> \<and> pool_restored (e + 5) ctx ctx'"
    unfolding BN_mod_sub_def y(3) [symmetric]
    by (rule reduce_run [where f = "BN_sub ma a b", OF assms(1,4,5,8,10,11) y(1,2) conjunct1 [OF sum_keeps(2) [OF y(1)]] u(2) wy])
qed

lemma mod_lshift1_run:
  assumes "malloc_total ma" "bn_ok a" "bn_ok m" "bn_mag m \<noteq> 0" "room_to_add a" "room_to_divide m" "usable r" "ctx_fit e ctx" "e + 5 \<le> pool_max"
  shows "\<exists>r' ctx'. BN_mod_lshift1 ma a m (r, ctx) = (Some (), r', ctx') \<and> usable r'
      \<and> bn_value r' = (2 * bn_value a) mod \<bar>bn_value m\<bar> \<and> pool_restored (e + 5) ctx ctx'"
proof -
  have u: "bn_ok r" "\<not> bn_static r" using assms(7) by (simp_all add: usable_def)
  have room: "bn_room r (bn_width a + 1)" using u(2) assms(5) by (simp add: bn_room_def room_to_add_def)
  obtain x where x: "BN_lshift1 ma a r = (Some (), x)" "bn_ok x" "bn_value x = 2 * bn_value a" by (rule lshift1_run [OF assms(1,2) u(1) room])
  note k = lshift1_keeps [OF x(1)]
  have wx: "bn_width x + 8 \<le> bn_max_words" using k assms(5) by (simp add: room_to_add_def)
  show ?thesis unfolding BN_mod_lshift1_def x(3) [symmetric]
    by (rule reduce_run [where f = "BN_lshift1 ma a", OF assms(1,3,4,6,8,9) x(1,2) conjunct1 [OF k] u(2) wx])
qed

lemma product_room:
  assumes "8 * max (bn_width a) (bn_width b) \<le> bn_max_words" "bn_ok x" "\<not> bn_static x" "bn_width x \<le> bn_width a + bn_width b"
  shows "usable x" "room_to_divide x"
  using assms by (simp_all add: usable_def room_to_divide_def bn_max_words_def)

lemma nonneg_smod: "0 \<le> x \<Longrightarrow> x smod y = x mod \<bar>y\<bar>" for x y :: int
  by (cases "x = 0") (simp_all add: signed_modulo_int_def)

lemma mod_sqr_run:
  assumes "malloc_total ma" "bn_ok a" "bn_ok m" "bn_mag m \<noteq> 0" "8 * bn_width a \<le> bn_max_words" "room_to_divide m" "usable r"
    "ctx_fit e ctx" "e + 8 \<le> pool_max"
  shows "\<exists>r' ctx'. BN_mod_sqr ma aliased a m (r, ctx) = (Some (), r', ctx') \<and> usable r'
      \<and> bn_value r' = (bn_value a * bn_value a) mod \<bar>bn_value m\<bar> \<and> pool_restored (e + 8) ctx ctx'"
proof -
  have u: "bn_ok r" "\<not> bn_static r" and e: "e + 3 \<le> pool_max" "e + 3 + 5 \<le> pool_max" using assms(7,9) by (simp_all add: usable_def)
  obtain x c1 where x: "BN_sqr ma aliased a (r, ctx) = (Some (), x, c1)" "bn_ok x" "bn_value x = bn_value a * bn_value a"
    "pool_restored (e + 3) ctx c1" "\<not> bn_static x" "bn_width x \<le> bn_width a + bn_width a"
    by (rule BN_sqr_run [OF assms(1,2) u assms(5,8) e(1)])
  have mx: "8 * max (bn_width a) (bn_width a) \<le> bn_max_words" using assms(5) by simp
  note ux = product_room [OF mx x(2,5,6)]
  have f1: "ctx_fit (e + 3) c1" using x(4) by (simp add: pool_restored_def pool_same_def)
  obtain r' c2 where r': "BN_mod ma x m (x, c1) = (Some (), r', c2)" "usable r'" "bn_value r' = bn_value x smod bn_value m"
    "pool_restored (e + 3 + 5) c1 c2"
    by (rule BN_mod_run [OF assms(1) x(2) assms(3,4) ux(2) assms(6) ux(1) f1 e(2)])
  have "BN_mod_sqr ma aliased a m (r, ctx) = (Some (), r', c2)" using x(1) r'(1) by (simp add: BN_mod_sqr_def op_bind_def)
  moreover have "bn_value r' = (bn_value a * bn_value a) mod \<bar>bn_value m\<bar>" using r'(3) x(3) by (simp add: nonneg_smod)
  moreover have "pool_restored (e + 8) ctx c2" using pool_restored_trans [OF x(4) r'(4)] by (simp add: eval_nat_numeral)
  ultimately show ?thesis using r'(2) by blast
qed

lemma mod_mul_run:
  assumes "malloc_total ma" "bn_ok a" "bn_ok b" "bn_ok m" "bn_mag m \<noteq> 0" "8 * max (bn_width a) (bn_width b) \<le> bn_max_words"
    "room_to_divide m" "usable r" "same \<Longrightarrow> a = b" "ctx_fit e ctx" "e + 10 \<le> pool_max"
  shows "\<exists>r' ctx'. BN_mod_mul ma same a b m (r, ctx) = (Some (), r', ctx') \<and> usable r'
      \<and> bn_value r' = (bn_value a * bn_value b) mod \<bar>bn_value m\<bar> \<and> pool_restored (e + 10) ctx ctx'"
proof -
  let ?c = "BN_CTX_start ma ctx" and ?u = "ctx_used ctx" and ?f = "if same then BN_sqr ma False a else BN_mul ma False a b"
  have e: "e \<le> pool_max" "Suc e \<le> pool_max" "Suc (Suc e) + 3 \<le> pool_max" "Suc (Suc e) + 3 + 5 \<le> pool_max" using assms(11) by simp_all
  note sf = start_fit [OF assms(1,10) e(1)]
  obtain c1 bn where g: "BN_CTX_get ma ?c = (Some ?u, c1)" "pool_same (Suc (Suc e)) ?c c1" "ctx_used c1 = ctx_used ?c + 1"
    "slot c1 ?u = Some bn" "bn_ok bn" "\<not> bn_static bn"
    by (rule get_same [OF assms(1) sf(1) e(2), unfolded sf(3)]) (use sf(3) in simp)
  have f1: "ctx_fit (Suc (Suc e)) c1" using g(2) by (simp add: pool_same_def)
  have "\<exists>x c2. ?f (bn, c1) = (Some (), x, c2) \<and> bn_ok x \<and> bn_value x = bn_value a * bn_value b
    \<and> pool_restored (Suc (Suc e) + 3) c1 c2 \<and> \<not> bn_static x \<and> bn_width x \<le> bn_width a + bn_width b"
  proof (cases same)
    case True
    have m8: "8 * bn_width a \<le> bn_max_words" using assms(6) by simp
    show ?thesis using True assms(9) BN_sqr_run [OF assms(1,2) g(5,6) m8 f1 e(3), of False] by simp metis
  next
    case False
    then show ?thesis using BN_mul_run [OF assms(1-3) g(5,6) assms(6) f1 e(3), of False] by simp metis
  qed
  then obtain x c2 where x: "?f (bn, c1) = (Some (), x, c2)" "bn_ok x" "bn_value x = bn_value a * bn_value b"
    "pool_restored (Suc (Suc e) + 3) c1 c2" "\<not> bn_static x" "bn_width x \<le> bn_width a + bn_width b" by blast
  note ux = product_room [OF assms(6) x(2,5,6)]
  have s2: "slot c2 ?u = Some bn" using x(4) g(3,4) sf(3) by (simp add: pool_restored_def pool_same_def)
  have p2: "pool_same (Suc (Suc e) + 3) ?c c2" using pool_same_trans [OF g(2)] x(4) by (simp add: pool_restored_def)
  define c3 where "c3 = put_slot ?u x c2"
  have p3: "pool_same (Suc (Suc e) + 3) ?c c3" unfolding c3_def by (rule put_same [OF p2 s2 _ x(2,5)]) (simp add: sf(3))
  have f3: "ctx_fit (Suc (Suc e) + 3) c3" and f2: "ctx_fit (Suc (Suc e) + 3) c2" using p3 p2 by (simp_all add: pool_same_def)
  have s3: "slot_number c3 ?u = x" using put_fit(4) [OF f2 s2 x(2,5)] by (simp add: c3_def slot_number_def)
  obtain r' c4 where r': "BN_nnmod ma x m (r, c3) = (Some (), r', c4)" "usable r'" "bn_value r' = bn_value x mod \<bar>bn_value m\<bar>"
    "pool_restored (Suc (Suc e) + 3 + 5) c3 c4"
    by (rule BN_nnmod_run [OF assms(1) x(2) assms(4,5) ux(2) assms(7,8) f3 e(4)])
  have p4: "pool_same (e + 10) ?c c4" using pool_same_trans [OF p3] r'(4) by (simp add: pool_restored_def eval_nat_numeral)
  have ws: "with_slot ?u ?f c1 = (Some (), c3)" using g(4) x(1) by (simp only: with_slot_def option.case prod.case c3_def)
  have "BN_mod_mul ma same a b m (r, ctx) = (Some (), r', BN_CTX_end c4)"
    unfolding BN_mod_mul_def in_frame_def prod.case g(1) option.case ws s3 r'(1) by simp
  then show ?thesis using r'(2,3) x(3) frame_restored [OF assms(1,10) e(1) p4] by auto
qed

section \<open>Shifts modulo a number\<close>

lemma lshift1_consttime_run:
  assumes "malloc_total ma" "bn_ok a" "bn_ok m" "bn_mag a < bn_mag m" "bn_width m \<le> bn_max_words"
    "bn_ok r" "bn_room r (bn_width m)" "ctx_fit e ctx" "e + 4 \<le> pool_max"
  obtains r' ctx' where "bn_mod_lshift1_consttime ma a m (r, ctx) = (Some (), r', ctx')" "bn_ok r'" "bn_width r' = bn_width m"
    "bn_value r' = int ((bn_mag a * 2) mod bn_mag m)" "bn_static r' = bn_static r" "ctx_fit e ctx'" "pool_restored e ctx ctx'"
proof -
  obtain r' ctx' where r: "mod_consttime ma bn_mod_add_words a a m (r, ctx) = (Some (), r', ctx')" "bn_ok r'" "bn_width r' = bn_width m"
    "bn_value r' = int ((bn_mag a + bn_mag a) mod bn_mag m)" "bn_static r' = bn_static r" "pool_restored (e + 4) ctx ctx'"
    by (rule madd.consttime_runs [OF assms(1,2,2,3,4,4,5-9)])
  show ?thesis
    by (rule that [OF _ r(2,3) _ r(5) pool_restored_fit [OF assms(8) r(6)]])
       (use r(1,4) in \<open>simp_all add: bn_mod_lshift1_consttime_def bn_mod_add_consttime_def mult_2_right\<close>)
qed

lemma mag_of_nonneg: "bn_value r = int k \<Longrightarrow> bn_mag r = k"
  by (simp add: bn_value_def split: if_splits)

lemma wexpand_length: "bn_wexpand ma n bn = (Some u, bn') \<Longrightarrow> length (bn_d bn) \<le> length (bn_d bn')"
  by (auto simp: bn_wexpand_def split: if_splits option.splits)

lemma copy_length:
  assumes "bn_ok src" "bn_ok r" "BN_copy ma src r = (Some u, r')"
  shows "length (bn_d r) \<le> length (bn_d r')"
proof -
  obtain r1 where r1: "bn_wexpand ma (bn_width src) r = (Some (), r1)" "bn_d r' = put_words 0 (take (bn_width src) (bn_d src)) (bn_d r1)"
    using assms(3) by (auto simp: BN_copy_def op_bind_eq_Some)
  have "length (bn_d r') = length (bn_d r1) \<or> bn_width src > length (bn_d r1)"
    using r1(2) assms(1) by (auto simp: put_words_def bn_ok_def)
  moreover have "bn_width src \<le> length (bn_d r1)" by (rule wexpand(2) [OF assms(2) r1(1)])
  ultimately show ?thesis using wexpand_length [OF r1(1)] by simp
qed

lemma doublings_run:
  assumes "malloc_total ma" "bn_ok m" "bn_width m \<le> bn_max_words" "bn_ok r" "bn_mag r < bn_mag m" "bn_room r (bn_width m)"
    "ctx_fit e ctx" "e + 4 \<le> pool_max"
  shows "\<exists>r' ctx'. mod_doublings ma m n (r, ctx) = (Some (), r', ctx') \<and> bn_ok r' \<and> bn_static r' = bn_static r
    \<and> (if n = 0 then r' = r else bn_width r' = bn_width m \<and> bn_value r' = int ((bn_mag r * 2 ^ n) mod bn_mag m))
    \<and> pool_restored e ctx ctx'"
  using assms(4-7)
proof (induction n arbitrary: r ctx)
  case 0
  then have "pool_restored e ctx ctx" by (simp add: pool_restored_def pool_same_refl)
  then show ?case using 0 by (auto simp: op_return_def)
next
  case (Suc n)
  obtain r1 c1 where 1: "bn_mod_lshift1_consttime ma r m (r, ctx) = (Some (), r1, c1)" "bn_ok r1" "bn_width r1 = bn_width m"
    "bn_value r1 = int ((bn_mag r * 2) mod bn_mag m)" "bn_static r1 = bn_static r" "ctx_fit e c1" "pool_restored e ctx c1"
    by (rule lshift1_consttime_run [OF assms(1) Suc.prems(1) assms(2) Suc.prems(2) assms(3) Suc.prems(1,3,4) assms(8)])
  have m: "bn_mag r1 = (bn_mag r * 2) mod bn_mag m" by (rule mag_of_nonneg [OF 1(4)])
  have p: "bn_mag r1 < bn_mag m" "bn_room r1 (bn_width m)" using Suc.prems(2) 1(2,3) by (simp_all add: m bn_room_def bn_ok_def)
  obtain r2 c2 where 2: "mod_doublings ma m n (r1, c1) = (Some (), r2, c2)" "bn_ok r2" "bn_static r2 = bn_static r1"
    "if n = 0 then r2 = r1 else bn_width r2 = bn_width m \<and> bn_value r2 = int ((bn_mag r1 * 2 ^ n) mod bn_mag m)" "pool_restored e c1 c2"
    using Suc.IH [OF 1(2) p 1(6)] by blast
  have "(bn_mag r1 * 2 ^ n) mod bn_mag m = (bn_mag r * 2 ^ Suc n) mod bn_mag m"
    unfolding m by (simp add: mod_simps mult.assoc)
  then have "bn_width r2 = bn_width m \<and> bn_value r2 = int ((bn_mag r * 2 ^ Suc n) mod bn_mag m)"
    using 2(4) 1(3,4) m by (cases "n = 0") simp_all
  moreover have "mod_doublings ma m (Suc n) (r, ctx) = (Some (), r2, c2)" using 1(1) 2(1) by (simp add: op_bind_def)
  ultimately show ?case using 2(2,3) 1(5) pool_restored_trans [OF 1(7) 2(5)] by auto
qed

text \<open>The shift of a number that is below the modulus.\<close>

lemma lshift_consttime_run:
  assumes "malloc_total ma" "bn_ok a" "bn_ok m" "bn_mag a < bn_mag m" "bn_width m \<le> bn_max_words"
    "bn_ok r" "bn_room r (max (bn_width a) (bn_width m))" "ctx_fit e ctx" "e + 4 \<le> pool_max"
  shows "\<exists>r' ctx'. bn_mod_lshift_consttime ma a (int n) m (r, ctx) = (Some (), r', ctx') \<and> bn_ok r' \<and> bn_static r' = bn_static r
    \<and> (if n = 0 then bn_width r' = bn_width a \<and> bn_value r' = bn_value a
       else bn_width r' = bn_width m \<and> bn_value r' = int ((bn_mag a * 2 ^ n) mod bn_mag m))
    \<and> pool_restored e ctx ctx'"
proof -
  have ra: "bn_room r (bn_width a)" using assms(7) by (rule bn_room_mono) simp
  obtain r1 where r1: "BN_copy ma a r = (Some (), r1)" "bn_ok r1" "bn_words r1 = bn_words a" "bn_neg r1 = bn_neg a"
    "bn_width r1 = bn_width a" "bn_static r1 = bn_static r"
    by (rule copy_total [OF assms(1,2,6) ra])
  have v: "bn_mag r1 = bn_mag a" "bn_value r1 = bn_value a" using r1(3,4) by (simp_all add: bn_mag_def bn_value_def)
  have rm: "bn_room r1 (bn_width m)"
    using assms(5,7) r1(2,5,6) copy_length [OF assms(2,6) r1(1)] by (auto simp: bn_room_def)
  have lt: "bn_mag r1 < bn_mag m" using v assms(4) by simp
  obtain r2 c2 where "mod_doublings ma m n (r1, ctx) = (Some (), r2, c2)" "bn_ok r2" "bn_static r2 = bn_static r1"
    "if n = 0 then r2 = r1 else bn_width r2 = bn_width m \<and> bn_value r2 = int ((bn_mag r1 * 2 ^ n) mod bn_mag m)" "pool_restored e ctx c2"
    using doublings_run [OF assms(1,3,5) r1(2) lt rm assms(8,9), of n] by blast
  then show ?thesis using r1(1,5,6) v
    by (auto simp: bn_mod_lshift_consttime_def op_bind_def on_number_def split: if_splits)
qed

lemma dup_total:
  assumes "malloc_total ma" "bn_ok a" "bn_width a \<le> bn_max_words"
  obtains b where "BN_dup ma (Some a) = Some b" "bn_ok b" "bn_words b = bn_words a" "bn_width b = bn_width a" "bn_neg b = bn_neg a"
    "\<not> bn_static b"
proof -
  have i: "bn_ok BN_init" "bn_room BN_init (bn_width a)" using assms(3) by (simp_all add: BN_init_def bn_ok_def bn_room_def)
  obtain b where "BN_copy ma a BN_init = (Some (), b)" "bn_ok b" "bn_words b = bn_words a" "bn_neg b = bn_neg a"
    "bn_width b = bn_width a" "bn_static b = bn_static BN_init"
    by (rule copy_total [OF assms(1,2) i])
  then show ?thesis using that new_total [OF assms(1)] by (simp add: BN_dup_def BN_init_def)
qed

lemma mod_lshift_run:
  assumes "malloc_total ma" "bn_ok a" "bn_ok m" "bn_mag m \<noteq> 0" "room_to_divide a" "room_to_divide m" "usable r"
    "ctx_fit e ctx" "e + 5 \<le> pool_max"
  shows "\<exists>r' ctx'. BN_mod_lshift ma a (int n) m (r, ctx) = (Some (), r', ctx') \<and> usable r'
      \<and> bn_value r' = (bn_value a * 2 ^ n) mod \<bar>bn_value m\<bar> \<and> pool_restored (e + 5) ctx ctx'"
proof -
  have e: "e + 4 \<le> pool_max" using assms(9) by simp
  have mw: "bn_width m < bn_max_words" "bn_width m \<le> bn_max_words" using assms(6) by (simp_all add: room_to_divide_def)
  obtain r1 c1 where 1: "BN_nnmod ma a m (r, ctx) = (Some (), r1, c1)" "usable r1" "bn_value r1 = bn_value a mod \<bar>bn_value m\<bar>"
    "pool_restored (e + 5) ctx c1"
    by (rule BN_nnmod_run [OF assms(1-9)])
  obtain d where d: "BN_dup ma (Some m) = Some d" "bn_ok d" "bn_words d = bn_words m" "bn_width d = bn_width m"
    by (rule dup_total [OF assms(1,3) mw(2)])
  define am where "am = (if bn_neg m then d\<lparr>bn_neg := False\<rparr> else m)"
  have am: "(if bn_neg m then map_option (\<lambda>x. x\<lparr>bn_neg := False\<rparr>) (BN_dup ma (Some m)) else Some m) = Some am"
    "bn_ok am" "bn_mag am = bn_mag m" "bn_width am = bn_width m"
    using d assms(3) by (simp_all add: am_def bn_ok_def bn_mag_def bn_words_def)
  have pos: "\<bar>bn_value m\<bar> = int (bn_mag m)" by (simp add: bn_value_def)
  then have v1: "bn_value r1 = int (nat (bn_value a mod int (bn_mag m)))" using 1(3) assms(4) by simp
  have m1: "bn_mag r1 = nat (bn_value a mod int (bn_mag m))" by (rule mag_of_nonneg [OF v1])
  then have i1: "int (bn_mag r1) = bn_value a mod int (bn_mag m)" using assms(4) by simp
  have lt: "bn_mag r1 < bn_mag am" using m1 assms(4) am(3) by (simp add: nat_less_iff)
  have u: "bn_ok r1" "\<not> bn_static r1" "bn_width r1 < bn_max_words" using 1(2) by (simp_all add: usable_def)
  have room: "bn_room r1 (max (bn_width r1) (bn_width am))" using u mw am(4) by (simp add: bn_room_def)
  have f1: "ctx_fit e c1" "pool_restored e ctx c1" using pool_restored_fit [OF assms(8) 1(4)] by simp_all
  obtain r2 c2 where 2: "bn_mod_lshift_consttime ma r1 (int n) am (r1, c1) = (Some (), r2, c2)" "bn_ok r2" "bn_static r2 = bn_static r1"
    "if n = 0 then bn_width r2 = bn_width r1 \<and> bn_value r2 = bn_value r1
       else bn_width r2 = bn_width am \<and> bn_value r2 = int ((bn_mag r1 * 2 ^ n) mod bn_mag am)" "pool_restored e c1 c2"
    using lshift_consttime_run [OF assms(1) u(1) am(2) lt _ u(1) room f1(1) e, of n] am(4) mw(2) by auto
  have "bn_value r2 = (bn_value a * 2 ^ n) mod \<bar>bn_value m\<bar>"
  proof (cases "n = 0")
    case True
    then show ?thesis using 2(4) 1(3) by simp
  next
    case False
    then have "bn_value r2 = (int (bn_mag r1) * 2 ^ n) mod int (bn_mag m)" using 2(4) am(3) by (simp add: zmod_int)
    then show ?thesis unfolding i1 pos by (simp add: mod_simps)
  qed
  moreover have "usable r2" using 2(2-4) u mw am(4) by (simp add: usable_def split: if_splits)
  moreover have "pool_restored (e + 5) ctx c2"
    using pool_restored_trans [OF f1(2) 2(5)] ctx_fit_mono [of e c2 "e + 5"] by (simp add: pool_restored_def pool_same_def)
  moreover have "BN_mod_lshift ma a (int n) m (r, ctx) = (Some (), r2, c2)"
    using 1(1) 2(1) am(1) by (simp add: BN_mod_lshift_def op_bind_def)
  ultimately show ?thesis by blast
qed

section \<open>Division without branches\<close>

text \<open>A result of a given width.\<close>

definition holds_at :: "nat \<Rightarrow> nat \<Rightarrow> bignum \<Rightarrow> bool" where
  "holds_at w v x \<longleftrightarrow> bn_ok x \<and> \<not> bn_static x \<and> \<not> bn_neg x \<and> bn_width x = w \<and> bn_mag x = v"

definition holds_opt :: "bignum option \<Rightarrow> nat \<Rightarrow> nat \<Rightarrow> bignum option \<Rightarrow> bool" where
  "holds_opt old w v new \<longleftrightarrow> (case (old, new) of (None, None) \<Rightarrow> True | (Some _, Some x) \<Rightarrow> holds_at w v x | _ \<Rightarrow> False)"

lemma stored_at:
  assumes "length ws = n" "bn_ok x" "bn_wexpand ma n x = (Some (), x1)" "\<not> bn_static x"
  shows "holds_at n (wval ws) (x1\<lparr>bn_d := put_words 0 ws (bn_d x1), bn_width := n, bn_neg := False\<rparr>)"
  using wexpand [OF assms(2,3)] put_words_0 [of ws "bn_d x1"] assms(1,4)
  by (simp add: holds_at_def bn_ok_def bn_mag_def bn_words_def)

lemma div_ct_numbers_run:
  assumes "malloc_total ma" "bn_ok num" "bn_ok dvs" "bn_mag dvs \<noteq> 0" "bn_width num \<le> bn_max_words" "bn_width dvs \<le> bn_max_words"
    "usable q" "usable r" "usable tmp"
  obtains q' r' tmp' where "div_ct_numbers ma num dvs (q, r, tmp) = (Some (), q', r', tmp')"
    "holds_at (bn_width num) (bn_mag num div bn_mag dvs) q'" "holds_at (bn_width dvs) (bn_mag num mod bn_mag dvs) r'"
    "bn_ok tmp'" "\<not> bn_static tmp'"
proof -
  have u: "bn_ok q" "\<not> bn_static q" "bn_ok r" "\<not> bn_static r" "bn_ok tmp" "\<not> bn_static tmp" using assms(7-9) by (simp_all add: usable_def)
  obtain q1 where q1: "bn_wexpand ma (bn_width num) q = (Some (), q1)" using wexpand_total [OF assms(1) u(2) assms(5)] by blast
  obtain r1 where r1: "bn_wexpand ma (bn_width dvs) r = (Some (), r1)" using wexpand_total [OF assms(1) u(4) assms(6)] by blast
  obtain t1 where t1: "bn_wexpand ma (bn_width dvs) tmp = (Some (), t1)" using wexpand_total [OF assms(1) u(6) assms(6)] by blast
  obtain qs rs where d: "div_binary (bn_words dvs) (bn_words num) (replicate (bn_width dvs) 0) = (qs, rs)" by fastforce
  have l: "length (replicate (bn_width dvs) 0) = length (bn_words dvs)" using assms(3) by simp
  have lt: "wval (replicate (bn_width dvs) 0) < wval (bn_words dvs)" using assms(4) by (simp add: bn_mag_def)
  have v: "length qs = bn_width num" "length rs = bn_width dvs" "wval rs = bn_mag num mod bn_mag dvs" "wval qs = bn_mag num div bn_mag dvs"
    using div_binary_value [OF l lt d] assms(2,3) by (simp_all add: bn_mag_def)
  show ?thesis
    by (rule that [OF _ stored_at [OF v(1) u(1) q1 u(2), unfolded v(4)] stored_at [OF v(2) u(3) r1 u(4), unfolded v(3)]])
       (use q1 r1 t1 d wexpand [OF u(5) t1] u(6) in \<open>simp_all add: div_ct_numbers_def\<close>)
qed

lemma copy_out_run:
  assumes "malloc_total ma" "holds_at w v x" "w \<le> bn_max_words" "usable_opt out"
  obtains out' where "copy_out ma t x out = (Some (), out')" "holds_opt out w v out'"
proof (cases out)
  case None
  then show ?thesis using that by (simp add: copy_out_def holds_opt_def)
next
  case (Some o1)
  have x: "bn_ok x" "bn_width x = w" and u: "bn_ok o1" "\<not> bn_static o1" using assms(2,4) Some by (simp_all add: holds_at_def usable_opt_def usable_def)
  have room: "bn_room o1 (bn_width x)" using u(2) x(2) assms(3) by (simp add: bn_room_def)
  obtain o2 where o2: "BN_copy ma x o1 = (Some (), o2)" "bn_ok o2" "bn_words o2 = bn_words x" "bn_neg o2 = bn_neg x" "bn_width o2 = bn_width x"
    "bn_static o2 = bn_static o1"
    by (rule copy_total [OF assms(1) x(1) u(1) room])
  then have "holds_at w v o2" using assms(2) u(2) by (simp add: holds_at_def bn_mag_def)
  then show ?thesis using that [of "if t then Some o2 else Some x"] Some o2(1) assms(2) by (simp add: copy_out_def holds_opt_def)
qed

lemma div_consttime_run:
  assumes "malloc_total ma" "bn_ok num" "bn_ok dvs" "\<not> bn_neg num" "\<not> bn_neg dvs" "bn_mag dvs \<noteq> 0"
    "bn_width num \<le> bn_max_words" "bn_width dvs \<le> bn_max_words" "usable_opt quot" "usable_opt rm" "ctx_fit e ctx" "e + 4 \<le> pool_max"
  shows "\<exists>q' r' ctx'. bn_div_consttime ma qa ra num dvs (quot, rm, ctx) = (Some (), q', r', ctx')
    \<and> holds_opt quot (bn_width num) (bn_mag num div bn_mag dvs) q' \<and> holds_opt rm (bn_width dvs) (bn_mag num mod bn_mag dvs) r'
    \<and> pool_restored (e + 4) ctx ctx'"
proof -
  let ?c = "BN_CTX_start ma ctx" and ?u = "ctx_used ctx"
  define qt where "qt = (quot = None \<or> qa)"
  define rt where "rt = (rm = None \<or> ra)"
  define nq where "nq = (if qt then 1 else 0 :: nat)"
  define nr where "nr = (if rt then 1 else 0 :: nat)"
  let ?n = "nq + nr + 1"
  have e: "e \<le> pool_max" "Suc e + ?n \<le> pool_max" using assms(12) by (simp_all add: nq_def nr_def)
  note sf = start_fit [OF assms(1,11) e(1)]
  obtain c1 where g: "ctx_gets ma ?n ?c = (Some [?u..<?u + ?n], c1)" "pool_same (Suc e + ?n) ?c c1"
    "\<forall>i. ?u \<le> i \<and> i < ?u + ?n \<longrightarrow>
       (\<exists>bn. slot c1 i = Some bn \<and> bn_ok bn \<and> \<not> bn_static bn \<and> bn_width bn = 0 \<and> \<not> bn_neg bn)"
    by (rule gets_same [OF assms(1) sf(1) e(2), unfolded sf(3)])
  let ?s = "[?u..<?u + ?n]"
  have us: "usable (slot_number c1 (?s ! i))" if i: "i < ?n" for i
  proof -
    have "?s ! i = ?u + i" using i by (simp only: nth_upt add_less_cancel_left)
    moreover obtain bn where "slot c1 (?u + i) = Some bn" "bn_ok bn" "\<not> bn_static bn" "bn_width bn = 0"
      using g(3) [rule_format, of "?u + i"] i by auto
    ultimately show ?thesis by (simp add: slot_number_def usable_def bn_max_words_def)
  qed
  define q where "q = (if qt then slot_number c1 (?s ! 0) else the quot)"
  define r where "r = (if rt then slot_number c1 (?s ! nq) else the rm)"
  have uq: "usable q" using us [of 0] assms(9) by (auto simp: q_def qt_def usable_opt_def)
  have ur: "usable r" using us [of nq] assms(10) by (auto simp: r_def rt_def nr_def usable_opt_def)
  have ut: "usable (slot_number c1 (?s ! (nq + nr)))" by (rule us) simp
  obtain q1 r1 t1 where d: "div_ct_numbers ma num dvs (q, r, slot_number c1 (?s ! (nq + nr))) = (Some (), q1, r1, t1)"
    "holds_at (bn_width num) (bn_mag num div bn_mag dvs) q1" "holds_at (bn_width dvs) (bn_mag num mod bn_mag dvs) r1"
    "bn_ok t1" "\<not> bn_static t1"
    by (rule div_ct_numbers_run [OF assms(1-3,6,7,8) uq ur ut])
  let ?bns = "(if qt then [q1] else []) @ (if rt then [r1] else []) @ [t1]"
  define c2 where "c2 = put_slots ?s ?bns c1"
  have "pool_same (Suc e + ?n) ?c c2" unfolding c2_def
  proof (rule put_slots_same [OF g(2)])
    show "\<forall>i \<in> set ?s. ctx_used ?c \<le> i \<and> slot c1 i \<noteq> None"
    proof
      fix i assume "i \<in> set ?s"
      then have "?u \<le> i \<and> i < ?u + ?n" by (simp only: set_upt atLeastLessThan_iff)
      then show "ctx_used ?c \<le> i \<and> slot c1 i \<noteq> None" using g(3) sf(3) by fastforce
    qed
    show "\<forall>bn \<in> set ?bns. bn_ok bn \<and> \<not> bn_static bn" using d(2-5) by (auto simp: holds_at_def)
  qed
  then have "pool_same (e + 4) ?c c2" by (rule pool_same_mono) (simp add: nq_def nr_def)
  then have p: "pool_restored (e + 4) ctx (BN_CTX_end c2)" by (rule frame_restored [OF assms(1,11) e(1)])
  obtain q2 where q2: "copy_out ma qt q1 quot = (Some (), q2)" "holds_opt quot (bn_width num) (bn_mag num div bn_mag dvs) q2"
    by (rule copy_out_run [OF assms(1) d(2) assms(7,9)])
  obtain r2 where r2: "copy_out ma rt r1 rm = (Some (), r2)" "holds_opt rm (bn_width dvs) (bn_mag num mod bn_mag dvs) r2"
    by (rule copy_out_run [OF assms(1) d(3) assms(8,10)])
  have nz: "\<not> BN_is_zero dvs" using is_zero_iff [OF assms(3)] assms(6) by simp
  have nn: "\<not> (bn_neg num \<or> bn_neg dvs)" using assms(4,5) by simp
  have "bn_div_consttime ma qa ra num dvs (quot, rm, ctx) = (Some (), q2, r2, BN_CTX_end c2)"
    unfolding bn_div_consttime_def prod.case Let_def if_not_P [OF nn] if_not_P [OF nz] qt_def [symmetric] rt_def [symmetric] nq_def [symmetric]
      nr_def [symmetric] g(1) option.case q_def [symmetric] r_def [symmetric] d(1) c2_def [symmetric] q2(1) r2(1) by simp
  then show ?thesis using q2(2) r2(2) p by blast
qed

section \<open>Properties\<close>

text \<open>
  C31: \<open>bn_div_consttime\<close> computes the quotient and the remainder of natural numbers that \<open>BN_div\<close> computes, at widths
  that depend on the widths of the operands alone, wherever the results are stored; it refuses negative operands and a
  zero divisor and leaves everything as it was.
\<close>

theorem bn_div_consttime_exact:
  assumes "malloc_total ma" "bn_ok num" "bn_ok dvs" "bn_width num \<le> bn_max_words" "bn_width dvs \<le> bn_max_words" "usable_opt quot" "usable_opt rm"
    "ctx_fit e ctx" "e + 4 \<le> pool_max"
  shows "if bn_neg num \<or> bn_neg dvs \<or> bn_mag dvs = 0 then bn_div_consttime ma qa ra num dvs (quot, rm, ctx) = (None, quot, rm, ctx)
    else \<exists>q' r' ctx'. bn_div_consttime ma qa ra num dvs (quot, rm, ctx) = (Some (), q', r', ctx')
      \<and> holds_opt quot (bn_width num) (bn_mag num div bn_mag dvs) q' \<and> holds_opt rm (bn_width dvs) (bn_mag num mod bn_mag dvs) r'
      \<and> pool_restored (e + 4) ctx ctx'"
proof (cases "bn_neg num \<or> bn_neg dvs \<or> bn_mag dvs = 0")
  case True
  then show ?thesis using is_zero_iff [OF assms(3)] by (auto simp: bn_div_consttime_def)
next
  case False
  then show ?thesis using div_consttime_run [OF assms(1-3) _ _ _ assms(4-9), of qa ra] by simp
qed

text \<open>
  C32: The modular operations are arithmetic modulo the magnitude of the modulus: \<open>BN_mod_add\<close>, \<open>BN_mod_sub\<close>,
  \<open>BN_mod_mul\<close>, \<open>BN_mod_sqr\<close>, \<open>BN_mod_lshift1\<close> and \<open>BN_mod_lshift\<close> give the least non-negative residue of the result for numbers of
  any sign; they share the pool and give it back.
\<close>

theorem bn_mod_ops_exact:
  assumes "malloc_total ma" "bn_ok a" "bn_ok b" "bn_ok m" "bn_value m \<noteq> 0" "8 * max (bn_width a) (bn_width b) \<le> bn_max_words" "room_to_add a" "room_to_add b"
    "room_to_divide m" "usable r" "ctx_fit e ctx" "e + 10 \<le> pool_max"
  shows "(\<exists>r' ctx'. BN_mod_add ma a b m (r, ctx) = (Some (), r', ctx') \<and> usable r' \<and> bn_value r' = (bn_value a + bn_value b) mod \<bar>bn_value m\<bar>
        \<and> pool_restored (e + 5) ctx ctx')
    \<and> (\<exists>r' ctx'. BN_mod_sub ma a b m (r, ctx) = (Some (), r', ctx') \<and> usable r' \<and> bn_value r' = (bn_value a - bn_value b) mod \<bar>bn_value m\<bar>
        \<and> pool_restored (e + 5) ctx ctx')
    \<and> (\<exists>r' ctx'. BN_mod_mul ma False a b m (r, ctx) = (Some (), r', ctx') \<and> usable r' \<and> bn_value r' = (bn_value a * bn_value b) mod \<bar>bn_value m\<bar>
        \<and> pool_restored (e + 10) ctx ctx')
    \<and> (\<exists>r' ctx'. BN_mod_sqr ma aliased a m (r, ctx) = (Some (), r', ctx') \<and> usable r' \<and> bn_value r' = (bn_value a * bn_value a) mod \<bar>bn_value m\<bar>
        \<and> pool_restored (e + 8) ctx ctx')
    \<and> (\<exists>r' ctx'. BN_mod_lshift1 ma a m (r, ctx) = (Some (), r', ctx') \<and> usable r' \<and> bn_value r' = (2 * bn_value a) mod \<bar>bn_value m\<bar>
        \<and> pool_restored (e + 5) ctx ctx')
    \<and> (\<exists>r' ctx'. BN_mod_lshift ma a (int n) m (r, ctx) = (Some (), r', ctx') \<and> usable r' \<and> bn_value r' = (bn_value a * 2 ^ n) mod \<bar>bn_value m\<bar>
        \<and> pool_restored (e + 5) ctx ctx')"
proof (intro conjI)
  have nz: "bn_mag m \<noteq> 0" using assms(5) by (auto simp: bn_value_def split: if_splits)
  have e: "e + 5 \<le> pool_max" "e + 8 \<le> pool_max" and w: "8 * bn_width a \<le> bn_max_words" using assms(6,12) by simp_all
  note s = mod_sum_run [OF assms(1-4) nz assms(7-11) e(1)]
  show "\<exists>r' ctx'. BN_mod_add ma a b m (r, ctx) = (Some (), r', ctx') \<and> usable r' \<and> bn_value r' = (bn_value a + bn_value b) mod \<bar>bn_value m\<bar>
        \<and> pool_restored (e + 5) ctx ctx'" by (rule s(1))
  show "\<exists>r' ctx'. BN_mod_sub ma a b m (r, ctx) = (Some (), r', ctx') \<and> usable r' \<and> bn_value r' = (bn_value a - bn_value b) mod \<bar>bn_value m\<bar>
        \<and> pool_restored (e + 5) ctx ctx'" by (rule s(2))
  show "\<exists>r' ctx'. BN_mod_mul ma False a b m (r, ctx) = (Some (), r', ctx') \<and> usable r' \<and> bn_value r' = (bn_value a * bn_value b) mod \<bar>bn_value m\<bar>
        \<and> pool_restored (e + 10) ctx ctx'"
    by (rule mod_mul_run [OF assms(1-4) nz assms(6,9,10) _ assms(11,12)]) simp
  show "\<exists>r' ctx'. BN_mod_sqr ma aliased a m (r, ctx) = (Some (), r', ctx') \<and> usable r' \<and> bn_value r' = (bn_value a * bn_value a) mod \<bar>bn_value m\<bar>
        \<and> pool_restored (e + 8) ctx ctx'"
    by (rule mod_sqr_run [OF assms(1,2,4) nz w assms(9-11) e(2)])
  show "\<exists>r' ctx'. BN_mod_lshift1 ma a m (r, ctx) = (Some (), r', ctx') \<and> usable r' \<and> bn_value r' = (2 * bn_value a) mod \<bar>bn_value m\<bar>
        \<and> pool_restored (e + 5) ctx ctx'"
    by (rule mod_lshift1_run [OF assms(1,2,4) nz assms(7,9-11) e(1)])
  show "\<exists>r' ctx'. BN_mod_lshift ma a (int n) m (r, ctx) = (Some (), r', ctx') \<and> usable r' \<and> bn_value r' = (bn_value a * 2 ^ n) mod \<bar>bn_value m\<bar>
        \<and> pool_restored (e + 5) ctx ctx'"
    by (rule mod_lshift_run [OF assms(1,2,4) nz room_add_divide [OF assms(7)] assms(9-11) e(1)])
qed

text \<open>
  C33: For operands below the modulus the branch-free operations compute the same residues as the general ones, in a
  number that is as wide as the modulus: no other branch depends on the operands than the one on their widths.
\<close>

theorem bn_mod_consttime_exact:
  assumes "malloc_total ma" "bn_ok a" "bn_ok b" "bn_ok m" "bn_mag a < bn_mag m" "bn_mag b < bn_mag m" "bn_width m \<le> bn_max_words"
    "bn_ok r" "bn_room r (bn_width m)" "ctx_fit e ctx" "e + 4 \<le> pool_max" "bn_room r (bn_width a)"
  shows "(\<exists>r' ctx'. bn_mod_add_consttime ma a b m (r, ctx) = (Some (), r', ctx') \<and> bn_ok r' \<and> bn_width r' = bn_width m
        \<and> bn_value r' = (int (bn_mag a) + int (bn_mag b)) mod int (bn_mag m) \<and> pool_restored (e + 4) ctx ctx')
    \<and> (\<exists>r' ctx'. bn_mod_sub_consttime ma a b m (r, ctx) = (Some (), r', ctx') \<and> bn_ok r' \<and> bn_width r' = bn_width m
        \<and> bn_value r' = (int (bn_mag a) - int (bn_mag b)) mod int (bn_mag m) \<and> pool_restored (e + 4) ctx ctx')
    \<and> (\<exists>r' ctx'. bn_mod_lshift1_consttime ma a m (r, ctx) = (Some (), r', ctx') \<and> bn_ok r' \<and> bn_width r' = bn_width m
        \<and> bn_value r' = (2 * int (bn_mag a)) mod int (bn_mag m) \<and> pool_restored (e + 4) ctx ctx')
    \<and> (\<exists>r' ctx'. bn_mod_lshift_consttime ma a (int (Suc n)) m (r, ctx) = (Some (), r', ctx') \<and> bn_ok r' \<and> bn_width r' = bn_width m
        \<and> bn_value r' = (int (bn_mag a) * 2 ^ Suc n) mod int (bn_mag m) \<and> pool_restored e ctx ctx')"
proof (intro conjI)
  obtain r1 c1 where 1: "mod_consttime ma bn_mod_add_words a b m (r, ctx) = (Some (), r1, c1)" "bn_ok r1" "bn_width r1 = bn_width m"
    "bn_value r1 = int ((bn_mag a + bn_mag b) mod bn_mag m)" "bn_static r1 = bn_static r" "pool_restored (e + 4) ctx c1"
    by (rule madd.consttime_runs [OF assms(1-11)])
  then show "\<exists>r' ctx'. bn_mod_add_consttime ma a b m (r, ctx) = (Some (), r', ctx') \<and> bn_ok r' \<and> bn_width r' = bn_width m
        \<and> bn_value r' = (int (bn_mag a) + int (bn_mag b)) mod int (bn_mag m) \<and> pool_restored (e + 4) ctx ctx'"
    unfolding bn_mod_add_consttime_def zmod_int of_nat_add by blast
  obtain r2 c2 where 2: "mod_consttime ma bn_mod_sub_words a b m (r, ctx) = (Some (), r2, c2)" "bn_ok r2" "bn_width r2 = bn_width m"
    "bn_value r2 = int (nat ((int (bn_mag a) - int (bn_mag b)) mod int (bn_mag m)))" "bn_static r2 = bn_static r" "pool_restored (e + 4) ctx c2"
    by (rule msub.consttime_runs [OF assms(1-11)])
  have "0 < int (bn_mag m)" using assms(5) by simp
  then have "0 \<le> (int (bn_mag a) - int (bn_mag b)) mod int (bn_mag m)" by (rule pos_mod_sign)
  then have "bn_value r2 = (int (bn_mag a) - int (bn_mag b)) mod int (bn_mag m)" unfolding 2(4) by (rule int_nat_eq [THEN trans, OF if_P])
  then show "\<exists>r' ctx'. bn_mod_sub_consttime ma a b m (r, ctx) = (Some (), r', ctx') \<and> bn_ok r' \<and> bn_width r' = bn_width m
        \<and> bn_value r' = (int (bn_mag a) - int (bn_mag b)) mod int (bn_mag m) \<and> pool_restored (e + 4) ctx ctx'"
    unfolding bn_mod_sub_consttime_def using 2(1-3,6) by blast
  obtain r3 c3 where 3: "mod_consttime ma bn_mod_add_words a a m (r, ctx) = (Some (), r3, c3)" "bn_ok r3" "bn_width r3 = bn_width m"
    "bn_value r3 = int ((bn_mag a + bn_mag a) mod bn_mag m)" "bn_static r3 = bn_static r" "pool_restored (e + 4) ctx c3"
    by (rule madd.consttime_runs [OF assms(1,2,2,4,5,5,7-11)])
  then show "\<exists>r' ctx'. bn_mod_lshift1_consttime ma a m (r, ctx) = (Some (), r', ctx') \<and> bn_ok r' \<and> bn_width r' = bn_width m
        \<and> bn_value r' = (2 * int (bn_mag a)) mod int (bn_mag m) \<and> pool_restored (e + 4) ctx ctx'"
    unfolding bn_mod_lshift1_consttime_def bn_mod_add_consttime_def zmod_int of_nat_add mult_2 by blast
  have room: "bn_room r (max (bn_width a) (bn_width m))" using assms(9,12) by (simp add: max_def)
  show "\<exists>r' ctx'. bn_mod_lshift_consttime ma a (int (Suc n)) m (r, ctx) = (Some (), r', ctx') \<and> bn_ok r' \<and> bn_width r' = bn_width m
        \<and> bn_value r' = (int (bn_mag a) * 2 ^ Suc n) mod int (bn_mag m) \<and> pool_restored e ctx ctx'"
    using lshift_consttime_run [OF assms(1,2,4,5,7,8) room assms(10,11), of "Suc n"] by (auto simp: zmod_int)
qed

abbreviation fresh_ctx :: bn_ctx where
  "fresh_ctx \<equiv> \<lparr>ctx_bignums = None, ctx_stack = BN_STACK_init, ctx_used = 0, ctx_error = False, ctx_defer_error = False\<rparr>"

abbreviation small :: "bool \<Rightarrow> u64 \<Rightarrow> bignum" where
  "small n w \<equiv> \<lparr>bn_d = [w], bn_width = 1, bn_neg = n, bn_static = False\<rparr>"

theorem bn_div_consttime_exact_witness:
  "\<exists>q r ctx. bn_div_consttime zero_malloc True False (small False 17) (small False 5) (Some (small False 17), Some BN_init, fresh_ctx)
    = (Some (), Some q, Some r, ctx) \<and> bn_mag q = 3 \<and> bn_mag r = 2 \<and> bn_width q = 1 \<and> ctx_used ctx = 0"
proof -
  have m: "bn_mag (small False 17) = 17" "bn_mag (small False 5) = 5" by (simp_all add: bn_mag_def bn_words_def)
  have p: "bn_width (small n w) \<le> bn_max_words" "usable_opt (Some (small False 17))" "usable_opt (Some BN_init)" "6 + 4 \<le> pool_max" for n w
    using fresh_numbers(3,4) by (simp_all add: bn_max_words_def usable_opt_def)
  note d = bn_div_consttime_exact [where num = "small False 17" and dvs = "small False 5" and qa = True and ra = False,
      OF malloc_total_zero_malloc fresh_numbers(1,1) p(1,1,2,3) fresh_pool_fit p(4)]
  have c: "\<not> (bn_neg (small False 17) \<or> bn_neg (small False 5) \<or> bn_mag (small False 5) = 0)" using m(2) by simp
  obtain q' r' ctx where r: "bn_div_consttime zero_malloc True False (small False 17) (small False 5) (Some (small False 17), Some BN_init, fresh_ctx)
      = (Some (), q', r', ctx)" "holds_opt (Some (small False 17)) 1 (17 div 5) q'" "holds_opt (Some BN_init) 1 (17 mod 5) r'" "pool_restored (6 + 4) fresh_ctx ctx"
    using d unfolding if_not_P [OF c] m by auto
  then have "ctx_used ctx = 0" by (simp add: pool_restored_def)
  then show ?thesis using r(1-3) unfolding holds_opt_def holds_at_def by (auto split: option.splits)
qed

theorem bn_mod_ops_exact_witness:
  "\<exists>r ctx. BN_mod_mul zero_malloc False (small True 7) (small False 8) (small False 10) (BN_init, fresh_ctx) = (Some (), r, ctx) \<and> bn_value r = 4"
proof -
  have v: "bn_value (small True 7) = - 7" "bn_value (small False 8) = 8" "bn_value (small False 10) = 10" by (simp_all add: bn_value_def bn_mag_def bn_words_def)
  have p: "8 * max (bn_width (small True 7)) (bn_width (small False 8)) \<le> bn_max_words" "room_to_add (small n w)" "6 + 10 \<le> pool_max" for n w
    by (simp_all add: bn_max_words_def room_to_add_def)
  have z: "bn_value (small False 10) \<noteq> 0" "(bn_value (small True 7) * bn_value (small False 8)) mod \<bar>bn_value (small False 10)\<bar> = 4" unfolding v by simp_all
  note d = bn_mod_ops_exact [where a = "small True 7" and b = "small False 8" and m = "small False 10" and aliased = False,
    OF malloc_total_zero_malloc fresh_numbers(1,1,1) z(1) p(1,2,2) fresh_numbers(2,4) fresh_pool_fit p(3), unfolded z(2)]
  then show ?thesis by blast
qed

theorem bn_mod_consttime_exact_witness:
  "\<exists>r ctx. bn_mod_sub_consttime zero_malloc (small False 3) (small False 8) (small False 10) (BN_init, fresh_ctx) = (Some (), r, ctx) \<and> bn_value r = 5"
proof -
  have m: "bn_mag (small False 3) = 3" "bn_mag (small False 8) = 8" "bn_mag (small False 10) = 10" by (simp_all add: bn_mag_def bn_words_def)
  have p: "bn_mag (small False 3) < bn_mag (small False 10)" "bn_mag (small False 8) < bn_mag (small False 10)" "bn_width (small False 10) \<le> bn_max_words"
    "bn_ok BN_init" "bn_room BN_init (bn_width (small False 10))" "6 + 4 \<le> pool_max" "bn_room BN_init (bn_width (small False 3))"
    unfolding m by (simp_all add: bn_max_words_def BN_init_def bn_ok_def bn_room_def)
  have z: "(int (bn_mag (small False 3)) - int (bn_mag (small False 8))) mod int (bn_mag (small False 10)) = 5" unfolding m by simp
  note d = bn_mod_consttime_exact [where a = "small False 3" and b = "small False 8" and m = "small False 10",
    OF malloc_total_zero_malloc fresh_numbers(1,1,1) p(1-5) fresh_pool_fit p(6,7), unfolded z]
  then show ?thesis by blast
qed

end
