(* ===== verification/Bn_Normal.thy ===== *)
theory Bn_Normal imports Bn_Mod begin

text \<open>
  The well-formedness of numbers as a type: what every operation that returns a number keeps of it.
\<close>

lemma sum_sign:
  assumes "bn_normal a" "bn_normal b"
  shows "BN_add ma a b r = (Some (), r') \<Longrightarrow> bn_ok r' \<Longrightarrow> bn_value r' = bn_value a + bn_value b \<Longrightarrow> bn_normal r'"
    "BN_sub ma a b r = (Some (), r') \<Longrightarrow> bn_ok r' \<Longrightarrow> bn_value r' = bn_value a - bn_value b \<Longrightarrow> bn_normal r'"
proof -
  have u: "BN_ucmp x y < 0 \<longleftrightarrow> bn_mag x < bn_mag y" for x y by (simp add: ucmp_value cmp_result_def)
  have s: "bn_neg r' \<longleftrightarrow> bn_mag x < bn_mag y" if "sub_magnitudes ma x y r = (Some (), r')" for x y r'
    using that u by (auto simp: sub_magnitudes_def op_bind_eq_Some set_neg_def split: if_splits)
  show "BN_add ma a b r = (Some (), r') \<Longrightarrow> bn_ok r' \<Longrightarrow> bn_value r' = bn_value a + bn_value b \<Longrightarrow> bn_normal r'"
    using assms by (auto simp: BN_add_def bn_normal_def bn_value_def Let_def op_bind_eq_Some split: if_splits prod.splits dest!: s)
  show "BN_sub ma a b r = (Some (), r') \<Longrightarrow> bn_ok r' \<Longrightarrow> bn_value r' = bn_value a - bn_value b \<Longrightarrow> bn_normal r'"
    using assms by (auto simp: BN_sub_def bn_normal_def bn_value_def Let_def op_bind_eq_Some set_neg_def split: if_splits prod.splits dest!: s)
qed

lemma normal_multiple:
  assumes "bn_normal a" "bn_ok r'" "bn_value r' = c * bn_value a" "c \<noteq> 0" "bn_neg r' \<Longrightarrow> bn_neg a"
  shows "bn_normal r'"
proof -
  have "bn_mag r' \<noteq> 0" if n: "bn_neg r'"
  proof
    assume "bn_mag r' = 0"
    then have "bn_value r' = 0" by (simp add: bn_value_def)
    then have "c * bn_value a = 0" using assms(3) by simp
    then have "bn_value a = 0" using assms(4) by (simp only: mult_eq_0_iff) simp
    then have "bn_mag a = 0" by (simp add: bn_value_def split: if_splits)
    then show False using assms(1) assms(5) [OF n] by (simp add: bn_normal_def)
  qed
  then show ?thesis using assms(2) by (auto simp: bn_normal_def)
qed

lemma lshift_neg: "BN_lshift ma a n r = (Some (), r') \<Longrightarrow> bn_neg r' \<Longrightarrow> bn_neg a"
proof -
  assume l: "BN_lshift ma a n r = (Some (), r')" "bn_neg r'"
  let ?k = "bn_width a + nat n div 64 + 1"
  obtain r1 where r1: "bn_wexpand ma ?k (r\<lparr>bn_neg := bn_neg a\<rparr>) = (Some (), r1)"
    using l(1) by (auto simp: BN_lshift_def op_bind_eq_Some Let_def split: if_splits)
  then obtain t where "r' = bn_set_minimal_width (r1\<lparr>bn_d := t, bn_width := ?k\<rparr>)"
    using l(1) by (auto simp: BN_lshift_def op_bind_def Let_def split: if_splits)
  moreover have "bn_neg r1 = bn_neg a" using r1 by (auto simp: bn_wexpand_def split: if_splits option.splits)
  ultimately show "bn_neg a" using l(2) by (simp add: bn_set_minimal_width_def Let_def split: if_splits)
qed

lemma lshift1_neg: "BN_lshift1 ma a r = (Some (), r') \<Longrightarrow> bn_neg r' \<Longrightarrow> bn_neg a"
  by (auto simp: BN_lshift1_def bn_wexpand_def op_bind_def Let_def split_beta split: if_splits option.splits)

section \<open>Property\<close>

text \<open>
  C39: The well-formed numbers without a negative zero are closed under arithmetic: while memory lasts and the operands
  are short enough for the results, addition, subtraction, multiplication and squaring succeed with such a number, a
  shift does for every distance for which the result has room, and so do both results of a division, also of one in
  place. This holds for all signs and widths of the operands and whatever the result held before.
\<close>

theorem bn_operations_keep_normal:
  assumes "malloc_total ma" "bn_normal a" "bn_normal b" "usable r" "8 * max (bn_width a) (bn_width b) \<le> bn_max_words" "room_to_add a" "room_to_add b"
    "ctx_fit e ctx" "e + 5 \<le> pool_max"
  shows "(\<exists>r'. BN_add ma a b r = (Some (), r') \<and> bn_normal r') \<and> (\<exists>r'. BN_sub ma a b r = (Some (), r') \<and> bn_normal r')
    \<and> (\<exists>r' ctx'. BN_mul ma aliased a b (r, ctx) = (Some (), r', ctx') \<and> bn_normal r')
    \<and> (\<exists>r' ctx'. BN_sqr ma aliased a (r, ctx) = (Some (), r', ctx') \<and> bn_normal r')
    \<and> (bn_width a + n div 64 + 1 \<le> bn_max_words \<longrightarrow> (\<exists>r'. BN_lshift ma a (int n) r = (Some (), r') \<and> bn_normal r'))
    \<and> (\<exists>r'. BN_lshift1 ma a r = (Some (), r') \<and> bn_normal r')
    \<and> (\<exists>r'. BN_rshift ma a (int n) r = (Some (), r') \<and> bn_normal r')
    \<and> (bn_value b \<noteq> 0 \<longrightarrow> (\<exists>q' rm' ctx'. BN_div ma same a b (Some r, Some r, ctx) = (Some (), Some q', Some rm', ctx') \<and> bn_normal q' \<and> bn_normal rm'))"
proof (intro conjI impI)
  have ok: "bn_ok a" "bn_ok b" "bn_ok r" "\<not> bn_static r" using assms(2-4) by (simp_all add: bn_normal_def usable_def)
  have ra: "bn_room r (max (bn_width a) (bn_width b) + 1)" "bn_room r (bn_width a + 1)" "bn_room r (bn_width a)"
    using ok(4) assms(6,7) by (auto simp: bn_room_def room_to_add_def)
  note s = signed_sum_run [OF assms(1) ok(1-3) ra(1)]
  show "\<exists>r'. BN_add ma a b r = (Some (), r') \<and> bn_normal r'" using s(1) sum_sign(1) [OF assms(2,3)] by blast
  show "\<exists>r'. BN_sub ma a b r = (Some (), r') \<and> bn_normal r'" using s(2) sum_sign(2) [OF assms(2,3)] by blast
  have e: "e + 3 \<le> pool_max" and w: "8 * bn_width a \<le> bn_max_words" using assms(5,9) by simp_all
  obtain x c where x: "bn_mul_impl ma aliased a b (r, ctx) = (Some (), x, c)" "bn_ok x"
    by (rule mul_impl_run [OF assms(1) ok assms(5,8) e]) blast
  show "\<exists>r' ctx'. BN_mul ma aliased a b (r, ctx) = (Some (), r', ctx') \<and> bn_normal r'"
    using normalised [where m = "bn_mul_impl ma aliased a b", OF x(1)] minimal_normal [OF x(2)] by (simp add: BN_mul_def)
  obtain y d where y: "bn_sqr_consttime ma aliased a (r, ctx) = (Some (), y, d)" "bn_ok y"
    by (rule sqr_consttime_run [OF assms(1) ok(1,3,4) w assms(8) e]) blast
  show "\<exists>r' ctx'. BN_sqr ma aliased a (r, ctx) = (Some (), r', ctx') \<and> bn_normal r'"
    using normalised [where m = "bn_sqr_consttime ma aliased a", OF y(1)] minimal_normal [OF y(2)] by (simp add: BN_sqr_def)
  show "\<exists>r'. BN_lshift ma a (int n) r = (Some (), r') \<and> bn_normal r'" if "bn_width a + n div 64 + 1 \<le> bn_max_words"
  proof -
    have rn: "bn_room r (bn_width a + nat (int n) div 64 + 1)" using ok(4) that by (simp add: bn_room_def)
    obtain z where z: "BN_lshift ma a (int n) r = (Some (), z)" "bn_ok z" "bn_value z = 2 ^ nat (int n) * bn_value a"
      by (rule lshift_run [where n = "int n", OF assms(1) ok(1,3) _ rn]) simp_all
    show ?thesis using z(1) normal_multiple [OF assms(2) z(2,3) _ lshift_neg [OF z(1)]] by simp
  qed
  obtain v where v: "BN_lshift1 ma a r = (Some (), v)" "bn_ok v" "bn_value v = 2 * bn_value a" by (rule lshift1_run [OF assms(1) ok(1,3) ra(2)])
  show "\<exists>r'. BN_lshift1 ma a r = (Some (), r') \<and> bn_normal r'"
    using v(1) normal_multiple [OF assms(2) v(2,3) _ lshift1_neg [OF v(1)]] by simp
  obtain t where t: "BN_rshift ma a (int n) r = (Some (), t)"
    by (rule rshift_run [where n = "int n", OF assms(1) ok(1,3) _ ra(3)]) simp_all
  show "\<exists>r'. BN_rshift ma a (int n) r = (Some (), r') \<and> bn_normal r'" using t rshift_keeps(3) [OF t ok(1,3)] by blast
next
  assume "bn_value b \<noteq> 0"
  then have nz: "bn_mag b \<noteq> 0" by (auto simp: bn_value_def split: if_splits)
  have ok: "bn_ok a" "bn_ok b" "usable_opt (Some r)" using assms(2-4) by (simp_all add: bn_normal_def usable_opt_def)
  obtain q' rm' ctx' where d: "BN_div ma same a b (Some r, Some r, ctx) = (Some (), q', rm', ctx')"
    "stores (Some r) (with_sign (bn_neg a \<noteq> bn_neg b) (bn_mag a div bn_mag b)) q'"
    "stores (Some r) (with_sign (if same then bn_neg a \<noteq> bn_neg b else bn_neg a) (bn_mag a mod bn_mag b)) rm'"
    by (rule BN_div_run [where same = same, OF assms(1) ok(1,2) nz room_add_divide [OF assms(6)] room_add_divide [OF assms(7)] ok(3,3) assms(8,9)])
  then show "\<exists>q' rm' ctx'. BN_div ma same a b (Some r, Some r, ctx) = (Some (), Some q', Some rm', ctx') \<and> bn_normal q' \<and> bn_normal rm'"
    by (auto simp: stores_def split: option.splits)
qed

theorem bn_operations_keep_normal_witness:
  "\<exists>r. BN_add zero_malloc (small True 7) (small False 7) BN_init = (Some (), r) \<and> bn_normal r"
proof -
  have n: "bn_normal (small True 7)" "bn_normal (small False 7)" by (simp_all add: bn_normal_def bn_ok_def bn_mag_def bn_words_def)
  have p: "8 * max (bn_width (small True 7)) (bn_width (small False 7)) \<le> bn_max_words" "room_to_add (small n w)" "6 + 5 \<le> pool_max" for n w
    by (simp_all add: bn_max_words_def room_to_add_def)
  show ?thesis
    by (rule conjunct1 [OF bn_operations_keep_normal [where r = BN_init, OF malloc_total_zero_malloc n fresh_numbers(4) p(1,2,2) fresh_pool_fit p(3)]])
qed

end
