(* ===== verification/Bn_Mont_Words.thy ===== *)
theory Bn_Mont_Words imports Bn_Reduce begin

text \<open>
  Montgomery reduction of word arrays: the negative inverse of a word modulo \<open>2 ^ 64\<close> (\<open>montgomery_inv.c\<close>) and the
  reduction that uses it (\<open>bn_from_montgomery_in_place\<close> of \<open>montgomery.c\<close>).
\<close>

unbundle bit_operations_syntax

section \<open>Operations\<close>

text \<open>
  One round of the inversion on \<open>u\<close> and \<open>v\<close>; \<open>beta\<close> is the odd word and \<open>alpha\<close> half the modulus. The sum with \<open>beta\<close>
  may overflow, so it is halved with Dietz's method.
\<close>

definition neg_inv_alpha :: u64 where
  "neg_inv_alpha = push_bit 63 1"

definition neg_inv_round :: "u64 \<Rightarrow> u64 \<times> u64 \<Rightarrow> u64 \<times> u64" where
  "neg_inv_round beta uv =
     (let (u, v) = uv;
          u_is_odd = 0 - (u AND 1);
          beta_if_u_is_odd = beta AND u_is_odd;
          alpha_if_u_is_odd = neg_inv_alpha AND u_is_odd in
      (drop_bit 1 (u XOR beta_if_u_is_odd) + (u AND beta_if_u_is_odd), drop_bit 1 v + alpha_if_u_is_odd))"

fun neg_inv_loop :: "u64 \<Rightarrow> nat \<Rightarrow> u64 \<times> u64 \<Rightarrow> u64 \<times> u64" where
  "neg_inv_loop beta 0 uv = uv"
| "neg_inv_loop beta (Suc i) uv = neg_inv_loop beta i (neg_inv_round beta uv)"

definition bn_neg_inv_mod_r_u64 :: "u64 \<Rightarrow> u64" where
  "bn_neg_inv_mod_r_u64 n = snd (neg_inv_loop n 64 (1, 0))"

definition bn_mont_n0 :: "bignum \<Rightarrow> u64" where
  "bn_mont_n0 n = bn_neg_inv_mod_r_u64 (bn_d n ! 0)"

text \<open>
  One round of the reduction: a multiple of the modulus \<open>n\<close> clears word \<open>i\<close> of \<open>a\<close>; \<open>carry\<close> belongs to the word
  after those that have been added to so far.
\<close>

definition mont_round :: "u64 list \<Rightarrow> u64 \<Rightarrow> nat \<Rightarrow> u64 list \<times> u64 \<Rightarrow> u64 list \<times> u64" where
  "mont_round n n0 i ac =
     (let (a, carry) = ac;
          num_n = length n;
          (ws, v) = bn_mul_add_words (take num_n (drop i a)) n (a ! i * n0);
          a = put_words i ws a;
          hi = a ! (i + num_n);
          v = v + (carry + hi);
          carry = carry OR (if v \<noteq> hi then 1 else 0);
          carry = carry AND (if v \<le> hi then 1 else 0) in
      (a[i + num_n := v], carry))"

fun mont_rounds :: "u64 list \<Rightarrow> u64 \<Rightarrow> nat \<Rightarrow> u64 list \<times> u64 \<Rightarrow> u64 list \<times> u64" where
  "mont_rounds n n0 0 ac = ac"
| "mont_rounds n n0 (Suc i) ac = mont_round n n0 i (mont_rounds n n0 i ac)"

text \<open>The array \<open>a\<close> is overwritten; the model returns the result and what \<open>a\<close> holds.\<close>

definition from_montgomery_words :: "u64 list \<Rightarrow> u64 \<Rightarrow> u64 list \<Rightarrow> u64 list \<times> u64 list" where
  "from_montgomery_words n n0 a =
     (let (a, carry) = mont_rounds n n0 (length n) (a, 0) in
      (fst (bn_reduce_once (drop (length n) a) carry n), a))"

section \<open>The inverse of a word\<close>

lemma nat_plus_xor_and: "(x :: nat) + y = (x XOR y) + 2 * (x AND y)"
proof (induction x arbitrary: y rule: less_induct)
  case (less x)
  show ?case
  proof (cases "x = 0")
    case False
    then have "x div 2 + y div 2 = (x div 2 XOR y div 2) + 2 * (x div 2 AND y div 2)" by (intro less) simp
    moreover have "(x XOR y) = of_bool (odd x \<noteq> odd y) + 2 * (x div 2 XOR y div 2)" by (rule xor_rec)
    moreover have "(x AND y) = of_bool (odd x \<and> odd y) + 2 * (x div 2 AND y div 2)" by (rule and_rec)
    moreover have "x = 2 * (x div 2) + of_bool (odd x)" "y = 2 * (y div 2) + of_bool (odd y)"
      by simp_all
    moreover have "of_bool (odd x) + of_bool (odd y) = (of_bool (odd x \<noteq> odd y) + 2 * of_bool (odd x \<and> odd y) :: nat)" by simp
    ultimately show ?thesis by linarith
  qed simp
qed

lemma dietz_half:
  fixes x y :: u64
  shows "unat (drop_bit 1 (x XOR y) + (x AND y)) = (unat x + unat y) div 2"
proof -
  let ?s = "unat x XOR unat y" and ?c = "unat x AND unat y"
  have e: "(unat x + unat y) div 2 = ?s div 2 + ?c" unfolding nat_plus_xor_and [of "unat x" "unat y"] by simp
  have d: "unat (drop_bit 1 (x XOR y)) = ?s div 2" "unat (x AND y) = ?c"
    unfolding unat_drop_bit unsigned_xor_eq unsigned_and_eq by simp_all
  have "(unat x + unat y) div 2 < 2 ^ 64" using unat_less_64 [of x] unat_less_64 [of y] by linarith
  then have "unat (drop_bit 1 (x XOR y)) + unat (x AND y) < 2 ^ 64" unfolding e d .
  then have "unat (drop_bit 1 (x XOR y) + (x AND y)) = unat (drop_bit 1 (x XOR y)) + unat (x AND y)"
    by (simp add: unat_word_ariths)
  then show ?thesis unfolding e d .
qed

lemma odd_mask: "0 - (u AND 1) = (if odd (unat u) then - 1 else 0 :: u64)"
proof -
  have "odd (unat u) \<longleftrightarrow> odd u" by (simp flip: bit_0 add: bit_unsigned_iff)
  then show ?thesis by (simp add: and_one_eq mod2_eq_if)
qed

lemma neg_inv_round_value:
  assumes "odd (unat n)" "k < 64" "int (unat u) * 2 ^ 64 - int (unat v) * int (unat n) = 2 ^ Suc k" "unat u \<le> unat n"
    "neg_inv_round n (u, v) = (u', v')"
  shows "int (unat u') * 2 ^ 64 - int (unat v') * int (unat n) = 2 ^ k \<and> unat u' \<le> unat n"
proof -
  let ?b = "if odd (unat u) then unat n else 0" and ?a = "if odd (unat u) then 2 ^ 63 else 0 :: nat"
  have u': "unat u' = (unat u + ?b) div 2"
  proof -
    have "u' = drop_bit 1 (u XOR (n AND (0 - (u AND 1)))) + (u AND (n AND (0 - (u AND 1))))"
      using assms(5) by (simp add: neg_inv_round_def Let_def)
    then show ?thesis unfolding odd_mask using dietz_half [of u n] dietz_half [of u 0] by (cases "odd (unat u)") simp_all
  qed
  have v': "unat v' = unat v div 2 + ?a"
  proof -
    have "v' = drop_bit 1 v + (neg_inv_alpha AND (0 - (u AND 1)))" using assms(5) by (simp add: neg_inv_round_def Let_def)
    then have "v' = drop_bit 1 v + (if odd (unat u) then neg_inv_alpha else 0)" unfolding odd_mask by simp
    moreover have "unat neg_inv_alpha = 2 ^ 63" by (simp add: neg_inv_alpha_def)
    moreover have "unat (drop_bit 1 v) = unat v div 2" by (simp add: unat_drop_bit)
    moreover have "unat v div 2 < 2 ^ 63" using unat_less_64 [of v] by (intro less_mult_imp_div_less) simp
    ultimately show ?thesis by (auto simp: unat_word_ariths)
  qed
  have ev: "even (unat v)"
  proof -
    have "int (unat v) * int (unat n) = int (unat u) * 2 ^ 64 - 2 ^ Suc k" using assms(3) by linarith
    then have "even (int (unat v * unat n))" unfolding of_nat_mult by simp
    then show ?thesis using assms(1) unfolding even_of_nat by simp
  qed
  have su: "2 * unat u' = unat u + ?b" using u' assms(1) by (cases "odd (unat u)") simp_all
  have sv: "2 * unat v' = unat v + 2 * ?a" using v' ev by simp
  have "2 * (int (unat u') * 2 ^ 64 - int (unat v') * int (unat n)) = int (2 * unat u') * 2 ^ 64 - int (2 * unat v') * int (unat n)" by simp
  also have "\<dots> = (int (unat u) * 2 ^ 64 - int (unat v) * int (unat n)) + (int ?b * 2 ^ 64 - 2 * int ?a * int (unat n))"
    unfolding su sv by (simp only: of_nat_add of_nat_mult distrib_right distrib_left of_nat_numeral)
  also have "int ?b * 2 ^ 64 - 2 * int ?a * int (unat n) = 0" by simp
  finally have "2 * (int (unat u') * 2 ^ 64 - int (unat v') * int (unat n)) = 2 * 2 ^ k" using assms(3) by simp
  moreover have "unat u' \<le> unat n" using su assms(4) by (auto split: if_splits)
  ultimately show ?thesis unfolding mult_cancel_left by simp
qed

lemma neg_inv_loop_value:
  assumes "odd (unat n)" "k \<le> 64" "int (unat u) * 2 ^ 64 - int (unat v) * int (unat n) = 2 ^ k" "unat u \<le> unat n"
    "neg_inv_loop n k (u, v) = (u', v')"
  shows "int (unat u') * 2 ^ 64 - int (unat v') * int (unat n) = 1"
  using assms(2-)
proof (induction k arbitrary: u v)
  case (Suc k)
  obtain u1 v1 where r: "neg_inv_round n (u, v) = (u1, v1)" by fastforce
  have "k < 64" using Suc.prems(1) by simp
  from neg_inv_round_value [OF assms(1) this Suc.prems(2,3) r] Suc.IH [of u1 v1] Suc.prems(1,4) r show ?case by simp
qed simp

text \<open>The word is the negative inverse modulo \<open>2 ^ 64\<close>.\<close>

lemma neg_inv_value:
  assumes "odd (unat n)"
  shows "bn_neg_inv_mod_r_u64 n * n = - 1"
proof -
  obtain u v where l: "neg_inv_loop n 64 (1, 0) = (u, v)" by fastforce
  have "1 \<le> unat n" using assms by (cases "unat n") simp_all
  then have "int (unat u) * 2 ^ 64 - int (unat v) * int (unat n) = 1"
    by (intro neg_inv_loop_value [OF assms, of 64 1 0]) (simp_all add: l)
  then have "int (unat v) * int (unat n) + 1 = int (unat u) * 2 ^ 64" by linarith
  then have "of_int (int (unat v) * int (unat n) + 1) = (of_int (int (unat u) * 2 ^ 64) :: u64)" by (rule arg_cong)
  then have "v * n + 1 = u * 2 ^ 64" by simp
  also have "(2 :: u64) ^ 64 = 0" by simp
  finally show ?thesis using l by (simp add: bn_neg_inv_mod_r_u64_def eq_neg_iff_add_eq_0)
qed


section \<open>The reduction\<close>

text \<open>The code's carry is the carry of the sum of three numbers.\<close>

lemma mont_carry:
  fixes v hi carry :: u64
  assumes "unat carry \<le> 1" "v' = v + (carry + hi)"
    "c' = (carry OR (if v' \<noteq> hi then 1 else 0)) AND (if v' \<le> hi then 1 else 0)"
  shows "unat v' + 2 ^ 64 * unat c' = unat v + unat carry + unat hi" "unat c' \<le> 1"
proof -
  have cs: "carry = 0 \<or> carry = 1" using assms(1) by (metis le_Suc_eq One_nat_def le_zero_eq unat_0 unat_1 word_unat_eq_iff)
  then have c': "c' = (if (carry = 1 \<or> v' \<noteq> hi) \<and> v' \<le> hi then 1 else 0)" unfolding assms(3) by auto
  show "unat c' \<le> 1" unfolding c' by simp
  define S where "S = unat v + unat carry"
  have S: "S \<le> 2 ^ 64" "S = 2 ^ 64 \<longrightarrow> carry = 1" "S = 0 \<longrightarrow> carry \<noteq> 1"
    using unat_less_64 [of v] assms(1) cs by (auto simp: S_def)
  have v': "unat v' = (S + unat hi) mod 2 ^ 64"
    unfolding assms(2) S_def by (simp add: unat_word_ariths mod_simps add.assoc)
  have le: "v' \<le> hi \<longleftrightarrow> unat v' \<le> unat hi" and ne: "v' \<noteq> hi \<longleftrightarrow> unat v' \<noteq> unat hi"
    by (simp_all add: word_le_nat_alt word_unat_eq_iff)
  have hi: "unat hi < 2 ^ 64" by (rule unat_less_64)
  have "unat v' + 2 ^ 64 * unat c' = S + unat hi"
  proof (cases "S + unat hi < 2 ^ 64")
    case True
    then have e: "unat v' = S + unat hi" using v' by simp
    then have "c' = 0" unfolding c' le ne using S(3) by auto
    then show ?thesis using e by simp
  next
    case False
    have lt: "S + unat hi < 2 * 2 ^ 64" using S(1) hi by linarith
    have e: "unat v' + 2 ^ 64 = S + unat hi"
      using v' mod_less [of "S + unat hi - 2 ^ 64" "2 ^ 64"] False lt unfolding le_mod_geq [OF leI [OF False]] by linarith
    have "unat v' \<le> unat hi" using e S(1) by linarith
    moreover have "carry = 1 \<or> unat v' \<noteq> unat hi" using e S(2) by linarith
    ultimately have "c' = 1" unfolding c' le ne by simp
    then show ?thesis using e by simp
  qed
  then show "unat v' + 2 ^ 64 * unat c' = unat v + unat carry + unat hi" by (simp add: S_def)
qed

lemma of_nat_wval: "ws \<noteq> [] \<Longrightarrow> (of_nat (wval ws) :: u64) = hd ws"
proof -
  have "(of_nat (2 ^ 64) :: u64) = 0" by simp
  then have "(of_nat (2 ^ 64 * k) :: u64) = 0" for k unfolding of_nat_mult by (simp only: mult_zero_left)
  then show "ws \<noteq> [] \<Longrightarrow> (of_nat (wval ws) :: u64) = hd ws" by (cases ws) (simp_all only: wval.simps of_nat_add list.sel, simp_all)
qed

text \<open>The multiplier clears the lowest word.\<close>

lemma mont_low_word:
  assumes "length x = length n" "n \<noteq> []" "hd n * n0 = - 1" "bn_mul_add_words x n (hd x * n0) = (ws, v)"
  shows "ws \<noteq> [] \<and> hd ws = 0"
proof -
  have m: "length ws = length x" "wval ws + weight (length x) * unat v = wval x + wval n * unat (hd x * n0)"
    using mul_add_loop_value [of x n "hd x * n0" 0] assms(1,4) by (simp_all add: bn_mul_add_words_def)
  have nonempty: "ws \<noteq> []" "x \<noteq> []" using m(1) assms(1,2) by auto
  have z: "(of_nat (weight (length x)) :: u64) = 0"
  proof -
    have "weight (length x) = 2 ^ 64 * weight (length x - 1)"
      using nonempty(2) by (cases x) (simp_all add: power_add)
    then have "(of_nat (weight (length x)) :: u64) = of_nat (2 ^ 64) * of_nat (weight (length x - 1))" by (simp only: of_nat_mult)
    also have "(of_nat (2 ^ 64) :: u64) = 0" by simp
    finally show ?thesis by simp
  qed
  have "(of_nat (wval ws + weight (length x) * unat v) :: u64) = of_nat (wval x + wval n * unat (hd x * n0))" by (simp only: m(2))
  then have "hd ws = hd x + hd n * (hd x * n0)"
    unfolding of_nat_add of_nat_mult z using of_nat_wval nonempty assms(2) by simp
  also have "\<dots> = hd x + hd x * (hd n * n0)" by (simp only: mult_ac)
  finally show ?thesis using nonempty(1) assms(3) by simp
qed

lemma split_at:
  assumes "length a = 2 * k" "i < k"
  obtains p x h s where "a = p @ x @ h # s" "length p = i" "length x = k" "length s = k - Suc i"
proof -
  have "a = take i a @ take k (drop i a) @ drop (i + k) a"
    by (metis append_take_drop_id drop_drop add.commute)
  moreover have "drop (i + k) a = a ! (i + k) # drop (Suc (i + k)) a" using assms by (intro Cons_nth_drop_Suc [symmetric]) simp
  ultimately have "a = take i a @ take k (drop i a) @ a ! (i + k) # drop (Suc (i + k)) a" by simp
  then show ?thesis using that [of "take i a" "take k (drop i a)" "a ! (i + k)" "drop (Suc (i + k)) a"] assms by simp
qed

lemma mont_round_value:
  assumes "length a = 2 * length n" "i < length n" "hd n * n0 = - 1" "unat c \<le> 1" "wval (take i a) = 0"
    "mont_round n n0 i (a, c) = (a', c')"
  shows "length a' = length a \<and> unat c' \<le> 1 \<and> wval (take (Suc i) a') = 0
    \<and> (\<exists>w < 2 ^ 64. wval a' + weight (length n + Suc i) * unat c' = wval a + weight (length n + i) * unat c + weight i * w * wval n)"
proof -
  obtain p x h s where a: "a = p @ x @ h # s" "length p = i" "length x = length n" "length s = length n - Suc i"
    by (rule split_at [OF assms(1,2)])
  have n: "n \<noteq> []" "x \<noteq> []" using assms(2) a(3) by auto
  have ai: "a ! i = hd x" "take (length n) (drop i a) = x" using a n by (simp_all add: nth_append hd_conv_nth)
  obtain ws v where m: "bn_mul_add_words x n (hd x * n0) = (ws, v)" by fastforce
  have mv: "length ws = length n" "wval ws + weight (length n) * unat v = wval x + wval n * unat (hd x * n0)"
    using mul_add_loop_value [of x n "hd x * n0" 0] a(3) m by (simp_all add: bn_mul_add_words_def)
  have put: "put_words i ws a = p @ ws @ h # s" using a mv(1) by (simp add: put_words_def)
  have hi: "(p @ ws @ h # s) ! (i + length n) = h" using a(2) mv(1) by (simp add: nth_append)
  define w where "w = v + (c + h)"
  have a': "a' = p @ ws @ w # s" and c': "c' = (c OR (if w \<noteq> h then 1 else 0)) AND (if w \<le> h then 1 else 0)"
    using assms(6) a(2) mv(1) by (auto simp: mont_round_def Let_def ai m put hi w_def list_update_append)
  note mc = mont_carry [OF assms(4) w_def c']
  have low: "ws \<noteq> []" "hd ws = 0" using mont_low_word [OF a(3) n(1) assms(3) m] by simp_all
  have p0: "wval p = 0" using assms(5) a(1,2) by simp
  have "take (Suc i) a' = p @ [hd ws]" using a' a(2) low(1) by (cases ws) simp_all
  then have "wval (take (Suc i) a') = 0" using p0 low(2) by (simp add: wval_append)
  moreover have "length a' = length a" using a' a mv(1) by simp
  moreover have "wval a' + weight (length n + Suc i) * unat c'
      = wval a + weight (length n + i) * unat c + weight i * unat (hd x * n0) * wval n"
  proof -
    have e: "weight (length n + Suc i) = weight i * (weight (length n) * 2 ^ 64)" "weight (length n + i) = weight i * weight (length n)"
      by (simp_all add: distrib_left power_add)
    have l: "wval a' = wval p + weight i * (wval ws + weight (length n) * (unat w + 2 ^ 64 * wval s))"
      "wval a = wval p + weight i * (wval x + weight (length n) * (unat h + 2 ^ 64 * wval s))"
      unfolding a' a(1) by (simp_all add: wval_append a(2,3) mv(1))
    have "wval ws + weight (length n) * (unat w + 2 ^ 64 * wval s) + weight (length n) * 2 ^ 64 * unat c'
        = wval x + weight (length n) * (unat h + 2 ^ 64 * wval s) + weight (length n) * unat c + unat (hd x * n0) * wval n"
    proof -
      have "wval ws + weight (length n) * (unat w + 2 ^ 64 * wval s) + weight (length n) * 2 ^ 64 * unat c'
          = wval ws + weight (length n) * (unat w + 2 ^ 64 * unat c') + weight (length n) * (2 ^ 64 * wval s)"
        by (simp only: distrib_left add.assoc add.commute [of "weight (length n) * (2 ^ 64 * wval s)"] mult.assoc)
      also have "\<dots> = (wval ws + weight (length n) * unat v) + weight (length n) * (unat c + unat h) + weight (length n) * (2 ^ 64 * wval s)"
        unfolding mc(1) by (simp only: distrib_left add.assoc)
      also have "\<dots> = (wval x + wval n * unat (hd x * n0)) + weight (length n) * (unat c + unat h) + weight (length n) * (2 ^ 64 * wval s)"
        unfolding mv(2) ..
      finally show ?thesis by (simp only: distrib_left mult.commute [of "wval n"] add_ac)
    qed
    from arg_cong [OF this, of "\<lambda>z. wval p + weight i * z"] show ?thesis
      unfolding e l by (simp only: distrib_left mult.assoc add.assoc)
  qed
  ultimately show ?thesis using mc(2) unat_less_64 [of "hd x * n0"] by blast
qed

lemma mont_rounds_value:
  assumes "length a = 2 * length n" "i \<le> length n" "hd n * n0 = - 1" "mont_rounds n n0 i (a, 0) = (a', c')"
  shows "length a' = length a \<and> unat c' \<le> 1 \<and> wval (take i a') = 0
    \<and> (\<exists>q < weight i. wval a' + weight (length n + i) * unat c' = wval a + q * wval n)"
  using assms(2,4)
proof (induction i arbitrary: a' c')
  case 0
  then show ?case by (auto intro: exI [of _ 0])
next
  case (Suc i)
  obtain b c where b: "mont_rounds n n0 i (a, 0) = (b, c)" by fastforce
  have i: "i < length n" "i \<le> length n" using Suc.prems(1) by simp_all
  obtain q where q: "length b = length a" "unat c \<le> 1" "wval (take i b) = 0" "q < weight i"
    "wval b + weight (length n + i) * unat c = wval a + q * wval n"
    using Suc.IH [OF i(2) b] by blast
  have lb: "length b = 2 * length n" using q(1) assms(1) by simp
  have "mont_round n n0 i (b, c) = (a', c')" using Suc.prems(2) b by simp
  from mont_round_value [OF lb i(1) assms(3) q(2,3) this]
  obtain w where w: "length a' = length b" "unat c' \<le> 1" "wval (take (Suc i) a') = 0" "w < 2 ^ 64"
    "wval a' + weight (length n + Suc i) * unat c' = wval b + weight (length n + i) * unat c + weight i * w * wval n" by blast
  have "weight i * Suc w \<le> weight i * 2 ^ 64" using w(4) unfolding Suc_le_eq [symmetric] by (rule mult_le_mono2)
  moreover have "weight (Suc i) = weight i * 2 ^ 64" by (simp add: power_add)
  ultimately have "q + weight i * w < weight (Suc i)" using q(4) unfolding mult_Suc_right by linarith
  moreover have "wval a' + weight (length n + Suc i) * unat c' = wval a + (q + weight i * w) * wval n"
    unfolding w(5) q(5) by (simp only: distrib_right add.assoc)
  ultimately show ?case using w(1-3) q(1) by auto
qed

text \<open>What the reduction computes: the number that is congruent to \<open>a\<close> divided by the weight of the modulus.\<close>

lemma from_montgomery_words_value:
  assumes "length a = 2 * length n" "hd n * n0 = - 1" "wval a < wval n * weight (length n)" "from_montgomery_words n n0 a = (r, a')"
  shows "length r = length n" "wval r < wval n" "(wval r * weight (length n)) mod wval n = wval a mod wval n" "length a' = length a"
proof -
  let ?k = "length n" and ?W = "weight (length n)"
  obtain b c where b: "mont_rounds n n0 ?k (a, 0) = (b, c)" by fastforce
  obtain q where q: "length b = length a" "unat c \<le> 1" "wval (take ?k b) = 0" "q < ?W"
    "wval b + weight (?k + ?k) * unat c = wval a + q * wval n"
    using mont_rounds_value [OF assms(1) order_refl assms(2) b] by blast
  define x where "x = wval (drop ?k b) + ?W * unat c"
  have "wval b = ?W * wval (drop ?k b)"
    using wval_take_drop [of b ?k] q(1,3) assms(1) by simp
  then have x: "?W * x = wval a + q * wval n"
    using q(5) by (simp only: x_def distrib_left power_add mult.assoc)
  have nz: "0 < wval n" using assms(3) by (cases "wval n") simp_all
  have "q * wval n < ?W * wval n" using q(4) nz by simp
  then have "?W * x < ?W * (2 * wval n)" using assms(3) x unfolding mult.commute [of "wval n" ?W] mult.left_commute [of ?W 2] by linarith
  then have lt: "x < 2 * wval n" unfolding mult_less_cancel1 by (rule conjunct2)
  obtain t where t: "bn_reduce_once (drop ?k b) c n = (r, t)" "a' = b"
    using that assms(4) b by (cases "bn_reduce_once (drop ?k b) c n") (simp add: from_montgomery_words_def)
  have l: "length (drop ?k b) = ?k" using q(1) assms(1) by simp
  note v = reduce_once_value [OF l lt [unfolded x_def] t(1), folded x_def]
  show "length r = ?k" by (rule v(1))
  show "wval r < wval n" unfolding v(2) using nz by simp
  have "(wval r * ?W) mod wval n = (?W * x) mod wval n" unfolding v(2) by (simp add: mod_simps mult.commute)
  then show "(wval r * ?W) mod wval n = wval a mod wval n" unfolding x by simp
  show "length a' = length a" using t(2) q(1) by simp
qed


section \<open>Properties\<close>

text \<open>
  C34: With the multiplier that \<open>bn_mont_n0\<close> computes for it, the word-by-word reduction of an array below \<open>N * R\<close>
  leaves the array's length, and gives the number below the odd modulus \<open>N\<close> that is congruent to the array divided by
  \<open>R\<close>; the carry that the loop keeps apart loses nothing.
\<close>

theorem montgomery_reduction_exact:
  assumes "odd (wval n)" "length a = 2 * length n" "wval a < wval n * 2 ^ (64 * length n)"
  shows "case from_montgomery_words n (bn_neg_inv_mod_r_u64 (hd n)) a of (r, a') \<Rightarrow>
    length r = length n \<and> wval r < wval n \<and> (wval r * 2 ^ (64 * length n)) mod wval n = wval a mod wval n \<and> length a' = length a"
proof -
  obtain r a' where r: "from_montgomery_words n (bn_neg_inv_mod_r_u64 (hd n)) a = (r, a')" by fastforce
  have "odd (unat (hd n))" using assms(1) by (cases n) simp_all
  then have "hd n * bn_neg_inv_mod_r_u64 (hd n) = - 1" unfolding mult.commute [of "hd n"] by (rule neg_inv_value)
  from from_montgomery_words_value [OF assms(2) this assms(3) r] show ?thesis by (simp add: r)
qed

theorem montgomery_reduction_exact_witness:
  "case from_montgomery_words [7] (bn_neg_inv_mod_r_u64 (hd [7])) [5, 3] of (r, a') \<Rightarrow>
    length r = length [7 :: u64] \<and> wval r < wval [7] \<and> (wval r * 2 ^ (64 * length [7 :: u64])) mod wval [7] = wval [5, 3] mod wval [7]
      \<and> length a' = length [5, 3 :: u64]"
  by (rule montgomery_reduction_exact) simp_all

end
