(* ===== verification/Bn_Mont.thy ===== *)
theory Bn_Mont imports Bn_Mont_Words Bn_Mod begin

text \<open>
  Montgomery arithmetic (\<open>montgomery.c\<close>, and \<open>bn_mod_exp_base_2_consttime\<close> of \<open>montgomery_inv.c\<close>), in the variant
  without assembly. \<open>mont_rep\<close> says which number a Montgomery form stands for.
\<close>

section \<open>Operations\<close>

text \<open>\<open>struct bn_mont_ctx_st\<close>; \<open>mont_n0\<close> is the array of two words.\<close>

record bn_mont_ctx =
  mont_RR :: bignum
  mont_N :: bignum
  mont_n0 :: "u64 list"

type_synonym 'a mont_op = "(bn_mont_ctx, 'a) op"

definition sizeof_BN_MONT_CTX :: nat where
  "sizeof_BN_MONT_CTX = 64"

definition BN_MONT_CTX_new :: "malloc_fn \<Rightarrow> bn_mont_ctx option" where
  "BN_MONT_CTX_new ma =
     (case OPENSSL_malloc ma sizeof_BN_MONT_CTX of
        None \<Rightarrow> None
      | Some _ \<Rightarrow> Some \<lparr>mont_RR = BN_init, mont_N = BN_init, mont_n0 = [0, 0]\<rparr>)"

definition on_RR :: "'a bn_op \<Rightarrow> 'a mont_op" where
  "on_RR m mont = (case m (mont_RR mont) of (x, n) \<Rightarrow> (x, mont\<lparr>mont_RR := n\<rparr>))"

definition on_N :: "'a bn_op \<Rightarrow> 'a mont_op" where
  "on_N m mont = (case m (mont_N mont) of (x, n) \<Rightarrow> (x, mont\<lparr>mont_N := n\<rparr>))"

definition BN_MONT_CTX_copy :: "malloc_fn \<Rightarrow> bool \<Rightarrow> bn_mont_ctx \<Rightarrow> unit mont_op" where
  "BN_MONT_CTX_copy ma same from_ctx =
     (if same then op_return ()
      else
        op_bind (on_RR (BN_copy ma (mont_RR from_ctx))) (\<lambda>_.
        op_bind (on_N (BN_copy ma (mont_N from_ctx))) (\<lambda>_ to.
          (Some (), to\<lparr>mont_n0 := [mont_n0 from_ctx ! 0, mont_n0 from_ctx ! 1]\<rparr>))))"

definition bn_mont_ctx_set_N_and_n0 :: "malloc_fn \<Rightarrow> bignum \<Rightarrow> unit mont_op" where
  "bn_mont_ctx_set_N_and_n0 ma modulus =
     (if BN_is_zero modulus then op_fail
      else if \<not> BN_is_odd modulus then op_fail
      else if BN_is_negative modulus then op_fail
      else
        op_bind (on_N (BN_copy ma modulus)) (\<lambda>_ mont.
          let n = bn_set_minimal_width (mont_N mont) in
          (Some (), mont\<lparr>mont_N := n, mont_n0 := [bn_mont_n0 n, 0]\<rparr>)))"

definition BN_MONT_CTX_set :: "malloc_fn \<Rightarrow> bignum \<Rightarrow> (bn_mont_ctx \<times> bn_ctx option, unit) op" where
  "BN_MONT_CTX_set ma modulus = (\<lambda>(mont, ctx).
     case bn_mont_ctx_set_N_and_n0 ma modulus mont of
       (None, mont) \<Rightarrow> (None, mont, ctx)
     | (Some _, mont) \<Rightarrow>
         (case (case ctx of None \<Rightarrow> BN_CTX_new ma | Some c \<Rightarrow> Some c) of
            None \<Rightarrow> (None, mont, ctx)
          | Some c \<Rightarrow>
              let n = mont_N mont;
                  lgBigR = of_nat (bn_width n * 64) :: u32;
                  (x, rr, c) =
                    op_bind (on_number (BN_set_bit ma (sint (lgBigR * 2)))) (\<lambda>_.
                    op_bind (\<lambda>(rr, c). BN_mod ma rr n (rr, c)) (\<lambda>_.
                    on_number (bn_resize_words ma (bn_width n)))) (BN_zero (mont_RR mont), c) in
              (x, mont\<lparr>mont_RR := rr\<rparr>, map_option (\<lambda>_. c) ctx)))"

definition BN_MONT_CTX_new_for_modulus :: "malloc_fn \<Rightarrow> bignum \<Rightarrow> bn_ctx option \<Rightarrow> bn_mont_ctx option \<times> bn_ctx option" where
  "BN_MONT_CTX_new_for_modulus ma modulus ctx =
     (case BN_MONT_CTX_new ma of
        None \<Rightarrow> (None, ctx)
      | Some mont \<Rightarrow>
          (case BN_MONT_CTX_set ma modulus (mont, ctx) of
             (None, mont, ctx) \<Rightarrow> (None, ctx)
           | (Some _, mont, ctx) \<Rightarrow> (Some mont, ctx)))"

definition bn_mod_exp_base_2_consttime :: "malloc_fn \<Rightarrow> u32 \<Rightarrow> bignum \<Rightarrow> unit pool_op" where
  "bn_mod_exp_base_2_consttime ma p n = (\<lambda>(r, ctx).
     let n_bits = of_nat (BN_num_bits n) :: u32 in
     if n_bits = 1 then (Some (), BN_zero r, ctx)
     else
       op_bind (on_number (BN_set_bit ma (sint (n_bits - 1)))) (\<lambda>_ (r, ctx).
         bn_mod_lshift_consttime ma r (sint (p - (n_bits - 1))) n (r, ctx)) (BN_zero r, ctx))"

definition BN_MONT_CTX_new_consttime :: "malloc_fn \<Rightarrow> bignum \<Rightarrow> bn_ctx \<Rightarrow> bn_mont_ctx option \<times> bn_ctx" where
  "BN_MONT_CTX_new_consttime ma modulus ctx =
     (case BN_MONT_CTX_new ma of
        None \<Rightarrow> (None, ctx)
      | Some mont \<Rightarrow>
          (case bn_mont_ctx_set_N_and_n0 ma modulus mont of
             (None, mont) \<Rightarrow> (None, ctx)
           | (Some _, mont) \<Rightarrow>
               let n = mont_N mont;
                   lgBigR = of_nat (bn_width n * 64) :: u32 in
               (case op_bind (bn_mod_exp_base_2_consttime ma (lgBigR * 2) n) (\<lambda>_. on_number (bn_resize_words ma (bn_width n)))
                       (mont_RR mont, ctx) of
                  (None, _, ctx) \<Rightarrow> (None, ctx)
                | (Some _, rr, ctx) \<Rightarrow> (Some (mont\<lparr>mont_RR := rr\<rparr>), ctx))))"

text \<open>The reduction of an array; the result is \<open>num_r\<close> words, and the array is overwritten.\<close>

definition bn_from_montgomery_in_place :: "bn_mont_ctx \<Rightarrow> nat \<Rightarrow> u64 list \<Rightarrow> (u64 list \<times> u64 list) option" where
  "bn_from_montgomery_in_place mont num_r a =
     (let num_n = bn_width (mont_N mont) in
      if num_r \<noteq> num_n \<or> length a \<noteq> 2 * num_n then None
      else Some (from_montgomery_words (bn_words (mont_N mont)) (mont_n0 mont ! 0) a))"

text \<open>An operation on the result and a second number.\<close>

definition BN_from_montgomery_word :: "malloc_fn \<Rightarrow> bn_mont_ctx \<Rightarrow> (bignum \<times> bignum, unit) op" where
  "BN_from_montgomery_word ma mont = (\<lambda>(ret, r).
     if bn_neg r then (None, ret, r)
     else
       let n = mont_N mont in
       if bn_width n = 0 then (Some (), ret\<lparr>bn_width := 0\<rparr>, r)
       else
         case bn_resize_words ma (2 * bn_width n) r of
           (None, r) \<Rightarrow> (None, ret, r)
         | (Some _, r) \<Rightarrow>
             (case bn_wexpand ma (bn_width n) ret of
                (None, ret) \<Rightarrow> (None, ret, r)
              | (Some _, ret) \<Rightarrow>
                  let ret = ret\<lparr>bn_width := bn_width n, bn_neg := False\<rparr> in
                  (case bn_from_montgomery_in_place mont (bn_width ret) (bn_words r) of
                     None \<Rightarrow> (None, ret, r)
                   | Some (ws, a) \<Rightarrow>
                       (Some (), ret\<lparr>bn_d := put_words 0 ws (bn_d ret)\<rparr>, r\<lparr>bn_d := put_words 0 a (bn_d r)\<rparr>))))"

definition on_pair :: "nat \<Rightarrow> (bignum \<times> bignum, 'a) op \<Rightarrow> 'a pool_op" where
  "on_pair t m = (\<lambda>(r, ctx).
     case slot ctx t of
       None \<Rightarrow> (None, r, ctx)
     | Some x \<Rightarrow> (case m (r, x) of (y, r, x) \<Rightarrow> (y, r, put_slot t x ctx)))"

definition BN_from_montgomery :: "malloc_fn \<Rightarrow> bignum \<Rightarrow> bn_mont_ctx \<Rightarrow> unit pool_op" where
  "BN_from_montgomery ma a mont =
     in_frame ma
       (op_bind (on_pool (BN_CTX_get ma)) (\<lambda>t.
        op_bind (on_pool (on_slot t (BN_copy ma a))) (\<lambda>_.
        on_pair t (BN_from_montgomery_word ma mont))))"

definition bn_one_to_montgomery :: "malloc_fn \<Rightarrow> bn_mont_ctx \<Rightarrow> unit pool_op" where
  "bn_one_to_montgomery ma mont =
     (let n = mont_N mont in
      if 0 < bn_width n \<and> drop_bit 63 (bn_d n ! (bn_width n - 1)) \<noteq> 0 then
        op_bind (on_number (bn_wexpand ma (bn_width n))) (\<lambda>_. on_number (\<lambda>r.
          (Some (), r\<lparr>bn_d := put_words 0 ((0 - bn_d n ! 0) # map (\<lambda>w. NOT w) (drop 1 (bn_words n))) (bn_d r),
                      bn_width := bn_width n, bn_neg := False\<rparr>)))
      else BN_from_montgomery ma (mont_RR mont) mont)"

text \<open>\<open>same\<close> says that the two factors are one number.\<close>

definition bn_mod_mul_montgomery_fallback :: "malloc_fn \<Rightarrow> bool \<Rightarrow> bignum \<Rightarrow> bignum \<Rightarrow> bn_mont_ctx \<Rightarrow> unit pool_op" where
  "bn_mod_mul_montgomery_fallback ma same a b mont =
     in_frame ma
       (op_bind (on_pool (BN_CTX_get ma)) (\<lambda>tmp.
        op_bind (on_pool (with_slot tmp (if same then bn_sqr_consttime ma False a else bn_mul_consttime ma False a b))) (\<lambda>_.
        on_pair tmp (BN_from_montgomery_word ma mont))))"

definition BN_mod_mul_montgomery :: "malloc_fn \<Rightarrow> bool \<Rightarrow> bignum \<Rightarrow> bignum \<Rightarrow> bn_mont_ctx \<Rightarrow> unit pool_op" where
  "BN_mod_mul_montgomery ma same a b mont =
     (if bn_neg a \<or> bn_neg b then op_fail else bn_mod_mul_montgomery_fallback ma same a b mont)"

definition BN_to_montgomery :: "malloc_fn \<Rightarrow> bignum \<Rightarrow> bn_mont_ctx \<Rightarrow> unit pool_op" where
  "BN_to_montgomery ma a mont = BN_mod_mul_montgomery ma False a (mont_RR mont) mont"

definition bn_less_than_montgomery_R :: "bignum \<Rightarrow> bn_mont_ctx \<Rightarrow> bool" where
  "bn_less_than_montgomery_R bn mont \<longleftrightarrow> \<not> BN_is_negative bn \<and> bn_fits_in_words bn (bn_width (mont_N mont))"

text \<open>The operations on arrays of at most \<open>BN_SMALL_MAX_WORDS\<close> words abort on other lengths (\<open>None\<close>).\<close>

definition bn_from_montgomery_small :: "u64 list \<Rightarrow> nat \<Rightarrow> bn_mont_ctx \<Rightarrow> u64 list option" where
  "bn_from_montgomery_small a num mont =
     (if num \<noteq> bn_width (mont_N mont) \<or> BN_SMALL_MAX_WORDS < num then None
      else map_option fst (bn_from_montgomery_in_place mont num (take num a @ replicate num 0)))"

definition bn_mod_mul_montgomery_small :: "bool \<Rightarrow> u64 list \<Rightarrow> u64 list \<Rightarrow> nat \<Rightarrow> bn_mont_ctx \<Rightarrow> u64 list option" where
  "bn_mod_mul_montgomery_small same a b num mont =
     (if num \<noteq> bn_width (mont_N mont) \<or> BN_SMALL_MAX_WORDS < num then None
      else
        case (if same then bn_sqr_small (2 * num) (take num a) else bn_mul_small (2 * num) (take num a) (take num b)) of
          None \<Rightarrow> None
        | Some tmp \<Rightarrow> map_option fst (bn_from_montgomery_in_place mont num tmp))"

definition bn_to_montgomery_small :: "u64 list \<Rightarrow> nat \<Rightarrow> bn_mont_ctx \<Rightarrow> u64 list option" where
  "bn_to_montgomery_small a num mont = bn_mod_mul_montgomery_small False a (bn_d (mont_RR mont)) num mont"


section \<open>Numbers in Montgomery form\<close>

text \<open>A context that is set up.\<close>

definition mont_ok :: "bn_mont_ctx \<Rightarrow> bool" where
  "mont_ok mont \<longleftrightarrow> bn_ok (mont_N mont) \<and> \<not> bn_neg (mont_N mont) \<and> odd (bn_mag (mont_N mont)) \<and> 0 < bn_width (mont_N mont)
     \<and> 16 * bn_width (mont_N mont) \<le> bn_max_words
     \<and> hd (bn_words (mont_N mont)) * (mont_n0 mont ! 0) = - 1
     \<and> bn_ok (mont_RR mont) \<and> \<not> bn_neg (mont_RR mont) \<and> bn_width (mont_RR mont) = bn_width (mont_N mont)
     \<and> bn_mag (mont_RR mont) = (weight (bn_width (mont_N mont)) * weight (bn_width (mont_N mont))) mod bn_mag (mont_N mont)"

abbreviation mont_modulus :: "bn_mont_ctx \<Rightarrow> nat" where
  "mont_modulus mont \<equiv> bn_mag (mont_N mont)"

abbreviation mont_width :: "bn_mont_ctx \<Rightarrow> nat" where
  "mont_width mont \<equiv> bn_width (mont_N mont)"

abbreviation mont_R :: "bn_mont_ctx \<Rightarrow> nat" where
  "mont_R mont \<equiv> weight (mont_width mont)"

text \<open>\<open>x\<close> is the Montgomery form of \<open>v\<close>.\<close>

definition mont_rep :: "bn_mont_ctx \<Rightarrow> nat \<Rightarrow> bignum \<Rightarrow> bool" where
  "mont_rep mont v x \<longleftrightarrow> bn_ok x \<and> \<not> bn_neg x \<and> bn_width x = mont_width mont \<and> bn_mag x = (v * mont_R mont) mod mont_modulus mont"

lemma modulus_less_R: "mont_ok mont \<Longrightarrow> 0 < mont_modulus mont \<and> mont_modulus mont < mont_R mont"
  using wval_less [of "bn_words (mont_N mont)"] by (auto simp: mont_ok_def bn_mag_def intro: Nat.gr0I)

text \<open>The weight can be cancelled modulo an odd number.\<close>

lemma cancel_weight:
  assumes "odd n" "(x * weight k) mod n = (y * weight k) mod n"
  shows "x mod n = y mod (n :: nat)"
proof -
  have "coprime (int n) (2 ^ (64 * k))" using assms(1) by (simp add: coprime_commute)
  moreover have "int (x * weight k) mod int n = int (y * weight k) mod int n" using assms(2) by (simp only: zmod_int [symmetric])
  then have "int n dvd (int x - int y) * 2 ^ (64 * k)" by (simp add: mod_eq_dvd_iff left_diff_distrib)
  ultimately have "int n dvd int x - int y" by (simp add: coprime_dvd_mult_left_iff)
  then have "int x mod int n = int y mod int n" by (simp add: mod_eq_dvd_iff)
  then show ?thesis by (metis zmod_int of_nat_eq_iff)
qed

lemma reduced_value:
  assumes "odd n" "x < n" "(x * weight k) mod n = (y * weight k) mod n"
  shows "x = y mod (n :: nat)"
  using cancel_weight [OF assms(1,3)] assms(2) by simp

lemma mont_rep_cong: "v mod mont_modulus mont = w mod mont_modulus mont \<Longrightarrow> mont_rep mont v x \<longleftrightarrow> mont_rep mont w x"
proof -
  assume "v mod mont_modulus mont = w mod mont_modulus mont"
  then have "(v * mont_R mont) mod mont_modulus mont = (w * mont_R mont) mod mont_modulus mont" by (metis mod_mult_left_eq)
  then show ?thesis by (simp add: mont_rep_def)
qed

text \<open>What a reduction makes of the values.\<close>

lemma rep_product:
  assumes "mont_ok mont" "mont_rep mont v a" "mont_rep mont w b" "bn_mag r < mont_modulus mont"
    "(bn_mag r * mont_R mont) mod mont_modulus mont = (bn_mag a * bn_mag b) mod mont_modulus mont"
    "bn_ok r" "\<not> bn_neg r" "bn_width r = mont_width mont"
  shows "mont_rep mont (v * w) r"
proof -
  have o: "odd (mont_modulus mont)" using assms(1) by (simp add: mont_ok_def)
  have "(bn_mag r * mont_R mont) mod mont_modulus mont = ((v * mont_R mont) * (w * mont_R mont)) mod mont_modulus mont"
    unfolding assms(5) using assms(2,3) by (simp add: mont_rep_def mod_simps)
  then have "(bn_mag r * mont_R mont) mod mont_modulus mont = ((v * w * mont_R mont) * mont_R mont) mod mont_modulus mont"
    by (simp only: mult_ac)
  then have "bn_mag r = (v * w * mont_R mont) mod mont_modulus mont" by (rule reduced_value [OF o assms(4)])
  then show ?thesis using assms(6-8) by (simp add: mont_rep_def)
qed

lemma rep_of_RR: "mont_ok mont \<Longrightarrow> mont_rep mont (mont_R mont) (mont_RR mont)"
  by (simp add: mont_ok_def mont_rep_def)

section \<open>Resizing\<close>

lemma resize_run:
  assumes "malloc_total ma" "bn_ok bn" "bn_mag bn < weight n" "bn_room bn n"
  obtains bn' where "bn_resize_words ma n bn = (Some (), bn')" "bn_ok bn'" "bn_mag bn' = bn_mag bn" "bn_width bn' = n"
    "bn_neg bn' = bn_neg bn" "bn_static bn' = bn_static bn"
proof (cases "bn_width bn \<le> n")
  case True
  obtain z where z: "bn_wexpand ma n bn = (Some (), z)" by (rule wexpand_room [OF assms(1,4)])
  note w = wexpand [OF assms(2) z]
  let ?z = "replicate (n - bn_width bn) 0"
  define y where "y = z\<lparr>bn_d := put_words (bn_width z) ?z (bn_d z), bn_width := n\<rparr>"
  have d: "bn_d y = bn_words bn @ ?z @ drop n (bn_d z)"
    using True w by (simp add: y_def put_words_def bn_words_def)
  have l: "length (bn_words bn) = bn_width bn" using assms(2) by simp
  have t: "bn_words y = bn_words bn @ ?z" unfolding bn_words_def [of y] d using l True by (simp add: y_def)
  have ok: "bn_ok y" using arg_cong [OF d, of length] l True w(2) by (simp add: bn_ok_def y_def)
  have "bn_resize_words ma n bn = (Some (), y)" using True z w(4) by (simp add: bn_resize_words_def op_bind_def y_def)
  then show ?thesis using that [OF _ ok] t w by (simp add: bn_mag_def wval_append y_def)
next
  case False
  have fits: "bn_fits_in_words bn n" using assms(3) fits_iff [OF assms(2)] by simp
  let ?y = "bn\<lparr>bn_width := n\<rparr>"
  have ok: "bn_ok ?y" using assms(2) False by (simp add: bn_ok_def)
  have w: "bn_words ?y = take n (bn_words bn)" using False by (simp add: bn_words_def min_absorb1)
  have ln: "length (take n (bn_words bn)) = n" using False assms(2) by simp
  have "bn_mag bn = wval (take n (bn_words bn)) + weight n * wval (drop n (bn_words bn))"
    using wval_take_drop [of "bn_words bn" n] ln by (simp add: bn_mag_def)
  moreover have "wval (take n (bn_words bn)) < weight n" using wval_less [of "take n (bn_words bn)"] ln by simp
  ultimately have "bn_mag ?y = bn_mag bn" unfolding bn_mag_def [of ?y] w using assms(3) low_part_iff by (metis add_0_right mult_0_right)
  then show ?thesis using that [OF _ ok] False fits by (simp add: bn_resize_words_def)
qed

section \<open>The reduction of a number\<close>

lemma hd_words: "bn_ok n \<Longrightarrow> 0 < bn_width n \<Longrightarrow> hd (bn_words n) = bn_d n ! 0"
  by (cases "bn_d n") (simp_all add: bn_ok_def bn_words_def take_Cons')

lemma from_word_run:
  assumes "malloc_total ma" "mont_ok mont" "bn_ok x" "\<not> bn_neg x" "\<not> bn_static x" "bn_mag x < mont_modulus mont * mont_R mont"
    "bn_ok r" "bn_room r (mont_width mont)"
  obtains r' x' where "BN_from_montgomery_word ma mont (r, x) = (Some (), r', x')" "bn_ok r'" "\<not> bn_neg r'" "bn_width r' = mont_width mont"
    "bn_static r' = bn_static r" "bn_mag r' < mont_modulus mont"
    "(bn_mag r' * mont_R mont) mod mont_modulus mont = bn_mag x mod mont_modulus mont" "bn_ok x'" "\<not> bn_static x'"
proof -
  let ?n = "mont_N mont" and ?w = "mont_width mont"
  have m: "bn_ok ?n" "0 < ?w" "16 * ?w \<le> bn_max_words" "hd (bn_words ?n) * (mont_n0 mont ! 0) = - 1"
    using assms(2) by (simp_all add: mont_ok_def)
  have R: "mont_modulus mont < mont_R mont" using modulus_less_R [OF assms(2)] by simp
  have "mont_modulus mont * mont_R mont < mont_R mont * mont_R mont" using R by simp
  then have small: "bn_mag x < weight (2 * ?w)" using assms(6) by (simp add: power_add [symmetric] mult_2)
  have room: "bn_room x (2 * ?w)" using assms(5) m(3) by (simp add: bn_room_def)
  obtain y where y: "bn_resize_words ma (2 * ?w) x = (Some (), y)" "bn_ok y" "bn_mag y = bn_mag x" "bn_width y = 2 * ?w" "bn_static y = bn_static x"
    by (rule resize_run [OF assms(1,3) small room])
  obtain s where s: "bn_wexpand ma ?w r = (Some (), s)" by (rule wexpand_room [OF assms(1,8)])
  note ws = wexpand [OF assms(7) s]
  obtain z a where z: "from_montgomery_words (bn_words ?n) (mont_n0 mont ! 0) (bn_words y) = (z, a)" by fastforce
  have ln: "length (bn_words ?n) = ?w" "length (bn_words y) = 2 * ?w" using m(1) y(2,4) by simp_all
  have v: "length z = ?w" "wval z < mont_modulus mont" "(wval z * mont_R mont) mod mont_modulus mont = bn_mag x mod mont_modulus mont" "length a = 2 * ?w"
    using from_montgomery_words_value [of "bn_words y" "bn_words ?n" "mont_n0 mont ! 0", OF _ m(4) _ z] ln assms(6) y(3) by (simp_all add: bn_mag_def)
  define r' where "r' = s\<lparr>bn_width := ?w, bn_neg := False, bn_d := put_words 0 z (bn_d s)\<rparr>"
  define x' where "x' = y\<lparr>bn_d := put_words 0 a (bn_d y)\<rparr>"
  have r': "bn_ok r'" "bn_words r' = z" using put_words_0 [of z "bn_d s"] v(1) ws(2) by (simp_all add: r'_def bn_ok_def bn_words_def)
  have ly: "2 * ?w \<le> length (bn_d y)" using y(2,4) by (simp add: bn_ok_def)
  then have x': "bn_ok x'" "\<not> bn_static x'" using put_words_0 [of a "bn_d y"] v(4) y(4,5) assms(5) by (simp_all add: x'_def bn_ok_def)
  have run: "BN_from_montgomery_word ma mont (r, x) = (Some (), r', x')"
    using assms(4) m(2) y(1) s ln(2) z y(4)
    by (simp add: BN_from_montgomery_word_def bn_from_montgomery_in_place_def r'_def x'_def)
  have mag: "bn_mag r' = wval z" unfolding bn_mag_def r'(2) ..
  show ?thesis
    by (rule that [OF run r'(1) _ _ _ v(2,3) [folded mag] x']) (use ws(6) in \<open>simp_all add: r'_def\<close>)
qed

text \<open>The frame that holds the number to be reduced; \<open>fill\<close> puts it into the temporary.\<close>

lemma reduce_in_frame:
  assumes "malloc_total ma" "mont_ok mont" "ctx_fit e ctx" "e + 2 + k \<le> pool_max" "bn_ok r" "bn_room r (mont_width mont)"
    "\<And>i c x. ctx_fit (e + 2) c \<Longrightarrow> slot c i = Some x \<Longrightarrow> bn_ok x \<Longrightarrow> bn_width x = 0 \<Longrightarrow> \<not> bn_static x \<Longrightarrow> i < ctx_used c \<Longrightarrow>
       \<exists>y c'. fill i c = (Some (), put_slot i y c') \<and> pool_same (e + 2 + k) c c'
         \<and> bn_ok y \<and> \<not> bn_neg y \<and> \<not> bn_static y \<and> bn_mag y = v"
    "v < mont_modulus mont * mont_R mont"
  obtains r' ctx' where
    "in_frame ma (op_bind (on_pool (BN_CTX_get ma)) (\<lambda>t. op_bind (on_pool (fill t)) (\<lambda>_ :: unit.
        on_pair t (BN_from_montgomery_word ma mont)))) (r, ctx) = (Some (), r', ctx')"
    "bn_ok r'" "\<not> bn_neg r'" "bn_width r' = mont_width mont" "bn_static r' = bn_static r" "bn_mag r' < mont_modulus mont"
    "(bn_mag r' * mont_R mont) mod mont_modulus mont = v mod mont_modulus mont" "ctx_fit e ctx'" "pool_restored e ctx ctx'"
proof -
  let ?c = "BN_CTX_start ma ctx"
  have e: "e \<le> pool_max" "Suc e \<le> pool_max" using assms(4) by simp_all
  note sf = start_fit(1) [OF assms(1,3) e(1)]
  let ?t = "ctx_used ?c"
  obtain c1 x where g: "BN_CTX_get ma ?c = (Some ?t, c1)" "pool_same (Suc (Suc e)) ?c c1" "ctx_used c1 = ?t + 1" "slot c1 ?t = Some x" "bn_ok x" "bn_width x = 0" "\<not> bn_static x"
    by (rule get_same [OF assms(1) sf e(2)]) blast
  have f1: "ctx_fit (e + 2) c1" using g(2) by (simp add: pool_same_def)
  obtain y c2 where f: "fill ?t c1 = (Some (), put_slot ?t y c2)" "pool_same (e + 2 + k) c1 c2" "bn_ok y" "\<not> bn_neg y" "\<not> bn_static y" "bn_mag y = v"
    using assms(7) [OF f1 g(4-7)] g(3) by auto
  have s2: "slot c2 ?t = Some x" using f(2) g(3,4) by (simp add: pool_same_def)
  have p2: "pool_same (e + 2 + k) ?c c2" by (rule pool_same_trans [OF g(2) f(2)])
  note p3 = put_same [OF p2 s2 order_refl f(3,5)]
  have f2: "ctx_fit (e + 2 + k) c2" using f(2) by (simp add: pool_same_def)
  have s3: "slot (put_slot ?t y c2) ?t = Some y" using put_fit(4) [OF f2 s2 f(3,5)] by simp
  have lt: "bn_mag y < mont_modulus mont * mont_R mont" using f(6) assms(8) by simp
  obtain r' x' where w: "BN_from_montgomery_word ma mont (r, y) = (Some (), r', x')" "bn_ok r'" "\<not> bn_neg r'" "bn_width r' = mont_width mont"
    "bn_static r' = bn_static r" "bn_mag r' < mont_modulus mont"
    "(bn_mag r' * mont_R mont) mod mont_modulus mont = bn_mag y mod mont_modulus mont" "bn_ok x'" "\<not> bn_static x'"
    by (rule from_word_run [OF assms(1,2) f(3-5) lt assms(5,6)])
  note p4 = put_same [OF p3 s3 order_refl w(8,9)]
  have "in_frame ma (op_bind (on_pool (BN_CTX_get ma)) (\<lambda>t. op_bind (on_pool (fill t)) (\<lambda>_.
        on_pair t (BN_from_montgomery_word ma mont)))) (r, ctx) = (Some (), r', BN_CTX_end (put_slot ?t x' (put_slot ?t y c2)))"
    using g(1) f(1) s3 w(1) by (simp add: in_frame_def op_bind_def on_pool_def on_pair_def)
  then show ?thesis
    using that [OF _ w(2-6) w(7) [unfolded f(6)]] pool_restored_fit [OF assms(3) frame_restored [OF assms(1,3) e(1) p4]] by blast
qed


lemma from_montgomery_run:
  assumes "malloc_total ma" "mont_ok mont" "bn_ok a" "\<not> bn_neg a" "bn_mag a < mont_modulus mont * mont_R mont" "bn_width a \<le> bn_max_words"
    "bn_ok r" "bn_room r (mont_width mont)" "ctx_fit e ctx" "e + 2 \<le> pool_max"
  obtains r' ctx' where "BN_from_montgomery ma a mont (r, ctx) = (Some (), r', ctx')"
    "bn_ok r'" "\<not> bn_neg r'" "bn_width r' = mont_width mont" "bn_static r' = bn_static r" "bn_mag r' < mont_modulus mont"
    "(bn_mag r' * mont_R mont) mod mont_modulus mont = bn_mag a mod mont_modulus mont" "ctx_fit e ctx'" "pool_restored e ctx ctx'"
proof -
  have e: "e + 2 + 0 \<le> pool_max" using assms(10) by simp
  have fill: "\<exists>y c'. on_slot i (BN_copy ma a) c = (Some (), put_slot i y c') \<and> pool_same (e + 2 + 0) c c'
         \<and> bn_ok y \<and> \<not> bn_neg y \<and> \<not> bn_static y \<and> bn_mag y = bn_mag a"
    if c: "ctx_fit (e + 2) c" "slot c i = Some x" "bn_ok x" "\<not> bn_static x" for i c x
  proof -
    have room: "bn_room x (bn_width a)" using that(4) assms(6) by (simp add: bn_room_def)
    obtain y where y: "BN_copy ma a x = (Some (), y)" "bn_ok y" "bn_words y = bn_words a" "bn_neg y = bn_neg a" "bn_static y = bn_static x"
      by (rule copy_total [OF assms(1,3) c(3) room])
    have "on_slot i (BN_copy ma a) c = (Some (), put_slot i y c)" by (rule on_slot_put [where m = "BN_copy ma a", OF c(2) y(1)])
    then show ?thesis using y c(1,4) assms(4) pool_same_refl [OF c(1)] by (intro exI [of _ y] exI [of _ c]) (simp add: bn_mag_def)
  qed
  show ?thesis
    by (rule reduce_in_frame [where fill = "\<lambda>t. on_slot t (BN_copy ma a)", OF assms(1,2,9) e assms(7,8) fill assms(5)])
       (assumption+, rule that, simp_all add: BN_from_montgomery_def)
qed

lemma mod_mul_montgomery_run:
  assumes "malloc_total ma" "mont_ok mont" "bn_ok a" "bn_ok b" "\<not> bn_neg a" "\<not> bn_neg b" "same \<longrightarrow> a = b"
    "bn_mag a * bn_mag b < mont_modulus mont * mont_R mont" "8 * max (bn_width a) (bn_width b) \<le> bn_max_words"
    "bn_ok r" "bn_room r (mont_width mont)" "ctx_fit e ctx" "e + 5 \<le> pool_max"
  obtains r' ctx' where "BN_mod_mul_montgomery ma same a b mont (r, ctx) = (Some (), r', ctx')"
    "bn_ok r'" "\<not> bn_neg r'" "bn_width r' = mont_width mont" "bn_static r' = bn_static r" "bn_mag r' < mont_modulus mont"
    "(bn_mag r' * mont_R mont) mod mont_modulus mont = (bn_mag a * bn_mag b) mod mont_modulus mont" "ctx_fit e ctx'" "pool_restored e ctx ctx'"
proof -
  let ?m = "if same then bn_sqr_consttime ma False a else bn_mul_consttime ma False a b"
  have e: "e + 2 + 3 \<le> pool_max" and w: "8 * bn_width a \<le> bn_max_words" using assms(9,13) by simp_all
  have fill: "\<exists>y c'. with_slot i ?m c = (Some (), put_slot i y c') \<and> pool_same (e + 2 + 3) c c'
         \<and> bn_ok y \<and> \<not> bn_neg y \<and> \<not> bn_static y \<and> bn_mag y = bn_mag a * bn_mag b"
    if c: "ctx_fit (e + 2) c" "slot c i = Some x" "bn_ok x" "\<not> bn_static x" for i c x
  proof -
    have "\<exists>y c'. ?m (x, c) = (Some (), y, c') \<and> bn_ok y \<and> \<not> bn_neg y \<and> \<not> bn_static y \<and> bn_value y = bn_value a * bn_value b
        \<and> pool_restored (e + 2 + 3) c c'"
    proof (cases same)
      case True
      obtain y c' where "bn_sqr_consttime ma False a (x, c) = (Some (), y, c')" "bn_ok y" "bn_value y = bn_value a * bn_value a"
        "pool_restored (e + 2 + 3) c c'" "\<not> bn_static y" "\<not> bn_neg y"
        by (rule sqr_consttime_run [OF assms(1,3) c(3,4) w c(1) e]) blast
      then show ?thesis using True assms(7) by simp
    next
      case False
      obtain y c' where "bn_mul_impl ma False a b (x, c) = (Some (), y, c')" "bn_ok y" "bn_value y = bn_value a * bn_value b"
        "pool_restored (e + 2 + 3) c c'" "\<not> bn_static y" "bn_neg a = bn_neg b \<longrightarrow> \<not> bn_neg y"
        by (rule mul_impl_run [OF assms(1,3,4) c(3,4) assms(9) c(1) e]) blast
      then show ?thesis using False assms(5,6) by (simp add: bn_mul_consttime_def)
    qed
    then obtain y c' where y: "?m (x, c) = (Some (), y, c')" "bn_ok y" "\<not> bn_neg y" "\<not> bn_static y" "bn_value y = bn_value a * bn_value b"
      "pool_restored (e + 2 + 3) c c'" by blast
    have "int (bn_mag y) = int (bn_mag a * bn_mag b)" using y(3,5) assms(5,6) by (simp add: bn_value_def)
    then have "bn_mag y = bn_mag a * bn_mag b" by (simp only: of_nat_eq_iff)
    moreover have "with_slot i ?m c = (Some (), put_slot i y c')" using c(2) y(1) by (simp add: with_slot_def)
    ultimately show ?thesis using y(2-4,6) by (auto simp: pool_restored_def)
  qed
  have run: "BN_mod_mul_montgomery ma same a b mont = in_frame ma (op_bind (on_pool (BN_CTX_get ma)) (\<lambda>t. op_bind (on_pool (with_slot t ?m)) (\<lambda>_.
      on_pair t (BN_from_montgomery_word ma mont))))"
    using assms(5,6) by (simp add: BN_mod_mul_montgomery_def bn_mod_mul_montgomery_fallback_def)
  show ?thesis
    by (rule reduce_in_frame [where fill = "\<lambda>t. with_slot t ?m", OF assms(1,2,12) e assms(10,11) fill assms(8)])
       (assumption+, rule that [unfolded run], simp_all)
qed

section \<open>Arithmetic on Montgomery forms\<close>

lemma rep_less: "mont_ok mont \<Longrightarrow> mont_rep mont v a \<Longrightarrow> bn_mag a < mont_modulus mont"
  using modulus_less_R [of mont] by (simp add: mont_rep_def)

lemma rep_mul_run:
  assumes "malloc_total ma" "mont_ok mont" "mont_rep mont v a" "mont_rep mont w b" "same \<longrightarrow> a = b"
    "bn_ok r" "bn_room r (mont_width mont)" "ctx_fit e ctx" "e + 5 \<le> pool_max"
  obtains r' ctx' where "BN_mod_mul_montgomery ma same a b mont (r, ctx) = (Some (), r', ctx')" "mont_rep mont (v * w) r'"
    "bn_static r' = bn_static r" "ctx_fit e ctx'" "pool_restored e ctx ctx'"
proof -
  have a: "bn_ok a" "\<not> bn_neg a" "bn_width a = mont_width mont" "bn_ok b" "\<not> bn_neg b" "bn_width b = mont_width mont"
    using assms(3,4) by (simp_all add: mont_rep_def)
  have lt: "bn_mag a * bn_mag b < mont_modulus mont * mont_R mont"
    using rep_less [OF assms(2,3)] rep_less [OF assms(2,4)] modulus_less_R [OF assms(2)] by (intro mult_strict_mono') simp_all
  have w: "8 * max (bn_width a) (bn_width b) \<le> bn_max_words" using assms(2) a by (simp add: mont_ok_def)
  obtain r' ctx' where r: "BN_mod_mul_montgomery ma same a b mont (r, ctx) = (Some (), r', ctx')"
    "bn_ok r'" "\<not> bn_neg r'" "bn_width r' = mont_width mont" "bn_static r' = bn_static r" "bn_mag r' < mont_modulus mont"
    "(bn_mag r' * mont_R mont) mod mont_modulus mont = (bn_mag a * bn_mag b) mod mont_modulus mont" "ctx_fit e ctx'" "pool_restored e ctx ctx'"
    by (rule mod_mul_montgomery_run [OF assms(1,2) a(1,4,2,5) assms(5) lt w assms(6-9)])
  show ?thesis by (rule that [OF r(1) rep_product [OF assms(2-4) r(6,7,2-4)] r(5,8,9)])
qed

lemma to_montgomery_run:
  assumes "malloc_total ma" "mont_ok mont" "bn_ok a" "bn_less_than_montgomery_R a mont" "8 * bn_width a \<le> bn_max_words"
    "bn_ok r" "bn_room r (mont_width mont)" "ctx_fit e ctx" "e + 5 \<le> pool_max"
  obtains r' ctx' where "BN_to_montgomery ma a mont (r, ctx) = (Some (), r', ctx')" "mont_rep mont (bn_mag a) r'"
    "bn_static r' = bn_static r" "ctx_fit e ctx'" "pool_restored e ctx ctx'"
proof -
  let ?b = "mont_RR mont"
  have a: "\<not> bn_neg a" "bn_mag a < mont_R mont"
    using assms(4) fits_iff [OF assms(3)] by (simp_all add: bn_less_than_montgomery_R_def BN_is_negative_def)
  have b: "bn_ok ?b" "\<not> bn_neg ?b" "bn_width ?b = mont_width mont" "odd (mont_modulus mont)" "16 * mont_width mont \<le> bn_max_words"
    "bn_mag ?b = (mont_R mont * mont_R mont) mod mont_modulus mont" using assms(2) by (simp_all add: mont_ok_def)
  have RR: "bn_mag ?b < mont_modulus mont" by (rule rep_less [OF assms(2) rep_of_RR [OF assms(2)]])
  have lt: "bn_mag a * bn_mag ?b < mont_modulus mont * mont_R mont"
    using mult_strict_mono' [OF a(2) RR] by (simp add: mult.commute)
  have w: "8 * max (bn_width a) (bn_width ?b) \<le> bn_max_words" using assms(5) b(3,5) by simp
  have s: "False \<longrightarrow> a = ?b" by simp
  obtain r' ctx' where r: "BN_mod_mul_montgomery ma False a ?b mont (r, ctx) = (Some (), r', ctx')"
    "bn_ok r'" "\<not> bn_neg r'" "bn_width r' = mont_width mont" "bn_static r' = bn_static r" "bn_mag r' < mont_modulus mont"
    "(bn_mag r' * mont_R mont) mod mont_modulus mont = (bn_mag a * bn_mag ?b) mod mont_modulus mont" "ctx_fit e ctx'" "pool_restored e ctx ctx'"
    by (rule mod_mul_montgomery_run [OF assms(1-3) b(1) a(1) b(2) s lt w assms(6-9)])
  have "(bn_mag r' * mont_R mont) mod mont_modulus mont = ((bn_mag a * mont_R mont) * mont_R mont) mod mont_modulus mont"
    unfolding r(7) b(6) mod_mult_right_eq by (simp only: mult_ac)
  from reduced_value [OF b(4) r(6) this] have "mont_rep mont (bn_mag a) r'" using r(2-4) by (simp add: mont_rep_def)
  then show ?thesis using that r by (simp add: BN_to_montgomery_def)
qed

lemma from_rep_run:
  assumes "malloc_total ma" "mont_ok mont" "mont_rep mont v a"
    "bn_ok r" "bn_room r (mont_width mont)" "ctx_fit e ctx" "e + 2 \<le> pool_max"
  obtains r' ctx' where "BN_from_montgomery ma a mont (r, ctx) = (Some (), r', ctx')" "bn_ok r'" "bn_value r' = int (v mod mont_modulus mont)"
    "bn_width r' = mont_width mont" "bn_static r' = bn_static r" "ctx_fit e ctx'" "pool_restored e ctx ctx'"
proof -
  have a: "bn_ok a" "\<not> bn_neg a" "bn_width a = mont_width mont" "bn_mag a = (v * mont_R mont) mod mont_modulus mont"
    using assms(3) by (simp_all add: mont_rep_def)
  have m: "16 * mont_width mont \<le> bn_max_words" "odd (mont_modulus mont)" using assms(2) by (simp_all add: mont_ok_def)
  have w: "bn_width a \<le> bn_max_words" using m(1) a(3) by linarith
  have lt: "bn_mag a < mont_modulus mont * mont_R mont" using rep_less [OF assms(2,3)] by (rule less_le_trans) simp
  obtain r' ctx' where r: "BN_from_montgomery ma a mont (r, ctx) = (Some (), r', ctx')"
    "bn_ok r'" "\<not> bn_neg r'" "bn_width r' = mont_width mont" "bn_static r' = bn_static r" "bn_mag r' < mont_modulus mont"
    "(bn_mag r' * mont_R mont) mod mont_modulus mont = bn_mag a mod mont_modulus mont" "ctx_fit e ctx'" "pool_restored e ctx ctx'"
    by (rule from_montgomery_run [OF assms(1,2) a(1,2) lt w assms(4-7)])
  have "(bn_mag r' * mont_R mont) mod mont_modulus mont = (v * mont_R mont) mod mont_modulus mont" unfolding r(7) a(4) by simp
  from reduced_value [OF m(2) r(6) this] r(3) have "bn_value r' = int (v mod mont_modulus mont)" by (simp add: bn_value_def)
  then show ?thesis using that r by blast
qed


lemma odd_wval: "odd (wval ws) \<longleftrightarrow> ws \<noteq> [] \<and> odd (unat (hd ws))"
  by (cases ws) simp_all

lemma odd_unat_64: "odd (unat w) \<longleftrightarrow> w AND 1 = (1 :: u64)"
proof -
  have "odd (unat w) \<longleftrightarrow> odd w" by (simp flip: bit_0 add: bit_unsigned_iff)
  then show ?thesis by (simp add: and_one_eq mod2_eq_if)
qed

lemma bn_words_Nil: "bn_ok bn \<Longrightarrow> bn_words bn = [] \<longleftrightarrow> bn_width bn = 0"
  using length_bn_words [of bn] by (metis length_0_conv)

lemma is_odd_iff: "bn_ok bn \<Longrightarrow> BN_is_odd bn \<longleftrightarrow> odd (bn_mag bn)"
  using hd_words [of bn] bn_words_Nil [of bn] by (auto simp: BN_is_odd_def bn_mag_def odd_wval odd_unat_64)

text \<open>A modulus whose highest bit is set is above half of \<open>R\<close>.\<close>

lemma high_bit_set:
  assumes "bn_ok n" "odd (bn_mag n)" "0 < bn_width n" "drop_bit 63 (bn_d n ! (bn_width n - 1)) \<noteq> 0"
  shows "weight (bn_width n) < 2 * bn_mag n"
proof -
  let ?w = "bn_width n" and ?t = "bn_d n ! (bn_width n - 1)"
  have "unat (drop_bit 63 ?t) \<noteq> 0" using assms(4) unat_eq_0 [of "drop_bit 63 ?t"] by simp
  then have t: "2 ^ 63 \<le> unat ?t" by (simp add: unat_drop_bit div_eq_0_iff not_less)
  have "Suc (?w - 1) = ?w" using assms(3) by simp
  then have "bn_words n = take (?w - 1) (bn_d n) @ [?t]"
    using take_Suc_conv_app_nth [of "?w - 1" "bn_d n"] assms(1,3) by (simp add: bn_words_def bn_ok_def)
  then have "weight (?w - 1) * unat ?t \<le> bn_mag n"
    using assms(1) by (simp add: bn_mag_def wval_append bn_ok_def)
  moreover have "weight (?w - 1) * 2 ^ 63 \<le> weight (?w - 1) * unat ?t" using t by (rule mult_le_mono2)
  moreover have W: "weight ?w = 2 * (weight (?w - 1) * 2 ^ 63)" using assms(3) by (cases ?w) (simp_all add: power_add)
  ultimately have "weight ?w \<le> 2 * bn_mag n" by linarith
  moreover have "bn_mag n \<noteq> weight (?w - 1) * 2 ^ 63" using assms(2) by auto
  ultimately show ?thesis using W by linarith
qed

lemma wval_neg_words:
  assumes "ws \<noteq> []" "hd ws \<noteq> 0"
  shows "wval ((0 - hd ws) # map (\<lambda>w. NOT w) (tl ws)) + wval ws = weight (length ws)"
proof -
  obtain w vs where ws: "ws = w # vs" using assms(1) by (cases ws) simp_all
  have "unat w \<noteq> 0" using assms(2) ws by (simp add: unat_eq_0)
  then have "unat (NOT w) + 1 < 2 ^ 64" using unat_not [of w] by linarith
  moreover have "unat (NOT w + 1) = (unat (NOT w) + 1) mod 2 ^ 64" by (simp only: unat_word_ariths) simp
  ultimately have "unat (NOT w + 1) = unat (NOT w) + 1" by simp
  moreover have "0 - w = NOT w + 1" by (simp add: not_eq_complement)
  ultimately have "unat (0 - w) + unat w = 2 ^ 64" using unat_not [of w] by simp
  then have "wval ((0 - w) # map (\<lambda>w. NOT w) vs) + wval (w # vs) = 2 ^ 64 * (wval (map (\<lambda>w. NOT w) vs) + wval vs + 1)"
    by (simp add: distrib_left)
  also have "\<dots> = weight (length (w # vs))" unfolding wval_not by (simp add: power_add)
  finally show ?thesis by (simp add: ws)
qed

lemma one_to_montgomery_run:
  assumes "malloc_total ma" "mont_ok mont" "bn_ok r" "bn_room r (mont_width mont)" "ctx_fit e ctx" "e + 2 \<le> pool_max"
  obtains r' ctx' where "bn_one_to_montgomery ma mont (r, ctx) = (Some (), r', ctx')" "mont_rep mont 1 r'"
    "bn_static r' = bn_static r" "ctx_fit e ctx'" "pool_restored e ctx ctx'"
proof (cases "drop_bit 63 (bn_d (mont_N mont) ! (mont_width mont - 1)) = 0")
  case True
  let ?b = "mont_RR mont"
  have b: "bn_ok ?b" "\<not> bn_neg ?b" "bn_width ?b = mont_width mont" "odd (mont_modulus mont)" "16 * mont_width mont \<le> bn_max_words"
    "bn_mag ?b = (mont_R mont * mont_R mont) mod mont_modulus mont" using assms(2) by (simp_all add: mont_ok_def)
  have w: "bn_width ?b \<le> bn_max_words" using b(3,5) by linarith
  have lt: "bn_mag ?b < mont_modulus mont * mont_R mont"
    using rep_less [OF assms(2) rep_of_RR [OF assms(2)]] by (rule less_le_trans) simp
  obtain r' ctx' where r: "BN_from_montgomery ma ?b mont (r, ctx) = (Some (), r', ctx')"
    "bn_ok r'" "\<not> bn_neg r'" "bn_width r' = mont_width mont" "bn_static r' = bn_static r" "bn_mag r' < mont_modulus mont"
    "(bn_mag r' * mont_R mont) mod mont_modulus mont = bn_mag ?b mod mont_modulus mont" "ctx_fit e ctx'" "pool_restored e ctx ctx'"
    by (rule from_montgomery_run [OF assms(1,2) b(1,2) lt w assms(3-6)])
  have "(bn_mag r' * mont_R mont) mod mont_modulus mont = (mont_R mont * mont_R mont) mod mont_modulus mont" unfolding r(7) b(6) by simp
  from reduced_value [OF b(4) r(6) this] have "mont_rep mont 1 r'" using r(2-4) by (simp add: mont_rep_def)
  then show ?thesis using that r True by (simp add: bn_one_to_montgomery_def Let_def)
next
  case False
  let ?n = "mont_N mont"
  have n: "bn_ok ?n" "odd (bn_mag ?n)" "0 < bn_width ?n" using assms(2) by (simp_all add: mont_ok_def)
  define ws where "ws = (0 - bn_d ?n ! 0) # map (\<lambda>w. NOT w) (drop 1 (bn_words ?n))"
  have ne: "bn_words ?n \<noteq> []" "hd (bn_words ?n) = bn_d ?n ! 0" "length (bn_words ?n) = bn_width ?n"
    using n(3) hd_words [OF n(1,3)] length_bn_words [OF n(1)] bn_words_Nil [OF n(1)] by simp_all
  have "hd (bn_words ?n) \<noteq> 0" using n(2) by (auto simp: bn_mag_def odd_wval)
  from wval_neg_words [OF ne(1) this] have v: "wval ws + bn_mag ?n = mont_R mont" unfolding ne(2,3) by (simp add: ws_def drop_Suc bn_mag_def)
  have lw: "length ws = bn_width ?n" using ne(3) n(3) by (simp add: ws_def)
  have "wval ws < bn_mag ?n" using high_bit_set [OF n False] v by linarith
  then have vw: "wval ws = (1 * mont_R mont) mod bn_mag ?n" unfolding v [symmetric] by simp
  obtain s where s: "bn_wexpand ma (bn_width ?n) r = (Some (), s)" by (rule wexpand_room [OF assms(1,4)])
  note w = wexpand [OF assms(3) s]
  define r' where "r' = s\<lparr>bn_d := put_words 0 ws (bn_d s), bn_width := bn_width ?n, bn_neg := False\<rparr>"
  have r': "bn_ok r'" "bn_words r' = ws" using put_words_0 [of ws "bn_d s"] lw w(2) by (simp_all add: r'_def bn_ok_def bn_words_def)
  have "bn_one_to_montgomery ma mont (r, ctx) = (Some (), r', ctx)"
    using False n(3) s by (simp add: bn_one_to_montgomery_def Let_def op_bind_def on_number_def r'_def ws_def)
  moreover have "mont_rep mont 1 r'" using r' vw unfolding mont_rep_def bn_mag_def [of r'] by (simp add: r'_def)
  moreover have "bn_static r' = bn_static r" using w(6) by (simp add: r'_def)
  moreover have "pool_restored e ctx ctx" using assms(5) by (simp add: pool_restored_def pool_same_refl)
  ultimately show ?thesis using that assms(5) by blast
qed

end
