(* ===== verification/Bn_Mont_Setup.thy ===== *)
theory Bn_Mont_Setup imports Bn_Mont begin

text \<open>
  Contexts for Montgomery arithmetic: that setting one up gives a context in which the operations of \<open>Bn_Mont\<close> work,
  for the two ways to compute the square of \<open>R\<close>.
\<close>

section \<open>Setting up a context\<close>

text \<open>A context as it is allocated: its numbers can be written.\<close>

definition mont_shell :: "bn_mont_ctx \<Rightarrow> bool" where
  "mont_shell mont \<longleftrightarrow> bn_ok (mont_N mont) \<and> \<not> bn_static (mont_N mont) \<and> bn_ok (mont_RR mont) \<and> \<not> bn_static (mont_RR mont)"

text \<open>What a modulus has to be.\<close>

definition mont_modulus_ok :: "bignum \<Rightarrow> bool" where
  "mont_modulus_ok m \<longleftrightarrow> odd (bn_mag m) \<and> \<not> bn_neg m"

lemma set_N_rejects:
  assumes "bn_ok m" "\<not> mont_modulus_ok m"
  shows "bn_mont_ctx_set_N_and_n0 ma m mont = (None, mont)"
  using assms is_odd_iff [OF assms(1)] by (auto simp: bn_mont_ctx_set_N_and_n0_def mont_modulus_ok_def BN_is_negative_def op_fail_def)

lemma set_N_run:
  assumes "malloc_total ma" "mont_shell mont" "bn_ok m" "mont_modulus_ok m" "16 * bn_width m \<le> bn_max_words"
  obtains mont' where "bn_mont_ctx_set_N_and_n0 ma m mont = (Some (), mont')" "mont_RR mont' = mont_RR mont" "mont_shell mont'"
    "mont_modulus mont' = bn_mag m" "\<not> bn_neg (mont_N mont')" "0 < mont_width mont'" "mont_width mont' \<le> bn_width m"
    "hd (bn_words (mont_N mont')) * (mont_n0 mont' ! 0) = - 1"
proof -
  have m: "odd (bn_mag m)" "\<not> bn_neg m" using assms(4) by (simp_all add: mont_modulus_ok_def)
  have nz: "\<not> BN_is_zero m" "BN_is_odd m" using is_zero_iff [OF assms(3)] is_odd_iff [OF assms(3)] m(1) by auto
  have N: "bn_ok (mont_N mont)" "bn_room (mont_N mont) (bn_width m)" using assms(2,5) by (simp_all add: mont_shell_def bn_room_def)
  obtain y where y: "BN_copy ma m (mont_N mont) = (Some (), y)" "bn_ok y" "bn_words y = bn_words m" "bn_neg y = bn_neg m"
    "bn_width y = bn_width m" "bn_static y = bn_static (mont_N mont)"
    by (rule copy_total [OF assms(1,3) N])
  define z where "z = bn_set_minimal_width y"
  have z: "bn_ok z" "bn_mag z = bn_mag m" "bn_width z \<le> bn_width m" "\<not> bn_neg z" "\<not> bn_static z"
    using set_minimal_width [OF y(2)] y(3-6) m(2) assms(2)
    by (auto simp: z_def bn_mag_def mont_shell_def bn_set_minimal_width_def Let_def)
  have pos: "0 < bn_width z" using m(1) z(2) by (cases "bn_width z") (auto simp: bn_mag_def bn_words_def)
  define mont' where "mont' = mont\<lparr>mont_N := z, mont_n0 := [bn_mont_n0 z, 0]\<rparr>"
  have h: "hd (bn_words z) = bn_d z ! 0" by (rule hd_words [OF z(1) pos])
  have "odd (unat (bn_d z ! 0))" using m(1) z(2) odd_wval [of "bn_words z"] unfolding bn_mag_def h [symmetric] by metis
  then have inv: "bn_d z ! 0 * bn_mont_n0 z = - 1"
    unfolding bn_mont_n0_def by (subst mult.commute) (rule neg_inv_value)
  show ?thesis
  proof (rule that [of mont'])
    show "bn_mont_ctx_set_N_and_n0 ma m mont = (Some (), mont')"
      using nz m(2) y(1) by (simp add: bn_mont_ctx_set_N_and_n0_def Let_def BN_is_negative_def op_bind_def on_N_def mont'_def z_def)
  qed (use z pos h inv assms(2) in \<open>simp_all add: mont'_def mont_shell_def\<close>)
qed

text \<open>Any \<open>RR\<close> with the right value completes the context.\<close>

lemma mont_ok_RR:
  assumes "mont_shell mont" "odd (mont_modulus mont)" "\<not> bn_neg (mont_N mont)" "0 < mont_width mont" "16 * mont_width mont \<le> bn_max_words"
    "hd (bn_words (mont_N mont)) * (mont_n0 mont ! 0) = - 1"
    "bn_ok rr" "bn_width rr = mont_width mont" "\<not> bn_neg rr" "bn_mag rr = 2 ^ (128 * mont_width mont) mod mont_modulus mont"
  shows "mont_ok (mont\<lparr>mont_RR := rr\<rparr>)"
proof -
  have "(2 :: nat) ^ (128 * mont_width mont) = mont_R mont * mont_R mont" by (simp add: power_add [symmetric])
  then show ?thesis using assms by (simp add: mont_ok_def mont_shell_def)
qed

lemma set_bit_run:
  assumes "malloc_total ma" "bn_ok a" "bn_room a (n div 64 + 1)"
  obtains a' where "BN_set_bit ma (int n) a = (Some (), a')" "bn_ok a'" "bn_mag a' = set_bit n (bn_mag a)" "bn_neg a' = bn_neg a"
    "bn_static a' = bn_static a" "bn_width a' = max (bn_width a) (n div 64 + 1)"
proof -
  obtain b where b: "bn_wexpand ma (n div 64 + 1) a = (Some (), b)" by (rule wexpand_room [OF assms(1,3)])
  note w = wexpand [OF assms(2) b]
  have "\<exists>a'. BN_set_bit ma (int n) a = (Some (), a') \<and> bn_static a' = bn_static a \<and> bn_width a' = max (bn_width a) (n div 64 + 1)"
    using b w by (cases "bn_width a \<le> n div 64") (simp_all add: BN_set_bit_def Let_def op_bind_def op_return_def max_def)
  then obtain a' where a': "BN_set_bit ma (int n) a = (Some (), a')" "bn_static a' = bn_static a" "bn_width a' = max (bn_width a) (n div 64 + 1)"
    by blast
  show ?thesis using that [OF a'(1)] a'(2,3) set_bit_value [OF assms(2) _ a'(1)] by simp
qed

lemma lg_square: "w < 2 ^ 23 \<Longrightarrow> sint ((of_nat (w * 64) :: u32) * 2) = int (128 * w)"
proof -
  assume "w < 2 ^ 23"
  then have "signed_take_bit 31 (int (128 * w)) = int (128 * w)" by (intro signed_take_bit_int_eq_self) simp_all
  moreover have "(of_nat (w * 64) :: u32) * 2 = of_nat (128 * w)" by simp
  ultimately show ?thesis by (simp only: signed_of_nat) simp
qed


lemma zero_number: "bn_ok (BN_zero r)" "bn_mag (BN_zero r) = 0" "bn_width (BN_zero r) = 0" "\<not> bn_neg (BN_zero r)" "bn_static (BN_zero r) = bn_static r"
  by (simp_all add: BN_zero_def bn_ok_def bn_mag_def bn_words_def)

text \<open>The square of \<open>R\<close> modulo the modulus, by division.\<close>

lemma RR_by_division:
  assumes "malloc_total ma" "bn_ok n" "bn_mag n \<noteq> 0" "\<not> bn_neg n" "0 < bn_width n" "16 * bn_width n \<le> bn_max_words"
    "\<not> bn_static r" "ctx_fit e ctx" "e + 5 \<le> pool_max"
  obtains r' ctx' where
    "op_bind (on_number (BN_set_bit ma (int (128 * bn_width n)))) (\<lambda>_.
       op_bind (\<lambda>(rr, c). BN_mod ma rr n (rr, c)) (\<lambda>_. on_number (bn_resize_words ma (bn_width n)))) (BN_zero r, ctx) = (Some (), r', ctx')"
    "bn_ok r'" "bn_width r' = bn_width n" "\<not> bn_neg r'" "bn_mag r' = 2 ^ (128 * bn_width n) mod bn_mag n" "\<not> bn_static r'"
    "pool_restored e ctx ctx'" "ctx_fit e ctx'"
proof -
  let ?w = "bn_width n"
  have big: "bn_max_words = 8388607" by (simp add: bn_max_words_def)
  have d: "128 * ?w div 64 = 2 * ?w" by simp
  have room: "bn_room (BN_zero r) (128 * ?w div 64 + 1)" using assms(6,7) zero_number(5) [of r] unfolding d by (simp add: bn_room_def big)
  obtain x where x: "BN_set_bit ma (int (128 * ?w)) (BN_zero r) = (Some (), x)" "bn_ok x" "bn_mag x = set_bit (128 * ?w) (bn_mag (BN_zero r))"
    "bn_neg x = bn_neg (BN_zero r)" "bn_static x = bn_static (BN_zero r)" "bn_width x = max (bn_width (BN_zero r)) (128 * ?w div 64 + 1)"
    by (rule set_bit_run [OF assms(1) zero_number(1) room])
  have wx: "bn_width x = 2 * ?w + 1" unfolding x(6) zero_number(3) d by simp
  have v: "bn_mag x = 2 ^ (128 * ?w)" unfolding x(3) zero_number(2) by (simp add: set_bit_eq)
  have u: "usable x" "room_to_divide x" "room_to_divide n"
    using x(2,5) wx assms(6,7) zero_number(5) [of r] by (simp_all add: usable_def room_to_divide_def big)
  obtain y c where y: "BN_mod ma x n (x, ctx) = (Some (), y, c)" "usable y" "bn_normal y" "bn_value y = bn_value x smod bn_value n"
    "pool_restored (e + 5) ctx c"
    by (rule BN_mod_run [OF assms(1) x(2) assms(2,3) u(2,3,1) assms(8,9)])
  have nn: "bn_value x = int (bn_mag x)" "bn_value n = int (bn_mag n)"
    using x(4) zero_number(4) [of r] assms(4) by (simp_all add: bn_value_def)
  have vy: "bn_value y = int (bn_mag x mod bn_mag n)" unfolding y(4) nn by (simp add: nonneg_smod zmod_int)
  have my: "bn_mag y = 2 ^ (128 * ?w) mod bn_mag n" using mag_of_nonneg [OF vy] unfolding v .
  have "0 \<le> bn_value y" unfolding vy by (rule of_nat_0_le_iff)
  then have ny: "\<not> bn_neg y" using y(3) by (auto simp: bn_normal_def bn_value_def)
  have "bn_mag n < weight ?w" using wval_less [of "bn_words n"] assms(2) by (simp add: bn_mag_def)
  then have lt: "bn_mag y < weight ?w" using my assms(3) mod_less_divisor [of "bn_mag n" "2 ^ (128 * ?w)"] by linarith
  have yo: "bn_ok y" "bn_room y ?w" "\<not> bn_static y" using y(2) assms(6) by (simp_all add: usable_def bn_room_def)
  obtain z where z: "bn_resize_words ma ?w y = (Some (), z)" "bn_ok z" "bn_mag z = bn_mag y" "bn_width z = ?w" "bn_neg z = bn_neg y" "bn_static z = bn_static y"
    by (rule resize_run [OF assms(1) yo(1) lt yo(2)])
  show ?thesis
  proof (rule that)
    show "op_bind (on_number (BN_set_bit ma (int (128 * bn_width n)))) (\<lambda>_.
       op_bind (\<lambda>(rr, c). BN_mod ma rr n (rr, c)) (\<lambda>_. on_number (bn_resize_words ma (bn_width n)))) (BN_zero r, ctx) = (Some (), z, c)"
      unfolding op_bind_def on_number_def prod.case x(1) option.case y(1) z(1) ..
    show "pool_restored e ctx c" "ctx_fit e c" using pool_restored_fit [OF assms(8) y(5)] by simp_all
  qed (use z(2-6) my ny yo(3) in simp_all)
qed

text \<open>A caller's pool, if there is one.\<close>

definition opt_fit :: "nat \<Rightarrow> bn_ctx option \<Rightarrow> bool" where
  "opt_fit e ctx \<longleftrightarrow> (case ctx of None \<Rightarrow> True | Some c \<Rightarrow> ctx_fit e c)"

definition opt_restored :: "nat \<Rightarrow> bn_ctx option \<Rightarrow> bn_ctx option \<Rightarrow> bool" where
  "opt_restored e ctx ctx' \<longleftrightarrow>
     (case (ctx, ctx') of (None, None) \<Rightarrow> True | (Some c, Some c') \<Rightarrow> pool_restored e c c' | _ \<Rightarrow> False)"

lemma new_ctx_total: "malloc_total ma \<Longrightarrow> \<exists>c. BN_CTX_new ma = Some c \<and> ctx_fit 0 c"
proof -
  assume ma: "malloc_total ma"
  then obtain b where "OPENSSL_malloc ma sizeof_BN_CTX = Some b"
    using malloc_small [of ma sizeof_BN_CTX] by (auto simp: sizeof_BN_CTX_def)
  moreover have "ctx_fit 0 \<lparr>ctx_bignums = None, ctx_stack = BN_STACK_init, ctx_used = 0, ctx_error = False, ctx_defer_error = False\<rparr>"
    by (simp add: ctx_fit_def ctx_ok_def stack_wf_def BN_STACK_init_def frames_def sk_num_def slot_ctx)
  ultimately show ?thesis by (simp add: BN_CTX_new_def)
qed

lemma ctx_set_run:
  assumes "malloc_total ma" "mont_shell mont" "bn_ok m" "mont_modulus_ok m" "16 * bn_width m \<le> bn_max_words"
    "opt_fit e ctx" "e + 5 \<le> pool_max"
  obtains mont' ctx' where "BN_MONT_CTX_set ma m (mont, ctx) = (Some (), mont', ctx')" "mont_ok mont'" "mont_shell mont'"
    "mont_modulus mont' = bn_mag m" "opt_restored e ctx ctx'"
proof -
  obtain mn where mn: "bn_mont_ctx_set_N_and_n0 ma m mont = (Some (), mn)" "mont_RR mn = mont_RR mont" "mont_shell mn"
    "mont_modulus mn = bn_mag m" "\<not> bn_neg (mont_N mn)" "0 < mont_width mn" "mont_width mn \<le> bn_width m"
    "hd (bn_words (mont_N mn)) * (mont_n0 mn ! 0) = - 1"
    by (rule set_N_run [OF assms(1-5)])
  let ?n = "mont_N mn"
  have o: "odd (bn_mag ?n)" using assms(4) mn(4) by (simp add: mont_modulus_ok_def)
  have n: "bn_ok ?n" "bn_mag ?n \<noteq> 0" "16 * bn_width ?n \<le> bn_max_words" "\<not> bn_static (mont_RR mn)"
    using mn(3,7) odd_pos [OF o] assms(5) by (simp_all add: mont_shell_def)
  obtain c where c: "(case ctx of None \<Rightarrow> BN_CTX_new ma | Some c \<Rightarrow> Some c) = Some c" "ctx_fit e c" "ctx = Some c \<or> ctx = None"
  proof (cases ctx)
    case None
    then show ?thesis using that new_ctx_total [OF assms(1)] ctx_fit_mono [of 0 _ e] by auto
  next
    case (Some c)
    then show ?thesis using that assms(6) by (simp add: opt_fit_def)
  qed
  obtain r c' where r: "op_bind (on_number (BN_set_bit ma (int (128 * bn_width ?n)))) (\<lambda>_.
       op_bind (\<lambda>(rr, c). BN_mod ma rr ?n (rr, c)) (\<lambda>_. on_number (bn_resize_words ma (bn_width ?n)))) (BN_zero (mont_RR mn), c) = (Some (), r, c')"
    "bn_ok r" "bn_width r = bn_width ?n" "\<not> bn_neg r" "bn_mag r = 2 ^ (128 * bn_width ?n) mod bn_mag ?n" "\<not> bn_static r"
    "pool_restored e c c'" "ctx_fit e c'"
    by (rule RR_by_division [OF assms(1) n(1,2) mn(5,6) n(3,4) c(2) assms(7)])
  have "bn_width ?n < 2 ^ 23" using n(3) by (simp add: bn_max_words_def)
  note lg = lg_square [OF this]
  have run: "BN_MONT_CTX_set ma m (mont, ctx) = (Some (), mn\<lparr>mont_RR := r\<rparr>, map_option (\<lambda>_. c') ctx)"
    unfolding BN_MONT_CTX_set_def Let_def lg by (simp only: prod.case mn(1) c(1) option.case lg r(1))
  show ?thesis
  proof (rule that [OF run])
    show "mont_ok (mn\<lparr>mont_RR := r\<rparr>)" by (rule mont_ok_RR [OF mn(3) o mn(5,6) n(3) mn(8) r(2-5)])
    show "mont_shell (mn\<lparr>mont_RR := r\<rparr>)" "mont_modulus (mn\<lparr>mont_RR := r\<rparr>) = bn_mag m" using mn(3,4) r(2,6) by (simp_all add: mont_shell_def)
    show "opt_restored e ctx (map_option (\<lambda>_. c') ctx)" using c(3) r(7) by (auto simp: opt_restored_def)
  qed
qed

lemma mont_new_total:
  assumes "malloc_total ma"
  obtains mont where "BN_MONT_CTX_new ma = Some mont" "mont_shell mont"
proof -
  obtain b where "OPENSSL_malloc ma sizeof_BN_MONT_CTX = Some b"
    using malloc_small [OF assms, of sizeof_BN_MONT_CTX] by (auto simp: sizeof_BN_MONT_CTX_def)
  then show ?thesis using that by (simp add: BN_MONT_CTX_new_def mont_shell_def BN_init_def bn_ok_def)
qed

text \<open>The power of two of \<open>bn_mod_exp_base_2_consttime\<close>.\<close>

lemma unat_small: "k < 2 ^ 31 \<Longrightarrow> unat (of_nat k :: u32) = k"
  by (intro of_nat_inverse [OF refl]) simp

lemma sint_small: "k < 2 ^ 31 \<Longrightarrow> sint (of_nat k :: u32) = int k"
proof -
  assume "k < 2 ^ 31"
  then have "signed_take_bit 31 (int k) = int k" by (intro signed_take_bit_int_eq_self) simp_all
  then show ?thesis by (simp only: signed_of_nat) simp
qed

lemma exp_base_2_run:
  assumes "malloc_total ma" "bn_ok n" "odd (bn_mag n)" "\<not> bn_neg n" "bn_width n < bn_max_words" "BN_num_bits n < p" "p < 2 ^ 31"
    "bn_ok r" "\<not> bn_static r" "ctx_fit e ctx" "e + 4 \<le> pool_max"
  obtains r' ctx' where "bn_mod_exp_base_2_consttime ma (of_nat p) n (r, ctx) = (Some (), r', ctx')" "bn_ok r'" "\<not> bn_neg r'" "\<not> bn_static r'"
    "bn_mag r' = 2 ^ p mod bn_mag n" "pool_restored e ctx ctx'" "ctx_fit e ctx'"
proof -
  let ?k = "BN_num_bits n"
  have b: "bn_mag n < 2 ^ ?k" "2 ^ (?k - 1) \<le> bn_mag n" using num_bits_value [OF assms(2)] assms(3) by auto
  then have k: "0 < ?k" using assms(3) by (cases ?k) auto
  have k31: "?k < 2 ^ 31" using assms(6,7) by linarith
  have one32: "(of_nat ?k :: u32) = 1 \<longleftrightarrow> ?k = 1" using unat_small [OF k31] by (auto simp: word_unat_eq_iff)
  show ?thesis
  proof (cases "?k = 1")
    case True
    then have "bn_mag n < 2" using b(1) by simp
    then have one: "bn_mag n = 1" using odd_pos [OF assms(3)] by simp
    have "bn_mod_exp_base_2_consttime ma (of_nat p) n (r, ctx) = (Some (), BN_zero r, ctx)" using True one32 by (simp add: bn_mod_exp_base_2_consttime_def)
    then show ?thesis
      using that zero_number [of r] assms(9,10) one by (simp add: pool_restored_def pool_same_refl)
  next
    case False
    have k1: "0 < ?k - 1" using k False by simp
    then have lt: "2 ^ (?k - 1) < bn_mag n" using b(2) assms(3) by (metis dvd_power le_neq_implies_less)
    have w: "bn_mag n < weight (bn_width n)" using wval_less [of "bn_words n"] assms(2) by (simp add: bn_mag_def)
    have "(2 :: nat) ^ (?k - 1) < 2 ^ (64 * bn_width n)" using lt w by linarith
    then have "?k - 1 < 64 * bn_width n" by (rule power_less_imp_less_exp [rotated]) simp
    then have i: "(?k - 1) div 64 + 1 \<le> bn_width n" by (simp add: Suc_leI less_mult_imp_div_less mult.commute)
    have room: "bn_room (BN_zero r) ((?k - 1) div 64 + 1)" using i assms(5,9) zero_number(5) [of r] by (simp add: bn_room_def)
    obtain x where x: "BN_set_bit ma (int (?k - 1)) (BN_zero r) = (Some (), x)" "bn_ok x" "bn_mag x = set_bit (?k - 1) (bn_mag (BN_zero r))"
      "bn_neg x = bn_neg (BN_zero r)" "bn_static x = bn_static (BN_zero r)" "bn_width x = max (bn_width (BN_zero r)) ((?k - 1) div 64 + 1)"
      by (rule set_bit_run [OF assms(1) zero_number(1) room])
    have v: "bn_mag x = 2 ^ (?k - 1)" unfolding x(3) zero_number(2) by (simp add: set_bit_eq)
    have ltx: "bn_mag x < bn_mag n" and nw: "bn_width n \<le> bn_max_words" using lt v assms(5) by simp_all
    have nsx: "\<not> bn_static x" using x(5) zero_number(5) [of r] assms(9) by simp
    have wx: "bn_width x \<le> bn_width n" unfolding x(6) zero_number(3) using i by simp
    have rx: "bn_room x (max (bn_width x) (bn_width n))" using nsx wx nw by (simp add: bn_room_def)
    define q where "q = p - (?k - 1)"
    have "?k - 1 < 2 ^ 31" "q < 2 ^ 31" using k31 assms(7) by (simp_all add: q_def)
    moreover have "(of_nat ?k - 1 :: u32) = of_nat (?k - 1)" "(of_nat p - of_nat (?k - 1) :: u32) = of_nat q"
      using k assms(6) by (simp_all add: q_def of_nat_diff)
    ultimately have dist: "sint (of_nat ?k - 1 :: u32) = int (?k - 1)" "sint (of_nat p - (of_nat ?k - 1) :: u32) = int q"
      by (simp_all only: sint_small)
    have q: "q \<noteq> 0" "?k - 1 + q = p" using assms(6) k by (simp_all add: q_def)
    obtain y c where y: "bn_mod_lshift_consttime ma x (int q) n (x, ctx) = (Some (), y, c)" "bn_ok y" "bn_static y = bn_static x"
      "bn_width y = bn_width n" "bn_value y = int ((bn_mag x * 2 ^ q) mod bn_mag n)" "pool_restored e ctx c"
      using lshift_consttime_run [OF assms(1) x(2) assms(2) ltx nw x(2) rx assms(10,11), of q] q(1) by auto
    have e: "bn_mag x * 2 ^ q = 2 ^ p" unfolding v power_add [symmetric] q(2) ..
    have my: "bn_mag y = 2 ^ p mod bn_mag n" using mag_of_nonneg [OF y(5)] e by simp
    have run: "bn_mod_exp_base_2_consttime ma (of_nat p) n (r, ctx) = (Some (), y, c)"
      unfolding bn_mod_exp_base_2_consttime_def Let_def prod.case one32 if_not_P [OF False] dist
      using x(1) y(1) by (simp add: op_bind_def on_number_def)
    show ?thesis
    proof (cases "bn_neg y")
      case False
      then show ?thesis using that [OF run y(2)] y(3) nsx my pool_restored_fit [OF assms(10) y(6)] by simp
    next
      case True
      have "bn_mag y \<noteq> 0"
      proof
        assume "bn_mag y = 0"
        then have "bn_mag n dvd 2 ^ p" using my by (simp add: mod_eq_0_iff_dvd)
        moreover have "coprime (bn_mag n) (2 ^ p)" using assms(3) by (simp add: coprime_commute)
        ultimately have "bn_mag n = 1" by (metis coprime_absorb_left nat_dvd_1_iff_1)
        then show False using lt by simp
      qed
      then show ?thesis using True y(5) by (simp add: bn_value_def)
    qed
  qed
qed


lemma new_for_modulus_run:
  assumes "malloc_total ma" "bn_ok m" "mont_modulus_ok m" "16 * bn_width m \<le> bn_max_words" "opt_fit e ctx" "e + 5 \<le> pool_max"
  obtains mont ctx' where "BN_MONT_CTX_new_for_modulus ma m ctx = (Some mont, ctx')" "mont_ok mont" "mont_modulus mont = bn_mag m"
    "opt_restored e ctx ctx'"
proof -
  obtain mont where n: "BN_MONT_CTX_new ma = Some mont" "mont_shell mont" by (rule mont_new_total [OF assms(1)])
  obtain mont' ctx' where "BN_MONT_CTX_set ma m (mont, ctx) = (Some (), mont', ctx')" "mont_ok mont'" "mont_modulus mont' = bn_mag m" "opt_restored e ctx ctx'"
    by (rule ctx_set_run [OF assms(1) n(2) assms(2-6)]) blast
  then show ?thesis using that n(1) by (simp add: BN_MONT_CTX_new_for_modulus_def)
qed

lemma new_rejects:
  assumes "bn_ok m" "\<not> mont_modulus_ok m"
  shows "BN_MONT_CTX_new_for_modulus ma m ctx = (None, ctx)" "BN_MONT_CTX_new_consttime ma m c = (None, c)"
  using set_N_rejects [OF assms]
  by (simp_all add: BN_MONT_CTX_new_for_modulus_def BN_MONT_CTX_new_consttime_def BN_MONT_CTX_set_def split: option.splits)

lemma new_consttime_run:
  assumes "malloc_total ma" "bn_ok m" "mont_modulus_ok m" "16 * bn_width m \<le> bn_max_words" "ctx_fit e ctx" "e + 4 \<le> pool_max"
  obtains mont ctx' where "BN_MONT_CTX_new_consttime ma m ctx = (Some mont, ctx')" "mont_ok mont" "mont_modulus mont = bn_mag m"
    "pool_restored e ctx ctx'"
proof -
  obtain mont where n: "BN_MONT_CTX_new ma = Some mont" "mont_shell mont" by (rule mont_new_total [OF assms(1)])
  obtain mn where mn: "bn_mont_ctx_set_N_and_n0 ma m mont = (Some (), mn)" "mont_RR mn = mont_RR mont" "mont_shell mn"
    "mont_modulus mn = bn_mag m" "\<not> bn_neg (mont_N mn)" "0 < mont_width mn" "mont_width mn \<le> bn_width m"
    "hd (bn_words (mont_N mn)) * (mont_n0 mn ! 0) = - 1"
    by (rule set_N_run [OF assms(1) n(2) assms(2-4)])
  let ?n = "mont_N mn" and ?p = "mont_width mn * 64 * 2"
  have o: "odd (bn_mag ?n)" using assms(3) mn(4) by (simp add: mont_modulus_ok_def)
  have b: "bn_ok ?n" "bn_width ?n < bn_max_words" "16 * bn_width ?n \<le> bn_max_words" "bn_ok (mont_RR mn)" "\<not> bn_static (mont_RR mn)"
    using mn(3,7) assms(4) by (simp_all add: mont_shell_def bn_max_words_def)
  have lt: "bn_mag ?n < weight (mont_width mn)" using wval_less [of "bn_words ?n"] b(1) by (simp add: bn_mag_def)
  have "2 ^ (BN_num_bits ?n - 1) \<le> bn_mag ?n" using num_bits_value [OF b(1)] odd_pos [OF o] by simp
  then have "(2 :: nat) ^ (BN_num_bits ?n - 1) < 2 ^ (64 * mont_width mn)" using lt by linarith
  then have "BN_num_bits ?n - 1 < 64 * mont_width mn" by (rule power_less_imp_less_exp [rotated]) simp
  then have p: "BN_num_bits ?n < ?p" using mn(6) by linarith
  have p31: "?p < 2 ^ 31" using b(3) by (simp add: bn_max_words_def)
  obtain r c where r: "bn_mod_exp_base_2_consttime ma (of_nat ?p) ?n (mont_RR mn, ctx) = (Some (), r, c)" "bn_ok r" "\<not> bn_neg r" "\<not> bn_static r"
    "bn_mag r = 2 ^ ?p mod bn_mag ?n" "pool_restored e ctx c"
    by (rule exp_base_2_run [OF assms(1) b(1) o mn(5) b(2) p p31 b(4,5) assms(5,6)]) blast
  have "bn_mag r < bn_mag ?n" unfolding r(5) using odd_pos [OF o] by simp
  then have ltr: "bn_mag r < weight (mont_width mn)" using lt by linarith
  have room: "bn_room r (mont_width mn)" using r(4) b(2) by (simp add: bn_room_def)
  obtain z where z: "bn_resize_words ma (mont_width mn) r = (Some (), z)" "bn_ok z" "bn_mag z = bn_mag r" "bn_width z = mont_width mn"
    "bn_neg z = bn_neg r"
    by (rule resize_run [OF assms(1) r(2) ltr room]) blast
  have nz: "\<not> bn_neg z" using z(5) r(3) by simp
  have lg: "of_nat (mont_width mn * 64) * 2 = (of_nat ?p :: u32)" by simp
  have e: "?p = 128 * mont_width mn" by simp
  have v: "bn_mag z = 2 ^ (128 * mont_width mn) mod mont_modulus mn" unfolding z(3) r(5) e ..
  have run: "BN_MONT_CTX_new_consttime ma m ctx = (Some (mn\<lparr>mont_RR := z\<rparr>), c)"
    unfolding BN_MONT_CTX_new_consttime_def Let_def n(1) option.case mn(1) prod.case lg
    by (simp only: option.case prod.case op_bind_def [of "bn_mod_exp_base_2_consttime _ _ _"] r(1) on_number_def z(1))
  show ?thesis
    by (rule that [OF run mont_ok_RR [OF mn(3) o mn(5,6) b(3) mn(8) z(2,4) nz v] _ r(6)]) (simp add: mn(4))
qed

text \<open>A copy of a context works as the original.\<close>

lemma mont_copy_run:
  assumes "malloc_total ma" "mont_ok from" "mont_shell to" "same \<longrightarrow> to = from"
  obtains to' where "BN_MONT_CTX_copy ma same from to = (Some (), to')" "mont_ok to'" "mont_modulus to' = mont_modulus from"
proof (cases same)
  case True
  then show ?thesis using that assms(2,4) by (simp add: BN_MONT_CTX_copy_def op_return_def)
next
  case False
  have f: "bn_ok (mont_RR from)" "bn_ok (mont_N from)" "16 * mont_width from \<le> bn_max_words" "bn_width (mont_RR from) = mont_width from"
    using assms(2) by (simp_all add: mont_ok_def)
  have t: "bn_ok (mont_RR to)" "bn_room (mont_RR to) (bn_width (mont_RR from))" "bn_ok (mont_N to)" "bn_room (mont_N to) (mont_width from)"
    using assms(3) f(3,4) by (simp_all add: mont_shell_def bn_room_def)
  obtain x where x: "BN_copy ma (mont_RR from) (mont_RR to) = (Some (), x)" "bn_ok x" "bn_words x = bn_words (mont_RR from)"
    "bn_neg x = bn_neg (mont_RR from)" "bn_width x = bn_width (mont_RR from)"
    by (rule copy_total [OF assms(1) f(1) t(1,2)]) blast
  obtain y where y: "BN_copy ma (mont_N from) (mont_N to) = (Some (), y)" "bn_ok y" "bn_words y = bn_words (mont_N from)"
    "bn_neg y = bn_neg (mont_N from)" "bn_width y = mont_width from"
    by (rule copy_total [OF assms(1) f(2) t(3,4)]) blast
  show ?thesis
  proof (rule that)
    show "BN_MONT_CTX_copy ma same from to = (Some (), to\<lparr>mont_RR := x, mont_N := y, mont_n0 := [mont_n0 from ! 0, mont_n0 from ! 1]\<rparr>)"
      using False x(1) y(1) by (simp add: BN_MONT_CTX_copy_def op_bind_def on_RR_def on_N_def)
  qed (use assms(2) x(2-5) y(2-5) in \<open>simp_all add: mont_ok_def bn_mag_def\<close>)
qed

section \<open>Arrays of few words\<close>

lemma small_product:
  assumes "length a = n" "length b = n" "n \<le> BN_SMALL_MAX_WORDS" "same \<longrightarrow> a = b"
  obtains t where "(if same then bn_sqr_small (2 * n) a else bn_mul_small (2 * n) a b) = Some t" "length t = 2 * n" "wval t = wval a * wval b"
proof (cases same)
  case True
  have "\<exists>t. bn_sqr_small (2 * n) a = Some t \<and> length t = 2 * n \<and> wval t = wval a * wval a"
    using assms(1,3) sqr_comba4_value [of a] sqr_comba8_value [of a] sqr_normal_value [of a] by (simp add: bn_sqr_small_def)
  then show ?thesis using that True assms(4) by auto
next
  case False
  have "\<exists>t. bn_mul_small (2 * n) a b = Some t \<and> length t = 2 * n \<and> wval t = wval a * wval b"
    using assms(1,2) mul_comba8_value [of a b] mul_normal_value [of a b] by (simp add: bn_mul_small_def)
  then show ?thesis using that False by auto
qed

text \<open>The result is the reduction of the product, in as many words as the modulus.\<close>

lemma mul_small_value:
  assumes "mont_ok mont" "mont_width mont \<le> BN_SMALL_MAX_WORDS" "length a = mont_width mont" "length b = mont_width mont" "same \<longrightarrow> a = b"
    "wval a * wval b < mont_modulus mont * mont_R mont"
  obtains r where "bn_mod_mul_montgomery_small same a b (mont_width mont) mont = Some r" "length r = mont_width mont" "wval r < mont_modulus mont"
    "(wval r * mont_R mont) mod mont_modulus mont = (wval a * wval b) mod mont_modulus mont"
proof -
  obtain t where t: "(if same then bn_sqr_small (2 * mont_width mont) a else bn_mul_small (2 * mont_width mont) a b) = Some t"
    "length t = 2 * mont_width mont" "wval t = wval a * wval b"
    by (rule small_product [OF assms(3,4,2,5)])
  obtain r t' where r: "from_montgomery_words (bn_words (mont_N mont)) (mont_n0 mont ! 0) t = (r, t')" by fastforce
  have n: "length (bn_words (mont_N mont)) = mont_width mont" "hd (bn_words (mont_N mont)) * (mont_n0 mont ! 0) = - 1"
    using assms(1) by (simp_all add: mont_ok_def)
  have p: "length t = 2 * length (bn_words (mont_N mont))" "wval t < wval (bn_words (mont_N mont)) * weight (length (bn_words (mont_N mont)))"
    using t(2,3) n(1) assms(6) by (simp_all add: bn_mag_def)
  note v = from_montgomery_words_value [OF p(1) n(2) p(2) r, unfolded n(1) bn_mag_def [symmetric] t(3)]
  have "bn_mod_mul_montgomery_small same a b (mont_width mont) mont = Some r"
    using assms(2-4) t(1,2) r by (simp add: bn_mod_mul_montgomery_small_def bn_from_montgomery_in_place_def split: if_splits)
  then show ?thesis using that v by blast
qed

lemma from_small_value:
  assumes "mont_ok mont" "mont_width mont \<le> BN_SMALL_MAX_WORDS" "length a = mont_width mont"
  obtains r where "bn_from_montgomery_small a (mont_width mont) mont = Some r" "length r = mont_width mont" "wval r < mont_modulus mont"
    "(wval r * mont_R mont) mod mont_modulus mont = wval a mod mont_modulus mont"
proof -
  let ?t = "a @ replicate (mont_width mont) 0"
  obtain r t' where r: "from_montgomery_words (bn_words (mont_N mont)) (mont_n0 mont ! 0) ?t = (r, t')" by fastforce
  have n: "length (bn_words (mont_N mont)) = mont_width mont" "hd (bn_words (mont_N mont)) * (mont_n0 mont ! 0) = - 1"
    using assms(1) by (simp_all add: mont_ok_def)
  have w: "wval ?t = wval a" by (simp add: wval_append)
  have "wval a < 1 * mont_R mont" using wval_less [of a] assms(3) by simp
  also have "1 * mont_R mont \<le> mont_modulus mont * mont_R mont" using modulus_less_R [OF assms(1)] by (intro mult_le_mono1) simp
  finally have lt: "wval a < mont_modulus mont * mont_R mont" .
  have p: "length ?t = 2 * length (bn_words (mont_N mont))" "wval ?t < wval (bn_words (mont_N mont)) * weight (length (bn_words (mont_N mont)))"
    using n(1) assms(3) lt unfolding w by (simp_all add: bn_mag_def)
  note v = from_montgomery_words_value [OF p(1) n(2) p(2) r, unfolded n(1) bn_mag_def [symmetric] w]
  have "bn_from_montgomery_small a (mont_width mont) mont = Some r"
    using assms(2,3) r by (simp add: bn_from_montgomery_small_def bn_from_montgomery_in_place_def)
  then show ?thesis using that v by blast
qed


section \<open>Properties\<close>

text \<open>
  C35: For an odd, non-negative modulus and while memory lasts, \<open>BN_MONT_CTX_new_for_modulus\<close> (with or without a pool
  of the caller's) and \<open>BN_MONT_CTX_new_consttime\<close>, which computes the square of \<open>R\<close> by shifts instead of a division,
  give contexts for that modulus in which Montgomery arithmetic is sound; they fail on every other modulus.
\<close>

theorem mont_setup_exact:
  assumes "malloc_total ma" "bn_ok m" "16 * bn_width m \<le> bn_max_words" "opt_fit e ctx" "ctx_fit e c" "e + 5 \<le> pool_max"
  shows "if odd (bn_value m) \<and> \<not> bn_neg m then
      (\<exists>mont ctx'. BN_MONT_CTX_new_for_modulus ma m ctx = (Some mont, ctx') \<and> mont_ok mont \<and> int (mont_modulus mont) = bn_value m
        \<and> opt_restored e ctx ctx')
      \<and> (\<exists>mont c'. BN_MONT_CTX_new_consttime ma m c = (Some mont, c') \<and> mont_ok mont \<and> int (mont_modulus mont) = bn_value m
        \<and> pool_restored e c c')
    else BN_MONT_CTX_new_for_modulus ma m ctx = (None, ctx) \<and> BN_MONT_CTX_new_consttime ma m c = (None, c)"
proof (cases "mont_modulus_ok m")
  case True
  have e: "e + 4 \<le> pool_max" using assms(6) by simp
  have v: "bn_value m = int (bn_mag m)" "odd (bn_value m) \<and> \<not> bn_neg m" using True by (simp_all add: bn_value_def mont_modulus_ok_def)
  obtain mont ctx' where 1: "BN_MONT_CTX_new_for_modulus ma m ctx = (Some mont, ctx')" "mont_ok mont" "mont_modulus mont = bn_mag m"
    "opt_restored e ctx ctx'"
    by (rule new_for_modulus_run [OF assms(1,2) True assms(3,4,6)])
  obtain mont' c' where 2: "BN_MONT_CTX_new_consttime ma m c = (Some mont', c')" "mont_ok mont'" "mont_modulus mont' = bn_mag m"
    "pool_restored e c c'"
    by (rule new_consttime_run [OF assms(1,2) True assms(3,5) e])
  show ?thesis unfolding if_P [OF v(2)] unfolding v(1) of_nat_eq_iff using 1 2 by blast
next
  case False
  then have "\<not> (odd (bn_value m) \<and> \<not> bn_neg m)" by (auto simp: bn_value_def mont_modulus_ok_def)
  then show ?thesis using new_rejects [OF assms(2) False] by simp
qed

text \<open>
  C36: Montgomery arithmetic refines arithmetic modulo the modulus: writing \<open>mont_rep mont v x\<close> for "\<open>x\<close> is the
  Montgomery form of \<open>v\<close>", the operations multiply and square forms, turn numbers below \<open>R\<close> into forms and forms into
  least residues, and give the form of one; each returns a number as wide as the modulus and gives the pool back.
\<close>

theorem mont_arithmetic_refines:
  assumes "malloc_total ma" "mont_ok mont" "mont_rep mont v a" "mont_rep mont w b" "bn_ok x" "bn_less_than_montgomery_R x mont"
    "8 * bn_width x \<le> bn_max_words" "bn_ok r" "bn_room r (mont_width mont)" "ctx_fit e ctx" "e + 5 \<le> pool_max"
  shows "(\<exists>r' ctx'. BN_mod_mul_montgomery ma False a b mont (r, ctx) = (Some (), r', ctx') \<and> mont_rep mont (v * w) r' \<and> pool_restored e ctx ctx')
    \<and> (\<exists>r' ctx'. BN_mod_mul_montgomery ma True a a mont (r, ctx) = (Some (), r', ctx') \<and> mont_rep mont (v * v) r' \<and> pool_restored e ctx ctx')
    \<and> (\<exists>r' ctx'. BN_to_montgomery ma x mont (r, ctx) = (Some (), r', ctx') \<and> mont_rep mont (bn_mag x) r' \<and> pool_restored e ctx ctx')
    \<and> (\<exists>r' ctx'. BN_from_montgomery ma a mont (r, ctx) = (Some (), r', ctx') \<and> bn_ok r' \<and> bn_width r' = mont_width mont
         \<and> bn_value r' = int (v mod mont_modulus mont) \<and> pool_restored e ctx ctx')
    \<and> (\<exists>r' ctx'. bn_one_to_montgomery ma mont (r, ctx) = (Some (), r', ctx') \<and> mont_rep mont 1 r' \<and> pool_restored e ctx ctx')"
proof (intro conjI)
  have e: "e + 2 \<le> pool_max" using assms(11) by simp
  note ctx = assms(8-11)
  show "\<exists>r' ctx'. BN_mod_mul_montgomery ma False a b mont (r, ctx) = (Some (), r', ctx') \<and> mont_rep mont (v * w) r' \<and> pool_restored e ctx ctx'"
    by (rule rep_mul_run [OF assms(1-4) _ ctx, of False]) (simp, blast)
  show "\<exists>r' ctx'. BN_mod_mul_montgomery ma True a a mont (r, ctx) = (Some (), r', ctx') \<and> mont_rep mont (v * v) r' \<and> pool_restored e ctx ctx'"
    by (rule rep_mul_run [OF assms(1-3,3) _ ctx, of True]) (simp, blast)
  show "\<exists>r' ctx'. BN_to_montgomery ma x mont (r, ctx) = (Some (), r', ctx') \<and> mont_rep mont (bn_mag x) r' \<and> pool_restored e ctx ctx'"
    by (rule to_montgomery_run [OF assms(1,2,5-7) ctx]) blast
  show "\<exists>r' ctx'. BN_from_montgomery ma a mont (r, ctx) = (Some (), r', ctx') \<and> bn_ok r' \<and> bn_width r' = mont_width mont
      \<and> bn_value r' = int (v mod mont_modulus mont) \<and> pool_restored e ctx ctx'"
    by (rule from_rep_run [OF assms(1-3,8-10) e]) blast
  show "\<exists>r' ctx'. bn_one_to_montgomery ma mont (r, ctx) = (Some (), r', ctx') \<and> mont_rep mont 1 r' \<and> pool_restored e ctx ctx'"
    by (rule one_to_montgomery_run [OF assms(1,2,8-10) e]) blast
qed

text \<open>
  C37: The parts together multiply modulo a number without dividing by it: set up a context for an odd modulus, turn
  both factors into Montgomery form, multiply the forms and turn the product back; while memory lasts the number that
  results is the product modulo the modulus.
\<close>

theorem mont_multiplies:
  assumes "malloc_total ma" "bn_ok m" "odd (bn_value m)" "\<not> bn_neg m" "16 * bn_width m \<le> bn_max_words" "ctx_fit e ctx" "e + 5 \<le> pool_max"
    "bn_ok a" "\<not> bn_neg a" "bn_mag a < bn_mag m" "8 * bn_width a \<le> bn_max_words"
    "bn_ok b" "\<not> bn_neg b" "bn_mag b < bn_mag m" "8 * bn_width b \<le> bn_max_words" "bn_ok r" "\<not> bn_static r"
  shows "\<exists>mont c1 x c2 y c3 z c4 r' c5.
      BN_MONT_CTX_new_for_modulus ma m (Some ctx) = (Some mont, Some c1)
    \<and> BN_to_montgomery ma a mont (BN_init, c1) = (Some (), x, c2)
    \<and> BN_to_montgomery ma b mont (BN_init, c2) = (Some (), y, c3)
    \<and> BN_mod_mul_montgomery ma False x y mont (BN_init, c3) = (Some (), z, c4)
    \<and> BN_from_montgomery ma z mont (r, c4) = (Some (), r', c5)
    \<and> bn_value r' = (bn_value a * bn_value b) mod bn_value m \<and> pool_restored e ctx c5"
proof -
  have mm: "mont_modulus_ok m" using assms(3,4) by (simp add: mont_modulus_ok_def bn_value_def)
  have o: "opt_fit e (Some ctx)" using assms(6) by (simp add: opt_fit_def)
  have e: "e + 2 \<le> pool_max" using assms(7) by simp
  obtain mont c where m: "BN_MONT_CTX_new_for_modulus ma m (Some ctx) = (Some mont, c)" "mont_ok mont" "mont_modulus mont = bn_mag m"
    "opt_restored e (Some ctx) c"
    by (rule new_for_modulus_run [OF assms(1,2) mm assms(5) o assms(7)])
  obtain c1 where c1: "c = Some c1" "pool_restored e ctx c1" using m(4) by (auto simp: opt_restored_def split: option.splits)
  have f1: "ctx_fit e c1" by (rule pool_restored_fit [OF assms(6) c1(2)])
  have w: "16 * mont_width mont \<le> bn_max_words" using m(2) by (simp add: mont_ok_def)
  have i: "bn_ok BN_init" "bn_room BN_init (mont_width mont)" "bn_room r (mont_width mont)"
    using w assms(17) by (simp_all add: BN_init_def bn_ok_def bn_room_def)
  have R: "bn_mag a < mont_R mont" "bn_mag b < mont_R mont" using assms(10,14) m(3) modulus_less_R [OF m(2)] by linarith+
  then have ab: "bn_less_than_montgomery_R a mont" "bn_less_than_montgomery_R b mont"
    using fits_iff [OF assms(8)] fits_iff [OF assms(12)] assms(9,13) by (simp_all add: bn_less_than_montgomery_R_def BN_is_negative_def)
  obtain x c2 where x: "BN_to_montgomery ma a mont (BN_init, c1) = (Some (), x, c2)" "mont_rep mont (bn_mag a) x" "ctx_fit e c2" "pool_restored e c1 c2"
    by (rule to_montgomery_run [OF assms(1) m(2) assms(8) ab(1) assms(11) i(1,2) f1 assms(7)]) blast
  obtain y c3 where y: "BN_to_montgomery ma b mont (BN_init, c2) = (Some (), y, c3)" "mont_rep mont (bn_mag b) y" "ctx_fit e c3" "pool_restored e c2 c3"
    by (rule to_montgomery_run [OF assms(1) m(2) assms(12) ab(2) assms(15) i(1,2) x(3) assms(7)]) blast
  have s: "False \<longrightarrow> x = y" by simp
  obtain z c4 where z: "BN_mod_mul_montgomery ma False x y mont (BN_init, c3) = (Some (), z, c4)" "mont_rep mont (bn_mag a * bn_mag b) z"
    "ctx_fit e c4" "pool_restored e c3 c4"
    by (rule rep_mul_run [OF assms(1) m(2) x(2) y(2) s i(1,2) y(3) assms(7)]) blast
  obtain r' c5 where r: "BN_from_montgomery ma z mont (r, c4) = (Some (), r', c5)" "bn_value r' = int ((bn_mag a * bn_mag b) mod mont_modulus mont)"
    "pool_restored e c4 c5"
    by (rule from_rep_run [OF assms(1) m(2) z(2) assms(16) i(3) z(3) e]) blast
  have "bn_value r' = (bn_value a * bn_value b) mod bn_value m"
    unfolding r(2) m(3) using assms(4,9,13) by (simp add: bn_value_def zmod_int)
  moreover have "pool_restored e ctx c5"
    using pool_restored_trans [OF pool_restored_trans [OF pool_restored_trans [OF pool_restored_trans [OF c1(2) x(4)] y(4)] z(4)] r(3)] .
  ultimately show ?thesis using m(1) c1(1) x(1) y(1) z(1) r(1) by blast
qed

section \<open>Witnesses\<close>

text \<open>A context for the modulus 7.\<close>

definition mont_seven :: bn_mont_ctx where
  "mont_seven = \<lparr>mont_RR = small False 4, mont_N = small False 7, mont_n0 = [bn_neg_inv_mod_r_u64 7, 0]\<rparr>"

lemma small_mag: "bn_mag (small n w) = unat w" "bn_mag \<lparr>bn_d = [w], bn_width = Suc 0, bn_neg = n, bn_static = st\<rparr> = unat w"
  by (simp_all add: bn_mag_def bn_words_def)

lemma mont_seven_ok: "mont_ok mont_seven" "mont_rep mont_seven 3 (small False 6)" "mont_rep mont_seven 5 (small False 3)"
proof -
  have "odd (unat (7 :: u64))" by simp
  from neg_inv_value [OF this] have "(7 :: u64) * bn_neg_inv_mod_r_u64 7 = - 1" by (simp only: mult.commute)
  then show "mont_ok mont_seven" by (simp add: mont_ok_def mont_seven_def small_mag bn_words_def bn_ok_def bn_max_words_def)
  show "mont_rep mont_seven 3 (small False 6)" "mont_rep mont_seven 5 (small False 3)"
    by (simp_all add: mont_rep_def mont_seven_def small_mag bn_ok_def)
qed

theorem mont_setup_exact_witness:
  "\<exists>mont ctx. BN_MONT_CTX_new_for_modulus zero_malloc (small False 7) None = (Some mont, ctx) \<and> mont_ok mont \<and> mont_modulus mont = 7"
proof -
  have p: "16 * bn_width (small False 7) \<le> bn_max_words" "opt_fit 6 None" "6 + 5 \<le> pool_max" by (simp_all add: bn_max_words_def opt_fit_def)
  have v: "bn_value (small False 7) = 7" "odd (bn_value (small False 7)) \<and> \<not> bn_neg (small False 7)" by (simp_all add: bn_value_def small_mag)
  note t = mont_setup_exact [where m = "small False 7", OF malloc_total_zero_malloc fresh_numbers(1) p(1,2) fresh_pool_fit p(3), unfolded if_P [OF v(2)], unfolded v(1)]
  then show ?thesis by (metis of_nat_eq_iff of_nat_numeral)
qed

theorem mont_arithmetic_refines_witness:
  "\<exists>r ctx. BN_mod_mul_montgomery zero_malloc False (small False 6) (small False 3) mont_seven (BN_init, fresh_ctx) = (Some (), r, ctx)
    \<and> mont_rep mont_seven 15 r \<and> ctx_used ctx = 0"
proof -
  have x: "bn_less_than_montgomery_R (small False 100) mont_seven"
    using fits_iff [OF fresh_numbers(1) [of 100 False]] by (simp add: bn_less_than_montgomery_R_def BN_is_negative_def mont_seven_def small_mag)
  have p: "8 * bn_width (small False 100) \<le> bn_max_words" "bn_ok BN_init" "bn_room BN_init (mont_width mont_seven)" "6 + 5 \<le> pool_max"
    by (simp_all add: bn_max_words_def BN_init_def bn_ok_def bn_room_def mont_seven_def)
  note t = mont_arithmetic_refines [OF malloc_total_zero_malloc mont_seven_ok fresh_numbers(1) x p(1-3) fresh_pool_fit p(4), THEN conjunct1]
  then show ?thesis by (auto simp: pool_restored_def)
qed

theorem mont_multiplies_witness:
  "\<exists>mont c1 x c2 y c3 z c4 r c5.
      BN_MONT_CTX_new_for_modulus zero_malloc (small False 7) (Some fresh_ctx) = (Some mont, Some c1)
    \<and> BN_to_montgomery zero_malloc (small False 3) mont (BN_init, c1) = (Some (), x, c2)
    \<and> BN_to_montgomery zero_malloc (small False 5) mont (BN_init, c2) = (Some (), y, c3)
    \<and> BN_mod_mul_montgomery zero_malloc False x y mont (BN_init, c3) = (Some (), z, c4)
    \<and> BN_from_montgomery zero_malloc z mont (BN_init, c4) = (Some (), r, c5) \<and> bn_value r = 1"
proof -
  have v: "bn_value (small False w) = int (unat w)" "bn_value \<lparr>bn_d = [w], bn_width = Suc 0, bn_neg = False, bn_static = False\<rparr> = int (unat w)" for w
    by (simp_all add: bn_value_def small_mag)
  have p: "odd (bn_value (small False 7))" "\<not> bn_neg (small False w)" "16 * bn_width (small False w) \<le> bn_max_words" "8 * bn_width (small False w) \<le> bn_max_words"
    "6 + 5 \<le> pool_max" "bn_mag (small False 3) < bn_mag (small False 7)" "bn_mag (small False 5) < bn_mag (small False 7)"
    "bn_ok BN_init" "\<not> bn_static BN_init" for w
    by (simp_all add: v small_mag bn_max_words_def BN_init_def bn_ok_def)
  have z: "bn_value (small False 3) * bn_value (small False 5) mod bn_value (small False 7) = 1" by (simp add: v)
  note t = mont_multiplies [OF malloc_total_zero_malloc fresh_numbers(1) p(1-3) fresh_pool_fit p(5) fresh_numbers(1) p(2,6,4)
    fresh_numbers(1) p(2,7,4) p(8,9), unfolded z]
  then show ?thesis by blast
qed

end
