(* ===== verification/Bn_Mont_Locked.thy ===== *)
theory Bn_Mont_Locked imports Bn_Mont_Setup begin

text \<open>
  \<open>BN_MONT_CTX_set_locked\<close> (\<open>montgomery.c\<close>) in threads that share a pointer and a lock: every call of the lock and every
  access to the pointer is a step of its own, and the steps of the threads interleave in any order.

  The lock is the \<open>CRYPTO_MUTEX\<close> of \<open>crypto/thread_pthread.c\<close>, a POSIX read-write lock, given by who holds it: a lock
  function that cannot proceed blocks, and an unlock of a lock that is not held is an error; both are \<open>None\<close>.
\<close>

section \<open>The lock\<close>

record mutex =
  mu_readers :: nat
  mu_writer :: bool

definition CRYPTO_MUTEX_lock_read :: "mutex \<Rightarrow> mutex option" where
  "CRYPTO_MUTEX_lock_read l = (if mu_writer l then None else Some (l\<lparr>mu_readers := mu_readers l + 1\<rparr>))"

definition CRYPTO_MUTEX_unlock_read :: "mutex \<Rightarrow> mutex option" where
  "CRYPTO_MUTEX_unlock_read l = (if mu_readers l = 0 then None else Some (l\<lparr>mu_readers := mu_readers l - 1\<rparr>))"

definition CRYPTO_MUTEX_lock_write :: "mutex \<Rightarrow> mutex option" where
  "CRYPTO_MUTEX_lock_write l = (if mu_writer l \<or> mu_readers l \<noteq> 0 then None else Some (l\<lparr>mu_writer := True\<rparr>))"

definition CRYPTO_MUTEX_unlock_write :: "mutex \<Rightarrow> mutex option" where
  "CRYPTO_MUTEX_unlock_write l = (if mu_writer l then Some (l\<lparr>mu_writer := False\<rparr>) else None)"

section \<open>A thread\<close>

text \<open>What the threads share: the pointer and the lock.\<close>

record locked_shared =
  ls_pmont :: "bn_mont_ctx option"
  ls_lock :: mutex

text \<open>
  Where a thread is in the function, with its local variable \<open>ctx\<close>, the context it has made and \<open>ok\<close>.
\<close>

datatype lock_pc =
    Lock_read | Read_pointer | Unlock_read "bn_mont_ctx option" | Test "bn_mont_ctx option"
  | Lock_write | Test_again | Make | Store "bn_mont_ctx option" | Read_ok | Unlock_write bool | Returned bool

text \<open>The next step of a thread, with the pool it was called with; \<open>None\<close> when it cannot move or has returned.\<close>

fun set_locked_thread ::
  "malloc_fn \<Rightarrow> bignum \<Rightarrow> locked_shared \<Rightarrow> lock_pc \<times> bn_ctx option \<Rightarrow> (locked_shared \<times> lock_pc \<times> bn_ctx option) option"
where
  "set_locked_thread ma md sh (Lock_read, c) =
     map_option (\<lambda>l. (sh\<lparr>ls_lock := l\<rparr>, Read_pointer, c)) (CRYPTO_MUTEX_lock_read (ls_lock sh))"
| "set_locked_thread ma md sh (Read_pointer, c) = Some (sh, Unlock_read (ls_pmont sh), c)"
| "set_locked_thread ma md sh (Unlock_read ctx, c) =
     map_option (\<lambda>l. (sh\<lparr>ls_lock := l\<rparr>, Test ctx, c)) (CRYPTO_MUTEX_unlock_read (ls_lock sh))"
| "set_locked_thread ma md sh (Test ctx, c) = Some (sh, if ctx \<noteq> None then Returned True else Lock_write, c)"
| "set_locked_thread ma md sh (Lock_write, c) =
     map_option (\<lambda>l. (sh\<lparr>ls_lock := l\<rparr>, Test_again, c)) (CRYPTO_MUTEX_lock_write (ls_lock sh))"
| "set_locked_thread ma md sh (Test_again, c) = Some (sh, if ls_pmont sh = None then Make else Read_ok, c)"
| "set_locked_thread ma md sh (Make, c) = (case BN_MONT_CTX_new_for_modulus ma md c of (m, c) \<Rightarrow> Some (sh, Store m, c))"
| "set_locked_thread ma md sh (Store m, c) = Some (sh\<lparr>ls_pmont := m\<rparr>, Read_ok, c)"
| "set_locked_thread ma md sh (Read_ok, c) = Some (sh, Unlock_write (ls_pmont sh \<noteq> None), c)"
| "set_locked_thread ma md sh (Unlock_write ok, c) =
     map_option (\<lambda>l. (sh\<lparr>ls_lock := l\<rparr>, Returned ok, c)) (CRYPTO_MUTEX_unlock_write (ls_lock sh))"
| "set_locked_thread ma md sh (Returned ok, c) = None"

section \<open>The threads together\<close>

type_synonym locked_state = "locked_shared \<times> (lock_pc \<times> bn_ctx option) list"

inductive BN_MONT_CTX_set_locked :: "(nat \<Rightarrow> malloc_fn) \<Rightarrow> bignum \<Rightarrow> locked_state \<Rightarrow> locked_state \<Rightarrow> bool" for ma md where
  thread_moves: "i < length ts \<Longrightarrow> set_locked_thread (ma i) md sh (ts ! i) = Some (sh', t) \<Longrightarrow>
    BN_MONT_CTX_set_locked ma md (sh, ts) (sh', ts[i := t])"

inductive_cases set_lockedE: "BN_MONT_CTX_set_locked ma md s s'"

text \<open>No context yet, nobody holds the lock, and every thread is about to call the function with its pool.\<close>

definition set_locked_start :: "bn_ctx option list \<Rightarrow> locked_state" where
  "set_locked_start cs = (\<lparr>ls_pmont = None, ls_lock = \<lparr>mu_readers = 0, mu_writer = False\<rparr>\<rparr>, map (Pair Lock_read) cs)"

section \<open>Invariant\<close>

text \<open>Who holds the lock.\<close>

definition holds_read :: "lock_pc \<times> bn_ctx option \<Rightarrow> bool" where
  "holds_read t \<longleftrightarrow> (case fst t of Read_pointer \<Rightarrow> True | Unlock_read _ \<Rightarrow> True | _ \<Rightarrow> False)"

definition holds_write :: "lock_pc \<times> bn_ctx option \<Rightarrow> bool" where
  "holds_write t \<longleftrightarrow> (case fst t of Test_again \<Rightarrow> True | Make \<Rightarrow> True | Store _ \<Rightarrow> True | Read_ok \<Rightarrow> True | Unlock_write _ \<Rightarrow> True | _ \<Rightarrow> False)"

definition holders :: "('a \<Rightarrow> bool) \<Rightarrow> 'a list \<Rightarrow> nat" where
  "holders P ts = length (filter P ts)"

definition lock_ok :: "locked_state \<Rightarrow> bool" where
  "lock_ok s \<longleftrightarrow> (case s of (sh, ts) \<Rightarrow>
     mu_readers (ls_lock sh) = holders holds_read ts \<and> of_bool (mu_writer (ls_lock sh)) = holders holds_write ts
     \<and> (mu_writer (ls_lock sh) \<longrightarrow> mu_readers (ls_lock sh) = 0))"

lemma holders_update:
  "i < length ts \<Longrightarrow> holders P (ts[i := t]) + of_bool (P (ts ! i)) = holders P ts + of_bool (P t)"
  unfolding holders_def
proof (induction ts arbitrary: i)
  case (Cons a ts)
  then show ?case by (cases i) auto
qed simp

lemma holders_none: "i < length ts \<Longrightarrow> holders P ts = 0 \<Longrightarrow> \<not> P (ts ! i)"
  by (auto simp: holders_def filter_empty_conv)

lemma holders_two: "i < j \<Longrightarrow> j < length ts \<Longrightarrow> P (ts ! i) \<Longrightarrow> P (ts ! j) \<Longrightarrow> 2 \<le> holders P ts"
proof -
  assume a: "i < j" "j < length ts" "P (ts ! i)" "P (ts ! j)"
  then have "{i, j} \<subseteq> {k. k < length ts \<and> P (ts ! k)}" by auto
  then have "card {i, j} \<le> card {k. k < length ts \<and> P (ts ! k)}" by (intro card_mono) simp_all
  then show ?thesis using a(1) by (simp add: holders_def length_filter_conv_card)
qed

lemmas mutex_defs = CRYPTO_MUTEX_lock_read_def CRYPTO_MUTEX_unlock_read_def CRYPTO_MUTEX_lock_write_def CRYPTO_MUTEX_unlock_write_def
lemmas holds_defs = holds_read_def holds_write_def

lemma lock_ok_step:
  assumes "BN_MONT_CTX_set_locked ma md s s'" "lock_ok s"
  shows "lock_ok s'"
  using assms
proof (induction rule: BN_MONT_CTX_set_locked.induct)
  case (thread_moves i ts sh sh' t)
  obtain pc c where pc: "ts ! i = (pc, c)" by (cases "ts ! i") auto
  note u = holders_update [OF thread_moves(1), of holds_read t] holders_update [OF thread_moves(1), of holds_write t]
  show ?case
    using thread_moves(2,3) u unfolding pc
    by (cases pc) (auto simp: lock_ok_def mutex_defs holds_defs split: if_splits prod.splits)
qed

text \<open>What each thread knows; \<open>made i\<close> is what \<open>BN_MONT_CTX_new_for_modulus\<close> gives thread \<open>i\<close>.\<close>

definition thread_ok :: "(nat \<Rightarrow> bn_ctx option \<Rightarrow> bn_mont_ctx option) \<Rightarrow> bn_ctx option \<Rightarrow> bn_mont_ctx option \<Rightarrow> nat \<Rightarrow> lock_pc \<times> bn_ctx option \<Rightarrow> bool" where
  "thread_ok made c0 p i t \<longleftrightarrow> (case t of (pc, c) \<Rightarrow>
     (case pc of
        Unlock_read ctx \<Rightarrow> c = c0 \<and> (ctx \<noteq> None \<longrightarrow> p \<noteq> None)
      | Test ctx \<Rightarrow> c = c0 \<and> (ctx \<noteq> None \<longrightarrow> p \<noteq> None)
      | Make \<Rightarrow> c = c0 \<and> p = None
      | Store m \<Rightarrow> p = None \<and> m = made i c0
      | Read_ok \<Rightarrow> p \<noteq> None \<or> made i c0 = None
      | Unlock_write ok \<Rightarrow> (if ok then p \<noteq> None else made i c0 = None)
      | Returned ok \<Rightarrow> (if ok then p \<noteq> None else made i c0 = None)
      | _ \<Rightarrow> c = c0))"

definition locked_inv :: "(nat \<Rightarrow> malloc_fn) \<Rightarrow> bignum \<Rightarrow> bn_ctx option list \<Rightarrow> locked_state \<Rightarrow> bool" where
  "locked_inv ma md cs s \<longleftrightarrow> (case s of (sh, ts) \<Rightarrow> length ts = length cs
     \<and> (\<forall>i < length cs. thread_ok (\<lambda>i c. fst (BN_MONT_CTX_new_for_modulus (ma i) md c)) (cs ! i) (ls_pmont sh) i (ts ! i))
     \<and> (\<forall>m. ls_pmont sh = Some m \<longrightarrow> (\<exists>i < length cs. fst (BN_MONT_CTX_new_for_modulus (ma i) md (cs ! i)) = Some m)))"

text \<open>Only the thread that stores a context changes the pointer, and it holds the lock for writing.\<close>

lemma thread_changes:
  assumes "set_locked_thread ma md sh t = Some (sh', t')"
  shows "ls_pmont sh' = ls_pmont sh \<or> (\<exists>m c. t = (Store m, c) \<and> ls_pmont sh' = m)"
proof (cases t)
  case (Pair pc c)
  then show ?thesis using assms by (cases pc) (auto simp: mutex_defs split: if_splits prod.splits)
qed

lemma thread_keeps:
  assumes "set_locked_thread (ma i) md sh t = Some (sh', t')"
    "thread_ok (\<lambda>i c. fst (BN_MONT_CTX_new_for_modulus (ma i) md c)) c0 (ls_pmont sh) i t"
  shows "thread_ok (\<lambda>i c. fst (BN_MONT_CTX_new_for_modulus (ma i) md c)) c0 (ls_pmont sh') i t'"
proof (cases t)
  case (Pair pc c)
  then show ?thesis using assms
    by (cases pc) (auto simp: thread_ok_def mutex_defs split: if_splits prod.splits)
qed

lemma thread_ok_other:
  "thread_ok made c0 p i t \<Longrightarrow> \<not> holds_write t \<Longrightarrow> (p = None \<or> p' = p) \<Longrightarrow> thread_ok made c0 p' i t"
  by (cases t; cases "fst t") (auto simp: thread_ok_def holds_write_def split: if_splits)

lemma one_writer:
  assumes "lock_ok (sh, ts)" "i < length ts" "j < length ts" "holds_write (ts ! i)" "holds_write (ts ! j)"
  shows "i = j"
proof (rule ccontr)
  assume "i \<noteq> j"
  then have "2 \<le> holders holds_write ts"
    using holders_two [of i j ts holds_write] holders_two [of j i ts holds_write] assms(2-5) by (cases "i < j") simp_all
  moreover have "holders holds_write ts = of_bool (mu_writer (ls_lock sh))" using assms(1) by (simp add: lock_ok_def)
  ultimately show False by (cases "mu_writer (ls_lock sh)") simp_all
qed

lemma no_reader_with_writer:
  assumes "lock_ok (sh, ts)" "i < length ts" "j < length ts" "holds_write (ts ! i)"
  shows "\<not> holds_read (ts ! j)"
proof -
  have "holders holds_write ts \<noteq> 0" using holders_none [OF assms(2), of holds_write] assms(4) by blast
  then have "mu_writer (ls_lock sh)" using assms(1) by (cases "mu_writer (ls_lock sh)") (simp_all add: lock_ok_def)
  then have "holders holds_read ts = 0" using assms(1) by (simp add: lock_ok_def)
  then show ?thesis by (rule holders_none [OF assms(3)])
qed

lemma locked_inv_step:
  assumes "BN_MONT_CTX_set_locked ma md s s'" "lock_ok s" "locked_inv ma md cs s"
  shows "locked_inv ma md cs s'"
  using assms
proof (induction rule: BN_MONT_CTX_set_locked.induct)
  case (thread_moves i ts sh sh' t)
  let ?made = "\<lambda>i c. fst (BN_MONT_CTX_new_for_modulus (ma i) md c)"
  have inv: "length ts = length cs" "\<forall>j < length cs. thread_ok ?made (cs ! j) (ls_pmont sh) j (ts ! j)"
    "\<forall>m. ls_pmont sh = Some m \<longrightarrow> (\<exists>i < length cs. ?made i (cs ! i) = Some m)"
    using thread_moves(4) by (simp_all add: locked_inv_def)
  have i: "i < length cs" using thread_moves(1) inv(1) by simp
  have own: "thread_ok ?made (cs ! i) (ls_pmont sh') i t"
    by (rule thread_keeps [where ma = ma and i = i, OF thread_moves(2)]) (use inv(2) i in blast)
  have change: "ls_pmont sh' = ls_pmont sh \<or>
      holds_write (ts ! i) \<and> ls_pmont sh = None \<and> (\<forall>m. ls_pmont sh' = Some m \<longrightarrow> ?made i (cs ! i) = Some m)"
    using thread_changes [OF thread_moves(2)] inv(2) i by (auto simp: holds_write_def thread_ok_def)
  have others: "thread_ok ?made (cs ! j) (ls_pmont sh') j (ts ! j)" if "j < length cs" "j \<noteq> i" for j
  proof (cases "ls_pmont sh' = ls_pmont sh")
    case True
    then show ?thesis using inv(2) that by simp
  next
    case False
    then have w: "holds_write (ts ! i)" "ls_pmont sh = None" using change by blast+
    then have "\<not> holds_write (ts ! j)" using one_writer [OF thread_moves(3,1) _ w(1)] that inv(1) by auto
    then show ?thesis using thread_ok_other inv(2) that(1) w(2) by blast
  qed
  have "\<exists>i < length cs. ?made i (cs ! i) = Some m" if "ls_pmont sh' = Some m" for m
    using change inv(3) i that by (cases "ls_pmont sh' = ls_pmont sh") auto
  moreover have "thread_ok ?made (cs ! j) (ls_pmont sh') j (ts[i := t] ! j)" if "j < length cs" for j
    using own others that thread_moves(1) by (cases "j = i") simp_all
  ultimately show ?case using inv(1) by (simp add: locked_inv_def)
qed

lemma start_ok: "lock_ok (set_locked_start cs)" "locked_inv ma md cs (set_locked_start cs)"
  by (auto simp: lock_ok_def locked_inv_def set_locked_start_def holders_def holds_defs filter_map o_def thread_ok_def)

lemma reachable_ok: "(BN_MONT_CTX_set_locked ma md)\<^sup>*\<^sup>* (set_locked_start cs) s \<Longrightarrow> lock_ok s \<and> locked_inv ma md cs s"
proof (induction rule: rtranclp_induct)
  case base
  then show ?case using start_ok by blast
next
  case (step s s')
  then show ?case using lock_ok_step locked_inv_step by blast
qed

text \<open>A published context stays.\<close>

lemma published_step:
  assumes "BN_MONT_CTX_set_locked ma md s s'" "locked_inv ma md cs s" "ls_pmont (fst s) = Some m"
  shows "ls_pmont (fst s') = Some m"
  using assms
proof (induction rule: BN_MONT_CTX_set_locked.induct)
  case (thread_moves i ts sh sh' t)
  have "thread_ok (\<lambda>i c. fst (BN_MONT_CTX_new_for_modulus (ma i) md c)) (cs ! i) (ls_pmont sh) i (ts ! i)"
    using thread_moves(1,3) by (simp add: locked_inv_def)
  then show ?case using thread_changes [OF thread_moves(2)] thread_moves(4) by (auto simp: thread_ok_def)
qed

lemma published_stays:
  "(BN_MONT_CTX_set_locked ma md)\<^sup>*\<^sup>* s s' \<Longrightarrow> lock_ok s \<Longrightarrow> locked_inv ma md cs s \<Longrightarrow> ls_pmont (fst s) = Some m \<Longrightarrow>
     ls_pmont (fst s') = Some m"
proof (induction rule: converse_rtranclp_induct)
  case (step s s1)
  then show ?case using lock_ok_step locked_inv_step published_step by blast
qed

section \<open>Progress\<close>

text \<open>A thread that has not returned can move, unless it waits for the lock.\<close>

lemma thread_can_move:
  assumes "lock_ok (sh, ts)" "i < length ts" "\<forall>ok. fst (ts ! i) \<noteq> Returned ok" "fst (ts ! i) \<noteq> Lock_read" "fst (ts ! i) \<noteq> Lock_write"
  shows "set_locked_thread ma md sh (ts ! i) \<noteq> None"
proof -
  have r: "mu_readers (ls_lock sh) \<noteq> 0" if "holds_read (ts ! i)"
    using holders_none [OF assms(2), of holds_read] that assms(1) by (auto simp: lock_ok_def)
  have w: "mu_writer (ls_lock sh)" if "holds_write (ts ! i)"
    using holders_none [OF assms(2), of holds_write] that assms(1) by (cases "mu_writer (ls_lock sh)") (auto simp: lock_ok_def)
  obtain pc c where pc: "ts ! i = (pc, c)" by (cases "ts ! i") auto
  show ?thesis using r w assms(3-5) unfolding pc
    by (cases pc) (auto simp: mutex_defs holds_defs split: prod.splits)
qed

lemma holds_nothing:
  "(\<exists>ok. fst t = Returned ok) \<or> fst t = Lock_read \<or> fst t = Lock_write \<Longrightarrow> \<not> holds_read t \<and> \<not> holds_write t"
  by (cases "fst t") (simp_all add: holds_defs)

lemma holders_nothing:
  assumes "\<And>i. i < length ts \<Longrightarrow> \<not> holds_read (ts ! i) \<and> \<not> holds_write (ts ! i)" "lock_ok (sh, ts)"
  shows "ls_lock sh = \<lparr>mu_readers = 0, mu_writer = False\<rparr>"
proof -
  have "\<not> holds_read t \<and> \<not> holds_write t" if t: "t \<in> set ts" for t
  proof -
    obtain i where "i < length ts" "t = ts ! i" using t by (auto simp: in_set_conv_nth)
    then show ?thesis using assms(1) by blast
  qed
  then have "filter holds_read ts = []" "filter holds_write ts = []" unfolding filter_empty_conv by blast+
  then have "holders holds_read ts = 0" "holders holds_write ts = 0" unfolding holders_def by simp_all
  then have "mu_readers (ls_lock sh) = 0" "of_bool (mu_writer (ls_lock sh)) = (0 :: nat)"
    using assms(2) unfolding lock_ok_def prod.case by metis+
  then show ?thesis by (intro mutex.equality) simp_all
qed

text \<open>The lock is free when every thread waits for it or has returned, so one of them gets it.\<close>

lemma locked_progress:
  assumes "lock_ok (sh, ts)" "\<not> (\<exists>s'. BN_MONT_CTX_set_locked ma md (sh, ts) s')"
  shows "\<forall>i < length ts. \<exists>ok. fst (ts ! i) = Returned ok"
proof (intro allI impI, rule ccontr)
  fix i assume i: "i < length ts" "\<nexists>ok. fst (ts ! i) = Returned ok"
  have stuck: "set_locked_thread (ma j) md sh (ts ! j) = None" if "j < length ts" for j
    using assms(2) thread_moves [OF that, of ma md sh] by (cases "set_locked_thread (ma j) md sh (ts ! j)") auto
  have waits: "(\<exists>ok. fst (ts ! j) = Returned ok) \<or> fst (ts ! j) = Lock_read \<or> fst (ts ! j) = Lock_write" if "j < length ts" for j
  proof (rule ccontr)
    assume "\<not> ?thesis"
    then have "\<forall>ok. fst (ts ! j) \<noteq> Returned ok" "fst (ts ! j) \<noteq> Lock_read" "fst (ts ! j) \<noteq> Lock_write" by simp_all
    from thread_can_move [OF assms(1) that this] stuck [OF that] show False by blast
  qed
  have free: "ls_lock sh = \<lparr>mu_readers = 0, mu_writer = False\<rparr>"
    by (rule holders_nothing [OF holds_nothing [OF waits] assms(1)])
  have "fst (ts ! i) = Lock_read \<or> fst (ts ! i) = Lock_write" using waits [OF i(1)] i(2) by blast
  then have "set_locked_thread (ma i) md sh (ts ! i) \<noteq> None"
    using free by (cases "ts ! i") (auto simp: mutex_defs)
  then show False using stuck [OF i(1)] by simp
qed

text \<open>The steps a thread still has before it.\<close>

fun steps_left :: "lock_pc \<Rightarrow> nat" where
  "steps_left Lock_read = 10"
| "steps_left Read_pointer = 9"
| "steps_left (Unlock_read ctx) = 8"
| "steps_left (Test ctx) = 7"
| "steps_left Lock_write = 6"
| "steps_left Test_again = 5"
| "steps_left Make = 4"
| "steps_left (Store m) = 3"
| "steps_left Read_ok = 2"
| "steps_left (Unlock_write ok) = 1"
| "steps_left (Returned ok) = 0"

definition total_steps :: "locked_state \<Rightarrow> nat" where
  "total_steps s = (\<Sum>t\<leftarrow>snd s. steps_left (fst t))"

lemma thread_steps: "set_locked_thread ma md sh t = Some (sh', t') \<Longrightarrow> steps_left (fst t') < steps_left (fst t)"
  by (cases t; cases "fst t") (auto split: if_splits prod.splits)

lemma sum_list_less: "i < length xs \<Longrightarrow> f y < (f (xs ! i) :: nat) \<Longrightarrow> (\<Sum>x\<leftarrow>xs[i := y]. f x) < (\<Sum>x\<leftarrow>xs. f x)"
proof (induction xs arbitrary: i)
  case (Cons x xs)
  then show ?case by (cases i) auto
qed simp

lemma total_steps_decrease: "BN_MONT_CTX_set_locked ma md s s' \<Longrightarrow> total_steps s' < total_steps s"
  by (induction rule: BN_MONT_CTX_set_locked.induct) (auto simp: total_steps_def intro!: sum_list_less dest!: thread_steps)

lemma run_length: "(BN_MONT_CTX_set_locked ma md ^^ k) s s' \<Longrightarrow> k + total_steps s' \<le> total_steps s"
proof (induction k arbitrary: s')
  case (Suc k)
  then obtain s1 where s1: "(BN_MONT_CTX_set_locked ma md ^^ k) s s1" "BN_MONT_CTX_set_locked ma md s1 s'" by auto
  show ?case using Suc.IH [OF s1(1)] total_steps_decrease [OF s1(2)] by simp
qed simp

section \<open>Property\<close>

text \<open>
  C38: Threads that call \<open>BN_MONT_CTX_set_locked\<close> on a shared pointer, their lock calls and their accesses to the pointer
  interleaved in any way: at most one thread is between \<open>CRYPTO_MUTEX_lock_write\<close> and \<open>CRYPTO_MUTEX_unlock_write\<close>, and none
  reads then; a thread that returns 1 leaves a context that \<open>BN_MONT_CTX_new_for_modulus\<close> has made for one of the
  threads, and one that returns 0 has failed to make its own; a published context is never replaced. No interleaving
  lasts longer than ten steps for each thread, and when no thread can move all have returned and the lock is free, so
  there is no deadlock.
\<close>

theorem set_locked_publishes_once:
  assumes "(BN_MONT_CTX_set_locked ma md ^^ k) (set_locked_start cs) (sh, ts)"
  shows "length ts = length cs
    \<and> (\<forall>i < length ts. holds_write (ts ! i) \<longrightarrow> (\<forall>j < length ts. \<not> holds_read (ts ! j) \<and> (holds_write (ts ! j) \<longrightarrow> j = i)))
    \<and> (\<forall>i < length ts. fst (ts ! i) = Returned True \<longrightarrow>
         (\<exists>m j. ls_pmont sh = Some m \<and> j < length cs \<and> fst (BN_MONT_CTX_new_for_modulus (ma j) md (cs ! j)) = Some m))
    \<and> (\<forall>i < length ts. fst (ts ! i) = Returned False \<longrightarrow> fst (BN_MONT_CTX_new_for_modulus (ma i) md (cs ! i)) = None)
    \<and> (\<forall>m s'. ls_pmont sh = Some m \<and> (BN_MONT_CTX_set_locked ma md)\<^sup>*\<^sup>* (sh, ts) s' \<longrightarrow> ls_pmont (fst s') = Some m)
    \<and> k \<le> 10 * length cs
    \<and> ((\<nexists>s'. BN_MONT_CTX_set_locked ma md (sh, ts) s') \<longrightarrow>
         (\<forall>i < length ts. \<exists>ok. fst (ts ! i) = Returned ok) \<and> ls_lock sh = \<lparr>mu_readers = 0, mu_writer = False\<rparr>)"
proof -
  have inv: "lock_ok (sh, ts)" "locked_inv ma md cs (sh, ts)"
    using reachable_ok [of ma md cs "(sh, ts)"] relpowp_imp_rtranclp [OF assms] by blast+
  have len: "length ts = length cs" using inv(2) by (simp add: locked_inv_def)
  have ok: "thread_ok (\<lambda>i c. fst (BN_MONT_CTX_new_for_modulus (ma i) md c)) (cs ! i) (ls_pmont sh) i (ts ! i)" if "i < length ts" for i
    using inv(2) that by (simp add: locked_inv_def)
  have hit: "\<exists>m j. ls_pmont sh = Some m \<and> j < length cs \<and> fst (BN_MONT_CTX_new_for_modulus (ma j) md (cs ! j)) = Some m"
    if "i < length ts" "fst (ts ! i) = Returned True" for i
    using ok [OF that(1)] inv(2) that(2) by (auto simp: thread_ok_def locked_inv_def split: prod.splits)
  have miss: "fst (BN_MONT_CTX_new_for_modulus (ma i) md (cs ! i)) = None" if "i < length ts" "fst (ts ! i) = Returned False" for i
    using ok [OF that(1)] that(2) by (auto simp: thread_ok_def split: prod.splits)
  have "k \<le> total_steps (set_locked_start cs)" using run_length [OF assms] by simp
  also have "\<dots> = 10 * length cs" by (simp add: total_steps_def set_locked_start_def o_def sum_list_triv)
  finally have k: "k \<le> 10 * length cs" .
  have stop: "(\<forall>i < length ts. \<exists>ok. fst (ts ! i) = Returned ok) \<and> ls_lock sh = \<lparr>mu_readers = 0, mu_writer = False\<rparr>"
    if "\<nexists>s'. BN_MONT_CTX_set_locked ma md (sh, ts) s'"
  proof -
    have all: "\<forall>i < length ts. \<exists>ok. fst (ts ! i) = Returned ok" using locked_progress [OF inv(1) that] .
    then have "ls_lock sh = \<lparr>mu_readers = 0, mu_writer = False\<rparr>" using holds_nothing by (intro holders_nothing [OF _ inv(1)]) blast
    then show ?thesis using all by blast
  qed
  show ?thesis using len no_reader_with_writer [OF inv(1)] one_writer [OF inv(1)] hit miss published_stays [OF _ inv, simplified] k stop
    by blast
qed

text \<open>The run of a schedule, the list of the threads that move.\<close>

fun run_schedule :: "(nat \<Rightarrow> malloc_fn) \<Rightarrow> bignum \<Rightarrow> nat list \<Rightarrow> locked_state \<Rightarrow> locked_state option" where
  "run_schedule ma md [] s = Some s"
| "run_schedule ma md (i # is) (sh, ts) =
     (if i < length ts
      then case set_locked_thread (ma i) md sh (ts ! i) of None \<Rightarrow> None | Some (sh', t) \<Rightarrow> run_schedule ma md is (sh', ts[i := t])
      else None)"

lemma run_schedule_steps: "run_schedule ma md is s = Some s' \<Longrightarrow> (BN_MONT_CTX_set_locked ma md ^^ length is) s s'"
proof (induction "is" arbitrary: s)
  case (Cons i "is")
  obtain sh ts where s: "s = (sh, ts)" by (cases s)
  obtain sh' t where t: "i < length ts" "set_locked_thread (ma i) md sh (ts ! i) = Some (sh', t)" "run_schedule ma md is (sh', ts[i := t]) = Some s'"
    using Cons.prems by (auto simp: s split: if_splits option.splits prod.splits)
  show ?case unfolding s length_Cons
    by (rule relpowp_Suc_I2 [OF thread_moves [where ma = ma, OF t(1,2)] Cons.IH [OF t(3)]])
qed simp

text \<open>
  Two threads find the pointer NULL; the first makes a context for 7 and returns 1, the second then finds it under the
  write lock.
\<close>

theorem set_locked_publishes_once_witness:
  "\<exists>sh ts mont. (BN_MONT_CTX_set_locked (\<lambda>_. zero_malloc) (small False 7) ^^ 18) (set_locked_start [None, None]) (sh, ts)
     \<and> map fst ts = [Returned True, Returned True] \<and> ls_pmont sh = Some mont \<and> mont_modulus mont = 7
     \<and> ls_lock sh = \<lparr>mu_readers = 0, mu_writer = False\<rparr>
     \<and> fst (BN_MONT_CTX_new_for_modulus zero_malloc (small False 7) None) = Some mont"
proof -
  define md where "md = small False 7"
  let ?is = "[0, 0, 1, 1, 0, 1, 0, 1, 0, 0, 0, 0, 0, 0, 1, 1, 1, 1] :: nat list"
  have p: "bn_ok md" "mont_modulus_ok md" "16 * bn_width md \<le> bn_max_words" "opt_fit 6 None" "6 + 5 \<le> pool_max"
    by (simp_all add: md_def bn_ok_def bn_max_words_def opt_fit_def mont_modulus_ok_def small_mag)
  obtain mont c where m: "BN_MONT_CTX_new_for_modulus zero_malloc md None = (Some mont, c)" "mont_modulus mont = bn_mag md"
    by (rule new_for_modulus_run [OF malloc_total_zero_malloc p]) blast
  let ?sh = "\<lparr>ls_pmont = Some mont, ls_lock = \<lparr>mu_readers = 0, mu_writer = False\<rparr>\<rparr>" and ?ts = "[(Returned True, c), (Returned True, None)]"
  have "run_schedule (\<lambda>_. zero_malloc) md ?is (set_locked_start [None, None]) = Some (?sh, ?ts)"
    by (simp add: set_locked_start_def mutex_defs m(1))
  then have run: "(BN_MONT_CTX_set_locked (\<lambda>_. zero_malloc) md ^^ length ?is) (set_locked_start [None, None]) (?sh, ?ts)"
    by (rule run_schedule_steps)
  note t = set_locked_publishes_once [OF run]
  have "(0 :: nat) < length ?ts" "fst (?ts ! 0) = Returned True" by simp_all
  then obtain m' j where j: "Some mont = Some m'" "fst (BN_MONT_CTX_new_for_modulus zero_malloc md ([None, None] ! j)) = Some m'" "j < length [None, None :: bn_ctx option]"
    using t by (metis locked_shared.select_convs(1))
  then have "fst (BN_MONT_CTX_new_for_modulus zero_malloc md None) = Some mont" by (cases j) auto
  moreover have "mont_modulus mont = 7" using m(2) by (simp add: md_def small_mag)
  moreover have l: "length ?is = 18" by simp
  ultimately show ?thesis unfolding md_def [symmetric]
    by (intro exI [of _ ?sh] exI [of _ ?ts] exI [of _ mont] conjI run [unfolded l]) simp_all
qed

end
