(* ===== verification/Bn_Asn1.thy ===== *)
theory Bn_Asn1 imports Builder Bn_Bytes begin

text \<open>
  Big numbers as ASN.1 integers (\<open>crypto/bn_extra/bn_asn1.c\<close> and \<open>BN_bn2cbb_padded\<close> of
  \<open>crypto/bn_extra/convert.c\<close>): the writer appends to a CBB, the reader takes an element off a CBS. The theorems say
  that the writer adds the element of the number's shortest two's-complement bytes and that the reader accepts nothing
  else.
\<close>

section \<open>Operations\<close>

definition BN_bn2cbb_padded :: "malloc_fn \<Rightarrow> nat \<Rightarrow> bignum \<Rightarrow> nat \<Rightarrow> (cbb, unit) op" where
  "BN_bn2cbb_padded ma len inp d =
     op_bind (CBB_add_space ma len d) (\<lambda>ptr.
       case BN_bn2bin_padded len inp of
         None \<Rightarrow> op_fail
       | Some bytes \<Rightarrow> on_base (\<lambda>b. (Some (), buf_write ptr bytes b)))"

definition BN_marshal_asn1 :: "malloc_fn \<Rightarrow> bignum \<Rightarrow> nat \<Rightarrow> (cbb, unit) op" where
  "BN_marshal_asn1 ma bn d =
     (if BN_is_negative bn then op_fail
      else
        op_bind (CBB_add_asn1 ma CBS_ASN1_INTEGER d) (\<lambda>_.
        op_bind (if BN_num_bits bn mod 8 = 0 then CBB_add_u8 ma 0 (Suc d) else op_return ()) (\<lambda>_.
        op_bind (BN_bn2cbb_padded ma (BN_num_bytes bn) bn (Suc d)) (\<lambda>_.
        CBB_flush ma d))))"

text \<open>The reader changes the CBS and the number.\<close>

definition BN_parse_asn1_unsigned :: "malloc_fn \<Rightarrow> (cbs \<times> bignum, unit) op" where
  "BN_parse_asn1_unsigned ma = (\<lambda>(cbs, ret).
     case CBS_get_asn1 CBS_ASN1_INTEGER cbs of
       (None, cbs) \<Rightarrow> (None, cbs, ret)
     | (Some child, cbs) \<Rightarrow>
         if CBS_len child = 0 then (None, cbs, ret)
         else if (child ! 0) AND 0x80 \<noteq> 0 then (None, cbs, ret)
         else if child ! 0 = 0 \<and> 1 < CBS_len child \<and> (child ! 1) AND 0x80 = 0 then (None, cbs, ret)
         else (case bin2bn_into ma child ret of (r, ret) \<Rightarrow> (r, cbs, ret)))"

section \<open>The contents of the element\<close>

definition unsigned_contents :: "bignum \<Rightarrow> u8 list" where
  "unsigned_contents bn = (if BN_num_bits bn mod 8 = 0 then [0] else []) @ be_bytes (BN_num_bytes bn) (bn_mag bn)"

lemma be_bytes_Cons: "be_bytes (Suc k) n = byte (n div 256 ^ k) # be_bytes k n"
  by (induction k arbitrary: n) (simp_all add: div_mult2_eq)

text \<open>The bits of the leading byte of a number that fills \<open>k\<close> bytes and \<open>r\<close> bits of another one.\<close>

lemma leading_byte:
  assumes "n < 2 ^ (8 * k + r)" "2 ^ (8 * k + (r - 1)) \<le> n" "0 < r" "r \<le> 8"
  shows "unat (byte (n div 256 ^ k)) < 2 ^ r" "2 ^ (r - 1) \<le> unat (byte (n div 256 ^ k))"
proof -
  have p: "(0 :: nat) < 256 ^ k" by simp
  have hi: "n div 256 ^ k < 2 ^ r"
    using assms(1) p by (simp add: power_add power_256 less_mult_imp_div_less mult.commute)
  have lo: "2 ^ (r - 1) \<le> n div 256 ^ k"
    using assms(2) p unfolding power_add power_256 [symmetric] by (simp add: less_eq_div_iff_mult_less_eq mult.commute)
  have "(2 :: nat) ^ r \<le> 2 ^ 8" by (rule power_increasing [OF assms(4)]) simp
  then have "unat (byte (n div 256 ^ k)) = n div 256 ^ k" using hi by simp
  then show "unat (byte (n div 256 ^ k)) < 2 ^ r" "2 ^ (r - 1) \<le> unat (byte (n div 256 ^ k))"
    using hi lo by simp_all
qed

lemma unsigned_contents_int_bytes:
  assumes "bn_ok bn"
  shows "unsigned_contents bn = int_bytes (int (bn_mag bn))"
proof (cases "bn_mag bn = 0")
  case True
  then have "BN_num_bits bn = 0" using zero_num_bits [OF assms] by (simp add: BN_num_bits_def)
  then show ?thesis using True by (simp add: unsigned_contents_def BN_num_bytes_def int_bytes_short byte_def)
next
  case False
  let ?n = "bn_mag bn" and ?b = "BN_num_bits bn"
  note v = num_bits_value [OF assms]
  have "?b \<noteq> 0" using v False by (cases "?b") auto
  define k where "k = (?b - 1) div 8"
  define r where "r = Suc ((?b - 1) mod 8)"
  have b: "?b = 8 * k + r" using \<open>?b \<noteq> 0\<close> by (simp add: k_def r_def)
  have r: "0 < r" "r \<le> 8" by (simp_all add: r_def)
  have num: "BN_num_bytes bn = Suc k" using r by (simp add: BN_num_bytes_def b)
  have mod8: "?b mod 8 = 0 \<longleftrightarrow> r = 8" using r b by presburger
  have "?b - 1 = 8 * k + (r - 1)" using b r by simp
  note h = leading_byte [of ?n k r, folded b, OF conjunct1 [OF v] _ r, folded \<open>?b - 1 = 8 * k + (r - 1)\<close>]
  have h: "unat (byte (?n div 256 ^ k)) < 2 ^ r" "2 ^ (r - 1) \<le> unat (byte (?n div 256 ^ k))" using h v False by blast+
  have "unat (byte (?n div 256 ^ k)) \<noteq> 0" using h(2) zero_less_power [of "2 :: nat" "r - 1"] by linarith
  then have nz: "byte (?n div 256 ^ k) \<noteq> 0" by (metis unsigned_0)
  have "128 \<le> unat (byte (?n div 256 ^ k)) \<longleftrightarrow> r = 8"
  proof
    assume "128 \<le> unat (byte (?n div 256 ^ k))"
    then have "(2 :: nat) ^ 7 < 2 ^ r" using h(1) by simp
    then have "7 < r" by (rule power_less_imp_less_exp [rotated]) simp
    then show "r = 8" using r by simp
  qed (use h(2) in simp)
  then have "unsigned_contents bn = uint_contents (be_bytes (Suc k) ?n)"
    using nz by (simp add: unsigned_contents_def uint_contents_def num mod8 be_bytes_Cons del: be_bytes.simps)
  also have "\<dots> = int_bytes (int ?n)"
    using num_bytes_bounds(1) [OF assms] by (simp add: uint_contents_int_bytes be_val_be_bytes num)
  finally show ?thesis .
qed

lemma length_unsigned_contents:
  assumes "bn_ok bn"
  shows "length (unsigned_contents bn) \<le> Suc (8 * bn_width bn)"
  using num_bytes_bounds(2) [OF assms] by (simp add: unsigned_contents_def)

section \<open>Writing\<close>

text \<open>A number that fits is written as any other bytes are.\<close>

lemma bn2cbb_padded_fits:
  assumes "bn_ok bn" "bn_mag bn < 256 ^ len"
  shows "BN_bn2cbb_padded ma len bn d = CBB_add_bytes ma (be_bytes len (bn_mag bn)) d"
  using bin_padded_value [OF assms(1), of len] assms(2)
  by (simp add: BN_bn2cbb_padded_def CBB_add_bytes_def CBB_add_space_def op_bind_assoc)

text \<open>The part of the writer between opening and closing the element.\<close>

definition marshal_body :: "malloc_fn \<Rightarrow> bignum \<Rightarrow> nat \<Rightarrow> (cbb, unit) op" where
  "marshal_body ma bn d =
     op_bind (if BN_num_bits bn mod 8 = 0 then CBB_add_u8 ma 0 d else op_return ()) (\<lambda>_.
       BN_bn2cbb_padded ma (BN_num_bytes bn) bn d)"

lemma marshal_nonneg:
  "\<not> bn_neg bn \<Longrightarrow> BN_marshal_asn1 ma bn d =
     op_bind (CBB_add_asn1 ma CBS_ASN1_INTEGER d) (\<lambda>_. op_bind (marshal_body ma bn (Suc d)) (\<lambda>_. CBB_flush ma d))"
  by (simp add: BN_marshal_asn1_def BN_is_negative_def marshal_body_def op_bind_assoc)

lemma marshal_body_run:
  assumes ma: "malloc_total ma" and bn: "bn_ok bn" "bn_width bn \<le> bn_max_words"
  shows "refines (marshal_body ma bn d) (b_add d (unsigned_contents bn))
    \<and> completes (marshal_body ma bn d) (b_add d (unsigned_contents bn))"
proof -
  have ma': "malloc_spec ma" using ma by (simp add: malloc_total_def)
  let ?xs = "be_bytes (BN_num_bytes bn) (bn_mag bn)"
  have len: "length ?xs < 2 ^ 63" using num_bytes_bounds(2) [OF bn(1)] bn(2) by (simp add: bn_max_words_def)
  note body = marshal_body_def bn2cbb_padded_fits [OF bn(1) num_bytes_bounds(1) [OF bn(1)]]
  note r = CBB_add_bytes_refines [OF ma' len] and c = CBB_add_bytes_completes [OF ma, of ?xs]
  show ?thesis
  proof (cases "BN_num_bits bn mod 8 = 0")
    case True
    have "refines (marshal_body ma bn d) (b_add d ([0] @ ?xs))"
      unfolding body if_P [OF True] by (intro refines_add_bind CBB_add_u8_refines [OF ma'] r)
    moreover have "completes (marshal_body ma bn d) (\<lambda>B. Option.bind (b_add d [0] B) (b_add d ?xs))"
      unfolding body if_P [OF True]
      by (intro completes_bind CBB_add_u8_completes [OF ma] CBB_add_u8_refines [OF ma'] c b_add_grows)
    ultimately show ?thesis using True by (simp add: unsigned_contents_def bind_b_add)
  next
    case False
    then show ?thesis using r c by (simp add: body unsigned_contents_def)
  qed
qed

lemma marshal_run:
  assumes ma: "malloc_total ma" and bn: "bn_ok bn" "bn_width bn \<le> bn_max_words" "\<not> bn_neg bn"
  defines "e \<equiv> der_element CBS_ASN1_INTEGER (int_bytes (bn_value bn))"
  shows "refines (BN_marshal_asn1 ma bn d) (b_add d e) \<and> completes (BN_marshal_asn1 ma bn d) (b_add d e)"
proof -
  have ma': "malloc_spec ma" using ma by (simp add: malloc_total_def)
  have e: "e = der_element CBS_ASN1_INTEGER (unsigned_contents bn)"
    using bn(3) by (simp add: e_def bn_value_def unsigned_contents_int_bytes [OF bn(1)])
  have "length (unsigned_contents bn) \<le> 0xfffffffe"
    using length_unsigned_contents [OF bn(1)] bn(2) by (simp add: bn_max_words_def)
  note body = marshal_body_run [OF ma bn(1,2), of "Suc d"]
  show ?thesis
    unfolding marshal_nonneg [OF bn(3)] e
    using element_refines [OF ma' conjunct1 [OF body]]
      element_completes [OF ma conjunct2 [OF body] conjunct1 [OF body]] \<open>length _ \<le> 0xfffffffe\<close> by blast
qed

section \<open>Reading\<close>

lemma parse_checks:
  "BN_parse_asn1_unsigned ma (s, ret) = (Some (), s', ret') \<longleftrightarrow>
     (\<exists>c. length c < der_max \<and> s = der_element CBS_ASN1_INTEGER c @ s' \<and> minimal c \<and> unat (hd c) < 128
        \<and> bin2bn_into ma c ret = (Some (), ret'))"
proof -
  have checks: "(if CBS_len c = 0 then (None, s1, ret)
       else if (c ! 0) AND 0x80 \<noteq> 0 then (None, s1, ret)
       else if c ! 0 = 0 \<and> 1 < CBS_len c \<and> (c ! 1) AND 0x80 = 0 then (None, s1, ret)
       else (case bin2bn_into ma c ret of (r, ret) \<Rightarrow> (r, s1, ret))) = (Some (), s', ret')
     \<longleftrightarrow> s1 = s' \<and> (minimal c \<and> unat (hd c) < 128) \<and> bin2bn_into ma c ret = (Some (), ret')" for c s1
    unfolding uint64_checks [symmetric] CBS_len_def by (auto split: prod.splits)
  have "BN_parse_asn1_unsigned ma (s, ret) = (Some (), s', ret') \<longleftrightarrow>
     (\<exists>c s1. CBS_get_asn1 CBS_ASN1_INTEGER s = (Some c, s1) \<and>
        s1 = s' \<and> (minimal c \<and> unat (hd c) < 128) \<and> bin2bn_into ma c ret = (Some (), ret'))"
    unfolding BN_parse_asn1_unsigned_def prod.case
    by (cases "CBS_get_asn1 CBS_ASN1_INTEGER s" rule: prod.exhaust, rename_tac r s1, case_tac r)
      (simp_all only: prod.case option.case checks, auto)
  then show ?thesis unfolding CBS_get_asn1_iff by blast
qed

text \<open>What is read and what is accepted: the shortest encodings of the natural numbers, and nothing else.\<close>

lemma parse_value:
  assumes "bn_ok ret" "BN_parse_asn1_unsigned ma (s, ret) = (Some (), s', ret')"
  shows "bn_ok ret' \<and> \<not> bn_neg ret' \<and> s = der_element CBS_ASN1_INTEGER (int_bytes (bn_value ret')) @ s'"
proof -
  obtain c where c: "s = der_element CBS_ASN1_INTEGER c @ s'" "minimal c" "unat (hd c) < 128"
    "bin2bn_into ma c ret = (Some (), ret')" using assms(2) parse_checks by blast
  have "c \<noteq> []" using c(2) by (simp add: minimal_def)
  then have r: "bn_ok ret'" "bn_mag ret' = be_val c" "\<not> bn_neg ret'" using bin2bn_value [OF assms(1) c(4)] by auto
  have "be_sval c = bn_value ret'" using c(3) r by (simp add: be_sval_def bn_value_def)
  then have "c = int_bytes (bn_value ret')" using c(2) unfolding minimal_iff by simp
  then show ?thesis using c(1) r by simp
qed

lemma parse_runs:
  assumes ma: "malloc_total ma" and ret: "bn_ok ret" "bn_room ret n"
    and v: "0 \<le> v" "length (int_bytes v) \<le> 8 * n" "n \<le> bn_max_words"
  obtains ret' where "BN_parse_asn1_unsigned ma (der_element CBS_ASN1_INTEGER (int_bytes v) @ s', ret) = (Some (), s', ret')"
    "bn_ok ret'" "bn_value ret' = v"
proof -
  let ?c = "int_bytes v"
  obtain ret' where b: "bin2bn_into ma ?c ret = (Some (), ret')" using into_runs(1) [OF ma ret(2) v(2)] by blast
  have "minimal ?c" unfolding minimal_iff by simp
  moreover have hd: "unat (hd ?c) < 128" using be_sval_nonneg [of ?c] v(1) by simp
  moreover have "length ?c < der_max" using v(2,3) by (simp add: bn_max_words_def)
  ultimately have p: "BN_parse_asn1_unsigned ma (der_element CBS_ASN1_INTEGER ?c @ s', ret) = (Some (), s', ret')"
    unfolding parse_checks using b by blast
  have "int (be_val ?c) = v" using hd be_sval_int_bytes [of v] by (simp add: be_sval_def)
  then have "bn_value ret' = v" using bin2bn_value [OF ret(1) b] by (simp add: bn_value_def)
  then show thesis using that p parse_value [OF ret(1) p] by blast
qed

section \<open>Properties\<close>

text \<open>
  The reader accepts exactly the shortest two's-complement encodings of the natural numbers, as large as memory
  allows, and gives the number: no sign bit, no redundant zero byte, no empty contents.
\<close>

theorem bn_parse_asn1_exact:
  assumes "malloc_total ma" "bn_ok ret" "bn_room ret n" "n \<le> bn_max_words"
  shows "(BN_parse_asn1_unsigned ma (s, ret) = (Some (), s', ret') \<longrightarrow>
       bn_ok ret' \<and> 0 \<le> bn_value ret' \<and> s = der_element CBS_ASN1_INTEGER (int_bytes (bn_value ret')) @ s')
    \<and> (0 \<le> v \<and> length (int_bytes v) \<le> 8 * n \<and> s = der_element CBS_ASN1_INTEGER (int_bytes v) @ s' \<longrightarrow>
       (\<exists>r. BN_parse_asn1_unsigned ma (s, ret) = (Some (), s', r) \<and> bn_ok r \<and> bn_value r = v))"
proof -
  have "0 \<le> bn_value ret'" if "\<not> bn_neg ret'" using that by (simp add: bn_value_def)
  then show ?thesis
    using parse_value [OF assms(2), of ma s s' ret'] parse_runs [OF assms(1-3), of v s'] assms(4) by blast
qed

theorem bn_parse_asn1_exact_witness:
  "\<exists>r. BN_parse_asn1_unsigned zero_malloc (der_element CBS_ASN1_INTEGER (int_bytes 128) @ [7], BN_init) = (Some (), [7], r)
     \<and> bn_value r = 128"
proof -
  have "int_bytes 128 = [0, 0x80]" by (simp add: int_bytes.simps byte_def)
  then have l: "length (int_bytes 128) \<le> 8 * 1" by simp
  have r: "bn_ok BN_init" "bn_room BN_init 1" "1 \<le> bn_max_words"
    by (simp_all add: bn_ok_def bn_room_def BN_init_def bn_max_words_def)
  note bn_parse_asn1_exact [OF malloc_total_zero_malloc r, of "der_element CBS_ASN1_INTEGER (int_bytes 128) @ [7]" "[7]" BN_init 128]
  from conjunct2 [OF this] l show ?thesis by auto
qed

text \<open>
  Writing a number into a CBB adds the ASN.1 INTEGER of its value to what the CBB stands for, and succeeds whenever
  memory lasts; negative numbers (a negative zero among them) are refused and change nothing.
\<close>

theorem bn_marshal_asn1_implements:
  assumes "malloc_total ma" "bn_ok bn" "bn_width bn \<le> bn_max_words"
  shows "(\<not> bn_neg bn \<longrightarrow>
       refines (BN_marshal_asn1 ma bn d) (b_add d (der_element CBS_ASN1_INTEGER (int_bytes (bn_value bn))))
       \<and> completes (BN_marshal_asn1 ma bn d) (b_add d (der_element CBS_ASN1_INTEGER (int_bytes (bn_value bn)))))
    \<and> (bn_neg bn \<longrightarrow> BN_marshal_asn1 ma bn d c = (None, c))"
  using marshal_run [OF assms, of d] by (simp add: BN_marshal_asn1_def BN_is_negative_def op_fail_def)

theorem bn_marshal_asn1_implements_witness:
  "BN_marshal_asn1 zero_malloc \<lparr>bn_d = [0], bn_width = 1, bn_neg = True, bn_static = False\<rparr> 0 CBB_zero = (None, CBB_zero)"
  using bn_marshal_asn1_implements [OF malloc_total_zero_malloc,
      of "\<lparr>bn_d = [0], bn_width = 1, bn_neg = True, bn_static = False\<rparr>" 0 CBB_zero]
  by (simp add: bn_ok_def bn_max_words_def)

end
