(* ===== verification/Oid.thy ===== *)
theory Oid imports Builder begin

text \<open>
  Object identifiers as text: \<open>CBB_add_asn1_oid_from_text\<close> (\<open>bytestring/cbb.c\<close>) and \<open>CBS_asn1_oid_to_text\<close>
  (\<open>bytestring/cbs.c\<close>). An object identifier is the list of its components: its text is their decimals with dots between
  them, and its contents are base-128 integers, the first two components in one.
\<close>

section \<open>Decimals\<close>

text \<open>What \<open>BIO_snprintf\<close> writes for the format of an unsigned 64-bit number.\<close>

fun decimal :: "nat \<Rightarrow> u8 list" where
  "decimal n = (if n < 10 then [byte (48 + n)] else decimal (n div 10) @ [byte (48 + n mod 10)])"

declare decimal.simps [simp del]

section \<open>The code\<close>

text \<open>\<open>parse_dotted_decimal\<close>: the loop with its locals \<open>*out\<close> and \<open>seen_digit\<close>.\<close>

fun dotted_loop :: "cbs \<Rightarrow> u64 \<Rightarrow> bool \<Rightarrow> u64 option \<times> cbs" where
  "dotted_loop [] out seen_digit = (if seen_digit then Some out else None, [])"
| "dotted_loop (u # cbs) out seen_digit =
     (if u = 46 \<and> 0 < CBS_len cbs then (if seen_digit then Some out else None, cbs)
      else if u < 48 \<or> 57 < u \<or> (seen_digit \<and> out = 0) \<or> (- 1) div 10 < out \<or> - 1 - ucast (u - 48) < out * 10 then (None, cbs)
      else dotted_loop cbs (out * 10 + ucast (u - 48)) True)"

definition parse_dotted_decimal :: "(cbs, u64) op" where
  "parse_dotted_decimal cbs = dotted_loop cbs 0 False"

lemma dotted_loop_shorter: "dotted_loop s out seen = (r, s') \<Longrightarrow> s = [] \<or> length s' < length s"
proof (induction s out seen rule: dotted_loop.induct)
  case (2 u cbs out seen)
  then show ?case by (fastforce split: if_splits)
qed simp

lemma parse_dotted_shorter: "parse_dotted_decimal s = (Some v, s') \<Longrightarrow> length s' < length s"
  using dotted_loop_shorter [of s 0 False "Some v" s'] by (cases s) (auto simp: parse_dotted_decimal_def)

text \<open>The loop of \<open>CBB_add_asn1_oid_from_text\<close> over the components after the second.\<close>

function oid_rest_from_text :: "malloc_fn \<Rightarrow> cbs \<Rightarrow> nat \<Rightarrow> (cbb, unit) op" where
  "oid_rest_from_text ma cbs d =
     (if CBS_len cbs = 0 then op_return ()
      else case parse_dotted_decimal cbs of
             (None, _) \<Rightarrow> op_fail
           | (Some a, cbs) \<Rightarrow> op_bind (add_base128_integer ma a d) (\<lambda>_. oid_rest_from_text ma cbs d))"
  by pat_completeness auto
termination
  by (relation "measure (\<lambda>(ma, cbs, d). length cbs)") (auto dest: parse_dotted_shorter [OF sym])

declare oid_rest_from_text.simps [simp del]

definition CBB_add_asn1_oid_from_text :: "malloc_fn \<Rightarrow> u8 list \<Rightarrow> nat \<Rightarrow> (cbb, unit) op" where
  "CBB_add_asn1_oid_from_text ma text d =
     op_bind (CBB_flush ma d) (\<lambda>_.
       case op_bind parse_dotted_decimal (\<lambda>a. op_bind parse_dotted_decimal (\<lambda>b. op_return (a, b))) (CBS_init text (length text)) of
         (None, _) \<Rightarrow> op_fail
       | (Some (a, b), cbs) \<Rightarrow>
           if 2 < a \<or> (a < 2 \<and> 39 < b) \<or> - 1 - 80 < b then op_fail
           else op_bind (add_base128_integer ma (40 * a + b) d) (\<lambda>_. oid_rest_from_text ma cbs d))"

definition add_decimal :: "malloc_fn \<Rightarrow> u64 \<Rightarrow> nat \<Rightarrow> (cbb, unit) op" where
  "add_decimal ma v = CBB_add_bytes ma (decimal (unat v))"

lemma parse_base128_shorter: "parse_base128_integer s = (Some v, s') \<Longrightarrow> length s' < length s"
  using parse_base128_sound [of s v s'] by (cases "base128 (unat v)") (auto simp del: base128_not_Nil dest: base128_not_Nil [THEN notE])

text \<open>The first component, and the loop over those after it, of \<open>CBS_asn1_oid_to_text\<close>.\<close>

definition oid_first_to_text :: "malloc_fn \<Rightarrow> u64 \<Rightarrow> nat \<Rightarrow> (cbb, unit) op" where
  "oid_first_to_text ma v d =
     (if 80 \<le> v then op_bind (CBB_add_bytes ma [50, 46] d) (\<lambda>_. add_decimal ma (v - 80) d)
      else op_bind (add_decimal ma (v div 40) d) (\<lambda>_. op_bind (CBB_add_u8 ma 46 d) (\<lambda>_. add_decimal ma (v mod 40) d)))"

function oid_rest_to_text :: "malloc_fn \<Rightarrow> cbs \<Rightarrow> nat \<Rightarrow> (cbb, unit) op" where
  "oid_rest_to_text ma copy d =
     (if CBS_len copy = 0 then op_return ()
      else case parse_base128_integer copy of
             (None, _) \<Rightarrow> op_fail
           | (Some v, copy) \<Rightarrow>
               op_bind (CBB_add_u8 ma 46 d) (\<lambda>_. op_bind (add_decimal ma v d) (\<lambda>_. oid_rest_to_text ma copy d)))"
  by pat_completeness auto
termination
  by (relation "measure (\<lambda>(ma, cbs, d). length cbs)") (auto dest: parse_base128_shorter [OF sym])

declare oid_rest_to_text.simps [simp del]

text \<open>The memory that is returned holds the text and a NUL.\<close>

definition CBS_asn1_oid_to_text :: "malloc_fn \<Rightarrow> cbs \<Rightarrow> u8 list option" where
  "CBS_asn1_oid_to_text ma cbs =
     (case CBB_init ma 32 of
        None \<Rightarrow> None
      | Some cbb \<Rightarrow>
          (case parse_base128_integer cbs of
             (None, _) \<Rightarrow> None
           | (Some v, copy) \<Rightarrow>
               (case op_bind (oid_first_to_text ma v 0) (\<lambda>_.
                     op_bind (oid_rest_to_text ma copy 0) (\<lambda>_.
                     op_bind (CBB_add_u8 ma 0 0) (\<lambda>_. CBB_finish ma True True 0))) cbb of
                  (Some (Some txt, _), _) \<Rightarrow> Some txt
                | _ \<Rightarrow> None)))"

section \<open>Decimals and their values\<close>

definition digit :: "u8 \<Rightarrow> bool" where
  "digit u \<longleftrightarrow> 48 \<le> u \<and> u \<le> 57"

definition dec_val :: "nat \<Rightarrow> u8 list \<Rightarrow> nat" where
  "dec_val = foldl (\<lambda>a u. 10 * a + (unat u - 48))"

lemma dec_val_simps [simp]: "dec_val a [] = a" "dec_val a (u # us) = dec_val (10 * a + (unat u - 48)) us"
  "dec_val a (us @ vs) = dec_val (dec_val a us) vs"
  by (simp_all add: dec_val_def)

lemma dec_val_mono: "a \<le> dec_val a us"
proof (induction us arbitrary: a)
  case (Cons u us)
  show ?case using Cons [of "10 * a + (unat u - 48)"] by simp
qed simp

lemma unat_digit: "n < 10 \<Longrightarrow> unat (byte (48 + n)) = 48 + n"
  by simp

lemma digit_unat: "digit u \<longleftrightarrow> 48 \<le> unat u \<and> unat u \<le> 57"
  by (simp add: digit_def word_le_nat_alt)

lemma digit_low: "digit u \<Longrightarrow> unat u - 48 < 10 \<and> 48 + (unat u - 48) = unat u"
  unfolding digit_unat by arith

text \<open>A decimal: digits without a leading zero.\<close>

definition canonical :: "u8 list \<Rightarrow> bool" where
  "canonical us \<longleftrightarrow> us \<noteq> [] \<and> (\<forall>u \<in> set us. digit u) \<and> (hd us = 48 \<longrightarrow> tl us = [])"

lemma decimal_canonical: "canonical (decimal n) \<and> dec_val 0 (decimal n) = n \<and> (0 < n \<longrightarrow> hd (decimal n) \<noteq> 48)"
proof (induction n rule: decimal.induct)
  case (1 n)
  show ?case
  proof (cases "n < 10")
    case True
    then show ?thesis by (simp add: decimal.simps [of n] canonical_def digit_unat unat_digit word_unat_eq_iff)
  next
    case False
    then have IH: "canonical (decimal (n div 10))" "dec_val 0 (decimal (n div 10)) = n div 10" "hd (decimal (n div 10)) \<noteq> 48"
      using 1 by auto
    have d: "unat (byte (48 + n mod 10)) = 48 + n mod 10" by (rule unat_digit) simp
    have e: "decimal n = decimal (n div 10) @ [byte (48 + n mod 10)]" using False by (simp add: decimal.simps [of n])
    show ?thesis unfolding e using IH d by (auto simp: canonical_def digit_unat)
  qed
qed

lemma canonical_pos: "canonical us \<Longrightarrow> tl us \<noteq> [] \<Longrightarrow> 0 < dec_val 0 us"
proof -
  assume a: "canonical us" "tl us \<noteq> []"
  then obtain u vs where us: "us = u # vs" "u \<noteq> 48" "digit u" by (cases us) (auto simp: canonical_def)
  then have "0 < unat u - 48" by (auto simp: digit_unat word_unat_eq_iff)
  then show ?thesis using dec_val_mono [of "unat u - 48" vs] us(1) by simp
qed

lemma canonical_decimal: "canonical us \<Longrightarrow> us = decimal (dec_val 0 us)"
proof (induction us rule: rev_induct)
  case (snoc u us)
  have u: "digit u" using snoc(2) by (simp add: canonical_def)
  have b: "byte (unat u) = u" by (simp add: eq_byte_iff)
  show ?case
  proof (cases "us = []")
    case True
    show ?thesis using True b digit_low [OF u] by (simp add: decimal.simps)
  next
    case False
    then have c: "canonical us" using snoc(2) by (cases us) (auto simp: canonical_def)
    have pos: "0 < dec_val 0 us"
    proof (cases "tl us = []")
      case True
      then obtain v where "us = [v]" using False by (cases us) auto
      then show ?thesis using snoc(2) by (auto simp: canonical_def digit_unat word_unat_eq_iff)
    qed (rule canonical_pos [OF c])
    let ?m = "10 * dec_val 0 us + (unat u - 48)"
    have d: "unat u - 48 < 10" using digit_low [OF u] by simp
    have "?m div 10 = dec_val 0 us" "?m mod 10 = unat u - 48" "\<not> ?m < 10" using d pos by auto
    then have "decimal ?m = decimal (dec_val 0 us) @ [byte (48 + (unat u - 48))]" by (simp add: decimal.simps [of ?m])
    then show ?thesis using snoc(1) [OF c] u b by (simp add: digit_unat)
  qed
qed (simp add: canonical_def)

section \<open>Parsing one component\<close>

lemma overflow_check:
  assumes "digit u"
  shows "(- 1) div 10 < out \<or> - 1 - ucast (u - 48) < out * 10 \<longleftrightarrow> 2 ^ 64 \<le> 10 * unat (out :: u64) + (unat u - 48)"
proof -
  have u: "unat (u - 48) = unat u - 48" using assms by (simp add: digit_unat unat_sub word_le_nat_alt)
  let ?d = "unat u - 48"
  have d: "?d < 10" using digit_low [OF assms] by simp
  have c: "unat (ucast (u - 48) :: u64) = ?d" by (simp add: unat_ucast_up u)
  have q: "unat ((- 1) div 10 :: u64) = 1844674407370955161" by (simp add: unat_div_distrib unsigned_minus_1_eq_mask mask_eq_exp_minus_1)
  have m: "unat (- 1 - ucast (u - 48) :: u64) = 18446744073709551615 - ?d"
    using d c by (subst unat_sub) (simp_all add: unsigned_minus_1_eq_mask mask_eq_exp_minus_1 word_le_nat_alt)
  show ?thesis
  proof (cases "1844674407370955161 < unat out")
    case True
    then show ?thesis using q by (simp add: word_less_nat_alt)
  next
    case False
    then have "unat (out * 10) = unat out * 10" by (simp add: unat_word_ariths)
    then show ?thesis using False q m d by (simp add: word_less_nat_alt) linarith
  qed
qed

lemma next_value:
  assumes "digit u" "10 * unat out + (unat u - 48) < 2 ^ 64"
  shows "out * 10 + ucast (u - 48) = (of_nat (10 * unat out + (unat u - 48)) :: u64)"
proof -
  have "unat (u - 48) = unat u - 48" using assms(1) by (simp add: digit_unat unat_sub word_le_nat_alt)
  then have "(ucast (u - 48) :: u64) = of_nat (unat u - 48)" by (metis of_nat_unat)
  then show ?thesis by (simp add: mult.commute)
qed

text \<open>The text after a component: nothing, or a dot with something behind it, which the loop consumes.\<close>

definition ends :: "u8 list \<Rightarrow> bool" where
  "ends t \<longleftrightarrow> t = [] \<or> hd t = 46 \<and> tl t \<noteq> []"

lemma digit_not_dot: "digit u \<Longrightarrow> u \<noteq> 46"
  by (auto simp: digit_unat)

lemma dotted_loop_run:
  "(\<forall>u \<in> set us. digit u) \<Longrightarrow> ends t \<Longrightarrow> dec_val (unat out) us < 2 ^ 64 \<Longrightarrow> (seen \<or> us \<noteq> []) \<Longrightarrow>
   (seen \<and> out = 0 \<longrightarrow> us = []) \<Longrightarrow> (\<not> seen \<longrightarrow> out = 0 \<and> (hd us = 48 \<longrightarrow> tl us = [])) \<Longrightarrow>
     dotted_loop (us @ t) out seen = (Some (of_nat (dec_val (unat out) us)), tl t)"
proof (induction us arbitrary: out seen)
  case Nil
  then show ?case by (cases t) (auto simp: ends_def CBS_len_def)
next
  case (Cons u us)
  let ?m = "10 * unat out + (unat u - 48)"
  have u: "digit u" using Cons.prems(1) by simp
  have m: "?m < 2 ^ 64" using dec_val_mono [of ?m us] Cons.prems(3) by (simp add: le_less_trans)
  have guard: "\<not> (u < 48 \<or> 57 < u \<or> (seen \<and> out = 0) \<or> (- 1) div 10 < out \<or> - 1 - ucast (u - 48) < out * 10)"
    using u Cons.prems(5) overflow_check [OF u, of out] m by (auto simp: digit_def not_less)
  have un: "unat (of_nat ?m :: u64) = ?m" using m by (intro of_nat_inverse [OF refl]) simp
  have "dotted_loop (us @ t) (of_nat ?m) True = (Some (of_nat (dec_val (unat (of_nat ?m :: u64)) us)), tl t)"
  proof (rule Cons.IH)
    show "True \<and> (of_nat ?m :: u64) = 0 \<longrightarrow> us = []"
    proof
      assume "True \<and> (of_nat ?m :: u64) = 0"
      then have "?m = 0" using un by (simp only: unat_0)
      then have z: "unat out = 0" "unat u - 48 = 0" by simp_all
      then have "out = 0" "u = 48" using u by (auto simp: digit_unat word_unat_eq_iff)
      then show "us = []" using Cons.prems(5,6) by auto
    qed
  qed (use Cons.prems un in simp_all)
  then show ?case using guard digit_not_dot [OF u] next_value [OF u m] un by (simp del: of_nat_add of_nat_mult)
qed

lemma parse_dotted_run:
  assumes "n < 2 ^ 64" "ends t"
  shows "parse_dotted_decimal (decimal n @ t) = (Some (of_nat n), tl t)"
proof -
  note c = decimal_canonical [of n]
  have "dotted_loop (decimal n @ t) 0 False = (Some (of_nat (dec_val (unat (0 :: u64)) (decimal n))), tl t)"
    by (rule dotted_loop_run) (use c assms in \<open>simp_all add: canonical_def\<close>)
  then show ?thesis using c by (simp add: parse_dotted_decimal_def)
qed

lemma dotted_loop_sound:
  "dotted_loop s out seen = (Some v, s') \<Longrightarrow> (\<not> seen \<Longrightarrow> out = 0) \<Longrightarrow>
   \<exists>us t. s = us @ t \<and> ends t \<and> s' = tl t \<and> (\<forall>u \<in> set us. digit u) \<and> unat v = dec_val (unat out) us
     \<and> (seen \<or> us \<noteq> []) \<and> (seen \<and> out = 0 \<longrightarrow> us = []) \<and> (\<not> seen \<longrightarrow> hd us = 48 \<longrightarrow> tl us = [])"
proof (induction s out seen rule: dotted_loop.induct)
  case (1 out seen)
  then have "seen" "v = out" "s' = []" by (simp_all split: if_splits)
  then show ?case by (auto simp: ends_def intro!: exI [of _ "[]"])
next
  case (2 u cbs out seen)
  show ?case
  proof (cases "u = 46 \<and> 0 < length cbs")
    case True
    then have "seen" "v = out" "s' = cbs" using "2.prems"(1) by (simp_all split: if_splits)
    then show ?thesis using True by (intro exI [of _ "[]"] exI [of _ "u # cbs"]) (auto simp: ends_def)
  next
    case False
    let ?m = "10 * unat out + (unat u - 48)"
    have guard: "\<not> (u < 48 \<or> 57 < u \<or> (seen \<and> out = 0) \<or> (- 1) div 10 < out \<or> - 1 - ucast (u - 48) < out * 10)"
      and run: "dotted_loop cbs (out * 10 + ucast (u - 48)) True = (Some v, s')"
      using "2.prems"(1) False by (auto simp: CBS_len_def split: if_splits)
    have u: "digit u" using guard by (simp add: digit_def not_less)
    have m: "?m < 2 ^ 64" using guard overflow_check [OF u, of out] by linarith
    have un: "unat (of_nat ?m :: u64) = ?m" using m by (intro of_nat_inverse [OF refl]) simp
    note nv = next_value [OF u m]
    have "(u = 46 \<and> 0 < CBS_len cbs) = False" using False by (simp add: CBS_len_def)
    then obtain us t where t: "cbs = us @ t" "ends t" "s' = tl t" "\<forall>u \<in> set us. digit u" "unat v = dec_val ?m us" "?m = 0 \<longrightarrow> us = []"
      using "2.IH" [OF _ _ run] guard un unfolding nv by (auto simp: word_unat_eq_iff simp del: of_nat_add of_nat_mult)
    have "u # cbs = (u # us) @ t" "\<forall>x \<in> set (u # us). digit x" using t(1,4) u by simp_all
    moreover have "seen \<and> out = 0 \<longrightarrow> u # us = []" using guard by blast
    moreover have "\<not> seen \<longrightarrow> hd (u # us) = 48 \<longrightarrow> tl (u # us) = []" using t(6) "2.prems"(2) by auto
    ultimately show ?thesis using t(2,3,5) by (intro exI [of _ "u # us"] exI [of _ t]) simp
  qed
qed

lemma parse_dotted_sound:
  assumes "parse_dotted_decimal s = (Some v, s')"
  shows "\<exists>t. s = decimal (unat v) @ t \<and> ends t \<and> s' = tl t"
proof -
  obtain us t where t: "s = us @ t" "ends t" "s' = tl t" "\<forall>u \<in> set us. digit u" "unat v = dec_val (unat (0 :: u64)) us"
    "us \<noteq> []" "hd us = 48 \<longrightarrow> tl us = []"
    using dotted_loop_sound [of s 0 False v s'] assms unfolding parse_dotted_decimal_def by blast
  then have "canonical us" "dec_val 0 us = unat v" by (simp_all add: canonical_def)
  then have "us = decimal (unat v)" using canonical_decimal by metis
  then show ?thesis using t(1-3) by blast
qed

section \<open>Object identifiers\<close>

text \<open>The text and the contents of the object identifier with the given components, and which components have them.\<close>

fun dotted :: "nat list \<Rightarrow> u8 list" where
  "dotted [] = []"
| "dotted (n # ns) = decimal n @ (if ns = [] then [] else 46 # dotted ns)"

fun oid_bytes :: "nat list \<Rightarrow> u8 list" where
  "oid_bytes (a # b # ns) = base128 (40 * a + b) @ concat (map base128 ns)"
| "oid_bytes _ = []"

fun oid_ok :: "nat list \<Rightarrow> bool" where
  "oid_ok (a # b # ns) \<longleftrightarrow> a \<le> 2 \<and> (a < 2 \<longrightarrow> b \<le> 39) \<and> b + 80 < 2 ^ 64 \<and> (\<forall>n \<in> set ns. n < 2 ^ 64)"
| "oid_ok _ \<longleftrightarrow> False"

lemma decimal_not_Nil [simp]: "decimal n \<noteq> []"
  using decimal_canonical [of n] by (auto simp: canonical_def)

lemma dotted_not_Nil: "ns \<noteq> [] \<Longrightarrow> dotted ns \<noteq> []"
  by (cases ns) simp_all

lemma parse_dotted_Cons: "n < 2 ^ 64 \<Longrightarrow> parse_dotted_decimal (dotted (n # ns)) = (Some (of_nat n), dotted ns)"
  using parse_dotted_run [of n "if ns = [] then [] else 46 # dotted ns"] dotted_not_Nil [of ns] by (simp add: ends_def)

lemma ends_cases: "ends t \<Longrightarrow> t = [] \<or> t = 46 # tl t \<and> tl t \<noteq> []"
  by (cases t) (auto simp: ends_def)

lemma dotted_step: "s = decimal n @ t \<Longrightarrow> ends t \<Longrightarrow> tl t = dotted ns \<Longrightarrow> s = dotted (n # ns)"
  using ends_cases [of t] dotted_not_Nil [of ns] by auto

subsection \<open>From text\<close>

lemma oid_rest_from_text_run:
  "\<forall>n \<in> set ns. n < 2 ^ 64 \<Longrightarrow> oid_rest_from_text ma (dotted ns) d = add_u8s ma (concat (map base128 ns)) d"
proof (induction ns)
  case (Cons n ns)
  have n: "n < 2 ^ 64" "unat (of_nat n :: u64) = n" using Cons.prems by (auto intro: of_nat_inverse [OF refl])
  have "CBS_len (dotted (n # ns)) \<noteq> 0" using dotted_not_Nil [of "n # ns"] by (simp add: CBS_len_def)
  then show ?case
    using Cons n(2) unfolding oid_rest_from_text.simps [of ma "dotted (n # ns)"] parse_dotted_Cons [OF n(1)]
    by (simp add: add_base128_eq add_u8s_append del: dotted.simps)
qed (simp add: oid_rest_from_text.simps CBS_len_def)

lemma oid_rest_from_text_sound:
  "oid_rest_from_text ma s d c = (Some u, c') \<Longrightarrow> \<exists>ns. (\<forall>n \<in> set ns. n < 2 ^ 64) \<and> s = dotted ns"
proof (induction ma s d arbitrary: c rule: oid_rest_from_text.induct)
  case (1 ma s d)
  show ?case
  proof (cases "s = []")
    case True
    then show ?thesis by (intro exI [of _ "[]"]) simp
  next
    case False
    then obtain v s1 c1 where p: "parse_dotted_decimal s = (Some v, s1)" and r: "oid_rest_from_text ma s1 d c1 = (Some u, c')"
      using "1.prems" unfolding oid_rest_from_text.simps [of ma s]
      by (auto simp: CBS_len_def op_fail_def op_bind_eq_Some split: option.splits prod.splits)
    obtain ns where ns: "\<forall>n \<in> set ns. n < 2 ^ 64" "s1 = dotted ns" using "1.IH" [OF _ p [symmetric] refl r] False by (auto simp: CBS_len_def)
    obtain t where t: "s = decimal (unat v) @ t" "ends t" "s1 = tl t" using parse_dotted_sound [OF p] by blast
    have "s = dotted (unat v # ns)" by (rule dotted_step [OF t(1,2)]) (use t(3) ns(2) in simp)
    moreover have "unat v < 2 ^ 64" using unsigned_less [of v] by simp
    ultimately show ?thesis using ns(1) by (intro exI [of _ "unat v # ns"]) simp
  qed
qed

lemma first_value:
  assumes "oid_ok (a # b # ns)"
  shows "unat (40 * of_nat a + of_nat b :: u64) = 40 * a + b" "40 * a + b < 2 ^ 64" "a < 2 ^ 64" "b < 2 ^ 64"
    "unat (of_nat a :: u64) = a" "unat (of_nat b :: u64) = b"
proof -
  show v: "40 * a + b < 2 ^ 64" "a < 2 ^ 64" "b < 2 ^ 64" using assms by (auto simp: le_Suc_eq numeral_2_eq_2)
  have "unat (of_nat (40 * a + b) :: u64) = 40 * a + b" using v(1) by (intro of_nat_inverse [OF refl]) simp
  then show "unat (40 * of_nat a + of_nat b :: u64) = 40 * a + b" by simp
  show "unat (of_nat a :: u64) = a" "unat (of_nat b :: u64) = b" using v by (auto intro: of_nat_inverse [OF refl])
qed

lemma first_guard:
  "\<not> (2 < (a :: u64) \<or> (a < 2 \<and> 39 < (b :: u64)) \<or> - 1 - 80 < b) \<longleftrightarrow> unat a \<le> 2 \<and> (unat a < 2 \<longrightarrow> unat b \<le> 39) \<and> unat b + 80 < 2 ^ 64"
proof -
  have "(- 1 - 80 :: u64) = 18446744073709551535" by simp
  then show ?thesis by (auto simp: word_less_nat_alt)
qed

lemma oid_from_text_run:
  assumes "oid_ok cs"
  shows "CBB_add_asn1_oid_from_text ma (dotted cs) d = op_bind (CBB_flush ma d) (\<lambda>_. add_u8s ma (oid_bytes cs) d)"
proof -
  obtain a b ns where cs: "cs = a # b # ns" using assms by (cases cs rule: oid_ok.cases) auto
  note v = first_value [OF assms [unfolded cs]]
  have g: "\<not> (2 < (of_nat a :: u64) \<or> ((of_nat a :: u64) < 2 \<and> 39 < (of_nat b :: u64)) \<or> - 1 - 80 < (of_nat b :: u64))"
    unfolding first_guard v(5,6) using assms cs by simp
  have ns: "\<forall>n \<in> set ns. n < 2 ^ 64" using assms cs by simp
  have p: "op_bind parse_dotted_decimal (\<lambda>a. op_bind parse_dotted_decimal (\<lambda>b. op_return (a, b))) (CBS_init (dotted cs) (length (dotted cs)))
      = (Some (of_nat a, of_nat b), dotted ns)"
    using parse_dotted_Cons [OF v(3), of "b # ns"] parse_dotted_Cons [OF v(4), of ns]
    by (simp add: cs op_bind_def op_return_def CBS_init_def del: dotted.simps)
  show ?thesis
    unfolding CBB_add_asn1_oid_from_text_def p prod.case option.case if_not_P [OF g] oid_rest_from_text_run [OF ns] add_base128_eq v(1)
    by (simp add: cs add_u8s_append)
qed

lemma oid_from_text_sound:
  assumes "CBB_add_asn1_oid_from_text ma text d c = (Some u, c')"
  shows "\<exists>cs. oid_ok cs \<and> text = dotted cs"
proof -
  obtain c1 a b s where p: "op_bind parse_dotted_decimal (\<lambda>a. op_bind parse_dotted_decimal (\<lambda>b. op_return (a, b))) text = (Some (a, b), s)"
    and g: "\<not> (2 < a \<or> (a < 2 \<and> 39 < b) \<or> - 1 - 80 < b)"
    and r: "op_bind (add_base128_integer ma (40 * a + b) d) (\<lambda>_. oid_rest_from_text ma s d) c1 = (Some u, c')"
    using assms unfolding CBB_add_asn1_oid_from_text_def
    by (auto simp: op_bind_eq_Some CBS_init_def op_fail_def split: option.splits prod.splits if_splits)
  obtain s1 where p1: "parse_dotted_decimal text = (Some a, s1)" "parse_dotted_decimal s1 = (Some b, s)"
    using p by (auto simp: op_bind_eq_Some op_return_def)
  obtain c2 where "oid_rest_from_text ma s d c2 = (Some u, c')" using r by (auto simp: op_bind_eq_Some)
  then obtain ns where ns: "\<forall>n \<in> set ns. n < 2 ^ 64" "s = dotted ns" using oid_rest_from_text_sound by blast
  obtain t t1 where t: "text = decimal (unat a) @ t" "ends t" "s1 = tl t" "s1 = decimal (unat b) @ t1" "ends t1" "s = tl t1"
    using parse_dotted_sound [OF p1(1)] parse_dotted_sound [OF p1(2)] by blast
  have "s1 = dotted (unat b # ns)" by (rule dotted_step [OF t(4,5)]) (use t(6) ns(2) in simp)
  then have "text = dotted (unat a # unat b # ns)" by (intro dotted_step [OF t(1,2)]) (use t(3) in simp)
  moreover have "oid_ok (unat a # unat b # ns)" using g ns(1) unfolding first_guard by simp
  ultimately show ?thesis by blast
qed

subsection \<open>To text\<close>

text \<open>An operation that appends \<open>xs\<close>: it refines the abstract append, and succeeds while memory lasts.\<close>

definition appends :: "(cbb, 'a) op \<Rightarrow> u8 list \<Rightarrow> nat \<Rightarrow> bool" where
  "appends f xs d \<longleftrightarrow> refines f (b_add d xs) \<and> completes f (b_add d xs)"

lemma appends_bind:
  "appends f xs d \<Longrightarrow> (\<And>r. appends (k r) ys d) \<Longrightarrow> appends (op_bind f k) (xs @ ys) d"
  using completes_bind [of f "b_add d xs" k "b_add d ys"] refines_add_bind [of f d xs k ys] b_add_grows
  by (auto simp: appends_def bind_b_add)

lemma appends_u8: "malloc_total ma \<Longrightarrow> appends (CBB_add_u8 ma v d) [v] d"
  by (simp add: appends_def CBB_add_u8_refines CBB_add_u8_completes malloc_total_def)

lemma appends_bytes: "malloc_total ma \<Longrightarrow> length xs < 2 ^ 63 \<Longrightarrow> appends (CBB_add_bytes ma xs d) xs d"
  using CBB_add_bytes_refines [of ma xs d] CBB_add_bytes_completes [of ma xs d] by (simp add: appends_def malloc_total_def)

lemma length_decimal: "n < 10 ^ Suc k \<Longrightarrow> length (decimal n) \<le> Suc k"
proof (induction k arbitrary: n)
  case 0
  then show ?case by (simp add: decimal.simps)
next
  case (Suc k)
  then have "n div 10 < 10 ^ Suc k" by simp
  then show ?case using Suc.IH [of "n div 10"] by (simp add: decimal.simps [of n])
qed

lemma appends_decimal:
  assumes "malloc_total ma"
  shows "appends (add_decimal ma v d) (decimal (unat v)) d"
proof -
  have "unat v < 2 ^ 64" using unsigned_less [of v] by simp
  then have "unat v < 10 ^ Suc 19" by simp
  then have "length (decimal (unat v)) < 2 ^ 63" using length_decimal [of "unat v" 19] by simp
  then show ?thesis unfolding add_decimal_def by (rule appends_bytes [OF assms])
qed

lemma oid_first_to_text_appends:
  assumes "malloc_total ma" "oid_ok (a # b # ns)"
  shows "appends (oid_first_to_text ma (of_nat (40 * a + b)) d) (decimal a @ 46 # decimal b) d"
proof -
  note v = first_value [OF assms(2)]
  define w where "w = (of_nat (40 * a + b) :: u64)"
  have w: "unat w = 40 * a + b" using v(1) by (simp add: w_def)
  show ?thesis
  proof (cases "a = 2")
    case True
    then have g: "80 \<le> w" by (simp add: word_le_nat_alt w)
    then have "unat (w - 80) = b" using True by (simp add: unat_sub word_le_nat_alt w)
    moreover have "decimal 2 = [50]" by (simp add: decimal.simps byte_def)
    ultimately show ?thesis
      using appends_bind [OF appends_bytes [OF assms(1), of "[50, 46]" d] appends_decimal [OF assms(1), of "w - 80" d]] True
      unfolding w_def [symmetric] oid_first_to_text_def if_P [OF g] by simp
  next
    case False
    then have a: "a \<le> 1" "b \<le> 39" using assms(2) by auto
    then have g: "\<not> 80 \<le> w" by (simp add: word_le_nat_alt w)
    have "unat (w div 40) = a" "unat (w mod 40) = b" using a by (simp_all add: unat_div_distrib unat_mod_distrib w)
    then show ?thesis
      using appends_bind [OF appends_decimal [OF assms(1), of "w div 40" d] appends_bind [OF appends_u8 [OF assms(1), of 46 d] appends_decimal [OF assms(1), of "w mod 40" d]]]
      unfolding w_def [symmetric] oid_first_to_text_def if_not_P [OF g] by simp
  qed
qed

text \<open>The loop and the NUL after it.\<close>

lemma oid_rest_to_text_appends:
  assumes "malloc_total ma"
  shows "\<forall>n \<in> set ns. n < 2 ^ 64 \<Longrightarrow>
    appends (op_bind (oid_rest_to_text ma (concat (map base128 ns)) d) (\<lambda>_. CBB_add_u8 ma 0 d))
      (concat (map (\<lambda>n. 46 # decimal n) ns) @ [0]) d"
proof (induction ns)
  case Nil
  then show ?case using appends_u8 [OF assms] by (simp add: oid_rest_to_text.simps CBS_len_def)
next
  case (Cons n ns)
  have n: "n < 2 ^ 64" "unat (of_nat n :: u64) = n" using Cons.prems by (auto intro: of_nat_inverse [OF refl])
  have l: "CBS_len (base128 n @ concat (map base128 ns)) \<noteq> 0" by (simp add: CBS_len_def)
  have "appends (op_bind (CBB_add_u8 ma 46 d) (\<lambda>_. op_bind (add_decimal ma (of_nat n) d) (\<lambda>_.
      op_bind (oid_rest_to_text ma (concat (map base128 ns)) d) (\<lambda>_. CBB_add_u8 ma 0 d))))
    ([46] @ decimal n @ concat (map (\<lambda>n. 46 # decimal n) ns) @ [0]) d"
    using appends_decimal [OF assms, of "of_nat n" d] Cons
    unfolding n(2) by (intro appends_bind [OF appends_u8 [OF assms]] appends_bind [where f = "add_decimal ma (of_nat n) d"]) simp_all
  then show ?case
    unfolding list.map concat.simps oid_rest_to_text.simps [of ma "base128 n @ _"] if_not_P [OF l] parse_base128_base128 [OF n(1)]
    by (simp add: op_bind_assoc)
qed

lemma dotted_Cons: "dotted (n # ns) = decimal n @ concat (map (\<lambda>n. 46 # decimal n) ns)"
  by (induction ns arbitrary: n) auto

lemma oid_to_text_run:
  assumes "malloc_total ma" "oid_ok cs" "length (dotted cs) + 1 < max_data"
  shows "\<exists>txt. CBS_asn1_oid_to_text ma (oid_bytes cs) = Some txt \<and> take (length (dotted cs) + 1) txt = dotted cs @ [0]"
proof -
  obtain a b ns where cs: "cs = a # b # ns" using assms(2) by (cases cs rule: oid_ok.cases) auto
  note v = first_value [OF assms(2) [unfolded cs]]
  let ?v = "of_nat (40 * a + b) :: u64" and ?rest = "concat (map base128 ns)"
  let ?m = "op_bind (oid_first_to_text ma ?v 0) (\<lambda>_. op_bind (oid_rest_to_text ma ?rest 0) (\<lambda>_. CBB_add_u8 ma 0 0))"
  have t: "dotted cs @ [0] = (decimal a @ 46 # decimal b) @ concat (map (\<lambda>n. 46 # decimal n) ns) @ [0]" unfolding cs dotted_Cons by simp
  have ns: "\<forall>n \<in> set ns. n < 2 ^ 64" using assms(2) cs by simp
  have "appends ?m (dotted cs @ [0]) 0"
    unfolding t by (rule appends_bind [OF oid_first_to_text_appends [OF assms(1) assms(2) [unfolded cs]] oid_rest_to_text_appends [OF assms(1) ns]])
  then have m: "refines ?m (b_add 0 (dotted cs @ [0]))" "completes ?m (b_add 0 (dotted cs @ [0]))" by (simp_all add: appends_def)
  have small: "length (dotted cs @ [0]) < max_data" using assms(3) by simp
  have "(32 :: nat) + 8 < 2 ^ 63" by simp
  from build_element [OF assms(1) this m small] obtain c0 r c1 buf c2 where
    c: "CBB_init ma 32 = Some c0" "?m c0 = (Some r, c1)" "CBB_finish ma True True 0 c1 = (Some (Some buf, Some (length (dotted cs @ [0]))), c2)"
    and buf: "take (length (dotted cs @ [0])) buf = dotted cs @ [0]" by blast
  have p: "parse_base128_integer (oid_bytes cs) = (Some ?v, ?rest)" using v(2) by (simp add: cs)
  have eq: "op_bind (oid_first_to_text ma ?v 0) (\<lambda>_. op_bind (oid_rest_to_text ma ?rest 0) (\<lambda>_. op_bind (CBB_add_u8 ma 0 0) (\<lambda>_. CBB_finish ma True True 0)))
      = op_bind ?m (\<lambda>_. CBB_finish ma True True 0)"
    by (simp only: op_bind_assoc)
  have run: "op_bind ?m (\<lambda>_. CBB_finish ma True True 0) c0 = (Some (Some buf, Some (length (dotted cs @ [0]))), c2)"
    unfolding op_bind_def [of ?m] c(2) prod.case option.case by (rule c(3))
  have "CBS_asn1_oid_to_text ma (oid_bytes cs) = Some buf"
    unfolding CBS_asn1_oid_to_text_def c(1) option.case p prod.case eq run ..
  then show ?thesis using buf by auto
qed

lemma oid_rest_to_text_sound:
  "oid_rest_to_text ma s d c = (Some u, c') \<Longrightarrow> \<exists>ns. (\<forall>n \<in> set ns. n < 2 ^ 64) \<and> s = concat (map base128 ns)"
proof (induction ma s d arbitrary: c rule: oid_rest_to_text.induct)
  case (1 ma s d)
  show ?case
  proof (cases "s = []")
    case True
    then show ?thesis by (intro exI [of _ "[]"]) simp
  next
    case False
    then obtain v s1 c1 where p: "parse_base128_integer s = (Some v, s1)" and r: "oid_rest_to_text ma s1 d c1 = (Some u, c')"
      using "1.prems" unfolding oid_rest_to_text.simps [of ma s]
      by (auto simp: CBS_len_def op_fail_def op_bind_eq_Some split: option.splits prod.splits)
    obtain ns where ns: "\<forall>n \<in> set ns. n < 2 ^ 64" "s1 = concat (map base128 ns)"
      using "1.IH" [OF _ p [symmetric] refl r] False by (auto simp: CBS_len_def)
    have "s = concat (map base128 (unat v # ns))" "unat v < 2 ^ 64" using parse_base128_sound [OF p] ns(2) unsigned_less [of v] by simp_all
    then show ?thesis using ns(1) by (intro exI [of _ "unat v # ns"]) simp
  qed
qed

lemma oid_to_text_sound:
  assumes "CBS_asn1_oid_to_text ma s = Some txt"
  shows "\<exists>cs. oid_ok cs \<and> s = oid_bytes cs"
proof -
  obtain c0 v s1 r c' where p: "parse_base128_integer s = (Some v, s1)"
    and r: "op_bind (oid_first_to_text ma v 0) (\<lambda>_. op_bind (oid_rest_to_text ma s1 0) (\<lambda>_.
        op_bind (CBB_add_u8 ma 0 0) (\<lambda>_. CBB_finish ma True True 0))) c0 = (Some r, c')"
    using assms unfolding CBS_asn1_oid_to_text_def by (auto split: option.splits prod.splits)
  obtain c1 c2 where "oid_rest_to_text ma s1 0 c1 = (Some (), c2)" using r by (auto simp: op_bind_eq_Some)
  then obtain ns where ns: "\<forall>n \<in> set ns. n < 2 ^ 64" "s1 = concat (map base128 ns)" using oid_rest_to_text_sound by blast
  define a where "a = (if 80 \<le> unat v then 2 else unat v div 40)"
  define b where "b = unat v - 40 * a"
  have vl: "unat v < 2 ^ 64" using unsigned_less [of v] by simp
  have ab: "unat v = 40 * a + b" by (auto simp: a_def b_def)
  have "a \<le> 2 \<and> (a < 2 \<longrightarrow> b \<le> 39) \<and> b + 80 < 2 ^ 64"
    using vl unfolding b_def a_def by (cases "80 \<le> unat v") (simp_all, arith)
  then have "oid_ok (a # b # ns)" using ns(1) by simp
  moreover have "s = oid_bytes (a # b # ns)" using parse_base128_sound [OF p] ns(2) ab by simp
  ultimately show ?thesis by blast
qed

section \<open>Property\<close>

text \<open>
  Text and contents of object identifiers correspond exactly: of an object identifier, \<open>CBB_add_asn1_oid_from_text\<close> turns
  the text into the contents and \<open>CBS_asn1_oid_to_text\<close> turns the contents into the text and a NUL; a text that is not the
  text of one, for instance with a leading zero, an empty component or one of more than 64 bits, is refused, and so are
  contents that are not those of one.
\<close>

theorem oid_text_exact:
  assumes "malloc_total ma" "n + 8 < 2 ^ 63" "oid_ok cs" "length (dotted cs) + 1 < max_data" "length (oid_bytes cs) < max_data"
  shows "(\<exists>c0 c1 buf c2. CBB_init ma n = Some c0 \<and> CBB_add_asn1_oid_from_text ma (dotted cs) 0 c0 = (Some (), c1)
      \<and> CBB_finish ma True True 0 c1 = (Some (Some buf, Some (length (oid_bytes cs))), c2) \<and> take (length (oid_bytes cs)) buf = oid_bytes cs)
    \<and> (\<exists>txt. CBS_asn1_oid_to_text ma (oid_bytes cs) = Some txt \<and> take (length (dotted cs) + 1) txt = dotted cs @ [0])
    \<and> ((\<nexists>cs. oid_ok cs \<and> text = dotted cs) \<longrightarrow> fst (CBB_add_asn1_oid_from_text ma text d c) = None)
    \<and> ((\<nexists>cs. oid_ok cs \<and> s = oid_bytes cs) \<longrightarrow> CBS_asn1_oid_to_text ma s = None)"
proof -
  have ma: "malloc_spec ma" using assms(1) by (simp add: malloc_total_def)
  have ne: "oid_bytes cs \<noteq> []" using assms(3) by (cases cs rule: oid_ok.cases) auto
  have "refines (CBB_add_asn1_oid_from_text ma (dotted cs) 0) (b_add 0 (oid_bytes cs))"
    using refines_bind [OF CBB_flush_refines [OF ma] add_u8s_refines [OF ma ne], of 0 0] unfolding oid_from_text_run [OF assms(3)] bind_b_close .
  moreover have "completes (CBB_add_asn1_oid_from_text ma (dotted cs) 0) (b_add 0 (oid_bytes cs))"
    using completes_bind [OF CBB_flush_completes [OF assms(1)] CBB_flush_refines [OF ma] add_u8s_completes [OF assms(1) ne] b_close_grows b_add_grows, of 0 0]
    unfolding oid_from_text_run [OF assms(3)] bind_b_close .
  ultimately have "\<exists>c0 c1 buf c2. CBB_init ma n = Some c0 \<and> CBB_add_asn1_oid_from_text ma (dotted cs) 0 c0 = (Some (), c1)
      \<and> CBB_finish ma True True 0 c1 = (Some (Some buf, Some (length (oid_bytes cs))), c2) \<and> take (length (oid_bytes cs)) buf = oid_bytes cs"
    using build_element [OF assms(1,2) _ _ assms(5)] by (metis (full_types) old.unit.exhaust)
  moreover have "(\<nexists>cs. oid_ok cs \<and> text = dotted cs) \<longrightarrow> fst (CBB_add_asn1_oid_from_text ma text d c) = None"
    using oid_from_text_sound [of ma "text" d c] by (cases "CBB_add_asn1_oid_from_text ma text d c"; cases "fst (CBB_add_asn1_oid_from_text ma text d c)") auto
  moreover have "(\<nexists>cs. oid_ok cs \<and> s = oid_bytes cs) \<longrightarrow> CBS_asn1_oid_to_text ma s = None"
    using oid_to_text_sound [of ma s] by (cases "CBS_asn1_oid_to_text ma s") auto
  ultimately show ?thesis using oid_to_text_run [OF assms(1,3,4)] by blast
qed

text \<open>The object identifier 1.2.840, and the text 1.02, which has a leading zero.\<close>

theorem oid_text_exact_witness:
  "(\<exists>txt. CBS_asn1_oid_to_text zero_malloc [42, 134, 72] = Some txt \<and> take 8 txt = [49, 46, 50, 46, 56, 52, 48, 0])
   \<and> (\<exists>c0 c1 buf c2. CBB_init zero_malloc 16 = Some c0 \<and> CBB_add_asn1_oid_from_text zero_malloc [49, 46, 50, 46, 56, 52, 48] 0 c0 = (Some (), c1)
      \<and> CBB_finish zero_malloc True True 0 c1 = (Some (Some buf, Some 3), c2) \<and> take 3 buf = [42, 134, 72])"
proof -
  have e: "dotted [1, 2, 840] = [49, 46, 50, 46, 56, 52, 48]" by (simp add: decimal.simps byte_def)
  have b: "oid_bytes [1, 2, 840] = [42, 134, 72]" by (simp add: base128_def base128_hi.simps byte_def)
  have p: "(16 :: nat) + 8 < 2 ^ 63" "oid_ok [1, 2, 840]" "length (dotted [1, 2, 840]) + 1 < max_data" "length (oid_bytes [1, 2, 840]) < max_data"
    unfolding e b by simp_all
  note t = oid_text_exact [OF malloc_total_zero_malloc p, unfolded e b]
  show ?thesis using t by (simp add: numeral_3_eq_3 numeral_eq_Suc)
qed

end
