(* ===== verification/Cbb_Space.thy ===== *)
theory Cbb_Space imports Builder begin

text \<open>
  The operations of \<open>bytestring/cbb.c\<close> with which a caller writes into the buffer itself (\<open>CBB_add_space\<close>,
  \<open>CBB_reserve\<close> and \<open>CBB_did_write\<close>), takes back an open child (\<open>CBB_discard_child\<close>) or gives a buffer of its own
  (\<open>CBB_init_fixed\<close>), as operations of the abstract builder.
\<close>

section \<open>Space\<close>

text \<open>The caller of \<open>CBB_add_space\<close> and \<open>CBB_reserve\<close> writes \<open>xs\<close> through the pointer they return.\<close>

definition caller_writes :: "nat \<Rightarrow> u8 list \<Rightarrow> (cbb, unit) op" where
  "caller_writes p xs = on_base (\<lambda>b. (Some (), buf_write p xs b))"

definition add_space_and_write :: "malloc_fn \<Rightarrow> u8 list \<Rightarrow> nat \<Rightarrow> (cbb, unit) op" where
  "add_space_and_write ma xs d = op_bind (CBB_add_space ma (length xs) d) (\<lambda>p. caller_writes p xs)"

definition reserve_and_write :: "malloc_fn \<Rightarrow> nat \<Rightarrow> u8 list \<Rightarrow> nat \<Rightarrow> (cbb, unit) op" where
  "reserve_and_write ma n xs d =
     op_bind (CBB_reserve ma n d) (\<lambda>p. op_bind (caller_writes p xs) (\<lambda>_. CBB_did_write (length xs) d))"

text \<open>The space of \<open>CBB_add_space\<close> is part of the contents at once; writing it is \<open>CBB_add_bytes\<close>.\<close>

lemma add_space_is_add_bytes: "add_space_and_write ma xs d = CBB_add_bytes ma xs d"
  by (rule ext) (simp add: add_space_and_write_def CBB_add_space_def CBB_add_bytes_def caller_writes_def op_bind_assoc)

lemma reserve_room:
  assumes "malloc_spec ma" "cbb_rep c B" "n < 2 ^ 63" "CBB_reserve ma n d c = (Some p, c')"
  obtains B1 b where "b_close d B = Some B1" "cbb_rep c' B1" "cbb_base c' = Some b" "p = length (b_data B1)" "p + n \<le> cb_cap b"
proof -
  obtain u c1 where fl: "CBB_flush ma d c = (Some u, c1)" and r: "on_base (cbb_buffer_reserve ma n) c1 = (Some p, c')"
    using assms(4) unfolding CBB_reserve_def by (auto simp: op_bind_eq_Some)
  obtain B1 where B1: "b_close d B = Some B1" "cbb_rep c1 B1" by (rule refinesD [OF CBB_flush_refines [OF assms(1)] assms(2) fl])
  then obtain b where b: "cbb_base c1 = Some b" "buffer_rep b (b_data B1)" by (auto simp: cbb_rep_alt)
  obtain b' where b': "cbb_buffer_reserve ma n b = (Some p, b')" "c' = c1\<lparr>cbb_base := Some b'\<rparr>"
    using r b(1) by (auto simp: on_base_def split: prod.splits)
  have "length (b_data B1) + n + 8 < size_limit" using b(2) assms(3) by (auto elim!: buffer_repE)
  note rep = reserve_rep [OF assms(1) b(2) this b'(1)]
  then have "cbb_rep c' (add_top [] B1)" unfolding b'(2) by (intro cbb_rep_append [OF B1(2) b(1)]) simp
  then show ?thesis using that [of B1 b'] B1(1) b'(2) rep by simp
qed

lemma did_write_rep:
  assumes rep: "cbb_rep c B" and b: "cbb_base c = Some b" and len: "length (b_data B) + length xs \<le> cb_cap b" and d: "length (snd B) = d"
    and cw: "caller_writes (length (b_data B)) xs c = (r, c1)"
  obtains c2 where "CBB_did_write (length xs) d c1 = (Some (), c2)" "cbb_rep c2 (add_top xs B)" "r = Some ()"
    "growable c \<Longrightarrow> growable c2"
proof -
  let ?p = "length (b_data B)" and ?b1 = "buf_write (length (b_data B)) xs b"
  let ?b2 = "?b1\<lparr>cb_len := ?p + length xs\<rparr>"
  have br: "buffer_rep b (b_data B)" and ch: "cbb_children c = b_children B" using rep b by (auto simp: cbb_rep_alt)
  have c1: "r = Some ()" "c1 = c\<lparr>cbb_base := Some ?b1\<rparr>" using cw b by (simp_all add: caller_writes_def on_base_def)
  obtain junk where j: "cb_buf b = b_data B @ junk" "cb_len b = ?p" "cb_cap b = ?p + length junk" "cb_cap b + 8 < 2 ^ 63" "\<not> cb_error b"
    using br by (rule buffer_repE)
  have "buffer_rep ?b2 (b_data B @ xs)"
    using j len by (intro buffer_repI [where junk = "drop (length xs) junk"]) (simp_all add: buf_write_def)
  then have "cbb_rep (c\<lparr>cbb_base := Some ?b2\<rparr>) (add_top xs B)" by (rule cbb_rep_append [OF rep b])
  moreover have "size_add ?p (length xs) = ?p + length xs" using j(4) len by simp
  then have "CBB_did_write (length xs) d c1 = (Some (), c\<lparr>cbb_base := Some ?b2\<rparr>)"
    using j len d ch unfolding c1 by (simp add: CBB_did_write_def b_children_def buf_write_def Let_def)
  moreover have "growable (c\<lparr>cbb_base := Some ?b2\<rparr>)" if "growable c" using that b by (simp add: growable_def buf_write_def)
  ultimately show ?thesis using that c1(1) by blast
qed

lemma reserve_and_write_refines:
  assumes "malloc_spec ma" "length xs \<le> n" "n < 2 ^ 63"
  shows "refines (reserve_and_write ma n xs d) (b_add d xs)"
proof (rule refinesI)
  fix c B r c'
  assume rep: "cbb_rep c B" and run: "reserve_and_write ma n xs d c = (Some r, c')"
  obtain p c1 where re: "CBB_reserve ma n d c = (Some p, c1)"
    and w: "op_bind (caller_writes p xs) (\<lambda>_. CBB_did_write (length xs) d) c1 = (Some r, c')"
    using run unfolding reserve_and_write_def by (rule op_bind_SomeE)
  obtain B1 b where B1: "b_close d B = Some B1" "cbb_rep c1 B1" "cbb_base c1 = Some b" "p = length (b_data B1)" "p + n \<le> cb_cap b"
    by (rule reserve_room [OF assms(1) rep assms(3) re])
  obtain u c2 where cw: "caller_writes (length (b_data B1)) xs c1 = (u, c2)" by (cases "caller_writes (length (b_data B1)) xs c1")
  have room: "length (b_data B1) + length xs \<le> cb_cap b" using B1(4,5) assms(2) by simp
  obtain c3 where c3: "CBB_did_write (length xs) d c2 = (Some (), c3)" "cbb_rep c3 (add_top xs B1)" "u = Some ()"
    by (rule did_write_rep [OF B1(2,3) room b_close_length [OF B1(1)] cw]) blast
  then have "c' = c3" using w cw B1(4) by (simp add: op_bind_def)
  then show "\<exists>B'. b_add d xs B = Some B' \<and> cbb_rep c' B'" using c3(2) B1(1) by (simp add: b_add_def)
qed

lemma reserve_and_write_completes:
  assumes ma: "malloc_total ma" and "length xs \<le> n" "n < 2 ^ 60"
  shows "completes (reserve_and_write ma n xs d) (b_add d xs)"
proof (rule completesI)
  fix c B B'
  assume rep: "cbb_rep c B" and g: "growable c" and "b_add d xs B = Some B'" and small: "length (b_data B') < max_data"
  then obtain B1 where B1: "b_close d B = Some B1" "B' = add_top xs B1" by (auto simp: b_add_def)
  have ma': "malloc_spec ma" using ma by (simp add: malloc_total_def)
  have s1: "length (b_data B1) < max_data" using small B1(2) by simp
  obtain u c1 where fl: "CBB_flush ma d c = (Some u, c1)" and g1: "growable c1"
    by (rule completesD [OF CBB_flush_completes [OF ma] rep g B1(1) s1])
  have r1: "cbb_rep c1 B1" using refinesD [OF CBB_flush_refines [OF ma'] rep fl] B1(1) by (metis option.inject)
  then obtain b where b: "cbb_base c1 = Some b" "buffer_rep b (b_data B1)" by (auto simp: cbb_rep_alt)
  have "can_resize b" using g1 b(1) by (simp add: growable_def)
  moreover have "length (b_data B1) + n < 2 ^ 61" using s1 assms(3) by simp
  ultimately obtain p b' where res: "cbb_buffer_reserve ma n b = (Some p, b')" "can_resize b'" by (rule reserve_completes [OF ma b(2)])
  have re: "CBB_reserve ma n d c = (Some p, c1\<lparr>cbb_base := Some b'\<rparr>)"
    using fl b(1) res(1) by (simp add: CBB_reserve_def op_bind_def on_base_def)
  have g2: "growable (c1\<lparr>cbb_base := Some b'\<rparr>)" using res(2) by (simp add: growable_def)
  have n63: "n < 2 ^ 63" using assms(3) by simp
  obtain B2 b2 where B2: "b_close d B = Some B2" "cbb_rep (c1\<lparr>cbb_base := Some b'\<rparr>) B2" "cbb_base (c1\<lparr>cbb_base := Some b'\<rparr>) = Some b2"
    "p = length (b_data B2)" "p + n \<le> cb_cap b2"
    by (rule reserve_room [OF ma' rep n63 re])
  obtain v c2 where cw: "caller_writes (length (b_data B2)) xs (c1\<lparr>cbb_base := Some b'\<rparr>) = (v, c2)" by fastforce
  have room: "length (b_data B2) + length xs \<le> cb_cap b2" using B2(4,5) assms(2) by simp
  obtain c3 where "CBB_did_write (length xs) d c2 = (Some (), c3)" "v = Some ()" "growable c3"
    using did_write_rep [OF B2(2,3) room b_close_length [OF B2(1)] cw] g2 by metis
  then show "\<exists>r c'. reserve_and_write ma n xs d c = (Some r, c') \<and> growable c'"
    using re cw B2(4) by (simp add: reserve_and_write_def op_bind_def)
qed

text \<open>
  Writing up to the reserved number of bytes between \<open>CBB_reserve\<close> and \<open>CBB_did_write\<close> appends exactly these bytes, as
  \<open>CBB_add_bytes\<close> does.
\<close>

lemma reserve_and_write_implements:
  assumes "malloc_total ma" "length xs \<le> n" "n < 2 ^ 60"
  shows "implements (reserve_and_write ma n xs d) (b_add d xs)"
  using assms by (intro implementsI reserve_and_write_refines reserve_and_write_completes) (simp_all add: malloc_total_def)

text \<open>\<open>CBB_did_write\<close> refuses more than the buffer holds and a CBB with an open child, and changes nothing then.\<close>

lemma did_write_refuses:
  assumes "cbb_rep c B" "cbb_base c = Some b" "len < size_limit" "length (snd B) \<noteq> d \<or> cb_cap b < length (b_data B) + len"
  shows "CBB_did_write len d c = (None, c)"
proof -
  have b: "buffer_rep b (b_data B)" "length (cbb_children c) = length (snd B)" using assms(1,2) by (auto simp: cbb_rep_alt b_children_def)
  then have l: "cb_len b = length (b_data B)" "length (b_data B) \<le> cb_cap b" "cb_cap b + 8 < 2 ^ 63" by (auto elim!: buffer_repE)
  have s: "size_add (cb_len b) len < cb_len b \<or> cb_cap b < size_add (cb_len b) len" if "cb_cap b < length (b_data B) + len"
    using that l assms(3) by (auto simp: size_add_def mod_if)
  show ?thesis using assms(2,4) b(2) s by (auto simp: CBB_did_write_def Let_def)
qed

section \<open>Discarding a child\<close>

text \<open>
  The child and those below it go with their prefixes; what its parent holds before the prefix stays, for an ASN.1 child the
  identifier octets included.
\<close>

lemma discard_child_rep:
  assumes "cbb_rep c B"
  shows "cbb_rep (CBB_discard_child d c) (fst B, take d (snd B))"
proof (cases "length (snd B) \<le> d")
  case True
  then have "CBB_discard_child d c = c" using assms by (simp add: CBB_discard_child_def cbb_rep_alt b_children_def)
  then show ?thesis using assms True by simp
next
  case False
  obtain r ls where B: "B = (r, ls)" by (cases B)
  define hi where "hi = take d ls"
  obtain l lo where ls: "ls = hi @ l # lo" "length hi = d"
    using False id_take_nth_drop [of d ls] by (simp add: B hi_def)
  let ?p = "length (r @ raw hi)"
  obtain b where b: "cbb_base c = Some b" "buffer_rep b (r @ raw ls)" and ch: "cbb_children c = children_at (length r) ls"
    and ok: "\<forall>l \<in> set ls. layer_ok l"
    using assms by (auto simp: cbb_rep_def B)
  have off: "cbb_offset (cbb_children c ! d) = ?p" "take d (cbb_children c) = children_at (length r) hi"
    unfolding ch ls(1) children_at_append using ls(2) by (simp_all add: nth_append)
  have "buffer_rep (b\<lparr>cb_len := ?p\<rparr>) (r @ raw hi)"
  proof (rule buffer_repE [OF b(2)])
    fix junk
    assume j: "cb_buf b = (r @ raw ls) @ junk" "cb_len b = length (r @ raw ls)" "cb_cap b = length (r @ raw ls) + length junk"
      "cb_cap b + 8 < 2 ^ 63" "\<not> cb_error b"
    show ?thesis using j by (intro buffer_repI [where junk = "raw (l # lo) @ junk"]) (simp_all add: ls(1))
  qed
  moreover have "CBB_discard_child d c = c\<lparr>cbb_base := Some (b\<lparr>cb_len := ?p\<rparr>), cbb_children := children_at (length r) hi\<rparr>"
    using False b(1) off by (simp add: CBB_discard_child_def ch B)
  ultimately show ?thesis using ok ls(1) ls(2) [symmetric] by (simp add: cbb_rep_def B)
qed

section \<open>A buffer of the caller's\<close>

lemma init_fixed_rep:
  assumes "CBB_init_fixed ma buf len = Some c" "length buf = len" "len + 8 < 2 ^ 63"
  shows "cbb_rep c ([], []) \<and> (\<exists>b. cbb_base c = Some b \<and> \<not> can_resize b \<and> cb_cap b = len)"
proof -
  let ?b = "\<lparr>cb_buf = buf, cb_len = 0, cb_cap = len, can_resize = False, cb_error = False\<rparr>"
  have c: "cbb_base c = Some ?b" "cbb_children c = []"
    using assms(1) by (auto simp: CBB_init_fixed_def cbb_init_def CBB_zero_def split: option.splits)
  have "buffer_rep ?b []" using assms(2,3) by (intro buffer_repI [where junk = buf]) simp_all
  then show ?thesis using c by (simp add: cbb_rep_def)
qed

text \<open>It never grows: what does not fit is refused, and marks the builder.\<close>

lemma fixed_reserve:
  assumes "buffer_rep b xs" "\<not> can_resize b" "n < 2 ^ 63"
  shows "cbb_buffer_reserve ma n b =
    (if length xs + n \<le> cb_cap b then (Some (length xs), b) else (None, b\<lparr>cb_error := True\<rparr>))"
proof -
  have l: "cb_len b = length xs" "length xs \<le> cb_cap b" "cb_cap b + 8 < 2 ^ 63" using assms(1) by (auto elim!: buffer_repE)
  then have "size_add (cb_len b) n = length xs + n" using assms(3) by simp
  then show ?thesis using l assms(2) by (simp add: cbb_buffer_reserve_def Let_def)
qed

lemma fixed_add_space:
  assumes "cbb_rep c ([], [])" "cbb_base c = Some b" "\<not> can_resize b" "n < 2 ^ 63"
  shows "fst (CBB_add_space ma n 0 c) = (if n \<le> cb_cap b then Some 0 else None)"
proof -
  have b: "buffer_rep b []" "cbb_children c = []" using assms(1,2) by (auto simp: cbb_rep_def raw_def)
  then have "\<not> cb_error b" by (auto elim!: buffer_repE)
  then show ?thesis
    using b(2) assms(2) fixed_reserve [OF b(1) assms(3,4), of ma]
    by (simp add: CBB_add_space_def CBB_flush_def on_base_def op_bind_def cbb_buffer_add_def)
qed

end
