(* ===== verification/Spec2Isabelle.thy ===== *)
theory Spec2Isabelle imports Set_Of Base64_Codec Buf Lhash Pb_Codec Pb_Fields Bn_Normal Bn_Mont_Locked Bn_Asn1 Oid Cbb_Space begin

text \<open>
  \<^bold>\<open>The program.\<close>  DONGWON_iOS is a Swift application over Firebase. Its C code is what its pods bring
  along; this development models the layers of that code on which the rest is built:

  \<^item> the support library of BoringSSL (\<open>src/Apartment/Pods/BoringSSL-GRPC/src/crypto\<close>): memory, byte-string
    parsing and building, base64, pointer stacks, byte buffers, hash tables, and big numbers;
  \<^item> the protocol-buffer runtime nanopb (\<open>src/Apartment/Pods/nanopb\<close>): streams, the wire format and the codecs of
    the fields of a message.

  Everything that allocates goes through \<open>OPENSSL_malloc\<close>. The ASN.1 code reads with \<open>CBS\<close> and writes with \<open>CBB\<close>;
  both use the same grammar, which is the function \<open>der_element\<close> here. Stacks and hash tables hold pointers for the
  tables of object names. Big numbers are arrays of words; their operations take temporaries from a \<open>BN_CTX\<close>, which
  keeps its frames on a stack of its own. Numbers leave the library as bytes or, through \<open>CBB\<close>, as ASN.1 integers.
  nanopb shares nothing with BoringSSL but the C library.

  \<^bold>\<open>How C is represented.\<close>  (\<open>Prelude\<close>, \<open>Mem\<close>)  A C integer is a word of its width, so sums wrap as in the code; where
  the code relies on a signed value the \<open>int\<close> is taken with \<open>sint\<close>. A struct is a record, an array the list of its
  elements. A function that "returns one on success and zero on error" is an \<^emph>\<open>operation\<close>: a function from the state of
  the object to a result (\<open>None\<close> for failure) and the object it leaves, which is kept on failure as well. The C
  library's \<open>malloc\<close> is the parameter \<open>ma\<close> of every operation that allocates. What the code relies on is \<open>malloc_spec\<close>
  (a returned block has the size asked for); statements that an operation succeeds assume \<open>malloc_total\<close>, and
  \<open>zero_malloc\<close> is the instance of the witnesses. The error queue is left out everywhere.

  \<^bold>\<open>Theories and the code they model.\<close>

  \<^item> \<open>Mem\<close>: \<open>mem.c\<close>. \<open>ConstTime\<close>: the masks of \<open>internal.h\<close>, each proved to be the conditional it stands for.
  \<^item> \<open>Cbs\<close>: the readers of \<open>bytestring/cbs.c\<close>; \<open>Der\<close>: the encoding as a function, and that the parser is its
    inverse (it accepts exactly the encodings); \<open>Asn1_Values\<close>: integers, booleans, optional elements, bit strings.
  \<^item> \<open>Cbb\<close>: \<open>bytestring/cbb.c\<close>, the chain of open children over one growing buffer; \<open>Builder\<close>: the abstract builder
    (the bytes of every open child), the relation \<open>cbb_rep\<close>, and that flushing, opening a child and adding bytes, integers
    and ASN.1 values refine the operations of the abstract builder; \<open>Cbb_Space\<close>: the same for the operations with which
    a caller writes into the buffer, discards a child or brings a buffer of its own; \<open>Oid\<close>: object identifiers as text, in
    both directions; \<open>Ordering\<close>, \<open>Set_Of\<close>: comparison functions, \<open>qsort\<close>, and the sorting of a SET OF in place.
  \<^item> \<open>Base64\<close>, \<open>Base64_Codec\<close>: \<open>base64/base64.c\<close>, against a reference encoder that works line by line.
  \<^item> \<open>Stack\<close>: \<open>stack/stack.c\<close>; \<open>Buf\<close>: \<open>buf/buf.c\<close>; \<open>Lhash\<close>: \<open>lhash/lhash.c\<close> as a refinement of a map.
  \<^item> \<open>Pb_Stream\<close>, \<open>Pb_Wire\<close>, \<open>Pb_Codec\<close>: streams and wire format of \<open>pb_encode.c\<close> and \<open>pb_decode.c\<close>, the byte strings
    they write and accept; \<open>Pb_Scalar\<close>, \<open>Pb_Fields\<close>: the codecs \<open>pb_enc_*\<close> and \<open>pb_dec_*\<close> of the fields.
  \<^item> \<open>Bn_Words\<close>: \<open>fipsmodule/bn/generic.c\<close>; \<open>Bn_Mul_Words\<close>: the word routines of \<open>mul.c\<close>, with Karatsuba's algorithm
    equal to the schoolbook one; \<open>Bn\<close>: \<open>bn.c\<close> and \<open>cmp.c\<close>; \<open>Bn_Arith\<close>: \<open>add.c\<close>; \<open>Bn_Shift\<close>: \<open>shift.c\<close>; \<open>Bn_Bytes\<close>:
    \<open>bytes.c\<close>; \<open>Bn_Asn1\<close>: \<open>bn_extra/bn_asn1.c\<close>, numbers as ASN.1 integers.
  \<^item> \<open>Bn_Ctx\<close>: \<open>ctx.c\<close>, the pool of temporary numbers and its frames; \<open>Bn_Pool\<close>: the operations on a number and a
    pool, how they compose, and how often the arrays of the pool can still double.
  \<^item> \<open>Bn_Mul\<close>: \<open>BN_mul\<close> and \<open>BN_sqr\<close>; \<open>Bn_Knuth\<close>: the digit loop of \<open>BN_div\<close>; \<open>Bn_Div\<close>: \<open>BN_div\<close>, \<open>BN_mod\<close>, \<open>BN_nnmod\<close>;
    \<open>Bn_Div_Word\<close>: division by a word and by a power of two; \<open>Bn_Reduce\<close>, \<open>Bn_Mod\<close>: the branch-free reductions and
    the modular operations of \<open>div.c\<close>; \<open>Bn_Normal\<close>: well-formed numbers as a type.
  \<^item> \<open>Bn_Mont_Words\<close>: \<open>montgomery_inv.c\<close> and the reduction of arrays of \<open>montgomery.c\<close>; \<open>Bn_Mont\<close>: the operations on
    numbers, with \<open>mont_rep\<close> for "is the Montgomery form of"; \<open>Bn_Mont_Setup\<close>: the set-up of a context and the routines for
    few words; \<open>Bn_Mont_Locked\<close>: \<open>BN_MONT_CTX_set_locked\<close> in interleaved threads, with the read-write lock explicit and every
    lock call and access to the shared pointer a step of its own.

  \<^bold>\<open>What the lemmas show.\<close>  Each representation has a well-formedness predicate (\<open>cbb_rep\<close>, \<open>stack_ok\<close>, \<open>lh_ok\<close>, \<open>buf_ok\<close>,
  \<open>bn_ok\<close>, \<open>ctx_ok\<close>) that the operations with a lemma preserve, and an abstract value with the functional behaviour on it: byte
  strings for the parsers, maps for the hash table, lists for stacks, \<open>nat\<close> and \<open>int\<close> for words and big numbers. A lemma
  named \<open>..._value\<close> says which number words stand for, \<open>..._run\<close> that an operation succeeds while memory lasts and what it
  leaves. \<open>bn_normal\<close>, a well-formed number without a negative zero, is kept by the arithmetic but not by every operation:
  \<open>le2bn_keeps_stale_sign\<close> shows one that does not. For \<open>CBB\<close> a refinement speaks of the operations that succeed, and
  \<open>implements\<close> adds that they fail only where the abstract builder does or memory is short; for \<open>cbb_rep\<close> nothing is said of
  a builder that an operation has marked with its error. For stacks, hash-table updates and byte buffers the
  properties say that a failure leaves the object as it was, for the \<open>CBS\<close> element parser and the varint readers exactly
  what is accepted, and for the nanopb field decoders that the bounds hold on failure too. Those of
  big-number arithmetic assume \<open>malloc_total\<close> and say when an operation refuses its arguments; what it leaves when memory
  runs out is in the definitions and not in these theorems, but for the pool of temporaries, whose property covers the
  state after a failure. The root theory holds what needs the parser and the builder together.

  \<^bold>\<open>Interfaces.\<close>  \<open>cmp_order\<close> is what sorting and binary search need of a comparison function; it is interpreted on the
  comparison of SET OF elements and on the one of the stacks. \<open>hash_fns\<close> is the contract of a hash table with its two
  callbacks, interpreted on the short names of objects. \<open>residue_words\<close> is a branch-free operation on residues as word
  arrays; its client is the modular arithmetic on numbers, and its instances are addition and subtraction.

  \<^bold>\<open>Bounds and fuel.\<close>  The loop that corrects the estimated digit of a quotient is \<open>qhat_loop\<close> with fuel \<open>div_fuel = 2\<close>;
  \<open>Bn_Knuth.qhat_loop_terminates\<close> proves that two rounds are always enough for the divisors the code passes, and no other
  function needs fuel. Lengths that a \<open>size_t\<close> cannot hold are excluded where the code cannot meet them: buffers
  stay below \<open>max_data\<close>, widths below \<open>bn_max_words\<close>, where the code stops growing a number. The arrays of a pool grow
  only when what is in use fills them: \<open>ctx_fit e c\<close> says that at most \<open>e\<close> frames and numbers are in use, an operation
  needs \<open>k\<close> more while it runs, and hypotheses such as \<open>e + k \<le> pool_max\<close> leave room for them. What is in use afterwards
  is what was in use before (\<open>pool_restored_fit\<close>), so a loop needs no more room than one round of it.

  \<^bold>\<open>Aliasing.\<close>  Where a result may be one of the arguments the argument is passed by its old value, if the code reads all
  of it before it writes; where the code asks (\<open>a == b\<close>, \<open>r == a\<close>) the answer is a boolean argument. That \<open>BN_div\<close> does
  not read its numerator's sign before it writes the quotient's is \<open>bn_div_in_place_sign\<close>.

  \<^bold>\<open>Not modelled.\<close>  The Swift application, gRPC and upb (C++, and generated tables); ciphers, digests, elliptic curves, RSA,
  X.509 and TLS of BoringSSL, exponentiation, greatest common divisors and primes of its big numbers,
  their text and MPI forms (\<open>convert.c\<close>), and the routines of which a build selects an assembly variant; \<open>BIO_snprintf\<close> (a
  wrapper of the C library, of which \<open>Oid\<close> uses the decimal of an unsigned number); \<open>bn_div_words\<close>, the portable division of a double word that this configuration replaces by the
  compiler's; of nanopb the walk over a message structure, submessages, callbacks and extensions, and what a
  failing stream callback has stored. Memory that is freed and functions that only free have no model. Loops
  that the code unrolls are written one step at a time. What a scratch array of a multiplication holds afterwards is
  left out, as is what freed memory holds.
\<close>

section \<open>Build and parse\<close>

text \<open>
  C2: every 64-bit integer survives the trip through the encoder and the decoder: a fresh CBB,
  \<open>CBB_add_asn1_int64\<close> and \<open>CBB_finish\<close> succeed, and \<open>CBS_get_asn1_int64\<close> reads the value back
  from the finished buffer and leaves whatever follows.
\<close>

theorem asn1_int64_roundtrip:
  assumes "malloc_total ma" and "n + 8 < 2 ^ 63"
  shows "\<exists>c0 c1 buf len c2. CBB_init ma n = Some c0
    \<and> CBB_add_asn1_int64 ma v 0 c0 = (Some (), c1)
    \<and> CBB_finish ma True True 0 c1 = (Some (Some buf, Some len), c2)
    \<and> CBS_get_asn1_int64 (take len buf @ rest) = (Some v, rest)"
proof -
  define e where "e = der_element CBS_ASN1_INTEGER (int_bytes (sint v))"
  have "malloc_spec ma" using assms(1) by (simp add: malloc_total_def)
  then have "refines (CBB_add_asn1_int64 ma v 0) (b_add 0 e)"
    unfolding e_def CBB_add_asn1_int64_eq by (rule add_integer_refines)
  moreover have "completes (CBB_add_asn1_int64 ma v 0) (b_add 0 e)"
    unfolding e_def CBB_add_asn1_int64_eq
    using length_int64_bytes [of v] by (intro add_integer_completes assms(1)) simp
  moreover have "length e < max_data"
    using length_der_element_bound [of CBS_ASN1_INTEGER "int_bytes (sint v)"] length_int64_bytes [of v]
    by (simp add: e_def)
  ultimately obtain c0 c1 buf c2 where "CBB_init ma n = Some c0"
    "CBB_add_asn1_int64 ma v 0 c0 = (Some (), c1)"
    "CBB_finish ma True True 0 c1 = (Some (Some buf, Some (length e)), c2)" "take (length e) buf = e"
    using build_element [OF assms] by (metis (full_types) old.unit.exhaust)
  moreover have "CBS_get_asn1_int64 (e @ rest) = (Some v, rest)"
    by (simp add: CBS_get_asn1_int64_iff e_def)
  ultimately show ?thesis by metis
qed

lemma asn1_int64_roundtrip_witness:
  "\<exists>c0 c1 buf len c2. CBB_init zero_malloc 16 = Some c0
    \<and> CBB_add_asn1_int64 zero_malloc (- 129) 0 c0 = (Some (), c1)
    \<and> CBB_finish zero_malloc True True 0 c1 = (Some (Some buf, Some len), c2)
    \<and> CBS_get_asn1_int64 (take len buf @ [7]) = (Some (- 129), [7])"
  by (rule asn1_int64_roundtrip) simp_all

end
